(* ===== verification/Prelude.thy ===== *)
theory Prelude
  imports Main "HOL-Library.Word"
begin

text \<open>
  Shared vocabulary of the development: the machine integers of the Rust sources as words,
  byte buffers with little-endian fields, slices and in-place writes of buffers, the
  saturating and rounding operations of the Rust standard library that the sources use,
  and the lemma collections the component theories rely on.
\<close>

unbundle bit_operations_syntax

named_theorems buf_simps \<open>reading fields back out of a buffer that was written field by field\<close>
named_theorems word_nat \<open>moving between words and natural numbers\<close>

section \<open>Machine integers\<close>

type_synonym u8 = "8 word"
type_synonym u16 = "16 word"
type_synonym u32 = "32 word"
type_synonym u64 = "64 word"
type_synonym uuid = "128 word"
type_synonym bytes = "u8 list"

text \<open>\<open>Uuid::nil()\<close>.\<close>

abbreviation uuid_nil :: uuid where
  "uuid_nil \<equiv> 0"

text \<open>Rust's \<open>saturating_add\<close>, \<open>saturating_sub\<close>, \<open>saturating_mul\<close> and \<open>div_ceil\<close>.\<close>

definition sat_add :: "'a::len word \<Rightarrow> 'a word \<Rightarrow> 'a word" where
  "sat_add a b = (if unat a + unat b < 2 ^ LENGTH('a) then a + b else - 1)"

definition u64_max :: nat where
  "u64_max = 2 ^ 64 - 1"

definition u32_max :: nat where
  "u32_max = 2 ^ 32 - 1"

definition sat_mul64 :: "nat \<Rightarrow> nat \<Rightarrow> nat" where
  "sat_mul64 a b = min u64_max (a * b)"

definition sat_add64 :: "nat \<Rightarrow> nat \<Rightarrow> nat" where
  "sat_add64 a b = min u64_max (a + b)"

definition div_ceil :: "nat \<Rightarrow> nat \<Rightarrow> nat" where
  "div_ceil a b = (a + (b - 1)) div b"

lemma div_ceil_ge: "0 < b \<Longrightarrow> a \<le> div_ceil a b * b"
proof -
  assume b: "0 < b"
  have "a + (b - 1) = div_ceil a b * b + (a + (b - 1)) mod b"
    by (simp add: div_ceil_def)
  moreover have "(a + (b - 1)) mod b \<le> b - 1"
    using b by (simp add: Suc_leI less_Suc_eq_le [symmetric])
  ultimately show ?thesis by linarith
qed

lemma div_ceil_less: "0 < b \<Longrightarrow> div_ceil a b * b < a + b"
proof -
  assume b: "0 < b"
  have "div_ceil a b * b \<le> a + (b - 1)"
    by (simp add: div_ceil_def div_times_less_eq_dividend)
  with b show ?thesis by linarith
qed

lemma div_ceil_le: "0 < b \<Longrightarrow> a \<le> b * k \<Longrightarrow> div_ceil a b \<le> k"
proof -
  assume b: "0 < b" and k: "a \<le> b * k"
  have "a + (b - 1) < (k + 1) * b" using b k by (simp add: algebra_simps)
  then have "(a + (b - 1)) div b < k + 1" by (rule less_mult_imp_div_less)
  then show ?thesis by (simp add: div_ceil_def)
qed

lemma div_ceil_0 [simp]: "div_ceil 0 b = 0"
  by (cases b) (simp_all add: div_ceil_def)

lemma unat_sat_add:
  fixes a b :: "'a::len word"
  shows "unat (sat_add a b) = min (2 ^ LENGTH('a) - 1) (unat a + unat b)"
proof (cases "unat a + unat b < 2 ^ LENGTH('a)")
  case True
  then show ?thesis
    by (simp add: sat_add_def unat_word_ariths take_bit_nat_eq_self)
next
  case False
  have "unat (- 1 :: 'a word) = 2 ^ LENGTH('a) - 1"
    by (simp add: unsigned_minus_1_eq_mask mask_eq_exp_minus_1)
  with False show ?thesis
    by (simp add: sat_add_def)
qed

section \<open>Buffers\<close>

text \<open>\<open>buf[a..b]\<close>, and \<open>buf[at..at + src.len()].copy_from_slice(src)\<close>.\<close>

definition slice_of :: "nat \<Rightarrow> nat \<Rightarrow> 'a list \<Rightarrow> 'a list" where
  "slice_of a b xs = take (b - a) (drop a xs)"

definition put :: "nat \<Rightarrow> 'a list \<Rightarrow> 'a list \<Rightarrow> 'a list" where
  "put at src buf =
     map (\<lambda>i. if at \<le> i \<and> i < at + length src then src ! (i - at) else buf ! i) [0..<length buf]"

text \<open>\<open>vec![0u8; n]\<close>.\<close>

definition zero_buf :: "nat \<Rightarrow> bytes" where
  "zero_buf n = replicate n 0"

lemma length_zero_buf [simp]: "length (zero_buf n) = n"
  by (simp add: zero_buf_def)

lemma length_put [simp]: "length (put at src buf) = length buf"
  by (simp add: put_def)

lemma length_slice [simp]: "length (slice_of a b xs) = min (b - a) (length xs - a)"
  by (simp add: slice_of_def)

lemma nth_put:
  assumes "i < length buf"
  shows "put at src buf ! i = (if at \<le> i \<and> i < at + length src then src ! (i - at) else buf ! i)"
  using assms by (simp add: put_def)

lemma put_append:
  assumes "at + length src \<le> length buf"
  shows "put at src buf = take at buf @ src @ drop (at + length src) buf"
  using assms by (intro nth_equalityI) (auto simp: nth_put nth_append not_less min_def)

lemma slice_put_same [buf_simps]:
  assumes "at + length src \<le> length buf" and "a = at" and "b = at + length src"
  shows "slice_of a b (put at src buf) = src"
  using assms by (simp add: slice_of_def put_append)

lemma nth_slice: "a + i < length xs \<Longrightarrow> i < b - a \<Longrightarrow> slice_of a b xs ! i = xs ! (a + i)"
  by (simp add: slice_of_def)

lemma slice_put_other [buf_simps]:
  assumes "b \<le> at \<or> at + length src \<le> a"
  shows "slice_of a b (put at src buf) = slice_of a b buf"
  using assms by (intro nth_equalityI) (auto simp: nth_slice nth_put)

lemma nth_put_other [buf_simps]:
  assumes "i < length buf" and "i < at \<or> at + length src \<le> i"
  shows "put at src buf ! i = buf ! i"
  using assms by (auto simp: nth_put)

lemma nth_put_same [buf_simps]:
  assumes "i < length buf" and "at \<le> i" and "i < at + length src"
  shows "put at src buf ! i = src ! (i - at)"
  using assms by (auto simp: nth_put)

lemma take_put [buf_simps]:
  assumes "n \<le> at"
  shows "take n (put at src buf) = take n buf"
  using assms by (intro nth_equalityI) (auto simp: nth_put)

lemma take_eq_slice: "take n xs = slice_of 0 n xs"
  by (simp add: slice_of_def)

lemma slice_replicate [simp]: "slice_of a b (replicate n x) = replicate (min (b - a) (n - a)) x"
  by (simp add: slice_of_def)

section \<open>Little-endian and big-endian fields\<close>

text \<open>
  \<open>to_le n w\<close> is \<open>w.to_le_bytes()\<close> for an \<open>n\<close>-byte integer; \<open>from_le\<close> is
  \<open>from_le_bytes\<close>. A \<open>Uuid\<close> is its sixteen bytes, most significant first.
\<close>

definition to_le :: "nat \<Rightarrow> 'a::len word \<Rightarrow> bytes" where
  "to_le n w = map (\<lambda>i. ucast (drop_bit (8 * i) w)) [0..<n]"

primrec from_le :: "bytes \<Rightarrow> 'a::len word" where
  "from_le [] = 0"
| "from_le (b # bs) = ucast b OR push_bit 8 (from_le bs)"

definition uuid_bytes :: "uuid \<Rightarrow> bytes" where
  "uuid_bytes u = rev (to_le 16 u)"

definition uuid_of :: "bytes \<Rightarrow> uuid" where
  "uuid_of bs = from_le (rev bs)"

lemma length_to_le [simp]: "length (to_le n w) = n"
  by (simp add: to_le_def)

lemma length_uuid_bytes [simp]: "length (uuid_bytes u) = 16"
  by (simp add: uuid_bytes_def)

lemma bit_from_le:
  "bit (from_le bs :: 'a::len word) i \<longleftrightarrow>
     i < LENGTH('a) \<and> i div 8 < length bs \<and> bit (bs ! (i div 8)) (i mod 8)"
proof (induction bs arbitrary: i)
  case Nil
  then show ?case by simp
next
  case (Cons b bs)
  show ?case
  proof (cases "i < 8")
    case True
    then show ?thesis
      by (auto simp: bit_or_iff bit_push_bit_iff bit_ucast_iff)
  next
    case False
    then obtain j where j: "i = j + 8" by (metis add.commute le_add_diff_inverse not_less)
    have nb: "\<not> bit b (j + 8)"
      using bit_imp_le_length [of b "j + 8"] by auto
    have d: "(j + 8) div 8 = Suc (j div 8)" by simp
    show ?thesis
      using Cons.IH [of j] nb
      by (auto simp: j d bit_or_iff bit_push_bit_iff bit_ucast_iff dest: bit_imp_le_length)
  qed
qed

lemma from_to_le [simp]:
  fixes w :: "'a::len word"
  assumes "LENGTH('a) = 8 * n"
  shows "from_le (to_le n w) = w"
proof (rule bit_word_eqI)
  fix i assume i: "i < LENGTH('a)"
  then have d: "i div 8 < n" using assms by auto
  have "8 * (i div 8) + i mod 8 = i" by simp
  then show "bit (from_le (to_le n w) :: 'a word) i = bit w i"
    using i d by (simp add: bit_from_le to_le_def bit_ucast_iff bit_drop_bit_eq)
qed

lemma uuid_of_bytes [simp]: "uuid_of (uuid_bytes u) = u"
  by (simp add: uuid_of_def uuid_bytes_def)

section \<open>Small list facts\<close>

text \<open>\<open>iter().position(p)\<close>: the index of the first element that satisfies \<open>p\<close>.\<close>

primrec position :: "('a \<Rightarrow> bool) \<Rightarrow> 'a list \<Rightarrow> nat option" where
  "position p [] = None"
| "position p (x # xs) = (if p x then Some 0 else map_option Suc (position p xs))"

lemma position_None: "position p xs = None \<longleftrightarrow> (\<forall>x\<in>set xs. \<not> p x)"
  by (induction xs) auto

lemma position_SomeD:
  "position p xs = Some i \<Longrightarrow> i < length xs \<and> p (xs ! i) \<and> (\<forall>j<i. \<not> p (xs ! j))"
  by (induction xs arbitrary: i) (auto simp: nth_Cons' split: if_splits)

lemma position_SomeI:
  "i < length xs \<Longrightarrow> p (xs ! i) \<Longrightarrow> (\<And>j. j < i \<Longrightarrow> \<not> p (xs ! j)) \<Longrightarrow> position p xs = Some i"
proof (induction xs arbitrary: i)
  case Nil
  then show ?case by simp
next
  case (Cons x xs)
  show ?case
  proof (cases i)
    case 0
    then show ?thesis using Cons.prems by simp
  next
    case (Suc k)
    have "\<not> p x" using Cons.prems(3) [of 0] Suc by simp
    moreover have "position p xs = Some k"
      using Cons.prems Suc by (intro Cons.IH) force+
    ultimately show ?thesis using Suc by simp
  qed
qed

lemma position_append:
  "position p (xs @ ys) = (case position p xs of Some i \<Rightarrow> Some i
     | None \<Rightarrow> map_option (\<lambda>i. length xs + i) (position p ys))"
proof (induction xs)
  case Nil
  then show ?case by (cases "position p ys") auto
next
  case (Cons x xs)
  then show ?case by (cases "position p xs"; cases "position p ys") auto
qed

text \<open>\<open>count_ones()\<close> of a bit vector.\<close>

definition count_true :: "bool list \<Rightarrow> nat" where
  "count_true bs = length (filter (\<lambda>b. b) bs)"

lemma count_true_simps [simp]:
  "count_true [] = 0"
  "count_true (b # bs) = (if b then Suc (count_true bs) else count_true bs)"
  "count_true (xs @ ys) = count_true xs + count_true ys"
  "count_true (replicate n b) = (if b then n else 0)"
  by (simp_all add: count_true_def)

lemma count_true_le: "count_true bs \<le> length bs"
  by (simp add: count_true_def)

lemma count_true_card: "card {i. i < length bs \<and> bs ! i} = count_true bs"
  by (simp add: count_true_def length_filter_conv_card)

lemma count_true_pos: "0 < count_true bs \<longleftrightarrow> (\<exists>i<length bs. bs ! i)"
proof -
  have "0 < count_true bs \<longleftrightarrow> (\<exists>b\<in>set bs. b)"
    by (simp add: count_true_def filter_empty_conv)
  also have "\<dots> \<longleftrightarrow> (\<exists>i<length bs. bs ! i)"
    by (metis in_set_conv_nth)
  finally show ?thesis .
qed

lemma split_at_two: "take s xs @ take n (drop s xs) @ drop (s + n) xs = xs"
  by (simp add: add.commute flip: drop_drop)

lemma sum_list_update_nat:
  fixes xs :: "nat list"
  assumes "i < length xs"
  shows "sum_list (xs[i := v]) + xs ! i = sum_list xs + v"
  using assms by (induction xs arbitrary: i) (auto simp: nth_Cons' split: nat.splits)

lemma count_list_update_True:
  assumes "i < length bs" and "\<not> bs ! i"
  shows "count_true (bs[i := True]) = Suc (count_true bs)"
  using assms by (induction bs arbitrary: i) (auto simp: nth_Cons' split: nat.splits)

lemma count_list_update_False:
  assumes "i < length bs" and "bs ! i"
  shows "Suc (count_true (bs[i := False])) = count_true bs"
  using assms by (induction bs arbitrary: i) (auto simp: nth_Cons' split: nat.splits)

section \<open>Ordered and hashed maps\<close>

text \<open>
  \<open>BTreeMap\<close> and \<open>HashMap\<close> as association lists in key order: \<open>insert\<close> and \<open>remove\<close>;
  \<open>get\<close> is \<open>map_of\<close>, \<open>len\<close> is \<open>length\<close>.
\<close>

definition al_del :: "'k \<Rightarrow> ('k \<times> 'v) list \<Rightarrow> ('k \<times> 'v) list" where
  "al_del k m = filter (\<lambda>p. fst p \<noteq> k) m"

definition al_put :: "'k::linorder \<Rightarrow> 'v \<Rightarrow> ('k \<times> 'v) list \<Rightarrow> ('k \<times> 'v) list" where
  "al_put k v m = insort_key fst (k, v) (al_del k m)"

definition al_wf :: "('k::linorder \<times> 'v) list \<Rightarrow> bool" where
  "al_wf m \<longleftrightarrow> distinct (map fst m) \<and> sorted (map fst m)"

lemma al_get_del [simp]: "map_of (al_del k m) = (map_of m)(k := None)"
  by (induction m) (auto simp: al_del_def fun_eq_iff)

lemma map_of_insort:
  assumes "k \<notin> fst ` set m"
  shows "map_of (insort_key fst (k, v) m) = (map_of m)(k \<mapsto> v)"
  using assms by (induction m) (auto simp: fun_eq_iff)

lemma al_get_put [simp]: "map_of (al_put k v m) = (map_of m)(k \<mapsto> v)"
proof -
  have "k \<notin> fst ` set (al_del k m)" by (auto simp: al_del_def)
  then show ?thesis by (simp add: al_put_def map_of_insort)
qed

lemma al_keys: "fst ` set m = dom (map_of m)"
  by (simp add: dom_map_of_conv_image_fst)

lemma al_wf_Nil [simp]: "al_wf []"
  by (simp add: al_wf_def)

lemma al_wf_del [simp]: "al_wf m \<Longrightarrow> al_wf (al_del k m)"
  by (auto simp: al_wf_def al_del_def distinct_map_filter sorted_filter)

lemma al_wf_put [simp]:
  assumes "al_wf m"
  shows "al_wf (al_put k v m)"
proof -
  have "al_wf (al_del k m)" using assms by simp
  moreover have "k \<notin> fst ` set (al_del k m)" by (auto simp: al_del_def)
  ultimately show ?thesis
    by (auto simp: al_wf_def al_put_def distinct_map sorted_insort_key set_insort_key distinct_insort
        inj_on_def image_iff)
qed

lemma al_card: "al_wf m \<Longrightarrow> length m = card (dom (map_of m))"
  by (metis al_keys al_wf_def distinct_card length_map list.set_map)

text \<open>Rust's \<open>?\<close>: go on with the value, or return the error as it is, the state kept either way.\<close>

definition and_then :: "('e + 'a) \<times> 's \<Rightarrow> ('a \<Rightarrow> 's \<Rightarrow> ('e + 'b) \<times> 's) \<Rightarrow> ('e + 'b) \<times> 's" where
  "and_then r f = (case r of (Inl e, s) \<Rightarrow> (Inl e, s) | (Inr x, s) \<Rightarrow> f x s)"

lemma and_then_simps [simp]:
  "and_then (Inl e, s) f = (Inl e, s)"
  "and_then (Inr x, s) f = f x s"
  by (simp_all add: and_then_def)

text \<open>The state after a step satisfies \<open>Q\<close>, whatever the result, if each part of it keeps it.\<close>

lemma and_then_state:
  assumes "Q (snd r)" and "\<And>x s. r = (Inr x, s) \<Longrightarrow> Q (snd (f x s))"
  shows "Q (snd (and_then r f))"
  using assms by (cases r; cases "fst r") (auto simp: and_then_def)

end
