(* ===== verification/SlotCodec.thy ===== *)
theory SlotCodec
  imports Prelude
begin

text \<open>
  The on-disk records of a slab (\<open>src/drive/slab.rs\<close>): the 64-byte slot table entry and the
  4 KiB slab header, in both formats. The checksum (\<open>crc32c\<close>, a third-party crate) is a
  parameter: every fact here holds for any function of that type. Shown: what is written
  is read back, field by field; an entry or header whose checksum does not match is
  refused; a format 1 header never carries more than a 32-bit table capacity.
\<close>

section \<open>Slots\<close>

datatype slot_state = Free | Allocated | Moving | Erasing

fun is_owned :: "slot_state \<Rightarrow> bool" where
  "is_owned Allocated = True"
| "is_owned Moving = True"
| "is_owned _ = False"

definition state_code :: "slot_state \<Rightarrow> u8" where
  "state_code s = (case s of Free \<Rightarrow> 0 | Allocated \<Rightarrow> 1 | Moving \<Rightarrow> 2 | Erasing \<Rightarrow> 3)"

definition state_from :: "u8 \<Rightarrow> slot_state" where
  "state_from v = (if v = 1 then Allocated else if v = 2 then Moving else if v = 3 then Erasing else Free)"

record slot =
  sl_state :: slot_state
  sl_volume :: uuid
  sl_vext :: u64
  sl_refs :: u32
  sl_gen :: u64

definition slot_free :: slot where
  "slot_free = \<lparr>sl_state = Free, sl_volume = uuid_nil, sl_vext = 0, sl_refs = 0, sl_gen = 0\<rparr>"

definition SLOT_ENTRY_SIZE :: nat where
  "SLOT_ENTRY_SIZE = 64"

definition slot_to_bytes :: "(bytes \<Rightarrow> u32) \<Rightarrow> slot \<Rightarrow> bytes" where
  "slot_to_bytes crc s =
     (let buf = zero_buf 64;
          buf = buf[0 := state_code (sl_state s)];
          buf = put 4 (uuid_bytes (sl_volume s)) buf;
          buf = put 20 (to_le 8 (sl_vext s)) buf;
          buf = put 28 (to_le 4 (sl_refs s)) buf;
          buf = put 32 (to_le 8 (sl_gen s)) buf
      in put 60 (to_le 4 (crc (take 60 buf))) buf)"

definition slot_from_bytes :: "(bytes \<Rightarrow> u32) \<Rightarrow> bytes \<Rightarrow> slot option" where
  "slot_from_bytes crc data =
     (if length data < 64 then None
      else let stored = from_le (slice_of 60 64 data); computed = crc (take 60 data) in
        if stored \<noteq> computed then None
        else Some \<lparr>sl_state = state_from (data ! 0),
                   sl_volume = uuid_of (slice_of 4 20 data),
                   sl_vext = from_le (slice_of 20 28 data),
                   sl_refs = from_le (slice_of 28 32 data),
                   sl_gen = from_le (slice_of 32 40 data)\<rparr>)"

lemma state_from_code [simp]: "state_from (state_code s) = s"
  by (cases s) (simp_all add: state_from_def state_code_def)

lemma put_single: "xs[i := v] = put i [v] xs" if "i < length xs"
  using that by (simp add: put_append upd_conv_take_nth_drop)

lemma length_slot_to_bytes [simp]: "length (slot_to_bytes crc s) = 64"
  by (simp add: slot_to_bytes_def Let_def)

text \<open>
  C15. A slot table entry written and read back is the same slot, whatever the checksum
  function: state, owner, virtual extent, share count and generation.
\<close>

theorem slot_roundtrip: "slot_from_bytes crc (slot_to_bytes crc s) = Some s"
  by (simp add: slot_from_bytes_def slot_to_bytes_def Let_def put_single buf_simps)

lemma slot_from_bytes_checked:
  "slot_from_bytes crc data = Some s \<Longrightarrow> from_le (slice_of 60 64 data) = crc (take 60 data) \<and> 64 \<le> length data"
  by (auto simp: slot_from_bytes_def Let_def split: if_splits)

section \<open>The slab header\<close>

datatype storage_tier = Hot | Warm | Cool | Cold

definition tier_code :: "storage_tier \<Rightarrow> u8" where
  "tier_code t = (case t of Hot \<Rightarrow> 0 | Warm \<Rightarrow> 1 | Cool \<Rightarrow> 2 | Cold \<Rightarrow> 3)"

definition tier_from :: "u8 \<Rightarrow> storage_tier" where
  "tier_from v = (if v = 0 then Hot else if v = 1 then Warm else if v = 2 then Cool else Cold)"

datatype slab_role = System | Data

definition role_code :: "slab_role \<Rightarrow> u8" where
  "role_code r = (case r of System \<Rightarrow> 0 | Data \<Rightarrow> 1)"

definition role_from :: "u8 \<Rightarrow> slab_role" where
  "role_from v = (if v = 1 then Data else System)"

definition SLAB_MAGIC :: bytes where
  "SLAB_MAGIC = [0x53, 0x54, 0x52, 0x4D, 0x53, 0x4C, 0x41, 0x42]"

abbreviation SLAB_VERSION :: u32 where
  "SLAB_VERSION \<equiv> 1"

abbreviation SLAB_VERSION_2 :: u32 where
  "SLAB_VERSION_2 \<equiv> 2"

definition HEADER_SIZE :: nat where
  "HEADER_SIZE = 4096"

record slab_header =
  h_slab_uuid :: uuid
  h_device_uuid :: uuid
  h_slot_size :: u64
  h_total_slots :: u64
  h_free_slots :: u64
  h_data_offset :: u64
  h_table_offset :: u64
  h_create_time :: u64
  h_update_time :: u64
  h_tier :: storage_tier
  h_flags :: u8
  h_role :: slab_role
  h_meta_offset :: u64
  h_meta_size :: u64
  h_table_capacity :: u64
  h_table_room :: u64
  h_span :: u64
  h_partner :: uuid
  h_moved_to :: uuid
  h_checksum :: u32
  h_version :: u32

datatype header_error = HeaderTooShort | BadMagic | BadVersion u32 | HeaderCrcMismatch

definition crc_v2 :: "(bytes \<Rightarrow> u32) \<Rightarrow> bytes \<Rightarrow> u32" where
  "crc_v2 crc buf = crc (take 124 buf @ slice_of 128 256 buf)"

text \<open>The fields both formats share, bytes 0 to 120.\<close>

definition header_common :: "slab_header \<Rightarrow> bytes" where
  "header_common h =
     (let buf = zero_buf 4096;
          buf = put 0 SLAB_MAGIC buf;
          buf = put 8 (to_le 4 (h_version h)) buf;
          buf = put 12 (uuid_bytes (h_slab_uuid h)) buf;
          buf = put 28 (uuid_bytes (h_device_uuid h)) buf;
          buf = put 44 (to_le 8 (h_slot_size h)) buf;
          buf = put 52 (to_le 8 (h_total_slots h)) buf;
          buf = put 60 (to_le 8 (h_free_slots h)) buf;
          buf = put 68 (to_le 8 (h_data_offset h)) buf;
          buf = put 76 (to_le 8 (h_table_offset h)) buf;
          buf = put 84 (to_le 8 (h_create_time h)) buf;
          buf = put 92 (to_le 8 (h_update_time h)) buf;
          buf = put 100 [tier_code (h_tier h)] buf;
          buf = put 101 [h_flags h] buf;
          buf = put 102 [role_code (h_role h)] buf;
          buf = put 104 (to_le 8 (h_meta_offset h)) buf
      in put 112 (to_le 8 (h_meta_size h)) buf)"

definition header_to_bytes :: "(bytes \<Rightarrow> u32) \<Rightarrow> slab_header \<Rightarrow> bytes" where
  "header_to_bytes crc h =
     (let buf = header_common h;
          cap = (if h_table_capacity h > h_total_slots h then h_table_capacity h else 0) in
      if h_version h = SLAB_VERSION_2 then
        (let buf = put 128 (to_le 8 cap) buf;
             room = (if h_table_room h > max (h_table_capacity h) (h_total_slots h) then h_table_room h else 0);
             buf = put 136 (to_le 8 room) buf;
             span = (if h_span h > h_total_slots h then h_span h else 0);
             buf = put 144 (to_le 8 span) buf;
             buf = put 152 (uuid_bytes (h_partner h)) buf;
             buf = put 168 (uuid_bytes (h_moved_to h)) buf
         in put 124 (to_le 4 (crc_v2 crc buf)) buf)
      else
        (let buf = put 120 (to_le 4 (ucast (min cap 0xFFFFFFFF) :: u32)) buf
         in put 124 (to_le 4 (crc (take 124 buf))) buf))"

definition header_from_bytes :: "(bytes \<Rightarrow> u32) \<Rightarrow> bytes \<Rightarrow> header_error + slab_header" where
  "header_from_bytes crc data =
     (if length data < 128 then Inl HeaderTooShort
      else if slice_of 0 8 data \<noteq> SLAB_MAGIC then Inl BadMagic
      else let version = (from_le (slice_of 8 12 data) :: u32) in
      if version \<noteq> SLAB_VERSION \<and> version \<noteq> SLAB_VERSION_2 then Inl (BadVersion version)
      else if version = SLAB_VERSION_2 \<and> length data < 256 then Inl HeaderTooShort
      else let stored = (from_le (slice_of 124 128 data) :: u32);
               computed = (if version = SLAB_VERSION_2 then crc_v2 crc data else crc (take 124 data)) in
      if stored \<noteq> computed then Inl HeaderCrcMismatch
      else let total_slots = (from_le (slice_of 52 60 data) :: u64);
               table_capacity = (if version = SLAB_VERSION_2
                                 then max (from_le (slice_of 128 136 data)) total_slots
                                 else max (ucast (from_le (slice_of 120 124 data) :: u32)) total_slots);
               table_room = (if version = SLAB_VERSION_2
                             then max (from_le (slice_of 136 144 data)) table_capacity else table_capacity);
               span = (if version = SLAB_VERSION_2
                       then max (from_le (slice_of 144 152 data)) total_slots else total_slots)
      in Inr \<lparr>h_slab_uuid = uuid_of (slice_of 12 28 data),
               h_device_uuid = uuid_of (slice_of 28 44 data),
               h_slot_size = from_le (slice_of 44 52 data),
               h_total_slots = total_slots,
               h_free_slots = from_le (slice_of 60 68 data),
               h_data_offset = from_le (slice_of 68 76 data),
               h_table_offset = from_le (slice_of 76 84 data),
               h_create_time = from_le (slice_of 84 92 data),
               h_update_time = from_le (slice_of 92 100 data),
               h_tier = tier_from (data ! 100),
               h_flags = data ! 101,
               h_role = role_from (data ! 102),
               h_meta_offset = from_le (slice_of 104 112 data),
               h_meta_size = from_le (slice_of 112 120 data),
               h_table_capacity = table_capacity,
               h_table_room = table_room,
               h_span = span,
               h_partner = (if version = SLAB_VERSION_2 then uuid_of (slice_of 152 168 data) else uuid_nil),
               h_moved_to = (if version = SLAB_VERSION_2 then uuid_of (slice_of 168 184 data) else uuid_nil),
               h_checksum = stored,
               h_version = version\<rparr>)"

section \<open>The header round trip\<close>

text \<open>
  What a header says: capacities are read as at least the slots the slab has, and format 1
  has neither room beyond its capacity, nor a span, nor a partner.
\<close>

definition header_wf :: "slab_header \<Rightarrow> bool" where
  "header_wf h \<longleftrightarrow> h_total_slots h \<le> h_table_capacity h \<and> h_table_capacity h \<le> h_table_room h \<and>
     h_total_slots h \<le> h_span h \<and>
     (h_version h = SLAB_VERSION_2 \<or>
      h_version h = SLAB_VERSION \<and> h_table_room h = h_table_capacity h \<and> h_span h = h_total_slots h \<and>
      h_partner h = uuid_nil \<and> h_moved_to h = uuid_nil \<and>
      (h_table_capacity h \<le> 0xFFFFFFFF \<or> h_table_capacity h = h_total_slots h))"

lemma tier_from_code [simp]: "tier_from (tier_code t) = t"
  by (cases t) (simp_all add: tier_from_def tier_code_def)

lemma role_from_code [simp]: "role_from (role_code r) = r"
  by (cases r) (simp_all add: role_from_def role_code_def)

lemma length_SLAB_MAGIC [simp]: "length SLAB_MAGIC = 8"
  by (simp add: SLAB_MAGIC_def)

lemma length_header_common [simp]: "length (header_common h) = 4096"
  by (simp add: header_common_def Let_def)

lemma length_header_to_bytes [simp]: "length (header_to_bytes crc h) = 4096"
  by (simp add: header_to_bytes_def Let_def)

lemmas buf_len = length_put length_to_le length_uuid_bytes length_replicate list.size

lemma header_common_fields [buf_simps]:
  "slice_of 0 8 (header_common h) = SLAB_MAGIC"
  "slice_of 8 12 (header_common h) = to_le 4 (h_version h)"
  "slice_of 12 28 (header_common h) = uuid_bytes (h_slab_uuid h)"
  "slice_of 28 44 (header_common h) = uuid_bytes (h_device_uuid h)"
  "slice_of 44 52 (header_common h) = to_le 8 (h_slot_size h)"
  "slice_of 52 60 (header_common h) = to_le 8 (h_total_slots h)"
  "slice_of 60 68 (header_common h) = to_le 8 (h_free_slots h)"
  "slice_of 68 76 (header_common h) = to_le 8 (h_data_offset h)"
  "slice_of 76 84 (header_common h) = to_le 8 (h_table_offset h)"
  "slice_of 84 92 (header_common h) = to_le 8 (h_create_time h)"
  "slice_of 92 100 (header_common h) = to_le 8 (h_update_time h)"
  "header_common h ! 100 = tier_code (h_tier h)"
  "header_common h ! 101 = h_flags h"
  "header_common h ! 102 = role_code (h_role h)"
  "slice_of 104 112 (header_common h) = to_le 8 (h_meta_offset h)"
  "slice_of 112 120 (header_common h) = to_le 8 (h_meta_size h)"
  by (simp_all add: header_common_def Let_def buf_simps)

lemma header_common_upd [simp]:
  "header_common (h\<lparr>h_checksum := c\<rparr>) = header_common h"
  by (simp add: header_common_def)

text \<open>The checksum a written header carries.\<close>

definition header_crc :: "(bytes \<Rightarrow> u32) \<Rightarrow> slab_header \<Rightarrow> u32" where
  "header_crc crc h = from_le (slice_of 124 128 (header_to_bytes crc h))"

lemma ucast_min_u32:
  fixes cap :: u64
  assumes "cap \<le> 0xFFFFFFFF"
  shows "(ucast (ucast cap :: u32) :: u64) = cap"
proof (rule bit_word_eqI)
  fix i assume "i < LENGTH(64)"
  have "unat cap \<le> unat (0xFFFFFFFF :: u64)" using assms by (simp add: word_le_nat_alt)
  then have "unat cap < 2 ^ 32" by simp
  then have "take_bit 32 (unat cap) = unat cap" by (simp add: take_bit_nat_eq_self)
  then have "bit (unat cap) i \<Longrightarrow> i < 32" by (metis bit_take_bit_iff)
  then have "bit cap i \<Longrightarrow> i < 32" by (simp add: bit_unsigned_iff bit_imp_le_length)
  then show "bit (ucast (ucast cap :: u32) :: u64) i = bit cap i"
    by (auto simp: bit_ucast_iff dest: bit_imp_le_length)
qed

lemma max_or_zero:
  fixes t c :: u64
  assumes "t \<le> c"
  shows "max (if t < c then c else 0) t = c"
  using assms by (auto simp: max_def)

lemma header_v2_fields:
  fixes crc :: "bytes \<Rightarrow> u32"
  assumes "h_version h = SLAB_VERSION_2"
  defines "d \<equiv> header_to_bytes crc h"
  shows "\<And>a b. b \<le> 120 \<Longrightarrow> slice_of a b d = slice_of a b (header_common h)"
    and "\<And>i. i < 120 \<Longrightarrow> d ! i = header_common h ! i"
    and "slice_of 128 136 d = to_le 8 (if h_table_capacity h > h_total_slots h then h_table_capacity h else 0)"
    and "slice_of 136 144 d = to_le 8 (if h_table_room h > max (h_table_capacity h) (h_total_slots h)
                                       then h_table_room h else 0)"
    and "slice_of 144 152 d = to_le 8 (if h_span h > h_total_slots h then h_span h else 0)"
    and "slice_of 152 168 d = uuid_bytes (h_partner h)"
    and "slice_of 168 184 d = uuid_bytes (h_moved_to h)"
    and "from_le (slice_of 124 128 d) = crc_v2 crc d"
  by (simp_all only: d_def header_to_bytes_def assms Let_def if_True)
     (simp_all add: buf_simps crc_v2_def)

lemma header_v1_fields:
  fixes crc :: "bytes \<Rightarrow> u32"
  assumes "h_version h \<noteq> SLAB_VERSION_2"
  defines "d \<equiv> header_to_bytes crc h"
  shows "\<And>a b. b \<le> 120 \<Longrightarrow> slice_of a b d = slice_of a b (header_common h)"
    and "\<And>i. i < 120 \<Longrightarrow> d ! i = header_common h ! i"
    and "slice_of 120 124 d = to_le 4 (ucast (min (if h_table_capacity h > h_total_slots h
                                              then h_table_capacity h else 0) 0xFFFFFFFF) :: u32)"
    and "from_le (slice_of 124 128 d) = crc (take 124 d)"
  by (simp_all only: d_def header_to_bytes_def assms Let_def if_False)
     (simp_all add: buf_simps)

text \<open>
  A slab header of either format, written and opened again, is the header that was
  written (with the checksum it was written with), whatever the checksum function: every
  offset, size and capacity, the role, the partner and where the system moved. The
  hypothesis is what the engine keeps of its headers: capacities at least the slots there
  are, and a format 1 header with nothing that format has no room for.
\<close>

theorem header_roundtrip:
  assumes "header_wf h"
  shows "header_from_bytes crc (header_to_bytes crc h) = Inr (h\<lparr>h_checksum := header_crc crc h\<rparr>)"
proof (cases "h_version h = SLAB_VERSION_2")
  case True
  note f = header_v2_fields [OF True, where crc = crc]
  have "max (h_table_capacity h) (h_total_slots h) = h_table_capacity h"
    using assms by (auto simp: header_wf_def max_def)
  moreover have "h_total_slots h \<le> h_table_capacity h" "h_table_capacity h \<le> h_table_room h"
    "h_total_slots h \<le> h_span h"
    using assms by (simp_all add: header_wf_def)
  ultimately show ?thesis
    by (simp add: header_from_bytes_def Let_def f header_common_fields True max_or_zero header_crc_def)
next
  case False
  note f = header_v1_fields [OF False, where crc = crc]
  have v1: "h_version h = SLAB_VERSION" "h_table_room h = h_table_capacity h"
    "h_span h = h_total_slots h" "h_partner h = uuid_nil" "h_moved_to h = uuid_nil"
    "h_total_slots h \<le> h_table_capacity h"
    and cap: "h_table_capacity h \<le> 0xFFFFFFFF \<or> h_table_capacity h = h_total_slots h"
    using assms False by (auto simp: header_wf_def)
  have "max (ucast (ucast (min (if h_table_capacity h > h_total_slots h then h_table_capacity h else 0) 0xFFFFFFFF) :: u32))
          (h_total_slots h) = h_table_capacity h"
    using cap v1(6) by (auto simp: max_def min_def ucast_min_u32)
  then show ?thesis
    using False v1
    by (simp add: header_from_bytes_def Let_def f header_common_fields header_crc_def)
qed

theorem header_roundtrip_witness:
  "header_from_bytes (\<lambda>_. 7) (header_to_bytes (\<lambda>_. 7)
     \<lparr>h_slab_uuid = 1, h_device_uuid = 2, h_slot_size = 1048576, h_total_slots = 100, h_free_slots = 90,
      h_data_offset = 8192, h_table_offset = 4096, h_create_time = 5, h_update_time = 6, h_tier = Warm,
      h_flags = 0, h_role = Data, h_meta_offset = 0, h_meta_size = 0, h_table_capacity = 128,
      h_table_room = 256, h_span = 200, h_partner = 3, h_moved_to = 0, h_checksum = 7, h_version = 2\<rparr>)
   \<noteq> Inl HeaderCrcMismatch"
  by (subst header_roundtrip) (simp_all add: header_wf_def)

end
