(* ===== verification/Device.thy ===== *)
theory Device
  imports SlotCodec "HOL-Library.Sublist"
begin

text \<open>
  The block device under a slab, as the power-cut tests of the repository model it
  (\<open>src/drive/crashdev.rs\<close>): a durable image, and the writes taken since the last flush in
  order. Reads see every write; a power cut leaves the durable image with some subset of
  the cached writes applied, in their order. The image is kept at the granularity the slab
  writes at: the header, the slot table entry by entry, the data region byte by byte. An
  entry whose bytes do not check reads as free (\<open>SlotTable::read\<close>), so an entry is a slot.

  Input and output may fail. The faults to come are part of the state, per kind of request:
  a flush or a read fails or not; a write that fails may have written some of its entries,
  a prefix in table order, since the pages of a table write go out one after the other.
\<close>

section \<open>Images and writes\<close>

record image =
  im_header :: slab_header
  im_entries :: "nat \<Rightarrow> slot"
  im_data :: "nat \<Rightarrow> u8"

datatype dwrite =
    WHeader slab_header
  | WEntry nat slot
  | WZero nat nat
  | WData nat bytes

fun apply_write :: "dwrite \<Rightarrow> image \<Rightarrow> image" where
  "apply_write (WHeader h) im = im\<lparr>im_header := h\<rparr>"
| "apply_write (WEntry i s) im = im\<lparr>im_entries := (im_entries im)(i := s)\<rparr>"
| "apply_write (WZero a n) im =
     im\<lparr>im_entries := (\<lambda>i. if a \<le> i \<and> i < a + n then slot_free else im_entries im i)\<rparr>"
| "apply_write (WData off bs) im =
     im\<lparr>im_data := (\<lambda>x. if off \<le> x \<and> x < off + length bs then bs ! (x - off) else im_data im x)\<rparr>"

definition apply_writes :: "dwrite list \<Rightarrow> image \<Rightarrow> image" where
  "apply_writes ws im = fold apply_write ws im"

record dev =
  dv_media :: image
  dv_log :: "dwrite list"
  dv_capacity :: nat
  dv_block :: nat
  dv_flush_faults :: "bool list"
  dv_read_faults :: "bool list"
  dv_write_faults :: "nat option list"
  dv_discards :: "(nat \<times> nat) list"

datatype drive_error =
    IoError
  | SlabFull
  | BitmapInconsistency
  | DoubleFree nat
  | SlotOutOfRange nat
  | FreeSlot nat
  | PastSlotEnd nat
  | NoHeaderRoom
  | TooSmall
  | NotEvenOne
  | TooManySlots
  | MetaV2
  | NoMetaRegion
  | MetaTooLarge
  | MetaCorrupt

section \<open>The device operations\<close>

definition dv_view :: "dev \<Rightarrow> image" where
  "dv_view d = apply_writes (dv_log d) (dv_media d)"

text \<open>Every image a power cut can leave.\<close>

definition cut_images :: "dev \<Rightarrow> image list" where
  "cut_images d = map (\<lambda>ws. apply_writes ws (dv_media d)) (subseqs (dv_log d))"

definition faulted :: "bool list \<Rightarrow> bool" where
  "faulted fs = (case fs of [] \<Rightarrow> False | f # _ \<Rightarrow> f)"

definition dev_flush :: "dev \<Rightarrow> (drive_error + unit) \<times> dev" where
  "dev_flush d =
     (if faulted (dv_flush_faults d) then (Inl IoError, d\<lparr>dv_flush_faults := tl (dv_flush_faults d)\<rparr>)
      else (Inr (), d\<lparr>dv_media := dv_view d, dv_log := [], dv_flush_faults := tl (dv_flush_faults d)\<rparr>))"

definition dev_write :: "dwrite list \<Rightarrow> dev \<Rightarrow> (drive_error + unit) \<times> dev" where
  "dev_write ws d =
     (case (case dv_write_faults d of [] \<Rightarrow> None | f # _ \<Rightarrow> f) of
        Some n \<Rightarrow> (Inl IoError, d\<lparr>dv_log := dv_log d @ take n ws, dv_write_faults := tl (dv_write_faults d)\<rparr>)
      | None \<Rightarrow> (Inr (), d\<lparr>dv_log := dv_log d @ ws, dv_write_faults := tl (dv_write_faults d)\<rparr>))"

definition dev_read_entry :: "nat \<Rightarrow> dev \<Rightarrow> (drive_error + slot) \<times> dev" where
  "dev_read_entry i d =
     (if faulted (dv_read_faults d) then (Inl IoError, d\<lparr>dv_read_faults := tl (dv_read_faults d)\<rparr>)
      else (Inr (im_entries (dv_view d) i), d\<lparr>dv_read_faults := tl (dv_read_faults d)\<rparr>))"

definition dev_discard :: "nat \<Rightarrow> nat \<Rightarrow> dev \<Rightarrow> dev" where
  "dev_discard off len d = d\<lparr>dv_discards := dv_discards d @ [(off, len)]\<rparr>"

section \<open>What a cut can leave\<close>

definition entry_ok :: "(slot \<Rightarrow> bool) \<Rightarrow> nat \<Rightarrow> dwrite \<Rightarrow> bool" where
  "entry_ok P i w =
     (case w of WEntry j s \<Rightarrow> j = i \<longrightarrow> P s
      | WZero a n \<Rightarrow> a \<le> i \<and> i < a + n \<longrightarrow> P slot_free
      | _ \<Rightarrow> True)"

definition cut_all :: "(slot \<Rightarrow> bool) \<Rightarrow> dev \<Rightarrow> nat \<Rightarrow> bool" where
  "cut_all P d i \<longleftrightarrow> (\<forall>im\<in>set (cut_images d). P (im_entries im i))"

lemma apply_writes_Nil [simp]: "apply_writes [] im = im"
  by (simp add: apply_writes_def)

lemma apply_writes_Cons [simp]: "apply_writes (w # ws) im = apply_writes ws (apply_write w im)"
  by (simp add: apply_writes_def)

lemma apply_writes_append [simp]:
  "apply_writes (xs @ ys) im = apply_writes ys (apply_writes xs im)"
  by (simp add: apply_writes_def)

lemma entry_ok_simps [simp]:
  "entry_ok P i (WHeader h)" "entry_ok P i (WData x b)"
  "entry_ok P i (WEntry j s) \<longleftrightarrow> (j = i \<longrightarrow> P s)"
  "entry_ok P i (WZero a n) \<longleftrightarrow> (a \<le> i \<and> i < a + n \<longrightarrow> P slot_free)"
  by (simp_all add: entry_ok_def)

lemma apply_write_entry:
  assumes "P (im_entries im i)" and "entry_ok P i w"
  shows "P (im_entries (apply_write w im) i)"
  using assms by (cases w) auto

lemma apply_writes_entry:
  assumes "P (im_entries im i)" and "\<forall>w\<in>set ws. entry_ok P i w"
  shows "P (im_entries (apply_writes ws im) i)"
  using assms
proof (induction ws arbitrary: im)
  case Nil
  then show ?case by simp
next
  case (Cons w ws)
  then show ?case by (simp add: apply_write_entry)
qed

lemma apply_writes_data:
  assumes "\<forall>w\<in>set ws. \<not> (\<exists>x b. w = WData x b)"
  shows "im_data (apply_writes ws im) = im_data im"
  using assms
proof (induction ws arbitrary: im)
  case Nil
  then show ?case by simp
next
  case (Cons w ws)
  then show ?case by (cases w) auto
qed

lemma subseq_set: "subseq xs ys \<Longrightarrow> set xs \<subseteq> set ys"
  by (induction rule: list_emb.induct) auto

lemma cut_images_iff:
  "im \<in> set (cut_images d) \<longleftrightarrow> (\<exists>ws. subseq ws (dv_log d) \<and> im = apply_writes ws (dv_media d))"
  by (auto simp: cut_images_def)

lemma view_in_cut_images [simp]: "dv_view d \<in> set (cut_images d)"
  by (auto simp: cut_images_iff dv_view_def)

lemma cut_images_flushed [simp]: "dv_log d = [] \<Longrightarrow> cut_images d = [dv_media d]"
  by (simp add: cut_images_def)

lemma cut_all_view: "cut_all P d i \<Longrightarrow> P (im_entries (dv_view d) i)"
  using view_in_cut_images by (auto simp: cut_all_def)

lemma cut_all_mono: "cut_all P d i \<Longrightarrow> (\<And>s. P s \<Longrightarrow> Q s) \<Longrightarrow> cut_all Q d i"
  by (auto simp: cut_all_def)

lemma cut_all_append:
  assumes "cut_all P d i" and "\<forall>w\<in>set ws. entry_ok P i w"
    and "dv_media d' = dv_media d" and "dv_log d' = dv_log d @ ws"
  shows "cut_all P d' i"
  unfolding cut_all_def
proof
  fix im assume "im \<in> set (cut_images d')"
  then obtain us where us: "subseq us (dv_log d @ ws)" and im: "im = apply_writes us (dv_media d)"
    using assms(3,4) by (auto simp: cut_images_iff)
  from us obtain xs ys where u: "us = xs @ ys" "subseq xs (dv_log d)" "subseq ys ws"
    by (auto elim: subseq_appendE)
  have "apply_writes xs (dv_media d) \<in> set (cut_images d)"
    using u(2) by (auto simp: cut_images_iff)
  then have "P (im_entries (apply_writes xs (dv_media d)) i)"
    using assms(1) by (simp add: cut_all_def)
  moreover have "\<forall>w\<in>set ys. entry_ok P i w"
    using assms(2) subseq_set [OF u(3)] by blast
  ultimately show "P (im_entries im i)"
    by (simp add: im u(1) apply_writes_entry)
qed

lemma cut_all_same:
  "dv_media d' = dv_media d \<Longrightarrow> dv_log d' = dv_log d \<Longrightarrow> cut_all P d' i = cut_all P d i"
  by (simp add: cut_all_def cut_images_def)

lemma dv_view_same:
  "dv_media d' = dv_media d \<Longrightarrow> dv_log d' = dv_log d \<Longrightarrow> dv_view d' = dv_view d"
  by (simp add: dv_view_def)

section \<open>The operations, as rules\<close>

lemma dev_flush_cases:
  obtains (fails) d' where "dev_flush d = (Inl IoError, d')" and "dv_media d' = dv_media d"
      and "dv_log d' = dv_log d" and "dv_write_faults d' = dv_write_faults d"
      and "dv_capacity d' = dv_capacity d"
  | (flushed) d' where "dev_flush d = (Inr (), d')" and "dv_media d' = dv_view d"
      and "dv_log d' = []" and "dv_view d' = dv_view d" and "dv_write_faults d' = dv_write_faults d"
      and "dv_capacity d' = dv_capacity d"
  by (cases "faulted (dv_flush_faults d)") (auto simp: dev_flush_def dv_view_def)

lemma dev_read_cases:
  obtains (fails) d' where "dev_read_entry i d = (Inl IoError, d')" and "dv_media d' = dv_media d"
      and "dv_log d' = dv_log d" and "dv_write_faults d' = dv_write_faults d"
      and "dv_capacity d' = dv_capacity d"
  | (got) d' where "dev_read_entry i d = (Inr (im_entries (dv_view d) i), d')"
      and "dv_media d' = dv_media d" and "dv_log d' = dv_log d"
      and "dv_write_faults d' = dv_write_faults d" and "dv_capacity d' = dv_capacity d"
  by (cases "faulted (dv_read_faults d)") (auto simp: dev_read_entry_def)

lemma dev_write_cases:
  obtains (fails) n d' where "dev_write ws d = (Inl IoError, d')" and "dv_media d' = dv_media d"
      and "dv_log d' = dv_log d @ take n ws" and "dv_write_faults d \<noteq> []"
      and "dv_capacity d' = dv_capacity d" and "dv_write_faults d' = tl (dv_write_faults d)"
  | (wrote) d' where "dev_write ws d = (Inr (), d')" and "dv_media d' = dv_media d"
      and "dv_log d' = dv_log d @ ws" and "dv_capacity d' = dv_capacity d"
      and "dv_write_faults d' = tl (dv_write_faults d)"
  by (cases "case dv_write_faults d of [] \<Rightarrow> None | f # _ \<Rightarrow> f") (auto simp: dev_write_def split: list.splits)

end
