(* ===== verification/FreeMap.thy ===== *)
theory FreeMap
  imports Prelude
begin

text \<open>
  The free-slot bitmap of a slab (\<open>src/drive/freemap.rs\<close>): one bit a slot and a count of
  the free slots in every chunk of 65536, so that first-fit does not scan every bit. The
  invariant says that the counts are those of the bits; the main fact is that the
  two-level search answers exactly what a scan of the bits from the start answers. What a
  client may rely on is the locale \<open>free_slots\<close>, interpreted here on the bitmap and used
  by the slab.
\<close>

section \<open>The bitmap\<close>

definition CHUNK :: nat where
  "CHUNK = 2 ^ 16"

record freemap =
  fm_bits :: "bool list"
  fm_free_in :: "nat list"

definition chunk_bits :: "bool list \<Rightarrow> nat \<Rightarrow> bool list" where
  "chunk_bits bits c = slice_of (c * CHUNK) (min ((c + 1) * CHUNK) (length bits)) bits"

definition fm_recount :: "freemap \<Rightarrow> freemap" where
  "fm_recount m =
     (let bits = fm_bits m; chunks = div_ceil (length bits) CHUNK
      in m\<lparr>fm_free_in := map (\<lambda>c. count_true (chunk_bits bits c)) [0..<chunks]\<rparr>)"

definition fm_new :: "nat \<Rightarrow> bool \<Rightarrow> freemap" where
  "fm_new n free = fm_recount \<lparr>fm_bits = replicate n free, fm_free_in = []\<rparr>"

definition fm_len :: "freemap \<Rightarrow> nat" where
  "fm_len m = length (fm_bits m)"

definition fm_is_free :: "freemap \<Rightarrow> nat \<Rightarrow> bool" where
  "fm_is_free m i = (if i < length (fm_bits m) then fm_bits m ! i else False)"

definition fm_set :: "freemap \<Rightarrow> nat \<Rightarrow> bool \<Rightarrow> freemap" where
  "fm_set m i free =
     (if i \<ge> length (fm_bits m) \<or> fm_bits m ! i = free then m
      else let c = i div CHUNK; k = fm_free_in m ! c
           in m\<lparr>fm_bits := (fm_bits m)[i := free],
                fm_free_in := (fm_free_in m)[c := (if free then k + 1 else k - 1)]\<rparr>)"

definition fm_first_free :: "freemap \<Rightarrow> nat option" where
  "fm_first_free m =
     (case position (\<lambda>n. n > 0) (fm_free_in m) of
        None \<Rightarrow> None
      | Some c \<Rightarrow>
          (let start = c * CHUNK; fin = min (start + CHUNK) (length (fm_bits m))
           in map_option (\<lambda>i. start + i) (position id (slice_of start fin (fm_bits m)))))"

definition fm_resize :: "freemap \<Rightarrow> nat \<Rightarrow> bool \<Rightarrow> freemap" where
  "fm_resize m n free =
     fm_recount (m\<lparr>fm_bits := take n (fm_bits m) @ replicate (n - length (fm_bits m)) free\<rparr>)"

definition fm_count_free :: "freemap \<Rightarrow> nat" where
  "fm_count_free m = sum_list (fm_free_in m)"

section \<open>The invariant\<close>

definition fm_inv :: "freemap \<Rightarrow> bool" where
  "fm_inv m \<longleftrightarrow> fm_free_in m = fm_free_in (fm_recount m)"

lemma CHUNK_pos [simp]: "0 < CHUNK"
  by (simp add: CHUNK_def)

lemma fm_recount_bits [simp]: "fm_bits (fm_recount m) = fm_bits m"
  by (simp add: fm_recount_def Let_def)

lemma fm_inv_recount [simp]: "fm_inv (fm_recount m)"
  by (simp add: fm_inv_def fm_recount_def Let_def)

lemma fm_inv_new [simp]: "fm_inv (fm_new n free)"
  by (simp add: fm_new_def)

lemma fm_inv_resize [simp]: "fm_inv (fm_resize m n free)"
  by (simp add: fm_resize_def)

lemma fm_inv_free_in:
  assumes "fm_inv m"
  shows "length (fm_free_in m) = div_ceil (length (fm_bits m)) CHUNK"
    and "c < length (fm_free_in m) \<Longrightarrow> fm_free_in m ! c = count_true (chunk_bits (fm_bits m) c)"
proof -
  have e: "fm_free_in m = map (\<lambda>c. count_true (chunk_bits (fm_bits m) c))
             [0..<div_ceil (length (fm_bits m)) CHUNK]"
    using assms by (simp add: fm_inv_def fm_recount_def Let_def)
  show "length (fm_free_in m) = div_ceil (length (fm_bits m)) CHUNK"
    by (subst e) simp
  assume "c < length (fm_free_in m)"
  then show "fm_free_in m ! c = count_true (chunk_bits (fm_bits m) c)"
    by (subst e, subst (asm) e) simp
qed

lemma chunk_index_less: "i < n \<Longrightarrow> i div CHUNK < div_ceil n CHUNK"
  using div_ceil_ge [of CHUNK n] by (simp add: div_less_iff_less_mult)

lemma length_chunk_bits: "length (chunk_bits bits c) = min ((c + 1) * CHUNK) (length bits) - c * CHUNK"
  by (auto simp: chunk_bits_def)

lemma chunk_bits_nth:
  assumes "i < length bits" and "c = i div CHUNK"
  shows "i mod CHUNK < length (chunk_bits bits c)"
    and "chunk_bits bits c ! (i mod CHUNK) = bits ! i"
proof -
  have i: "i = c * CHUNK + i mod CHUNK" by (simp add: assms(2))
  have m: "i mod CHUNK < CHUNK" by simp
  have "c * CHUNK + i mod CHUNK < (c + 1) * CHUNK" using m by simp
  moreover have "c * CHUNK + i mod CHUNK < length bits" using assms(1) i by simp
  ultimately have "c * CHUNK + i mod CHUNK < min ((c + 1) * CHUNK) (length bits)" by simp
  then show l: "i mod CHUNK < length (chunk_bits bits c)"
    unfolding length_chunk_bits by linarith
  then show "chunk_bits bits c ! (i mod CHUNK) = bits ! i"
    by (subst (2) i) (auto simp: chunk_bits_def slice_of_def)
qed

lemma chunk_bits_update:
  assumes "i < length bits"
  shows "chunk_bits (bits[i := b]) c =
     (if c = i div CHUNK then (chunk_bits bits c)[i mod CHUNK := b] else chunk_bits bits c)"
proof (rule nth_equalityI)
  show "length (chunk_bits (bits[i := b]) c) =
     length (if c = i div CHUNK then (chunk_bits bits c)[i mod CHUNK := b] else chunk_bits bits c)"
    by (simp add: length_chunk_bits)
next
  fix j assume "j < length (chunk_bits (bits[i := b]) c)"
  then have j: "j < CHUNK" "c * CHUNK + j < length bits" "j < length (chunk_bits bits c)"
    by (auto simp: length_chunk_bits)
  have nth: "chunk_bits xs c ! j = xs ! (c * CHUNK + j)" if "length xs = length bits" for xs
    using j that by (auto simp: chunk_bits_def slice_of_def)
  have ij: "c * CHUNK + j = i \<longleftrightarrow> c = i div CHUNK \<and> j = i mod CHUNK"
    using j(1) by auto
  have "chunk_bits (bits[i := b]) c ! j = (if c * CHUNK + j = i then b else chunk_bits bits c ! j)"
    using j(2) by (auto simp: nth nth_list_update)
  then show "chunk_bits (bits[i := b]) c ! j =
     (if c = i div CHUNK then (chunk_bits bits c)[i mod CHUNK := b] else chunk_bits bits c) ! j"
    using j(3) ij by (auto simp: nth_list_update)
qed

lemma fm_inv_set [simp]:
  assumes "fm_inv m"
  shows "fm_inv (fm_set m i free)"
proof (cases "i \<ge> length (fm_bits m) \<or> fm_bits m ! i = free")
  case True
  then show ?thesis using assms by (auto simp: fm_set_def)
next
  case False
  then have i: "i < length (fm_bits m)" and b: "fm_bits m ! i = (\<not> free)" by auto
  let ?c = "i div CHUNK"
  let ?k = "fm_free_in m ! ?c"
  let ?bits = "(fm_bits m)[i := free]"
  have c: "?c < length (fm_free_in m)"
    using chunk_index_less [OF i] fm_inv_free_in(1) [OF assms] by simp
  note nth = chunk_bits_nth [OF i refl]
  have k: "?k = count_true (chunk_bits (fm_bits m) ?c)"
    using fm_inv_free_in(2) [OF assms c] .
  have new: "count_true (chunk_bits ?bits ?c) = (if free then ?k + 1 else ?k - 1)"
    using count_list_update_True [OF nth(1)] count_list_update_False [OF nth(1)] nth(2) b k
    by (auto simp: chunk_bits_update [OF i])
  have s: "fm_set m i free = m\<lparr>fm_bits := ?bits, fm_free_in := (fm_free_in m)[?c := (if free then ?k + 1 else ?k - 1)]\<rparr>"
    using False by (simp add: fm_set_def Let_def)
  have "(fm_free_in m)[?c := (if free then ?k + 1 else ?k - 1)] =
        map (\<lambda>c. count_true (chunk_bits ?bits c)) [0..<div_ceil (length (fm_bits m)) CHUNK]"
    (is "?l = ?r")
  proof (rule nth_equalityI)
    show "length ?l = length ?r" using fm_inv_free_in(1) [OF assms] by simp
  next
    fix j assume "j < length ?l"
    then show "?l ! j = ?r ! j"
      using fm_inv_free_in [OF assms] new
      by (auto simp: nth_list_update chunk_bits_update [OF i])
  qed
  then show ?thesis
    by (simp add: s fm_inv_def fm_recount_def Let_def)
qed

section \<open>What the operations do to the bits\<close>

lemma fm_bits_set: "fm_bits (fm_set m i free) = (fm_bits m)[i := free]"
proof (cases "i < length (fm_bits m)")
  case True
  then show ?thesis
    by (cases "fm_bits m ! i = free") (auto simp: fm_set_def Let_def list_update_same_conv [THEN iffD2])
next
  case False
  then show ?thesis by (simp add: fm_set_def list_update_beyond)
qed

lemma fm_len_set [simp]: "fm_len (fm_set m i free) = fm_len m"
  by (simp add: fm_len_def fm_bits_set)

lemma fm_is_free_set:
  "fm_is_free (fm_set m i free) j = (if i = j \<and> i < fm_len m then free else fm_is_free m j)"
  by (auto simp: fm_is_free_def fm_bits_set fm_len_def)

lemma fm_is_free_new: "fm_is_free (fm_new n free) j = (j < n \<and> free)"
  by (simp add: fm_is_free_def fm_new_def)

lemma fm_len_new [simp]: "fm_len (fm_new n free) = n"
  by (simp add: fm_len_def fm_new_def)

lemma fm_len_resize [simp]: "fm_len (fm_resize m n free) = n"
  by (simp add: fm_len_def fm_resize_def)

lemma fm_is_free_resize:
  "fm_is_free (fm_resize m n free) j = (if j < n then (if j < fm_len m then fm_is_free m j else free) else False)"
  by (auto simp: fm_is_free_def fm_resize_def fm_len_def nth_append)

section \<open>First fit\<close>

lemma fm_first_free_scan:
  assumes "fm_inv m"
  shows "fm_first_free m = position id (fm_bits m)"
proof (cases "position (\<lambda>n. n > 0) (fm_free_in m)")
  case None
  have "\<not> fm_bits m ! i" if "i < length (fm_bits m)" for i
  proof
    assume b: "fm_bits m ! i"
    note nth = chunk_bits_nth [OF that refl]
    have c: "i div CHUNK < length (fm_free_in m)"
      using chunk_index_less [OF that] fm_inv_free_in(1) [OF assms] by simp
    have "0 < fm_free_in m ! (i div CHUNK)"
      using fm_inv_free_in(2) [OF assms c] nth b by (metis count_true_pos)
    with None nth_mem [OF c] show False by (auto simp: position_None)
  qed
  then have "position id (fm_bits m) = None"
    by (auto simp: position_None in_set_conv_nth)
  then show ?thesis by (simp add: fm_first_free_def None)
next
  case (Some c)
  let ?bits = "fm_bits m" and ?s = "c * CHUNK"
  from position_SomeD [OF Some] have c: "c < length (fm_free_in m)"
    and pos: "0 < fm_free_in m ! c" and before: "\<And>j. j < c \<Longrightarrow> fm_free_in m ! j = 0" by auto
  have no: "position id (take ?s ?bits) = None"
  proof -
    have "\<not> ?bits ! i" if i: "i < ?s" "i < length ?bits" for i
    proof
      assume b: "?bits ! i"
      have ic: "i div CHUNK < c" using i(1) by (simp add: div_less_iff_less_mult)
      note nth = chunk_bits_nth [OF i(2) refl]
      have "0 < count_true (chunk_bits ?bits (i div CHUNK))"
        using nth b by (metis count_true_pos)
      then show False
        using before [OF ic] fm_inv_free_in(2) [OF assms, of "i div CHUNK"] ic c by simp
    qed
    then show ?thesis by (auto simp: position_None in_set_conv_nth)
  qed
  have cb: "slice_of ?s (min (?s + CHUNK) (length ?bits)) ?bits = chunk_bits ?bits c"
    by (simp add: chunk_bits_def add.commute)
  obtain k where k: "position id (chunk_bits ?bits c) = Some k"
  proof -
    have "\<exists>i<length (chunk_bits ?bits c). chunk_bits ?bits c ! i"
      using pos fm_inv_free_in(2) [OF assms c] by (simp only: count_true_pos [symmetric])
    then have "position id (chunk_bits ?bits c) \<noteq> None"
      by (metis position_None nth_mem id_apply)
    then show thesis using that by blast
  qed
  have lt: "?s < length ?bits"
    using k position_SomeD [of id "chunk_bits ?bits c" k] by (auto simp: length_chunk_bits)
  have "?bits = take ?s ?bits @ chunk_bits ?bits c @ drop (?s + length (chunk_bits ?bits c)) ?bits"
  proof -
    let ?n = "min ((c + 1) * CHUNK) (length ?bits) - ?s"
    have t: "chunk_bits ?bits c = take ?n (drop ?s ?bits)"
      by (simp only: chunk_bits_def slice_of_def)
    have "length (chunk_bits ?bits c) = ?n"
      by (simp only: length_chunk_bits)
    then show ?thesis
      unfolding t by (simp only: split_at_two)
  qed
  then have "position id ?bits =
      position id (take ?s ?bits @ chunk_bits ?bits c @ drop (?s + length (chunk_bits ?bits c)) ?bits)"
    by simp
  also have "\<dots> = Some (?s + k)"
    using lt no k by (simp add: position_append)
  finally show ?thesis by (simp add: fm_first_free_def Some cb k Let_def)
qed

section \<open>The count\<close>

lemma count_chunks:
  "count_true (take (k * CHUNK) bits) =
     sum_list (map (\<lambda>c. count_true (chunk_bits bits c)) [0..<k])"
proof (induction k)
  case 0
  then show ?case by simp
next
  case (Suc k)
  have "take (Suc k * CHUNK) bits = take (k * CHUNK) bits @ take CHUNK (drop (k * CHUNK) bits)"
    by (metis add.commute mult_Suc take_add)
  also have "take CHUNK (drop (k * CHUNK) bits) = chunk_bits bits k"
    by (cases "(k + 1) * CHUNK \<le> length bits") (simp_all add: chunk_bits_def slice_of_def add.commute)
  finally show ?case using Suc by simp
qed

lemma fm_count_free_card:
  assumes "fm_inv m"
  shows "fm_count_free m = card {i. fm_is_free m i}"
proof -
  let ?k = "div_ceil (length (fm_bits m)) CHUNK"
  have "fm_count_free m = count_true (take (?k * CHUNK) (fm_bits m))"
    using assms by (simp add: fm_count_free_def fm_inv_def fm_recount_def Let_def count_chunks)
  also have "\<dots> = card {i. i < length (fm_bits m) \<and> fm_bits m ! i}"
    using div_ceil_ge [of CHUNK "length (fm_bits m)"] by (simp add: count_true_card)
  also have "{i. i < length (fm_bits m) \<and> fm_bits m ! i} = {i. fm_is_free m i}"
    by (auto simp: fm_is_free_def split: if_splits)
  finally show ?thesis .
qed

section \<open>The interface\<close>

text \<open>
  What a client of the bitmap relies on: the free slots as a set of indices, the least of
  them, and how the operations change it.
\<close>

locale free_slots =
  fixes inv :: "'m \<Rightarrow> bool"
    and len :: "'m \<Rightarrow> nat"
    and is_free :: "'m \<Rightarrow> nat \<Rightarrow> bool"
    and mark :: "'m \<Rightarrow> nat \<Rightarrow> bool \<Rightarrow> 'm"
    and first_free :: "'m \<Rightarrow> nat option"
    and resize :: "'m \<Rightarrow> nat \<Rightarrow> bool \<Rightarrow> 'm"
    and num_free :: "'m \<Rightarrow> nat"
  assumes is_free_len: "is_free m i \<Longrightarrow> i < len m"
    and inv_mark: "inv m \<Longrightarrow> inv (mark m i b)"
    and len_mark: "len (mark m i b) = len m"
    and is_free_mark: "is_free (mark m i b) j = (if i = j \<and> i < len m then b else is_free m j)"
    and inv_resize: "inv m \<Longrightarrow> inv (resize m n b)"
    and len_resize: "len (resize m n b) = n"
    and is_free_resize:
      "is_free (resize m n b) j = (if j < n then (if j < len m then is_free m j else b) else False)"
    and first_free_Some: "inv m \<Longrightarrow> first_free m = Some i \<Longrightarrow> is_free m i \<and> (\<forall>j<i. \<not> is_free m j)"
    and first_free_None: "inv m \<Longrightarrow> first_free m = None \<Longrightarrow> \<not> is_free m i"
    and num_free_card: "inv m \<Longrightarrow> num_free m = card {i. is_free m i}"
begin

lemma finite_free: "finite {i. is_free m i}"
  by (rule finite_subset [of _ "{..<len m}"]) (auto dest: is_free_len)

lemma first_free_exists:
  assumes "inv m" and "0 < num_free m"
  obtains i where "first_free m = Some i" and "is_free m i" and "i < len m"
proof -
  have "{i. is_free m i} \<noteq> {}"
    using assms by (metis card.empty less_numeral_extra(3) num_free_card)
  then obtain k where "is_free m k" by blast
  then obtain i where i: "first_free m = Some i"
    using first_free_None [OF assms(1)] by (cases "first_free m") auto
  with first_free_Some [OF assms(1) i] is_free_len that show thesis by blast
qed

lemma num_free_take:
  assumes "inv m" and "is_free m i"
  shows "num_free m = Suc (num_free (mark m i False))"
proof -
  have "{j. is_free m j} = insert i {j. is_free (mark m i False) j}"
    using assms is_free_len by (auto simp: is_free_mark)
  moreover have "i \<notin> {j. is_free (mark m i False) j}"
    using assms is_free_len by (auto simp: is_free_mark)
  ultimately show ?thesis
    using assms finite_free [of "mark m i False"] by (simp add: num_free_card inv_mark)
qed

lemma num_free_give_back:
  assumes "inv m" and "\<not> is_free m i" and "i < len m"
  shows "num_free (mark m i True) = Suc (num_free m)"
proof -
  have "{j. is_free (mark m i True) j} = insert i {j. is_free m j}"
    using assms is_free_len by (auto simp: is_free_mark)
  then show ?thesis
    using assms finite_free [of m] by (simp add: num_free_card inv_mark)
qed

lemma num_free_grow:
  assumes "inv m" and "len m \<le> n"
  shows "num_free (resize m n True) = num_free m + (n - len m)"
proof -
  have "{j. is_free (resize m n True) j} = {j. is_free m j} \<union> {len m..<n}"
    using assms is_free_len by (auto simp: is_free_resize dest: is_free_len order_less_le_trans)
  moreover have "{j. is_free m j} \<inter> {len m..<n} = {}"
    by (auto dest: is_free_len)
  ultimately show ?thesis
    using assms finite_free [of m] by (simp add: num_free_card inv_resize card_Un_disjoint)
qed

end

interpretation fm: free_slots fm_inv fm_len fm_is_free fm_set fm_first_free fm_resize fm_count_free
proof
  show "fm_is_free m i \<Longrightarrow> i < fm_len m" for m i
    by (simp add: fm_is_free_def fm_len_def split: if_splits)
  show "fm_first_free m = Some i \<Longrightarrow> fm_is_free m i \<and> (\<forall>j<i. \<not> fm_is_free m j)" if "fm_inv m" for m i
    using that by (auto simp: fm_first_free_scan fm_is_free_def dest!: position_SomeD)
  show "fm_first_free m = None \<Longrightarrow> \<not> fm_is_free m i" if "fm_inv m" for m i
    using that fm_first_free_scan [of m] position_None [of id "fm_bits m"] nth_mem [of i "fm_bits m"]
    unfolding fm_is_free_def by (metis id_apply)
qed (simp_all add: fm_is_free_set fm_is_free_resize fm_count_free_card)

section \<open>Properties\<close>

text \<open>A history of the bitmap: the changes a slab makes to it, in order.\<close>

datatype fm_op = FmSet nat bool | FmResize nat bool

fun fm_step :: "fm_op \<Rightarrow> freemap \<Rightarrow> freemap" where
  "fm_step (FmSet i b) m = fm_set m i b"
| "fm_step (FmResize n b) m = fm_resize m n b"

text \<open>The same history on a plain list of bits, with no summary.\<close>

fun scan_step :: "fm_op \<Rightarrow> bool list \<Rightarrow> bool list" where
  "scan_step (FmSet i b) bits = bits[i := b]"
| "scan_step (FmResize n b) bits = take n bits @ replicate (n - length bits) b"

lemma fm_step_inv: "fm_inv m \<Longrightarrow> fm_inv (fm_step x m)"
  by (cases x) simp_all

lemma fm_step_bits: "fm_bits (fm_step x m) = scan_step x (fm_bits m)"
  by (cases x) (simp_all add: fm_bits_set fm_resize_def)

lemma fm_history:
  "fm_inv m \<Longrightarrow> fm_inv (fold fm_step ops m) \<and> fm_bits (fold fm_step ops m) = fold scan_step ops (fm_bits m)"
  by (induction ops arbitrary: m) (simp_all add: fm_step_inv fm_step_bits)

text \<open>
  C17. After any history of sets and resizes, the two-level search of the free map answers
  what a scan of the plain bitmap from bit 0 answers, and its count is the number of set
  bits: first fit, same answer, whatever was allocated and freed.
\<close>

theorem fm_first_fit:
  "fm_first_free (fold fm_step ops (fm_new n b)) = position id (fold scan_step ops (replicate n b)) \<and>
   fm_count_free (fold fm_step ops (fm_new n b)) = count_true (fold scan_step ops (replicate n b))"
proof -
  let ?m = "fold fm_step ops (fm_new n b)"
  have h: "fm_inv ?m" "fm_bits ?m = fold scan_step ops (replicate n b)"
    using fm_history [of "fm_new n b" ops] by (simp_all add: fm_new_def)
  have "{i. fm_is_free ?m i} = {i. i < length (fm_bits ?m) \<and> fm_bits ?m ! i}"
    by (auto simp: fm_is_free_def split: if_splits)
  then show ?thesis
    using h by (simp add: fm_first_free_scan fm_count_free_card count_true_card)
qed

end
