(* ===== verification/Slab.thy ===== *)
theory Slab
  imports Device FreeMap
begin

text \<open>
  The slab (\<open>src/drive/slab.rs\<close>): a device kept as a store of fixed-size slots, any volume's
  extents in any slot. The slot table on the device is the record of who owns a slot; memory
  keeps the free map and what differs from the device (\<open>Pending\<close>). Every operation takes the
  slab and answers a result and the slab after it, the error path included; the await points
  of one operation are taken as one step, and \<open>sync\<close> is given in its three parts so that
  what runs between them can be.
\<close>

section \<open>Erase levels\<close>

datatype erase_level = EraseNone | Once | Dod3 | Dod7

definition erase_rank :: "erase_level \<Rightarrow> nat" where
  "erase_rank l = (case l of EraseNone \<Rightarrow> 0 | Once \<Rightarrow> 1 | Dod3 \<Rightarrow> 2 | Dod7 \<Rightarrow> 3)"

lemma erase_rank_inj: "erase_rank a = erase_rank b \<longleftrightarrow> a = b"
  by (cases a; cases b) (simp_all add: erase_rank_def)

instantiation erase_level :: linorder
begin

definition less_eq_erase_level :: "erase_level \<Rightarrow> erase_level \<Rightarrow> bool" where
  "less_eq_erase_level a b \<longleftrightarrow> erase_rank a \<le> erase_rank b"

definition less_erase_level :: "erase_level \<Rightarrow> erase_level \<Rightarrow> bool" where
  "less_erase_level a b \<longleftrightarrow> erase_rank a < erase_rank b"

instance
  by standard (auto simp: less_eq_erase_level_def less_erase_level_def erase_rank_inj)

end

definition erase_code :: "erase_level \<Rightarrow> u32" where
  "erase_code l = (case l of EraseNone \<Rightarrow> 0 | Once \<Rightarrow> 1 | Dod3 \<Rightarrow> 3 | Dod7 \<Rightarrow> 7)"

definition erase_from_code :: "u32 \<Rightarrow> erase_level" where
  "erase_from_code c = (if c = 0 \<or> c = 1 then Once else if c = 3 then Dod3 else Dod7)"

lemma erase_from_code_code: "l \<noteq> EraseNone \<Longrightarrow> erase_from_code (erase_code l) = l"
  by (cases l) (simp_all add: erase_from_code_def erase_code_def)

section \<open>State\<close>

record pending =
  p_unpublished :: "nat set"
  p_ready :: "nat set"
  p_freeing :: "nat list"
  p_released :: "nat list"
  p_erasing :: "(nat \<times> (erase_level \<times> uuid)) list"
  p_erasing_now :: "(nat \<times> (erase_level \<times> uuid)) list"
  p_entries :: "(nat \<times> slot) list"
  p_by_volume :: "(uuid \<times> nat) list"

definition pending_default :: pending where
  "pending_default = \<lparr>p_unpublished = {}, p_ready = {}, p_freeing = [], p_released = [], p_erasing = [],
     p_erasing_now = [], p_entries = [], p_by_volume = []\<rparr>"

record slab =
  s_header :: slab_header
  s_free :: freemap
  s_free_count :: nat
  s_cap :: nat
  s_span :: nat
  s_room :: nat
  s_step :: nat
  s_ahead :: bool
  s_pend :: pending
  s_erase :: erase_level
  s_erase_now :: "erase_level option"
  s_retired :: nat
  s_epoch :: nat
  s_asked :: nat
  s_done :: nat
  s_now :: u64
  s_dev :: dev

text \<open>A change of \<open>Pending\<close> under its lock, and a request to the device.\<close>

definition pend_do :: "(pending \<Rightarrow> pending) \<Rightarrow> slab \<Rightarrow> slab" where
  "pend_do f s = s\<lparr>s_pend := f (s_pend s)\<rparr>"

definition dev_do :: "(dev \<Rightarrow> (drive_error + 'a) \<times> dev) \<Rightarrow> slab \<Rightarrow> (drive_error + 'a) \<times> slab" where
  "dev_do f s = (case f (s_dev s) of (r, d) \<Rightarrow> (r, s\<lparr>s_dev := d\<rparr>))"

section \<open>The committed part of the table\<close>

definition committed :: "slab \<Rightarrow> nat" where
  "committed s = min (s_span s) (s_cap s)"

definition commit_whole :: "slab \<Rightarrow> bool" where
  "commit_whole s \<longleftrightarrow> s_cap s \<ge> min (s_span s) (s_room s)"

definition header_now :: "slab \<Rightarrow> slab_header" where
  "header_now s = (s_header s)
     \<lparr>h_table_capacity := of_nat (s_cap s), h_span := of_nat (s_span s),
      h_total_slots := of_nat (min (s_span s) (s_cap s))\<rparr>"

text \<open>\<open>write_zeros\<close>, in entries: 8 MiB of table is 131072 of them.\<close>

function zero_chunks :: "nat \<Rightarrow> nat \<Rightarrow> dwrite list" where
  "zero_chunks at n = (if n = 0 then [] else WZero at (min 131072 n) # zero_chunks (at + min 131072 n) (n - min 131072 n))"
  by pat_completeness auto
termination by (relation "measure snd") auto

declare zero_chunks.simps [simp del]

text \<open>A length rounded up to whole device blocks.\<close>

definition pad_to_block :: "nat \<Rightarrow> nat \<Rightarrow> nat" where
  "pad_to_block bs len = (if bs > 1 \<and> len mod bs \<noteq> 0 then div_ceil len bs * bs else len)"

lemma pad_to_block_ge: "len \<le> pad_to_block bs len"
  using div_ceil_ge [of bs len] by (simp add: pad_to_block_def)

definition commit_step :: "slab_header \<Rightarrow> slab \<Rightarrow> (drive_error + bool) \<times> slab" where
  "commit_step header s =
     (let cap = s_cap s; span = s_span s; limit = min span (s_room s) in
      if cap \<ge> limit then (Inr False, s)
      else
        let target = min (div_ceil (min (cap + s_step s) limit) 64 * 64) (s_room s);
            len = pad_to_block (dv_block (s_dev s)) ((target - cap) * SLOT_ENTRY_SIZE)
        in and_then (dev_do (dev_write (zero_chunks cap (len div SLOT_ENTRY_SIZE))) s) (\<lambda>_ s.
           and_then (dev_do dev_flush s) (\<lambda>_ s.
           let h = header\<lparr>h_table_capacity := of_nat target, h_span := of_nat span,
                     h_total_slots := of_nat (min span target), h_update_time := s_now s\<rparr> in
           and_then (dev_do (dev_write [WHeader h]) s) (\<lambda>_ s.
           and_then (dev_do dev_flush s) (\<lambda>_ s. (Inr True, s\<lparr>s_cap := target\<rparr>))))))"

definition take_committed :: "slab \<Rightarrow> slab" where
  "take_committed s =
     (let len = fm_len (s_free s) in
      if committed s > len
      then s\<lparr>s_free := fm_resize (s_free s) (committed s) True,
             s_free_count := s_free_count s + (committed s - len)\<rparr>
      else s)"

definition commit_ahead :: "slab \<Rightarrow> slab_header option \<times> slab" where
  "commit_ahead s =
     (if commit_whole s then (None, s)
      else let free_committed = s_free_count s + (committed s - fm_len (s_free s)) in
        if free_committed \<ge> s_step s div 4 \<and> free_committed * 4 \<ge> committed s then (None, s)
        else if s_ahead s then (None, s\<lparr>s_ahead := True\<rparr>)
        else (Some (header_now s), s\<lparr>s_ahead := True\<rparr>))"

section \<open>Reading and writing entries\<close>

definition slot_now :: "nat \<Rightarrow> slab \<Rightarrow> (drive_error + slot) \<times> slab" where
  "slot_now i s =
     (case map_of (p_entries (s_pend s)) i of
        Some sl \<Rightarrow> (Inr sl, s)
      | None \<Rightarrow> dev_do (dev_read_entry i) s)"

text \<open>Entries read ahead, with the table's epoch when the read began (\<open>Preread\<close>).\<close>

record preread =
  pr_epoch :: nat
  pr_entries :: "(nat \<times> slot) list"

primrec read_entries :: "nat list \<Rightarrow> dev \<Rightarrow> (drive_error + (nat \<times> slot) list) \<times> dev" where
  "read_entries [] d = (Inr [], d)"
| "read_entries (i # is) d =
     and_then (dev_read_entry i d) (\<lambda>sl d.
     and_then (read_entries is d) (\<lambda>es d. (Inr (al_put i sl es), d)))"

definition read_many :: "nat list \<Rightarrow> slab \<Rightarrow> (drive_error + preread) \<times> slab" where
  "read_many is s =
     (let epoch = s_epoch s in
      and_then (dev_do (read_entries is) s) (\<lambda>es s. (Inr \<lparr>pr_epoch = epoch, pr_entries = es\<rparr>, s)))"

definition slot_with :: "preread option \<Rightarrow> nat \<Rightarrow> slab \<Rightarrow> (drive_error + slot) \<times> slab" where
  "slot_with pre i s =
     (case map_of (p_entries (s_pend s)) i of
        Some sl \<Rightarrow> (Inr sl, s)
      | None \<Rightarrow>
        (case (case pre of Some p \<Rightarrow> if pr_epoch p = s_epoch s then map_of (pr_entries p) i else None
                | None \<Rightarrow> None) of
           Some sl \<Rightarrow> (Inr sl, s)
         | None \<Rightarrow> dev_do (dev_read_entry i) s))"

definition set_slot :: "nat \<Rightarrow> slot \<Rightarrow> slab \<Rightarrow> slab" where
  "set_slot i sl = pend_do (\<lambda>p. p\<lparr>p_entries := al_put i sl (p_entries p)\<rparr>)"

definition entry_bytes :: "nat \<Rightarrow> slab \<Rightarrow> (drive_error + slot) \<times> slab" where
  "entry_bytes i s = (if i \<in> p_unpublished (s_pend s) then (Inr slot_free, s) else slot_now i s)"

primrec entries_of :: "nat list \<Rightarrow> slab \<Rightarrow> (drive_error + (nat \<times> slot) list) \<times> slab" where
  "entries_of [] s = (Inr [], s)"
| "entries_of (i # is) s =
     and_then (entry_bytes i s) (\<lambda>b s.
     and_then (entries_of is s) (\<lambda>es s. (Inr ((i, b) # es), s)))"

text \<open>\<open>SlotTable::write\<close>: the epoch moves before and after, however the write ends.\<close>

definition table_write :: "(nat \<times> slot) list \<Rightarrow> slab \<Rightarrow> (drive_error + unit) \<times> slab" where
  "table_write es s =
     (case dev_do (dev_write (map (\<lambda>(i, b). WEntry i b) es)) s of (r, s) \<Rightarrow> (r, s\<lparr>s_epoch := s_epoch s + 2\<rparr>))"

text \<open>Memory need not hold what the table says, except for a slot still unpublished.\<close>

definition forget_written :: "nat list \<Rightarrow> pending \<Rightarrow> pending" where
  "forget_written is p =
     p\<lparr>p_entries := fold (\<lambda>i es. if i \<in> p_unpublished p then es else al_del i es) is (p_entries p)\<rparr>"

definition persist_slots :: "nat list \<Rightarrow> slab \<Rightarrow> (drive_error + unit) \<times> slab" where
  "persist_slots slot_indices s =
     (if slot_indices = [] then (Inr (), s)
      else let idxs = remdups (sort slot_indices) in
        and_then (entries_of idxs s) (\<lambda>es s.
        and_then (table_write es s) (\<lambda>_ s. (Inr (), pend_do (forget_written idxs) s))))"

abbreviation persist_slot :: "nat \<Rightarrow> slab \<Rightarrow> (drive_error + unit) \<times> slab" where
  "persist_slot i \<equiv> persist_slots [i]"

section \<open>Allocation\<close>

definition absorb_one :: "nat \<Rightarrow> slab \<Rightarrow> slab" where
  "absorb_one i s =
     (if \<not> fm_is_free (s_free s) i
      then s\<lparr>s_free := fm_set (s_free s) i True, s_free_count := s_free_count s + 1\<rparr> else s)"

definition absorb_released :: "slab \<Rightarrow> slab" where
  "absorb_released s =
     (let released = p_released (s_pend s)
      in fold absorb_one released (pend_do (\<lambda>p. p\<lparr>p_released := []\<rparr>) s))"

definition take_slot :: "uuid \<Rightarrow> u64 \<Rightarrow> u64 \<Rightarrow> slab \<Rightarrow> (drive_error + nat) \<times> slab" where
  "take_slot vol vext gen s =
     (if s_free_count s = 0 then (Inl SlabFull, s)
      else case fm_first_free (s_free s) of
        None \<Rightarrow> (Inl BitmapInconsistency, s)
      | Some i \<Rightarrow>
        (Inr i, set_slot i \<lparr>sl_state = Allocated, sl_volume = vol, sl_vext = vext, sl_refs = 1, sl_gen = gen\<rparr>
                  (s\<lparr>s_free := fm_set (s_free s) i False, s_free_count := s_free_count s - 1\<rparr>)))"

text \<open>
  Frees not yet durable, made so: what \<open>take_slot_or_flush\<close> does when nothing else is free,
  and the first part of a sync.
\<close>

definition flush_freeing :: "slab \<Rightarrow> (drive_error + unit) \<times> slab" where
  "flush_freeing s =
     (let freeing = p_freeing (s_pend s); s = pend_do (\<lambda>p. p\<lparr>p_freeing := []\<rparr>) s in
      case dev_do dev_flush s of
        (Inl e, s) \<Rightarrow> (Inl e, pend_do (\<lambda>p. p\<lparr>p_freeing := p_freeing p @ freeing\<rparr>) s)
      | (Inr _, s) \<Rightarrow> (Inr (), pend_do (\<lambda>p. p\<lparr>p_released := p_released p @ freeing\<rparr>) s))"

definition take_slot_or_flush :: "uuid \<Rightarrow> u64 \<Rightarrow> u64 \<Rightarrow> slab \<Rightarrow> (drive_error + nat) \<times> slab" where
  "take_slot_or_flush vol vext gen s =
     (let s = absorb_released (take_committed s) in
      and_then
        (if s_free_count s = 0 \<and> p_freeing (s_pend s) \<noteq> []
         then and_then (flush_freeing s) (\<lambda>_ s. (Inr (), absorb_released s)) else (Inr (), s)) (\<lambda>_ s.
      and_then
        (if s_free_count s = 0 \<and> \<not> commit_whole s
         then and_then (commit_step (header_now s) s) (\<lambda>_ s. (Inr (), take_committed s)) else (Inr (), s)) (\<lambda>_ s.
      take_slot vol vext gen s)))"

definition allocate_gen :: "uuid \<Rightarrow> u64 \<Rightarrow> u64 \<Rightarrow> slab \<Rightarrow> (drive_error + nat) \<times> slab" where
  "allocate_gen vol vext gen s =
     and_then (take_slot_or_flush vol vext gen s) (\<lambda>i s.
     and_then (persist_slot i s) (\<lambda>_ s. (Inr i, s)))"

definition allocate :: "uuid \<Rightarrow> u64 \<Rightarrow> slab \<Rightarrow> (drive_error + nat) \<times> slab" where
  "allocate vol vext = allocate_gen vol vext 1"

definition allocate_deferred :: "uuid \<Rightarrow> u64 \<Rightarrow> u64 \<Rightarrow> slab \<Rightarrow> (drive_error + nat) \<times> slab" where
  "allocate_deferred vol vext gen s =
     and_then (take_slot_or_flush vol vext gen s) (\<lambda>i s.
     (Inr i, pend_do (\<lambda>p. p\<lparr>p_unpublished := insert i (p_unpublished p)\<rparr>) s))"

definition confirm :: "nat \<Rightarrow> slab \<Rightarrow> slab" where
  "confirm i = pend_do (\<lambda>p. if i \<in> p_unpublished p then p\<lparr>p_ready := insert i (p_ready p)\<rparr> else p)"

definition has_ready :: "slab \<Rightarrow> bool" where
  "has_ready s \<longleftrightarrow> p_ready (s_pend s) \<noteq> {}"

section \<open>Publishing and sync\<close>

definition publish_ready :: "slab \<Rightarrow> (drive_error + bool) \<times> slab" where
  "publish_ready s =
     (let ready = sorted_list_of_set (p_ready (s_pend s));
          newly = p_ready (s_pend s) \<inter> p_unpublished (s_pend s);
          s = pend_do (\<lambda>p. p\<lparr>p_ready := {}, p_unpublished := p_unpublished p - newly\<rparr>) s in
      if ready = [] then (Inr False, s)
      else case persist_slots ready s of
        (Inl e, s) \<Rightarrow> (Inl e, pend_do (\<lambda>p. p\<lparr>p_unpublished := p_unpublished p \<union> newly,
                                              p_ready := p_ready p \<union> set ready\<rparr>) s)
      | (Inr _, s) \<Rightarrow> (Inr True, s))"

definition ready_entries :: "slab \<Rightarrow> (nat \<times> slot) list \<times> slab" where
  "ready_entries s =
     (let p = s_pend s; ready = sorted_list_of_set (p_ready p);
          out = List.map_filter (\<lambda>i. map_option (\<lambda>sl. (i, sl)) (map_of (p_entries p) i)) ready;
          written = filter (\<lambda>i. map_of (p_entries p) i = None \<and> i \<notin> p_unpublished p) ready
      in (out, pend_do (\<lambda>p. p\<lparr>p_ready := p_ready p - set written\<rparr>) s))"

text \<open>
  \<open>publish_unlocked\<close>: the entries read before, written if memory still says the same and
  they still wait; \<open>None\<close> when something changed and nothing was written.
\<close>

definition publish_unlocked :: "(nat \<times> slot) list \<Rightarrow> slab \<Rightarrow> (drive_error + bool option) \<times> slab" where
  "publish_unlocked entries s =
     (if entries = [] then (Inr (Some False), s)
      else let p = s_pend s;
               current = (\<forall>(i, sl)\<in>set entries. i \<in> p_ready p \<and> map_of (p_entries p) i = Some sl) in
      if \<not> current then (Inr None, s)
      else let taken = set (map fst entries); newly = taken \<inter> p_unpublished p;
               s = pend_do (\<lambda>p. p\<lparr>p_ready := p_ready p - taken, p_unpublished := p_unpublished p - newly\<rparr>) s in
        case table_write entries s of
          (Inr _, s) \<Rightarrow>
            (Inr (Some True),
             pend_do (\<lambda>p. p\<lparr>p_entries := fold (\<lambda>(i, sl) es.
                        if i \<notin> p_unpublished p \<and> map_of (p_entries p) i = Some sl then al_del i es else es)
                        entries (p_entries p)\<rparr>) s)
        | (Inl e, s) \<Rightarrow>
            (Inl e,
             pend_do (\<lambda>p. let back = {i. \<exists>sl. (i, sl) \<in> set entries \<and> map_of (p_entries p) i = Some sl}
                          in p\<lparr>p_unpublished := p_unpublished p \<union> (back \<inter> newly), p_ready := p_ready p \<union> back\<rparr>) s))"

text \<open>
  \<open>SlabSyncHandle::run\<close> in its parts: the ticket, the first flush with the frees it makes
  durable, the publish, the second flush. \<open>sync\<close> is all of it with nothing in between.
\<close>

definition sync_flush :: "slab \<Rightarrow> (drive_error + unit) \<times> slab" where
  "sync_flush s = flush_freeing s"

definition sync_finish :: "nat \<Rightarrow> bool \<Rightarrow> slab \<Rightarrow> (drive_error + unit) \<times> slab" where
  "sync_finish covers wrote s =
     and_then (if wrote then dev_do dev_flush s else (Inr (), s)) (\<lambda>_ s.
       (Inr (), s\<lparr>s_done := max (s_done s) covers\<rparr>))"

definition sync_run :: "(slab \<Rightarrow> (drive_error + bool) \<times> slab) \<Rightarrow> slab \<Rightarrow> (drive_error + unit) \<times> slab" where
  "sync_run publish s =
     (let ticket = s_asked s + 1; s = s\<lparr>s_asked := ticket\<rparr> in
      if s_done s \<ge> ticket then (Inr (), s)
      else let covers = s_asked s in
        and_then (sync_flush s) (\<lambda>_ s.
        and_then (publish s) (\<lambda>wrote s. sync_finish covers wrote s)))"

definition sync :: "slab \<Rightarrow> (drive_error + unit) \<times> slab" where
  "sync s = sync_run publish_ready s"

text \<open>The publish of \<open>sync_registered\<close>: three tries with nothing held, then under the registry.\<close>

primrec publish_registered :: "nat \<Rightarrow> slab \<Rightarrow> (drive_error + bool) \<times> slab" where
  "publish_registered 0 s = publish_ready s"
| "publish_registered (Suc n) s =
     (case ready_entries s of (entries, s) \<Rightarrow>
        and_then (publish_unlocked entries s) (\<lambda>r s.
          case r of Some wrote \<Rightarrow> (Inr wrote, s) | None \<Rightarrow> publish_registered n s))"

definition sync_registered :: "slab \<Rightarrow> (drive_error + slab_header option) \<times> slab" where
  "sync_registered s =
     and_then (sync_run (publish_registered 3) s) (\<lambda>_ s.
       case commit_ahead s of (ahead, s) \<Rightarrow> (Inr ahead, s))"

section \<open>Freeing\<close>

definition in_range :: "nat \<Rightarrow> slab \<Rightarrow> (drive_error + unit) \<times> slab" where
  "in_range i s = (if i \<ge> committed s then (Inl (SlotOutOfRange i), s) else (Inr (), s))"

definition is_erasing :: "nat \<Rightarrow> slab \<Rightarrow> bool" where
  "is_erasing i s \<longleftrightarrow> map_of (p_erasing (s_pend s)) i \<noteq> None \<or> map_of (p_erasing_now (s_pend s)) i \<noteq> None"

definition erase_level_now :: "slab \<Rightarrow> erase_level" where
  "erase_level_now s = max (case s_erase_now s of Some l \<Rightarrow> l | None \<Rightarrow> s_erase s) (s_erase s)"

definition bump_volume :: "uuid \<Rightarrow> (uuid \<times> nat) list \<Rightarrow> (uuid \<times> nat) list" where
  "bump_volume v m = al_put v ((case map_of m v of Some n \<Rightarrow> n | None \<Rightarrow> 0) + 1) m"

definition retire_erase :: "erase_level \<Rightarrow> nat \<Rightarrow> slot \<Rightarrow> slab \<Rightarrow> slab" where
  "retire_erase level i old s =
     (let s' = pend_do (\<lambda>p. p\<lparr>p_entries := al_put i (old\<lparr>sl_state := Erasing, sl_refs := erase_code level\<rparr>) (p_entries p),
                             p_ready := p_ready p - {i}, p_unpublished := p_unpublished p - {i},
                             p_erasing := al_put i (level, sl_volume old) (p_erasing p)\<rparr>) s in
      if map_of (p_erasing (s_pend s)) i = None
      then (pend_do (\<lambda>p. p\<lparr>p_by_volume := bump_volume (sl_volume old) (p_by_volume p)\<rparr>) s')
             \<lparr>s_retired := s_retired s + 1\<rparr>
      else s')"

definition retire :: "nat \<Rightarrow> slab \<Rightarrow> (drive_error + bool) \<times> slab" where
  "retire i s =
     (let level = erase_level_now s in
      if level \<noteq> EraseNone then
        and_then (slot_now i s) (\<lambda>old s. (Inr True, retire_erase level i old s))
      else
        let s = pend_do (\<lambda>p. p\<lparr>p_ready := p_ready p - {i}\<rparr>) s in
        if i \<in> p_unpublished (s_pend s) then
          let s = pend_do (\<lambda>p. p\<lparr>p_unpublished := p_unpublished p - {i}, p_entries := al_del i (p_entries p)\<rparr>) s
          in (Inr False, s\<lparr>s_free := fm_set (s_free s) i True, s_free_count := s_free_count s + 1\<rparr>)
        else
          (Inr True, pend_do (\<lambda>p. p\<lparr>p_entries := al_put i slot_free (p_entries p), p_freeing := p_freeing p @ [i]\<rparr>) s))"

text \<open>Discards: sorted, without repeats, contiguous slots in one request.\<close>

fun slot_runs :: "nat \<Rightarrow> nat \<Rightarrow> nat list \<Rightarrow> (nat \<times> nat) list" where
  "slot_runs a b [] = [(a, b)]"
| "slot_runs a b (i # is) = (if i = b + 1 then slot_runs a i is else (a, b) # slot_runs i i is)"

definition discard_runs :: "nat list \<Rightarrow> (nat \<times> nat) list" where
  "discard_runs slots = (case remdups (sort slots) of [] \<Rightarrow> [] | i # is \<Rightarrow> slot_runs i i is)"

definition discard_run :: "nat \<times> nat \<Rightarrow> slab \<Rightarrow> slab" where
  "discard_run r s =
     (case r of (a, b) \<Rightarrow>
       let size = unat (h_slot_size (s_header s)) in
       s\<lparr>s_dev := dev_discard (unat (h_data_offset (s_header s)) + a * size) ((b - a + 1) * size) (s_dev s)\<rparr>)"

definition discard_slots :: "nat list \<Rightarrow> slab \<Rightarrow> slab" where
  "discard_slots slots s = fold discard_run (discard_runs slots) s"

definition free :: "nat \<Rightarrow> slab \<Rightarrow> (drive_error + unit) \<times> slab" where
  "free i s =
     and_then (in_range i s) (\<lambda>_ s.
     and_then (slot_now i s) (\<lambda>sl s.
     if \<not> is_owned (sl_state sl) then (Inl (DoubleFree i), s)
     else and_then (retire i s) (\<lambda>write s.
       and_then (if write then persist_slot i s else (Inr (), s)) (\<lambda>_ s.
         (Inr (), if is_erasing i s then s else discard_slots [i] s)))))"

primrec plan_owned :: "nat list \<Rightarrow> preread \<Rightarrow> slab \<Rightarrow> (drive_error + nat list) \<times> slab" where
  "plan_owned [] pre s = (Inr [], s)"
| "plan_owned (i # is) pre s =
     and_then (in_range i s) (\<lambda>_ s.
     and_then (slot_with (Some pre) i s) (\<lambda>sl s.
     and_then (plan_owned is pre s) (\<lambda>os s. (Inr (if is_owned (sl_state sl) then i # os else os), s))))"

definition plan_free :: "nat list \<Rightarrow> preread \<Rightarrow> slab \<Rightarrow> (drive_error + nat list \<times> bool) \<times> slab" where
  "plan_free slots pre s =
     and_then (plan_owned slots pre s) (\<lambda>owned s. (Inr (owned, erase_level_now s = EraseNone), s))"

primrec retire_all :: "nat list \<Rightarrow> preread \<Rightarrow> nat list \<Rightarrow> nat \<Rightarrow> slab \<Rightarrow> (drive_error + nat list \<times> nat) \<times> slab" where
  "retire_all [] pre write freed s = (Inr (write, freed), s)"
| "retire_all (i # is) pre write freed s =
     and_then (in_range i s) (\<lambda>_ s.
     and_then (slot_with (Some pre) i s) (\<lambda>sl s.
     if \<not> is_owned (sl_state sl) then retire_all is pre write freed s
     else and_then (retire i s) (\<lambda>w s. retire_all is pre (if w then write @ [i] else write) (freed + 1) s)))"

definition free_planned :: "nat list \<Rightarrow> preread \<Rightarrow> slab \<Rightarrow> (drive_error + nat) \<times> slab" where
  "free_planned slots pre s =
     and_then (retire_all slots pre [] 0 s) (\<lambda>(write, freed) s.
     and_then (persist_slots write s) (\<lambda>_ s. (Inr freed, s)))"

section \<open>Share counts\<close>

definition inc_ref :: "nat \<Rightarrow> slab \<Rightarrow> (drive_error + unit) \<times> slab" where
  "inc_ref i s =
     and_then (in_range i s) (\<lambda>_ s.
     and_then (slot_now i s) (\<lambda>sl s.
     if \<not> is_owned (sl_state sl) then (Inl (FreeSlot i), s)
     else persist_slot i (set_slot i (sl\<lparr>sl_refs := sl_refs sl + 1\<rparr>) s)))"

primrec check_owned :: "nat list \<Rightarrow> preread option \<Rightarrow> slab \<Rightarrow> (drive_error + (nat \<times> slot) list) \<times> slab" where
  "check_owned [] pre s = (Inr [], s)"
| "check_owned (i # is) pre s =
     and_then (in_range i s) (\<lambda>_ s.
     and_then (slot_with pre i s) (\<lambda>sl s.
     if \<not> is_owned (sl_state sl) then (Inl (FreeSlot i), s)
     else and_then (check_owned is pre s) (\<lambda>rest s. (Inr ((i, sl) # rest), s))))"

text \<open>A slot named twice is bumped twice; the counts wait for the next sync.\<close>

definition bump_all :: "(nat \<times> slot) list \<Rightarrow> (nat \<times> slot) list" where
  "bump_all now = fold (\<lambda>(i, sl) bumped.
     let sl = (case map_of bumped i of Some b \<Rightarrow> b | None \<Rightarrow> sl) in al_put i (sl\<lparr>sl_refs := sl_refs sl + 1\<rparr>) bumped) now []"

definition inc_ref_batch_with :: "nat list \<Rightarrow> preread option \<Rightarrow> slab \<Rightarrow> (drive_error + unit) \<times> slab" where
  "inc_ref_batch_with slots pre s =
     and_then (check_owned slots pre s) (\<lambda>now s.
       (Inr (), pend_do (\<lambda>p. fold (\<lambda>(i, sl) p. p\<lparr>p_entries := al_put i sl (p_entries p), p_ready := insert i (p_ready p)\<rparr>)
                                 (bump_all now) p) s))"

datatype dec_ref_reject = Duplicate | OutOfRange | AlreadyFree

record dec_ref_outcome =
  o_freed :: nat
  o_retained :: nat
  o_rejected :: "(nat \<times> dec_ref_reject) list"

primrec dec_ref_loop ::
  "nat list \<Rightarrow> preread option \<Rightarrow> dec_ref_outcome \<times> nat set \<times> nat list \<times> nat list \<Rightarrow> slab \<Rightarrow>
   (drive_error + dec_ref_outcome \<times> nat list \<times> nat list) \<times> slab" where
  "dec_ref_loop [] pre st s = (case st of (out, seen, touched, freed) \<Rightarrow> (Inr (out, touched, freed), s))"
| "dec_ref_loop (i # is) pre st s =
     (case st of (out, seen, touched, freed) \<Rightarrow>
      if i \<in> seen then
        dec_ref_loop is pre (out\<lparr>o_rejected := o_rejected out @ [(i, Duplicate)]\<rparr>, seen, touched, freed) s
      else let seen = insert i seen in
      if i \<ge> committed s then
        dec_ref_loop is pre (out\<lparr>o_rejected := o_rejected out @ [(i, OutOfRange)]\<rparr>, seen, touched, freed) s
      else and_then (slot_with pre i s) (\<lambda>sl s.
        if \<not> is_owned (sl_state sl) \<or> sl_refs sl = 0 then
          dec_ref_loop is pre (out\<lparr>o_rejected := o_rejected out @ [(i, AlreadyFree)]\<rparr>, seen, touched, freed) s
        else let sl = sl\<lparr>sl_refs := sl_refs sl - 1\<rparr> in
        if sl_refs sl > 0 then
          dec_ref_loop is pre (out\<lparr>o_retained := o_retained out + 1\<rparr>, seen, touched, freed)
            (pend_do (\<lambda>p. p\<lparr>p_ready := insert i (p_ready p)\<rparr>) (set_slot i sl s))
        else and_then (retire i s) (\<lambda>write s.
          dec_ref_loop is pre (out\<lparr>o_freed := o_freed out + 1\<rparr>, seen,
                               if write then touched @ [i] else touched, freed @ [i]) s)))"

definition dec_ref_batch_with :: "nat list \<Rightarrow> preread option \<Rightarrow> slab \<Rightarrow> (drive_error + dec_ref_outcome) \<times> slab" where
  "dec_ref_batch_with slots pre s =
     and_then (dec_ref_loop slots pre (\<lparr>o_freed = 0, o_retained = 0, o_rejected = []\<rparr>, {}, [], []) s)
       (\<lambda>(out, touched, freed) s.
     and_then (persist_slots touched s) (\<lambda>_ s.
       let freed = filter (\<lambda>i. \<not> is_erasing i s) freed in
       (Inr out, if freed \<noteq> [] then discard_slots freed s else s)))"

definition dec_ref :: "nat \<Rightarrow> slab \<Rightarrow> (drive_error + bool) \<times> slab" where
  "dec_ref i s =
     and_then (in_range i s) (\<lambda>_ s.
     and_then (slot_now i s) (\<lambda>sl s.
     if \<not> is_owned (sl_state sl) \<or> sl_refs sl = 0 then (Inl (FreeSlot i), s)
     else let sl = sl\<lparr>sl_refs := sl_refs sl - 1\<rparr>; s = set_slot i sl s in
       if sl_refs sl = 0 then and_then (free i s) (\<lambda>_ s. (Inr True, s))
       else (Inr False, pend_do (\<lambda>p. p\<lparr>p_ready := insert i (p_ready p)\<rparr>) s)))"

definition raise_ref :: "nat \<Rightarrow> u32 \<Rightarrow> slab \<Rightarrow> bool \<times> slab" where
  "raise_ref i count s =
     (if i \<ge> committed s then (False, s)
      else case slot_now i s of
        (Inr sl, s) \<Rightarrow>
          (if is_owned (sl_state sl) \<and> sl_refs sl < count
           then (True, pend_do (\<lambda>p. p\<lparr>p_ready := insert i (p_ready p)\<rparr>) (set_slot i (sl\<lparr>sl_refs := count\<rparr>) s))
           else (False, s))
      | (Inl _, s) \<Rightarrow> (False, s))"

definition reassign_slot :: "nat \<Rightarrow> uuid \<Rightarrow> u64 \<Rightarrow> slab \<Rightarrow> (drive_error + unit) \<times> slab" where
  "reassign_slot i vol vext s =
     and_then (in_range i s) (\<lambda>_ s.
     and_then (slot_now i s) (\<lambda>sl s.
     if \<not> is_owned (sl_state sl) then (Inl (FreeSlot i), s)
     else persist_slot i (set_slot i (sl\<lparr>sl_volume := vol, sl_vext := vext, sl_gen := sl_gen sl + 1\<rparr>) s)))"

definition owner :: "nat \<Rightarrow> slab \<Rightarrow> (uuid \<times> u64) option \<times> slab" where
  "owner i s =
     (if i \<ge> committed s then (None, s)
      else case slot_now i s of
        (Inr sl, s) \<Rightarrow> (if is_owned (sl_state sl) then Some (sl_volume sl, sl_vext sl) else None, s)
      | (Inl _, s) \<Rightarrow> (None, s))"

definition shares :: "nat \<Rightarrow> slab \<Rightarrow> u32 \<times> slab" where
  "shares i s =
     (if i \<ge> committed s then (0, s)
      else case slot_now i s of
        (Inr sl, s) \<Rightarrow> (if is_owned (sl_state sl) then sl_refs sl else 0, s)
      | (Inl _, s) \<Rightarrow> (0, s))"

section \<open>Erasing\<close>

record erase_job =
  j_slot :: nat
  j_offset :: nat
  j_len :: nat
  j_level :: erase_level
  j_volume :: uuid

definition take_erasing :: "nat \<Rightarrow> slab \<Rightarrow> erase_job list \<times> slab" where
  "take_erasing n s =
     (let picked = take n (p_erasing (s_pend s)); h = s_header s in
      (map (\<lambda>(i, level, vol). \<lparr>j_slot = i, j_offset = unat (h_data_offset h) + i * unat (h_slot_size h),
                               j_len = unat (h_slot_size h), j_level = level, j_volume = vol\<rparr>) picked,
       pend_do (\<lambda>p. p\<lparr>p_erasing := drop n (p_erasing p),
                     p_erasing_now := fold (\<lambda>(i, job). al_put i job) picked (p_erasing_now p)\<rparr>) s))"

definition return_erase :: "nat \<Rightarrow> slab \<Rightarrow> slab" where
  "return_erase i = pend_do (\<lambda>p.
     case map_of (p_erasing_now p) i of
       Some job \<Rightarrow> p\<lparr>p_erasing_now := al_del i (p_erasing_now p), p_erasing := al_put i job (p_erasing p)\<rparr>
     | None \<Rightarrow> p)"

definition drop_volume :: "uuid \<Rightarrow> (uuid \<times> nat) list \<Rightarrow> (uuid \<times> nat) list" where
  "drop_volume v m =
     (case map_of m v of Some n \<Rightarrow> (if n - 1 = 0 then al_del v m else al_put v (n - 1) m) | None \<Rightarrow> m)"

definition finish_erase :: "nat \<Rightarrow> slab \<Rightarrow> (drive_error + unit) \<times> slab" where
  "finish_erase i s =
     (let p = s_pend s in
      case (case map_of (p_erasing_now p) i of Some job \<Rightarrow> Some job | None \<Rightarrow> map_of (p_erasing p) i) of
        None \<Rightarrow> (Inr (), s)
      | Some (level, vol) \<Rightarrow>
        persist_slot i (pend_do (\<lambda>p.
          let p = (if map_of (p_erasing_now p) i \<noteq> None then p\<lparr>p_erasing_now := al_del i (p_erasing_now p)\<rparr>
                   else p\<lparr>p_erasing := al_del i (p_erasing p)\<rparr>)
          in p\<lparr>p_by_volume := drop_volume vol (p_by_volume p),
               p_entries := al_put i slot_free (p_entries p), p_freeing := p_freeing p @ [i]\<rparr>) s))"

definition erasing_slots :: "slab \<Rightarrow> nat" where
  "erasing_slots s = length (p_erasing (s_pend s)) + length (p_erasing_now (s_pend s))"

definition erasing_for :: "uuid \<Rightarrow> slab \<Rightarrow> nat" where
  "erasing_for vol s = (case map_of (p_by_volume (s_pend s)) vol of Some n \<Rightarrow> n | None \<Rightarrow> 0)"

section \<open>Counts, addresses, growth\<close>

definition free_slots :: "slab \<Rightarrow> nat" where
  "free_slots s =
     (let p = s_pend s; beyond = s_span s - fm_len (s_free s)
      in s_free_count s + (length (p_freeing p) + length (p_released p)) + beyond)"

definition allocated_slots :: "slab \<Rightarrow> nat" where
  "allocated_slots s = s_span s - free_slots s"

definition slot_device_and_offset :: "nat \<Rightarrow> nat \<Rightarrow> slab \<Rightarrow> (drive_error + nat) \<times> slab" where
  "slot_device_and_offset i off s =
     and_then (in_range i s) (\<lambda>_ s.
     let size = unat (h_slot_size (s_header s)) in
     if off \<ge> size then (Inl (PastSlotEnd off), s)
     else (Inr (unat (h_data_offset (s_header s)) + i * size + off), s))"

definition write_slot :: "nat \<Rightarrow> nat \<Rightarrow> bytes \<Rightarrow> slab \<Rightarrow> (drive_error + unit) \<times> slab" where
  "write_slot i off buf s =
     and_then (in_range i s) (\<lambda>_ s.
       dev_do (dev_write [WData (unat (h_data_offset (s_header s)) + i * unat (h_slot_size (s_header s)) + off) buf]) s)"

definition read_slot :: "nat \<Rightarrow> nat \<Rightarrow> nat \<Rightarrow> slab \<Rightarrow> (drive_error + bytes) \<times> slab" where
  "read_slot i off len s =
     and_then (in_range i s) (\<lambda>_ s.
       dev_do (\<lambda>d. if faulted (dv_read_faults d) then (Inl IoError, d\<lparr>dv_read_faults := tl (dv_read_faults d)\<rparr>)
         else (Inr (map (\<lambda>k. im_data (dv_view d)
                (unat (h_data_offset (s_header s)) + i * unat (h_slot_size (s_header s)) + off + k)) [0..<len]),
               d\<lparr>dv_read_faults := tl (dv_read_faults d)\<rparr>)) s)"

definition grow :: "slab \<Rightarrow> (drive_error + nat) \<times> slab" where
  "grow s =
     (let fits = (dv_capacity (s_dev s) - unat (h_data_offset (s_header s))) div unat (h_slot_size (s_header s));
          new_total = min fits (s_room s); old_total = s_span s in
      if new_total \<le> old_total then (Inr 0, s)
      else let added = new_total - old_total; s = s\<lparr>s_span := new_total\<rparr>;
               h = (header_now s)\<lparr>h_free_slots := of_nat (s_free_count s + added), h_update_time := s_now s\<rparr> in
        and_then (dev_do (dev_write [WHeader h]) s) (\<lambda>_ s.
        and_then (dev_do dev_flush s) (\<lambda>_ s.
          (Inr added, take_committed (s\<lparr>s_header := h\<rparr>)))))"

definition set_partner :: "uuid option \<Rightarrow> slab \<Rightarrow> (drive_error + unit) \<times> slab" where
  "set_partner partner s =
     (if h_version (s_header s) \<noteq> SLAB_VERSION_2 then (Inl NoHeaderRoom, s)
      else let h = (header_now s)\<lparr>h_partner := (case partner of Some u \<Rightarrow> u | None \<Rightarrow> uuid_nil)\<rparr> in
        and_then (dev_do (dev_write [WHeader h]) s) (\<lambda>_ s.
        and_then (dev_do dev_flush s) (\<lambda>_ s. (Inr (), s\<lparr>s_header := h\<rparr>))))"

definition set_moved_to :: "uuid option \<Rightarrow> slab \<Rightarrow> (drive_error + unit) \<times> slab" where
  "set_moved_to to s =
     (if h_version (s_header s) \<noteq> SLAB_VERSION_2 then (Inl NoHeaderRoom, s)
      else let h = (header_now s)\<lparr>h_moved_to := (case to of Some u \<Rightarrow> u | None \<Rightarrow> uuid_nil)\<rparr>;
               h = (if to \<noteq> None then h\<lparr>h_partner := uuid_nil\<rparr> else h) in
        and_then (dev_do (dev_write [WHeader h]) s) (\<lambda>_ s.
        and_then (dev_do dev_flush s) (\<lambda>_ s. (Inr (), s\<lparr>s_header := h\<rparr>))))"

end
