(* ===== verification/SlabInv.thy ===== *)
theory SlabInv
  imports Slab
begin

text \<open>
  The invariant of a slab. Every slot of the free map's range is in exactly one place: free,
  freed and waiting for its free entry to be durable, released, waiting for the eraser or
  with it, or owned. With it, what the device and every image a power cut can leave say of
  a slot: a slot that can be handed out, and one handed out but not yet published, is free
  in all of them. Every operation keeps the invariant on a device whose reads and table
  writes succeed; flushes may fail. What the failures of the others do is in \<open>SlabCrash\<close>.
\<close>

section \<open>The view of one slot\<close>

record sview =
  v_free :: bool
  v_freeing :: bool
  v_released :: bool
  v_erasing :: bool
  v_erasing_now :: bool
  v_unpub :: bool
  v_ready :: bool
  v_mem :: "slot option"
  v_disk :: slot
  v_cutfree :: bool
  v_in :: bool
  v_zeroed :: bool

abbreviation is_free_entry :: "slot \<Rightarrow> bool" where
  "is_free_entry sl \<equiv> sl_state sl = Free"

definition sv :: "slab \<Rightarrow> nat \<Rightarrow> sview" where
  "sv s i = (let p = s_pend s in
     \<lparr>v_free = fm_is_free (s_free s) i, v_freeing = (i \<in> set (p_freeing p)), v_released = (i \<in> set (p_released p)),
      v_erasing = (map_of (p_erasing p) i \<noteq> None), v_erasing_now = (map_of (p_erasing_now p) i \<noteq> None),
      v_unpub = (i \<in> p_unpublished p), v_ready = (i \<in> p_ready p), v_mem = map_of (p_entries p) i,
      v_disk = im_entries (dv_view (s_dev s)) i, v_cutfree = cut_all is_free_entry (s_dev s) i,
      v_in = (i < fm_len (s_free s)), v_zeroed = (i < s_cap s)\<rparr>)"

definition v_now :: "sview \<Rightarrow> slot" where
  "v_now v = (case v_mem v of Some sl \<Rightarrow> sl | None \<Rightarrow> v_disk v)"

lemma v_now_simps [simp]:
  "v_now (v\<lparr>v_free := b\<rparr>) = v_now v" "v_now (v\<lparr>v_freeing := b\<rparr>) = v_now v"
  "v_now (v\<lparr>v_released := b\<rparr>) = v_now v" "v_now (v\<lparr>v_erasing := b\<rparr>) = v_now v"
  "v_now (v\<lparr>v_erasing_now := b\<rparr>) = v_now v" "v_now (v\<lparr>v_unpub := b\<rparr>) = v_now v"
  "v_now (v\<lparr>v_ready := b\<rparr>) = v_now v" "v_now (v\<lparr>v_cutfree := b\<rparr>) = v_now v"
  "v_now (v\<lparr>v_in := b\<rparr>) = v_now v" "v_now (v\<lparr>v_zeroed := b\<rparr>) = v_now v"
  "v_now (v\<lparr>v_mem := Some sl\<rparr>) = sl" "v_now (v\<lparr>v_mem := None\<rparr>) = v_disk v"
  "v_mem v = None \<Longrightarrow> v_now v = v_disk v" "v_mem v = Some sl \<Longrightarrow> v_now v = sl"
  by (simp_all add: v_now_def split: option.split)

definition v_idle :: "sview \<Rightarrow> bool" where
  "v_idle v \<longleftrightarrow> \<not> v_unpub v \<and> \<not> v_ready v"

definition v_owned :: "sview \<Rightarrow> bool" where
  "v_owned v \<longleftrightarrow> v_in v \<and> \<not> v_free v \<and> \<not> v_freeing v \<and> \<not> v_released v \<and> \<not> v_erasing v \<and> \<not> v_erasing_now v"

definition sv_ok :: "sview \<Rightarrow> bool" where
  "sv_ok v \<longleftrightarrow>
     (if v_free v then v_in v \<and> \<not> v_freeing v \<and> \<not> v_released v \<and> \<not> v_erasing v \<and> \<not> v_erasing_now v \<and>
        v_idle v \<and> v_mem v = None \<and> v_cutfree v
      else if v_freeing v then v_in v \<and> \<not> v_released v \<and> \<not> v_erasing v \<and> \<not> v_erasing_now v \<and> v_idle v \<and>
        (v_mem v = Some slot_free \<or> v_mem v = None \<and> is_free_entry (v_disk v))
      else if v_released v then v_in v \<and> \<not> v_erasing v \<and> \<not> v_erasing_now v \<and> v_idle v \<and>
        v_mem v = None \<and> v_cutfree v
      else if v_erasing v \<or> v_erasing_now v then v_in v \<and> \<not> (v_erasing v \<and> v_erasing_now v) \<and> v_idle v \<and>
        sl_state (v_now v) = Erasing
      else if v_in v then is_owned (sl_state (v_now v)) \<and> (v_unpub v \<longrightarrow> v_mem v \<noteq> None \<and> v_cutfree v)
      else v_idle v \<and> v_mem v = None \<and> (v_zeroed v \<longrightarrow> v_cutfree v)) \<and>
     (v_cutfree v \<longrightarrow> is_free_entry (v_disk v))"

definition dev_quiet :: "dev \<Rightarrow> bool" where
  "dev_quiet d \<longleftrightarrow> dv_read_faults d = [] \<and> dv_write_faults d = []"

definition slab_inv :: "slab \<Rightarrow> bool" where
  "slab_inv s \<longleftrightarrow>
     fm_inv (s_free s) \<and> s_free_count s = fm_count_free (s_free s) \<and> fm_len (s_free s) \<le> committed s \<and>
     distinct (p_freeing (s_pend s) @ p_released (s_pend s)) \<and>
     al_wf (p_erasing (s_pend s)) \<and> al_wf (p_erasing_now (s_pend s)) \<and>
     dev_quiet (s_dev s) \<and> (\<forall>i. sv_ok (sv s i))"

text \<open>Nothing retired waits for its entry to be written.\<close>

definition settled :: "slab \<Rightarrow> bool" where
  "settled s \<longleftrightarrow> (\<forall>i. v_freeing (sv s i) \<or> v_erasing (sv s i) \<or> v_erasing_now (sv s i) \<longrightarrow> v_mem (sv s i) = None)"

lemmas sv_defs = sv_def Let_def
lemmas sv_ok_defs = sv_ok_def v_idle_def v_now_def

section \<open>The device, when it is quiet\<close>

lemma quiet_write: "dev_quiet d \<Longrightarrow> dev_write ws d = (Inr (), d\<lparr>dv_log := dv_log d @ ws\<rparr>)"
  by (cases d) (simp add: dev_quiet_def dev_write_def)

lemma quiet_read: "dev_quiet d \<Longrightarrow> dev_read_entry i d = (Inr (im_entries (dv_view d) i), d)"
  by (cases d) (simp add: dev_quiet_def dev_read_entry_def faulted_def)

lemma quiet_flush:
  assumes "dev_quiet d" and "dev_flush d = (r, d')"
  shows "dev_quiet d'" and "dv_view d' = dv_view d"
    and "cut_all P d i \<Longrightarrow> cut_all P d' i"
    and "r = Inr () \<Longrightarrow> cut_all P d' i = P (im_entries (dv_view d) i)"
  using assms
  by (auto simp: dev_flush_def dev_quiet_def dv_view_def cut_all_def cut_images_def split: if_splits
      dest: cut_all_view)

lemma view_append: "dv_view (d\<lparr>dv_log := dv_log d @ ws\<rparr>) = apply_writes ws (dv_view d)"
  by (simp add: dv_view_def)

lemma cut_free_append:
  "cut_all P d i \<Longrightarrow> \<forall>w\<in>set ws. entry_ok P i w \<Longrightarrow> cut_all P (d\<lparr>dv_log := dv_log d @ ws\<rparr>) i"
  by (rule cut_all_append) simp_all

lemma dev_quiet_log [simp]: "dev_quiet (d\<lparr>dv_log := l\<rparr>) = dev_quiet d"
  by (simp add: dev_quiet_def)

lemma slot_now_quiet:
  "dev_quiet (s_dev s) \<Longrightarrow> slot_now i s = (Inr (v_now (sv s i)), s)"
  by (simp add: slot_now_def v_now_def sv_defs dev_do_def quiet_read split: option.splits)

lemma slot_now_inv: "slab_inv s \<Longrightarrow> slot_now i s = (Inr (v_now (sv s i)), s)"
  by (simp add: slab_inv_def slot_now_quiet)

section \<open>Small steps on one slot\<close>

lemma slab_inv_sv: "slab_inv s \<Longrightarrow> sv_ok (sv s i)"
  by (simp add: slab_inv_def)

lemma sv_fields [simp]:
  "v_free (sv s i) = fm_is_free (s_free s) i"
  "v_freeing (sv s i) = (i \<in> set (p_freeing (s_pend s)))"
  "v_released (sv s i) = (i \<in> set (p_released (s_pend s)))"
  "v_erasing (sv s i) = (map_of (p_erasing (s_pend s)) i \<noteq> None)"
  "v_erasing_now (sv s i) = (map_of (p_erasing_now (s_pend s)) i \<noteq> None)"
  "v_unpub (sv s i) = (i \<in> p_unpublished (s_pend s))"
  "v_ready (sv s i) = (i \<in> p_ready (s_pend s))"
  "v_mem (sv s i) = map_of (p_entries (s_pend s)) i"
  "v_disk (sv s i) = im_entries (dv_view (s_dev s)) i"
  "v_cutfree (sv s i) = cut_all is_free_entry (s_dev s) i"
  "v_in (sv s i) = (i < fm_len (s_free s))"
  "v_zeroed (sv s i) = (i < s_cap s)"
  by (simp_all add: sv_defs)

lemma sv_owned_ok:
  "v_owned v \<Longrightarrow> sv_ok v \<longleftrightarrow> is_owned (sl_state (v_now v)) \<and> (v_unpub v \<longrightarrow> v_mem v \<noteq> None \<and> v_cutfree v) \<and>
     (v_cutfree v \<longrightarrow> is_free_entry (v_disk v))"
  by (simp add: sv_ok_def v_owned_def)

lemma sv_ok_set_mem:
  "sv_ok v \<Longrightarrow> v_owned v \<Longrightarrow> is_owned (sl_state sl) \<Longrightarrow> sv_ok (v\<lparr>v_mem := Some sl\<rparr>)"
  by (simp add: sv_owned_ok v_owned_def)

lemma sv_ok_set_ready: "sv_ok v \<Longrightarrow> v_owned v \<Longrightarrow> sv_ok (v\<lparr>v_ready := True\<rparr>)"
  by (simp add: sv_owned_ok v_owned_def)

lemma sv_ok_unpub: "sv_ok v \<Longrightarrow> v_unpub v \<or> v_ready v \<Longrightarrow> v_owned v"
  by (simp add: sv_ok_def v_owned_def v_idle_def split: if_splits)

lemma sv_ok_owned_state: "sv_ok v \<Longrightarrow> is_owned (sl_state (v_now v)) \<Longrightarrow> v_in v \<or> v_zeroed v \<Longrightarrow> v_owned v"
  by (cases "v_mem v") (auto simp: sv_ok_def v_owned_def v_now_def slot_free_def split: if_splits)

lemma sv_set_slot: "sv (set_slot i sl s) j = (if j = i then (sv s i)\<lparr>v_mem := Some sl\<rparr> else sv s j)"
  by (simp add: set_slot_def pend_do_def sv_defs)

lemma set_slot_rest [simp]:
  "s_free (set_slot i sl s) = s_free s" "s_free_count (set_slot i sl s) = s_free_count s"
  "s_cap (set_slot i sl s) = s_cap s" "s_span (set_slot i sl s) = s_span s" "s_room (set_slot i sl s) = s_room s"
  "s_dev (set_slot i sl s) = s_dev s" "s_header (set_slot i sl s) = s_header s"
  "s_epoch (set_slot i sl s) = s_epoch s"
  "p_freeing (s_pend (set_slot i sl s)) = p_freeing (s_pend s)"
  "p_released (s_pend (set_slot i sl s)) = p_released (s_pend s)"
  "p_erasing (s_pend (set_slot i sl s)) = p_erasing (s_pend s)"
  "p_erasing_now (s_pend (set_slot i sl s)) = p_erasing_now (s_pend s)"
  "p_unpublished (s_pend (set_slot i sl s)) = p_unpublished (s_pend s)"
  "p_ready (s_pend (set_slot i sl s)) = p_ready (s_pend s)"
  by (simp_all add: set_slot_def pend_do_def)

text \<open>
  The shape every operation's proof takes: the parts of the invariant that speak of the whole
  slab hold of the new state, and the view of each slot is a good one.
\<close>

lemma slab_invI:
  assumes "fm_inv (s_free s)" and "s_free_count s = fm_count_free (s_free s)"
    and "fm_len (s_free s) \<le> committed s"
    and "distinct (p_freeing (s_pend s) @ p_released (s_pend s))"
    and "al_wf (p_erasing (s_pend s))" and "al_wf (p_erasing_now (s_pend s))"
    and "dev_quiet (s_dev s)" and "\<And>i. sv_ok (sv s i)"
  shows "slab_inv s"
  using assms by (simp add: slab_inv_def)

lemma slab_invD:
  assumes "slab_inv s"
  shows "fm_inv (s_free s)" "s_free_count s = fm_count_free (s_free s)"
    "fm_len (s_free s) \<le> committed s"
    "distinct (p_freeing (s_pend s) @ p_released (s_pend s))"
    "al_wf (p_erasing (s_pend s))" "al_wf (p_erasing_now (s_pend s))"
    "dev_quiet (s_dev s)" "sv_ok (sv s i)"
  using assms by (simp_all add: slab_inv_def)

text \<open>A change that touches only what memory holds of some owned slots.\<close>

definition same_frame :: "slab \<Rightarrow> slab \<Rightarrow> bool" where
  "same_frame s s' \<longleftrightarrow> s_free s' = s_free s \<and> s_free_count s' = s_free_count s \<and> committed s' = committed s \<and>
     p_freeing (s_pend s') = p_freeing (s_pend s) \<and> p_released (s_pend s') = p_released (s_pend s) \<and>
     p_erasing (s_pend s') = p_erasing (s_pend s) \<and> p_erasing_now (s_pend s') = p_erasing_now (s_pend s) \<and>
     dev_quiet (s_dev s')"

lemma slab_inv_frame:
  assumes "slab_inv s" and "same_frame s s'" and "\<And>i. sv_ok (sv s' i)"
  shows "slab_inv s'"
  using assms by (auto simp: slab_inv_def same_frame_def)

text \<open>An owned slot's entry is changed in memory to another owned one.\<close>

lemma slab_inv_set_slot:
  assumes "slab_inv s" and "v_owned (sv s i)" and "is_owned (sl_state sl)"
  shows "slab_inv (set_slot i sl s)"
proof (rule slab_inv_frame [OF assms(1)])
  show "same_frame s (set_slot i sl s)"
    using assms(1) by (simp add: same_frame_def committed_def slab_invD)
  have "sv_ok ((sv s i)\<lparr>v_mem := Some sl\<rparr>)"
    using slab_inv_sv [OF assms(1), of i] assms(2,3) by (rule sv_ok_set_mem)
  then show "sv_ok (sv (set_slot i sl s) j)" for j
    by (simp add: sv_set_slot slab_inv_sv [OF assms(1)])
qed

lemma owned_of_state:
  assumes "slab_inv s" and "is_owned (sl_state (v_now (sv s i)))" and "i < committed s"
  shows "v_owned (sv s i)"
  using sv_ok_owned_state [OF slab_inv_sv [OF assms(1)] assms(2)] assms(3) by (simp add: committed_def)

definition mark_ready :: "nat \<Rightarrow> slab \<Rightarrow> slab" where
  "mark_ready i = pend_do (\<lambda>p. p\<lparr>p_ready := insert i (p_ready p)\<rparr>)"

lemma sv_mark_ready: "sv (mark_ready i s) j = (if j = i then (sv s i)\<lparr>v_ready := True\<rparr> else sv s j)"
  by (simp add: mark_ready_def pend_do_def sv_defs)

lemma slab_inv_mark_ready:
  assumes "slab_inv s" and "v_owned (sv s i)"
  shows "slab_inv (mark_ready i s)"
proof (rule slab_inv_frame [OF assms(1)])
  show "same_frame s (mark_ready i s)"
    using assms(1) by (simp add: same_frame_def committed_def slab_invD mark_ready_def pend_do_def)
  have "sv_ok ((sv s i)\<lparr>v_ready := True\<rparr>)"
    using slab_inv_sv [OF assms(1), of i] assms(2) by (rule sv_ok_set_ready)
  then show "sv_ok (sv (mark_ready i s) j)" for j
    by (simp add: sv_mark_ready slab_inv_sv [OF assms(1)])
qed

lemma slab_inv_confirm:
  assumes inv: "slab_inv s"
  shows "slab_inv (confirm i s)"
proof (cases "i \<in> p_unpublished (s_pend s)")
  case True
  have "v_owned (sv s i)"
    using sv_ok_unpub [OF slab_inv_sv [OF inv], of i] True by simp
  moreover have "confirm i s = mark_ready i s"
    using True by (simp add: confirm_def mark_ready_def pend_do_def)
  ultimately show ?thesis using inv by (simp add: slab_inv_mark_ready)
next
  case False
  then show ?thesis using inv by (simp add: confirm_def pend_do_def)
qed

section \<open>Writing entries\<close>

definition entry_of :: "slab \<Rightarrow> nat \<Rightarrow> slot" where
  "entry_of s i = (if v_unpub (sv s i) then slot_free else v_now (sv s i))"

lemma entries_of_quiet:
  "dev_quiet (s_dev s) \<Longrightarrow> entries_of is s = (Inr (map (\<lambda>i. (i, entry_of s i)) is), s)"
  by (induction "is") (simp_all add: entry_bytes_def entry_of_def slot_now_quiet)

lemma view_wentries:
  "im_entries (apply_writes (map (\<lambda>i. WEntry i (f i)) is) im) j = (if j \<in> set is then f j else im_entries im j)"
  by (induction "is" arbitrary: im) auto

lemma forget_fold:
  "map_of (fold (\<lambda>i es. if i \<in> U then es else al_del i es) is m) j =
     (if j \<in> set is \<and> j \<notin> U then None else map_of m j)"
  by (induction "is" arbitrary: m) auto

lemma fold_forget_rest [simp]:
  "p_unpublished (forget_written is p) = p_unpublished p" "p_ready (forget_written is p) = p_ready p"
  "p_freeing (forget_written is p) = p_freeing p" "p_released (forget_written is p) = p_released p"
  "p_erasing (forget_written is p) = p_erasing p" "p_erasing_now (forget_written is p) = p_erasing_now p"
  "p_by_volume (forget_written is p) = p_by_volume p"
  by (simp_all add: forget_written_def)

lemma forget_written_get:
  "map_of (p_entries (forget_written is p)) j =
     (if j \<in> set is \<and> j \<notin> p_unpublished p then None else map_of (p_entries p) j)"
  by (simp add: forget_written_def forget_fold)

text \<open>The slab after its entries for \<open>is\<close> have been written, in that order.\<close>

definition written :: "nat list \<Rightarrow> slab \<Rightarrow> slab" where
  "written is s = pend_do (forget_written is)
     (s\<lparr>s_dev := (s_dev s)\<lparr>dv_log := dv_log (s_dev s) @ map (\<lambda>i. WEntry i (entry_of s i)) is\<rparr>,
        s_epoch := s_epoch s + 2\<rparr>)"

lemma persist_quiet:
  assumes "dev_quiet (s_dev s)"
  shows "persist_slots xs s = (Inr (), if xs = [] then s else written (remdups (sort xs)) s)"
  using assms
  by (simp add: persist_slots_def entries_of_quiet table_write_def dev_do_def quiet_write written_def Let_def
      map_idI comp_def)

lemma sv_written:
  "sv (written is s) j =
     (if j \<in> set is
      then (sv s j)\<lparr>v_mem := if v_unpub (sv s j) then v_mem (sv s j) else None, v_disk := entry_of s j,
                    v_cutfree := cut_all is_free_entry (s_dev (written is s)) j\<rparr>
      else (sv s j)\<lparr>v_cutfree := cut_all is_free_entry (s_dev (written is s)) j\<rparr>)"
  by (simp add: written_def pend_do_def sv_def [of "_\<lparr>s_dev := _\<rparr>"] sv_def [of "_\<lparr>s_pend := _\<rparr>"] Let_def
      forget_written_get view_append view_wentries)

lemma cut_written:
  assumes "cut_all is_free_entry (s_dev s) j" and "j \<in> set is \<Longrightarrow> is_free_entry (entry_of s j)"
  shows "cut_all is_free_entry (s_dev (written is s)) j"
  unfolding written_def pend_do_def
  using assms by (auto intro!: cut_free_append)

lemma sv_ok_cutfree:
  "sv_ok v \<Longrightarrow> (v_cutfree v \<Longrightarrow> c) \<Longrightarrow> (c \<Longrightarrow> is_free_entry (v_disk v)) \<Longrightarrow> sv_ok (v\<lparr>v_cutfree := c\<rparr>)"
  by (simp add: sv_ok_def v_idle_def split: if_splits)

lemma slot_free_state [simp]: "sl_state slot_free = Free"
  by (simp add: slot_free_def)

lemma sv_ok_written:
  assumes ok: "sv_ok v" and d: "d = (if v_unpub v then slot_free else v_now v)"
    and c: "v_cutfree v \<Longrightarrow> is_free_entry d \<Longrightarrow> c" and c': "c \<Longrightarrow> is_free_entry d"
  shows "sv_ok (v\<lparr>v_mem := if v_unpub v then v_mem v else None, v_disk := d, v_cutfree := c\<rparr>)"
proof (cases "v_unpub v")
  case True
  then have "v_owned v" using ok by (simp add: sv_ok_unpub)
  then show ?thesis
    using ok c True d by (cases "v_mem v") (auto simp: sv_owned_ok v_owned_def sv_ok_def)
next
  case False
  then have d': "d = v_now v" using d by simp
  have n: "v_now (v\<lparr>v_mem := None, v_disk := d, v_cutfree := c\<rparr>) = d"
    by (simp add: v_now_def)
  show ?thesis
    using ok c c' False d' n
    by (auto simp: sv_ok_def v_idle_def split: if_splits)
qed

lemma slab_inv_written:
  assumes inv: "slab_inv s"
  shows "slab_inv (written is s)"
proof (rule slab_inv_frame [OF inv])
  show "same_frame s (written is s)"
    using inv by (simp add: same_frame_def committed_def slab_invD written_def pend_do_def)
  show "sv_ok (sv (written is s) j)" for j
  proof -
    let ?c = "cut_all is_free_entry (s_dev (written is s)) j"
    have v: "?c \<Longrightarrow> is_free_entry (v_disk (sv (written is s) j))"
      using cut_all_view by simp
    have ok: "sv_ok (sv s j)" by (rule slab_inv_sv [OF inv])
    show ?thesis
    proof (cases "j \<in> set is")
      case True
      have "sv_ok ((sv s j)\<lparr>v_mem := if v_unpub (sv s j) then v_mem (sv s j) else None, v_disk := entry_of s j, v_cutfree := ?c\<rparr>)"
      proof (rule sv_ok_written [OF ok])
        show "entry_of s j = (if v_unpub (sv s j) then slot_free else v_now (sv s j))"
          by (simp add: entry_of_def)
        show "v_cutfree (sv s j) \<Longrightarrow> is_free_entry (entry_of s j) \<Longrightarrow> ?c"
          by (simp add: cut_written)
        show "?c \<Longrightarrow> is_free_entry (entry_of s j)"
          using v True by (simp add: sv_written)
      qed
      then show ?thesis using True by (simp add: sv_written)
    next
      case False
      have "sv_ok ((sv s j)\<lparr>v_cutfree := ?c\<rparr>)"
      proof (rule sv_ok_cutfree [OF ok])
        show "v_cutfree (sv s j) \<Longrightarrow> ?c" using False by (auto intro: cut_written)
        show "?c \<Longrightarrow> is_free_entry (v_disk (sv s j))" using v False by (simp add: sv_written)
      qed
      then show ?thesis using False by (simp add: sv_written)
    qed
  qed
qed

lemma persist_inv:
  assumes "slab_inv s"
  obtains s' where "persist_slots xs s = (Inr (), s')" and "slab_inv s'"
    and "\<And>j. v_now (sv s' j) = v_now (sv s j)"
    and "\<And>j. j \<in> set xs \<Longrightarrow> v_mem (sv s' j) = (if v_unpub (sv s j) then v_mem (sv s j) else None)"
    and "\<And>j. j \<notin> set xs \<Longrightarrow> v_mem (sv s' j) = v_mem (sv s j)"
    and "same_frame s s'" and "p_unpublished (s_pend s') = p_unpublished (s_pend s)"
    and "p_ready (s_pend s') = p_ready (s_pend s)" and "s_header s' = s_header s"
    and "s_cap s' = s_cap s" and "s_span s' = s_span s" and "s_room s' = s_room s"
    and "s_erase s' = s_erase s" and "s_erase_now s' = s_erase_now s"
proof -
  define s' where "s' = (if xs = [] then s else written (remdups (sort xs)) s)"
  have now: "v_now (sv (written is s) j) = v_now (sv s j)" for "is" j
  proof (cases "v_unpub (sv s j)")
    case True
    then have "v_owned (sv s j)" using sv_ok_unpub [OF slab_inv_sv [OF assms]] by blast
    then obtain sl where "v_mem (sv s j) = Some sl"
      using slab_inv_sv [OF assms, of j] True by (auto simp: sv_owned_ok)
    then show ?thesis using True by (simp add: sv_written v_now_def)
  next
    case False
    then show ?thesis by (simp add: sv_written v_now_def entry_of_def split: option.splits)
  qed
  show thesis
  proof (rule that [of s'])
    show "persist_slots xs s = (Inr (), s')"
      using assms by (simp add: persist_quiet slab_invD s'_def)
    show "slab_inv s'" using assms by (simp add: s'_def slab_inv_written)
    show "v_now (sv s' j) = v_now (sv s j)" for j by (simp add: s'_def now)
    show "j \<in> set xs \<Longrightarrow> v_mem (sv s' j) = (if v_unpub (sv s j) then v_mem (sv s j) else None)" for j
      by (auto simp: s'_def sv_written simp del: sv_fields)
    show "j \<notin> set xs \<Longrightarrow> v_mem (sv s' j) = v_mem (sv s j)" for j
      by (auto simp: s'_def sv_written simp del: sv_fields)
  qed (use assms in \<open>simp_all add: s'_def same_frame_def committed_def slab_invD written_def pend_do_def\<close>)
qed

section \<open>The free map\<close>

lemma sv_take_committed:
  "sv (take_committed s) j =
     (if fm_len (s_free s) \<le> j \<and> j < committed s then (sv s j)\<lparr>v_free := True, v_in := True\<rparr> else sv s j)"
  by (auto simp: take_committed_def sv_defs fm_is_free_resize Let_def fm.is_free_len
      intro!: sview.equality dest: fm.is_free_len)

lemma sv_ok_outside:
  "sv_ok v \<Longrightarrow> \<not> v_in v \<Longrightarrow> v_zeroed v \<Longrightarrow> sv_ok (v\<lparr>v_free := True, v_in := True\<rparr>)"
  by (simp add: sv_ok_def v_idle_def split: if_splits)

lemma take_committed_rest [simp]:
  "s_pend (take_committed s) = s_pend s" "s_dev (take_committed s) = s_dev s" "s_cap (take_committed s) = s_cap s"
  "s_span (take_committed s) = s_span s" "s_room (take_committed s) = s_room s" "s_header (take_committed s) = s_header s"
  "s_erase (take_committed s) = s_erase s" "s_erase_now (take_committed s) = s_erase_now s"
  "s_epoch (take_committed s) = s_epoch s" "s_step (take_committed s) = s_step s"
  by (simp_all add: take_committed_def Let_def)

lemma slab_inv_take_committed:
  assumes inv: "slab_inv s"
  shows "slab_inv (take_committed s)"
proof (rule slab_invI)
  note d = slab_invD [OF inv]
  show "fm_inv (s_free (take_committed s))" using d by (simp add: take_committed_def Let_def)
  show "s_free_count (take_committed s) = fm_count_free (s_free (take_committed s))"
    using d by (simp add: take_committed_def Let_def fm.num_free_grow)
  show "fm_len (s_free (take_committed s)) \<le> committed (take_committed s)"
    using d by (simp add: take_committed_def Let_def committed_def)
  show "sv_ok (sv (take_committed s) j)" for j
    using sv_ok_outside [OF d(8), of j] d(8) [of j] by (auto simp: sv_take_committed committed_def)
qed (use slab_invD [OF inv] in simp_all)

text \<open>Slots whose free is durable go back to the free map.\<close>

lemma sv_absorb_one:
  "i < fm_len (s_free s) \<Longrightarrow> sv (absorb_one i s) j = (if j = i then (sv s j)\<lparr>v_free := True\<rparr> else sv s j)"
  by (auto simp: absorb_one_def sv_defs fm_is_free_set)

lemma absorb_one_rest [simp]:
  "s_pend (absorb_one i s) = s_pend s" "s_dev (absorb_one i s) = s_dev s" "s_cap (absorb_one i s) = s_cap s"
  "s_span (absorb_one i s) = s_span s" "s_room (absorb_one i s) = s_room s" "s_header (absorb_one i s) = s_header s"
  "s_erase (absorb_one i s) = s_erase s" "s_erase_now (absorb_one i s) = s_erase_now s"
  "s_epoch (absorb_one i s) = s_epoch s" "s_step (absorb_one i s) = s_step s"
  "fm_len (s_free (absorb_one i s)) = fm_len (s_free s)"
  by (simp_all add: absorb_one_def)

lemma absorb_fold_rest [simp]:
  "s_pend (fold absorb_one is s) = s_pend s" "s_dev (fold absorb_one is s) = s_dev s"
  "s_cap (fold absorb_one is s) = s_cap s" "s_span (fold absorb_one is s) = s_span s"
  "s_room (fold absorb_one is s) = s_room s" "s_header (fold absorb_one is s) = s_header s"
  "s_erase (fold absorb_one is s) = s_erase s" "s_erase_now (fold absorb_one is s) = s_erase_now s"
  "s_epoch (fold absorb_one is s) = s_epoch s" "s_step (fold absorb_one is s) = s_step s"
  "fm_len (s_free (fold absorb_one is s)) = fm_len (s_free s)"
  by (induction "is" arbitrary: s) simp_all

lemma absorb_one_inv:
  assumes "fm_inv (s_free s)" and "s_free_count s = fm_count_free (s_free s)" and "i < fm_len (s_free s)"
  shows "fm_inv (s_free (absorb_one i s)) \<and> s_free_count (absorb_one i s) = fm_count_free (s_free (absorb_one i s))"
  using assms by (simp add: absorb_one_def fm.num_free_give_back)

lemma fold_absorb:
  assumes "\<forall>i\<in>set is. i < fm_len (s_free s)"
    and "fm_inv (s_free s)" and "s_free_count s = fm_count_free (s_free s)"
  shows "(\<forall>j. sv (fold absorb_one is s) j = (if j \<in> set is then (sv s j)\<lparr>v_free := True\<rparr> else sv s j)) \<and>
     fm_inv (s_free (fold absorb_one is s)) \<and>
     s_free_count (fold absorb_one is s) = fm_count_free (s_free (fold absorb_one is s))"
  using assms
proof (induction "is" arbitrary: s)
  case Nil
  then show ?case by simp
next
  case (Cons i xs)
  then have i: "i < fm_len (s_free s)" by simp
  have "\<forall>k\<in>set xs. k < fm_len (s_free (absorb_one i s))" using Cons.prems by simp
  from Cons.IH [OF this] absorb_one_inv [OF Cons.prems(2,3) i]
  show ?case by (simp add: sv_absorb_one [OF i])
qed

lemma fold_absorb_free:
  assumes "\<forall>i\<in>set is. i < fm_len (s_free s)" and "fm_inv (s_free s)"
    and "s_free_count s = fm_count_free (s_free s)" and "i \<in> set is"
  shows "fm_is_free (s_free (fold absorb_one is s)) i"
proof -
  have "sv (fold absorb_one is s) i = (sv s i)\<lparr>v_free := True\<rparr>"
    using fold_absorb [OF assms(1-3)] assms(4) by simp
  then have "v_free (sv (fold absorb_one is s) i) = v_free ((sv s i)\<lparr>v_free := True\<rparr>)" by (rule arg_cong)
  then show ?thesis by simp
qed

lemma sv_ok_release:
  "sv_ok v \<Longrightarrow> v_released v \<Longrightarrow> sv_ok (v\<lparr>v_released := False, v_free := True\<rparr>)"
  by (simp add: sv_ok_def v_idle_def split: if_splits)

lemma released_in: "slab_inv s \<Longrightarrow> i \<in> set (p_released (s_pend s)) \<Longrightarrow> i < fm_len (s_free s)"
  using slab_inv_sv [of s i] by (auto simp: sv_ok_def split: if_splits)

lemma freeing_in: "slab_inv s \<Longrightarrow> i \<in> set (p_freeing (s_pend s)) \<Longrightarrow> i < fm_len (s_free s)"
  using slab_inv_sv [of s i] by (auto simp: sv_ok_def split: if_splits)

lemma sv_absorb_released:
  assumes "slab_inv s"
  shows "sv (absorb_released s) j =
     (if j \<in> set (p_released (s_pend s)) then (sv s j)\<lparr>v_released := False, v_free := True\<rparr> else sv s j)"
proof -
  let ?s = "pend_do (\<lambda>p. p\<lparr>p_released := []\<rparr>) s"
  have "sv ?s j = (sv s j)\<lparr>v_released := False\<rparr>" for j
    by (simp add: pend_do_def sv_defs)
  moreover have "j \<notin> set (p_released (s_pend s)) \<Longrightarrow> (sv s j)\<lparr>v_released := False\<rparr> = sv s j"
    by (simp add: sv_defs)
  ultimately show ?thesis
    using fold_absorb [of "p_released (s_pend s)" ?s] released_in [OF assms] slab_invD [OF assms]
    by (simp add: absorb_released_def Let_def pend_do_def)
qed

lemma absorb_released_rest [simp]:
  "s_dev (absorb_released s) = s_dev s" "s_cap (absorb_released s) = s_cap s"
  "s_span (absorb_released s) = s_span s" "s_room (absorb_released s) = s_room s"
  "s_header (absorb_released s) = s_header s" "s_erase (absorb_released s) = s_erase s"
  "s_erase_now (absorb_released s) = s_erase_now s" "s_epoch (absorb_released s) = s_epoch s"
  "s_step (absorb_released s) = s_step s"
  "fm_len (s_free (absorb_released s)) = fm_len (s_free s)"
  "s_pend (absorb_released s) = (s_pend s)\<lparr>p_released := []\<rparr>"
  by (simp_all add: absorb_released_def Let_def pend_do_def)

lemma slab_inv_absorb_released:
  assumes inv: "slab_inv s"
  shows "slab_inv (absorb_released s)"
proof (rule slab_invI)
  note d = slab_invD [OF inv]
  let ?s = "pend_do (\<lambda>p. p\<lparr>p_released := []\<rparr>) s"
  have f: "fm_inv (s_free (absorb_released s)) \<and>
      s_free_count (absorb_released s) = fm_count_free (s_free (absorb_released s))"
    using fold_absorb [of "p_released (s_pend s)" ?s] released_in [OF inv] d
    by (simp add: absorb_released_def Let_def pend_do_def)
  show "fm_inv (s_free (absorb_released s))"
    and "s_free_count (absorb_released s) = fm_count_free (s_free (absorb_released s))"
    using f by simp_all
  show "fm_len (s_free (absorb_released s)) \<le> committed (absorb_released s)"
    using d(3) by (simp add: committed_def)
  show "sv_ok (sv (absorb_released s) j)" for j
    using d(8) [of j] by (simp add: sv_absorb_released [OF inv] sv_ok_release)
qed (use slab_invD [OF inv] in simp_all)

end
