(* ===== verification/SlabOps.thy ===== *)
theory SlabOps
  imports SlabInv
begin

text \<open>
  Every operation of a slab keeps its invariant: allocation, confirmation, the parts of a
  sync, frees and share counts alone and in batches, erasing, growth and the steps that
  commit more of the table.
\<close>

definition good :: "slab \<Rightarrow> bool" where
  "good s \<longleftrightarrow> slab_inv s \<and> settled s"

lemma settled_iff:
  "settled s \<longleftrightarrow> (\<forall>i. i \<in> set (p_freeing (s_pend s)) \<or> map_of (p_erasing (s_pend s)) i \<noteq> None \<or>
      map_of (p_erasing_now (s_pend s)) i \<noteq> None \<longrightarrow> map_of (p_entries (s_pend s)) i = None)"
  by (simp add: settled_def)

lemma goodD: "good s \<Longrightarrow> slab_inv s" "good s \<Longrightarrow> settled s"
  by (simp_all add: good_def)

text \<open>
  What a slab is to its clients: the slots that are owned, with their entries. Every operation
  is given by what it does to this map.
\<close>

definition own :: "slab \<Rightarrow> nat \<Rightarrow> slot option" where
  "own s j = (if v_owned (sv s j) then Some (v_now (sv s j)) else None)"

lemma own_sv: "(\<And>j. v_owned (sv s' j) = v_owned (sv s j)) \<Longrightarrow>
    (\<And>j. v_owned (sv s j) \<Longrightarrow> v_now (sv s' j) = v_now (sv s j)) \<Longrightarrow> own s' = own s"
  by (auto simp: own_def fun_eq_iff)

lemma v_now_eq: "v_mem v' = v_mem v \<Longrightarrow> v_disk v' = v_disk v \<Longrightarrow> v_now v' = v_now v"
  by (simp add: v_now_def split: option.splits)

lemma own_same:
  assumes "s_pend s' = s_pend s" and "s_free s' = s_free s"
    and "\<And>j. j < fm_len (s_free s) \<Longrightarrow> v_disk (sv s' j) = v_disk (sv s j)"
  shows "own s' = own s"
  using assms by (intro own_sv) (auto simp: v_owned_def v_now_def split: option.splits)

lemma own_owned: "slab_inv s \<Longrightarrow> own s j = Some sl \<Longrightarrow> is_owned (sl_state sl)"
  using slab_inv_sv [of s j] by (auto simp: own_def sv_owned_ok split: if_splits)

lemma own_None: "own s j = None \<longleftrightarrow> \<not> v_owned (sv s j)"
  by (simp add: own_def)

lemma v_owned_in: "slab_inv s \<Longrightarrow> v_owned (sv s j) \<Longrightarrow> j < committed s"
  using slab_invD(3) [of s] by (simp add: v_owned_def)

text \<open>Fields the invariant does not speak of.\<close>

lemma sv_ghost [simp]:
  "sv (s\<lparr>s_asked := n\<rparr>) j = sv s j" "sv (s\<lparr>s_done := n\<rparr>) j = sv s j" "sv (s\<lparr>s_ahead := b\<rparr>) j = sv s j"
  "sv (s\<lparr>s_retired := n\<rparr>) j = sv s j" "sv (s\<lparr>s_header := h\<rparr>) j = sv s j" "sv (s\<lparr>s_span := n\<rparr>) j = sv s j"
  "sv (s\<lparr>s_erase := l\<rparr>) j = sv s j" "sv (s\<lparr>s_erase_now := lo\<rparr>) j = sv s j" "sv (s\<lparr>s_step := n\<rparr>) j = sv s j"
  by (simp_all add: sv_defs)

lemma own_ghost [simp]:
  "own (s\<lparr>s_asked := n\<rparr>) = own s" "own (s\<lparr>s_done := n\<rparr>) = own s" "own (s\<lparr>s_ahead := b\<rparr>) = own s"
  "own (s\<lparr>s_retired := n\<rparr>) = own s" "own (s\<lparr>s_header := h\<rparr>) = own s" "own (s\<lparr>s_span := n\<rparr>) = own s"
  "own (s\<lparr>s_erase := l\<rparr>) = own s" "own (s\<lparr>s_erase_now := lo\<rparr>) = own s" "own (s\<lparr>s_step := n\<rparr>) = own s"
  by (rule own_sv; simp del: sv_fields)+

lemma good_ghost [simp]:
  "good (s\<lparr>s_asked := n\<rparr>) = good s" "good (s\<lparr>s_done := n\<rparr>) = good s" "good (s\<lparr>s_ahead := b\<rparr>) = good s"
  "good (s\<lparr>s_retired := n\<rparr>) = good s" "good (s\<lparr>s_header := h\<rparr>) = good s"
  "good (s\<lparr>s_erase := l\<rparr>) = good s" "good (s\<lparr>s_erase_now := lo\<rparr>) = good s" "good (s\<lparr>s_step := n\<rparr>) = good s"
  by (simp_all add: good_def slab_inv_def settled_iff committed_def)

section \<open>Flushes\<close>

lemma dev_do_rest:
  assumes "dev_do f s = (r, s')"
  shows "s_pend s' = s_pend s" "s_free s' = s_free s" "s_free_count s' = s_free_count s" "s_cap s' = s_cap s"
    "s_span s' = s_span s" "s_room s' = s_room s" "s_step s' = s_step s" "s_header s' = s_header s"
    "s_erase s' = s_erase s" "s_erase_now s' = s_erase_now s" "s_epoch s' = s_epoch s"
    "s_asked s' = s_asked s" "s_done s' = s_done s" "s_now s' = s_now s" "s_retired s' = s_retired s"
  using assms by (auto simp: dev_do_def split: prod.splits)

lemma settled_pend: "s_pend s' = s_pend s \<Longrightarrow> settled s' = settled s"
  by (simp add: settled_iff)

lemma sv_dev:
  assumes "dv_view d = dv_view (s_dev s)"
  shows "sv (s\<lparr>s_dev := d\<rparr>) j = (sv s j)\<lparr>v_cutfree := cut_all is_free_entry d j\<rparr>"
  using assms by (simp add: sv_defs)

lemma flush_inv:
  assumes inv: "slab_inv s" and f: "dev_do dev_flush s = (r, s')"
  shows "slab_inv s'" and "dv_view (s_dev s') = dv_view (s_dev s)"
    and "r = Inr () \<Longrightarrow> cut_all is_free_entry (s_dev s') j = is_free_entry (v_disk (sv s j))"
proof -
  from f obtain d where d: "dev_flush (s_dev s) = (r, d)" and s': "s' = s\<lparr>s_dev := d\<rparr>"
    by (auto simp: dev_do_def split: prod.splits)
  note q = quiet_flush [OF slab_invD(7) [OF inv] d]
  show "slab_inv s'"
  proof (rule slab_inv_frame [OF inv])
    show "same_frame s s'" using q(1) by (simp add: s' same_frame_def committed_def)
    show "sv_ok (sv s' j)" for j
      unfolding s' sv_dev [OF q(2)]
    proof (rule sv_ok_cutfree [OF slab_inv_sv [OF inv]])
      show "v_cutfree (sv s j) \<Longrightarrow> cut_all is_free_entry d j" using q(3) by simp
      show "cut_all is_free_entry d j \<Longrightarrow> is_free_entry (v_disk (sv s j))"
        using cut_all_view [of is_free_entry d j] q(2) by simp
    qed
  qed
  show "dv_view (s_dev s') = dv_view (s_dev s)" using q(2) by (simp add: s')
  show "r = Inr () \<Longrightarrow> cut_all is_free_entry (s_dev s') j = is_free_entry (v_disk (sv s j))"
    using q(4) [where P = is_free_entry and i = j] by (simp add: s')
qed

lemma flush_good: "good s \<Longrightarrow> dev_do dev_flush s = (r, s') \<Longrightarrow> good s'"
  using flush_inv(1) [of s r s'] settled_pend [OF dev_do_rest(1), of dev_flush s r s'] by (auto simp: good_def)

lemma sv_ok_freed:
  "sv_ok v \<Longrightarrow> v_freeing v \<Longrightarrow> v_mem v = None \<Longrightarrow> v_cutfree v \<Longrightarrow> sv_ok (v\<lparr>v_freeing := False, v_released := True\<rparr>)"
  by (simp add: sv_ok_def v_idle_def split: if_splits)

text \<open>The slab's frees, moved to the released ones.\<close>

definition released_now :: "slab \<Rightarrow> slab" where
  "released_now s = pend_do (\<lambda>p. p\<lparr>p_freeing := [], p_released := p_released p @ p_freeing p\<rparr>) s"

lemma flush_freeing_eq:
  "flush_freeing s = (case dev_do dev_flush s of (Inl e, s') \<Rightarrow> (Inl e, s') | (Inr u, s') \<Rightarrow> (Inr u, released_now s'))"
  by (auto simp: flush_freeing_def Let_def dev_do_def pend_do_def released_now_def split: prod.splits sum.splits)

lemma sv_released_now:
  "sv (released_now s) j = (if v_freeing (sv s j) then (sv s j)\<lparr>v_freeing := False, v_released := True\<rparr> else sv s j)"
  by (auto simp: released_now_def pend_do_def sv_defs)

lemma flush_freeing_good:
  assumes g: "good s" and f: "flush_freeing s = (r, s')"
  shows "good s'"
proof -
  obtain r0 s0 where f0: "dev_do dev_flush s = (r0, s0)" by (cases "dev_do dev_flush s")
  have g0: "good s0" by (rule flush_good [OF g f0])
  show ?thesis
  proof (cases r0)
    case (Inl e)
    then show ?thesis using f f0 g0 by (simp add: flush_freeing_eq)
  next
    case (Inr u)
    then have s': "s' = released_now s0" using f f0 by (simp add: flush_freeing_eq)
    note d = slab_invD [OF goodD(1) [OF g0]]
    have "slab_inv s'"
    proof (rule slab_invI)
      show "distinct (p_freeing (s_pend s') @ p_released (s_pend s'))"
        using d(4) by (auto simp: s' released_now_def pend_do_def)
      show "sv_ok (sv s' j)" for j
      proof (cases "v_freeing (sv s0 j)")
        case True
        have m: "v_mem (sv s0 j) = None" using goodD(2) [OF g0] True unfolding settled_def by blast
        then have "is_free_entry (v_disk (sv s0 j))"
          using d(8) [of j] True by (simp add: sv_ok_def split: if_splits)
        then have "v_cutfree (sv s0 j)"
          using flush_inv(2) [OF goodD(1) [OF g] f0] flush_inv(3) [OF goodD(1) [OF g] f0, of j] Inr by simp
        then show ?thesis using sv_ok_freed [OF d(8) True m] True by (simp add: s' sv_released_now del: sv_fields)
      next
        case False
        then show ?thesis using d(8) [of j] by (simp add: s' sv_released_now del: sv_fields)
      qed
    qed (use d in \<open>simp_all add: s' released_now_def pend_do_def committed_def\<close>)
    moreover have "settled s'"
      using goodD(2) [OF g0] by (simp add: settled_iff s' released_now_def pend_do_def)
    ultimately show ?thesis by (simp add: good_def)
  qed
qed

lemma take_committed_good: "good s \<Longrightarrow> good (take_committed s)"
  by (simp add: good_def slab_inv_take_committed settled_iff)

lemma absorb_released_good: "good s \<Longrightarrow> good (absorb_released s)"
  by (simp add: good_def slab_inv_absorb_released settled_iff)

section \<open>Committing more of the table\<close>

lemma zero_chunks_entry:
  "im_entries (apply_writes (zero_chunks a n) im) j = (if a \<le> j \<and> j < a + n then slot_free else im_entries im j)"
proof (induction a n arbitrary: im rule: zero_chunks.induct)
  case (1 a n)
  show ?case
  proof (cases "n = 0")
    case True
    then show ?thesis by (auto simp: zero_chunks.simps)
  next
    case False
    show ?thesis
      by (subst zero_chunks.simps) (auto simp: False 1 [OF False])
  qed
qed

lemma zero_chunks_ok: "P slot_free \<Longrightarrow> \<forall>w\<in>set (zero_chunks a n). entry_ok P j w"
proof (induction a n rule: zero_chunks.induct)
  case (1 a n)
  then show ?case
    by (cases "n = 0") (simp_all add: zero_chunks.simps [of a])
qed

text \<open>
  A write that leaves the entries of the free map's range alone, and writes only free entries
  past it.
\<close>

lemma sv_ok_past:
  "sv_ok v \<Longrightarrow> \<not> v_in v \<Longrightarrow> (v_cutfree v \<Longrightarrow> c) \<Longrightarrow> (c \<Longrightarrow> is_free_entry d) \<Longrightarrow>
     sv_ok (v\<lparr>v_disk := d, v_cutfree := c\<rparr>)"
  by (simp add: sv_ok_def v_idle_def split: if_splits)

lemma write_inv:
  assumes inv: "slab_inv s"
    and same: "\<And>j. j < fm_len (s_free s) \<Longrightarrow> im_entries (apply_writes ws (dv_view (s_dev s))) j = im_entries (dv_view (s_dev s)) j"
    and cut: "\<And>j. \<forall>w\<in>set ws. entry_ok is_free_entry j w"
  shows "slab_inv (s\<lparr>s_dev := (s_dev s)\<lparr>dv_log := dv_log (s_dev s) @ ws\<rparr>\<rparr>)" (is "slab_inv ?s")
proof (rule slab_inv_frame [OF inv])
  show "same_frame s ?s" using slab_invD [OF inv] by (simp add: same_frame_def committed_def)
  fix j
  let ?d = "(s_dev s)\<lparr>dv_log := dv_log (s_dev s) @ ws\<rparr>"
  let ?e = "im_entries (apply_writes ws (dv_view (s_dev s))) j"
  have e: "im_entries (dv_view ?d) j = ?e" by (simp add: view_append)
  have sv: "sv ?s j = (sv s j)\<lparr>v_disk := ?e, v_cutfree := cut_all is_free_entry ?d j\<rparr>"
    by (simp add: sv_def Let_def e)
  have c: "v_cutfree (sv s j) \<Longrightarrow> cut_all is_free_entry ?d j" using cut by (simp add: cut_free_append)
  have c': "cut_all is_free_entry ?d j \<Longrightarrow> is_free_entry ?e" using cut_all_view e by metis
  show "sv_ok (sv ?s j)"
  proof (cases "j < fm_len (s_free s)")
    case True
    then have "sv ?s j = (sv s j)\<lparr>v_cutfree := cut_all is_free_entry ?d j\<rparr>"
      using same [OF True] by (simp add: sv_def Let_def e)
    then show ?thesis
      using sv_ok_cutfree [OF slab_inv_sv [OF inv] c] c' same [OF True] by simp
  next
    case False
    then show ?thesis using sv_ok_past [OF slab_inv_sv [OF inv], of j] c c' by (simp add: sv)
  qed
qed

lemma sv_cap: "sv (s\<lparr>s_cap := c\<rparr>) j = (sv s j)\<lparr>v_zeroed := j < c\<rparr>"
  by (simp add: sv_defs)

lemma sv_ok_zeroed: "sv_ok v \<Longrightarrow> (b \<Longrightarrow> v_in v \<or> v_cutfree v) \<Longrightarrow> sv_ok (v\<lparr>v_zeroed := b\<rparr>)"
  by (simp add: sv_ok_def v_idle_def split: if_splits)

text \<open>The entries past the committed part are zeroed and durable before the header names them.\<close>

definition step_target :: "slab \<Rightarrow> nat" where
  "step_target s = min (div_ceil (min (s_cap s + s_step s) (min (s_span s) (s_room s))) 64 * 64) (s_room s)"

definition step_len :: "slab \<Rightarrow> nat" where
  "step_len s = pad_to_block (dv_block (s_dev s)) ((step_target s - s_cap s) * 64) div 64"

lemma step_target_ge: "s_cap s < min (s_span s) (s_room s) \<Longrightarrow> s_cap s \<le> step_target s"
  using div_ceil_ge [of 64 "min (s_cap s + s_step s) (min (s_span s) (s_room s))"]
  unfolding step_target_def by linarith

lemma step_len_ge: "step_target s - s_cap s \<le> step_len s"
  using div_le_mono [OF pad_to_block_ge, of "(step_target s - s_cap s) * 64" 64] by (simp add: step_len_def)

lemma commit_step_eq:
  "commit_step h s =
     (if s_cap s \<ge> min (s_span s) (s_room s) then (Inr False, s)
      else and_then (dev_do (dev_write (zero_chunks (s_cap s) (step_len s))) s) (\<lambda>_ s1.
           and_then (dev_do dev_flush s1) (\<lambda>_ s2.
           and_then (dev_do (dev_write [WHeader (h\<lparr>h_table_capacity := of_nat (step_target s), h_span := of_nat (s_span s),
                     h_total_slots := of_nat (min (s_span s) (step_target s)), h_update_time := s_now s2\<rparr>)]) s2) (\<lambda>_ s3.
           and_then (dev_do dev_flush s3) (\<lambda>_ s4. (Inr True, s4\<lparr>s_cap := step_target s\<rparr>))))))"
  by (simp add: commit_step_def step_target_def step_len_def SLOT_ENTRY_SIZE_def Let_def)

text \<open>First the zeros and their flush.\<close>

lemma commit_zeros:
  assumes inv: "slab_inv s"
  obtains s1 where "dev_do (dev_write (zero_chunks (s_cap s) n)) s = (Inr (), s1)" and "slab_inv s1"
    and "\<And>j. s_cap s \<le> j \<Longrightarrow> j < s_cap s + n \<Longrightarrow> v_disk (sv s1 j) = slot_free"
    and "\<And>j. j < s_cap s \<Longrightarrow> v_disk (sv s1 j) = v_disk (sv s j)"
proof -
  let ?ws = "zero_chunks (s_cap s) n"
  let ?s = "s\<lparr>s_dev := (s_dev s)\<lparr>dv_log := dv_log (s_dev s) @ ?ws\<rparr>\<rparr>"
  have len: "fm_len (s_free s) \<le> s_cap s" using slab_invD(3) [OF inv] by (simp add: committed_def)
  show thesis
  proof (rule that [of ?s])
    show "dev_do (dev_write ?ws) s = (Inr (), ?s)"
      using slab_invD(7) [OF inv] by (simp add: dev_do_def quiet_write)
    show "slab_inv ?s"
      by (rule write_inv [OF inv]) (use len in \<open>simp_all add: zero_chunks_entry zero_chunks_ok\<close>)
  qed (simp_all add: view_append zero_chunks_entry)
qed

lemma write_header_inv:
  assumes inv: "slab_inv s"
  obtains s1 where "dev_do (dev_write [WHeader h]) s = (Inr (), s1)" and "slab_inv s1"
    and "\<And>j. v_disk (sv s1 j) = v_disk (sv s j)" and "im_header (dv_view (s_dev s1)) = h"
proof (rule that [of "s\<lparr>s_dev := (s_dev s)\<lparr>dv_log := dv_log (s_dev s) @ [WHeader h]\<rparr>\<rparr>"])
  show "slab_inv (s\<lparr>s_dev := (s_dev s)\<lparr>dv_log := dv_log (s_dev s) @ [WHeader h]\<rparr>\<rparr>)"
    by (rule write_inv [OF inv]) simp_all
qed (use slab_invD(7) [OF inv] in \<open>simp_all add: dev_do_def quiet_write view_append\<close>)

text \<open>Then the capacity, once the zeros are durable.\<close>

lemma slab_inv_cap:
  assumes inv: "slab_inv s" and "s_cap s \<le> c"
    and zero: "\<And>j. s_cap s \<le> j \<Longrightarrow> j < c \<Longrightarrow> v_cutfree (sv s j)"
  shows "slab_inv (s\<lparr>s_cap := c\<rparr>)"
proof (rule slab_invI)
  show "fm_len (s_free (s\<lparr>s_cap := c\<rparr>)) \<le> committed (s\<lparr>s_cap := c\<rparr>)"
    using slab_invD(3) [OF inv] assms(2) by (simp add: committed_def)
  show "sv_ok (sv (s\<lparr>s_cap := c\<rparr>) j)" for j
    unfolding sv_cap
  proof (rule sv_ok_zeroed [OF slab_inv_sv [OF inv]])
    assume "j < c"
    then show "v_in (sv s j) \<or> v_cutfree (sv s j)"
      using zero [of j] slab_inv_sv [OF inv, of j]
      by (cases "s_cap s \<le> j") (auto simp: sv_ok_def split: if_splits)
  qed
qed (use slab_invD [OF inv] in simp_all)

lemma commit_step_cases:
  assumes inv: "slab_inv s" and f: "commit_step h s = (r, s')"
  shows "slab_inv s' \<and> s_pend s' = s_pend s \<and> s_free s' = s_free s \<and> s_free_count s' = s_free_count s \<and>
    s_cap s \<le> s_cap s' \<and> s_span s' = s_span s \<and> s_room s' = s_room s \<and>
    s_erase s' = s_erase s \<and> s_erase_now s' = s_erase_now s \<and> s_epoch s' = s_epoch s \<and> s_header s' = s_header s \<and>
    (\<forall>j < s_cap s. v_disk (sv s' j) = v_disk (sv s j))"
proof (cases "s_cap s \<ge> min (s_span s) (s_room s)")
  case True
  then show ?thesis using inv f by (simp add: commit_step_eq)
next
  case False
  obtain s1 where w1: "dev_do (dev_write (zero_chunks (s_cap s) (step_len s))) s = (Inr (), s1)"
    and i1: "slab_inv s1"
    and z1: "\<And>j. s_cap s \<le> j \<Longrightarrow> j < s_cap s + step_len s \<Longrightarrow> v_disk (sv s1 j) = slot_free"
    and d1: "\<And>j. j < s_cap s \<Longrightarrow> v_disk (sv s1 j) = v_disk (sv s j)"
    using commit_zeros [OF inv] by blast
  obtain r2 s2 where f2: "dev_do dev_flush s1 = (r2, s2)" by (cases "dev_do dev_flush s1")
  note i2 = flush_inv [OF i1 f2]
  let ?h = "h\<lparr>h_table_capacity := of_nat (step_target s), h_span := of_nat (s_span s),
                h_total_slots := of_nat (min (s_span s) (step_target s)), h_update_time := s_now s2\<rparr>"
  obtain s3 where w3: "dev_do (dev_write [WHeader ?h]) s2 = (Inr (), s3)" and i3: "slab_inv s3"
    and d3: "\<And>j. v_disk (sv s3 j) = v_disk (sv s2 j)"
    using write_header_inv [OF i2(1)] by blast
  obtain r4 s4 where f4: "dev_do dev_flush s3 = (r4, s4)" by (cases "dev_do dev_flush s3")
  note i4 = flush_inv [OF i3 f4]
  note rest = dev_do_rest [OF w1] dev_do_rest [OF f2] dev_do_rest [OF w3] dev_do_rest [OF f4]
  have tgt: "s_cap s \<le> step_target s" using step_target_ge [of s] False by linarith
  have "slab_inv (s4\<lparr>s_cap := step_target s\<rparr>)" if "r4 = Inr ()"
  proof (rule slab_inv_cap [OF i4(1)])
    show "s_cap s4 \<le> step_target s" using tgt rest by simp
    show "s_cap s4 \<le> j \<Longrightarrow> j < step_target s \<Longrightarrow> v_cutfree (sv s4 j)" for j
      using z1 [of j] step_len_ge [of s] i4(3) [OF that, of j] d3 [of j] i2(2) rest by simp
  qed
  moreover have "commit_step h s = (case r2 of Inl e \<Rightarrow> (Inl e, s2)
      | Inr _ \<Rightarrow> (case r4 of Inl e \<Rightarrow> (Inl e, s4) | Inr _ \<Rightarrow> (Inr True, s4\<lparr>s_cap := step_target s\<rparr>)))"
    using False w3 f4 by (cases r2; cases r4) (simp_all add: commit_step_eq w1 f2)
  then have "s' = s2 \<or> s' = s4 \<or> r4 = Inr () \<and> s' = s4\<lparr>s_cap := step_target s\<rparr>"
    using f by (auto split: sum.splits)
  moreover have "j < s_cap s \<Longrightarrow> v_disk (sv s4 j) = v_disk (sv s j) \<and> v_disk (sv s2 j) = v_disk (sv s j)" for j
    using d1 [of j] d3 [of j] i2(2) i4(2) by simp
  ultimately show ?thesis
    using i2(1) i4(1) by (elim disjE) (simp_all add: rest tgt)
qed

lemma commit_step_good: "good s \<Longrightarrow> commit_step h s = (r, s') \<Longrightarrow> good s'"
  using commit_step_cases [of s h r s'] settled_pend [of s' s] by (auto simp: good_def)

lemma commit_step_own: "slab_inv s \<Longrightarrow> commit_step h s = (r, s') \<Longrightarrow> own s' = own s"
  using commit_step_cases [of s h r s'] slab_invD(3) [of s]
  by (intro own_same) (auto simp: committed_def simp del: sv_fields)

lemma flush_own: "slab_inv s \<Longrightarrow> dev_do dev_flush s = (r, s') \<Longrightarrow> own s' = own s"
  using flush_inv(2) [of s r s'] dev_do_rest(1,2) [of dev_flush s r s'] by (intro own_same) simp_all

lemma released_now_own: "own (released_now s) = own s"
  by (rule own_sv) (auto simp: sv_released_now v_owned_def)

lemma flush_freeing_own: "slab_inv s \<Longrightarrow> flush_freeing s = (r, s') \<Longrightarrow> own s' = own s"
  using flush_own [of s] by (auto simp: flush_freeing_eq released_now_own split: prod.splits sum.splits)

lemma take_committed_own: "slab_inv s \<Longrightarrow> own (take_committed s) = own s"
proof (rule own_sv)
  assume inv: "slab_inv s"
  show "v_owned (sv (take_committed s) j) = v_owned (sv s j)" for j
    by (auto simp: sv_take_committed v_owned_def)
  show "v_owned (sv s j) \<Longrightarrow> v_now (sv (take_committed s) j) = v_now (sv s j)" for j
    by (auto simp: sv_take_committed v_owned_def)
qed

lemma absorb_released_own: "slab_inv s \<Longrightarrow> own (absorb_released s) = own s"
  by (rule own_sv) (auto simp: sv_absorb_released v_owned_def)

section \<open>Allocation\<close>

abbreviation new_slot :: "uuid \<Rightarrow> u64 \<Rightarrow> u64 \<Rightarrow> slot" where
  "new_slot vol vext gen \<equiv>
     \<lparr>sl_state = Allocated, sl_volume = vol, sl_vext = vext, sl_refs = 1, sl_gen = gen\<rparr>"

lemma sv_ok_take:
  "sv_ok v \<Longrightarrow> v_free v \<Longrightarrow> is_owned (sl_state sl) \<Longrightarrow>
     sv_ok (v\<lparr>v_free := False, v_mem := Some sl\<rparr>) \<and> v_owned (v\<lparr>v_free := False, v_mem := Some sl\<rparr>) \<and> \<not> v_owned v \<and>
     v_cutfree v \<and> \<not> v_unpub v \<and> \<not> v_ready v"
  by (simp add: sv_ok_def v_owned_def v_idle_def)

lemma take_slot_cases:
  assumes inv: "slab_inv s" and f: "take_slot vol vext gen s = (r, s')"
  shows "r = Inl SlabFull \<and> s' = s \<and> s_free_count s = 0 \<or>
    (\<exists>i. r = Inr i \<and> slab_inv s' \<and> own s i = None \<and> own s' = (own s)(i \<mapsto> new_slot vol vext gen) \<and>
       fm_is_free (s_free s) i \<and> (\<forall>j<i. \<not> fm_is_free (s_free s) j) \<and>
       cut_all is_free_entry (s_dev s') i \<and> v_mem (sv s' i) \<noteq> None \<and> \<not> v_unpub (sv s' i) \<and>
       (\<exists>es. s_pend s' = (s_pend s)\<lparr>p_entries := es\<rparr>) \<and> (\<forall>j. j \<noteq> i \<longrightarrow> sv s' j = sv s j) \<and>
       s_dev s' = s_dev s \<and> s_cap s' = s_cap s \<and> s_span s' = s_span s)"
proof (cases "s_free_count s = 0")
  case True
  then show ?thesis using f by (simp add: take_slot_def)
next
  case False
  note d = slab_invD [OF inv]
  obtain i where i: "fm_first_free (s_free s) = Some i" "fm_is_free (s_free s) i" "i < fm_len (s_free s)"
    using fm.first_free_exists [OF d(1)] d(2) False by auto
  have least: "\<forall>j<i. \<not> fm_is_free (s_free s) j" using fm.first_free_Some [OF d(1) i(1)] by blast
  let ?sl = "new_slot vol vext gen"
  have r: "r = Inr i" and s': "s' = set_slot i ?sl (s\<lparr>s_free := fm_set (s_free s) i False, s_free_count := s_free_count s - 1\<rparr>)"
    using f False i(1) by (simp_all add: take_slot_def)
  have sv: "sv s' j = (if j = i then (sv s i)\<lparr>v_free := False, v_mem := Some ?sl\<rparr> else sv s j)" for j
    using i(3) by (simp add: s' sv_set_slot) (auto simp: sv_defs fm_is_free_set)
  note t = sv_ok_take [OF slab_inv_sv [OF inv], of i ?sl]
  have inv': "slab_inv s'"
  proof (rule slab_invI)
    show "s_free_count s' = fm_count_free (s_free s')"
      using fm.num_free_take [OF d(1) i(2)] d(2) by (simp add: s')
    show "sv_ok (sv s' j)" for j using t i(2) d(8) [of j] by (simp add: sv)
  qed (use d in \<open>simp_all add: s' committed_def\<close>)
  have "own s' j = ((own s)(i \<mapsto> ?sl)) j" for j
    using t i(2) by (simp add: own_def sv)
  then have "own s' = (own s)(i \<mapsto> ?sl)" by blast
  moreover have "s_pend s' = (s_pend s)\<lparr>p_entries := p_entries (s_pend s')\<rparr>"
    by (simp add: s' set_slot_def pend_do_def)
  ultimately show ?thesis
    using r inv' i(2) least t sv [of i] sv by (auto simp: own_None s' simp del: sv_fields) auto
qed

lemma settled_update:
  assumes "settled s" and "\<And>j. j \<noteq> i \<Longrightarrow> sv s' j = sv s j" and "v_owned (sv s' i)"
  shows "settled s'"
  unfolding settled_def
proof
  fix j
  show "v_freeing (sv s' j) \<or> v_erasing (sv s' j) \<or> v_erasing_now (sv s' j) \<longrightarrow> v_mem (sv s' j) = None"
    using assms by (cases "j = i") (auto simp: settled_def v_owned_def simp del: sv_fields)
qed

text \<open>What an allocation promises of the slot it takes.\<close>

definition took :: "uuid \<Rightarrow> u64 \<Rightarrow> u64 \<Rightarrow> slab \<Rightarrow> nat \<Rightarrow> slab \<Rightarrow> bool" where
  "took vol vext gen s i s' \<longleftrightarrow> own s i = None \<and> own s' = (own s)(i \<mapsto> new_slot vol vext gen) \<and>
     v_mem (sv s' i) \<noteq> None \<and> \<not> v_unpub (sv s' i) \<and> cut_all is_free_entry (s_dev s') i"

lemma take_slot_good:
  assumes g: "good s" and f: "take_slot vol vext gen s = (r, s')"
  shows "good s' \<and> (case r of Inl e \<Rightarrow> e = SlabFull \<and> s' = s \<and> s_free_count s = 0 | Inr i \<Rightarrow> took vol vext gen s i s')"
proof -
  from take_slot_cases [OF goodD(1) [OF g] f]
  consider "r = Inl SlabFull" "s' = s" "s_free_count s = 0"
    | i where "r = Inr i" "slab_inv s'" "took vol vext gen s i s'" "\<forall>j. j \<noteq> i \<longrightarrow> sv s' j = sv s j"
    unfolding took_def by (elim disjE exE conjE) simp_all
  then show ?thesis
  proof cases
    case 1
    then show ?thesis using g by simp
  next
    case 2
    have "own s' i \<noteq> None" using 2(3) by (simp add: took_def)
    then have "v_owned (sv s' i)" by (simp add: own_None)
    then have "settled s'" using settled_update [OF goodD(2) [OF g], of i s'] 2(4) by blast
    then show ?thesis using 2 by (simp add: good_def)
  qed
qed

lemma took_cong: "own s0 = own s \<Longrightarrow> took vol vext gen s0 i s' = took vol vext gen s i s'"
  by (simp add: took_def)

text \<open>The two ways to make room when nothing committed is free.\<close>

definition room_by_flush :: "slab \<Rightarrow> (drive_error + unit) \<times> slab" where
  "room_by_flush s =
     (if s_free_count s = 0 \<and> p_freeing (s_pend s) \<noteq> []
      then and_then (flush_freeing s) (\<lambda>_ s. (Inr (), absorb_released s)) else (Inr (), s))"

definition room_by_commit :: "slab \<Rightarrow> (drive_error + unit) \<times> slab" where
  "room_by_commit s =
     (if s_free_count s = 0 \<and> \<not> commit_whole s
      then and_then (commit_step (header_now s) s) (\<lambda>_ s. (Inr (), take_committed s)) else (Inr (), s))"

lemma take_slot_or_flush_eq:
  "take_slot_or_flush vol vext gen s =
     and_then (room_by_flush (absorb_released (take_committed s))) (\<lambda>_ s.
     and_then (room_by_commit s) (\<lambda>_ s. take_slot vol vext gen s))"
  by (simp add: take_slot_or_flush_def room_by_flush_def room_by_commit_def Let_def)

lemma room_by_flush_good:
  assumes g: "good s" and f: "room_by_flush s = (r, s')"
  shows "good s' \<and> own s' = own s"
proof -
  obtain r1 s1 where f1: "flush_freeing s = (r1, s1)" by (cases "flush_freeing s")
  note g1 = flush_freeing_good [OF g f1] flush_freeing_own [OF goodD(1) [OF g] f1]
  then show ?thesis
    using g f goodD(1) [OF g1(1)]
    by (cases r1) (auto simp: room_by_flush_def f1 absorb_released_good absorb_released_own split: if_splits)
qed

lemma room_by_commit_good:
  assumes g: "good s" and f: "room_by_commit s = (r, s')"
  shows "good s' \<and> own s' = own s"
proof -
  obtain r1 s1 where f1: "commit_step (header_now s) s = (r1, s1)" by (cases "commit_step (header_now s) s")
  note g1 = commit_step_good [OF g f1] commit_step_own [OF goodD(1) [OF g] f1]
  then show ?thesis
    using g f goodD(1) [OF g1(1)]
    by (cases r1) (auto simp: room_by_commit_def f1 take_committed_good take_committed_own split: if_splits)
qed

lemma take_slot_or_flush_good:
  assumes g: "good s" and f: "take_slot_or_flush vol vext gen s = (r, s')"
  shows "good s' \<and> (case r of Inl e \<Rightarrow> own s' = own s | Inr i \<Rightarrow> took vol vext gen s i s')"
proof -
  define s0 where "s0 = absorb_released (take_committed s)"
  have g0: "good s0" and o0: "own s0 = own s"
    using g by (simp_all add: s0_def absorb_released_good take_committed_good absorb_released_own
        take_committed_own slab_inv_take_committed goodD)
  obtain r1 s1 where m1: "room_by_flush s0 = (r1, s1)" by (cases "room_by_flush s0")
  obtain r2 s2 where m2: "room_by_commit s1 = (r2, s2)" by (cases "room_by_commit s1")
  note g1 = room_by_flush_good [OF g0 m1]
  note g2 = room_by_commit_good [OF conjunct1 [OF g1] m2]
  have "(r, s') = (case r1 of Inl e \<Rightarrow> (Inl e, s1) | Inr _ \<Rightarrow>
       (case r2 of Inl e \<Rightarrow> (Inl e, s2) | Inr _ \<Rightarrow> take_slot vol vext gen s2))"
    using f m1 m2 by (cases r1; cases r2) (simp_all add: take_slot_or_flush_eq s0_def)
  moreover have "own s2 = own s" using g1 g2 o0 by simp
  ultimately show ?thesis
    using g1 g2 o0 take_slot_good [OF conjunct1 [OF g2], of vol vext gen r s'] took_cong [of s2 s vol vext gen]
    by (cases r1; cases r2; cases r) auto
qed

section \<open>Publishing entries\<close>

lemma persist_good:
  assumes g: "slab_inv s" and d: "\<And>j. j \<in> set (p_freeing (s_pend s)) \<or> is_erasing j s \<Longrightarrow>
      map_of (p_entries (s_pend s)) j \<noteq> None \<Longrightarrow> j \<in> set xs"
  obtains s' where "persist_slots xs s = (Inr (), s')" and "good s'" and "own s' = own s"
    and "same_frame s s'" and "p_unpublished (s_pend s') = p_unpublished (s_pend s)"
    and "p_ready (s_pend s') = p_ready (s_pend s)" and "s_header s' = s_header s"
    and "s_cap s' = s_cap s" and "s_span s' = s_span s" and "s_room s' = s_room s"
    and "s_erase s' = s_erase s" and "s_erase_now s' = s_erase_now s"
    and "\<And>j. j \<in> set xs \<Longrightarrow> v_mem (sv s' j) = (if v_unpub (sv s j) then v_mem (sv s j) else None)"
proof -
  obtain s' where p: "persist_slots xs s = (Inr (), s')" "slab_inv s'"
    "\<And>j. v_now (sv s' j) = v_now (sv s j)"
    "\<And>j. j \<in> set xs \<Longrightarrow> v_mem (sv s' j) = (if v_unpub (sv s j) then v_mem (sv s j) else None)"
    "\<And>j. j \<notin> set xs \<Longrightarrow> v_mem (sv s' j) = v_mem (sv s j)" "same_frame s s'"
    "p_unpublished (s_pend s') = p_unpublished (s_pend s)"
    "p_ready (s_pend s') = p_ready (s_pend s)" "s_header s' = s_header s"
    "s_cap s' = s_cap s" "s_span s' = s_span s" "s_room s' = s_room s"
    "s_erase s' = s_erase s" "s_erase_now s' = s_erase_now s"
    by (rule persist_inv [OF g, of xs]) blast
  have "own s' = own s"
    using p(3,6) by (intro own_sv) (simp_all add: v_owned_def same_frame_def)
  moreover have "settled s'"
    unfolding settled_def
  proof (intro allI impI)
    fix j assume h: "v_freeing (sv s' j) \<or> v_erasing (sv s' j) \<or> v_erasing_now (sv s' j)"
    then have h': "j \<in> set (p_freeing (s_pend s)) \<or> is_erasing j s"
      using p(6) by (auto simp: same_frame_def is_erasing_def)
    have nu: "\<not> v_unpub (sv s j)"
      using h sv_ok_unpub [OF slab_inv_sv [OF g], of j] p(6) by (auto simp: same_frame_def v_owned_def)
    show "v_mem (sv s' j) = None"
      using d [OF h'] p(4,5) [of j] nu
      by (cases "j \<in> set xs"; cases "map_of (p_entries (s_pend s)) j") auto
  qed
  ultimately show thesis using that [of s'] p by (simp add: good_def)
qed

text \<open>On a settled slab, any slots may be written.\<close>

lemma persist_settled:
  assumes "good s"
  obtains s' where "persist_slots xs s = (Inr (), s')" and "good s'" and "own s' = own s"
    and "same_frame s s'" and "p_unpublished (s_pend s') = p_unpublished (s_pend s)"
    and "p_ready (s_pend s') = p_ready (s_pend s)" and "s_header s' = s_header s"
    and "s_cap s' = s_cap s" and "s_span s' = s_span s" and "s_room s' = s_room s"
    and "s_erase s' = s_erase s" and "s_erase_now s' = s_erase_now s"
    and "\<And>j. j \<in> set xs \<Longrightarrow> v_mem (sv s' j) = (if v_unpub (sv s j) then v_mem (sv s j) else None)"
proof (rule persist_good [OF goodD(1) [OF assms], of xs])
  show "\<And>j. j \<in> set (p_freeing (s_pend s)) \<or> is_erasing j s \<Longrightarrow>
      map_of (p_entries (s_pend s)) j \<noteq> None \<Longrightarrow> j \<in> set xs"
    using goodD(2) [OF assms] by (auto simp: settled_iff is_erasing_def)
qed (rule that; assumption)

lemma allocate_gen_good:
  assumes g: "good s" and f: "allocate_gen vol vext gen s = (r, s')"
  shows "good s' \<and> (case r of Inl e \<Rightarrow> own s' = own s
     | Inr i \<Rightarrow> own s i = None \<and> own s' = (own s)(i \<mapsto> new_slot vol vext gen))"
proof -
  obtain r1 s1 where t: "take_slot_or_flush vol vext gen s = (r1, s1)" by (cases "take_slot_or_flush vol vext gen s")
  note g1 = take_slot_or_flush_good [OF g t]
  show ?thesis
  proof (cases r1)
    case (Inl e)
    then show ?thesis using f t g1 by (auto simp: allocate_gen_def)
  next
    case (Inr i)
    obtain s2 where "persist_slots [i] s1 = (Inr (), s2)" "good s2" "own s2 = own s1"
      by (rule persist_settled [OF conjunct1 [OF g1], of "[i]"]) blast
    then show ?thesis using f t g1 Inr by (auto simp: allocate_gen_def took_def)
  qed
qed

lemma sv_unpublish:
  "sv (pend_do (\<lambda>p. p\<lparr>p_unpublished := insert i (p_unpublished p)\<rparr>) s) j =
     (if j = i then (sv s j)\<lparr>v_unpub := True\<rparr> else sv s j)"
  by (simp add: pend_do_def sv_defs)

lemma unpublish_good:
  assumes g: "good s" and o: "v_owned (sv s i)" and m: "v_mem (sv s i) \<noteq> None" and c: "v_cutfree (sv s i)"
  shows "good (pend_do (\<lambda>p. p\<lparr>p_unpublished := insert i (p_unpublished p)\<rparr>) s)" (is "good ?s")
    and "own (pend_do (\<lambda>p. p\<lparr>p_unpublished := insert i (p_unpublished p)\<rparr>) s) = own s"
proof -
  have "sv_ok ((sv s i)\<lparr>v_unpub := True\<rparr>)"
    using slab_inv_sv [OF goodD(1) [OF g], of i] o m c by (simp add: sv_owned_ok v_owned_def)
  then have "sv_ok (sv ?s j)" for j
    using slab_inv_sv [OF goodD(1) [OF g]] by (simp add: sv_unpublish)
  moreover have "same_frame s ?s"
    using slab_invD(7) [OF goodD(1) [OF g]] by (simp add: same_frame_def committed_def pend_do_def)
  ultimately have "slab_inv ?s" by (rule slab_inv_frame [OF goodD(1) [OF g], rotated])
  then show "good ?s" using goodD(2) [OF g] by (simp add: good_def settled_iff pend_do_def)
  show "own ?s = own s" by (rule own_sv) (simp_all add: sv_unpublish v_owned_def)
qed

lemma allocate_deferred_good:
  assumes g: "good s" and f: "allocate_deferred vol vext gen s = (r, s')"
  shows "good s' \<and> (case r of Inl e \<Rightarrow> own s' = own s
     | Inr i \<Rightarrow> own s i = None \<and> own s' = (own s)(i \<mapsto> new_slot vol vext gen) \<and> i \<in> p_unpublished (s_pend s'))"
proof -
  obtain r1 s1 where t: "take_slot_or_flush vol vext gen s = (r1, s1)" by (cases "take_slot_or_flush vol vext gen s")
  note g1 = take_slot_or_flush_good [OF g t]
  show ?thesis
  proof (cases r1)
    case (Inl e)
    then show ?thesis using f t g1 by (auto simp: allocate_deferred_def)
  next
    case (Inr i)
    then have tk: "took vol vext gen s i s1" and gs: "good s1" using g1 by simp_all
    have "v_owned (sv s1 i)" using tk own_None [of s1 i] by (simp add: took_def)
    with tk have "good (pend_do (\<lambda>p. p\<lparr>p_unpublished := insert i (p_unpublished p)\<rparr>) s1)"
      "own (pend_do (\<lambda>p. p\<lparr>p_unpublished := insert i (p_unpublished p)\<rparr>) s1) = own s1"
      by (simp_all add: took_def unpublish_good [OF gs])
    then show ?thesis using f t Inr tk by (auto simp: allocate_deferred_def took_def pend_do_def)
  qed
qed

lemma confirm_good: "good s \<Longrightarrow> good (confirm i s) \<and> own (confirm i s) = own s"
proof -
  assume g: "good s"
  have "own (confirm i s) = own s"
    by (intro own_sv v_now_eq) (simp_all add: v_owned_def confirm_def pend_do_def)
  then show ?thesis
    using g slab_inv_confirm [of s i] by (simp add: good_def settled_iff confirm_def pend_do_def)
qed

section \<open>Sync\<close>

lemma sv_ok_publish: "sv_ok v \<Longrightarrow> sv_ok (v\<lparr>v_ready := False, v_unpub := False\<rparr>)"
  by (simp add: sv_ok_def v_idle_def split: if_splits)

lemma sv_ok_unready: "sv_ok v \<Longrightarrow> sv_ok (v\<lparr>v_ready := False\<rparr>)"
  by (simp add: sv_ok_def v_idle_def split: if_splits)

text \<open>The confirmed slots, taken for publishing.\<close>

definition take_ready :: "nat set \<Rightarrow> slab \<Rightarrow> slab" where
  "take_ready R s = pend_do (\<lambda>p. p\<lparr>p_ready := p_ready p - R, p_unpublished := p_unpublished p - R\<rparr>) s"

lemma sv_take_ready:
  "sv (take_ready R s) j = (if j \<in> R then (sv s j)\<lparr>v_ready := False, v_unpub := False\<rparr> else sv s j)"
  by (auto simp: take_ready_def pend_do_def sv_defs)

lemma take_ready_good: "good s \<Longrightarrow> good (take_ready R s) \<and> own (take_ready R s) = own s"
proof -
  assume g: "good s"
  have "slab_inv (take_ready R s)"
  proof (rule slab_inv_frame [OF goodD(1) [OF g]])
    show "same_frame s (take_ready R s)"
      using slab_invD(7) [OF goodD(1) [OF g]] by (simp add: same_frame_def committed_def take_ready_def pend_do_def)
    show "sv_ok (sv (take_ready R s) j)" for j
      using slab_inv_sv [OF goodD(1) [OF g], of j] by (simp add: sv_take_ready sv_ok_publish del: sv_fields)
  qed
  moreover have "own (take_ready R s) = own s"
    by (rule own_sv) (auto simp: sv_take_ready v_owned_def)
  ultimately show ?thesis
    using goodD(2) [OF g] by (simp add: good_def settled_iff take_ready_def pend_do_def)
qed

lemma finite_ready: "slab_inv s \<Longrightarrow> finite (p_ready (s_pend s))"
proof (rule finite_subset [of _ "{..<fm_len (s_free s)}"])
  assume "slab_inv s"
  then show "p_ready (s_pend s) \<subseteq> {..<fm_len (s_free s)}"
    using sv_ok_unpub [OF slab_inv_sv] by (auto simp: v_owned_def)
qed simp

lemma publish_ready_eq:
  assumes inv: "slab_inv s"
  shows "publish_ready s =
     (if p_ready (s_pend s) = {} then (Inr False, s)
      else case persist_slots (sorted_list_of_set (p_ready (s_pend s))) (take_ready (p_ready (s_pend s)) s) of
        (Inl e, s') \<Rightarrow> (Inl e, pend_do (\<lambda>p. p\<lparr>p_unpublished := p_unpublished p \<union> (p_ready (s_pend s) \<inter> p_unpublished (s_pend s)),
                                              p_ready := p_ready p \<union> p_ready (s_pend s)\<rparr>) s')
      | (Inr _, s') \<Rightarrow> (Inr True, s'))"
proof -
  have e: "pend_do (\<lambda>p. p\<lparr>p_ready := {}, p_unpublished := p_unpublished p - p_ready (s_pend s) \<inter> p_unpublished (s_pend s)\<rparr>) s =
      take_ready (p_ready (s_pend s)) s"
    by (simp add: take_ready_def pend_do_def Diff_Int2 [of _ "p_ready (s_pend s)", symmetric] Int_commute Diff_Int)
  show ?thesis
  proof (cases "p_ready (s_pend s) = {}")
    case True
    then show ?thesis by (simp add: publish_ready_def Let_def pend_do_def)
  next
    case False
    then show ?thesis
      by (simp add: publish_ready_def Let_def e finite_ready [OF inv] split: prod.split sum.split)
  qed
qed

lemma publish_ready_good:
  assumes g: "good s" and f: "publish_ready s = (r, s')"
  shows "good s' \<and> own s' = own s \<and> r = Inr (p_ready (s_pend s) \<noteq> {}) \<and> p_ready (s_pend s') = {} \<and>
    p_unpublished (s_pend s') = p_unpublished (s_pend s) - p_ready (s_pend s)"
proof (cases "p_ready (s_pend s) = {}")
  case True
  then show ?thesis using g f by (simp add: publish_ready_eq [OF goodD(1) [OF g]])
next
  case False
  let ?R = "p_ready (s_pend s)"
  note g1 = take_ready_good [OF g, of ?R]
  obtain s2 where "persist_slots (sorted_list_of_set ?R) (take_ready ?R s) = (Inr (), s2)" "good s2"
    "own s2 = own (take_ready ?R s)"
    "p_unpublished (s_pend s2) = p_unpublished (s_pend (take_ready ?R s))"
    "p_ready (s_pend s2) = p_ready (s_pend (take_ready ?R s))"
    by (rule persist_settled [OF conjunct1 [OF g1], of "sorted_list_of_set ?R"]) blast
  then show ?thesis
    using f False g1 by (auto simp: publish_ready_eq [OF goodD(1) [OF g]] take_ready_def pend_do_def)
qed

lemma sync_finish_good:
  assumes g: "good s" and f: "sync_finish covers wrote s = (r, s')"
  shows "good s' \<and> own s' = own s"
proof -
  obtain r1 s1 where f1: "dev_do dev_flush s = (r1, s1)" by (cases "dev_do dev_flush s")
  show ?thesis
    using f f1 flush_good [OF g f1] flush_own [OF goodD(1) [OF g] f1] g
    by (cases wrote; cases r1) (auto simp: sync_finish_def)
qed

text \<open>A sync with any publish that keeps the invariant keeps it, whichever part of it fails.\<close>

lemma sync_run_good:
  assumes pub: "\<And>s0 r0 s1. good s0 \<Longrightarrow> publish s0 = (r0, s1) \<Longrightarrow> good s1 \<and> own s1 = own s0"
    and g: "good s" and f: "sync_run publish s = (r, s')"
  shows "good s' \<and> own s' = own s"
proof -
  define s0 where "s0 = s\<lparr>s_asked := s_asked s + 1\<rparr>"
  have g0: "good s0" "own s0 = own s" using g by (simp_all add: s0_def)
  obtain r1 s1 where f1: "flush_freeing s0 = (r1, s1)" by (cases "flush_freeing s0")
  have g1: "good s1" "own s1 = own s"
    using flush_freeing_good [OF g0(1) f1] flush_freeing_own [OF goodD(1) [OF g0(1)] f1] g0 by simp_all
  obtain r2 s2 where f2: "publish s1 = (r2, s2)" by (cases "publish s1")
  have g2: "good s2" "own s2 = own s" using pub [OF g1(1) f2] g1 by simp_all
  have "(r, s') = (if s_done s \<ge> s_asked s + 1 then (Inr (), s0)
      else case r1 of Inl e \<Rightarrow> (Inl e, s1) | Inr _ \<Rightarrow>
        (case r2 of Inl e \<Rightarrow> (Inl e, s2) | Inr wrote \<Rightarrow> sync_finish (s_asked s + 1) wrote s2))"
    using f f1 f2
    by (cases "s_done s \<ge> s_asked s + 1"; cases r1; cases r2) (auto simp: sync_run_def sync_flush_def s0_def)
  then show ?thesis
    using g0 g1 g2 by (auto split: if_splits sum.splits dest!: sync_finish_good [OF g2(1) sym])
qed

lemma sync_good: "good s \<Longrightarrow> sync s = (r, s') \<Longrightarrow> good s' \<and> own s' = own s"
  using sync_run_good [of publish_ready s r s'] publish_ready_good by (auto simp: sync_def)

end
