(* ===== verification/SlabFree.thy ===== *)
theory SlabFree
  imports SlabOps
begin

text \<open>
  Frees and share counts of a slab, one slot at a time and in batches: each keeps the
  invariant, and each is given by what it does to the map of owned slots.
\<close>

section \<open>Retiring a slot\<close>

definition dirty :: "slab \<Rightarrow> nat set" where
  "dirty s = {j. (v_freeing (sv s j) \<or> v_erasing (sv s j) \<or> v_erasing_now (sv s j)) \<and> v_mem (sv s j) \<noteq> None}"

lemma settled_dirty: "settled s \<longleftrightarrow> dirty s = {}"
  by (auto simp: settled_def dirty_def simp del: sv_fields)

lemma in_dirty:
  "j \<in> set (p_freeing (s_pend s)) \<or> is_erasing j s \<Longrightarrow> map_of (p_entries (s_pend s)) j \<noteq> None \<Longrightarrow> j \<in> dirty s"
  by (auto simp: dirty_def is_erasing_def)

lemma sv_ok_retire_erase:
  "sv_ok v \<Longrightarrow> v_owned v \<Longrightarrow> sl_state sl = Erasing \<Longrightarrow>
     sv_ok (v\<lparr>v_mem := Some sl, v_ready := False, v_unpub := False, v_erasing := True\<rparr>)"
  by (simp add: sv_owned_ok) (simp add: sv_ok_def v_owned_def v_idle_def)

lemma sv_ok_retire_unpub:
  "sv_ok v \<Longrightarrow> v_owned v \<Longrightarrow> v_unpub v \<Longrightarrow>
     sv_ok (v\<lparr>v_mem := None, v_ready := False, v_unpub := False, v_free := True\<rparr>)"
  by (simp add: sv_owned_ok) (simp add: sv_ok_def v_owned_def v_idle_def)

lemma sv_ok_retire_free:
  "sv_ok v \<Longrightarrow> v_owned v \<Longrightarrow> \<not> v_unpub v \<Longrightarrow>
     sv_ok (v\<lparr>v_mem := Some slot_free, v_ready := False, v_freeing := True\<rparr>)"
  by (simp add: sv_owned_ok) (simp add: sv_ok_def v_owned_def v_idle_def)

definition retired :: "nat \<Rightarrow> bool \<Rightarrow> slab \<Rightarrow> slab \<Rightarrow> bool" where
  "retired i w s s' \<longleftrightarrow> slab_inv s' \<and> own s' = (own s)(i := None) \<and> (\<forall>j. j \<noteq> i \<longrightarrow> sv s' j = sv s j) \<and>
     dirty s' \<subseteq> dirty s \<union> (if w then {i} else {}) \<and>
     s_cap s' = s_cap s \<and> s_span s' = s_span s \<and> s_erase s' = s_erase s \<and> s_erase_now s' = s_erase_now s \<and>
     s_epoch s' = s_epoch s \<and> s_dev s' = s_dev s \<and> s_header s' = s_header s \<and>
     (\<forall>j. j \<noteq> i \<longrightarrow> map_of (p_entries (s_pend s')) j = map_of (p_entries (s_pend s)) j)"

lemma retiredI:
  assumes "slab_inv s'" and sv: "\<And>j. j \<noteq> i \<Longrightarrow> sv s' j = sv s j" and n: "\<not> v_owned (sv s' i)"
    and w: "\<not> w \<Longrightarrow> v_mem (sv s' i) = None"
    and "s_cap s' = s_cap s" "s_span s' = s_span s" "s_erase s' = s_erase s" "s_erase_now s' = s_erase_now s"
      "s_epoch s' = s_epoch s" "s_dev s' = s_dev s" "s_header s' = s_header s"
  shows "retired i w s s'"
proof -
  have "own s' = (own s)(i := None)" using sv n by (auto simp: own_def fun_eq_iff simp del: sv_fields)
  moreover have "dirty s' \<subseteq> dirty s \<union> (if w then {i} else {})"
  proof
    fix j assume j: "j \<in> dirty s'"
    then show "j \<in> dirty s \<union> (if w then {i} else {})"
      using sv [of j] w by (cases "j = i") (auto simp: dirty_def simp del: sv_fields)
  qed
  moreover have "\<forall>j. j \<noteq> i \<longrightarrow> map_of (p_entries (s_pend s')) j = map_of (p_entries (s_pend s)) j"
    using sv by (metis sv_fields(8))
  ultimately show ?thesis using assms by (auto simp: retired_def simp del: sv_fields)
qed

lemma retire_erase_fields:
  assumes "map_of (p_erasing (s_pend s)) i = None"
  shows "sv (retire_erase l i old s) j =
     (if j = i then (sv s i)\<lparr>v_mem := Some (old\<lparr>sl_state := Erasing, sl_refs := erase_code l\<rparr>), v_ready := False,
                            v_unpub := False, v_erasing := True\<rparr> else sv s j)"
  using assms by (simp add: retire_erase_def pend_do_def sv_defs)

lemma retire_erase_rest:
  assumes "map_of (p_erasing (s_pend s)) i = None"
  shows "s_free (retire_erase l i old s) = s_free s" "s_free_count (retire_erase l i old s) = s_free_count s"
    "s_cap (retire_erase l i old s) = s_cap s" "s_span (retire_erase l i old s) = s_span s"
    "s_erase (retire_erase l i old s) = s_erase s" "s_erase_now (retire_erase l i old s) = s_erase_now s"
    "s_epoch (retire_erase l i old s) = s_epoch s" "s_dev (retire_erase l i old s) = s_dev s"
    "s_header (retire_erase l i old s) = s_header s"
    "p_freeing (s_pend (retire_erase l i old s)) = p_freeing (s_pend s)"
    "p_released (s_pend (retire_erase l i old s)) = p_released (s_pend s)"
    "p_erasing (s_pend (retire_erase l i old s)) = al_put i (l, sl_volume old) (p_erasing (s_pend s))"
    "p_erasing_now (s_pend (retire_erase l i old s)) = p_erasing_now (s_pend s)"
  using assms by (simp_all add: retire_erase_def pend_do_def Let_def)

lemma retire_erase_retired:
  assumes inv: "slab_inv s" and o: "v_owned (sv s i)"
  shows "retired i True s (retire_erase l i old s)"
proof -
  have e: "map_of (p_erasing (s_pend s)) i = None" using o by (cases "map_of (p_erasing (s_pend s)) i") (auto simp: v_owned_def)
  note f = retire_erase_fields [OF e] and r = retire_erase_rest [OF e] and d = slab_invD [OF inv]
  have "sv_ok (sv (retire_erase l i old s) j)" for j
    using sv_ok_retire_erase [OF d(8) o] d(8) [of j] by (simp add: f del: sv_fields)
  then have "slab_inv (retire_erase l i old s)"
    using d by (intro slab_invI) (simp_all add: r committed_def)
  then show ?thesis
    by (rule retiredI) (simp_all add: f r v_owned_def)
qed

lemma retire_cases:
  assumes inv: "slab_inv s" and o: "v_owned (sv s i)"
  obtains w s' where "retire i s = (Inr w, s')" and "retired i w s s'"
proof (cases "erase_level_now s = EraseNone")
  case False
  then show thesis
    using that [of True] retire_erase_retired [OF inv o] by (simp add: retire_def Let_def slot_now_inv [OF inv])
next
  case None: True
  note d = slab_invD [OF inv]
  have i: "i < fm_len (s_free s)" "\<not> fm_is_free (s_free s) i" "i \<notin> set (p_freeing (s_pend s))"
    "i \<notin> set (p_released (s_pend s))"
    using o by (simp_all add: v_owned_def)
  show thesis
  proof (cases "i \<in> p_unpublished (s_pend s)")
    case True
    let ?s = "(pend_do (\<lambda>p. p\<lparr>p_ready := p_ready p - {i}, p_unpublished := p_unpublished p - {i}, p_entries := al_del i (p_entries p)\<rparr>) s)
        \<lparr>s_free := fm_set (s_free s) i True, s_free_count := s_free_count s + 1\<rparr>"
    have r: "retire i s = (Inr False, ?s)"
      using None True by (simp add: retire_def Let_def pend_do_def)
    have sv: "sv ?s j = (if j = i then (sv s i)\<lparr>v_mem := None, v_ready := False, v_unpub := False, v_free := True\<rparr> else sv s j)" for j
      using i(1) by (auto simp: pend_do_def sv_defs fm_is_free_set)
    have "slab_inv ?s"
    proof (rule slab_invI)
      show "sv_ok (sv ?s j)" for j
        unfolding sv using sv_ok_retire_unpub [OF d(8) o] True sv_fields(6) [of s i] d(8) [of j] by (simp del: sv_fields)
      show "s_free_count ?s = fm_count_free (s_free ?s)"
        using fm.num_free_give_back [OF d(1) i(2,1)] d(2) by simp
    qed (use d in \<open>simp_all add: pend_do_def committed_def\<close>)
    then have "retired i False s ?s"
      by (rule retiredI) (simp_all only: sv, simp_all add: pend_do_def v_owned_def)
    then show thesis by (rule that [OF r])
  next
    case False
    let ?s = "pend_do (\<lambda>p. p\<lparr>p_ready := p_ready p - {i}, p_entries := al_put i slot_free (p_entries p), p_freeing := p_freeing p @ [i]\<rparr>) s"
    have r: "retire i s = (Inr True, ?s)"
      using None False by (simp add: retire_def Let_def pend_do_def)
    have sv: "sv ?s j = (if j = i then (sv s i)\<lparr>v_mem := Some slot_free, v_ready := False, v_freeing := True\<rparr> else sv s j)" for j
      by (auto simp: pend_do_def sv_defs)
    have "slab_inv ?s"
    proof (rule slab_invI)
      show "sv_ok (sv ?s j)" for j
        using sv_ok_retire_free [OF d(8) o] False sv_fields(6) [of s i] d(8) [of j] by (simp add: sv del: sv_fields)
      show "distinct (p_freeing (s_pend ?s) @ p_released (s_pend ?s))"
        using d(4) i(3,4) by (auto simp: pend_do_def)
    qed (use d in \<open>simp_all add: pend_do_def committed_def\<close>)
    then have "retired i True s ?s"
      by (rule retiredI) (simp_all only: sv, simp_all add: pend_do_def v_owned_def)
    then show thesis by (rule that [OF r])
  qed
qed

section \<open>Free\<close>

lemma sv_discard: "sv (discard_run r s) j = sv s j"
  by (simp add: discard_run_def dev_discard_def sv_def Let_def dv_view_def cut_all_def cut_images_def split: prod.split)

lemma discard_run_good: "good (discard_run r s) = good s \<and> own (discard_run r s) = own s"
proof -
  have "good (discard_run r s) = good s"
    by (simp add: good_def slab_inv_def settled_def sv_discard del: sv_fields)
       (simp add: discard_run_def dev_discard_def dev_quiet_def committed_def Let_def split: prod.split)
  moreover have "own (discard_run r s) = own s"
    by (rule own_sv) (simp_all only: sv_discard)
  ultimately show ?thesis by simp
qed

lemma discard_slots_good [simp]: "good (discard_slots xs s) = good s" "own (discard_slots xs s) = own s"
proof -
  have "good (fold discard_run rs s) = good s \<and> own (fold discard_run rs s) = own s" for rs
    by (induction rs arbitrary: s) (simp_all add: discard_run_good)
  then show "good (discard_slots xs s) = good s" "own (discard_slots xs s) = own s"
    by (simp_all add: discard_slots_def)
qed

lemma persist_retired:
  assumes r: "retired i w s s1" and d: "dirty s = {}"
  obtains s2 where "persist_slots [i] s1 = (Inr (), s2)" and "good s2" and "own s2 = own s1"
proof -
  have inv: "slab_inv s1" and d1: "dirty s1 \<subseteq> {i}" using r d by (auto simp: retired_def split: if_splits)
  show thesis
  proof (rule persist_good [OF inv, of "[i]"])
    fix j assume "j \<in> set (p_freeing (s_pend s1)) \<or> is_erasing j s1" "map_of (p_entries (s_pend s1)) j \<noteq> None"
    then have "j \<in> dirty s1" by (rule in_dirty)
    with d1 show "j \<in> set [i]" by auto
  next
  qed (rule that; assumption)
qed

lemma retired_clean: "retired i False s s' \<Longrightarrow> dirty s = {} \<Longrightarrow> good s'"
  by (auto simp: retired_def good_def settled_dirty)

text \<open>A slot of the committed part that is not owned reads as one that is not owned.\<close>

lemma not_owned_state:
  assumes "slab_inv s" and "own s i = None" and "i < committed s"
  shows "\<not> is_owned (sl_state (v_now (sv s i)))"
  using owned_of_state [OF assms(1) _ assms(3)] assms(2) by (auto simp: own_None)

lemma own_SomeD:
  assumes "slab_inv s" and "own s i = Some sl"
  shows "v_owned (sv s i)" "v_now (sv s i) = sl" "i < committed s" "is_owned (sl_state sl)"
  using assms own_owned [OF assms] v_owned_in [OF assms(1)] by (auto simp: own_def split: if_splits)

lemma free_owned:
  assumes g: "good s" and o: "own s i = Some sl"
  obtains s' where "free i s = (Inr (), s')" and "good s'" and "own s' = (own s)(i := None)"
proof -
  note inv = goodD(1) [OF g] and od = own_SomeD [OF goodD(1) [OF g] o]
  have d: "dirty s = {}" using goodD(2) [OF g] by (simp add: settled_dirty)
  obtain w s1 where r: "retire i s = (Inr w, s1)" and rd: "retired i w s s1"
    by (rule retire_cases [OF inv od(1)])
  have o1: "own s1 = (own s)(i := None)" using rd by (simp add: retired_def)
  obtain s2 where p: "(if w then persist_slot i s1 else (Inr (), s1)) = (Inr (), s2)" "good s2" "own s2 = own s1"
  proof (cases w)
    case True
    then show thesis using persist_retired [OF rd d] that by (metis (full_types))
  next
    case False
    then show thesis using that retired_clean rd d by simp
  qed
  have "free i s = (Inr (), if is_erasing i s2 then s2 else discard_slots [i] s2)"
    using od r p(1) by (simp add: free_def in_range_def slot_now_inv [OF inv])
  then show thesis using that p o1 by (cases "is_erasing i s2") simp_all
qed

lemma free_not_owned:
  assumes g: "good s" and o: "own s i = None"
  shows "free i s = (Inl (if i \<ge> committed s then SlotOutOfRange i else DoubleFree i), s)"
  using not_owned_state [OF goodD(1) [OF g] o]
  by (simp add: free_def in_range_def slot_now_inv [OF goodD(1) [OF g]])

lemma free_good:
  assumes g: "good s" and f: "free i s = (r, s')"
  shows "good s' \<and> own s' = (own s)(i := None) \<and> (r = Inr () \<longleftrightarrow> own s i \<noteq> None)"
proof (cases "own s i")
  case None
  then show ?thesis using f g free_not_owned [OF g None] by (auto simp: fun_eq_iff)
next
  case (Some sl)
  then obtain s1 where "free i s = (Inr (), s1)" "good s1" "own s1 = (own s)(i := None)"
    by (rule free_owned [OF g])
  then show ?thesis using f Some by simp
qed

section \<open>Share counts\<close>

lemma set_slot_own: "v_owned (sv s i) \<Longrightarrow> own (set_slot i sl s) = (own s)(i \<mapsto> sl)"
  by (auto simp: own_def sv_set_slot v_owned_def fun_eq_iff)

lemma set_slot_good: "good s \<Longrightarrow> v_owned (sv s i) \<Longrightarrow> is_owned (sl_state sl) \<Longrightarrow> good (set_slot i sl s)"
  using slab_inv_set_slot [of s i sl] settled_update [of s i "set_slot i sl s"]
  by (simp add: good_def sv_set_slot v_owned_def)

lemma mark_ready_own: "own (mark_ready i s) = own s"
  by (rule own_sv) (auto simp: sv_mark_ready v_owned_def)

lemma mark_ready_good: "good s \<Longrightarrow> v_owned (sv s i) \<Longrightarrow> good (mark_ready i s)"
  using slab_inv_mark_ready [of s i] settled_update [of s i "mark_ready i s"]
  by (simp add: good_def sv_mark_ready v_owned_def)

text \<open>A change of an owned slot's entry, written through.\<close>

lemma change_persist:
  assumes g: "good s" and o: "v_owned (sv s i)" and sl: "is_owned (sl_state sl)"
  obtains s' where "persist_slots [i] (set_slot i sl s) = (Inr (), s')" and "good s'" and "own s' = (own s)(i \<mapsto> sl)"
proof (rule persist_settled [OF set_slot_good [OF g o sl], of "[i]"])
qed (rule that; simp add: set_slot_own [OF o])

lemma inc_ref_good:
  assumes g: "good s" and f: "inc_ref i s = (r, s')"
  shows "good s' \<and> own s' = (case own s i of None \<Rightarrow> own s | Some sl \<Rightarrow> (own s)(i \<mapsto> sl\<lparr>sl_refs := sl_refs sl + 1\<rparr>)) \<and>
     (r = Inr () \<longleftrightarrow> own s i \<noteq> None)"
proof (cases "own s i")
  case None
  then show ?thesis using f g not_owned_state [OF goodD(1) [OF g] None]
    by (auto simp: inc_ref_def in_range_def slot_now_inv [OF goodD(1) [OF g]] split: if_splits)
next
  case (Some sl)
  note od = own_SomeD [OF goodD(1) [OF g] Some]
  obtain s1 where "persist_slots [i] (set_slot i (sl\<lparr>sl_refs := sl_refs sl + 1\<rparr>) s) = (Inr (), s1)" "good s1"
    "own s1 = (own s)(i \<mapsto> sl\<lparr>sl_refs := sl_refs sl + 1\<rparr>)"
    by (rule change_persist [OF g od(1), of "sl\<lparr>sl_refs := sl_refs sl + 1\<rparr>"]) (use od(4) in simp_all)
  then show ?thesis using f Some od by (simp add: inc_ref_def in_range_def slot_now_inv [OF goodD(1) [OF g]])
qed

lemma reassign_slot_good:
  assumes g: "good s" and f: "reassign_slot i vol vext s = (r, s')"
  shows "good s' \<and> own s' = (case own s i of None \<Rightarrow> own s
       | Some sl \<Rightarrow> (own s)(i \<mapsto> sl\<lparr>sl_volume := vol, sl_vext := vext, sl_gen := sl_gen sl + 1\<rparr>)) \<and>
     (r = Inr () \<longleftrightarrow> own s i \<noteq> None)"
proof (cases "own s i")
  case None
  then show ?thesis using f g not_owned_state [OF goodD(1) [OF g] None]
    by (auto simp: reassign_slot_def in_range_def slot_now_inv [OF goodD(1) [OF g]] split: if_splits)
next
  case (Some sl)
  note od = own_SomeD [OF goodD(1) [OF g] Some]
  let ?sl = "sl\<lparr>sl_volume := vol, sl_vext := vext, sl_gen := sl_gen sl + 1\<rparr>"
  obtain s1 where "persist_slots [i] (set_slot i ?sl s) = (Inr (), s1)" "good s1" "own s1 = (own s)(i \<mapsto> ?sl)"
    by (rule change_persist [OF g od(1), of ?sl]) (use od(4) in simp_all)
  then show ?thesis using f Some od by (simp add: reassign_slot_def in_range_def slot_now_inv [OF goodD(1) [OF g]])
qed

text \<open>What letting go of one share does to an owned slot.\<close>

definition drop_share :: "slot \<Rightarrow> slot option" where
  "drop_share sl = (if sl_refs sl = 0 then Some sl else if sl_refs sl = 1 then None
     else Some (sl\<lparr>sl_refs := sl_refs sl - 1\<rparr>))"

lemma refs_minus_1: "(r :: u32) \<noteq> 0 \<Longrightarrow> r - 1 = 0 \<longleftrightarrow> r = 1"
  by (metis diff_self eq_iff_diff_eq_0)

lemma dec_ref_good:
  assumes g: "good s" and f: "dec_ref i s = (r, s')"
  shows "good s' \<and> own s' = (own s)(i := Option.bind (own s i) drop_share) \<and>
     r = (case own s i of None \<Rightarrow> Inl (if i \<ge> committed s then SlotOutOfRange i else FreeSlot i)
          | Some sl \<Rightarrow> if sl_refs sl = 0 then Inl (FreeSlot i) else Inr (sl_refs sl = 1))"
proof (cases "own s i")
  case None
  then show ?thesis using f g not_owned_state [OF goodD(1) [OF g] None]
    by (auto simp: dec_ref_def in_range_def slot_now_inv [OF goodD(1) [OF g]] fun_eq_iff split: if_splits)
next
  case (Some sl)
  note od = own_SomeD [OF goodD(1) [OF g] Some]
  let ?sl = "sl\<lparr>sl_refs := sl_refs sl - 1\<rparr>" and ?s = "set_slot i (sl\<lparr>sl_refs := sl_refs sl - 1\<rparr>) s"
  have gs: "good ?s" and os: "own ?s = (own s)(i \<mapsto> ?sl)" and vs: "v_owned (sv ?s i)"
    using set_slot_good [OF g od(1)] od by (simp_all add: set_slot_own sv_set_slot v_owned_def)
  have f': "dec_ref i s = (if sl_refs sl = 0 then (Inl (FreeSlot i), s)
      else if sl_refs sl = 1 then and_then (free i ?s) (\<lambda>_ s. (Inr True, s))
      else (Inr False, mark_ready i ?s))"
    using od refs_minus_1 [of "sl_refs sl"]
    by (simp add: dec_ref_def in_range_def slot_now_inv [OF goodD(1) [OF g]] mark_ready_def Let_def)
  show ?thesis
  proof (cases "sl_refs sl = 1")
    case True
    obtain s1 where "free i ?s = (Inr (), s1)" "good s1" "own s1 = (own ?s)(i := None)"
      by (rule free_owned [OF gs, of i ?sl]) (use os in simp_all)
    then show ?thesis using f f' True Some os by (auto simp: drop_share_def)
  next
    case n1: False
    show ?thesis
    proof (cases "sl_refs sl = 0")
      case True
      then show ?thesis using f f' Some g by (auto simp: drop_share_def fun_upd_idem)
    next
      case False
      then have "r = Inr False" "s' = mark_ready i ?s" using f f' n1 by simp_all
      then show ?thesis
        using Some os mark_ready_good [OF gs vs] False n1 by (simp add: drop_share_def mark_ready_own)
    qed
  qed
qed

lemma raise_ref_good:
  assumes g: "good s" and f: "raise_ref i count s = (b, s')"
  shows "good s' \<and> own s' = (case own s i of
       Some sl \<Rightarrow> (own s)(i \<mapsto> sl\<lparr>sl_refs := max (sl_refs sl) count\<rparr>) | None \<Rightarrow> own s)"
proof (cases "own s i")
  case None
  then show ?thesis using f g not_owned_state [OF goodD(1) [OF g] None]
    by (auto simp: raise_ref_def slot_now_inv [OF goodD(1) [OF g]] split: if_splits)
next
  case (Some sl)
  note od = own_SomeD [OF goodD(1) [OF g] Some]
  have gs: "good (set_slot i (sl\<lparr>sl_refs := count\<rparr>) s)" and vs: "v_owned (sv (set_slot i (sl\<lparr>sl_refs := count\<rparr>) s) i)"
    using set_slot_good [OF g od(1)] od by (simp_all add: sv_set_slot v_owned_def)
  show ?thesis
  proof (cases "sl_refs sl < count")
    case True
    then have "s' = mark_ready i (set_slot i (sl\<lparr>sl_refs := count\<rparr>) s)"
      using f od by (simp add: raise_ref_def slot_now_inv [OF goodD(1) [OF g]] mark_ready_def)
    then show ?thesis
      using mark_ready_good [OF gs vs] Some True od by (simp add: mark_ready_own set_slot_own max_def less_imp_le)
  next
    case False
    have "s' = s" using f od False by (simp add: raise_ref_def slot_now_inv [OF goodD(1) [OF g]])
    moreover have "sl\<lparr>sl_refs := max (sl_refs sl) count\<rparr> = sl" using False by (simp add: max_def)
    ultimately show ?thesis using Some g by (simp add: fun_upd_idem)
  qed
qed

section \<open>Batches\<close>

text \<open>
  What a preread promises: while the table's epoch is the one it was read at, it holds what the
  device holds.
\<close>

definition pre_ok :: "preread option \<Rightarrow> slab \<Rightarrow> bool" where
  "pre_ok pre s \<longleftrightarrow> (\<forall>p i sl. pre = Some p \<longrightarrow> pr_epoch p = s_epoch s \<longrightarrow> map_of (pr_entries p) i = Some sl \<longrightarrow>
     i < s_cap s \<longrightarrow> v_disk (sv s i) = sl)"

lemma slot_with_inv:
  assumes "slab_inv s" and "pre_ok pre s" and "i < committed s"
  shows "slot_with pre i s = (Inr (v_now (sv s i)), s)"
proof (cases "map_of (p_entries (s_pend s)) i")
  case None
  have r: "dev_do (dev_read_entry i) s = (Inr (v_now (sv s i)), s)"
    using slab_invD(7) [OF assms(1)] None by (simp add: dev_do_def quiet_read v_now_def)
  show ?thesis
    using assms(2,3) None r
    by (auto simp: slot_with_def pre_ok_def committed_def v_now_def split: option.splits if_splits)
qed (simp add: slot_with_def)

lemma pre_ok_same:
  "pre_ok pre s \<Longrightarrow> s_epoch s' = s_epoch s \<Longrightarrow> s_cap s' = s_cap s \<Longrightarrow> s_dev s' = s_dev s \<Longrightarrow> pre_ok pre s'"
  by (simp add: pre_ok_def)

lemma read_entries_quiet:
  assumes "dev_quiet d"
  shows "\<exists>es. read_entries is d = (Inr es, d) \<and>
     (\<forall>i. map_of es i = (if i \<in> set is then Some (im_entries (dv_view d) i) else None))"
  using assms by (induction "is") (auto simp: quiet_read)

lemma read_many_pre_ok:
  assumes "slab_inv s"
  obtains p where "read_many is s = (Inr p, s)" and "pre_ok (Some p) s"
proof -
  obtain es where es: "read_entries is (s_dev s) = (Inr es, s_dev s)"
    "\<And>i. map_of es i = (if i \<in> set is then Some (im_entries (dv_view (s_dev s)) i) else None)"
    using read_entries_quiet [OF slab_invD(7) [OF assms]] by blast
  show thesis
    by (rule that [of "\<lparr>pr_epoch = s_epoch s, pr_entries = es\<rparr>"])
       (use es in \<open>simp_all add: read_many_def Let_def dev_do_def pre_ok_def split: if_splits\<close>)
qed

text \<open>What a step of a batch leaves as it was.\<close>

definition batch_frame :: "slab \<Rightarrow> slab \<Rightarrow> bool" where
  "batch_frame s s' \<longleftrightarrow> s_epoch s' = s_epoch s \<and> s_cap s' = s_cap s \<and> s_span s' = s_span s \<and> s_dev s' = s_dev s"

lemma batch_frame_refl [simp]: "batch_frame s s"
  by (simp add: batch_frame_def)

lemma batch_frame_trans: "batch_frame s s1 \<Longrightarrow> batch_frame s1 s2 \<Longrightarrow> batch_frame s s2"
  by (simp add: batch_frame_def)

lemma batch_frame_pre: "batch_frame s s' \<Longrightarrow> pre_ok pre s \<Longrightarrow> pre_ok pre s' \<and> committed s' = committed s"
  by (auto simp: batch_frame_def committed_def intro: pre_ok_same)

lemma retired_frame: "retired i w s s' \<Longrightarrow> batch_frame s s'"
  by (simp add: retired_def batch_frame_def)

text \<open>One slot of a batch that is kept with a share less.\<close>

definition keep_share :: "nat \<Rightarrow> slot \<Rightarrow> slab \<Rightarrow> slab" where
  "keep_share i sl s = pend_do (\<lambda>p. p\<lparr>p_ready := insert i (p_ready p)\<rparr>) (set_slot i sl s)"

lemma keep_share_step:
  assumes inv: "slab_inv s" and o: "v_owned (sv s i)" and sl: "is_owned (sl_state sl)"
  shows "slab_inv (keep_share i sl s)" "own (keep_share i sl s) = (own s)(i \<mapsto> sl)"
    "dirty (keep_share i sl s) \<subseteq> dirty s" "batch_frame s (keep_share i sl s)"
proof -
  have k: "keep_share i sl s = mark_ready i (set_slot i sl s)"
    by (simp add: keep_share_def mark_ready_def)
  have o': "v_owned (sv (set_slot i sl s) i)" using o by (simp add: sv_set_slot v_owned_def)
  show "slab_inv (keep_share i sl s)"
    using slab_inv_mark_ready [OF slab_inv_set_slot [OF inv o sl] o'] by (simp add: k)
  show "own (keep_share i sl s) = (own s)(i \<mapsto> sl)"
    using o by (simp add: k mark_ready_own set_slot_own)
  show "dirty (keep_share i sl s) \<subseteq> dirty s"
    using o by (auto simp: k dirty_def sv_mark_ready sv_set_slot v_owned_def split: if_splits)
  show "batch_frame s (keep_share i sl s)"
    by (simp add: keep_share_def batch_frame_def pend_do_def)
qed

lemma finite_own: "slab_inv s \<Longrightarrow> finite (dom (own s))"
  by (rule finite_subset [of _ "{..<fm_len (s_free s)}"]) (auto simp: own_def v_owned_def split: if_splits)

definition answered :: "dec_ref_outcome \<Rightarrow> nat" where
  "answered out = o_freed out + o_retained out + length (o_rejected out)"

definition share_map :: "nat set \<Rightarrow> (nat \<Rightarrow> slot option) \<Rightarrow> nat \<Rightarrow> slot option" where
  "share_map A m i = (if i \<in> A then Option.bind (m i) drop_share else m i)"

definition batch_ok :: "nat set \<Rightarrow> dec_ref_outcome \<Rightarrow> nat list \<Rightarrow> slab \<Rightarrow> dec_ref_outcome \<Rightarrow> nat list \<Rightarrow> slab \<Rightarrow> bool" where
  "batch_ok A out touched s out' touched' s' \<longleftrightarrow>
     slab_inv s' \<and> batch_frame s s' \<and> set touched \<subseteq> set touched' \<and> dirty s' \<subseteq> dirty s \<union> set touched' \<and>
     own s' = share_map A (own s) \<and> o_freed out' + card (dom (own s')) = o_freed out + card (dom (own s))"

lemma batch_ok_trans:
  assumes "batch_ok A out t s out1 t1 s1" and "batch_ok B out1 t1 s1 out2 t2 s2" and "A \<inter> B = {}"
  shows "batch_ok (A \<union> B) out t s out2 t2 s2"
proof -
  have "share_map B (share_map A m) = share_map (A \<union> B) m" for m
    using assms(3) by (auto simp: share_map_def fun_eq_iff)
  then show ?thesis
    using assms(1,2) unfolding batch_ok_def by (auto intro: batch_frame_trans)
qed

lemma share_map_one: "share_map {i} m = m(i := Option.bind (m i) drop_share)"
  by (auto simp: share_map_def fun_eq_iff)

lemma card_dom_drop: "finite (dom m) \<Longrightarrow> m i = Some x \<Longrightarrow> Suc (card (dom (m(i := None)))) = card (dom m)"
  using card_Suc_Diff1 [of "dom m" i] by (metis domI dom_fun_upd)

text \<open>One slot of a batch, each of the ways it can go.\<close>

lemma dec_one_ok:
  assumes inv: "slab_inv s" and pre: "pre_ok pre s" and i: "i \<notin> seen"
  obtains out1 t1 f1 s1 where
    "dec_ref_loop (i # is) pre (out, seen, t, f) s = dec_ref_loop is pre (out1, insert i seen, t1, f1) s1"
    and "batch_ok {i} out t s out1 t1 s1" and "answered out1 = answered out + 1"
proof (cases "own s i")
  case None
  let ?rej = "\<lambda>why. out\<lparr>o_rejected := o_rejected out @ [(i, why)]\<rparr>"
  have ok: "batch_ok {i} out t s (?rej why) t s" for why
    using inv None by (auto simp: batch_ok_def share_map_one fun_upd_idem)
  have a: "answered (?rej why) = answered out + 1" for why by (simp add: answered_def)
  show thesis
  proof (cases "i \<ge> committed s")
    case True
    then show thesis using that [OF _ ok a] i by simp
  next
    case False
    then have "dec_ref_loop (i # is) pre (out, seen, t, f) s = dec_ref_loop is pre (?rej AlreadyFree, insert i seen, t, f) s"
      using i not_owned_state [OF inv None] by (simp add: slot_with_inv [OF inv pre])
    then show thesis by (rule that [OF _ ok a])
  qed
next
  case (Some sl)
  note od = own_SomeD [OF inv Some]
  note fin = finite_own [OF inv]
  have sw: "slot_with pre i s = (Inr sl, s)" using slot_with_inv [OF inv pre od(3)] od by simp
  consider (zero) "sl_refs sl = 0" | (last) "sl_refs sl = 1" | (more) "sl_refs sl \<noteq> 0" "sl_refs sl \<noteq> 1" by blast
  then show thesis
  proof cases
    case zero
    let ?out = "out\<lparr>o_rejected := o_rejected out @ [(i, AlreadyFree)]\<rparr>"
    have "dec_ref_loop (i # is) pre (out, seen, t, f) s = dec_ref_loop is pre (?out, insert i seen, t, f) s"
      using i od zero sw by simp
    moreover have "batch_ok {i} out t s ?out t s"
      using inv Some zero by (auto simp: batch_ok_def share_map_one drop_share_def fun_upd_idem)
    ultimately show thesis by (rule that) (simp add: answered_def)
  next
    case last
    obtain w s1 where r: "retire i s = (Inr w, s1)" and rd: "retired i w s s1"
      by (rule retire_cases [OF inv od(1)])
    let ?out = "out\<lparr>o_freed := o_freed out + 1\<rparr>" and ?t = "if w then t @ [i] else t"
    have "dec_ref_loop (i # is) pre (out, seen, t, f) s = dec_ref_loop is pre (?out, insert i seen, ?t, f @ [i]) s1"
      using i od last sw r by simp
    moreover have "batch_ok {i} out t s ?out ?t s1"
      using rd retired_frame [OF rd] Some last card_dom_drop [OF fin Some]
      by (auto simp: batch_ok_def share_map_one drop_share_def retired_def)
    ultimately show thesis by (rule that) (simp add: answered_def)
  next
    case more
    let ?sl = "sl\<lparr>sl_refs := sl_refs sl - 1\<rparr>" and ?out = "out\<lparr>o_retained := o_retained out + 1\<rparr>"
    have pos: "0 < sl_refs sl - 1" using more refs_minus_1 [of "sl_refs sl"] by (metis word_neq_0_conv)
    have "dec_ref_loop (i # is) pre (out, seen, t, f) s = dec_ref_loop is pre (?out, insert i seen, t, f) (keep_share i ?sl s)"
      using i od more sw pos by (simp add: Let_def keep_share_def)
    moreover have "batch_ok {i} out t s ?out t (keep_share i ?sl s)"
      using keep_share_step [OF inv od(1), of ?sl] od Some more
      by (auto simp: batch_ok_def share_map_one drop_share_def insert_absorb domI)
    ultimately show thesis by (rule that) (simp add: answered_def)
  qed
qed

lemma dec_ref_loop_ok:
  assumes "slab_inv s" and "pre_ok pre s"
  shows "\<exists>out' t' f' s'. dec_ref_loop xs pre (out, seen, t, f) s = (Inr (out', t', f'), s') \<and>
     batch_ok (set xs - seen) out t s out' t' s' \<and> answered out' = answered out + length xs"
  using assms
proof (induction xs arbitrary: out seen t f s)
  case Nil
  then show ?case by (auto simp: batch_ok_def share_map_def fun_eq_iff)
next
  case (Cons i xs)
  show ?case
  proof (cases "i \<in> seen")
    case True
    let ?out = "out\<lparr>o_rejected := o_rejected out @ [(i, Duplicate)]\<rparr>"
    from Cons.IH [OF Cons.prems, of ?out seen t f] True
    show ?thesis by (auto simp: batch_ok_def answered_def insert_Diff_if)
  next
    case False
    obtain out1 t1 f1 s1 where
      e: "dec_ref_loop (i # xs) pre (out, seen, t, f) s = dec_ref_loop xs pre (out1, insert i seen, t1, f1) s1"
      and b: "batch_ok {i} out t s out1 t1 s1" and a: "answered out1 = answered out + 1"
      by (rule dec_one_ok [OF Cons.prems False])
    have i1: "slab_inv s1" "pre_ok pre s1"
      using b batch_frame_pre [of s s1 pre] Cons.prems by (auto simp: batch_ok_def)
    obtain out' t' f' s' where
      "dec_ref_loop xs pre (out1, insert i seen, t1, f1) s1 = (Inr (out', t', f'), s')"
      and b': "batch_ok (set xs - insert i seen) out1 t1 s1 out' t' s'" and "answered out' = answered out1 + length xs"
      using Cons.IH [OF i1, of out1 "insert i seen" t1 f1] by blast
    moreover have "batch_ok ({i} \<union> (set xs - insert i seen)) out t s out' t' s'"
      by (rule batch_ok_trans [OF b b']) blast
    moreover have "{i} \<union> (set xs - insert i seen) = set (i # xs) - seen" using False by auto
    ultimately show ?thesis using e a by simp
  qed
qed

lemma persist_batch:
  assumes inv: "slab_inv s" and d: "dirty s \<subseteq> set xs"
  obtains s2 where "persist_slots xs s = (Inr (), s2)" and "good s2" and "own s2 = own s"
proof (rule persist_good [OF inv, of xs])
  fix j assume "j \<in> set (p_freeing (s_pend s)) \<or> is_erasing j s" "map_of (p_entries (s_pend s)) j \<noteq> None"
  then have "j \<in> dirty s" by (rule in_dirty)
  with d show "j \<in> set xs" by auto
next
qed (rule that; assumption)

lemma dec_ref_batch_good:
  assumes g: "good s" and pre: "pre_ok pre s"
  obtains out s' where "dec_ref_batch_with xs pre s = (Inr out, s')" and "good s'"
    and "own s' = share_map (set xs) (own s)" and "o_freed out + card (dom (own s')) = card (dom (own s))"
    and "o_freed out + o_retained out + length (o_rejected out) = length xs"
proof -
  let ?out0 = "\<lparr>o_freed = 0, o_retained = 0, o_rejected = []\<rparr>"
  obtain out t f s1 where l: "dec_ref_loop xs pre (?out0, {}, [], []) s = (Inr (out, t, f), s1)"
    and b: "batch_ok (set xs - {}) ?out0 [] s out t s1" and a: "answered out = answered ?out0 + length xs"
    using dec_ref_loop_ok [OF goodD(1) [OF g] pre, of xs ?out0 "{}" "[]" "[]"] by blast
  have "slab_inv s1" "dirty s1 \<subseteq> set t"
    using b goodD(2) [OF g] by (auto simp: batch_ok_def settled_dirty)
  then obtain s2 where p: "persist_slots t s1 = (Inr (), s2)" "good s2" "own s2 = own s1"
    by (rule persist_batch)
  show thesis
    by (rule that [of out "if filter (\<lambda>i. \<not> is_erasing i s2) f \<noteq> [] then discard_slots (filter (\<lambda>i. \<not> is_erasing i s2) f) s2 else s2"])
       (use l p b a in \<open>auto simp: dec_ref_batch_with_def batch_ok_def answered_def Let_def\<close>)
qed

section \<open>Batches of frees and of new shares\<close>

lemma retire_all_ok:
  assumes "slab_inv s" and "pre_ok (Some pre) s" and "\<forall>i\<in>set xs. i < committed s"
  shows "\<exists>w' n' s'. retire_all xs pre w n s = (Inr (w', n'), s') \<and> slab_inv s' \<and> set w \<subseteq> set w' \<and>
     dirty s' \<subseteq> dirty s \<union> set w' \<and> own s' = (\<lambda>i. if i \<in> set xs then None else own s i) \<and>
     n' + card (dom (own s')) = n + card (dom (own s))"
  using assms
proof (induction xs arbitrary: w n s)
  case Nil
  then show ?case by auto
next
  case (Cons i xs)
  note inv = Cons.prems(1) and pre = Cons.prems(2)
  have i: "i < committed s" using Cons.prems(3) by simp
  note sw = slot_with_inv [OF inv pre i]
  show ?case
  proof (cases "own s i")
    case None
    then have "retire_all (i # xs) pre w n s = retire_all xs pre w n s"
      using not_owned_state [OF inv None i] i by (simp add: in_range_def sw)
    moreover have "(\<lambda>j. if j \<in> set (i # xs) then None else own s j) = (\<lambda>j. if j \<in> set xs then None else own s j)"
      using None by (auto simp: fun_eq_iff)
    ultimately show ?thesis using Cons.IH [OF inv pre, of w n] Cons.prems(3) by simp
  next
    case (Some sl)
    note od = own_SomeD [OF inv Some]
    obtain k s1 where r: "retire i s = (Inr k, s1)" and rd: "retired i k s s1"
      by (rule retire_cases [OF inv od(1)])
    have e: "retire_all (i # xs) pre w n s = retire_all xs pre (if k then w @ [i] else w) (n + 1) s1"
      using od i r by (simp add: in_range_def sw)
    have f: "slab_inv s1" "pre_ok (Some pre) s1" "committed s1 = committed s"
      using rd batch_frame_pre [OF retired_frame [OF rd] pre] by (simp_all add: retired_def)
    have c: "n + 1 + card (dom (own s1)) = n + card (dom (own s))"
      using card_dom_drop [OF finite_own [OF inv] Some] rd by (simp add: retired_def)
    have o: "(\<lambda>j. if j \<in> set (i # xs) then None else own s j) = (\<lambda>j. if j \<in> set xs then None else own s1 j)"
      using rd by (auto simp: retired_def fun_eq_iff)
    have "\<forall>j\<in>set xs. j < committed s1" using Cons.prems(3) f(3) by simp
    from Cons.IH [OF f(1,2) this, of "if k then w @ [i] else w" "n + 1"]
    obtain w' n' s' where h: "retire_all xs pre (if k then w @ [i] else w) (n + 1) s1 = (Inr (w', n'), s')"
      "slab_inv s'" "set (if k then w @ [i] else w) \<subseteq> set w'" "dirty s' \<subseteq> dirty s1 \<union> set w'"
      "own s' = (\<lambda>j. if j \<in> set xs then None else own s1 j)"
      "n' + card (dom (own s')) = n + 1 + card (dom (own s1))" by blast
    have d1: "dirty s1 \<subseteq> dirty s \<union> (if k then {i} else {})" using rd by (simp add: retired_def)
    have "set w \<subseteq> set w'" and "dirty s' \<subseteq> dirty s \<union> set w'"
      using h(3,4) d1 by (cases k; auto)+
    then show ?thesis
      unfolding e o using h c by (intro exI [of _ w'] exI [of _ n'] exI [of _ s'] conjI) simp_all
  qed
qed

lemma free_planned_good:
  assumes g: "good s" and pre: "pre_ok (Some pre) s" and r: "\<forall>i\<in>set xs. i < committed s"
  obtains n s' where "free_planned xs pre s = (Inr n, s')" and "good s'"
    and "own s' = (\<lambda>i. if i \<in> set xs then None else own s i)" and "n + card (dom (own s')) = card (dom (own s))"
proof -
  obtain w n s1 where l: "retire_all xs pre [] 0 s = (Inr (w, n), s1)" "slab_inv s1"
    "dirty s1 \<subseteq> dirty s \<union> set w" "own s1 = (\<lambda>i. if i \<in> set xs then None else own s i)"
    "n + card (dom (own s1)) = card (dom (own s))"
    using retire_all_ok [OF goodD(1) [OF g] pre r, of "[]" 0] by auto
  have "dirty s1 \<subseteq> set w" using l(3) goodD(2) [OF g] by (simp add: settled_dirty)
  then obtain s2 where "persist_slots w s1 = (Inr (), s2)" "good s2" "own s2 = own s1"
    by (rule persist_batch [OF l(2)])
  then show thesis using that l by (auto simp: free_planned_def)
qed

lemma bump_all_get:
  "map_of (bump_all (map (\<lambda>i. (i, f i)) xs)) i =
     (if i \<in> set xs then Some ((f i)\<lparr>sl_refs := sl_refs (f i) + of_nat (count_list xs i)\<rparr>) else None)"
proof (induction xs rule: rev_induct)
  case Nil
  then show ?case by (simp add: bump_all_def)
next
  case (snoc x xs)
  have "bump_all (map (\<lambda>i. (i, f i)) (xs @ [x])) =
     (let b = bump_all (map (\<lambda>i. (i, f i)) xs); sl = (case map_of b x of Some b \<Rightarrow> b | None \<Rightarrow> f x)
      in al_put x (sl\<lparr>sl_refs := sl_refs sl + 1\<rparr>) b)"
    by (simp add: bump_all_def Let_def)
  with snoc show ?case
    by (cases "x = i") (auto simp: Let_def count_list_0_iff [THEN iffD2])
qed

lemma check_owned_ok:
  assumes "slab_inv s" and "pre_ok pre s"
  shows "check_owned xs pre s =
     (if \<forall>i\<in>set xs. own s i \<noteq> None then (Inr (map (\<lambda>i. (i, the (own s i))) xs), s)
      else (fst (check_owned xs pre s), s)) \<and>
     ((\<exists>e. fst (check_owned xs pre s) = Inl e) \<longleftrightarrow> \<not> (\<forall>i\<in>set xs. own s i \<noteq> None))"
proof (induction xs)
  case Nil
  then show ?case by simp
next
  case (Cons i xs)
  show ?case
  proof (cases "own s i")
    case None
    then show ?thesis
      using not_owned_state [OF assms(1) None] slot_with_inv [OF assms]
      by (cases "i < committed s") (auto simp: in_range_def)
  next
    case (Some sl)
    then show ?thesis
      using own_SomeD [OF assms(1) Some] slot_with_inv [OF assms] Cons.IH
      by (cases "check_owned xs pre s"; cases "fst (check_owned xs pre s)") (auto simp: in_range_def split: if_splits)
  qed
qed

text \<open>The counts of a clone: changed in memory, to be written by the next sync.\<close>

definition put_ready :: "nat \<Rightarrow> slot \<Rightarrow> slab \<Rightarrow> slab" where
  "put_ready i sl = pend_do (\<lambda>p. p\<lparr>p_entries := al_put i sl (p_entries p), p_ready := insert i (p_ready p)\<rparr>)"

lemma put_ready_eq: "put_ready i sl s = mark_ready i (set_slot i sl s)"
  by (simp add: put_ready_def mark_ready_def set_slot_def pend_do_def)

lemma put_ready_good:
  assumes "good s" and "own s i \<noteq> None" and "is_owned (sl_state sl)"
  shows "good (put_ready i sl s) \<and> own (put_ready i sl s) = (own s)(i \<mapsto> sl)"
proof -
  have o: "v_owned (sv s i)" using assms(2) by (simp add: own_def split: if_splits)
  then have "v_owned (sv (set_slot i sl s) i)" by (simp add: sv_set_slot v_owned_def)
  then show ?thesis
    using o set_slot_good [OF assms(1) o assms(3)] mark_ready_good [of "set_slot i sl s" i]
    by (simp add: put_ready_eq mark_ready_own set_slot_own)
qed

lemma pend_fold: "pend_do (\<lambda>p. fold (\<lambda>(i, sl) p. p\<lparr>p_entries := al_put i sl (p_entries p), p_ready := insert i (p_ready p)\<rparr>) es p) s =
    fold (\<lambda>(i, sl). put_ready i sl) es s"
proof (induction es arbitrary: s)
  case Nil
  then show ?case by (simp add: pend_do_def)
next
  case (Cons e es)
  obtain i sl where e: "e = (i, sl)" by (cases e)
  show ?case
    using Cons.IH [of "put_ready i sl s"] by (simp add: e put_ready_def pend_do_def)
qed

lemma fold_put_ready:
  assumes "good s" and "distinct (map fst es)"
    and "\<forall>(i, sl)\<in>set es. own s i \<noteq> None \<and> is_owned (sl_state sl)"
  shows "good (fold (\<lambda>(i, sl). put_ready i sl) es s) \<and>
     own (fold (\<lambda>(i, sl). put_ready i sl) es s) = (\<lambda>i. case map_of es i of Some sl \<Rightarrow> Some sl | None \<Rightarrow> own s i)"
  using assms
proof (induction es arbitrary: s)
  case Nil
  then show ?case by simp
next
  case (Cons e es)
  obtain i sl where e: "e = (i, sl)" by (cases e)
  have p: "good (put_ready i sl s)" "own (put_ready i sl s) = (own s)(i \<mapsto> sl)"
    using put_ready_good [of s i sl] Cons.prems by (auto simp: e)
  have "map_of es i = None" using Cons.prems(2) by (simp add: e map_of_eq_None_iff)
  moreover have "\<forall>(j, t)\<in>set es. own (put_ready i sl s) j \<noteq> None \<and> is_owned (sl_state t)"
    using Cons.prems(3) p(2) by auto
  ultimately show ?case
    using Cons.IH [OF p(1)] Cons.prems(2) p(2) by (auto simp: e fun_eq_iff split: option.splits)
qed

lemma bump_all_wf: "al_wf (bump_all now)"
proof -
  have "al_wf b \<Longrightarrow> al_wf (fold (\<lambda>(i, sl) bumped.
     let sl = (case map_of bumped i of Some b \<Rightarrow> b | None \<Rightarrow> sl) in al_put i (sl\<lparr>sl_refs := sl_refs sl + 1\<rparr>) bumped) now b)" for b
    by (induction now arbitrary: b) (auto simp: Let_def)
  then show ?thesis by (simp add: bump_all_def)
qed

lemma inc_ref_batch_good:
  assumes g: "good s" and pre: "pre_ok pre s" and f: "inc_ref_batch_with xs pre s = (r, s')"
  shows "good s' \<and> (if \<forall>i\<in>set xs. own s i \<noteq> None
      then r = Inr () \<and> own s' = (\<lambda>i. map_option (\<lambda>sl. sl\<lparr>sl_refs := sl_refs sl + of_nat (count_list xs i)\<rparr>) (own s i))
      else (\<exists>e. r = Inl e) \<and> s' = s)"
proof (cases "\<forall>i\<in>set xs. own s i \<noteq> None")
  case False
  then obtain e where "fst (check_owned xs pre s) = Inl e" "snd (check_owned xs pre s) = s"
    using check_owned_ok [OF goodD(1) [OF g] pre, of xs] by (metis snd_conv)
  then show ?thesis
    using f g False by (cases "check_owned xs pre s") (auto simp: inc_ref_batch_with_def)
next
  case True
  let ?now = "map (\<lambda>i. (i, the (own s i))) xs"
  have c: "check_owned xs pre s = (Inr ?now, s)"
    using check_owned_ok [OF goodD(1) [OF g] pre, of xs] True by simp
  have get: "map_of (bump_all ?now) i = (if i \<in> set xs
      then Some ((the (own s i))\<lparr>sl_refs := sl_refs (the (own s i)) + of_nat (count_list xs i)\<rparr>) else None)" for i
    by (rule bump_all_get)
  have ow: "\<forall>(i, sl)\<in>set (bump_all ?now). own s i \<noteq> None \<and> is_owned (sl_state sl)"
  proof (intro ballI, clarify)
    fix i sl assume "(i, sl) \<in> set (bump_all ?now)"
    then have "map_of (bump_all ?now) i = Some sl" using bump_all_wf [of ?now] by (simp add: al_wf_def)
    then show "own s i \<noteq> None \<and> is_owned (sl_state sl)"
      using True own_owned [OF goodD(1) [OF g]] by (auto simp: get split: if_splits)
  qed
  have s': "s' = fold (\<lambda>(i, sl). put_ready i sl) (bump_all ?now) s" and r: "r = Inr ()"
    using f c by (simp_all add: inc_ref_batch_with_def pend_fold)
  have "distinct (map fst (bump_all ?now))" using bump_all_wf [of ?now] by (simp add: al_wf_def)
  then have fp: "good s'" "own s' = (\<lambda>i. case map_of (bump_all ?now) i of Some sl \<Rightarrow> Some sl | None \<Rightarrow> own s i)"
    using fold_put_ready [OF g _ ow] s' by simp_all
  have "own s' i = map_option (\<lambda>sl. sl\<lparr>sl_refs := sl_refs sl + of_nat (count_list xs i)\<rparr>) (own s i)" for i
    unfolding fp(2) get using True by (cases "own s i") (auto simp: count_list_0_iff [THEN iffD2])
  then show ?thesis using fp(1) r True by (simp add: fun_eq_iff)
qed

end
