(* ===== verification/SlabSteps.thy ===== *)
theory SlabSteps
  imports SlabFree
begin

text \<open>
  The rest of a slab's operations (erasing, growth, the header), and all of them together: the
  step relation of a slab on a device whose reads and writes succeed, flushes failing or not,
  and what holds in every state it can reach.
\<close>

section \<open>Erasing\<close>

lemma sv_ok_erasing_taken:
  "sv_ok v \<Longrightarrow> v_erasing v \<Longrightarrow> sv_ok (v\<lparr>v_erasing := False, v_erasing_now := True\<rparr>)"
  by (simp add: sv_ok_def v_idle_def split: if_splits)

lemma sv_ok_erasing_returned:
  "sv_ok v \<Longrightarrow> v_erasing_now v \<Longrightarrow> sv_ok (v\<lparr>v_erasing_now := False, v_erasing := True\<rparr>)"
  by (simp add: sv_ok_def v_idle_def split: if_splits)

lemma sv_ok_erased:
  "sv_ok v \<Longrightarrow> v_erasing v \<or> v_erasing_now v \<Longrightarrow>
     sv_ok (v\<lparr>v_erasing := False, v_erasing_now := False, v_freeing := True, v_mem := Some slot_free\<rparr>)"
  by (simp add: sv_ok_def v_idle_def split: if_splits)

lemma al_drop_keys:
  assumes "al_wf m"
  shows "map_of (drop n m) j \<noteq> None \<longleftrightarrow> map_of m j \<noteq> None \<and> j \<notin> fst ` set (take n m)"
proof -
  have "set (map fst (take n m)) \<inter> set (map fst (drop n m)) = {}"
    using assms by (metis al_wf_def append_take_drop_id distinct_append map_append)
  moreover have "fst ` set m = fst ` set (take n m) \<union> fst ` set (drop n m)"
    by (metis append_take_drop_id image_Un set_append)
  ultimately show ?thesis by (auto simp: map_of_eq_None_iff simp del: not_None_eq)
qed

lemma al_wf_drop: "al_wf m \<Longrightarrow> al_wf (drop n m)"
  by (simp add: al_wf_def drop_map [symmetric] sorted_wrt_drop)

lemma al_put_fold_keys:
  "map_of (fold (\<lambda>(i, job). al_put i job) ps m) j \<noteq> None \<longleftrightarrow> j \<in> fst ` set ps \<or> map_of m j \<noteq> None"
  by (induction ps arbitrary: m) (auto split: if_splits)

lemma al_put_fold_wf: "al_wf m \<Longrightarrow> al_wf (fold (\<lambda>(i, job). al_put i job) ps m)"
  by (induction ps arbitrary: m) auto

lemma take_erasing_good:
  assumes g: "good s" and f: "take_erasing n s = (jobs, s')"
  shows "good s' \<and> own s' = own s"
proof -
  note d = slab_invD [OF goodD(1) [OF g]]
  let ?p = "s_pend s" and ?picked = "fst ` set (take n (p_erasing (s_pend s)))"
  have s': "s' = pend_do (\<lambda>p. p\<lparr>p_erasing := drop n (p_erasing p),
      p_erasing_now := fold (\<lambda>(i, job). al_put i job) (take n (p_erasing ?p)) (p_erasing_now p)\<rparr>) s"
    using f by (simp add: take_erasing_def Let_def)
  have sub: "j \<in> ?picked \<Longrightarrow> map_of (p_erasing ?p) j \<noteq> None" for j
    by (auto simp: map_of_eq_None_iff simp del: not_None_eq dest: in_set_takeD)
  have sv: "sv s' j = (if j \<in> ?picked then (sv s j)\<lparr>v_erasing := False, v_erasing_now := True\<rparr> else sv s j)" for j
    using al_drop_keys [OF d(5), of n j] al_put_fold_keys [of "take n (p_erasing ?p)" "p_erasing_now ?p" j]
    by (simp add: s' pend_do_def sv_def Let_def del: not_None_eq)
  have inv: "slab_inv s'"
  proof (rule slab_invI)
    show "sv_ok (sv s' j)" for j
      unfolding sv using sv_ok_erasing_taken [OF d(8) [of j]] d(8) [of j] sub [of j] by (auto simp del: not_None_eq)
    show "al_wf (p_erasing (s_pend s'))" "al_wf (p_erasing_now (s_pend s'))"
      using d by (simp_all add: s' pend_do_def al_wf_drop al_put_fold_wf)
  qed (use d in \<open>simp_all add: s' pend_do_def committed_def\<close>)
  have "settled s'"
    using goodD(2) [OF g] sub unfolding settled_def by (auto simp: sv simp del: not_None_eq)
  moreover have "own s' = own s"
    by (rule own_sv) (use sub in \<open>auto simp: sv v_owned_def simp del: not_None_eq\<close>)
  ultimately show ?thesis using inv by (simp add: good_def)
qed

lemma return_erase_good: "good s \<Longrightarrow> good (return_erase i s) \<and> own (return_erase i s) = own s"
proof (cases "map_of (p_erasing_now (s_pend s)) i")
  case None
  assume "good s"
  then show ?thesis using None by (simp add: return_erase_def pend_do_def)
next
  case (Some job)
  assume g: "good s"
  note d = slab_invD [OF goodD(1) [OF g]]
  have s': "return_erase i s = pend_do (\<lambda>p. p\<lparr>p_erasing_now := al_del i (p_erasing_now p), p_erasing := al_put i job (p_erasing p)\<rparr>) s"
    using Some by (simp add: return_erase_def pend_do_def)
  have sv: "sv (return_erase i s) j = (if j = i then (sv s j)\<lparr>v_erasing_now := False, v_erasing := True\<rparr> else sv s j)" for j
    by (simp add: s' pend_do_def sv_defs)
  have en: "v_erasing_now (sv s i)" using Some by simp
  have "slab_inv (return_erase i s)"
  proof (rule slab_invI)
    show "sv_ok (sv (return_erase i s) j)" for j
      unfolding sv using sv_ok_erasing_returned [OF d(8) en] d(8) [of j] by simp
  qed (use d in \<open>simp_all add: s' pend_do_def committed_def\<close>)
  moreover have "settled (return_erase i s)"
    using goodD(2) [OF g] en unfolding settled_def by (auto simp: sv simp del: sv_fields)
  moreover have "own (return_erase i s) = own s"
    by (rule own_sv) (use Some in \<open>auto simp: sv v_owned_def\<close>)
  ultimately show ?thesis by (simp add: good_def)
qed

lemma finish_erase_good:
  assumes g: "good s" and f: "finish_erase i s = (r, s')"
  shows "good s' \<and> own s' = own s"
proof (cases "is_erasing i s")
  case False
  then show ?thesis using f g by (auto simp: finish_erase_def is_erasing_def Let_def split: option.splits)
next
  case True
  note d = slab_invD [OF goodD(1) [OF g]]
  have e: "v_erasing (sv s i) \<or> v_erasing_now (sv s i)" using True by (simp add: is_erasing_def)
  have ok: "sv_ok (sv s i)" by (rule d(8))
  have x: "\<not> (v_erasing (sv s i) \<and> v_erasing_now (sv s i))" "\<not> v_freeing (sv s i)" "\<not> v_released (sv s i)" "\<not> v_owned (sv s i)"
    using ok e by (auto simp: sv_ok_def v_owned_def split: if_splits)
  obtain level vol where job: "(case map_of (p_erasing_now (s_pend s)) i of Some job \<Rightarrow> Some job
      | None \<Rightarrow> map_of (p_erasing (s_pend s)) i) = Some (level, vol)"
    using True by (cases "map_of (p_erasing_now (s_pend s)) i") (auto simp: is_erasing_def)
  define s1 where "s1 = pend_do (\<lambda>p.
          let p = (if map_of (p_erasing_now p) i \<noteq> None then p\<lparr>p_erasing_now := al_del i (p_erasing_now p)\<rparr>
                   else p\<lparr>p_erasing := al_del i (p_erasing p)\<rparr>)
          in p\<lparr>p_by_volume := drop_volume vol (p_by_volume p),
               p_entries := al_put i slot_free (p_entries p), p_freeing := p_freeing p @ [i]\<rparr>) s"
  have f1: "finish_erase i s = persist_slot i s1" using job by (simp add: finish_erase_def Let_def s1_def)
  have sv: "sv s1 j = (if j = i then (sv s j)\<lparr>v_erasing := False, v_erasing_now := False, v_freeing := True, v_mem := Some slot_free\<rparr>
      else sv s j)" for j
    using x(1) e by (auto simp: s1_def pend_do_def sv_defs)
  have inv: "slab_inv s1"
  proof (rule slab_invI)
    show "sv_ok (sv s1 j)" for j unfolding sv using sv_ok_erased [OF ok e] d(8) [of j] by simp
    show "distinct (p_freeing (s_pend s1) @ p_released (s_pend s1))"
      using d(4) x(2,3) by (auto simp: s1_def pend_do_def Let_def)
  qed (use d in \<open>simp_all add: s1_def pend_do_def committed_def Let_def\<close>)
  have "dirty s1 \<subseteq> set [i]"
    using goodD(2) [OF g] unfolding settled_dirty dirty_def by (auto simp: sv simp del: sv_fields split: if_splits)
  then obtain s2 where "persist_slots [i] s1 = (Inr (), s2)" "good s2" "own s2 = own s1"
    by (rule persist_batch [OF inv])
  moreover have "own s1 = own s"
    by (rule own_sv) (use x(4) in \<open>auto simp: sv v_owned_def simp del: sv_fields\<close>)
  ultimately show ?thesis using f f1 by simp
qed

section \<open>Growth and the header\<close>

lemma header_write_good:
  assumes g: "good s" and f: "and_then (dev_do (dev_write [WHeader h]) s) (\<lambda>_ s. and_then (dev_do dev_flush s) (\<lambda>_ s. (Inr x, k s))) = (r, s')"
    and k: "\<And>s0. good s0 \<Longrightarrow> s_span s0 = s_span s \<Longrightarrow> s_free s0 = s_free s \<Longrightarrow> good (k s0) \<and> own (k s0) = own s0"
  shows "good s' \<and> own s' = own s"
proof -
  obtain s1 where w: "dev_do (dev_write [WHeader h]) s = (Inr (), s1)" and i1: "slab_inv s1"
    and d1: "\<And>j. v_disk (sv s1 j) = v_disk (sv s j)"
    using write_header_inv [OF goodD(1) [OF g]] by blast
  note r1 = dev_do_rest [OF w]
  have g1: "good s1" using i1 goodD(2) [OF g] settled_pend [OF r1(1)] by (simp add: good_def)
  have o1: "own s1 = own s" by (rule own_same) (use r1 d1 in simp_all)
  obtain r2 s2 where f2: "dev_do dev_flush s1 = (r2, s2)" by (cases "dev_do dev_flush s1")
  note g2 = flush_good [OF g1 f2] flush_own [OF i1 f2]
  have "good (k s2) \<and> own (k s2) = own s2"
    by (rule k [OF g2(1)]) (simp_all add: dev_do_rest [OF f2] r1)
  then show ?thesis using f g2 o1 by (cases r2) (auto simp: w f2)
qed

lemma grow_good:
  assumes g: "good s" and f: "grow s = (r, s')"
  shows "good s' \<and> own s' = own s"
proof -
  let ?fits = "(dv_capacity (s_dev s) - unat (h_data_offset (s_header s))) div unat (h_slot_size (s_header s))"
  let ?new = "min ?fits (s_room s)"
  show ?thesis
  proof (cases "?new \<le> s_span s")
    case True
    then show ?thesis using f g by (simp add: grow_def Let_def)
  next
    case False
    let ?s = "s\<lparr>s_span := ?new\<rparr>"
    have gs: "good ?s"
      using g False slab_invD(3) [OF goodD(1) [OF g]]
      by (auto simp: good_def slab_inv_def settled_iff committed_def)
    define h where "h = (header_now ?s)\<lparr>h_free_slots := of_nat (s_free_count s + (?new - s_span s)), h_update_time := s_now s\<rparr>"
    have "good s' \<and> own s' = own ?s"
    proof (rule header_write_good [OF gs])
      show "and_then (dev_do (dev_write [WHeader h]) ?s) (\<lambda>_ sa. and_then (dev_do dev_flush sa)
        (\<lambda>_ sa. (Inr (?new - s_span s), take_committed (sa\<lparr>s_header := h\<rparr>)))) = (r, s')"
        using f False by (simp add: grow_def Let_def h_def)
    qed (simp add: take_committed_good take_committed_own goodD)
    then show ?thesis by simp
  qed
qed

lemma header_set_good:
  assumes "good s"
    and "and_then (dev_do (dev_write [WHeader h]) s) (\<lambda>_ s. and_then (dev_do dev_flush s) (\<lambda>_ s. (Inr x, s\<lparr>s_header := h\<rparr>))) = (r, s')"
  shows "good s' \<and> own s' = own s"
  by (rule header_write_good [OF assms]) simp

lemma set_partner_good:
  assumes g: "good s" and f: "set_partner u s = (r, s')"
  shows "good s' \<and> own s' = own s"
proof (cases "h_version (s_header s) = SLAB_VERSION_2")
  case True
  define h where "h = (header_now s)\<lparr>h_partner := (case u of Some u \<Rightarrow> u | None \<Rightarrow> uuid_nil)\<rparr>"
  show ?thesis
    by (rule header_set_good [OF g, of h]) (use f True in \<open>simp add: set_partner_def Let_def h_def\<close>)
next
  case False
  then show ?thesis using f g by (simp add: set_partner_def)
qed

lemma set_moved_to_good:
  assumes g: "good s" and f: "set_moved_to u s = (r, s')"
  shows "good s' \<and> own s' = own s"
proof (cases "h_version (s_header s) = SLAB_VERSION_2")
  case True
  define h0 where "h0 = (header_now s)\<lparr>h_moved_to := (case u of Some u \<Rightarrow> u | None \<Rightarrow> uuid_nil)\<rparr>"
  define h where "h = (if u \<noteq> None then h0\<lparr>h_partner := uuid_nil\<rparr> else h0)"
  have "set_moved_to u s = and_then (dev_do (dev_write [WHeader h]) s) (\<lambda>_ s.
      and_then (dev_do dev_flush s) (\<lambda>_ s. (Inr (), s\<lparr>s_header := h\<rparr>)))"
    using True unfolding set_moved_to_def Let_def h_def h0_def by (simp only: True simp_thms if_False)
  then show ?thesis using header_set_good [OF g, of h "()" r s'] f by simp
next
  case False
  then show ?thesis using f g by (simp add: set_moved_to_def)
qed

lemma write_slot_good:
  assumes g: "good s" and f: "write_slot i off buf s = (r, s')"
  shows "good s' \<and> own s' = own s"
proof (cases "i \<ge> committed s")
  case True
  then show ?thesis using f g by (auto simp: write_slot_def in_range_def)
next
  case False
  let ?w = "WData (unat (h_data_offset (s_header s)) + i * unat (h_slot_size (s_header s)) + off) buf"
  let ?s = "s\<lparr>s_dev := (s_dev s)\<lparr>dv_log := dv_log (s_dev s) @ [?w]\<rparr>\<rparr>"
  have s': "s' = ?s"
    using f False slab_invD(7) [OF goodD(1) [OF g]] by (simp add: write_slot_def in_range_def dev_do_def quiet_write)
  have "slab_inv ?s" by (rule write_inv [OF goodD(1) [OF g]]) simp_all
  moreover have "own ?s = own s" by (rule own_same) (simp_all add: view_append)
  ultimately show ?thesis using goodD(2) [OF g] by (simp add: s' good_def settled_iff)
qed

lemma commit_ahead_good: "good s \<Longrightarrow> commit_ahead s = (h, s') \<Longrightarrow> good s' \<and> own s' = own s"
  by (auto simp: commit_ahead_def Let_def split: if_splits)

section \<open>Publishing with nothing held\<close>

lemma ready_entries_good:
  assumes g: "good s" and f: "ready_entries s = (es, s')"
  shows "good s' \<and> own s' = own s"
proof -
  let ?W = "set (filter (\<lambda>i. map_of (p_entries (s_pend s)) i = None \<and> i \<notin> p_unpublished (s_pend s))
      (sorted_list_of_set (p_ready (s_pend s))))"
  have s': "s' = pend_do (\<lambda>p. p\<lparr>p_ready := p_ready p - ?W\<rparr>) s"
    using f by (simp add: ready_entries_def Let_def)
  have sv: "sv s' j = (if j \<in> ?W then (sv s j)\<lparr>v_ready := False\<rparr> else sv s j)" for j
    by (auto simp: s' pend_do_def sv_defs)
  have "slab_inv s'"
  proof (rule slab_inv_frame [OF goodD(1) [OF g]])
    show "same_frame s s'"
      using slab_invD(7) [OF goodD(1) [OF g]] by (simp add: s' same_frame_def committed_def pend_do_def)
    show "sv_ok (sv s' j)" for j
      unfolding sv using slab_inv_sv [OF goodD(1) [OF g], of j] by (simp add: sv_ok_unready)
  qed
  moreover have "own s' = own s" by (rule own_sv) (auto simp: sv v_owned_def)
  ultimately show ?thesis using goodD(2) [OF g] by (simp add: good_def settled_iff s' pend_do_def)
qed

lemma fold_forget_current:
  assumes "\<forall>(i, sl)\<in>set es. i \<notin> U \<and> M i = Some sl"
  shows "fold (\<lambda>(i, sl) m. if i \<notin> U \<and> M i = Some sl then al_del i m else m) es m =
     fold (\<lambda>i m. if i \<in> U then m else al_del i m) (map fst es) m"
  using assms by (induction es arbitrary: m) auto

text \<open>
  Entries read before and still current are published as the slab itself would publish them.
\<close>

lemma publish_current:
  assumes g: "good s" and ne: "es \<noteq> []"
    and cur: "\<forall>(i, sl)\<in>set es. i \<in> p_ready (s_pend s) \<and> map_of (p_entries (s_pend s)) i = Some sl"
  shows "publish_unlocked es s = (Inr (Some True), written (map fst es) (take_ready (fst ` set es) s))"
proof -
  let ?R = "fst ` set es" and ?s = "take_ready (fst ` set es) s"
  have q: "dev_quiet (s_dev s)" using slab_invD(7) [OF goodD(1) [OF g]] .
  have t: "pend_do (\<lambda>p. p\<lparr>p_ready := p_ready p - ?R, p_unpublished := p_unpublished p - ?R \<inter> p_unpublished (s_pend s)\<rparr>) s = ?s"
    by (simp add: take_ready_def pend_do_def Diff_Int2 [of _ ?R, symmetric] Int_commute Diff_Int)
  have m: "map_of (p_entries (s_pend ?s)) = map_of (p_entries (s_pend s))" "s_dev ?s = s_dev s"
    "p_unpublished (s_pend ?s) = p_unpublished (s_pend s) - ?R"
    by (simp_all add: take_ready_def pend_do_def)
  have e: "map (\<lambda>(i, b). WEntry i b) es = map (\<lambda>i. WEntry i (entry_of ?s i)) (map fst es)"
    using cur by (auto simp: entry_of_def v_now_def m image_iff)
  have w: "table_write es ?s = (Inr (), ?s\<lparr>s_dev := (s_dev ?s)\<lparr>dv_log := dv_log (s_dev ?s) @ map (\<lambda>i. WEntry i (entry_of ?s i)) (map fst es)\<rparr>,
      s_epoch := s_epoch ?s + 2\<rparr>)"
    using q unfolding table_write_def e by (simp add: dev_do_def quiet_write m)
  have fold: "fold (\<lambda>(i, sl) m. if i \<notin> p_unpublished (s_pend ?s) \<and> map_of (p_entries (s_pend ?s)) i = Some sl then al_del i m else m) es mm =
      fold (\<lambda>i m. if i \<in> p_unpublished (s_pend ?s) then m else al_del i m) (map fst es) mm" for mm
    by (rule fold_forget_current) (use cur in \<open>auto simp: m intro: rev_image_eqI\<close>)
  show ?thesis
    using ne cur t unfolding publish_unlocked_def
    by (simp add: Let_def w del: map_map) (simp add: written_def pend_do_def forget_written_def fold)
qed

lemma publish_unlocked_good:
  assumes g: "good s" and f: "publish_unlocked es s = (r, s')"
  shows "good s' \<and> own s' = own s"
proof (cases "es \<noteq> [] \<and> (\<forall>(i, sl)\<in>set es. i \<in> p_ready (s_pend s) \<and> map_of (p_entries (s_pend s)) i = Some sl)")
  case True
  let ?s = "take_ready (fst ` set es) s"
  note t = take_ready_good [OF g, of "fst ` set es"]
  have s': "s' = written (map fst es) ?s" using f publish_current [OF g] True by simp
  have "slab_inv s'" using t by (simp add: s' slab_inv_written goodD)
  moreover have "settled s'"
    using goodD(2) [of ?s] t by (auto simp: settled_def s' sv_written simp del: sv_fields)
  moreover have "own s' = own ?s"
  proof (rule own_sv)
    show "v_owned (sv s' j) = v_owned (sv ?s j)" for j by (simp add: s' sv_written v_owned_def)
    show "v_owned (sv ?s j) \<Longrightarrow> v_now (sv s' j) = v_now (sv ?s j)" for j
      using slab_inv_sv [OF goodD(1) [OF conjunct1 [OF t]], of j]
      by (cases "v_mem (sv ?s j)") (auto simp: s' sv_written v_now_def entry_of_def sv_owned_ok simp del: sv_fields)
  qed
  ultimately show ?thesis using t by (simp add: good_def)
next
  case False
  then have "s' = s" using f by (auto simp: publish_unlocked_def Let_def split: if_splits)
  then show ?thesis using g by simp
qed

lemma publish_registered_good: "good s \<Longrightarrow> publish_registered n s = (r, s') \<Longrightarrow> good s' \<and> own s' = own s"
proof (induction n arbitrary: s r s')
  case 0
  then show ?case using publish_ready_good [of s] by simp
next
  case (Suc n)
  obtain es s1 where e: "ready_entries s = (es, s1)" by (cases "ready_entries s")
  obtain r2 s2 where p: "publish_unlocked es s1 = (r2, s2)" by (cases "publish_unlocked es s1")
  note g1 = ready_entries_good [OF Suc.prems(1) e]
  note g2 = publish_unlocked_good [OF conjunct1 [OF g1] p]
  show ?case
    using Suc.prems(2) e p g1 g2 Suc.IH [of s2 r s']
    by (cases r2) (auto split: option.splits)
qed

end
