(* ===== verification/SlabFormat.thy ===== *)
theory SlabFormat
  imports SlabSteps
begin

text \<open>
  Formatting and opening a slab (\<open>SlabFormat\<close>, \<open>format_with\<close>, \<open>open\<close> in
  \<open>src/drive/slab.rs\<close>): the layout of the device, the first write of it, and the slab read
  back from what a device holds, after a stop or a power cut. The volume metadata of a
  format 2 slab is written by \<open>volume::metav2\<close>, which is not part of this theory; of format
  1 only the place of the two copies is.
\<close>

section \<open>Layout\<close>

definition META_ALIGN :: nat where "META_ALIGN = 4096"
definition META_MIN :: nat where "META_MIN = 65536"
definition META_MAX :: nat where "META_MAX = 268435456"
definition META_BYTES_PER_SLOT :: nat where "META_BYTES_PER_SLOT = 256"
definition COMMIT_STEP :: nat where "COMMIT_STEP = 1048576"
definition FLAG_DEDICATED :: u8 where "FLAG_DEDICATED = 1"

definition align_up :: "nat \<Rightarrow> nat \<Rightarrow> nat" where
  "align_up v a =
     (if a = 0 then v
      else let r = v mod a in if r = 0 then v else v + a - r)"

definition clamp :: "nat \<Rightarrow> nat \<Rightarrow> nat \<Rightarrow> nat" where
  "clamp lo hi x = max lo (min x hi)"

definition auto_metadata_bytes :: "nat \<Rightarrow> nat \<Rightarrow> nat" where
  "auto_metadata_bytes capacity slot_size =
     (let per_slot = SLOT_ENTRY_SIZE + max slot_size 1;
          slots = (capacity - HEADER_SIZE) div per_slot;
          want = sat_mul64 slots META_BYTES_PER_SLOT;
          ceiling = clamp (2 * META_ALIGN) META_MAX (capacity div 8)
      in align_up (clamp (min META_MIN ceiling) ceiling want) (2 * META_ALIGN))"

definition auto_metadata_bytes_v2 :: "nat \<Rightarrow> nat \<Rightarrow> nat" where
  "auto_metadata_bytes_v2 capacity slot_size =
     (let per_slot = SLOT_ENTRY_SIZE + max slot_size 1;
          slots = (capacity - HEADER_SIZE) div per_slot;
          tree = sat_mul64 slots 48;
          want = sat_add64 (sat_add64 tree (min (tree div 7) 67108864)) 1048576;
          ceiling = max (capacity div 8) (2 * META_ALIGN)
      in align_up (min want ceiling) (2 * META_ALIGN))"

record slab_format =
  f_slot_size :: nat
  f_tier :: storage_tier
  f_metadata_bytes :: nat
  f_role :: slab_role
  f_grow_to :: nat
  f_dedicated :: bool
  f_version :: u32
  f_commit_step :: nat

definition slab_format_new :: "nat \<Rightarrow> storage_tier \<Rightarrow> u32 \<Rightarrow> slab_format" where
  "slab_format_new slot_size tier default_format =
     \<lparr>f_slot_size = slot_size, f_tier = tier, f_metadata_bytes = 0, f_role = System, f_grow_to = 0,
      f_dedicated = False, f_version = default_format, f_commit_step = COMMIT_STEP\<rparr>"

definition with_commit_step :: "nat \<Rightarrow> slab_format \<Rightarrow> slab_format" where
  "with_commit_step n f = f\<lparr>f_commit_step := max (div_ceil n 64) 1 * 64\<rparr>"

definition with_auto_metadata :: "nat \<Rightarrow> slab_format \<Rightarrow> slab_format" where
  "with_auto_metadata capacity f = f\<lparr>f_metadata_bytes :=
     (if f_version f = SLAB_VERSION_2 then auto_metadata_bytes_v2 capacity (f_slot_size f)
      else auto_metadata_bytes capacity (f_slot_size f))\<rparr>"

record layout =
  l_meta_offset :: nat
  l_meta_size :: nat
  l_table_offset :: nat
  l_data_offset :: nat
  l_total_slots :: nat
  l_room :: nat
  l_committed_cap :: nat

text \<open>
  Two copies, each on a 4 KiB boundary; a format 2 region is never smaller than its own automatic
  size.
\<close>

definition format_meta_size :: "slab_format \<Rightarrow> nat \<Rightarrow> nat" where
  "format_meta_size opts capacity =
     (let wanted = (if f_version opts = SLAB_VERSION_2 \<and> f_metadata_bytes opts > 0
                    then max (f_metadata_bytes opts) (auto_metadata_bytes_v2 capacity (f_slot_size opts))
                    else f_metadata_bytes opts)
      in align_up wanted (2 * META_ALIGN))"

definition format_layout :: "slab_format \<Rightarrow> nat \<Rightarrow> drive_error + layout" where
  "format_layout opts capacity =
     (let slot_size = f_slot_size opts;
          meta_size = format_meta_size opts capacity;
          meta_offset = (if meta_size > 0 then HEADER_SIZE else 0);
          table_offset = HEADER_SIZE + meta_size;
          usable = capacity - table_offset;
          per_slot = SLOT_ENTRY_SIZE + slot_size in
      if per_slot = 0 \<or> usable < per_slot then Inl TooSmall
      else
        let total_slots = usable div per_slot;
            table_capacity = max total_slots (f_grow_to opts div max slot_size 1);
            table_size = table_capacity * SLOT_ENTRY_SIZE;
            data_offset = align_up (table_offset + table_size) slot_size;
            data_region = capacity - data_offset;
            total_slots = min total_slots (data_region div slot_size) in
        if total_slots = 0 then Inl NotEvenOne
        else if f_version opts \<noteq> SLAB_VERSION_2 \<and> table_capacity > u32_max then Inl TooManySlots
        else
          let room = max table_capacity total_slots;
              committed_cap = (if f_version opts = SLAB_VERSION_2
                then min (div_ceil (min total_slots (f_commit_step opts)) 64 * 64) room else room) in
          Inr \<lparr>l_meta_offset = meta_offset, l_meta_size = meta_size, l_table_offset = table_offset,
               l_data_offset = data_offset, l_total_slots = total_slots, l_room = room, l_committed_cap = committed_cap\<rparr>)"

definition format_header :: "slab_format \<Rightarrow> layout \<Rightarrow> uuid \<Rightarrow> uuid \<Rightarrow> u64 \<Rightarrow> slab_header" where
  "format_header opts l slab_uuid device_uuid now =
     \<lparr>h_slab_uuid = slab_uuid, h_device_uuid = device_uuid, h_slot_size = of_nat (f_slot_size opts),
      h_total_slots = of_nat (min (l_total_slots l) (l_committed_cap l)), h_free_slots = of_nat (l_total_slots l),
      h_data_offset = of_nat (l_data_offset l), h_table_offset = of_nat (l_table_offset l),
      h_create_time = now, h_update_time = now, h_tier = f_tier opts,
      h_flags = (if f_dedicated opts then FLAG_DEDICATED else 0), h_role = f_role opts,
      h_meta_offset = of_nat (l_meta_offset l), h_meta_size = of_nat (l_meta_size l),
      h_table_capacity = of_nat (l_committed_cap l), h_table_room = of_nat (l_room l),
      h_span = of_nat (l_total_slots l), h_partner = uuid_nil, h_moved_to = uuid_nil, h_checksum = 0,
      h_version = (if f_version opts = SLAB_VERSION_2 then SLAB_VERSION_2 else SLAB_VERSION)\<rparr>"

text \<open>\<open>format_with\<close>: the header, the metadata copies (outside this model), the zeroed table, one flush.\<close>

definition format_with :: "slab_format \<Rightarrow> uuid \<Rightarrow> uuid \<Rightarrow> u64 \<Rightarrow> dev \<Rightarrow> (drive_error + slab) \<times> dev" where
  "format_with opts slab_uuid device_uuid now d =
     (case format_layout opts (dv_capacity d) of
        Inl e \<Rightarrow> (Inl e, d)
      | Inr l \<Rightarrow>
        let h = format_header opts l slab_uuid device_uuid now;
            padded = pad_to_block (dv_block d) (l_committed_cap l * SLOT_ENTRY_SIZE) in
        and_then (dev_write [WHeader h] d) (\<lambda>_ d.
        and_then (dev_write (zero_chunks 0 (padded div SLOT_ENTRY_SIZE)) d) (\<lambda>_ d.
        and_then (dev_flush d) (\<lambda>_ d.
          (Inr \<lparr>s_header = h, s_free = fm_new (min (l_total_slots l) (l_committed_cap l)) True,
                s_free_count = min (l_total_slots l) (l_committed_cap l), s_cap = l_committed_cap l,
                s_span = l_total_slots l, s_room = l_room l, s_step = f_commit_step opts, s_ahead = False,
                s_pend = pending_default, s_erase = EraseNone, s_erase_now = None, s_retired = 0,
                s_epoch = 0, s_asked = 0, s_done = 0, s_now = now, s_dev = d\<rparr>, d)))))"

section \<open>Open\<close>

text \<open>One entry of the scan: not free, it leaves the free map; being erased, it is queued.\<close>

definition open_entry :: "nat \<Rightarrow> slot \<Rightarrow> freemap \<times> pending \<times> nat \<Rightarrow> freemap \<times> pending \<times> nat" where
  "open_entry i sl st =
     (case st of (fm, p, used) \<Rightarrow>
        (fm_set fm i False,
         if sl_state sl = Erasing
         then p\<lparr>p_erasing := al_put i (erase_from_code (sl_refs sl), sl_volume sl) (p_erasing p),
                p_by_volume := bump_volume (sl_volume sl) (p_by_volume p)\<rparr>
         else p,
         used + 1))"

definition scan_entries :: "nat \<Rightarrow> image \<Rightarrow> (nat \<times> slot) list" where
  "scan_entries n im = filter (\<lambda>(i, sl). sl_state sl \<noteq> Free) (map (\<lambda>i. (i, im_entries im i)) [0..<n])"

definition open_slab :: "u64 \<Rightarrow> dev \<Rightarrow> (drive_error + slab) \<times> dev" where
  "open_slab now d =
     (let h = im_header (dv_view d); cap = unat (h_table_capacity h); span = unat (h_span h);
          total_slots = min span cap in
      if faulted (dv_read_faults d) then (Inl IoError, d\<lparr>dv_read_faults := tl (dv_read_faults d)\<rparr>)
      else case fold (\<lambda>(i, sl). open_entry i sl) (scan_entries total_slots (dv_view d))
                  (fm_new total_slots True, pending_default, 0) of
        (fm, p, used) \<Rightarrow>
          (Inr \<lparr>s_header = h, s_free = fm, s_free_count = total_slots - used, s_cap = cap, s_span = span,
                s_room = unat (h_table_room h), s_step = COMMIT_STEP, s_ahead = False, s_pend = p,
                s_erase = EraseNone, s_erase_now = None, s_retired = 0, s_epoch = 0, s_asked = 0, s_done = 0,
                s_now = now, s_dev = d\<lparr>dv_read_faults := tl (dv_read_faults d)\<rparr>\<rparr>,
           d\<lparr>dv_read_faults := tl (dv_read_faults d)\<rparr>))"

section \<open>The layout is sound\<close>

lemma align_up_ge: "v \<le> align_up v a"
proof (cases "a = 0 \<or> v mod a = 0")
  case False
  then have "v mod a < a" by simp
  then have "v \<le> v + a - v mod a" by linarith
  then show ?thesis using False by (simp add: align_up_def)
qed (auto simp: align_up_def)

lemma align_up_dvd: "0 < a \<Longrightarrow> a dvd align_up v a"
proof -
  assume a: "0 < a"
  show ?thesis
  proof (cases "v mod a = 0")
    case True
    then show ?thesis using a by (simp add: align_up_def dvd_eq_mod_eq_0)
  next
    case False
    have "v + a - v mod a = v div a * a + a"
      using div_mult_mod_eq [of v a] mod_less_divisor [OF a, of v] by linarith
    then show ?thesis using a False by (simp add: align_up_def)
  qed
qed



section \<open>What is opened\<close>

text \<open>What a scan leaves alone.\<close>

definition pend_core :: "pending \<Rightarrow> nat set \<times> nat set \<times> nat list \<times> nat list \<times> (nat \<times> (erase_level \<times> uuid)) list \<times> (nat \<times> slot) list" where
  "pend_core p = (p_unpublished p, p_ready p, p_freeing p, p_released p, p_erasing_now p, p_entries p)"

definition scanned :: "freemap \<Rightarrow> pending \<Rightarrow> nat \<Rightarrow> (nat \<times> slot) list \<Rightarrow> freemap \<times> pending \<times> nat \<Rightarrow> bool" where
  "scanned fm0 p0 u0 es st = (case st of (fm, p, u) \<Rightarrow>
     fm_inv fm \<and> fm_len fm = fm_len fm0 \<and> (\<forall>j. fm_is_free fm j = (fm_is_free fm0 j \<and> j \<notin> fst ` set es)) \<and>
     al_wf (p_erasing p) \<and> (\<forall>j. (map_of (p_erasing p) j \<noteq> None) =
        (map_of (p_erasing p0) j \<noteq> None \<or> (\<exists>sl. (j, sl) \<in> set es \<and> sl_state sl = Erasing))) \<and>
     pend_core p = pend_core p0 \<and> u = u0 + length es)"

lemma open_fold:
  assumes "fm_inv fm0" and "al_wf (p_erasing p0)" and "\<forall>e\<in>set es. fst e < fm_len fm0"
  shows "scanned fm0 p0 u0 es (fold (\<lambda>(i, sl). open_entry i sl) es (fm0, p0, u0))"
  using assms
proof (induction es arbitrary: fm0 p0 u0)
  case Nil
  then show ?case by (simp add: scanned_def)
next
  case (Cons e es)
  obtain i sl where e: "e = (i, sl)" by (cases e)
  obtain fm1 p1 u1 where o: "open_entry i sl (fm0, p0, u0) = (fm1, p1, u1)" by (cases "open_entry i sl (fm0, p0, u0)")
  have f: "fm1 = fm_set fm0 i False" "u1 = u0 + 1"
    and p: "pend_core p1 = pend_core p0" "al_wf (p_erasing p1)"
    and m: "(map_of (p_erasing p1) j \<noteq> None) = (map_of (p_erasing p0) j \<noteq> None \<or> j = i \<and> sl_state sl = Erasing)" for j
    using o Cons.prems by (auto simp: open_entry_def pend_core_def split: if_splits)
  have i: "i < fm_len fm0" using Cons.prems(3) e by simp
  have "scanned fm1 p1 u1 es (fold (\<lambda>(i, sl). open_entry i sl) es (fm1, p1, u1))"
    by (rule Cons.IH) (use Cons.prems p(2) in \<open>simp_all add: f\<close>)
  then show ?case
    using p(1) m i by (auto simp: e o scanned_def f fm_is_free_set split: prod.splits)
qed

lemma scan_entries_props:
  "distinct (map fst (scan_entries n im))" "e \<in> set (scan_entries n im) \<Longrightarrow> fst e < n"
  "(j, sl) \<in> set (scan_entries n im) \<longleftrightarrow> j < n \<and> sl = im_entries im j \<and> sl_state sl \<noteq> Free"
  by (auto simp: scan_entries_def comp_def distinct_map_filter)

lemma scan_keys: "j \<in> fst ` set (scan_entries n im) \<longleftrightarrow> j < n \<and> sl_state (im_entries im j) \<noteq> Free"
  by (auto simp: scan_entries_def image_iff)

definition opened :: "image \<Rightarrow> slab \<Rightarrow> bool" where
  "opened im s \<longleftrightarrow> (let h = im_header im; total_slots = min (unat (h_span h)) (unat (h_table_capacity h)) in
     s_header s = h \<and> s_cap s = unat (h_table_capacity h) \<and> s_span s = unat (h_span h) \<and> fm_len (s_free s) = total_slots \<and>
     fm_inv (s_free s) \<and> s_free_count s = fm_count_free (s_free s) \<and>
     (\<forall>j. fm_is_free (s_free s) j = (j < total_slots \<and> sl_state (im_entries im j) = Free)) \<and>
     al_wf (p_erasing (s_pend s)) \<and>
     (\<forall>j. (map_of (p_erasing (s_pend s)) j \<noteq> None) = (j < total_slots \<and> sl_state (im_entries im j) = Erasing)) \<and>
     pend_core (s_pend s) = pend_core pending_default)"

lemma open_slab_opened:
  assumes "dev_quiet d"
  obtains s where "open_slab now d = (Inr s, d)" and "opened (dv_view d) s" and "s_dev s = d"
proof -
  let ?h = "im_header (dv_view d)"
  let ?n = "min (unat (h_span ?h)) (unat (h_table_capacity ?h))"
  let ?es = "scan_entries ?n (dv_view d)"
  obtain fm p u where r: "fold (\<lambda>(i, sl). open_entry i sl) ?es (fm_new ?n True, pending_default, 0) = (fm, p, u)"
    by (cases "fold (\<lambda>(i, sl). open_entry i sl) ?es (fm_new ?n True, pending_default, 0)")
  have sc: "scanned (fm_new ?n True) pending_default 0 ?es (fm, p, u)"
    unfolding r [symmetric]
    by (rule open_fold) (auto simp: pending_default_def dest: scan_entries_props(2))
  have free: "fm_is_free fm j = (j < ?n \<and> sl_state (im_entries (dv_view d) j) = Free)" for j
    using sc scan_keys [of j ?n "dv_view d"] by (auto simp: scanned_def fm_is_free_new)
  have "{j. fm_is_free fm j} = {..<?n} - fst ` set ?es"
    using sc by (auto simp: scanned_def fm_is_free_new)
  moreover have "fst ` set ?es \<subseteq> {..<?n}" using scan_entries_props(2) by blast
  moreover have "card (fst ` set ?es) = length ?es"
    by (metis distinct_card length_map list.set_map scan_entries_props(1))
  ultimately have cnt: "fm_count_free fm = ?n - u"
    using sc by (simp add: scanned_def fm_count_free_card card_Diff_subset)
  have fl: "\<not> faulted (dv_read_faults d)" "d\<lparr>dv_read_faults := tl (dv_read_faults d)\<rparr> = d"
    using assms by (cases d, simp add: dev_quiet_def faulted_def)+
  have er: "(map_of (p_erasing p) j \<noteq> None) = (j < ?n \<and> sl_state (im_entries (dv_view d) j) = Erasing)" for j
    using sc scan_entries_props(3) [of j _ ?n "dv_view d"] by (auto simp: scanned_def pending_default_def)
  show thesis
  proof (rule that)
    show "open_slab now d = (Inr \<lparr>s_header = ?h, s_free = fm, s_free_count = ?n - u, s_cap = unat (h_table_capacity ?h),
        s_span = unat (h_span ?h), s_room = unat (h_table_room ?h), s_step = COMMIT_STEP, s_ahead = False, s_pend = p,
        s_erase = EraseNone, s_erase_now = None, s_retired = 0, s_epoch = 0, s_asked = 0, s_done = 0,
        s_now = now, s_dev = d\<rparr>, d)"
      using fl r by (simp add: open_slab_def Let_def)
  qed (use sc free er cnt in \<open>simp_all add: opened_def Let_def scanned_def\<close>)
qed

lemma opened_good:
  assumes o: "opened (dv_view (s_dev s)) s" and q: "dev_quiet (s_dev s)" and l: "dv_log (s_dev s) = []"
    and past: "\<And>j. fm_len (s_free s) \<le> j \<Longrightarrow> j < s_cap s \<Longrightarrow> sl_state (im_entries (dv_view (s_dev s)) j) = Free"
  shows "good s"
    and "own s j = (let e = im_entries (dv_view (s_dev s)) j in if j < fm_len (s_free s) \<and> is_owned (sl_state e) then Some e else None)"
proof -
  let ?im = "dv_view (s_dev s)"
  have cut: "cut_all is_free_entry (s_dev s) j = is_free_entry (im_entries ?im j)" for j
    using l by (simp add: cut_all_def dv_view_def)
  have p: "p_unpublished (s_pend s) = {}" "p_ready (s_pend s) = {}" "p_freeing (s_pend s) = []"
    "p_released (s_pend s) = []" "p_erasing_now (s_pend s) = []" "p_entries (s_pend s) = []"
    using o by (simp_all add: opened_def Let_def pend_core_def pending_default_def)
  have len: "fm_len (s_free s) = committed s" and al: "al_wf (p_erasing (s_pend s))"
    and fm: "fm_inv (s_free s)" "s_free_count s = fm_count_free (s_free s)"
    and free: "\<And>j. fm_is_free (s_free s) j = (j < committed s \<and> sl_state (im_entries ?im j) = Free)"
    and er: "\<And>j. (map_of (p_erasing (s_pend s)) j \<noteq> None) = (j < committed s \<and> sl_state (im_entries ?im j) = Erasing)"
    using o by (simp_all add: opened_def Let_def committed_def del: not_None_eq)
  have now: "v_now (sv s j) = im_entries ?im j" for j by (simp add: v_now_def p)
  have owned: "v_owned (sv s j) \<longleftrightarrow> j < committed s \<and> is_owned (sl_state (im_entries ?im j))" for j
    using free er by (cases "sl_state (im_entries ?im j)") (auto simp: v_owned_def p len simp del: not_None_eq)
  have "sv_ok (sv s j)" for j
  proof (cases "j < committed s")
    case True
    then show ?thesis
      using free [of j] er [of j] now [of j]
      by (cases "sl_state (im_entries ?im j)") (auto simp: sv_ok_def v_idle_def p cut len simp del: not_None_eq)
  next
    case False
    then show ?thesis
      using past [of j] free [of j] er [of j] by (auto simp: sv_ok_def v_idle_def p cut len simp del: not_None_eq)
  qed
  then have "slab_inv s" using fm al q len by (intro slab_invI) (simp_all add: p)
  moreover have "settled s" by (simp add: settled_iff p)
  ultimately show "good s" by (simp add: good_def)
  show "own s j = (let e = im_entries ?im j in if j < fm_len (s_free s) \<and> is_owned (sl_state e) then Some e else None)"
    using owned [of j] now [of j] by (simp add: own_def len Let_def)
qed

section \<open>A fresh slab\<close>

lemma format_good:
  assumes q: "dev_quiet d" and ff: "dv_flush_faults d = []" and l: "format_layout opts (dv_capacity d) = Inr l"
  obtains s where "format_with opts u du now d = (Inr s, s_dev s)" and "good s" and "own s = Map.empty"
    and "dv_log (s_dev s) = []" and "s_header s = format_header opts l u du now"
    and "im_header (dv_media (s_dev s)) = s_header s"
    and "s_cap s = l_committed_cap l" and "s_span s = l_total_slots l"
    and "fm_len (s_free s) = min (l_total_slots l) (l_committed_cap l)"
    and "dv_read_faults (s_dev s) = []" and "dv_write_faults (s_dev s) = []" and "dv_flush_faults (s_dev s) = []"
    and "dv_block (s_dev s) = dv_block d" and "dv_capacity (s_dev s) = dv_capacity d"
proof -
  let ?h = "format_header opts l u du now" and ?n = "min (l_total_slots l) (l_committed_cap l)"
  define pad where "pad = pad_to_block (dv_block d) (l_committed_cap l * SLOT_ENTRY_SIZE) div SLOT_ENTRY_SIZE"
  define d2 where "d2 = d\<lparr>dv_log := (dv_log d @ [WHeader ?h]) @ zero_chunks 0 pad\<rparr>"
  define d3 where "d3 = d2\<lparr>dv_media := dv_view d2, dv_log := []\<rparr>"
  define s where "s = \<lparr>s_header = ?h, s_free = fm_new ?n True, s_free_count = ?n, s_cap = l_committed_cap l,
      s_span = l_total_slots l, s_room = l_room l, s_step = f_commit_step opts, s_ahead = False,
      s_pend = pending_default, s_erase = EraseNone, s_erase_now = None, s_retired = 0,
      s_epoch = 0, s_asked = 0, s_done = 0, s_now = now, s_dev = d3\<rparr>"
  have pad: "l_committed_cap l \<le> pad"
    using div_le_mono [OF pad_to_block_ge, of "l_committed_cap l * SLOT_ENTRY_SIZE" SLOT_ENTRY_SIZE]
    by (simp add: pad_def SLOT_ENTRY_SIZE_def)
  have zero: "j < pad \<Longrightarrow> im_entries (dv_media d3) j = slot_free" for j
    by (simp add: d3_def d2_def dv_view_def zero_chunks_entry)
  have hdr: "im_header (apply_writes (zero_chunks a k) im) = im_header im" for a k im
  proof (induction a k arbitrary: im rule: zero_chunks.induct)
    case (1 a k)
    then show ?case by (subst zero_chunks.simps) auto
  qed
  have cut: "cut_all is_free_entry d3 j" if "j < l_committed_cap l" for j
    using zero [of j] that pad by (simp add: cut_all_def d3_def)
  have view: "dv_view d3 = dv_media d3" by (simp add: d3_def dv_view_def)
  have fm: "fm_count_free (fm_new n True) = n" for n
    by (simp add: fm_count_free_card fm_is_free_new)
  have ok: "sv_ok (sv s j)" for j
  proof (cases "j < l_committed_cap l")
    case True
    then show ?thesis using cut [OF True] zero [of j] pad
      by (auto simp: sv_ok_def v_idle_def s_def pending_default_def fm_is_free_new view)
  next
    case False
    have "cut_all is_free_entry d3 j \<Longrightarrow> is_free_entry (im_entries (dv_view d3) j)" by (rule cut_all_view)
    then show ?thesis using False by (auto simp: sv_ok_def v_idle_def s_def pending_default_def fm_is_free_new)
  qed
  have inv: "slab_inv s"
    by (rule slab_invI) (use ok q fm in \<open>simp_all add: s_def pending_default_def committed_def d3_def d2_def dev_quiet_def\<close>)
  show thesis
  proof (rule that)
    show "good s" using inv by (simp add: good_def settled_iff s_def pending_default_def)
    show "own s = Map.empty" by (auto simp: own_def v_owned_def s_def fm_is_free_new fun_eq_iff)
    have f3: "dev_flush d2 = (Inr (), d3)"
      using ff by (cases d) (simp add: dev_flush_def faulted_def d3_def d2_def)
    show "format_with opts u du now d = (Inr s, s_dev s)"
      using q f3 l by (simp add: format_with_def quiet_write Let_def pad_def [symmetric] d2_def s_def)
  qed (use q ff in \<open>simp_all add: s_def d3_def d2_def dev_quiet_def dv_view_def hdr\<close>)
qed

end
