(* ===== verification/SlabCrash.thy ===== *)
theory SlabCrash
  imports SlabFormat
begin

text \<open>
  What a slab promises: in every state its operations reach, the slots are accounted for, an
  allocation hands out a slot nobody has, a power cut at any point is recovered to a sound slab
  with nothing mapped that was not published, a sync makes durable what was confirmed before it.
  And where the code falls short of its own rules: the order of a sync against a confirmation
  that runs beside it, a free whose table write failed, a header written from a stale copy.
\<close>

section \<open>Steps\<close>

inductive slab_step :: "slab \<Rightarrow> slab \<Rightarrow> bool" where
  step_allocate: "allocate_gen vol vext gen s = (r, s') \<Longrightarrow> slab_step s s'"
| step_deferred: "allocate_deferred vol vext gen s = (r, s') \<Longrightarrow> slab_step s s'"
| step_write: "write_slot i off buf s = (rw, s') \<Longrightarrow> slab_step s s'"
| step_confirm: "slab_step s (confirm i s)"
| step_sync_flush: "sync_flush s = (rw, s') \<Longrightarrow> slab_step s s'"
| step_publish: "publish_ready s = (rb, s') \<Longrightarrow> slab_step s s'"
| step_read_ready: "ready_entries s = (es, s') \<Longrightarrow> slab_step s s'"
| step_publish_unlocked: "publish_unlocked es s = (ro, s') \<Longrightarrow> slab_step s s'"
| step_sync_finish: "sync_finish covers wrote s = (rw, s') \<Longrightarrow> slab_step s s'"
| step_sync: "sync s = (rw, s') \<Longrightarrow> slab_step s s'"
| step_free: "free i s = (rw, s') \<Longrightarrow> slab_step s s'"
| step_free_planned: "pre_ok (Some pre) s \<Longrightarrow> \<forall>i\<in>set xs. i < committed s \<Longrightarrow>
    free_planned xs pre s = (rn, s') \<Longrightarrow> slab_step s s'"
| step_inc_ref: "inc_ref i s = (rw, s') \<Longrightarrow> slab_step s s'"
| step_inc_ref_batch: "pre_ok po s \<Longrightarrow> inc_ref_batch_with xs po s = (rw, s') \<Longrightarrow> slab_step s s'"
| step_dec_ref: "dec_ref i s = (rb, s') \<Longrightarrow> slab_step s s'"
| step_dec_ref_batch: "pre_ok po s \<Longrightarrow> dec_ref_batch_with xs po s = (rd, s') \<Longrightarrow> slab_step s s'"
| step_raise_ref: "raise_ref i count s = (b, s') \<Longrightarrow> slab_step s s'"
| step_reassign: "reassign_slot i vol vext s = (rw, s') \<Longrightarrow> slab_step s s'"
| step_take_erasing: "take_erasing n s = (jobs, s') \<Longrightarrow> slab_step s s'"
| step_return_erase: "slab_step s (return_erase i s)"
| step_finish_erase: "finish_erase i s = (rw, s') \<Longrightarrow> slab_step s s'"
| step_grow: "grow s = (r, s') \<Longrightarrow> slab_step s s'"
| step_partner: "set_partner uo s = (rw, s') \<Longrightarrow> slab_step s s'"
| step_moved: "set_moved_to uo s = (rw, s') \<Longrightarrow> slab_step s s'"
| step_commit_ahead: "commit_ahead s = (ho, s') \<Longrightarrow> slab_step s s'"
| step_commit: "commit_step h s = (rb, s') \<Longrightarrow> slab_step s s'"
| step_erase_level: "slab_step s (s\<lparr>s_erase := l\<rparr>)"
| step_erase_override: "slab_step s (s\<lparr>s_erase_now := lo\<rparr>)"

lemmas ops_good = write_slot_good publish_ready_good ready_entries_good publish_unlocked_good
  sync_finish_good sync_good free_good inc_ref_good inc_ref_batch_good dec_ref_good raise_ref_good
  reassign_slot_good take_erasing_good finish_erase_good grow_good set_partner_good
  set_moved_to_good commit_ahead_good

lemma slab_step_good: "slab_step s s' \<Longrightarrow> good s \<Longrightarrow> good s'"
proof (induction rule: slab_step.induct)
  case (step_allocate vol vext gen s r s')
  then show ?case using allocate_gen_good by blast
next
  case (step_deferred vol vext gen s r s')
  then show ?case using allocate_deferred_good by blast
next
  case (step_sync_flush s rw s')
  then show ?case using flush_freeing_good by (simp add: sync_flush_def)
next
  case (step_free_planned pre s xs rn s')
  then show ?case by (metis free_planned_good snd_conv)
next
  case (step_dec_ref_batch po s xs rd s')
  then show ?case by (metis dec_ref_batch_good snd_conv)
next
  case (step_confirm s i)
  then show ?case using confirm_good by blast
next
  case (step_return_erase s i)
  then show ?case using return_erase_good by blast
next
  case (step_commit h s rb s')
  then show ?case using commit_step_good by blast
qed ((rule ops_good [THEN conjunct1], assumption, assumption, assumption?) | simp)+

lemma slab_steps_good: "slab_step\<^sup>*\<^sup>* s s' \<Longrightarrow> good s \<Longrightarrow> good s'"
  by (induction rule: rtranclp_induct) (auto intro: slab_step_good)

section \<open>A slab to try the properties on\<close>

text \<open>Two slots of 4096 bytes, the first owned by volume 7 and published, the second free.\<close>

definition demo_header :: slab_header where
  "demo_header = \<lparr>h_slab_uuid = 1, h_device_uuid = 2, h_slot_size = 4096, h_total_slots = 2, h_free_slots = 1,
     h_data_offset = 8192, h_table_offset = 4096, h_create_time = 0, h_update_time = 0, h_tier = Hot, h_flags = 0,
     h_role = System, h_meta_offset = 0, h_meta_size = 0, h_table_capacity = 2, h_table_room = 2, h_span = 2,
     h_partner = uuid_nil, h_moved_to = uuid_nil, h_checksum = 0, h_version = 2\<rparr>"

abbreviation demo_slot :: slot where
  "demo_slot \<equiv> \<lparr>sl_state = Allocated, sl_volume = 7, sl_vext = 0, sl_refs = 1, sl_gen = 1\<rparr>"

definition demo_dev :: dev where
  "demo_dev = \<lparr>dv_media = \<lparr>im_header = demo_header, im_entries = (\<lambda>_. slot_free)(0 := demo_slot), im_data = (\<lambda>_. 0)\<rparr>,
     dv_log = [], dv_capacity = 16384, dv_block = 512, dv_flush_faults = [], dv_read_faults = [],
     dv_write_faults = [], dv_discards = []\<rparr>"

definition demo :: slab where
  "demo = \<lparr>s_header = demo_header, s_free = fm_set (fm_new 2 True) 0 False, s_free_count = 1, s_cap = 2, s_span = 2,
     s_room = 2, s_step = 64, s_ahead = False, s_pend = pending_default, s_erase = EraseNone, s_erase_now = None,
     s_retired = 0, s_epoch = 0, s_asked = 0, s_done = 0, s_now = 0, s_dev = demo_dev\<rparr>"

lemma demo_good: "good demo"
proof -
  have "Suc 1 = fm_count_free (fm_new 2 True)"
    by (simp add: fm_count_free_card fm_is_free_new)
  also have "\<dots> = Suc (fm_count_free (fm_set (fm_new 2 True) 0 False))"
    by (rule fm.num_free_take) (simp_all add: fm_is_free_new)
  finally have c: "fm_count_free (fm_set (fm_new 2 True) 0 False) = 1" by simp
  have v: "dv_view demo_dev = dv_media demo_dev" by (simp add: dv_view_def demo_dev_def)
  have "sv_ok (sv demo i)" for i
    by (simp add: sv_ok_def v_idle_def v_now_def demo_def pending_default_def fm_is_free_set fm_is_free_new v cut_all_def)
       (simp add: demo_dev_def)
  then have "slab_inv demo"
    by (intro slab_invI) (simp_all add: demo_def pending_default_def committed_def c dev_quiet_def demo_dev_def)
  then show ?thesis by (simp add: good_def settled_iff demo_def pending_default_def)
qed

lemma demo_own: "own demo = Map.empty(0 \<mapsto> demo_slot)"
  by (auto simp: own_def v_owned_def v_now_def demo_def pending_default_def fm_is_free_set fm_is_free_new fun_eq_iff
      dv_view_def demo_dev_def)

section \<open>The properties\<close>



lemma of_bool_partition:
  assumes "sv_ok v" and "v_in v"
  shows "of_bool (v_free v) + of_bool (v_freeing v) + of_bool (v_released v) + of_bool (v_erasing v) +
     of_bool (v_erasing_now v) + of_bool (v_owned v) = (1::nat)"
  using assms by (auto simp: sv_ok_def v_owned_def split: if_splits)

lemma card_below:
  assumes "\<And>i. P i \<Longrightarrow> i < n"
  shows "card ({..<n} \<inter> {i. P i}) = card {i. P i}"
proof -
  have "{..<n} \<inter> {i. P i} = {i. P i}" using assms by auto
  then show ?thesis by simp
qed

text \<open>
  C10. The slots are accounted for. Free slots (those the free map has, those whose free is on
  its way, those not yet committed), owned slots and slots being erased are all the slots the
  device holds, none counted twice; so \<open>allocated_slots\<close> is exactly the owned and the erasing.
\<close>

theorem slots_accounted:
  assumes "slab_inv s"
  shows "free_slots s + card (dom (own s)) + erasing_slots s = s_span s \<and>
     allocated_slots s = card (dom (own s)) + erasing_slots s"
proof -
  note d = slab_invD [OF assms]
  let ?n = "fm_len (s_free s)" and ?p = "s_pend s"
  have inn: "v_freeing (sv s i) \<Longrightarrow> v_in (sv s i)" "v_released (sv s i) \<Longrightarrow> v_in (sv s i)" "v_free (sv s i) \<Longrightarrow> v_in (sv s i)"
    "v_erasing (sv s i) \<Longrightarrow> v_in (sv s i)" "v_erasing_now (sv s i) \<Longrightarrow> v_in (sv s i)" "v_owned (sv s i) \<Longrightarrow> v_in (sv s i)" for i
    using d(8) [of i] by (auto simp: sv_ok_def v_owned_def simp del: sv_fields split: if_splits)
  have in_n: "v_in (sv s i) \<longleftrightarrow> i < ?n" for i by simp
  have "?n = (\<Sum>i<?n. of_bool (v_free (sv s i)) + of_bool (v_freeing (sv s i)) + of_bool (v_released (sv s i)) +
      of_bool (v_erasing (sv s i)) + of_bool (v_erasing_now (sv s i)) + of_bool (v_owned (sv s i)))"
    using of_bool_partition [OF d(8)] by (simp del: sv_fields add: in_n)
  also have "\<dots> = card {i. v_free (sv s i)} + card {i. v_freeing (sv s i)} + card {i. v_released (sv s i)} +
      card {i. v_erasing (sv s i)} + card {i. v_erasing_now (sv s i)} + card {i. v_owned (sv s i)}"
    using inn in_n by (simp add: sum.distrib card_below [where n = ?n] del: sv_fields)
  also have "card {i. v_free (sv s i)} = s_free_count s" using d(1,2) by (simp add: fm_count_free_card)
  also have "card {i. v_freeing (sv s i)} = length (p_freeing ?p)" using d(4) by (simp add: distinct_card)
  also have "card {i. v_released (sv s i)} = length (p_released ?p)" using d(4) by (simp add: distinct_card)
  also have "card {i. v_erasing (sv s i)} = length (p_erasing ?p)" using al_card [OF d(5)] by (simp add: dom_def)
  also have "card {i. v_erasing_now (sv s i)} = length (p_erasing_now ?p)" using al_card [OF d(6)] by (simp add: dom_def)
  also have "{i. v_owned (sv s i)} = dom (own s)" by (auto simp: own_def dom_def split: if_splits)
  finally show ?thesis
    using d(3) by (simp add: free_slots_def allocated_slots_def erasing_slots_def committed_def Let_def)
qed

theorem slots_accounted_witness:
  "free_slots demo + card (dom (own demo)) + erasing_slots demo = s_span demo \<and>
   allocated_slots demo = card (dom (own demo)) + erasing_slots demo"
  by (rule slots_accounted) (rule goodD(1) [OF demo_good])

text \<open>
  C11. An allocation hands out a slot nobody has: it was owned by no extent before, the slots
  owned after are those owned before and this one, with the entry asked for, and until a sync
  publishes it the slot is free in every image a power cut can leave, so recovery cannot map
  the extent to bytes that are not there (\<open>allocate_deferred\<close>).
\<close>

theorem allocate_deferred_safe:
  assumes "slab_inv s" and "settled s" and "allocate_deferred vol vext gen s = (Inr i, s')"
  shows "own s i = None \<and>
     own s' = (own s)(i \<mapsto> \<lparr>sl_state = Allocated, sl_volume = vol, sl_vext = vext, sl_refs = 1, sl_gen = gen\<rparr>) \<and>
     i \<in> p_unpublished (s_pend s') \<and> (\<forall>im\<in>set (cut_images (s_dev s')). sl_state (im_entries im i) = Free)"
proof -
  have g: "good s" using assms(1,2) by (simp add: good_def)
  have a: "good s'" "own s i = None" "own s' = (own s)(i \<mapsto> new_slot vol vext gen)" "i \<in> p_unpublished (s_pend s')"
    using allocate_deferred_good [OF g assms(3)] by simp_all
  then have "v_cutfree (sv s' i)"
    using sv_ok_unpub [of "sv s' i"] slab_inv_sv [OF goodD(1) [OF a(1)], of i] by (simp add: sv_owned_ok)
  then show ?thesis using a by (simp add: cut_all_def)
qed

lemma demo_first_free: "fm_first_free (s_free demo) = Some 1"
proof -
  have inv: "fm_inv (s_free demo)" by (simp add: demo_def)
  have f: "fm_is_free (s_free demo) j \<longleftrightarrow> j = 1" for j
    by (auto simp: demo_def fm_is_free_set fm_is_free_new)
  show ?thesis
  proof (cases "fm_first_free (s_free demo)")
    case None
    then show ?thesis using fm.first_free_None [OF inv None, of 1] f by simp
  next
    case (Some i)
    then show ?thesis using fm.first_free_Some [OF inv Some] f by simp
  qed
qed

lemma demo_absorbed: "absorb_released (take_committed demo) = demo"
  by (simp add: absorb_released_def take_committed_def demo_def committed_def pending_default_def pend_do_def Let_def)

lemma demo_allocate: "\<exists>s'. allocate_deferred 9 3 1 demo = (Inr 1, s') \<and> s_dev s' = demo_dev \<and> committed s' = 2"
proof -
  have c: "s_free_count demo = 1" by (simp add: demo_def)
  show ?thesis
    by (simp add: allocate_deferred_def take_slot_or_flush_eq demo_absorbed room_by_flush_def room_by_commit_def
        take_slot_def c demo_first_free pend_do_def committed_def)
      (simp add: demo_def)
qed

theorem allocate_deferred_safe_witness:
  "\<exists>s'. allocate_deferred 9 3 1 demo = (Inr 1, s') \<and> own demo 1 = None \<and> 1 \<in> p_unpublished (s_pend s')"
proof -
  obtain s' where "allocate_deferred 9 3 1 demo = (Inr 1, s')" using demo_allocate by blast
  with allocate_deferred_safe [OF goodD(1) [OF demo_good] goodD(2) [OF demo_good] this] show ?thesis by blast
qed

text \<open>The device as it is after a power cut that left \<open>im\<close>.\<close>

definition after_cut :: "dev \<Rightarrow> image \<Rightarrow> dev" where
  "after_cut d im = d\<lparr>dv_media := im, dv_log := []\<rparr>"



section \<open>What a sync makes durable\<close>

definition published :: "slab \<Rightarrow> slab" where
  "published s = (let R = p_ready (s_pend s) in
     if R = {} then s else written (remdups (sort (sorted_list_of_set R))) (take_ready R s))"

lemma publish_quiet:
  assumes "slab_inv s"
  shows "publish_ready s = (Inr (p_ready (s_pend s) \<noteq> {}), published s)"
proof -
  have "dev_quiet (s_dev (take_ready R s))" for R
    using slab_invD(7) [OF assms] by (simp add: take_ready_def pend_do_def)
  then show ?thesis
    using finite_ready [OF assms] by (simp add: publish_ready_eq [OF assms] published_def Let_def persist_quiet)
qed

lemma published_dev:
  assumes "slab_inv s"
  shows "\<exists>is. s_dev (published s) = (s_dev s)\<lparr>dv_log := dv_log (s_dev s) @ map (\<lambda>i. WEntry i (v_now (sv s i))) is\<rparr> \<and>
     set is = p_ready (s_pend s)"
proof (cases "p_ready (s_pend s) = {}")
  case True
  then show ?thesis by (intro exI [of _ "[]"]) (simp add: published_def)
next
  case False
  let ?R = "p_ready (s_pend s)" and ?is = "remdups (sort (sorted_list_of_set (p_ready (s_pend s))))"
  have fin: "finite ?R" by (rule finite_ready [OF assms])
  have "entry_of (take_ready ?R s) i = v_now (sv s i)" if "i \<in> ?R" for i
    using that by (simp add: entry_of_def sv_take_ready)
  then have "map (\<lambda>i. WEntry i (entry_of (take_ready ?R s) i)) ?is = map (\<lambda>i. WEntry i (v_now (sv s i))) ?is"
    using fin by simp
  then show ?thesis
    using False fin by (intro exI [of _ ?is]) (simp add: published_def written_def pend_do_def take_ready_def Let_def)
qed

lemma published_pend:
  assumes "slab_inv s"
  shows "p_ready (s_pend (published s)) = {}" "p_freeing (s_pend (published s)) = p_freeing (s_pend s)"
    "p_unpublished (s_pend (published s)) = p_unpublished (s_pend s) - p_ready (s_pend s)"
  by (simp_all add: published_def Let_def written_def pend_do_def take_ready_def)

lemma wentries_data: "im_data (apply_writes (map (\<lambda>i. WEntry i (f i)) is) im) = im_data im"
  by (rule apply_writes_data) auto

text \<open>
  C12. The order of a sync. Once its first flush has succeeded, and while it writes the table
  entries of the confirmed slots and until its second flush, no power cut loses data written
  before the sync began: in every image that can be left, the data region is what it was when
  the sync started. So an entry that survives such a cut maps an extent whose bytes survived
  too (rule 1 of the write ordering, for what was written before the sync).
\<close>

theorem publish_after_data:
  assumes "slab_inv s" and "settled s" and "sync_flush s = (Inr (), s1)" and "publish_ready s1 = (r, s2)"
    and "im \<in> set (cut_images (s_dev s2))"
  shows "im_data im = im_data (dv_view (s_dev s))"
proof -
  have g: "good s" using assms(1,2) by (simp add: good_def)
  have g1: "good s1" using flush_freeing_good [OF g] assms(3) by (simp add: sync_flush_def)
  obtain r0 s0 where f: "dev_do dev_flush s = (r0, s0)" by (cases "dev_do dev_flush s")
  have r0: "r0 = Inr ()" and s1: "s1 = released_now s0"
    using assms(3) f by (cases r0; auto simp: sync_flush_def flush_freeing_eq)+
  have d0: "dv_log (s_dev s0) = []" "dv_media (s_dev s0) = dv_view (s_dev s)"
    using f r0 by (cases rule: dev_flush_cases [of "s_dev s"]; auto simp: dev_do_def)+
  have d1: "s_dev s1 = s_dev s0" by (simp add: s1 released_now_def pend_do_def)
  obtain "is" where "s_dev s2 = (s_dev s1)\<lparr>dv_log := dv_log (s_dev s1) @ map (\<lambda>i. WEntry i (v_now (sv s1 i))) is\<rparr>"
    using published_dev [OF goodD(1) [OF g1]] publish_quiet [OF goodD(1) [OF g1]] assms(4) by auto
  then have d2: "dv_log (s_dev s2) = map (\<lambda>i. WEntry i (v_now (sv s1 i))) is" "dv_media (s_dev s2) = dv_view (s_dev s)"
    using d0 d1 by simp_all
  from assms(5) obtain ws where ws: "subseq ws (dv_log (s_dev s2))" "im = apply_writes ws (dv_media (s_dev s2))"
    by (auto simp: cut_images_iff)
  have "\<forall>w\<in>set ws. \<not> (\<exists>x b. w = WData x b)" using subseq_set [OF ws(1)] d2(1) by auto
  then show ?thesis using ws(2) d2(2) by (simp add: apply_writes_data)
qed

theorem publish_after_data_witness:
  "\<exists>s1 r s2. sync_flush demo = (Inr (), s1) \<and> publish_ready s1 = (r, s2) \<and>
     (\<forall>im\<in>set (cut_images (s_dev s2)). im_data im = im_data (dv_view (s_dev demo)))"
proof -
  obtain s1 where f: "sync_flush demo = (Inr (), s1)"
    by (auto simp: sync_flush_def flush_freeing_eq dev_do_def dev_flush_def faulted_def demo_def demo_dev_def)
  obtain r s2 where p: "publish_ready s1 = (r, s2)" by (cases "publish_ready s1")
  from publish_after_data [OF goodD(1) [OF demo_good] goodD(2) [OF demo_good] f p] f p show ?thesis by blast
qed



section \<open>Where the order of a sync is not kept\<close>

text \<open>
  C19. A sync takes the confirmed slots only after its first flush (\<open>SlabSyncHandle::run\<close>, then
  \<open>publish_ready\<close> or \<open>ready_entries\<close>), and a writer may write its slot and confirm it in
  between: nothing it holds keeps the sync out. The sync then writes that slot's entry with
  the slot's data not flushed, and a power cut before the second flush can keep the entry and
  lose the data: an image is left in which the slot is owned and its bytes are what they were
  before the write. The rule the code states is that an entry reaches the device only after
  its data is durable.
\<close>

theorem confirm_during_sync_unordered:
  assumes "slab_inv s" and "settled s" and "dv_log (s_dev s) = []" and "i \<in> p_unpublished (s_pend s)"
    and "write_slot i off buf s = (Inr (), s1)" and "publish_ready (confirm i s1) = (r, s2)"
  shows "\<exists>im\<in>set (cut_images (s_dev s2)). is_owned (sl_state (im_entries im i)) \<and>
     im_data im = im_data (dv_view (s_dev s))"
proof -
  have g: "good s" using assms(1,2) by (simp add: good_def)
  note w = write_slot_good [OF g assms(5)]
  let ?s = "confirm i s1"
  have g1: "slab_inv ?s" using confirm_good [of s1 i] w by (simp add: good_def)
  obtain a where s1: "s1 = s\<lparr>s_dev := (s_dev s)\<lparr>dv_log := [WData a buf]\<rparr>\<rparr>"
    using assms(3,5) slab_invD(7) [OF assms(1)]
    by (auto simp: write_slot_def in_range_def dev_do_def quiet_write split: if_splits)
  have u: "i \<in> p_ready (s_pend ?s)" "s_dev ?s = (s_dev s)\<lparr>dv_log := [WData a buf]\<rparr>"
    using assms(4) by (simp_all add: confirm_def pend_do_def s1)
  obtain "is" where d2: "s_dev s2 = (s_dev ?s)\<lparr>dv_log := dv_log (s_dev ?s) @ map (\<lambda>i. WEntry i (v_now (sv ?s i))) is\<rparr>"
    and "is": "set is = p_ready (s_pend ?s)"
    using published_dev [OF g1] publish_quiet [OF g1] assms(6) by auto
  let ?es = "map (\<lambda>i. WEntry i (v_now (sv ?s i))) is"
  let ?im = "apply_writes ?es (dv_media (s_dev s))"
  have "?im \<in> set (cut_images (s_dev s2))"
    unfolding cut_images_iff by (intro exI [of _ ?es]) (simp add: d2 u(2) subseq_Cons')
  moreover have "v_owned (sv ?s i)" using sv_ok_unpub [OF slab_inv_sv [OF g1], of i] u(1) by simp
  then have "is_owned (sl_state (v_now (sv ?s i)))" using slab_inv_sv [OF g1, of i] by (simp add: sv_owned_ok)
  ultimately show ?thesis
    using "is" u(1) assms(3) by (intro bexI [of _ ?im]) (simp_all add: view_wentries wentries_data dv_view_def)
qed

theorem confirm_during_sync_unordered_witness:
  "\<exists>s s1 r s2. allocate_deferred 9 3 1 demo = (Inr 1, s) \<and> write_slot 1 0 [5] s = (Inr (), s1) \<and>
     publish_ready (confirm 1 s1) = (r, s2) \<and>
     (\<exists>im\<in>set (cut_images (s_dev s2)). is_owned (sl_state (im_entries im 1)) \<and> im_data im = im_data (dv_view (s_dev s)))"
proof -
  obtain s where a: "allocate_deferred 9 3 1 demo = (Inr 1, s)" "s_dev s = demo_dev" "committed s = 2"
    using demo_allocate by blast
  have g: "good s" "1 \<in> p_unpublished (s_pend s)" using allocate_deferred_good [OF demo_good a(1)] by simp_all
  obtain s1 where w: "write_slot 1 0 [5] s = (Inr (), s1)"
    using quiet_write [OF slab_invD(7) [OF goodD(1) [OF g(1)]]] a(3)
    by (simp add: write_slot_def in_range_def dev_do_def)
  obtain r s2 where p: "publish_ready (confirm 1 s1) = (r, s2)" by (cases "publish_ready (confirm 1 s1)")
  have l: "dv_log (s_dev s) = []" by (simp add: a(2) demo_dev_def)
  from confirm_during_sync_unordered [OF goodD(1) [OF g(1)] goodD(2) [OF g(1)] l g(2) w p] a(1) w p
  show ?thesis by blast
qed

section \<open>A free whose table write failed\<close>

lemma dev_one_fault:
  assumes "dev_quiet d" and "dv_log d = []" and "dv_flush_faults d = []"
  shows "dev_flush d = (Inr (), d)"
    and "dev_write ws (d\<lparr>dv_write_faults := [Some 0]\<rparr>) = (Inl IoError, d)"
    and "dev_read_entry i (d\<lparr>dv_write_faults := x\<rparr>) = (Inr (im_entries (dv_view d) i), d\<lparr>dv_write_faults := x\<rparr>)"
  using assms by (cases d, simp add: dev_flush_def dev_write_def dev_read_entry_def faulted_def dv_view_def dev_quiet_def)+

text \<open>
  C20. \<open>free\<close> retires the slot in memory before it writes the free entry. When that write
  fails the error is returned, and the slot stays among those whose free is on its way: the
  next sync flushes, finds the free in its list and releases the slot for reuse, although no
  free entry was ever written. Every image a power cut can leave then says the slot is the old
  owner's, while the free map hands it to the next tenant. The rule the code states is that a
  slot is not reused until its free entry is durable.
\<close>

theorem failed_free_is_reused:
  assumes "slab_inv s" and "settled s" and "own s i = Some sl" and "i \<notin> p_unpublished (s_pend s)"
    and "p_ready (s_pend s) = {}" and "p_entries (s_pend s) = []" and "dv_log (s_dev s) = []"
    and "erase_level_now s = EraseNone" and "dv_flush_faults (s_dev s) = []" and "s_done s \<le> s_asked s"
  shows "\<exists>s1 s2. free i (s\<lparr>s_dev := (s_dev s)\<lparr>dv_write_faults := [Some 0]\<rparr>\<rparr>) = (Inl IoError, s1) \<and>
     sync s1 = (Inr (), s2) \<and> fm_is_free (s_free (absorb_released s2)) i \<and>
     (\<forall>im\<in>set (cut_images (s_dev s2)). im_entries im i = sl \<and> is_owned (sl_state (im_entries im i)))"
proof -
  note od = own_SomeD [OF assms(1,3)] and d = slab_invD [OF assms(1)]
  note dv = dev_one_fault [OF d(7) assms(7,9)]
  let ?s0 = "s\<lparr>s_dev := (s_dev s)\<lparr>dv_write_faults := [Some 0]\<rparr>\<rparr>"
  define p1 where "p1 = (s_pend s)\<lparr>p_entries := al_put i slot_free [], p_freeing := p_freeing (s_pend s) @ [i]\<rparr>"
  define s1 where "s1 = s\<lparr>s_pend := p1, s_epoch := s_epoch s + 2\<rparr>"
  define s2 where "s2 = s1\<lparr>s_asked := s_asked s + 1, s_done := max (s_done s) (s_asked s + 1),
      s_pend := p1\<lparr>p_freeing := [], p_released := p_released (s_pend s) @ p_freeing p1\<rparr>\<rparr>"
  have view: "im_entries (dv_view (s_dev s)) i = sl" using od(2) assms(6) by (simp add: v_now_def)
  have rd: "slot_now i ?s0 = (Inr sl, ?s0)"
    using assms(6) view by (simp add: slot_now_def dev_do_def dv(3))
  have p1': "(s_pend s)\<lparr>p_ready := {}, p_entries := al_put i slot_free [], p_freeing := p_freeing (s_pend s) @ [i]\<rparr> = p1"
    using assms(5) by (simp add: p1_def)
  have el: "erase_level_now ?s0 = erase_level_now s" by (simp add: erase_level_now_def split: option.split)
  have rt: "retire i ?s0 = (Inr True, ?s0\<lparr>s_pend := p1\<rparr>)"
    using assms(4,5,6,8) p1' el by (simp add: retire_def Let_def pend_do_def)
  have ps: "persist_slot i (?s0\<lparr>s_pend := p1\<rparr>) = (Inl IoError, s1)"
    using assms(4)
    by (simp add: persist_slots_def entry_bytes_def slot_now_def p1_def table_write_def dev_do_def dv(2) s1_def)
  have c0: "committed ?s0 = committed s" by (simp add: committed_def)
  have fr: "free i ?s0 = (Inl IoError, s1)"
    using od(3,4) c0 by (simp add: free_def in_range_def rd rt ps)
  have sy: "sync s1 = (Inr (), s2)"
    using assms(5,10)
    by (simp add: sync_def sync_run_def sync_flush_def flush_freeing_eq dev_do_def s1_def dv(1) released_now_def pend_do_def
        publish_ready_def sync_finish_def s2_def p1_def Let_def)
  have rng: "\<forall>j\<in>set (p_released (s_pend s) @ p_freeing p1). j < fm_len (s_free s)"
    using od(1) freeing_in [OF assms(1)] released_in [OF assms(1)] by (auto simp: p1_def v_owned_def)
  have "fm_is_free (s_free (absorb_released s2)) i"
    unfolding absorb_released_def Let_def
    by (rule fold_absorb_free) (use rng d(1,2) in \<open>simp_all add: s2_def s1_def pend_do_def p1_def\<close>)
  moreover have "\<forall>im\<in>set (cut_images (s_dev s2)). im_entries im i = sl"
    using view assms(7) by (simp add: s2_def s1_def dv_view_def)
  ultimately show ?thesis using fr sy od(4) by (intro exI [of _ s1] exI [of _ s2]) simp
qed

theorem failed_free_is_reused_witness:
  "\<exists>s1 s2. free 0 (demo\<lparr>s_dev := (s_dev demo)\<lparr>dv_write_faults := [Some 0]\<rparr>\<rparr>) = (Inl IoError, s1) \<and>
     sync s1 = (Inr (), s2) \<and> fm_is_free (s_free (absorb_released s2)) 0 \<and>
     (\<forall>im\<in>set (cut_images (s_dev s2)). im_entries im 0 = demo_slot)"
proof -
  have "erase_level_now demo = EraseNone" by (simp add: erase_level_now_def demo_def)
  with failed_free_is_reused [OF goodD(1) [OF demo_good] goodD(2) [OF demo_good], of 0 demo_slot] show ?thesis
    by (simp add: demo_own) (auto simp: demo_def demo_dev_def pending_default_def)
qed

section \<open>A header written from a stale copy\<close>

lemma header_write_ok:
  assumes "and_then (dev_do (dev_write [WHeader h]) s) (\<lambda>_ s. and_then (dev_do dev_flush s) (\<lambda>_ s. (Inr x, k s))) = (Inr y, s')"
  obtains t where "s' = k t" and "dv_log (s_dev t) = []" and "im_header (dv_media (s_dev t)) = h" and "s_header t = s_header s"
proof -
  obtain r1 s1 where w: "dev_do (dev_write [WHeader h]) s = (r1, s1)" by (cases "dev_do (dev_write [WHeader h]) s")
  obtain r2 s2 where f: "dev_do dev_flush s1 = (r2, s2)" by (cases "dev_do dev_flush s1")
  have r: "r1 = Inr ()" "r2 = Inr ()" "s' = k s2"
    using assms w f by (cases r1; cases r2; auto)+
  have l: "dv_log (s_dev s1) = dv_log (s_dev s) @ [WHeader h]"
    using w r(1) by (cases rule: dev_write_cases [of "[WHeader h]" "s_dev s"]) (auto simp: dev_do_def)
  have "dv_log (s_dev s2) = [] \<and> dv_media (s_dev s2) = dv_view (s_dev s1)"
    using f r(2) by (cases rule: dev_flush_cases [of "s_dev s1"]) (auto simp: dev_do_def)
  moreover have "im_header (dv_view (s_dev s1)) = h" using l by (simp add: dv_view_def)
  ultimately show thesis using that [of s2] r(3) dev_do_rest(8) [OF w] dev_do_rest(8) [OF f] by simp
qed

lemma commit_step_last:
  assumes "\<not> s_cap s \<ge> min (s_span s) (s_room s)" and "commit_step h s = (Inr b, s')"
  obtains sa sb hc where "dev_do dev_flush sa = (Inr (), sb)" and "s_header sb = s_header s" and "h_partner hc = h_partner h"
    and "and_then (dev_do (dev_write [WHeader hc]) sb) (\<lambda>_ s1. and_then (dev_do dev_flush s1)
       (\<lambda>_ s2. (Inr True, s2\<lparr>s_cap := step_target s\<rparr>))) = (Inr b, s')"
proof -
  let ?ws = "zero_chunks (s_cap s) (step_len s)"
  obtain r1 sa where w: "dev_do (dev_write ?ws) s = (r1, sa)" by (cases "dev_do (dev_write ?ws) s")
  obtain r2 sb where f: "dev_do dev_flush sa = (r2, sb)" by (cases "dev_do dev_flush sa")
  have r: "r1 = Inr ()" "r2 = Inr ()" using assms w f by (cases r1; cases r2; auto simp: commit_step_eq)+
  show thesis
    by (rule that [of sa sb "h\<lparr>h_table_capacity := of_nat (step_target s), h_span := of_nat (s_span s),
                     h_total_slots := of_nat (min (s_span s) (step_target s)), h_update_time := s_now sb\<rparr>"])
       (use assms w f r dev_do_rest(8) [OF w] dev_do_rest(8) [OF f] in \<open>simp_all add: commit_step_eq\<close>)
qed

text \<open>
  The step that commits more of the table ahead of need takes a copy of the header under
  the registry (\<open>commit_ahead\<close>) and writes it back later, with only the table fields brought
  up to date (\<open>commit_step\<close>). A partner recorded in between, durably, is overwritten: the
  header on the device names the partner there was when the copy was taken, although memory
  says the new one. The lock the step takes orders the two writes and does not keep the copy
  from being stale.
\<close>

theorem stale_header_drops_partner:
  assumes "dev_quiet (s_dev s)" and "commit_ahead s = (Some h, s1)" and "set_partner (Some u) s1 = (Inr (), s2)"
    and "commit_step h s2 = (Inr True, s3)"
  shows "h_partner (im_header (dv_view (s_dev s2))) = u \<and> h_partner (s_header s3) = u \<and>
     (\<forall>im\<in>set (cut_images (s_dev s3)). h_partner (im_header im) = h_partner (s_header s))"
proof -
  have h: "h = header_now s" and s1: "s1 = s\<lparr>s_ahead := True\<rparr>"
    using assms(2) by (auto simp: commit_ahead_def Let_def split: if_splits)
  let ?h2 = "(header_now s1)\<lparr>h_partner := u\<rparr>"
  have "and_then (dev_do (dev_write [WHeader ?h2]) s1) (\<lambda>_ s. and_then (dev_do dev_flush s) (\<lambda>_ s. (Inr (), s\<lparr>s_header := ?h2\<rparr>))) = (Inr (), s2)"
    using assms(3) by (simp add: set_partner_def Let_def split: if_splits)
  then obtain t where t: "s2 = t\<lparr>s_header := ?h2\<rparr>" "dv_log (s_dev t) = []" "im_header (dv_media (s_dev t)) = ?h2"
    by (rule header_write_ok) blast
  have "\<not> s_cap s2 \<ge> min (s_span s2) (s_room s2)" using assms(4) by (simp add: commit_step_eq split: if_splits)
  then obtain sa sb hc where c: "dev_do dev_flush sa = (Inr (), sb)" "s_header sb = s_header s2" "h_partner hc = h_partner h"
    "and_then (dev_do (dev_write [WHeader hc]) sb) (\<lambda>_ s. and_then (dev_do dev_flush s)
       (\<lambda>_ s. (Inr True, s\<lparr>s_cap := step_target s2\<rparr>))) = (Inr True, s3)"
    using assms(4) by (rule commit_step_last)
  from c(4) obtain t' where t': "s3 = t'\<lparr>s_cap := step_target s2\<rparr>" "dv_log (s_dev t') = []"
    "im_header (dv_media (s_dev t')) = hc" "s_header t' = s_header sb"
    by (rule header_write_ok) blast
  show ?thesis
    using t t' c(2,3) by (simp add: h dv_view_def header_now_def)
qed

lemma quiet_flush_ok:
  "dev_quiet d \<Longrightarrow> dv_flush_faults d = [] \<Longrightarrow> dev_flush d = (Inr (), d\<lparr>dv_media := dv_view d, dv_log := []\<rparr>)"
  by (cases d) (simp add: dev_flush_def faulted_def)

lemma dev_quiet_media: "dev_quiet (d\<lparr>dv_media := m\<rparr>) = dev_quiet d"
  by (simp add: dev_quiet_def)

theorem stale_header_drops_partner_witness:
  "\<exists>h s1 s2 s3. commit_ahead (demo\<lparr>s_span := 100, s_room := 128\<rparr>) = (Some h, s1) \<and>
     set_partner (Some 42) s1 = (Inr (), s2) \<and> commit_step h s2 = (Inr True, s3) \<and> h_partner (s_header s3) = 42 \<and>
     (\<forall>im\<in>set (cut_images (s_dev s3)). h_partner (im_header im) = uuid_nil)"
proof -
  let ?s = "demo\<lparr>s_span := 100, s_room := 128\<rparr>"
  have q: "dev_quiet (s_dev ?s)" "dv_flush_faults (s_dev ?s) = []" by (simp_all add: dev_quiet_def demo_def demo_dev_def)
  have c: "commit_ahead ?s = (Some (header_now ?s), ?s\<lparr>s_ahead := True\<rparr>)"
    by (simp add: commit_ahead_def commit_whole_def committed_def demo_def Let_def)
  have v: "h_version (s_header ?s) = 2" by (simp add: demo_def demo_header_def)
  obtain s2 where p: "set_partner (Some 42) (?s\<lparr>s_ahead := True\<rparr>) = (Inr (), s2)" "dev_quiet (s_dev s2)" "dv_flush_faults (s_dev s2) = []"
    "s_cap s2 = 2" "s_span s2 = 100" "s_room s2 = 128"
    using q v by (simp add: set_partner_def Let_def dev_do_def quiet_write quiet_flush_ok)
       (simp add: demo_def dev_quiet_def)
  obtain s3 where "commit_step (header_now ?s) s2 = (Inr True, s3)"
    using p(2-6) by (simp add: commit_step_eq dev_do_def quiet_write quiet_flush_ok dev_quiet_media)
  moreover have "h_partner (s_header ?s) = uuid_nil" by (simp add: demo_def demo_header_def)
  ultimately show ?thesis
    using stale_header_drops_partner [OF q(1) c p(1)] c p(1) by metis
qed

section \<open>Share counts\<close>

text \<open>
  Letting go of many shares at once. Each slot named loses exactly one share however often
  the batch names it; one that loses its last is freed; one that is not owned, out of range or
  without shares is left as it was; every request is answered as freed, kept or refused; and
  what is reported as freed is what left the owned slots. No read of the device is needed
  beyond what the preread holds.
\<close>

theorem dec_ref_batch_once_each:
  assumes "slab_inv s" and "settled s" and "pre_ok pre s"
  shows "\<exists>out s'. dec_ref_batch_with xs pre s = (Inr out, s') \<and> slab_inv s' \<and> settled s' \<and>
     own s' = (\<lambda>i. if i \<in> set xs then Option.bind (own s i) drop_share else own s i) \<and>
     o_freed out + card (dom (own s')) = card (dom (own s)) \<and>
     o_freed out + o_retained out + length (o_rejected out) = length xs"
proof -
  have g: "good s" using assms(1,2) by (simp add: good_def)
  obtain out s' where "dec_ref_batch_with xs pre s = (Inr out, s')" "good s'" "own s' = share_map (set xs) (own s)"
    "o_freed out + card (dom (own s')) = card (dom (own s))"
    "o_freed out + o_retained out + length (o_rejected out) = length xs"
    by (rule dec_ref_batch_good [OF g assms(3)])
  moreover have "share_map (set xs) (own s) = (\<lambda>i. if i \<in> set xs then Option.bind (own s i) drop_share else own s i)"
    by (simp add: fun_eq_iff share_map_def)
  ultimately show ?thesis by (auto simp: good_def)
qed

theorem dec_ref_batch_once_each_witness:
  "\<exists>out s'. dec_ref_batch_with [0, 0, 1, 5] None demo = (Inr out, s') \<and> own s' = Map.empty \<and>
     o_freed out + o_retained out + length (o_rejected out) = 4"
proof -
  have "pre_ok None demo" by (simp add: pre_ok_def)
  from dec_ref_batch_once_each [OF goodD(1) [OF demo_good] goodD(2) [OF demo_good] this, of "[0, 0, 1, 5]"]
  show ?thesis by (auto simp: demo_own drop_share_def fun_eq_iff)
qed

text \<open>
  C14. Taking many shares at once is all or nothing: if any slot named is not owned nothing
  changes and an error is returned; otherwise each slot gains as many shares as the batch names
  it, and nothing else changes. The counts wrap at 32 bits, as the code's do.
\<close>

theorem inc_ref_batch_all_or_nothing:
  assumes "slab_inv s" and "settled s" and "pre_ok pre s" and "inc_ref_batch_with xs pre s = (r, s')"
  shows "slab_inv s' \<and> settled s' \<and>
     (if \<forall>i\<in>set xs. own s i \<noteq> None
      then r = Inr () \<and> own s' = (\<lambda>i. map_option (\<lambda>sl. sl\<lparr>sl_refs := sl_refs sl + of_nat (count_list xs i)\<rparr>) (own s i))
      else (\<exists>e. r = Inl e) \<and> s' = s)"
  using inc_ref_batch_good [of s pre xs r s'] assms by (simp add: good_def)

theorem inc_ref_batch_all_or_nothing_witness:
  "\<exists>s'. inc_ref_batch_with [0, 0] None demo = (Inr (), s') \<and> own s' 0 = Some (demo_slot\<lparr>sl_refs := 3\<rparr>)"
proof -
  obtain r s' where f: "inc_ref_batch_with [0, 0] None demo = (r, s')" by (cases "inc_ref_batch_with [0, 0] None demo")
  have "pre_ok None demo" by (simp add: pre_ok_def)
  from inc_ref_batch_all_or_nothing [OF goodD(1) [OF demo_good] goodD(2) [OF demo_good] this f] f
  show ?thesis by (simp add: demo_own)
qed

end
