(* ===== verification/ExtentBitmap.thy ===== *)
theory ExtentBitmap
  imports Prelude
begin

text \<open>
  The extent allocator of a RAID array (\<open>src/volume/extent.rs\<close>): a bitmap with a count of
  free extents and a scan hint, contiguous allocation first and scattered allocation as a
  fallback, and the allocator over several arrays. The model is the release build: the
  \<open>debug_assert!\<close>s of \<open>free\<close> and \<open>mark_allocated\<close> are not part of it, an index past the
  bitmap panics (\<open>None\<close>). The main fact is total correctness of \<open>allocate\<close>: it succeeds
  exactly when as many extents are free as were asked for, hands out that many distinct
  free extents and clears exactly those.
\<close>

section \<open>The bitmap\<close>

record ebitmap =
  eb_bits :: "bool list"
  eb_total :: nat
  eb_free :: nat
  eb_hint :: nat

definition eb_new :: "nat \<Rightarrow> ebitmap" where
  "eb_new tot = \<lparr>eb_bits = replicate tot True, eb_total = tot, eb_free = tot, eb_hint = 0\<rparr>"

text \<open>The loop of \<open>find_contiguous\<close>: \<open>n\<close> positions are left to check.\<close>

fun eb_scan :: "bool list \<Rightarrow> nat \<Rightarrow> nat \<Rightarrow> nat \<Rightarrow> nat \<Rightarrow> nat \<Rightarrow> nat \<Rightarrow> nat option" where
  "eb_scan bits tot count 0 pos run_start run_len = None"
| "eb_scan bits tot count (Suc n) pos run_start run_len =
     (let idx = pos mod tot in
      if bits ! idx then
        (let rs = (if run_len = 0 then idx else run_start); rl = run_len + 1 in
         if rl \<ge> count \<and> rs + count \<le> tot then Some rs
         else eb_scan bits tot count n (pos + 1) rs rl)
      else eb_scan bits tot count n (pos + 1) run_start 0)"

definition eb_find_contiguous :: "ebitmap \<Rightarrow> nat \<Rightarrow> nat option" where
  "eb_find_contiguous b count =
     (if count > eb_total b then None
      else eb_scan (eb_bits b) (eb_total b) count (eb_total b) (eb_hint b) (eb_hint b) 0)"

text \<open>\<open>for i in start..start + count { bitmap.set(i, false) }\<close>\<close>

fun eb_clear_run :: "bool list \<Rightarrow> nat \<Rightarrow> nat \<Rightarrow> bool list" where
  "eb_clear_run bits start 0 = bits"
| "eb_clear_run bits start (Suc n) = eb_clear_run (bits[start := False]) (Suc start) n"

text \<open>
  The scattered loop: \<open>left\<close> extents are still wanted; the result is the bits as left behind
  with the indices taken and the position after the last, or no indices when it gave up.
\<close>

function eb_scatter ::
  "nat \<Rightarrow> nat \<Rightarrow> nat \<Rightarrow> bool \<Rightarrow> nat \<Rightarrow> bool list \<Rightarrow> nat list \<Rightarrow> bool list \<times> (nat list \<times> nat) option" where
  "eb_scatter tot start_pos left wrapped pos bits acc =
     (if left = 0 then (bits, Some (rev acc, pos))
      else if pos \<ge> tot \<and> wrapped then (bits, None)
      else let p = (if pos \<ge> tot then 0 else pos); w = (wrapped \<or> pos \<ge> tot) in
        if w \<and> p \<ge> start_pos then (bits, None)
        else if bits ! p then eb_scatter tot start_pos (left - 1) w (p + 1) (bits[p := False]) (p # acc)
        else eb_scatter tot start_pos left w (p + 1) bits acc)"
  by pat_completeness auto
termination
  by (relation "measure (\<lambda>(tot, start_pos, left, wrapped, pos, bits, acc).
        if wrapped then tot - pos else (tot - pos) + tot + 2)")
     (auto simp: Let_def split: if_splits)

declare eb_scatter.simps [simp del]

definition eb_wrap_hint :: "nat \<Rightarrow> nat \<Rightarrow> nat" where
  "eb_wrap_hint tot h = (if h \<ge> tot then 0 else h)"

definition eb_allocate :: "ebitmap \<Rightarrow> nat \<Rightarrow> ebitmap \<times> nat list option" where
  "eb_allocate b count =
     (if count = 0 \<or> count > eb_free b then (b, None)
      else case eb_find_contiguous b count of
        Some start \<Rightarrow>
          (b\<lparr>eb_bits := eb_clear_run (eb_bits b) start count,
             eb_free := eb_free b - count,
             eb_hint := eb_wrap_hint (eb_total b) (start + count)\<rparr>,
           Some [start..<start + count])
      | None \<Rightarrow>
          (case eb_scatter (eb_total b) (eb_hint b) count False (eb_hint b) (eb_bits b) [] of
             (bits, None) \<Rightarrow> (b\<lparr>eb_bits := bits\<rparr>, None)
           | (bits, Some (is, pos)) \<Rightarrow>
               (b\<lparr>eb_bits := bits, eb_free := eb_free b - count,
                  eb_hint := eb_wrap_hint (eb_total b) pos\<rparr>, Some is)))"

definition eb_free_at :: "ebitmap \<Rightarrow> nat \<Rightarrow> ebitmap option" where
  "eb_free_at b index =
     (if index < length (eb_bits b)
      then Some (b\<lparr>eb_bits := (eb_bits b)[index := True], eb_free := eb_free b + 1,
                   eb_hint := (if index < eb_hint b then index else eb_hint b)\<rparr>)
      else None)"

definition eb_mark_allocated :: "ebitmap \<Rightarrow> nat \<Rightarrow> ebitmap option" where
  "eb_mark_allocated b index =
     (if index < length (eb_bits b)
      then Some (if eb_bits b ! index
                 then b\<lparr>eb_bits := (eb_bits b)[index := False], eb_free := eb_free b - 1\<rparr> else b)
      else None)"

definition eb_allocated_count :: "ebitmap \<Rightarrow> nat" where
  "eb_allocated_count b = eb_total b - eb_free b"

section \<open>The allocator over several arrays\<close>

record extent =
  ex_array :: uuid
  ex_offset :: nat
  ex_length :: nat

record extent_allocator =
  ea_bitmaps :: "uuid \<rightharpoonup> ebitmap"
  ea_extent_size :: nat

definition ea_add_array :: "extent_allocator \<Rightarrow> uuid \<Rightarrow> nat \<Rightarrow> extent_allocator" where
  "ea_add_array a array_id capacity =
     a\<lparr>ea_bitmaps := (ea_bitmaps a)(array_id \<mapsto> eb_new (capacity div ea_extent_size a))\<rparr>"

definition ea_allocate ::
  "extent_allocator \<Rightarrow> uuid \<Rightarrow> nat \<Rightarrow> extent_allocator \<times> extent list option" where
  "ea_allocate a array_id count =
     (case ea_bitmaps a array_id of
        None \<Rightarrow> (a, None)
      | Some b \<Rightarrow>
          (let (b', r) = eb_allocate b count;
               a' = a\<lparr>ea_bitmaps := (ea_bitmaps a)(array_id \<mapsto> b')\<rparr>
           in (a', map_option (map (\<lambda>idx. \<lparr>ex_array = array_id, ex_offset = idx * ea_extent_size a,
                                            ex_length = ea_extent_size a\<rparr>)) r)))"

definition ea_free :: "extent_allocator \<Rightarrow> extent \<Rightarrow> extent_allocator option" where
  "ea_free a e =
     (case ea_bitmaps a (ex_array e) of
        None \<Rightarrow> Some a
      | Some b \<Rightarrow>
          map_option (\<lambda>b'. a\<lparr>ea_bitmaps := (ea_bitmaps a)(ex_array e \<mapsto> b')\<rparr>)
            (eb_free_at b (ex_offset e div ea_extent_size a)))"

definition ea_mark_allocated :: "extent_allocator \<Rightarrow> uuid \<Rightarrow> nat \<Rightarrow> extent_allocator option" where
  "ea_mark_allocated a array_id offset =
     (case ea_bitmaps a array_id of
        None \<Rightarrow> Some a
      | Some b \<Rightarrow>
          map_option (\<lambda>b'. a\<lparr>ea_bitmaps := (ea_bitmaps a)(array_id \<mapsto> b')\<rparr>)
            (eb_mark_allocated b (offset div ea_extent_size a)))"

section \<open>The invariant\<close>

definition eb_inv :: "ebitmap \<Rightarrow> bool" where
  "eb_inv b \<longleftrightarrow> length (eb_bits b) = eb_total b \<and> eb_free b = count_true (eb_bits b) \<and>
     (eb_hint b < eb_total b \<or> eb_hint b = 0)"

lemma eb_inv_new: "eb_inv (eb_new n)"
  by (simp add: eb_inv_def eb_new_def)

lemma eb_free_le_total: "eb_inv b \<Longrightarrow> eb_free b \<le> eb_total b"
  by (metis eb_inv_def count_true_le)

text \<open>Clearing a list of distinct set bits.\<close>

definition clear_all :: "nat list \<Rightarrow> bool list \<Rightarrow> bool list" where
  "clear_all is bits = fold (\<lambda>i b. b[i := False]) is bits"

lemma clear_all_simps [simp]:
  "clear_all [] bits = bits" "clear_all (i # is) bits = clear_all is (bits[i := False])"
  by (simp_all add: clear_all_def)

lemma clear_all_append: "clear_all (xs @ ys) bits = clear_all ys (clear_all xs bits)"
  by (simp add: clear_all_def)

lemma length_clear_all [simp]: "length (clear_all is bits) = length bits"
  by (induction "is" arbitrary: bits) auto

lemma nth_clear_all:
  "j < length bits \<Longrightarrow> clear_all is bits ! j = (bits ! j \<and> j \<notin> set is)"
proof (induction "is" arbitrary: bits)
  case Nil
  then show ?case by simp
next
  case (Cons i "is")
  then show ?case by (cases "i = j") (simp_all add: nth_list_update)
qed

lemma count_clear_all:
  assumes "distinct is" and "\<forall>i\<in>set is. i < length bits \<and> bits ! i"
  shows "count_true (clear_all is bits) + length is = count_true bits"
  using assms
proof (induction "is" arbitrary: bits)
  case Nil
  then show ?case by simp
next
  case (Cons i "is")
  have "count_true (clear_all is (bits[i := False])) + length is = count_true (bits[i := False])"
    using Cons.prems by (intro Cons.IH) (auto simp: nth_list_update)
  moreover have "Suc (count_true (bits[i := False])) = count_true bits"
    using Cons.prems by (intro count_list_update_False) auto
  ultimately show ?case by simp
qed

lemma eb_clear_run_all: "eb_clear_run bits start n = clear_all [start..<start + n] bits"
proof (induction n arbitrary: bits start)
  case 0
  then show ?case by simp
next
  case (Suc n)
  have "[start..<start + Suc n] = start # [Suc start..<Suc start + n]"
    by (simp add: upt_conv_Cons)
  then show ?case using Suc by simp
qed

section \<open>Contiguous allocation\<close>

text \<open>
  While the loop scans, the current run is free and ends just before \<open>pos\<close> (both modulo
  the size of the bitmap).
\<close>

lemma eb_scan_Some:
  assumes "eb_scan bits tot count n pos rs rl = Some start" and "0 < tot" and "0 < count"
    and "rl > 0 \<Longrightarrow> rs < tot \<and> (rs + rl) mod tot = pos mod tot \<and> (\<forall>k<rl. bits ! ((rs + k) mod tot))"
  shows "start + count \<le> tot \<and> (\<forall>k<count. bits ! (start + k))"
  using assms
proof (induction n arbitrary: pos rs rl)
  case 0
  then show ?case by simp
next
  case (Suc n)
  let ?idx = "pos mod tot"
  show ?case
  proof (cases "bits ! ?idx")
    case False
    then show ?thesis using Suc.prems by (intro Suc.IH [of "pos + 1" rs 0]) simp_all
  next
    case True
    define rs' where "rs' = (if rl = 0 then ?idx else rs)"
    have inv': "rs' < tot \<and> (rs' + (rl + 1)) mod tot = (pos + 1) mod tot \<and>
        (\<forall>k<rl + 1. bits ! ((rs' + k) mod tot))"
    proof (cases "rl = 0")
      case True
      then show ?thesis using \<open>bits ! ?idx\<close> Suc.prems(2) by (simp add: rs'_def mod_Suc_eq)
    next
      case False
      then have old: "rs < tot" "(rs + rl) mod tot = pos mod tot" "\<forall>k<rl. bits ! ((rs + k) mod tot)"
        using Suc.prems(4) by auto
      have "bits ! ((rs + rl) mod tot)" using \<open>bits ! ?idx\<close> old(2) by simp
      then have "\<forall>k<rl + 1. bits ! ((rs + k) mod tot)" using old(3) by (simp add: less_Suc_eq)
      moreover have "(rs + (rl + 1)) mod tot = (pos + 1) mod tot"
        using old(2) by (metis add.assoc mod_add_left_eq)
      ultimately show ?thesis using False old(1) by (simp add: rs'_def)
    qed
    show ?thesis
    proof (cases "rl + 1 \<ge> count \<and> rs' + count \<le> tot")
      case True
      then have "start = rs'" using Suc.prems(1) \<open>bits ! ?idx\<close> by (simp add: rs'_def Let_def split: if_splits)
      moreover have "bits ! (rs' + k)" if "k < count" for k
      proof -
        have "k < rl + 1" "rs' + k < tot" using True that by auto
        then show ?thesis using inv' by (metis mod_less)
      qed
      ultimately show ?thesis using True by simp
    next
      case False
      then have "eb_scan bits tot count n (pos + 1) rs' (rl + 1) = Some start"
        using Suc.prems(1) \<open>bits ! ?idx\<close> by (simp only: eb_scan.simps Let_def rs'_def [symmetric] if_True if_False)
      then show ?thesis using Suc.prems(2,3) inv' by (intro Suc.IH [of "pos + 1" rs' "rl + 1"]) simp_all
    qed
  qed
qed

lemma eb_find_contiguous_Some:
  assumes "eb_find_contiguous b count = Some start" and "eb_inv b" and "0 < count"
  shows "start + count \<le> eb_total b \<and> (\<forall>i\<in>set [start..<start + count]. i < length (eb_bits b) \<and> eb_bits b ! i)"
proof -
  have c: "count \<le> eb_total b" using assms(1) by (simp add: eb_find_contiguous_def split: if_splits)
  have r: "start + count \<le> eb_total b \<and> (\<forall>k<count. eb_bits b ! (start + k))"
    using assms c eb_scan_Some [of "eb_bits b" "eb_total b" count "eb_total b" "eb_hint b" "eb_hint b" 0 start]
    by (simp add: eb_find_contiguous_def)
  have "eb_bits b ! i" if "start \<le> i" "i < start + count" for i
    using r that by (metis add_diff_cancel_left' add_diff_inverse_nat le_add_diff_inverse less_diff_conv2 not_le add.commute)
  then show ?thesis using r assms(2) by (auto simp: eb_inv_def)
qed

section \<open>Scattered allocation\<close>

text \<open>The positions the scattered loop has still to look at.\<close>

definition ahead :: "nat \<Rightarrow> nat \<Rightarrow> bool \<Rightarrow> nat \<Rightarrow> nat set" where
  "ahead tot sp w pos = (if w then {pos..<sp} else {pos..<tot} \<union> {..<sp})"

lemma ahead_step:
  assumes "sp \<le> tot" and "if w then pos \<le> sp else sp \<le> pos \<and> pos \<le> tot" and "ahead tot sp w pos \<noteq> {}"
  defines "p \<equiv> (if pos \<ge> tot then 0 else pos)" and "w' \<equiv> (w \<or> pos \<ge> tot)"
  shows "\<not> (pos \<ge> tot \<and> w)" and "\<not> (w' \<and> p \<ge> sp)" and "p < tot"
    and "ahead tot sp w pos = insert p (ahead tot sp w' (p + 1))" and "p \<notin> ahead tot sp w' (p + 1)"
    and "if w' then p + 1 \<le> sp else sp \<le> p + 1 \<and> p + 1 \<le> tot"
  using assms by (auto simp: ahead_def split: if_splits)

lemma eb_scatter_ok:
  assumes "length bits = tot" and "sp \<le> tot" and "if w then pos \<le> sp else sp \<le> pos \<and> pos \<le> tot"
    and "left \<le> card {i \<in> ahead tot sp w pos. bits ! i}"
  shows "\<exists>is pos'. eb_scatter tot sp left w pos bits acc = (clear_all is bits, Some (rev acc @ is, pos')) \<and>
     length is = left \<and> distinct is \<and> set is \<subseteq> {i \<in> ahead tot sp w pos. bits ! i}"
  using assms
proof (induction tot sp left w pos bits acc rule: eb_scatter.induct)
  case (1 tot sp left w pos bits acc)
  show ?case
  proof (cases "left = 0")
    case True
    then show ?thesis by (intro exI [of _ "[]"]) (simp add: eb_scatter.simps)
  next
    case False
    define p where "p = (if pos \<ge> tot then 0 else pos)"
    define w' where "w' = (w \<or> pos \<ge> tot)"
    have ne: "ahead tot sp w pos \<noteq> {}" using False "1.prems"(4) by (metis (no_types, lifting) card.empty empty_Collect_eq empty_iff le_zero_eq)
    note st = ahead_step [OF "1.prems"(2,3) ne, folded p_def w'_def]
    have fin: "finite {i \<in> ahead tot sp w' (p + 1). bits ! i}"
      by (rule finite_subset [of _ "{..<max tot sp}"]) (auto simp: ahead_def split: if_splits)
    show ?thesis
    proof (cases "bits ! p")
      case True
      have eq: "eb_scatter tot sp left w pos bits acc = eb_scatter tot sp (left - 1) w' (p + 1) (bits[p := False]) (p # acc)"
        using False True st(1,2) unfolding p_def w'_def by (subst eb_scatter.simps) (auto simp: Let_def)
      have same: "{i \<in> ahead tot sp w' (p + 1). bits[p := False] ! i} = {i \<in> ahead tot sp w' (p + 1). bits ! i}"
        using st(5) by (metis (no_types, lifting) nth_list_update_neq)
      have set: "{i \<in> ahead tot sp w pos. bits ! i} = insert p {i \<in> ahead tot sp w' (p + 1). bits ! i}"
        using st(4) True by auto
      have "left - 1 \<le> card {i \<in> ahead tot sp w' (p + 1). bits[p := False] ! i}"
        unfolding same using "1.prems"(4) st(5) fin by (simp add: set)
      then obtain "is" pos' where r:
        "eb_scatter tot sp (left - 1) w' (p + 1) (bits[p := False]) (p # acc)
           = (clear_all is (bits[p := False]), Some (rev (p # acc) @ is, pos'))"
        "length is = left - 1" "distinct is" "set is \<subseteq> {i \<in> ahead tot sp w' (p + 1). bits[p := False] ! i}"
        using "1.IH"(1) [OF False _ p_def w'_def _ True] st "1.prems"(1,2) by auto
      show ?thesis
        using r eq False st(5) set same by (intro exI [of _ "p # is"] exI [of _ pos']) auto
    next
      case b: False
      have eq: "eb_scatter tot sp left w pos bits acc = eb_scatter tot sp left w' (p + 1) bits acc"
        using False b st(1,2) unfolding p_def w'_def by (subst eb_scatter.simps) (auto simp: Let_def)
      have set: "{i \<in> ahead tot sp w pos. bits ! i} = {i \<in> ahead tot sp w' (p + 1). bits ! i}"
        using st(4) b by auto
      show ?thesis
        using "1.IH"(2) [OF False _ p_def w'_def _ b] st "1.prems"(1,2,4) unfolding eq set by auto
    qed
  qed
qed

section \<open>Total correctness\<close>

text \<open>What a successful allocation hands out and leaves behind.\<close>

definition eb_handed :: "ebitmap \<Rightarrow> nat list \<Rightarrow> ebitmap \<Rightarrow> bool" where
  "eb_handed b is b' \<longleftrightarrow> distinct is \<and> (\<forall>i\<in>set is. i < eb_total b \<and> eb_bits b ! i) \<and>
     eb_bits b' = clear_all is (eb_bits b) \<and> eb_total b' = eb_total b \<and> eb_free b' = eb_free b - length is"

lemma eb_handed_inv:
  assumes "eb_inv b" and "eb_handed b is b'" and "eb_hint b' < eb_total b \<or> eb_hint b' = 0"
  shows "eb_inv b'"
  using assms count_clear_all [of "is" "eb_bits b"]
  by (auto simp: eb_inv_def eb_handed_def)

lemma eb_ahead_all:
  assumes "eb_inv b"
  shows "card {i \<in> ahead (eb_total b) (eb_hint b) False (eb_hint b). eb_bits b ! i} = eb_free b"
proof -
  have "{i \<in> ahead (eb_total b) (eb_hint b) False (eb_hint b). eb_bits b ! i} =
        {i. i < length (eb_bits b) \<and> eb_bits b ! i}"
    using assms by (auto simp: ahead_def eb_inv_def)
  then show ?thesis using assms count_true_card [of "eb_bits b"] by (simp add: eb_inv_def)
qed

text \<open>
  C18. On a consistent bitmap, an allocation of \<open>count\<close> extents succeeds exactly when
  \<open>count\<close> is positive and no more than the free count says; it then returns \<open>count\<close>
  distinct indices that were all free, clears exactly those bits, lowers the free count by
  \<open>count\<close> and leaves the bitmap consistent. Otherwise it returns nothing and changes
  nothing. In particular the scattered fallback never gives up once the check has passed.
\<close>

theorem eb_allocate_correct:
  assumes "eb_inv b"
  shows "if 0 < count \<and> count \<le> eb_free b
         then \<exists>is b'. eb_allocate b count = (b', Some is) \<and> length is = count \<and> eb_handed b is b' \<and> eb_inv b'
         else eb_allocate b count = (b, None)"
proof (cases "0 < count \<and> count \<le> eb_free b")
  case False
  then show ?thesis by (auto simp: eb_allocate_def)
next
  case ok: True
  have "\<exists>is b'. eb_allocate b count = (b', Some is) \<and> length is = count \<and> eb_handed b is b' \<and> eb_inv b'"
  proof (cases "eb_find_contiguous b count")
    case (Some start)
    define b' where "b' = b\<lparr>eb_bits := eb_clear_run (eb_bits b) start count, eb_free := eb_free b - count,
                            eb_hint := eb_wrap_hint (eb_total b) (start + count)\<rparr>"
    have h: "eb_handed b [start..<start + count] b'"
      using eb_find_contiguous_Some [OF Some assms] ok assms
      by (auto simp: eb_handed_def b'_def eb_clear_run_all eb_inv_def)
    have "eb_inv b'"
      by (rule eb_handed_inv [OF assms h]) (simp add: b'_def eb_wrap_hint_def)
    then show ?thesis using h ok Some by (auto simp: eb_allocate_def b'_def)
  next
    case None
    have sp: "eb_hint b \<le> eb_total b" "length (eb_bits b) = eb_total b" using assms by (auto simp: eb_inv_def)
    obtain "is" pos where r:
      "eb_scatter (eb_total b) (eb_hint b) count False (eb_hint b) (eb_bits b) [] = (clear_all is (eb_bits b), Some (is, pos))"
      "length is = count" "distinct is"
      "set is \<subseteq> {i \<in> ahead (eb_total b) (eb_hint b) False (eb_hint b). eb_bits b ! i}"
      using eb_scatter_ok [of "eb_bits b" "eb_total b" "eb_hint b" False "eb_hint b" count "[]"]
        sp ok eb_ahead_all [OF assms] by auto
    define b' where "b' = b\<lparr>eb_bits := clear_all is (eb_bits b), eb_free := eb_free b - count,
                            eb_hint := eb_wrap_hint (eb_total b) pos\<rparr>"
    have h: "eb_handed b is b'"
      using r sp by (auto simp: eb_handed_def b'_def ahead_def)
    have "eb_inv b'"
      by (rule eb_handed_inv [OF assms h]) (simp add: b'_def eb_wrap_hint_def)
    then show ?thesis using h ok None r by (auto simp: eb_allocate_def b'_def)
  qed
  then show ?thesis using ok by simp
qed

theorem eb_allocate_correct_witness:
  "eb_inv (eb_new 4) \<and> (\<exists>is b'. eb_allocate (eb_new 4) 3 = (b', Some is) \<and> length is = 3 \<and>
     eb_handed (eb_new 4) is b' \<and> eb_inv b')"
  using eb_allocate_correct [of "eb_new 4" 3] eb_inv_new [of 4] by (simp add: eb_new_def)

lemma eb_free_at_inv:
  assumes "eb_inv b" and "eb_free_at b i = Some b'" and "\<not> eb_bits b ! i"
  shows "eb_inv b' \<and> eb_free b' = eb_free b + 1"
  using assms count_list_update_True [of i "eb_bits b"]
  by (auto simp: eb_inv_def eb_free_at_def split: if_splits)

lemma eb_mark_allocated_inv:
  assumes "eb_inv b" and "eb_mark_allocated b i = Some b'"
  shows "eb_inv b' \<and> \<not> eb_bits b' ! i"
  using assms count_list_update_False [of i "eb_bits b"]
  by (auto simp: eb_inv_def eb_mark_allocated_def split: if_splits)

section \<open>Runs before the hint\<close>

text \<open>A history of a bitmap from all free: allocations and frees, in order.\<close>

datatype eb_op = EbAlloc nat | EbFree nat

fun eb_step :: "eb_op \<Rightarrow> ebitmap option \<Rightarrow> ebitmap option" where
  "eb_step x None = None"
| "eb_step (EbAlloc n) (Some b) = Some (fst (eb_allocate b n))"
| "eb_step (EbFree i) (Some b) = eb_free_at b i"

text \<open>
  The contiguous search does not find every contiguous run: after a history of six
  allocations and frees of a six-extent bitmap, extents 0 and 1 are free and adjacent, yet
  an allocation of two extents hands out 1 and 5. The scan starts at the hint (1) and ends
  at 0, and the run it is in when it wraps (5, then 0) is never restarted at 0.
\<close>

theorem eb_contiguous_run_missed:
  "\<exists>b. fold eb_step [EbAlloc 6, EbFree 0, EbFree 2, EbFree 3, EbFree 5, EbAlloc 2, EbFree 1] (Some (eb_new 6)) = Some b \<and>
       eb_bits b ! 0 \<and> eb_bits b ! 1 \<and> eb_find_contiguous b 2 = None \<and> snd (eb_allocate b 2) = Some [1, 5]"
proof -
  let ?b = "\<lparr>eb_bits = [True, True, False, False, False, True], eb_total = 6, eb_free = 3, eb_hint = 1\<rparr>"
  have "fold eb_step [EbAlloc 6, EbFree 0, EbFree 2, EbFree 3, EbFree 5, EbAlloc 2, EbFree 1] (Some (eb_new 6)) = Some ?b"
    by code_simp
  moreover have "eb_bits ?b ! 0 \<and> eb_bits ?b ! 1" by simp
  moreover have "eb_find_contiguous ?b 2 = None \<and> snd (eb_allocate ?b 2) = Some [1, 5]" by code_simp
  ultimately show ?thesis by blast
qed

end
