(* ===== verification/Gf.thy ===== *)
theory Gf
  imports Prelude
begin

text \<open>
  The field GF(2^8) that both parity engines compute in: the scalar routines of
  \<open>src/volume/stripe.rs\<close> (\<open>gf_mul\<close>, \<open>gf_pow2\<close>, \<open>gf_inv\<close>) as they are written, the proof that
  they are the operations of a field whose addition is exclusive or and whose generator is
  2, and the interface \<open>gf_arith\<close> through which the table-driven routines of
  \<open>src/raid/parity.rs\<close> and the parity codes reach that field.
\<close>

section \<open>The routines of \<open>stripe.rs\<close>\<close>

text \<open>One step of the multiplication loop on its first operand: shift left, and reduce by
  the polynomial when a bit was carried out.\<close>

definition gf_shift :: "u8 \<Rightarrow> u8" where
  "gf_shift a = (let carry = a AND 0x80; a' = push_bit 1 a in
     if carry \<noteq> 0 then a' XOR 0x1D else a')"

function gf_mul_loop :: "u8 \<Rightarrow> u8 \<Rightarrow> u8 \<Rightarrow> u8" where
  "gf_mul_loop p a b =
     (if b \<noteq> 0
      then gf_mul_loop (if b AND 1 \<noteq> 0 then p XOR a else p) (gf_shift a) (drop_bit 1 b)
      else p)"
  by pat_completeness auto
termination
proof (relation "measure (\<lambda>(p, a, b). unat b)")
  show "wf (measure (\<lambda>(p :: u8, a :: u8, b :: u8). unat b))" by simp
next
  fix p a b :: u8
  assume "b \<noteq> 0"
  then have "0 < unat b" by (simp add: unat_gt_0)
  then show "((if b AND 1 \<noteq> 0 then p XOR a else p, gf_shift a, drop_bit 1 b), (p, a, b))
      \<in> measure (\<lambda>(p :: u8, a :: u8, b :: u8). unat b)"
    by (simp add: drop_bit_eq_div unat_div)
qed

declare gf_mul_loop.simps [simp del]

definition gf_mul :: "u8 \<Rightarrow> u8 \<Rightarrow> u8" where
  "gf_mul a b = gf_mul_loop 0 a b"

definition gf_pow2 :: "nat \<Rightarrow> u8" where
  "gf_pow2 i = ((\<lambda>v. gf_mul v 2) ^^ (i mod 255)) 1"

function gf_inv_loop :: "u8 \<Rightarrow> u8 \<Rightarrow> nat \<Rightarrow> u8" where
  "gf_inv_loop result base e =
     (if e > 0
      then gf_inv_loop (if e mod 2 = 1 then gf_mul result base else result)
             (gf_mul base base) (e div 2)
      else result)"
  by pat_completeness auto
termination
  by (relation "measure (\<lambda>(r, b, e). e)") auto

declare gf_inv_loop.simps [simp del]

definition gf_inv :: "u8 \<Rightarrow> u8" where
  "gf_inv a = (if a = 0 then 0 else gf_inv_loop 1 a 254)"

section \<open>The product as a sum of shifts\<close>

text \<open>Reference form of the product: the shifts of \<open>a\<close> selected by the low \<open>n\<close> bits of \<open>b\<close>.\<close>

primrec gf_sum :: "nat \<Rightarrow> u8 \<Rightarrow> u8 \<Rightarrow> u8" where
  "gf_sum 0 a b = 0"
| "gf_sum (Suc n) a b = (if bit b 0 then a else 0) XOR gf_sum n (gf_shift a) (drop_bit 1 b)"

lemma gf_shift_xor: "gf_shift (a XOR b) = gf_shift a XOR gf_shift b"
proof -
  have c: "x AND 0x80 \<noteq> 0 \<longleftrightarrow> bit x 7" for x :: u8
    using and_exp_eq_0_iff_not_bit [of x 7] by simp
  show ?thesis
    unfolding gf_shift_def Let_def c
    by (auto simp: push_bit_xor bit_xor_iff xor.assoc xor.left_commute [of _ "0x1D"]
        intro!: bit_word_eqI simp: bit_simps)
qed

lemma gf_shift_0 [simp]: "gf_shift 0 = 0"
  by (simp add: gf_shift_def)

lemma gf_sum_0 [simp]: "gf_sum n 0 b = 0" "gf_sum n a 0 = 0"
  by (induction n arbitrary: a b) simp_all

lemma gf_sum_xor_left: "gf_sum n (a XOR b) c = gf_sum n a c XOR gf_sum n b c"
  by (induction n arbitrary: a b c) (simp_all add: gf_shift_xor ac_simps)

lemma gf_sum_xor_right: "gf_sum n a (b XOR c) = gf_sum n a b XOR gf_sum n a c"
  by (induction n arbitrary: a b c) (simp_all add: bit_xor_iff drop_bit_xor ac_simps)

lemma gf_sum_shift: "gf_sum n (gf_shift a) b = gf_shift (gf_sum n a b)"
  by (induction n arbitrary: a b) (simp_all add: gf_shift_xor)

lemma gf_sum_swap: "gf_sum n (gf_sum m c a) b = gf_sum m (gf_sum n c b) a"
  by (induction m arbitrary: c a) (simp_all add: gf_sum_xor_left gf_sum_shift)

lemma gf_mul_loop_sum: "unat b < 2 ^ n \<Longrightarrow> gf_mul_loop p a b = p XOR gf_sum n a b"
proof (induction n arbitrary: p a b)
  case 0
  then have "b = 0" by (simp add: unat_eq_0)
  then show ?case by (simp add: gf_mul_loop.simps)
next
  case (Suc n)
  have d: "unat (drop_bit 1 b) < 2 ^ n"
    using Suc.prems by (simp add: drop_bit_eq_div unat_div)
  have o: "b AND 1 \<noteq> 0 \<longleftrightarrow> bit b 0"
    by (simp add: bit_0 and_one_eq odd_iff_mod_2_eq_one)
  show ?case
    by (subst gf_mul_loop.simps) (use o Suc.IH [OF d] in \<open>auto simp: xor.assoc\<close>)
qed

lemma gf_mul_sum: "gf_mul a b = gf_sum 8 a b"
  using unsigned_less [where 'a = nat and w = b] by (simp add: gf_mul_def gf_mul_loop_sum [of b 8])

lemma less_8_cases: "n < 8 \<Longrightarrow> n = 0 \<or> n = 1 \<or> n = 2 \<or> n = 3 \<or> n = 4 \<or> n = 5 \<or> n = 6 \<or> n = (7 :: nat)"
  by arith

lemma gf_sum_one: "gf_sum 8 1 a = a"
proof -
  have "gf_sum 8 1 a = (if bit a 0 then 1 else 0) XOR (if bit a 1 then 2 else 0)
      XOR (if bit a 2 then 4 else 0) XOR (if bit a 3 then 8 else 0)
      XOR (if bit a 4 then 16 else 0) XOR (if bit a 5 then 32 else 0)
      XOR (if bit a 6 then 64 else 0) XOR (if bit a 7 then 128 else 0)" (is "_ = ?s")
    by (simp add: eval_nat_numeral bit_drop_bit_eq gf_shift_def xor.assoc)
  also have "\<dots> = a"
  proof (rule bit_word_eqI)
    fix n assume "n < LENGTH(8)"
    then have n: "n = 0 \<or> n = 1 \<or> n = 2 \<or> n = 3 \<or> n = 4 \<or> n = 5 \<or> n = 6 \<or> n = 7"
      using less_8_cases by simp
    have i: "bit (if P then x else 0) m = (P \<and> bit x m)" for P and x :: u8 and m
      by simp
    show "bit (?s) n = bit a n"
      using n by (elim disjE) (simp_all add: bit_xor_iff i split del: if_split)
  qed
  finally show ?thesis .
qed

lemma gf_mul_commute: "gf_mul a b = gf_mul b a"
  using gf_sum_swap [of 8 8 1 a b] by (simp add: gf_mul_sum gf_sum_one)

lemma gf_mul_assoc: "gf_mul (gf_mul a b) c = gf_mul a (gf_mul b c)"
proof -
  have "gf_mul (gf_mul b a) c = gf_mul (gf_mul b c) a"
    by (simp add: gf_mul_sum gf_sum_swap)
  then show ?thesis
    by (simp add: gf_mul_commute [of b a] gf_mul_commute [of "gf_mul b c" a])
qed

lemma gf_mul_two: "gf_mul a 2 = gf_shift a"
  by (simp add: gf_mul_def gf_mul_loop.simps)

section \<open>The generator\<close>

text \<open>The powers of 2 in sequence: they return to 1 after 255 steps and not before.\<close>

fun gf_orbit :: "nat \<Rightarrow> u8 \<Rightarrow> bool" where
  "gf_orbit n x = (if n = 0 then x = 1 else x \<noteq> 1 \<and> gf_orbit (n - 1) (gf_shift x))"

declare gf_orbit.simps [simp del]

lemma gf_orbit_iff:
  "gf_orbit n x \<longleftrightarrow> (gf_shift ^^ n) x = 1 \<and> (\<forall>k < n. (gf_shift ^^ k) x \<noteq> 1)"
proof (induction n arbitrary: x)
  case 0
  then show ?case by (simp add: gf_orbit.simps)
next
  case (Suc n)
  have "gf_orbit (Suc n) x \<longleftrightarrow> x \<noteq> 1 \<and> gf_orbit n (gf_shift x)"
    by (simp add: gf_orbit.simps [of "Suc n"])
  also have "\<dots> \<longleftrightarrow> (gf_shift ^^ Suc n) x = 1 \<and> x \<noteq> 1 \<and> (\<forall>k < n. (gf_shift ^^ Suc k) x \<noteq> 1)"
    by (auto simp: Suc.IH funpow_swap1)
  also have "\<dots> \<longleftrightarrow> (gf_shift ^^ Suc n) x = 1 \<and> (\<forall>k < Suc n. (gf_shift ^^ k) x \<noteq> 1)"
    by (auto simp: less_Suc_eq_0_disj)
  finally show ?case .
qed

lemma gf_orbit_2: "gf_orbit 254 2"
  by (simp add: gf_orbit.simps gf_shift_def)

section \<open>The field\<close>

text \<open>Bytes as the elements of the field; \<open>byte\<close> reads the representation back.\<close>

datatype gf8 = GF (byte: u8)

instantiation gf8 :: comm_ring_1
begin

definition zero_gf8 :: gf8 where "0 = GF 0"

definition one_gf8 :: gf8 where "1 = GF 1"

definition plus_gf8 :: "gf8 \<Rightarrow> gf8 \<Rightarrow> gf8" where "x + y = GF (byte x XOR byte y)"

definition minus_gf8 :: "gf8 \<Rightarrow> gf8 \<Rightarrow> gf8" where "x - y = GF (byte x XOR byte y)"

definition uminus_gf8 :: "gf8 \<Rightarrow> gf8" where "- x = (x :: gf8)"

definition times_gf8 :: "gf8 \<Rightarrow> gf8 \<Rightarrow> gf8" where "x * y = GF (gf_mul (byte x) (byte y))"

instance
proof
  fix a b c :: gf8
  show "a * b * c = a * (b * c)" by (simp add: times_gf8_def gf_mul_assoc)
  show "a * b = b * a" by (simp add: times_gf8_def gf_mul_commute)
  show "1 * a = a" by (cases a) (simp add: times_gf8_def one_gf8_def gf_mul_sum gf_sum_one)
  show "a + b + c = a + (b + c)" by (simp add: plus_gf8_def xor.assoc)
  show "a + b = b + a" by (simp add: plus_gf8_def xor.commute)
  show "0 + a = a" by (cases a) (simp add: plus_gf8_def zero_gf8_def)
  show "- a + a = 0" by (simp add: plus_gf8_def zero_gf8_def uminus_gf8_def)
  show "a - b = a + - b" by (simp add: plus_gf8_def minus_gf8_def uminus_gf8_def)
  show "(a + b) * c = a * c + b * c"
    by (simp add: plus_gf8_def times_gf8_def gf_mul_sum gf_sum_xor_left)
  show "(0 :: gf8) \<noteq> 1" by (simp add: zero_gf8_def one_gf8_def)
qed

end

lemma GF_ring:
  "GF (a XOR b) = GF a + GF b" "GF (gf_mul a b) = GF a * GF b" "GF 0 = 0" "GF 1 = 1"
  by (simp_all add: plus_gf8_def times_gf8_def zero_gf8_def one_gf8_def)

lemma byte_ring:
  "byte (x + y) = byte x XOR byte y" "byte (x * y) = gf_mul (byte x) (byte y)"
  "byte 0 = 0" "byte 1 = 1"
  by (simp_all add: plus_gf8_def times_gf8_def zero_gf8_def one_gf8_def)

lemma gf8_add_self [simp]: "x + x = (0 :: gf8)" "x + (x + y) = (y :: gf8)" "x - y = x + (y :: gf8)" "- x = (x :: gf8)"
  by (simp_all add: plus_gf8_def zero_gf8_def minus_gf8_def uminus_gf8_def flip: xor.assoc)

declare GF_ring [simp]

lemma GF_eq_0 [simp]: "GF a = 0 \<longleftrightarrow> a = 0"
  by (metis GF_ring(3) gf8.inject)

lemma gf8_eq_iff_add: "x = y \<longleftrightarrow> x + y = (0 :: gf8)"
  by (metis gf8_add_self(2) add_0_right)

lemma byte_eq_0: "byte x = 0 \<longleftrightarrow> x = 0"
  by (cases x) simp

lemma gf8_two_power: "GF 2 ^ n = GF ((gf_shift ^^ n) 1)"
  by (induction n) (simp_all add: gf_mul_two gf_mul_commute [of 2] flip: GF_ring(2))

lemma gf8_generator_order: "GF 2 ^ 255 = 1" "0 < k \<Longrightarrow> k < 255 \<Longrightarrow> GF 2 ^ k \<noteq> 1"
proof -
  have s: "gf_shift 1 = 2" by (simp add: gf_shift_def)
  have o: "(gf_shift ^^ 254) 2 = 1" "\<forall>k < 254. (gf_shift ^^ k) 2 \<noteq> 1"
    using gf_orbit_2 by (simp_all add: gf_orbit_iff)
  have f: "(gf_shift ^^ Suc k) 1 = (gf_shift ^^ k) 2" for k
    by (simp only: funpow_Suc_right o_apply s)
  have "(gf_shift ^^ Suc 254) 1 = 1" unfolding f by (rule o)
  then show "GF 2 ^ 255 = 1" by (simp add: gf8_two_power)
  assume k: "0 < k" "k < 255"
  then obtain j where j: "k = Suc j" "j < 254" by (cases k) auto
  have "(gf_shift ^^ k) 1 \<noteq> 1" unfolding j f using o j by blast
  then show "GF 2 ^ k \<noteq> 1" by (metis gf8_two_power GF_ring(4) gf8.inject)
qed

lemma gf8_power_inj:
  assumes "i < 255" "j < 255" "GF 2 ^ i = GF 2 ^ j"
  shows "i = j"
proof -
  have "\<not> a < b" if ab: "a < 255" "b < 255" "GF 2 ^ a = GF 2 ^ b" for a b :: nat
  proof
    assume "a < b"
    have "255 + (b - a) = 255 - a + b" using \<open>a < b\<close> ab by simp
    then have "GF 2 ^ (b - a) = GF 2 ^ (255 - a) * GF 2 ^ b"
      by (metis gf8_generator_order(1) mult_1 power_add)
    also have "\<dots> = GF 2 ^ 255"
      using ab(1) unfolding ab(3) [symmetric] power_add [symmetric] by simp
    also have "\<dots> = 1" by (rule gf8_generator_order)
    finally show False using gf8_generator_order(2) [of "b - a"] \<open>a < b\<close> ab by simp
  qed
  from this [OF assms] this [OF assms(2,1) assms(3) [symmetric]] show ?thesis by simp
qed

lemma gf8_power_nonzero: "GF 2 ^ k \<noteq> 0"
proof
  assume z: "GF 2 ^ k = 0"
  have "GF 2 ^ (255 * k) = 1"
    by (simp only: power_mult gf8_generator_order power_one)
  moreover have "GF 2 ^ (255 * k) = GF 2 ^ k * GF 2 ^ (254 * k)"
    by (simp flip: power_add)
  ultimately show False using z by simp
qed

text \<open>Every non-zero byte is one of the 255 powers of the generator.\<close>

lemma gf8_range_powers: "(\<lambda>k. byte (GF 2 ^ k)) ` {..< 255} = - {0}"
proof (rule card_subset_eq)
  show "(\<lambda>k. byte (GF 2 ^ k)) ` {..< 255} \<subseteq> - {0 :: u8}"
    using gf8_power_nonzero by (auto simp: byte_eq_0)
  have "inj_on (\<lambda>k. byte (GF 2 ^ k)) {..< 255}"
    by (rule inj_onI) (metis gf8.expand gf8_power_inj lessThan_iff)
  then have "card ((\<lambda>k. byte (GF 2 ^ k)) ` {..< 255}) = 255"
    by (simp add: card_image)
  also have "card (- {0 :: u8}) = 255"
    by (simp add: Compl_eq_Diff_UNIV card_Diff_singleton card_word)
  finally show "card ((\<lambda>k. byte (GF 2 ^ k)) ` {..< 255}) = card (- {0 :: u8})"
    using \<open>card (- {0 :: u8}) = 255\<close> by simp
qed simp

lemma gf8_log_ex: "x \<noteq> 0 \<Longrightarrow> \<exists>k < 255. x = GF 2 ^ k"
proof -
  assume "x \<noteq> 0"
  then have "byte x \<in> - {0}" by (simp add: byte_eq_0)
  then obtain k where "k < 255" "byte x = byte (GF 2 ^ k)"
    unfolding gf8_range_powers [symmetric] by auto
  then show ?thesis by (metis gf8.expand)
qed

lemma gf8_fermat: "x \<noteq> 0 \<Longrightarrow> x ^ 255 = (1 :: gf8)"
proof -
  assume "x \<noteq> 0"
  then obtain k where "x = GF 2 ^ k" using gf8_log_ex by blast
  then have "x ^ 255 = (GF 2 ^ 255) ^ k" by (simp only: flip: power_mult) (simp add: mult.commute)
  then show ?thesis by (simp only: gf8_generator_order power_one)
qed

lemma gf_inv_loop_power: "GF (gf_inv_loop r b e) = GF r * GF b ^ e"
proof (induction r b e rule: gf_inv_loop.induct)
  case (1 r b e)
  have e: "GF b ^ e = (GF b * GF b) ^ (e div 2) * (if e mod 2 = 1 then GF b else 1)"
  proof -
    have "GF b ^ e = GF b ^ (2 * (e div 2) + e mod 2)" by simp
    also have "\<dots> = (GF b * GF b) ^ (e div 2) * GF b ^ (e mod 2)"
      by (simp only: power_add power_mult power2_eq_square)
    finally show ?thesis by (cases "e mod 2 = 1") (auto simp: not_mod_2_eq_1_eq_0)
  qed
  show ?case
    by (subst gf_inv_loop.simps) (use 1 in \<open>auto simp: e ac_simps\<close>)
qed

instantiation gf8 :: field
begin

definition inverse_gf8 :: "gf8 \<Rightarrow> gf8" where "inverse x = GF (gf_inv (byte x))"

definition divide_gf8 :: "gf8 \<Rightarrow> gf8 \<Rightarrow> gf8" where "x div y = x * inverse (y :: gf8)"

instance
proof
  fix a b :: gf8
  show "a \<noteq> 0 \<Longrightarrow> inverse a * a = 1"
  proof -
    assume a: "a \<noteq> 0"
    then have "inverse a = a ^ 254"
      by (cases a) (auto simp: inverse_gf8_def gf_inv_def gf_inv_loop_power)
    then show ?thesis using gf8_fermat [OF a] by (simp flip: power_Suc2)
  qed
  show "a div b = a * inverse b" by (simp add: divide_gf8_def)
  show "inverse (0 :: gf8) = 0" by (simp add: inverse_gf8_def gf_inv_def byte_ring)
qed

end

lemma GF_inv [simp]: "GF (gf_inv a) = inverse (GF a)"
  by (simp add: inverse_gf8_def)

lemma gf8_power_mod: "GF 2 ^ (n mod 255) = GF 2 ^ n"
proof -
  have "GF 2 ^ n = (GF 2 ^ 255) ^ (n div 255) * GF 2 ^ (n mod 255)"
    by (simp only: flip: power_mult power_add) simp
  then show ?thesis by (simp only: gf8_generator_order power_one mult_1)
qed

lemma GF_pow2 [simp]: "GF (gf_pow2 n) = GF 2 ^ n"
proof -
  have "GF (((\<lambda>v. gf_mul v 2) ^^ k) 1) = GF 2 ^ k" for k
    by (induction k) (simp_all add: mult.commute)
  then show ?thesis by (simp add: gf_pow2_def gf8_power_mod)
qed

lemma gf8_power_distinct:
  assumes "x < y" "y - x < 255"
  shows "GF 2 ^ x + GF 2 ^ y \<noteq> 0"
proof
  assume "GF 2 ^ x + GF 2 ^ y = 0"
  then have "GF 2 ^ x = GF 2 ^ y" by (rule iffD2 [OF gf8_eq_iff_add])
  also have "GF 2 ^ y = GF 2 ^ x * GF 2 ^ (y - x)"
    using assms(1) by (simp flip: power_add)
  finally have "GF 2 ^ x = GF 2 ^ x * GF 2 ^ (y - x)" .
  then have "GF 2 ^ (y - x) = 1"
    using gf8_power_nonzero by (metis mult_cancel_left1)
  then show False using gf8_generator_order(2) [of "y - x"] assms by simp
qed

section \<open>The interface of a byte-field implementation\<close>

text \<open>
  What a parity code relies on: a multiplication, the powers of the generator and an
  inverse that act on bytes as the field does. The solutions of the one- and two-erasure
  equations of RAID-6 are consequences, in the two forms the sources use.
\<close>

locale gf_arith =
  fixes mul :: "u8 \<Rightarrow> u8 \<Rightarrow> u8"
    and pow2 :: "nat \<Rightarrow> u8"
    and inv :: "u8 \<Rightarrow> u8"
  assumes GF_mul: "GF (mul a b) = GF a * GF b"
    and GF_pow: "GF (pow2 n) = GF 2 ^ n"
    and GF_inverse: "a \<noteq> 0 \<Longrightarrow> GF (inv a) = inverse (GF a)"
begin

lemma mul_byte: "mul a b = byte (GF a * GF b)"
  by (metis GF_mul gf8.sel)

lemma mul_0: "mul 0 a = 0" "mul a 0 = 0"
  by (simp_all add: mul_byte byte_ring)

lemma mul_1: "mul 1 a = a" "mul a 1 = a"
  by (simp_all add: mul_byte)

lemma mul_xor: "mul c (a XOR b) = mul c a XOR mul c b"
  by (simp add: mul_byte distrib_left byte_ring(1))

lemma pow2_nonzero: "pow2 n \<noteq> 0"
  using gf8_power_nonzero [of n] by (metis GF_pow GF_ring(3))

lemma inv_mul: "a \<noteq> 0 \<Longrightarrow> mul (inv a) (mul a b) = b"
  by (simp add: mul_byte GF_inverse flip: mult.assoc)

text \<open>\<open>p = d\<^sub>x + d\<^sub>y\<close> and \<open>q = g\<^sup>x d\<^sub>x + g\<^sup>y d\<^sub>y\<close> determine \<open>d\<^sub>x\<close>.\<close>

lemma solve_two:
  assumes "x < y" "y - x < 255"
  shows "mul (inv (pow2 x XOR pow2 y))
           (mul (pow2 y) (dx XOR dy) XOR (mul (pow2 x) dx XOR mul (pow2 y) dy)) = dx"
proof -
  have nz: "GF 2 ^ x + GF 2 ^ y \<noteq> 0" by (rule gf8_power_distinct [OF assms])
  have "GF (pow2 x XOR pow2 y) = GF 2 ^ x + GF 2 ^ y" by (simp add: GF_pow)
  with nz have "GF (inv (pow2 x XOR pow2 y)) = inverse (GF 2 ^ x + GF 2 ^ y)"
    by (metis GF_eq_0 GF_inverse)
  then have "GF (mul (inv (pow2 x XOR pow2 y))
           (mul (pow2 y) (dx XOR dy) XOR (mul (pow2 x) dx XOR mul (pow2 y) dy)))
      = inverse (GF 2 ^ x + GF 2 ^ y) * ((GF 2 ^ x + GF 2 ^ y) * GF dx)"
    by (simp only: GF_mul GF_ring GF_pow) (simp add: algebra_simps)
  then show ?thesis using nz by (simp flip: mult.assoc)
qed

lemma solve_two':
  assumes "x < y" "y - x < 255"
  shows "mul (mul (pow2 (y - x)) (inv (pow2 (y - x) XOR 1))) (dx XOR dy) XOR
         mul (mul (inv (pow2 x)) (inv (pow2 (y - x) XOR 1))) (mul (pow2 x) dx XOR mul (pow2 y) dy)
       = dx"
proof -
  define h where "h = GF 2 ^ (y - x)"
  have nz: "h + 1 \<noteq> 0"
    using gf8_power_distinct [of 0 "y - x"] assms by (simp add: h_def add.commute)
  have y: "GF 2 ^ y = GF 2 ^ x * h" using assms by (simp add: h_def flip: power_add)
  have "GF (pow2 (y - x) XOR 1) = h + 1" by (simp add: GF_pow h_def)
  with nz have i: "GF (inv (pow2 (y - x) XOR 1)) = inverse (h + 1)" by (metis GF_eq_0 GF_inverse)
  have "GF (inv (pow2 x)) = inverse (GF 2 ^ x)"
    by (simp only: GF_inverse [OF pow2_nonzero] GF_pow)
  with i have "GF (mul (mul (pow2 (y - x)) (inv (pow2 (y - x) XOR 1))) (dx XOR dy) XOR
         mul (mul (inv (pow2 x)) (inv (pow2 (y - x) XOR 1))) (mul (pow2 x) dx XOR mul (pow2 y) dy))
      = h * inverse (h + 1) * (GF dx + GF dy)
        + inverse (h + 1) * (inverse (GF 2 ^ x) * GF 2 ^ x) * (GF dx + h * GF dy)"
    by (simp only: GF_mul GF_ring GF_pow h_def [symmetric] y) (simp add: algebra_simps)
  also have "\<dots> = inverse (h + 1) * ((h + 1) * GF dx)"
    using gf8_power_nonzero [of x] by (simp add: algebra_simps)
  also have "\<dots> = GF dx" using nz by (simp flip: mult.assoc)
  finally show ?thesis by (simp only: gf8.inject)
qed

end

interpretation stripe_gf: gf_arith gf_mul gf_pow2 gf_inv
  by unfold_locales simp_all

end
