(* ===== verification/ParityGf.thy ===== *)
theory ParityGf
  imports Gf
begin

text \<open>
  The scalar field arithmetic of \<open>src/raid/parity.rs\<close>: the log and antilog tables built at
  compile time, the multiplication, inverse and logarithm that read them, multiplication by
  the generator on one byte and on eight lanes of a \<open>u64\<close>, and the split-nibble tables. They
  are shown to be the field of \<open>stripe.rs\<close>, so a stripe means the same in both engines.
\<close>

section \<open>Multiplying by the generator\<close>

definition gf_mul2 :: "u8 \<Rightarrow> u8" where
  "gf_mul2 x = (let carry = drop_bit 7 x AND 1 in push_bit 1 x XOR (carry * 0x1D))"

definition gf_mul2_x8 :: "u64 \<Rightarrow> u64" where
  "gf_mul2_x8 x =
     (let high = x AND 0x8080808080808080;
          shifted = push_bit 1 x AND 0xFEFEFEFEFEFEFEFE
      in shifted XOR (drop_bit 7 high * 0x1D))"

section \<open>The tables\<close>

function gf_tables_loop :: "nat \<Rightarrow> bytes \<Rightarrow> bytes \<Rightarrow> u16 \<Rightarrow> bytes \<times> bytes" where
  "gf_tables_loop i exp log x =
     (if i < 255
      then (let exp = exp[i := ucast x];
                log = log[unat x := of_nat i];
                x = push_bit 1 x;
                x = (if x AND 0x100 \<noteq> 0 then x XOR 0x11D else x)
            in gf_tables_loop (i + 1) exp log x)
      else (exp, log))"
  by pat_completeness auto
termination
  by (relation "measure (\<lambda>(i, _). 255 - i)") auto

function gf_tables_double :: "nat \<Rightarrow> bytes \<Rightarrow> bytes" where
  "gf_tables_double j exp =
     (if j < 512 then gf_tables_double (j + 1) (exp[j := exp ! (j - 255)]) else exp)"
  by pat_completeness auto
termination
  by (relation "measure (\<lambda>(j, _). 512 - j)") auto

declare gf_tables_loop.simps [simp del] gf_tables_double.simps [simp del]

definition gf_tables :: "bytes \<times> bytes" where
  "gf_tables =
     (let (exp, log) = gf_tables_loop 0 (replicate 512 0) (replicate 256 0) 1
      in (gf_tables_double 255 exp, log))"

abbreviation gf_exp_table :: bytes where
  "gf_exp_table \<equiv> fst gf_tables"

abbreviation gf_log_table :: bytes where
  "gf_log_table \<equiv> snd gf_tables"

definition parity_gf_mul :: "u8 \<Rightarrow> u8 \<Rightarrow> u8" where
  "parity_gf_mul a b =
     (if a = 0 \<or> b = 0 then 0
      else gf_exp_table ! (unat (gf_log_table ! unat a) + unat (gf_log_table ! unat b)))"

definition parity_gf_pow2 :: "nat \<Rightarrow> u8" where
  "parity_gf_pow2 n = gf_exp_table ! (n mod 255)"

text \<open>\<open>gf_log\<close> and \<open>gf_inv\<close> assert that their argument is not zero; every caller passes a
  non-zero byte, and the value at zero is what the table holds there.\<close>

definition gf_log :: "u8 \<Rightarrow> u8" where
  "gf_log a = gf_log_table ! unat a"

definition parity_gf_inv :: "u8 \<Rightarrow> u8" where
  "parity_gf_inv a = gf_exp_table ! (255 - unat (gf_log_table ! unat a))"

definition nibble_tables :: "u8 \<Rightarrow> bytes \<times> bytes" where
  "nibble_tables c =
     (map (\<lambda>n. parity_gf_mul c (of_nat n)) [0..<16],
      map (\<lambda>n. parity_gf_mul c (push_bit 4 (of_nat n))) [0..<16])"

section \<open>The tables hold the powers and logarithms of the generator\<close>

lemma gf_step_u16:
  fixes y :: u8
  defines "x \<equiv> push_bit 1 (ucast y :: u16)"
  shows "(if x AND 0x100 \<noteq> 0 then x XOR 0x11D else x) = ucast (gf_shift y)"
proof -
  have c: "y AND 0x80 \<noteq> 0 \<longleftrightarrow> bit y 7"
    using and_exp_eq_0_iff_not_bit [of y 7] by simp
  have "x AND 0x100 \<noteq> 0 \<longleftrightarrow> bit x 8"
    using and_exp_eq_0_iff_not_bit [of x 8] by simp
  also have "bit x 8 \<longleftrightarrow> bit y 7"
    unfolding x_def bit_push_bit_iff by (simp add: bit_simps)
  finally have x: "x AND 0x100 \<noteq> 0 \<longleftrightarrow> bit y 7" .
  show ?thesis
  proof (cases "bit y 7")
    case True
    have "x XOR 0x11D = ucast (push_bit 1 y XOR 0x1D)"
    proof (rule bit_word_eqI)
      fix n assume "n < LENGTH(16)"
      then consider "n < 8" | "n = 8" | "8 < n" "n < 16" by fastforce
      then show "bit (x XOR 0x11D) n = bit (ucast (push_bit 1 y XOR 0x1D) :: u16) n"
      proof cases
        case 1
        then show ?thesis
          unfolding x_def bit_xor_iff bit_ucast_iff bit_push_bit_iff
          by (auto simp: bit_simps dest!: less_8_cases)
      next
        case 2
        then show ?thesis using True
          unfolding x_def bit_xor_iff bit_ucast_iff bit_push_bit_iff by (simp add: bit_simps)
      next
        case 3
        then have "n = 9 \<or> n = 10 \<or> n = 11 \<or> n = 12 \<or> n = 13 \<or> n = 14 \<or> n = 15" by arith
        with 3 show ?thesis
          unfolding x_def bit_xor_iff bit_ucast_iff bit_push_bit_iff
          using bit_imp_le_length [of y "n - 1"] by (auto simp: bit_simps)
      qed
    qed
    then show ?thesis unfolding gf_shift_def Let_def c x using True by simp
  next
    case False
    have "x = ucast (push_bit 1 y)"
    proof (rule bit_word_eqI)
      fix n assume "n < LENGTH(16)"
      then show "bit x n = bit (ucast (push_bit 1 y) :: u16) n"
        unfolding x_def bit_ucast_iff bit_push_bit_iff
        using False bit_imp_le_length [of y "n - 1"] by (cases "n = 8") (auto simp: bit_simps)
    qed
    then show ?thesis unfolding gf_shift_def Let_def c x using False by simp
  qed
qed

lemma gf_mul2_shift: "gf_mul2 x = gf_shift x"
proof -
  have c: "x AND 0x80 \<noteq> 0 \<longleftrightarrow> bit x 7"
    using and_exp_eq_0_iff_not_bit [of x 7] by simp
  have "drop_bit 7 x AND 1 = (if bit x 7 then 1 else 0)"
    by (simp add: and_one_eq bit_iff_odd_drop_bit odd_iff_mod_2_eq_one)
  then show ?thesis unfolding gf_mul2_def gf_shift_def Let_def c by simp
qed

abbreviation gpow :: "nat \<Rightarrow> u8" where
  "gpow k \<equiv> byte (GF 2 ^ k)"

lemma gpow_Suc: "gf_shift (gpow k) = gpow (Suc k)"
  by (simp add: byte_ring gf_mul_two gf_mul_commute [of 2])

lemma gpow_inj: "i < 255 \<Longrightarrow> j < 255 \<Longrightarrow> gpow i = gpow j \<longleftrightarrow> i = j"
  by (metis gf8.expand gf8_power_inj)

lemma gf_tables_loop_spec:
  assumes "i \<le> 255" "length exp = 512" "length log = 256" "x = ucast (gpow i)"
    and "\<forall>k < i. exp ! k = gpow k" "\<forall>k < i. log ! unat (gpow k) = of_nat k"
    and "gf_tables_loop i exp log x = (exp', log')"
  shows "length exp' = 512 \<and> length log' = 256 \<and>
    (\<forall>k < 255. exp' ! k = gpow k) \<and> (\<forall>k < 255. log' ! unat (gpow k) = of_nat k)"
  using assms
proof (induction i exp log x rule: gf_tables_loop.induct)
  case (1 i exp log x)
  show ?case
  proof (cases "i < 255")
    case True
    have ux: "unat x = unat (gpow i)"
      unfolding 1(5) by (simp add: unsigned_ucast_eq take_bit_nat_eq_self unsigned_less
          order.strict_trans [OF unsigned_less [where 'a = nat and w = "gpow i"]])
    have cx: "ucast x = gpow i"
      unfolding 1(5) by (rule bit_word_eqI) (simp add: bit_simps)
    have b: "unat (gpow k) < 256" for k
      using unsigned_less [where 'a = nat and w = "gpow k"] by simp
    have u: "unat (gpow k) = unat (gpow i) \<longleftrightarrow> k = i" if "k < i" for k
      using that True gpow_inj [of k i] by (simp flip: word_eq_iff_unsigned)
    have e: "\<forall>k < i + 1. exp[i := ucast x] ! k = gpow k"
      using True 1(3,6) by (auto simp: cx nth_list_update less_Suc_eq)
    have l: "\<forall>k < i + 1. log[unat x := of_nat i] ! unat (gpow k) = of_nat k"
      using True 1(4,7) b u by (fastforce simp: ux nth_list_update less_Suc_eq)
    have s: "(let x = push_bit 1 x in if x AND 0x100 \<noteq> 0 then x XOR 0x11D else x)
        = ucast (gpow (i + 1))"
      using gf_step_u16 [of "gpow i"] unfolding 1(5) Let_def gpow_Suc by simp
    have "gf_tables_loop (i + 1) (exp[i := ucast x]) (log[unat x := of_nat i]) (ucast (gpow (i + 1)))
        = (exp', log')"
      using 1(8) by (subst (asm) gf_tables_loop.simps) (simp only: True if_True Let_def s [unfolded Let_def])
    with True 1(3,4) e l show ?thesis
      by (intro 1(1) [OF True refl refl refl refl, unfolded s [unfolded Let_def]]) simp_all
  next
    case False
    then have "gf_tables_loop i exp log x = (exp, log)" by (simp add: gf_tables_loop.simps [of i])
    with False 1 show ?thesis by simp
  qed
qed

lemma gf_tables_double_spec:
  assumes "255 \<le> j" "j \<le> 512" "length exp = 512" "\<forall>k < j. exp ! k = gpow k"
  shows "length (gf_tables_double j exp) = 512 \<and> (\<forall>k < 512. gf_tables_double j exp ! k = gpow k)"
  using assms
proof (induction j exp rule: gf_tables_double.induct)
  case (1 j exp)
  show ?case
  proof (cases "j < 512")
    case True
    have "GF 2 ^ j = GF 2 ^ (j - 255)"
      using gf8_power_mod [of j] gf8_power_mod [of "j - 255"] 1(2) by (simp add: le_mod_geq)
    then have "\<forall>k < j + 1. exp[j := exp ! (j - 255)] ! k = gpow k"
      using 1(2,4,5) True by (auto simp: nth_list_update less_Suc_eq)
    with True 1 show ?thesis by (subst (1 2) gf_tables_double.simps) simp
  next
    case False
    then have "gf_tables_double j exp = exp" by (simp add: gf_tables_double.simps [of j])
    with False 1 show ?thesis by simp
  qed
qed

lemma gf_tables_spec:
  shows gf_exp_table_nth: "k < 512 \<Longrightarrow> gf_exp_table ! k = gpow k"
    and gf_log_table_nth: "k < 255 \<Longrightarrow> gf_log_table ! unat (gpow k) = of_nat k"
proof -
  obtain e l where el: "gf_tables_loop 0 (replicate 512 0) (replicate 256 0) 1 = (e, l)"
    by (metis surj_pair)
  have *: "length e = 512 \<and> length l = 256 \<and>
      (\<forall>k < 255. e ! k = gpow k) \<and> (\<forall>k < 255. l ! unat (gpow k) = of_nat k)"
    by (rule gf_tables_loop_spec [OF _ _ _ _ _ _ el]) (simp_all add: byte_ring)
  then have "\<forall>k < 512. gf_tables_double 255 e ! k = gpow k"
    using gf_tables_double_spec [of 255 e] by simp
  then show "k < 512 \<Longrightarrow> gf_exp_table ! k = gpow k" by (simp add: gf_tables_def el)
  from * show "k < 255 \<Longrightarrow> gf_log_table ! unat (gpow k) = of_nat k"
    by (simp add: gf_tables_def el)
qed

lemma gf_log_ex:
  assumes "a \<noteq> 0"
  obtains k where "k < 255" "a = gpow k" "unat (gf_log_table ! unat a) = k"
proof -
  have "GF a \<noteq> 0" using assms by simp
  then obtain k where k: "k < 255" "GF a = GF 2 ^ k" using gf8_log_ex by blast
  then have "a = gpow k" by (metis gf8.sel)
  moreover have "unat (of_nat k :: u8) = k"
    using k(1) by (simp add: unat_of_nat)
  ultimately show ?thesis using that k(1) gf_log_table_nth by metis
qed

interpretation table_gf: gf_arith parity_gf_mul parity_gf_pow2 parity_gf_inv
proof unfold_locales
  fix a b :: u8 and n
  show "GF (parity_gf_mul a b) = GF a * GF b"
  proof (cases "a = 0 \<or> b = 0")
    case False
    then obtain i j where i: "i < 255" "a = gpow i" "unat (gf_log_table ! unat a) = i"
      and j: "j < 255" "b = gpow j" "unat (gf_log_table ! unat b) = j"
      using gf_log_ex by metis
    have "parity_gf_mul a b = gpow (i + j)"
      using False i(1) j(1) by (simp add: parity_gf_mul_def i(3) j(3) gf_exp_table_nth)
    then show ?thesis by (simp add: i(2) j(2) power_add)
  qed (auto simp: parity_gf_mul_def)
  show "GF (parity_gf_pow2 n) = GF 2 ^ n"
    using mod_less_divisor [of 255 n]
    by (simp add: parity_gf_pow2_def gf_exp_table_nth gf8_power_mod del: mod_less_divisor)
  assume "a \<noteq> 0"
  then obtain i where i: "i < 255" "a = gpow i" "unat (gf_log_table ! unat a) = i"
    using gf_log_ex by metis
  have "GF 2 ^ (255 - i) * GF 2 ^ i = 1"
    using i(1) gf8_generator_order(1) by (simp flip: power_add)
  then have "GF 2 ^ (255 - i) = inverse (GF 2 ^ i)"
    by (metis inverse_unique mult.commute)
  then show "GF (parity_gf_inv a) = inverse (GF a)"
    by (simp add: parity_gf_inv_def i(3) gf_exp_table_nth) (simp add: i(2))
qed

lemma parity_gf_mul_eq: "parity_gf_mul a b = gf_mul a b"
  by (simp add: table_gf.mul_byte stripe_gf.mul_byte)

lemma parity_gf_pow2_eq: "parity_gf_pow2 n = gf_pow2 n"
  by (metis GF_pow2 gf8.inject table_gf.GF_pow)

lemma parity_gf_inv_eq: "a \<noteq> 0 \<Longrightarrow> parity_gf_inv a = gf_inv a"
  by (metis GF_inv gf8.inject table_gf.GF_inverse)

lemma unat_gf_log: "a \<noteq> 0 \<Longrightarrow> unat (gf_log a) < 255 \<and> gpow (unat (gf_log a)) = a"
  by (metis gf_log_def gf_log_ex)

section \<open>Lanes and nibbles\<close>

text \<open>The bytes of the eight-lane product are the products of the bytes.\<close>

lemma bit_gf_mul2: "bit (gf_mul2 y) j \<longleftrightarrow>
    j < 8 \<and> ((0 < j \<and> bit y (j - 1)) \<noteq> (bit y 7 \<and> (j = 0 \<or> j = 2 \<or> j = 3 \<or> j = 4)))"
proof -
  have "drop_bit 7 y AND 1 = (if bit y 7 then 1 else 0)"
    by (simp add: and_one_eq bit_iff_odd_drop_bit odd_iff_mod_2_eq_one)
  then have e: "gf_mul2 y = push_bit 1 y XOR (if bit y 7 then 0x1D else 0)"
    by (simp add: gf_mul2_def)
  show ?thesis
  proof (cases "j < 8")
    case True
    then show ?thesis
      unfolding e bit_xor_iff bit_push_bit_iff
      by (cases "bit y 7") (auto simp: bit_simps dest!: less_8_cases)
  next
    case False
    then show ?thesis using bit_imp_le_length [of "gf_mul2 y" j] by auto
  qed
qed

lemma times_0x1D: "h * 0x1D = push_bit 4 h + push_bit 3 h + push_bit 2 h + (h :: 'a::len word)"
  by (simp add: push_bit_eq_mult algebra_simps)

lemma bit_high_lanes: "bit (drop_bit 7 (x AND 0x8080808080808080 :: u64)) n \<longleftrightarrow>
    n < 64 \<and> n mod 8 = 0 \<and> bit x (n + 7)"
proof -
  have m: "bit (0x8080808080808080 :: u64) k \<longleftrightarrow> k < 64 \<and> k mod 8 = 7" for k
  proof (cases "k < 64")
    case True
    have "list_all (\<lambda>k. bit (0x8080808080808080 :: u64) k \<longleftrightarrow> k mod 8 = 7) [0..<64]"
      by (simp add: upt_rec)
    with True show ?thesis by (simp add: list_all_iff)
  next
    case False
    then show ?thesis using bit_imp_le_length [of "0x8080808080808080 :: u64" k] by auto
  qed
  show ?thesis
    unfolding bit_drop_bit_eq o_apply bit_and_iff m
    using bit_imp_le_length [of x "n + 7"] by (auto simp: add.commute) presburger+
qed

lemma bit_high_times: "bit (drop_bit 7 (x AND 0x8080808080808080 :: u64) * 0x1D) n \<longleftrightarrow>
    n < 64 \<and> (n mod 8 = 0 \<or> n mod 8 = 2 \<or> n mod 8 = 3 \<or> n mod 8 = 4) \<and> bit x (8 * (n div 8) + 7)"
proof -
  define h where "h = drop_bit 7 (x AND 0x8080808080808080)"
  have b: "bit h k \<longleftrightarrow> k < 64 \<and> k mod 8 = 0 \<and> bit x (k + 7)" for k
    unfolding h_def by (rule bit_high_lanes)
  have p: "bit (push_bit m h) k \<longleftrightarrow> m \<le> k \<and> k < 64 \<and> (k - m) mod 8 = 0 \<and> bit x (k - m + 7)" for m k
    unfolding bit_push_bit_iff b by auto
  have r: "k mod 8 = m" if "bit (push_bit m h) k" "m < 8" for m k
  proof -
    from that(1) obtain q where "k - m = 8 * q" "m \<le> k" by (auto simp: p)
    then have "k = m + 8 * q" by simp
    with that(2) show ?thesis by simp
  qed
  note r4 = r [of 4] and r3 = r [of 3] and r2 = r [of 2]
  have r0: "k mod 8 = 0" if "bit h k" for k using that by (simp add: b)
  have z: "(u :: u64) AND v = 0" if "\<And>k. \<not> (bit u k \<and> bit v k)" for u v
    using that by (simp add: bit_eq_iff bit_and_iff)
  have d: "push_bit 4 h AND push_bit 3 h = 0" "(push_bit 4 h XOR push_bit 3 h) AND push_bit 2 h = 0"
    "(push_bit 4 h XOR push_bit 3 h XOR push_bit 2 h) AND h = 0"
    by (rule z, use r4 r3 r2 r0 in \<open>fastforce simp: bit_xor_iff\<close>)+
  have "h * 0x1D = push_bit 4 h XOR push_bit 3 h XOR push_bit 2 h XOR h"
    unfolding times_0x1D by (simp only: disjunctive_add_eq_xor d xor.assoc)
  moreover have "bit (push_bit 4 h XOR push_bit 3 h XOR push_bit 2 h XOR h) n \<longleftrightarrow>
    n < 64 \<and> (n mod 8 = 0 \<or> n mod 8 = 2 \<or> n mod 8 = 3 \<or> n mod 8 = 4) \<and> bit x (8 * (n div 8) + 7)"
  proof -
    define i j where "i = n div 8" and "j = n mod 8"
    then have n: "n = 8 * i + j" "j < 8" by simp_all
    have pj: "bit (push_bit m h) n \<longleftrightarrow> j = m \<and> n < 64 \<and> bit x (8 * i + 7)" if "m < 8" for m
      using r [of m n] that n by (cases "j = m") (auto simp: p)
    have "bit h n \<longleftrightarrow> j = 0 \<and> n < 64 \<and> bit x (8 * i + 7)"
      using n by (auto simp: b)
    then show ?thesis
      unfolding bit_xor_iff by (auto simp: pj i_def [symmetric] j_def [symmetric])
  qed
  ultimately show ?thesis by (simp only: h_def)
qed

lemma bit_gf_mul2_x8: "bit (gf_mul2_x8 x) n \<longleftrightarrow>
    n < 64 \<and> ((0 < n mod 8 \<and> bit x (n - 1)) \<noteq>
      (bit x (8 * (n div 8) + 7) \<and> (n mod 8 = 0 \<or> n mod 8 = 2 \<or> n mod 8 = 3 \<or> n mod 8 = 4)))"
proof -
  have m: "bit (0xFEFEFEFEFEFEFEFE :: u64) k \<longleftrightarrow> k < 64 \<and> 0 < k mod 8" for k
  proof (cases "k < 64")
    case True
    have "list_all (\<lambda>k. bit (0xFEFEFEFEFEFEFEFE :: u64) k \<longleftrightarrow> 0 < k mod 8) [0..<64]"
      by (simp add: upt_rec)
    with True show ?thesis by (simp add: list_all_iff)
  next
    case False
    then show ?thesis using bit_imp_le_length [of "0xFEFEFEFEFEFEFEFE :: u64" k] by auto
  qed
  show ?thesis
    unfolding gf_mul2_x8_def Let_def bit_xor_iff bit_and_iff bit_push_bit_iff m bit_high_times
    by (cases "n = 0") auto
qed

lemma gf_mul2_x8_lane:
  assumes "i < 8"
  shows "(ucast (drop_bit (8 * i) (gf_mul2_x8 x)) :: u8) = gf_mul2 (ucast (drop_bit (8 * i) x))"
proof (rule bit_word_eqI)
  fix j assume j: "j < LENGTH(8)"
  then show "bit (ucast (drop_bit (8 * i) (gf_mul2_x8 x)) :: u8) j
      = bit (gf_mul2 (ucast (drop_bit (8 * i) x))) j"
    using assms less_imp_diff_less [of j 8 1] by (cases "j = 0") (simp_all add: bit_gf_mul2 bit_ucast_iff bit_drop_bit_eq bit_gf_mul2_x8)
qed

text \<open>Multiplying by \<open>c\<close> through the two nibble tables.\<close>

lemma unat_nibbles: "unat (x AND 15 :: u8) < 16" "unat (drop_bit 4 x :: u8) < 16"
proof -
  have "x AND 15 = take_bit 4 x" by (simp add: take_bit_eq_mask mask_eq_exp_minus_1)
  then show "unat (x AND 15) < 16" using take_bit_nat_less_exp [of 4 "unat x"]
    by (simp add: unsigned_take_bit_eq)
  show "unat (drop_bit 4 x) < 16"
    using unsigned_less [where 'a = nat and w = x] by (simp add: drop_bit_eq_div unat_div)
qed

lemma nibble_tables_mul:
  "fst (nibble_tables c) ! unat (x AND 15) XOR snd (nibble_tables c) ! unat (drop_bit 4 x) = gf_mul c x"
proof -
  have x: "(x AND 15) XOR push_bit 4 (drop_bit 4 x) = x"
  proof (rule bit_word_eqI)
    fix n assume "n < LENGTH(8)"
    then show "bit ((x AND 15) XOR push_bit 4 (drop_bit 4 x)) n = bit x n"
      unfolding bit_xor_iff bit_and_iff bit_push_bit_iff bit_drop_bit_eq
      by (auto simp: bit_simps dest!: less_8_cases)
  qed
  have "fst (nibble_tables c) ! unat (x AND 15) XOR snd (nibble_tables c) ! unat (drop_bit 4 x)
      = gf_mul c (x AND 15) XOR gf_mul c (push_bit 4 (drop_bit 4 x))"
    using unat_nibbles [of x] by (simp add: nibble_tables_def parity_gf_mul_eq)
  also have "\<dots> = gf_mul c x" by (simp only: stripe_gf.mul_xor [symmetric] x)
  finally show ?thesis .
qed

end
