(* ===== verification/ParitySimd.thy ===== *)
theory ParitySimd
  imports ParityGf
begin

text \<open>
  The buffer routines of \<open>src/raid/parity.rs\<close> at every \<open>SimdLevel\<close>: the portable loops over
  \<open>u64\<close> lanes, the AVX2 loops over 32-byte registers and the NEON loops over 16-byte
  registers, with their byte tails. A vector register is the list of its bytes, and each
  intrinsic the source uses is defined on that list as its instruction set documents it.
  Every level is shown to compute the same byte-wise function.
\<close>

datatype SimdLevel = Avx512 | Avx2 | Neon | Generic

section \<open>Loops over whole registers and over the bytes left\<close>

text \<open>\<open>while i + w <= len { dst[i..i + w] = f(dst[i..i + w], src[i..i + w]); i += w }\<close>, for a
  register of \<open>w > 0\<close> bytes, and the tail loop over single bytes.\<close>

function vec_loop :: "nat \<Rightarrow> (bytes \<Rightarrow> bytes \<Rightarrow> bytes) \<Rightarrow> bytes \<Rightarrow> bytes \<Rightarrow> nat \<Rightarrow> bytes \<times> nat" where
  "vec_loop w f dst src i =
     (if 0 < w \<and> i + w \<le> length dst
      then vec_loop w f (put i (f (slice_of i (i + w) dst) (slice_of i (i + w) src)) dst) src (i + w)
      else (dst, i))"
  by pat_completeness auto
termination
  by (relation "measure (\<lambda>(w, f, dst, src, i). length dst - i)") auto

function byte_loop :: "(u8 \<Rightarrow> u8 \<Rightarrow> u8) \<Rightarrow> bytes \<Rightarrow> bytes \<Rightarrow> nat \<Rightarrow> bytes" where
  "byte_loop f dst src i =
     (if i < length dst then byte_loop f (dst[i := f (dst ! i) (src ! i)]) src (i + 1) else dst)"
  by pat_completeness auto
termination
  by (relation "measure (\<lambda>(f, dst, src, i). length dst - i)") auto

declare vec_loop.simps [simp del] byte_loop.simps [simp del]

section \<open>Portable code\<close>

text \<open>\<open>u64::from_ne_bytes\<close> and \<open>to_ne_bytes\<close>, on a little-endian machine.\<close>

definition xor_u64 :: "bytes \<Rightarrow> bytes \<Rightarrow> bytes" where
  "xor_u64 p s = to_le 8 (from_le p XOR from_le s :: u64)"

definition q_step_u64 :: "bytes \<Rightarrow> bytes \<Rightarrow> bytes" where
  "q_step_u64 x s = to_le 8 (gf_mul2_x8 (from_le x) XOR from_le s :: u64)"

definition xor_in_place_generic :: "bytes \<Rightarrow> bytes \<Rightarrow> bytes" where
  "xor_in_place_generic dst src =
     (let (dst, i) = vec_loop 8 xor_u64 dst src 0 in byte_loop (XOR) dst src i)"

definition xor_parity_generic :: "bytes list \<Rightarrow> bytes" where
  "xor_parity_generic data_strips =
     fold (\<lambda>strip parity.
         let (parity, i) = vec_loop 8 xor_u64 parity strip 0 in byte_loop (XOR) parity strip i)
       (tl data_strips) (hd data_strips)"

definition q_step_generic :: "bytes \<Rightarrow> bytes \<Rightarrow> bytes" where
  "q_step_generic q d =
     (let (q, i) = vec_loop 8 q_step_u64 q d 0
      in byte_loop (\<lambda>qb db. gf_mul2 qb XOR db) q d i)"

definition compute_q_syndrome_generic :: "bytes list \<Rightarrow> nat \<Rightarrow> bytes" where
  "compute_q_syndrome_generic data_strips len =
     fold (\<lambda>strip q. q_step_generic q strip) (rev data_strips) (replicate len 0)"

definition byte_table :: "u8 \<Rightarrow> bytes" where
  "byte_table c = map (\<lambda>b. parity_gf_mul c (of_nat b)) [0..<256]"

definition gf_mul_xor_generic :: "bytes \<Rightarrow> bytes \<Rightarrow> u8 \<Rightarrow> bytes" where
  "gf_mul_xor_generic dst src c =
     (if c = 1 then xor_in_place_generic dst src
      else (let table = byte_table c in
        map2 (\<lambda>d s. d XOR table ! unat s) dst src @ drop (length src) dst))"

definition gf_scale_generic :: "bytes \<Rightarrow> u8 \<Rightarrow> bytes" where
  "gf_scale_generic buf c = (let table = byte_table c in map (\<lambda>b. table ! unat b) buf)"

section \<open>The intrinsics\<close>

text \<open>AVX2, on 32-byte registers.\<close>

definition mm256_xor_si256 :: "bytes \<Rightarrow> bytes \<Rightarrow> bytes" where
  "mm256_xor_si256 a b = map2 (XOR) a b"

definition mm256_and_si256 :: "bytes \<Rightarrow> bytes \<Rightarrow> bytes" where
  "mm256_and_si256 a b = map2 (AND) a b"

definition mm256_add_epi8 :: "bytes \<Rightarrow> bytes \<Rightarrow> bytes" where
  "mm256_add_epi8 a b = map2 (+) a b"

definition mm256_set1_epi8 :: "u8 \<Rightarrow> bytes" where
  "mm256_set1_epi8 c = replicate 32 c"

definition mm256_cmpgt_epi8 :: "bytes \<Rightarrow> bytes \<Rightarrow> bytes" where
  "mm256_cmpgt_epi8 a b = map2 (\<lambda>x y. if sint y < sint x then - 1 else 0) a b"

definition mm256_srli_epi16 :: "bytes \<Rightarrow> nat \<Rightarrow> bytes" where
  "mm256_srli_epi16 x n =
     concat (map (\<lambda>k. to_le 2 (drop_bit n (from_le (slice_of (2 * k) (2 * k + 2) x) :: u16))) [0..<16])"

definition mm256_shuffle_epi8 :: "bytes \<Rightarrow> bytes \<Rightarrow> bytes" where
  "mm256_shuffle_epi8 a b =
     map (\<lambda>i. if bit (b ! i) 7 then 0 else a ! (16 * (i div 16) + unat (b ! i AND 15))) [0..<32]"

definition mm256_broadcastsi128 :: "bytes \<Rightarrow> bytes" where
  "mm256_broadcastsi128 v = v @ v"

text \<open>NEON, on 16-byte registers.\<close>

definition veorq_u8 :: "bytes \<Rightarrow> bytes \<Rightarrow> bytes" where
  "veorq_u8 a b = map2 (XOR) a b"

definition vandq_u8 :: "bytes \<Rightarrow> bytes \<Rightarrow> bytes" where
  "vandq_u8 a b = map2 (AND) a b"

definition vdupq_n_u8 :: "u8 \<Rightarrow> bytes" where
  "vdupq_n_u8 c = replicate 16 c"

definition vshlq_n_u8 :: "nat \<Rightarrow> bytes \<Rightarrow> bytes" where
  "vshlq_n_u8 n a = map (push_bit n) a"

definition vshrq_n_u8 :: "nat \<Rightarrow> bytes \<Rightarrow> bytes" where
  "vshrq_n_u8 n a = map (drop_bit n) a"

definition vshrq_n_s8 :: "nat \<Rightarrow> bytes \<Rightarrow> bytes" where
  "vshrq_n_s8 n a = map (signed_drop_bit n) a"

definition vqtbl1q_u8 :: "bytes \<Rightarrow> bytes \<Rightarrow> bytes" where
  "vqtbl1q_u8 t idx = map (\<lambda>i. if unat i < 16 then t ! unat i else 0) idx"

section \<open>AVX2 and NEON routines\<close>

definition mul2_avx2 :: "bytes \<Rightarrow> bytes" where
  "mul2_avx2 x =
     (let mask = mm256_cmpgt_epi8 (mm256_set1_epi8 0) x;
          red = mm256_and_si256 mask (mm256_set1_epi8 0x1D)
      in mm256_xor_si256 (mm256_add_epi8 x x) red)"

definition mul2_neon :: "bytes \<Rightarrow> bytes" where
  "mul2_neon x =
     (let mask = vshrq_n_s8 7 x
      in veorq_u8 (vshlq_n_u8 1 x) (vandq_u8 mask (vdupq_n_u8 0x1D)))"

text \<open>One column of \<open>pq_avx2\<close> / \<open>pq_neon\<close>: P and Q of the registers at offset \<open>i\<close>, from the
  last strip down to the first.\<close>

definition pq_column ::
  "(bytes \<Rightarrow> bytes \<Rightarrow> bytes) \<Rightarrow> (bytes \<Rightarrow> bytes) \<Rightarrow> nat \<Rightarrow> bytes list \<Rightarrow> nat \<Rightarrow> bytes \<times> bytes" where
  "pq_column xr mul2 w strips i =
     (let d = slice_of i (i + w) (last strips) in
      fold (\<lambda>s (pa, qa). let d = slice_of i (i + w) s in (xr pa d, xr (mul2 qa) d))
        (rev (butlast strips)) (d, d))"

function pq_loop ::
  "(bytes \<Rightarrow> bytes \<Rightarrow> bytes) \<Rightarrow> (bytes \<Rightarrow> bytes) \<Rightarrow> nat \<Rightarrow> bytes list \<Rightarrow> bytes option \<Rightarrow> bytes \<Rightarrow> nat
     \<Rightarrow> bytes option \<times> bytes \<times> nat" where
  "pq_loop xr mul2 w strips p q i =
     (if 0 < w \<and> i + w \<le> length q
      then (let (pa, qa) = pq_column xr mul2 w strips i
            in pq_loop xr mul2 w strips (map_option (put i pa) p) (put i qa q) (i + w))
      else (p, q, i))"
  by pat_completeness auto
termination
  by (relation "measure (\<lambda>(xr, m, w, strips, p, q, i). length q - i)") auto

declare pq_loop.simps [simp del]

definition pq_tail_byte :: "bytes list \<Rightarrow> nat \<Rightarrow> u8 \<times> u8" where
  "pq_tail_byte strips j =
     fold (\<lambda>s (pa, qa). (pa XOR s ! j, gf_mul2 qa XOR s ! j))
       (rev (butlast strips)) (last strips ! j, last strips ! j)"

definition pq_tail :: "bytes list \<Rightarrow> bytes option \<Rightarrow> bytes \<Rightarrow> nat \<Rightarrow> bytes option \<times> bytes" where
  "pq_tail strips p q from =
     fold (\<lambda>j (p, q). let (pa, qa) = pq_tail_byte strips j
        in (map_option (\<lambda>p. p[j := pa]) p, q[j := qa]))
       [from..<length q] (p, q)"

definition pq_avx2 :: "bytes list \<Rightarrow> bytes option \<Rightarrow> bytes \<Rightarrow> bytes option \<times> bytes" where
  "pq_avx2 strips p q =
     (let (p, q, i) = pq_loop mm256_xor_si256 mul2_avx2 32 strips p q 0 in pq_tail strips p q i)"

definition pq_neon :: "bytes list \<Rightarrow> bytes option \<Rightarrow> bytes \<Rightarrow> bytes option \<times> bytes" where
  "pq_neon strips p q =
     (let (p, q, i) = pq_loop veorq_u8 mul2_neon 16 strips p q 0 in pq_tail strips p q i)"

definition q_step_avx2 :: "bytes \<Rightarrow> bytes \<Rightarrow> bytes" where
  "q_step_avx2 q d =
     (let (q, i) = vec_loop 32 (\<lambda>x s. mm256_xor_si256 (mul2_avx2 x) s) q d 0
      in take i q @ q_step_generic (drop i q) (drop i d))"

definition q_step_neon :: "bytes \<Rightarrow> bytes \<Rightarrow> bytes" where
  "q_step_neon q d =
     (let (q, i) = vec_loop 16 (\<lambda>x s. veorq_u8 (mul2_neon x) s) q d 0
      in take i q @ q_step_generic (drop i q) (drop i d))"

definition xor_in_place_avx2 :: "bytes \<Rightarrow> bytes \<Rightarrow> bytes" where
  "xor_in_place_avx2 dst src =
     (let (dst, i) = vec_loop 32 mm256_xor_si256 dst src 0 in byte_loop (XOR) dst src i)"

definition xor_in_place_neon :: "bytes \<Rightarrow> bytes \<Rightarrow> bytes" where
  "xor_in_place_neon dst src =
     (let (dst, i) = vec_loop 16 veorq_u8 dst src 0 in byte_loop (XOR) dst src i)"

definition xor_parity_avx2 :: "bytes list \<Rightarrow> bytes" where
  "xor_parity_avx2 data_strips =
     fold (\<lambda>strip parity.
         let (parity, i) = vec_loop 32 mm256_xor_si256 parity strip 0 in byte_loop (XOR) parity strip i)
       (tl data_strips) (hd data_strips)"

definition xor_parity_neon :: "bytes list \<Rightarrow> bytes" where
  "xor_parity_neon data_strips =
     fold (\<lambda>strip parity.
         let (parity, i) = vec_loop 16 veorq_u8 parity strip 0 in byte_loop (XOR) parity strip i)
       (tl data_strips) (hd data_strips)"

text \<open>The nibble lookups of one register, and the two uses of them: \<open>dst ^= c * src\<close> with a
  source, \<open>dst = c * dst\<close> without.\<close>

definition lookup_avx2 :: "bytes \<times> bytes \<Rightarrow> bytes \<Rightarrow> bytes" where
  "lookup_avx2 t x =
     (let lo = mm256_broadcastsi128 (fst t);
          hi = mm256_broadcastsi128 (snd t);
          nib = mm256_set1_epi8 0x0F;
          l = mm256_shuffle_epi8 lo (mm256_and_si256 x nib);
          h = mm256_shuffle_epi8 hi (mm256_and_si256 (mm256_srli_epi16 x 4) nib)
      in mm256_xor_si256 l h)"

definition lookup_neon :: "bytes \<times> bytes \<Rightarrow> bytes \<Rightarrow> bytes" where
  "lookup_neon t x =
     (let l = vqtbl1q_u8 (fst t) (vandq_u8 x (vdupq_n_u8 0x0F));
          h = vqtbl1q_u8 (snd t) (vshrq_n_u8 4 x)
      in veorq_u8 l h)"

definition nibble_byte :: "bytes \<times> bytes \<Rightarrow> u8 \<Rightarrow> u8" where
  "nibble_byte t x = fst t ! unat (x AND 15) XOR snd t ! unat (drop_bit 4 x)"

definition gf_mul_tail :: "bytes \<Rightarrow> bytes option \<Rightarrow> bytes \<times> bytes \<Rightarrow> nat \<Rightarrow> bytes" where
  "gf_mul_tail dst src t from =
     (case src of
        Some s \<Rightarrow> byte_loop (\<lambda>d x. d XOR nibble_byte t x) dst s from
      | None \<Rightarrow> byte_loop (\<lambda>d _. nibble_byte t d) dst dst from)"

definition gf_mul_avx2 :: "bytes \<Rightarrow> bytes option \<Rightarrow> bytes \<times> bytes \<Rightarrow> bytes" where
  "gf_mul_avx2 dst src t =
     (case src of
        Some s \<Rightarrow> (let (dst, i) = vec_loop 32 (\<lambda>d x. mm256_xor_si256 (lookup_avx2 t x) d) dst s 0
                   in gf_mul_tail dst src t i)
      | None \<Rightarrow> (let (dst, i) = vec_loop 32 (\<lambda>d _. lookup_avx2 t d) dst dst 0
                 in gf_mul_tail dst src t i))"

definition gf_mul_neon :: "bytes \<Rightarrow> bytes option \<Rightarrow> bytes \<times> bytes \<Rightarrow> bytes" where
  "gf_mul_neon dst src t =
     (case src of
        Some s \<Rightarrow> (let (dst, i) = vec_loop 16 (\<lambda>d x. veorq_u8 (lookup_neon t x) d) dst s 0
                   in gf_mul_tail dst src t i)
      | None \<Rightarrow> (let (dst, i) = vec_loop 16 (\<lambda>d _. lookup_neon t d) dst dst 0
                 in gf_mul_tail dst src t i))"

section \<open>Dispatch on the level\<close>

fun pq_at :: "SimdLevel \<Rightarrow> bytes list \<Rightarrow> bytes option \<Rightarrow> bytes \<Rightarrow> bytes option \<times> bytes" where
  "pq_at Generic data_strips p q =
     (map_option (\<lambda>_. xor_parity_generic data_strips) p,
      compute_q_syndrome_generic data_strips (length q))"
| "pq_at Neon data_strips p q = pq_neon data_strips p q"
| "pq_at _ data_strips p q = pq_avx2 data_strips p q"

text \<open>The functions that assert their lengths return \<open>None\<close> where the assertion panics.\<close>

definition q_step_at :: "SimdLevel \<Rightarrow> bytes \<Rightarrow> bytes \<Rightarrow> bytes option" where
  "q_step_at level q d =
     (if length q \<noteq> length d then None
      else Some (case level of
          Generic \<Rightarrow> q_step_generic q d
        | Neon \<Rightarrow> q_step_neon q d
        | _ \<Rightarrow> q_step_avx2 q d))"

definition gf_mul_xor_at :: "SimdLevel \<Rightarrow> bytes \<Rightarrow> bytes \<Rightarrow> u8 \<Rightarrow> bytes option" where
  "gf_mul_xor_at level dst src c =
     (if length dst \<noteq> length src then None
      else if c = 0 then Some dst
      else Some (case level of
          Generic \<Rightarrow> gf_mul_xor_generic dst src c
        | Neon \<Rightarrow> (if c = 1 then xor_in_place_neon dst src
                  else gf_mul_neon dst (Some src) (nibble_tables c))
        | _ \<Rightarrow> (if c = 1 then xor_in_place_avx2 dst src
               else gf_mul_avx2 dst (Some src) (nibble_tables c))))"

definition gf_scale_at :: "SimdLevel \<Rightarrow> bytes \<Rightarrow> u8 \<Rightarrow> bytes" where
  "gf_scale_at level buf c =
     (case level of
        Generic \<Rightarrow> gf_scale_generic buf c
      | Neon \<Rightarrow> gf_mul_neon buf None (nibble_tables c)
      | _ \<Rightarrow> gf_mul_avx2 buf None (nibble_tables c))"

definition xor_in_place :: "SimdLevel \<Rightarrow> bytes \<Rightarrow> bytes \<Rightarrow> bytes option" where
  "xor_in_place level dst src =
     (if length dst \<noteq> length src then None
      else Some (case level of
          Generic \<Rightarrow> xor_in_place_generic dst src
        | Neon \<Rightarrow> xor_in_place_neon dst src
        | _ \<Rightarrow> xor_in_place_avx2 dst src))"

definition compute_xor_parity :: "SimdLevel \<Rightarrow> bytes list \<Rightarrow> nat \<Rightarrow> bytes option" where
  "compute_xor_parity level data_strips len =
     (if data_strips = [] \<or> \<not> list_all (\<lambda>s. length s = len) data_strips then None
      else Some (case level of
          Generic \<Rightarrow> xor_parity_generic data_strips
        | Neon \<Rightarrow> xor_parity_neon data_strips
        | _ \<Rightarrow> xor_parity_avx2 data_strips))"

definition compute_raid6_parity ::
  "SimdLevel \<Rightarrow> bytes list \<Rightarrow> bytes \<Rightarrow> bytes \<Rightarrow> (bytes option \<times> bytes) option" where
  "compute_raid6_parity level data_strips p q =
     (if data_strips = [] \<or> length q \<noteq> length p
         \<or> \<not> list_all (\<lambda>s. length s = length p) data_strips then None
      else Some (pq_at level data_strips (Some p) q))"

definition q_update :: "SimdLevel \<Rightarrow> bytes \<Rightarrow> bytes \<Rightarrow> nat \<Rightarrow> bytes option" where
  "q_update level q delta index = gf_mul_xor_at level q delta (parity_gf_pow2 index)"

definition reconstruct_xor :: "SimdLevel \<Rightarrow> bytes list \<Rightarrow> nat \<Rightarrow> bytes option" where
  "reconstruct_xor level surviving len = compute_xor_parity level surviving len"

section \<open>The loops are byte-wise\<close>

text \<open>\<open>lanewise w f g\<close>: the register function \<open>f\<close> acts on each of its \<open>w\<close> bytes as \<open>g\<close>.\<close>

definition lanewise :: "nat \<Rightarrow> (bytes \<Rightarrow> bytes \<Rightarrow> bytes) \<Rightarrow> (u8 \<Rightarrow> u8 \<Rightarrow> u8) \<Rightarrow> bool" where
  "lanewise w f g \<longleftrightarrow> (\<forall>a b. length a = w \<and> length b = w \<longrightarrow> f a b = map2 g a b)"

lemma slice_split: "a \<le> b \<Longrightarrow> b \<le> c \<Longrightarrow> slice_of a b xs @ slice_of b c xs = slice_of a c xs"
  using take_add [of "b - a" "c - b" "drop a xs"] by (simp add: slice_of_def)

lemma vec_loop_spec:
  assumes "0 < w" "lanewise w f g" "length src = length dst" "i \<le> length dst"
    and "vec_loop w f dst src i = (dst', i')"
  shows "i' \<le> length dst \<and>
    dst' = take i dst @ map2 g (slice_of i i' dst) (slice_of i i' src) @ drop i' dst \<and> i \<le> i'"
  using assms
proof (induction w f dst src i rule: vec_loop.induct)
  case (1 w f dst src i)
  show ?case
  proof (cases "i + w \<le> length dst")
    case True
    define d1 where "d1 = put i (f (slice_of i (i + w) dst) (slice_of i (i + w) src)) dst"
    have f: "f (slice_of i (i + w) dst) (slice_of i (i + w) src)
        = map2 g (slice_of i (i + w) dst) (slice_of i (i + w) src)"
      using 1(3) True 1(4) by (simp add: lanewise_def)
    have l: "length d1 = length dst" by (simp add: d1_def)
    have v: "vec_loop w f d1 src (i + w) = (dst', i')"
      using 1(6) True 1(2) by (subst (asm) vec_loop.simps) (simp add: d1_def)
    have "i' \<le> length d1 \<and> dst' = take (i + w) d1
        @ map2 g (slice_of (i + w) i' d1) (slice_of (i + w) i' src) @ drop i' d1 \<and> i + w \<le> i'"
      using 1(1) True 1(2-4) v l by (simp add: d1_def)
    then have i': "i' \<le> length dst" "i + w \<le> i'" and
      e: "dst' = take (i + w) d1
        @ map2 g (slice_of (i + w) i' d1) (slice_of (i + w) i' src) @ drop i' d1"
      by (simp_all add: l)
    have d1: "d1 = take i dst @ map2 g (slice_of i (i + w) dst) (slice_of i (i + w) src) @ drop (i + w) dst"
      using True 1(4) unfolding d1_def f by (subst put_append) simp_all
    have "take (i + w) d1 = take i dst @ map2 g (slice_of i (i + w) dst) (slice_of i (i + w) src)"
      "slice_of (i + w) i' d1 = slice_of (i + w) i' dst" "drop i' d1 = drop i' dst"
      using True 1(4) i' by (simp_all add: d1 slice_of_def)
    moreover have "map2 g (slice_of i (i + w) dst) (slice_of i (i + w) src)
        @ map2 g (slice_of (i + w) i' dst) (slice_of (i + w) i' src)
        = map2 g (slice_of i i' dst) (slice_of i i' src)"
      using True 1(4) i' by (simp flip: map_append zip_append add: slice_split)
    ultimately show ?thesis using i' 1(5) by (simp add: e)
  next
    case False
    then have "dst' = dst \<and> i' = i" using 1(6) by (subst (asm) vec_loop.simps) simp
    then show ?thesis using 1(5) by (simp add: slice_of_def)
  qed
qed

lemma byte_loop_spec:
  assumes "length src = length dst" "i \<le> length dst"
  shows "byte_loop g dst src i = take i dst @ map2 g (drop i dst) (drop i src)"
  using assms
proof (induction g dst src i rule: byte_loop.induct)
  case (1 g dst src i)
  show ?case
  proof (cases "i < length dst")
    case True
    have "byte_loop g dst src i = byte_loop g (dst[i := g (dst ! i) (src ! i)]) src (i + 1)"
      using True by (subst byte_loop.simps) simp
    also have "\<dots> = take (i + 1) (dst[i := g (dst ! i) (src ! i)])
        @ map2 g (drop (i + 1) (dst[i := g (dst ! i) (src ! i)])) (drop (i + 1) src)"
      using 1 True by simp
    also have "\<dots> = take i dst @ map2 g (drop i dst) (drop i src)"
      using True 1(2) by (simp add: take_Suc_conv_app_nth Cons_nth_drop_Suc [symmetric])
    finally show ?thesis .
  next
    case False
    then show ?thesis using 1(3) by (subst byte_loop.simps) simp
  qed
qed

lemma vec_byte_loop:
  assumes "0 < w" "lanewise w f g" "length src = length dst"
  shows "(let (d, i) = vec_loop w f dst src 0 in byte_loop g d src i) = map2 g dst src"
proof -
  obtain d i where v: "vec_loop w f dst src 0 = (d, i)" by (metis surj_pair)
  have i: "i \<le> length dst"
    and d: "d = map2 g (take i dst) (take i src) @ drop i dst"
    using vec_loop_spec [OF assms _ v] by (simp_all add: slice_of_def)
  have "byte_loop g d src i = take i d @ map2 g (drop i d) (drop i src)"
    using i by (intro byte_loop_spec) (simp_all add: d assms(3))
  also have "\<dots> = map2 g (take i dst @ drop i dst) (take i src @ drop i src)"
    using i assms(3) by (subst zip_append) (simp_all add: d)
  finally show ?thesis by (simp add: v)
qed

lemma lane_to_le:
  assumes "length a = 8" "length b = 8"
    and "\<And>i. i < 8 \<Longrightarrow> (ucast (drop_bit (8 * i) (f (from_le a) (from_le b) :: u64)) :: u8)
      = g (ucast (drop_bit (8 * i) (from_le a :: u64))) (ucast (drop_bit (8 * i) (from_le b :: u64)))"
  shows "to_le 8 (f (from_le a) (from_le b)) = map2 g a b"
proof (rule nth_equalityI)
  show "length (to_le 8 (f (from_le a) (from_le b))) = length (map2 g a b)" using assms by simp
  fix i assume "i < length (to_le 8 (f (from_le a) (from_le b)))"
  then have i: "i < 8" by simp
  have l: "ucast (drop_bit (8 * i) (from_le c :: u64)) = c ! i" if "length c = 8" for c :: bytes
  proof (rule bit_word_eqI)
    fix j assume "j < LENGTH(8)"
    then show "bit (ucast (drop_bit (8 * i) (from_le c :: u64)) :: u8) j = bit (c ! i) j"
      using i that by (simp add: bit_ucast_iff bit_drop_bit_eq bit_from_le)
  qed
  show "to_le 8 (f (from_le a) (from_le b)) ! i = map2 g a b ! i"
    using i assms(1,2) by (simp add: to_le_def assms(3) l)
qed

lemma lanewise_xor_u64: "lanewise 8 xor_u64 (XOR)"
  unfolding lanewise_def xor_u64_def
  by (intro allI impI lane_to_le) (auto intro!: bit_word_eqI simp: bit_simps)

lemma lanewise_q_step_u64: "lanewise 8 q_step_u64 (\<lambda>q d. gf_mul2 q XOR d)"
  unfolding lanewise_def q_step_u64_def
proof (intro allI impI, rule lane_to_le [where f = "\<lambda>x s. gf_mul2_x8 x XOR s"])
  fix a b :: bytes and i :: nat
  assume "i < 8"
  then show "(ucast (drop_bit (8 * i) (gf_mul2_x8 (from_le a) XOR from_le b)) :: u8)
      = gf_mul2 (ucast (drop_bit (8 * i) (from_le a :: u64))) XOR ucast (drop_bit (8 * i) (from_le b :: u64))"
    by (simp flip: gf_mul2_x8_lane) (rule bit_word_eqI, simp add: bit_simps)
qed simp_all

lemma lanewise_avx2_xor: "lanewise 32 mm256_xor_si256 (XOR)"
  by (simp add: lanewise_def mm256_xor_si256_def)

lemma lanewise_neon_xor: "lanewise 16 veorq_u8 (XOR)"
  by (simp add: lanewise_def veorq_u8_def)

lemma gf_mul2_mask: "gf_mul2 x = push_bit 1 x XOR (if bit x 7 then 0x1D else 0)"
proof -
  have "drop_bit 7 x AND 1 = (if bit x 7 then 1 else 0)"
    by (simp add: and_one_eq bit_iff_odd_drop_bit odd_iff_mod_2_eq_one)
  then show ?thesis by (simp add: gf_mul2_def)
qed

lemma mul2_avx2_map: "length x = 32 \<Longrightarrow> mul2_avx2 x = map gf_mul2 x"
proof (rule nth_equalityI)
  assume l: "length x = 32"
  then show "length (mul2_avx2 x) = length (map gf_mul2 x)"
    by (simp add: mul2_avx2_def mm256_cmpgt_epi8_def mm256_and_si256_def mm256_set1_epi8_def
        mm256_xor_si256_def mm256_add_epi8_def Let_def)
  fix i assume "i < length (mul2_avx2 x)"
  then have i: "i < 32" using l by (simp add: mul2_avx2_def mm256_cmpgt_epi8_def mm256_and_si256_def
        mm256_set1_epi8_def mm256_xor_si256_def mm256_add_epi8_def Let_def)
  have s: "sint (x ! i) < 0 \<longleftrightarrow> bit (x ! i) 7"
    using bit_last_iff [of "x ! i"] by simp
  have "x ! i + x ! i = push_bit 1 (x ! i)" by simp
  then show "mul2_avx2 x ! i = map gf_mul2 x ! i"
    using i l by (simp add: mul2_avx2_def mm256_cmpgt_epi8_def mm256_and_si256_def
        mm256_set1_epi8_def mm256_xor_si256_def mm256_add_epi8_def Let_def gf_mul2_mask s mult.commute [of 2])
qed

lemma mul2_neon_map: "length x = 16 \<Longrightarrow> mul2_neon x = map gf_mul2 x"
proof (rule nth_equalityI)
  assume l: "length x = 16"
  then show "length (mul2_neon x) = length (map gf_mul2 x)"
    by (simp add: mul2_neon_def vshrq_n_s8_def vandq_u8_def vdupq_n_u8_def veorq_u8_def
        vshlq_n_u8_def Let_def)
  fix i assume "i < length (mul2_neon x)"
  then have i: "i < 16" using l by (simp add: mul2_neon_def vshrq_n_s8_def vandq_u8_def vdupq_n_u8_def veorq_u8_def
        vshlq_n_u8_def Let_def)
  have s: "signed_drop_bit 7 (x ! i) = (if bit (x ! i) 7 then - 1 else 0)"
    by (rule bit_word_eqI) (auto simp: bit_signed_drop_bit_iff dest!: less_8_cases)
  show "mul2_neon x ! i = map gf_mul2 x ! i"
    using i l by (simp add: mul2_neon_def vshrq_n_s8_def vandq_u8_def vdupq_n_u8_def veorq_u8_def
        vshlq_n_u8_def Let_def gf_mul2_mask s)
qed

lemma lanewise_avx2_q: "lanewise 32 (\<lambda>x s. mm256_xor_si256 (mul2_avx2 x) s) (\<lambda>q d. gf_mul2 q XOR d)"
  by (simp add: lanewise_def mul2_avx2_map mm256_xor_si256_def zip_map1 comp_def case_prod_beta)

lemma lanewise_neon_q: "lanewise 16 (\<lambda>x s. veorq_u8 (mul2_neon x) s) (\<lambda>q d. gf_mul2 q XOR d)"
  by (simp add: lanewise_def mul2_neon_map veorq_u8_def zip_map1 comp_def case_prod_beta)

lemma length_concat_pairs:
  "(\<And>k. k < n \<Longrightarrow> length (f k) = 2) \<Longrightarrow> length (concat (map f [0..<n])) = 2 * n"
  by (induction n) simp_all

lemma nth_concat_pairs:
  assumes "\<And>k. k < n \<Longrightarrow> length (f k) = 2" "i < 2 * n"
  shows "concat (map f [0..<n]) ! i = f (i div 2) ! (i mod 2)"
  using assms
proof (induction n)
  case (Suc n)
  have l: "length (concat (map f [0..<n])) = 2 * n"
    using Suc.prems(1) by (intro length_concat_pairs) simp
  show ?case
  proof (cases "i < 2 * n")
    case True
    then show ?thesis using Suc l by (simp add: nth_append)
  next
    case False
    with Suc.prems(2) have "i = 2 * n \<or> i = 2 * n + 1" by arith
    then show ?thesis using l by (auto simp: nth_append)
  qed
qed simp

lemma bit_u8_high [simp]: "8 \<le> n \<Longrightarrow> bit (y :: u8) n \<longleftrightarrow> False"
  using bit_imp_le_length [of y n] by auto

lemma srli_nibble:
  assumes "length x = 32" "i < 32"
  shows "mm256_srli_epi16 x 4 ! i AND 0x0F = drop_bit 4 (x ! i)"
proof -
  define c where "c = slice_of (2 * (i div 2)) (2 * (i div 2) + 2) x"
  have e: "mm256_srli_epi16 x 4 ! i = to_le 2 (drop_bit 4 (from_le c :: u16)) ! (i mod 2)"
    unfolding mm256_srli_epi16_def c_def using assms(2) by (intro nth_concat_pairs) simp_all
  have c: "length c = 2" "c ! (i mod 2) = x ! i"
  proof -
    have "2 * (i div 2) + 2 \<le> 32" using assms(2) by arith
    then show "length c = 2" "c ! (i mod 2) = x ! i"
      unfolding c_def using assms by (simp_all add: nth_slice min_absorb1)
  qed
  consider "i mod 2 = 0" | "i mod 2 = 1" by arith
  then show ?thesis
  proof cases
    case 1
    show ?thesis
      by (rule bit_word_eqI, use 1 c in \<open>auto simp: e to_le_def bit_and_iff
          bit_ucast_iff bit_drop_bit_eq bit_from_le dest!: less_8_cases\<close>)
  next
    case 2
    show ?thesis
      by (rule bit_word_eqI, use 2 c in \<open>auto simp: e to_le_def bit_and_iff
          bit_ucast_iff bit_drop_bit_eq bit_from_le dest!: less_8_cases\<close>)
  qed
qed

lemma lookup_avx2_map:
  assumes "length x = 32" "length (fst t) = 16" "length (snd t) = 16"
  shows "lookup_avx2 t x = map (nibble_byte t) x"
proof (rule nth_equalityI)
  have ls: "length (mm256_srli_epi16 x 4) = 32"
    unfolding mm256_srli_epi16_def by (subst length_concat_pairs) simp_all
  show l: "length (lookup_avx2 t x) = length (map (nibble_byte t) x)"
    using assms by (simp add: lookup_avx2_def mm256_xor_si256_def mm256_shuffle_epi8_def Let_def)
  fix i assume "i < length (lookup_avx2 t x)"
  then have i: "i < 32" using l assms by simp
  have nb: "\<not> bit (y AND 0x0F :: u8) 7" "\<not> bit (drop_bit 4 y :: u8) 7" for y
    by (simp_all add: bit_and_iff bit_drop_bit_eq)
  have n4: "(y AND 15) AND 15 = (y AND 15 :: u8)" "drop_bit 4 y AND 15 = (drop_bit 4 y :: u8)" for y
    by (rule bit_word_eqI, auto simp: bit_and_iff bit_drop_bit_eq dest!: less_8_cases)+
  have bc: "(v @ v) ! (16 * (i div 16) + k) = v ! k" if "length v = 16" "k < 16" for v :: bytes and k
  proof -
    obtain q where q: "i div 16 = q" "q = 0 \<or> q = 1" using i by fastforce
    then show ?thesis unfolding q(1) using that by (auto simp: nth_append)
  qed
  have lo: "mm256_and_si256 x (mm256_set1_epi8 0x0F) ! i = x ! i AND 0x0F"
    using assms(1) i by (simp add: mm256_and_si256_def mm256_set1_epi8_def)
  have hi: "mm256_and_si256 (mm256_srli_epi16 x 4) (mm256_set1_epi8 0x0F) ! i = drop_bit 4 (x ! i)"
    using ls i srli_nibble [OF assms(1) i] by (simp add: mm256_and_si256_def mm256_set1_epi8_def)
  have nx: "mm256_xor_si256 a b ! i = a ! i XOR b ! i" if "length a = 32" "length b = 32" for a b
    using that i by (simp add: mm256_xor_si256_def)
  have sh: "mm256_shuffle_epi8 (v @ v) b ! i = (if bit (b ! i) 7 then 0 else v ! unat (b ! i AND 15))"
    if "length v = 16" for v b
    using i bc [OF that unat_nibbles(1)] by (simp add: mm256_shuffle_epi8_def)
  have "lookup_avx2 t x ! i = fst t ! unat (x ! i AND 15) XOR snd t ! unat (drop_bit 4 (x ! i))"
    unfolding lookup_avx2_def Let_def mm256_broadcastsi128_def
    by (subst nx) (simp_all only: sh assms(2,3) lo hi nb n4 if_False, simp_all add: mm256_shuffle_epi8_def)
  then show "lookup_avx2 t x ! i = map (nibble_byte t) x ! i"
    using i assms(1) by (simp add: nibble_byte_def)
qed

lemma lookup_neon_map:
  assumes "length x = 16"
  shows "lookup_neon t x = map (nibble_byte t) x"
proof -
  have "vandq_u8 x (vdupq_n_u8 0x0F) = map (\<lambda>b. b AND 0x0F) x"
    using assms by (intro nth_equalityI) (simp_all add: vandq_u8_def vdupq_n_u8_def)
  then show ?thesis
    using unat_nibbles
    by (simp add: lookup_neon_def veorq_u8_def vqtbl1q_u8_def vshrq_n_u8_def nibble_byte_def comp_def
        zip_map_map zip_same_conv_map del: drop_bit_eq_div)
qed

lemma length_nibble_tables [simp]:
  "length (fst (nibble_tables c)) = 16" "length (snd (nibble_tables c)) = 16"
  by (simp_all add: nibble_tables_def)

lemma nibble_byte_mul: "nibble_byte (nibble_tables c) x = gf_mul c x"
  by (simp only: nibble_byte_def nibble_tables_mul)

lemma byte_table_mul: "byte_table c ! unat b = gf_mul c b"
  using unsigned_less [where 'a = nat and w = b] by (simp add: byte_table_def parity_gf_mul_eq)

section \<open>Every level computes the same bytes\<close>

lemma xor_in_place_all:
  assumes "length src = length dst"
  shows "xor_in_place_generic dst src = map2 (XOR) dst src"
    and "xor_in_place_avx2 dst src = map2 (XOR) dst src"
    and "xor_in_place_neon dst src = map2 (XOR) dst src"
  unfolding xor_in_place_generic_def xor_in_place_avx2_def xor_in_place_neon_def
  by (rule vec_byte_loop; simp add: assms lanewise_xor_u64 lanewise_avx2_xor lanewise_neon_xor)+

lemma xor_in_place_spec:
  "length src = length dst \<Longrightarrow> xor_in_place level dst src = Some (map2 (XOR) dst src)"
  by (cases level) (simp_all add: xor_in_place_def xor_in_place_all)

text \<open>The exclusive or of the strips, as a fold of \<open>map2\<close>.\<close>

definition xor_strips :: "bytes list \<Rightarrow> bytes" where
  "xor_strips strips = fold (\<lambda>s p. map2 (XOR) p s) (tl strips) (hd strips)"

lemma xor_parity_loop:
  assumes "0 < w" "lanewise w f (XOR)" "length p = len" "\<forall>s \<in> set strips. length s = len"
  shows "fold (\<lambda>strip parity. let (parity, i) = vec_loop w f parity strip 0 in byte_loop (XOR) parity strip i)
    strips p = fold (\<lambda>s p. map2 (XOR) p s) strips p"
  using assms(3,4)
proof (induction strips arbitrary: p)
  case (Cons s strips)
  then have "(let (parity, i) = vec_loop w f p s 0 in byte_loop (XOR) parity s i) = map2 (XOR) p s"
    by (intro vec_byte_loop assms) simp
  with Cons show ?case by simp
qed simp

lemma xor_parity_all:
  assumes "strips \<noteq> []" "\<forall>s \<in> set strips. length s = len"
  shows "xor_parity_generic strips = xor_strips strips"
    and "xor_parity_avx2 strips = xor_strips strips"
    and "xor_parity_neon strips = xor_strips strips"
  unfolding xor_parity_generic_def xor_parity_avx2_def xor_parity_neon_def xor_strips_def
  by (rule xor_parity_loop [where len = len]; use assms in
      \<open>simp add: lanewise_xor_u64 lanewise_avx2_xor lanewise_neon_xor list.set_sel\<close>)+

lemma compute_xor_parity_spec:
  assumes "strips \<noteq> []" "\<forall>s \<in> set strips. length s = len"
  shows "compute_xor_parity level strips len = Some (xor_strips strips)"
  using assms xor_parity_all [OF assms]
  by (cases level) (simp_all add: compute_xor_parity_def list_all_iff)

lemma q_step_generic_map: "length d = length q \<Longrightarrow> q_step_generic q d = map2 (\<lambda>q d. gf_mul2 q XOR d) q d"
  unfolding q_step_generic_def by (rule vec_byte_loop) (simp_all add: lanewise_q_step_u64)

lemma q_step_vec:
  assumes "0 < w" "lanewise w f (\<lambda>q d. gf_mul2 q XOR d)" "length d = length q"
  shows "(let (q, i) = vec_loop w f q d 0 in take i q @ q_step_generic (drop i q) (drop i d))
    = map2 (\<lambda>q d. gf_mul2 q XOR d) q d"
proof -
  obtain q' i where v: "vec_loop w f q d 0 = (q', i)" by (metis surj_pair)
  have i: "i \<le> length q"
    and q': "q' = map2 (\<lambda>q d. gf_mul2 q XOR d) (take i q) (take i d) @ drop i q"
    using vec_loop_spec [OF assms _ v] by (simp_all add: slice_of_def)
  have "take i q' @ q_step_generic (drop i q') (drop i d)
      = map2 (\<lambda>q d. gf_mul2 q XOR d) (take i q @ drop i q) (take i d @ drop i d)"
    using i assms(3) by (subst zip_append) (simp_all add: q' q_step_generic_map)
  then show ?thesis by (simp add: v)
qed

lemma q_step_spec:
  "length d = length q \<Longrightarrow> q_step_at level q d = Some (map2 (\<lambda>q d. gf_mul2 q XOR d) q d)"
  by (cases level) (simp_all add: q_step_at_def q_step_generic_map q_step_avx2_def q_step_neon_def
      q_step_vec lanewise_avx2_q lanewise_neon_q)

lemma lanewise_lookup:
  "lanewise 32 (\<lambda>d x. mm256_xor_si256 (lookup_avx2 (nibble_tables c) x) d) (\<lambda>d x. d XOR gf_mul c x)"
  "lanewise 16 (\<lambda>d x. veorq_u8 (lookup_neon (nibble_tables c) x) d) (\<lambda>d x. d XOR gf_mul c x)"
  by (auto simp: lanewise_def lookup_avx2_map lookup_neon_map nibble_byte_mul mm256_xor_si256_def
      veorq_u8_def xor.commute intro!: nth_equalityI)

lemma gf_mul_xor_spec:
  assumes "length src = length dst"
  shows "gf_mul_xor_at level dst src c = Some (map2 (\<lambda>d x. d XOR gf_mul c x) dst src)"
proof -
  have z: "map2 (\<lambda>d x. d XOR gf_mul 0 x) dst src = dst"
    using assms by (auto simp: stripe_gf.mul_0 intro!: nth_equalityI)
  have o: "map2 (\<lambda>d x. d XOR gf_mul 1 x) dst src = map2 (XOR) dst src"
    by (simp add: stripe_gf.mul_1)
  have "gf_mul_avx2 dst (Some src) (nibble_tables c) = map2 (\<lambda>d x. d XOR gf_mul c x) dst src"
    and "gf_mul_neon dst (Some src) (nibble_tables c) = map2 (\<lambda>d x. d XOR gf_mul c x) dst src"
    unfolding gf_mul_avx2_def gf_mul_neon_def gf_mul_tail_def option.case nibble_byte_mul
    by (rule vec_byte_loop; simp add: lanewise_lookup assms)+
  then show ?thesis
    using assms z o
    by (cases level) (auto simp: gf_mul_xor_at_def xor_in_place_all gf_mul_xor_generic_def byte_table_mul)
qed

lemma lanewise_scale:
  "lanewise 32 (\<lambda>d x. lookup_avx2 (nibble_tables c) d) (\<lambda>d x. gf_mul c d)"
  "lanewise 16 (\<lambda>d x. lookup_neon (nibble_tables c) d) (\<lambda>d x. gf_mul c d)"
  by (auto simp: lanewise_def lookup_avx2_map lookup_neon_map nibble_byte_mul intro!: nth_equalityI)

lemma gf_scale_spec: "gf_scale_at level buf c = map (gf_mul c) buf"
proof -
  have m: "map2 (\<lambda>d x. gf_mul c d) buf buf = map (gf_mul c) buf"
    by (simp add: zip_same_conv_map)
  have "gf_mul_avx2 buf None (nibble_tables c) = map (gf_mul c) buf"
    and "gf_mul_neon buf None (nibble_tables c) = map (gf_mul c) buf"
  proof -
    have t: "byte_loop (\<lambda>d x. gf_mul c d) d d i = byte_loop (\<lambda>d x. gf_mul c d) d buf i"
      if "length d = length buf" "i \<le> length d" for d i
      using that by (simp add: byte_loop_spec zip_same_conv_map)
        (auto intro!: nth_equalityI)
    have v: "(let (d, i) = vec_loop w f buf buf 0 in byte_loop (\<lambda>d x. gf_mul c d) d d i) = map (gf_mul c) buf"
      if "0 < w" "lanewise w f (\<lambda>d x. gf_mul c d)" for w f
    proof -
      obtain d i where di: "vec_loop w f buf buf 0 = (d, i)" by (metis surj_pair)
      have i: "i \<le> length buf \<and> d = map2 (\<lambda>d x. gf_mul c d) (take i buf) (take i buf) @ drop i buf"
        using vec_loop_spec [OF that refl _ di] by (simp add: slice_of_def)
      then have "length d = length buf" "i \<le> length d" by auto
      from t [OF this] vec_byte_loop [OF that refl, of buf] show ?thesis by (simp add: di m)
    qed
    show "gf_mul_avx2 buf None (nibble_tables c) = map (gf_mul c) buf"
      "gf_mul_neon buf None (nibble_tables c) = map (gf_mul c) buf"
      unfolding gf_mul_avx2_def gf_mul_neon_def gf_mul_tail_def option.case nibble_byte_mul
      by (rule v; simp add: lanewise_scale)+
  qed
  then show ?thesis
    by (cases level) (simp_all add: gf_scale_at_def gf_scale_generic_def byte_table_mul)
qed

section \<open>P and Q of a stripe\<close>

text \<open>What the parities are: the sums over the strips, in the field, of byte \<open>j\<close>.\<close>

definition p_sum :: "bytes list \<Rightarrow> nat \<Rightarrow> u8" where
  "p_sum strips j = byte (\<Sum>i < length strips. GF (strips ! i ! j))"

definition q_sum :: "bytes list \<Rightarrow> nat \<Rightarrow> u8" where
  "q_sum strips j = byte (\<Sum>i < length strips. GF 2 ^ i * GF (strips ! i ! j))"

lemma p_sum_simps [simp]:
  "p_sum [] j = 0" "p_sum (s # strips) j = p_sum strips j XOR s ! j"
  by (simp_all add: p_sum_def sum.lessThan_Suc_shift byte_ring xor.commute del: sum.lessThan_Suc)

lemma q_sum_simps [simp]:
  "q_sum [] j = 0" "q_sum (s # strips) j = gf_mul2 (q_sum strips j) XOR s ! j"
proof -
  show "q_sum [] j = 0" by (simp add: q_sum_def byte_ring)
  have "q_sum (s # strips) j = s ! j XOR byte (GF 2 * (\<Sum>i < length strips. GF 2 ^ i * GF (strips ! i ! j)))"
    by (simp add: q_sum_def sum.lessThan_Suc_shift byte_ring(1) sum_distrib_left mult.assoc del: sum.lessThan_Suc)
  also have "\<dots> = s ! j XOR gf_mul2 (q_sum strips j)"
    by (simp add: q_sum_def gf_mul2_shift gf_mul_two [symmetric] byte_ring(2) gf_mul_commute)
  finally show "q_sum (s # strips) j = gf_mul2 (q_sum strips j) XOR s ! j"
    by (simp add: xor.commute)
qed

lemma gf_mul2_0 [simp]: "gf_mul2 0 = 0"
  by (simp add: gf_mul2_shift)

lemma pq_tail_byte_spec: "strips \<noteq> [] \<Longrightarrow> pq_tail_byte strips j = (p_sum strips j, q_sum strips j)"
proof -
  have "foldr (\<lambda>s (pa, qa). (pa XOR s ! j, gf_mul2 qa XOR s ! j)) xs (l ! j, l ! j)
      = (p_sum (xs @ [l]) j, q_sum (xs @ [l]) j)" for xs :: "bytes list" and l
    by (induction xs) simp_all
  from this [of "butlast strips" "last strips"] show "strips \<noteq> [] \<Longrightarrow> ?thesis"
    by (simp add: pq_tail_byte_def foldr_conv_fold)
qed

lemma pq_column_spec:
  assumes "strips \<noteq> []" "\<forall>s \<in> set strips. i + w \<le> length s" "lanewise w xr (XOR)"
    and "\<And>x. length x = w \<Longrightarrow> mul2 x = map gf_mul2 x"
  shows "pq_column xr mul2 w strips i = (map (p_sum strips) [i..<i + w], map (q_sum strips) [i..<i + w])"
proof -
  have sl: "slice_of i (i + w) s = map ((!) s) [i..<i + w]" if "i + w \<le> length s" for s :: bytes
    using that by (intro nth_equalityI) (simp_all add: nth_slice)
  have "foldr (\<lambda>s (pa, qa). let d = slice_of i (i + w) s in (xr pa d, xr (mul2 qa) d)) xs
        (slice_of i (i + w) l, slice_of i (i + w) l)
      = (map (p_sum (xs @ [l])) [i..<i + w], map (q_sum (xs @ [l])) [i..<i + w])"
    if "\<forall>s \<in> set (xs @ [l]). i + w \<le> length s" for xs :: "bytes list" and l
    using that assms(3,4)
    by (induction xs) (simp_all add: sl lanewise_def Let_def zip_map_map zip_same_conv_map comp_def)
  from this [of "butlast strips" "last strips"] show ?thesis
    using assms(1,2) by (simp add: pq_column_def foldr_conv_fold Let_def)
qed

text \<open>Loop invariant of the whole-stripe routines: the bytes below \<open>i\<close> are final.\<close>

definition pq_upto :: "bytes list \<Rightarrow> nat \<Rightarrow> nat \<Rightarrow> bytes option \<times> bytes \<Rightarrow> bool" where
  "pq_upto strips len i pq \<longleftrightarrow>
     (case pq of (p, q) \<Rightarrow> length q = len \<and> (\<forall>j < i. q ! j = q_sum strips j) \<and>
        (\<forall>b. p = Some b \<longrightarrow> length b = len \<and> (\<forall>j < i. b ! j = p_sum strips j)))"

lemma pq_upto_done:
  "pq_upto strips len len (p, q) \<Longrightarrow>
    (p, q) = (map_option (\<lambda>_. map (p_sum strips) [0..<len]) p, map (q_sum strips) [0..<len])"
  by (cases p) (auto simp: pq_upto_def intro!: nth_equalityI)

lemma pq_loop_spec:
  assumes "strips \<noteq> []" "\<forall>s \<in> set strips. length s = len" "lanewise w xr (XOR)"
    and "\<And>x. length x = w \<Longrightarrow> mul2 x = map gf_mul2 x"
    and "i \<le> len" "pq_upto strips len i (p, q)" "pq_loop xr mul2 w strips p q i = (p', q', i')"
  shows "i' \<le> len \<and> pq_upto strips len i' (p', q') \<and> (p' = None \<longleftrightarrow> p = None)"
  using assms
proof (induction xr mul2 w strips p q i rule: pq_loop.induct)
  case (1 xr mul2 w strips p q i)
  have len: "length q = len" using 1(7) by (simp add: pq_upto_def)
  show ?case
  proof (cases "0 < w \<and> i + w \<le> len")
    case True
    have c: "pq_column xr mul2 w strips i = (map (p_sum strips) [i..<i + w], map (q_sum strips) [i..<i + w])"
      using 1(2-5) True by (intro pq_column_spec) auto
    have u: "pq_upto strips len (i + w) (map_option (put i (map (p_sum strips) [i..<i + w])) p,
        put i (map (q_sum strips) [i..<i + w]) q)"
      using 1(7) True by (cases p) (auto simp: pq_upto_def nth_put)
    have "pq_loop xr mul2 w strips (map_option (put i (map (p_sum strips) [i..<i + w])) p)
        (put i (map (q_sum strips) [i..<i + w]) q) (i + w) = (p', q', i')"
      using 1(8) True len by (subst (asm) pq_loop.simps) (simp add: c)
    from 1(1) [OF _ c [symmetric] refl 1(2-5) _ u this] True len show ?thesis by simp
  next
    case False
    then have "p' = p \<and> q' = q \<and> i' = i"
      using 1(8) len by (subst (asm) pq_loop.simps) (auto simp only: if_False prod.inject)
    then show ?thesis using 1(6,7) by simp
  qed
qed

lemma pq_tail_spec:
  assumes "strips \<noteq> []" "pq_upto strips len i (p, q)" "i \<le> len"
  shows "pq_tail strips p q i
    = (map_option (\<lambda>_. map (p_sum strips) [0..<len]) p, map (q_sum strips) [0..<len])"
proof -
  define f where "f = (\<lambda>j (p :: bytes option, q). let (pa, qa) = pq_tail_byte strips j
    in (map_option (\<lambda>p. p[j := pa]) p, q[j := qa]))"
  have "pq_upto strips len (i + n) (fold f [i..<i + n] (p, q)) \<and>
      (fst (fold f [i..<i + n] (p, q)) = None \<longleftrightarrow> p = None)" if "i + n \<le> len" for n
    using that
  proof (induction n)
    case (Suc n)
    obtain p1 q1 where e: "fold f [i..<i + n] (p, q) = (p1, q1)" by (metis surj_pair)
    with Suc have u: "pq_upto strips len (i + n) (p1, q1)" "p1 = None \<longleftrightarrow> p = None" by simp_all
    have "fold f [i..<i + Suc n] (p, q) = f (i + n) (p1, q1)" by (simp add: e)
    also have "\<dots> = (map_option (\<lambda>p. p[i + n := p_sum strips (i + n)]) p1, q1[i + n := q_sum strips (i + n)])"
      by (simp add: f_def pq_tail_byte_spec assms(1))
    finally have f: "fold f [i..<i + Suc n] (p, q)
      = (map_option (\<lambda>p. p[i + n := p_sum strips (i + n)]) p1, q1[i + n := q_sum strips (i + n)])" .
    show ?case unfolding f using u Suc.prems
      by (cases p1) (auto simp: pq_upto_def nth_list_update less_Suc_eq)
  qed (simp add: assms(2))
  moreover have "length q = len" using assms(2) by (simp add: pq_upto_def)
  moreover obtain p' q' where r: "pq_tail strips p q i = (p', q')" by (metis surj_pair)
  ultimately have "pq_upto strips len len (p', q') \<and> (p' = None \<longleftrightarrow> p = None)"
    unfolding pq_tail_def f_def [symmetric] using assms(3)
    by (metis fst_conv le_add_diff_inverse order_refl)
  with r pq_upto_done [of strips len p' q'] show ?thesis
    by (cases p; cases p') auto
qed

lemma pq_vec_spec:
  assumes "strips \<noteq> []" "\<forall>s \<in> set strips. length s = len" "lanewise w xr (XOR)"
    and "\<And>x. length x = w \<Longrightarrow> mul2 x = map gf_mul2 x"
    and "length q = len" "\<forall>b. p = Some b \<longrightarrow> length b = len"
  shows "(let (p, q, i) = pq_loop xr mul2 w strips p q 0 in pq_tail strips p q i)
    = (map_option (\<lambda>_. map (p_sum strips) [0..<len]) p, map (q_sum strips) [0..<len])"
proof -
  obtain p' q' i where l: "pq_loop xr mul2 w strips p q 0 = (p', q', i)" by (metis prod_cases3)
  have "i \<le> len \<and> pq_upto strips len i (p', q') \<and> (p' = None \<longleftrightarrow> p = None)"
    by (rule pq_loop_spec [OF assms(1-4) _ _ l]) (use assms(5,6) in \<open>auto simp: pq_upto_def\<close>)
  then show ?thesis
    using l pq_tail_spec [OF assms(1), of len i p' q'] by (cases p; cases p') simp_all
qed

lemma xor_strips_nth:
  assumes "strips \<noteq> []" "\<forall>s \<in> set strips. length s = len"
  shows "xor_strips strips = map (p_sum strips) [0..<len]"
proof -
  have "length (fold (\<lambda>s p. map2 (XOR) p s) xs p) = len \<and>
      (\<forall>j < len. fold (\<lambda>s p. map2 (XOR) p s) xs p ! j = p ! j XOR p_sum xs j)"
    if "length p = len" "\<forall>s \<in> set xs. length s = len" for xs :: "bytes list" and p
    using that by (induction xs arbitrary: p) (simp_all add: ac_simps)
  from this [of "hd strips" "tl strips"] assms show ?thesis
    by (cases strips) (auto simp: xor_strips_def xor.commute intro!: nth_equalityI)
qed

lemma q_horner_nth:
  assumes "\<forall>s \<in> set strips. length s = len"
  shows "compute_q_syndrome_generic strips len = map (q_sum strips) [0..<len]"
proof -
  have "foldr (\<lambda>s q. q_step_generic q s) strips (replicate len 0) = map (q_sum strips) [0..<len]"
    using assms
  proof (induction strips)
    case (Cons s strips)
    then show ?case by (auto simp: q_step_generic_map intro!: nth_equalityI)
  qed (auto intro!: nth_equalityI)
  then show ?thesis by (simp add: compute_q_syndrome_generic_def foldr_conv_fold)
qed

lemma pq_at_spec:
  assumes "strips \<noteq> []" "\<forall>s \<in> set strips. length s = len"
    and "length q = len" "\<forall>b. p = Some b \<longrightarrow> length b = len"
  shows "pq_at level strips p q
    = (map_option (\<lambda>_. map (p_sum strips) [0..<len]) p, map (q_sum strips) [0..<len])"
proof -
  have a: "pq_avx2 strips p q
      = (map_option (\<lambda>_. map (p_sum strips) [0..<len]) p, map (q_sum strips) [0..<len])"
    unfolding pq_avx2_def
    by (rule pq_vec_spec [OF assms(1,2) lanewise_avx2_xor mul2_avx2_map assms(3,4)]) simp
  have n: "pq_neon strips p q
      = (map_option (\<lambda>_. map (p_sum strips) [0..<len]) p, map (q_sum strips) [0..<len])"
    unfolding pq_neon_def
    by (rule pq_vec_spec [OF assms(1,2) lanewise_neon_xor mul2_neon_map assms(3,4)]) simp
  show ?thesis
    using assms a n xor_parity_all(1) [OF assms(1,2)] xor_strips_nth [OF assms(1,2)] q_horner_nth [OF assms(2)]
    by (cases level) (simp_all add: map_replicate_const)
qed

end
