(* ===== verification/RaidParity.thy ===== *)
theory RaidParity
  imports ParitySimd "HOL-Library.Monad_Syntax"
begin

text \<open>
  Recovery and fault location of a RAID-5 or RAID-6 stripe (\<open>src/raid/parity.rs\<close>):
  \<open>StripeStrips::recover\<close> on every combination of lost strips, and \<open>locate_raid6_fault\<close>. A
  panic of an assertion or an \<open>unwrap\<close> is the value \<open>None\<close>. The lemmas show that whatever the
  code tolerates is restored exactly, and that a single bad strip is told apart.
\<close>

section \<open>Fault location\<close>

datatype Raid6Fault = NoFault | PFault | QFault | DataFault nat | Several

fun locate_loop :: "nat option \<Rightarrow> (u8 \<times> u8) list \<Rightarrow> nat option option" where
  "locate_loop z [] = Some z"
| "locate_loop z ((p, q) # rest) =
     (if p = 0 \<and> q = 0 then locate_loop z rest
      else if p = 0 \<or> q = 0 then None
      else (let zi = (unat (gf_log q) + 255 - unat (gf_log p)) mod 255 in
        if z \<noteq> None \<and> z \<noteq> Some zi then None else locate_loop (Some zi) rest))"

definition locate_raid6_fault :: "bytes \<Rightarrow> bytes \<Rightarrow> nat \<Rightarrow> Raid6Fault" where
  "locate_raid6_fault pd qd data_count =
     (let p_bad = list_ex (\<lambda>b. b \<noteq> 0) pd;
          q_bad = list_ex (\<lambda>b. b \<noteq> 0) qd
      in if \<not> p_bad \<and> \<not> q_bad then NoFault
         else if p_bad \<and> \<not> q_bad then PFault
         else if \<not> p_bad \<and> q_bad then QFault
         else (case locate_loop None (zip pd qd) of
             None \<Rightarrow> Several
           | Some (Some z) \<Rightarrow> if z < data_count then DataFault z else Several
           | Some None \<Rightarrow> Several))"

section \<open>Recovery\<close>

datatype Unrecoverable = Unrecoverable (missing_strips: nat) (tolerated_strips: nat)

record StripeStrips =
  ss_data :: "bytes option list"
  ss_p :: "bytes option"
  ss_q :: "bytes option option"

text \<open>\<open>for (i, d) in self.data.iter().enumerate() { if i != x { xor_in_place(out, d.unwrap()) } }\<close>.\<close>

fun recover_xor :: "SimdLevel \<Rightarrow> nat \<Rightarrow> nat \<Rightarrow> bytes \<Rightarrow> bytes option list \<Rightarrow> bytes option" where
  "recover_xor level x i out [] = Some out"
| "recover_xor level x i out (d # ds) =
     (if i \<noteq> x
      then do { s \<leftarrow> d; out' \<leftarrow> xor_in_place level out s; recover_xor level x (i + 1) out' ds }
      else recover_xor level x (i + 1) out ds)"

fun q_steps :: "SimdLevel \<Rightarrow> bytes \<Rightarrow> bytes list \<Rightarrow> bytes option" where
  "q_steps level q [] = Some q"
| "q_steps level q (d # ds) = do { q' \<leftarrow> q_step_at level q d; q_steps level q' ds }"

definition strip_or_zero :: "nat \<Rightarrow> bytes option \<Rightarrow> bytes" where
  "strip_or_zero len d = (case d of Some s \<Rightarrow> s | None \<Rightarrow> zero_buf len)"

definition recover_one_p :: "SimdLevel \<Rightarrow> nat \<Rightarrow> StripeStrips \<Rightarrow> StripeStrips option" where
  "recover_one_p level x s =
     do { p \<leftarrow> ss_p s;
          out \<leftarrow> recover_xor level x 0 p (ss_data s);
          Some (s\<lparr>ss_data := (ss_data s)[x := Some out]\<rparr>) }"

definition recover_one_q :: "SimdLevel \<Rightarrow> nat \<Rightarrow> nat \<Rightarrow> StripeStrips \<Rightarrow> StripeStrips option" where
  "recover_one_q level len x s =
     do { qx \<leftarrow> q_steps level (zero_buf len) (map (strip_or_zero len) (rev (ss_data s)));
          q0 \<leftarrow> ss_q s;
          q \<leftarrow> q0;
          qx \<leftarrow> xor_in_place level qx q;
          Some (s\<lparr>ss_data := (ss_data s)[x := Some
            (gf_scale_at level qx (parity_gf_inv (parity_gf_pow2 x)))]\<rparr>) }"

definition recover_two :: "SimdLevel \<Rightarrow> nat \<Rightarrow> nat \<Rightarrow> nat \<Rightarrow> StripeStrips \<Rightarrow> StripeStrips option" where
  "recover_two level len x y s =
     (let refs = map (strip_or_zero len) (ss_data s);
          (pxy0, qxy0) = pq_at level refs (Some (zero_buf len)) (zero_buf len)
      in do { pxy1 \<leftarrow> pxy0;
              p \<leftarrow> ss_p s;
              q0 \<leftarrow> ss_q s;
              q \<leftarrow> q0;
              pxy \<leftarrow> xor_in_place level pxy1 p;
              qxy \<leftarrow> xor_in_place level qxy0 q;
              let gyx = parity_gf_pow2 (y - x);
                  denom = parity_gf_inv (gyx XOR 1);
                  a = parity_gf_mul gyx denom;
                  b = parity_gf_mul (parity_gf_inv (parity_gf_pow2 x)) denom
              in do { dx0 \<leftarrow> gf_mul_xor_at level (zero_buf len) pxy a;
                      dx \<leftarrow> gf_mul_xor_at level dx0 qxy b;
                      dy \<leftarrow> xor_in_place level pxy dx;
                      Some (s\<lparr>ss_data := (ss_data s)[x := Some dx, y := Some dy]\<rparr>) } })"

definition recover_data ::
  "SimdLevel \<Rightarrow> nat \<Rightarrow> nat list \<Rightarrow> bool \<Rightarrow> bool \<Rightarrow> StripeStrips \<Rightarrow> StripeStrips option" where
  "recover_data level len lost_data p_lost q_lost s =
     (case lost_data of
        [] \<Rightarrow> Some s
      | [x] \<Rightarrow> (if \<not> p_lost then recover_one_p level x s
               else if \<not> q_lost then recover_one_q level len x s
               else None)
      | [x, y] \<Rightarrow> (if \<not> p_lost \<and> \<not> q_lost then recover_two level len x y s else None)
      | _ \<Rightarrow> None)"

text \<open>The strips, all present: \<open>self.data.iter().map(|d| d.as_deref().unwrap())\<close>.\<close>

fun unwrap_all :: "'a option list \<Rightarrow> 'a list option" where
  "unwrap_all [] = Some []"
| "unwrap_all (d # ds) = do { x \<leftarrow> d; xs \<leftarrow> unwrap_all ds; Some (x # xs) }"

definition recover_parity :: "SimdLevel \<Rightarrow> nat \<Rightarrow> bool \<Rightarrow> bool \<Rightarrow> StripeStrips \<Rightarrow> StripeStrips option" where
  "recover_parity level len p_lost q_lost s =
     (if p_lost \<or> q_lost
      then do { refs \<leftarrow> unwrap_all (ss_data s);
                s \<leftarrow> (if p_lost
                     then do { p \<leftarrow> compute_xor_parity level refs len; Some (s\<lparr>ss_p := Some p\<rparr>) }
                     else Some s);
                Some (if q_lost
                      then s\<lparr>ss_q := Some (Some (snd (pq_at level refs None (zero_buf len))))\<rparr>
                      else s) }
      else Some s)"

definition recover :: "SimdLevel \<Rightarrow> nat \<Rightarrow> StripeStrips \<Rightarrow> (Unrecoverable + StripeStrips) option" where
  "recover level len s =
     (let raid6 = ss_q s \<noteq> None;
          tolerated = (if raid6 then 2 else 1);
          lost_data = filter (\<lambda>i. ss_data s ! i = None) [0..<length (ss_data s)];
          p_lost = ss_p s = None;
          q_lost = ss_q s = Some None;
          missing = length lost_data + of_bool p_lost + of_bool q_lost
      in if missing > tolerated then Some (Inl (Unrecoverable missing tolerated))
         else do { s1 \<leftarrow> recover_data level len lost_data p_lost q_lost s;
                   s2 \<leftarrow> recover_parity level len p_lost q_lost s1;
                   Some (Inr s2) })"

section \<open>Changing one strip\<close>

lemma GF_p_sum: "GF (p_sum strips j) = (\<Sum>i < length strips. GF (strips ! i ! j))"
  by (simp add: p_sum_def)

lemma GF_q_sum: "GF (q_sum strips j) = (\<Sum>i < length strips. GF 2 ^ i * GF (strips ! i ! j))"
  by (simp add: q_sum_def)

lemma gf8_solve: "a + b = c \<Longrightarrow> a = b + (c :: gf8)"
  by (auto simp: add.left_commute [of b])

lemma sum_update:
  assumes "x < length D"
  shows "(\<Sum>i < length D. c i * GF (D[x := z] ! i ! j))
    = (\<Sum>i < length D. c i * GF (D ! i ! j)) + c x * (GF (D ! x ! j) + GF (z ! j))"
proof -
  have "(\<Sum>i < length D. c i * GF (D[x := z] ! i ! j)) + (\<Sum>i < length D. c i * GF (D ! i ! j))
      = (\<Sum>i < length D. if i = x then c x * (GF (D ! x ! j) + GF (z ! j)) else 0)"
    unfolding sum.distrib [symmetric]
    by (intro sum.cong) (auto simp: nth_list_update distrib_left add.commute)
  also have "\<dots> = c x * (GF (D ! x ! j) + GF (z ! j))"
    using assms by simp
  finally show ?thesis by (rule gf8_solve)
qed

lemma q_sum_update:
  assumes "x < length D"
  shows "q_sum (D[x := z]) j = q_sum D j XOR gf_mul (gpow x) (D ! x ! j XOR z ! j)"
proof -
  have "GF (q_sum (D[x := z]) j) = GF (q_sum D j XOR gf_mul (gpow x) (D ! x ! j XOR z ! j))"
    using sum_update [OF assms, of "\<lambda>i. GF 2 ^ i" z j] by (simp add: GF_q_sum)
  then show ?thesis by (simp only: gf8.inject)
qed

lemma p_sum_update:
  assumes "x < length D"
  shows "p_sum (D[x := z]) j = p_sum D j XOR D ! x ! j XOR z ! j"
proof -
  have "GF (p_sum (D[x := z]) j) = GF (p_sum D j XOR D ! x ! j XOR z ! j)"
    using sum_update [OF assms, of "\<lambda>_. 1" z j] by (simp add: GF_p_sum)
  then show ?thesis by (simp only: gf8.inject)
qed

section \<open>Damaged stripes\<close>

text \<open>The stripe with data strips \<open>D\<close> and the parities that belong to it, and a stripe that is
  this one with some strips lost.\<close>

definition full_stripe :: "nat \<Rightarrow> bool \<Rightarrow> bytes list \<Rightarrow> StripeStrips" where
  "full_stripe len raid6 D =
     \<lparr>ss_data = map Some D, ss_p = Some (map (p_sum D) [0..<len]),
      ss_q = (if raid6 then Some (Some (map (q_sum D) [0..<len])) else None)\<rparr>"

definition lost_of :: "'a list \<Rightarrow> 'a option list \<Rightarrow> bool" where
  "lost_of D ms \<longleftrightarrow> length ms = length D \<and> (\<forall>k < length D. ms ! k = None \<or> ms ! k = Some (D ! k))"

definition damaged :: "nat \<Rightarrow> bool \<Rightarrow> bytes list \<Rightarrow> StripeStrips \<Rightarrow> bool" where
  "damaged len raid6 D s \<longleftrightarrow>
     lost_of D (ss_data s) \<and>
     (ss_p s = None \<or> ss_p s = Some (map (p_sum D) [0..<len])) \<and>
     (if raid6 then ss_q s = Some None \<or> ss_q s = Some (Some (map (q_sum D) [0..<len]))
      else ss_q s = None)"

definition lost_strips :: "StripeStrips \<Rightarrow> nat" where
  "lost_strips s =
     length (filter (\<lambda>d. d = None) (ss_data s)) + of_bool (ss_p s = None) + of_bool (ss_q s = Some None)"

lemma lost_data_length:
  "length (filter (\<lambda>i. xs ! i = None) [0..<length xs]) = length (filter (\<lambda>d. d = None) xs)"
proof -
  have "map ((!) xs) (filter (\<lambda>i. xs ! i = None) [0..<length xs]) = filter (\<lambda>d. d = None) (map ((!) xs) [0..<length xs])"
    by (simp add: filter_map comp_def)
  then show ?thesis by (metis length_map map_nth)
qed

lemma recover_xor_spec:
  assumes "\<forall>k < length ds. ds ! k = None \<longleftrightarrow> i + k = x" "\<forall>s. Some s \<in> set ds \<longrightarrow> length s = len"
    and "length out = len"
  shows "recover_xor level x i out ds
    = Some (map (\<lambda>j. out ! j XOR p_sum (map (strip_or_zero len) ds) j) [0..<len])"
  using assms
proof (induction ds arbitrary: i out)
  case Nil
  then show ?case by (auto intro!: nth_equalityI)
next
  case (Cons d ds)
  have ds: "\<forall>k < length ds. ds ! k = None \<longleftrightarrow> i + 1 + k = x"
    using Cons.prems(1) by fastforce
  have d: "d = None \<longleftrightarrow> i = x" using Cons.prems(1) by fastforce
  show ?case
  proof (cases d)
    case None
    then show ?thesis using d ds Cons
      by (auto simp: strip_or_zero_def zero_buf_def)
  next
    case (Some s)
    then have "length s = len" using Cons.prems(2) by simp
    then show ?thesis using Some d ds Cons
      by (auto simp: xor_in_place_spec strip_or_zero_def ac_simps)
  qed
qed

lemma q_steps_spec:
  assumes "\<forall>s \<in> set D. length s = len"
  shows "q_steps level (zero_buf len) (rev D) = Some (map (q_sum D) [0..<len])"
proof -
  have a: "q_steps level q (ds @ [d]) = q_steps level q ds \<bind> (\<lambda>q'. q_step_at level q' d)" for q ds d
    by (induction ds arbitrary: q) (auto split: bind_splits)
  show ?thesis using assms
  proof (induction D)
    case Nil
    then show ?case by (auto simp: zero_buf_def intro!: nth_equalityI)
  next
    case (Cons s D)
    then show ?case by (auto simp: a q_step_spec intro!: nth_equalityI)
  qed
qed

lemma fold_update:
  "length (fold (\<lambda>x D. D[x := g x]) xs E) = length E \<and>
    (\<forall>k < length E. fold (\<lambda>x D. D[x := g x]) xs E ! k = (if k \<in> set xs then g k else E ! k))"
  by (induction xs arbitrary: E) (auto simp: nth_list_update)

lemma fill_lost:
  assumes "lost_of D ms" "filter (\<lambda>i. ms ! i = None) [0..<length ms] = xs"
  shows "map (strip_or_zero len) ms = fold (\<lambda>x D. D[x := zero_buf len]) xs D"
    and "fold (\<lambda>x ds. ds[x := Some (D ! x)]) xs ms = map Some D"
proof -
  have l: "length ms = length D" using assms(1) by (simp add: lost_of_def)
  have k: "k \<in> set xs \<longleftrightarrow> k < length D \<and> ms ! k = None" for k
    using assms(2) l by auto
  show "map (strip_or_zero len) ms = fold (\<lambda>x D. D[x := zero_buf len]) xs D"
    using fold_update [where xs = xs and g = "\<lambda>_. zero_buf len" and E = D] assms(1) l
    by (intro nth_equalityI) (auto simp: k lost_of_def strip_or_zero_def)
  show "fold (\<lambda>x ds. ds[x := Some (D ! x)]) xs ms = map Some D"
    using fold_update [where xs = xs and g = "\<lambda>k. Some (D ! k)" and E = ms] assms(1) l
    by (intro nth_equalityI) (auto simp: k lost_of_def)
qed

lemma damaged_lost: "damaged len raid6 D s \<Longrightarrow> lost_of D (ss_data s)"
  by (simp add: damaged_def)

lemmas fill_damaged = fill_lost [OF damaged_lost]

lemma recover_one_p_spec:
  assumes "damaged len raid6 D s" "\<forall>s \<in> set D. length s = len"
    and "filter (\<lambda>i. ss_data s ! i = None) [0..<length (ss_data s)] = [x]" "ss_p s \<noteq> None"
  shows "recover_one_p level x s = Some (s\<lparr>ss_data := map Some D\<rparr>)"
proof -
  have x: "\<forall>k < length (ss_data s). ss_data s ! k = None \<longleftrightarrow> k = x" "x < length D"
    using arg_cong [OF assms(3), of set] assms(1) by (auto simp: damaged_def lost_of_def set_eq_iff)
  have p: "ss_p s = Some (map (p_sum D) [0..<len])" using assms(1,4) by (simp add: damaged_def lost_of_def)
  have ls: "\<forall>s'. Some s' \<in> set (ss_data s) \<longrightarrow> length s' = len"
    using assms(1,2) by (fastforce simp: damaged_def lost_of_def in_set_conv_nth)
  have "recover_xor level x 0 (map (p_sum D) [0..<len]) (ss_data s)
      = Some (map (\<lambda>j. map (p_sum D) [0..<len] ! j XOR p_sum (D[x := zero_buf len]) j) [0..<len])"
    using recover_xor_spec [OF _ ls, of 0 x "map (p_sum D) [0..<len]" level] x
      fill_damaged(1) [OF assms(1,3)] by simp
  also have "map (\<lambda>j. map (p_sum D) [0..<len] ! j XOR p_sum (D[x := zero_buf len]) j) [0..<len] = D ! x"
    using x(2) assms(2)
    by (intro nth_equalityI) (simp_all add: p_sum_update zero_buf_def flip: xor.assoc)
  finally show ?thesis
    using fill_damaged(2) [OF assms(1,3)] by (simp add: recover_one_p_def p)
qed

lemma recover_one_q_spec:
  assumes "damaged len True D s" "\<forall>s \<in> set D. length s = len"
    and "filter (\<lambda>i. ss_data s ! i = None) [0..<length (ss_data s)] = [x]" "ss_q s \<noteq> Some None"
  shows "recover_one_q level len x s = Some (s\<lparr>ss_data := map Some D\<rparr>)"
proof -
  have x: "x < length D"
    using arg_cong [OF assms(3), of set] assms(1) by (auto simp: damaged_def lost_of_def set_eq_iff)
  have q: "ss_q s = Some (Some (map (q_sum D) [0..<len]))" using assms(1,4) by (simp add: damaged_def lost_of_def)
  have l: "\<forall>s \<in> set (D[x := zero_buf len]). length s = len"
    using assms(2) set_update_subset_insert [of D x "zero_buf len"] by auto
  have qs: "q_steps level (zero_buf len) (map (strip_or_zero len) (rev (ss_data s)))
      = Some (map (q_sum (D[x := zero_buf len])) [0..<len])"
    using q_steps_spec [OF l, of level] fill_damaged(1) [OF assms(1,3)] by (simp flip: rev_map)
  define qx where "qx = map2 (XOR) (map (q_sum (D[x := zero_buf len])) [0..<len]) (map (q_sum D) [0..<len])"
  have "qx = map (\<lambda>j. gf_mul (gpow x) (D ! x ! j)) [0..<len]"
    unfolding qx_def using x
    by (intro nth_equalityI) (simp_all add: q_sum_update zero_buf_def ac_simps)
  moreover have "gf_mul (parity_gf_inv (parity_gf_pow2 x)) (gf_mul (gpow x) b) = b" for b
    using table_gf.inv_mul [OF table_gf.pow2_nonzero, of x b]
    by (simp add: parity_gf_mul_eq) (metis table_gf.GF_pow gf8.sel)
  ultimately have "gf_scale_at level qx (parity_gf_inv (parity_gf_pow2 x)) = D ! x"
    using x assms(2) by (intro nth_equalityI) (simp_all add: gf_scale_spec)
  moreover have "xor_in_place level (map (q_sum (D[x := zero_buf len])) [0..<len]) (map (q_sum D) [0..<len]) = Some qx"
    by (simp add: xor_in_place_spec qx_def)
  ultimately show ?thesis
    using fill_damaged(2) [OF assms(1,3)] by (simp add: recover_one_q_def q qs)
qed

lemma recover_two_spec:
  assumes "damaged len True D s" "\<forall>s \<in> set D. length s = len" "length D \<le> 255"
    and f: "filter (\<lambda>i. ss_data s ! i = None) [0..<length (ss_data s)] = [x, y]"
    and "ss_p s \<noteq> None" "ss_q s \<noteq> Some None"
  shows "recover_two level len x y s = Some (s\<lparr>ss_data := map Some D\<rparr>)"
proof -
  have xy: "x < length D" "y < length D" "x < y"
  proof -
    show "x < length D" "y < length D"
      using arg_cong [OF f, of set] assms(1) by (auto simp: damaged_def lost_of_def set_eq_iff)
    have "sorted_wrt (<) [x, y]" unfolding f [symmetric] by (intro sorted_wrt_filter) simp
    then show "x < y" by simp
  qed
  have d: "y - x < 255" using xy assms(3) by simp
  have p: "ss_p s = Some (map (p_sum D) [0..<len])"
    and q: "ss_q s = Some (Some (map (q_sum D) [0..<len]))"
    using assms(1,5,6) by (simp_all add: damaged_def lost_of_def)
  define E where "E = D[x := zero_buf len, y := zero_buf len]"
  have refs: "map (strip_or_zero len) (ss_data s) = E"
    using fill_damaged(1) [OF assms(1) f] by (simp add: E_def)
  have "\<forall>s \<in> set E. length s = len"
    using assms(2) by (auto simp: E_def dest!: subsetD [OF set_update_subset_insert])
  moreover have "E \<noteq> []" using xy by (auto simp: E_def)
  ultimately have pq: "pq_at level E (Some (zero_buf len)) (zero_buf len)
      = (Some (map (p_sum E) [0..<len]), map (q_sum E) [0..<len])"
    by (subst pq_at_spec [where len = len]) auto
  have ps: "p_sum E j XOR p_sum D j = D ! x ! j XOR D ! y ! j" if "j < len" for j
    using xy that by (simp add: E_def p_sum_update zero_buf_def ac_simps)
  have qs: "q_sum E j XOR q_sum D j = gf_mul (gpow x) (D ! x ! j) XOR gf_mul (gpow y) (D ! y ! j)"
    if "j < len" for j
    using xy that by (simp add: E_def q_sum_update zero_buf_def ac_simps)
  define pxy where "pxy = map (\<lambda>j. D ! x ! j XOR D ! y ! j) [0..<len]"
  define qxy where "qxy = map (\<lambda>j. gf_mul (gpow x) (D ! x ! j) XOR gf_mul (gpow y) (D ! y ! j)) [0..<len]"
  have px: "xor_in_place level (map (p_sum E) [0..<len]) (map (p_sum D) [0..<len]) = Some pxy"
    and qx: "xor_in_place level (map (q_sum E) [0..<len]) (map (q_sum D) [0..<len]) = Some qxy"
    by (auto simp: xor_in_place_spec pxy_def qxy_def ps qs intro!: nth_equalityI)
  let ?g = "parity_gf_pow2 (y - x)"
  let ?n = "parity_gf_inv (?g XOR 1)"
  have g: "parity_gf_pow2 k = gpow k" for k by (metis table_gf.GF_pow gf8.sel)
  have dx: "(gf_mul_xor_at level (zero_buf len) pxy (parity_gf_mul ?g ?n) \<bind> (\<lambda>dx0.
      gf_mul_xor_at level dx0 qxy (parity_gf_mul (parity_gf_inv (parity_gf_pow2 x)) ?n))) = Some (D ! x)"
    using table_gf.solve_two' [OF xy(3) d] xy(1) assms(2)
    by (auto simp: gf_mul_xor_spec pxy_def qxy_def zero_buf_def parity_gf_mul_eq g intro!: nth_equalityI)
  have dy: "xor_in_place level pxy (D ! x) = Some (D ! y)"
    using xy(1,2) assms(2)
    by (auto simp: xor_in_place_spec pxy_def ac_simps intro!: nth_equalityI)
  show ?thesis
    using dx dy fill_damaged(2) [OF assms(1) f]
    by (auto simp: recover_two_def refs pq p q px qx Let_def split: bind_splits)
qed

lemma unwrap_all_Some [simp]: "unwrap_all (map Some xs) = Some xs"
  by (induction xs) auto

lemma recover_parity_spec:
  assumes "D \<noteq> []" "\<forall>s \<in> set D. length s = len" "damaged len raid6 D s" "ss_data s = map Some D"
  shows "recover_parity level len (ss_p s = None) (ss_q s = Some None) s = Some (full_stripe len raid6 D)"
proof -
  have "snd (pq_at level D None (zero_buf len)) = map (q_sum D) [0..<len]"
    using assms by (subst pq_at_spec [where len = len]) auto
  then show ?thesis
    using assms
    by (cases s) (auto simp: recover_parity_def full_stripe_def damaged_def lost_of_def compute_xor_parity_spec xor_strips_nth
        split: if_splits)
qed

lemma damaged_data: "damaged len raid6 D s \<Longrightarrow> damaged len raid6 D (s\<lparr>ss_data := map Some D\<rparr>)"
  by (simp add: damaged_def lost_of_def)

lemma recover_spec:
  assumes "D \<noteq> []" "length D \<le> 255" "\<forall>s \<in> set D. length s = len" "damaged len raid6 D s"
  shows "recover level len s =
    Some (if lost_strips s > (if raid6 then 2 else 1)
          then Inl (Unrecoverable (lost_strips s) (if raid6 then 2 else 1))
          else Inr (full_stripe len raid6 D))"
proof -
  define xs where "xs = filter (\<lambda>i. ss_data s ! i = None) [0..<length (ss_data s)]"
  have r6: "ss_q s \<noteq> None \<longleftrightarrow> raid6" using assms(4) by (auto simp: damaged_def lost_of_def split: if_splits)
  have m: "lost_strips s = length xs + of_bool (ss_p s = None) + of_bool (ss_q s = Some None)"
    by (simp add: lost_strips_def xs_def lost_data_length)
  show ?thesis
  proof (cases "lost_strips s > (if raid6 then 2 else 1)")
    case True
    then show ?thesis using r6 by (auto simp: recover_def Let_def xs_def [symmetric] m)
  next
    case False
    have "recover_data level len xs (ss_p s = None) (ss_q s = Some None) s = Some (s\<lparr>ss_data := map Some D\<rparr>)"
    proof (cases xs)
      case Nil
      have "ss_data s = map Some D"
        using fill_damaged(2) [OF assms(4), of xs] Nil by (simp add: xs_def)
      then show ?thesis using Nil by (simp add: recover_data_def)
    next
      case (Cons x ys)
      show ?thesis
      proof (cases ys)
        case Nil
        with Cons False m r6 show ?thesis
          using recover_one_p_spec [OF assms(4,3), of x] recover_one_q_spec [of len D s x] assms(3,4)
          by (cases raid6) (auto simp: recover_data_def xs_def)
      next
        case (Cons y zs)
        with \<open>xs = x # ys\<close> False m r6 have "zs = []" "raid6" "ss_p s \<noteq> None" "ss_q s \<noteq> Some None"
          by (auto split: if_splits)
        with Cons \<open>xs = x # ys\<close> show ?thesis
          using recover_two_spec [of len D s x y] assms by (auto simp: recover_data_def xs_def)
      qed
    qed
    moreover have "recover_parity level len (ss_p s = None) (ss_q s = Some None) (s\<lparr>ss_data := map Some D\<rparr>)
        = Some (full_stripe len raid6 D)"
      using recover_parity_spec [OF assms(1,3) damaged_data [OF assms(4)]] by simp
    ultimately show ?thesis
      using False r6 by (auto simp: recover_def Let_def xs_def [symmetric] m)
  qed
qed

text \<open>C22. Recovery is exact: from a stripe that lost at most the strips its level tolerates,
  at every SIMD level \<open>recover\<close> returns the stripe that was written, data and parities; with
  more lost it returns \<open>Unrecoverable\<close> with the counts and changes nothing. It never panics.\<close>

theorem recover_restores:
  assumes "D \<noteq> []" "length D \<le> 255" "\<forall>s \<in> set D. length s = len" "damaged len raid6 D s"
  shows "recover level len s =
    Some (if lost_strips s > (if raid6 then 2 else 1)
          then Inl (Unrecoverable (lost_strips s) (if raid6 then 2 else 1))
          else Inr (full_stripe len raid6 D))"
  using assms by (rule recover_spec)

theorem recover_restores_witness:
  "recover Avx2 1 \<lparr>ss_data = [None, Some [2], None], ss_p = Some (map (p_sum [[1], [2], [3]]) [0..<1]),
      ss_q = Some (Some (map (q_sum [[1], [2], [3]]) [0..<1]))\<rparr>
   = Some (Inr (full_stripe 1 True [[1], [2], [3]]))"
  (is "recover _ _ ?s = _")
proof -
  have "damaged 1 True [[1], [2], [3]] ?s" by (auto simp: damaged_def lost_of_def less_Suc_eq numeral_3_eq_3)
  moreover have "lost_strips ?s = 2" by (simp add: lost_strips_def)
  ultimately show ?thesis using recover_restores [of "[[1], [2], [3]]" 1 True ?s Avx2] by simp
qed

section \<open>Locating one bad strip\<close>

lemma gf_log_gpow: "k < 255 \<Longrightarrow> unat (gf_log (gpow k)) = k"
  by (simp add: gf_log_def gf_log_table_nth unat_of_nat)

lemma locate_quotient:
  assumes "p \<noteq> 0" "q \<noteq> 0" "z < 255"
  shows "(unat (gf_log q) + 255 - unat (gf_log p)) mod 255 = z \<longleftrightarrow> q = gf_mul (gpow z) p"
proof -
  obtain k where k: "k < 255" "p = gpow k" using gf_log_ex [OF assms(1)] by metis
  obtain m where m: "m < 255" "q = gpow m" using gf_log_ex [OF assms(2)] by metis
  have "q = gf_mul (gpow z) p \<longleftrightarrow> gpow m = gpow ((z + k) mod 255)"
    by (simp add: k m gf8_power_mod power_add flip: byte_ring(2))
  also have "\<dots> \<longleftrightarrow> m = (z + k) mod 255" using m(1) by (intro gpow_inj) simp_all
  also have "\<dots> \<longleftrightarrow> (m + 255 - k) mod 255 = z"
  proof -
    have "(z + k) mod 255 = (if z + k < 255 then z + k else z + k - 255)"
      "(m + 255 - k) mod 255 = (if k \<le> m then m - k else m + 255 - k)"
      using k(1) m(1) assms(3) by (simp_all add: mod_if)
    then show ?thesis using k(1) m(1) assms(3) by auto
  qed
  finally show ?thesis using k m by (simp add: gf_log_gpow)
qed

lemma locate_loop_complete:
  assumes "z < 255" "\<forall>(p, q) \<in> set l. q = gf_mul (gpow z) p" "zo = None \<or> zo = Some z"
  shows "locate_loop zo l = Some (if list_ex (\<lambda>(p, q). p \<noteq> 0) l then Some z else zo)"
  using assms(2,3)
proof (induction l arbitrary: zo)
  case (Cons pq l)
  obtain p q where pq: "pq = (p, q)" by (cases pq)
  then have q: "q = gf_mul (gpow z) p" using Cons.prems by auto
  have q0: "q = 0 \<longleftrightarrow> p = 0"
    unfolding q using gf8_power_nonzero [of z] by (simp add: stripe_gf.mul_byte byte_eq_0)
  show ?case
  proof (cases "p = 0")
    case True
    then show ?thesis using Cons q0 pq by auto
  next
    case False
    then have "(unat (gf_log q) + 255 - unat (gf_log p)) mod 255 = z"
      using locate_quotient [of p q z] q0 q assms(1) by simp
    then show ?thesis using Cons pq False q0 by (auto simp: Let_def)
  qed
qed simp

lemma locate_loop_sound:
  assumes "locate_loop zo l = Some (Some z)"
  shows "(\<forall>(p, q) \<in> set l. q = gf_mul (gpow z) p) \<and> (zo = None \<or> zo = Some z)"
  using assms
proof (induction zo l rule: locate_loop.induct)
  case (2 zo p q rest)
  let ?zi = "(unat (gf_log q) + 255 - unat (gf_log p)) mod 255"
  show ?case
  proof (cases "p = 0 \<or> q = 0")
    case True
    then show ?thesis using 2 by (auto simp: stripe_gf.mul_0 split: if_splits)
  next
    case False
    then have r: "locate_loop (Some ?zi) rest = Some (Some z)" "zo = None \<or> zo = Some ?zi"
      using 2(3) by (auto simp: Let_def split: if_splits)
    then have "(\<forall>(p, q) \<in> set rest. q = gf_mul (gpow z) p) \<and> ?zi = z"
      using 2(2) [OF _ _ refl] False by auto
    moreover have "z < 255" using calculation by auto
    ultimately show ?thesis
      using locate_quotient [of p q z] False r(2) by auto
  qed
qed auto

text \<open>The differences a scrub computes: the parities it read, and the ones of the data it read.\<close>

definition parity_diff :: "nat \<Rightarrow> bytes \<Rightarrow> (nat \<Rightarrow> u8) \<Rightarrow> bytes" where
  "parity_diff len stored f = map2 (XOR) stored (map f [0..<len])"

lemma xor_eq_0: "a XOR b = (0 :: u8) \<longleftrightarrow> a = b"
  by (auto simp: bit_eq_iff bit_xor_iff)

lemma single_fault_located:
  assumes "length D \<le> 255" "\<forall>s \<in> set D. length s = len" "z < length D"
    and "length bad = len" "bad \<noteq> D ! z"
  shows "let pd = parity_diff len (map (p_sum D) [0..<len]) (p_sum (D[z := bad]));
             qd = parity_diff len (map (q_sum D) [0..<len]) (q_sum (D[z := bad]))
         in locate_raid6_fault pd qd (length D) = DataFault z \<and> map2 (XOR) bad pd = D ! z"
proof -
  define e where "e = map2 (XOR) (D ! z) bad"
  have lz: "length (D ! z) = len" using assms(2,3) by simp
  have pd: "parity_diff len (map (p_sum D) [0..<len]) (p_sum (D[z := bad])) = e"
    using assms(3,4) lz
    by (intro nth_equalityI) (simp_all add: parity_diff_def e_def p_sum_update flip: xor.assoc)
  have qd: "parity_diff len (map (q_sum D) [0..<len]) (q_sum (D[z := bad])) = map (gf_mul (gpow z)) e"
    using assms(3,4) lz
    by (intro nth_equalityI) (simp_all add: parity_diff_def e_def q_sum_update flip: xor.assoc)
  obtain j where "j < len" "bad ! j \<noteq> D ! z ! j"
    using assms(4,5) lz by (metis nth_equalityI)
  then have j: "j < length e" "e ! j \<noteq> 0"
    using lz assms(4) by (auto simp: e_def xor_eq_0)
  then have ex: "list_ex (\<lambda>b. b \<noteq> 0) e" unfolding list_ex_iff by (metis nth_mem)
  have m0: "gf_mul (gpow z) b = 0 \<longleftrightarrow> b = 0" for b
    using gf8_power_nonzero [of z] by (simp add: stripe_gf.mul_byte byte_eq_0)
  have l: "locate_loop None (zip e (map (gf_mul (gpow z)) e)) = Some (Some z)"
    using locate_loop_complete [of z "zip e (map (gf_mul (gpow z)) e)" None] assms(1,3) ex
    by (auto simp: zip_map2 zip_same_conv_map list_ex_iff)
  have "locate_raid6_fault e (map (gf_mul (gpow z)) e) (length D) = DataFault z"
    using ex assms(3) by (simp add: locate_raid6_fault_def l list_ex_iff m0)
  moreover have "map2 (XOR) bad e = D ! z"
    using lz assms(4) by (intro nth_equalityI) (simp_all add: e_def ac_simps)
  ultimately show ?thesis by (simp add: pd qd)
qed

text \<open>C23. One bad data strip of a RAID-6 stripe is found: when strip \<open>z\<close> was read as something
  else and P and Q are intact, the fault is located at \<open>z\<close>, and the difference of P is what has
  to be folded into the strip to give its contents back.\<close>

theorem raid6_fault_found:
  assumes "length D \<le> 255" "\<forall>s \<in> set D. length s = len" "z < length D"
    and "length bad = len" "bad \<noteq> D ! z"
  shows "let pd = parity_diff len (map (p_sum D) [0..<len]) (p_sum (D[z := bad]));
             qd = parity_diff len (map (q_sum D) [0..<len]) (q_sum (D[z := bad]))
         in locate_raid6_fault pd qd (length D) = DataFault z \<and> map2 (XOR) bad pd = D ! z"
  using assms by (rule single_fault_located)

theorem raid6_fault_found_witness:
  "let pd = parity_diff 1 (map (p_sum [[1], [2], [3]]) [0..<1]) (p_sum ([[1], [2], [3]][1 := [7]]));
       qd = parity_diff 1 (map (q_sum [[1], [2], [3]]) [0..<1]) (q_sum ([[1], [2], [3]][1 := [7]]))
   in locate_raid6_fault pd qd (length [[1], [2], [3 :: u8]]) = DataFault 1 \<and>
      map2 (XOR) [7] pd = [[1], [2], [3]] ! 1"
  by (rule raid6_fault_found) simp_all

text \<open>A verdict is safe to act on: whenever a data strip \<open>z\<close> is named, folding the
  difference of P into it makes the stripe agree with the P and the Q that were read, whatever
  was wrong.\<close>

theorem raid6_fault_repair_consistent:
  assumes "\<forall>s \<in> set E. length s = len" "length p = len" "length q = len"
    and "locate_raid6_fault (parity_diff len p (p_sum E)) (parity_diff len q (q_sum E)) (length E) = DataFault z"
  shows "z < length E \<and>
    (let E' = E[z := map2 (XOR) (E ! z) (parity_diff len p (p_sum E))]
     in map (p_sum E') [0..<len] = p \<and> map (q_sum E') [0..<len] = q)"
proof -
  define pd qd where "pd = parity_diff len p (p_sum E)" and "qd = parity_diff len q (q_sum E)"
  have l: "length pd = len" "length qd = len"
    using assms(2,3) by (simp_all add: pd_def qd_def parity_diff_def)
  have z: "z < length E" "locate_loop None (zip pd qd) = Some (Some z)"
    using assms(4) unfolding pd_def [symmetric] qd_def [symmetric]
    by (auto simp: locate_raid6_fault_def Let_def split: if_splits option.splits)
  have q: "qd ! j = gf_mul (gpow z) (pd ! j)" if "j < len" for j
    using locate_loop_sound [OF z(2)] that l by (fastforce simp: set_zip)
  have pj: "p ! j = p_sum E j XOR pd ! j" "q ! j = q_sum E j XOR qd ! j" if "j < len" for j
    using that assms(2,3) by (simp_all add: pd_def qd_def parity_diff_def ac_simps)
  have e: "map2 (XOR) (E ! z) pd ! j = E ! z ! j XOR pd ! j" if "j < len" for j
    using that assms(1) z(1) l by simp
  have "map (p_sum (E[z := map2 (XOR) (E ! z) pd])) [0..<len] = p"
    using assms(2) z(1) by (intro nth_equalityI) (simp_all add: p_sum_update e pj ac_simps)
  moreover have "map (q_sum (E[z := map2 (XOR) (E ! z) pd])) [0..<len] = q"
    using assms(3) z(1) by (intro nth_equalityI) (simp_all add: q_sum_update e pj q flip: xor.assoc)
  ultimately show ?thesis using z(1) by (simp add: pd_def)
qed

theorem raid6_fault_repair_consistent_witness:
  "1 < length [[1], [7], [3 :: u8]] \<and>
    (let E' = [[1], [7], [3]][1 := map2 (XOR) ([[1], [7], [3]] ! 1)
         (parity_diff 1 (map (p_sum [[1], [2], [3]]) [0..<1]) (p_sum [[1], [7], [3]]))]
     in map (p_sum E') [0..<1] = map (p_sum [[1], [2], [3]]) [0..<1] \<and>
        map (q_sum E') [0..<1] = map (q_sum [[1], [2], [3]]) [0..<1])"
proof (rule raid6_fault_repair_consistent)
  show "locate_raid6_fault (parity_diff 1 (map (p_sum [[1], [2], [3]]) [0..<1]) (p_sum [[1], [7], [3]]))
      (parity_diff 1 (map (q_sum [[1], [2], [3]]) [0..<1]) (q_sum [[1], [7], [3]]))
      (length [[1], [7], [3 :: u8]]) = DataFault 1"
    using single_fault_located [of "[[1], [2], [3]]" 1 1 "[7]"] by (simp add: Let_def)
qed simp_all

section \<open>The parity engine\<close>

text \<open>Every SIMD level computes the parities that define the code: with strips of equal
  length P is their exclusive or and Q the sum of \<open>g\<^sup>i D\<^sub>i\<close>, byte by byte, and exactly the calls
  whose lengths disagree or that have no strip panic.\<close>

theorem raid6_parity_all_levels:
  "compute_raid6_parity level strips p q =
    (if strips \<noteq> [] \<and> length q = length p \<and> list_all (\<lambda>s. length s = length p) strips
     then Some (Some (map (\<lambda>j. byte (\<Sum>i < length strips. GF (strips ! i ! j))) [0..<length p]),
                map (\<lambda>j. byte (\<Sum>i < length strips. GF 2 ^ i * GF (strips ! i ! j))) [0..<length p])
     else None)"
  (is "_ = (if ?ok then Some (Some ?p, ?q) else None)")
proof -
  have "pq_at level strips (Some p) q = (Some ?p, ?q)" if "?ok"
  proof -
    have "pq_at level strips (Some p) q = (map_option (\<lambda>_. ?p) (Some p), ?q)"
      unfolding p_sum_def [symmetric] q_sum_def [symmetric]
      by (rule pq_at_spec) (use that in \<open>auto simp: list_all_iff\<close>)
    then show ?thesis by (simp only: option.map)
  qed
  then show ?thesis unfolding compute_raid6_parity_def by presburger
qed

lemma rmw_spec:
  assumes "\<forall>s \<in> set D. length s = len" "x < length D" "length new = len"
  shows "xor_in_place level (D ! x) new = Some delta \<Longrightarrow>
    xor_in_place level (map (p_sum D) [0..<len]) delta = Some (map (p_sum (D[x := new])) [0..<len]) \<and>
    q_update level (map (q_sum D) [0..<len]) delta x = Some (map (q_sum (D[x := new])) [0..<len])"
proof -
  assume "xor_in_place level (D ! x) new = Some delta"
  then have d: "delta = map2 (XOR) (D ! x) new" using assms by (simp add: xor_in_place_spec)
  have g: "parity_gf_pow2 k = gpow k" for k by (metis table_gf.GF_pow gf8.sel)
  have "map2 (XOR) (map (p_sum D) [0..<len]) delta = map (p_sum (D[x := new])) [0..<len]"
    and "map2 (\<lambda>d y. d XOR gf_mul (gpow x) y) (map (q_sum D) [0..<len]) delta = map (q_sum (D[x := new])) [0..<len]"
    using assms by (auto simp: d p_sum_update q_sum_update ac_simps intro!: nth_equalityI)
  then show ?thesis
    using assms by (simp add: xor_in_place_spec q_update_def gf_mul_xor_spec g d)
qed

text \<open>Read-modify-write keeps the parities: folding the change of one strip into P and Q
  gives the parities of the stripe with the new strip.\<close>

theorem parity_read_modify_write:
  assumes "\<forall>s \<in> set D. length s = len" "x < length D" "length new = len"
  shows "xor_in_place level (D ! x) new = Some delta \<Longrightarrow>
    xor_in_place level (map (p_sum D) [0..<len]) delta = Some (map (p_sum (D[x := new])) [0..<len]) \<and>
    q_update level (map (q_sum D) [0..<len]) delta x = Some (map (q_sum (D[x := new])) [0..<len])"
  using assms by (rule rmw_spec)

theorem parity_read_modify_write_witness:
  "xor_in_place Neon (map (p_sum [[1, 9], [2, 8]]) [0..<2]) [7, 15] = Some (map (p_sum [[1, 9], [5, 7]]) [0..<2]) \<and>
   q_update Neon (map (q_sum [[1, 9], [2, 8]]) [0..<2]) [7, 15] 1 = Some (map (q_sum [[1, 9], [5, 7]]) [0..<2])"
proof -
  have "xor_in_place Neon [2, 8] [5, 7] = Some [7, 15]"
    by (simp add: xor_in_place_spec)
  then show ?thesis
    using parity_read_modify_write [of "[[1, 9], [2, 8]]" 2 1 "[5, 7]" Neon "[7, 15]"] by simp
qed

text \<open>The table-driven arithmetic of \<open>raid/parity.rs\<close> and the loops of \<open>volume/stripe.rs\<close>
  are one field: products, powers of the generator and inverses agree on every byte, and the
  inverse is one.\<close>

theorem gf_engines_agree:
  "parity_gf_mul a b = gf_mul a b \<and> parity_gf_pow2 n = gf_pow2 n \<and>
   (if a = 0 then gf_inv a = 0 else parity_gf_inv a = gf_inv a \<and> gf_mul a (gf_inv a) = 1)"
proof -
  have "gf_mul a (gf_inv a) = 1" if "a \<noteq> 0"
    using that by (simp add: stripe_gf.mul_byte byte_ring(4))
  then show ?thesis
    by (simp add: parity_gf_mul_eq parity_gf_pow2_eq parity_gf_inv_eq gf_inv_def)
qed

end
