(* ===== verification/GaussJordan.thy ===== *)
theory GaussJordan
  imports Gf
begin

text \<open>
  The inversion of the decoding matrix in \<open>reconstruct_legs\<close> (\<open>src/volume/stripe.rs\<close>): the
  Gauss-Jordan elimination over the byte field, with its pivot search, and the proof that it
  never runs out of pivots on a matrix with a trivial kernel and then solves the system. The
  Cauchy rows of the erasure code have a trivial kernel.
\<close>

section \<open>The elimination\<close>

type_synonym matrix = "u8 list list"

definition swap_rows :: "'a list \<Rightarrow> nat \<Rightarrow> nat \<Rightarrow> 'a list" where
  "swap_rows a i j = a[i := a ! j, j := a ! i]"

definition identity_rows :: "nat \<Rightarrow> matrix" where
  "identity_rows n = map (\<lambda>r. map (\<lambda>c. of_bool (r = c)) [0..<n]) [0..<n]"

text \<open>\<open>(col..n).find(|&r| a[r][col] != 0)\<close>.\<close>

definition find_pivot :: "matrix \<Rightarrow> nat \<Rightarrow> nat \<Rightarrow> nat option" where
  "find_pivot a col n = find (\<lambda>r. a ! r ! col \<noteq> 0) [col..<n]"

definition scale_pivot :: "nat \<Rightarrow> matrix \<times> matrix \<Rightarrow> matrix \<times> matrix" where
  "scale_pivot col ai =
     (case ai of (a, iv) \<Rightarrow>
       let k = gf_inv (a ! col ! col)
       in (a[col := map (\<lambda>v. gf_mul v k) (a ! col)], iv[col := map (\<lambda>v. gf_mul v k) (iv ! col)]))"

definition eliminate_row :: "nat \<Rightarrow> nat \<Rightarrow> matrix \<times> matrix \<Rightarrow> matrix \<times> matrix" where
  "eliminate_row col r ai =
     (case ai of (a, iv) \<Rightarrow>
       if r \<noteq> col \<and> a ! r ! col \<noteq> 0
       then (let f = a ! r ! col
             in (a[r := map2 (\<lambda>v w. v XOR gf_mul f w) (a ! r) (a ! col)],
                 iv[r := map2 (\<lambda>v w. v XOR gf_mul f w) (iv ! r) (iv ! col)]))
       else (a, iv))"

definition gj_column :: "nat \<Rightarrow> nat \<Rightarrow> nat \<Rightarrow> matrix \<times> matrix \<Rightarrow> matrix \<times> matrix" where
  "gj_column n col pivot ai =
     (case ai of (a, iv) \<Rightarrow>
       fold (eliminate_row col) [0..<n]
         (scale_pivot col (swap_rows a col pivot, swap_rows iv col pivot)))"

fun gj_loop :: "nat \<Rightarrow> nat list \<Rightarrow> matrix \<times> matrix \<Rightarrow> (matrix \<times> matrix) option" where
  "gj_loop n [] ai = Some ai"
| "gj_loop n (col # cols) ai =
     (case find_pivot (fst ai) col n of
        None \<Rightarrow> None
      | Some pivot \<Rightarrow> gj_loop n cols (gj_column n col pivot ai))"

definition gauss_jordan :: "nat \<Rightarrow> matrix \<Rightarrow> matrix option" where
  "gauss_jordan n a = map_option snd (gj_loop n [0..<n] (a, identity_rows n))"

section \<open>Rows as equations\<close>

definition square :: "nat \<Rightarrow> matrix \<Rightarrow> bool" where
  "square n a \<longleftrightarrow> length a = n \<and> (\<forall>r < n. length (a ! r) = n)"

definition lin :: "nat \<Rightarrow> u8 list \<Rightarrow> (nat \<Rightarrow> gf8) \<Rightarrow> gf8" where
  "lin n row X = (\<Sum>c < n. GF (row ! c) * X c)"

text \<open>\<open>X\<close> solves the system for the right-hand side \<open>B\<close>.\<close>

definition solves :: "nat \<Rightarrow> matrix \<times> matrix \<Rightarrow> (nat \<Rightarrow> gf8) \<Rightarrow> (nat \<Rightarrow> gf8) \<Rightarrow> bool" where
  "solves n ai X B \<longleftrightarrow> (\<forall>r < n. lin n (fst ai ! r) X = lin n (snd ai ! r) B)"

definition same_solutions :: "nat \<Rightarrow> matrix \<times> matrix \<Rightarrow> matrix \<times> matrix \<Rightarrow> bool" where
  "same_solutions n s t \<longleftrightarrow> (\<forall>X B. solves n s X B \<longleftrightarrow> solves n t X B)"

lemma same_solutions_trans: "same_solutions n s t \<Longrightarrow> same_solutions n t u \<Longrightarrow> same_solutions n s u"
  by (simp add: same_solutions_def)

lemma lin_scale:
  assumes "length row = n"
  shows "lin n (map (\<lambda>v. gf_mul v k) row) X = GF k * lin n row X"
  using assms by (simp add: lin_def sum_distrib_left ac_simps)

lemma lin_add:
  assumes "length row = n" "length row' = n"
  shows "lin n (map2 (\<lambda>v w. v XOR gf_mul f w) row row') X = lin n row X + GF f * lin n row' X"
  using assms by (simp add: lin_def sum_distrib_left distrib_right sum.distrib mult.assoc)

lemma swap_rows_same:
  assumes "square n a" "square n iv" "i < n" "j < n"
  shows "same_solutions n (a, iv) (swap_rows a i j, swap_rows iv i j)"
    and "square n (swap_rows a i j)" "square n (swap_rows iv i j)"
proof -
  have s: "swap_rows m i j ! r = m ! (if r = j then i else if r = i then j else r)"
    if "square n m" "r < n" for m :: matrix and r
    using that assms(3,4) by (auto simp: swap_rows_def square_def nth_list_update)
  show "square n (swap_rows a i j)" "square n (swap_rows iv i j)"
    using assms s by (auto simp: square_def) (simp_all add: swap_rows_def)
  show "same_solutions n (a, iv) (swap_rows a i j, swap_rows iv i j)"
    unfolding same_solutions_def
  proof (intro allI iffI)
    fix X B
    assume "solves n (a, iv) X B"
    then show "solves n (swap_rows a i j, swap_rows iv i j) X B"
      using assms by (auto simp: solves_def s)
  next
    fix X B
    assume h: "solves n (swap_rows a i j, swap_rows iv i j) X B"
    show "solves n (a, iv) X B"
      unfolding solves_def fst_conv snd_conv
    proof (intro allI impI)
      fix r assume r: "r < n"
      define r' where "r' = (if r = j then i else if r = i then j else r)"
      have "r' < n" using r assms(3,4) by (simp add: r'_def)
      with h have "lin n (swap_rows a i j ! r') X = lin n (swap_rows iv i j ! r') B"
        by (auto simp: solves_def)
      moreover have "(if r' = j then i else if r' = i then j else r') = r" by (auto simp: r'_def)
      ultimately show "lin n (a ! r) X = lin n (iv ! r) B"
        using s [OF assms(1) \<open>r' < n\<close>] s [OF assms(2) \<open>r' < n\<close>] by simp
    qed
  qed
qed

lemma row_update_same:
  assumes "square n a" "square n iv" "r < n" "length row = n" "length row' = n"
    and "\<And>X B. (\<forall>k < n. k \<noteq> r \<longrightarrow> lin n (a ! k) X = lin n (iv ! k) B) \<Longrightarrow>
      lin n row X = lin n row' B \<longleftrightarrow> lin n (a ! r) X = lin n (iv ! r) B"
  shows "same_solutions n (a, iv) (a[r := row], iv[r := row'])"
    and "square n (a[r := row])" "square n (iv[r := row'])"
proof -
  show "square n (a[r := row])" "square n (iv[r := row'])"
    using assms(1-5) by (auto simp: square_def nth_list_update)
  have split: "(\<forall>k < n. P k) \<longleftrightarrow> (\<forall>k < n. k \<noteq> r \<longrightarrow> P k) \<and> P r" for P using assms(3) by blast
  show "same_solutions n (a, iv) (a[r := row], iv[r := row'])"
    unfolding same_solutions_def solves_def fst_conv snd_conv
    using assms(1-3,6) by (subst (1 2) split) (auto simp: square_def)
qed

definition gj_ok :: "nat \<Rightarrow> matrix \<times> matrix \<Rightarrow> bool" where
  "gj_ok n ai \<longleftrightarrow> square n (fst ai) \<and> square n (snd ai)"

lemma scale_pivot_same:
  assumes "gj_ok n ai" "col < n" "fst ai ! col ! col \<noteq> 0"
  shows "same_solutions n ai (scale_pivot col ai) \<and> gj_ok n (scale_pivot col ai)"
proof -
  obtain a iv where ai: "ai = (a, iv)" by (cases ai)
  define k where "k = gf_inv (a ! col ! col)"
  have nz: "GF k \<noteq> 0" using assms(3) by (simp add: k_def ai)
  have l: "length (a ! col) = n" "length (iv ! col) = n"
    using assms by (simp_all add: gj_ok_def square_def ai)
  have "lin n (map (\<lambda>v. gf_mul v k) (a ! col)) X = lin n (map (\<lambda>v. gf_mul v k) (iv ! col)) B \<longleftrightarrow>
      lin n (a ! col) X = lin n (iv ! col) B" for X B
    using nz by (simp add: lin_scale l)
  then show ?thesis
    using row_update_same [of n a iv col "map (\<lambda>v. gf_mul v k) (a ! col)" "map (\<lambda>v. gf_mul v k) (iv ! col)"]
      assms l by (simp add: scale_pivot_def ai k_def Let_def gj_ok_def)
qed

lemma eliminate_row_same:
  assumes "gj_ok n ai" "col < n" "r < n"
  shows "same_solutions n ai (eliminate_row col r ai) \<and> gj_ok n (eliminate_row col r ai)"
proof -
  obtain a iv where ai: "ai = (a, iv)" by (cases ai)
  define f where "f = a ! r ! col"
  have l: "length (a ! r) = n" "length (iv ! r) = n" "length (a ! col) = n" "length (iv ! col) = n"
    using assms by (simp_all add: gj_ok_def square_def ai)
  show ?thesis
  proof (cases "r \<noteq> col \<and> f \<noteq> 0")
    case True
    have "lin n (map2 (\<lambda>v w. v XOR gf_mul f w) (a ! r) (a ! col)) X
        = lin n (map2 (\<lambda>v w. v XOR gf_mul f w) (iv ! r) (iv ! col)) B \<longleftrightarrow>
        lin n (a ! r) X = lin n (iv ! r) B"
      if "\<forall>k < n. k \<noteq> r \<longrightarrow> lin n (a ! k) X = lin n (iv ! k) B" for X B
      using that True assms(2) by (simp add: lin_add l)
    then show ?thesis
      using row_update_same [of n a iv r "map2 (\<lambda>v w. v XOR gf_mul f w) (a ! r) (a ! col)"
          "map2 (\<lambda>v w. v XOR gf_mul f w) (iv ! r) (iv ! col)"] assms True l
      by (simp add: eliminate_row_def ai f_def Let_def gj_ok_def)
  next
    case False
    then show ?thesis using assms(1) by (auto simp: eliminate_row_def ai f_def same_solutions_def)
  qed
qed

text \<open>Entry \<open>c\<close> of row \<open>r\<close> after the elimination of column \<open>col\<close>.\<close>

lemma eliminate_fold:
  assumes "gj_ok n ai" "col < n" "m \<le> n"
  shows "same_solutions n ai (fold (eliminate_row col) [0..<m] ai) \<and>
    gj_ok n (fold (eliminate_row col) [0..<m] ai) \<and>
    (\<forall>r < n. \<forall>c < n. GF (fst (fold (eliminate_row col) [0..<m] ai) ! r ! c) =
      (if r < m \<and> r \<noteq> col then GF (fst ai ! r ! c) + GF (fst ai ! r ! col) * GF (fst ai ! col ! c)
       else GF (fst ai ! r ! c)))"
  using assms(3)
proof (induction m)
  case 0
  then show ?case using assms(1) by (simp add: same_solutions_def)
next
  case (Suc m)
  define s where "s = fold (eliminate_row col) [0..<m] ai"
  have IH: "same_solutions n ai s" "gj_ok n s" and
    E: "\<And>r c. r < n \<Longrightarrow> c < n \<Longrightarrow> GF (fst s ! r ! c) =
      (if r < m \<and> r \<noteq> col then GF (fst ai ! r ! c) + GF (fst ai ! r ! col) * GF (fst ai ! col ! c)
       else GF (fst ai ! r ! c))"
    using Suc by (simp_all add: s_def)
  have m: "m < n" using Suc.prems by simp
  have st: "fold (eliminate_row col) [0..<Suc m] ai = eliminate_row col m s" by (simp add: s_def)
  have l: "length (fst s) = n" "length (fst s ! m) = n" "length (fst s ! col) = n"
    using IH(2) m assms(2) by (simp_all add: gj_ok_def square_def)
  have "GF (fst (eliminate_row col m s) ! r ! c) =
      (if r = m \<and> r \<noteq> col then GF (fst s ! r ! c) + GF (fst s ! r ! col) * GF (fst s ! col ! c)
       else GF (fst s ! r ! c))" if "r < n" "c < n" for r c
    using that l m by (auto simp: eliminate_row_def Let_def split: prod.splits)
  then show ?case
    unfolding st
    using E assms(2) m same_solutions_trans [OF IH(1)] eliminate_row_same [OF IH(2) assms(2) m]
    by (auto simp: less_Suc_eq)
qed

section \<open>The loop\<close>

text \<open>The columns below \<open>col\<close> are those of the identity.\<close>

definition unit_cols :: "nat \<Rightarrow> nat \<Rightarrow> matrix \<Rightarrow> bool" where
  "unit_cols n col a \<longleftrightarrow> (\<forall>r < n. \<forall>c < col. GF (a ! r ! c) = of_bool (r = c))"

definition trivial_kernel :: "nat \<Rightarrow> matrix \<Rightarrow> bool" where
  "trivial_kernel n a \<longleftrightarrow> (\<forall>X. (\<forall>r < n. lin n (a ! r) X = 0) \<longrightarrow> (\<forall>c < n. X c = 0))"

lemma lin_0 [simp]: "lin n row (\<lambda>_. 0) = 0"
  by (simp add: lin_def)

lemma find_pivot_Some:
  "find_pivot a col n = Some p \<Longrightarrow> col \<le> p \<and> p < n \<and> a ! p ! col \<noteq> 0"
  by (auto simp: find_pivot_def find_Some_iff)

text \<open>Without a pivot the system would have a solution that is not zero for the right-hand
  side zero.\<close>

lemma pivot_exists:
  assumes "gj_ok n (a, iv)" "unit_cols n col a" "col < n"
    and "\<And>X. solves n (a, iv) X (\<lambda>_. 0) \<Longrightarrow> \<forall>c < n. X c = 0"
  shows "\<exists>p. find_pivot a col n = Some p"
proof (rule ccontr)
  assume "\<nexists>p. find_pivot a col n = Some p"
  then have np: "\<forall>r. col \<le> r \<and> r < n \<longrightarrow> a ! r ! col = 0"
    by (auto simp: find_pivot_def find_None_iff)
  define X where "X = (\<lambda>c. if c < col then GF (a ! c ! col) else if c = col then 1 else (0 :: gf8))"
  have "lin n (a ! r) X = 0" if r: "r < n" for r
  proof -
    have "lin n (a ! r) X = (\<Sum>c < n. if c < col then of_bool (r = c) * GF (a ! c ! col)
        else if c = col then GF (a ! r ! col) else 0)"
      unfolding lin_def X_def using assms(2) r by (intro sum.cong) (auto simp: unit_cols_def)
    also have "\<dots> = (\<Sum>c < n. (if c = r \<and> r < col then GF (a ! r ! col) else 0))
        + (\<Sum>c < n. if c = col then GF (a ! r ! col) else 0)"
      unfolding sum.distrib [symmetric] by (intro sum.cong) auto
    also have "\<dots> = (if r < col then GF (a ! r ! col) else 0) + GF (a ! r ! col)"
      using r assms(3) by (cases "r < col") simp_all
    also have "\<dots> = 0" using np r by (simp add: not_less)
    finally show ?thesis .
  qed
  then have "\<forall>c < n. X c = 0" using assms(4) by (simp add: solves_def)
  then show False using assms(3) by (auto simp: X_def)
qed

lemma gj_column_step:
  assumes "gj_ok n ai" "unit_cols n col (fst ai)" "find_pivot (fst ai) col n = Some p" "col < n"
  shows "same_solutions n ai (gj_column n col p ai) \<and> gj_ok n (gj_column n col p ai) \<and>
    unit_cols n (Suc col) (fst (gj_column n col p ai))"
proof -
  obtain a iv where ai: "ai = (a, iv)" by (cases ai)
  have p: "col \<le> p" "p < n" "a ! p ! col \<noteq> 0" using find_pivot_Some [OF assms(3)] by (simp_all add: ai)
  define s where "s = (swap_rows a col p, swap_rows iv col p)"
  have la: "length a = n" using assms(1) by (simp add: gj_ok_def square_def ai)
  have s1: "same_solutions n ai s" "gj_ok n s"
    using swap_rows_same [of n a iv col p] assms(1,4) p by (simp_all add: s_def ai gj_ok_def)
  have sw: "fst s ! r = a ! (if r = p then col else if r = col then p else r)" if "r < n" for r
    using that p(2) assms(4) la by (auto simp: s_def swap_rows_def nth_list_update)
  then have "fst s ! col ! col \<noteq> 0" using p assms(4) by (cases "col = p") simp_all
  define t where "t = scale_pivot col s"
  have t: "same_solutions n s t" "gj_ok n t"
    using scale_pivot_same [OF s1(2) assms(4)] \<open>fst s ! col ! col \<noteq> 0\<close> by (simp_all add: t_def)
  have us: "GF (fst s ! r ! c) = of_bool (r = c)" if "r < n" "c < col" for r c
    using assms(2) that p(1,2) assms(4) sw [OF that(1)] by (auto simp: unit_cols_def ai)
  have ls: "length (fst s) = n" "length (fst s ! col) = n"
    using s1(2) assms(4) by (simp_all add: gj_ok_def square_def)
  have tt: "GF (fst t ! r ! c) = (if r = col then GF (fst s ! col ! c) / GF (fst s ! col ! col) else GF (fst s ! r ! c))"
    if "r < n" "c < n" for r c
    using that ls by (auto simp: t_def scale_pivot_def Let_def divide_inverse split: prod.splits)
  have g: "gj_column n col p ai = fold (eliminate_row col) [0..<n] t"
    by (simp add: gj_column_def ai t_def s_def)
  have E: "same_solutions n t (gj_column n col p ai)" "gj_ok n (gj_column n col p ai)"
    and e: "\<And>r c. r < n \<Longrightarrow> c < n \<Longrightarrow> GF (fst (gj_column n col p ai) ! r ! c) =
      (if r \<noteq> col then GF (fst t ! r ! c) + GF (fst t ! r ! col) * GF (fst t ! col ! c) else GF (fst t ! r ! c))"
    using eliminate_fold [OF t(2) assms(4) order_refl] by (simp_all add: g)
  have "unit_cols n (Suc col) (fst (gj_column n col p ai))"
    unfolding unit_cols_def
  proof (intro allI impI)
    fix r c assume r: "r < n" and "c < Suc col"
    then consider "c < col" | "c = col" by (auto simp: less_Suc_eq)
    then show "GF (fst (gj_column n col p ai) ! r ! c) = of_bool (r = c)"
    proof cases
      case 1
      then show ?thesis using r assms(4) us [OF r 1] us [OF assms(4) 1] by (auto simp: e tt)
    next
      case 2
      then show ?thesis using r assms(4) \<open>fst s ! col ! col \<noteq> 0\<close> by (auto simp: e tt)
    qed
  qed
  then show ?thesis
    using E same_solutions_trans [OF s1(1) same_solutions_trans [OF t(1) E(1)]] by simp
qed

lemma gj_loop_total:
  assumes "gj_ok n ai" "unit_cols n col (fst ai)" "col \<le> n"
    and "\<And>X. solves n ai X (\<lambda>_. 0) \<Longrightarrow> \<forall>c < n. X c = 0"
  shows "\<exists>t. gj_loop n [col..<n] ai = Some t \<and> same_solutions n ai t \<and> gj_ok n t \<and> unit_cols n n (fst t)"
  using assms
proof (induction "n - col" arbitrary: col ai)
  case 0
  then show ?case by (simp add: same_solutions_def)
next
  case (Suc d)
  then have col: "col < n" by simp
  obtain a iv where ai: "ai = (a, iv)" by (cases ai)
  obtain p where p: "find_pivot (fst ai) col n = Some p"
    using pivot_exists [of n a iv col] Suc.prems col by (auto simp: ai)
  define t where "t = gj_column n col p ai"
  have t: "same_solutions n ai t" "gj_ok n t" "unit_cols n (Suc col) (fst t)"
    using gj_column_step [OF Suc.prems(1,2) p col] by (simp_all add: t_def)
  have "\<forall>c < n. X c = 0" if "solves n t X (\<lambda>_. 0)" for X
    using that Suc.prems(4) t(1) by (simp add: same_solutions_def)
  then obtain u where "gj_loop n [Suc col..<n] t = Some u" "same_solutions n t u" "gj_ok n u" "unit_cols n n (fst u)"
    using Suc.hyps(1) [of "Suc col" t, OF _ t(2,3)] Suc.hyps(2) col by fastforce
  then show ?case
    using same_solutions_trans [OF t(1)] col p by (simp add: upt_conv_Cons t_def)
qed

lemma lin_identity: "r < n \<Longrightarrow> lin n (identity_rows n ! r) X = X r"
proof -
  assume r: "r < n"
  have "lin n (identity_rows n ! r) X = (\<Sum>c < n. if c = r then X c else 0)"
    unfolding lin_def using r by (intro sum.cong) (auto simp: identity_rows_def)
  with r show ?thesis by simp
qed

text \<open>On a matrix with a trivial kernel the elimination returns a matrix that maps each
  right-hand side to the solution of the system.\<close>

lemma gauss_jordan_solves:
  assumes "square n a" "trivial_kernel n a"
  obtains iv where "gauss_jordan n a = Some iv" "square n iv"
    "\<And>X B r. (\<forall>k < n. lin n (a ! k) X = B k) \<Longrightarrow> r < n \<Longrightarrow> X r = lin n (iv ! r) B"
proof -
  have i: "square n (identity_rows n)" by (simp add: square_def identity_rows_def)
  have k: "\<forall>c < n. X c = 0" if "solves n (a, identity_rows n) X (\<lambda>_. 0)" for X
    using that assms(2) by (simp add: solves_def trivial_kernel_def lin_identity)
  obtain t where t: "gj_loop n [0..<n] (a, identity_rows n) = Some t"
    "same_solutions n (a, identity_rows n) t" "gj_ok n t" "unit_cols n n (fst t)"
    using gj_loop_total [of n "(a, identity_rows n)" 0] assms(1) i k
    by (auto simp: gj_ok_def unit_cols_def)
  have l: "lin n (fst t ! r) X = X r" if "r < n" for r X
  proof -
    have "lin n (fst t ! r) X = (\<Sum>c < n. if c = r then X c else 0)"
      unfolding lin_def using that t(4) by (intro sum.cong) (auto simp: unit_cols_def)
    with that show ?thesis by simp
  qed
  have "X r = lin n (snd t ! r) B" if "\<forall>k < n. lin n (a ! k) X = B k" "r < n" for X B r
  proof -
    have "solves n (a, identity_rows n) X B" using that(1) by (simp add: solves_def lin_identity)
    then have "solves n t X B" using t(2) by (simp add: same_solutions_def)
    with that(2) show ?thesis by (simp add: solves_def l)
  qed
  with t that [of "snd t"] show ?thesis by (simp add: gauss_jordan_def gj_ok_def)
qed

section \<open>Cauchy matrices\<close>

text \<open>A combination of the rows \<open>1 / (x\<^sub>j + y\<^sub>i)\<close> that vanishes at as many points as it has terms
  is zero: eliminate the last point and the last term.\<close>

lemma cauchy_kernel:
  fixes x y v :: "nat \<Rightarrow> gf8"
  assumes "\<forall>i < n. \<forall>j < n. x j + y i \<noteq> 0" "inj_on x {..< n}" "inj_on y {..< n}"
    and "\<forall>j < n. (\<Sum>i < n. v i / (x j + y i)) = 0"
  shows "\<forall>i < n. v i = 0"
  using assms
proof (induction n arbitrary: v)
  case (Suc n)
  define w where "w = (\<lambda>i. v i * (y i + y n) / (x n + y i))"
  have nz: "x j + y i \<noteq> 0" if "i \<le> n" "j \<le> n" for i j using Suc.prems(1) that by simp
  have dx: "x j + x n \<noteq> 0" if "j < n" for j
    using Suc.prems(2) that gf8_eq_iff_add [of "x j" "x n"] by (auto simp: inj_on_def)
  have dy: "y i + y n \<noteq> 0" if "i < n" for i
    using Suc.prems(3) that gf8_eq_iff_add [of "y i" "y n"] by (auto simp: inj_on_def)
  have row: "(\<Sum>i < n. v i * (y i + y n) / (x j + y i)) = (\<Sum>i < Suc n. v i)" if j: "j \<le> n" for j
  proof -
    have "v i / (x j + y i) * (x j + y n) = v i + v i * (y i + y n) / (x j + y i)" if "i \<le> n" for i
    proof -
      have "x j + y n = (x j + y i) + (y i + y n)" by (simp add: ac_simps)
      then have "v i / (x j + y i) * (x j + y n)
          = v i / (x j + y i) * (x j + y i) + v i / (x j + y i) * (y i + y n)"
        by (simp only: distrib_left)
      with nz [OF that j] show ?thesis by simp
    qed
    then have "(\<Sum>i < Suc n. v i / (x j + y i)) * (x j + y n)
        = (\<Sum>i < Suc n. v i + v i * (y i + y n) / (x j + y i))"
      unfolding sum_distrib_right by (intro sum.cong) auto
    then have "(\<Sum>i < Suc n. v i) + (\<Sum>i < n. v i * (y i + y n) / (x j + y i)) = 0"
      using Suc.prems(4) j by (simp add: sum.distrib ac_simps)
    then have "(\<Sum>i < Suc n. v i) = (\<Sum>i < n. v i * (y i + y n) / (x j + y i))"
      by (rule iffD2 [OF gf8_eq_iff_add])
    then show ?thesis by (rule sym)
  qed
  have "(\<Sum>i < n. w i / (x j + y i)) = 0" if j: "j < n" for j
  proof -
    have "w i / (x j + y i) * (x j + x n)
        = v i * (y i + y n) / (x j + y i) + v i * (y i + y n) / (x n + y i)" if "i < n" for i
    proof -
      have n: "x j + y i \<noteq> 0" "x n + y i \<noteq> 0" using nz that j by simp_all
      have "x j + x n = (x n + y i) + (x j + y i)" by (simp add: ac_simps)
      then have "w i / (x j + y i) * (x j + x n)
          = w i / (x j + y i) * (x n + y i) + w i / (x j + y i) * (x j + y i)"
        by (simp only: distrib_left)
      with n show ?thesis by (simp add: w_def)
    qed
    then have "(\<Sum>i < n. w i / (x j + y i)) * (x j + x n)
        = (\<Sum>i < n. v i * (y i + y n) / (x j + y i)) + (\<Sum>i < n. v i * (y i + y n) / (x n + y i))"
      unfolding sum_distrib_right sum.distrib [symmetric] by (intro sum.cong) auto
    also have "\<dots> = 0" unfolding row [OF less_imp_le [OF j]] row [OF order_refl] by (rule gf8_add_self)
    finally show ?thesis using dx [OF j] by simp
  qed
  moreover have "inj_on x {..< n}" "inj_on y {..< n}"
    by (rule inj_on_subset [OF Suc.prems(2)], simp, rule inj_on_subset [OF Suc.prems(3)], simp)
  ultimately have "\<forall>i < n. w i = 0" using Suc.IH [of w] Suc.prems(1) by simp
  then have v: "\<forall>i < n. v i = 0" using dy nz by (auto simp: w_def)
  moreover have "v n = 0"
  proof -
    have "(\<Sum>i < n. v i / (x n + y i)) = 0" using v by simp
    moreover have "(\<Sum>i < Suc n. v i / (x n + y i)) = 0" using Suc.prems(4) by blast
    ultimately show ?thesis using nz [of n n] by simp
  qed
  ultimately show ?case by (auto simp: less_Suc_eq)
qed simp

end
