(* ===== verification/Stripe.thy ===== *)
theory Stripe
  imports RaidParity GaussJordan
begin

text \<open>
  Parity of parity-protected volumes (\<open>src/volume/stripe.rs\<close>): the coefficients of P, Q and
  the Cauchy rows, the computation and the delta update of the parity legs, and the two
  reconstruction routines. \<open>None\<close> is a panic; \<open>Inl\<close> is \<open>StripeError::Unrecoverable\<close>.
\<close>

section \<open>Byte-wise helpers\<close>

definition xor_into :: "bytes \<Rightarrow> bytes \<Rightarrow> bytes" where
  "xor_into dst src = map2 (XOR) dst src @ drop (length src) dst"

definition mul_xor_into :: "SimdLevel \<Rightarrow> bytes \<Rightarrow> bytes \<Rightarrow> u8 \<Rightarrow> bytes option" where
  "mul_xor_into level dst src c =
     (if c = 1 then Some (xor_into dst src) else gf_mul_xor_at level dst src c)"

definition MAX_PARITY :: u8 where "MAX_PARITY = 4"

definition MAX_EC_WIDTH :: nat where "MAX_EC_WIDTH = 24"

definition coef :: "u8 \<Rightarrow> nat \<Rightarrow> nat \<Rightarrow> u8" where
  "coef parity leg member =
     (if parity \<le> 2 then (if leg = 0 then 1 else gf_pow2 member)
      else (let x = of_nat leg; y = parity + of_nat member in gf_inv (x XOR y)))"

section \<open>Computing and updating parity\<close>

text \<open>The inner loop over the legs and the outer loop over the members of \<open>compute_parity\<close>.\<close>

fun fold_legs :: "SimdLevel \<Rightarrow> u8 \<Rightarrow> nat \<Rightarrow> bytes \<Rightarrow> nat \<Rightarrow> bytes list \<Rightarrow> bytes list option" where
  "fold_legs level parity i d j [] = Some []"
| "fold_legs level parity i d j (leg # legs) =
     do { leg' \<leftarrow> mul_xor_into level leg d (coef parity j i);
          legs' \<leftarrow> fold_legs level parity i d (j + 1) legs;
          Some (leg' # legs') }"

fun fold_members :: "SimdLevel \<Rightarrow> u8 \<Rightarrow> nat \<Rightarrow> bytes list \<Rightarrow> bytes option list \<Rightarrow> bytes list option" where
  "fold_members level parity i out [] = Some out"
| "fold_members level parity i out (m # ms) =
     (case m of
        None \<Rightarrow> fold_members level parity (i + 1) out ms
      | Some d \<Rightarrow> do { out' \<leftarrow> fold_legs level parity i d 0 out;
                       fold_members level parity (i + 1) out' ms })"

definition compute_parity :: "SimdLevel \<Rightarrow> bytes option list \<Rightarrow> nat \<Rightarrow> u8 \<Rightarrow> bytes list option" where
  "compute_parity level members slot_len parity =
     fold_members level (max parity 1) 0 (replicate (unat (max parity 1)) (zero_buf slot_len)) members"

definition apply_delta_leg :: "SimdLevel \<Rightarrow> bytes \<Rightarrow> u8 \<Rightarrow> nat \<Rightarrow> nat \<Rightarrow> bytes \<Rightarrow> bytes option" where
  "apply_delta_leg level leg_buf parity leg member delta =
     mul_xor_into level leg_buf delta (coef parity leg member)"

definition apply_delta ::
  "SimdLevel \<Rightarrow> bytes \<Rightarrow> bytes option \<Rightarrow> nat \<Rightarrow> bytes \<Rightarrow> (bytes \<times> bytes option) option" where
  "apply_delta level p q member_idx delta =
     (case q of
        None \<Rightarrow> Some (xor_into p delta, None)
      | Some qb \<Rightarrow> do { q' \<leftarrow> mul_xor_into level qb delta (gf_pow2 member_idx);
                        Some (xor_into p delta, Some q') })"

section \<open>Reconstruction\<close>

datatype StripeError = StripeUnrecoverable (se_missing: nat) (se_parity_available: nat)

definition missing_members :: "bytes option list \<Rightarrow> nat list" where
  "missing_members members = filter (\<lambda>i. members ! i = None) [0..<length members]"

text \<open>Folding the present members, those not in \<open>skip\<close>, into an accumulator with the
  coefficients \<open>c\<close>.\<close>

fun fold_present ::
  "SimdLevel \<Rightarrow> (nat \<Rightarrow> u8) \<Rightarrow> (nat \<Rightarrow> bool) \<Rightarrow> nat \<Rightarrow> bytes \<Rightarrow> bytes option list \<Rightarrow> bytes option" where
  "fold_present level c skip i acc [] = Some acc"
| "fold_present level c skip i acc (m # ms) =
     (if skip i then fold_present level c skip (i + 1) acc ms
      else do { d \<leftarrow> m; acc' \<leftarrow> mul_xor_into level acc d (c i); fold_present level c skip (i + 1) acc' ms })"

definition reconstruct_one_q :: "SimdLevel \<Rightarrow> bytes option list \<Rightarrow> nat \<Rightarrow> bytes \<Rightarrow> bytes option" where
  "reconstruct_one_q level members x q =
     do { acc \<leftarrow> fold_present level gf_pow2 (\<lambda>j. j = x) 0 q members;
          let iv = gf_inv (gf_pow2 x) in Some (map (\<lambda>b. gf_mul iv b) acc) }"

definition reconstruct_two ::
  "SimdLevel \<Rightarrow> bytes option list \<Rightarrow> nat \<Rightarrow> nat \<Rightarrow> bytes \<Rightarrow> bytes \<Rightarrow> nat \<Rightarrow> (bytes \<times> bytes) option" where
  "reconstruct_two level members x y p q slot_len =
     do { pxy \<leftarrow> fold_present level (\<lambda>_. 1) (\<lambda>j. j = x \<or> j = y) 0 p members;
          qxy \<leftarrow> fold_present level gf_pow2 (\<lambda>j. j = x \<or> j = y) 0 q members;
          let gx = gf_pow2 x; gy = gf_pow2 y; denom_inv = gf_inv (gx XOR gy);
              dx = map (\<lambda>i. gf_mul denom_inv (gf_mul gy (pxy ! i) XOR qxy ! i)) [0..<slot_len]
          in Some (dx, xor_into pxy dx) }"

definition reconstruct ::
  "SimdLevel \<Rightarrow> bytes option list \<Rightarrow> bytes option \<Rightarrow> bytes option \<Rightarrow> nat
     \<Rightarrow> (StripeError + bytes option list) option" where
  "reconstruct level members p q slot_len =
     (let missing = missing_members members;
          avail = of_bool (p \<noteq> None) + of_bool (q \<noteq> None)
      in case missing of
           [] \<Rightarrow> Some (Inr members)
         | [x] \<Rightarrow> (case p of
               Some pb \<Rightarrow> do { d \<leftarrow> fold_present level (\<lambda>_. 1) (\<lambda>j. j = x) 0 pb members;
                               Some (Inr (members[x := Some d])) }
             | None \<Rightarrow> (case q of
                   Some qb \<Rightarrow> do { d \<leftarrow> reconstruct_one_q level members x qb;
                                   Some (Inr (members[x := Some d])) }
                 | None \<Rightarrow> Some (Inl (StripeUnrecoverable 1 avail))))
         | [x, y] \<Rightarrow> (case (p, q) of
               (Some pb, Some qb) \<Rightarrow>
                 do { (dx, dy) \<leftarrow> reconstruct_two level members x y pb qb slot_len;
                      Some (Inr (members[x := Some dx, y := Some dy])) }
             | _ \<Rightarrow> Some (Inl (StripeUnrecoverable 2 avail)))
         | _ \<Rightarrow> Some (Inl (StripeUnrecoverable (length missing) avail)))"

text \<open>The right-hand sides: each chosen leg with every present member's share taken out.\<close>

fun each_row :: "('a \<Rightarrow> 'b option) \<Rightarrow> 'a list \<Rightarrow> 'b list option" where
  "each_row f [] = Some []"
| "each_row f (x # xs) = do { y \<leftarrow> f x; ys \<leftarrow> each_row f xs; Some (y # ys) }"

definition leg_rhs ::
  "SimdLevel \<Rightarrow> bytes option list \<Rightarrow> bytes option list \<Rightarrow> u8 \<Rightarrow> nat \<Rightarrow> bytes option" where
  "leg_rhs level members legs parity j =
     do { leg \<leftarrow> legs ! j;
          fold_present level (coef parity j) (\<lambda>i. members ! i = None) 0 leg members }"

text \<open>\<open>x += inv[c][r] * rhs[r]\<close> over the rows.\<close>

fun combine_rows :: "SimdLevel \<Rightarrow> bytes \<Rightarrow> (u8 \<times> bytes) list \<Rightarrow> bytes option" where
  "combine_rows level x [] = Some x"
| "combine_rows level x ((k, b) # rest) =
     do { x' \<leftarrow> mul_xor_into level x b k; combine_rows level x' rest }"

definition reconstruct_legs ::
  "SimdLevel \<Rightarrow> bytes option list \<Rightarrow> bytes option list \<Rightarrow> u8 \<Rightarrow> nat
     \<Rightarrow> (StripeError + bytes option list) option" where
  "reconstruct_legs level members legs parity slot_len =
     (if parity \<le> 2
      then reconstruct level members (if 0 < length legs then legs ! 0 else None)
             (if 1 < length legs then legs ! 1 else None) slot_len
      else (let missing = missing_members members;
                rows0 = filter (\<lambda>j. legs ! j \<noteq> None) [0..<length legs]
            in if missing = [] then Some (Inr members)
               else if length missing > length rows0
               then Some (Inl (StripeUnrecoverable (length missing) (length rows0)))
               else (let n = length missing; rows = take n rows0 in
                 do { rhs \<leftarrow> each_row (leg_rhs level members legs parity) rows;
                      let a = map (\<lambda>j. map (\<lambda>x. coef parity j x) missing) rows in
                      (case gauss_jordan n a of
                         None \<Rightarrow> Some (Inl (StripeUnrecoverable n (length rows)))
                       | Some iv \<Rightarrow>
                           do { solved \<leftarrow> each_row (\<lambda>c. combine_rows level (zero_buf slot_len)
                                  (zip (iv ! c) rhs)) [0..<n];
                                Some (Inr (fold (\<lambda>(c, x) ms. ms[c := Some x]) (zip missing solved) members)) }) })))"

section \<open>Weighted sums of members\<close>

lemma mul_xor_into_spec:
  "length src = length dst \<Longrightarrow>
    mul_xor_into level dst src c = Some (map2 (\<lambda>d x. d XOR gf_mul c x) dst src)"
  by (simp add: mul_xor_into_def xor_into_def gf_mul_xor_spec stripe_gf.mul_1)

text \<open>The value a leg has at byte \<open>b\<close>, for the coefficients \<open>c\<close> of the members from index \<open>i\<close>.\<close>

definition wsum :: "(nat \<Rightarrow> u8) \<Rightarrow> nat \<Rightarrow> bytes list \<Rightarrow> nat \<Rightarrow> u8" where
  "wsum c i D b = byte (\<Sum>k < length D. GF (c (i + k)) * GF (D ! k ! b))"

lemma GF_wsum: "GF (wsum c i D b) = (\<Sum>k < length D. GF (c (i + k)) * GF (D ! k ! b))"
  by (simp add: wsum_def)

lemma wsum_simps [simp]:
  "wsum c i [] b = 0" "wsum c i (s # D) b = gf_mul (c i) (s ! b) XOR wsum c (Suc i) D b"
  by (simp_all add: wsum_def sum.lessThan_Suc_shift byte_ring del: sum.lessThan_Suc)

lemma wsum_update:
  assumes "x < length D"
  shows "wsum c 0 (D[x := z]) b = wsum c 0 D b XOR gf_mul (c x) (D ! x ! b XOR z ! b)"
proof -
  have "GF (wsum c 0 (D[x := z]) b) = GF (wsum c 0 D b XOR gf_mul (c x) (D ! x ! b XOR z ! b))"
    using sum_update [OF assms, of "\<lambda>i. GF (c i)" z b] by (simp add: GF_wsum)
  then show ?thesis by (simp only: gf8.inject)
qed

definition leg_of :: "u8 \<Rightarrow> nat \<Rightarrow> bytes list \<Rightarrow> nat \<Rightarrow> bytes" where
  "leg_of parity len D j = map (wsum (coef parity j) 0 D) [0..<len]"

lemma length_leg_of [simp]: "length (leg_of parity len D j) = len"
  by (simp add: leg_of_def)

lemma fold_legs_spec:
  assumes "\<forall>l \<in> set legs. length l = length d"
  shows "fold_legs level parity i d j legs =
    Some (map (\<lambda>k. map2 (\<lambda>l x. l XOR gf_mul (coef parity (j + k) i) x) (legs ! k) d) [0..<length legs])"
  using assms
proof (induction legs arbitrary: j)
  case (Cons leg legs)
  then show ?case
    by (simp add: mul_xor_into_spec upt_conv_Cons map_Suc_upt [symmetric] comp_def del: upt_Suc)
qed simp

lemma fold_members_spec:
  assumes "\<forall>l \<in> set out. length l = len" "\<forall>d. Some d \<in> set ms \<longrightarrow> length d = len"
  shows "fold_members level parity i out ms =
    Some (map (\<lambda>j. map (\<lambda>b. out ! j ! b XOR wsum (coef parity j) i (map (strip_or_zero len) ms) b) [0..<len])
      [0..<length out])"
  using assms
proof (induction ms arbitrary: i out)
  case Nil
  then show ?case by (auto intro!: nth_equalityI)
next
  case (Cons m ms)
  show ?case
  proof (cases m)
    case None
    then show ?thesis using Cons by (auto simp: strip_or_zero_def zero_buf_def stripe_gf.mul_0)
  next
    case (Some d)
    then have d: "length d = len" using Cons.prems(2) by simp
    define out' where "out' = map (\<lambda>k. map2 (\<lambda>l x. l XOR gf_mul (coef parity k i) x) (out ! k) d) [0..<length out]"
    have f: "fold_legs level parity i d 0 out = Some out'"
      using fold_legs_spec [of out d level parity i 0] Cons.prems(1) d by (simp add: out'_def)
    have "\<forall>l \<in> set out'. length l = len" using Cons.prems(1) d by (auto simp: out'_def)
    from Cons.IH [OF this, of "Suc i"] Cons.prems(2) Cons.prems(1) d show ?thesis
      by (auto simp: Some f out'_def strip_or_zero_def xor.assoc)
  qed
qed

lemma fold_present_spec:
  assumes "\<forall>k < length ms. ms ! k = None \<longleftrightarrow> skip (i + k)" "\<forall>d. Some d \<in> set ms \<longrightarrow> length d = len"
    and "length acc = len"
  shows "fold_present level c skip i acc ms =
    Some (map (\<lambda>b. acc ! b XOR wsum c i (map (strip_or_zero len) ms) b) [0..<len])"
  using assms
proof (induction ms arbitrary: i acc)
  case Nil
  then show ?case by (auto intro!: nth_equalityI)
next
  case (Cons m ms)
  have ms: "\<forall>k < length ms. ms ! k = None \<longleftrightarrow> skip (Suc i + k)"
    using Cons.prems(1) by fastforce
  have m: "m = None \<longleftrightarrow> skip i" using Cons.prems(1) by fastforce
  show ?case
  proof (cases m)
    case None
    then show ?thesis using m ms Cons
      by (auto simp: strip_or_zero_def zero_buf_def stripe_gf.mul_0)
  next
    case (Some d)
    then have "length d = len" using Cons.prems(2) by simp
    then show ?thesis using Some m ms Cons
      by (auto simp: mul_xor_into_spec strip_or_zero_def xor.assoc)
  qed
qed

section \<open>P and Q\<close>

lemma lost_lengths:
  "lost_of D ms \<Longrightarrow> \<forall>s \<in> set D. length s = len \<Longrightarrow> \<forall>d. Some d \<in> set ms \<longrightarrow> length d = len"
  by (fastforce simp: lost_of_def in_set_conv_nth)

lemma missing_iff:
  "i \<in> set (missing_members ms) \<longleftrightarrow> i < length ms \<and> ms ! i = None"
  by (auto simp: missing_members_def)

lemma missing_sorted: "sorted_wrt (<) (missing_members ms)"
  unfolding missing_members_def by (intro sorted_wrt_filter) simp

lemma fold_present_lost:
  assumes "lost_of D ms" "\<forall>s \<in> set D. length s = len" "\<And>k. k < length D \<Longrightarrow> ms ! k = None \<longleftrightarrow> skip k"
    and "missing_members ms = xs"
  shows "fold_present level c skip 0 (map (wsum c 0 D) [0..<len]) ms =
    Some (map (\<lambda>b. wsum c 0 D b XOR wsum c 0 (fold (\<lambda>x D. D[x := zero_buf len]) xs D) b) [0..<len])"
proof -
  have "length ms = length D" using assms(1) by (simp add: lost_of_def)
  then have "fold_present level c skip 0 (map (wsum c 0 D) [0..<len]) ms =
      Some (map (\<lambda>b. map (wsum c 0 D) [0..<len] ! b XOR wsum c 0 (map (strip_or_zero len) ms) b) [0..<len])"
    using assms(3) by (intro fold_present_spec lost_lengths [OF assms(1,2)]) auto
  also have "map (strip_or_zero len) ms = fold (\<lambda>x D. D[x := zero_buf len]) xs D"
    using fill_lost(1) [OF assms(1), of xs] assms(4) by (simp add: missing_members_def)
  finally show ?thesis by (simp cong: map_cong)
qed

lemma reconstruct_one_spec:
  assumes "lost_of D ms" "\<forall>s \<in> set D. length s = len" "missing_members ms = [x]"
  shows "fold_present level c (\<lambda>j. j = x) 0 (map (wsum c 0 D) [0..<len]) ms
    = Some (map (\<lambda>b. gf_mul (c x) (D ! x ! b)) [0..<len])" "x < length D"
    "ms[x := Some (D ! x)] = map Some D"
proof -
  have x: "k = x \<longleftrightarrow> k < length D \<and> ms ! k = None" for k
    using missing_iff [of k ms] assms(1,3) by (auto simp: lost_of_def)
  then show "x < length D" by blast
  then show "fold_present level c (\<lambda>j. j = x) 0 (map (wsum c 0 D) [0..<len]) ms
    = Some (map (\<lambda>b. gf_mul (c x) (D ! x ! b)) [0..<len])"
    using fold_present_lost [OF assms(1,2) _ assms(3), of "\<lambda>j. j = x" level c] x
    by (simp add: wsum_update zero_buf_def cong: map_cong)
  show "ms[x := Some (D ! x)] = map Some D"
    using fill_lost(2) [OF assms(1), of "[x]"] assms(3) by (simp add: missing_members_def)
qed

lemma reconstruct_two_spec:
  assumes "lost_of D ms" "\<forall>s \<in> set D. length s = len" "missing_members ms = [x, y]" "length D \<le> 255"
  shows "reconstruct_two level ms x y (map (wsum (\<lambda>_. 1) 0 D) [0..<len]) (map (wsum gf_pow2 0 D) [0..<len]) len
    = Some (D ! x, D ! y)" "ms[x := Some (D ! x), y := Some (D ! y)] = map Some D"
proof -
  have xy: "k = x \<or> k = y \<longleftrightarrow> k < length D \<and> ms ! k = None" for k
    using missing_iff [of k ms] assms(1,3) by (auto simp: lost_of_def)
  then have b: "x < length D" "y < length D" by blast+
  have lt: "x < y" using missing_sorted [of ms] assms(3) by simp
  have d: "y - x < 255" using b assms(4) by simp
  have f: "fold_present level c (\<lambda>j. j = x \<or> j = y) 0 (map (wsum c 0 D) [0..<len]) ms
      = Some (map (\<lambda>b. gf_mul (c x) (D ! x ! b) XOR gf_mul (c y) (D ! y ! b)) [0..<len])" for c
    using fold_present_lost [OF assms(1,2) _ assms(3), of "\<lambda>j. j = x \<or> j = y" level c] xy b lt
    by (simp add: wsum_update zero_buf_def ac_simps cong: map_cong)
  define pxy where "pxy = map (\<lambda>b. D ! x ! b XOR D ! y ! b) [0..<len]"
  have "map (\<lambda>i. gf_mul (gf_inv (gf_pow2 x XOR gf_pow2 y)) (gf_mul (gf_pow2 y) (pxy ! i) XOR
      map (\<lambda>b. gf_mul (gf_pow2 x) (D ! x ! b) XOR gf_mul (gf_pow2 y) (D ! y ! b)) [0..<len] ! i)) [0..<len] = D ! x"
    using b(1) assms(2) by (intro nth_equalityI) (simp_all add: pxy_def stripe_gf.solve_two [OF lt d])
  moreover have "xor_into pxy (D ! x) = D ! y"
    using b assms(2) by (intro nth_equalityI) (simp_all add: xor_into_def pxy_def nth_append ac_simps)
  ultimately show "reconstruct_two level ms x y (map (wsum (\<lambda>_. 1) 0 D) [0..<len]) (map (wsum gf_pow2 0 D) [0..<len]) len
    = Some (D ! x, D ! y)"
    using f [of "\<lambda>_. 1"] f [of gf_pow2]
    by (simp add: reconstruct_two_def Let_def stripe_gf.mul_1 pxy_def)
  show "ms[x := Some (D ! x), y := Some (D ! y)] = map Some D"
    using fill_lost(2) [OF assms(1), of "[x, y]"] assms(3) by (simp add: missing_members_def)
qed

lemma reconstruct_spec:
  assumes "lost_of D ms" "\<forall>s \<in> set D. length s = len" "length D \<le> 255"
    and "p = None \<or> p = Some (map (wsum (\<lambda>_. 1) 0 D) [0..<len])"
    and "q = None \<or> q = Some (map (wsum gf_pow2 0 D) [0..<len])"
  defines "avail \<equiv> of_bool (p \<noteq> None) + of_bool (q \<noteq> None)"
  shows "reconstruct level ms p q len =
    Some (if length (missing_members ms) \<le> avail then Inr (map Some D)
          else Inl (StripeUnrecoverable (length (missing_members ms)) avail))"
proof -
  consider "missing_members ms = []" | x where "missing_members ms = [x]"
    | x y where "missing_members ms = [x, y]" | x y z zs where "missing_members ms = x # y # z # zs"
    by (metis list.exhaust)
  then show ?thesis
  proof cases
    case 1
    then have "ms = map Some D" using fill_lost(2) [OF assms(1), of "[]"] by (simp add: missing_members_def)
    with 1 show ?thesis by (simp add: reconstruct_def)
  next
    case 2
    have l: "length (D ! x) = len" using reconstruct_one_spec(2) [OF assms(1,2) 2] assms(2) by simp
    have i: "gf_mul (gf_inv (gf_pow2 x)) (gf_mul (gf_pow2 x) b) = b" for b
      by (rule stripe_gf.inv_mul [OF stripe_gf.pow2_nonzero])
    have m: "map (\<lambda>b. D ! x ! b) [0..<len] = D ! x" using l by (metis map_nth)
    show ?thesis
      using reconstruct_one_spec [OF assms(1,2) 2] assms(4,5) 2 m
      by (auto simp: reconstruct_def Let_def avail_def reconstruct_one_q_def stripe_gf.mul_1 i comp_def)
  next
    case 3
    then show ?thesis
      using reconstruct_two_spec [OF assms(1,2) 3 assms(3)] assms(4,5)
      by (auto simp: reconstruct_def Let_def avail_def)
  next
    case 4
    then show ?thesis using assms(4,5) by (auto simp: reconstruct_def Let_def avail_def)
  qed
qed

section \<open>The Cauchy code\<close>

lemma each_row_map: "(\<And>x. x \<in> set xs \<Longrightarrow> f x = Some (g x)) \<Longrightarrow> each_row f xs = Some (map g xs)"
  by (induction xs) auto

lemma gf8_move: "a + (g + f) = s \<Longrightarrow> a + f = g + (s :: gf8)"
  by (auto simp: add.left_commute [of g a])

lemma wsum_zeroed:
  assumes "distinct xs" "\<forall>x \<in> set xs. x < length D" "b < len"
  shows "GF (wsum c 0 D b) + GF (wsum c 0 (fold (\<lambda>x D. D[x := zero_buf len]) xs D) b)
    = (\<Sum>x \<leftarrow> xs. GF (c x) * GF (D ! x ! b))"
  using assms(1,2)
proof (induction xs arbitrary: D)
  case (Cons x xs)
  define E where "E = D[x := zero_buf len]"
  have u: "GF (wsum c 0 E b) = GF (wsum c 0 D b) + GF (c x) * GF (D ! x ! b)"
    using Cons.prems assms(3) by (simp add: E_def wsum_update zero_buf_def)
  have "GF (wsum c 0 E b) + GF (wsum c 0 (fold (\<lambda>x D. D[x := zero_buf len]) xs E) b)
      = (\<Sum>x \<leftarrow> xs. GF (c x) * GF (E ! x ! b))"
    using Cons.prems by (intro Cons.IH) (simp_all add: E_def)
  also have "\<dots> = (\<Sum>x \<leftarrow> xs. GF (c x) * GF (D ! x ! b))"
  proof -
    have "E ! k = D ! k" if "k \<in> set xs" for k
      using that Cons.prems(1) by (cases "k = x") (auto simp: E_def)
    then show ?thesis by (simp cong: map_cong)
  qed
  finally have "GF (wsum c 0 D b) + (GF (c x) * GF (D ! x ! b) + GF (wsum c 0 (fold (\<lambda>x D. D[x := zero_buf len]) xs E) b))
      = (\<Sum>x \<leftarrow> xs. GF (c x) * GF (D ! x ! b))" by (simp add: u add.assoc)
  then show ?case by (simp add: E_def [symmetric]) (rule gf8_move)
qed simp

lemma combine_rows_spec:
  assumes "length ks = length bs" "\<forall>b \<in> set bs. length b = len" "length x = len"
  shows "combine_rows level x (zip ks bs) = Some (map (\<lambda>b. x ! b XOR wsum ((!) ks) 0 bs b) [0..<len])"
  using assms
proof (induction ks bs arbitrary: x rule: list_induct2)
  case Nil
  then show ?case by (auto intro!: nth_equalityI)
next
  case (Cons k ks r rs)
  have "wsum ((!) (k # ks)) (Suc 0) rs b = wsum ((!) ks) 0 rs b" for b by (simp add: wsum_def)
  with Cons show ?case by (auto simp: mul_xor_into_spec xor.assoc)
qed

lemma coef_cauchy:
  assumes "\<not> parity \<le> 2"
  shows "GF (coef parity j i) = 1 / (GF (of_nat j) + GF (parity + of_nat i))"
  using assms by (simp add: coef_def Let_def divide_inverse)

lemma unat_add_member:
  assumes "unat parity + n \<le> 256" "i < n"
  shows "unat (parity + of_nat i :: u8) = unat parity + i"
  using assms by (simp add: unat_word_ariths unat_of_nat)

lemma cauchy_rows_kernel:
  assumes "\<not> parity \<le> 2" "unat parity + w \<le> 256"
    and "distinct rows" "\<forall>j \<in> set rows. j < unat parity" "length rows = n"
    and "distinct xs" "\<forall>i \<in> set xs. i < w" "length xs = n"
  defines "a \<equiv> map (\<lambda>j. map (\<lambda>x. coef parity j x) xs) rows"
  shows "square n a \<and> trivial_kernel n a"
proof
  show "square n a" using assms(5,8) by (simp add: square_def a_def)
  define x where "x = (\<lambda>r. GF (of_nat (rows ! r)))"
  define y where "y = (\<lambda>c. GF (parity + of_nat (xs ! c)))"
  have ur: "unat (of_nat (rows ! r) :: u8) = rows ! r" "rows ! r < unat parity" if "r < n" for r
  proof -
    show "rows ! r < unat parity" using assms(4,5) that by simp
    then show "unat (of_nat (rows ! r) :: u8) = rows ! r" using assms(2) by (simp add: unat_of_nat)
  qed
  have uy: "unat (parity + of_nat (xs ! c)) = unat parity + xs ! c" if "c < n" for c
    using unat_add_member [OF assms(2)] assms(7,8) that by simp
  have "x r + y c \<noteq> 0" if "r < n" "c < n" for r c
  proof
    assume "x r + y c = 0"
    then have "x r = y c" by (rule iffD2 [OF gf8_eq_iff_add])
    then have "of_nat (rows ! r) = parity + of_nat (xs ! c)" by (simp add: x_def y_def)
    then have "rows ! r = unat parity + xs ! c" using ur [OF that(1)] uy [OF that(2)] by metis
    then show False using ur(2) [OF that(1)] by simp
  qed
  moreover have "inj_on x {..< n}"
    using ur assms(3,5) by (auto simp: inj_on_def x_def nth_eq_iff_index_eq) (metis nth_eq_iff_index_eq)
  moreover have "inj_on y {..< n}"
  proof (rule inj_onI)
    fix i j assume h: "i \<in> {..< n}" "j \<in> {..< n}" "y i = y j"
    then have "unat parity + xs ! i = unat parity + xs ! j" using uy by (metis gf8.inject lessThan_iff y_def)
    then show "i = j" using h assms(6,8) by (simp add: nth_eq_iff_index_eq)
  qed
  moreover have "lin n (a ! r) X = (\<Sum>c < n. X c / (x r + y c))" if "r < n" for r X
    using that assms(5,8) by (simp add: lin_def a_def coef_cauchy [OF assms(1)] x_def y_def)
  ultimately show "trivial_kernel n a"
    unfolding trivial_kernel_def using cauchy_kernel [of n x y] by simp
qed

lemma fold_zip_update:
  "fold (\<lambda>(c, x) ms. ms[c := Some x]) (zip xs (map g xs)) ms = fold (\<lambda>x ms. ms[x := Some (g x)]) xs ms"
  by (induction xs arbitrary: ms) auto

lemma reconstruct_cauchy:
  assumes "lost_of D ms" "\<forall>s \<in> set D. length s = len" "\<not> parity \<le> 2" "unat parity + length D \<le> 256"
    and "length legs \<le> unat parity" "\<forall>j < length legs. legs ! j = None \<or> legs ! j = Some (leg_of parity len D j)"
  defines "rows0 \<equiv> filter (\<lambda>j. legs ! j \<noteq> None) [0..<length legs]" and "xs \<equiv> missing_members ms"
  assumes "length xs \<le> length rows0" "xs \<noteq> []"
  shows "reconstruct_legs level ms legs parity len = Some (Inr (map Some D))"
proof -
  define n where "n = length xs"
  define rows where "rows = take n rows0"
  have xs: "distinct xs" "\<forall>i \<in> set xs. i < length D" "\<And>k. k < length D \<Longrightarrow> ms ! k = None \<longleftrightarrow> k \<in> set xs"
    using missing_sorted [of ms] assms(1) strict_sorted_iff [of xs] by (auto simp: xs_def missing_iff lost_of_def)
  have r0: "distinct rows0" "\<forall>j \<in> set rows0. j < length legs \<and> legs ! j \<noteq> None"
    by (auto simp: rows0_def)
  have "set rows \<subseteq> set rows0" by (simp add: rows_def set_take_subset)
  with r0 assms(5,6,9) have rows: "distinct rows" "\<forall>j \<in> set rows. j < unat parity" "length rows = n"
    "\<And>j. j \<in> set rows \<Longrightarrow> legs ! j = Some (leg_of parity len D j)"
    by (auto simp: rows_def n_def distinct_take) fastforce+
  define Z where "Z = fold (\<lambda>x D. D[x := zero_buf len]) xs D"
  define rhs where "rhs = (\<lambda>j. map (\<lambda>b. wsum (coef parity j) 0 D b XOR wsum (coef parity j) 0 Z b) [0..<len])"
  have "leg_rhs level ms legs parity j = Some (rhs j)" if "j \<in> set rows" for j
    using fold_present_lost [OF assms(1,2), of "\<lambda>i. ms ! i = None" xs level "coef parity j"] rows(4) [OF that]
    by (simp add: leg_rhs_def leg_of_def rhs_def Z_def xs_def)
  then have R: "each_row (leg_rhs level ms legs parity) rows = Some (map rhs rows)"
    by (rule each_row_map)
  define a where "a = map (\<lambda>j. map (\<lambda>x. coef parity j x) xs) rows"
  have "square n a \<and> trivial_kernel n a"
    unfolding a_def
    by (rule cauchy_rows_kernel [OF assms(3,4) rows(1-3) xs(1,2)]) (simp add: n_def)
  then obtain iv where iv: "gauss_jordan n a = Some iv" "square n iv"
    "\<And>X B r. (\<forall>k < n. lin n (a ! k) X = B k) \<Longrightarrow> r < n \<Longrightarrow> X r = lin n (iv ! r) B"
    using gauss_jordan_solves [of n a] by blast
  have byte: "wsum ((!) (iv ! c)) 0 (map rhs rows) b = D ! (xs ! c) ! b" if c: "c < n" and b: "b < len" for c b
  proof -
    define X where "X = (\<lambda>k. GF (D ! (xs ! k) ! b))"
    have "lin n (a ! r) X = GF (rhs (rows ! r) ! b)" if "r < n" for r
    proof -
      have "GF (rhs (rows ! r) ! b) = (\<Sum>x \<leftarrow> xs. GF (coef parity (rows ! r) x) * GF (D ! x ! b))"
        using wsum_zeroed [OF xs(1,2) b] b by (simp add: rhs_def Z_def)
      also have "\<dots> = lin n (a ! r) X"
        using that rows(3) by (simp add: lin_def a_def X_def sum_list_sum_nth n_def atLeast0LessThan)
      finally show ?thesis by simp
    qed
    then have "X c = lin n (iv ! c) (\<lambda>r. GF (rhs (rows ! r) ! b))" by (intro iv(3) [OF _ c]) simp
    then have "GF (wsum ((!) (iv ! c)) 0 (map rhs rows) b) = GF (D ! (xs ! c) ! b)"
      using rows(3) by (simp add: GF_wsum lin_def X_def)
    then show ?thesis by simp
  qed
  have "combine_rows level (zero_buf len) (zip (iv ! c) (map rhs rows)) = Some (D ! (xs ! c))" if c: "c < n" for c
  proof -
    have "length (iv ! c) = n" using iv(2) c by (simp add: square_def)
    moreover have "length (D ! (xs ! c)) = len" using assms(2) xs(2) c by (simp add: n_def)
    ultimately show ?thesis
      using byte [OF c] rows(3)
      by (subst combine_rows_spec [where len = len])
        (auto simp: rhs_def zero_buf_def intro!: nth_equalityI)
  qed
  then have S: "each_row (\<lambda>c. combine_rows level (zero_buf len) (zip (iv ! c) (map rhs rows))) [0..<n]
      = Some (map (\<lambda>c. D ! (xs ! c)) [0..<n])"
    by (intro each_row_map) simp
  have "map (\<lambda>c. D ! (xs ! c)) [0..<n] = map ((!) D) xs"
    unfolding n_def by (rule nth_equalityI) simp_all
  then have "fold (\<lambda>(c, x) ms. ms[c := Some x]) (zip xs (map (\<lambda>c. D ! (xs ! c)) [0..<n])) ms = map Some D"
    using fill_lost(2) [OF assms(1), of xs] by (simp add: fold_zip_update xs_def missing_members_def)
  then show ?thesis
    using assms(3,9,10) R S iv(1)
    by (simp add: reconstruct_legs_def Let_def rows0_def [symmetric] xs_def [symmetric] rows_def [symmetric]
        n_def [symmetric] a_def [symmetric] del: not_None_eq)
qed

section \<open>Properties\<close>

lemma coef_low: "parity \<le> 2 \<Longrightarrow> coef parity 0 = (\<lambda>_. 1)" "parity \<le> 2 \<Longrightarrow> coef parity 1 = gf_pow2"
  by (simp_all add: coef_def fun_eq_iff)

lemma low_legs:
  assumes "length legs \<le> 2"
  shows "length (filter (\<lambda>l. l \<noteq> None) legs) =
    of_bool ((if 0 < length legs then legs ! 0 else None) \<noteq> None)
    + of_bool ((if 1 < length legs then legs ! 1 else None) \<noteq> None)"
proof -
  consider "legs = []" | x where "legs = [x]" | x y where "legs = [x, y]"
    using assms by (cases legs; cases "tl legs") auto
  then show ?thesis by cases auto
qed

lemma count_rows: "length (filter (\<lambda>j. legs ! j \<noteq> None) [0..<length legs]) = length (filter (\<lambda>l. l \<noteq> None) legs)"
proof -
  have "map ((!) legs) (filter (\<lambda>j. legs ! j \<noteq> None) [0..<length legs])
      = filter (\<lambda>l. l \<noteq> None) (map ((!) legs) [0..<length legs])"
    by (simp add: filter_map comp_def)
  then show ?thesis by (metis length_map map_nth)
qed

text \<open>C21. Reconstruction is exact and as strong as the code promises: with members lost and
  legs unreadable in any combination, \<open>reconstruct_legs\<close> returns the members that were written
  whenever at least as many legs as members survive, for P, P+Q and the Cauchy code alike, and
  otherwise reports how many members are missing and how many legs were readable. It never
  panics, and the elimination never lacks a pivot.\<close>

theorem reconstruct_legs_exact:
  assumes "\<forall>s \<in> set D. length s = len" "1 \<le> parity" "unat parity + length D \<le> 256"
    and "lost_of D ms" "length legs \<le> unat parity"
    and "\<forall>j < length legs. legs ! j = None \<or> legs ! j = Some (leg_of parity len D j)"
  shows "reconstruct_legs level ms legs parity len =
    (let missing = length (filter (\<lambda>m. m = None) ms); readable = length (filter (\<lambda>l. l \<noteq> None) legs)
     in Some (if missing \<le> readable then Inr (map Some D) else Inl (StripeUnrecoverable missing readable)))"
proof -
  have m: "length (missing_members ms) = length (filter (\<lambda>m. m = None) ms)"
    by (simp add: missing_members_def lost_data_length)
  show ?thesis
  proof (cases "parity \<le> 2")
    case True
    have "unat parity \<le> 2" using True by (simp add: word_le_nat_alt)
    then have l: "length legs \<le> 2" using assms(5) by simp
    have "1 \<le> unat parity" using assms(2) by (simp add: word_le_nat_alt)
    then have d: "length D \<le> 255" using assms(3) by simp
    have p: "(if 0 < length legs then legs ! 0 else None) = None \<or>
        (if 0 < length legs then legs ! 0 else None) = Some (map (wsum (\<lambda>_. 1) 0 D) [0..<len])"
      using assms(6) coef_low [OF True] by (auto simp: leg_of_def)
    have q: "(if 1 < length legs then legs ! 1 else None) = None \<or>
        (if 1 < length legs then legs ! 1 else None) = Some (map (wsum gf_pow2 0 D) [0..<len])"
      using assms(6) coef_low [OF True] by (auto simp: leg_of_def)
    show ?thesis
      unfolding low_legs [OF l] Let_def m [symmetric] reconstruct_legs_def
      using reconstruct_spec [OF assms(4,1) d p q, of level] by (simp only: True if_True)
  next
    case False
    show ?thesis
    proof (cases "missing_members ms = []")
      case True
      then have "ms = map Some D" using fill_lost(2) [OF assms(4), of "[]"] by (simp add: missing_members_def)
      with True False m show ?thesis by (simp add: reconstruct_legs_def Let_def)
    next
      case nonempty: False
      show ?thesis
      proof (cases "length (missing_members ms) \<le> length (filter (\<lambda>l. l \<noteq> None) legs)")
        case True
        have "reconstruct_legs level ms legs parity len = Some (Inr (map Some D))"
          by (rule reconstruct_cauchy [OF assms(4,1) False assms(3,5,6)]) (use True nonempty in \<open>simp_all only: count_rows not_False_eq_True\<close>)
        with True show ?thesis by (simp only: Let_def m if_True)
      next
        case few: False
        then show ?thesis using False nonempty m
          by (simp add: reconstruct_legs_def Let_def count_rows del: not_None_eq)
      qed
    qed
  qed
qed

theorem reconstruct_legs_exact_witness:
  "reconstruct_legs Generic [None, None, Some [3], None]
     [Some (leg_of 4 1 [[1], [2], [3], [4]] 0), None, Some (leg_of 4 1 [[1], [2], [3], [4]] 2),
      Some (leg_of 4 1 [[1], [2], [3], [4]] 3)] 4 1
   = Some (Inr [Some [1], Some [2], Some [3], Some [4]])"
proof -
  have "lost_of [[1], [2], [3], [4 :: u8]] [None, None, Some [3], None]"
    by (auto simp: lost_of_def less_Suc_eq numeral_eq_Suc)
  moreover have "\<forall>j < 4. [Some (leg_of 4 1 [[1], [2], [3], [4]] 0), None, Some (leg_of 4 1 [[1], [2], [3], [4]] 2),
      Some (leg_of 4 1 [[1], [2], [3], [4]] 3)] ! j \<in> {None, Some (leg_of 4 1 [[1], [2], [3], [4]] j)}"
    by (auto simp: less_Suc_eq numeral_eq_Suc)
  ultimately show ?thesis
    using reconstruct_legs_exact [of "[[1], [2], [3], [4]]" 1 4 "[None, None, Some [3], None]"
      "[Some (leg_of 4 1 [[1], [2], [3], [4]] 0), None, Some (leg_of 4 1 [[1], [2], [3], [4]] 2),
      Some (leg_of 4 1 [[1], [2], [3], [4]] 3)]" Generic]
    by (simp add: Let_def)
qed

text \<open>The legs that are stored are the weighted sums of the members: an unallocated member
  counts as zeros, and there is at least one leg.\<close>

theorem compute_parity_legs:
  assumes "\<forall>d. Some d \<in> set members \<longrightarrow> length d = slot_len"
  shows "compute_parity level members slot_len parity =
    Some (map (leg_of (max parity 1) slot_len (map (strip_or_zero slot_len) members)) [0..<unat (max parity 1)])"
proof -
  have "compute_parity level members slot_len parity =
    Some (map (\<lambda>j. map (\<lambda>b. replicate (unat (max parity 1)) (zero_buf slot_len) ! j ! b XOR
      wsum (coef (max parity 1) j) 0 (map (strip_or_zero slot_len) members) b) [0..<slot_len])
      [0..<length (replicate (unat (max parity 1)) (zero_buf slot_len))])"
    unfolding compute_parity_def using assms by (intro fold_members_spec) auto
  then show ?thesis by (simp add: leg_of_def zero_buf_def cong: map_cong)
qed

theorem compute_parity_legs_witness:
  "compute_parity Avx2 [Some [5], None, Some [9]] 1 3 =
    Some (map (leg_of (max 3 1) 1 (map (strip_or_zero 1) [Some [5], None, Some [9]])) [0..<unat (max (3 :: u8) 1)])"
  by (rule compute_parity_legs) auto

text \<open>A partial write keeps every leg: folding the exclusive or of the old and the new bytes
  into a leg gives the leg of the updated stripe, so a member's first write is a delta from zero.\<close>

theorem delta_keeps_leg:
  assumes "\<forall>s \<in> set D. length s = len" "member < length D" "length new = len"
  shows "apply_delta_leg level (leg_of parity len D leg) parity leg member (xor_into (D ! member) new) =
    Some (leg_of parity len (D[member := new]) leg)"
proof -
  have l: "length (D ! member) = len" using assms by simp
  have x: "xor_into (D ! member) new = map2 (XOR) (D ! member) new"
    using l assms(3) by (simp add: xor_into_def)
  show ?thesis
    unfolding apply_delta_leg_def x using l assms
    by (subst mul_xor_into_spec) (auto simp: leg_of_def wsum_update intro!: nth_equalityI)
qed

theorem delta_keeps_leg_witness:
  "apply_delta_leg Generic (leg_of 3 1 [[1], [2]] 2) 3 2 1 (xor_into ([[1], [2]] ! 1) [9]) =
    Some (leg_of 3 1 ([[1], [2]][1 := [9]]) 2)"
  by (rule delta_keeps_leg) simp_all

end
