(* ===== verification/RaidLayout.thy ===== *)
theory RaidLayout
  imports Prelude
begin

text \<open>
  Where a byte of an array lives on its members (\<open>src/raid/layout.rs\<close>): the rotation of the
  parity strips, the pairs of RAID-10, the capacity and the splitting of a logical range into
  pieces inside one unit. Offsets are natural numbers: the sources keep them below the size of
  a device. A division by zero is a panic, the value \<open>None\<close>.
\<close>

datatype RaidLevel = Raid1 | Raid5 | Raid6 | Raid10

definition min_members :: "RaidLevel \<Rightarrow> nat" where
  "min_members l = (case l of Raid1 \<Rightarrow> 2 | Raid5 \<Rightarrow> 3 | Raid6 \<Rightarrow> 4 | Raid10 \<Rightarrow> 4)"

record Geometry =
  g_level :: RaidLevel
  g_n :: nat
  g_unit :: nat

record Segment =
  sg_stripe :: nat
  sg_index :: nat
  sg_offset_in_unit :: nat
  sg_len :: nat
  sg_buf_offset :: nat

datatype StripRole = RoleData nat | RoleP | RoleQ

section \<open>Operations\<close>

definition data_count :: "Geometry \<Rightarrow> nat" where
  "data_count g = (case g_level g of Raid1 \<Rightarrow> 1 | Raid5 \<Rightarrow> g_n g - 1 | Raid6 \<Rightarrow> g_n g - 2 | Raid10 \<Rightarrow> g_n g div 2)"

definition tolerated :: "Geometry \<Rightarrow> nat" where
  "tolerated g = (case g_level g of Raid1 \<Rightarrow> g_n g - 1 | Raid5 \<Rightarrow> 1 | Raid6 \<Rightarrow> 2 | Raid10 \<Rightarrow> 1)"

definition is_parity :: "Geometry \<Rightarrow> bool" where
  "is_parity g \<longleftrightarrow> g_level g = Raid5 \<or> g_level g = Raid6"

definition p_member :: "Geometry \<Rightarrow> nat \<Rightarrow> nat" where
  "p_member g stripe = g_n g - 1 - stripe mod g_n g"

definition q_member :: "Geometry \<Rightarrow> nat \<Rightarrow> nat" where
  "q_member g stripe = (p_member g stripe + 1) mod g_n g"

definition parity_skip :: "Geometry \<Rightarrow> nat" where
  "parity_skip g = (if g_level g = Raid6 then 2 else 1)"

definition data_member :: "Geometry \<Rightarrow> nat \<Rightarrow> nat \<Rightarrow> nat" where
  "data_member g stripe d = (p_member g stripe + parity_skip g + d) mod g_n g"

definition role_of :: "Geometry \<Rightarrow> nat \<Rightarrow> nat \<Rightarrow> StripRole" where
  "role_of g stripe member =
     (let p = p_member g stripe in
      if member = p then RoleP
      else if g_level g = Raid6 \<and> member = q_member g stripe then RoleQ
      else RoleData ((member + g_n g - p - parity_skip g) mod g_n g))"

definition pair_members :: "nat \<Rightarrow> nat \<times> nat" where
  "pair_members pair = (2 * pair, 2 * pair + 1)"

definition pair_of :: "nat \<Rightarrow> nat" where
  "pair_of member = member div 2"

definition stripe_bytes :: "Geometry \<Rightarrow> nat" where
  "stripe_bytes g = g_unit g * data_count g"

definition capacity :: "Geometry \<Rightarrow> nat \<Rightarrow> nat" where
  "capacity g data_size =
     (case g_level g of Raid1 \<Rightarrow> data_size | _ \<Rightarrow> (data_size div g_unit g) * stripe_bytes g)"

function segments_loop :: "Geometry \<Rightarrow> nat \<Rightarrow> nat \<Rightarrow> nat \<Rightarrow> Segment list option" where
  "segments_loop g offset end pos =
     (if pos < end
      then (if stripe_bytes g = 0 \<or> g_unit g = 0 then None
            else (let within = pos mod stripe_bytes g;
                      off = within mod g_unit g;
                      take = min (g_unit g - off) (end - pos)
                  in map_option ((#) \<lparr>sg_stripe = pos div stripe_bytes g,
                       sg_index = within div g_unit g, sg_offset_in_unit = off, sg_len = take,
                       sg_buf_offset = pos - offset\<rparr>)
                     (segments_loop g offset end (pos + take))))
      else Some [])"
  by pat_completeness auto
termination
proof (relation "measure (\<lambda>(g, offset, end, pos). end - pos)", goal_cases)
  case (2 g offset "end" pos within off take)
  then have "off < g_unit g" by simp
  with 2 show ?case by auto
qed simp

declare segments_loop.simps [simp del]

definition segments :: "Geometry \<Rightarrow> nat \<Rightarrow> nat \<Rightarrow> Segment list option" where
  "segments g offset len = segments_loop g offset (offset + len) offset"

section \<open>Roles\<close>

text \<open>Enough members that a stripe has a data strip.\<close>

definition geometry_ok :: "Geometry \<Rightarrow> bool" where
  "geometry_ok g \<longleftrightarrow> min_members (g_level g) \<le> g_n g \<and> 0 < g_unit g"

lemma geometry_n: "geometry_ok g \<Longrightarrow> 0 < g_n g" "geometry_ok g \<Longrightarrow> 0 < data_count g"
  by (auto simp: geometry_ok_def min_members_def data_count_def split: RaidLevel.splits)

lemma p_member_less: "0 < g_n g \<Longrightarrow> p_member g s < g_n g"
  by (simp add: p_member_def)

text \<open>The subtraction in \<open>role_of\<close> does not underflow where it is reached.\<close>

lemma role_of_no_underflow:
  assumes "geometry_ok g" "is_parity g" "m < g_n g"
    and "m \<noteq> p_member g s" "g_level g = Raid6 \<longrightarrow> m \<noteq> q_member g s"
  shows "p_member g s + parity_skip g \<le> m + g_n g"
proof (cases "p_member g s + 1 = g_n g")
  case True
  then have "q_member g s = 0" by (simp add: q_member_def)
  with True assms show ?thesis by (auto simp: parity_skip_def)
next
  case False
  with p_member_less [of g s] geometry_n [OF assms(1)] show ?thesis by (auto simp: parity_skip_def)
qed

lemma add_mod_wrap: "(a :: nat) < n \<Longrightarrow> b \<le> n \<Longrightarrow> (a + b) mod n = (if a + b < n then a + b else a + b - n)"
  by (auto simp: mod_if)

lemma data_count_parity: "geometry_ok g \<Longrightarrow> is_parity g \<Longrightarrow> data_count g + parity_skip g = g_n g"
  by (auto simp: geometry_ok_def is_parity_def data_count_def parity_skip_def min_members_def)

lemma data_member_less: "geometry_ok g \<Longrightarrow> data_member g s d < g_n g"
  using geometry_n by (simp add: data_member_def)

lemma role_of_data_member:
  assumes "geometry_ok g" "is_parity g" "d < data_count g"
  shows "role_of g s (data_member g s d) = RoleData d"
proof -
  define n p k where "n = g_n g" and "p = p_member g s" and "k = parity_skip g"
  have p: "p < n" using p_member_less geometry_n [OF assms(1)] by (simp add: p_def n_def)
  have d: "d + k < n + 0" and k: "1 \<le> k" using data_count_parity [OF assms(1,2)] assms(3)
    by (simp_all add: n_def k_def parity_skip_def)
  have m: "data_member g s d = (if p + (k + d) < n then p + (k + d) else p + (k + d) - n)"
    using add_mod_wrap [of p n "k + d"] p d by (simp add: data_member_def n_def p_def k_def ac_simps)
  have q: "q_member g s = (if p + 1 < n then p + 1 else 0)"
    using add_mod_wrap [of p n 1] p by (auto simp: q_member_def n_def p_def)
  have ne: "data_member g s d \<noteq> p" "g_level g = Raid6 \<longrightarrow> data_member g s d \<noteq> q_member g s"
    using p d k unfolding m q by (auto simp: k_def parity_skip_def)
  have "(data_member g s d + n - p - k) mod n = d"
    using p d k unfolding m by (auto simp: mod_if)
  with ne show ?thesis by (simp add: role_of_def Let_def p_def n_def k_def)
qed

lemma role_of_data_inverse:
  assumes "geometry_ok g" "is_parity g" "m < g_n g" "role_of g s m = RoleData d"
  shows "d < data_count g \<and> data_member g s d = m"
proof -
  define n p k where "n = g_n g" and "p = p_member g s" and "k = parity_skip g"
  have p: "p < n" using p_member_less geometry_n [OF assms(1)] by (simp add: p_def n_def)
  have ne: "m \<noteq> p" "g_level g = Raid6 \<longrightarrow> m \<noteq> q_member g s" and d: "d = (m + n - p - k) mod n"
    using assms(4) by (auto simp: role_of_def Let_def p_def n_def k_def split: if_splits)
  have u: "p + k \<le> m + n"
    using role_of_no_underflow [OF assms(1-3)] ne by (simp add: p_def n_def k_def)
  have q: "q_member g s = (if p + 1 < n then p + 1 else 0)"
    using add_mod_wrap [of p n 1] p by (auto simp: q_member_def n_def p_def)
  have k: "k = (if g_level g = Raid6 then 2 else 1)" by (simp add: k_def parity_skip_def)
  have dc: "data_count g + k = n" using data_count_parity [OF assms(1,2)] by (simp add: n_def k_def)
  have m: "m < n" using assms(3) by (simp add: n_def)
  have d': "d = (if m + n - p - k < n then m + n - p - k else m + n - p - k - n)"
    using m u unfolding d by (auto simp: mod_if)
  have "d < data_count g"
    using dc m p ne u unfolding d' q k by (auto split: if_splits)
  moreover have "data_member g s d = (p + k + d) mod n"
    by (simp add: data_member_def p_def k_def n_def)
  moreover have "p + k + d = m + n \<or> p + k + d = m" using d' u m by (auto split: if_splits)
  ultimately show ?thesis using m by auto
qed

lemma role_of_p: "role_of g s m = RoleP \<longleftrightarrow> m = p_member g s"
  by (simp add: role_of_def Let_def)

lemma role_of_q: "role_of g s m = RoleQ \<longleftrightarrow> m \<noteq> p_member g s \<and> g_level g = Raid6 \<and> m = q_member g s"
  by (simp add: role_of_def Let_def)

lemma q_member_less: "geometry_ok g \<Longrightarrow> q_member g s < g_n g"
  using geometry_n by (simp add: q_member_def)

lemma q_member_neq: "geometry_ok g \<Longrightarrow> q_member g s \<noteq> p_member g s"
proof -
  assume g: "geometry_ok g"
  then have n: "2 \<le> g_n g" by (auto simp: geometry_ok_def min_members_def split: RaidLevel.splits)
  have "p_member g s < g_n g" using p_member_less geometry_n [OF g] by simp
  then have "(p_member g s + 1) mod g_n g = (if p_member g s + 1 < g_n g then p_member g s + 1 else p_member g s + 1 - g_n g)"
    using n by (intro add_mod_wrap) simp_all
  then show ?thesis using n \<open>p_member g s < g_n g\<close> by (auto simp: q_member_def)
qed

text \<open>C26. In every stripe of a parity array each member holds exactly one strip and each strip
  is on exactly one member: \<open>role_of\<close> is a bijection from the members to P, Q (RAID-6 only) and
  the data strips, and \<open>p_member\<close>, \<open>q_member\<close> and \<open>data_member\<close> are its inverse.\<close>

theorem strip_roles_bijective:
  assumes "geometry_ok g" "is_parity g"
  shows "bij_betw (role_of g s) {..< g_n g}
      ({RoleP} \<union> (if g_level g = Raid6 then {RoleQ} else {}) \<union> RoleData ` {..< data_count g}) \<and>
    role_of g s (p_member g s) = RoleP \<and>
    (g_level g = Raid6 \<longrightarrow> role_of g s (q_member g s) = RoleQ) \<and>
    (\<forall>d < data_count g. role_of g s (data_member g s d) = RoleData d)"
proof -
  have inj: "inj_on (role_of g s) {..< g_n g}"
  proof (rule inj_onI)
    fix a b assume ab: "a \<in> {..< g_n g}" "b \<in> {..< g_n g}" "role_of g s a = role_of g s b"
    show "a = b"
    proof (cases "role_of g s b")
      case (RoleData d)
      then show ?thesis using ab role_of_data_inverse [OF assms] by (metis lessThan_iff)
    next
      case RoleP
      then show ?thesis using ab by (metis role_of_p)
    next
      case RoleQ
      then show ?thesis using ab by (metis role_of_q)
    qed
  qed
  have "role_of g s ` {..< g_n g} =
      {RoleP} \<union> (if g_level g = Raid6 then {RoleQ} else {}) \<union> RoleData ` {..< data_count g}" (is "?L = ?R")
  proof
    show "?L \<subseteq> ?R"
    proof
      fix r assume "r \<in> ?L"
      then obtain m where m: "m < g_n g" "r = role_of g s m" by auto
      show "r \<in> ?R"
      proof (cases r)
        case (RoleData d)
        then have "d < data_count g" using role_of_data_inverse [OF assms m(1), of s d] m(2) by simp
        then show ?thesis using RoleData by simp
      next
        case RoleQ
        then have "g_level g = Raid6" using m(2) role_of_q [of g s m] by simp
        then show ?thesis using RoleQ by simp
      qed simp
    qed
    have "RoleP \<in> ?L"
      using role_of_p [of g s "p_member g s"] p_member_less [of g s] geometry_n [OF assms(1)]
      by (metis imageI lessThan_iff)
    moreover have "RoleQ \<in> ?L" if "g_level g = Raid6"
      using role_of_q [of g s "q_member g s"] q_member_less [OF assms(1)] q_member_neq [OF assms(1)] that
      by (metis imageI lessThan_iff)
    moreover have "RoleData d \<in> ?L" if "d < data_count g" for d
      using role_of_data_member [OF assms that] data_member_less [OF assms(1)] by (metis imageI lessThan_iff)
    ultimately show "?R \<subseteq> ?L" by auto
  qed
  then show ?thesis
    using inj role_of_data_member [OF assms] role_of_p [of g s] role_of_q [of g s] q_member_neq [OF assms(1)]
    by (simp add: bij_betw_def)
qed

theorem strip_roles_bijective_witness:
  "bij_betw (role_of \<lparr>g_level = Raid6, g_n = 5, g_unit = 65536\<rparr> 7) {..< 5}
      ({RoleP} \<union> {RoleQ} \<union> RoleData ` {..< 3}) \<and>
    role_of \<lparr>g_level = Raid6, g_n = 5, g_unit = 65536\<rparr> 7 2 = RoleP"
  using strip_roles_bijective [of "\<lparr>g_level = Raid6, g_n = 5, g_unit = 65536\<rparr>" 7]
  by (simp add: geometry_ok_def min_members_def is_parity_def data_count_def p_member_def)

section \<open>Splitting a range\<close>

text \<open>The logical address a segment stands for.\<close>

definition seg_addr :: "Geometry \<Rightarrow> Segment \<Rightarrow> nat" where
  "seg_addr g sg = sg_stripe sg * stripe_bytes g + sg_index sg * g_unit g + sg_offset_in_unit sg"

definition seg_ok :: "Geometry \<Rightarrow> nat \<Rightarrow> Segment \<Rightarrow> bool" where
  "seg_ok g offset sg \<longleftrightarrow> 0 < sg_len sg \<and> sg_offset_in_unit sg + sg_len sg \<le> g_unit g \<and>
     sg_index sg < data_count g \<and> offset + sg_buf_offset sg = seg_addr g sg"

lemma split_address:
  assumes "0 < g_unit g" "0 < data_count g"
  shows "(pos div stripe_bytes g) * stripe_bytes g + (pos mod stripe_bytes g div g_unit g) * g_unit g
      + pos mod stripe_bytes g mod g_unit g = pos"
    and "pos mod stripe_bytes g div g_unit g < data_count g"
proof -
  have "(pos mod stripe_bytes g div g_unit g) * g_unit g + pos mod stripe_bytes g mod g_unit g
      = pos mod stripe_bytes g" by (rule div_mult_mod_eq)
  then show "(pos div stripe_bytes g) * stripe_bytes g + (pos mod stripe_bytes g div g_unit g) * g_unit g
      + pos mod stripe_bytes g mod g_unit g = pos"
    using div_mult_mod_eq [of pos "stripe_bytes g"] by linarith
  have "pos mod stripe_bytes g < g_unit g * data_count g"
    using assms unfolding stripe_bytes_def by (intro mod_less_divisor) simp
  then show "pos mod stripe_bytes g div g_unit g < data_count g"
    by (simp add: less_mult_imp_div_less mult.commute)
qed

lemma segments_loop_spec:
  assumes "0 < g_unit g" "0 < data_count g" "offset \<le> pos"
  shows "\<exists>ss. segments_loop g offset end pos = Some ss \<and> (\<forall>sg \<in> set ss. seg_ok g offset sg) \<and>
    concat (map (\<lambda>sg. [seg_addr g sg..<seg_addr g sg + sg_len sg]) ss) = [pos..<end]"
  using assms
proof (induction g offset "end" pos rule: segments_loop.induct)
  case (1 g offset "end" pos)
  have sb: "stripe_bytes g \<noteq> 0" "g_unit g \<noteq> 0" using 1(2,3) by (simp_all add: stripe_bytes_def)
  show ?case
  proof (cases "pos < end")
    case True
    define off where "off = pos mod stripe_bytes g mod g_unit g"
    define take where "take = min (g_unit g - off) (end - pos)"
    define sg where "sg = \<lparr>sg_stripe = pos div stripe_bytes g, sg_index = pos mod stripe_bytes g div g_unit g,
      sg_offset_in_unit = off, sg_len = take, sg_buf_offset = pos - offset\<rparr>"
    have off: "off < g_unit g" using 1(2) by (simp add: off_def)
    have t: "0 < take" "take \<le> g_unit g - off" "pos + take \<le> end" using True off by (simp_all add: take_def)
    have ad: "seg_addr g sg = pos" using split_address(1) [OF 1(2,3)] by (simp add: seg_addr_def sg_def off_def)
    have ok: "seg_ok g offset sg"
      using t off 1(4) ad split_address(2) [OF 1(2,3)] by (simp add: seg_ok_def sg_def)
    have nb: "\<not> (stripe_bytes g = 0 \<or> g_unit g = 0)" using sb by simp
    obtain ss where ss: "segments_loop g offset end (pos + take) = Some ss" "\<forall>sg \<in> set ss. seg_ok g offset sg"
      "concat (map (\<lambda>sg. [seg_addr g sg..<seg_addr g sg + sg_len sg]) ss) = [pos + take..<end]"
      using 1(1) [OF True nb refl off_def take_def 1(2,3)] 1(4) by auto
    have "segments_loop g offset end pos = Some (sg # ss)"
      using True sb ss(1) by (subst segments_loop.simps) (simp add: Let_def sg_def off_def take_def)
    moreover have "[pos..<pos + take] @ [pos + take..<end] = [pos..<end]"
      using t upt_add_eq_append [of pos "pos + take" "end - (pos + take)"] by simp
    ultimately show ?thesis using ss ok ad by (simp add: sg_def)
  next
    case False
    then show ?thesis by (simp add: segments_loop.simps)
  qed
qed

text \<open>C28. Splitting a range is exact: the pieces are the bytes of the range, in order, none twice
  and none missing; each is not empty, lies inside one unit of a data strip that exists, and
  says where in the caller's buffer it starts. The loop ends.\<close>

theorem segments_exact:
  assumes "geometry_ok g"
  shows "\<exists>ss. segments g offset len = Some ss \<and> (\<forall>sg \<in> set ss. seg_ok g offset sg) \<and>
    concat (map (\<lambda>sg. [seg_addr g sg..<seg_addr g sg + sg_len sg]) ss) = [offset..<offset + len]"
  using assms geometry_n [OF assms] unfolding segments_def
  by (intro segments_loop_spec) (simp_all add: geometry_ok_def)

theorem segments_exact_witness:
  "\<exists>ss. segments \<lparr>g_level = Raid5, g_n = 3, g_unit = 4\<rparr> 6 9 = Some ss \<and>
    concat (map (\<lambda>sg. [seg_addr \<lparr>g_level = Raid5, g_n = 3, g_unit = 4\<rparr> sg..<
      seg_addr \<lparr>g_level = Raid5, g_n = 3, g_unit = 4\<rparr> sg + sg_len sg]) ss) = [6..<6 + 9]"
  using segments_exact [of "\<lparr>g_level = Raid5, g_n = 3, g_unit = 4\<rparr>" 6 9]
  by (auto simp: geometry_ok_def min_members_def)

section \<open>Placement\<close>

text \<open>The member and member offset of a logical byte, as a segment that holds it gives them.\<close>

definition place :: "Geometry \<Rightarrow> nat \<Rightarrow> nat \<times> nat" where
  "place g a =
     (let stripe = a div stripe_bytes g; d = a mod stripe_bytes g div g_unit g;
          off = a mod stripe_bytes g mod g_unit g
      in (if g_level g = Raid10 then fst (pair_members d) else data_member g stripe d,
          stripe * g_unit g + off))"

text \<open>C27. No two bytes of a striped array share a place on a member, none is placed on a parity
  strip, and every byte below the capacity is inside the members' data.\<close>

theorem placement_sound:
  assumes "geometry_ok g" "g_level g \<noteq> Raid1"
  shows "inj (place g) \<and>
    (\<forall>a. fst (place g a) < g_n g) \<and>
    (is_parity g \<longrightarrow> (\<forall>a. \<exists>d. role_of g (a div stripe_bytes g) (fst (place g a)) = RoleData d)) \<and>
    (\<forall>a < capacity g data_size. snd (place g a) < data_size)"
proof -
  have u: "0 < g_unit g" "0 < data_count g" using assms(1) geometry_n [OF assms(1)] by (simp_all add: geometry_ok_def)
  have di: "a mod stripe_bytes g div g_unit g < data_count g" for a using split_address(2) [OF u] .
  have off: "a mod stripe_bytes g mod g_unit g < g_unit g" for a using u by simp
  have "inj (place g)"
  proof (rule injI)
    fix a b assume eq: "place g a = place g b"
    have "a div stripe_bytes g * g_unit g + a mod stripe_bytes g mod g_unit g
        = b div stripe_bytes g * g_unit g + b mod stripe_bytes g mod g_unit g"
      using arg_cong [OF eq, of snd] by (simp add: place_def Let_def)
    from arg_cong [OF this, of "\<lambda>x. x div g_unit g"] arg_cong [OF this, of "\<lambda>x. x mod g_unit g"]
    have s: "a div stripe_bytes g = b div stripe_bytes g"
      and o: "a mod stripe_bytes g mod g_unit g = b mod stripe_bytes g mod g_unit g"
      using u by simp_all
    have "a mod stripe_bytes g div g_unit g = b mod stripe_bytes g div g_unit g"
    proof (cases "g_level g = Raid10")
      case True
      then show ?thesis using arg_cong [OF eq, of fst] by (simp add: place_def Let_def pair_members_def)
    next
      case False
      then have par: "is_parity g" using assms(2) by (cases "g_level g") (auto simp: is_parity_def)
      have "data_member g (b div stripe_bytes g) (a mod stripe_bytes g div g_unit g)
          = data_member g (b div stripe_bytes g) (b mod stripe_bytes g div g_unit g)"
        using arg_cong [OF eq, of fst] False s by (simp add: place_def Let_def)
      then show ?thesis using role_of_data_member [OF assms(1) par] di by (metis StripRole.inject)
    qed
    with s o show "a = b" using split_address(1) [OF u] by metis
  qed
  moreover have "fst (place g a) < g_n g" for a
    using data_member_less [OF assms(1)] di [of a]
    by (auto simp: place_def Let_def pair_members_def data_count_def)
  moreover have "\<exists>d. role_of g (a div stripe_bytes g) (fst (place g a)) = RoleData d" if "is_parity g" for a
    using role_of_data_member [OF assms(1) that di] that by (auto simp: place_def Let_def is_parity_def)
  moreover have "snd (place g a) < data_size" if "a < capacity g data_size" for a
  proof -
    have "a < (data_size div g_unit g) * stripe_bytes g"
      using that assms(2) by (simp add: capacity_def split: RaidLevel.splits)
    then have "a div stripe_bytes g < data_size div g_unit g" by (simp add: less_mult_imp_div_less)
    then have "a div stripe_bytes g * g_unit g + g_unit g \<le> (data_size div g_unit g) * g_unit g"
      by (metis Suc_leI add.commute mult_Suc mult_le_mono1)
    also have "\<dots> \<le> data_size" by (rule div_times_less_eq_dividend)
    finally show ?thesis using off [of a] by (simp add: place_def Let_def)
  qed
  ultimately show ?thesis by blast
qed

theorem placement_sound_witness:
  "inj (place \<lparr>g_level = Raid10, g_n = 4, g_unit = 8\<rparr>) \<and>
    snd (place \<lparr>g_level = Raid10, g_n = 4, g_unit = 8\<rparr> 31) < 20"
  using placement_sound [of "\<lparr>g_level = Raid10, g_n = 4, g_unit = 8\<rparr>" 20]
  by (simp add: geometry_ok_def min_members_def capacity_def stripe_bytes_def data_count_def is_parity_def)

end
