(* ===== verification/Superblock.thy ===== *)
theory Superblock
  imports RaidLayout
begin

text \<open>
  The superblock of a RAID member (\<open>src/raid/superblock.rs\<close>): its 4 KiB record, with the slot
  table of the whole array, written and read back. Strings are their UTF-8 bytes. The checksum
  (\<open>crc32c\<close>, a third-party crate) is a parameter. The messages of errors are the values they
  print. Shown: a superblock written is read back as it was.
\<close>

section \<open>UTF-8\<close>

text \<open>
  \<open>String::from_utf8_lossy\<close>: the length of the next piece and whether it is a character. A byte
  past the end counts as 0, as in the standard library.
\<close>

definition byte_at :: "bytes \<Rightarrow> nat \<Rightarrow> u8" where
  "byte_at bs i = (if i < length bs then bs ! i else 0)"

definition is_cont :: "u8 \<Rightarrow> bool" where
  "is_cont b \<longleftrightarrow> b AND 0xC0 = 0x80"

definition utf8_second :: "u8 \<Rightarrow> u8 \<Rightarrow> bool" where
  "utf8_second lead b =
     (if lead = 0xE0 then 0xA0 \<le> b \<and> b \<le> 0xBF
      else if lead = 0xED then 0x80 \<le> b \<and> b \<le> 0x9F
      else if lead = 0xF0 then 0x90 \<le> b \<and> b \<le> 0xBF
      else if lead = 0xF4 then 0x80 \<le> b \<and> b \<le> 0x8F
      else 0x80 \<le> b \<and> b \<le> 0xBF)"

definition utf8_step :: "bytes \<Rightarrow> bool \<times> nat" where
  "utf8_step bs =
     (let b = byte_at bs 0 in
      if b < 0x80 then (True, 1)
      else if 0xC2 \<le> b \<and> b \<le> 0xDF then (if is_cont (byte_at bs 1) then (True, 2) else (False, 1))
      else if 0xE0 \<le> b \<and> b \<le> 0xEF then
        (if \<not> utf8_second b (byte_at bs 1) then (False, 1)
         else if is_cont (byte_at bs 2) then (True, 3) else (False, 2))
      else if 0xF0 \<le> b \<and> b \<le> 0xF4 then
        (if \<not> utf8_second b (byte_at bs 1) then (False, 1)
         else if \<not> is_cont (byte_at bs 2) then (False, 2)
         else if is_cont (byte_at bs 3) then (True, 4) else (False, 3))
      else (False, 1))"

lemma utf8_step_less [simp]: "bs \<noteq> [] \<Longrightarrow> length bs - snd (utf8_step bs) < length bs"
proof -
  have "0 < snd (utf8_step bs)" by (simp add: utf8_step_def Let_def)
  then show "bs \<noteq> [] \<Longrightarrow> length bs - snd (utf8_step bs) < length bs" by (intro diff_less) simp_all
qed

function utf8_lossy :: "bytes \<Rightarrow> bytes" where
  "utf8_lossy bs =
     (if bs = [] then []
      else (if fst (utf8_step bs) then take (snd (utf8_step bs)) bs else [0xEF, 0xBF, 0xBD])
           @ utf8_lossy (drop (snd (utf8_step bs)) bs))"
  by pat_completeness auto
termination by (relation "measure length") auto

function utf8_valid :: "bytes \<Rightarrow> bool" where
  "utf8_valid bs = (if bs = [] then True else fst (utf8_step bs) \<and> utf8_valid (drop (snd (utf8_step bs)) bs))"
  by pat_completeness auto
termination by (relation "measure length") auto

declare utf8_lossy.simps [simp del] utf8_valid.simps [simp del]

text \<open>A Rust string is valid, and then nothing is replaced.\<close>

lemma utf8_lossy_valid: "utf8_valid bs \<Longrightarrow> utf8_lossy bs = bs"
proof (induction bs rule: utf8_valid.induct)
  case (1 bs)
  have "bs = [] \<or> fst (utf8_step bs) \<and> utf8_lossy (drop (snd (utf8_step bs)) bs) = drop (snd (utf8_step bs)) bs"
    using 1 utf8_valid.simps [of bs] by auto
  then show ?case using utf8_lossy.simps [of bs] by auto
qed

section \<open>Records\<close>

datatype RaidMemberState = MActive | MDegraded | MSpare | MFailed | MRebuilding

datatype mismatch = BadLevel u8 | BadSlotCount nat | BadSlotState u8 | NoMember | OtherArray uuid

record SlotRecord =
  sr_member_uuid :: uuid
  sr_state :: RaidMemberState
  sr_rebuilt_to :: u64
  sr_missing :: bool
  sr_missing_at :: u64

record Superblock =
  sb_array_uuid :: uuid
  sb_member_uuid :: uuid
  sb_slot :: "u32 option"
  sb_level :: "RaidLevel option"
  sb_stripe_size :: u64
  sb_data_offset :: u64
  sb_data_size :: u64
  sb_create_time :: u64
  sb_update_time :: u64
  sb_events :: u64
  sb_bitmap_offset :: u64
  sb_bitmap_bytes :: u64
  sb_bitmap_chunk :: u64
  sb_name :: bytes
  sb_pool :: bytes
  sb_slots :: "SlotRecord list"

datatype sb_error = SuperblockMismatch mismatch | ChecksumError

definition SUPERBLOCK_MAGIC :: bytes where
  "SUPERBLOCK_MAGIC = [0x53, 0x54, 0x52, 0x4D, 0x42, 0x4C, 0x4B, 0]"

definition SUPERBLOCK_VERSION :: u32 where "SUPERBLOCK_VERSION = 2"

definition SUPERBLOCK_BYTES :: nat where "SUPERBLOCK_BYTES = 4096"

definition MAX_SLOTS :: nat where "MAX_SLOTS = 64"

definition SLOT_TABLE :: nat where "SLOT_TABLE = 256"

definition SLOT_BYTES :: nat where "SLOT_BYTES = 32"

definition CRC_AT :: nat where "CRC_AT = SUPERBLOCK_BYTES - 4"

definition NAME_LEN :: nat where "NAME_LEN = 64"

definition level_byte :: "RaidLevel option \<Rightarrow> u8" where
  "level_byte l = (case l of None \<Rightarrow> 0 | Some Raid1 \<Rightarrow> 1 | Some Raid5 \<Rightarrow> 5 | Some Raid6 \<Rightarrow> 6 | Some Raid10 \<Rightarrow> 10)"

definition level_of :: "u8 \<Rightarrow> sb_error + RaidLevel option" where
  "level_of b = (if b = 0 then Inr None else if b = 1 then Inr (Some Raid1) else if b = 5 then Inr (Some Raid5)
     else if b = 6 then Inr (Some Raid6) else if b = 10 then Inr (Some Raid10)
     else Inl (SuperblockMismatch (BadLevel b)))"

definition state_byte :: "RaidMemberState \<Rightarrow> u8" where
  "state_byte s = (case s of MActive \<Rightarrow> 1 | MDegraded \<Rightarrow> 2 | MSpare \<Rightarrow> 3 | MFailed \<Rightarrow> 4 | MRebuilding \<Rightarrow> 5)"

definition state_of :: "u8 \<Rightarrow> sb_error + RaidMemberState" where
  "state_of b = (if b = 1 then Inr MActive else if b = 2 then Inr MDegraded else if b = 3 then Inr MSpare
     else if b = 4 then Inr MFailed else if b = 5 then Inr MRebuilding
     else Inl (SuperblockMismatch (BadSlotState b)))"

text \<open>\<open>put_str\<close> into the \<open>n\<close> bytes at \<open>at\<close>, and \<open>get_str\<close>.\<close>

definition put_str :: "nat \<Rightarrow> nat \<Rightarrow> bytes \<Rightarrow> bytes \<Rightarrow> bytes" where
  "put_str at n s buf = put at (take (min (length s) n) s) buf"

definition get_str :: "bytes \<Rightarrow> bytes" where
  "get_str buf = utf8_lossy (takeWhile (\<lambda>b. b \<noteq> 0) buf)"

definition u32_at :: "bytes \<Rightarrow> nat \<Rightarrow> u32" where
  "u32_at b at = from_le (slice_of at (at + 4) b)"

definition u64_at :: "bytes \<Rightarrow> nat \<Rightarrow> u64" where
  "u64_at b at = from_le (slice_of at (at + 8) b)"

definition is_spare :: "Superblock \<Rightarrow> bool" where
  "is_spare sb \<longleftrightarrow> sb_level sb = None"

section \<open>Writing\<close>

definition slot_bytes :: "SlotRecord \<Rightarrow> bytes" where
  "slot_bytes s = uuid_bytes (sr_member_uuid s) @ [state_byte (sr_state s), of_bool (sr_missing s)]
     @ take 6 (to_le 8 (sr_missing_at s AND 0xFFFFFFFFFFFF)) @ to_le 8 (sr_rebuilt_to s)"

fun put_slots :: "nat \<Rightarrow> SlotRecord list \<Rightarrow> bytes \<Rightarrow> bytes" where
  "put_slots i [] b = b"
| "put_slots i (s # ss) b = put_slots (i + 1) ss (put (SLOT_TABLE + i * SLOT_BYTES) (slot_bytes s) b)"

definition sb_fixed :: "Superblock \<Rightarrow> bytes" where
  "sb_fixed sb =
     (let b = zero_buf SUPERBLOCK_BYTES;
          b = put 0 SUPERBLOCK_MAGIC b;
          b = put 8 (to_le 4 SUPERBLOCK_VERSION) b;
          b = put 12 (uuid_bytes (sb_array_uuid sb)) b;
          b = put 28 (uuid_bytes (sb_member_uuid sb)) b;
          b = put 44 (to_le 4 (case sb_slot sb of Some i \<Rightarrow> i | None \<Rightarrow> 0xFFFFFFFF)) b;
          b = b[48 := level_byte (sb_level sb)];
          b = put 52 (to_le 4 (of_nat (length (sb_slots sb)) :: u32)) b;
          b = put 56 (to_le 8 (sb_stripe_size sb)) b;
          b = put 64 (to_le 8 (sb_data_offset sb)) b;
          b = put 72 (to_le 8 (sb_data_size sb)) b;
          b = put 80 (to_le 8 (sb_create_time sb)) b;
          b = put 88 (to_le 8 (sb_update_time sb)) b;
          b = put 96 (to_le 8 (sb_events sb)) b;
          b = put 104 (to_le 8 (sb_bitmap_offset sb)) b;
          b = put 112 (to_le 8 (sb_bitmap_bytes sb)) b;
          b = put 120 (to_le 8 (sb_bitmap_chunk sb)) b;
          b = put_str 128 NAME_LEN (sb_name sb) b
      in put_str 192 NAME_LEN (sb_pool sb) b)"

text \<open>\<open>to_bytes\<close>; \<open>None\<close> is the assertion on the number of slots.\<close>

definition sb_to_bytes :: "(bytes \<Rightarrow> u32) \<Rightarrow> Superblock \<Rightarrow> bytes option" where
  "sb_to_bytes crc sb =
     (if length (sb_slots sb) > MAX_SLOTS then None
      else let b = put_slots 0 (sb_slots sb) (sb_fixed sb) in Some (put CRC_AT (to_le 4 (crc (take CRC_AT b))) b))"

section \<open>Reading\<close>

definition slot_at_bytes :: "bytes \<Rightarrow> nat \<Rightarrow> sb_error + SlotRecord" where
  "slot_at_bytes b at =
     (case state_of (b ! (at + 16)) of
        Inl e \<Rightarrow> Inl e
      | Inr st \<Rightarrow> Inr \<lparr>sr_member_uuid = uuid_of (slice_of at (at + 16) b), sr_state = st,
          sr_rebuilt_to = u64_at b (at + 24), sr_missing = (b ! (at + 17) AND 1 \<noteq> 0),
          sr_missing_at = from_le (slice_of (at + 18) (at + 24) b @ [0, 0])\<rparr>)"

fun read_slots :: "bytes \<Rightarrow> nat list \<Rightarrow> sb_error + SlotRecord list" where
  "read_slots b [] = Inr []"
| "read_slots b (i # is) =
     (case slot_at_bytes b (SLOT_TABLE + i * SLOT_BYTES) of
        Inl e \<Rightarrow> Inl e
      | Inr s \<Rightarrow> (case read_slots b is of Inl e \<Rightarrow> Inl e | Inr ss \<Rightarrow> Inr (s # ss)))"

definition sb_from_bytes :: "(bytes \<Rightarrow> u32) \<Rightarrow> bytes \<Rightarrow> sb_error + Superblock option" where
  "sb_from_bytes crc b =
     (if length b < SUPERBLOCK_BYTES \<or> slice_of 0 8 b \<noteq> SUPERBLOCK_MAGIC then Inr None
      else if u32_at b 8 \<noteq> SUPERBLOCK_VERSION then Inr None
      else if crc (take CRC_AT b) \<noteq> u32_at b CRC_AT then Inl ChecksumError
      else case level_of (b ! 48) of
        Inl e \<Rightarrow> Inl e
      | Inr level \<Rightarrow>
          let count = unat (u32_at b 52) in
          if count > MAX_SLOTS then Inl (SuperblockMismatch (BadSlotCount count))
          else case read_slots b [0..<count] of
            Inl e \<Rightarrow> Inl e
          | Inr slots \<Rightarrow>
              let slot = u32_at b 44 in
              Inr (Some \<lparr>sb_array_uuid = uuid_of (slice_of 12 28 b), sb_member_uuid = uuid_of (slice_of 28 44 b),
                sb_slot = (if slot \<noteq> 0xFFFFFFFF then Some slot else None), sb_level = level,
                sb_stripe_size = u64_at b 56, sb_data_offset = u64_at b 64, sb_data_size = u64_at b 72,
                sb_create_time = u64_at b 80, sb_update_time = u64_at b 88, sb_events = u64_at b 96,
                sb_bitmap_offset = u64_at b 104, sb_bitmap_bytes = u64_at b 112, sb_bitmap_chunk = u64_at b 120,
                sb_name = get_str (slice_of 128 (128 + NAME_LEN) b), sb_pool = get_str (slice_of 192 (192 + NAME_LEN) b),
                sb_slots = slots\<rparr>))"

definition spare_superblock :: "u64 \<Rightarrow> uuid \<Rightarrow> bytes \<Rightarrow> Superblock" where
  "spare_superblock now member_uuid pool =
     \<lparr>sb_array_uuid = uuid_nil, sb_member_uuid = member_uuid, sb_slot = None, sb_level = None, sb_stripe_size = 0,
      sb_data_offset = 0, sb_data_size = 0, sb_create_time = now, sb_update_time = now, sb_events = 0,
      sb_bitmap_offset = 0, sb_bitmap_bytes = 0, sb_bitmap_chunk = 0, sb_name = [], sb_pool = pool, sb_slots = []\<rparr>"

definition check_name :: "bytes \<Rightarrow> bool" where
  "check_name s \<longleftrightarrow> length s \<le> NAME_LEN"

section \<open>Round trip\<close>

lemmas sb_consts = SUPERBLOCK_BYTES_def MAX_SLOTS_def SLOT_TABLE_def SLOT_BYTES_def CRC_AT_def NAME_LEN_def

text \<open>A name the record keeps: short enough, a string, and without the byte that ends it.\<close>

definition name_kept :: "bytes \<Rightarrow> bool" where
  "name_kept s \<longleftrightarrow> check_name s \<and> utf8_valid s \<and> 0 \<notin> set s"

text \<open>A slot entry keeps the low 48 bits of the event count.\<close>

definition sb_kept :: "Superblock \<Rightarrow> bool" where
  "sb_kept sb \<longleftrightarrow> length (sb_slots sb) \<le> MAX_SLOTS \<and> sb_slot sb \<noteq> Some 0xFFFFFFFF \<and>
     name_kept (sb_name sb) \<and> name_kept (sb_pool sb) \<and>
     (\<forall>s \<in> set (sb_slots sb). sr_missing_at s AND 0xFFFFFFFFFFFF = sr_missing_at s)"

lemma level_round [simp]: "level_of (level_byte l) = Inr l"
  by (cases l; cases "the l") (auto simp: level_of_def level_byte_def split: option.split RaidLevel.split)

lemma state_round [simp]: "state_of (state_byte s) = Inr s"
  by (cases s) (simp_all add: state_of_def state_byte_def)

lemma length_slot_bytes [simp]: "length (slot_bytes s) = 32"
  by (simp add: slot_bytes_def)

lemma length_magic [simp]: "length SUPERBLOCK_MAGIC = 8"
  by (simp add: SUPERBLOCK_MAGIC_def)

lemma length_put_str [simp]: "length (put_str at n s b) = length b"
  by (simp add: put_str_def)

lemma length_put_slots [simp]: "length (put_slots i ss b) = length b"
  by (induction i ss b rule: put_slots.induct) simp_all

lemma length_sb_fixed [simp]: "length (sb_fixed sb) = 4096"
  by (simp add: sb_fixed_def Let_def SUPERBLOCK_BYTES_def)

lemma from_le_zeros: "from_le (bs @ replicate k 0) = (from_le bs :: 'a::len word)"
  by (rule bit_word_eqI) (auto simp: bit_from_le nth_append)

text \<open>The parts of a written record that reading asks for.\<close>

lemma put_slots_before: "b \<le> SLOT_TABLE + i * SLOT_BYTES \<Longrightarrow> slice_of a b (put_slots i ss buf) = slice_of a b buf"
  by (induction i ss buf rule: put_slots.induct) (simp_all add: buf_simps sb_consts)

lemma put_slots_nth_before: "k < SLOT_TABLE + i * SLOT_BYTES \<Longrightarrow> k < length buf \<Longrightarrow> put_slots i ss buf ! k = buf ! k"
  by (induction i ss buf rule: put_slots.induct) (simp_all add: buf_simps sb_consts)

lemma put_slots_slot:
  assumes "SLOT_TABLE + (i + length ss) * SLOT_BYTES \<le> length buf" "k < length ss"
  shows "slice_of (SLOT_TABLE + (i + k) * SLOT_BYTES) (SLOT_TABLE + (i + k) * SLOT_BYTES + 32) (put_slots i ss buf) = slot_bytes (ss ! k)"
  using assms
proof (induction i ss buf arbitrary: k rule: put_slots.induct)
  case (1 i b)
  then show ?case by simp
next
  case (2 i s ss b)
  show ?case
  proof (cases k)
    case 0
    then show ?thesis using 2(2) by (simp add: put_slots_before sb_consts buf_simps)
  next
    case (Suc j)
    then show ?thesis using 2(1) [of j] 2(2,3) by (simp add: sb_consts ac_simps)
  qed
qed

lemma slice_sub: "a + b \<le> n \<Longrightarrow> at + n \<le> length xs \<Longrightarrow> slice_of (at + a) (at + a + b) xs = slice_of a (a + b) (slice_of at (at + n) xs)"
  by (intro nth_equalityI) (auto simp: nth_slice add.assoc)

lemma nth_sub: "a < n \<Longrightarrow> at + n \<le> length xs \<Longrightarrow> xs ! (at + a) = slice_of at (at + n) xs ! a"
  by (simp add: nth_slice)

lemma slot_bytes_fields:
  "slice_of 0 16 (slot_bytes s) = uuid_bytes (sr_member_uuid s)" "slot_bytes s ! 16 = state_byte (sr_state s)"
  "slot_bytes s ! 17 = of_bool (sr_missing s)"
  "slice_of 18 24 (slot_bytes s) = take 6 (to_le 8 (sr_missing_at s AND 0xFFFFFFFFFFFF))"
  "slice_of 24 32 (slot_bytes s) = to_le 8 (sr_rebuilt_to s)"
  by (simp_all add: slot_bytes_def slice_of_def nth_append)

lemma low_48: "from_le (take 6 (to_le 8 (x AND 0xFFFFFFFFFFFF)) @ [0, 0]) = (x AND 0xFFFFFFFFFFFF :: u64)"
proof (rule bit_word_eqI)
  fix i assume "i < LENGTH(64)"
  have m: "(0xFFFFFFFFFFFF :: u64) = mask 48" by (simp add: mask_eq_exp_minus_1)
  have "[0, 0] = replicate 2 (0 :: u8)" by (simp add: numeral_2_eq_2)
  then show "bit (from_le (take 6 (to_le 8 (x AND 0xFFFFFFFFFFFF)) @ [0, 0]) :: u64) i = bit (x AND 0xFFFFFFFFFFFF :: u64) i"
    unfolding m by (auto simp: from_le_zeros bit_from_le to_le_def bit_and_iff bit_mask_iff bit_ucast_iff bit_drop_bit_eq)
qed

lemma slot_round:
  assumes "slice_of at (at + 32) b = slot_bytes s" "at + 32 \<le> length b" "sr_missing_at s AND 0xFFFFFFFFFFFF = sr_missing_at s"
  shows "slot_at_bytes b at = Inr s"
proof -
  note sub = slice_sub [of _ _ 32 at b] nth_sub [of _ 32 at b]
  have "slice_of at (at + 16) b = uuid_bytes (sr_member_uuid s)"
    using sub(1) [of 0 16] assms(1,2) slot_bytes_fields(1) [of s] by simp
  moreover have "b ! (at + 16) = state_byte (sr_state s)" "b ! (at + 17) = of_bool (sr_missing s)"
    using sub(2) [of 16] sub(2) [of 17] assms(1,2) slot_bytes_fields(2,3) [of s] by simp_all
  moreover have "slice_of (at + 18) (at + 24) b = take 6 (to_le 8 (sr_missing_at s AND 0xFFFFFFFFFFFF))"
      "slice_of (at + 24) (at + 24 + 8) b = to_le 8 (sr_rebuilt_to s)"
    using sub(1) [of 18 6] sub(1) [of 24 8] assms(1,2) slot_bytes_fields(4,5) [of s] by (simp_all add: add.assoc)
  ultimately show ?thesis using low_48 [of "sr_missing_at s"] assms(3) by (simp add: slot_at_bytes_def u64_at_def)
qed

lemma read_slots_round:
  assumes "\<forall>k < length ss. slot_at_bytes b (SLOT_TABLE + (i + k) * SLOT_BYTES) = Inr (ss ! k)"
  shows "read_slots b [i..<i + length ss] = Inr ss"
  using assms
proof (induction ss arbitrary: i)
  case Nil
  then show ?case by simp
next
  case (Cons s ss)
  have upt: "[i..<i + length (s # ss)] = i # [Suc i..<Suc i + length ss]" by (simp add: upt_rec)
  have "slot_at_bytes b (SLOT_TABLE + i * SLOT_BYTES) = Inr s" using Cons.prems [rule_format, of 0] by simp
  moreover have "read_slots b [Suc i..<Suc i + length ss] = Inr ss"
    by (rule Cons.IH) (use Cons.prems [rule_format, of "Suc k" for k] in \<open>simp add: ac_simps\<close>)
  ultimately show ?case unfolding upt by simp
qed

lemma get_put_str:
  assumes "name_kept s" "at + NAME_LEN \<le> length b" "slice_of at (at + NAME_LEN) b = replicate NAME_LEN 0"
  shows "get_str (slice_of at (at + NAME_LEN) (put_str at NAME_LEN s b)) = s"
proof -
  have l: "length s \<le> NAME_LEN" using assms(1) by (simp add: name_kept_def check_name_def)
  have "slice_of at (at + NAME_LEN) (put_str at NAME_LEN s b) = s @ replicate (NAME_LEN - length s) 0"
  proof (intro nth_equalityI)
    fix i assume "i < length (slice_of at (at + NAME_LEN) (put_str at NAME_LEN s b))"
    then have i: "i < NAME_LEN" "at + i < length b" using assms(2) by auto
    have "b ! (at + i) = 0" using arg_cong [OF assms(3), of "\<lambda>xs. xs ! i"] i by (simp add: nth_slice)
    then show "slice_of at (at + NAME_LEN) (put_str at NAME_LEN s b) ! i = (s @ replicate (NAME_LEN - length s) 0) ! i"
      using i l by (auto simp: nth_slice put_str_def nth_put nth_append)
  qed (use l assms(2) in auto)
  moreover have "takeWhile (\<lambda>b. b \<noteq> 0) (s @ replicate (NAME_LEN - length s) 0) = s"
    using assms(1) by (subst takeWhile_append2) (auto simp: name_kept_def takeWhile_eq_Nil_iff)
  ultimately show ?thesis using assms(1) by (simp add: get_str_def name_kept_def utf8_lossy_valid)
qed

lemma slice_update_other: "i < a \<or> b \<le> i \<Longrightarrow> slice_of a b (xs[i := x]) = slice_of a b xs"
  by (intro nth_equalityI) (auto simp: nth_slice nth_list_update)

lemma sb_fixed_fields:
  "slice_of 0 8 (sb_fixed sb) = SUPERBLOCK_MAGIC" "slice_of 8 12 (sb_fixed sb) = to_le 4 SUPERBLOCK_VERSION"
  "slice_of 12 28 (sb_fixed sb) = uuid_bytes (sb_array_uuid sb)" "slice_of 28 44 (sb_fixed sb) = uuid_bytes (sb_member_uuid sb)"
  "slice_of 44 48 (sb_fixed sb) = to_le 4 (case sb_slot sb of Some i \<Rightarrow> i | None \<Rightarrow> 0xFFFFFFFF)"
  "sb_fixed sb ! 48 = level_byte (sb_level sb)"
  "slice_of 52 56 (sb_fixed sb) = to_le 4 (of_nat (length (sb_slots sb)) :: u32)"
  "slice_of 56 64 (sb_fixed sb) = to_le 8 (sb_stripe_size sb)" "slice_of 64 72 (sb_fixed sb) = to_le 8 (sb_data_offset sb)"
  "slice_of 72 80 (sb_fixed sb) = to_le 8 (sb_data_size sb)" "slice_of 80 88 (sb_fixed sb) = to_le 8 (sb_create_time sb)"
  "slice_of 88 96 (sb_fixed sb) = to_le 8 (sb_update_time sb)" "slice_of 96 104 (sb_fixed sb) = to_le 8 (sb_events sb)"
  "slice_of 104 112 (sb_fixed sb) = to_le 8 (sb_bitmap_offset sb)" "slice_of 112 120 (sb_fixed sb) = to_le 8 (sb_bitmap_bytes sb)"
  "slice_of 120 128 (sb_fixed sb) = to_le 8 (sb_bitmap_chunk sb)"
  by (simp_all add: sb_fixed_def Let_def put_str_def buf_simps slice_update_other sb_consts)

lemma sb_fixed_names:
  "name_kept (sb_name sb) \<Longrightarrow> get_str (slice_of 128 (128 + NAME_LEN) (sb_fixed sb)) = sb_name sb"
  "name_kept (sb_pool sb) \<Longrightarrow> get_str (slice_of 192 (192 + NAME_LEN) (sb_fixed sb)) = sb_pool sb"
proof -
  have "put_str 192 NAME_LEN s b = put 192 (take (min (length s) NAME_LEN) s) b" for s b by (simp add: put_str_def)
  then have skip: "slice_of 128 (128 + NAME_LEN) (put_str 192 NAME_LEN s b) = slice_of 128 (128 + NAME_LEN) b" for s b
    by (simp add: slice_put_other sb_consts)
  show "name_kept (sb_name sb) \<Longrightarrow> get_str (slice_of 128 (128 + NAME_LEN) (sb_fixed sb)) = sb_name sb"
    unfolding sb_fixed_def Let_def skip
    by (rule get_put_str) (simp_all add: sb_consts buf_simps slice_update_other zero_buf_def)
  show "name_kept (sb_pool sb) \<Longrightarrow> get_str (slice_of 192 (192 + NAME_LEN) (sb_fixed sb)) = sb_pool sb"
    unfolding sb_fixed_def Let_def
    by (rule get_put_str) (simp_all add: sb_consts put_str_def buf_simps slice_update_other zero_buf_def)
qed

text \<open>C31. A superblock written to a member and read back is the superblock that was written, whatever
  the checksum function: the array's description and every slot's member, state, rebuild position
  and event count. The hypothesis is what the record has room for: at most 64 slots, names of at
  most 64 bytes without a zero byte, event counts of 48 bits.\<close>

theorem superblock_roundtrip:
  assumes "sb_kept sb"
  shows "\<exists>b. sb_to_bytes crc sb = Some b \<and> sb_from_bytes crc b = Inr (Some sb)"
proof -
  have n: "length (sb_slots sb) \<le> 64" using assms by (simp add: sb_kept_def MAX_SLOTS_def)
  define c where "c = put_slots 0 (sb_slots sb) (sb_fixed sb)"
  define b where "b = put CRC_AT (to_le 4 (crc (take CRC_AT c))) c"
  have len: "length b = 4096" "length c = 4096" by (simp_all add: b_def c_def)
  have sl: "slice_of x y b = slice_of x y (sb_fixed sb)" if "y \<le> 256" for x y
    using that by (simp add: b_def c_def slice_put_other put_slots_before sb_consts)
  have nth: "b ! 48 = sb_fixed sb ! 48"
    unfolding b_def c_def by (subst nth_put_other) (simp_all add: put_slots_nth_before sb_consts)
  have slots: "read_slots b [0..<0 + length (sb_slots sb)] = Inr (sb_slots sb)"
  proof (rule read_slots_round, intro allI impI)
    fix k assume k: "k < length (sb_slots sb)"
    let ?at = "SLOT_TABLE + (0 + k) * SLOT_BYTES"
    have "slice_of ?at (?at + 32) b = slice_of ?at (?at + 32) c"
      unfolding b_def by (rule slice_put_other) (use k n in \<open>simp add: sb_consts\<close>)
    also have "\<dots> = slot_bytes (sb_slots sb ! k)"
      unfolding c_def by (rule put_slots_slot) (use k n in \<open>simp_all add: sb_consts\<close>)
    finally show "slot_at_bytes b ?at = Inr (sb_slots sb ! k)"
      by (rule slot_round) (use assms k n len in \<open>auto simp: sb_kept_def sb_consts\<close>)
  qed
  have crc: "crc (take CRC_AT b) = u32_at b CRC_AT"
    by (simp add: b_def u32_at_def buf_simps len sb_consts)
  have count: "unat (of_nat (length (sb_slots sb)) :: u32) = length (sb_slots sb)"
    using n by (simp add: unat_of_nat take_bit_nat_eq_self)
  have "sb_from_bytes crc b = Inr (Some sb)"
    using assms n slots crc sb_fixed_names [of sb] unfolding sb_from_bytes_def
    by (simp add: len sl nth sb_fixed_fields u32_at_def u64_at_def count Let_def sb_kept_def MAX_SLOTS_def SUPERBLOCK_BYTES_def NAME_LEN_def
        split: option.split)
  moreover have "sb_to_bytes crc sb = Some b"
    using n by (simp add: sb_to_bytes_def Let_def b_def c_def MAX_SLOTS_def)
  ultimately show ?thesis by blast
qed

text \<open>A mirror of two, its second member rebuilding.\<close>

definition sample_superblock :: Superblock where
  "sample_superblock = (spare_superblock 5 9 [0x70])\<lparr>sb_array_uuid := 3, sb_slot := Some 0, sb_level := Some Raid1,
     sb_stripe_size := 65536, sb_data_offset := 1048576, sb_data_size := 8192, sb_events := 42, sb_name := [0x61, 0x62],
     sb_slots := [\<lparr>sr_member_uuid = 9, sr_state = MActive, sr_rebuilt_to = 0, sr_missing = False, sr_missing_at = 0\<rparr>,
                  \<lparr>sr_member_uuid = 4, sr_state = MRebuilding, sr_rebuilt_to = 4096, sr_missing = True, sr_missing_at = 7\<rparr>]\<rparr>"

theorem superblock_roundtrip_witness:
  "\<exists>b. sb_to_bytes (\<lambda>bs. ucast (hd bs)) sample_superblock = Some b \<and>
     sb_from_bytes (\<lambda>bs. ucast (hd bs)) b = Inr (Some sample_superblock)"
  by (rule superblock_roundtrip)
    (simp add: sb_kept_def sample_superblock_def spare_superblock_def name_kept_def check_name_def sb_consts
      utf8_valid.simps utf8_step_def byte_at_def)

end
