(* ===== verification/IntentBitmap.thy ===== *)
theory IntentBitmap
  imports Prelude
begin

text \<open>
  The write-intent bitmap of a RAID array (\<open>src/raid/bitmap.rs\<close>) and the protocol its users
  follow in \<open>src/raid/mod.rs\<close> (\<open>intent_begin\<close>, \<open>write_bitmap_pages\<close>, \<open>flush\<close>): the in-memory
  state with every operation, and a step relation over it, the member's bitmap area and the
  writes in flight. Times are natural numbers; a bit vector is the list of its bits, its raw
  bytes least significant bit first.
\<close>

section \<open>Geometry\<close>

definition RAID_DATA_OFFSET :: nat where "RAID_DATA_OFFSET = 1024 * 1024"

definition BITMAP_OFFSET :: nat where "BITMAP_OFFSET = 64 * 1024"

definition BITMAP_MAX_BYTES :: nat where "BITMAP_MAX_BYTES = RAID_DATA_OFFSET - BITMAP_OFFSET"

definition MIN_CHUNK :: nat where "MIN_CHUNK = 64 * 1024 * 1024"

definition PAGE :: nat where "PAGE = 4096"

definition BITS_PER_PAGE :: nat where "BITS_PER_PAGE = PAGE * 8"

definition bitmap_geometry :: "nat \<Rightarrow> nat \<Rightarrow> nat \<times> nat \<times> nat" where
  "bitmap_geometry data_size unit =
     (let max_bits = BITMAP_MAX_BYTES * 8;
          chunk = max MIN_CHUNK (div_ceil data_size max_bits);
          unit = max unit 1;
          chunk = div_ceil chunk unit * unit;
          bits = max (div_ceil data_size chunk) 1;
          bytes = div_ceil (div_ceil bits 8) PAGE * PAGE
      in (chunk, bits, bytes))"

definition page_of :: "nat \<Rightarrow> nat" where
  "page_of chunk = chunk div BITS_PER_PAGE"

section \<open>State\<close>

record ibitmap =
  ib_chunk :: nat
  ib_bits :: nat
  ib_bytes :: nat
  ib_wanted :: "bool list"
  ib_durable :: "bool list"
  ib_active :: "nat \<rightharpoonup> nat"
  ib_last_end :: "nat \<rightharpoonup> nat"
  ib_stale :: "nat set"

type_synonym page_write = "(nat \<times> bytes) list"

text \<open>\<open>as_raw_slice\<close> of a \<open>BitVec<u8, Lsb0>\<close> and the bits of raw bytes.\<close>

definition raw_bytes :: "bool list \<Rightarrow> bytes" where
  "raw_bytes bs = map (\<lambda>i. horner_sum of_bool 2 (slice_of (8 * i) (8 * i + 8) bs)) [0..<length bs div 8]"

definition from_raw :: "bytes \<Rightarrow> bool list" where
  "from_raw raw = map (\<lambda>k. bit (raw ! (k div 8)) (k mod 8)) [0..<8 * length raw]"

section \<open>Operations\<close>

definition ib_new :: "nat \<Rightarrow> nat \<Rightarrow> nat \<Rightarrow> ibitmap" where
  "ib_new chunk bits bytes =
     (let len = bytes * 8 in
      \<lparr>ib_chunk = chunk, ib_bits = bits, ib_bytes = bytes, ib_wanted = replicate len False,
       ib_durable = replicate len False, ib_active = Map.empty, ib_last_end = Map.empty, ib_stale = {}\<rparr>)"

text \<open>\<open>BitVec::resize(len, false)\<close>.\<close>

definition bits_resize :: "nat \<Rightarrow> bool list \<Rightarrow> bool list" where
  "bits_resize len bs = take len bs @ replicate (len - length bs) False"

definition ib_grow :: "nat \<Rightarrow> nat \<Rightarrow> ibitmap \<Rightarrow> ibitmap" where
  "ib_grow bits bytes b =
     (let b = (if bytes > ib_bytes b
               then b\<lparr>ib_wanted := bits_resize (bytes * 8) (ib_wanted b),
                      ib_durable := bits_resize (bytes * 8) (ib_durable b), ib_bytes := bytes\<rparr>
               else b)
      in if bits > ib_bits b then b\<lparr>ib_bits := bits\<rparr> else b)"

definition ib_chunks :: "ibitmap \<Rightarrow> nat \<Rightarrow> nat \<Rightarrow> nat list" where
  "ib_chunks b member_offset len =
     (let first = member_offset div ib_chunk b;
          final = (member_offset + max len 1 - 1) div ib_chunk b
      in [min first (ib_bits b - 1)..<Suc (min final (ib_bits b - 1))])"

definition ib_begin_one :: "nat \<Rightarrow> bool \<times> ibitmap \<Rightarrow> bool \<times> ibitmap" where
  "ib_begin_one c nb =
     (case nb of (need, b) \<Rightarrow>
       let b = b\<lparr>ib_active := (ib_active b)(c \<mapsto> (case ib_active b c of None \<Rightarrow> 0 | Some k \<Rightarrow> k) + 1),
                 ib_wanted := (ib_wanted b)[c := True]\<rparr>
       in (need \<or> \<not> ib_durable b ! c, b))"

definition ib_begin :: "nat list \<Rightarrow> ibitmap \<Rightarrow> bool \<times> ibitmap" where
  "ib_begin r b = fold ib_begin_one r (False, b)"

definition ib_is_durable :: "nat list \<Rightarrow> ibitmap \<Rightarrow> bool" where
  "ib_is_durable r b = list_all (\<lambda>c. ib_durable b ! c) r"

definition ib_end_one :: "nat \<Rightarrow> nat \<Rightarrow> ibitmap \<Rightarrow> ibitmap" where
  "ib_end_one now c b =
     (let b = (case ib_active b c of
                 Some k \<Rightarrow> b\<lparr>ib_active := (if k - 1 = 0 then (ib_active b)(c := None)
                                           else (ib_active b)(c \<mapsto> k - 1))\<rparr>
               | None \<Rightarrow> b)
      in b\<lparr>ib_last_end := (ib_last_end b)(c \<mapsto> now)\<rparr>)"

definition ib_end :: "nat \<Rightarrow> nat list \<Rightarrow> ibitmap \<Rightarrow> ibitmap" where
  "ib_end now r b = fold (ib_end_one now) r b"

definition ib_pending :: "ibitmap \<Rightarrow> page_write" where
  "ib_pending b =
     map (\<lambda>p. (p, slice_of (p * PAGE) ((p + 1) * PAGE) (raw_bytes (ib_wanted b))))
       (filter (\<lambda>p. slice_of (p * PAGE * 8) (p * PAGE * 8 + PAGE * 8) (ib_wanted b)
                    \<noteq> slice_of (p * PAGE * 8) (p * PAGE * 8 + PAGE * 8) (ib_durable b)
                  \<or> p \<in> ib_stale b) [0..<ib_bytes b div PAGE])"

definition ib_commit_page :: "nat \<times> bytes \<Rightarrow> ibitmap \<Rightarrow> ibitmap" where
  "ib_commit_page pb b =
     b\<lparr>ib_durable := from_raw (put (fst pb * PAGE) (snd pb) (raw_bytes (ib_durable b))),
       ib_stale := ib_stale b - {fst pb}\<rparr>"

definition ib_commit :: "page_write \<Rightarrow> ibitmap \<Rightarrow> ibitmap" where
  "ib_commit w b = fold ib_commit_page w b"

definition ib_clear_one :: "nat \<Rightarrow> nat \<Rightarrow> nat \<times> ibitmap \<Rightarrow> nat \<times> ibitmap" where
  "ib_clear_one before c nb =
     (case nb of (n, b) \<Rightarrow>
       if ib_active b c \<noteq> None then (n, b)
       else if (case ib_last_end b c of Some t \<Rightarrow> t < before | None \<Rightarrow> True)
       then (n + 1, b\<lparr>ib_wanted := (ib_wanted b)[c := False], ib_durable := (ib_durable b)[c := False],
                      ib_last_end := (ib_last_end b)(c := None), ib_stale := insert (page_of c) (ib_stale b)\<rparr>)
       else (n, b))"

definition ib_clear_idle :: "nat \<Rightarrow> ibitmap \<Rightarrow> nat \<times> ibitmap" where
  "ib_clear_idle before b =
     fold (ib_clear_one before) (filter (\<lambda>c. ib_wanted b ! c) [0..<length (ib_wanted b)]) (0, b)"

definition ib_dirty_count :: "ibitmap \<Rightarrow> nat" where
  "ib_dirty_count b = length (filter id (ib_wanted b))"

text \<open>\<open>dirty_chunks\<close>: what reassembly reads from the members' bitmaps.\<close>

definition dirty_chunks :: "bytes list \<Rightarrow> nat \<Rightarrow> nat list" where
  "dirty_chunks images bits =
     filter (\<lambda>c. list_ex (\<lambda>img. c div 8 < length img \<and> img ! (c div 8) AND push_bit (c mod 8) 1 \<noteq> 0) images)
       [0..<bits]"

section \<open>The protocol\<close>

text \<open>
  The array's use of the bitmap. \<open>ps_disk\<close> is a member's bitmap area as a power cut would leave
  it; \<open>ps_io\<close> is the page write under way, under the \<open>io\<close> lock, with the pages not durable
  yet; \<open>ps_waiting\<close> are writes inside \<open>intent_begin\<close>, \<open>ps_running\<close> the writes it let through to
  the data.
\<close>

record intent_sys =
  ps_bm :: ibitmap
  ps_disk :: bytes
  ps_io :: "(page_write \<times> page_write) option"
  ps_waiting :: "nat list list"
  ps_running :: "nat list list"

text \<open>
  The steps of the tasks that share the bitmap. \<open>serial\<close> says that \<open>clear_idle\<close> does not run
  while a page write is under way; the code does not ensure it.
\<close>

inductive intent_step :: "bool \<Rightarrow> intent_sys \<Rightarrow> intent_sys \<Rightarrow> bool" for serial where
  begin_admitted:
    "distinct r \<Longrightarrow> \<forall>c \<in> set r. c < ib_bits (ps_bm s) \<Longrightarrow> ib_begin r (ps_bm s) = (False, b) \<Longrightarrow>
      intent_step serial s (s\<lparr>ps_bm := b, ps_running := r # ps_running s\<rparr>)"
| begin_waits:
    "distinct r \<Longrightarrow> \<forall>c \<in> set r. c < ib_bits (ps_bm s) \<Longrightarrow> ib_begin r (ps_bm s) = (True, b) \<Longrightarrow>
      intent_step serial s (s\<lparr>ps_bm := b, ps_waiting := r # ps_waiting s\<rparr>)"
| pages_start:
    "ps_io s = None \<Longrightarrow> ib_pending (ps_bm s) = w \<Longrightarrow> w \<noteq> [] \<Longrightarrow>
      intent_step serial s (s\<lparr>ps_io := Some (w, w)\<rparr>)"
| page_durable:
    "ps_io s = Some (w, rem) \<Longrightarrow> pb \<in> set rem \<Longrightarrow>
      intent_step serial s (s\<lparr>ps_disk := put (fst pb * PAGE) (snd pb) (ps_disk s),
        ps_io := Some (w, removeAll pb rem)\<rparr>)"
| pages_commit:
    "ps_io s = Some (w, []) \<Longrightarrow>
      intent_step serial s (s\<lparr>ps_bm := ib_commit w (ps_bm s), ps_io := None\<rparr>)"
| pages_failed:
    "ps_io s = Some (w, rem) \<Longrightarrow> intent_step serial s (s\<lparr>ps_io := None\<rparr>)"
| admit:
    "r \<in> set (ps_waiting s) \<Longrightarrow> ib_is_durable r (ps_bm s) \<Longrightarrow>
      intent_step serial s (s\<lparr>ps_waiting := remove1 r (ps_waiting s), ps_running := r # ps_running s\<rparr>)"
| give_up:
    "r \<in> set (ps_waiting s) \<Longrightarrow>
      intent_step serial s (s\<lparr>ps_waiting := remove1 r (ps_waiting s), ps_bm := ib_end now r (ps_bm s)\<rparr>)"
| finish:
    "r \<in> set (ps_running s) \<Longrightarrow>
      intent_step serial s (s\<lparr>ps_running := remove1 r (ps_running s), ps_bm := ib_end now r (ps_bm s)\<rparr>)"
| clear:
    "(serial \<longrightarrow> ps_io s = None) \<Longrightarrow>
      intent_step serial s (s\<lparr>ps_bm := snd (ib_clear_idle before (ps_bm s))\<rparr>)"

definition intent_init :: "nat \<Rightarrow> nat \<Rightarrow> nat \<Rightarrow> intent_sys" where
  "intent_init chunk bits bytes =
     \<lparr>ps_bm = ib_new chunk bits bytes, ps_disk = replicate bytes 0, ps_io = None,
      ps_waiting = [], ps_running = []\<rparr>"

section \<open>Bits of images\<close>

definition dbit :: "bytes \<Rightarrow> nat \<Rightarrow> bool" where
  "dbit img c = bit (img ! (c div 8)) (c mod 8)"

lemma PAGE_pos [simp]: "0 < PAGE" "0 < BITS_PER_PAGE"
  by (simp_all add: PAGE_def BITS_PER_PAGE_def)

lemma length_raw_bytes [simp]: "length (raw_bytes bs) = length bs div 8"
  by (simp add: raw_bytes_def)

lemma length_from_raw [simp]: "length (from_raw raw) = 8 * length raw"
  by (simp add: from_raw_def)

lemma nth_from_raw [simp]: "c < 8 * length raw \<Longrightarrow> from_raw raw ! c = dbit raw c"
  by (simp add: from_raw_def dbit_def)

lemma dbit_raw_bytes:
  assumes "8 dvd length bs" "c < length bs"
  shows "dbit (raw_bytes bs) c = bs ! c"
proof -
  have i: "c div 8 < length bs div 8"
    using assms by (auto simp: dvd_def)
  then have l: "8 * (c div 8) + 8 \<le> length bs" using assms(1) by (auto simp: dvd_def)
  have "dbit (raw_bytes bs) c =
      bit (horner_sum of_bool 2 (slice_of (8 * (c div 8)) (8 * (c div 8) + 8) bs) :: u8) (c mod 8)"
    using i by (simp add: dbit_def raw_bytes_def)
  also have "\<dots> \<longleftrightarrow> slice_of (8 * (c div 8)) (8 * (c div 8) + 8) bs ! (c mod 8)"
    using l by (simp add: bit_horner_sum_bit_word_iff)
  also have "\<dots> \<longleftrightarrow> bs ! c" using l by (simp add: nth_slice)
  finally show ?thesis .
qed

lemma page_bit:
  "c = page_of c * BITS_PER_PAGE + c mod BITS_PER_PAGE" "c mod BITS_PER_PAGE < BITS_PER_PAGE"
  "c div 8 = page_of c * PAGE + (c mod BITS_PER_PAGE) div 8" "(c mod BITS_PER_PAGE) div 8 < PAGE"
  "c mod BITS_PER_PAGE mod 8 = c mod 8"
proof -
  show 1: "c = page_of c * BITS_PER_PAGE + c mod BITS_PER_PAGE" by (simp add: page_of_def)
  show "c mod BITS_PER_PAGE < BITS_PER_PAGE" by simp
  show 3: "c mod BITS_PER_PAGE mod 8 = c mod 8" unfolding BITS_PER_PAGE_def by (rule mod_mod_cancel) simp
  have "c div 8 = (page_of c * BITS_PER_PAGE + c mod BITS_PER_PAGE) div 8" using 1 by simp
  also have "\<dots> = page_of c * PAGE + (c mod BITS_PER_PAGE) div 8"
    by (simp add: BITS_PER_PAGE_def mult.assoc [symmetric])
  finally show "c div 8 = page_of c * PAGE + (c mod BITS_PER_PAGE) div 8" .
  show "(c mod BITS_PER_PAGE) div 8 < PAGE"
    using mod_less_divisor [of BITS_PER_PAGE c] unfolding BITS_PER_PAGE_def
    by (simp add: less_mult_imp_div_less del: mod_less_divisor)
qed

lemma dbit_put_page:
  assumes "length b = PAGE" "c < 8 * length img"
  shows "dbit (put (p * PAGE) b img) c = (if page_of c = p then dbit b (c mod BITS_PER_PAGE) else dbit img c)"
proof -
  have i: "c div 8 < length img" using assms(2) by (simp add: less_mult_imp_div_less mult.commute)
  have e: "c div 8 = page_of c * PAGE + (c mod BITS_PER_PAGE) div 8" "(c mod BITS_PER_PAGE) div 8 < PAGE"
    by (rule page_bit)+
  have "p * PAGE \<le> c div 8 \<and> c div 8 < p * PAGE + PAGE \<longleftrightarrow> page_of c = p"
  proof
    assume "p * PAGE \<le> c div 8 \<and> c div 8 < p * PAGE + PAGE"
    then have "c div 8 div PAGE = p" by (metis add.commute div_nat_eqI mult.commute mult_Suc_right)
    moreover have "c div 8 div PAGE = page_of c"
      by (simp add: page_of_def BITS_PER_PAGE_def div_mult2_eq [symmetric] mult.commute)
    ultimately show "page_of c = p" by simp
  next
    assume "page_of c = p"
    then show "p * PAGE \<le> c div 8 \<and> c div 8 < p * PAGE + PAGE" using e by auto
  qed
  then have "put (p * PAGE) b img ! (c div 8) =
      (if page_of c = p then b ! ((c mod BITS_PER_PAGE) div 8) else img ! (c div 8))"
    using i assms(1) e(1) by (auto simp: nth_put)
  then show ?thesis by (simp add: dbit_def page_bit(5))
qed

lemma dbit_slice_page:
  assumes "(p + 1) * PAGE \<le> length img" "page_of c = p"
  shows "dbit (slice_of (p * PAGE) ((p + 1) * PAGE) img) (c mod BITS_PER_PAGE) = dbit img c"
  using page_bit(3-5) [of c] assms
  by (simp add: dbit_def nth_slice)

section \<open>The invariant\<close>

definition holders :: "intent_sys \<Rightarrow> nat \<Rightarrow> nat" where
  "holders s c = length (filter (\<lambda>r. c \<in> set r) (ps_waiting s @ ps_running s))"

text \<open>The sizes fit together.\<close>

definition bm_ok :: "ibitmap \<Rightarrow> bool" where
  "bm_ok b \<longleftrightarrow> length (ib_wanted b) = 8 * ib_bytes b \<and> length (ib_durable b) = 8 * ib_bytes b \<and>
     PAGE dvd ib_bytes b \<and> ib_bits b \<le> 8 * ib_bytes b"

text \<open>A page write under way: each page holds every bit that is trusted and no bit that is not
  wanted, and a page that is durable is on the disk.\<close>

definition page_ok :: "intent_sys \<Rightarrow> page_write \<Rightarrow> nat \<times> bytes \<Rightarrow> bool" where
  "page_ok s rem pb \<longleftrightarrow> length (snd pb) = PAGE \<and>
     (\<forall>c < 8 * ib_bytes (ps_bm s). page_of c = fst pb \<longrightarrow>
        (ib_durable (ps_bm s) ! c \<longrightarrow> dbit (snd pb) (c mod BITS_PER_PAGE)) \<and>
        (dbit (snd pb) (c mod BITS_PER_PAGE) \<longrightarrow> ib_wanted (ps_bm s) ! c) \<and>
        (pb \<notin> set rem \<longrightarrow> dbit (ps_disk s) c = dbit (snd pb) (c mod BITS_PER_PAGE)))"

definition io_ok :: "intent_sys \<Rightarrow> bool" where
  "io_ok s \<longleftrightarrow> (case ps_io s of None \<Rightarrow> True
     | Some (w, rem) \<Rightarrow> set rem \<subseteq> set w \<and> (\<forall>pb \<in> set w. page_ok s rem pb) \<and>
         (\<forall>pb \<in> set w. \<forall>pb' \<in> set w. fst pb = fst pb' \<longrightarrow> pb = pb'))"

definition bits_ok :: "intent_sys \<Rightarrow> bool" where
  "bits_ok s \<longleftrightarrow> (\<forall>c < 8 * ib_bytes (ps_bm s). ib_durable (ps_bm s) ! c \<longrightarrow>
     ib_wanted (ps_bm s) ! c \<and> dbit (ps_disk s) c)"

definition writers_ok :: "intent_sys \<Rightarrow> bool" where
  "writers_ok s \<longleftrightarrow>
     (\<forall>r \<in> set (ps_waiting s) \<union> set (ps_running s). distinct r \<and> (\<forall>c \<in> set r. c < ib_bits (ps_bm s))) \<and>
     (\<forall>r \<in> set (ps_running s). \<forall>c \<in> set r. ib_durable (ps_bm s) ! c) \<and>
     (\<forall>c. ib_active (ps_bm s) c = (if holders s c = 0 then None else Some (holders s c)))"

definition intent_inv :: "intent_sys \<Rightarrow> bool" where
  "intent_inv s \<longleftrightarrow> bm_ok (ps_bm s) \<and> length (ps_disk s) = ib_bytes (ps_bm s) \<and>
     bits_ok s \<and> io_ok s \<and> writers_ok s"

lemmas intent_defs = intent_inv_def bits_ok_def io_ok_def writers_ok_def page_ok_def bm_ok_def

section \<open>Effect of the operations\<close>

lemma begin_effect:
  assumes "distinct r" "\<forall>c \<in> set r. c < length (ib_wanted b)" "fold ib_begin_one r (need, b) = (need', b')"
  shows "need' = (need \<or> (\<exists>c \<in> set r. \<not> ib_durable b ! c)) \<and> ib_durable b' = ib_durable b \<and>
    ib_bits b' = ib_bits b \<and> ib_bytes b' = ib_bytes b \<and> ib_stale b' = ib_stale b \<and>
    length (ib_wanted b') = length (ib_wanted b) \<and>
    (\<forall>c < length (ib_wanted b). ib_wanted b' ! c = (c \<in> set r \<or> ib_wanted b ! c)) \<and>
    (\<forall>c. ib_active b' c = (if c \<in> set r then Some ((case ib_active b c of None \<Rightarrow> 0 | Some k \<Rightarrow> k) + 1)
                           else ib_active b c))"
  using assms
proof (induction r arbitrary: need b)
  case (Cons x r)
  define b1 where "b1 = b\<lparr>ib_active := (ib_active b)(x \<mapsto> (case ib_active b x of None \<Rightarrow> 0 | Some k \<Rightarrow> k) + 1),
    ib_wanted := (ib_wanted b)[x := True]\<rparr>"
  have f: "fold ib_begin_one r (need \<or> \<not> ib_durable b ! x, b1) = (need', b')"
  proof -
    have "ib_begin_one x (need, b) = (need \<or> \<not> ib_durable b ! x, b1)"
      by (simp add: ib_begin_one_def b1_def Let_def)
    then show ?thesis using Cons.prems(3) by simp
  qed
  have "x < length (ib_wanted b)" using Cons.prems(2) by simp
  with Cons.IH [OF _ _ f] Cons.prems(1,2) show ?case
    by (auto simp: b1_def nth_list_update)
qed simp

lemma end_effect:
  assumes "distinct r"
  shows "ib_wanted (ib_end now r b) = ib_wanted b \<and> ib_durable (ib_end now r b) = ib_durable b \<and>
    ib_bits (ib_end now r b) = ib_bits b \<and> ib_bytes (ib_end now r b) = ib_bytes b \<and>
    (\<forall>c. ib_active (ib_end now r b) c =
      (if c \<in> set r then (case ib_active b c of None \<Rightarrow> None | Some k \<Rightarrow> if k - 1 = 0 then None else Some (k - 1))
       else ib_active b c))"
  unfolding ib_end_def using assms
  by (induction r arbitrary: b) (auto simp: ib_end_one_def Let_def split: option.splits)

lemma commit_effect:
  assumes "length (ib_durable b) = 8 * ib_bytes b" "\<forall>pb \<in> set w. length (snd pb) = PAGE"
  shows "ib_wanted (ib_commit w b) = ib_wanted b \<and> ib_active (ib_commit w b) = ib_active b \<and>
    ib_bits (ib_commit w b) = ib_bits b \<and> ib_bytes (ib_commit w b) = ib_bytes b \<and>
    length (ib_durable (ib_commit w b)) = length (ib_durable b) \<and>
    (\<forall>c < length (ib_durable b).
      (\<exists>pb \<in> set w. fst pb = page_of c \<and> ib_durable (ib_commit w b) ! c = dbit (snd pb) (c mod BITS_PER_PAGE)) \<or>
      (\<forall>pb \<in> set w. fst pb \<noteq> page_of c) \<and> ib_durable (ib_commit w b) ! c = ib_durable b ! c)"
  unfolding ib_commit_def using assms
proof (induction w arbitrary: b)
  case (Cons pb w)
  define b1 where "b1 = ib_commit_page pb b"
  have d: "8 dvd length (ib_durable b)" using Cons.prems(1) by simp
  have l: "length (ib_durable b1) = length (ib_durable b)"
    using Cons.prems(1) by (simp add: b1_def ib_commit_page_def)
  have n: "ib_durable b1 ! c = (if page_of c = fst pb then dbit (snd pb) (c mod BITS_PER_PAGE) else ib_durable b ! c)"
    if "c < length (ib_durable b)" for c
    using that Cons.prems dbit_raw_bytes [OF d that] dbit_put_page [of "snd pb" c "raw_bytes (ib_durable b)" "fst pb"]
    by (simp add: b1_def ib_commit_page_def)
  have s: "ib_wanted b1 = ib_wanted b" "ib_active b1 = ib_active b" "ib_bits b1 = ib_bits b" "ib_bytes b1 = ib_bytes b"
    by (simp_all add: b1_def ib_commit_page_def)
  have f: "fold ib_commit_page (pb # w) b = fold ib_commit_page w b1" by (simp add: b1_def)
  note IH = Cons.IH [of b1]
  have *: "(\<exists>pb' \<in> set (pb # w). fst pb' = page_of c \<and>
        ib_durable (fold ib_commit_page w b1) ! c = dbit (snd pb') (c mod BITS_PER_PAGE)) \<or>
      (\<forall>pb' \<in> set (pb # w). fst pb' \<noteq> page_of c) \<and> ib_durable (fold ib_commit_page w b1) ! c = ib_durable b ! c"
    if c: "c < length (ib_durable b)" for c
  proof -
    have "(\<exists>pb' \<in> set w. fst pb' = page_of c \<and>
        ib_durable (fold ib_commit_page w b1) ! c = dbit (snd pb') (c mod BITS_PER_PAGE)) \<or>
      (\<forall>pb' \<in> set w. fst pb' \<noteq> page_of c) \<and> ib_durable (fold ib_commit_page w b1) ! c = ib_durable b1 ! c"
      using IH Cons.prems l s c by simp
    then show ?thesis using n [OF c] by (cases "page_of c = fst pb") auto
  qed
  show ?case
    unfolding f using IH Cons.prems l s * by simp
qed simp

lemma clear_effect:
  assumes "length (ib_durable b) = length (ib_wanted b)" "\<forall>c \<in> set cs. c < length (ib_wanted b)"
    and "b' = snd (fold (ib_clear_one before) cs (n, b))"
  shows "ib_active b' = ib_active b \<and> ib_bits b' = ib_bits b \<and> ib_bytes b' = ib_bytes b \<and>
    length (ib_wanted b') = length (ib_wanted b) \<and> length (ib_durable b') = length (ib_durable b) \<and>
    (\<forall>c < length (ib_wanted b). (ib_durable b' ! c = ib_durable b ! c \<and> ib_wanted b' ! c = ib_wanted b ! c) \<or>
      (ib_active b c = None \<and> \<not> ib_durable b' ! c \<and> \<not> ib_wanted b' ! c))"
  unfolding assms(3) using assms(1,2)
proof (induction cs arbitrary: n b)
  case (Cons x cs)
  obtain m b1 where e: "ib_clear_one before x (n, b) = (m, b1)" by (metis surj_pair)
  have b1: "ib_active b1 = ib_active b \<and> ib_bits b1 = ib_bits b \<and> ib_bytes b1 = ib_bytes b \<and>
    length (ib_wanted b1) = length (ib_wanted b) \<and> length (ib_durable b1) = length (ib_durable b) \<and>
    (\<forall>c < length (ib_wanted b). (ib_durable b1 ! c = ib_durable b ! c \<and> ib_wanted b1 ! c = ib_wanted b ! c) \<or>
      (ib_active b c = None \<and> \<not> ib_durable b1 ! c \<and> \<not> ib_wanted b1 ! c))"
    using e Cons.prems by (auto simp: ib_clear_one_def nth_list_update split: if_splits)
  have f: "fold (ib_clear_one before) (x # cs) (n, b) = fold (ib_clear_one before) cs (m, b1)" by (simp add: e)
  note IH = Cons.IH [of b1 m]
  have "(ib_durable (snd (fold (ib_clear_one before) cs (m, b1))) ! c = ib_durable b ! c \<and>
      ib_wanted (snd (fold (ib_clear_one before) cs (m, b1))) ! c = ib_wanted b ! c) \<or>
      (ib_active b c = None \<and> \<not> ib_durable (snd (fold (ib_clear_one before) cs (m, b1))) ! c \<and>
       \<not> ib_wanted (snd (fold (ib_clear_one before) cs (m, b1))) ! c)" if "c < length (ib_wanted b)" for c
    using IH b1 Cons.prems that by (elim conjE allE [of _ c]) auto
  then show ?case unfolding f using IH b1 Cons.prems by simp
qed simp

section \<open>Every step keeps the invariant\<close>

lemma pending_pages:
  assumes "bm_ok b" "pb \<in> set (ib_pending b)"
  shows "length (snd pb) = PAGE \<and> snd pb = slice_of (fst pb * PAGE) ((fst pb + 1) * PAGE) (raw_bytes (ib_wanted b)) \<and>
    (\<forall>c < 8 * ib_bytes b. page_of c = fst pb \<longrightarrow> dbit (snd pb) (c mod BITS_PER_PAGE) = ib_wanted b ! c)"
proof -
  have p: "fst pb < ib_bytes b div PAGE"
    and e: "snd pb = slice_of (fst pb * PAGE) ((fst pb + 1) * PAGE) (raw_bytes (ib_wanted b))"
    using assms(2) by (auto simp: ib_pending_def)
  have l: "length (raw_bytes (ib_wanted b)) = ib_bytes b" using assms(1) by (simp add: bm_ok_def)
  have "(fst pb + 1) * PAGE \<le> (ib_bytes b div PAGE) * PAGE" using p by (intro mult_le_mono1) simp
  then have q: "(fst pb + 1) * PAGE \<le> length (raw_bytes (ib_wanted b))"
    using l div_times_less_eq_dividend [of "ib_bytes b" PAGE] by linarith
  have "dbit (snd pb) (c mod BITS_PER_PAGE) = ib_wanted b ! c" if "c < 8 * ib_bytes b" "page_of c = fst pb" for c
    unfolding e dbit_slice_page [OF q that(2)] using that(1) assms(1)
    by (intro dbit_raw_bytes) (simp_all add: bm_ok_def)
  moreover have "length (snd pb) = PAGE" unfolding e using q by simp
  ultimately show ?thesis using e by blast
qed

lemma holders_begin:
  "holders (s\<lparr>ps_bm := b, ps_running := r # ps_running s\<rparr>) c = holders s c + of_bool (c \<in> set r)"
  "holders (s\<lparr>ps_bm := b, ps_waiting := r # ps_waiting s\<rparr>) c = holders s c + of_bool (c \<in> set r)"
  by (simp_all add: holders_def)

lemma filter_remove1_length:
  "r \<in> set xs \<Longrightarrow> length (filter P xs) = length (filter P (remove1 r xs)) + of_bool (P r)"
  by (induction xs) auto

lemma begin_keeps:
  assumes "intent_inv s" "distinct r" "\<forall>c \<in> set r. c < ib_bits (ps_bm s)" "ib_begin r (ps_bm s) = (need, b)"
  shows "need = (\<exists>c \<in> set r. \<not> ib_durable (ps_bm s) ! c) \<and>
    (intent_inv (s\<lparr>ps_bm := b, ps_waiting := r # ps_waiting s\<rparr>)) \<and>
    (\<not> need \<longrightarrow> intent_inv (s\<lparr>ps_bm := b, ps_running := r # ps_running s\<rparr>))"
proof -
  have r: "\<forall>c \<in> set r. c < length (ib_wanted (ps_bm s))"
    using assms(1,3) by (auto simp: intent_defs)
  note e = begin_effect [OF assms(2) r assms(4) [unfolded ib_begin_def]]
  have bm: "bm_ok b" using assms(1) e by (simp add: intent_inv_def bm_ok_def)
  have w: "ib_wanted b ! c" if "ib_wanted (ps_bm s) ! c" "c < 8 * ib_bytes b" for c
    using e that assms(1) by (simp add: intent_inv_def bm_ok_def)
  have act: "ib_active b c = (if holders s c + of_bool (c \<in> set r) = 0 then None
      else Some (holders s c + of_bool (c \<in> set r)))" for c
    using e assms(1) by (auto simp: intent_inv_def writers_ok_def)
  have bi: "bits_ok s' \<and> io_ok s'" if "ps_bm s' = b" "ps_disk s' = ps_disk s" "ps_io s' = ps_io s" for s'
    using assms(1) e w
    by (auto simp: that intent_inv_def bits_ok_def io_ok_def page_ok_def split: option.splits prod.splits)
  have need: "need = (\<exists>c \<in> set r. \<not> ib_durable (ps_bm s) ! c)" using e by simp
  have "writers_ok (s\<lparr>ps_bm := b, ps_waiting := r # ps_waiting s\<rparr>)"
    using assms(1-3) e act by (auto simp: intent_inv_def writers_ok_def holders_begin)
  moreover have "writers_ok (s\<lparr>ps_bm := b, ps_running := r # ps_running s\<rparr>)" if "\<not> need"
    using assms(1-3) e act that need by (auto simp: intent_inv_def writers_ok_def holders_begin)
  ultimately show ?thesis
    using assms(1) need e bm bi [of "s\<lparr>ps_bm := b, ps_waiting := r # ps_waiting s\<rparr>"]
      bi [of "s\<lparr>ps_bm := b, ps_running := r # ps_running s\<rparr>"]
    by (simp add: intent_inv_def)
qed

lemma end_keeps:
  assumes "intent_inv s" "r \<in> set (ps_waiting s) \<and> s' = s\<lparr>ps_waiting := remove1 r (ps_waiting s), ps_bm := ib_end now r (ps_bm s)\<rparr> \<or>
    r \<in> set (ps_running s) \<and> s' = s\<lparr>ps_running := remove1 r (ps_running s), ps_bm := ib_end now r (ps_bm s)\<rparr>"
  shows "intent_inv s'"
proof -
  have d: "distinct r" using assms by (auto simp: intent_inv_def writers_ok_def)
  note e = end_effect [OF d, of now "ps_bm s"]
  have h: "holders s c = holders s' c + of_bool (c \<in> set r)" for c
    using assms(2) filter_remove1_length [of r "ps_waiting s" "\<lambda>r. c \<in> set r"]
      filter_remove1_length [of r "ps_running s" "\<lambda>r. c \<in> set r"]
    by (auto simp: holders_def)
  have bm: "ps_bm s' = ib_end now r (ps_bm s)" "ps_disk s' = ps_disk s" "ps_io s' = ps_io s"
    and sub: "set (ps_waiting s') \<subseteq> set (ps_waiting s)" "set (ps_running s') \<subseteq> set (ps_running s)"
    using assms(2) by (auto dest: set_remove1_subset [THEN subsetD])
  have act: "ib_active (ps_bm s') c = (if holders s' c = 0 then None else Some (holders s' c))" for c
    using assms(1) e h [of c] by (auto simp: intent_inv_def writers_ok_def bm)
  have eq: "ib_durable (ps_bm s') = ib_durable (ps_bm s)" "ib_bits (ps_bm s') = ib_bits (ps_bm s)"
    using e by (simp_all add: bm)
  have "writers_ok s'"
    using assms(1) sub act unfolding intent_inv_def writers_ok_def eq by blast
  moreover have "bm_ok (ps_bm s')" "bits_ok s'" "io_ok s'"
    using assms(1) e by (auto simp: intent_inv_def bits_ok_def io_ok_def page_ok_def bm_ok_def bm split: option.splits prod.splits)
  ultimately show ?thesis using assms(1) e by (simp add: intent_inv_def bm)
qed

lemma running_bits:
  assumes "intent_inv s" "r \<in> set (ps_running s)" "c \<in> set r"
  shows "c < ib_bits (ps_bm s)" "c < 8 * ib_bytes (ps_bm s)" "ib_durable (ps_bm s) ! c" "dbit (ps_disk s) c"
proof -
  show c: "c < ib_bits (ps_bm s)" and d: "ib_durable (ps_bm s) ! c"
    using assms by (auto simp: intent_inv_def writers_ok_def)
  show "c < 8 * ib_bytes (ps_bm s)"
    using c assms(1) by (auto simp: intent_inv_def bm_ok_def)
  with d show "dbit (ps_disk s) c" using assms(1) by (simp add: intent_inv_def bits_ok_def)
qed

lemma pages_start_keeps:
  assumes "intent_inv s" "ib_pending (ps_bm s) = w"
  shows "intent_inv (s\<lparr>ps_io := Some (w, w)\<rparr>)"
proof -
  have bm: "bm_ok (ps_bm s)" using assms(1) by (simp add: intent_inv_def)
  have "page_ok (s\<lparr>ps_io := Some (w, w)\<rparr>) w pb" if "pb \<in> set w" for pb
  proof -
    have "length (snd pb) = PAGE \<and> (\<forall>c < 8 * ib_bytes (ps_bm s). page_of c = fst pb \<longrightarrow>
        dbit (snd pb) (c mod BITS_PER_PAGE) = ib_wanted (ps_bm s) ! c)"
      using pending_pages [OF bm, of pb] that assms(2) by blast
    then show ?thesis using that assms(1) by (auto simp: page_ok_def intent_inv_def bits_ok_def)
  qed
  moreover have "pb = pb'" if "pb \<in> set w" "pb' \<in> set w" "fst pb = fst pb'" for pb pb'
    using pending_pages [OF bm] that assms(2) by (metis prod.expand)
  ultimately show ?thesis
    using assms(1) by (auto simp: intent_inv_def io_ok_def bits_ok_def writers_ok_def holders_def)
qed

lemma page_durable_keeps:
  assumes "intent_inv s" "ps_io s = Some (w, rem)" "pb \<in> set rem"
  shows "intent_inv (s\<lparr>ps_disk := put (fst pb * PAGE) (snd pb) (ps_disk s), ps_io := Some (w, removeAll pb rem)\<rparr>)"
    (is "intent_inv ?s")
proof -
  have w: "pb \<in> set w" "\<forall>x \<in> set w. page_ok s rem x" "\<forall>x \<in> set w. \<forall>y \<in> set w. fst x = fst y \<longrightarrow> x = y"
    "set rem \<subseteq> set w"
    using assms by (auto simp: intent_inv_def io_ok_def)
  have l: "length (snd pb) = PAGE" using w by (simp add: page_ok_def)
  have d: "dbit (ps_disk ?s) c = (if page_of c = fst pb then dbit (snd pb) (c mod BITS_PER_PAGE) else dbit (ps_disk s) c)"
    if "c < 8 * ib_bytes (ps_bm s)" for c
    using dbit_put_page [OF l, of c "ps_disk s" "fst pb"] that assms(1) by (simp add: intent_inv_def)
  have "bits_ok ?s"
    using assms(1) w(1,2) d by (auto simp: intent_inv_def bits_ok_def page_ok_def)
  moreover have "page_ok ?s (removeAll pb rem) x" if x: "x \<in> set w" for x
  proof -
    have "page_ok s rem x" using w(2) x by blast
    moreover have "fst x = fst pb \<longrightarrow> x = pb" using w(1,3) x by blast
    ultimately show ?thesis using d unfolding page_ok_def by auto
  qed
  ultimately show ?thesis
    using assms(1) w(3,4) by (auto simp: intent_inv_def io_ok_def writers_ok_def holders_def)
qed

lemma commit_keeps:
  assumes "intent_inv s" "ps_io s = Some (w, [])"
  shows "intent_inv (s\<lparr>ps_bm := ib_commit w (ps_bm s), ps_io := None\<rparr>)" (is "intent_inv ?s")
proof -
  have w: "\<forall>x \<in> set w. page_ok s [] x" and bm: "bm_ok (ps_bm s)"
    using assms by (auto simp: intent_inv_def io_ok_def)
  have "length (ib_durable (ps_bm s)) = 8 * ib_bytes (ps_bm s)" using bm by (simp add: bm_ok_def)
  moreover have "\<forall>pb \<in> set w. length (snd pb) = PAGE" using w by (simp add: page_ok_def)
  ultimately have e: "ib_wanted (ps_bm ?s) = ib_wanted (ps_bm s)" "ib_active (ps_bm ?s) = ib_active (ps_bm s)"
    "ib_bits (ps_bm ?s) = ib_bits (ps_bm s)" "ib_bytes (ps_bm ?s) = ib_bytes (ps_bm s)"
    "length (ib_durable (ps_bm ?s)) = length (ib_durable (ps_bm s))"
    and d: "\<And>c. c < 8 * ib_bytes (ps_bm s) \<Longrightarrow>
      (\<exists>pb \<in> set w. fst pb = page_of c \<and> ib_durable (ps_bm ?s) ! c = dbit (snd pb) (c mod BITS_PER_PAGE)) \<or>
      (\<forall>pb \<in> set w. fst pb \<noteq> page_of c) \<and> ib_durable (ps_bm ?s) ! c = ib_durable (ps_bm s) ! c"
    using commit_effect [of "ps_bm s" w] by simp_all
  have up: "ib_durable (ps_bm ?s) ! c" if "c < 8 * ib_bytes (ps_bm s)" "ib_durable (ps_bm s) ! c" for c
    using d [OF that(1)] that w by (fastforce simp: page_ok_def)
  have "bits_ok ?s"
    unfolding bits_ok_def e(1,4)
  proof (intro allI impI)
    fix c assume c: "c < 8 * ib_bytes (ps_bm s)" "ib_durable (ps_bm ?s) ! c"
    show "ib_wanted (ps_bm s) ! c \<and> dbit (ps_disk ?s) c"
      using d [OF c(1)] c w assms(1) by (fastforce simp: page_ok_def intent_inv_def bits_ok_def)
  qed
  moreover have "writers_ok ?s"
    unfolding writers_ok_def e(2,3)
    using assms(1) up running_bits [OF assms(1)] by (auto simp: intent_inv_def writers_ok_def holders_def)
  ultimately show ?thesis
    using assms(1) e by (simp add: intent_inv_def io_ok_def bm_ok_def)
qed

lemma clear_keeps:
  assumes "intent_inv s" "ps_io s = None"
  shows "intent_inv (s\<lparr>ps_bm := snd (ib_clear_idle before (ps_bm s))\<rparr>)" (is "intent_inv ?s")
proof -
  have bm: "bm_ok (ps_bm s)" using assms(1) by (simp add: intent_inv_def)
  then have "length (ib_durable (ps_bm s)) = length (ib_wanted (ps_bm s))" by (simp add: bm_ok_def)
  from clear_effect [OF this _ refl, of "filter (\<lambda>c. ib_wanted (ps_bm s) ! c) [0..<length (ib_wanted (ps_bm s))]" before 0]
  have e: "ib_active (ps_bm ?s) = ib_active (ps_bm s)" "ib_bits (ps_bm ?s) = ib_bits (ps_bm s)"
    "ib_bytes (ps_bm ?s) = ib_bytes (ps_bm s)" "length (ib_wanted (ps_bm ?s)) = length (ib_wanted (ps_bm s))"
    "length (ib_durable (ps_bm ?s)) = length (ib_durable (ps_bm s))"
    and d: "\<And>c. c < 8 * ib_bytes (ps_bm s) \<Longrightarrow>
      (ib_durable (ps_bm ?s) ! c = ib_durable (ps_bm s) ! c \<and> ib_wanted (ps_bm ?s) ! c = ib_wanted (ps_bm s) ! c) \<or>
      (ib_active (ps_bm s) c = None \<and> \<not> ib_durable (ps_bm ?s) ! c \<and> \<not> ib_wanted (ps_bm ?s) ! c)"
    using bm by (simp_all add: ib_clear_idle_def bm_ok_def)
  have "bits_ok ?s"
    using assms(1) d unfolding bits_ok_def e by (fastforce simp: intent_inv_def bits_ok_def)
  moreover have "ib_durable (ps_bm ?s) ! c" if r: "r \<in> set (ps_running s)" and c: "c \<in> set r" for r c
  proof -
    have "holders s c \<noteq> 0" using r c by (auto simp: holders_def filter_empty_conv)
    then have "ib_active (ps_bm s) c \<noteq> None" using assms(1) by (simp add: intent_inv_def writers_ok_def)
    moreover have "c < 8 * ib_bytes (ps_bm s)" "ib_durable (ps_bm s) ! c"
      using running_bits [OF assms(1) r c] by simp_all
    ultimately show ?thesis using d [of c] by auto
  qed
  ultimately show ?thesis
    using assms bm e by (auto simp: intent_inv_def io_ok_def writers_ok_def holders_def bm_ok_def)
qed

lemma admit_keeps:
  assumes "intent_inv s" "r \<in> set (ps_waiting s)" "ib_is_durable r (ps_bm s)"
  shows "intent_inv (s\<lparr>ps_waiting := remove1 r (ps_waiting s), ps_running := r # ps_running s\<rparr>)" (is "intent_inv ?s")
proof -
  have "holders ?s c = holders s c" for c
    using filter_remove1_length [OF assms(2), of "\<lambda>r. c \<in> set r"] by (auto simp: holders_def)
  then show ?thesis
    using assms set_remove1_subset [of r "ps_waiting s"]
    by (auto simp: intent_inv_def io_ok_def bits_ok_def page_ok_def writers_ok_def ib_is_durable_def list_all_iff
        split: option.splits prod.splits)
qed

lemma intent_step_keeps: "intent_step True s s' \<Longrightarrow> intent_inv s \<Longrightarrow> intent_inv s'"
proof (induction rule: intent_step.induct)
  case (begin_admitted r s b)
  then show ?case using begin_keeps by blast
next
  case (begin_waits r s b)
  then show ?case using begin_keeps by blast
next
  case (pages_failed s w rem)
  then show ?case by (simp add: intent_inv_def io_ok_def bits_ok_def writers_ok_def holders_def)
next
  case (give_up r s now)
  then show ?case using end_keeps by blast
next
  case (finish r s now)
  then show ?case using end_keeps by blast
qed (auto intro: pages_start_keeps page_durable_keeps commit_keeps clear_keeps admit_keeps)

lemma intent_init_inv:
  assumes "PAGE dvd bytes" "bits \<le> 8 * bytes"
  shows "intent_inv (intent_init chunk bits bytes)"
  using assms by (simp add: intent_init_def intent_inv_def ib_new_def bm_ok_def bits_ok_def io_ok_def writers_ok_def
      holders_def Let_def)

lemma intent_reachable_inv:
  assumes "PAGE dvd bytes" "bits \<le> 8 * bytes" "(intent_step True)\<^sup>*\<^sup>* (intent_init chunk bits bytes) s"
  shows "intent_inv s"
  using assms(3) by (induction rule: rtranclp_induct) (auto intro: intent_init_inv assms intent_step_keeps)

section \<open>Properties\<close>

lemma dirty_chunks_dbit:
  assumes "c < bits" "c < 8 * length img" "img \<in> set images" "dbit img c"
  shows "c \<in> set (dirty_chunks images bits)"
proof -
  have "c div 8 < length img" using assms(2) by (simp add: less_mult_imp_div_less mult.commute)
  moreover have "img ! (c div 8) AND push_bit (c mod 8) 1 \<noteq> 0"
    using assms(4) and_exp_eq_0_iff_not_bit [of "img ! (c div 8)" "c mod 8"] by (simp add: dbit_def push_bit_eq_mult)
  ultimately show ?thesis using assms(1,3) by (auto simp: dirty_chunks_def list_ex_iff)
qed

text \<open>C24. A write never touches data whose chunk is not marked: in every state the tasks of the
  array can reach, as long as no idle bits are cleared while bitmap pages are being written, the
  chunks of every write that was let through are among the dirty chunks that reassembly would
  read from the member after a power cut at that moment, whatever pages had become durable.\<close>

theorem running_writes_marked:
  assumes "PAGE dvd bytes" "bits \<le> 8 * bytes" "(intent_step True)\<^sup>*\<^sup>* (intent_init chunk bits bytes) s"
    and "r \<in> set (ps_running s)" "c \<in> set r"
  shows "c \<in> set (dirty_chunks [ps_disk s] (ib_bits (ps_bm s)))"
proof -
  have inv: "intent_inv s" by (rule intent_reachable_inv [OF assms(1-3)])
  from running_bits [OF inv assms(4,5)] inv show ?thesis
    by (intro dirty_chunks_dbit [where img = "ps_disk s"]) (simp_all add: intent_inv_def)
qed

text \<open>The layout of the bitmap fits: its bytes are whole pages inside the room before the
  data, there is a bit for every chunk of member data, and a chunk is a whole number of units,
  so no stripe straddles two bits.\<close>

theorem bitmap_geometry_fits:
  assumes "0 < unit"
  shows "case bitmap_geometry data_size unit of (chunk, bits, bytes) \<Rightarrow>
    unit dvd chunk \<and> MIN_CHUNK \<le> chunk \<and> data_size \<le> bits * chunk \<and> 1 \<le> bits \<and>
    PAGE dvd bytes \<and> bits \<le> 8 * bytes \<and> bytes \<le> BITMAP_MAX_BYTES"
proof -
  define c0 where "c0 = max MIN_CHUNK (div_ceil data_size (BITMAP_MAX_BYTES * 8))"
  define chunk where "chunk = div_ceil c0 unit * unit"
  define bits where "bits = max (div_ceil data_size chunk) 1"
  define bytes where "bytes = div_ceil (div_ceil bits 8) PAGE * PAGE"
  have g: "bitmap_geometry data_size unit = (chunk, bits, bytes)"
  proof -
    have "max unit 1 = unit" using assms by simp
    then show ?thesis by (simp only: bitmap_geometry_def Let_def chunk_def c0_def bits_def bytes_def)
  qed
  have m: "BITMAP_MAX_BYTES = 240 * PAGE"
    by (simp add: BITMAP_MAX_BYTES_def RAID_DATA_OFFSET_def BITMAP_OFFSET_def PAGE_def)
  have c: "c0 \<le> chunk" unfolding chunk_def using assms by (rule div_ceil_ge)
  have c0: "MIN_CHUNK \<le> c0" "div_ceil data_size (BITMAP_MAX_BYTES * 8) \<le> c0" by (simp_all add: c0_def)
  have pos: "0 < chunk" using c c0(1) by (simp add: MIN_CHUNK_def)
  have "data_size \<le> div_ceil data_size (BITMAP_MAX_BYTES * 8) * (BITMAP_MAX_BYTES * 8)"
    by (rule div_ceil_ge) (simp add: m)
  also have "\<dots> \<le> chunk * (BITMAP_MAX_BYTES * 8)" using c c0(2) by (intro mult_le_mono1) simp
  finally have "div_ceil data_size chunk \<le> BITMAP_MAX_BYTES * 8"
    by (rule div_ceil_le [OF pos])
  then have b: "bits \<le> BITMAP_MAX_BYTES * 8" by (simp add: bits_def m PAGE_def)
  have b8: "bits \<le> div_ceil bits 8 * 8" by (rule div_ceil_ge) simp
  have "div_ceil bits 8 \<le> BITMAP_MAX_BYTES" by (rule div_ceil_le) (use b in \<open>simp_all add: mult.commute\<close>)
  then have "div_ceil (div_ceil bits 8) PAGE \<le> 240" using div_ceil_le [OF PAGE_pos(1), of "div_ceil bits 8" 240] by (simp add: m mult.commute)
  then have "bytes \<le> BITMAP_MAX_BYTES" unfolding bytes_def m by (intro mult_le_mono1)
  moreover have "div_ceil bits 8 \<le> bytes" unfolding bytes_def by (rule div_ceil_ge) simp
  then have "bits \<le> 8 * bytes" using b8 by linarith
  moreover have "data_size \<le> bits * chunk"
  proof -
    have "data_size \<le> div_ceil data_size chunk * chunk" using pos by (rule div_ceil_ge)
    also have "\<dots> \<le> bits * chunk" by (intro mult_le_mono1) (simp add: bits_def)
    finally show ?thesis .
  qed
  ultimately show ?thesis using c c0(1) by (simp add: g chunk_def bytes_def bits_def)
qed

theorem bitmap_geometry_fits_witness:
  "case bitmap_geometry (2 ^ 50) (65536 * 3) of (chunk, bits, bytes) \<Rightarrow>
    65536 * 3 dvd chunk \<and> MIN_CHUNK \<le> chunk \<and> 2 ^ 50 \<le> bits * chunk \<and> 1 \<le> bits \<and>
    PAGE dvd bytes \<and> bits \<le> 8 * bytes \<and> bytes \<le> BITMAP_MAX_BYTES"
  by (rule bitmap_geometry_fits) simp

section \<open>Clearing while pages are written\<close>

text \<open>A bitmap of one page and two chunks, and its states along a run.\<close>

definition one_page ::
  "bool list \<Rightarrow> bool list \<Rightarrow> (nat \<rightharpoonup> nat) \<Rightarrow> (nat \<rightharpoonup> nat) \<Rightarrow> nat set \<Rightarrow> bytes \<Rightarrow> (page_write \<times> page_write) option
     \<Rightarrow> nat list list \<Rightarrow> nat list list \<Rightarrow> intent_sys" where
  "one_page W D act le st disk io wa ru =
     \<lparr>ps_bm = \<lparr>ib_chunk = 1, ib_bits = 2, ib_bytes = PAGE, ib_wanted = W, ib_durable = D, ib_active = act,
        ib_last_end = le, ib_stale = st\<rparr>, ps_disk = disk, ps_io = io, ps_waiting = wa, ps_running = ru\<rparr>"

definition no_bits :: "bool list" where
  "no_bits = replicate (8 * PAGE) False"

lemma one_page_init: "intent_init 1 2 PAGE = one_page no_bits no_bits Map.empty Map.empty {} (replicate PAGE 0) None [] []"
  by (simp add: intent_init_def one_page_def ib_new_def no_bits_def Let_def mult.commute)

lemma length_no_bits [simp]: "length no_bits = 8 * PAGE"
  by (simp add: no_bits_def)

lemma no_bits_nth [simp]: "c < 8 * PAGE \<Longrightarrow> \<not> no_bits ! c"
  by (simp add: no_bits_def)

lemma two_bits [simp]: "(0 :: nat) < 8 * PAGE" "Suc 0 < 8 * PAGE"
  by (simp_all add: PAGE_def)

lemma bits_8_PAGE: "PAGE * 8 = 8 * PAGE"
  by simp

lemma pending_one:
  assumes "length W = 8 * PAGE" "length D = 8 * PAGE"
  shows "ib_pending (ps_bm (one_page W D act le st disk io wa ru)) = (if W \<noteq> D \<or> 0 \<in> st then [(0, raw_bytes W)] else [])"
  using assms by (simp add: ib_pending_def one_page_def slice_of_def)

lemma raw_round: "8 dvd length W \<Longrightarrow> from_raw (raw_bytes W) = W"
  by (intro nth_equalityI) (auto simp: dbit_raw_bytes)

lemma put_whole: "length b = length d \<Longrightarrow> put 0 b d = b"
  by (intro nth_equalityI) (simp_all add: nth_put)

lemma commit_one:
  assumes "length W' = 8 * PAGE" "length D = 8 * PAGE"
  shows "ib_commit [(0, raw_bytes W')] (ps_bm (one_page W D act le st disk io wa ru))
    = ps_bm (one_page W W' act le (st - {0}) disk io wa ru)"
  using assms by (simp add: ib_commit_def ib_commit_page_def one_page_def put_whole raw_round)

lemma step_to: "intent_step ser s t \<Longrightarrow> t = t' \<Longrightarrow> intent_step ser s t'"
  by simp

lemma one_page_pages:
  assumes "length W = 8 * PAGE" "length D = 8 * PAGE" "length disk = PAGE" "W \<noteq> D"
  shows "intent_step ser (one_page W D act le st disk None wa ru)
      (one_page W D act le st disk (Some ([(0, raw_bytes W)], [(0, raw_bytes W)])) wa ru)"
    and "intent_step ser (one_page W' D act le st disk (Some ([(0, raw_bytes W)], [(0, raw_bytes W)])) wa ru)
      (one_page W' D act le st (raw_bytes W) (Some ([(0, raw_bytes W)], [])) wa ru)"
    and "intent_step ser (one_page W' D act le st disk (Some ([(0, raw_bytes W)], [])) wa ru)
      (one_page W' W act le (st - {0}) disk None wa ru)"
proof -
  show "intent_step ser (one_page W D act le st disk None wa ru)
      (one_page W D act le st disk (Some ([(0, raw_bytes W)], [(0, raw_bytes W)])) wa ru)"
    by (rule step_to [OF intent_step.pages_start [OF _ pending_one [OF assms(1,2)]]])
      (use assms(4) in \<open>simp_all add: one_page_def\<close>)
  show "intent_step ser (one_page W' D act le st disk (Some ([(0, raw_bytes W)], [(0, raw_bytes W)])) wa ru)
      (one_page W' D act le st (raw_bytes W) (Some ([(0, raw_bytes W)], [])) wa ru)"
    by (rule step_to [OF intent_step.page_durable [where pb = "(0, raw_bytes W)" and w = "[(0, raw_bytes W)]" and rem = "[(0, raw_bytes W)]"]])
      (use assms(1,3) in \<open>simp_all add: one_page_def put_whole\<close>)
  show "intent_step ser (one_page W' D act le st disk (Some ([(0, raw_bytes W)], [])) wa ru)
      (one_page W' W act le (st - {0}) disk None wa ru)"
    by (rule step_to [OF intent_step.pages_commit [where w = "[(0, raw_bytes W)]"]])
      (use commit_one [OF assms(1,2)] in \<open>simp_all add: one_page_def\<close>)
qed

text \<open>The bits of chunk 0, of both chunks, and of chunk 1.\<close>

definition bits_0 :: "bool list" where "bits_0 = no_bits[0 := True]"

definition bits_01 :: "bool list" where "bits_01 = no_bits[0 := True, 1 := True]"

definition bits_1 :: "bool list" where "bits_1 = no_bits[1 := True]"

lemma bits_nth [simp]:
  "bits_0 ! 0" "\<not> bits_0 ! Suc 0" "bits_01 ! 0" "bits_01 ! Suc 0" "bits_1 ! Suc 0" "\<not> bits_1 ! 0"
  "\<not> no_bits ! 0" "\<not> no_bits ! Suc 0"
  by (simp_all add: bits_0_def bits_01_def bits_1_def)

lemma bits_length [simp]: "length bits_0 = 8 * PAGE" "length bits_01 = 8 * PAGE" "length bits_1 = 8 * PAGE"
  by (simp_all add: bits_0_def bits_01_def bits_1_def)

lemma no_bits_0: "no_bits[0 := False] = no_bits"
  by (metis bits_nth(7) list_update_id)

lemma bits_update [simp]:
  "no_bits[0 := True] = bits_0" "bits_0[Suc 0 := True] = bits_01" "bits_1[0 := True] = bits_01"
  "bits_0[0 := False] = no_bits" "bits_01[0 := False] = bits_1"
proof -
  show "no_bits[0 := True] = bits_0" "bits_0[Suc 0 := True] = bits_01" "bits_0[0 := False] = no_bits"
    by (simp_all add: bits_0_def bits_01_def no_bits_0)
  show "bits_1[0 := True] = bits_01"
    by (simp add: bits_1_def bits_01_def list_update_swap)
  have "bits_01[0 := False] = (no_bits[0 := False])[1 := True]"
    unfolding bits_01_def by (subst list_update_swap) simp_all
  then show "bits_01[0 := False] = bits_1" by (simp add: no_bits_0 bits_1_def)
qed

lemma bits_distinct: "bits_0 \<noteq> no_bits" "bits_01 \<noteq> bits_0" "bits_1 \<noteq> bits_01"
  by (metis bits_nth(1,7), metis bits_nth(2,4), metis bits_nth(3,6))

lemma filter_first_two:
  assumes "2 \<le> n" "P 0" "P (Suc 0)" "\<And>c. 2 \<le> c \<Longrightarrow> c < n \<Longrightarrow> \<not> P c"
  shows "filter P [0..<n] = [0, Suc 0]"
proof -
  obtain k where k: "n = 2 + k" using assms(1) le_Suc_ex by blast
  have "[0..<n] = [0..<2] @ [2..<n]"
    unfolding k using upt_add_eq_append [of 0 2 k] by simp
  moreover have "filter P [2..<n] = []" using assms(4) by (simp add: filter_empty_conv)
  moreover have "[0..<2] = [0, Suc 0]" by (simp add: upt_rec)
  ultimately show ?thesis using assms(2,3) by simp
qed

lemma ones_01: "filter (\<lambda>c. bits_01 ! c) [0..<8 * PAGE] = [0, Suc 0]"
proof (rule filter_first_two)
  show "2 \<le> 8 * PAGE" by (simp add: PAGE_def)
  fix c assume "2 \<le> c" "c < 8 * PAGE"
  then show "\<not> bits_01 ! c" unfolding bits_01_def no_bits_def by (simp add: nth_list_update)
qed simp_all

lemmas step_then = converse_rtranclp_into_rtranclp [of "intent_step ser" for ser]

lemma one_page_pages_run:
  assumes "length W = 8 * PAGE" "length D = 8 * PAGE" "length disk = PAGE" "W \<noteq> D"
  shows "(intent_step ser)\<^sup>*\<^sup>* (one_page W D act le st disk None wa ru)
    (one_page W W act le (st - {0}) (raw_bytes W) None wa ru)"
  by (rule step_then [OF one_page_pages(1) [OF assms]], rule step_then [OF one_page_pages(2) [OF assms]],
      rule step_then [OF one_page_pages(3)]) (use assms in simp_all)

text \<open>The first write of chunk 0, up to its being let through to the data.\<close>

lemma run_first_write:
  "(intent_step ser)\<^sup>*\<^sup>* (intent_init 1 2 PAGE)
     (one_page bits_0 bits_0 [0 \<mapsto> 1] Map.empty {} (raw_bytes bits_0) None [] [[0]])"
proof -
  have "intent_step ser (one_page no_bits no_bits Map.empty Map.empty {} (replicate PAGE 0) None [] [])
      (one_page bits_0 no_bits [0 \<mapsto> 1] Map.empty {} (replicate PAGE 0) None [[0]] [])"
    by (rule step_to [OF intent_step.begin_waits [where r = "[0]"]])
      (auto simp: one_page_def ib_begin_def ib_begin_one_def)
  moreover have "(intent_step ser)\<^sup>*\<^sup>* (one_page bits_0 no_bits [0 \<mapsto> 1] Map.empty {} (replicate PAGE 0) None [[0]] [])
      (one_page bits_0 bits_0 [0 \<mapsto> 1] Map.empty ({} - {0}) (raw_bytes bits_0) None [[0]] [])"
    by (rule one_page_pages_run) (simp_all add: bits_distinct)
  moreover have "intent_step ser (one_page bits_0 bits_0 [0 \<mapsto> 1] Map.empty {} (raw_bytes bits_0) None [[0]] [])
      (one_page bits_0 bits_0 [0 \<mapsto> 1] Map.empty {} (raw_bytes bits_0) None [] [[0]])"
    by (rule step_to [OF intent_step.admit [where r = "[0]"]]) (auto simp: one_page_def ib_is_durable_def)
  ultimately show ?thesis unfolding one_page_init by simp
qed

text \<open>From there: the write ends, a write of chunk 1 starts its page, the idle bit of chunk 0 is
  cleared while that page is being written, the clearing page starts, and a second write of
  chunk 0 arrives.\<close>

lemma run_second_write:
  "(intent_step False)\<^sup>*\<^sup>* (one_page bits_0 bits_0 [0 \<mapsto> 1] Map.empty {} (raw_bytes bits_0) None [] [[0]])
     (one_page bits_01 bits_01 [0 \<mapsto> 1, 1 \<mapsto> 1] Map.empty {} (raw_bytes bits_1)
        (Some ([(0, raw_bytes bits_1)], [])) [[1]] [[0]])"
proof -
  let ?w = "\<lambda>b. Some ([(0, raw_bytes b)], [(0, raw_bytes b)])"
  have "intent_step False (one_page bits_0 bits_0 [0 \<mapsto> 1] Map.empty {} (raw_bytes bits_0) None [] [[0]])
      (one_page bits_0 bits_0 Map.empty [0 \<mapsto> 1] {} (raw_bytes bits_0) None [] [])"
    by (rule step_to [OF intent_step.finish [where r = "[0]" and now = 1]])
      (auto simp: one_page_def ib_end_def ib_end_one_def)
  moreover have "intent_step False (one_page bits_0 bits_0 Map.empty [0 \<mapsto> 1] {} (raw_bytes bits_0) None [] [])
      (one_page bits_01 bits_0 [1 \<mapsto> 1] [0 \<mapsto> 1] {} (raw_bytes bits_0) None [[1]] [])"
    by (rule step_to [OF intent_step.begin_waits [where r = "[1]"]])
      (auto simp: one_page_def ib_begin_def ib_begin_one_def)
  moreover have "intent_step False (one_page bits_01 bits_0 [1 \<mapsto> 1] [0 \<mapsto> 1] {} (raw_bytes bits_0) None [[1]] [])
      (one_page bits_01 bits_0 [1 \<mapsto> 1] [0 \<mapsto> 1] {} (raw_bytes bits_0) (?w bits_01) [[1]] [])"
    by (rule one_page_pages) (simp_all add: bits_distinct)
  moreover have "intent_step False (one_page bits_01 bits_0 [1 \<mapsto> 1] [0 \<mapsto> 1] {} (raw_bytes bits_0) (?w bits_01) [[1]] [])
      (one_page bits_1 no_bits [1 \<mapsto> 1] Map.empty {0} (raw_bytes bits_0) (?w bits_01) [[1]] [])"
    by (rule step_to [OF intent_step.clear [where before = 2]])
      (auto simp: one_page_def ib_clear_idle_def ones_01 ib_clear_one_def page_of_def)
  moreover have "intent_step False (one_page bits_1 no_bits [1 \<mapsto> 1] Map.empty {0} (raw_bytes bits_0) (?w bits_01) [[1]] [])
      (one_page bits_1 no_bits [1 \<mapsto> 1] Map.empty {0} (raw_bytes bits_01) (Some ([(0, raw_bytes bits_01)], [])) [[1]] [])"
    by (rule one_page_pages(2)) (simp_all, metis bits_nth(3,7))
  moreover have "intent_step False
      (one_page bits_1 no_bits [1 \<mapsto> 1] Map.empty {0} (raw_bytes bits_01) (Some ([(0, raw_bytes bits_01)], [])) [[1]] [])
      (one_page bits_1 bits_01 [1 \<mapsto> 1] Map.empty ({0} - {0}) (raw_bytes bits_01) None [[1]] [])"
    by (rule one_page_pages(3)) (simp_all, metis bits_nth(3,7))
  moreover have "intent_step False (one_page bits_1 bits_01 [1 \<mapsto> 1] Map.empty {} (raw_bytes bits_01) None [[1]] [])
      (one_page bits_1 bits_01 [1 \<mapsto> 1] Map.empty {} (raw_bytes bits_01) (?w bits_1) [[1]] [])"
    by (rule one_page_pages(1)) (simp_all add: bits_distinct)
  moreover have "intent_step False (one_page bits_1 bits_01 [1 \<mapsto> 1] Map.empty {} (raw_bytes bits_01) (?w bits_1) [[1]] [])
      (one_page bits_01 bits_01 [0 \<mapsto> 1, 1 \<mapsto> 1] Map.empty {} (raw_bytes bits_01) (?w bits_1) [[1]] [[0]])"
    by (rule step_to [OF intent_step.begin_admitted [where r = "[0]"]])
      (auto simp: one_page_def ib_begin_def ib_begin_one_def)
  moreover have "intent_step False
      (one_page bits_01 bits_01 [0 \<mapsto> 1, 1 \<mapsto> 1] Map.empty {} (raw_bytes bits_01) (?w bits_1) [[1]] [[0]])
      (one_page bits_01 bits_01 [0 \<mapsto> 1, 1 \<mapsto> 1] Map.empty {} (raw_bytes bits_1) (Some ([(0, raw_bytes bits_1)], [])) [[1]] [[0]])"
    by (rule one_page_pages(2)) (simp_all add: bits_distinct)
  ultimately show ?thesis by (simp add: step_then)
qed

theorem running_writes_marked_witness:
  "\<exists>s. (intent_step True)\<^sup>*\<^sup>* (intent_init 1 2 PAGE) s \<and> [0] \<in> set (ps_running s) \<and>
     0 \<in> set (dirty_chunks [ps_disk s] (ib_bits (ps_bm s)))"
proof (intro exI conjI)
  let ?s = "one_page bits_0 bits_0 [0 \<mapsto> 1] Map.empty {} (raw_bytes bits_0) None [] [[0]]"
  show r: "(intent_step True)\<^sup>*\<^sup>* (intent_init 1 2 PAGE) ?s" by (rule run_first_write)
  show m: "[0] \<in> set (ps_running ?s)" by (simp add: one_page_def)
  have "2 \<le> 8 * PAGE" by (simp add: PAGE_def)
  with r m show "0 \<in> set (dirty_chunks [ps_disk ?s] (ib_bits (ps_bm ?s)))"
    by (intro running_writes_marked [of PAGE 2 1 ?s "[0]"]) simp_all
qed

text \<open>C25. The array does not serialise the two: \<open>flush\<close> calls \<open>clear_idle\<close> without the \<open>io\<close> lock.
  When it runs while another task's page write is under way, that write's \<open>commit\<close> raises
  \<open>durable\<close> again for a bit no longer wanted and forgets that the page is stale; a writer that
  then begins while the clearing page is being written trusts the bit, and its data is in
  flight with its chunk unmarked on the disk.\<close>

theorem clear_during_page_write_unmarks:
  "\<exists>s. (intent_step False)\<^sup>*\<^sup>* (intent_init 1 2 PAGE) s \<and> [0] \<in> set (ps_running s) \<and>
     0 \<notin> set (dirty_chunks [ps_disk s] (ib_bits (ps_bm s)))"
proof (intro exI conjI)
  let ?s = "one_page bits_01 bits_01 [0 \<mapsto> 1, 1 \<mapsto> 1] Map.empty {} (raw_bytes bits_1)
        (Some ([(0, raw_bytes bits_1)], [])) [[1]] [[0]]"
  show "(intent_step False)\<^sup>*\<^sup>* (intent_init 1 2 PAGE) ?s"
    using run_first_write [of False] run_second_write by (rule rtranclp_trans)
  show "[0] \<in> set (ps_running ?s)" by (simp add: one_page_def)
  have "\<not> dbit (raw_bytes bits_1) 0" by (subst dbit_raw_bytes) simp_all
  then have "raw_bytes bits_1 ! 0 AND 1 = 0"
    using and_exp_eq_0_iff_not_bit [of "raw_bytes bits_1 ! 0" 0] by (simp add: dbit_def)
  then show "0 \<notin> set (dirty_chunks [ps_disk ?s] (ib_bits (ps_bm ?s)))"
    by (simp add: dirty_chunks_def one_page_def)
qed

end
