(* ===== verification/RaidArray.thy ===== *)
theory RaidArray
  imports Superblock RaidParity IntentBitmap
begin

text \<open>
  The RAID array engine (\<open>src/raid/mod.rs\<close>): members and their states, failing a member, the
  superblocks and the bitmap on disk, reading and writing at every level, resync, rebuild,
  creation and assembly. A device is its bytes; every call on one takes the next outcome of a
  script, so any pattern of failing calls can be played, and a write that fails leaves any bytes
  in its range. Calls that the code issues at once are issued in the order of their list. The
  value \<open>None\<close> of an operation is a panic, or a loop that never ends. Counters are natural
  numbers.
\<close>

section \<open>State\<close>

type_synonym device = "nat \<Rightarrow> u8"

datatype io_outcome = IoOk | IoErr nat device

datatype raid_error =
    InsufficientMembers nat nat
  | TooManyFailures nat nat
  | SbError sb_error
  | DriveErr nat
  | MemberIo nat nat
  | InvalidStripe
  | OutOfRange nat nat nat
  | Released

record Member =
  mb_device :: "device option"
  mb_state :: RaidMemberState
  mb_uuid :: uuid
  mb_rebuilt_to :: nat
  mb_missing :: bool
  mb_missing_at :: nat

text \<open>The last fields are the surroundings: the checksum, the clocks, the script of device calls and how many were made.\<close>

record RaidArray =
  ra_id :: uuid
  ra_level :: RaidLevel
  ra_stripe_size :: nat
  ra_data_size :: nat
  ra_create_time :: u64
  ra_name :: bytes
  ra_pool :: bytes
  ra_members :: "Member list"
  ra_events :: nat
  ra_engine :: SimdLevel
  ra_bitmap :: ibitmap
  ra_sb_dirty :: bool
  ra_read_counter :: nat
  ra_released :: bool
  ra_crc :: "bytes \<Rightarrow> u32"
  ra_now :: nat
  ra_wall :: u64
  ra_io :: "nat \<Rightarrow> io_outcome"
  ra_calls :: nat

type_synonym 'a res = "((raid_error + 'a) \<times> RaidArray) option"

text \<open>The operator \<open>?\<close>.\<close>

definition then_res :: "'a res \<Rightarrow> ('a \<Rightarrow> RaidArray \<Rightarrow> 'b res) \<Rightarrow> 'b res" where
  "then_res r f = (case r of None \<Rightarrow> None | Some (Inl e, a) \<Rightarrow> Some (Inl e, a) | Some (Inr x, a) \<Rightarrow> f x a)"

definition MIRROR_UNIT :: nat where "MIRROR_UNIT = 1024 * 1024"

definition DEFAULT_STRIPE_SIZE :: nat where "DEFAULT_STRIPE_SIZE = 64 * 1024"

section \<open>Device calls\<close>

definition next_io :: "RaidArray \<Rightarrow> io_outcome \<times> RaidArray" where
  "next_io a = (ra_io a (ra_calls a), a\<lparr>ra_calls := ra_calls a + 1\<rparr>)"

definition dev_bytes :: "nat \<Rightarrow> RaidArray \<Rightarrow> device" where
  "dev_bytes i a = (case mb_device (ra_members a ! i) of Some d \<Rightarrow> d | None \<Rightarrow> (\<lambda>_. 0))"

definition set_member :: "nat \<Rightarrow> Member \<Rightarrow> RaidArray \<Rightarrow> RaidArray" where
  "set_member i m a = a\<lparr>ra_members := (ra_members a)[i := m]\<rparr>"

definition set_bytes :: "nat \<Rightarrow> device \<Rightarrow> RaidArray \<Rightarrow> RaidArray" where
  "set_bytes i d a = set_member i ((ra_members a ! i)\<lparr>mb_device := Some d\<rparr>) a"

definition patch :: "nat \<Rightarrow> nat \<Rightarrow> device \<Rightarrow> device \<Rightarrow> device" where
  "patch at n new d = (\<lambda>x. if at \<le> x \<and> x < at + n then new x else d x)"

definition dev_read :: "nat \<Rightarrow> nat \<Rightarrow> nat \<Rightarrow> RaidArray \<Rightarrow> (nat + bytes) \<times> RaidArray" where
  "dev_read i at len a =
     (case next_io a of
        (IoOk, a) \<Rightarrow> (Inr (map (dev_bytes i a) [at..<at + len]), a)
      | (IoErr e _, a) \<Rightarrow> (Inl e, a))"

definition dev_write :: "nat \<Rightarrow> nat \<Rightarrow> bytes \<Rightarrow> RaidArray \<Rightarrow> (nat + unit) \<times> RaidArray" where
  "dev_write i at bs a =
     (case next_io a of
        (IoOk, a) \<Rightarrow> (Inr (), set_bytes i (patch at (length bs) (\<lambda>x. bs ! (x - at)) (dev_bytes i a)) a)
      | (IoErr e junk, a) \<Rightarrow> (Inl e, set_bytes i (patch at (length bs) junk (dev_bytes i a)) a))"

definition dev_flush :: "nat \<Rightarrow> RaidArray \<Rightarrow> (nat + unit) \<times> RaidArray" where
  "dev_flush i a = (case next_io a of (IoOk, a) \<Rightarrow> (Inr (), a) | (IoErr e _, a) \<Rightarrow> (Inl e, a))"

section \<open>Members\<close>

definition holds :: "Member \<Rightarrow> nat \<Rightarrow> bool" where
  "holds m end \<longleftrightarrow> mb_device m \<noteq> None \<and>
     (case mb_state m of MActive \<Rightarrow> True | MRebuilding \<Rightarrow> end \<le> mb_rebuilt_to m | _ \<Rightarrow> False)"

definition attached :: "Member \<Rightarrow> bool" where
  "attached m \<longleftrightarrow> mb_device m \<noteq> None \<and> (mb_state m = MActive \<or> mb_state m = MRebuilding)"

definition geometry :: "RaidArray \<Rightarrow> Geometry" where
  "geometry a = \<lparr>g_level = ra_level a, g_n = length (ra_members a), g_unit = ra_stripe_size a\<rparr>"

definition lock_unit :: "RaidArray \<Rightarrow> nat" where
  "lock_unit a = (if ra_level a = Raid1 then MIRROR_UNIT else ra_stripe_size a)"

definition attached_devices :: "RaidArray \<Rightarrow> nat list" where
  "attached_devices a = filter (\<lambda>i. attached (ra_members a ! i)) [0..<length (ra_members a)]"

definition ra_holders :: "RaidArray \<Rightarrow> nat \<Rightarrow> bool list" where
  "ra_holders a end = map (\<lambda>m. holds m end) (ra_members a)"

definition failed_count :: "RaidArray \<Rightarrow> nat" where
  "failed_count a = length (filter (\<lambda>m. mb_state m = MFailed) (ra_members a))"

definition rebuilding_count :: "RaidArray \<Rightarrow> nat" where
  "rebuilding_count a = length (filter (\<lambda>m. mb_state m = MRebuilding) (ra_members a))"

definition whole :: "Member \<Rightarrow> bool" where
  "whole m \<longleftrightarrow> mb_device m \<noteq> None \<and> mb_state m = MActive"

definition data_intact :: "RaidArray \<Rightarrow> bool" where
  "data_intact a =
     (let ms = ra_members a in
      case ra_level a of
        Raid1 \<Rightarrow> list_ex whole ms
      | Raid10 \<Rightarrow> list_all (\<lambda>p. whole (ms ! (2 * p)) \<or> whole (ms ! (2 * p + 1))) [0..<length ms div 2]
      | _ \<Rightarrow> length (filter (\<lambda>m. \<not> whole m) ms) \<le> tolerated (geometry a))"

text \<open>\<open>idx ^ 1\<close>: the other member of a RAID-10 pair.\<close>

definition partner :: "nat \<Rightarrow> nat" where
  "partner i = (if even i then i + 1 else i - 1)"

definition can_lose :: "RaidArray \<Rightarrow> nat \<Rightarrow> bool" where
  "can_lose a idx =
     (let ms = ra_members a in
      case ra_level a of
        Raid1 \<Rightarrow> list_ex (\<lambda>i. i \<noteq> idx \<and> whole (ms ! i)) [0..<length ms]
      | Raid10 \<Rightarrow> whole (ms ! partner idx)
      | _ \<Rightarrow> length (filter (\<lambda>i. i \<noteq> idx \<and> \<not> whole (ms ! i)) [0..<length ms]) < tolerated (geometry a))"

definition fail_member_as :: "bool \<Rightarrow> nat \<Rightarrow> RaidArray \<Rightarrow> bool \<times> RaidArray" where
  "fail_member_as missing idx a =
     (if idx \<ge> length (ra_members a) \<or> mb_state (ra_members a ! idx) = MFailed then (False, a)
      else let m = ra_members a ! idx; was_rebuilding = (mb_state m = MRebuilding) in
        if \<not> was_rebuilding \<and> \<not> can_lose a idx then (False, a)
        else (True, (set_member idx (m\<lparr>mb_state := MFailed, mb_missing := missing \<and> \<not> was_rebuilding,
                       mb_missing_at := ra_events a + 1\<rparr>) a)\<lparr>ra_events := ra_events a + 1, ra_sb_dirty := True\<rparr>))"

definition fail_member :: "nat \<Rightarrow> RaidArray \<Rightarrow> bool \<times> RaidArray" where
  "fail_member idx a = fail_member_as False idx a"

definition fail_member_missing :: "nat \<Rightarrow> RaidArray \<Rightarrow> bool \<times> RaidArray" where
  "fail_member_missing idx a = fail_member_as True idx a"

definition keeps_bitmap :: "RaidArray \<Rightarrow> bool" where
  "keeps_bitmap a \<longleftrightarrow> list_ex (\<lambda>m. mb_state m = MFailed \<and> mb_missing m) (ra_members a)"

definition too_many :: "RaidArray \<Rightarrow> raid_error" where
  "too_many a = TooManyFailures (failed_count a) (tolerated (geometry a))"

text \<open>The results of calls issued at once: a member that failed its call is failed; the error is returned if it may not be.\<close>

fun settle :: "(nat \<times> (nat + 'x)) list \<Rightarrow> RaidArray \<Rightarrow> (raid_error + unit) \<times> RaidArray" where
  "settle [] a = (Inr (), a)"
| "settle ((i, r) # rs) a =
     (case r of
        Inr _ \<Rightarrow> settle rs a
      | Inl e \<Rightarrow> (case fail_member i a of (ok, a) \<Rightarrow> if ok then settle rs a else (Inl (DriveErr e), a)))"

section \<open>Superblocks and the bitmap on disk\<close>

definition superblock_for :: "RaidArray \<Rightarrow> nat \<Rightarrow> Superblock" where
  "superblock_for a slot =
     \<lparr>sb_array_uuid = ra_id a, sb_member_uuid = mb_uuid (ra_members a ! slot), sb_slot = Some (of_nat slot),
      sb_level = Some (ra_level a), sb_stripe_size = of_nat (ra_stripe_size a), sb_data_offset = of_nat RAID_DATA_OFFSET,
      sb_data_size = of_nat (ra_data_size a), sb_create_time = ra_create_time a, sb_update_time = ra_wall a,
      sb_events = of_nat (ra_events a), sb_bitmap_offset = of_nat BITMAP_OFFSET,
      sb_bitmap_bytes = of_nat (ib_bytes (ra_bitmap a)), sb_bitmap_chunk = of_nat (ib_chunk (ra_bitmap a)),
      sb_name = ra_name a, sb_pool = ra_pool a,
      sb_slots = map (\<lambda>m. \<lparr>sr_member_uuid = mb_uuid m, sr_state = mb_state m, sr_rebuilt_to = of_nat (mb_rebuilt_to m),
        sr_missing = mb_missing m, sr_missing_at = of_nat (mb_missing_at m)\<rparr>) (ra_members a)\<rparr>"

text \<open>One write of each, then its flush.\<close>

fun write_each :: "(nat \<times> nat \<times> bytes) list \<Rightarrow> RaidArray \<Rightarrow> (nat \<times> (nat + unit)) list \<times> RaidArray" where
  "write_each [] a = ([], a)"
| "write_each ((i, at, bs) # ws) a =
     (case dev_write i at bs a of (r, a) \<Rightarrow>
        case (case r of Inr _ \<Rightarrow> dev_flush i a | Inl e \<Rightarrow> (Inl e, a)) of (r, a) \<Rightarrow>
          case write_each ws a of (rs, a) \<Rightarrow> ((i, r) # rs, a))"

text \<open>A round of \<open>write_superblocks\<close>: whether it is repeated.\<close>

fun sb_settle :: "(nat \<times> (nat + unit)) list \<Rightarrow> bool \<Rightarrow> RaidArray \<Rightarrow> (raid_error + bool) \<times> RaidArray" where
  "sb_settle [] again a = (Inr again, a)"
| "sb_settle ((i, r) # rs) again a =
     (case r of
        Inr _ \<Rightarrow> sb_settle rs again a
      | Inl e \<Rightarrow> (case fail_member i a of (ok, a) \<Rightarrow> if ok then sb_settle rs True a else (Inl (MemberIo i e), a)))"

fun sb_rounds :: "nat \<Rightarrow> RaidArray \<Rightarrow> unit res" where
  "sb_rounds 0 a = Some (Inr (), a)"
| "sb_rounds (Suc n) a =
     (let a = a\<lparr>ra_sb_dirty := False\<rparr>;
          ws = map (\<lambda>i. map_option (\<lambda>b. (i, 0, b)) (sb_to_bytes (ra_crc a) (superblock_for a i))) (attached_devices a)
      in case unwrap_all ws of
           None \<Rightarrow> None
         | Some ws \<Rightarrow>
             (case write_each ws a of (rs, a) \<Rightarrow>
                case sb_settle rs False a of
                  (Inl e, a) \<Rightarrow> Some (Inl e, a)
                | (Inr again, a) \<Rightarrow> if again then sb_rounds n a else Some (Inr (), a)))"

definition write_superblocks :: "RaidArray \<Rightarrow> unit res" where
  "write_superblocks a = (if ra_released a then Some (Inr (), a) else sb_rounds (MAX_SLOTS + 1) a)"

definition persist_if_dirty :: "RaidArray \<Rightarrow> RaidArray option" where
  "persist_if_dirty a = (if ra_sb_dirty a then map_option snd (write_superblocks a) else Some a)"

fun zero_each :: "nat list \<Rightarrow> RaidArray \<Rightarrow> (raid_error + unit) \<times> RaidArray" where
  "zero_each [] a = (Inr (), a)"
| "zero_each (i # is) a =
     (case dev_write i BITMAP_OFFSET (zero_buf (ib_bytes (ra_bitmap a))) a of
        (Inr _, a) \<Rightarrow> zero_each is a
      | (Inl e, a) \<Rightarrow> (case fail_member i a of (ok, a) \<Rightarrow> if ok then zero_each is a else (Inl (MemberIo i e), a)))"

definition zero_bitmaps :: "nat option \<Rightarrow> RaidArray \<Rightarrow> (raid_error + unit) \<times> RaidArray" where
  "zero_bitmaps only a =
     (if ra_released a then (Inr (), a)
      else zero_each (filter (\<lambda>i. only = None \<or> only = Some i) (attached_devices a)) a)"

fun write_pages :: "nat \<Rightarrow> page_write \<Rightarrow> RaidArray \<Rightarrow> (nat + unit) \<times> RaidArray" where
  "write_pages i [] a = dev_flush i a"
| "write_pages i ((p, bs) # ps) a =
     (case dev_write i (BITMAP_OFFSET + p * PAGE) bs a of (Inr _, a) \<Rightarrow> write_pages i ps a | (Inl e, a) \<Rightarrow> (Inl e, a))"

fun pages_each :: "nat list \<Rightarrow> page_write \<Rightarrow> RaidArray \<Rightarrow> (nat \<times> (nat + unit)) list \<times> RaidArray" where
  "pages_each [] w a = ([], a)"
| "pages_each (i # is) w a =
     (case write_pages i w a of (r, a) \<Rightarrow> case pages_each is w a of (rs, a) \<Rightarrow> ((i, r) # rs, a))"

definition write_bitmap_pages :: "RaidArray \<Rightarrow> (raid_error + unit) \<times> RaidArray" where
  "write_bitmap_pages a =
     (if ra_released a then (Inr (), a)
      else let w = ib_pending (ra_bitmap a) in
        if w = [] then (Inr (), a)
        else case pages_each (attached_devices a) w a of (rs, a) \<Rightarrow>
          case settle rs a of
            (Inl e, a) \<Rightarrow> (Inl e, a)
          | (Inr _, a) \<Rightarrow>
              if list_ex (\<lambda>(i, r). \<not> isl r) rs
              then (Inr (), a\<lparr>ra_bitmap := ib_commit w (ra_bitmap a)\<rparr>)
              else (Inl (too_many a), a))"

text \<open>The loop of \<open>intent_begin\<close>.\<close>

partial_function (option) intent_wait :: "nat list \<Rightarrow> RaidArray \<Rightarrow> unit res" where
  "intent_wait r a =
     (if ib_is_durable r (ra_bitmap a) then Some (Inr (), a)
      else case write_bitmap_pages a of
             (Inl e, a) \<Rightarrow> Some (Inl e, a\<lparr>ra_bitmap := ib_end (ra_now a) r (ra_bitmap a)\<rparr>)
           | (Inr _, a) \<Rightarrow> intent_wait r a)"

definition intent_begin :: "nat list \<Rightarrow> RaidArray \<Rightarrow> unit res" where
  "intent_begin r a =
     (case ib_begin r (ra_bitmap a) of (need, b) \<Rightarrow>
        let a = a\<lparr>ra_bitmap := b\<rparr> in if need then intent_wait r a else Some (Inr (), a))"

text \<open>What follows every write: the marks end and the superblocks are rewritten if a member failed.\<close>

definition finish_write :: "nat list \<Rightarrow> (raid_error + unit) \<times> RaidArray \<Rightarrow> unit res" where
  "finish_write r ra =
     (case ra of (res, a) \<Rightarrow>
        map_option (Pair res) (persist_if_dirty (a\<lparr>ra_bitmap := ib_end (ra_now a) r (ra_bitmap a)\<rparr>)))"

section \<open>RAID-1 and RAID-10\<close>

definition all_slots :: "RaidArray \<Rightarrow> nat list" where
  "all_slots a = [0..<length (ra_members a)]"

text \<open>Each member of the set gets what it holds: all of it, or the part below its rebuild position.\<close>

definition mirror_targets :: "nat list \<Rightarrow> nat \<Rightarrow> nat \<Rightarrow> RaidArray \<Rightarrow> (nat \<times> nat) list" where
  "mirror_targets grp moff len a =
     List.map_filter (\<lambda>i. let m = ra_members a ! i in
       if mb_device m = None then None
       else if holds m (moff + len) then Some (i, len)
       else if mb_state m = MRebuilding \<and> mb_rebuilt_to m > moff then Some (i, mb_rebuilt_to m - moff)
       else None) grp"

fun mirror_writes :: "nat \<Rightarrow> bytes \<Rightarrow> (nat \<times> nat) list \<Rightarrow> RaidArray \<Rightarrow> (nat \<times> bool \<times> (nat + unit)) list \<times> RaidArray" where
  "mirror_writes moff data [] a = ([], a)"
| "mirror_writes moff data ((i, n) # ts) a =
     (case dev_write i (RAID_DATA_OFFSET + moff) (take n data) a of (r, a) \<Rightarrow>
        case mirror_writes moff data ts a of (rs, a) \<Rightarrow> ((i, n = length data, r) # rs, a))"

fun mirror_settle :: "(nat \<times> bool \<times> (nat + unit)) list \<Rightarrow> bool \<Rightarrow> nat option \<Rightarrow> RaidArray \<Rightarrow> (raid_error + unit) \<times> RaidArray" where
  "mirror_settle [] wrote last_err a =
     (if wrote then (Inr (), a)
      else case last_err of Some e \<Rightarrow> (Inl (DriveErr e), a) | None \<Rightarrow> (Inl (too_many a), a))"
| "mirror_settle ((i, whole_write, r) # rs) wrote last_err a =
     (case r of
        Inr _ \<Rightarrow> mirror_settle rs (wrote \<or> whole_write) last_err a
      | Inl e \<Rightarrow> (case fail_member i a of (ok, a) \<Rightarrow>
          if ok then mirror_settle rs wrote (Some e) a else (Inl (DriveErr e), a)))"

definition mirror_write_at :: "nat list \<Rightarrow> nat \<Rightarrow> bytes \<Rightarrow> RaidArray \<Rightarrow> (raid_error + unit) \<times> RaidArray" where
  "mirror_write_at grp moff data a =
     (let targets = mirror_targets grp moff (length data) a in
      if \<not> list_ex (\<lambda>(i, n). n = length data) targets then (Inl (too_many a), a)
      else case mirror_writes moff data targets a of (rs, a) \<Rightarrow> mirror_settle rs False None a)"

definition read_candidates :: "nat list \<Rightarrow> nat list \<Rightarrow> nat \<Rightarrow> RaidArray \<Rightarrow> nat list" where
  "read_candidates grp tried end a = filter (\<lambda>i. ra_holders a end ! i \<and> i \<notin> set tried) grp"

function mirror_read_loop :: "nat list \<Rightarrow> nat \<Rightarrow> nat \<Rightarrow> nat list \<Rightarrow> RaidArray \<Rightarrow> (raid_error + bytes) \<times> RaidArray" where
  "mirror_read_loop grp moff len tried a =
     (let cands = read_candidates grp tried (moff + len) a in
      if cands = [] then (Inl (too_many a), a)
      else let pick = cands ! (ra_read_counter a mod length cands) in
        case dev_read pick (RAID_DATA_OFFSET + moff) len (a\<lparr>ra_read_counter := ra_read_counter a + 1\<rparr>) of
          (Inr bs, a) \<Rightarrow> (Inr bs, a)
        | (Inl e, a) \<Rightarrow> (case fail_member pick a of (ok, a) \<Rightarrow>
            if \<not> ok \<and> length cands = 1 then (Inl (DriveErr e), a)
            else mirror_read_loop grp moff len (tried @ [pick]) a))"
  by pat_completeness auto
termination
proof (relation "measure (\<lambda>(grp, moff, len, tried, a). length (filter (\<lambda>i. i \<notin> set tried) grp))", goal_cases)
  case (2 grp moff len tried a cands pick)
  then have "pick \<in> set cands" by (metis bot_nat_0.not_eq_extremum length_greater_0_conv mod_less_divisor nth_mem)
  then have p: "pick \<in> set grp" "pick \<notin> set tried" using 2(1) by (auto simp: read_candidates_def)
  have eq: "filter (\<lambda>i. i \<notin> set (tried @ [pick])) grp = filter (\<lambda>i. i \<noteq> pick) (filter (\<lambda>i. i \<notin> set tried) grp)"
    by (simp add: conj_commute)
  have "length (filter (\<lambda>i. i \<noteq> pick) (filter (\<lambda>i. i \<notin> set tried) grp)) < length (filter (\<lambda>i. i \<notin> set tried) grp)"
    by (rule length_filter_less [of pick]) (use p in simp_all)
  then show ?case unfolding in_measure case_prod_conv eq .
qed simp

declare mirror_read_loop.simps [simp del]

definition mirror_read_at :: "nat list \<Rightarrow> nat \<Rightarrow> nat \<Rightarrow> RaidArray \<Rightarrow> (raid_error + bytes) \<times> RaidArray" where
  "mirror_read_at grp moff len a = mirror_read_loop grp moff len [] a"

text \<open>What follows every read.\<close>

definition finish_read :: "(raid_error + 'a) \<times> RaidArray \<Rightarrow> 'a res" where
  "finish_read ra = (case ra of (res, a) \<Rightarrow> map_option (Pair res) (persist_if_dirty a))"

definition raid1_write :: "nat \<Rightarrow> bytes \<Rightarrow> RaidArray \<Rightarrow> unit res" where
  "raid1_write offset buf a =
     (let r = ib_chunks (ra_bitmap a) offset (length buf) in
      then_res (intent_begin r a) (\<lambda>_ a. finish_write r (mirror_write_at (all_slots a) offset buf a)))"

definition raid1_read :: "nat \<Rightarrow> nat \<Rightarrow> RaidArray \<Rightarrow> bytes res" where
  "raid1_read offset len a = finish_read (mirror_read_at (all_slots a) offset len a)"

definition pair_list :: "nat \<Rightarrow> nat list" where
  "pair_list p = [fst (pair_members p), snd (pair_members p)]"

fun raid10_pieces :: "Segment list \<Rightarrow> bytes \<Rightarrow> RaidArray \<Rightarrow> (raid_error + unit) \<times> RaidArray" where
  "raid10_pieces [] buf a = (Inr (), a)"
| "raid10_pieces (s # segs) buf a =
     (case mirror_write_at (pair_list (sg_index s)) (sg_stripe s * ra_stripe_size a + sg_offset_in_unit s)
             (slice_of (sg_buf_offset s) (sg_buf_offset s + sg_len s) buf) a of
        (Inl e, a) \<Rightarrow> (Inl e, a)
      | (Inr _, a) \<Rightarrow> raid10_pieces segs buf a)"

text \<open>The chunks of the bitmap under the stripes of some pieces.\<close>

definition stripe_chunks :: "Segment list \<Rightarrow> RaidArray \<Rightarrow> nat list" where
  "stripe_chunks segs a =
     (let lo = (if segs = [] then 0 else sg_stripe (hd segs)); hi = (if segs = [] then 0 else sg_stripe (last segs))
      in ib_chunks (ra_bitmap a) (lo * ra_stripe_size a) ((hi + 1 - lo) * ra_stripe_size a))"

definition raid10_write :: "nat \<Rightarrow> bytes \<Rightarrow> RaidArray \<Rightarrow> unit res" where
  "raid10_write offset buf a =
     (case segments (geometry a) offset (length buf) of
        None \<Rightarrow> None
      | Some segs \<Rightarrow>
          let r = stripe_chunks segs a in
          then_res (intent_begin r a) (\<lambda>_ a. finish_write r (raid10_pieces segs buf a)))"

fun raid10_reads :: "Segment list \<Rightarrow> RaidArray \<Rightarrow> (raid_error + bytes) \<times> RaidArray" where
  "raid10_reads [] a = (Inr [], a)"
| "raid10_reads (s # segs) a =
     (case mirror_read_at (pair_list (sg_index s)) (sg_stripe s * ra_stripe_size a + sg_offset_in_unit s) (sg_len s) a of
        (Inl e, a) \<Rightarrow> (Inl e, a)
      | (Inr bs, a) \<Rightarrow> (case raid10_reads segs a of (Inl e, a) \<Rightarrow> (Inl e, a) | (Inr rest, a) \<Rightarrow> (Inr (bs @ rest), a)))"

definition raid10_read :: "nat \<Rightarrow> nat \<Rightarrow> RaidArray \<Rightarrow> bytes res" where
  "raid10_read offset len a =
     (case segments (geometry a) offset len of None \<Rightarrow> None | Some segs \<Rightarrow> finish_read (raid10_reads segs a))"

section \<open>RAID-5 and RAID-6\<close>

text \<open>\<open>read_column\<close>: the reads, and what they give for the strips.\<close>

fun column_reads :: "bool list \<Rightarrow> nat \<Rightarrow> nat \<Rightarrow> nat list \<Rightarrow> RaidArray \<Rightarrow> (nat \<times> (nat + bytes option)) list \<times> RaidArray" where
  "column_reads hs at len [] a = ([], a)"
| "column_reads hs at len (i # is) a =
     (case (if hs ! i
            then (case dev_read i at len a of (Inr b, a) \<Rightarrow> (Inr (Some b), a) | (Inl e, a) \<Rightarrow> (Inl e, a))
            else (Inr None, a)) of (r, a) \<Rightarrow>
        case column_reads hs at len is a of (rs, a) \<Rightarrow> ((i, r) # rs, a))"

fun column_strips :: "Geometry \<Rightarrow> nat \<Rightarrow> (nat \<times> (nat + bytes option)) list \<Rightarrow> StripeStrips \<Rightarrow> RaidArray \<Rightarrow> StripeStrips \<times> RaidArray" where
  "column_strips geo stripe [] st a = (st, a)"
| "column_strips geo stripe ((i, r) # rs) st a =
     (case (case r of Inr b \<Rightarrow> (b, a) | Inl e \<Rightarrow> (None, snd (fail_member i a))) of (b, a) \<Rightarrow>
        column_strips geo stripe rs
          (case role_of geo stripe i of
             RoleData d \<Rightarrow> st\<lparr>ss_data := (ss_data st)[d := b]\<rparr>
           | RoleP \<Rightarrow> st\<lparr>ss_p := b\<rparr>
           | RoleQ \<Rightarrow> st\<lparr>ss_q := Some b\<rparr>) a)"

definition no_strips :: "Geometry \<Rightarrow> StripeStrips" where
  "no_strips geo = \<lparr>ss_data = replicate (data_count geo) None, ss_p = None,
     ss_q = (if g_level geo = Raid6 then Some None else None)\<rparr>"

definition read_column :: "nat \<Rightarrow> nat \<Rightarrow> nat \<Rightarrow> RaidArray \<Rightarrow> StripeStrips \<times> RaidArray" where
  "read_column stripe lo len a =
     (case column_reads (ra_holders a ((stripe + 1) * ra_stripe_size a)) (RAID_DATA_OFFSET + stripe * ra_stripe_size a + lo)
             len [0..<length (ra_members a)] a of
        (rs, a) \<Rightarrow> column_strips (geometry a) stripe rs (no_strips (geometry a)) a)"

text \<open>\<open>parity_read\<close>: every piece from its own member, then the pieces that could not be read from the rest of their stripe.\<close>

fun piece_reads :: "Segment list \<Rightarrow> bool list list \<Rightarrow> RaidArray \<Rightarrow> (nat option + bytes) list \<times> RaidArray" where
  "piece_reads (s # segs) (hs # hss) a =
     (let m = data_member (geometry a) (sg_stripe s) (sg_index s) in
      case (if hs ! m
            then (case dev_read m (RAID_DATA_OFFSET + sg_stripe s * ra_stripe_size a + sg_offset_in_unit s) (sg_len s) a of
                    (Inr b, a) \<Rightarrow> (Inr b, a)
                  | (Inl e, a) \<Rightarrow> (Inl (Some m), a))
            else (Inl None, a)) of (r, a) \<Rightarrow>
        case piece_reads segs hss a of (rs, a) \<Rightarrow> (r # rs, a))"
| "piece_reads _ _ a = ([], a)"

definition degraded_piece :: "Segment \<Rightarrow> RaidArray \<Rightarrow> bytes res" where
  "degraded_piece s a =
     (case read_column (sg_stripe s) (sg_offset_in_unit s) (sg_len s) a of (strips, a) \<Rightarrow>
        case recover (ra_engine a) (sg_len s) strips of
          None \<Rightarrow> None
        | Some (Inl _) \<Rightarrow> Some (Inl (too_many a), a)
        | Some (Inr strips) \<Rightarrow>
            (case ss_data strips ! sg_index s of None \<Rightarrow> None | Some b \<Rightarrow> Some (Inr b, a)))"

fun finish_pieces :: "Segment list \<Rightarrow> (nat option + bytes) list \<Rightarrow> RaidArray \<Rightarrow> bytes res" where
  "finish_pieces (s # segs) (r # rs) a =
     then_res (case r of
                 Inr b \<Rightarrow> Some (Inr b, a)
               | Inl why \<Rightarrow> degraded_piece s (case why of Some m \<Rightarrow> snd (fail_member m a) | None \<Rightarrow> a))
       (\<lambda>b a. then_res (finish_pieces segs rs a) (\<lambda>rest a. Some (Inr (b @ rest), a)))"
| "finish_pieces _ _ a = Some (Inr [], a)"

definition parity_read :: "nat \<Rightarrow> nat \<Rightarrow> RaidArray \<Rightarrow> bytes res" where
  "parity_read offset len a =
     (case segments (geometry a) offset len of
        None \<Rightarrow> None
      | Some segs \<Rightarrow>
          (case piece_reads segs (map (\<lambda>s. ra_holders a ((sg_stripe s + 1) * ra_stripe_size a)) segs) a of (rs, a) \<Rightarrow>
             case finish_pieces segs rs a of None \<Rightarrow> None | Some ra \<Rightarrow> finish_read ra))"

text \<open>\<open>parity_write\<close>: the pieces of each stripe in turn.\<close>

function stripe_groups :: "Segment list \<Rightarrow> Segment list list" where
  "stripe_groups [] = []"
| "stripe_groups (s # segs) =
     (s # takeWhile (\<lambda>t. sg_stripe t = sg_stripe s) segs) # stripe_groups (dropWhile (\<lambda>t. sg_stripe t = sg_stripe s) segs)"
  by pat_completeness auto
termination by (relation "measure length") (auto simp: le_imp_less_Suc length_dropWhile_le)

fun do_writes :: "bool list \<Rightarrow> (nat \<times> nat \<times> bytes) list \<Rightarrow> RaidArray \<Rightarrow> (nat \<times> (nat + unit)) list \<times> RaidArray" where
  "do_writes hs [] a = ([], a)"
| "do_writes hs ((m, at, bs) # ws) a =
     (if hs ! m
      then (case dev_write m at bs a of (r, a) \<Rightarrow> case do_writes hs ws a of (rs, a) \<Rightarrow> ((m, r) # rs, a))
      else do_writes hs ws a)"

definition issue_writes :: "bool list \<Rightarrow> (nat \<times> nat \<times> bytes) list \<Rightarrow> RaidArray \<Rightarrow> (raid_error + unit) \<times> RaidArray" where
  "issue_writes hs ws a =
     (if ra_released a then (Inl Released, a) else case do_writes hs ws a of (rs, a) \<Rightarrow> settle rs a)"

definition check_after_write :: "RaidArray \<Rightarrow> (raid_error + unit) \<times> RaidArray" where
  "check_after_write a = (if data_intact a then (Inr (), a) else (Inl (too_many a), a))"

definition seg_data :: "bytes \<Rightarrow> Segment \<Rightarrow> bytes" where
  "seg_data buf s = slice_of (sg_buf_offset s) (sg_buf_offset s + sg_len s) buf"

text \<open>P, and Q at RAID-6, of a column.\<close>

definition column_parity :: "RaidArray \<Rightarrow> bytes list \<Rightarrow> nat \<Rightarrow> (bytes \<times> bytes) option" where
  "column_parity a data len =
     (if ra_level a = Raid6
      then (case compute_raid6_parity (ra_engine a) data (zero_buf len) (zero_buf len) of
              Some (Some p, q) \<Rightarrow> Some (p, q) | _ \<Rightarrow> None)
      else map_option (\<lambda>p. (p, zero_buf len)) (compute_xor_parity (ra_engine a) data len))"

definition parity_writes :: "RaidArray \<Rightarrow> nat \<Rightarrow> nat \<Rightarrow> bytes \<times> bytes \<Rightarrow> (nat \<times> nat \<times> bytes) list" where
  "parity_writes a stripe at pq =
     (p_member (geometry a) stripe, at, fst pq)
     # (if ra_level a = Raid6 then [(q_member (geometry a) stripe, at, snd pq)] else [])"

definition stripe_base :: "RaidArray \<Rightarrow> nat \<Rightarrow> nat" where
  "stripe_base a stripe = RAID_DATA_OFFSET + stripe * ra_stripe_size a"

definition is_full :: "RaidArray \<Rightarrow> Segment list \<Rightarrow> bool" where
  "is_full a segs \<longleftrightarrow> length segs = data_count (geometry a) \<and>
     list_all (\<lambda>s. sg_offset_in_unit s = 0 \<and> sg_len s = ra_stripe_size a) segs"

text \<open>The writes of a full stripe.\<close>

definition full_writes :: "RaidArray \<Rightarrow> Segment list \<Rightarrow> bytes \<Rightarrow> (nat \<times> nat \<times> bytes) list option" where
  "full_writes a segs buf =
     (let stripe = sg_stripe (hd segs); base = stripe_base a stripe;
          data = map (\<lambda>s. slice_of (sg_buf_offset s) (sg_buf_offset s + ra_stripe_size a) buf) segs
      in case column_parity a data (ra_stripe_size a) of
           None \<Rightarrow> None
         | Some pq \<Rightarrow> Some (map (\<lambda>s. (data_member (geometry a) stripe (sg_index s), base, data ! sg_index s)) segs
             @ parity_writes a stripe base pq))"

text \<open>
  One piece of a read-modify-write: the old data and parity are read, the member of the last read
  that failed is failed (the inner \<open>None\<close>: try the stripe again), and the change is written.
\<close>

definition rmw_failed :: "nat \<Rightarrow> nat \<Rightarrow> RaidArray \<Rightarrow> unit option res" where
  "rmw_failed who e a =
     (case fail_member who a of (ok, a) \<Rightarrow> Some (if ok then Inr None else Inl (DriveErr e), a))"

definition rmw_piece :: "bool list \<Rightarrow> Segment \<Rightarrow> bytes \<Rightarrow> RaidArray \<Rightarrow> unit option res" where
  "rmw_piece hs s buf a =
     (let geo = geometry a; stripe = sg_stripe s; m = data_member geo stripe (sg_index s);
          p_m = p_member geo stripe; q_m = q_member geo stripe; at = stripe_base a stripe + sg_offset_in_unit s
      in case dev_read m at (sg_len s) a of (old, a) \<Rightarrow>
         case dev_read p_m at (sg_len s) a of (p, a) \<Rightarrow>
         case p of
           Inl e \<Rightarrow> rmw_failed p_m e a
         | Inr p \<Rightarrow> (case old of
             Inl e \<Rightarrow> rmw_failed m e a
           | Inr old \<Rightarrow>
               case (if ra_level a = Raid6 then dev_read q_m at (sg_len s) a else (Inr (zero_buf (sg_len s)), a)) of
                 (Inl e, a) \<Rightarrow> rmw_failed q_m e a
               | (Inr q, a) \<Rightarrow>
                   let new = seg_data buf s in
                   case xor_in_place (ra_engine a) old new of None \<Rightarrow> None | Some delta \<Rightarrow>
                   case xor_in_place (ra_engine a) p delta of None \<Rightarrow> None | Some p \<Rightarrow>
                   case (if ra_level a = Raid6 then q_update (ra_engine a) q delta (sg_index s) else Some q) of
                     None \<Rightarrow> None
                   | Some q \<Rightarrow>
                       (case issue_writes hs ((m, at, new) # parity_writes a stripe at (p, q)) a of
                          (Inl e, a) \<Rightarrow> Some (Inl e, a)
                        | (Inr _, a) \<Rightarrow> Some (Inr (Some ()), a))))"

fun rmw_pieces :: "bool list \<Rightarrow> Segment list \<Rightarrow> bytes \<Rightarrow> RaidArray \<Rightarrow> unit option res" where
  "rmw_pieces hs [] buf a = Some (Inr (Some ()), a)"
| "rmw_pieces hs (s # segs) buf a =
     then_res (rmw_piece hs s buf a) (\<lambda>r a. if r = None then Some (Inr None, a) else rmw_pieces hs segs buf a)"

text \<open>The writes of a reconstruct-write: the column the pieces span, the new data laid over it.\<close>

definition overlay_piece :: "nat \<Rightarrow> bytes \<Rightarrow> Segment \<Rightarrow> bytes list \<Rightarrow> bytes list" where
  "overlay_piece lo buf s D = D[sg_index s := put (sg_offset_in_unit s - lo) (seg_data buf s) (D ! sg_index s)]"

definition column_lo :: "Segment list \<Rightarrow> nat" where
  "column_lo segs = Min (set (map sg_offset_in_unit segs))"

definition column_hi :: "Segment list \<Rightarrow> nat" where
  "column_hi segs = Max (set (map (\<lambda>s. sg_offset_in_unit s + sg_len s) segs))"

definition reconstruct_writes :: "Segment list \<Rightarrow> bytes \<Rightarrow> RaidArray \<Rightarrow> (nat \<times> nat \<times> bytes) list res" where
  "reconstruct_writes segs buf a =
     (let stripe = sg_stripe (hd segs); lo = column_lo segs; len = column_hi segs - lo in
      case read_column stripe lo len a of (strips, a) \<Rightarrow>
      case recover (ra_engine a) len strips of
        None \<Rightarrow> None
      | Some (Inl _) \<Rightarrow> Some (Inl (too_many a), a)
      | Some (Inr strips) \<Rightarrow>
          (case unwrap_all (ss_data strips) of None \<Rightarrow> None | Some D \<Rightarrow>
             let D = fold (overlay_piece lo buf) segs D; at = stripe_base a stripe + lo in
             case column_parity a D len of None \<Rightarrow> None | Some pq \<Rightarrow>
               Some (Inr (map (\<lambda>s. (data_member (geometry a) stripe (sg_index s), at, D ! sg_index s)) segs
                          @ parity_writes a stripe at pq), a)))"

fun stripe_attempts :: "nat \<Rightarrow> Segment list \<Rightarrow> bytes \<Rightarrow> RaidArray \<Rightarrow> unit res" where
  "stripe_attempts 0 segs buf a = Some (Inl (too_many a), a)"
| "stripe_attempts (Suc n) segs buf a =
     (let geo = geometry a; stripe = sg_stripe (hd segs); hs = ra_holders a ((stripe + 1) * ra_stripe_size a);
          parity_held = (hs ! p_member geo stripe \<and> (ra_level a \<noteq> Raid6 \<or> hs ! q_member geo stripe));
          touched_held = list_all (\<lambda>s. hs ! data_member geo stripe (sg_index s)) segs
      in if is_full a segs
         then (case full_writes a segs buf of None \<Rightarrow> None | Some ws \<Rightarrow>
                 then_res (Some (issue_writes hs ws a)) (\<lambda>_ a. Some (check_after_write a)))
         else if parity_held \<and> touched_held \<and> length segs * 2 \<le> data_count geo
         then then_res (rmw_pieces hs segs buf a)
                (\<lambda>r a. if r = None then stripe_attempts n segs buf a else Some (check_after_write a))
         else then_res (reconstruct_writes segs buf a)
                (\<lambda>ws a. then_res (Some (issue_writes hs ws a)) (\<lambda>_ a. Some (check_after_write a))))"

definition parity_write_stripe :: "Segment list \<Rightarrow> bytes \<Rightarrow> RaidArray \<Rightarrow> unit res" where
  "parity_write_stripe segs buf a = stripe_attempts 3 segs buf a"

text \<open>Every stripe is written, and the first error is the answer.\<close>

fun write_groups :: "Segment list list \<Rightarrow> bytes \<Rightarrow> raid_error option \<Rightarrow> RaidArray \<Rightarrow> unit res" where
  "write_groups [] buf err a = Some (case err of None \<Rightarrow> Inr () | Some e \<Rightarrow> Inl e, a)"
| "write_groups (g # gs) buf err a =
     (case parity_write_stripe g buf a of
        None \<Rightarrow> None
      | Some (r, a) \<Rightarrow> write_groups gs buf (case (err, r) of (None, Inl e) \<Rightarrow> Some e | _ \<Rightarrow> err) a)"

definition parity_write :: "nat \<Rightarrow> bytes \<Rightarrow> RaidArray \<Rightarrow> unit res" where
  "parity_write offset buf a =
     (case segments (geometry a) offset (length buf) of
        None \<Rightarrow> None
      | Some segs \<Rightarrow>
          if segs = [] then Some (Inr (), a)
          else let r = stripe_chunks segs a in
            then_res (intent_begin r a) (\<lambda>_ a.
              case write_groups (stripe_groups segs) buf None a of None \<Rightarrow> None | Some ra \<Rightarrow> finish_write r ra))"

section \<open>The block device\<close>

definition ra_capacity :: "RaidArray \<Rightarrow> nat" where
  "ra_capacity a = capacity (geometry a) (ra_data_size a)"

definition array_read :: "nat \<Rightarrow> nat \<Rightarrow> RaidArray \<Rightarrow> bytes res" where
  "array_read offset len a =
     (if offset + len > ra_capacity a then Some (Inl (OutOfRange offset len (ra_capacity a)), a)
      else case ra_level a of
        Raid1 \<Rightarrow> raid1_read offset len a
      | Raid10 \<Rightarrow> raid10_read offset len a
      | _ \<Rightarrow> parity_read offset len a)"

definition array_write :: "nat \<Rightarrow> bytes \<Rightarrow> RaidArray \<Rightarrow> unit res" where
  "array_write offset buf a =
     (if ra_released a then Some (Inl Released, a)
      else if offset + length buf > ra_capacity a then Some (Inl (OutOfRange offset (length buf) (ra_capacity a)), a)
      else case ra_level a of
        Raid1 \<Rightarrow> raid1_write offset buf a
      | Raid10 \<Rightarrow> raid10_write offset buf a
      | _ \<Rightarrow> parity_write offset buf a)"

fun flush_each :: "nat list \<Rightarrow> RaidArray \<Rightarrow> (nat \<times> (nat + unit)) list \<times> RaidArray" where
  "flush_each [] a = ([], a)"
| "flush_each (i # is) a = (case dev_flush i a of (r, a) \<Rightarrow> case flush_each is a of (rs, a) \<Rightarrow> ((i, r) # rs, a))"

definition flush_members :: "RaidArray \<Rightarrow> (raid_error + unit) \<times> RaidArray" where
  "flush_members a =
     (case flush_each (attached_devices a) a of (rs, a) \<Rightarrow>
      case settle rs a of
        (Inl e, a) \<Rightarrow> (Inl e, a)
      | (Inr _, a) \<Rightarrow> if data_intact a then (Inr (), a) else (Inl (too_many a), a))"

text \<open>\<open>flush\<close>; \<open>before\<close> is the time idle chunks are cleared up to, if the clock reaches that far back.\<close>

definition array_flush :: "nat option \<Rightarrow> RaidArray \<Rightarrow> unit res" where
  "array_flush before a =
     (if ra_released a then Some (Inl Released, a)
      else case flush_members a of (res, a) \<Rightarrow>
        let a = (case (res, before) of
                   (Inr _, Some t) \<Rightarrow>
                     if keeps_bitmap a then a
                     else (case ib_clear_idle t (ra_bitmap a) of (n, b) \<Rightarrow>
                             let a = a\<lparr>ra_bitmap := b\<rparr> in if n > 0 then snd (write_bitmap_pages a) else a)
                 | _ \<Rightarrow> a)
        in map_option (Pair res) (persist_if_dirty a))"

end
