(* ===== verification/RaidFrame.thy ===== *)
theory RaidFrame
  imports RaidArray
begin

text \<open>
  What every operation of the array leaves alone: the shape of the array, who had which device
  and how far a rebuild was, and every byte of the members' data outside the ranges it writes. A
  member's state only ever moves to failed. The metadata in front of the data, superblock and
  bitmap, is written freely.
\<close>

section \<open>Frames\<close>

definition mstate :: "RaidArray \<Rightarrow> nat \<Rightarrow> RaidMemberState" where
  "mstate a i = mb_state (ra_members a ! i)"

definition same_shape :: "RaidArray \<Rightarrow> RaidArray \<Rightarrow> bool" where
  "same_shape a b \<longleftrightarrow> ra_level b = ra_level a \<and> ra_stripe_size b = ra_stripe_size a \<and> ra_data_size b = ra_data_size a \<and>
     ra_engine b = ra_engine a \<and> ra_released b = ra_released a \<and> ra_io b = ra_io a \<and> ra_crc b = ra_crc a \<and>
     length (ra_members b) = length (ra_members a)"

definition member_after :: "Member \<Rightarrow> Member \<Rightarrow> bool" where
  "member_after m m' \<longleftrightarrow> (mb_device m' = None \<longleftrightarrow> mb_device m = None) \<and> mb_rebuilt_to m' = mb_rebuilt_to m \<and>
     mb_uuid m' = mb_uuid m \<and> (mb_state m' = mb_state m \<or> mb_state m' = MFailed)"

text \<open>\<open>W\<close> is the places, member and offset in its data, that may have changed.\<close>

definition evolves :: "(nat \<times> nat) set \<Rightarrow> RaidArray \<Rightarrow> RaidArray \<Rightarrow> bool" where
  "evolves W a b \<longleftrightarrow> same_shape a b \<and> ra_calls a \<le> ra_calls b \<and>
     (\<forall>i < length (ra_members a). member_after (ra_members a ! i) (ra_members b ! i)) \<and>
     (\<forall>i < length (ra_members a). \<forall>x. (i, x) \<notin> W \<longrightarrow>
        dev_bytes i b (RAID_DATA_OFFSET + x) = dev_bytes i a (RAID_DATA_OFFSET + x))"

text \<open>The sizes the operations rely on.\<close>

definition bitmap_wf :: "RaidArray \<Rightarrow> bool" where
  "bitmap_wf a \<longleftrightarrow> bm_ok (ra_bitmap a) \<and> ib_bytes (ra_bitmap a) \<le> BITMAP_MAX_BYTES \<and> 0 < ib_bits (ra_bitmap a)"

definition ra_wf :: "RaidArray \<Rightarrow> bool" where
  "ra_wf a \<longleftrightarrow> geometry_ok (geometry a) \<and> length (ra_members a) \<le> MAX_SLOTS \<and>
     (ra_level a = Raid10 \<longrightarrow> even (length (ra_members a))) \<and> bitmap_wf a"

lemma member_after_refl [simp]: "member_after m m"
  by (simp add: member_after_def)

lemma member_after_trans: "member_after m m' \<Longrightarrow> member_after m' m'' \<Longrightarrow> member_after m m''"
  by (auto simp: member_after_def)

lemma evolves_refl [simp]: "evolves W a a"
  by (simp add: evolves_def same_shape_def)

lemma evolves_mono: "evolves W a b \<Longrightarrow> W \<subseteq> V \<Longrightarrow> evolves V a b"
  unfolding evolves_def by blast

lemma evolves_trans:
  assumes "evolves W a b" "evolves V b c"
  shows "evolves (W \<union> V) a c"
proof -
  have n: "length (ra_members b) = length (ra_members a)" using assms(1) by (simp add: evolves_def same_shape_def)
  have "same_shape a c" "ra_calls a \<le> ra_calls c" using assms by (auto simp: evolves_def same_shape_def)
  moreover have "member_after (ra_members a ! i) (ra_members c ! i)" if "i < length (ra_members a)" for i
  proof (rule member_after_trans)
    show "member_after (ra_members a ! i) (ra_members b ! i)" using assms(1) that by (simp add: evolves_def)
    show "member_after (ra_members b ! i) (ra_members c ! i)" using assms(2) that n by (simp add: evolves_def)
  qed
  moreover have "dev_bytes i c (RAID_DATA_OFFSET + x) = dev_bytes i a (RAID_DATA_OFFSET + x)"
    if "i < length (ra_members a)" "(i, x) \<notin> W \<union> V" for i x
    using assms that n by (auto simp: evolves_def)
  ultimately show ?thesis by (simp add: evolves_def)
qed

lemma evolves_then: "evolves W a b \<Longrightarrow> evolves W b c \<Longrightarrow> evolves W a c"
  using evolves_trans [of W a b W c] by simp

lemma evolves_shape:
  assumes "evolves W a b"
  shows "ra_level b = ra_level a" "ra_stripe_size b = ra_stripe_size a" "ra_data_size b = ra_data_size a"
    "ra_engine b = ra_engine a" "ra_released b = ra_released a" "length (ra_members b) = length (ra_members a)"
    "geometry b = geometry a" "ra_io b = ra_io a" "ra_calls a \<le> ra_calls b" "ra_crc b = ra_crc a"
  using assms by (auto simp: evolves_def same_shape_def geometry_def)

lemma evolves_holds:
  assumes "evolves W a b" "i < length (ra_members a)" "holds (ra_members b ! i) e"
  shows "holds (ra_members a ! i) e"
proof -
  have "member_after (ra_members a ! i) (ra_members b ! i)" using assms(1,2) by (simp add: evolves_def)
  then show ?thesis using assms(3) by (auto simp: member_after_def holds_def split: RaidMemberState.splits)
qed

lemma evolves_failed: "evolves W a b \<Longrightarrow> i < length (ra_members a) \<Longrightarrow> mstate a i = MFailed \<Longrightarrow> mstate b i = MFailed"
  by (auto simp: evolves_def member_after_def mstate_def)

lemma failed_holds: "mstate a i = MFailed \<Longrightarrow> \<not> holds (ra_members a ! i) e"
  by (simp add: mstate_def holds_def)

lemma holder_at: "i < length (ra_members a) \<Longrightarrow> ra_holders a e ! i \<longleftrightarrow> holds (ra_members a ! i) e"
  by (simp add: ra_holders_def)

text \<open>Changes that are in neither the members nor the shape.\<close>

lemma evolves_bitmap [simp]: "evolves W a (b\<lparr>ra_bitmap := m\<rparr>) = evolves W a b"
  by (simp add: evolves_def same_shape_def dev_bytes_def)

lemma evolves_dirty [simp]: "evolves W a (b\<lparr>ra_sb_dirty := d\<rparr>) = evolves W a b" "evolves W (a\<lparr>ra_sb_dirty := d\<rparr>) b = evolves W a b"
  "evolves W (a\<lparr>ra_bitmap := m\<rparr>) b = evolves W a b"
  "evolves W (a\<lparr>ra_read_counter := k\<rparr>) b = evolves W a b" "evolves W a (b\<lparr>ra_read_counter := k\<rparr>) = evolves W a b"
  by (simp_all add: evolves_def same_shape_def dev_bytes_def)

text \<open>The bitmap is changed by its own operations only.\<close>

definition keeps_bm :: "RaidArray \<Rightarrow> RaidArray \<Rightarrow> bool" where
  "keeps_bm a b \<longleftrightarrow> ra_bitmap b = ra_bitmap a"

lemma keeps_bm_refl [simp]: "keeps_bm a a" by (simp add: keeps_bm_def)

lemma keeps_bm_trans: "keeps_bm a b \<Longrightarrow> keeps_bm b c \<Longrightarrow> keeps_bm a c" by (simp add: keeps_bm_def)

lemma ra_wf_evolves: "ra_wf a \<Longrightarrow> evolves W a b \<Longrightarrow> bitmap_wf b \<Longrightarrow> ra_wf b"
  using evolves_shape [of W a b] by (simp add: ra_wf_def)

lemma ra_wf_keeps: "ra_wf a \<Longrightarrow> evolves W a b \<Longrightarrow> keeps_bm a b \<Longrightarrow> ra_wf b"
  by (rule ra_wf_evolves) (simp_all add: ra_wf_def bitmap_wf_def keeps_bm_def)

section \<open>Device calls\<close>

definition in_range :: "nat \<Rightarrow> nat \<Rightarrow> nat \<Rightarrow> (nat \<times> nat) set" where
  "in_range i at n = {(i, x) | x. at \<le> RAID_DATA_OFFSET + x \<and> RAID_DATA_OFFSET + x < at + n}"

lemma in_range_front: "at + n \<le> RAID_DATA_OFFSET \<Longrightarrow> in_range i at n = {}"
  by (auto simp: in_range_def)

lemma in_range_data: "(j, x) \<in> in_range i (RAID_DATA_OFFSET + at) n \<longleftrightarrow> j = i \<and> at \<le> x \<and> x < at + n"
  by (auto simp: in_range_def)

lemma next_io_evolves: "next_io a = (r, b) \<Longrightarrow> evolves W a b \<and> keeps_bm a b \<and> ra_members b = ra_members a \<and> r = ra_io a (ra_calls a)"
  by (auto simp: next_io_def evolves_def same_shape_def keeps_bm_def dev_bytes_def)

lemma dev_read_spec:
  assumes "dev_read i at len a = (r, b)"
  shows "evolves {} a b" "keeps_bm a b" "ra_members b = ra_members a" "r = Inr bs \<Longrightarrow> bs = map (dev_bytes i a) [at..<at + len]"
  using assms next_io_evolves [of a _ _ "{}"] unfolding dev_read_def
  by (auto split: prod.splits io_outcome.splits) (metis dev_bytes_def)

lemma set_bytes_evolves:
  assumes "i < length (ra_members a)" "mb_device (ra_members a ! i) \<noteq> None"
  shows "evolves (in_range i at n) a (set_bytes i (patch at n new (dev_bytes i a)) a)"
  using assms by (auto simp: evolves_def same_shape_def set_bytes_def set_member_def nth_list_update member_after_def
      dev_bytes_def patch_def in_range_def)

lemma dev_write_spec:
  assumes "dev_write i at bs a = (r, b)" "i < length (ra_members a)" "mb_device (ra_members a ! i) \<noteq> None"
  shows "evolves (in_range i at (length bs)) a b" "keeps_bm a b" "mstate b = mstate a"
    "\<not> isl r \<Longrightarrow> k < length bs \<Longrightarrow> dev_bytes i b (at + k) = bs ! k"
proof -
  obtain o' c where n: "next_io a = (o', c)" by (metis surj_pair)
  note c = next_io_evolves [OF n]
  have m: "ra_members c = ra_members a" using c by simp
  have s: "evolves (in_range i at (length bs)) c (set_bytes i (patch at (length bs) new (dev_bytes i c)) c)" for new
    by (rule set_bytes_evolves) (use assms m in simp_all)
  have e: "evolves (in_range i at (length bs)) a (set_bytes i (patch at (length bs) new (dev_bytes i c)) c)" for new
    using evolves_then [OF _ s] c by blast
  show "evolves (in_range i at (length bs)) a b" "keeps_bm a b" "mstate b = mstate a"
    using assms(1,2) e c m unfolding dev_write_def n
    by (auto split: io_outcome.splits simp: keeps_bm_def set_bytes_def set_member_def mstate_def fun_eq_iff nth_list_update)
  show "dev_bytes i b (at + k) = bs ! k" if "\<not> isl r" "k < length bs"
    using assms(1,2) that m unfolding dev_write_def n
    by (auto split: io_outcome.splits simp: set_bytes_def set_member_def dev_bytes_def patch_def)
qed

lemma dev_flush_spec: "dev_flush i a = (r, b) \<Longrightarrow> evolves {} a b \<and> keeps_bm a b \<and> ra_members b = ra_members a"
  unfolding dev_flush_def using next_io_evolves [of a _ _ "{}"] by (auto split: prod.splits io_outcome.splits)

section \<open>Failing members\<close>

lemma evolves_events [simp]: "evolves W a (b\<lparr>ra_events := k\<rparr>) = evolves W a b"
  by (simp add: evolves_def same_shape_def dev_bytes_def)

lemma set_member_failed:
  assumes "i < length (ra_members a)" "mb_device m = mb_device (ra_members a ! i)" "mb_rebuilt_to m = mb_rebuilt_to (ra_members a ! i)"
    "mb_uuid m = mb_uuid (ra_members a ! i)" "mb_state m = MFailed"
  shows "evolves {} a (set_member i m a)"
proof -
  have "member_after (ra_members a ! i) m" using assms by (simp add: member_after_def)
  moreover have "dev_bytes j (set_member i m a) = dev_bytes j a" for j
    using assms(1,2) by (cases "j = i") (simp_all add: dev_bytes_def set_member_def)
  moreover have "member_after (ra_members a ! j) ((ra_members a)[i := m] ! j)" for j
    using assms(1) calculation(1) by (cases "j = i") simp_all
  ultimately show ?thesis by (simp add: evolves_def same_shape_def) (simp add: set_member_def)
qed

lemma fail_member_spec:
  assumes "fail_member i a = (ok, b)"
  shows "evolves {} a b" "keeps_bm a b" "ok \<Longrightarrow> mstate b i = MFailed" "\<not> ok \<Longrightarrow> b = a"
    "ra_calls b = ra_calls a" "j \<noteq> i \<Longrightarrow> ra_members b ! j = ra_members a ! j"
proof -
  let ?m = "ra_members a ! i"
  let ?m' = "?m\<lparr>mb_state := MFailed, mb_missing := False \<and> mb_state ?m \<noteq> MRebuilding, mb_missing_at := ra_events a + 1\<rparr>"
  consider "\<not> ok" "b = a" | "ok" "i < length (ra_members a)"
      "b = (set_member i ?m' a)\<lparr>ra_events := ra_events a + 1, ra_sb_dirty := True\<rparr>"
    using assms unfolding fail_member_def fail_member_as_def Let_def
    by (cases "i < length (ra_members a)"; cases "mb_state ?m = MFailed"; cases "mb_state ?m \<noteq> MRebuilding \<and> \<not> can_lose a i") auto
  then have "evolves {} a b \<and> keeps_bm a b \<and> (ok \<longrightarrow> mstate b i = MFailed) \<and> (\<not> ok \<longrightarrow> b = a) \<and>
      ra_calls b = ra_calls a \<and> (j \<noteq> i \<longrightarrow> ra_members b ! j = ra_members a ! j)"
  proof cases
    case 2
    then show ?thesis using set_member_failed [OF 2(2), of ?m'] by (simp add: keeps_bm_def mstate_def set_member_def)
  qed simp
  then show "evolves {} a b" "keeps_bm a b" "ok \<Longrightarrow> mstate b i = MFailed" "\<not> ok \<Longrightarrow> b = a"
    "ra_calls b = ra_calls a" "j \<noteq> i \<Longrightarrow> ra_members b ! j = ra_members a ! j" by simp_all
qed

lemma settle_spec:
  assumes "settle rs a = (r, b)"
  shows "evolves {} a b \<and> keeps_bm a b \<and> ra_calls b = ra_calls a \<and>
    (r = Inr () \<longrightarrow> (\<forall>(i, q) \<in> set rs. isl q \<longrightarrow> i < length (ra_members a) \<longrightarrow> mstate b i = MFailed))"
  using assms
proof (induction rs a rule: settle.induct)
  case (1 a)
  then show ?case by simp
next
  case (2 i q rs a)
  show ?case
  proof (cases q)
    case (Inr x)
    then show ?thesis using 2 by simp
  next
    case (Inl e)
    obtain ok c where f: "fail_member i a = (ok, c)" by (metis surj_pair)
    note c = fail_member_spec [OF f]
    show ?thesis
    proof (cases ok)
      case True
      then have s: "settle rs c = (r, b)" using 2(3) Inl f by simp
      note ih = 2(1) [OF Inl f [symmetric] True s]
      have bc: "evolves {} c b" using ih by simp
      have ab: "evolves {} a b" using evolves_then [OF c(1) bc] .
      have "mstate b i = MFailed" if "i < length (ra_members a)"
        using evolves_failed [OF bc] c(3) [OF True] that evolves_shape(6) [OF c(1)] by simp
      then show ?thesis using ab ih c keeps_bm_trans evolves_shape(6) [OF c(1)] by auto
    next
      case False
      then show ?thesis using 2(3) Inl f c by auto
    qed
  qed
qed

section \<open>Metadata\<close>

definition has_device :: "RaidArray \<Rightarrow> nat \<Rightarrow> bool" where
  "has_device a i \<longleftrightarrow> i < length (ra_members a) \<and> mb_device (ra_members a ! i) \<noteq> None"

lemma has_device_evolves: "evolves W a b \<Longrightarrow> has_device b i = has_device a i"
  using evolves_shape(6) [of W a b] by (auto simp: has_device_def evolves_def member_after_def)

lemma attached_has_device: "i \<in> set (attached_devices a) \<Longrightarrow> has_device a i"
  by (simp add: attached_devices_def has_device_def attached_def)

text \<open>An operation on the metadata in front of the data.\<close>

definition quiet :: "RaidArray \<Rightarrow> RaidArray \<Rightarrow> bool" where
  "quiet a b \<longleftrightarrow> evolves {} a b \<and> keeps_bm a b"

lemma quiet_refl [simp]: "quiet a a" by (simp add: quiet_def)

lemma quiet_trans [trans]: "quiet a b \<Longrightarrow> quiet b c \<Longrightarrow> quiet a c"
  using evolves_then keeps_bm_trans by (auto simp: quiet_def)

lemma quiet_dirty [simp]: "quiet (a\<lparr>ra_sb_dirty := d\<rparr>) b = quiet a b"
  by (simp add: quiet_def keeps_bm_def)

lemma quiet_device: "quiet a b \<Longrightarrow> has_device b i = has_device a i"
  using has_device_evolves by (auto simp: quiet_def)

lemma quiet_wf: "quiet a b \<Longrightarrow> ra_wf a \<Longrightarrow> ra_wf b"
  using ra_wf_keeps by (auto simp: quiet_def)

lemma quiet_fail: "fail_member i a = (ok, b) \<Longrightarrow> quiet a b"
  unfolding quiet_def using fail_member_spec by blast

lemma quiet_settle: "settle rs a = (r, b) \<Longrightarrow> quiet a b"
  unfolding quiet_def using settle_spec by blast

lemma quiet_dev_flush: "dev_flush i a = (r, b) \<Longrightarrow> quiet a b"
  unfolding quiet_def using dev_flush_spec by blast

lemma quiet_dev_read: "dev_read i at len a = (r, b) \<Longrightarrow> quiet a b"
  unfolding quiet_def using dev_read_spec by blast

lemma quiet_dev_write:
  assumes "dev_write i at bs a = (r, b)" "has_device a i" "at + length bs \<le> RAID_DATA_OFFSET"
  shows "quiet a b"
  using dev_write_spec [OF assms(1)] assms(2,3) by (simp add: quiet_def has_device_def in_range_front)

lemma quiet_sb_settle: "sb_settle rs again a = (r, b) \<Longrightarrow> quiet a b"
proof (induction rs again a rule: sb_settle.induct)
  case (2 i q rs again a)
  then show ?case
    by (auto split: sum.splits prod.splits if_splits intro: quiet_trans dest: quiet_fail)
qed simp

lemma quiet_write_each:
  assumes "write_each ws a = (rs, b)" "\<forall>(i, at, bs) \<in> set ws. has_device a i \<and> at + length bs \<le> RAID_DATA_OFFSET"
  shows "quiet a b"
  using assms
proof (induction ws a arbitrary: rs rule: write_each.induct)
  case (2 i at bs ws a)
  obtain r c where w: "dev_write i at bs a = (r, c)" by (metis surj_pair)
  obtain r' d where f: "(case r of Inr _ \<Rightarrow> dev_flush i c | Inl e \<Rightarrow> (Inl e, c)) = (r', d)" by (metis surj_pair)
  obtain rs' where e: "write_each ws d = (rs', b)" using 2(2) w f by (auto split: prod.splits)
  have ac: "quiet a c" using quiet_dev_write [OF w] 2(3) by simp
  have cd: "quiet c d" using f by (auto split: sum.splits dest: quiet_dev_flush)
  have "quiet d b"
    using 2(1) [OF w [symmetric] f [symmetric] e] 2(3) quiet_device [OF ac] quiet_device [OF cd] by auto
  then show ?case using ac cd quiet_trans by blast
qed simp

lemma sb_bytes_length: "sb_to_bytes crc sb = Some b \<Longrightarrow> length b = 4096"
  by (auto simp: sb_to_bytes_def Let_def split: if_splits)

lemma unwrap_all_map:
  "\<forall>x \<in> set xs. f x \<noteq> None \<Longrightarrow> unwrap_all (map f xs) = Some (map (the \<circ> f) xs)"
  by (induction xs) auto

lemma sb_rounds_spec:
  "length (ra_members a) \<le> MAX_SLOTS \<Longrightarrow> \<exists>r b. sb_rounds n a = Some (r, b) \<and> quiet a b"
proof (induction n arbitrary: a)
  case 0
  then show ?case by simp
next
  case (Suc n)
  define c where "c = a\<lparr>ra_sb_dirty := False\<rparr>"
  have ac: "quiet a x" if "quiet c x" for x using that by (simp add: c_def)
  let ?f = "\<lambda>i. map_option (\<lambda>b. (i, 0 :: nat, b)) (sb_to_bytes (ra_crc c) (superblock_for c i))"
  have some: "\<exists>b. sb_to_bytes (ra_crc c) (superblock_for c i) = Some b" for i
    using Suc.prems by (simp add: sb_to_bytes_def superblock_for_def c_def Let_def)
  have "\<forall>i \<in> set (attached_devices c). ?f i \<noteq> None" using some by (metis option.map_disc_iff option.distinct(1))
  note u = unwrap_all_map [OF this]
  obtain rs d where w: "write_each (map (the \<circ> ?f) (attached_devices c)) c = (rs, d)"
    by (cases "write_each (map (the \<circ> ?f) (attached_devices c)) c")
  have cd: "quiet c d"
  proof (rule quiet_write_each [OF w], clarify)
    fix i at bs assume "(i, at, bs) \<in> set (map (the \<circ> ?f) (attached_devices c))"
    then obtain j b where j: "j \<in> set (attached_devices c)" "(i, at, bs) = the (?f j)" by auto
    then obtain b where "sb_to_bytes (ra_crc c) (superblock_for c j) = Some b" using some by blast
    then show "has_device c i \<and> at + length bs \<le> RAID_DATA_OFFSET"
      using j attached_has_device sb_bytes_length by (auto simp: RAID_DATA_OFFSET_def)
  qed
  obtain q e where s: "sb_settle rs False d = (q, e)" by (metis surj_pair)
  have ce: "quiet c e" using quiet_trans [OF cd quiet_sb_settle [OF s]] .
  have len: "length (ra_members e) = length (ra_members a)" using evolves_shape(6) ac [OF ce] by (auto simp: quiet_def)
  have eq: "sb_rounds (Suc n) a = (case (q, e) of (Inl x, e) \<Rightarrow> Some (Inl x, e)
      | (Inr again, e) \<Rightarrow> if again then sb_rounds n e else Some (Inr (), e))"
    using u w s by (simp add: c_def [symmetric])
  show ?case
  proof (cases "q = Inr True")
    case True
    then show ?thesis using Suc.IH [of e] Suc.prems len eq ac [OF ce] quiet_trans by auto
  next
    case False
    then show ?thesis using eq ac [OF ce] by (cases q) auto
  qed
qed

lemma persist_spec:
  assumes "ra_wf a"
  shows "\<exists>b. persist_if_dirty a = Some b \<and> quiet a b"
proof -
  obtain r b where "sb_rounds (MAX_SLOTS + 1) a = Some (r, b)" "quiet a b"
    using sb_rounds_spec [of a "MAX_SLOTS + 1"] assms unfolding ra_wf_def by blast
  then show ?thesis by (simp add: persist_if_dirty_def write_superblocks_def)
qed

lemma quiet_write_pages:
  assumes "write_pages i w a = (r, b)" "has_device a i" "\<forall>(p, bs) \<in> set w. BITMAP_OFFSET + p * PAGE + length bs \<le> RAID_DATA_OFFSET"
  shows "quiet a b"
  using assms
proof (induction i w a rule: write_pages.induct)
  case (1 i a)
  then show ?case using quiet_dev_flush by simp
next
  case (2 i p bs ps a)
  obtain q c where w: "dev_write i (BITMAP_OFFSET + p * PAGE) bs a = (q, c)" by (metis surj_pair)
  have ac: "quiet a c" using quiet_dev_write [OF w] 2(3,4) by simp
  show ?case
  proof (cases q)
    case (Inl e)
    then show ?thesis using 2(2) w ac by simp
  next
    case (Inr u)
    then show ?thesis using 2(1) [OF w [symmetric] Inr] 2(2-4) w ac quiet_device [OF ac] quiet_trans by auto
  qed
qed

lemma quiet_pages_each:
  assumes "pages_each is w a = (rs, b)" "\<forall>i \<in> set is. has_device a i" "\<forall>(p, bs) \<in> set w. BITMAP_OFFSET + p * PAGE + length bs \<le> RAID_DATA_OFFSET"
  shows "quiet a b"
  using assms
proof (induction "is" w a arbitrary: rs rule: pages_each.induct)
  case (2 i "is" w a)
  obtain q c where p: "write_pages i w a = (q, c)" by (metis surj_pair)
  obtain rs' where e: "pages_each is w c = (rs', b)" using 2(2) p by (auto split: prod.splits)
  have ac: "quiet a c" using quiet_write_pages [OF p] 2(3,4) by simp
  then show ?case using 2(1) [OF p [symmetric] e] 2(3,4) quiet_device [OF ac] quiet_trans by auto
qed simp

text \<open>Every wanted bit is in a page that is pending or durable already.\<close>

lemma commit_pending:
  assumes "bm_ok b" "c < 8 * ib_bytes b"
  shows "ib_durable (ib_commit (ib_pending b) b) ! c = ib_wanted b ! c"
proof -
  have len: "length (ib_durable b) = 8 * ib_bytes b" "length (ib_wanted b) = 8 * ib_bytes b" and dvd: "PAGE dvd ib_bytes b"
    using assms(1) by (simp_all add: bm_ok_def)
  have pages: "\<forall>pb \<in> set (ib_pending b). length (snd pb) = PAGE" using pending_pages [OF assms(1)] by blast
  consider pb where "pb \<in> set (ib_pending b)" "fst pb = page_of c"
        "ib_durable (ib_commit (ib_pending b) b) ! c = dbit (snd pb) (c mod BITS_PER_PAGE)"
    | "\<forall>pb \<in> set (ib_pending b). fst pb \<noteq> page_of c" "ib_durable (ib_commit (ib_pending b) b) ! c = ib_durable b ! c"
    using commit_effect [OF len(1) pages] assms(2) unfolding len(1) by blast
  then show ?thesis
  proof cases
    case 1
    then show ?thesis using pending_pages [OF assms(1) 1(1)] assms(2) by metis
  next
    case 2
    let ?p = "page_of c" and ?k = "c mod BITS_PER_PAGE"
    have c: "c = ?p * PAGE * 8 + ?k"
      using div_mult_mod_eq [of c "PAGE * 8"] by (simp only: page_of_def BITS_PER_PAGE_def mult.assoc)
    have k: "?k < PAGE * 8" by (simp add: BITS_PER_PAGE_def PAGE_def)
    have "?p < ib_bytes b div PAGE"
    proof -
      have "(ib_bytes b div PAGE) * BITS_PER_PAGE = 8 * ib_bytes b"
        using dvd_div_mult_self [OF dvd] by (simp add: BITS_PER_PAGE_def)
      then have "c < (ib_bytes b div PAGE) * BITS_PER_PAGE" using assms(2) by simp
      then show ?thesis unfolding page_of_def by (simp add: less_mult_imp_div_less)
    qed
    moreover have "?p \<notin> fst ` set (ib_pending b)" using 2(1) by auto
    moreover have "fst ` set (ib_pending b) = {p \<in> {..<ib_bytes b div PAGE}.
        slice_of (p * PAGE * 8) (p * PAGE * 8 + PAGE * 8) (ib_wanted b) \<noteq> slice_of (p * PAGE * 8) (p * PAGE * 8 + PAGE * 8) (ib_durable b)
        \<or> p \<in> ib_stale b}"
      by (auto simp: ib_pending_def image_image)
    ultimately have eq: "slice_of (?p * PAGE * 8) (?p * PAGE * 8 + PAGE * 8) (ib_wanted b)
        = slice_of (?p * PAGE * 8) (?p * PAGE * 8 + PAGE * 8) (ib_durable b)" by blast
    have "slice_of (?p * PAGE * 8) (?p * PAGE * 8 + PAGE * 8) xs ! ?k = xs ! c" if "length xs = 8 * ib_bytes b" for xs :: "bool list"
      using nth_slice [of "?p * PAGE * 8" ?k xs "?p * PAGE * 8 + PAGE * 8"] c k that assms(2) by simp
    then show ?thesis using eq len 2(2) by metis
  qed
qed

lemma commit_wf: "bm_ok b \<Longrightarrow> bm_ok (ib_commit (ib_pending b) b) \<and> ib_bytes (ib_commit (ib_pending b) b) = ib_bytes b \<and>
    ib_bits (ib_commit (ib_pending b) b) = ib_bits b \<and> ib_wanted (ib_commit (ib_pending b) b) = ib_wanted b"
proof -
  assume ok: "bm_ok b"
  then have "\<forall>pb \<in> set (ib_pending b). length (snd pb) = PAGE" using pending_pages by blast
  then show ?thesis using commit_effect [of b "ib_pending b"] ok unfolding bm_ok_def by auto
qed

lemma pending_fits:
  assumes "bitmap_wf a" "(p, bs) \<in> set (ib_pending (ra_bitmap a))"
  shows "BITMAP_OFFSET + p * PAGE + length bs \<le> RAID_DATA_OFFSET"
proof -
  have ok: "bm_ok (ra_bitmap a)" "ib_bytes (ra_bitmap a) \<le> BITMAP_MAX_BYTES" using assms(1) by (simp_all add: bitmap_wf_def)
  have "p < ib_bytes (ra_bitmap a) div PAGE" using assms(2) by (auto simp: ib_pending_def)
  then have "(p + 1) * PAGE \<le> ib_bytes (ra_bitmap a)"
    by (metis Suc_eq_plus1 Suc_leI div_times_less_eq_dividend le_trans mult_le_mono1)
  moreover have "length bs = PAGE" using pending_pages [OF ok(1) assms(2)] by (metis snd_conv)
  ultimately show ?thesis using ok(2) by (simp add: BITMAP_MAX_BYTES_def RAID_DATA_OFFSET_def BITMAP_OFFSET_def)
qed

lemma write_bitmap_pages_spec:
  assumes "write_bitmap_pages a = (r, b)" "ra_wf a"
  shows "evolves {} a b \<and> ra_wf b \<and> ib_wanted (ra_bitmap b) = ib_wanted (ra_bitmap a) \<and> ib_bytes (ra_bitmap b) = ib_bytes (ra_bitmap a) \<and>
    (r = Inr () \<longrightarrow> \<not> ra_released a \<longrightarrow>
       (\<forall>c < 8 * ib_bytes (ra_bitmap a). ib_durable (ra_bitmap b) ! c = ib_wanted (ra_bitmap a) ! c))"
proof -
  let ?w = "ib_pending (ra_bitmap a)"
  have wf: "bitmap_wf a" "bm_ok (ra_bitmap a)" using assms(2) by (simp_all add: ra_wf_def bitmap_wf_def)
  consider "ra_released a" "b = a" | "\<not> ra_released a" "?w = []" "b = a"
    | "\<not> ra_released a" "?w \<noteq> []" by (use assms(1) in \<open>auto simp: write_bitmap_pages_def Let_def split: if_splits\<close>)
  then show ?thesis
  proof cases
    case 1
    then show ?thesis using assms(2) by simp
  next
    case 2
    then show ?thesis using assms(2) commit_pending [OF wf(2)] by (simp add: ib_commit_def)
  next
    case 3
    obtain rs c where p: "pages_each (attached_devices a) ?w a = (rs, c)" by (metis surj_pair)
    obtain q d where s: "settle rs c = (q, d)" by (metis surj_pair)
    have "quiet a c" by (rule quiet_pages_each [OF p]) (use attached_has_device pending_fits [OF wf(1)] in auto)
    then have ad: "quiet a d" using quiet_trans quiet_settle [OF s] by blast
    then have bm: "ra_bitmap d = ra_bitmap a" "ra_wf d" using quiet_wf assms(2) by (auto simp: quiet_def keeps_bm_def)
    define e where "e = d\<lparr>ra_bitmap := ib_commit ?w (ra_bitmap d)\<rparr>"
    have "evolves {} a e" "ra_wf e"
      using ad bm commit_wf [OF wf(2)] by (auto simp: e_def quiet_def ra_wf_def bitmap_wf_def geometry_def)
    then show ?thesis
      using assms(1) 3 p s ad bm commit_wf [OF wf(2)] commit_pending [OF wf(2)]
      by (auto simp: write_bitmap_pages_def e_def [symmetric] quiet_def split: sum.splits if_splits) (auto simp: e_def)
  qed
qed

lemma chunks_ok:
  assumes "bitmap_wf a"
  shows "distinct (ib_chunks (ra_bitmap a) off len)" "c \<in> set (ib_chunks (ra_bitmap a) off len) \<Longrightarrow> c < ib_bits (ra_bitmap a)"
proof -
  have "min x (ib_bits (ra_bitmap a) - 1) < ib_bits (ra_bitmap a)" for x using assms by (auto simp: bitmap_wf_def)
  then show "c \<in> set (ib_chunks (ra_bitmap a) off len) \<Longrightarrow> c < ib_bits (ra_bitmap a)"
    unfolding ib_chunks_def Let_def set_upt by (meson atLeastLessThan_iff le_less_trans less_Suc_eq_le)
qed (simp add: ib_chunks_def Let_def)

lemma end_wf: "ra_wf a \<Longrightarrow> distinct r \<Longrightarrow> ra_wf (a\<lparr>ra_bitmap := ib_end t r (ra_bitmap a)\<rparr>)"
  using end_effect [of r t "ra_bitmap a"] by (simp add: ra_wf_def bitmap_wf_def geometry_def bm_ok_def)

lemma intent_begin_spec:
  assumes "ra_wf a" "distinct r" "\<forall>c \<in> set r. c < ib_bits (ra_bitmap a)" "\<not> ra_released a"
  shows "\<exists>q b. intent_begin r a = Some (q, b) \<and> evolves {} a b \<and> ra_wf b"
proof -
  have ok: "bm_ok (ra_bitmap a)" "ib_bits (ra_bitmap a) \<le> 8 * ib_bytes (ra_bitmap a)"
    using assms(1) by (simp_all add: ra_wf_def bitmap_wf_def bm_ok_def)
  have r: "\<forall>c \<in> set r. c < 8 * ib_bytes (ra_bitmap a)" using assms(3) ok(2) by (meson less_le_trans)
  obtain need m where m: "ib_begin r (ra_bitmap a) = (need, m)" by (metis surj_pair)
  have eff: "ib_bytes m = ib_bytes (ra_bitmap a)" "ib_bits m = ib_bits (ra_bitmap a)" "bm_ok m" "\<forall>c \<in> set r. ib_wanted m ! c"
    using begin_effect [of r "ra_bitmap a" False need m] m assms(2) r ok unfolding ib_begin_def bm_ok_def by auto
  define b where "b = a\<lparr>ra_bitmap := m\<rparr>"
  have b: "evolves {} a b" "ra_wf b" "\<not> ra_released b" "ra_bitmap b = m"
    using assms(1,4) eff by (simp_all add: b_def ra_wf_def bitmap_wf_def geometry_def)
  have wait: "\<exists>q c. intent_wait r b = Some (q, c) \<and> evolves {} b c \<and> ra_wf c"
  proof (cases "ib_is_durable r (ra_bitmap b)")
    case True
    then show ?thesis using b by (subst intent_wait.simps) simp
  next
    case False
    obtain q c where w: "write_bitmap_pages b = (q, c)" by (metis surj_pair)
    note c = write_bitmap_pages_spec [OF w b(2)]
    show ?thesis
    proof (cases q)
      case (Inl e)
      then show ?thesis using False w c end_wf [of c r "ra_now c"] assms(2) by (subst intent_wait.simps) simp
    next
      case (Inr u)
      then have "ib_is_durable r (ra_bitmap c)" using c b(3,4) eff r by (auto simp: ib_is_durable_def list_all_iff)
      then show ?thesis using False Inr w c by (subst intent_wait.simps, simp, subst intent_wait.simps, simp)
    qed
  qed
  show ?thesis
  proof (cases need)
    case True
    then show ?thesis using wait b(1) evolves_then m by (auto simp: intent_begin_def b_def [symmetric] Let_def)
  next
    case False
    then show ?thesis using b m by (simp add: intent_begin_def b_def [symmetric] Let_def)
  qed
qed

lemma finish_write_spec:
  assumes "ra_wf a" "distinct r"
  shows "\<exists>b. finish_write r (q, a) = Some (q, b) \<and> evolves {} a b \<and> ra_wf b"
proof -
  note e = end_wf [OF assms, of "ra_now a"]
  obtain b where b: "persist_if_dirty (a\<lparr>ra_bitmap := ib_end (ra_now a) r (ra_bitmap a)\<rparr>) = Some b"
      "quiet (a\<lparr>ra_bitmap := ib_end (ra_now a) r (ra_bitmap a)\<rparr>) b" using persist_spec [OF e] by blast
  then show ?thesis using quiet_wf [OF b(2) e] by (simp add: finish_write_def quiet_def)
qed

lemma finish_read_spec: "ra_wf a \<Longrightarrow> \<exists>b. finish_read (q, a) = Some (q, b) \<and> evolves {} a b \<and> ra_wf b"
  using persist_spec [of a] quiet_wf unfolding finish_read_def quiet_def by fastforce

end
