(* ===== verification/RecoverTotal.thy ===== *)
theory RecoverTotal
  imports RaidParity
begin

text \<open>
  Recovery of a stripe never panics on strips of the right length, whatever bytes they hold: the
  parities of a stripe whose last write was cut short need not belong to its data.
\<close>

definition strip_ok :: "nat \<Rightarrow> bytes option \<Rightarrow> bool" where
  "strip_ok len d = (case d of Some c \<Rightarrow> length c = len | None \<Rightarrow> True)"

definition shaped :: "nat \<Rightarrow> bool \<Rightarrow> nat \<Rightarrow> StripeStrips \<Rightarrow> bool" where
  "shaped len raid6 n s \<longleftrightarrow> length (ss_data s) = n \<and> (\<forall>k < n. strip_ok len (ss_data s ! k)) \<and> strip_ok len (ss_p s) \<and>
     (if raid6 then \<exists>q. ss_q s = Some q \<and> strip_ok len q else ss_q s = None)"

definition whole_data :: "nat \<Rightarrow> nat \<Rightarrow> StripeStrips \<Rightarrow> bool" where
  "whole_data len n s \<longleftrightarrow> (\<exists>D. ss_data s = map Some D \<and> length D = n \<and> (\<forall>c \<in> set D. length c = len))"

lemma damaged_shaped: "damaged len raid6 D s \<Longrightarrow> \<forall>c \<in> set D. length c = len \<Longrightarrow> shaped len raid6 (length D) s"
  by (fastforce simp: damaged_def lost_of_def shaped_def strip_ok_def split: if_splits)

lemma whole_dataI:
  assumes "length xs = n" "\<forall>k < n. xs ! k \<noteq> None \<and> strip_ok len (xs ! k)"
  shows "whole_data len n (s\<lparr>ss_data := xs\<rparr>)"
proof -
  have "xs = map Some (map the xs)" using assms by (intro nth_equalityI) auto
  moreover have "length c = len" if "c \<in> set (map the xs)" for c
    using that assms by (force simp: in_set_conv_nth strip_ok_def)
  ultimately show ?thesis unfolding whole_data_def using assms(1) by (intro exI [of _ "map the xs"]) simp
qed

lemma nth_update_in: "k < length xs \<Longrightarrow> xs[x := v] ! k = (if k = x then v else xs ! k)"
  by auto

lemma fill_strips:
  assumes "shaped len raid6 n s" "filter (\<lambda>i. ss_data s ! i = None) [0..<length (ss_data s)] = [x]" "length c = len"
  shows "whole_data len n (s\<lparr>ss_data := (ss_data s)[x := Some c]\<rparr>)"
proof (rule whole_dataI)
  have n: "length (ss_data s) = n" using assms(1) by (simp add: shaped_def)
  then show "length ((ss_data s)[x := Some c]) = n" by simp
  have "ss_data s ! k = None \<longleftrightarrow> k = x" if "k < n" for k
    using arg_cong [OF assms(2), of "\<lambda>l. k \<in> set l"] that n by auto
  then show "\<forall>k < n. (ss_data s)[x := Some c] ! k \<noteq> None \<and> strip_ok len ((ss_data s)[x := Some c] ! k)"
    using assms(1,3) n by (auto simp: shaped_def nth_update_in strip_ok_def)
qed

lemma fill_two_strips:
  assumes "shaped len raid6 n s" "filter (\<lambda>i. ss_data s ! i = None) [0..<length (ss_data s)] = [x, y]" "length c = len" "length d = len"
  shows "whole_data len n (s\<lparr>ss_data := (ss_data s)[x := Some c, y := Some d]\<rparr>)"
proof (rule whole_dataI)
  have n: "length (ss_data s) = n" using assms(1) by (simp add: shaped_def)
  then show "length ((ss_data s)[x := Some c, y := Some d]) = n" by simp
  have "ss_data s ! k = None \<longleftrightarrow> k = x \<or> k = y" if "k < n" for k
    using arg_cong [OF assms(2), of "\<lambda>l. k \<in> set l"] that n by auto
  then show "\<forall>k < n. (ss_data s)[x := Some c, y := Some d] ! k \<noteq> None \<and> strip_ok len ((ss_data s)[x := Some c, y := Some d] ! k)"
    using assms(1,3,4) n by (auto simp: shaped_def nth_update_in strip_ok_def)
qed

lemma filled_lengths:
  assumes "shaped len raid6 n s"
  shows "\<forall>c \<in> set (map (strip_or_zero len) (ss_data s)). length c = len"
proof (clarify)
  fix c assume "c \<in> set (map (strip_or_zero len) (ss_data s))"
  then obtain k where "k < n" "c = strip_or_zero len (ss_data s ! k)" using assms by (auto simp: shaped_def in_set_conv_nth)
  then show "length c = len" using assms by (auto simp: shaped_def strip_ok_def strip_or_zero_def zero_buf_def split: option.splits)
qed

lemma recover_one_p_total:
  assumes "shaped len raid6 n s" "filter (\<lambda>i. ss_data s ! i = None) [0..<length (ss_data s)] = [x]" "ss_p s \<noteq> None"
  shows "\<exists>s'. recover_one_p level x s = Some s' \<and> whole_data len n s' \<and> ss_p s' = ss_p s \<and> ss_q s' = ss_q s"
proof -
  obtain p where p: "ss_p s = Some p" "length p = len" using assms(1,3) by (auto simp: shaped_def strip_ok_def)
  have "\<forall>k < length (ss_data s). ss_data s ! k = None \<longleftrightarrow> 0 + k = x"
  proof (intro allI impI)
    fix k assume "k < length (ss_data s)"
    then show "ss_data s ! k = None \<longleftrightarrow> 0 + k = x" using arg_cong [OF assms(2), of "\<lambda>l. k \<in> set l"] by auto
  qed
  moreover have "\<forall>c. Some c \<in> set (ss_data s) \<longrightarrow> length c = len"
    using assms(1) by (fastforce simp: shaped_def strip_ok_def in_set_conv_nth)
  ultimately obtain c where "recover_xor level x 0 p (ss_data s) = Some c" "length c = len"
    using recover_xor_spec [of "ss_data s" 0 x len p level] p(2) by auto
  then show ?thesis using fill_strips [OF assms(1,2)] p(1) by (simp add: recover_one_p_def)
qed

lemma recover_one_q_total:
  assumes "shaped len True n s" "filter (\<lambda>i. ss_data s ! i = None) [0..<length (ss_data s)] = [x]" "ss_q s \<noteq> Some None"
  shows "\<exists>s'. recover_one_q level len x s = Some s' \<and> whole_data len n s' \<and> ss_p s' = ss_p s \<and> ss_q s' = ss_q s"
proof -
  obtain q where q: "ss_q s = Some (Some q)" "length q = len" using assms(1,3) by (auto simp: shaped_def strip_ok_def)
  obtain qx where "q_steps level (zero_buf len) (map (strip_or_zero len) (rev (ss_data s))) = Some qx" "length qx = len"
    using q_steps_spec [OF filled_lengths [OF assms(1)], of level] by (simp flip: rev_map)
  then show ?thesis using fill_strips [OF assms(1,2)] q
    by (simp add: recover_one_q_def xor_in_place_spec gf_scale_spec)
qed

lemma recover_two_total:
  assumes "shaped len True n s" "filter (\<lambda>i. ss_data s ! i = None) [0..<length (ss_data s)] = [x, y]" "ss_p s \<noteq> None" "ss_q s \<noteq> Some None"
  shows "\<exists>s'. recover_two level len x y s = Some s' \<and> whole_data len n s' \<and> ss_p s' = ss_p s \<and> ss_q s' = ss_q s"
proof -
  obtain p q where pq: "ss_p s = Some p" "length p = len" "ss_q s = Some (Some q)" "length q = len"
    using assms(1,3,4) by (auto simp: shaped_def strip_ok_def)
  have "x \<in> set (filter (\<lambda>i. ss_data s ! i = None) [0..<length (ss_data s)])" using assms(2) by simp
  then have "map (strip_or_zero len) (ss_data s) \<noteq> []" by auto
  then have "pq_at level (map (strip_or_zero len) (ss_data s)) (Some (zero_buf len)) (zero_buf len)
      = (Some (map (p_sum (map (strip_or_zero len) (ss_data s))) [0..<len]), map (q_sum (map (strip_or_zero len) (ss_data s))) [0..<len])"
    using filled_lengths [OF assms(1)] by (subst pq_at_spec [where len = len]) auto
  then show ?thesis using fill_two_strips [OF assms(1,2)] pq
    by (simp add: recover_two_def Let_def xor_in_place_spec gf_mul_xor_spec)
qed

text \<open>Every strip is there.\<close>

definition all_strips :: "nat \<Rightarrow> bool \<Rightarrow> nat \<Rightarrow> StripeStrips \<Rightarrow> bool" where
  "all_strips len raid6 n s \<longleftrightarrow> whole_data len n s \<and> (\<exists>p. ss_p s = Some p \<and> length p = len) \<and>
     (raid6 \<longrightarrow> (\<exists>q. ss_q s = Some (Some q) \<and> length q = len))"

lemma recover_parity_total:
  assumes "whole_data len n s" "0 < n" "strip_ok len (ss_p s)" "if raid6 then \<exists>q. ss_q s = Some q \<and> strip_ok len q else ss_q s = None"
  shows "\<exists>s'. recover_parity level len (ss_p s = None) (ss_q s = Some None) s = Some s' \<and> all_strips len raid6 n s'"
proof -
  obtain D where D: "ss_data s = map Some D" "length D = n" "\<forall>c \<in> set D. length c = len" using assms(1) by (auto simp: whole_data_def)
  have ne: "D \<noteq> []" using D(2) assms(2) by auto
  then obtain p where p: "compute_xor_parity level D len = Some p" "length p = len"
    using D(3) xor_strips_nth [OF ne D(3)] by (auto simp: compute_xor_parity_spec)
  have q: "length (snd (pq_at level D None (zero_buf len))) = len" using D(3) ne by (subst pq_at_spec [where len = len]) auto
  show ?thesis
    using assms(3,4) D p q by (cases "ss_p s"; cases "ss_q s = Some None")
      (auto simp: recover_parity_def all_strips_def whole_data_def strip_ok_def)
qed

lemma recover_data_total:
  assumes "shaped len raid6 n s" "xs = filter (\<lambda>i. ss_data s ! i = None) [0..<length (ss_data s)]"
    "lost_strips s \<le> (if raid6 then 2 else 1)"
  shows "\<exists>s'. recover_data level len xs (ss_p s = None) (ss_q s = Some None) s = Some s' \<and> whole_data len n s' \<and>
    ss_p s' = ss_p s \<and> ss_q s' = ss_q s"
proof -
  have n: "length (ss_data s) = n" using assms(1) by (simp add: shaped_def)
  have m: "length xs + of_bool (ss_p s = None) + of_bool (ss_q s = Some None) \<le> (if raid6 then 2 else 1 :: nat)"
    using assms(2,3) by (simp add: lost_strips_def lost_data_length)
  have r5: "\<not> raid6 \<Longrightarrow> ss_q s = None" using assms(1) by (simp add: shaped_def)
  show ?thesis
  proof (cases xs)
    case Nil
    have "ss_data s ! k \<noteq> None" if "k < n" for k
      using arg_cong [OF assms(2), of "\<lambda>l. k \<in> set l"] Nil that n by auto
    then have "whole_data len n (s\<lparr>ss_data := ss_data s\<rparr>)" using assms(1) n by (intro whole_dataI) (auto simp: shaped_def)
    then show ?thesis using Nil by (simp add: recover_data_def)
  next
    case (Cons x ys)
    show ?thesis
    proof (cases ys)
      case Nil
      then have xs: "filter (\<lambda>i. ss_data s ! i = None) [0..<length (ss_data s)] = [x]" using Cons assms(2) by simp
      show ?thesis
      proof (cases "ss_p s = None")
        case True
        then have "raid6" "ss_q s \<noteq> Some None" using m Cons Nil by (auto split: if_splits)
        then show ?thesis using recover_one_q_total [OF _ xs] assms(1) True Cons Nil by (simp add: recover_data_def)
      next
        case False
        then show ?thesis using recover_one_p_total [OF assms(1) xs False] Cons Nil by (simp add: recover_data_def)
      qed
    next
      case (Cons y zs)
      then have *: "xs = [x, y]" "raid6" "ss_p s \<noteq> None" "ss_q s \<noteq> Some None" using m \<open>xs = x # ys\<close> by (auto split: if_splits)
      then have "\<exists>s'. recover_two level len x y s = Some s' \<and> whole_data len n s' \<and> ss_p s' = ss_p s \<and> ss_q s' = ss_q s"
        using recover_two_total [of len n s x y level] assms(1,2) by simp
      then show ?thesis using * by (simp add: recover_data_def)
    qed
  qed
qed

lemma recover_total:
  assumes "shaped len raid6 n s" "0 < n"
  shows "\<exists>r. recover level len s = Some r \<and> (\<forall>s'. r = Inr s' \<longrightarrow> all_strips len raid6 n s')"
proof -
  define xs where "xs = filter (\<lambda>i. ss_data s ! i = None) [0..<length (ss_data s)]"
  have r6: "ss_q s \<noteq> None \<longleftrightarrow> raid6" using assms(1) by (auto simp: shaped_def split: if_splits)
  have m: "lost_strips s = length xs + of_bool (ss_p s = None) + of_bool (ss_q s = Some None)"
    by (simp add: lost_strips_def xs_def lost_data_length)
  show ?thesis
  proof (cases "lost_strips s \<le> (if raid6 then 2 else 1)")
    case False
    then show ?thesis using r6 by (auto simp: recover_def Let_def xs_def [symmetric] m)
  next
    case True
    obtain s' where s': "recover_data level len xs (ss_p s = None) (ss_q s = Some None) s = Some s'" "whole_data len n s'"
        "ss_p s' = ss_p s" "ss_q s' = ss_q s"
      using recover_data_total [OF assms(1) xs_def True] by blast
    have sh: "strip_ok len (ss_p s')" "if raid6 then \<exists>q. ss_q s' = Some q \<and> strip_ok len q else ss_q s' = None"
      using assms(1) s'(3,4) by (simp_all add: shaped_def)
    obtain s'' where s'': "recover_parity level len (ss_p s = None) (ss_q s = Some None) s' = Some s''" "all_strips len raid6 n s''"
      using recover_parity_total [OF s'(2) assms(2) sh] s'(3,4) by auto
    have "recover level len s = Some (Inr s'')"
      using s'(1) s''(1) True r6 by (auto simp: recover_def Let_def xs_def [symmetric] m)
    then show ?thesis using s''(2) by simp
  qed
qed

end
