(* ===== verification/RaidAgree.thy ===== *)
theory RaidAgree
  imports RaidFrame RecoverTotal
begin

text \<open>
  What the members of an array hold for a logical image of it, and that every read of the array
  answers with the image. \<open>agree a L X\<close>: at the member offsets in \<open>X\<close>, every member that the
  array would read holds the byte that the image \<open>L\<close> asks of it. It does not say how many members
  there are; a read of a stripe that too many have left is an error, never other bytes.
\<close>

section \<open>Images\<close>

text \<open>The bytes \<open>[lo, lo + len)\<close> of the data strips of a stripe.\<close>

definition col :: "Geometry \<Rightarrow> (nat \<Rightarrow> u8) \<Rightarrow> nat \<Rightarrow> nat \<Rightarrow> nat \<Rightarrow> bytes list" where
  "col g L s lo len = map (\<lambda>d. map (\<lambda>j. L (s * stripe_bytes g + d * g_unit g + (lo + j))) [0..<len]) [0..<data_count g]"

definition strip_byte :: "Geometry \<Rightarrow> (nat \<Rightarrow> u8) \<Rightarrow> nat \<Rightarrow> StripRole \<Rightarrow> nat \<Rightarrow> u8" where
  "strip_byte g L s role j =
     (case role of
        RoleData d \<Rightarrow> L (s * stripe_bytes g + d * g_unit g + j)
      | RoleP \<Rightarrow> p_sum (col g L s j 1) 0
      | RoleQ \<Rightarrow> q_sum (col g L s j 1) 0)"

definition want :: "Geometry \<Rightarrow> (nat \<Rightarrow> u8) \<Rightarrow> nat \<Rightarrow> nat \<Rightarrow> u8" where
  "want g L i x =
     (case g_level g of
        Raid1 \<Rightarrow> L x
      | Raid10 \<Rightarrow> L (x div g_unit g * stripe_bytes g + (i div 2) * g_unit g + x mod g_unit g)
      | _ \<Rightarrow> strip_byte g L (x div g_unit g) (role_of g (x div g_unit g) i) (x mod g_unit g))"

text \<open>A member of a parity set is read a stripe at a time, of a mirror any range.\<close>

definition hold_end :: "Geometry \<Rightarrow> nat \<Rightarrow> nat" where
  "hold_end g x = (if is_parity g then (x div g_unit g + 1) * g_unit g else x + 1)"

definition agree :: "RaidArray \<Rightarrow> (nat \<Rightarrow> u8) \<Rightarrow> nat set \<Rightarrow> bool" where
  "agree a L X \<longleftrightarrow> (\<forall>i < length (ra_members a). \<forall>x \<in> X. holds (ra_members a ! i) (hold_end (geometry a) x) \<longrightarrow>
     dev_bytes i a (RAID_DATA_OFFSET + x) = want (geometry a) L i x)"

lemma agree_evolves:
  assumes "agree a L X" "evolves W a b"
  shows "agree b L (X - snd ` W)"
proof -
  note sh = evolves_shape [OF assms(2)]
  have "dev_bytes i b (RAID_DATA_OFFSET + x) = want (geometry a) L i x"
    if i: "i < length (ra_members a)" and x: "x \<in> X" "x \<notin> snd ` W" and h: "holds (ra_members b ! i) (hold_end (geometry a) x)" for i x
  proof -
    have "(i, x) \<notin> W" using x(2) by force
    then have "dev_bytes i b (RAID_DATA_OFFSET + x) = dev_bytes i a (RAID_DATA_OFFSET + x)"
      using assms(2) i by (simp add: evolves_def)
    then show ?thesis using assms(1) i x(1) evolves_holds [OF assms(2) i h] by (simp add: agree_def)
  qed
  then show ?thesis using sh by (simp add: agree_def)
qed

lemma agree_same: "agree a L X \<Longrightarrow> evolves {} a b \<Longrightarrow> agree b L X"
  using agree_evolves [of a L X "{}" b] by simp

lemma agree_quiet: "agree a L X \<Longrightarrow> quiet a b \<Longrightarrow> agree b L X"
  using agree_same by (simp add: quiet_def)

lemma agree_mono: "agree a L X \<Longrightarrow> Y \<subseteq> X \<Longrightarrow> agree a L Y"
  by (auto simp: agree_def)

lemma map_upt_shift: "map f [x..<x + n] = map (\<lambda>k. f (x + k)) [0..<n]"
  by (intro nth_equalityI) simp_all

lemma length_col [simp]: "length (col g L s lo len) = data_count g"
  by (simp add: col_def)

lemma col_lengths: "\<forall>c \<in> set (col g L s lo len). length c = len"
  by (auto simp: col_def)

lemma nth_col: "d < data_count g \<Longrightarrow> col g L s lo len ! d = map (\<lambda>j. L (s * stripe_bytes g + d * g_unit g + (lo + j))) [0..<len]"
  by (simp add: col_def)

lemma col_sum: "k < len \<Longrightarrow> p_sum (col g L s lo len) k = p_sum (col g L s (lo + k) 1) 0"
    "k < len \<Longrightarrow> q_sum (col g L s lo len) k = q_sum (col g L s (lo + k) 1) 0"
  by (simp_all add: p_sum_def q_sum_def nth_col)

text \<open>The strip of a column that a role stands for.\<close>

definition strip_of :: "nat \<Rightarrow> bytes list \<Rightarrow> StripRole \<Rightarrow> bytes" where
  "strip_of len D role = (case role of RoleData d \<Rightarrow> D ! d | RoleP \<Rightarrow> map (p_sum D) [0..<len] | RoleQ \<Rightarrow> map (q_sum D) [0..<len])"

definition role_ok :: "Geometry \<Rightarrow> StripRole \<Rightarrow> bool" where
  "role_ok g role = (case role of RoleData d \<Rightarrow> d < data_count g | RoleP \<Rightarrow> True | RoleQ \<Rightarrow> g_level g = Raid6)"

lemma role_of_ok: "geometry_ok g \<Longrightarrow> is_parity g \<Longrightarrow> i < g_n g \<Longrightarrow> role_ok g (role_of g s i)"
  using role_of_data_inverse [of g i s] role_of_q [of g s i] by (auto simp: role_ok_def split: StripRole.splits)

lemma strip_of_col:
  assumes "role_ok g role"
  shows "strip_of len (col g L s lo len) role = map (\<lambda>k. strip_byte g L s role (lo + k)) [0..<len]"
proof (cases role)
  case (RoleData d)
  then show ?thesis using assms by (simp add: strip_of_def strip_byte_def role_ok_def nth_col)
next
  case RoleP
  then show ?thesis by (auto simp: strip_of_def strip_byte_def intro: col_sum(1) [simplified])
next
  case RoleQ
  then show ?thesis by (auto simp: strip_of_def strip_byte_def intro: col_sum(2) [simplified])
qed

lemma want_parity:
  assumes "is_parity g" "j < g_unit g"
  shows "want g L i (s * g_unit g + j) = strip_byte g L s (role_of g s i) j"
proof -
  have "(s * g_unit g + j) div g_unit g = s" "(s * g_unit g + j) mod g_unit g = j" using assms(2) by auto
  then show ?thesis using assms(1) by (auto simp: want_def is_parity_def)
qed

lemma hold_end_parity: "is_parity g \<Longrightarrow> j < g_unit g \<Longrightarrow> hold_end g (s * g_unit g + j) = (s + 1) * g_unit g"
  by (simp add: hold_end_def)

text \<open>The member offsets of a column.\<close>

definition col_at :: "Geometry \<Rightarrow> nat \<Rightarrow> nat \<Rightarrow> nat \<Rightarrow> nat set" where
  "col_at g s lo len = {s * g_unit g + lo ..< s * g_unit g + lo + len}"

text \<open>What a member that holds the stripe has of a column.\<close>

lemma agree_column:
  assumes "agree a L X" "is_parity (geometry a)" "geometry_ok (geometry a)" "i < length (ra_members a)"
    and "lo + len \<le> ra_stripe_size a" "col_at (geometry a) s lo len \<subseteq> X" "ra_holders a ((s + 1) * ra_stripe_size a) ! i"
  shows "map (dev_bytes i a) [RAID_DATA_OFFSET + s * ra_stripe_size a + lo..<RAID_DATA_OFFSET + s * ra_stripe_size a + lo + len]
    = strip_of len (col (geometry a) L s lo len) (role_of (geometry a) s i)"
proof -
  let ?g = "geometry a"
  have u: "g_unit ?g = ra_stripe_size a" "g_n ?g = length (ra_members a)" by (simp_all add: geometry_def)
  have byte: "dev_bytes i a (RAID_DATA_OFFSET + s * ra_stripe_size a + lo + k) = strip_byte ?g L s (role_of ?g s i) (lo + k)" if "k < len" for k
  proof -
    have "s * g_unit ?g + (lo + k) \<in> X" using assms(6) that u by (auto simp: col_at_def)
    moreover have "holds (ra_members a ! i) (hold_end ?g (s * g_unit ?g + (lo + k)))"
      using assms(2,4,5,7) that u by (subst hold_end_parity) (simp_all add: holder_at)
    ultimately have "dev_bytes i a (RAID_DATA_OFFSET + (s * g_unit ?g + (lo + k))) = want ?g L i (s * g_unit ?g + (lo + k))"
      using assms(1,4) by (simp add: agree_def)
    then show ?thesis using want_parity [OF assms(2), of "lo + k" L i s] assms(5) that u by (simp add: add.assoc)
  qed
  have "map (dev_bytes i a) [RAID_DATA_OFFSET + s * ra_stripe_size a + lo..<RAID_DATA_OFFSET + s * ra_stripe_size a + lo + len]
      = map (\<lambda>k. strip_byte ?g L s (role_of ?g s i) (lo + k)) [0..<len]"
    unfolding map_upt_shift by (intro map_cong refl) (simp only: byte set_upt atLeastLessThan_iff)
  then show ?thesis
    using strip_of_col [OF role_of_ok [OF assms(3,2), of i s], of len L s lo] assms(4) u by simp
qed

section \<open>Reading a column\<close>

lemma column_reads_spec:
  assumes "column_reads hs at len is a = (rs, b)"
  shows "quiet a b \<and> ra_members b = ra_members a \<and> map fst rs = is \<and>
    (\<forall>(i, r) \<in> set rs. \<forall>c. r = Inr (Some c) \<longrightarrow> hs ! i \<and> c = map (dev_bytes i a) [at..<at + len])"
  using assms
proof (induction "is" arbitrary: a rs)
  case Nil
  then show ?case by simp
next
  case (Cons i "is")
  let ?step = "if hs ! i then (case dev_read i at len a of (Inr b, a) \<Rightarrow> (Inr (Some b), a) | (Inl e, a) \<Rightarrow> (Inl e, a)) else (Inr None, a)"
  obtain r c where s: "?step = (r, c)" by (cases ?step)
  obtain rs' where rs: "column_reads hs at len is c = (rs', b)" "rs = (i, r) # rs'"
    using Cons.prems s by (auto split: prod.splits)
  have "quiet a c \<and> ra_members c = ra_members a \<and> (\<forall>x. r = Inr (Some x) \<longrightarrow> hs ! i \<and> x = map (dev_bytes i a) [at..<at + len])"
    using s dev_read_spec [of i at len a] quiet_dev_read [of i at len a] by (auto split: if_splits prod.splits sum.splits)
  moreover have "dev_bytes j c = dev_bytes j a" if "ra_members c = ra_members a" for j using that by (simp add: dev_bytes_def)
  ultimately show ?case using Cons.IH [OF rs(1)] rs(2) quiet_trans by auto
qed

lemma damaged_update:
  assumes "damaged len r6 D st" "b = None \<or> b = Some (strip_of len D role)"
    "case role of RoleData d \<Rightarrow> d < length D | RoleP \<Rightarrow> True | RoleQ \<Rightarrow> r6"
  shows "damaged len r6 D (case role of RoleData d \<Rightarrow> st\<lparr>ss_data := (ss_data st)[d := b]\<rparr>
     | RoleP \<Rightarrow> st\<lparr>ss_p := b\<rparr> | RoleQ \<Rightarrow> st\<lparr>ss_q := Some b\<rparr>)"
  using assms by (auto simp: damaged_def lost_of_def strip_of_def nth_list_update split: StripRole.splits)

lemma column_strips_spec:
  assumes "column_strips g s rs st a = (st', b)" "damaged len (g_level g = Raid6) D st" "length D = data_count g"
    "geometry_ok g" "is_parity g"
    "\<forall>(i, r) \<in> set rs. i < g_n g \<and> (\<forall>c. r = Inr (Some c) \<longrightarrow> c = strip_of len D (role_of g s i))"
  shows "quiet a b \<and> damaged len (g_level g = Raid6) D st'"
  using assms(1,2,6)
proof (induction rs arbitrary: st a)
  case Nil
  then show ?case by simp
next
  case (Cons x rs)
  obtain i r where x: "x = (i, r)" by (cases x)
  obtain c e where s: "(case r of Inr b \<Rightarrow> (b, a) | Inl e \<Rightarrow> (None, snd (fail_member i a))) = (c, e)" by fastforce
  let ?st = "case role_of g s i of RoleData d \<Rightarrow> st\<lparr>ss_data := (ss_data st)[d := c]\<rparr>
     | RoleP \<Rightarrow> st\<lparr>ss_p := c\<rparr> | RoleQ \<Rightarrow> st\<lparr>ss_q := Some c\<rparr>"
  have run: "column_strips g s rs ?st e = (st', b)" using Cons.prems(1) s x by simp
  have q: "quiet a e" using s quiet_fail [of i a] by (auto split: sum.splits) (metis prod.collapse)
  have c: "c = None \<or> c = Some (strip_of len D (role_of g s i))" using s Cons.prems(3) x by (cases c) (auto split: sum.splits)
  have "damaged len (g_level g = Raid6) D ?st"
    by (rule damaged_update [OF Cons.prems(2) c])
      (use role_of_ok [OF assms(4,5), of i s] Cons.prems(3) x assms(3) in \<open>auto simp: role_ok_def split: StripRole.splits\<close>)
  then show ?case using Cons.IH [OF run] Cons.prems(3) q quiet_trans by auto
qed

lemma column_strips_shaped:
  assumes "column_strips g s rs st a = (st', b)" "shaped len (g_level g = Raid6) (data_count g) st"
    "geometry_ok g" "is_parity g" "\<forall>(i, r) \<in> set rs. i < g_n g \<and> (\<forall>c. r = Inr (Some c) \<longrightarrow> length c = len)"
  shows "quiet a b \<and> shaped len (g_level g = Raid6) (data_count g) st'"
  using assms(1,2,5)
proof (induction rs arbitrary: st a)
  case Nil
  then show ?case by simp
next
  case (Cons x rs)
  obtain i r where x: "x = (i, r)" by (cases x)
  obtain c e where s: "(case r of Inr b \<Rightarrow> (b, a) | Inl e \<Rightarrow> (None, snd (fail_member i a))) = (c, e)" by fastforce
  let ?st = "case role_of g s i of RoleData d \<Rightarrow> st\<lparr>ss_data := (ss_data st)[d := c]\<rparr>
     | RoleP \<Rightarrow> st\<lparr>ss_p := c\<rparr> | RoleQ \<Rightarrow> st\<lparr>ss_q := Some c\<rparr>"
  have run: "column_strips g s rs ?st e = (st', b)" using Cons.prems(1) s x by simp
  have q: "quiet a e" using s quiet_fail [of i a] by (auto split: sum.splits) (metis prod.collapse)
  have c: "strip_ok len c" using s Cons.prems(3) x by (cases c) (auto simp: strip_ok_def split: sum.splits)
  have "shaped len (g_level g = Raid6) (data_count g) ?st"
    using Cons.prems(2) c role_of_ok [OF assms(3,4), of i s] Cons.prems(3) x
    by (auto simp: shaped_def nth_update_in role_ok_def split: StripRole.splits)
  then show ?case using Cons.IH [OF run] Cons.prems(3) q quiet_trans by auto
qed

lemma read_column_spec:
  assumes "read_column s lo len a = (st, b)" "ra_wf a" "is_parity (geometry a)" "agree a L X" "lo + len \<le> ra_stripe_size a"
  shows "quiet a b \<and> shaped len (ra_level a = Raid6) (data_count (geometry a)) st \<and>
    (col_at (geometry a) s lo len \<subseteq> X \<longrightarrow> damaged len (ra_level a = Raid6) (col (geometry a) L s lo len) st)"
proof -
  let ?hs = "ra_holders a ((s + 1) * ra_stripe_size a)" and ?at = "RAID_DATA_OFFSET + s * ra_stripe_size a + lo"
  let ?g = "geometry a" and ?D = "col (geometry a) L s lo len"
  have g: "geometry_ok ?g" "g_level ?g = ra_level a" "g_n ?g = length (ra_members a)" using assms(2) by (simp_all add: ra_wf_def geometry_def)
  obtain rs c where r: "column_reads ?hs ?at len [0..<length (ra_members a)] a = (rs, c)" by fastforce
  note c = column_reads_spec [OF r]
  have gc: "geometry c = ?g" using c evolves_shape(7) by (auto simp: quiet_def)
  have st: "column_strips ?g s rs (no_strips ?g) c = (st, b)" using assms(1) r gc by (simp add: read_column_def)
  have at: "i < g_n ?g \<and> (\<forall>x. r = Inr (Some x) \<longrightarrow> ?hs ! i \<and> x = map (dev_bytes i a) [?at..<?at + len])" if "(i, r) \<in> set rs" for i r
  proof -
    have "i \<in> set (map fst rs)" using that by force
    then show ?thesis using c g(3) that by auto
  qed
  have "shaped len (g_level ?g = Raid6) (data_count ?g) (no_strips ?g)" by (simp add: shaped_def no_strips_def strip_ok_def)
  moreover have "\<forall>(i, r) \<in> set rs. i < g_n ?g \<and> (\<forall>c. r = Inr (Some c) \<longrightarrow> length c = len)" using at by fastforce
  ultimately have "quiet c b \<and> shaped len (g_level ?g = Raid6) (data_count ?g) st"
    by (rule column_strips_shaped [OF st _ g(1) assms(3)])
  moreover have "damaged len (g_level ?g = Raid6) ?D st" if X: "col_at ?g s lo len \<subseteq> X"
  proof -
    have d0: "damaged len (g_level ?g = Raid6) ?D (no_strips ?g)" by (simp add: damaged_def lost_of_def no_strips_def)
    have "\<forall>(i, r) \<in> set rs. i < g_n ?g \<and> (\<forall>x. r = Inr (Some x) \<longrightarrow> x = strip_of len ?D (role_of ?g s i))"
      using at agree_column [OF assms(4,3) g(1) _ assms(5) X] g(3) by auto
    then show ?thesis using column_strips_spec [OF st d0 _ g(1) assms(3)] by simp
  qed
  ultimately show ?thesis using c g(2) quiet_trans by auto
qed

end
