(* ===== verification/RaidRead.thy ===== *)
theory RaidRead
  imports RaidAgree
begin

text \<open>
  Reads of the array at every level. A read always returns, changes no data, and what it answers
  is the image: from the member that holds a piece, from the rest of the stripe if that member
  does not hold it or fails, from any mirror that holds the range. It never answers other bytes,
  whichever calls fail.
\<close>

section \<open>Pieces\<close>

definition seg_at :: "Geometry \<Rightarrow> Segment \<Rightarrow> nat set" where
  "seg_at g s = col_at g (sg_stripe s) (sg_offset_in_unit s) (sg_len s)"

definition seg_bytes :: "Geometry \<Rightarrow> (nat \<Rightarrow> u8) \<Rightarrow> Segment \<Rightarrow> bytes" where
  "seg_bytes g L s = map L [seg_addr g s..<seg_addr g s + sg_len s]"

lemma seg_bytes_col:
  assumes "sg_index s < data_count g"
  shows "col g L (sg_stripe s) (sg_offset_in_unit s) (sg_len s) ! sg_index s = seg_bytes g L s"
  unfolding seg_bytes_def map_upt_shift by (simp add: nth_col [OF assms] seg_addr_def add.assoc)

lemma segments_spec:
  assumes "geometry_ok g"
  shows "\<exists>ss. segments g offset len = Some ss \<and> (\<forall>s \<in> set ss. seg_ok g offset s) \<and>
    concat (map (\<lambda>s. [seg_addr g s..<seg_addr g s + sg_len s]) ss) = [offset..<offset + len]"
  using assms geometry_n [OF assms] unfolding segments_def
  by (intro segments_loop_spec) (simp_all add: geometry_ok_def)

lemma seg_bytes_concat:
  assumes "concat (map (\<lambda>s. [seg_addr g s..<seg_addr g s + sg_len s]) ss) = [offset..<offset + len]"
  shows "concat (map (seg_bytes g L) ss) = map L [offset..<offset + len]"
  by (simp add: assms [symmetric] map_concat seg_bytes_def [abs_def] comp_def)

text \<open>A piece of a parity set that is not read from its own member.\<close>

lemma data_count_bound: "ra_wf a \<Longrightarrow> data_count (geometry a) \<le> 255"
  by (auto simp: ra_wf_def geometry_def data_count_def MAX_SLOTS_def split: RaidLevel.splits)

lemma recover_column:
  assumes "ra_wf a" "is_parity (geometry a)" "damaged len (ra_level a = Raid6) (col (geometry a) L s lo len) st"
  shows "recover level len st =
    Some (if lost_strips st > tolerated (geometry a)
          then Inl (Unrecoverable (lost_strips st) (tolerated (geometry a)))
          else Inr (full_stripe len (ra_level a = Raid6) (col (geometry a) L s lo len)))"
proof -
  have "tolerated (geometry a) = (if ra_level a = Raid6 then 2 else 1)"
    using assms(2) by (auto simp: tolerated_def is_parity_def geometry_def)
  moreover have "col (geometry a) L s lo len \<noteq> []"
    using geometry_n(2) [of "geometry a"] assms(1) by (auto simp: ra_wf_def col_def)
  ultimately show ?thesis
    using recover_spec [OF _ _ col_lengths assms(3), of level] data_count_bound [OF assms(1)] by simp
qed

lemma degraded_piece_spec:
  assumes "ra_wf a" "is_parity (geometry a)" "agree a L X" "seg_ok (geometry a) off s"
  shows "\<exists>r b. degraded_piece s a = Some (r, b) \<and> quiet a b \<and>
    (\<forall>bs. r = Inr bs \<longrightarrow> seg_at (geometry a) s \<subseteq> X \<longrightarrow> bs = seg_bytes (geometry a) L s)"
proof -
  let ?D = "col (geometry a) L (sg_stripe s) (sg_offset_in_unit s) (sg_len s)"
  obtain st b where c: "read_column (sg_stripe s) (sg_offset_in_unit s) (sg_len s) a = (st, b)" by fastforce
  have ok: "sg_offset_in_unit s + sg_len s \<le> ra_stripe_size a" "sg_index s < data_count (geometry a)"
    using assms(4) by (simp_all add: seg_ok_def geometry_def)
  have q: "quiet a b" "shaped (sg_len s) (ra_level a = Raid6) (data_count (geometry a)) st"
      "seg_at (geometry a) s \<subseteq> X \<Longrightarrow> damaged (sg_len s) (ra_level a = Raid6) ?D st"
    using read_column_spec [OF c assms(1-3) ok(1)] by (simp_all add: seg_at_def)
  obtain r where r: "recover (ra_engine b) (sg_len s) st = Some r" "\<forall>s'. r = Inr s' \<longrightarrow> all_strips (sg_len s) (ra_level a = Raid6) (data_count (geometry a)) s'"
    using recover_total [OF q(2), of "ra_engine b"] geometry_n(2) [of "geometry a"] assms(1) by (auto simp: ra_wf_def)
  show ?thesis
  proof (cases r)
    case (Inl e)
    then show ?thesis using q(1) r by (simp add: degraded_piece_def c)
  next
    case (Inr s')
    then obtain D where D: "ss_data s' = map Some D" "length D = data_count (geometry a)" using r(2) by (auto simp: all_strips_def whole_data_def)
    have "D ! sg_index s = seg_bytes (geometry a) L s" if "seg_at (geometry a) s \<subseteq> X"
      using recover_column [OF assms(1,2) q(3) [OF that], of "ra_engine b"] r(1) Inr D ok(2) seg_bytes_col [OF ok(2), of L]
      by (simp add: full_stripe_def split: if_splits)
    then show ?thesis using q(1) r(1) Inr D ok(2) by (simp add: degraded_piece_def c)
  qed
qed

section \<open>RAID-5 and RAID-6\<close>

lemma piece_read:
  assumes "agree a L X" "is_parity (geometry a)" "geometry_ok (geometry a)" "seg_ok (geometry a) off s" "seg_at (geometry a) s \<subseteq> X"
    and "ra_holders a ((sg_stripe s + 1) * ra_stripe_size a) ! data_member (geometry a) (sg_stripe s) (sg_index s)"
  shows "map (dev_bytes (data_member (geometry a) (sg_stripe s) (sg_index s)) a)
      [RAID_DATA_OFFSET + sg_stripe s * ra_stripe_size a + sg_offset_in_unit s..<
       RAID_DATA_OFFSET + sg_stripe s * ra_stripe_size a + sg_offset_in_unit s + sg_len s] = seg_bytes (geometry a) L s"
proof -
  let ?m = "data_member (geometry a) (sg_stripe s) (sg_index s)"
  have i: "sg_index s < data_count (geometry a)" "sg_offset_in_unit s + sg_len s \<le> ra_stripe_size a"
    using assms(4) by (simp_all add: seg_ok_def geometry_def)
  have m: "?m < length (ra_members a)" using data_member_less [OF assms(3)] by (simp add: geometry_def)
  have r: "role_of (geometry a) (sg_stripe s) ?m = RoleData (sg_index s)" using role_of_data_member assms(2,3) i(1) by blast
  show ?thesis
    using agree_column [OF assms(1-3) m i(2) _ assms(6)] assms(5) r seg_bytes_col [OF i(1)] by (simp add: strip_of_def seg_at_def)
qed

lemma piece_reads_spec:
  assumes "piece_reads segs (map (\<lambda>s. ra_holders a ((sg_stripe s + 1) * ra_stripe_size a)) segs) a = (rs, b)"
    and "agree a L X" "is_parity (geometry a)" "geometry_ok (geometry a)"
    and "\<forall>s \<in> set segs. seg_ok (geometry a) off s"
  shows "quiet a b \<and> list_all2 (\<lambda>s r. \<forall>bs. r = Inr bs \<longrightarrow> seg_at (geometry a) s \<subseteq> X \<longrightarrow> bs = seg_bytes (geometry a) L s) segs rs"
  using assms
proof (induction segs arbitrary: a rs)
  case Nil
  then show ?case by simp
next
  case (Cons s segs)
  let ?hs = "ra_holders a ((sg_stripe s + 1) * ra_stripe_size a)" and ?m = "data_member (geometry a) (sg_stripe s) (sg_index s)"
  let ?step = "if ?hs ! ?m
      then (case dev_read ?m (RAID_DATA_OFFSET + sg_stripe s * ra_stripe_size a + sg_offset_in_unit s) (sg_len s) a of
              (Inr b, a) \<Rightarrow> (Inr b, a) | (Inl e, a) \<Rightarrow> (Inl (Some ?m), a))
      else (Inl None, a)"
  obtain r c where s: "?step = (r, c)" by (cases ?step)
  have c: "quiet a c \<and> ra_members c = ra_members a \<and> (\<forall>bs. r = Inr bs \<longrightarrow> seg_at (geometry a) s \<subseteq> X \<longrightarrow> bs = seg_bytes (geometry a) L s)"
    using s dev_read_spec(3,4) [of ?m _ "sg_len s" a] quiet_dev_read [of ?m _ "sg_len s" a] piece_read [OF Cons.prems(2-4), of off s] Cons.prems(5)
    by (auto split: if_splits prod.splits sum.splits)
  have sh: "geometry c = geometry a" "ra_stripe_size c = ra_stripe_size a" "\<And>e. ra_holders c e = ra_holders a e"
    using c evolves_shape [of "{}" a c] by (auto simp: quiet_def ra_holders_def)
  obtain rs' where rs: "piece_reads segs (map (\<lambda>s. ra_holders c ((sg_stripe s + 1) * ra_stripe_size c)) segs) c = (rs', b)" "rs = r # rs'"
    using Cons.prems(1) s sh by (auto simp: Let_def split: prod.splits)
  have "agree c L X" using agree_quiet [OF Cons.prems(2)] c by blast
  then have "quiet c b \<and> list_all2 (\<lambda>s r. \<forall>bs. r = Inr bs \<longrightarrow> seg_at (geometry a) s \<subseteq> X \<longrightarrow> bs = seg_bytes (geometry a) L s) segs rs'"
    using Cons.IH [OF rs(1)] Cons.prems(3-5) sh by simp
  then show ?case using c rs(2) quiet_trans by auto
qed

lemma finish_pieces_spec:
  assumes "ra_wf a" "is_parity (geometry a)" "agree a L X" "g = geometry a"
    and "\<forall>s \<in> set segs. seg_ok g off s"
    and "list_all2 (\<lambda>s r. \<forall>bs. r = Inr bs \<longrightarrow> seg_at g s \<subseteq> X \<longrightarrow> bs = seg_bytes g L s) segs rs"
  shows "\<exists>r b. finish_pieces segs rs a = Some (r, b) \<and> quiet a b \<and>
    (\<forall>bs. r = Inr bs \<longrightarrow> (\<forall>s \<in> set segs. seg_at g s \<subseteq> X) \<longrightarrow> bs = concat (map (seg_bytes g L) segs))"
  using assms
proof (induction segs arbitrary: rs a)
  case Nil
  then show ?case by simp
next
  case (Cons s segs)
  obtain r rs' where rs: "rs = r # rs'" "\<forall>bs. r = Inr bs \<longrightarrow> seg_at g s \<subseteq> X \<longrightarrow> bs = seg_bytes g L s"
      "list_all2 (\<lambda>s r. \<forall>bs. r = Inr bs \<longrightarrow> seg_at g s \<subseteq> X \<longrightarrow> bs = seg_bytes g L s) segs rs'"
    using Cons.prems(6) by (auto simp: list_all2_Cons1)
  let ?piece = "case r of Inr b \<Rightarrow> Some (Inr b, a) | Inl why \<Rightarrow> degraded_piece s (case why of Some m \<Rightarrow> snd (fail_member m a) | None \<Rightarrow> a)"
  have "\<exists>r1 c. ?piece = Some (r1, c) \<and> quiet a c \<and> (\<forall>bs. r1 = Inr bs \<longrightarrow> seg_at g s \<subseteq> X \<longrightarrow> bs = seg_bytes g L s)"
  proof (cases r)
    case (Inr bs)
    then show ?thesis using rs(2) by simp
  next
    case (Inl why)
    define d where "d = (case why of Some m \<Rightarrow> snd (fail_member m a) | None \<Rightarrow> a)"
    have d: "quiet a d" using quiet_fail by (auto simp: d_def split: option.splits) (metis prod.collapse)
    have gd: "geometry d = g" using d evolves_shape(7) Cons.prems(4) by (auto simp: quiet_def)
    show ?thesis
      using degraded_piece_spec [OF quiet_wf [OF d Cons.prems(1)] _ agree_quiet [OF Cons.prems(3) d], of off s]
        gd Cons.prems(2,4,5) Inl d quiet_trans by (auto simp: d_def [symmetric])
  qed
  then obtain r1 c where p: "?piece = Some (r1, c)" "quiet a c" "\<forall>bs. r1 = Inr bs \<longrightarrow> seg_at g s \<subseteq> X \<longrightarrow> bs = seg_bytes g L s" by blast
  have gc: "geometry c = g" using p(2) evolves_shape(7) Cons.prems(4) by (auto simp: quiet_def)
  show ?case
  proof (cases r1)
    case (Inl e)
    then show ?thesis using p rs(1) by (simp add: then_res_def)
  next
    case (Inr bs)
    obtain r2 b where f: "finish_pieces segs rs' c = Some (r2, b)" "quiet c b" "\<forall>bs. r2 = Inr bs \<longrightarrow> (\<forall>s \<in> set segs. seg_at g s \<subseteq> X) \<longrightarrow> bs = concat (map (seg_bytes g L) segs)"
      using Cons.IH [OF quiet_wf [OF p(2) Cons.prems(1)] _ agree_quiet [OF Cons.prems(3) p(2)] _ _ rs(3)] gc Cons.prems(2,4,5) by auto
    then show ?thesis using p Inr rs(1) quiet_trans [OF p(2) f(2)] by (cases r2) (simp_all add: then_res_def)
  qed
qed

lemma parity_read_spec:
  assumes "ra_wf a" "is_parity (geometry a)" "agree a L X"
    and "segments (geometry a) offset len = Some segs"
  shows "\<exists>r b. parity_read offset len a = Some (r, b) \<and> evolves {} a b \<and> ra_wf b \<and>
    (\<forall>bs. r = Inr bs \<longrightarrow> (\<forall>s \<in> set segs. seg_at (geometry a) s \<subseteq> X) \<longrightarrow> bs = map L [offset..<offset + len])"
proof -
  have g: "geometry_ok (geometry a)" using assms(1) by (simp add: ra_wf_def)
  have segs: "\<forall>s \<in> set segs. seg_ok (geometry a) offset s"
      "concat (map (\<lambda>s. [seg_addr (geometry a) s..<seg_addr (geometry a) s + sg_len s]) segs) = [offset..<offset + len]"
    using segments_spec [OF g, of offset len] assms(4) by auto
  let ?hss = "map (\<lambda>s. ra_holders a ((sg_stripe s + 1) * ra_stripe_size a)) segs"
  obtain rs c where p: "piece_reads segs ?hss a = (rs, c)" by fastforce
  have c: "quiet a c" "list_all2 (\<lambda>s r. \<forall>bs. r = Inr bs \<longrightarrow> seg_at (geometry a) s \<subseteq> X \<longrightarrow> bs = seg_bytes (geometry a) L s) segs rs"
    using piece_reads_spec [OF p assms(3,2) g] segs(1) by auto
  have gc: "geometry a = geometry c" using c(1) evolves_shape(7) by (auto simp: quiet_def)
  obtain r d where f: "finish_pieces segs rs c = Some (r, d)" "quiet c d" 
      "\<forall>bs. r = Inr bs \<longrightarrow> (\<forall>s \<in> set segs. seg_at (geometry a) s \<subseteq> X) \<longrightarrow> bs = concat (map (seg_bytes (geometry a) L) segs)"
    using finish_pieces_spec [OF quiet_wf [OF c(1) assms(1)] _ agree_quiet [OF assms(3) c(1)] gc _ c(2), where off = offset] segs(1) assms(2) gc by auto
  have ad: "quiet a d" using quiet_trans [OF c(1) f(2)] .
  obtain b where b: "finish_read (r, d) = Some (r, b)" "evolves {} d b" "ra_wf b"
    using finish_read_spec [OF quiet_wf [OF ad assms(1)], of r] by blast
  have "evolves {} a b" using ad b(2) evolves_then by (auto simp: quiet_def)
  then show ?thesis using b f(1,3) p assms(4) seg_bytes_concat [OF segs(2), of L] by (simp add: parity_read_def)
qed

section \<open>RAID-1 and RAID-10\<close>

lemma holds_mono: "holds m e \<Longrightarrow> e' \<le> e \<Longrightarrow> holds m e'"
  by (auto simp: holds_def split: RaidMemberState.splits)

lemma quiet_counter [simp]: "quiet (a\<lparr>ra_read_counter := k\<rparr>) b = quiet a b"
  by (simp add: quiet_def keeps_bm_def)

text \<open>The members of a set that all hold the bytes \<open>f\<close> of a range at \<open>K\<close>, if they hold the range.\<close>

definition copies_on :: "nat set \<Rightarrow> RaidArray \<Rightarrow> nat list \<Rightarrow> nat \<Rightarrow> nat \<Rightarrow> (nat \<Rightarrow> u8) \<Rightarrow> bool" where
  "copies_on K a grp moff len f \<longleftrightarrow> (\<forall>i \<in> set grp. i < length (ra_members a) \<and>
     (holds (ra_members a ! i) (moff + len) \<longrightarrow> (\<forall>k < len. k \<in> K \<longrightarrow> dev_bytes i a (RAID_DATA_OFFSET + moff + k) = f k)))"

abbreviation copies :: "RaidArray \<Rightarrow> nat list \<Rightarrow> nat \<Rightarrow> nat \<Rightarrow> (nat \<Rightarrow> u8) \<Rightarrow> bool" where
  "copies \<equiv> copies_on UNIV"

lemma copies_quiet:
  assumes "copies_on K a grp moff len f" "quiet a b"
  shows "copies_on K b grp moff len f"
  unfolding copies_on_def
proof (intro ballI conjI impI allI)
  fix i assume i: "i \<in> set grp"
  have e: "evolves {} a b" using assms(2) by (simp add: quiet_def)
  have l: "i < length (ra_members a)" using assms(1) i by (simp add: copies_on_def)
  then show "i < length (ra_members b)" using evolves_shape(6) [OF e] by simp
  fix k assume "holds (ra_members b ! i) (moff + len)" "k < len" "k \<in> K"
  then have "dev_bytes i a (RAID_DATA_OFFSET + moff + k) = f k"
    using evolves_holds [OF e l] assms(1) i by (simp add: copies_on_def)
  moreover have "dev_bytes i b (RAID_DATA_OFFSET + (moff + k)) = dev_bytes i a (RAID_DATA_OFFSET + (moff + k))"
    using e l unfolding evolves_def by blast
  ultimately show "dev_bytes i b (RAID_DATA_OFFSET + moff + k) = f k" by (simp add: add.assoc)
qed

lemma mirror_read_loop_spec:
  assumes "mirror_read_loop grp moff len tried a = (r, b)" "\<forall>i \<in> set grp. i < length (ra_members a)"
  shows "quiet a b \<and> (\<forall>bs. r = Inr bs \<longrightarrow>
    length bs = len \<and> (copies_on K a grp moff len f \<longrightarrow> (\<forall>k < len. k \<in> K \<longrightarrow> bs ! k = f k)))"
  using assms
proof (induction grp moff len tried a rule: mirror_read_loop.induct)
  case (1 grp moff len tried a)
  define cands where "cands = read_candidates grp tried (moff + len) a"
  define pick where "pick = cands ! (ra_read_counter a mod length cands)"
  let ?a = "a\<lparr>ra_read_counter := ra_read_counter a + 1\<rparr>"
  show ?case
  proof (cases "cands = []")
    case True
    then show ?thesis using 1(2) by (subst (asm) mirror_read_loop.simps) (auto simp: cands_def)
  next
    case False
    then have "pick \<in> set cands" by (simp add: pick_def)
    then have p: "pick \<in> set grp" "ra_holders a (moff + len) ! pick" by (simp_all add: cands_def read_candidates_def)
    have h: "\<forall>k < len. k \<in> K \<longrightarrow> dev_bytes pick a (RAID_DATA_OFFSET + moff + k) = f k" if "copies_on K a grp moff len f"
      using that p holder_at [of pick a] by (auto simp: copies_on_def)
    obtain q c where d: "dev_read pick (RAID_DATA_OFFSET + moff) len ?a = (q, c)" by fastforce
    have qc: "quiet a c" using quiet_dev_read [OF d] by simp
    show ?thesis
    proof (cases q)
      case (Inr bs)
      have "bs = map (dev_bytes pick ?a) [RAID_DATA_OFFSET + moff..<RAID_DATA_OFFSET + moff + len]"
        using dev_read_spec(4) [OF d] Inr by blast
      then have "length bs = len \<and> (copies_on K a grp moff len f \<longrightarrow> (\<forall>k < len. k \<in> K \<longrightarrow> bs ! k = f k))"
        using h unfolding map_upt_shift by (auto simp: dev_bytes_def)
      moreover have "r = Inr bs" "b = c"
        using 1(2) False Inr d by (auto simp: mirror_read_loop.simps [of grp] cands_def [symmetric] pick_def [symmetric] Let_def)
      ultimately show ?thesis using qc by simp
    next
      case (Inl e)
      obtain ok x where f: "fail_member pick c = (ok, x)" by fastforce
      have qx: "quiet a x" using quiet_trans [OF qc quiet_fail [OF f]] .
      have run: "(if \<not> ok \<and> length cands = 1 then (Inl (DriveErr e), x) else mirror_read_loop grp moff len (tried @ [pick]) x) = (r, b)"
        using 1(2) False Inl d f by (simp add: mirror_read_loop.simps [of grp moff len tried a] cands_def [symmetric] pick_def [symmetric] Let_def)
      show ?thesis
      proof (cases "\<not> ok \<and> length cands = 1")
        case True
        then show ?thesis using run qx by auto
      next
        case no: False
        then have "mirror_read_loop grp moff len (tried @ [pick]) x = (r, b)" using run by (simp split: if_splits)
        then have "quiet x b \<and> (\<forall>bs. r = Inr bs \<longrightarrow>
            length bs = len \<and> (copies_on K x grp moff len f \<longrightarrow> (\<forall>k < len. k \<in> K \<longrightarrow> bs ! k = f k)))"
          using 1(1) [OF cands_def False pick_def d [symmetric] Inl f [symmetric] no] 1(3) evolves_shape(6) qx by (auto simp: quiet_def)
        moreover from this have "quiet a b" using quiet_trans [OF qx] by simp
        ultimately show ?thesis using copies_quiet [OF _ qx, of K grp moff len f] by simp
      qed
    qed
  qed
qed

lemma mirror_read_map:
  assumes "mirror_read_loop grp moff len tried a = (r, b)" "\<forall>i \<in> set grp. i < length (ra_members a)"
  shows "quiet a b \<and> (\<forall>bs. r = Inr bs \<longrightarrow> copies a grp moff len f \<longrightarrow> bs = map f [0..<len])"
  using mirror_read_loop_spec [OF assms, of UNIV f] by (auto intro!: nth_equalityI)

text \<open>The member offset of a logical byte, and what a range of them touches.\<close>

definition member_off :: "Geometry \<Rightarrow> nat \<Rightarrow> nat" where
  "member_off g p =
     (if g_level g = Raid1 then p else (p div stripe_bytes g) * g_unit g + p mod stripe_bytes g mod g_unit g)"

definition touched :: "Geometry \<Rightarrow> nat \<Rightarrow> nat \<Rightarrow> nat set" where
  "touched g offset len = member_off g ` {offset..<offset + len}"

lemma seg_split:
  assumes "seg_ok g off s" "k < sg_len s"
  shows "(seg_addr g s + k) div stripe_bytes g = sg_stripe s"
    "(seg_addr g s + k) mod stripe_bytes g div g_unit g = sg_index s"
    "(seg_addr g s + k) mod stripe_bytes g mod g_unit g = sg_offset_in_unit s + k"
proof -
  have o: "sg_offset_in_unit s + k < g_unit g" using assms by (simp add: seg_ok_def)
  let ?w = "sg_index s * g_unit g + (sg_offset_in_unit s + k)"
  have "?w < (sg_index s + 1) * g_unit g" using o by simp
  also have "\<dots> \<le> stripe_bytes g"
    unfolding stripe_bytes_def by (subst mult.commute, rule mult_le_mono2) (use assms(1) in \<open>simp add: seg_ok_def\<close>)
  finally have w: "?w < stripe_bytes g" .
  have eq: "seg_addr g s + k = ?w + sg_stripe s * stripe_bytes g" by (simp add: seg_addr_def)
  have m: "(seg_addr g s + k) mod stripe_bytes g = ?w" unfolding eq using w by simp
  show "(seg_addr g s + k) div stripe_bytes g = sg_stripe s" unfolding eq using w by simp
  show "(seg_addr g s + k) mod stripe_bytes g div g_unit g = sg_index s"
    "(seg_addr g s + k) mod stripe_bytes g mod g_unit g = sg_offset_in_unit s + k"
    unfolding m using o by simp_all
qed

lemma seg_at_member_off:
  assumes "seg_ok g off s" "g_level g \<noteq> Raid1"
  shows "seg_at g s = member_off g ` {seg_addr g s..<seg_addr g s + sg_len s}"
proof -
  have m: "member_off g (seg_addr g s + k) = sg_stripe s * g_unit g + sg_offset_in_unit s + k" if "k < sg_len s" for k
    using seg_split [OF assms(1) that] assms(2) by (simp add: member_off_def)
  have "{seg_addr g s..<seg_addr g s + sg_len s} = (\<lambda>k. seg_addr g s + k) ` {..<sg_len s}"
    by (simp add: image_add_atLeastLessThan lessThan_atLeast0 add.commute)
  then have "member_off g ` {seg_addr g s..<seg_addr g s + sg_len s}
      = (\<lambda>k. sg_stripe s * g_unit g + sg_offset_in_unit s + k) ` {..<sg_len s}"
    using m by (simp add: image_image)
  also have "\<dots> = seg_at g s"
    by (simp add: seg_at_def col_at_def image_add_atLeastLessThan lessThan_atLeast0 add.commute)
  finally show ?thesis by simp
qed

lemma segments_touched:
  assumes "\<forall>s \<in> set ss. seg_ok g offset s" "g_level g \<noteq> Raid1"
    "concat (map (\<lambda>s. [seg_addr g s..<seg_addr g s + sg_len s]) ss) = [offset..<offset + len]"
  shows "(\<Union>s \<in> set ss. seg_at g s) = touched g offset len"
proof -
  have "set (concat (map (\<lambda>s. [seg_addr g s..<seg_addr g s + sg_len s]) ss)) = {offset..<offset + len}"
    unfolding assms(3) by simp
  then have "{offset..<offset + len} = (\<Union>s \<in> set ss. {seg_addr g s..<seg_addr g s + sg_len s})" by auto
  moreover have "(\<Union>s \<in> set ss. seg_at g s) = (\<Union>s \<in> set ss. member_off g ` {seg_addr g s..<seg_addr g s + sg_len s})"
    by (rule SUP_cong) (use seg_at_member_off [OF _ assms(2)] assms(1) in auto)
  ultimately show ?thesis by (simp add: touched_def image_UN)
qed

lemma copies_raid1:
  assumes "agree a L X" "ra_level a = Raid1" "{moff..<moff + len} \<subseteq> X"
  shows "copies a (all_slots a) moff len (\<lambda>k. L (moff + k))"
  unfolding copies_on_def
proof (intro ballI conjI impI allI)
  fix i assume "i \<in> set (all_slots a)"
  then show i: "i < length (ra_members a)" by (simp add: all_slots_def)
  fix k assume "holds (ra_members a ! i) (moff + len)" "k < len"
  then have "holds (ra_members a ! i) (moff + k + 1)" using holds_mono by fastforce
  then have "dev_bytes i a (RAID_DATA_OFFSET + (moff + k)) = want (geometry a) L i (moff + k)"
    using assms(1,2) i subsetD [OF assms(3), of "moff + k"] \<open>k < len\<close> by (simp add: agree_def hold_end_def is_parity_def geometry_def)
  then show "dev_bytes i a (RAID_DATA_OFFSET + moff + k) = L (moff + k)"
    using assms(2) by (simp add: want_def geometry_def add.assoc)
qed

lemma copies_raid10:
  assumes "agree a L X" "ra_level a = Raid10" "ra_wf a" "seg_ok (geometry a) off s" "seg_at (geometry a) s \<subseteq> X"
  shows "copies a (pair_list (sg_index s)) (sg_stripe s * ra_stripe_size a + sg_offset_in_unit s) (sg_len s)
    (\<lambda>k. L (seg_addr (geometry a) s + k))"
  unfolding copies_on_def
proof (intro ballI conjI impI allI)
  let ?g = "geometry a" and ?m = "sg_stripe s * ra_stripe_size a + sg_offset_in_unit s"
  have g: "g_unit ?g = ra_stripe_size a" "g_level ?g = Raid10" "g_n ?g = length (ra_members a)" "data_count ?g = length (ra_members a) div 2"
    using assms(2) by (simp_all add: geometry_def data_count_def)
  fix i assume "i \<in> set (pair_list (sg_index s))"
  then have p: "i = 2 * sg_index s \<or> i = 2 * sg_index s + 1" by (simp add: pair_list_def pair_members_def)
  then show i: "i < length (ra_members a)" using assms(2,3,4) g by (auto simp: seg_ok_def ra_wf_def elim!: evenE)
  have d: "i div 2 = sg_index s" using p by auto
  fix k assume h: "holds (ra_members a ! i) (?m + sg_len s)" and k: "k < sg_len s"
  have "holds (ra_members a ! i) (hold_end ?g (?m + k))"
    using holds_mono [OF h, of "?m + k + 1"] k g by (simp add: hold_end_def is_parity_def)
  moreover have "?m + k \<in> X" using assms(5) k g by (auto simp: seg_at_def col_at_def)
  ultimately have "dev_bytes i a (RAID_DATA_OFFSET + (?m + k)) = want ?g L i (?m + k)" using assms(1) i by (simp add: agree_def)
  moreover have "(?m + k) div g_unit ?g = sg_stripe s" "(?m + k) mod g_unit ?g = sg_offset_in_unit s + k"
    using assms(4) k g by (auto simp: seg_ok_def add.assoc)
  ultimately show "dev_bytes i a (RAID_DATA_OFFSET + ?m + k) = L (seg_addr ?g s + k)"
    using g d by (simp add: want_def seg_addr_def add.assoc)
qed

lemma pair_members_less:
  assumes "ra_level a = Raid10" "ra_wf a" "seg_ok (geometry a) off s"
  shows "\<forall>i \<in> set (pair_list (sg_index s)). i < length (ra_members a)"
proof -
  have "sg_index s < length (ra_members a) div 2" "even (length (ra_members a))"
    using assms by (simp_all add: seg_ok_def ra_wf_def data_count_def geometry_def)
  then show ?thesis by (auto simp: pair_list_def pair_members_def)
qed

lemma raid10_reads_spec:
  assumes "raid10_reads segs a = (r, b)" "agree a L X" "ra_level a = Raid10" "ra_wf a" "g = geometry a"
    "\<forall>s \<in> set segs. seg_ok g off s"
  shows "quiet a b \<and> (\<forall>bs. r = Inr bs \<longrightarrow> (\<forall>s \<in> set segs. seg_at g s \<subseteq> X) \<longrightarrow> bs = concat (map (seg_bytes g L) segs))"
  using assms
proof (induction segs arbitrary: a r b)
  case Nil
  then show ?case by auto
next
  case (Cons s segs)
  obtain q c where m: "mirror_read_at (pair_list (sg_index s)) (sg_stripe s * ra_stripe_size a + sg_offset_in_unit s) (sg_len s) a = (q, c)"
    by fastforce
  have c: "quiet a c" "\<forall>bs. q = Inr bs \<longrightarrow> seg_at g s \<subseteq> X \<longrightarrow> bs = seg_bytes g L s"
    using mirror_read_map [OF m [unfolded mirror_read_at_def] pair_members_less [OF Cons.prems(3,4), of off s], where f = "\<lambda>k. L (seg_addr g s + k)"]
      copies_raid10 [OF Cons.prems(2-4), of off s] Cons.prems(5,6) by (auto simp: seg_bytes_def map_upt_shift)
  have e: "geometry c = geometry a" "ra_level c = Raid10" using c(1) Cons.prems(3) evolves_shape(1,7) by (auto simp: quiet_def)
  show ?case
  proof (cases q)
    case (Inl x)
    then show ?thesis using Cons.prems(1) m c(1) by auto
  next
    case (Inr bs)
    obtain r' d where t: "raid10_reads segs c = (r', d)" by fastforce
    have "quiet c d \<and> (\<forall>bs. r' = Inr bs \<longrightarrow> (\<forall>s \<in> set segs. seg_at g s \<subseteq> X) \<longrightarrow> bs = concat (map (seg_bytes g L) segs))"
      using Cons.IH [OF t agree_quiet [OF Cons.prems(2) c(1)] e(2) quiet_wf [OF c(1) Cons.prems(4)]] e(1) Cons.prems(5,6) by simp
    then show ?thesis using Cons.prems(1) m c Inr t quiet_trans by (cases r') auto
  qed
qed

section \<open>The device\<close>

lemma array_read_spec:
  assumes "ra_wf a" "agree a L X"
  shows "\<exists>r b. array_read offset len a = Some (r, b) \<and> evolves {} a b \<and> ra_wf b \<and>
    (\<forall>bs. r = Inr bs \<longrightarrow> touched (geometry a) offset len \<subseteq> X \<longrightarrow> bs = map L [offset..<offset + len])"
proof (cases "offset + len > ra_capacity a")
  case True
  then show ?thesis using assms(1) by (simp add: array_read_def)
next
  case False
  have g: "geometry_ok (geometry a)" "g_level (geometry a) = ra_level a" using assms(1) by (simp_all add: ra_wf_def geometry_def)
  obtain segs where segs: "segments (geometry a) offset len = Some segs" "\<forall>s \<in> set segs. seg_ok (geometry a) offset s"
      "concat (map (\<lambda>s. [seg_addr (geometry a) s..<seg_addr (geometry a) s + sg_len s]) segs) = [offset..<offset + len]"
    using segments_spec [OF g(1)] by blast
  have fin: "\<exists>r b. finish_read ra = Some (r, b) \<and> evolves {} a b \<and> ra_wf b \<and> (\<forall>bs. r = Inr bs \<longrightarrow> P \<longrightarrow> bs = f)"
    if "quiet a (snd ra)" "\<forall>bs. fst ra = Inr bs \<longrightarrow> P \<longrightarrow> bs = f" for ra f P
    using finish_read_spec [OF quiet_wf [OF that(1) assms(1)], of "fst ra"] that evolves_then by (auto simp: quiet_def)
  show ?thesis
  proof (cases "ra_level a = Raid1")
    case True
    obtain r b where m: "mirror_read_loop (all_slots a) offset len [] a = (r, b)" by fastforce
    have t: "touched (geometry a) offset len = {offset..<offset + len}" using True g(2) by (simp add: touched_def member_off_def [abs_def])
    have "\<forall>i \<in> set (all_slots a). i < length (ra_members a)" by (simp add: all_slots_def)
    then show ?thesis
      using False True fin [of "(r, b)" "touched (geometry a) offset len \<subseteq> X" "map L [offset..<offset + len]"]
        mirror_read_map [OF m, where f = "\<lambda>k. L (offset + k)"] copies_raid1 [OF assms(2) True, of offset len] t
      by (simp add: array_read_def raid1_read_def mirror_read_at_def m map_upt_shift)
  next
    case nm: False
    then have at: "(\<forall>s \<in> set segs. seg_at (geometry a) s \<subseteq> X) \<longleftrightarrow> touched (geometry a) offset len \<subseteq> X"
      using segments_touched [OF segs(2) _ segs(3)] g(2) by auto
    show ?thesis
    proof (cases "ra_level a = Raid10")
      case True
      obtain r b where m: "raid10_reads segs a = (r, b)" by fastforce
      show ?thesis
        using False True fin [of "(r, b)" "touched (geometry a) offset len \<subseteq> X" "map L [offset..<offset + len]"] raid10_reads_spec [OF m assms(2) True assms(1) refl] segs at seg_bytes_concat [OF segs(3), of L]
        by (simp add: array_read_def raid10_read_def m)
    next
      case no: False
      then have p: "is_parity (geometry a)" using nm g(2) by (cases "ra_level a") (simp_all add: is_parity_def)
      show ?thesis using parity_read_spec [OF assms(1) p assms(2) segs(1)] at False nm no
        by (cases "ra_level a") (simp_all add: array_read_def)
    qed
  qed
qed

end
