(* ===== verification/RaidWrite.thy ===== *)
theory RaidWrite
  imports RaidRead
begin

text \<open>
  Writes of one stripe of a parity set. Whichever way the stripe is written (whole, by
  read-modify-write or by reconstruction), and whichever members fail on the way, a write that
  answers success leaves every member that is still read with the byte the new image asks of it;
  a write that answers an error has touched nothing outside its stripe.
\<close>

section \<open>Images\<close>

text \<open>The image with the bytes at \<open>A\<close> taken from a buffer that starts at \<open>off\<close>.\<close>

definition over :: "nat \<Rightarrow> bytes \<Rightarrow> nat set \<Rightarrow> (nat \<Rightarrow> u8) \<Rightarrow> nat \<Rightarrow> u8" where
  "over off buf A L p = (if p \<in> A then buf ! (p - off) else L p)"

lemma over_over: "over off buf A (over off buf B L) = over off buf (A \<union> B) L"
  by (auto simp: over_def fun_eq_iff)

lemma over_empty [simp]: "over off buf {} L = L"
  by (simp add: over_def fun_eq_iff)

definition seg_addrs :: "Geometry \<Rightarrow> Segment \<Rightarrow> nat set" where
  "seg_addrs g s = {seg_addr g s..<seg_addr g s + sg_len s}"

text \<open>The address of byte \<open>j\<close> of a data strip of a stripe.\<close>

definition addr :: "Geometry \<Rightarrow> nat \<Rightarrow> nat \<Rightarrow> nat \<Rightarrow> nat" where
  "addr g s d j = s * stripe_bytes g + d * g_unit g + j"

lemma addr_split:
  assumes "d < data_count g" "j < g_unit g"
  shows "addr g s d j div stripe_bytes g = s" "addr g s d j mod stripe_bytes g div g_unit g = d"
    "addr g s d j mod stripe_bytes g mod g_unit g = j"
proof -
  let ?s = "\<lparr>sg_stripe = s, sg_index = d, sg_offset_in_unit = j, sg_len = 1, sg_buf_offset = addr g s d j\<rparr>"
  have "seg_ok g 0 ?s" using assms by (simp add: seg_ok_def seg_addr_def addr_def)
  from seg_split [OF this, of 0]
  show "addr g s d j div stripe_bytes g = s" "addr g s d j mod stripe_bytes g div g_unit g = d"
    "addr g s d j mod stripe_bytes g mod g_unit g = j" by (simp_all add: seg_addr_def addr_def)
qed

text \<open>The strips that hold a byte of a set of addresses.\<close>

definition hit :: "Geometry \<Rightarrow> nat set \<Rightarrow> nat \<Rightarrow> StripRole \<Rightarrow> nat \<Rightarrow> bool" where
  "hit g A s role j = (case role of RoleData d \<Rightarrow> addr g s d j \<in> A | _ \<Rightarrow> (\<exists>d < data_count g. addr g s d j \<in> A))"

lemma col_same:
  assumes "\<forall>d < data_count g. addr g s d j \<notin> A"
  shows "col g (over off buf A L) s j 1 = col g L s j 1"
  using assms by (simp add: col_def over_def addr_def add.assoc)

lemma strip_byte_same: "\<not> hit g A s role j \<Longrightarrow> strip_byte g (over off buf A L) s role j = strip_byte g L s role j"
  using col_same [of g s j A off buf L] by (cases role) (auto simp: strip_byte_def hit_def over_def addr_def)

lemma want_same:
  assumes "is_parity g" "\<not> hit g A (x div g_unit g) (role_of g (x div g_unit g) i) (x mod g_unit g)"
  shows "want g (over off buf A L) i x = want g L i x"
  using assms strip_byte_same [OF assms(2)] by (auto simp: want_def is_parity_def)

lemma agree_step:
  assumes "agree a L X" "evolves W a b"
    and "\<And>i x. i < length (ra_members a) \<Longrightarrow> x \<in> X \<Longrightarrow> (i, x) \<in> W \<Longrightarrow> holds (ra_members b ! i) (hold_end (geometry a) x) \<Longrightarrow>
       dev_bytes i b (RAID_DATA_OFFSET + x) = want (geometry a) L' i x"
    and "\<And>i x. i < length (ra_members a) \<Longrightarrow> x \<in> X \<Longrightarrow> (i, x) \<notin> W \<Longrightarrow> holds (ra_members b ! i) (hold_end (geometry a) x) \<Longrightarrow>
       want (geometry a) L' i x = want (geometry a) L i x"
  shows "agree b L' X"
proof -
  note sh = evolves_shape [OF assms(2)]
  have "dev_bytes i b (RAID_DATA_OFFSET + x) = want (geometry a) L' i x"
    if i: "i < length (ra_members a)" and x: "x \<in> X" and h: "holds (ra_members b ! i) (hold_end (geometry a) x)" for i x
  proof (cases "(i, x) \<in> W")
    case True
    then show ?thesis using assms(3) i x h by blast
  next
    case False
    then have "dev_bytes i b (RAID_DATA_OFFSET + x) = dev_bytes i a (RAID_DATA_OFFSET + x)"
      using assms(2) i by (simp add: evolves_def)
    then show ?thesis
      using assms(1,4) i x h False evolves_holds [OF assms(2) i h] by (simp add: agree_def)
  qed
  then show ?thesis using sh by (simp add: agree_def)
qed

section \<open>Issuing the writes of a stripe\<close>

definition write_range :: "(nat \<times> nat \<times> bytes) list \<Rightarrow> (nat \<times> nat) set" where
  "write_range ws = (\<Union>(m, at, bs) \<in> set ws. in_range m at (length bs))"

lemma write_range_Cons [simp]: "write_range ((m, at, bs) # ws) = in_range m at (length bs) \<union> write_range ws"
  by (simp add: write_range_def)

lemma in_range_member: "(i, x) \<in> in_range m at n \<Longrightarrow> i = m"
  by (simp add: in_range_def)

lemma write_range_member: "(i, x) \<in> write_range ws \<Longrightarrow> i \<in> fst ` set ws"
  by (force simp: write_range_def in_range_def)

lemma do_writes_spec:
  assumes "do_writes hs ws a = (rs, b)" "\<forall>(m, at, bs) \<in> set ws. RAID_DATA_OFFSET \<le> at \<and> (hs ! m \<longrightarrow> has_device a m)" "distinct (map fst ws)"
  shows "evolves (write_range ws) a b \<and> keeps_bm a b \<and> mstate b = mstate a \<and> fst ` set rs \<subseteq> fst ` set ws \<and>
    (\<forall>j. j \<notin> fst ` set ws \<longrightarrow> ra_members b ! j = ra_members a ! j) \<and>
    (\<forall>(m, at, bs) \<in> set ws. hs ! m \<longrightarrow> (\<exists>r. (m, r) \<in> set rs \<and>
       (\<not> isl r \<longrightarrow> (\<forall>k < length bs. dev_bytes m b (at + k) = bs ! k))))"
  using assms
proof (induction hs ws a arbitrary: rs b rule: do_writes.induct)
  case (1 hs a)
  then show ?case by (simp add: write_range_def)
next
  case (2 hs m at bs ws a)
  have d: "distinct (map fst ws)" "m \<notin> fst ` set ws" "RAID_DATA_OFFSET \<le> at" using 2(4,5) by auto
  show ?case
  proof (cases "hs ! m")
    case False
    then have w: "do_writes hs ws a = (rs, b)" using 2(3) by simp
    note ih = 2(2) [OF False w _ d(1)]
    have "evolves (write_range ((m, at, bs) # ws)) a b" using ih 2(4) by (auto intro: evolves_mono)
    then show ?thesis using ih 2(4) False by (auto simp del: write_range_Cons)
  next
    case True
    obtain r c where w: "dev_write m at bs a = (r, c)" by fastforce
    obtain rs' where e: "do_writes hs ws c = (rs', b)" "rs = (m, r) # rs'" using 2(3) True w by (auto split: prod.splits)
    have m: "has_device a m" using 2(4) True by simp
    note s = dev_write_spec [OF w m [unfolded has_device_def, THEN conjunct1] m [unfolded has_device_def, THEN conjunct2]]
    have o: "\<forall>j. j \<noteq> m \<longrightarrow> ra_members c ! j = ra_members a ! j"
      using w by (auto simp: dev_write_def set_bytes_def set_member_def next_io_def split: prod.splits io_outcome.splits)
    have ih: "evolves (write_range ws) c b \<and> keeps_bm c b \<and> mstate b = mstate c \<and> fst ` set rs' \<subseteq> fst ` set ws \<and>
        (\<forall>j. j \<notin> fst ` set ws \<longrightarrow> ra_members b ! j = ra_members c ! j) \<and>
        (\<forall>(m, at, bs) \<in> set ws. hs ! m \<longrightarrow> (\<exists>r. (m, r) \<in> set rs' \<and>
           (\<not> isl r \<longrightarrow> (\<forall>k < length bs. dev_bytes m b (at + k) = bs ! k))))"
      by (rule 2(1) [OF True w [symmetric] e(1)]) (use 2(4) d has_device_evolves [OF s(1)] in auto)
    have same: "dev_bytes m b = dev_bytes m c" using ih d(2) by (simp add: dev_bytes_def)
    have own: "\<not> isl r \<longrightarrow> (\<forall>k < length bs. dev_bytes m b (at + k) = bs ! k)" using s(4) same by simp
    have "evolves (write_range ((m, at, bs) # ws)) a b" using evolves_trans [OF s(1)] ih by simp
    moreover have "keeps_bm a b" "mstate b = mstate a" using ih s keeps_bm_trans by auto
    ultimately show ?thesis using ih own o e(2) by (auto simp del: write_range_Cons)
  qed
qed

lemma settle_others:
  assumes "settle rs a = (r, b)" "j \<notin> fst ` set rs"
  shows "ra_members b ! j = ra_members a ! j"
  using assms
proof (induction rs a rule: settle.induct)
  case (2 i q rs a)
  then show ?case using fail_member_spec(6) [of i a _ _ j] by (auto split: sum.splits prod.splits if_splits)
qed simp

lemma issue_writes_spec:
  assumes "issue_writes hs ws a = (r, b)" "\<forall>(m, at, bs) \<in> set ws. RAID_DATA_OFFSET \<le> at \<and> (hs ! m \<longrightarrow> has_device a m)" "distinct (map fst ws)"
  shows "evolves (write_range ws) a b" "keeps_bm a b" "j \<notin> fst ` set ws \<Longrightarrow> ra_members b ! j = ra_members a ! j"
    "r = Inr () \<Longrightarrow> (m, at, bs) \<in> set ws \<Longrightarrow> hs ! m \<Longrightarrow> mstate b m \<noteq> MFailed \<Longrightarrow> k < length bs \<Longrightarrow> dev_bytes m b (at + k) = bs ! k"
proof -
  have "evolves (write_range ws) a b \<and> keeps_bm a b \<and> (j \<notin> fst ` set ws \<longrightarrow> ra_members b ! j = ra_members a ! j) \<and>
    (r = Inr () \<longrightarrow> (m, at, bs) \<in> set ws \<longrightarrow> hs ! m \<longrightarrow> mstate b m \<noteq> MFailed \<longrightarrow> k < length bs \<longrightarrow> dev_bytes m b (at + k) = bs ! k)"
  proof (cases "ra_released a")
    case True
    then show ?thesis using assms(1) by (auto simp: issue_writes_def)
  next
    case False
    obtain rs c where w: "do_writes hs ws a = (rs, c)" by fastforce
    have s: "settle rs c = (r, b)" using assms(1) False w by (simp add: issue_writes_def)
    note ws = do_writes_spec [OF w assms(2,3)] and st = settle_spec [OF s]
    have ev: "evolves (write_range ws) a b" using evolves_trans [of "write_range ws" a c "{}" b] ws st by simp
    have oth: "ra_members b ! j = ra_members a ! j" if "j \<notin> fst ` set ws"
      using settle_others [OF s, of j] ws that by auto
    have "dev_bytes m b (at + k) = bs ! k"
      if ok: "r = Inr ()" and mm: "(m, at, bs) \<in> set ws" "hs ! m" "mstate b m \<noteq> MFailed" "k < length bs"
    proof -
      obtain q where q: "(m, q) \<in> set rs" "\<not> isl q \<longrightarrow> (\<forall>k < length bs. dev_bytes m c (at + k) = bs ! k)" using ws mm(1,2) by blast
      have n: "m < length (ra_members a)" "RAID_DATA_OFFSET \<le> at" using assms(2) mm(1,2) by (auto simp: has_device_def)
      have "length (ra_members c) = length (ra_members a)" using ws evolves_shape(6) by blast
      then have "\<not> isl q" using st ok q(1) mm(3) n(1) by auto
      then have "dev_bytes m c (at + k) = bs ! k" using q(2) mm(4) by simp
      moreover have "dev_bytes m b (RAID_DATA_OFFSET + (at + k - RAID_DATA_OFFSET)) = dev_bytes m c (RAID_DATA_OFFSET + (at + k - RAID_DATA_OFFSET))"
        using st n(1) \<open>length (ra_members c) = length (ra_members a)\<close> by (simp add: evolves_def)
      ultimately show ?thesis using n(2) by simp
    qed
    then show ?thesis using ev oth ws st keeps_bm_trans by blast
  qed
  then show "evolves (write_range ws) a b" "keeps_bm a b" "j \<notin> fst ` set ws \<Longrightarrow> ra_members b ! j = ra_members a ! j"
    "r = Inr () \<Longrightarrow> (m, at, bs) \<in> set ws \<Longrightarrow> hs ! m \<Longrightarrow> mstate b m \<noteq> MFailed \<Longrightarrow> k < length bs \<Longrightarrow> dev_bytes m b (at + k) = bs ! k"
    by blast+
qed

text \<open>
  The writes of a stripe that carry the new image over: every write lies in the stripe and, on a
  member that is read there, has the bytes of the new image; every changed strip is written.
\<close>

definition carries :: "RaidArray \<Rightarrow> nat \<Rightarrow> (nat \<Rightarrow> u8) \<Rightarrow> (nat \<times> nat \<times> bytes) list \<Rightarrow> bool" where
  "carries a s L' ws \<longleftrightarrow> (\<forall>(m, at, bs) \<in> set ws. m < length (ra_members a) \<and>
     (\<exists>lo. at = stripe_base a s + lo \<and> lo + length bs \<le> ra_stripe_size a \<and>
        (holds (ra_members a ! m) ((s + 1) * ra_stripe_size a) \<longrightarrow>
           bs = map (\<lambda>k. strip_byte (geometry a) L' s (role_of (geometry a) s m) (lo + k)) [0..<length bs])))"

definition covers :: "RaidArray \<Rightarrow> nat \<Rightarrow> nat set \<Rightarrow> (nat \<times> nat \<times> bytes) list \<Rightarrow> bool" where
  "covers a s A ws \<longleftrightarrow> (\<forall>i < length (ra_members a). \<forall>j < ra_stripe_size a. hit (geometry a) A s (role_of (geometry a) s i) j \<longrightarrow>
     (\<exists>(m, at, bs) \<in> set ws. m = i \<and> at \<le> stripe_base a s + j \<and> stripe_base a s + j < at + length bs))"

lemma stripe_agree:
  assumes "agree a L X" "ra_wf a" "is_parity (geometry a)" "issue_writes hs ws a = (Inr (), b)" "distinct (map fst ws)"
    and "\<forall>i < length (ra_members a). (holds (ra_members a ! i) ((s + 1) * ra_stripe_size a) \<longrightarrow> hs ! i) \<and> (hs ! i \<longrightarrow> has_device a i)"
    and "carries a s (over off buf A L) ws" "covers a s A ws" "\<forall>p \<in> A. p div stripe_bytes (geometry a) = s"
  shows "agree b (over off buf A L) X"
proof -
  let ?g = "geometry a"
  have u: "g_unit ?g = ra_stripe_size a" "g_n ?g = length (ra_members a)" "0 < ra_stripe_size a" "geometry_ok ?g"
    using assms(2) by (auto simp: geometry_def ra_wf_def geometry_ok_def)
  have dev: "\<forall>(m, at, bs) \<in> set ws. RAID_DATA_OFFSET \<le> at \<and> (hs ! m \<longrightarrow> has_device a m)"
    using assms(6,7) by (force simp: carries_def stripe_base_def)
  note io = issue_writes_spec [OF assms(4) dev assms(5)]
  show ?thesis
  proof (rule agree_step [OF assms(1) io(1)])
    fix i x assume i: "i < length (ra_members a)" and W: "(i, x) \<in> write_range ws" and h: "holds (ra_members b ! i) (hold_end ?g x)"
    obtain at bs where w: "(i, at, bs) \<in> set ws" "at \<le> RAID_DATA_OFFSET + x" "RAID_DATA_OFFSET + x < at + length bs"
      using W by (auto simp: write_range_def in_range_def)
    obtain lo where lo: "at = stripe_base a s + lo" "lo + length bs \<le> ra_stripe_size a"
        "holds (ra_members a ! i) ((s + 1) * ra_stripe_size a) \<longrightarrow>
          bs = map (\<lambda>k. strip_byte ?g (over off buf A L) s (role_of ?g s i) (lo + k)) [0..<length bs]"
      using assms(7) w(1) by (auto simp: carries_def)
    define k where "k = RAID_DATA_OFFSET + x - at"
    have k: "k < length bs" "at + k = RAID_DATA_OFFSET + x" using w(2,3) by (auto simp: k_def)
    have x: "x = s * g_unit ?g + (lo + k)" using k(2) lo(1) u(1) by (simp add: stripe_base_def)
    have j: "lo + k < g_unit ?g" using lo(2) k(1) u(1) by simp
    have "holds (ra_members b ! i) ((s + 1) * ra_stripe_size a)"
      using h hold_end_parity [OF assms(3) j, of s] x u(1) by simp
    moreover from this have "holds (ra_members a ! i) ((s + 1) * ra_stripe_size a)" using evolves_holds [OF io(1) i] by simp
    ultimately have ok: "mstate b i \<noteq> MFailed" "hs ! i" "holds (ra_members a ! i) ((s + 1) * ra_stripe_size a)"
      using failed_holds assms(6) i by blast+
    have "dev_bytes i b (at + k) = bs ! k" using io(4) [OF refl w(1) ok(2,1) k(1)] .
    also have "bs ! k = strip_byte ?g (over off buf A L) s (role_of ?g s i) (lo + k)"
      using lo(3) [rule_format, OF ok(3)] k(1) by (metis (no_types, lifting) add_0 diff_zero nth_map_upt)
    also have "\<dots> = want ?g (over off buf A L) i x" using want_parity [OF assms(3) j] x by simp
    finally show "dev_bytes i b (RAID_DATA_OFFSET + x) = want ?g (over off buf A L) i x" using k(2) by simp
  next
    fix i x assume i: "i < length (ra_members a)" and W: "(i, x) \<notin> write_range ws"
    let ?s = "x div g_unit ?g" and ?j = "x mod g_unit ?g"
    have j: "?j < g_unit ?g" "x = ?s * g_unit ?g + ?j" using u by simp_all
    have "\<not> hit ?g A ?s (role_of ?g ?s i) ?j"
    proof
      assume hit: "hit ?g A ?s (role_of ?g ?s i) ?j"
      have "\<exists>d < data_count ?g. addr ?g ?s d ?j \<in> A"
        using hit role_of_ok [OF u(4) assms(3), of i ?s] i u(2) by (auto simp: hit_def role_ok_def split: StripRole.splits)
      then have s: "?s = s" using assms(9) addr_split(1) [OF _ j(1), of _ ?s] by auto
      have j': "?j < ra_stripe_size a" using j(1) u(1) by simp
      have "\<exists>(m, at, bs) \<in> set ws. m = i \<and> at \<le> stripe_base a s + ?j \<and> stripe_base a s + ?j < at + length bs"
        using assms(8) [unfolded covers_def, rule_format, OF i j'] hit s by simp
      then obtain at bs where "(i, at, bs) \<in> set ws" "at \<le> stripe_base a s + ?j" "stripe_base a s + ?j < at + length bs" by auto
      moreover have "stripe_base a s + ?j = RAID_DATA_OFFSET + x" using j(2) s unfolding stripe_base_def u(1) by (metis add.assoc)
      ultimately have "(i, x) \<in> write_range ws" by (force simp: write_range_def in_range_def)
      then show False using W by simp
    qed
    then show "want ?g (over off buf A L) i x = want ?g L i x" by (rule want_same [OF assms(3)])
  qed
qed

section \<open>The pieces of a stripe\<close>

text \<open>A range is split at the ends of units only.\<close>

definition next_piece :: "Geometry \<Rightarrow> Segment \<Rightarrow> Segment \<Rightarrow> bool" where
  "next_piece g s t \<longleftrightarrow> sg_offset_in_unit s + sg_len s = g_unit g \<and> seg_addr g t = seg_addr g s + sg_len s"

lemma segments_loop_chain:
  assumes "0 < g_unit g" "0 < data_count g" "segments_loop g offset end pos = Some ss"
  shows "successively (next_piece g) ss \<and> (ss \<noteq> [] \<longrightarrow> seg_addr g (hd ss) = pos)"
  using assms
proof (induction g offset "end" pos arbitrary: ss rule: segments_loop.induct)
  case (1 g offset "end" pos)
  have sb: "\<not> (stripe_bytes g = 0 \<or> g_unit g = 0)" using 1(2,3) by (simp add: stripe_bytes_def)
  show ?case
  proof (cases "pos < end")
    case True
    define off where "off = pos mod stripe_bytes g mod g_unit g"
    define take where "take = min (g_unit g - off) (end - pos)"
    define sg where "sg = \<lparr>sg_stripe = pos div stripe_bytes g, sg_index = pos mod stripe_bytes g div g_unit g,
      sg_offset_in_unit = off, sg_len = take, sg_buf_offset = pos - offset\<rparr>"
    obtain ts where ts: "segments_loop g offset end (pos + take) = Some ts" "ss = sg # ts"
      using 1(4) True sb unfolding segments_loop.simps [of g offset "end" pos] Let_def sg_def off_def take_def by auto
    have ih: "successively (next_piece g) ts" "ts \<noteq> [] \<longrightarrow> seg_addr g (hd ts) = pos + take"
      using 1(1) [OF True sb refl off_def take_def 1(2,3) ts(1)] by simp_all
    have ad: "seg_addr g sg = pos" using split_address(1) [OF 1(2,3)] by (simp add: seg_addr_def sg_def off_def)
    have "next_piece g sg (hd ts)" if ne: "ts \<noteq> []"
    proof -
      have "pos + take < end" using ts(1) ne by (subst (asm) segments_loop.simps) (auto split: if_splits)
      then have "off + take = g_unit g" using 1(2) by (simp add: take_def off_def min_def split: if_splits)
      then show ?thesis using ih(2) ne ad by (simp add: next_piece_def sg_def)
    qed
    then show ?thesis using ih ts(2) ad by (cases ts) auto
  next
    case False
    then show ?thesis using 1(4) by (simp add: segments_loop.simps)
  qed
qed

definition group_ok :: "Geometry \<Rightarrow> nat \<Rightarrow> Segment list \<Rightarrow> bool" where
  "group_ok g off segs \<longleftrightarrow> segs \<noteq> [] \<and> (\<forall>t \<in> set segs. seg_ok g off t \<and> sg_stripe t = sg_stripe (hd segs)) \<and>
     successively (next_piece g) segs"

lemma next_index:
  assumes "next_piece g s t" "seg_ok g off s" "seg_ok g off t" "sg_stripe s = sg_stripe t"
  shows "sg_index t = sg_index s + 1" "sg_offset_in_unit t = 0"
proof -
  have "sg_index t * g_unit g + sg_offset_in_unit t = (sg_index s + 1) * g_unit g"
    using assms by (simp add: next_piece_def seg_addr_def)
  moreover have o: "sg_offset_in_unit t < g_unit g" using assms(3) by (simp add: seg_ok_def)
  moreover have "(sg_index t * g_unit g + sg_offset_in_unit t) div g_unit g = sg_index t"
    "(sg_index t * g_unit g + sg_offset_in_unit t) mod g_unit g = sg_offset_in_unit t" using o by simp_all
  ultimately show "sg_index t = sg_index s + 1" "sg_offset_in_unit t = 0"
    by (metis gr_implies_not0 nonzero_mult_div_cancel_right, metis mod_mult_self2_is_0)
qed

lemma group_index:
  assumes "group_ok g off segs" "k < length segs"
  shows "sg_index (segs ! k) = sg_index (hd segs) + k"
  using assms(2)
proof (induction k)
  case 0
  then show ?case by (simp add: hd_conv_nth)
next
  case (Suc k)
  have "next_piece g (segs ! k) (segs ! Suc k)"
    using assms(1) Suc.prems by (simp add: group_ok_def successively_conv_nth)
  moreover have "segs ! k \<in> set segs" "segs ! Suc k \<in> set segs" using Suc.prems by simp_all
  ultimately have "sg_index (segs ! Suc k) = sg_index (segs ! k) + 1"
    using assms(1) next_index(1) unfolding group_ok_def by metis
  then show ?case using Suc by simp
qed

lemma group_distinct: "group_ok g off segs \<Longrightarrow> distinct (map sg_index segs)"
  by (simp add: distinct_conv_nth group_index)

lemma group_takeWhile:
  assumes "\<forall>t \<in> set (s # segs). seg_ok g off t" "successively (next_piece g) (s # segs)"
  shows "group_ok g off (s # takeWhile (\<lambda>t. sg_stripe t = sg_stripe s) segs)"
proof -
  let ?P = "\<lambda>t. sg_stripe t = sg_stripe s"
  have "successively (next_piece g) ((s # takeWhile ?P segs) @ dropWhile ?P segs)" using assms(2) by simp
  then have "successively (next_piece g) (s # takeWhile ?P segs)" using successively_append_iff by blast
  then show ?thesis using assms(1) by (auto simp: group_ok_def dest: set_takeWhileD)
qed

lemma stripe_groups_spec:
  assumes "\<forall>t \<in> set segs. seg_ok g off t" "successively (next_piece g) segs"
  shows "concat (stripe_groups segs) = segs \<and> (\<forall>grp \<in> set (stripe_groups segs). group_ok g off grp)"
  using assms
proof (induction segs rule: stripe_groups.induct)
  case 1
  then show ?case by simp
next
  case (2 s segs)
  let ?P = "\<lambda>t. sg_stripe t = sg_stripe s"
  have "successively (next_piece g) ((s # takeWhile ?P segs) @ dropWhile ?P segs)" using 2(3) by simp
  then have "successively (next_piece g) (dropWhile ?P segs)" using successively_append_iff by blast
  then have "concat (stripe_groups (dropWhile ?P segs)) = dropWhile ?P segs \<and>
      (\<forall>grp \<in> set (stripe_groups (dropWhile ?P segs)). group_ok g off grp)"
    using 2(1,2) by (auto dest: set_dropWhileD)
  then show ?case using group_takeWhile [OF 2(2,3)] by simp
qed

lemma group_okD:
  assumes "group_ok g off segs" "t \<in> set segs"
  shows "seg_ok g off t" "sg_stripe t = sg_stripe (hd segs)"
  using assms unfolding group_ok_def by blast+

lemma group_index_less: "group_ok g off segs \<Longrightarrow> t \<in> set segs \<Longrightarrow> sg_index t < data_count g"
  using group_okD(1) by (force simp: seg_ok_def)

definition group_addrs :: "Geometry \<Rightarrow> Segment list \<Rightarrow> nat set" where
  "group_addrs g segs = (\<Union>t \<in> set segs. seg_addrs g t)"

lemma group_addrs_stripe:
  assumes "group_ok g off segs" "p \<in> group_addrs g segs"
  shows "p div stripe_bytes g = sg_stripe (hd segs)"
proof -
  obtain t where t: "t \<in> set segs" "p \<in> seg_addrs g t" using assms(2) by (auto simp: group_addrs_def)
  note ok = group_okD [OF assms(1) t(1)]
  show ?thesis using seg_split(1) [OF ok(1), of "p - seg_addr g t"] t(2) ok(2) by (auto simp: seg_addrs_def)
qed

text \<open>The piece a changed byte of a stripe belongs to.\<close>

lemma group_addr_piece:
  assumes "group_ok g off segs" "addr g s d j \<in> group_addrs g segs" "d < data_count g" "j < g_unit g"
  shows "s = sg_stripe (hd segs) \<and> (\<exists>t \<in> set segs. sg_index t = d \<and> sg_offset_in_unit t \<le> j \<and> j < sg_offset_in_unit t + sg_len t)"
proof -
  obtain t where t: "t \<in> set segs" "addr g s d j \<in> seg_addrs g t" using assms(2) by (auto simp: group_addrs_def)
  note ok = group_okD [OF assms(1) t(1)]
  define k where "k = addr g s d j - seg_addr g t"
  have k: "k < sg_len t" "addr g s d j = seg_addr g t + k" using t(2) by (auto simp: seg_addrs_def k_def)
  have "s = sg_stripe t" "d = sg_index t" "j = sg_offset_in_unit t + k"
    using seg_split [OF ok(1) k(1)] addr_split [OF assms(3,4), of s] k(2) by simp_all
  then show ?thesis using k(1) ok(2) t(1) by auto
qed

text \<open>The writes of a column: the touched data strips and the parities.\<close>

definition column_writes :: "RaidArray \<Rightarrow> nat \<Rightarrow> nat \<Rightarrow> Segment list \<Rightarrow> bytes list \<Rightarrow> bytes \<times> bytes \<Rightarrow> (nat \<times> nat \<times> bytes) list" where
  "column_writes a s lo segs D pq =
     map (\<lambda>t. (data_member (geometry a) s (sg_index t), stripe_base a s + lo, D ! sg_index t)) segs
     @ parity_writes a s (stripe_base a s + lo) pq"

lemma data_member_inj:
  assumes "geometry_ok g" "is_parity g" "d < data_count g" "e < data_count g" "data_member g s d = data_member g s e"
  shows "d = e"
  using role_of_data_member [OF assms(1,2,3), of s] role_of_data_member [OF assms(1,2,4), of s] assms(5)
  by (metis StripRole.inject)

lemma column_writes_distinct:
  assumes "ra_wf a" "is_parity (geometry a)" "group_ok (geometry a) off segs"
  shows "distinct (map fst (column_writes a s lo segs D pq))"
proof -
  let ?g = "geometry a"
  have g: "geometry_ok ?g" using assms(1) by (simp add: ra_wf_def)
  have i: "\<forall>t \<in> set segs. sg_index t < data_count ?g" using group_index_less [OF assms(3)] by blast
  have "distinct (map (\<lambda>t. data_member ?g s (sg_index t)) segs)"
    using group_distinct [OF assms(3)] data_member_inj [OF g assms(2)] i by (auto simp: distinct_map inj_on_def)
  moreover have "p_member ?g s \<notin> (\<lambda>t. data_member ?g s (sg_index t)) ` set segs"
  proof
    assume "p_member ?g s \<in> (\<lambda>t. data_member ?g s (sg_index t)) ` set segs"
    then obtain t where "t \<in> set segs" "p_member ?g s = data_member ?g s (sg_index t)" by blast
    then show False using role_of_data_member [OF g assms(2), of "sg_index t" s] i role_of_p [of ?g s "p_member ?g s"] by auto
  qed
  moreover have "q_member ?g s \<notin> (\<lambda>t. data_member ?g s (sg_index t)) ` set segs" if "ra_level a = Raid6"
  proof
    assume "q_member ?g s \<in> (\<lambda>t. data_member ?g s (sg_index t)) ` set segs"
    then obtain t where "t \<in> set segs" "q_member ?g s = data_member ?g s (sg_index t)" by blast
    then show False using role_of_data_member [OF g assms(2), of "sg_index t" s] i role_of_q [of ?g s "q_member ?g s"]
        q_member_neq [OF g, of s] that by (auto simp: geometry_def)
  qed
  ultimately show ?thesis using q_member_neq [OF g, of s]
    by (auto simp: column_writes_def parity_writes_def comp_def)
qed

lemma column_writes_carry:
  assumes "ra_wf a" "is_parity (geometry a)" "group_ok (geometry a) off segs" "lo + len \<le> ra_stripe_size a"
    and "D = col (geometry a) L' s lo len" "length (fst pq) = len" "ra_level a = Raid6 \<longrightarrow> length (snd pq) = len"
    and "holds (ra_members a ! p_member (geometry a) s) ((s + 1) * ra_stripe_size a) \<longrightarrow> fst pq = map (p_sum D) [0..<len]"
    and "ra_level a = Raid6 \<longrightarrow> holds (ra_members a ! q_member (geometry a) s) ((s + 1) * ra_stripe_size a) \<longrightarrow> snd pq = map (q_sum D) [0..<len]"
  shows "carries a s L' (column_writes a s lo segs D pq)"
proof -
  let ?g = "geometry a"
  have g: "geometry_ok ?g" "g_n ?g = length (ra_members a)" "g_level ?g = ra_level a" using assms(1) by (simp_all add: ra_wf_def geometry_def)
  have i: "\<forall>t \<in> set segs. sg_index t < data_count ?g" using group_index_less [OF assms(3)] by blast
  have one: "m < length (ra_members a) \<and> (\<exists>lo'. stripe_base a s + lo = stripe_base a s + lo' \<and> lo' + length bs \<le> ra_stripe_size a \<and>
        (holds (ra_members a ! m) ((s + 1) * ra_stripe_size a) \<longrightarrow>
           bs = map (\<lambda>k. strip_byte ?g L' s (role_of ?g s m) (lo' + k)) [0..<length bs]))"
    if "m < length (ra_members a)" "length bs = len"
      "holds (ra_members a ! m) ((s + 1) * ra_stripe_size a) \<longrightarrow> bs = strip_of len D (role_of ?g s m)" for m bs
    using that assms(4,5) strip_of_col [OF role_of_ok [OF g(1) assms(2), of m s], of len L' s lo] g(2) by auto
  have p: "role_of ?g s (p_member ?g s) = RoleP" by (simp add: role_of_p)
  have q: "ra_level a = Raid6 \<Longrightarrow> role_of ?g s (q_member ?g s) = RoleQ"
    using q_member_neq [OF g(1)] g(3) by (simp add: role_of_q)
  have pq: "p_member ?g s < length (ra_members a)" "q_member ?g s < length (ra_members a)"
    using p_member_less [of ?g s] q_member_less [OF g(1), of s] geometry_n(1) [OF g(1)] g(2) by auto
  have "data_member ?g s (sg_index t) < length (ra_members a)" "role_of ?g s (data_member ?g s (sg_index t)) = RoleData (sg_index t)"
    "length (D ! sg_index t) = len" if "t \<in> set segs" for t
    using data_member_less [OF g(1)] g(2) role_of_data_member [OF g(1) assms(2)] i that assms(5) by (auto simp: nth_col)
  note d = this
  have "\<forall>(m, at, bs) \<in> set (map (\<lambda>t. (data_member ?g s (sg_index t), stripe_base a s + lo, D ! sg_index t)) segs).
      at = stripe_base a s + lo \<and> m < length (ra_members a) \<and> length bs = len \<and>
      (holds (ra_members a ! m) ((s + 1) * ra_stripe_size a) \<longrightarrow> bs = strip_of len D (role_of ?g s m))"
    using d by (auto simp: strip_of_def)
  moreover have "\<forall>(m, at, bs) \<in> set (parity_writes a s (stripe_base a s + lo) pq).
      at = stripe_base a s + lo \<and> m < length (ra_members a) \<and> length bs = len \<and>
      (holds (ra_members a ! m) ((s + 1) * ra_stripe_size a) \<longrightarrow> bs = strip_of len D (role_of ?g s m))"
    using p q pq assms(6-9) by (auto simp: strip_of_def parity_writes_def)
  ultimately have all: "\<forall>(m, at, bs) \<in> set (column_writes a s lo segs D pq).
      at = stripe_base a s + lo \<and> m < length (ra_members a) \<and> length bs = len \<and>
      (holds (ra_members a ! m) ((s + 1) * ra_stripe_size a) \<longrightarrow> bs = strip_of len D (role_of ?g s m))"
    unfolding column_writes_def set_append by blast
  show ?thesis unfolding carries_def
  proof (clarify)
    fix m at bs assume "(m, at, bs) \<in> set (column_writes a s lo segs D pq)"
    then have "at = stripe_base a s + lo" "m < length (ra_members a)" "length bs = len"
      "holds (ra_members a ! m) ((s + 1) * ra_stripe_size a) \<longrightarrow> bs = strip_of len D (role_of ?g s m)" using all by auto
    then show "m < length (ra_members a) \<and> (\<exists>lo'. at = stripe_base a s + lo' \<and> lo' + length bs \<le> ra_stripe_size a \<and>
        (holds (ra_members a ! m) ((s + 1) * ra_stripe_size a) \<longrightarrow>
           bs = map (\<lambda>k. strip_byte ?g L' s (role_of ?g s m) (lo' + k)) [0..<length bs]))"
      using one by simp
  qed
qed

lemma column_writes_cover:
  assumes "ra_wf a" "is_parity (geometry a)" "group_ok (geometry a) off segs" "s = sg_stripe (hd segs)"
    and "D = col (geometry a) L' s lo len" "length (fst pq) = len" "ra_level a = Raid6 \<longrightarrow> length (snd pq) = len"
    and "\<forall>t \<in> set segs. lo \<le> sg_offset_in_unit t \<and> sg_offset_in_unit t + sg_len t \<le> lo + len"
  shows "covers a s (group_addrs (geometry a) segs) (column_writes a s lo segs D pq)"
  unfolding covers_def
proof (intro allI impI)
  let ?g = "geometry a" and ?ws = "column_writes a s lo segs D pq"
  have g: "geometry_ok ?g" "g_n ?g = length (ra_members a)" "g_level ?g = ra_level a" "g_unit ?g = ra_stripe_size a"
    using assms(1) by (simp_all add: ra_wf_def geometry_def)
  fix i j assume i: "i < length (ra_members a)" and j: "j < ra_stripe_size a" and h: "hit ?g (group_addrs ?g segs) s (role_of ?g s i) j"
  note inv = role_of_data_inverse [OF g(1) assms(2), of i s]
  have "\<exists>d < data_count ?g. addr ?g s d j \<in> group_addrs ?g segs"
    using h inv i g(2) by (auto simp: hit_def split: StripRole.splits)
  then obtain d where d: "d < data_count ?g" "addr ?g s d j \<in> group_addrs ?g segs" by blast
  have jl: "lo \<le> j \<and> j < lo + len" if "d < data_count ?g" "addr ?g s d j \<in> group_addrs ?g segs" for d
    using group_addr_piece [OF assms(3) that(2,1)] j g(4) assms(8) by fastforce
  have mem: "\<exists>bs. (i, stripe_base a s + lo, bs) \<in> set ?ws \<and> length bs = len"
  proof (cases "role_of ?g s i")
    case (RoleData e)
    then have e: "e < data_count ?g" "data_member ?g s e = i" using inv i g(2) by auto
    then obtain t where "t \<in> set segs" "sg_index t = e"
      using group_addr_piece [OF assms(3) _ e(1)] h RoleData j g(4) by (auto simp: hit_def)
    then show ?thesis using e assms(5) by (auto simp: column_writes_def nth_col intro!: exI [of _ "D ! e"] image_eqI [of _ _ t])
  next
    case RoleP
    then show ?thesis using assms(6) by (auto simp: column_writes_def parity_writes_def role_of_p)
  next
    case RoleQ
    then show ?thesis using assms(7) g(3) by (auto simp: column_writes_def parity_writes_def role_of_q)
  qed
  then show "\<exists>(m, at, bs) \<in> set ?ws. m = i \<and> at \<le> stripe_base a s + j \<and> stripe_base a s + j < at + length bs"
    using jl [OF d] by (force intro: bexI [rotated])
qed

text \<open>So writing a column carries the new image over.\<close>

lemma column_agree:
  assumes "agree a L X" "ra_wf a" "is_parity (geometry a)" "group_ok (geometry a) off segs" "s = sg_stripe (hd segs)"
    and "issue_writes hs (column_writes a s lo segs D pq) a = (Inr (), b)"
    and "\<forall>i < length (ra_members a). (holds (ra_members a ! i) ((s + 1) * ra_stripe_size a) \<longrightarrow> hs ! i) \<and> (hs ! i \<longrightarrow> has_device a i)"
    and "lo + len \<le> ra_stripe_size a" "\<forall>t \<in> set segs. lo \<le> sg_offset_in_unit t \<and> sg_offset_in_unit t + sg_len t \<le> lo + len"
    and "D = col (geometry a) (over off buf (group_addrs (geometry a) segs) L) s lo len"
    and "length (fst pq) = len" "ra_level a = Raid6 \<longrightarrow> length (snd pq) = len"
    and "holds (ra_members a ! p_member (geometry a) s) ((s + 1) * ra_stripe_size a) \<longrightarrow> fst pq = map (p_sum D) [0..<len]"
    and "ra_level a = Raid6 \<longrightarrow> holds (ra_members a ! q_member (geometry a) s) ((s + 1) * ra_stripe_size a) \<longrightarrow> snd pq = map (q_sum D) [0..<len]"
  shows "agree b (over off buf (group_addrs (geometry a) segs) L) X"
  by (rule stripe_agree [OF assms(1,2,3,6) column_writes_distinct [OF assms(2,3,4)] assms(7)
        column_writes_carry [OF assms(2,3,4,8,10-14)] column_writes_cover [OF assms(2,3,4,5,10,11,12,9)]])
    (use group_addrs_stripe [OF assms(4)] assms(5) in simp)

end
