(* ===== verification/RaidStripe.thy ===== *)
theory RaidStripe
  imports RaidWrite
begin

text \<open>
  The three ways to write a stripe of a parity set (\<open>parity_write_stripe\<close>): whole, by
  read-modify-write and by reconstruction, the retries between them, and the stripes of a range.
\<close>

section \<open>Columns of the new image\<close>

definition fits :: "bytes \<Rightarrow> Segment \<Rightarrow> bool" where
  "fits buf t \<longleftrightarrow> sg_buf_offset t + sg_len t \<le> length buf"

lemma seg_data_over:
  assumes "seg_ok g off t" "fits buf t" "seg_addrs g t \<subseteq> A"
  shows "seg_data buf t = seg_bytes g (over off buf A L) t"
proof (rule nth_equalityI)
  show l: "length (seg_data buf t) = length (seg_bytes g (over off buf A L) t)"
    using assms(2) by (simp add: seg_data_def seg_bytes_def fits_def)
  fix k assume "k < length (seg_data buf t)"
  then have k: "k < sg_len t" using l by (simp add: seg_bytes_def)
  have "seg_addr g t + k \<in> A" using k assms(3) by (auto simp: seg_addrs_def)
  moreover have "seg_addr g t + k - off = sg_buf_offset t + k" using assms(1) by (auto simp: seg_ok_def)
  ultimately show "seg_data buf t ! k = seg_bytes g (over off buf A L) t ! k"
    using k assms(2) by (simp add: seg_data_def seg_bytes_def fits_def nth_slice over_def)
qed

lemma column_parity_spec:
  assumes "D \<noteq> []" "\<forall>c \<in> set D. length c = len"
  shows "\<exists>q. column_parity a D len = Some (map (p_sum D) [0..<len], q) \<and> length q = len \<and>
    (ra_level a = Raid6 \<longrightarrow> q = map (q_sum D) [0..<len])"
proof (cases "ra_level a = Raid6")
  case True
  have "pq_at (ra_engine a) D (Some (zero_buf len)) (zero_buf len) = (Some (map (p_sum D) [0..<len]), map (q_sum D) [0..<len])"
    using assms by (subst pq_at_spec [where len = len]) auto
  then show ?thesis using True assms by (simp add: column_parity_def compute_raid6_parity_def list_all_iff)
next
  case False
  have "length (xor_strips D) = len" using assms xor_strips_nth [OF assms] by (cases D) (auto simp: xor_strips_def)
  then have "xor_strips D = map (p_sum D) [0..<len]"
    using xor_strips_nth [OF assms] by (intro nth_equalityI) auto
  then show ?thesis using False assms by (simp add: column_parity_def compute_xor_parity_spec)
qed

section \<open>Frames\<close>

definition in_stripe :: "RaidArray \<Rightarrow> nat \<Rightarrow> (nat \<times> nat) set" where
  "in_stripe a s = {(i, x). x div ra_stripe_size a = s}"

lemma in_stripe_evolves: "evolves W a b \<Longrightarrow> in_stripe b s = in_stripe a s"
  using evolves_shape(2) by (simp add: in_stripe_def)

text \<open>What the state before the first write of a stripe says of later ones.\<close>

definition held_by :: "bool list \<Rightarrow> nat \<Rightarrow> RaidArray \<Rightarrow> bool" where
  "held_by hs s a \<longleftrightarrow> (\<forall>i < length (ra_members a).
     (holds (ra_members a ! i) ((s + 1) * ra_stripe_size a) \<longrightarrow> hs ! i) \<and> (hs ! i \<longrightarrow> has_device a i))"

lemma held_by_now: "held_by (ra_holders a ((s + 1) * ra_stripe_size a)) s a"
  by (simp add: held_by_def holder_at has_device_def) (simp add: holds_def)

lemma held_by_evolves:
  assumes "held_by hs s a" "evolves W a b"
  shows "held_by hs s b"
  using assms(1) evolves_holds [OF assms(2)] has_device_evolves [OF assms(2)] evolves_shape(2,6) [OF assms(2)]
  by (simp add: held_by_def)

lemma column_frame:
  assumes "issue_writes hs (column_writes a s lo segs D pq) a = (r, b)" "ra_wf a" "is_parity (geometry a)"
    and "group_ok (geometry a) off segs" "held_by hs s a" "lo + len \<le> ra_stripe_size a"
    and "\<forall>t \<in> set segs. length (D ! sg_index t) = len" "length (fst pq) = len" "ra_level a = Raid6 \<longrightarrow> length (snd pq) = len"
  shows "evolves (in_stripe a s) a b" "keeps_bm a b"
    "j \<notin> fst ` set (column_writes a s lo segs D pq) \<Longrightarrow> ra_members b ! j = ra_members a ! j"
proof -
  let ?ws = "column_writes a s lo segs D pq"
  have g: "geometry_ok (geometry a)" "g_n (geometry a) = length (ra_members a)" using assms(2) by (simp_all add: ra_wf_def geometry_def)
  have el: "m < length (ra_members a) \<and> at = stripe_base a s + lo \<and> length bs = len" if "(m, at, bs) \<in> set ?ws" for m at bs
    using that assms(7-9) p_member_less [of "geometry a" s] q_member_less [OF g(1), of s] geometry_n(1) [OF g(1)] data_member_less [OF g(1)] g(2)
    by (auto simp: column_writes_def parity_writes_def split: if_splits)
  have dev: "\<forall>(m, at, bs) \<in> set ?ws. RAID_DATA_OFFSET \<le> at \<and> (hs ! m \<longrightarrow> has_device a m)"
    using el assms(5) by (fastforce simp: held_by_def stripe_base_def)
  note io = issue_writes_spec [OF assms(1) dev column_writes_distinct [OF assms(2-4)]]
  have "write_range ?ws \<subseteq> in_stripe a s"
  proof (clarify)
    fix i x assume "(i, x) \<in> write_range ?ws"
    then obtain at bs where w: "(i, at, bs) \<in> set ?ws" "at \<le> RAID_DATA_OFFSET + x" "RAID_DATA_OFFSET + x < at + length bs"
      by (auto simp: write_range_def in_range_def)
    then have "s * ra_stripe_size a \<le> x" "x < (s + 1) * ra_stripe_size a" using el [OF w(1)] assms(6) by (auto simp: stripe_base_def)
    then have "x div ra_stripe_size a = s" by (metis Suc_eq_plus1 div_nat_eqI mult.commute)
    then show "(i, x) \<in> in_stripe a s" by (simp add: in_stripe_def)
  qed
  then show "evolves (in_stripe a s) a b" using io(1) evolves_mono by blast
  show "keeps_bm a b" by (rule io(2))
  show "j \<notin> fst ` set ?ws \<Longrightarrow> ra_members b ! j = ra_members a ! j" by (rule io(3))
qed

section \<open>Whole stripes\<close>

lemma full_group:
  assumes "is_full a segs" "group_ok (geometry a) off segs" "k < length segs"
  shows "sg_index (segs ! k) = k"
proof -
  let ?n = "length segs"
  have n: "0 < ?n" "?n = data_count (geometry a)" using assms by (auto simp: is_full_def)
  have "sg_index (segs ! (?n - 1)) < data_count (geometry a)" using group_index_less [OF assms(2)] n(1) by simp
  moreover have "sg_index (segs ! (?n - 1)) = sg_index (hd segs) + (?n - 1)" by (rule group_index [OF assms(2)]) (use n(1) in simp)
  ultimately have "sg_index (hd segs) = 0" using n by simp
  then show ?thesis using group_index [OF assms(2,3)] by simp
qed

lemma full_writes_spec:
  assumes "ra_wf a" "is_full a segs" "group_ok (geometry a) off segs" "\<forall>t \<in> set segs. fits buf t" "s = sg_stripe (hd segs)"
    and "D = col (geometry a) (over off buf (group_addrs (geometry a) segs) L) s 0 (ra_stripe_size a)"
  shows "\<exists>q. full_writes a segs buf = Some (column_writes a s 0 segs D (map (p_sum D) [0..<ra_stripe_size a], q)) \<and>
    length q = ra_stripe_size a \<and> (ra_level a = Raid6 \<longrightarrow> q = map (q_sum D) [0..<ra_stripe_size a])"
proof -
  let ?g = "geometry a" and ?A = "group_addrs (geometry a) segs"
  let ?data = "map (\<lambda>t. slice_of (sg_buf_offset t) (sg_buf_offset t + ra_stripe_size a) buf) segs"
  have len: "\<forall>t \<in> set segs. sg_offset_in_unit t = 0 \<and> sg_len t = ra_stripe_size a" using assms(2) by (simp add: is_full_def list_all_iff)
  have data: "?data = D"
  proof (rule nth_equalityI)
    show "length ?data = length D" using assms(2,6) by (simp add: is_full_def)
    fix k assume "k < length ?data"
    then have k: "k < length segs" "segs ! k \<in> set segs" by simp_all
    have "?data ! k = seg_data buf (segs ! k)" using k len by (simp add: seg_data_def)
    also have "\<dots> = seg_bytes ?g (over off buf ?A L) (segs ! k)"
      by (rule seg_data_over [OF group_okD(1) [OF assms(3) k(2)]]) (use assms(4) k(2) in \<open>auto simp: group_addrs_def\<close>)
    also have "\<dots> = D ! k"
      using seg_bytes_col [OF group_index_less [OF assms(3) k(2)], of "over off buf ?A L"] full_group [OF assms(2,3) k(1)]
        len k(2) assms(5,6) group_okD(2) [OF assms(3) k(2)] by simp
    finally show "?data ! k = D ! k" .
  qed
  have "D \<noteq> []" using assms(1,6) geometry_n(2) [of ?g] by (auto simp: ra_wf_def col_def)
  moreover have "\<forall>c \<in> set D. length c = ra_stripe_size a" using col_lengths assms(6) by simp
  ultimately obtain q where "column_parity a D (ra_stripe_size a) = Some (map (p_sum D) [0..<ra_stripe_size a], q)"
      "length q = ra_stripe_size a" "ra_level a = Raid6 \<longrightarrow> q = map (q_sum D) [0..<ra_stripe_size a]"
    using column_parity_spec by blast
  then show ?thesis
    unfolding full_writes_def Let_def data using assms(5) by (intro exI [of _ q]) (simp add: column_writes_def)
qed

text \<open>Either all of a stripe is known to belong to the image, or nothing is asked of it.\<close>

definition known :: "RaidArray \<Rightarrow> nat \<Rightarrow> nat set \<Rightarrow> bool" where
  "known a s X \<longleftrightarrow> X = {} \<or> (\<forall>x. x div ra_stripe_size a = s \<longrightarrow> x \<in> X)"

lemma agree_none [simp]: "agree a L {}"
  by (simp add: agree_def)

lemma known_evolves: "known a s X \<Longrightarrow> evolves W a b \<Longrightarrow> known b s X"
  using evolves_shape(2) by (simp add: known_def)

lemma known_column:
  assumes "known a s X" "X \<noteq> {}" "lo + len \<le> ra_stripe_size a"
  shows "col_at (geometry a) s lo len \<subseteq> X"
proof
  fix x assume "x \<in> col_at (geometry a) s lo len"
  then have "s * ra_stripe_size a \<le> x" "x < (s + 1) * ra_stripe_size a" using assms(3) by (auto simp: col_at_def geometry_def)
  then have "x div ra_stripe_size a = s" by (metis Suc_eq_plus1 div_nat_eqI mult.commute)
  then show "x \<in> X" using assms(1,2) by (simp add: known_def)
qed

text \<open>The outcome of a write of a stripe.\<close>

definition stripe_done :: "nat \<Rightarrow> (nat \<Rightarrow> u8) \<Rightarrow> nat set \<Rightarrow> RaidArray \<Rightarrow> unit res \<Rightarrow> bool" where
  "stripe_done s L' X a res \<longleftrightarrow> (\<exists>r b. res = Some (r, b) \<and> evolves (in_stripe a s) a b \<and> keeps_bm a b \<and> (r = Inr () \<longrightarrow> agree b L' X))"

lemma check_after_write_done:
  assumes "evolves (in_stripe a s) a b" "keeps_bm a b" "agree b L' X"
  shows "stripe_done s L' X a (Some (check_after_write b))"
  using assms by (simp add: stripe_done_def check_after_write_def)

lemma issue_done:
  assumes "agree a L X" "ra_wf a" "is_parity (geometry a)" "group_ok (geometry a) off segs" "s = sg_stripe (hd segs)"
    and "held_by hs s a" "lo + len \<le> ra_stripe_size a"
    and "\<forall>t \<in> set segs. lo \<le> sg_offset_in_unit t \<and> sg_offset_in_unit t + sg_len t \<le> lo + len"
    and "length D = data_count (geometry a)" "\<forall>c \<in> set D. length c = len"
    and "X \<noteq> {} \<longrightarrow> D = col (geometry a) (over off buf (group_addrs (geometry a) segs) L) s lo len"
    and "length (fst pq) = len" "ra_level a = Raid6 \<longrightarrow> length (snd pq) = len"
    and "fst pq = map (p_sum D) [0..<len]" "ra_level a = Raid6 \<longrightarrow> snd pq = map (q_sum D) [0..<len]"
  shows "stripe_done s (over off buf (group_addrs (geometry a) segs) L) X a
    (then_res (Some (issue_writes hs (column_writes a s lo segs D pq) a)) (\<lambda>_ b. Some (check_after_write b)))"
proof -
  obtain r b where i: "issue_writes hs (column_writes a s lo segs D pq) a = (r, b)" by fastforce
  have D: "\<forall>t \<in> set segs. length (D ! sg_index t) = len" using assms(9,10) group_index_less [OF assms(4)] by simp
  note fr = column_frame [OF i assms(2-4,6,7) D assms(12,13)]
  show ?thesis
  proof (cases r)
    case (Inl e)
    then show ?thesis using fr i by (simp add: then_res_def stripe_done_def)
  next
    case (Inr u)
    have "agree b (over off buf (group_addrs (geometry a) segs) L) X"
    proof (cases "X = {}")
      case False
      then show ?thesis
        using column_agree [OF assms(1-5) _ assms(6) [unfolded held_by_def] assms(7,8) _ assms(12,13), of D b buf] i Inr assms(11,14,15) by simp
    qed simp
    then show ?thesis using fr i Inr check_after_write_done by (simp add: then_res_def)
  qed
qed

section \<open>Read-modify-write\<close>

lemma rmw_parity:
  assumes "length old = len" "length p = len" "length q = len" "length new = len"
  shows "\<exists>delta p' q'. xor_in_place lv old new = Some delta \<and> xor_in_place lv p delta = Some p' \<and> q_update lv q delta x = Some q' \<and>
    length p' = len \<and> length q' = len \<and>
    (\<forall>D. (\<forall>c \<in> set D. length c = len) \<longrightarrow> x < length D \<longrightarrow> old = D ! x \<longrightarrow>
       (p = map (p_sum D) [0..<len] \<longrightarrow> p' = map (p_sum (D[x := new])) [0..<len]) \<and>
       (q = map (q_sum D) [0..<len] \<longrightarrow> q' = map (q_sum (D[x := new])) [0..<len]))"
proof -
  define delta where "delta = map2 (XOR) old new"
  have d: "xor_in_place lv old new = Some delta" "length delta = len" using assms by (simp_all add: xor_in_place_spec delta_def)
  obtain p' where p': "xor_in_place lv p delta = Some p'" "length p' = len" using assms d(2) by (simp add: xor_in_place_spec)
  obtain q' where q': "q_update lv q delta x = Some q'" "length q' = len" using assms d(2) by (simp add: q_update_def gf_mul_xor_spec)
  show ?thesis
  proof (intro exI conjI allI impI)
    fix D assume D: "\<forall>c \<in> set D. length c = len" "x < length D" "old = D ! x"
    note r = rmw_spec [OF D(1,2) assms(4), of lv delta]
    show "p = map (p_sum D) [0..<len] \<Longrightarrow> p' = map (p_sum (D[x := new])) [0..<len]" using r d(1) D(3) p'(1) by simp
    show "q = map (q_sum D) [0..<len] \<Longrightarrow> q' = map (q_sum (D[x := new])) [0..<len]" using r d(1) D(3) q'(1) by simp
  qed (use d p' q' in simp_all)
qed

lemma rmw_failed_spec: "\<exists>r b. rmw_failed who e a = Some (r, b) \<and> quiet a b \<and> r \<noteq> Inr (Some ())"
  using quiet_fail [of who a] by (cases "fail_member who a") (auto simp: rmw_failed_def)

lemma col_update:
  assumes "seg_ok g off t" "fits buf t"
  shows "(col g L (sg_stripe t) (sg_offset_in_unit t) (sg_len t))[sg_index t := seg_data buf t]
    = col g (over off buf (seg_addrs g t) L) (sg_stripe t) (sg_offset_in_unit t) (sg_len t)"
proof (rule nth_equalityI)
  let ?s = "sg_stripe t" and ?o = "sg_offset_in_unit t" and ?n = "sg_len t"
  fix d assume "d < length ((col g L ?s ?o ?n)[sg_index t := seg_data buf t])"
  then have d: "d < data_count g" by simp
  have i: "sg_index t < data_count g" "?o + ?n \<le> g_unit g" using assms(1) by (simp_all add: seg_ok_def)
  show "(col g L ?s ?o ?n)[sg_index t := seg_data buf t] ! d = col g (over off buf (seg_addrs g t) L) ?s ?o ?n ! d"
  proof (cases "d = sg_index t")
    case True
    then show ?thesis using seg_data_over [OF assms subset_refl, of L] seg_bytes_col [OF i(1), of "over off buf (seg_addrs g t) L"] i(1) by simp
  next
    case False
    have "addr g ?s d (?o + k) \<notin> seg_addrs g t" if k: "k < ?n" for k
    proof
      assume "addr g ?s d (?o + k) \<in> seg_addrs g t"
      then obtain k' where k': "k' < ?n" "addr g ?s d (?o + k) = seg_addr g t + k'" by (auto simp: seg_addrs_def dest!: le_Suc_ex)
      then show False using seg_split(2) [OF assms(1) k'(1)] addr_split(2) [OF d, of "?o + k" ?s] k i(2) False by simp
    qed
    then show ?thesis using False d by (simp add: nth_col over_def addr_def)
  qed
qed simp

lemma group_single: "seg_ok g off t \<Longrightarrow> group_ok g off [t]"
  by (simp add: group_ok_def)

lemma group_addrs_single [simp]: "group_addrs g [t] = seg_addrs g t"
  by (simp add: group_addrs_def)

lemma group_addrs_Cons: "group_addrs g (t # segs) = seg_addrs g t \<union> group_addrs g segs"
  by (simp add: group_addrs_def)

text \<open>What is read of a column, when its stripe is known.\<close>

lemma column_read:
  assumes "agree a L X" "ra_wf a" "is_parity (geometry a)" "known a s X" "X \<noteq> {}" "i < length (ra_members a)" "lo + len \<le> ra_stripe_size a"
    and "holds (ra_members a ! i) ((s + 1) * ra_stripe_size a)" "dev_read i (stripe_base a s + lo) len c = (Inr bs, d)" "ra_members c = ra_members a"
  shows "bs = strip_of len (col (geometry a) L s lo len) (role_of (geometry a) s i)"
proof -
  have "bs = map (dev_bytes i c) [stripe_base a s + lo..<stripe_base a s + lo + len]" using dev_read_spec(4) [OF assms(9)] by simp
  moreover have "dev_bytes i c = dev_bytes i a" using assms(10) by (simp add: dev_bytes_def)
  ultimately show ?thesis
    using agree_column [OF assms(1,3) _ assms(6,7) known_column [OF assms(4,5,7)]] assms(2,8) holder_at [OF assms(6)]
    by (simp add: stripe_base_def ra_wf_def)
qed

lemma read_length: "dev_read i at len a = (Inr bs, b) \<Longrightarrow> length bs = len"
  using dev_read_spec(4) by fastforce

text \<open>The outcome of read-modify-writes.\<close>

definition rmw_done :: "nat \<Rightarrow> (nat \<Rightarrow> u8) \<Rightarrow> (nat \<Rightarrow> u8) \<Rightarrow> nat set \<Rightarrow> nat set \<Rightarrow> RaidArray \<Rightarrow> unit option res \<Rightarrow> bool" where
  "rmw_done s L L' J X a res \<longleftrightarrow> (\<exists>r b. res = Some (r, b) \<and> evolves (in_stripe a s) a b \<and> keeps_bm a b \<and>
     (r = Inr None \<longrightarrow> agree b L X) \<and>
     (r = Inr (Some ()) \<longrightarrow> agree b L' X \<and> (\<forall>j. j \<notin> J \<longrightarrow> ra_members b ! j = ra_members a ! j)))"

lemma rmw_done_quiet:
  assumes "quiet a c" "agree a L X"
  shows "rmw_done s L L' J X a (rmw_failed who e c)"
proof -
  obtain r b where b: "rmw_failed who e c = Some (r, b)" "quiet c b" "r \<noteq> Inr (Some ())" using rmw_failed_spec by blast
  have "quiet a b" using quiet_trans [OF assms(1) b(2)] .
  then show ?thesis using b agree_quiet [OF assms(2)] evolves_mono [of "{}"] by (auto simp: rmw_done_def quiet_def)
qed

lemma rmw_write:
  assumes "agree a L X" "ra_wf a" "is_parity (geometry a)" "seg_ok (geometry a) off t" "s = sg_stripe t" "held_by hs s a"
    and "length new = sg_len t" "length p = sg_len t" "ra_level a = Raid6 \<longrightarrow> length q = sg_len t"
    and "X \<noteq> {} \<Longrightarrow> D = col (geometry a) (over off buf (seg_addrs (geometry a) t) L) s (sg_offset_in_unit t) (sg_len t) \<and> new = D ! sg_index t \<and>
      (holds (ra_members a ! p_member (geometry a) s) ((s + 1) * ra_stripe_size a) \<longrightarrow> p = map (p_sum D) [0..<sg_len t]) \<and>
      (ra_level a = Raid6 \<longrightarrow> holds (ra_members a ! q_member (geometry a) s) ((s + 1) * ra_stripe_size a) \<longrightarrow> q = map (q_sum D) [0..<sg_len t])"
  shows "rmw_done s L (over off buf (seg_addrs (geometry a) t) L)
    ({data_member (geometry a) s (sg_index t), p_member (geometry a) s} \<union> (if ra_level a = Raid6 then {q_member (geometry a) s} else {})) X a
    (case issue_writes hs ((data_member (geometry a) s (sg_index t), stripe_base a s + sg_offset_in_unit t, new)
        # parity_writes a s (stripe_base a s + sg_offset_in_unit t) (p, q)) a of
      (Inl e, a) \<Rightarrow> Some (Inl e, a) | (Inr _, a) \<Rightarrow> Some (Inr (Some ()), a))"
proof -
  let ?lo = "sg_offset_in_unit t" and ?len = "sg_len t" and ?g = "geometry a"
  define E where "E = (replicate (data_count ?g) (zero_buf ?len))[sg_index t := new]"
  have i: "sg_index t < data_count ?g" "?lo + ?len \<le> ra_stripe_size a" using assms(4) by (simp_all add: seg_ok_def geometry_def)
  have E: "E ! sg_index t = new" using i(1) by (simp add: E_def)
  have eq: "(data_member ?g s (sg_index t), stripe_base a s + ?lo, new) # parity_writes a s (stripe_base a s + ?lo) (p, q)
      = column_writes a s ?lo [t] F (p, q)" if "F ! sg_index t = new" for F using that by (simp add: column_writes_def)
  obtain r b where w: "issue_writes hs (column_writes a s ?lo [t] E (p, q)) a = (r, b)" by fastforce
  have l: "\<forall>u \<in> set [t]. length (E ! sg_index u) = ?len" using E assms(7) by simp
  note fr = column_frame [OF w assms(2,3) group_single [OF assms(4)] assms(6) i(2) l] 
  have fr': "evolves (in_stripe a s) a b" "keeps_bm a b"
      "\<forall>j. j \<notin> {data_member ?g s (sg_index t), p_member ?g s} \<union> (if ra_level a = Raid6 then {q_member ?g s} else {}) \<longrightarrow>
        ra_members b ! j = ra_members a ! j"
    using fr assms(8,9) by (auto simp: column_writes_def parity_writes_def)
  have "agree b (over off buf (seg_addrs ?g t) L) X" if "r = Inr ()"
  proof (cases "X = {}")
    case False
    note D = assms(10) [OF False]
    have wD: "issue_writes hs (column_writes a s ?lo [t] D (p, q)) a = (Inr (), b)" using w that eq [OF E] eq [of D] D by simp
    have "agree b (over off buf (group_addrs ?g [t]) L) X"
      by (rule column_agree [OF assms(1-3) group_single [OF assms(4)] _ wD assms(6) [unfolded held_by_def] i(2)])
        (use assms(5,8,9) D in simp_all)
    then show ?thesis by simp
  qed simp
  then show ?thesis unfolding eq [OF E] w using fr' by (cases r) (auto simp: rmw_done_def)
qed

lemma quiet_held: "held_by hs s a \<Longrightarrow> quiet a b \<Longrightarrow> held_by hs s b"
  using held_by_evolves by (auto simp: quiet_def)

lemma rmw_done_from:
  assumes "rmw_done s L L' J X c res" "quiet a c" "ra_members c = ra_members a"
  shows "rmw_done s L L' J X a res"
proof -
  have e: "evolves {} a c" "keeps_bm a c" using assms(2) by (simp_all add: quiet_def)
  obtain r b where b: "res = Some (r, b)" "evolves (in_stripe c s) c b" "keeps_bm c b" "r = Inr None \<longrightarrow> agree b L X"
      "r = Inr (Some ()) \<longrightarrow> agree b L' X \<and> (\<forall>j. j \<notin> J \<longrightarrow> ra_members b ! j = ra_members c ! j)"
    using assms(1) by (auto simp: rmw_done_def)
  have "evolves (in_stripe a s) a b" using evolves_trans [OF e(1) b(2)] in_stripe_evolves [OF e(1)] by simp
  then show ?thesis using b keeps_bm_trans [OF e(2) b(3)] assms(3) by (simp add: rmw_done_def)
qed

text \<open>The members a piece is read from and written to.\<close>

definition rmw_members :: "RaidArray \<Rightarrow> Segment \<Rightarrow> nat set" where
  "rmw_members a t = {data_member (geometry a) (sg_stripe t) (sg_index t), p_member (geometry a) (sg_stripe t)} \<union>
     (if ra_level a = Raid6 then {q_member (geometry a) (sg_stripe t)} else {})"

lemma rmw_piece_spec:
  assumes "agree a L X" "ra_wf a" "is_parity (geometry a)" "seg_ok (geometry a) off t" "s = sg_stripe t" "held_by hs s a" "known a s X"
    and "fits buf t" "holds (ra_members a ! data_member (geometry a) s (sg_index t)) ((s + 1) * ra_stripe_size a)"
  shows "rmw_done s L (over off buf (seg_addrs (geometry a) t) L) (rmw_members a t) X a (rmw_piece hs t buf a)"
proof -
  let ?g = "geometry a" and ?at = "stripe_base a s + sg_offset_in_unit t" and ?len = "sg_len t"
  let ?m = "data_member (geometry a) s (sg_index t)" and ?p = "p_member (geometry a) s" and ?q = "q_member (geometry a) s"
  let ?D = "col ?g L s (sg_offset_in_unit t) ?len"
  have g: "geometry_ok ?g" "g_n ?g = length (ra_members a)" using assms(2) by (simp_all add: ra_wf_def geometry_def)
  have i: "sg_index t < data_count ?g" "sg_offset_in_unit t + ?len \<le> ra_stripe_size a" using assms(4) by (simp_all add: seg_ok_def geometry_def)
  have n: "?m < length (ra_members a)" "?p < length (ra_members a)" "?q < length (ra_members a)"
    using data_member_less [OF g(1)] p_member_less [OF geometry_n(1) [OF g(1)]] q_member_less [OF g(1)] g(2) by simp_all
  obtain old a1 where o: "dev_read ?m ?at ?len a = (old, a1)" by fastforce
  obtain p a2 where p: "dev_read ?p ?at ?len a1 = (p, a2)" by fastforce
  obtain q a3 where q: "(if ra_level a2 = Raid6 then dev_read ?q ?at ?len a2 else (Inr (zero_buf ?len), a2)) = (q, a3)" by fastforce
  have m: "ra_members a1 = ra_members a" "ra_members a2 = ra_members a" "ra_members a3 = ra_members a"
    using dev_read_spec(3) [OF o] dev_read_spec(3) [OF p] dev_read_spec(3) [of ?q ?at ?len a2] q by (auto split: if_splits)
  have q1: "quiet a a1" using quiet_dev_read [OF o] .
  have q2: "quiet a a2" using quiet_trans [OF q1 quiet_dev_read [OF p]] .
  have q3: "quiet a a3" using quiet_trans [OF q2] quiet_dev_read [of ?q ?at ?len a2] q by (auto split: if_splits)
  have sh: "ra_level a2 = ra_level a" "geometry a3 = ?g" "ra_level a3 = ra_level a" "ra_engine a3 = ra_engine a" "stripe_base a3 s = stripe_base a s"
      "ra_stripe_size a3 = ra_stripe_size a" "rmw_members a3 t = rmw_members a t"
    using evolves_shape [of "{}" a a2] evolves_shape [of "{}" a a3] q2 q3 by (auto simp: quiet_def stripe_base_def rmw_members_def)
  consider (fp) e where "p = Inl e" | (fo) e p' where "p = Inr p'" "old = Inl e" | (fq) e p' old' where "p = Inr p'" "old = Inr old'" "q = Inl e"
    | (ok) p' old' q' where "p = Inr p'" "old = Inr old'" "q = Inr q'" by (cases p; cases old; cases q) auto
  then show ?thesis
  proof cases
    case fp
    then show ?thesis using o p rmw_done_quiet [OF q2 assms(1)] assms(5) by (simp add: rmw_piece_def Let_def)
  next
    case fo
    then show ?thesis using o p rmw_done_quiet [OF q2 assms(1)] assms(5) by (simp add: rmw_piece_def Let_def)
  next
    case fq
    have "rmw_piece hs t buf a = rmw_failed ?q e a3" using o p q fq assms(5) by (simp add: rmw_piece_def Let_def split: if_splits)
    then show ?thesis using rmw_done_quiet [OF q3 assms(1)] by simp
  next
    case ok
    have len: "length old' = ?len" "length p' = ?len" "length q' = ?len" "length (seg_data buf t) = ?len"
      using read_length [OF o [unfolded ok(2)]] read_length [OF p [unfolded ok(1)]] q ok(3) read_length [of ?q ?at ?len a2 q' a3] assms(8)
      by (auto simp: seg_data_def fits_def split: if_splits)
    obtain delta p2 q2' where r: "xor_in_place (ra_engine a3) old' (seg_data buf t) = Some delta" "xor_in_place (ra_engine a3) p' delta = Some p2"
        "q_update (ra_engine a3) q' delta (sg_index t) = Some q2'" "length p2 = ?len" "length q2' = ?len"
        "\<forall>D. (\<forall>c \<in> set D. length c = ?len) \<longrightarrow> sg_index t < length D \<longrightarrow> old' = D ! sg_index t \<longrightarrow>
          (p' = map (p_sum D) [0..<?len] \<longrightarrow> p2 = map (p_sum (D[sg_index t := seg_data buf t])) [0..<?len]) \<and>
          (q' = map (q_sum D) [0..<?len] \<longrightarrow> q2' = map (q_sum (D[sg_index t := seg_data buf t])) [0..<?len])"
      using rmw_parity [OF len] by blast
    define qn where "qn = (if ra_level a = Raid6 then q2' else q')"
    have D': "?D[sg_index t := seg_data buf t] = col ?g (over off buf (seg_addrs ?g t) L) s (sg_offset_in_unit t) ?len"
      using col_update [OF assms(4,8), of L] assms(5) by simp
    have "?D[sg_index t := seg_data buf t] ! sg_index t = seg_data buf t" using i(1) by simp
    then have new: "seg_data buf t = col ?g (over off buf (seg_addrs ?g t) L) s (sg_offset_in_unit t) ?len ! sg_index t"
      unfolding D' by simp
    have wr: "rmw_done s L (over off buf (seg_addrs (geometry a3) t) L) (rmw_members a3 t) X a3
        (case issue_writes hs ((data_member (geometry a3) s (sg_index t), stripe_base a3 s + sg_offset_in_unit t, seg_data buf t)
            # parity_writes a3 s (stripe_base a3 s + sg_offset_in_unit t) (p2, qn)) a3 of
          (Inl e, a) \<Rightarrow> Some (Inl e, a) | (Inr _, a) \<Rightarrow> Some (Inr (Some ()), a))"
      unfolding rmw_members_def assms(5) [symmetric]
    proof (rule rmw_write [OF agree_quiet [OF assms(1) q3] quiet_wf [OF q3 assms(2)] _ _ assms(5) quiet_held [OF assms(6) q3] len(4) r(4)])
      show "is_parity (geometry a3)" "seg_ok (geometry a3) off t" using assms(3,4) sh(2) by simp_all
      show "ra_level a3 = Raid6 \<longrightarrow> length qn = ?len" using r(5) sh(3) by (simp add: qn_def)
      assume X: "X \<noteq> {}"
      note cr = column_read [OF assms(1-3,7) X _ i(2)]
      have "old' = ?D ! sg_index t"
        using cr [OF n(1) assms(9) o [unfolded ok(2)] refl] role_of_data_member [OF g(1) assms(3) i(1), of s] by (simp add: strip_of_def)
      then have up: "(p' = map (p_sum ?D) [0..<?len] \<longrightarrow> p2 = map (p_sum (?D[sg_index t := seg_data buf t])) [0..<?len]) \<and>
          (q' = map (q_sum ?D) [0..<?len] \<longrightarrow> q2' = map (q_sum (?D[sg_index t := seg_data buf t])) [0..<?len])"
        using r(6) col_lengths i(1) length_col by metis
      have pp: "p' = map (p_sum ?D) [0..<?len]" if "holds (ra_members a ! ?p) ((s + 1) * ra_stripe_size a)"
        using cr [OF n(2) that p [unfolded ok(1)] m(1)] role_of_p [of ?g s ?p] by (simp add: strip_of_def)
      have qq: "q' = map (q_sum ?D) [0..<?len]" if "ra_level a = Raid6" "holds (ra_members a ! ?q) ((s + 1) * ra_stripe_size a)"
      proof -
        have "dev_read ?q ?at ?len a2 = (Inr q', a3)" using q ok(3) sh(1) that(1) by simp
        then show ?thesis using cr [OF n(3) that(2) _ m(2)] role_of_q [of ?g s ?q] q_member_neq [OF g(1), of s] that(1)
          by (simp add: strip_of_def geometry_def)
      qed
      let ?D' = "?D[sg_index t := seg_data buf t]"
      show "?D' = col (geometry a3) (over off buf (seg_addrs (geometry a3) t) L) s (sg_offset_in_unit t) ?len \<and> seg_data buf t = ?D' ! sg_index t \<and>
          (holds (ra_members a3 ! p_member (geometry a3) s) ((s + 1) * ra_stripe_size a3) \<longrightarrow> p2 = map (p_sum ?D') [0..<?len]) \<and>
          (ra_level a3 = Raid6 \<longrightarrow> holds (ra_members a3 ! q_member (geometry a3) s) ((s + 1) * ra_stripe_size a3) \<longrightarrow> qn = map (q_sum ?D') [0..<?len])"
        unfolding sh m(3) D' by (intro conjI impI refl new) (use up pp qq in \<open>simp_all only: D' qn_def if_True refl\<close>)
    qed
    have eq: "rmw_piece hs t buf a = (case issue_writes hs ((data_member (geometry a3) s (sg_index t), stripe_base a3 s + sg_offset_in_unit t, seg_data buf t)
            # parity_writes a3 s (stripe_base a3 s + sg_offset_in_unit t) (p2, qn)) a3 of
          (Inl e, a) \<Rightarrow> Some (Inl e, a) | (Inr _, a) \<Rightarrow> Some (Inr (Some ()), a))"
    proof (cases "ra_level a = Raid6")
      case True
      then have "dev_read ?q ?at ?len a2 = (Inr q', a3)" using q ok(3) sh(1) by simp
      then show ?thesis using o p ok(1,2) r(1-3) sh assms(5) True by (simp add: rmw_piece_def Let_def qn_def)
    next
      case False
      then have "q' = zero_buf ?len" "a3 = a2" using q ok(3) sh(1) by auto
      then show ?thesis using o p ok(1,2) r(1-3) sh assms(5) False by (simp add: rmw_piece_def Let_def qn_def)
    qed
    show ?thesis using rmw_done_from [OF wr q3 m(3)] sh eq by simp
  qed
qed

text \<open>Pieces in turn: nothing a later piece is read from has failed.\<close>

lemma rmw_pieces_spec:
  assumes "agree a L X" "ra_wf a" "is_parity (geometry a)" "held_by hs s a" "known a s X" "g = geometry a"
    and "\<forall>t \<in> set segs. seg_ok g off t \<and> sg_stripe t = s \<and> fits buf t \<and> holds (ra_members a ! data_member g s (sg_index t)) ((s + 1) * ra_stripe_size a)"
    and "distinct (map sg_index segs)"
  shows "\<exists>r b. rmw_pieces hs segs buf a = Some (r, b) \<and> evolves (in_stripe a s) a b \<and> keeps_bm a b \<and>
    (r = Inr None \<longrightarrow> (\<exists>A \<subseteq> group_addrs g segs. agree b (over off buf A L) X)) \<and>
    (r = Inr (Some ()) \<longrightarrow> agree b (over off buf (group_addrs g segs) L) X)"
  using assms
proof (induction segs arbitrary: a L)
  case Nil
  then show ?case by (simp add: group_addrs_def)
next
  case (Cons t segs)
  let ?L1 = "over off buf (seg_addrs g t) L"
  have geo: "geometry_ok g" "is_parity g" using Cons.prems(2,3,6) by (simp_all add: ra_wf_def)
  have t: "seg_ok g off t" "sg_stripe t = s" "fits buf t" "holds (ra_members a ! data_member g s (sg_index t)) ((s + 1) * ra_stripe_size a)"
    using Cons.prems(7) by simp_all
  obtain r c where c: "rmw_piece hs t buf a = Some (r, c)" "evolves (in_stripe a s) a c" "keeps_bm a c" "r = Inr None \<longrightarrow> agree c L X"
      "r = Inr (Some ()) \<longrightarrow> agree c ?L1 X \<and> (\<forall>j. j \<notin> rmw_members a t \<longrightarrow> ra_members c ! j = ra_members a ! j)"
    using rmw_piece_spec [OF Cons.prems(1-3), of off t s hs buf] t Cons.prems(4,5,6) by (auto simp: rmw_done_def)
  consider (err) e where "r = Inl e" | (again) "r = Inr None" | (ok) "r = Inr (Some ())" by (metis not_None_eq old.unit.exhaust sum.exhaust)
  then show ?case
  proof cases
    case err
    then show ?thesis using c by (simp add: then_res_def)
  next
    case again
    then show ?thesis using c by (intro exI [of _ r] exI [of _ c]) (auto simp: then_res_def intro!: exI [of _ "{}"])
  next
    case ok
    have sh: "g = geometry c" "ra_stripe_size c = ra_stripe_size a" "in_stripe c s = in_stripe a s"
      using evolves_shape(2,7) [OF c(2)] in_stripe_evolves [OF c(2)] Cons.prems(6) by simp_all
    have rest: "holds (ra_members c ! data_member g s (sg_index u)) ((s + 1) * ra_stripe_size c)" if u: "u \<in> set segs" for u
    proof -
      have "sg_index t \<notin> sg_index ` set segs" using Cons.prems(8) by simp
      then have ui: "sg_index u < data_count g" "sg_index t < data_count g" "sg_index u \<noteq> sg_index t"
        using Cons.prems(7) u by (auto simp: seg_ok_def) (metis imageI)
      have "data_member g s (sg_index u) \<noteq> data_member g s (sg_index t)" using data_member_inj [OF geo ui(1,2)] ui(3) by blast
      moreover have "data_member g s (sg_index u) \<noteq> p_member g s"
        using role_of_data_member [OF geo ui(1), of s] role_of_p [of g s "p_member g s"] by auto
      moreover have "g_level g = Raid6 \<Longrightarrow> data_member g s (sg_index u) \<noteq> q_member g s"
        using role_of_data_member [OF geo ui(1), of s] role_of_q [of g s "q_member g s"] q_member_neq [OF geo(1), of s] by auto
      ultimately have "data_member g s (sg_index u) \<notin> rmw_members a t"
        using t(2) Cons.prems(6) by (auto simp: rmw_members_def geometry_def)
      then show ?thesis using c(5) ok Cons.prems(7) u sh(2) by simp
    qed
    have "\<exists>r b. rmw_pieces hs segs buf c = Some (r, b) \<and> evolves (in_stripe c s) c b \<and> keeps_bm c b \<and>
        (r = Inr None \<longrightarrow> (\<exists>A \<subseteq> group_addrs g segs. agree b (over off buf A ?L1) X)) \<and>
        (r = Inr (Some ()) \<longrightarrow> agree b (over off buf (group_addrs g segs) ?L1) X)"
      by (rule Cons.IH) (use c ok sh rest Cons.prems ra_wf_keeps held_by_evolves known_evolves in \<open>auto\<close>)
    then obtain r' b where b: "rmw_pieces hs segs buf c = Some (r', b)" "evolves (in_stripe a s) c b" "keeps_bm c b"
        "r' = Inr None \<longrightarrow> (\<exists>A \<subseteq> group_addrs g segs. agree b (over off buf (A \<union> seg_addrs g t) L) X)"
        "r' = Inr (Some ()) \<longrightarrow> agree b (over off buf (group_addrs g (t # segs)) L) X"
      by (auto simp: over_over sh(3) group_addrs_Cons Un_commute)
    have "\<exists>A \<subseteq> group_addrs g (t # segs). agree b (over off buf A L) X" if r': "r' = Inr None"
    proof -
      obtain A where "A \<subseteq> group_addrs g segs" "agree b (over off buf (A \<union> seg_addrs g t) L) X" using b(4) r' by blast
      then show ?thesis by (intro exI [of _ "A \<union> seg_addrs g t"]) (auto simp: group_addrs_Cons)
    qed
    then show ?thesis
      using b c(1) ok evolves_then [OF c(2) b(2)] keeps_bm_trans [OF c(3) b(3)] by (simp add: then_res_def)
  qed
qed

section \<open>Reconstruction\<close>

text \<open>The pieces lie in the column they span.\<close>

definition spans :: "nat \<Rightarrow> nat \<Rightarrow> Segment \<Rightarrow> bool" where
  "spans lo len t \<longleftrightarrow> lo \<le> sg_offset_in_unit t \<and> sg_offset_in_unit t + sg_len t \<le> lo + len"

lemma column_spans:
  assumes "group_ok (geometry a) off segs"
  shows "\<forall>t \<in> set segs. spans (column_lo segs) (column_hi segs - column_lo segs) t" "column_lo segs + (column_hi segs - column_lo segs) \<le> ra_stripe_size a"
proof -
  have ne: "set segs \<noteq> {}" using assms by (auto simp: group_ok_def)
  have lo: "column_lo segs \<le> sg_offset_in_unit t" and hi: "sg_offset_in_unit t + sg_len t \<le> column_hi segs" if "t \<in> set segs" for t
    using that by (auto simp: column_lo_def column_hi_def)
  have "column_lo segs \<le> column_hi segs" using ne lo hi by (meson le_add1 le_trans ex_in_conv)
  then show "\<forall>t \<in> set segs. spans (column_lo segs) (column_hi segs - column_lo segs) t" using lo hi by (auto simp: spans_def)
  have "column_hi segs \<le> ra_stripe_size a"
    unfolding column_hi_def using ne group_okD(1) [OF assms] by (subst Max_le_iff) (auto simp: seg_ok_def geometry_def)
  then show "column_lo segs + (column_hi segs - column_lo segs) \<le> ra_stripe_size a" using \<open>column_lo segs \<le> column_hi segs\<close> by simp
qed

lemma overlay_length:
  assumes "\<forall>c \<in> set D. length c = len" "\<forall>t \<in> set segs. sg_index t < length D"
  shows "length (fold (overlay_piece lo buf) segs D) = length D \<and> (\<forall>c \<in> set (fold (overlay_piece lo buf) segs D). length c = len)"
  using assms
proof (induction segs arbitrary: D)
  case (Cons t segs)
  have "length (overlay_piece lo buf t D) = length D" by (simp add: overlay_piece_def)
  moreover have "\<forall>c \<in> set (overlay_piece lo buf t D). length c = len"
    using Cons.prems by (auto simp: overlay_piece_def dest!: subsetD [OF set_update_subset_insert])
  ultimately show ?case using Cons by simp
qed simp

lemma overlay_col:
  assumes "seg_ok g off t" "fits buf t" "spans lo len t" "lo + len \<le> g_unit g"
  shows "overlay_piece lo buf t (col g L (sg_stripe t) lo len) = col g (over off buf (seg_addrs g t) L) (sg_stripe t) lo len"
proof (rule nth_equalityI)
  let ?s = "sg_stripe t" and ?o = "sg_offset_in_unit t"
  show "length (overlay_piece lo buf t (col g L ?s lo len)) = length (col g (over off buf (seg_addrs g t) L) ?s lo len)"
    by (simp add: overlay_piece_def)
  fix d assume "d < length (overlay_piece lo buf t (col g L ?s lo len))"
  then have d: "d < data_count g" by (simp add: overlay_piece_def)
  have i: "sg_index t < data_count g" using assms(1) by (simp add: seg_ok_def)
  have dat: "length (seg_data buf t) = sg_len t" using assms(2) by (simp add: seg_data_def fits_def)
  have inA: "addr g ?s d (lo + k) \<in> seg_addrs g t \<longleftrightarrow> d = sg_index t \<and> ?o \<le> lo + k \<and> lo + k < ?o + sg_len t" if k: "k < len" for k
  proof
    assume "addr g ?s d (lo + k) \<in> seg_addrs g t"
    then obtain k' where k': "k' < sg_len t" "addr g ?s d (lo + k) = seg_addr g t + k'" by (auto simp: seg_addrs_def dest!: le_Suc_ex)
    then show "d = sg_index t \<and> ?o \<le> lo + k \<and> lo + k < ?o + sg_len t"
      using seg_split(2,3) [OF assms(1) k'(1)] addr_split(2,3) [OF d, of "lo + k" ?s] k assms(4) by auto
  qed (auto simp: seg_addrs_def seg_addr_def addr_def)
  show "overlay_piece lo buf t (col g L ?s lo len) ! d = col g (over off buf (seg_addrs g t) L) ?s lo len ! d"
  proof (cases "d = sg_index t")
    case False
    then show ?thesis using d inA by (simp add: overlay_piece_def nth_col over_def addr_def)
  next
    case True
    have "put (?o - lo) (seg_data buf t) (col g L ?s lo len ! d) ! k = col g (over off buf (seg_addrs g t) L) ?s lo len ! d ! k" if k: "k < len" for k
    proof (cases "?o \<le> lo + k \<and> lo + k < ?o + sg_len t")
      case yes: True
      define k' where "k' = lo + k - ?o"
      have k': "k' < sg_len t" "lo + k = ?o + k'" using yes by (auto simp: k'_def)
      have "put (?o - lo) (seg_data buf t) (col g L ?s lo len ! d) ! k = seg_data buf t ! (k - (?o - lo))"
        using yes k d dat assms(3) by (subst nth_put) (auto simp: nth_col spans_def)
      also have "k - (?o - lo) = k'" using assms(3) yes by (auto simp: k'_def spans_def)
      also have "seg_data buf t ! k' = over off buf (seg_addrs g t) L (seg_addr g t + k')"
        using seg_data_over [OF assms(1,2) subset_refl, of L] k'(1) by (simp add: seg_bytes_def)
      also have "\<dots> = col g (over off buf (seg_addrs g t) L) ?s lo len ! d ! k"
        using k k'(2) d True by (simp add: nth_col seg_addr_def add.assoc)
      finally show ?thesis .
    next
      case False
      then have "addr g ?s d (lo + k) \<notin> seg_addrs g t" using inA [OF k] by blast
      moreover have "put (?o - lo) (seg_data buf t) (col g L ?s lo len ! d) ! k = col g L ?s lo len ! d ! k"
        using False k d dat assms(3) by (subst nth_put) (auto simp: nth_col spans_def)
      ultimately show ?thesis using k d by (simp add: nth_col over_def addr_def add.assoc)
    qed
    then show ?thesis using True d by (intro nth_equalityI) (simp_all add: overlay_piece_def nth_col)
  qed
qed

lemma overlay_group:
  assumes "\<forall>t \<in> set segs. seg_ok g off t \<and> fits buf t \<and> spans lo len t \<and> sg_stripe t = s" "lo + len \<le> g_unit g"
  shows "fold (overlay_piece lo buf) segs (col g L s lo len) = col g (over off buf (group_addrs g segs) L) s lo len"
  using assms(1)
proof (induction segs arbitrary: L)
  case Nil
  then show ?case by (simp add: group_addrs_def)
next
  case (Cons t segs)
  have "overlay_piece lo buf t (col g L s lo len) = col g (over off buf (seg_addrs g t) L) s lo len"
    using overlay_col [of g off t buf lo len L] Cons.prems assms(2) by auto
  then show ?case using Cons by (simp add: over_over group_addrs_Cons Un_commute)
qed

lemma reconstruct_writes_spec:
  assumes "agree a L X" "ra_wf a" "is_parity (geometry a)" "group_ok (geometry a) off segs" "s = sg_stripe (hd segs)" "known a s X"
    and "\<forall>t \<in> set segs. fits buf t" "lo = column_lo segs" "len = column_hi segs - column_lo segs"
  shows "\<exists>r b. reconstruct_writes segs buf a = Some (r, b) \<and> quiet a b \<and> (\<forall>ws. r = Inr ws \<longrightarrow>
    (\<exists>D q. ws = column_writes b s lo segs D (map (p_sum D) [0..<len], q) \<and> length D = data_count (geometry a) \<and> (\<forall>c \<in> set D. length c = len) \<and>
       length q = len \<and> (ra_level a = Raid6 \<longrightarrow> q = map (q_sum D) [0..<len]) \<and>
       (X \<noteq> {} \<longrightarrow> D = col (geometry a) (over off buf (group_addrs (geometry a) segs) L) s lo len)))"
proof -
  let ?g = "geometry a"
  have sp: "\<forall>t \<in> set segs. spans lo len t" "lo + len \<le> ra_stripe_size a" using column_spans [OF assms(4)] assms(8,9) by simp_all
  have g: "geometry_ok ?g" "0 < data_count ?g" using assms(2) geometry_n(2) [of ?g] by (simp_all add: ra_wf_def)
  obtain st b where c: "read_column s lo len a = (st, b)" by fastforce
  have q: "quiet a b" "shaped len (ra_level a = Raid6) (data_count ?g) st"
      "X \<noteq> {} \<Longrightarrow> damaged len (ra_level a = Raid6) (col ?g L s lo len) st"
    using read_column_spec [OF c assms(2,3,1) sp(2)] known_column [OF assms(6) _ sp(2)] by simp_all
  have sh: "geometry b = ?g" "ra_level b = ra_level a" "stripe_base b s = stripe_base a s"
    using q(1) evolves_shape [of "{}" a b] by (auto simp: quiet_def stripe_base_def)
  obtain r where r: "recover (ra_engine b) len st = Some r" "\<forall>s'. r = Inr s' \<longrightarrow> all_strips len (ra_level a = Raid6) (data_count ?g) s'"
    using recover_total [OF q(2) g(2), of "ra_engine b"] by blast
  show ?thesis
  proof (cases r)
    case (Inl e)
    then show ?thesis using q(1) r(1) c assms(5,8,9) by (simp add: reconstruct_writes_def Let_def)
  next
    case (Inr s')
    then obtain D where D: "ss_data s' = map Some D" "length D = data_count ?g" "\<forall>c \<in> set D. length c = len" using r(2) by (auto simp: all_strips_def whole_data_def)
    define E where "E = fold (overlay_piece lo buf) segs D"
    have E: "length E = data_count ?g" "\<forall>c \<in> set E. length c = len"
      using overlay_length [OF D(3), of segs lo buf] group_index_less [OF assms(4)] D(2) by (simp_all add: E_def)
    then have "E \<noteq> []" using g(2) by auto
    then obtain q' where q': "column_parity b E len = Some (map (p_sum E) [0..<len], q')" "length q' = len"
        "ra_level a = Raid6 \<longrightarrow> q' = map (q_sum E) [0..<len]" using column_parity_spec [OF _ E(2), of b] sh(2) by auto
    have img: "E = col ?g (over off buf (group_addrs ?g segs) L) s lo len" if X: "X \<noteq> {}"
    proof -
      have "D = col ?g L s lo len"
        using recover_column [OF assms(2,3) q(3) [OF X], of "ra_engine b"] r(1) Inr D(1) by (simp add: full_stripe_def split: if_splits)
      moreover have "\<forall>t \<in> set segs. seg_ok ?g off t \<and> fits buf t \<and> spans lo len t \<and> sg_stripe t = s"
        using group_okD [OF assms(4)] assms(5,7) sp(1) by auto
      ultimately show ?thesis using overlay_group [of segs ?g off buf lo len s L] sp(2) by (simp add: E_def geometry_def)
    qed
    have "reconstruct_writes segs buf a = Some (Inr (column_writes b s lo segs E (map (p_sum E) [0..<len], q')), b)"
      using c r(1) Inr D(1) q'(1) sh assms(5,8,9) by (simp add: reconstruct_writes_def Let_def E_def column_writes_def)
    then show ?thesis using q(1) E q'(2,3) img by blast
  qed
qed

section \<open>A stripe\<close>

lemma stripe_done_from:
  assumes "stripe_done s L' X c res" "evolves (in_stripe a s) a c" "keeps_bm a c"
  shows "stripe_done s L' X a res"
  using assms in_stripe_evolves [OF assms(2)] evolves_then keeps_bm_trans unfolding stripe_done_def by metis

lemma stripe_attempts_spec:
  assumes "agree a L X" "ra_wf a" "is_parity (geometry a)" "group_ok (geometry a) off segs" "s = sg_stripe (hd segs)" "known a s X"
    and "\<forall>t \<in> set segs. fits buf t"
  shows "stripe_done s (over off buf (group_addrs (geometry a) segs) L) X a (stripe_attempts n segs buf a)"
  using assms
proof (induction n arbitrary: a L)
  case 0
  then show ?case by (simp add: stripe_done_def)
next
  case (Suc n)
  let ?g = "geometry a" and ?hs = "ra_holders a ((s + 1) * ra_stripe_size a)" and ?L' = "over off buf (group_addrs (geometry a) segs) L"
  note held = held_by_now [of a s]
  consider (full) "is_full a segs" | (rmw) "\<not> is_full a segs" "list_all (\<lambda>t. ?hs ! data_member ?g s (sg_index t)) segs"
      "stripe_attempts (Suc n) segs buf a = then_res (rmw_pieces ?hs segs buf a)
         (\<lambda>r a. if r = None then stripe_attempts n segs buf a else Some (check_after_write a))"
    | (recon) "stripe_attempts (Suc n) segs buf a = then_res (reconstruct_writes segs buf a)
         (\<lambda>ws a. then_res (Some (issue_writes ?hs ws a)) (\<lambda>_ a. Some (check_after_write a)))"
  proof (cases "is_full a segs")
    case False
    show ?thesis
    proof (cases "(?hs ! p_member ?g s \<and> (ra_level a \<noteq> Raid6 \<or> ?hs ! q_member ?g s)) \<and>
        list_all (\<lambda>t. ?hs ! data_member ?g s (sg_index t)) segs \<and> length segs * 2 \<le> data_count ?g")
      case True
      show ?thesis
      proof (rule rmw [OF False])
        show "list_all (\<lambda>t. ?hs ! data_member ?g s (sg_index t)) segs" using True by blast
      qed (simp only: stripe_attempts.simps Let_def Suc.prems(5) [symmetric] False True if_True if_False simp_thms)
    next
      case no: False
      show ?thesis by (rule recon) (simp only: stripe_attempts.simps Let_def Suc.prems(5) [symmetric] False no if_True if_False simp_thms)
    qed
  qed blast
  then show ?case
  proof cases
    case full
    define D where "D = col ?g ?L' s 0 (ra_stripe_size a)"
    obtain q where q: "full_writes a segs buf = Some (column_writes a s 0 segs D (map (p_sum D) [0..<ra_stripe_size a], q))"
        "length q = ra_stripe_size a" "ra_level a = Raid6 \<longrightarrow> q = map (q_sum D) [0..<ra_stripe_size a]"
      using full_writes_spec [OF Suc.prems(2) full Suc.prems(4,7,5) D_def] by blast
    have "stripe_done s ?L' X a (then_res (Some (issue_writes ?hs (column_writes a s 0 segs D (map (p_sum D) [0..<ra_stripe_size a], q)) a))
        (\<lambda>_ b. Some (check_after_write b)))"
      by (rule issue_done [OF Suc.prems(1-5) held, where len = "ra_stripe_size a"])
        (use full q col_lengths in \<open>auto simp: D_def is_full_def list_all_iff\<close>)
    then show ?thesis using full q(1) Suc.prems(5) by (simp add: Let_def)
  next
    case rmw
    have hold: "holds (ra_members a ! data_member ?g s (sg_index t)) ((s + 1) * ra_stripe_size a)" if "t \<in> set segs" for t
      using rmw(2) that data_member_less [of ?g s "sg_index t"] Suc.prems(2) holder_at [of "data_member ?g s (sg_index t)" a]
      by (auto simp: list_all_iff ra_wf_def geometry_def)
    have ok: "\<forall>t \<in> set segs. seg_ok ?g off t \<and> sg_stripe t = s \<and> fits buf t \<and> holds (ra_members a ! data_member ?g s (sg_index t)) ((s + 1) * ra_stripe_size a)"
      using group_okD [OF Suc.prems(4)] Suc.prems(5,7) hold by auto
    obtain r b where b: "rmw_pieces ?hs segs buf a = Some (r, b)" "evolves (in_stripe a s) a b" "keeps_bm a b"
        "r = Inr None \<longrightarrow> (\<exists>A \<subseteq> group_addrs ?g segs. agree b (over off buf A L) X)" "r = Inr (Some ()) \<longrightarrow> agree b ?L' X"
      using rmw_pieces_spec [OF Suc.prems(1-3) held Suc.prems(6) refl ok group_distinct [OF Suc.prems(4)]] by blast
    consider (err) e where "r = Inl e" | (again) "r = Inr None" | (ok) "r = Inr (Some ())" by (metis not_None_eq old.unit.exhaust sum.exhaust)
    then show ?thesis
    proof cases
      case err
      then show ?thesis using rmw(3) b(1-3) by (simp add: then_res_def stripe_done_def)
    next
      case again
      then obtain A where A: "A \<subseteq> group_addrs ?g segs" "agree b (over off buf A L) X" using b(4) by blast
      have gb: "geometry b = ?g" using evolves_shape(7) [OF b(2)] .
      have "stripe_done s (over off buf (group_addrs (geometry b) segs) (over off buf A L)) X b (stripe_attempts n segs buf b)"
        by (rule Suc.IH [OF A(2)]) (use Suc.prems ra_wf_keeps [OF _ b(2,3)] known_evolves [OF _ b(2)] gb in auto)
      moreover have "group_addrs ?g segs \<union> A = group_addrs ?g segs" using A(1) by blast
      ultimately have "stripe_done s ?L' X b (stripe_attempts n segs buf b)" using gb by (simp add: over_over)
      from stripe_done_from [OF this b(2,3)] show ?thesis using rmw(3) b(1) again by (simp add: then_res_def)
    next
      case ok
      then show ?thesis using rmw(3) b check_after_write_done [OF b(2,3)] by (simp add: then_res_def)
    qed
  next
    case recon
    define lo len where "lo = column_lo segs" and "len = column_hi segs - column_lo segs"
    have sp: "\<forall>t \<in> set segs. spans lo len t" "lo + len \<le> ra_stripe_size a" using column_spans [OF Suc.prems(4)] by (simp_all add: lo_def len_def)
    obtain r b where b: "reconstruct_writes segs buf a = Some (r, b)" "quiet a b" and ws: "\<forall>ws. r = Inr ws \<longrightarrow>
        (\<exists>D q. ws = column_writes b s lo segs D (map (p_sum D) [0..<len], q) \<and> length D = data_count ?g \<and> (\<forall>c \<in> set D. length c = len) \<and>
           length q = len \<and> (ra_level a = Raid6 \<longrightarrow> q = map (q_sum D) [0..<len]) \<and> (X \<noteq> {} \<longrightarrow> D = col ?g ?L' s lo len))"
      using reconstruct_writes_spec [OF Suc.prems lo_def len_def] by blast
    have e: "evolves (in_stripe a s) a b" "keeps_bm a b" using b(2) evolves_mono [of "{}"] by (auto simp: quiet_def)
    have sh: "geometry b = ?g" "ra_level b = ra_level a" "ra_stripe_size b = ra_stripe_size a" using evolves_shape(1,2,7) [OF e(1)] by simp_all
    show ?thesis
    proof (cases r)
      case (Inl x)
      then show ?thesis using recon b(1) e by (simp add: then_res_def stripe_done_def)
    next
      case (Inr w)
      then obtain D q where D: "w = column_writes b s lo segs D (map (p_sum D) [0..<len], q)" "length D = data_count ?g" "\<forall>c \<in> set D. length c = len"
          "length q = len" "ra_level a = Raid6 \<longrightarrow> q = map (q_sum D) [0..<len]" "X \<noteq> {} \<longrightarrow> D = col ?g ?L' s lo len" using ws by blast
      have "stripe_done s (over off buf (group_addrs (geometry b) segs) L) X b
          (then_res (Some (issue_writes ?hs (column_writes b s lo segs D (map (p_sum D) [0..<len], q)) b)) (\<lambda>_ c. Some (check_after_write c)))"
        by (rule issue_done [OF agree_quiet [OF Suc.prems(1) b(2)] quiet_wf [OF b(2) Suc.prems(2)] _ _ Suc.prems(5) quiet_held [OF held b(2)], where len = len])
          (use Suc.prems(3,4) D sp sh in \<open>auto simp: spans_def\<close>)
      then have "stripe_done s ?L' X a (then_res (Some (issue_writes ?hs w b)) (\<lambda>_ c. Some (check_after_write c)))"
        using stripe_done_from [OF _ e] D(1) sh(1) by simp
      then show ?thesis using recon b(1) Inr by (simp add: then_res_def)
    qed
  qed
qed

end
