(* ===== verification/RaidMirror.thy ===== *)
theory RaidMirror
  imports RaidStripe
begin

text \<open>
  Writes of mirrors: RAID-1 writes every member, RAID-10 the pair of each piece. A member that is
  being rebuilt gets the part of the range below its position. After a success every byte that is
  still read from a member of the set is the new one.
\<close>

section \<open>One range\<close>

definition mirror_ws :: "nat \<Rightarrow> bytes \<Rightarrow> (nat \<times> nat) list \<Rightarrow> (nat \<times> nat \<times> bytes) list" where
  "mirror_ws moff data ts = map (\<lambda>(i, n). (i, RAID_DATA_OFFSET + moff, take n data)) ts"

lemma mirror_writes_do:
  assumes "mirror_writes moff data ts a = (rs, b)" "\<forall>(i, n) \<in> set ts. hs ! i"
  shows "do_writes hs (mirror_ws moff data ts) a = (map (\<lambda>(i, _, r). (i, r)) rs, b)"
  using assms by (induction moff data ts a arbitrary: rs rule: mirror_writes.induct) (auto simp: mirror_ws_def split: prod.splits)

lemma mirror_settle_settle:
  assumes "mirror_settle rs wrote e a = (r, b)"
  shows "\<exists>q. settle (map (\<lambda>(i, _, r). (i, r)) rs) a = (q, b) \<and> (r = Inr () \<longrightarrow> q = Inr ())"
  using assms
  by (induction rs wrote e a rule: mirror_settle.induct) (auto split: sum.splits prod.splits if_splits option.splits)

definition mirror_range :: "nat set \<Rightarrow> nat \<Rightarrow> nat \<Rightarrow> (nat \<times> nat) set" where
  "mirror_range I moff len = {(i, x). i \<in> I \<and> moff \<le> x \<and> x < moff + len}"

lemma targets_spec:
  assumes "(i, n) \<in> set (mirror_targets grp moff len a)"
  shows "i \<in> set grp" "mb_device (ra_members a ! i) \<noteq> None" "n \<le> len"
proof -
  obtain j where "j \<in> set grp" "(let m = ra_members a ! j in
       if mb_device m = None then None
       else if holds m (moff + len) then Some (j, len)
       else if mb_state m = MRebuilding \<and> mb_rebuilt_to m > moff then Some (j, mb_rebuilt_to m - moff)
       else None) = Some (i, n)"
    using assms by (auto simp: mirror_targets_def List.map_filter_def)
  then show "i \<in> set grp" "mb_device (ra_members a ! i) \<noteq> None" "n \<le> len" by (auto simp: Let_def holds_def split: if_splits)
qed

lemma targets_distinct: "distinct grp \<Longrightarrow> distinct (map fst (mirror_targets grp moff len a))"
proof (induction grp)
  case (Cons i grp)
  have "fst x \<noteq> i" if "x \<in> set (mirror_targets grp moff len a)" for x
    using targets_spec(1) [of "fst x" "snd x" grp moff len a] that Cons.prems by auto
  then show ?case using Cons by (auto simp: mirror_targets_def List.map_filter_simps Let_def split: option.split)
qed (simp add: mirror_targets_def List.map_filter_simps)

lemma targets_cover:
  assumes "i \<in> set grp" "holds (ra_members a ! i) (moff + k + 1)" "k < len"
  shows "\<exists>n. (i, n) \<in> set (mirror_targets grp moff len a) \<and> k < n"
proof -
  let ?f = "\<lambda>i. let m = ra_members a ! i in
       if mb_device m = None then None
       else if holds m (moff + len) then Some (i, len)
       else if mb_state m = MRebuilding \<and> mb_rebuilt_to m > moff then Some (i, mb_rebuilt_to m - moff)
       else None"
  have "\<exists>n. ?f i = Some (i, n) \<and> k < n"
    using assms(2,3) by (auto simp: Let_def holds_def split: RaidMemberState.splits)
  then obtain n where n: "?f i = Some (i, n)" "k < n" by blast
  then have "(i, n) \<in> set (mirror_targets grp moff len a)"
    unfolding mirror_targets_def List.map_filter_def set_map set_filter using assms(1) by (force intro!: image_eqI [of _ _ i])
  then show ?thesis using n(2) by blast
qed

lemma mirror_write_spec:
  assumes "mirror_write_at grp moff data a = (r, b)" "distinct grp" "\<forall>i \<in> set grp. i < length (ra_members a)"
  shows "evolves (mirror_range (set grp) moff (length data)) a b" "keeps_bm a b"
    "r = Inr () \<Longrightarrow> i \<in> set grp \<Longrightarrow> holds (ra_members b ! i) (moff + k + 1) \<Longrightarrow> k < length data \<Longrightarrow>
      dev_bytes i b (RAID_DATA_OFFSET + (moff + k)) = data ! k"
proof -
  let ?ts = "mirror_targets grp moff (length data) a"
  have "evolves (mirror_range (set grp) moff (length data)) a b \<and> keeps_bm a b \<and>
    (r = Inr () \<longrightarrow> i \<in> set grp \<longrightarrow> holds (ra_members b ! i) (moff + k + 1) \<longrightarrow> k < length data \<longrightarrow>
      dev_bytes i b (RAID_DATA_OFFSET + (moff + k)) = data ! k)"
  proof (cases "list_ex (\<lambda>(i, n). n = length data) ?ts")
    case False
    then show ?thesis using assms(1) by (auto simp: mirror_write_at_def Let_def)
  next
    case True
    obtain rs c where w: "mirror_writes moff data ?ts a = (rs, c)" by fastforce
    have s: "mirror_settle rs False None c = (r, b)" using assms(1) True w by (simp add: mirror_write_at_def)
    let ?hs = "replicate (length (ra_members a)) True" and ?ws = "mirror_ws moff data ?ts" and ?rs = "map (\<lambda>(i, _, r). (i, r)) rs"
    have hs: "\<forall>(i, n) \<in> set ?ts. ?hs ! i" using targets_spec(1) assms(3) by fastforce
    have dw: "do_writes ?hs ?ws a = (?rs, c)" by (rule mirror_writes_do [OF w hs])
    have dev: "\<forall>(m, at, bs) \<in> set ?ws. RAID_DATA_OFFSET \<le> at \<and> (?hs ! m \<longrightarrow> has_device a m)"
      using targets_spec assms(3) by (fastforce simp: mirror_ws_def has_device_def)
    have dis: "distinct (map fst ?ws)" using targets_distinct [OF assms(2), of moff "length data" a]
      by (simp add: mirror_ws_def comp_def case_prod_beta)
    note d = do_writes_spec [OF dw dev dis]
    obtain q where q: "settle ?rs c = (q, b)" "r = Inr () \<longrightarrow> q = Inr ()" using mirror_settle_settle [OF s] by blast
    note st = settle_spec [OF q(1)]
    have ab: "evolves (write_range ?ws) a b" using evolves_trans [of "write_range ?ws" a c "{}" b] d st by simp
    have "write_range ?ws \<subseteq> mirror_range (set grp) moff (length data)"
      using targets_spec by (fastforce simp: write_range_def mirror_ws_def in_range_def mirror_range_def)
    then have ev: "evolves (mirror_range (set grp) moff (length data)) a b" using ab evolves_mono by blast
    have "dev_bytes i b (RAID_DATA_OFFSET + (moff + k)) = data ! k"
      if ok: "r = Inr ()" and i: "i \<in> set grp" and h: "holds (ra_members b ! i) (moff + k + 1)" and k: "k < length data"
    proof -
      have il: "i < length (ra_members a)" using assms(3) i by blast
      obtain n where n: "(i, n) \<in> set ?ts" "k < n" using targets_cover [OF i evolves_holds [OF ab il h] k] by blast
      have mem: "(i, RAID_DATA_OFFSET + moff, take n data) \<in> set ?ws" using n(1) by (force simp: mirror_ws_def)
      obtain x where x: "(i, x) \<in> set ?rs" "\<not> isl x \<longrightarrow> (\<forall>k < length (take n data). dev_bytes i c (RAID_DATA_OFFSET + moff + k) = take n data ! k)"
      proof -
        have "?hs ! i" using il by simp
        then show ?thesis using that d mem by blast
      qed
      have len: "length (ra_members c) = length (ra_members a)" using d evolves_shape(6) by blast
      have "mstate b i \<noteq> MFailed" using h failed_holds by blast
      then have "\<not> isl x" using st q(2) ok x(1) il len by auto
      then have "dev_bytes i c (RAID_DATA_OFFSET + moff + k) = data ! k" using x(2) n(2) k by simp
      moreover have "dev_bytes i b (RAID_DATA_OFFSET + (moff + k)) = dev_bytes i c (RAID_DATA_OFFSET + (moff + k))"
        using st il len unfolding evolves_def by auto
      ultimately show ?thesis by (simp add: add.assoc)
    qed
    then show ?thesis using ev d st keeps_bm_trans by blast
  qed
  then show "evolves (mirror_range (set grp) moff (length data)) a b" "keeps_bm a b"
    "r = Inr () \<Longrightarrow> i \<in> set grp \<Longrightarrow> holds (ra_members b ! i) (moff + k + 1) \<Longrightarrow> k < length data \<Longrightarrow>
      dev_bytes i b (RAID_DATA_OFFSET + (moff + k)) = data ! k" by blast+
qed

section \<open>RAID-1\<close>

lemma raid1_agree:
  assumes "mirror_write_at (all_slots a) off buf a = (Inr (), b)" "agree a L X" "ra_level a = Raid1"
  shows "agree b (over off buf {off..<off + length buf} L) X"
proof -
  have n: "\<forall>i \<in> set (all_slots a). i < length (ra_members a)" "distinct (all_slots a)" by (simp_all add: all_slots_def)
  note w = mirror_write_spec [OF assms(1) n(2,1)]
  have want: "want (geometry a) K i x = K x" "hold_end (geometry a) x = x + 1" for K i x
    using assms(3) by (simp_all add: want_def hold_end_def is_parity_def geometry_def)
  show ?thesis
  proof (rule agree_step [OF assms(2) w(1)])
    fix i x assume i: "i < length (ra_members a)" and W: "(i, x) \<in> mirror_range (set (all_slots a)) off (length buf)"
      and h: "holds (ra_members b ! i) (hold_end (geometry a) x)"
    have x: "off \<le> x" "x < off + length buf" using W by (simp_all add: mirror_range_def)
    have h': "holds (ra_members b ! i) (off + (x - off) + 1)" using h x(1) by (simp add: want)
    have "dev_bytes i b (RAID_DATA_OFFSET + (off + (x - off))) = buf ! (x - off)"
      by (rule w(3) [OF refl _ h']) (use i x in \<open>auto simp: all_slots_def\<close>)
    then show "dev_bytes i b (RAID_DATA_OFFSET + x) = want (geometry a) (over off buf {off..<off + length buf} L) i x"
      using x by (simp add: want over_def)
  next
    fix i x assume "i < length (ra_members a)" "(i, x) \<notin> mirror_range (set (all_slots a)) off (length buf)"
    then show "want (geometry a) (over off buf {off..<off + length buf} L) i x = want (geometry a) L i x"
      by (auto simp: want over_def mirror_range_def all_slots_def)
  qed
qed

section \<open>RAID-10\<close>

lemma raid10_want:
  "ra_level a = Raid10 \<Longrightarrow> want (geometry a) K i x = K (addr (geometry a) (x div g_unit (geometry a)) (i div 2) (x mod g_unit (geometry a)))"
  "ra_level a = Raid10 \<Longrightarrow> hold_end (geometry a) x = x + 1"
  by (simp_all add: want_def hold_end_def is_parity_def geometry_def addr_def)

definition seg_rows :: "RaidArray \<Rightarrow> Segment \<Rightarrow> (nat \<times> nat) set" where
  "seg_rows a t = {(i, x). x \<in> seg_at (geometry a) t}"

lemma raid10_piece:
  assumes "mirror_write_at (pair_list (sg_index t)) (sg_stripe t * ra_stripe_size a + sg_offset_in_unit t) (seg_data buf t) a = (r, b)"
    and "agree a L X" "ra_level a = Raid10" "ra_wf a" "seg_ok (geometry a) off t" "fits buf t"
  shows "evolves (seg_rows a t) a b" "keeps_bm a b" "r = Inr () \<Longrightarrow> agree b (over off buf (seg_addrs (geometry a) t) L) X"
proof -
  let ?g = "geometry a" and ?mo = "sg_stripe t * ra_stripe_size a + sg_offset_in_unit t" and ?P = "set (pair_list (sg_index t))"
  let ?L' = "over off buf (seg_addrs ?g t) L"
  have u: "g_unit ?g = ra_stripe_size a" "0 < ra_stripe_size a" "data_count ?g = length (ra_members a) div 2" "even (length (ra_members a))"
    using assms(3,4) by (auto simp: geometry_def ra_wf_def geometry_ok_def data_count_def)
  have len: "length (seg_data buf t) = sg_len t" using assms(6) by (simp add: seg_data_def fits_def)
  have P: "i \<in> ?P \<longleftrightarrow> i div 2 = sg_index t" for i by (auto simp: pair_list_def pair_members_def)
  note w = mirror_write_spec [OF assms(1) _ pair_members_less [OF assms(3,4,5)]]
  have d: "distinct (pair_list (sg_index t))" by (simp add: pair_list_def pair_members_def)
  have "mirror_range ?P ?mo (sg_len t) \<subseteq> seg_rows a t" using u(1) by (auto simp: mirror_range_def seg_rows_def seg_at_def col_at_def)
  then show "evolves (seg_rows a t) a b" using w(1) [OF d] len evolves_mono by auto
  show "keeps_bm a b" by (rule w(2) [OF d])
  assume ok: "r = Inr ()"
  have off: "sg_offset_in_unit t + k < g_unit ?g" if "k < sg_len t" for k using assms(5) that by (simp add: seg_ok_def)
  show "agree b ?L' X"
  proof (rule agree_step [OF assms(2) w(1) [OF d, unfolded len]])
    fix i x assume W: "(i, x) \<in> mirror_range ?P ?mo (sg_len t)" and h: "holds (ra_members b ! i) (hold_end ?g x)"
    define k where "k = x - ?mo"
    have k: "x = ?mo + k" "k < sg_len t" and i: "i \<in> ?P" using W by (auto simp: mirror_range_def k_def)
    have x: "x div g_unit ?g = sg_stripe t" "x mod g_unit ?g = sg_offset_in_unit t + k"
      using off [OF k(2)] k(1) u(1) by (simp_all add: add.assoc)
    have h': "holds (ra_members b ! i) (?mo + k + 1)" using h k(1) raid10_want(2) [OF assms(3)] by simp
    have "dev_bytes i b (RAID_DATA_OFFSET + (?mo + k)) = seg_data buf t ! k" by (rule w(3) [OF d ok i h']) (simp add: len k(2))
    also have "\<dots> = ?L' (seg_addr ?g t + k)" using seg_data_over [OF assms(5,6) subset_refl, of L] k(2) by (simp add: seg_bytes_def)
    also have "\<dots> = want ?g ?L' i x"
      using x P i raid10_want(1) [OF assms(3)] by (simp add: addr_def seg_addr_def add.assoc)
    finally show "dev_bytes i b (RAID_DATA_OFFSET + x) = want ?g ?L' i x" using k(1) by simp
  next
    fix i x assume i: "i < length (ra_members a)" and W: "(i, x) \<notin> mirror_range ?P ?mo (sg_len t)"
    let ?p = "addr ?g (x div g_unit ?g) (i div 2) (x mod g_unit ?g)"
    have "?p \<notin> seg_addrs ?g t"
    proof
      assume "?p \<in> seg_addrs ?g t"
      then obtain k where k: "k < sg_len t" "?p = seg_addr ?g t + k" by (auto simp: seg_addrs_def dest!: le_Suc_ex)
      have i2: "i div 2 < data_count ?g" using i u(3,4) by (auto elim!: evenE)
      have j: "x mod g_unit ?g < g_unit ?g" using u by simp
      note sp = seg_split [OF assms(5) k(1)] and ad = addr_split [OF i2 j, of "x div g_unit ?g"]
      have eq: "x div g_unit ?g = sg_stripe t" "i div 2 = sg_index t" "x mod g_unit ?g = sg_offset_in_unit t + k" using sp ad k(2) by simp_all
      have "x = sg_stripe t * g_unit ?g + (sg_offset_in_unit t + k)" using div_mult_mod_eq [of x "g_unit ?g"] eq by metis
      then have "(i, x) \<in> mirror_range ?P ?mo (sg_len t)" using eq(2) P k(1) u(1) by (simp add: mirror_range_def)
      then show False using W by simp
    qed
    then show "want ?g ?L' i x = want ?g L i x" by (simp add: raid10_want(1) [OF assms(3)] over_def)
  qed
qed

lemma raid10_pieces_spec:
  assumes "raid10_pieces segs buf a = (r, b)" "agree a L X" "ra_level a = Raid10" "ra_wf a" "g = geometry a"
    and "\<forall>t \<in> set segs. seg_ok g off t \<and> fits buf t"
  shows "evolves (\<Union>t \<in> set segs. seg_rows a t) a b \<and> keeps_bm a b \<and> (r = Inr () \<longrightarrow> agree b (over off buf (group_addrs g segs) L) X)"
  using assms
proof (induction segs arbitrary: a b L X)
  case Nil
  then show ?case by (auto simp: group_addrs_def)
next
  case (Cons t segs)
  obtain q c where m: "mirror_write_at (pair_list (sg_index t)) (sg_stripe t * ra_stripe_size a + sg_offset_in_unit t) (seg_data buf t) a = (q, c)"
    by fastforce
  have t: "seg_ok (geometry a) off t" "fits buf t" using Cons.prems(5,6) by simp_all
  note p = raid10_piece [OF m Cons.prems(2-4) t]
  show ?case
  proof (cases q)
    case (Inl e)
    then show ?thesis using Cons.prems(1) m p(1,2) evolves_mono [OF p(1)] by (auto simp: seg_data_def)
  next
    case (Inr u)
    have sh: "geometry c = geometry a" "ra_level c = Raid10" "\<And>t. seg_rows c t = seg_rows a t"
      using evolves_shape(1,7) [OF p(1)] Cons.prems(3) by (simp_all add: seg_rows_def)
    have run: "raid10_pieces segs buf c = (r, b)" using Cons.prems(1) m Inr by (simp add: seg_data_def)
    have ih: "evolves (\<Union>t \<in> set segs. seg_rows c t) c b \<and> keeps_bm c b \<and>
        (r = Inr () \<longrightarrow> agree b (over off buf (group_addrs g segs) (over off buf (seg_addrs g t) L)) X)"
      by (rule Cons.IH [OF run]) (use p Inr sh Cons.prems(4-6) ra_wf_keeps in auto)
    have "evolves (\<Union>t \<in> set (t # segs). seg_rows a t) a b" using evolves_trans [OF p(1)] ih sh(3) by simp
    then show ?thesis using ih keeps_bm_trans [OF p(2)] by (auto simp: over_over group_addrs_Cons Un_commute)
  qed
qed

end
