(* ===== verification/RaidStore.thy ===== *)
theory RaidStore
  imports RaidMirror
begin

text \<open>
  The array as a block device. The specification is a flat image of bytes and the set of rows
  that are trusted; a write that answers an error takes the rows it touched out of it (the code
  leaves them to the intent bitmap). Every run of reads, writes and flushes on an array refines
  it, at every level and with any pattern of failing calls and failing members.
\<close>

section \<open>Rows\<close>

text \<open>What a failed write puts in doubt: the stripes it touches of a parity set, the bytes of a mirror.\<close>

definition row :: "Geometry \<Rightarrow> nat \<Rightarrow> nat" where
  "row g x = (if is_parity g then x div g_unit g else x)"

definition rows :: "Geometry \<Rightarrow> nat set \<Rightarrow> nat set" where
  "rows g T = {x. row g x \<in> T}"

definition touched_rows :: "Geometry \<Rightarrow> nat \<Rightarrow> nat \<Rightarrow> nat set" where
  "touched_rows g offset len = row g ` touched g offset len"

lemma rows_known: "is_parity (geometry a) \<Longrightarrow> s \<in> T \<Longrightarrow> known a s (rows (geometry a) T)"
  by (auto simp: known_def rows_def row_def geometry_def)

section \<open>Parity sets\<close>

lemma stripe_write_spec:
  assumes "agree a L (rows (geometry a) T)" "ra_wf a" "is_parity (geometry a)" "group_ok (geometry a) off segs" "s = sg_stripe (hd segs)"
    and "\<forall>t \<in> set segs. fits buf t"
  shows "stripe_done s (over off buf (group_addrs (geometry a) segs) L) (rows (geometry a) T) a (parity_write_stripe segs buf a)"
proof (cases "s \<in> T")
  case True
  then show ?thesis unfolding parity_write_stripe_def
    by (intro stripe_attempts_spec [OF assms(1-5) _ assms(6)] rows_known [OF assms(3)])
next
  case False
  let ?g = "geometry a"
  have k: "known a s {}" by (simp add: known_def)
  obtain r b where b: "parity_write_stripe segs buf a = Some (r, b)" "evolves (in_stripe a s) a b" "keeps_bm a b"
    using stripe_attempts_spec [OF agree_none assms(2-5) k assms(6), of undefined 3] by (auto simp: stripe_done_def parity_write_stripe_def)
  have u: "g_unit ?g = ra_stripe_size a" "0 < g_unit ?g" "g_n ?g = length (ra_members a)" "geometry_ok ?g"
    using assms(2) by (auto simp: geometry_def ra_wf_def geometry_ok_def)
  have out: "x div ra_stripe_size a \<noteq> s" if "x \<in> rows ?g T" for x using that False assms(3) u(1) by (auto simp: rows_def row_def)
  have "agree b (over off buf (group_addrs ?g segs) L) (rows ?g T)"
  proof (rule agree_step [OF assms(1) b(2)])
    fix i x assume "x \<in> rows ?g T" "(i, x) \<in> in_stripe a s"
    then show "dev_bytes i b (RAID_DATA_OFFSET + x) = want ?g (over off buf (group_addrs ?g segs) L) i x"
      using out by (auto simp: in_stripe_def)
  next
    fix i x assume i: "i < length (ra_members a)" and x: "x \<in> rows ?g T"
    let ?s = "x div g_unit ?g" and ?j = "x mod g_unit ?g"
    have "\<not> hit ?g (group_addrs ?g segs) ?s (role_of ?g ?s i) ?j"
    proof
      assume "hit ?g (group_addrs ?g segs) ?s (role_of ?g ?s i) ?j"
      then obtain d where "d < data_count ?g" "addr ?g ?s d ?j \<in> group_addrs ?g segs"
        using role_of_ok [OF u(4) assms(3), of i ?s] i u(3) by (auto simp: hit_def role_ok_def split: StripRole.splits)
      then have "?s = s" using group_addrs_stripe [OF assms(4)] addr_split(1) [of d ?g ?j ?s] u(2) assms(5) by simp
      then show False using out [OF x] u(1) by simp
    qed
    then show "want ?g (over off buf (group_addrs ?g segs) L) i x = want ?g L i x" by (rule want_same [OF assms(3)])
  qed
  then show ?thesis using b by (simp add: stripe_done_def)
qed

lemma write_groups_spec:
  assumes "agree a L (rows g T)" "ra_wf a" "is_parity g" "g = geometry a"
    and "\<forall>grp \<in> set gs. group_ok g off grp \<and> (\<forall>t \<in> set grp. fits buf t)"
  shows "\<exists>r b. write_groups gs buf err a = Some (r, b) \<and> evolves (\<Union>grp \<in> set gs. in_stripe a (sg_stripe (hd grp))) a b \<and> keeps_bm a b \<and>
    (r = Inr () \<longrightarrow> err = None \<and> agree b (over off buf (group_addrs g (concat gs)) L) (rows g T))"
  using assms
proof (induction gs arbitrary: a L T err)
  case Nil
  then show ?case by (auto simp: group_addrs_def split: option.splits)
next
  case (Cons grp gs)
  let ?s = "sg_stripe (hd grp)"
  obtain r c where c: "parity_write_stripe grp buf a = Some (r, c)" "evolves (in_stripe a ?s) a c" "keeps_bm a c"
      "r = Inr () \<longrightarrow> agree c (over off buf (group_addrs g grp) L) (rows g T)"
    using stripe_write_spec [of a L T off grp ?s buf] Cons.prems by (auto simp: stripe_done_def)
  define err' where "err' = (case (err, r) of (None, Inl e) \<Rightarrow> Some e | _ \<Rightarrow> err)"
  define U where "U = (if r = Inr () then T else {})"
  have ag: "agree c (over off buf (group_addrs g grp) L) (rows g U)" using c(4) by (simp add: U_def rows_def)
  have sh: "g = geometry c" "in_stripe c = in_stripe a" using evolves_shape(7) [OF c(2)] Cons.prems(4) in_stripe_evolves [OF c(2)] by auto
  obtain r' b where b: "write_groups gs buf err' c = Some (r', b)" "evolves (\<Union>grp \<in> set gs. in_stripe a (sg_stripe (hd grp))) c b" "keeps_bm c b"
      "r' = Inr () \<longrightarrow> err' = None \<and> agree b (over off buf (group_addrs g (concat gs)) (over off buf (group_addrs g grp) L)) (rows g U)"
    using Cons.IH [OF ag ra_wf_keeps [OF Cons.prems(2) c(2,3)] Cons.prems(3) sh(1), of err'] Cons.prems(5) sh(2) by auto
  have e: "evolves (\<Union>grp \<in> set (grp # gs). in_stripe a (sg_stripe (hd grp))) a b" using evolves_trans [OF c(2) b(2)] by simp
  have "err = None \<and> agree b (over off buf (group_addrs g (concat (grp # gs))) L) (rows g T)" if r': "r' = Inr ()"
  proof -
    have n: "err = None" "r = Inr ()" using b(4) r' by (auto simp: err'_def split: option.splits sum.splits)
    have "group_addrs g (concat gs) \<union> group_addrs g grp = group_addrs g (concat (grp # gs))" by (auto simp: group_addrs_def)
    then show ?thesis using b(4) r' n by (simp add: over_over U_def)
  qed
  then show ?case using b c(1) e keeps_bm_trans [OF c(3) b(3)] by (simp add: err'_def)
qed

section \<open>Writes\<close>

lemma pieces_fit:
  assumes "\<forall>t \<in> set segs. seg_ok g offset t" "concat (map (\<lambda>t. [seg_addr g t..<seg_addr g t + sg_len t]) segs) = [offset..<offset + length buf]"
  shows "\<forall>t \<in> set segs. fits buf t" "group_addrs g segs = {offset..<offset + length buf}"
proof -
  have "set (concat (map (\<lambda>t. [seg_addr g t..<seg_addr g t + sg_len t]) segs)) = {offset..<offset + length buf}" unfolding assms(2) by simp
  then show eq: "group_addrs g segs = {offset..<offset + length buf}" by (auto simp: group_addrs_def seg_addrs_def)
  show "\<forall>t \<in> set segs. fits buf t"
  proof
    fix t assume t: "t \<in> set segs"
    have ok: "0 < sg_len t" "offset + sg_buf_offset t = seg_addr g t" using assms(1) t by (auto simp: seg_ok_def)
    have "seg_addr g t + sg_len t - 1 \<in> {offset..<offset + length buf}"
      unfolding eq [symmetric] group_addrs_def seg_addrs_def using t ok(1) by (auto intro!: bexI [of _ t])
    then show "fits buf t" using ok by (auto simp: fits_def)
  qed
qed

text \<open>The outcome of a write of the array.\<close>

definition write_done :: "nat \<Rightarrow> bytes \<Rightarrow> (nat \<Rightarrow> u8) \<Rightarrow> nat set \<Rightarrow> RaidArray \<Rightarrow> unit res \<Rightarrow> bool" where
  "write_done offset buf L T a res \<longleftrightarrow> (\<exists>r b. res = Some (r, b) \<and> ra_wf b \<and>
     evolves {(i, x). row (geometry a) x \<in> touched_rows (geometry a) offset (length buf)} a b \<and>
     (r = Inr () \<longrightarrow> agree b (over offset buf {offset..<offset + length buf} L) (rows (geometry a) T)))"

text \<open>What all levels do around the write itself.\<close>

lemma write_wrapped:
  assumes "ra_wf a" "\<not> ra_released a" "agree a L (rows (geometry a) T)" "r = ib_chunks (ra_bitmap a) o1 l1"
    and "\<And>b. evolves {} a b \<Longrightarrow> ra_wf b \<Longrightarrow> agree b L (rows (geometry a) T) \<Longrightarrow>
      \<exists>q c. f b = Some (q, c) \<and> keeps_bm b c \<and> evolves {(i, x). row (geometry a) x \<in> touched_rows (geometry a) offset (length buf)} b c \<and>
        (q = Inr () \<longrightarrow> agree c (over offset buf {offset..<offset + length buf} L) (rows (geometry a) T))"
  shows "write_done offset buf L T a (then_res (intent_begin r a) (\<lambda>_ a. case f a of None \<Rightarrow> None | Some ra \<Rightarrow> finish_write r ra))"
proof -
  let ?W = "{(i, x). row (geometry a) x \<in> touched_rows (geometry a) offset (length buf)}"
  have bw: "bitmap_wf a" using assms(1) by (simp add: ra_wf_def)
  have r: "distinct r" "\<forall>c \<in> set r. c < ib_bits (ra_bitmap a)" using chunks_ok [OF bw] assms(4) by auto
  obtain q b where b: "intent_begin r a = Some (q, b)" "evolves {} a b" "ra_wf b" using intent_begin_spec [OF assms(1) r assms(2)] by blast
  show ?thesis
  proof (cases q)
    case (Inl e)
    then show ?thesis using b evolves_mono [OF b(2)] by (auto simp: then_res_def write_done_def)
  next
    case (Inr u)
    obtain q' c where c: "f b = Some (q', c)" "keeps_bm b c" "evolves ?W b c"
        "q' = Inr () \<longrightarrow> agree c (over offset buf {offset..<offset + length buf} L) (rows (geometry a) T)"
      using assms(5) [OF b(2,3) agree_same [OF assms(3) b(2)]] by blast
    obtain d where d: "finish_write r (q', c) = Some (q', d)" "evolves {} c d" "ra_wf d"
      using finish_write_spec [OF ra_wf_keeps [OF b(3) c(3,2)] r(1)] by blast
    have "evolves ?W a d" using evolves_trans [OF evolves_trans [OF b(2) c(3)] d(2)] by simp
    then show ?thesis using b(1) Inr c(1,4) d agree_same [OF _ d(2)] by (auto simp: then_res_def write_done_def)
  qed
qed

lemma segments_chain:
  assumes "geometry_ok g" "segments g offset len = Some segs"
  shows "successively (next_piece g) segs"
  using segments_loop_chain [of g offset "offset + len" offset segs] geometry_n(2) [OF assms(1)] assms by (auto simp: segments_def geometry_ok_def)

lemma parity_write_spec:
  assumes "ra_wf a" "is_parity (geometry a)" "agree a L (rows (geometry a) T)" "\<not> ra_released a"
  shows "write_done offset buf L T a (parity_write offset buf a)"
proof -
  let ?g = "geometry a"
  have g: "geometry_ok ?g" "g_level ?g \<noteq> Raid1" using assms(1,2) by (auto simp: ra_wf_def is_parity_def)
  obtain segs where segs: "segments ?g offset (length buf) = Some segs" "\<forall>s \<in> set segs. seg_ok ?g offset s"
      "concat (map (\<lambda>s. [seg_addr ?g s..<seg_addr ?g s + sg_len s]) segs) = [offset..<offset + length buf]"
    using segments_spec [OF g(1)] by blast
  note fit = pieces_fit [OF segs(2,3)]
  have grp: "concat (stripe_groups segs) = segs" "\<forall>grp \<in> set (stripe_groups segs). group_ok ?g offset grp"
    using stripe_groups_spec [OF segs(2) segments_chain [OF g(1) segs(1)]] by simp_all
  have fg: "\<forall>grp \<in> set (stripe_groups segs). \<forall>t \<in> set grp. t \<in> set segs" by (metis UN_I grp(1) set_concat)
  have W: "(\<Union>grp \<in> set (stripe_groups segs). in_stripe b (sg_stripe (hd grp)))
      \<subseteq> {(i, x). row ?g x \<in> touched_rows ?g offset (length buf)}" if "ra_stripe_size b = ra_stripe_size a" for b
  proof (clarify)
    fix grp i x assume gr: "grp \<in> set (stripe_groups segs)" and x: "(i, x) \<in> in_stripe b (sg_stripe (hd grp))"
    have h: "hd grp \<in> set segs" using gr grp(2) fg by (auto simp: group_ok_def)
    then have ok: "seg_ok ?g offset (hd grp)" using segs(2) by blast
    let ?y = "sg_stripe (hd grp) * g_unit ?g + sg_offset_in_unit (hd grp)"
    have "?y \<in> seg_at ?g (hd grp)" using ok by (simp add: seg_at_def col_at_def seg_ok_def)
    then have "?y \<in> touched ?g offset (length buf)" using segments_touched [OF segs(2) g(2) segs(3)] h by blast
    moreover have "row ?g ?y = sg_stripe (hd grp)" using ok assms(2) by (simp add: row_def seg_ok_def)
    moreover have "row ?g x = sg_stripe (hd grp)" using x assms(2) that by (simp add: row_def in_stripe_def geometry_def)
    ultimately show "row ?g x \<in> touched_rows ?g offset (length buf)" unfolding touched_rows_def by (metis imageI)
  qed
  show ?thesis
  proof (cases "segs = []")
    case True
    then have "{offset..<offset + length buf} = {}" using fit(2) by (simp add: group_addrs_def)
    then have "over offset buf {offset..<offset + length buf} L = L" by (simp del: atLeastLessThan_empty_iff)
    then show ?thesis using True segs(1) assms(1,3) by (simp add: parity_write_def write_done_def)
  next
    case False
    define r where "r = stripe_chunks segs a"
    have "\<exists>o1 l1. r = ib_chunks (ra_bitmap a) o1 l1" by (auto simp: r_def stripe_chunks_def Let_def)
    then obtain o1 l1 where r: "r = ib_chunks (ra_bitmap a) o1 l1" by blast
    have "write_done offset buf L T a (then_res (intent_begin r a) (\<lambda>_ a.
        case write_groups (stripe_groups segs) buf None a of None \<Rightarrow> None | Some ra \<Rightarrow> finish_write r ra))"
    proof (rule write_wrapped [OF assms(1,4,3) r])
      fix b assume b: "evolves {} a b" "ra_wf b" "agree b L (rows ?g T)"
      have sh: "?g = geometry b" "ra_stripe_size b = ra_stripe_size a" using evolves_shape(2,7) [OF b(1)] by simp_all
      have ok: "\<forall>grp \<in> set (stripe_groups segs). group_ok ?g offset grp \<and> (\<forall>t \<in> set grp. fits buf t)" using grp(2) fg fit(1) by blast
      from write_groups_spec [OF b(3,2) assms(2) sh(1) ok, of None]
      show "\<exists>q c. write_groups (stripe_groups segs) buf None b = Some (q, c) \<and> keeps_bm b c \<and>
          evolves {(i, x). row ?g x \<in> touched_rows ?g offset (length buf)} b c \<and>
          (q = Inr () \<longrightarrow> agree c (over offset buf {offset..<offset + length buf} L) (rows ?g T))"
        using evolves_mono [OF _ W [OF sh(2)]] grp(1) fit(2) by auto
    qed
    then show ?thesis using False segs(1) by (simp add: parity_write_def r_def [symmetric])
  qed
qed

lemma raid1_write_spec:
  assumes "ra_wf a" "ra_level a = Raid1" "agree a L (rows (geometry a) T)" "\<not> ra_released a"
  shows "write_done offset buf L T a (raid1_write offset buf a)"
proof -
  let ?r = "ib_chunks (ra_bitmap a) offset (length buf)" and ?g = "geometry a"
  have "write_done offset buf L T a (then_res (intent_begin ?r a) (\<lambda>_ a.
      case Some (mirror_write_at (all_slots a) offset buf a) of None \<Rightarrow> None | Some ra \<Rightarrow> finish_write ?r ra))"
  proof (rule write_wrapped [OF assms(1,4,3) refl])
    fix b assume b: "evolves {} a b" "ra_wf b" "agree b L (rows ?g T)"
    obtain q c where m: "mirror_write_at (all_slots b) offset buf b = (q, c)" by fastforce
    have lev: "ra_level b = Raid1" using evolves_shape(1) [OF b(1)] assms(2) by simp
    note w = mirror_write_spec [OF m]
    have "mirror_range (set (all_slots b)) offset (length buf) \<subseteq> {(i, x). row ?g x \<in> touched_rows ?g offset (length buf)}"
      using assms(2) by (auto simp: mirror_range_def row_def is_parity_def geometry_def touched_rows_def touched_def member_off_def)
    then have "evolves {(i, x). row ?g x \<in> touched_rows ?g offset (length buf)} b c" "keeps_bm b c"
      using w(1,2) evolves_mono by (auto simp: all_slots_def)
    then show "\<exists>q c. Some (mirror_write_at (all_slots b) offset buf b) = Some (q, c) \<and> keeps_bm b c \<and>
        evolves {(i, x). row ?g x \<in> touched_rows ?g offset (length buf)} b c \<and>
        (q = Inr () \<longrightarrow> agree c (over offset buf {offset..<offset + length buf} L) (rows ?g T))"
      using m raid1_agree [OF _ b(3) lev] by auto
  qed
  then show ?thesis by (simp add: raid1_write_def Let_def)
qed

lemma raid10_write_spec:
  assumes "ra_wf a" "ra_level a = Raid10" "agree a L (rows (geometry a) T)" "\<not> ra_released a"
  shows "write_done offset buf L T a (raid10_write offset buf a)"
proof -
  let ?g = "geometry a"
  have g: "geometry_ok ?g" "g_level ?g \<noteq> Raid1" "\<not> is_parity ?g" using assms(1,2) by (auto simp: ra_wf_def is_parity_def geometry_def)
  obtain segs where segs: "segments ?g offset (length buf) = Some segs" "\<forall>s \<in> set segs. seg_ok ?g offset s"
      "concat (map (\<lambda>s. [seg_addr ?g s..<seg_addr ?g s + sg_len s]) segs) = [offset..<offset + length buf]"
    using segments_spec [OF g(1)] by blast
  note fit = pieces_fit [OF segs(2,3)]
  define r where "r = stripe_chunks segs a"
  have "\<exists>o1 l1. r = ib_chunks (ra_bitmap a) o1 l1" by (auto simp: r_def stripe_chunks_def Let_def)
  then obtain o1 l1 where r: "r = ib_chunks (ra_bitmap a) o1 l1" by blast
  have "write_done offset buf L T a (then_res (intent_begin r a) (\<lambda>_ a.
      case Some (raid10_pieces segs buf a) of None \<Rightarrow> None | Some ra \<Rightarrow> finish_write r ra))"
  proof (rule write_wrapped [OF assms(1,4,3) r])
    fix b assume b: "evolves {} a b" "ra_wf b" "agree b L (rows ?g T)"
    obtain q c where m: "raid10_pieces segs buf b = (q, c)" by fastforce
    have sh: "ra_level b = Raid10" "?g = geometry b" using evolves_shape(1,7) [OF b(1)] assms(2) by simp_all
    have ok: "\<forall>t \<in> set segs. seg_ok ?g offset t \<and> fits buf t" using fit(1) segs(2) by blast
    note w = raid10_pieces_spec [OF m b(3) sh(1) b(2) sh(2) ok, unfolded fit(2)]
    have sub: "(\<Union>t \<in> set segs. seg_rows b t) \<subseteq> {(i, x). row ?g x \<in> touched_rows ?g offset (length buf)}"
      using segments_touched [OF segs(2) g(2) segs(3)] g(3) sh(2) by (auto simp: seg_rows_def row_def touched_rows_def)
    have "evolves {(i, x). row ?g x \<in> touched_rows ?g offset (length buf)} b c"
      by (rule evolves_mono [OF _ sub]) (use w in blast)
    then show "\<exists>q c. Some (raid10_pieces segs buf b) = Some (q, c) \<and> keeps_bm b c \<and>
        evolves {(i, x). row ?g x \<in> touched_rows ?g offset (length buf)} b c \<and>
        (q = Inr () \<longrightarrow> agree c (over offset buf {offset..<offset + length buf} L) (rows ?g T))"
      using m w by simp
  qed
  then show ?thesis using segs(1) by (simp add: raid10_write_def r_def [symmetric])
qed

lemma array_write_spec:
  assumes "ra_wf a" "agree a L (rows (geometry a) T)"
  shows "write_done offset buf L T a (array_write offset buf a)"
proof -
  have "ra_level a = Raid5 \<or> ra_level a = Raid6 \<Longrightarrow> is_parity (geometry a)" by (simp add: is_parity_def geometry_def)
  then show ?thesis
    using parity_write_spec [OF assms(1) _ assms(2)] raid1_write_spec [OF assms(1) _ assms(2)] raid10_write_spec [OF assms(1) _ assms(2)] assms(1)
    by (cases "ra_level a"; cases "ra_released a"; cases "offset + length buf > ra_capacity a") (auto simp: array_write_def write_done_def)
qed

section \<open>Flushes\<close>

lemma quiet_flush_each: "flush_each is a = (rs, b) \<Longrightarrow> quiet a b"
proof (induction "is" a arbitrary: rs rule: flush_each.induct)
  case (2 i "is" a)
  obtain r c where f: "dev_flush i a = (r, c)" by fastforce
  obtain rs' where e: "flush_each is c = (rs', b)" using 2(2) f by (auto split: prod.splits)
  show ?case using quiet_trans [OF quiet_dev_flush [OF f] 2(1) [OF f [symmetric] e]] .
qed simp

lemma quiet_flush_members: "flush_members a = (r, b) \<Longrightarrow> quiet a b"
  using quiet_flush_each quiet_settle quiet_trans by (fastforce simp: flush_members_def split: prod.splits sum.splits if_splits)

lemma clear_wf: "ra_wf a \<Longrightarrow> ra_wf (a\<lparr>ra_bitmap := snd (ib_clear_idle t (ra_bitmap a))\<rparr>)"
  using clear_effect [of "ra_bitmap a" "filter (\<lambda>c. ib_wanted (ra_bitmap a) ! c) [0..<length (ib_wanted (ra_bitmap a))]" _ t 0, OF _ _ refl]
  by (simp add: ra_wf_def bitmap_wf_def bm_ok_def geometry_def ib_clear_idle_def)

lemma array_flush_spec:
  assumes "ra_wf a"
  shows "\<exists>r b. array_flush before a = Some (r, b) \<and> ra_wf b \<and> evolves {} a b"
proof (cases "ra_released a")
  case True
  then show ?thesis using assms by (simp add: array_flush_def)
next
  case False
  obtain r c where f: "flush_members a = (r, c)" by fastforce
  have c: "ra_wf c" "evolves {} a c" using quiet_flush_members [OF f] quiet_wf assms by (auto simp: quiet_def)
  define d where "d = (case (r, before) of (Inr _, Some t) \<Rightarrow>
      if keeps_bitmap c then c
      else (case ib_clear_idle t (ra_bitmap c) of (n, m) \<Rightarrow>
              let c = c\<lparr>ra_bitmap := m\<rparr> in if n > 0 then snd (write_bitmap_pages c) else c)
    | _ \<Rightarrow> c)"
  have "ra_wf d \<and> evolves {} c d"
  proof -
    have e: "ra_wf (c\<lparr>ra_bitmap := m\<rparr>) \<and> evolves {} c (c\<lparr>ra_bitmap := m\<rparr>)" if "ib_clear_idle t (ra_bitmap c) = (n, m)" for n m t
      using clear_wf [OF c(1), of t] that by simp
    have w: "ra_wf (snd (write_bitmap_pages e)) \<and> evolves {} c (snd (write_bitmap_pages e))" if "ra_wf e \<and> evolves {} c e" for e
      using write_bitmap_pages_spec [of e "fst (write_bitmap_pages e)" "snd (write_bitmap_pages e)"] that evolves_then by auto
    show ?thesis
    proof (cases "\<exists>u t. r = Inr u \<and> before = Some t \<and> \<not> keeps_bitmap c")
      case True
      then obtain u t n m where "r = Inr u" "before = Some t" "\<not> keeps_bitmap c" "ib_clear_idle t (ra_bitmap c) = (n, m)" by fastforce
      then show ?thesis using e [of t n m] w [of "c\<lparr>ra_bitmap := m\<rparr>"] by (simp add: d_def Let_def)
    next
      case False
      then show ?thesis using c(1) by (auto simp: d_def split: sum.split option.split)
    qed
  qed
  then have d: "ra_wf d" "evolves {} c d" by simp_all
  obtain b where b: "persist_if_dirty d = Some b" "quiet d b" using persist_spec [OF d(1)] by blast
  have "array_flush before a = Some (r, b)" using False f b(1) unfolding d_def by (simp add: array_flush_def)
  moreover have "evolves {} a b" using evolves_then [OF evolves_then [OF c(2) d(2)]] b(2) by (simp add: quiet_def)
  ultimately show ?thesis using quiet_wf [OF b(2) d(1)] by blast
qed

section \<open>The specification\<close>

datatype array_op = OpRead nat nat | OpWrite nat bytes | OpFlush "nat option"

datatype array_reply = GotBytes bytes | GotDone | GotError raid_error

definition array_step :: "array_op \<Rightarrow> RaidArray \<Rightarrow> (array_reply \<times> RaidArray) option" where
  "array_step oper a =
     (case oper of
        OpRead offset len \<Rightarrow> map_option (map_prod (case_sum GotError GotBytes) (\<lambda>b. b)) (array_read offset len a)
      | OpWrite offset buf \<Rightarrow> map_option (map_prod (case_sum GotError (\<lambda>_. GotDone)) (\<lambda>b. b)) (array_write offset buf a)
      | OpFlush before \<Rightarrow> map_option (map_prod (case_sum GotError (\<lambda>_. GotDone)) (\<lambda>b. b)) (array_flush before a))"

fun run_ops :: "('o \<Rightarrow> 'a \<Rightarrow> ('r \<times> 'a) option) \<Rightarrow> 'o list \<Rightarrow> 'a \<Rightarrow> ('r list \<times> 'a) option" where
  "run_ops step [] a = Some ([], a)"
| "run_ops step (x # xs) a =
     (case step x a of None \<Rightarrow> None | Some (r, b) \<Rightarrow> map_option (\<lambda>(rs, c). (r # rs, c)) (run_ops step xs b))"

record store =
  st_image :: "nat \<Rightarrow> u8"
  st_trusted :: "nat set"

text \<open>A read of trusted rows answers the image, or an error; a write that fails costs the trust in the rows it touched.\<close>

inductive store_step :: "Geometry \<Rightarrow> store \<Rightarrow> array_op \<Rightarrow> array_reply \<Rightarrow> store \<Rightarrow> bool" for g where
  read_ok: "(touched_rows g offset len \<subseteq> st_trusted s \<longrightarrow> bs = map (st_image s) [offset..<offset + len]) \<Longrightarrow>
    store_step g s (OpRead offset len) (GotBytes bs) s"
| read_error: "store_step g s (OpRead offset len) (GotError e) s"
| write_ok: "store_step g s (OpWrite offset buf) GotDone (s\<lparr>st_image := over offset buf {offset..<offset + length buf} (st_image s)\<rparr>)"
| write_error: "store_step g s (OpWrite offset buf) (GotError e) (s\<lparr>st_trusted := st_trusted s - touched_rows g offset (length buf)\<rparr>)"
| flush_ok: "store_step g s (OpFlush before) GotDone s"
| flush_error: "store_step g s (OpFlush before) (GotError e) s"

inductive_cases store_readE: "store_step g s (OpRead offset len) r s'"
inductive_cases store_writeE: "store_step g s (OpWrite offset buf) r s'"
inductive_cases store_flushE: "store_step g s (OpFlush before) r s'"

inductive spec_run :: "('s \<Rightarrow> 'o \<Rightarrow> 'r \<Rightarrow> 's \<Rightarrow> bool) \<Rightarrow> 's \<Rightarrow> 'o list \<Rightarrow> 'r list \<Rightarrow> 's \<Rightarrow> bool" for step where
  finished: "spec_run step s [] [] s"
| more: "step s x r s' \<Longrightarrow> spec_run step s' xs rs s'' \<Longrightarrow> spec_run step s (x # xs) (r # rs) s''"

text \<open>An implementation that always answers, and answers what the specification allows.\<close>

locale total_simulation =
  fixes step :: "'o \<Rightarrow> 'a \<Rightarrow> ('r \<times> 'a) option"
    and spec :: "'s \<Rightarrow> 'o \<Rightarrow> 'r \<Rightarrow> 's \<Rightarrow> bool"
    and rel :: "'a \<Rightarrow> 's \<Rightarrow> bool"
  assumes step_sim: "rel a s \<Longrightarrow> \<exists>r b s'. step x a = Some (r, b) \<and> spec s x r s' \<and> rel b s'"
begin

lemma run_sim: "rel a s \<Longrightarrow> \<exists>rs b s'. run_ops step xs a = Some (rs, b) \<and> spec_run spec s xs rs s' \<and> rel b s'"
proof (induction xs arbitrary: a s)
  case Nil
  then show ?case by (auto intro: spec_run.finished)
next
  case (Cons x xs)
  obtain r b s1 where st: "step x a = Some (r, b)" "spec s x r s1" "rel b s1" using step_sim [OF Cons.prems] by blast
  obtain rs c s2 where run: "run_ops step xs b = Some (rs, c)" "spec_run spec s1 xs rs s2" "rel c s2" using Cons.IH [OF st(3)] by blast
  then show ?case using st(1) spec_run.more [of spec, OF st(2) run(2)] by (auto intro!: exI [of _ "r # rs"])
qed

end

definition store_rel :: "Geometry \<Rightarrow> RaidArray \<Rightarrow> store \<Rightarrow> bool" where
  "store_rel g a s \<longleftrightarrow> ra_wf a \<and> geometry a = g \<and> agree a (st_image s) (rows g (st_trusted s))"

lemma touched_rows_known: "touched_rows g offset len \<subseteq> T \<longleftrightarrow> touched g offset len \<subseteq> rows g T"
  by (auto simp: touched_rows_def rows_def)

lemma agree_doubt:
  assumes "agree a L (rows g T)" "evolves {(i, x). row g x \<in> U} a b"
  shows "agree b L (rows g (T - U))"
proof -
  have "agree b L (rows g T - snd ` {(i :: nat, x). row g x \<in> U})" by (rule agree_evolves [OF assms])
  moreover have "rows g (T - U) \<subseteq> rows g T - snd ` {(i :: nat, x). row g x \<in> U}" by (auto simp: rows_def)
  ultimately show ?thesis by (rule agree_mono)
qed

lemma array_step_sim:
  assumes "store_rel g a s"
  shows "\<exists>r b s'. array_step x a = Some (r, b) \<and> store_step g s x r s' \<and> store_rel g b s'"
proof -
  have a: "ra_wf a" "geometry a = g" "agree a (st_image s) (rows g (st_trusted s))" using assms by (simp_all add: store_rel_def)
  show ?thesis
  proof (cases x)
    case (OpRead offset len)
    obtain r b where b: "array_read offset len a = Some (r, b)" "evolves {} a b" "ra_wf b"
        "\<forall>bs. r = Inr bs \<longrightarrow> touched g offset len \<subseteq> rows g (st_trusted s) \<longrightarrow> bs = map (st_image s) [offset..<offset + len]"
      using array_read_spec [OF a(1,3), of offset len] a(2) by auto
    have "store_rel g b s" using b a evolves_shape(7) [OF b(2)] agree_same [OF a(3) b(2)] by (simp add: store_rel_def)
    moreover have "store_step g s x (case_sum GotError GotBytes r) s"
      using b(4) OpRead by (cases r) (auto intro!: store_step.intros simp: touched_rows_known)
    ultimately show ?thesis using b(1) OpRead by (auto simp: array_step_def)
  next
    case (OpWrite offset buf)
    obtain r b where b: "array_write offset buf a = Some (r, b)" "ra_wf b" "evolves {(i, x). row g x \<in> touched_rows g offset (length buf)} a b"
        "r = Inr () \<longrightarrow> agree b (over offset buf {offset..<offset + length buf} (st_image s)) (rows g (st_trusted s))"
      using array_write_spec [OF a(1), of "st_image s" "st_trusted s" offset buf] a(2,3) by (auto simp: write_done_def)
    define s' where "s' = (if isl r then s\<lparr>st_trusted := st_trusted s - touched_rows g offset (length buf)\<rparr>
        else s\<lparr>st_image := over offset buf {offset..<offset + length buf} (st_image s)\<rparr>)"
    have "store_step g s x (case_sum GotError (\<lambda>_. GotDone) r) s'" using OpWrite by (cases r) (auto simp: s'_def intro: store_step.intros)
    moreover have "store_rel g b s'"
      using b a evolves_shape(7) [OF b(3)] agree_doubt [OF a(3) b(3)] by (cases r) (simp_all add: s'_def store_rel_def)
    ultimately show ?thesis using b(1) OpWrite by (auto simp: array_step_def)
  next
    case (OpFlush before)
    obtain r b where b: "array_flush before a = Some (r, b)" "ra_wf b" "evolves {} a b" using array_flush_spec [OF a(1)] by blast
    have "store_rel g b s" using b a evolves_shape(7) [OF b(3)] agree_same [OF a(3) b(3)] by (simp add: store_rel_def)
    moreover have "store_step g s x (case_sum GotError (\<lambda>_. GotDone) r) s" using OpFlush by (cases r) (auto intro: store_step.intros)
    ultimately show ?thesis using b(1) OpFlush by (auto simp: array_step_def)
  qed
qed

interpretation array_store: total_simulation array_step "store_step g" "store_rel g" for g
  by unfold_locales (rule array_step_sim)


text \<open>An array whose devices are blank agrees with the zero image.\<close>

lemma zero_sums: "p_sum (col g (\<lambda>_. 0) s j 1) 0 = 0" "q_sum (col g (\<lambda>_. 0) s j 1) 0 = 0"
  by (simp_all add: p_sum_def q_sum_def nth_col byte_ring(3))

lemma agree_zero:
  assumes "\<forall>i < length (ra_members a). dev_bytes i a = (\<lambda>_. 0)"
  shows "agree a (\<lambda>_. 0) X"
proof -
  have "want g (\<lambda>_. 0) i x = 0" for g i x
    using zero_sums by (auto simp: want_def strip_byte_def split: RaidLevel.split StripRole.split)
  then show ?thesis using assms by (simp add: agree_def)
qed

definition blank_member :: "RaidMemberState \<Rightarrow> nat \<Rightarrow> Member" where
  "blank_member st reb = \<lparr>mb_device = Some (\<lambda>_. 0), mb_state = st, mb_uuid = 0, mb_rebuilt_to = reb, mb_missing = False, mb_missing_at = 0\<rparr>"

definition blank_array :: "RaidLevel \<Rightarrow> nat \<Rightarrow> Member list \<Rightarrow> (nat \<Rightarrow> io_outcome) \<Rightarrow> RaidArray" where
  "blank_array level unit ms io =
     \<lparr>ra_id = 0, ra_level = level, ra_stripe_size = unit, ra_data_size = 8, ra_create_time = 0, ra_name = [], ra_pool = [],
      ra_members = ms, ra_events = 0, ra_engine = Generic, ra_bitmap = ib_new 4 2 PAGE, ra_sb_dirty = False, ra_read_counter = 0,
      ra_released = False, ra_crc = (\<lambda>_. 0), ra_now = 0, ra_wall = 0, ra_io = io, ra_calls = 0\<rparr>"

lemma blank_array_wf:
  assumes "min_members level \<le> length ms" "length ms \<le> MAX_SLOTS" "0 < unit" "level = Raid10 \<longrightarrow> even (length ms)"
  shows "ra_wf (blank_array level unit ms io)"
  using assms by (simp add: ra_wf_def blank_array_def geometry_def geometry_ok_def bitmap_wf_def bm_ok_def ib_new_def Let_def
      BITMAP_MAX_BYTES_def PAGE_def RAID_DATA_OFFSET_def BITMAP_OFFSET_def)

lemma blank_array_agree:
  "\<forall>m \<in> set ms. mb_device m = Some (\<lambda>_. 0) \<Longrightarrow> agree (blank_array level unit ms io) (\<lambda>_. 0) X"
  by (rule agree_zero) (simp add: blank_array_def dev_bytes_def)


end
