(* ===== verification/RaidRebuild.thy ===== *)
theory RaidRebuild
  imports RaidStore
begin

text \<open>
  Replacing drives and rebuilding onto them (\<open>src/raid/mod.rs\<close>). The rebuild task is a list of
  target slots and a position; it works in batches, each under the locks of its units, and other
  I/O and replacements run between the batches. A run that no replacement of its own targets
  disturbs keeps the array a block device and ends with members that hold everything. The code
  does not exclude such a replacement, and then it does not.
\<close>

section \<open>Replacing\<close>

definition member_bytes_needed :: "RaidArray \<Rightarrow> nat" where
  "member_bytes_needed a = RAID_DATA_OFFSET + ra_data_size a"

definition fresh_member :: "uuid \<Rightarrow> device \<Rightarrow> Member" where
  "fresh_member uuid d = \<lparr>mb_device = Some d, mb_state = MRebuilding, mb_uuid = uuid, mb_rebuilt_to = 0, mb_missing = False, mb_missing_at = 0\<rparr>"

text \<open>\<open>uuid\<close> is the new member's, \<open>cap\<close> the capacity of the drive.\<close>

definition ra_replace :: "nat \<Rightarrow> uuid \<Rightarrow> nat \<Rightarrow> device \<Rightarrow> RaidArray \<Rightarrow> unit res" where
  "ra_replace slot uuid cap d a =
     (if cap < member_bytes_needed a then Some (Inl InvalidStripe, a)
      else if slot \<ge> length (ra_members a) then Some (Inl InvalidStripe, a)
      else if mb_state (ra_members a ! slot) \<noteq> MFailed then Some (Inl InvalidStripe, a)
      else let a = (set_member slot (fresh_member uuid d) a)\<lparr>ra_events := ra_events a + 1\<rparr> in
        then_res (Some (zero_bitmaps (Some slot) a)) (\<lambda>_ a. write_superblocks a))"

section \<open>One unit\<close>

definition unit_len :: "nat \<Rightarrow> RaidArray \<Rightarrow> nat" where
  "unit_len key a = min (lock_unit a) (ra_data_size a - key * lock_unit a)"

definition live_targets :: "nat \<Rightarrow> nat list \<Rightarrow> RaidArray \<Rightarrow> nat list" where
  "live_targets key targets a =
     filter (\<lambda>t. let m = ra_members a ! t in
       mb_state m = MRebuilding \<and> mb_rebuilt_to m \<le> key * lock_unit a \<and> mb_device m \<noteq> None) targets"

definition strip_for :: "Geometry \<Rightarrow> nat \<Rightarrow> StripeStrips \<Rightarrow> nat \<Rightarrow> bytes option" where
  "strip_for geo key st t =
     (case role_of geo key t of
        RoleData i \<Rightarrow> ss_data st ! i
      | RoleP \<Rightarrow> ss_p st
      | RoleQ \<Rightarrow> (case ss_q st of Some q \<Rightarrow> q | None \<Rightarrow> None))"

fun partner_reads :: "nat \<Rightarrow> nat \<Rightarrow> nat list \<Rightarrow> RaidArray \<Rightarrow> (raid_error + (nat \<times> bytes) list) \<times> RaidArray" where
  "partner_reads moff len [] a = (Inr [], a)"
| "partner_reads moff len (t # ts) a =
     (case mirror_read_at [partner t] moff len a of
        (Inl e, a) \<Rightarrow> (Inl e, a)
      | (Inr b, a) \<Rightarrow>
          (case partner_reads moff len ts a of (Inl e, a) \<Rightarrow> (Inl e, a) | (Inr ws, a) \<Rightarrow> (Inr ((t, b) # ws), a)))"

text \<open>What is to be written to each live target.\<close>

definition unit_data :: "nat \<Rightarrow> nat list \<Rightarrow> nat list \<Rightarrow> RaidArray \<Rightarrow> (nat \<times> bytes) list res" where
  "unit_data key targets live a =
     (let moff = key * lock_unit a; len = unit_len key a in
      case ra_level a of
        Raid1 \<Rightarrow>
          (case mirror_read_at (filter (\<lambda>i. i \<notin> set targets) (all_slots a)) moff len a of
             (Inl e, a) \<Rightarrow> Some (Inl e, a)
           | (Inr b, a) \<Rightarrow> Some (Inr (map (\<lambda>t. (t, b)) live), a))
      | Raid10 \<Rightarrow> Some (partner_reads moff len live a)
      | _ \<Rightarrow>
          (case read_column key 0 len a of (st, a) \<Rightarrow>
           case recover (ra_engine a) len st of
             None \<Rightarrow> None
           | Some (Inl _) \<Rightarrow> Some (Inl (too_many a), a)
           | Some (Inr st) \<Rightarrow>
               (case unwrap_all (map (strip_for (geometry a) key st) live) of
                  None \<Rightarrow> None
                | Some bs \<Rightarrow> Some (Inr (zip live bs), a))))"

fun unit_writes :: "nat \<Rightarrow> (nat \<times> bytes) list \<Rightarrow> RaidArray \<Rightarrow> RaidArray" where
  "unit_writes moff [] a = a"
| "unit_writes moff ((t, bs) # ws) a =
     (case dev_write t (RAID_DATA_OFFSET + moff) bs a of (r, a) \<Rightarrow>
        unit_writes moff ws (if isl r then snd (fail_member t a) else a))"

definition rebuild_unit :: "nat \<Rightarrow> nat list \<Rightarrow> RaidArray \<Rightarrow> unit res" where
  "rebuild_unit key targets a =
     (let live = live_targets key targets a in
      if live = [] then Some (Inr (), a)
      else then_res (unit_data key targets live a) (\<lambda>ws a. Some (Inr (), unit_writes (key * lock_unit a) ws a)))"

section \<open>The task\<close>

record rebuild_task =
  rb_targets :: "nat list"
  rb_key :: nat
  rb_last :: nat
  rb_batch :: nat

definition REBUILD_BATCH :: nat where "REBUILD_BATCH = 4 * 1024 * 1024"

text \<open>What \<open>run_rebuild\<close> does before its loop; \<open>batch_bytes\<close> is the configured size.\<close>

definition rebuild_start :: "nat \<Rightarrow> RaidArray \<Rightarrow> rebuild_task option" where
  "rebuild_start batch_bytes a =
     (let targets = filter (\<lambda>i. mb_state (ra_members a ! i) = MRebuilding \<and> mb_device (ra_members a ! i) \<noteq> None) (all_slots a);
          lu = lock_unit a in
      if targets = [] then None
      else let start = Min (set (map (\<lambda>t. mb_rebuilt_to (ra_members a ! t)) targets)) div lu * lu in
        Some \<lparr>rb_targets = targets, rb_key = start div lu, rb_last = div_ceil (ra_data_size a) lu,
              rb_batch = max ((if batch_bytes = 0 then REBUILD_BATCH else batch_bytes) div lu) 1\<rparr>)"

fun rebuild_units :: "nat list \<Rightarrow> nat list \<Rightarrow> raid_error option \<Rightarrow> RaidArray \<Rightarrow> unit res" where
  "rebuild_units [] targets err a = Some (case err of None \<Rightarrow> Inr () | Some e \<Rightarrow> Inl e, a)"
| "rebuild_units (k # ks) targets err a =
     (case rebuild_unit k targets a of
        None \<Rightarrow> None
      | Some (r, a) \<Rightarrow> rebuild_units ks targets (case (err, r) of (None, Inl e) \<Rightarrow> Some e | _ \<Rightarrow> err) a)"

definition raise_mark :: "nat \<Rightarrow> nat \<Rightarrow> RaidArray \<Rightarrow> RaidArray" where
  "raise_mark end t a =
     (let m = ra_members a ! t in
      if mb_state m = MRebuilding \<and> mb_rebuilt_to m < end then set_member t (m\<lparr>mb_rebuilt_to := end\<rparr>) a else a)"

definition persist_rebuild_position :: "RaidArray \<Rightarrow> RaidArray option" where
  "persist_rebuild_position a = persist_if_dirty (a\<lparr>ra_sb_dirty := True\<rparr>)"

text \<open>One turn of the loop; \<open>checkpoint\<close> says whether the position is written to the superblocks.\<close>

definition rebuild_batch :: "bool \<Rightarrow> rebuild_task \<Rightarrow> RaidArray \<Rightarrow> rebuild_task res" where
  "rebuild_batch checkpoint rb a =
     (let end_key = min (rb_key rb + rb_batch rb) (rb_last rb) in
      case rebuild_units [rb_key rb..<end_key] (rb_targets rb) None a of
        None \<Rightarrow> None
      | Some (Inl e, a) \<Rightarrow> map_option (Pair (Inl e)) (persist_if_dirty a)
      | Some (Inr _, a) \<Rightarrow>
          let a = fold (raise_mark (min (end_key * lock_unit a) (ra_data_size a))) (rb_targets rb) a in
          (case persist_if_dirty a of
             None \<Rightarrow> None
           | Some a \<Rightarrow> map_option (Pair (Inr (rb\<lparr>rb_key := end_key\<rparr>)))
               (if checkpoint then persist_rebuild_position a else Some a)))"

fun flush_targets :: "nat list \<Rightarrow> RaidArray \<Rightarrow> RaidArray" where
  "flush_targets [] a = a"
| "flush_targets (t # ts) a =
     flush_targets ts
       (if mb_device (ra_members a ! t) = None then a
        else case dev_flush t a of (r, a) \<Rightarrow> if isl r then snd (fail_member t a) else a)"

definition make_active :: "nat \<Rightarrow> RaidArray \<Rightarrow> RaidArray" where
  "make_active t a =
     (let m = ra_members a ! t in
      if mb_state m = MRebuilding then set_member t (m\<lparr>mb_state := MActive, mb_rebuilt_to := 0\<rparr>) a else a)"

definition rebuild_finish :: "rebuild_task \<Rightarrow> RaidArray \<Rightarrow> unit res" where
  "rebuild_finish rb a =
     (let a = fold make_active (rb_targets rb) (flush_targets (rb_targets rb) a)
      in write_superblocks (a\<lparr>ra_events := ra_events a + 1\<rparr>))"

text \<open>
  \<open>run_rebuild\<close> with nothing between the batches: \<open>stop\<close> says whether the turn at a position finds the
  array stopped or the rebuild cancelled, \<open>due\<close> whether its checkpoint is due.
\<close>

partial_function (option) rebuild_loop :: "(nat \<Rightarrow> bool) \<Rightarrow> (nat \<Rightarrow> bool) \<Rightarrow> rebuild_task \<Rightarrow> RaidArray \<Rightarrow> unit res" where
  "rebuild_loop stop due rb a =
     (if rb_key rb < rb_last rb
      then if stop (rb_key rb) then map_option (Pair (Inr ())) (persist_rebuild_position a)
      else (case rebuild_batch (due (rb_key rb)) rb a of
              None \<Rightarrow> None
            | Some (Inl e, a) \<Rightarrow> Some (Inl e, a)
            | Some (Inr rb, a) \<Rightarrow> rebuild_loop stop due rb a)
      else rebuild_finish rb a)"

definition run_rebuild :: "nat \<Rightarrow> (nat \<Rightarrow> bool) \<Rightarrow> (nat \<Rightarrow> bool) \<Rightarrow> RaidArray \<Rightarrow> unit res" where
  "run_rebuild batch_bytes stop due a =
     (case rebuild_start batch_bytes a of None \<Rightarrow> Some (Inr (), a) | Some rb \<Rightarrow> rebuild_loop stop due rb a)"

end
