(* ===== verification/RebuildUnit.thy ===== *)
theory RebuildUnit
  imports RaidRebuild
begin

text \<open>
  Rebuilding one unit and a batch of units: what is read for a target is what the image asks of it,
  and after the writes every target that is still rebuilding holds the unit. Nothing else changes.
\<close>

section \<open>Lock units\<close>

lemma lock_unit_pos: "ra_wf a \<Longrightarrow> 0 < lock_unit a"
  by (simp add: lock_unit_def MIRROR_UNIT_def ra_wf_def geometry_ok_def geometry_def)

lemma lock_unit_evolves: "evolves W a b \<Longrightarrow> lock_unit b = lock_unit a"
  using evolves_shape(1,2) by (simp add: lock_unit_def)

lemma lock_unit_parity: "is_parity (geometry a) \<Longrightarrow> lock_unit a = ra_stripe_size a"
  by (auto simp: lock_unit_def is_parity_def geometry_def)

lemma unit_len_le: "unit_len key a \<le> lock_unit a"
  by (simp add: unit_len_def)

section \<open>What is read\<close>

text \<open>Mirrors: any set of members that the image asks the same bytes of.\<close>

lemma copies_on_agree:
  assumes "agree a L X" "\<not> is_parity (geometry a)" "\<forall>i \<in> set grp. i < length (ra_members a) \<and> (\<forall>k < len. want (geometry a) L i (moff + k) = f k)"
  shows "copies_on {k. moff + k \<in> X} a grp moff len f"
  unfolding copies_on_def
proof (intro ballI conjI impI allI)
  fix i assume i: "i \<in> set grp"
  then show l: "i < length (ra_members a)" using assms(3) by blast
  fix k assume h: "holds (ra_members a ! i) (moff + len)" and k: "k < len" "k \<in> {k. moff + k \<in> X}"
  have "holds (ra_members a ! i) (hold_end (geometry a) (moff + k))" using holds_mono [OF h, of "moff + k + 1"] k(1) assms(2) by (simp add: hold_end_def)
  then have "dev_bytes i a (RAID_DATA_OFFSET + (moff + k)) = want (geometry a) L i (moff + k)" using assms(1) l k(2) by (simp add: agree_def)
  then show "dev_bytes i a (RAID_DATA_OFFSET + moff + k) = f k" using assms(3) i k(1) by (simp add: add.assoc)
qed

text \<open>The bytes for a target are those of the image, where the image is known.\<close>

definition unit_right :: "RaidArray \<Rightarrow> (nat \<Rightarrow> u8) \<Rightarrow> nat set \<Rightarrow> nat \<Rightarrow> nat \<Rightarrow> (nat \<times> bytes) list \<Rightarrow> bool" where
  "unit_right a L X moff len ws \<longleftrightarrow> (\<forall>(t, bs) \<in> set ws. length bs = len \<and>
     (\<forall>k < len. moff + k \<in> X \<longrightarrow> bs ! k = want (geometry a) L t (moff + k)))"

lemma partner_pair: "partner t div 2 = t div 2"
  by (auto simp: partner_def elim!: evenE oddE)

lemma partner_less: "even n \<Longrightarrow> t < n \<Longrightarrow> partner t < n"
  by (auto simp: partner_def elim!: evenE)

lemma want_pair: "ra_level a = Raid10 \<Longrightarrow> i div 2 = t div 2 \<Longrightarrow> want (geometry a) L i x = want (geometry a) L t x"
  by (simp add: raid10_want)

lemma quiet_shape: "quiet a b \<Longrightarrow> geometry b = geometry a \<and> ra_level b = ra_level a \<and> ra_stripe_size b = ra_stripe_size a \<and>
    length (ra_members b) = length (ra_members a) \<and> lock_unit b = lock_unit a \<and> ra_data_size b = ra_data_size a"
  using evolves_shape lock_unit_evolves by (auto simp: quiet_def)

lemma unit_right_cong: "geometry b = geometry a \<Longrightarrow> unit_right b L X moff len ws = unit_right a L X moff len ws"
  by (simp add: unit_right_def)

lemma partner_reads_spec:
  assumes "partner_reads moff len ts a = (r, b)" "agree a L X" "ra_level a = Raid10" "ra_wf a" "\<forall>t \<in> set ts. t < length (ra_members a)"
  shows "quiet a b \<and> (\<forall>ws. r = Inr ws \<longrightarrow> map fst ws = ts \<and> unit_right a L X moff len ws)"
  using assms
proof (induction ts arbitrary: a r b)
  case Nil
  then show ?case by (auto simp: unit_right_def)
next
  case (Cons t ts)
  obtain q c where m: "mirror_read_loop [partner t] moff len [] a = (q, c)" by fastforce
  have t: "t < length (ra_members a)" "even (length (ra_members a))" using Cons.prems(3-5) by (simp_all add: ra_wf_def)
  have np: "\<not> is_parity (geometry a)" using Cons.prems(3) by (simp add: is_parity_def geometry_def)
  have c: "copies_on {k. moff + k \<in> X} a [partner t] moff len (\<lambda>k. want (geometry a) L t (moff + k))"
    by (rule copies_on_agree [OF Cons.prems(2) np]) (use want_pair [OF Cons.prems(3) partner_pair [of t]] partner_less [OF t(2,1)] in simp)
  have "\<forall>i \<in> set [partner t]. i < length (ra_members a)" using partner_less [OF t(2,1)] by simp
  note ml = mirror_read_loop_spec [OF m this, of "{k. moff + k \<in> X}" "\<lambda>k. want (geometry a) L t (moff + k)"]
  have q: "quiet a c" "\<forall>bs. q = Inr bs \<longrightarrow> length bs = len \<and> (\<forall>k < len. moff + k \<in> X \<longrightarrow> bs ! k = want (geometry a) L t (moff + k))"
    by (rule conjunct1 [OF ml]) (use conjunct2 [OF ml] c in blast)
  show ?case
  proof (cases q)
    case (Inl e)
    then show ?thesis using Cons.prems(1) m q(1) by (auto simp: mirror_read_at_def)
  next
    case (Inr bs)
    obtain r' d where p: "partner_reads moff len ts c = (r', d)" by fastforce
    note sh = quiet_shape [OF q(1)]
    have "quiet c d \<and> (\<forall>ws. r' = Inr ws \<longrightarrow> map fst ws = ts \<and> unit_right c L X moff len ws)"
      using Cons.IH [OF p agree_quiet [OF Cons.prems(2) q(1)] _ quiet_wf [OF q(1) Cons.prems(4)]] Cons.prems(3,5) sh by simp
    then have d: "quiet a d" "\<forall>ws. r' = Inr ws \<longrightarrow> map fst ws = ts \<and> unit_right a L X moff len ws"
      using quiet_trans [OF q(1), of d] unit_right_cong [OF conjunct1 [OF sh], of L X moff len] by blast+
    have "(r, b) = (case r' of Inl e \<Rightarrow> (Inl e, d) | Inr ws \<Rightarrow> (Inr ((t, bs) # ws), d))"
      using Cons.prems(1) m Inr p by (cases r') (auto simp: mirror_read_at_def)
    then show ?thesis using d q(2) Inr by (cases r') (auto simp: unit_right_def)
  qed
qed

lemma strip_for_full:
  assumes "geometry_ok g" "is_parity g" "t < g_n g" "length D = data_count g"
  shows "strip_for g key (full_stripe len (g_level g = Raid6) D) t = Some (strip_of len D (role_of g key t))"
  using role_of_ok [OF assms(1-3), of key] assms(4)
  by (auto simp: strip_for_def full_stripe_def strip_of_def role_ok_def split: StripRole.splits)

lemma strip_for_some:
  assumes "geometry_ok g" "is_parity g" "t < g_n g" "all_strips len (g_level g = Raid6) (data_count g) st"
  shows "\<exists>bs. strip_for g key st t = Some bs \<and> length bs = len"
proof -
  obtain D p where D: "ss_data st = map Some D" "length D = data_count g" "\<forall>c \<in> set D. length c = len" "ss_p st = Some p" "length p = len"
    using assms(4) by (auto simp: all_strips_def whole_data_def)
  show ?thesis
  proof (cases "role_of g key t")
    case (RoleData d)
    then show ?thesis using D role_of_data_inverse [OF assms(1-3) RoleData] by (simp add: strip_for_def)
  next
    case RoleP
    then show ?thesis using D by (simp add: strip_for_def)
  next
    case RoleQ
    then have "g_level g = Raid6" by (simp add: role_of_q)
    then show ?thesis using assms(4) RoleQ by (auto simp: strip_for_def all_strips_def)
  qed
qed

lemma unit_data_parity:
  assumes "agree a L (rows (geometry a) T)" "ra_wf a" "is_parity (geometry a)" "\<forall>t \<in> set live. t < length (ra_members a)"
  shows "\<exists>r b. unit_data key targets live a = Some (r, b) \<and> quiet a b \<and> (\<forall>ws. r = Inr ws \<longrightarrow>
    map fst ws = live \<and> unit_right a L (rows (geometry a) T) (key * lock_unit a) (unit_len key a) ws)"
proof -
  let ?g = "geometry a" and ?len = "unit_len key a" and ?X = "rows (geometry a) T" and ?D = "col (geometry a) L key 0 (unit_len key a)"
  have g: "geometry_ok ?g" "0 < data_count ?g" "g_n ?g = length (ra_members a)" "g_level ?g = ra_level a" "g_unit ?g = ra_stripe_size a"
    using assms(2) geometry_n(2) [of ?g] by (simp_all add: ra_wf_def geometry_def)
  have lu: "lock_unit a = ra_stripe_size a" by (rule lock_unit_parity [OF assms(3)])
  have len: "0 + ?len \<le> ra_stripe_size a" using unit_len_le [of key a] lu by simp
  obtain st b where c: "read_column key 0 ?len a = (st, b)" by fastforce
  have q: "quiet a b" "shaped ?len (ra_level a = Raid6) (data_count ?g) st"
      "col_at ?g key 0 ?len \<subseteq> ?X \<Longrightarrow> damaged ?len (ra_level a = Raid6) ?D st"
    using read_column_spec [OF c assms(2,3,1) len] by simp_all
  have gb: "geometry b = ?g" using quiet_shape [OF q(1)] by simp
  obtain r where r: "recover (ra_engine b) ?len st = Some r" "\<forall>s'. r = Inr s' \<longrightarrow> all_strips ?len (ra_level a = Raid6) (data_count ?g) s'"
    using recover_total [OF q(2) g(2), of "ra_engine b"] by blast
  have ud: "unit_data key targets live a = (case r of Inl _ \<Rightarrow> Some (Inl (too_many b), b)
      | Inr st \<Rightarrow> (case unwrap_all (map (strip_for ?g key st) live) of None \<Rightarrow> None | Some bs \<Rightarrow> Some (Inr (zip live bs), b)))"
    using assms(3) c r(1) gb by (cases "ra_level a") (auto simp: unit_data_def Let_def is_parity_def geometry_def split: sum.splits)
  show ?thesis
  proof (cases r)
    case (Inl e)
    then show ?thesis using ud q(1) by simp
  next
    case (Inr s')
    have st: "\<exists>bs. strip_for ?g key s' t = Some bs \<and> length bs = ?len" if "t \<in> set live" for t
      using strip_for_some [OF g(1) assms(3) _ r(2) [rule_format, OF Inr, folded g(4)]] assms(4) g(3) that by simp
    then have some: "\<forall>t \<in> set live. strip_for ?g key s' t \<noteq> None" by fastforce
    define bs where "bs = map (the \<circ> strip_for ?g key s') live"
    have u: "unwrap_all (map (strip_for ?g key s') live) = Some bs" using unwrap_all_map [OF some] by (simp add: bs_def)
    have "length c = ?len \<and> (\<forall>k < ?len. key * lock_unit a + k \<in> ?X \<longrightarrow> c ! k = want ?g L t (key * lock_unit a + k))"
      if tc: "(t, c) \<in> set (zip live bs)" for t c
    proof (intro conjI allI impI)
      have t: "t \<in> set live" "c = the (strip_for ?g key s' t)" using tc by (auto simp: bs_def zip_map2 zip_same_conv_map)
      then have "strip_for ?g key s' t = Some c" using st by fastforce
      note t = t(1) this
      then show "length c = ?len" using st by fastforce
      fix k assume k: "k < ?len" "key * lock_unit a + k \<in> ?X"
      have ku: "k < g_unit ?g" using k(1) len g(5) by simp
      have "key \<in> T" using k(2) ku assms(3) lu g(5) by (simp add: rows_def row_def)
      then have kn: "known a key ?X" by (rule rows_known [OF assms(3)])
      have "col_at ?g key 0 ?len \<subseteq> ?X" using known_column [OF kn _ len] k(2) by blast
      then have "s' = full_stripe ?len (ra_level a = Raid6) ?D"
        using recover_column [OF assms(2,3) q(3), of "ra_engine b"] r(1) Inr by (simp split: if_splits)
      then have "c = strip_of ?len ?D (role_of ?g key t)"
        using t strip_for_full [OF g(1) assms(3), of t ?D key ?len] assms(4) g(3,4) by simp
      moreover have "role_ok ?g (role_of ?g key t)" using role_of_ok [OF g(1) assms(3), of t key] t(1) assms(4) g(3) by simp
      ultimately have "c ! k = strip_byte ?g L key (role_of ?g key t) k" using strip_of_col [of ?g _ ?len L key 0] k(1) by simp
      then show "c ! k = want ?g L t (key * lock_unit a + k)" using want_parity [OF assms(3) ku, of L t key] lu g(5) by simp
    qed
    then have "unit_right a L ?X (key * lock_unit a) ?len (zip live bs)" by (auto simp: unit_right_def)
    moreover have "map fst (zip live bs) = live" by (simp add: bs_def)
    ultimately show ?thesis using ud Inr u q(1) by simp
  qed
qed

lemma unit_data_spec:
  assumes "agree a L (rows (geometry a) T)" "ra_wf a" "\<forall>t \<in> set live. t < length (ra_members a)"
  shows "\<exists>r b. unit_data key targets live a = Some (r, b) \<and> quiet a b \<and> (\<forall>ws. r = Inr ws \<longrightarrow>
    map fst ws = live \<and> unit_right a L (rows (geometry a) T) (key * lock_unit a) (unit_len key a) ws)"
proof -
  let ?X = "rows (geometry a) T" and ?moff = "key * lock_unit a" and ?len = "unit_len key a"
  consider (p) "is_parity (geometry a)" | (m) "ra_level a = Raid1" | (t) "ra_level a = Raid10"
    by (cases "ra_level a") (simp_all add: is_parity_def geometry_def)
  then show ?thesis
  proof cases
    case p
    then show ?thesis using unit_data_parity [OF assms(1,2) _ assms(3)] by blast
  next
    case t
    obtain r b where p: "partner_reads ?moff ?len live a = (r, b)" by fastforce
    then show ?thesis using partner_reads_spec [OF p assms(1) t assms(2,3)] t by (simp add: unit_data_def Let_def)
  next
    case m
    let ?src = "filter (\<lambda>i. i \<notin> set targets) (all_slots a)"
    obtain r b where l: "mirror_read_loop ?src ?moff ?len [] a = (r, b)" by fastforce
    have w: "want (geometry a) L i x = L x" for i x using m by (simp add: want_def geometry_def)
    have np: "\<not> is_parity (geometry a)" using m by (simp add: is_parity_def geometry_def)
    have c: "copies_on {k. ?moff + k \<in> ?X} a ?src ?moff ?len (\<lambda>k. L (?moff + k))"
      by (rule copies_on_agree [OF assms(1) np]) (simp add: w all_slots_def)
    have src: "\<forall>i \<in> set ?src. i < length (ra_members a)" by (simp add: all_slots_def)
    have q: "quiet a b" "\<forall>bs. r = Inr bs \<longrightarrow> length bs = ?len \<and> (\<forall>k < ?len. ?moff + k \<in> ?X \<longrightarrow> bs ! k = L (?moff + k))"
      using mirror_read_loop_spec [OF l src, of "{k. ?moff + k \<in> ?X}" "\<lambda>k. L (?moff + k)"] c by auto
    show ?thesis
    proof (cases r)
      case (Inl e)
      then show ?thesis using m l q(1) by (simp add: unit_data_def Let_def mirror_read_at_def)
    next
      case (Inr bs)
      then have "unit_right a L ?X ?moff ?len (map (\<lambda>t. (t, bs)) live)" using q(2) w by (auto simp: unit_right_def)
      moreover have "map fst (map (\<lambda>t. (t, bs)) live) = live" by (simp add: comp_def)
      ultimately show ?thesis using m l q(1) Inr by (simp add: unit_data_def Let_def mirror_read_at_def)
    qed
  qed
qed

section \<open>What is written\<close>

lemma fail_member_rebuilding:
  assumes "mstate a t = MRebuilding \<or> mstate a t = MFailed" "t < length (ra_members a)"
  shows "mstate (snd (fail_member t a)) t = MFailed"
  using assms by (auto simp: fail_member_def fail_member_as_def mstate_def set_member_def Let_def)

definition unit_of :: "nat set \<Rightarrow> nat \<Rightarrow> nat \<Rightarrow> (nat \<times> nat) set" where
  "unit_of S moff len = {(t, x). t \<in> S \<and> moff \<le> x \<and> x < moff + len}"

lemma unit_of_mono: "S \<subseteq> S' \<Longrightarrow> unit_of S moff len \<subseteq> unit_of S' moff len"
  by (auto simp: unit_of_def)

lemma evolves_same: "evolves W a b \<Longrightarrow> i < length (ra_members a) \<Longrightarrow> (i, x) \<notin> W \<Longrightarrow>
    dev_bytes i b (RAID_DATA_OFFSET + x) = dev_bytes i a (RAID_DATA_OFFSET + x)"
  by (simp add: evolves_def)

lemma unit_writes_spec:
  assumes "distinct (map fst ws)" "\<forall>(t, bs) \<in> set ws. length bs = len \<and> has_device a t \<and> (mstate a t = MRebuilding \<or> mstate a t = MFailed)"
  shows "evolves (unit_of (fst ` set ws) moff len) a (unit_writes moff ws a) \<and> keeps_bm a (unit_writes moff ws a) \<and>
    (\<forall>(t, bs) \<in> set ws. mstate (unit_writes moff ws a) t \<noteq> MFailed \<longrightarrow>
       (\<forall>k < len. dev_bytes t (unit_writes moff ws a) (RAID_DATA_OFFSET + (moff + k)) = bs ! k))"
  using assms
proof (induction moff ws a rule: unit_writes.induct)
  case (2 moff t bs ws a)
  obtain r c where w: "dev_write t (RAID_DATA_OFFSET + moff) bs a = (r, c)" by fastforce
  define d where "d = (if isl r then snd (fail_member t c) else c)"
  have t: "has_device a t" "t < length (ra_members a)" "length bs = len" "mstate a t = MRebuilding \<or> mstate a t = MFailed"
    using 2(3) by (auto simp: has_device_def)
  note ws = dev_write_spec [OF w t(2)]
  have c: "evolves (unit_of {t} moff len) a c" "keeps_bm a c" "mstate c = mstate a"
    using ws(1-3) t(1,3) by (auto simp: has_device_def elim!: evolves_mono simp: in_range_data unit_of_def)
  have q: "quiet c d" by (cases "fail_member t c") (auto simp: d_def dest: quiet_fail)
  have d: "evolves (unit_of {t} moff len) a d" "keeps_bm a d"
    using evolves_then [OF c(1) evolves_mono [of "{}" c d]] keeps_bm_trans [OF c(2)] q by (simp_all add: quiet_def)
  have td: "mstate d t = MFailed \<or> (\<forall>k < len. dev_bytes t d (RAID_DATA_OFFSET + (moff + k)) = bs ! k)"
    using fail_member_rebuilding [of c t] ws(4) t c(3) evolves_shape(6) [OF c(1)] by (auto simp: d_def has_device_def add.assoc)
  have st: "mstate d i = MRebuilding \<or> mstate d i = MFailed" if "i < length (ra_members a)" "mstate a i = MRebuilding \<or> mstate a i = MFailed" for i
    using d(1) that by (auto simp: evolves_def member_after_def mstate_def)
  have hyp: "\<forall>(i, c) \<in> set ws. length c = len \<and> has_device d i \<and> (mstate d i = MRebuilding \<or> mstate d i = MFailed)"
  proof (clarify)
    fix i c assume i: "(i, c) \<in> set ws"
    then have h: "length c = len \<and> has_device a i \<and> (mstate a i = MRebuilding \<or> mstate a i = MFailed)" using 2(3) by fastforce
    then show "length c = len \<and> has_device d i \<and> (mstate d i = MRebuilding \<or> mstate d i = MFailed)"
      using st [of i] has_device_evolves [OF d(1), of i] by (simp add: has_device_def)
  qed
  define e where "e = unit_writes moff ws d"
  have e: "evolves (unit_of (fst ` set ws) moff len) d e" "keeps_bm d e" "\<forall>(i, c) \<in> set ws. mstate e i \<noteq> MFailed \<longrightarrow>
      (\<forall>k < len. dev_bytes i e (RAID_DATA_OFFSET + (moff + k)) = c ! k)"
    using 2(1) [OF w [symmetric]] 2(2) hyp by (simp_all add: d_def e_def)
  have "unit_writes moff ((t, bs) # ws) a = e" using w by (simp add: d_def e_def)
  moreover have "evolves (unit_of (fst ` set ((t, bs) # ws)) moff len) a e"
    by (rule evolves_mono [OF evolves_trans [OF d(1) e(1)]]) (auto simp: unit_of_def)
  moreover have "mstate e t \<noteq> MFailed \<longrightarrow> (\<forall>k < len. dev_bytes t e (RAID_DATA_OFFSET + (moff + k)) = bs ! k)"
  proof -
    have ld: "t < length (ra_members d)" using t(2) evolves_shape(6) [OF d(1)] by simp
    have "(t, x) \<notin> unit_of (fst ` set ws) moff len" for x using 2(2) by (auto simp: unit_of_def)
    then show ?thesis using td evolves_failed [OF e(1) ld] evolves_same [OF e(1) ld] by auto
  qed
  ultimately show ?case using e(3) keeps_bm_trans [OF d(2) e(2)] by simp
qed simp

section \<open>One unit\<close>

text \<open>The bytes of the unit on the members that the rebuild writes there, none of which a reader uses.\<close>

definition awaits :: "RaidArray \<Rightarrow> nat \<Rightarrow> nat \<Rightarrow> bool" where
  "awaits a key t \<longleftrightarrow> mstate a t = MRebuilding \<and> has_device a t \<and> mb_rebuilt_to (ra_members a ! t) \<le> key * lock_unit a"

definition unit_bytes :: "RaidArray \<Rightarrow> nat \<Rightarrow> (nat \<times> nat) set" where
  "unit_bytes a key = {(t, x). awaits a key t \<and> x div lock_unit a = key \<and> x < ra_data_size a}"

lemma unit_span:
  assumes "ra_wf a"
  shows "key * lock_unit a \<le> x \<and> x < key * lock_unit a + unit_len key a \<longleftrightarrow> x div lock_unit a = key \<and> x < ra_data_size a"
proof -
  have "x div lock_unit a = key \<longleftrightarrow> key * lock_unit a \<le> x \<and> x < key * lock_unit a + lock_unit a"
    using lock_unit_pos [OF assms] dividend_less_div_times [of "lock_unit a" x]
    by (auto simp: add.commute mult.commute intro!: div_nat_eqI)
  moreover have "m \<le> x \<and> x < m + min u (d - m) \<longleftrightarrow> (m \<le> x \<and> x < m + u) \<and> x < d" for m u d by auto
  ultimately show ?thesis by (simp add: unit_len_def)
qed

lemma awaits_unheld:
  assumes "awaits a key t" "ra_wf a" "x div lock_unit a = key"
  shows "\<not> holds (ra_members a ! t) (hold_end (geometry a) x)"
proof -
  have "key * lock_unit a \<le> x" using assms(3) by (metis div_times_less_eq_dividend)
  moreover have "key * lock_unit a < (x div g_unit (geometry a) + 1) * g_unit (geometry a)" if "is_parity (geometry a)"
    using lock_unit_parity [OF that] lock_unit_pos [OF assms(2)] assms(3) by (simp add: geometry_def)
  ultimately have "key * lock_unit a < hold_end (geometry a) x" by (auto simp: hold_end_def)
  then show ?thesis using assms(1) by (simp add: awaits_def holds_def mstate_def)
qed

lemma agree_unheld:
  assumes "agree a L X" "evolves W a b" "\<forall>(i, x) \<in> W. x \<in> X \<longrightarrow> \<not> holds (ra_members a ! i) (hold_end (geometry a) x)"
  shows "agree b L X"
  unfolding agree_def
proof (intro allI impI ballI)
  fix i x assume i: "i < length (ra_members b)" and x: "x \<in> X" and h: "holds (ra_members b ! i) (hold_end (geometry b) x)"
  note sh = evolves_shape [OF assms(2)]
  have i': "i < length (ra_members a)" using i sh by simp
  have h': "holds (ra_members a ! i) (hold_end (geometry a) x)" using evolves_holds [OF assms(2) i' h] sh by simp
  then have "(i, x) \<notin> W" using assms(3) x by auto
  then show "dev_bytes i b (RAID_DATA_OFFSET + x) = want (geometry b) L i x"
    using evolves_same [OF assms(2) i'] assms(1) i' x h' sh by (simp add: agree_def)
qed

lemma agree_unit: "agree a L X \<Longrightarrow> ra_wf a \<Longrightarrow> evolves (unit_bytes a key) a b \<Longrightarrow> agree b L X"
  by (rule agree_unheld) (auto simp: unit_bytes_def awaits_unheld)

lemma live_awaits: "\<forall>t \<in> set targets. t < length (ra_members a) \<Longrightarrow> t \<in> set (live_targets key targets a) \<longleftrightarrow> t \<in> set targets \<and> awaits a key t"
  by (auto simp: live_targets_def awaits_def mstate_def has_device_def Let_def)

lemma awaits_evolves: "evolves W a b \<Longrightarrow> awaits b key t \<Longrightarrow> awaits a key t"
  using lock_unit_evolves [of W a b] has_device_evolves [of W a b t] evolves_shape(6) [of W a b]
  by (auto simp: awaits_def evolves_def member_after_def mstate_def has_device_def)

lemma rebuild_unit_spec:
  assumes "agree a L (rows (geometry a) T)" "ra_wf a" "\<forall>t \<in> set targets. t < length (ra_members a)" "distinct targets"
  shows "\<exists>r b. rebuild_unit key targets a = Some (r, b) \<and> evolves (unit_bytes a key) a b \<and> keeps_bm a b \<and>
    (r = Inr () \<longrightarrow> (\<forall>t \<in> set targets. \<forall>x \<in> rows (geometry a) T. awaits b key t \<longrightarrow> x div lock_unit a = key \<longrightarrow> x < ra_data_size a \<longrightarrow>
       dev_bytes t b (RAID_DATA_OFFSET + x) = want (geometry a) L t x))"
proof -
  let ?live = "live_targets key targets a" and ?X = "rows (geometry a) T" and ?moff = "key * lock_unit a" and ?len = "unit_len key a"
  note la = live_awaits [OF assms(3), of _ key]
  show ?thesis
  proof (cases "?live = []")
    case True
    then have "\<forall>t \<in> set targets. \<not> awaits a key t" using la by auto
    then show ?thesis using True by (simp add: rebuild_unit_def)
  next
    case False
    have lt: "\<forall>t \<in> set ?live. t < length (ra_members a)" using assms(3) la by blast
    obtain r b where u: "unit_data key targets ?live a = Some (r, b)" "quiet a b"
        "\<forall>ws. r = Inr ws \<longrightarrow> map fst ws = ?live \<and> unit_right a L ?X ?moff ?len ws"
      using unit_data_spec [OF assms(1,2) lt] by blast
    have ab: "evolves (unit_bytes a key) a b" "keeps_bm a b" "lock_unit b = lock_unit a" using u(2) evolves_mono [of "{}" a b] quiet_shape by (auto simp: quiet_def)
    show ?thesis
    proof (cases r)
      case (Inl e)
      then show ?thesis using False u(1) ab by (simp add: rebuild_unit_def then_res_def)
    next
      case (Inr ws)
      have ws: "map fst ws = ?live" "unit_right a L ?X ?moff ?len ws" using u(3) Inr by blast+
      define c where "c = unit_writes ?moff ws b"
      have fs: "fst ` set ws = set ?live" using ws(1) by (metis set_map)
      have dw: "distinct (map fst ws)" using ws(1) assms(4) by (simp add: live_targets_def)
      have wl: "\<forall>(t, bs) \<in> set ws. length bs = ?len \<and> has_device b t \<and> (mstate b t = MRebuilding \<or> mstate b t = MFailed)"
      proof (clarify)
        fix t bs assume tb: "(t, bs) \<in> set ws"
        then have "awaits a key t" using la fs by force
        then have "mstate a t = MRebuilding" "has_device a t" by (simp_all add: awaits_def)
        moreover have "length bs = ?len" using ws(2) tb by (auto simp: unit_right_def)
        ultimately show "length bs = ?len \<and> has_device b t \<and> (mstate b t = MRebuilding \<or> mstate b t = MFailed)"
          using quiet_device [OF u(2), of t] u(2) by (auto simp: quiet_def evolves_def member_after_def mstate_def has_device_def)
      qed
      note uw = unit_writes_spec [OF dw wl, of ?moff, folded c_def]
      have sub: "unit_of (fst ` set ws) ?moff ?len \<subseteq> unit_bytes a key"
        using unit_span [OF assms(2), of key] la fs by (auto simp: unit_of_def unit_bytes_def)
      have c: "evolves (unit_bytes a key) a c" using evolves_then [OF ab(1) evolves_mono [OF conjunct1 [OF uw] sub]] .
      have "dev_bytes t c (RAID_DATA_OFFSET + x) = want (geometry a) L t x"
        if t: "t \<in> set targets" "x \<in> ?X" "awaits c key t" "x div lock_unit a = key" "x < ra_data_size a" for t x
      proof -
        have "t \<in> fst ` set ws" using la t(1) awaits_evolves [OF c t(3)] fs by blast
        then obtain bs where bs: "(t, bs) \<in> set ws" by force
        obtain k where k: "x = ?moff + k" "k < ?len" using unit_span [OF assms(2), of key x] t(4,5) nat_le_iff_add by auto
        have "mstate c t \<noteq> MFailed" using t(3) by (simp add: awaits_def)
        then have "dev_bytes t c (RAID_DATA_OFFSET + x) = bs ! k" using uw bs k by fastforce
        moreover have "bs ! k = want (geometry a) L t x" using ws(2) bs k t(2) by (auto simp: unit_right_def)
        ultimately show ?thesis by simp
      qed
      moreover have "rebuild_unit key targets a = Some (Inr (), c)" using False u(1) Inr ab(3) by (simp add: rebuild_unit_def then_res_def c_def)
      ultimately show ?thesis using c keeps_bm_trans [OF ab(2)] uw by blast
    qed
  qed
qed

end
