(* ===== verification/RebuildTask.thy ===== *)
theory RebuildTask
  imports RebuildUnit
begin

text \<open>
  The batches of a rebuild, its end, and replacements: what each keeps of the members' agreement
  with the image, and of the two invariants of a running task, that the marks are at unit
  boundaries and that no target is behind the position.
\<close>

section \<open>The units of a batch\<close>

lemma unit_bytes_evolves: "evolves W a b \<Longrightarrow> unit_bytes b key \<subseteq> unit_bytes a key"
  using awaits_evolves [of W a b key] lock_unit_evolves [of W a b] evolves_shape(3) [of W a b] by (auto simp: unit_bytes_def)

definition batch_bytes :: "RaidArray \<Rightarrow> nat set \<Rightarrow> (nat \<times> nat) set" where
  "batch_bytes a K = (\<Union>k \<in> K. unit_bytes a k)"

lemma agree_batch: "agree a L X \<Longrightarrow> ra_wf a \<Longrightarrow> evolves (batch_bytes a K) a b \<Longrightarrow> agree b L X"
  by (rule agree_unheld) (auto simp: batch_bytes_def unit_bytes_def awaits_unheld)

definition units_right :: "RaidArray \<Rightarrow> (nat \<Rightarrow> u8) \<Rightarrow> nat set \<Rightarrow> nat set \<Rightarrow> nat set \<Rightarrow> bool" where
  "units_right a L X S K \<longleftrightarrow> (\<forall>t \<in> S. \<forall>x \<in> X. x div lock_unit a \<in> K \<longrightarrow> awaits a (x div lock_unit a) t \<longrightarrow> x < ra_data_size a \<longrightarrow>
     dev_bytes t a (RAID_DATA_OFFSET + x) = want (geometry a) L t x)"

lemma units_right_evolves:
  assumes "units_right a L X S K" "evolves W a b" "\<forall>t \<in> S. t < length (ra_members a)" "\<forall>(t, x) \<in> W. x div lock_unit a \<notin> K"
  shows "units_right b L X S K"
  unfolding units_right_def
proof (intro ballI impI)
  fix t x assume h: "t \<in> S" "x \<in> X" "x div lock_unit b \<in> K" "awaits b (x div lock_unit b) t" "x < ra_data_size b"
  note sh = evolves_shape [OF assms(2)] lock_unit_evolves [OF assms(2)]
  have "(t, x) \<notin> W" using assms(4) h(3) sh by auto
  then show "dev_bytes t b (RAID_DATA_OFFSET + x) = want (geometry b) L t x"
    using evolves_same [OF assms(2)] assms(1,3) h awaits_evolves [OF assms(2)] sh by (simp add: units_right_def)
qed

lemma rebuild_units_spec:
  assumes "agree a L (rows (geometry a) T)" "ra_wf a" "\<forall>t \<in> set targets. t < length (ra_members a)" "distinct targets" "distinct ks"
  shows "\<exists>r b. rebuild_units ks targets err a = Some (r, b) \<and> evolves (batch_bytes a (set ks)) a b \<and> keeps_bm a b \<and>
    (r = Inr () \<longrightarrow> err = None \<and> units_right b L (rows (geometry a) T) (set targets) (set ks))"
  using assms
proof (induction ks arbitrary: err a)
  case Nil
  then show ?case by (simp add: units_right_def split: option.split)
next
  case (Cons k ks)
  let ?X = "rows (geometry a) T"
  obtain r c where u: "rebuild_unit k targets a = Some (r, c)" "evolves (unit_bytes a k) a c" "keeps_bm a c"
      "r = Inr () \<longrightarrow> (\<forall>t \<in> set targets. \<forall>x \<in> ?X. awaits c k t \<longrightarrow> x div lock_unit a = k \<longrightarrow> x < ra_data_size a \<longrightarrow>
         dev_bytes t c (RAID_DATA_OFFSET + x) = want (geometry a) L t x)"
    using rebuild_unit_spec [OF Cons.prems(1-4), of k] by blast
  note sh = evolves_shape [OF u(2)] lock_unit_evolves [OF u(2)]
  have uk: "r = Inr () \<longrightarrow> units_right c L ?X (set targets) {k}" using u(4) sh by (simp add: units_right_def)
  have c: "agree c L (rows (geometry c) T)" "ra_wf c" "\<forall>t \<in> set targets. t < length (ra_members c)"
    using agree_unit [OF Cons.prems(1,2) u(2)] ra_wf_keeps [OF Cons.prems(2) u(2,3)] Cons.prems(3) sh by simp_all
  define err' where "err' = (case (err, r) of (None, Inl e) \<Rightarrow> Some e | _ \<Rightarrow> err)"
  obtain q b where b: "rebuild_units ks targets err' c = Some (q, b)" "evolves (batch_bytes c (set ks)) c b" "keeps_bm c b"
      "q = Inr () \<longrightarrow> err' = None \<and> units_right b L (rows (geometry c) T) (set targets) (set ks)"
    using Cons.IH [OF c Cons.prems(4), of err'] Cons.prems(5) by auto
  have sub: "batch_bytes c (set ks) \<subseteq> batch_bytes a (set ks)" using unit_bytes_evolves [OF u(2)] by (auto simp: batch_bytes_def)
  have ev: "evolves (batch_bytes a (set (k # ks))) a b"
    by (rule evolves_mono [OF evolves_trans [OF u(2) b(2)]]) (use sub in \<open>auto simp: batch_bytes_def\<close>)
  have "err = None \<and> units_right b L ?X (set targets) (set (k # ks))" if q: "q = Inr ()"
  proof -
    have e: "err = None" "r = Inr ()" using b(4) q by (auto simp: err'_def split: option.splits sum.splits)
    have "units_right b L ?X (set targets) {k}"
      by (rule units_right_evolves [OF _ b(2) c(3)]) (use uk e(2) Cons.prems(5) sh in \<open>auto simp: batch_bytes_def unit_bytes_def\<close>)
    then show ?thesis using b(4) q sh e by (auto simp: units_right_def)
  qed
  then show ?case using u(1) b(1) ev keeps_bm_trans [OF u(3) b(3)] by (simp add: err'_def)
qed

section \<open>Marks\<close>

definition marks_ok :: "RaidArray \<Rightarrow> bool" where
  "marks_ok a \<longleftrightarrow> (\<forall>i < length (ra_members a). mstate a i = MRebuilding \<longrightarrow>
     lock_unit a dvd mb_rebuilt_to (ra_members a ! i) \<or> ra_data_size a \<le> mb_rebuilt_to (ra_members a ! i))"

definition task_ok :: "rebuild_task \<Rightarrow> RaidArray \<Rightarrow> bool" where
  "task_ok rb a \<longleftrightarrow> distinct (rb_targets rb) \<and> rb_last rb = div_ceil (ra_data_size a) (lock_unit a) \<and> 0 < rb_batch rb \<and>
     (\<forall>t \<in> set (rb_targets rb). t < length (ra_members a) \<and>
        (mstate a t = MRebuilding \<longrightarrow> min (rb_key rb * lock_unit a) (ra_data_size a) \<le> mb_rebuilt_to (ra_members a ! t)))"

lemma evolves_mark: "evolves W a b \<Longrightarrow> i < length (ra_members a) \<Longrightarrow> mb_rebuilt_to (ra_members b ! i) = mb_rebuilt_to (ra_members a ! i)"
  by (simp add: evolves_def member_after_def)

lemma evolves_rebuilding: "evolves W a b \<Longrightarrow> i < length (ra_members a) \<Longrightarrow> mstate b i = MRebuilding \<Longrightarrow> mstate a i = MRebuilding"
  by (auto simp: evolves_def member_after_def mstate_def)

lemma marks_evolves: "marks_ok a \<Longrightarrow> evolves W a b \<Longrightarrow> marks_ok b"
  using evolves_mark [of W a b] evolves_rebuilding [of W a b] evolves_shape(3,6) [of W a b] lock_unit_evolves [of W a b] by (simp add: marks_ok_def)

lemma task_evolves: "task_ok rb a \<Longrightarrow> evolves W a b \<Longrightarrow> task_ok rb b"
  using evolves_mark [of W a b] evolves_rebuilding [of W a b] evolves_shape(3,6) [of W a b] lock_unit_evolves [of W a b] by (auto simp: task_ok_def)

text \<open>Raising the marks of the targets changes nothing else.\<close>

definition raised :: "nat \<Rightarrow> nat set \<Rightarrow> Member list \<Rightarrow> nat \<Rightarrow> Member" where
  "raised e S ms i = (let m = ms ! i in if i \<in> S \<and> mb_state m = MRebuilding \<and> mb_rebuilt_to m < e then m\<lparr>mb_rebuilt_to := e\<rparr> else m)"

lemma fold_members:
  assumes "\<And>t a. t < length (ra_members a) \<Longrightarrow> step t a = a\<lparr>ra_members := (ra_members a)[t := f (ra_members a ! t)]\<rparr>"
    and "distinct ts" "\<forall>t \<in> set ts. t < length (ra_members a)"
  shows "fold step ts a = a\<lparr>ra_members := map (\<lambda>i. if i \<in> set ts then f (ra_members a ! i) else ra_members a ! i) [0..<length (ra_members a)]\<rparr>"
  using assms(2,3)
proof (induction ts arbitrary: a)
  case Nil
  then show ?case by (simp add: map_nth)
next
  case (Cons t ts)
  define ms where "ms = (ra_members a)[t := f (ra_members a ! t)]"
  have a: "step t a = a\<lparr>ra_members := ms\<rparr>" using assms(1) Cons.prems(2) by (simp add: ms_def)
  have "map (\<lambda>i. if i \<in> set ts then f (ms ! i) else ms ! i) [0..<length ms]
      = map (\<lambda>i. if i \<in> set (t # ts) then f (ra_members a ! i) else ra_members a ! i) [0..<length (ra_members a)]"
    using Cons.prems by (intro nth_equalityI) (auto simp: ms_def nth_list_update)
  then show ?case using Cons.IH [of "a\<lparr>ra_members := ms\<rparr>"] Cons.prems a by (simp add: ms_def cong: if_cong)
qed

lemma raise_fold:
  assumes "distinct ts" "\<forall>t \<in> set ts. t < length (ra_members a)"
  shows "fold (raise_mark e) ts a = a\<lparr>ra_members := map (raised e (set ts) (ra_members a)) [0..<length (ra_members a)]\<rparr>"
  by (subst fold_members [OF _ assms, where f = "\<lambda>m. if mb_state m = MRebuilding \<and> mb_rebuilt_to m < e then m\<lparr>mb_rebuilt_to := e\<rparr> else m"])
    (auto simp: raise_mark_def raised_def set_member_def Let_def)

lemma remark_shape:
  assumes "b = a\<lparr>ra_members := map f [0..<length (ra_members a)]\<rparr>"
  shows "geometry b = geometry a" "lock_unit b = lock_unit a" "ra_data_size b = ra_data_size a" "length (ra_members b) = length (ra_members a)"
    "ra_wf a \<Longrightarrow> ra_wf b"
  using assms by (auto simp: geometry_def lock_unit_def ra_wf_def bitmap_wf_def)

text \<open>An unheld byte below the new mark is in a unit of the batch, on a member that awaits it.\<close>

lemma hold_end_gt: "0 < g_unit g \<Longrightarrow> x < hold_end g x"
  by (auto simp: hold_end_def dividend_less_div_times add.commute)

lemma batch_covers:
  assumes "marks_ok a" "task_ok rb a" "ra_wf a" "t \<in> set (rb_targets rb)" "mstate a t = MRebuilding" "has_device a t"
    and "\<not> hold_end (geometry a) x \<le> mb_rebuilt_to (ra_members a ! t)" "hold_end (geometry a) x \<le> min (hi * lock_unit a) (ra_data_size a)"
  shows "x < ra_data_size a" "x div lock_unit a \<in> {rb_key rb..<hi}" "awaits a (x div lock_unit a) t"
proof -
  let ?u = "lock_unit a" and ?m = "mb_rebuilt_to (ra_members a ! t)"
  have u: "0 < ?u" "0 < g_unit (geometry a)" using lock_unit_pos [OF assms(3)] assms(3) by (simp_all add: ra_wf_def geometry_ok_def)
  note gt = hold_end_gt [OF u(2), of x]
  show x: "x < ra_data_size a" using gt assms(8) by linarith
  have "x < hi * ?u" using gt assms(8) by linarith
  then have hi: "x div ?u < hi" by (rule less_mult_imp_div_less)
  have tl: "t < length (ra_members a)" using assms(2,4) by (simp add: task_ok_def)
  have "?u dvd ?m" using assms(1,5,7,8) tl unfolding marks_ok_def by fastforce
  then obtain k where k: "?m = k * ?u" by (metis dvd_def mult.commute)
  have "k * ?u \<le> x div ?u * ?u"
  proof (cases "is_parity (geometry a)")
    case True
    then have "k * ?u < (x div ?u + 1) * ?u" using assms(7) k lock_unit_parity [OF True] by (simp add: hold_end_def geometry_def)
    then have "k < x div ?u + 1" using mult_less_cancel2 by blast
    then show ?thesis by simp
  next
    case False
    then have "k * ?u \<le> x" using assms(7) k by (simp add: hold_end_def)
    then have "k \<le> x div ?u" by (simp add: less_eq_div_iff_mult_less_eq u(1))
    then show ?thesis by simp
  qed
  then show aw: "awaits a (x div ?u) t" using assms(5,6) k by (simp add: awaits_def)
  have "min (rb_key rb * ?u) (ra_data_size a) \<le> k * ?u" using assms(2,4,5) k by (auto simp: task_ok_def)
  moreover have "k * ?u \<le> x" using \<open>k * ?u \<le> x div ?u * ?u\<close> div_times_less_eq_dividend [of x ?u] by linarith
  ultimately have "rb_key rb * ?u \<le> x" using x by linarith
  then have "rb_key rb \<le> x div ?u" by (simp add: less_eq_div_iff_mult_less_eq u(1))
  then show "x div ?u \<in> {rb_key rb..<hi}" using hi by simp
qed

lemma raise_agree:
  assumes "agree a L X" "units_right a L X (set (rb_targets rb)) {rb_key rb..<hi}" "marks_ok a" "task_ok rb a" "ra_wf a"
    and "e = min (hi * lock_unit a) (ra_data_size a)" "b = fold (raise_mark e) (rb_targets rb) a"
  shows "agree b L X" "marks_ok b" "task_ok (rb\<lparr>rb_key := hi\<rparr>) b"
proof -
  have ts: "distinct (rb_targets rb)" "\<forall>t \<in> set (rb_targets rb). t < length (ra_members a)" using assms(4) by (auto simp: task_ok_def)
  note b = raise_fold [OF ts, of e, folded assms(7)]
  note sh = remark_shape [OF b]
  have nth: "ra_members b ! i = raised e (set (rb_targets rb)) (ra_members a) i" if "i < length (ra_members a)" for i using b that by simp
  have dev: "dev_bytes i b = dev_bytes i a" if "i < length (ra_members a)" for i using nth [OF that] by (simp add: dev_bytes_def raised_def Let_def)
  show "agree b L X"
    unfolding agree_def
  proof (intro allI impI ballI)
    fix i x assume i: "i < length (ra_members b)" and x: "x \<in> X" and h: "holds (ra_members b ! i) (hold_end (geometry b) x)"
    have i': "i < length (ra_members a)" using i sh by simp
    have "dev_bytes i a (RAID_DATA_OFFSET + x) = want (geometry a) L i x"
    proof (cases "holds (ra_members a ! i) (hold_end (geometry a) x)")
      case True
      then show ?thesis using assms(1) i' x by (simp add: agree_def)
    next
      case False
      then have r: "i \<in> set (rb_targets rb)" "mstate a i = MRebuilding" "has_device a i" "\<not> hold_end (geometry a) x \<le> mb_rebuilt_to (ra_members a ! i)"
          "hold_end (geometry a) x \<le> e"
        using h nth [OF i'] sh(1) i' by (auto simp: raised_def Let_def holds_def mstate_def has_device_def split: if_splits RaidMemberState.splits)
      show ?thesis
        using batch_covers [OF assms(3-5) r(1-4) r(5) [unfolded assms(6)]] assms(2) r(1) x by (simp add: units_right_def)
    qed
    then show "dev_bytes i b (RAID_DATA_OFFSET + x) = want (geometry b) L i x" using dev [OF i'] sh by simp
  qed
  have st: "mstate b i = mstate a i" if "i < length (ra_members a)" for i using nth [OF that] by (simp add: mstate_def raised_def Let_def)
  have mk: "mb_rebuilt_to (ra_members b ! i) = (if i \<in> set (rb_targets rb) \<and> mstate a i = MRebuilding then max e (mb_rebuilt_to (ra_members a ! i)) else mb_rebuilt_to (ra_members a ! i))"
    if "i < length (ra_members a)" for i using nth [OF that] by (simp add: mstate_def raised_def Let_def max_def)
  have "lock_unit a dvd e \<or> ra_data_size a \<le> e" using assms(6) by (auto simp: min_def)
  then show "marks_ok b" using assms(3) st mk sh by (auto simp: marks_ok_def max_def)
  show "task_ok (rb\<lparr>rb_key := hi\<rparr>) b" using assms(4,6) st mk sh by (auto simp: task_ok_def)
qed

section \<open>Batches\<close>

text \<open>An array in agreement with the image, at the trusted rows \<open>T\<close>.\<close>

definition sound :: "Geometry \<Rightarrow> (nat \<Rightarrow> u8) \<Rightarrow> nat set \<Rightarrow> RaidArray \<Rightarrow> bool" where
  "sound g L T a \<longleftrightarrow> ra_wf a \<and> geometry a = g \<and> agree a L (rows g T) \<and> marks_ok a"

lemma sound_quiet: "sound g L T a \<Longrightarrow> quiet a b \<Longrightarrow> sound g L T b"
  using quiet_wf [of a b] agree_quiet [of a L "rows g T" b] marks_evolves [of a "{}" b] quiet_shape [of a b] by (simp add: sound_def quiet_def)

lemma task_quiet: "task_ok rb a \<Longrightarrow> quiet a b \<Longrightarrow> task_ok rb b"
  using task_evolves [of rb a "{}" b] by (simp add: quiet_def)

lemma persist_position_spec: "ra_wf a \<Longrightarrow> \<exists>b. persist_rebuild_position a = Some b \<and> quiet a b"
  using persist_spec [of "a\<lparr>ra_sb_dirty := True\<rparr>"] by (simp add: persist_rebuild_position_def ra_wf_def bitmap_wf_def geometry_def)

lemma rebuild_batch_spec:
  assumes "sound g L T a" "task_ok rb a"
  shows "\<exists>r b. rebuild_batch checkpoint rb a = Some (r, b) \<and> sound g L T b \<and> ra_data_size b = ra_data_size a \<and> lock_unit b = lock_unit a \<and>
    (\<forall>rb'. r = Inr rb' \<longrightarrow> rb' = rb\<lparr>rb_key := min (rb_key rb + rb_batch rb) (rb_last rb)\<rparr> \<and> task_ok rb' b)"
proof -
  let ?hi = "min (rb_key rb + rb_batch rb) (rb_last rb)"
  have a: "ra_wf a" "geometry a = g" "agree a L (rows (geometry a) T)" "marks_ok a" using assms(1) by (simp_all add: sound_def)
  have ts: "distinct (rb_targets rb)" "\<forall>t \<in> set (rb_targets rb). t < length (ra_members a)" using assms(2) by (auto simp: task_ok_def)
  obtain r c where c: "rebuild_units [rb_key rb..<?hi] (rb_targets rb) None a = Some (r, c)" "evolves (batch_bytes a {rb_key rb..<?hi}) a c" "keeps_bm a c"
      "r = Inr () \<longrightarrow> units_right c L (rows g T) (set (rb_targets rb)) {rb_key rb..<?hi}"
    using rebuild_units_spec [OF a(3,1) ts(2,1) distinct_upt, of "rb_key rb" ?hi None] a(2) by auto
  note sh = evolves_shape [OF c(2)] lock_unit_evolves [OF c(2)]
  have sc: "sound g L T c" "task_ok rb c"
    using agree_batch [OF a(3,1) c(2)] ra_wf_keeps [OF a(1) c(2,3)] marks_evolves [OF a(4) c(2)] task_evolves [OF assms(2) c(2)] a(2) sh by (simp_all add: sound_def)
  show ?thesis
  proof (cases r)
    case (Inl e)
    obtain b where b: "persist_if_dirty c = Some b" "quiet c b" using persist_spec [of c] sc(1) by (auto simp: sound_def)
    then show ?thesis using Inl c(1) sound_quiet [OF sc(1)] task_quiet [OF sc(2)] sh quiet_shape [OF b(2)] by (simp add: rebuild_batch_def Let_def)
  next
    case (Inr u)
    define d where "d = fold (raise_mark (min (?hi * lock_unit c) (ra_data_size c))) (rb_targets rb) c"
    have c': "agree c L (rows g T)" "units_right c L (rows g T) (set (rb_targets rb)) {rb_key rb..<?hi}" "marks_ok c" "ra_wf c" "geometry c = g"
      using c(4) sc(1) Inr by (simp_all add: sound_def)
    note rs = raise_agree [OF c'(1-3) sc(2) c'(4) refl d_def]
    have tsc: "\<forall>t \<in> set (rb_targets rb). t < length (ra_members c)" using sc(2) by (simp add: task_ok_def)
    note shd = remark_shape [OF raise_fold [OF ts(1) tsc, of "min (?hi * lock_unit c) (ra_data_size c)", folded d_def]]
    have sd: "sound g L T d" using rs(1,2) shd c'(4,5) by (simp add: sound_def)
    obtain e where e: "persist_if_dirty d = Some e" "quiet d e" using persist_spec [of d] sd by (auto simp: sound_def)
    have se: "sound g L T e" by (rule sound_quiet [OF sd e(2)])
    obtain b where b: "(if checkpoint then persist_rebuild_position e else Some e) = Some b" "quiet e b"
      using persist_position_spec [of e] se by (cases checkpoint) (auto simp: sound_def)
    have db: "quiet d b" by (rule quiet_trans [OF e(2) b(2)])
    have "rebuild_batch checkpoint rb a = Some (Inr (rb\<lparr>rb_key := ?hi\<rparr>), b)"
      using c(1) Inr e(1) b(1) by (simp add: rebuild_batch_def Let_def d_def)
    then show ?thesis
      using sound_quiet [OF sd db] task_quiet [OF rs(3) db] quiet_shape [OF db] shd sh by simp
  qed
qed

section \<open>The end\<close>

lemma quiet_flush_targets: "quiet a (flush_targets ts a)"
proof (induction ts a rule: flush_targets.induct)
  case (2 t ts a)
  define b where "b = (if mb_device (ra_members a ! t) = None then a else case dev_flush t a of (r, a) \<Rightarrow> if isl r then snd (fail_member t a) else a)"
  have "quiet a b"
  proof (cases "dev_flush t a")
    case (Pair r c)
    then have "quiet a c" "quiet c (snd (fail_member t c))" using quiet_dev_flush quiet_fail [of t c "fst (fail_member t c)"] by auto
    then show ?thesis using Pair quiet_trans [of a c] by (simp add: b_def)
  qed
  moreover have "quiet b (flush_targets ts b)" using 2 by (simp add: b_def)
  ultimately have "quiet a (flush_targets ts b)" by (rule quiet_trans)
  then show ?case by (simp add: b_def)
qed simp

definition activated :: "nat set \<Rightarrow> Member list \<Rightarrow> nat \<Rightarrow> Member" where
  "activated S ms i = (let m = ms ! i in if i \<in> S \<and> mb_state m = MRebuilding then m\<lparr>mb_state := MActive, mb_rebuilt_to := 0\<rparr> else m)"

lemma active_fold:
  assumes "distinct ts" "\<forall>t \<in> set ts. t < length (ra_members a)"
  shows "fold make_active ts a = a\<lparr>ra_members := map (activated (set ts) (ra_members a)) [0..<length (ra_members a)]\<rparr>"
  by (subst fold_members [OF _ assms, where f = "\<lambda>m. if mb_state m = MRebuilding then m\<lparr>mb_state := MActive, mb_rebuilt_to := 0\<rparr> else m"])
    (auto simp: make_active_def activated_def set_member_def Let_def)

text \<open>The rows that lie below the end of the members' data.\<close>

definition whole_rows :: "RaidArray \<Rightarrow> nat set" where
  "whole_rows a = {r. \<forall>x. row (geometry a) x = r \<longrightarrow> hold_end (geometry a) x \<le> ra_data_size a}"

lemma whole_row: "T \<subseteq> whole_rows a \<Longrightarrow> x \<in> rows (geometry a) T \<Longrightarrow> hold_end (geometry a) x \<le> ra_data_size a"
  by (auto simp: rows_def whole_rows_def)

lemma activate_sound:
  assumes "sound g L T a" "task_ok rb a" "rb_last rb \<le> rb_key rb" "T \<subseteq> whole_rows a" "b = fold make_active (rb_targets rb) a"
  shows "sound g L T b" "ra_data_size b = ra_data_size a" "\<forall>t \<in> set (rb_targets rb). mstate b t \<noteq> MRebuilding" "length (ra_members b) = length (ra_members a)"
proof -
  have a: "ra_wf a" "geometry a = g" "agree a L (rows (geometry a) T)" "marks_ok a" using assms(1) by (simp_all add: sound_def)
  have ts: "distinct (rb_targets rb)" "\<forall>t \<in> set (rb_targets rb). t < length (ra_members a)" using assms(2) by (auto simp: task_ok_def)
  note b = active_fold [OF ts, folded assms(5)]
  note sh = remark_shape [OF b]
  show "ra_data_size b = ra_data_size a" "length (ra_members b) = length (ra_members a)" using sh by simp_all
  have nth: "ra_members b ! i = activated (set (rb_targets rb)) (ra_members a) i" if "i < length (ra_members a)" for i using b that by simp
  show "\<forall>t \<in> set (rb_targets rb). mstate b t \<noteq> MRebuilding" using nth ts(2) by (simp add: mstate_def activated_def Let_def)
  have full: "ra_data_size a \<le> mb_rebuilt_to (ra_members a ! t)" if "t \<in> set (rb_targets rb)" "mstate a t = MRebuilding" for t
  proof -
    have "ra_data_size a \<le> rb_last rb * lock_unit a" using div_ceil_ge [OF lock_unit_pos [OF a(1)]] assms(2) by (simp add: task_ok_def)
    also have "\<dots> \<le> rb_key rb * lock_unit a" using assms(3) by simp
    finally show ?thesis using assms(2) that by (auto simp: task_ok_def)
  qed
  have "agree b L (rows (geometry a) T)"
    unfolding agree_def
  proof (intro allI impI ballI)
    fix i x assume i: "i < length (ra_members b)" and x: "x \<in> rows (geometry a) T" and h: "holds (ra_members b ! i) (hold_end (geometry b) x)"
    have i': "i < length (ra_members a)" using i sh by simp
    have "holds (ra_members a ! i) (hold_end (geometry a) x)"
      using h nth [OF i'] sh(1) full [of i] whole_row [OF assms(4) x]
      by (auto simp: activated_def Let_def holds_def mstate_def split: if_splits RaidMemberState.splits)
    then have "dev_bytes i a (RAID_DATA_OFFSET + x) = want (geometry a) L i x" using a(3) i' x by (simp add: agree_def)
    then show "dev_bytes i b (RAID_DATA_OFFSET + x) = want (geometry b) L i x"
      using nth [OF i'] sh by (simp add: dev_bytes_def activated_def Let_def split: if_splits)
  qed
  moreover have "marks_ok b" using a(4) nth sh by (auto simp: marks_ok_def mstate_def activated_def Let_def split: if_splits)
  ultimately show "sound g L T b" using a sh by (simp add: sound_def)
qed

lemma write_superblocks_spec: "ra_wf a \<Longrightarrow> \<exists>r b. write_superblocks a = Some (r, b) \<and> quiet a b"
  using sb_rounds_spec [of a "MAX_SLOTS + 1"] by (auto simp: write_superblocks_def ra_wf_def)

lemma events_same: "quiet (a\<lparr>ra_events := k\<rparr>) b = quiet a b" "sound g L T (a\<lparr>ra_events := k\<rparr>) = sound g L T a"
  by (simp_all add: quiet_def keeps_bm_def evolves_def same_shape_def dev_bytes_def sound_def ra_wf_def bitmap_wf_def geometry_def agree_def marks_ok_def mstate_def lock_unit_def)

lemma rebuild_finish_spec:
  assumes "sound g L T a" "task_ok rb a" "rb_last rb \<le> rb_key rb" "T \<subseteq> whole_rows a"
  shows "\<exists>r b. rebuild_finish rb a = Some (r, b) \<and> sound g L T b \<and> ra_data_size b = ra_data_size a \<and>
    (\<forall>t \<in> set (rb_targets rb). mstate b t \<noteq> MRebuilding)"
proof -
  define c where "c = flush_targets (rb_targets rb) a"
  have q: "quiet a c" by (simp add: c_def quiet_flush_targets)
  have w: "T \<subseteq> whole_rows c" using assms(4) quiet_shape [OF q] by (simp add: whole_rows_def)
  define d where "d = fold make_active (rb_targets rb) c"
  note d = activate_sound [OF sound_quiet [OF assms(1) q] task_quiet [OF assms(2) q] assms(3) w d_def]
  have "sound g L T (d\<lparr>ra_events := ra_events d + 1\<rparr>)" using d(1) events_same(2) by blast
  then have wd: "ra_wf (d\<lparr>ra_events := ra_events d + 1\<rparr>)" by (simp add: sound_def)
  obtain r b where b: "write_superblocks (d\<lparr>ra_events := ra_events d + 1\<rparr>) = Some (r, b)" "quiet (d\<lparr>ra_events := ra_events d + 1\<rparr>) b"
    using write_superblocks_spec [OF wd] by blast
  have db: "quiet d b" using b(2) events_same(1) by blast
  have "t < length (ra_members d)" if "t \<in> set (rb_targets rb)" for t using that task_quiet [OF assms(2) q] d(4) by (simp add: task_ok_def)
  then have "\<forall>t \<in> set (rb_targets rb). mstate b t \<noteq> MRebuilding" using d(3) db evolves_rebuilding by (auto simp: quiet_def)
  then show ?thesis using b(1) sound_quiet [OF d(1) db] quiet_shape [OF db] d(2) quiet_shape [OF q] by (simp add: rebuild_finish_def Let_def c_def d_def)
qed

section \<open>The start, and replacements\<close>

lemma rebuild_start_spec:
  assumes "rebuild_start batch a = Some rb" "sound g L T a"
  shows "task_ok rb a"
proof -
  define ts where "ts = filter (\<lambda>i. mb_state (ra_members a ! i) = MRebuilding \<and> mb_device (ra_members a ! i) \<noteq> None) (all_slots a)"
  define m where "m = Min (set (map (\<lambda>t. mb_rebuilt_to (ra_members a ! t)) ts))"
  have rb: "rb = \<lparr>rb_targets = ts, rb_key = m div lock_unit a, rb_last = div_ceil (ra_data_size a) (lock_unit a), rb_batch = max ((if batch = 0 then REBUILD_BATCH else batch) div lock_unit a) 1\<rparr>"
    using assms lock_unit_pos [of a] by (auto simp: rebuild_start_def Let_def ts_def m_def sound_def split: if_splits)
  have "m \<le> mb_rebuilt_to (ra_members a ! t)" if "t \<in> set ts" for t using that by (auto simp: m_def)
  then have "m div lock_unit a * lock_unit a \<le> mb_rebuilt_to (ra_members a ! t)" if "t \<in> set ts" for t
    using that div_times_less_eq_dividend [of m "lock_unit a"] le_trans by blast
  then show ?thesis by (auto simp: rb task_ok_def ts_def all_slots_def min_le_iff_disj)
qed

lemma quiet_zero_each:
  assumes "zero_each is a = (r, b)" "\<forall>i \<in> set is. has_device a i" "bitmap_wf a"
  shows "quiet a b"
  using assms
proof (induction "is" a arbitrary: r b rule: zero_each.induct)
  case (2 i "is" a)
  obtain q c where w: "dev_write i BITMAP_OFFSET (zero_buf (ib_bytes (ra_bitmap a))) a = (q, c)" by fastforce
  have c: "quiet a c" by (rule quiet_dev_write [OF w]) (use 2(4,5) in \<open>simp_all add: bitmap_wf_def BITMAP_OFFSET_def BITMAP_MAX_BYTES_def RAID_DATA_OFFSET_def\<close>)
  have rest: "quiet a b" if z: "zero_each is d = (r, b)" "quiet c d" and ih: "(\<And>r b. zero_each is d = (r, b) \<Longrightarrow>
      \<forall>i \<in> set is. has_device d i \<Longrightarrow> bitmap_wf d \<Longrightarrow> quiet d b)" for d
  proof -
    have ad: "quiet a d" by (rule quiet_trans [OF c z(2)])
    have "bitmap_wf d" using ad 2(5) by (simp add: quiet_def keeps_bm_def bitmap_wf_def)
    then have "quiet d b" using ih [OF z(1)] quiet_device [OF ad] 2(4) by simp
    then show ?thesis by (rule quiet_trans [OF ad])
  qed
  show ?case
  proof (cases q)
    case (Inr u)
    then show ?thesis using rest [of c] 2(2) [OF w [symmetric] Inr] 2(3) w by simp
  next
    case (Inl e)
    obtain ok d where f: "fail_member i c = (ok, d)" by fastforce
    show ?thesis
    proof (cases ok)
      case True
      then show ?thesis using rest [of d] 2(1) [OF w [symmetric] Inl f [symmetric]] 2(3) w Inl f quiet_fail [OF f] by simp
    next
      case False
      then have "b = d" using 2(3) w Inl f by simp
      then show ?thesis using quiet_trans [OF c quiet_fail [OF f]] by simp
    qed
  qed
qed simp

lemma fresh_sound:
  assumes "sound g L T a" "slot < length (ra_members a)" "b = set_member slot (fresh_member uuid d) a"
  shows "sound g L T b" "ra_data_size b = ra_data_size a" "task_ok rb a \<Longrightarrow> slot \<notin> set (rb_targets rb) \<Longrightarrow> task_ok rb b"
proof -
  have sh: "geometry b = geometry a" "lock_unit b = lock_unit a" "length (ra_members b) = length (ra_members a)"
    using assms(3) by (simp_all add: set_member_def geometry_def lock_unit_def)
  have u: "0 < g_unit (geometry a)" using assms(1) by (auto simp: sound_def ra_wf_def geometry_ok_def)
  have nth: "ra_members b ! i = (if i = slot then fresh_member uuid d else ra_members a ! i)" for i
    using assms(2,3) by (simp add: set_member_def nth_list_update)
  have unheld: "\<not> holds (fresh_member uuid d) (hold_end (geometry a) x)" for x
    using hold_end_gt [OF u, of x] by (simp add: holds_def fresh_member_def)
  have "agree b L (rows g T)" using assms(1) nth unheld sh by (auto simp: agree_def sound_def dev_bytes_def)
  moreover have "marks_ok b" using assms(1,3) nth sh by (auto simp: marks_ok_def sound_def mstate_def fresh_member_def set_member_def)
  ultimately show "sound g L T b" using assms(1,3) sh by (auto simp: sound_def ra_wf_def bitmap_wf_def set_member_def)
  show "ra_data_size b = ra_data_size a" using assms(3) by (simp add: set_member_def)
  then show "task_ok rb a \<Longrightarrow> slot \<notin> set (rb_targets rb) \<Longrightarrow> task_ok rb b" using nth sh by (auto simp: task_ok_def mstate_def)
qed

lemma quiet_zero_bitmaps: "zero_bitmaps only a = (r, b) \<Longrightarrow> ra_wf a \<Longrightarrow> quiet a b"
  using quiet_zero_each [of "filter (\<lambda>i. only = None \<or> only = Some i) (attached_devices a)" a r b] attached_has_device
  by (auto simp: zero_bitmaps_def ra_wf_def split: if_splits)

lemma ra_replace_spec:
  assumes "sound g L T a"
  shows "\<exists>r b. ra_replace slot uuid cap d a = Some (r, b) \<and> sound g L T b \<and> ra_data_size b = ra_data_size a \<and>
    (task_ok rb a \<longrightarrow> slot \<notin> set (rb_targets rb) \<longrightarrow> task_ok rb b)"
proof (cases "cap < member_bytes_needed a \<or> slot \<ge> length (ra_members a) \<or> mb_state (ra_members a ! slot) \<noteq> MFailed")
  case True
  then show ?thesis using assms by (auto simp: ra_replace_def)
next
  case False
  define c where "c = set_member slot (fresh_member uuid d) a"
  have sl: "slot < length (ra_members a)" using False by simp
  note c = fresh_sound [OF assms sl c_def]
  let ?c = "c\<lparr>ra_events := ra_events a + 1\<rparr>"
  obtain r e where z: "zero_bitmaps (Some slot) ?c = (r, e)" by fastforce
  have "sound g L T ?c" using c(1) events_same(2) by blast
  then have wf: "ra_wf ?c" by (simp add: sound_def)
  have q: "quiet c e" using quiet_zero_bitmaps [OF z wf] events_same(1) by blast
  have e: "sound g L T e" by (rule sound_quiet [OF c(1) q])
  obtain r' b where w: "write_superblocks e = Some (r', b)" "quiet e b" using write_superblocks_spec [of e] e by (auto simp: sound_def)
  have rep: "ra_replace slot uuid cap d a = (case r of Inl x \<Rightarrow> Some (Inl x, e) | Inr _ \<Rightarrow> Some (r', b))"
    using False z w(1) by (auto simp: ra_replace_def Let_def then_res_def c_def [symmetric] split: sum.splits)
  have ok: "sound g L T f \<and> ra_data_size f = ra_data_size a \<and> (task_ok rb a \<longrightarrow> slot \<notin> set (rb_targets rb) \<longrightarrow> task_ok rb f)" if "quiet c f" for f
    using sound_quiet [OF c(1) that] quiet_shape [OF that] c(2) task_quiet [OF c(3) that] by simp
  show ?thesis using rep ok [OF q] ok [OF quiet_trans [OF q w(2)]] by (cases r) auto
qed

end
