(* ===== verification/RebuildStore.thy ===== *)
theory RebuildStore
  imports RebuildTask
begin

text \<open>
  A rebuild as a whole: by itself it ends, and with I/O, failures and replacements between its
  batches the array stays the block device of \<open>RaidStore\<close>.
\<close>

section \<open>A rebuild alone\<close>

lemma rebuild_loop_spec:
  assumes "sound g L T a" "task_ok rb a" "T \<subseteq> whole_rows a"
  shows "\<exists>r b. rebuild_loop stop due rb a = Some (r, b) \<and> sound g L T b \<and>
    (r = Inr () \<longrightarrow> (\<forall>k. \<not> stop k) \<longrightarrow> (\<forall>t \<in> set (rb_targets rb). mstate b t \<noteq> MRebuilding))"
  using assms
proof (induction "rb_last rb - rb_key rb" arbitrary: rb a rule: less_induct)
  case less
  note unroll = rebuild_loop.simps [of stop due rb a]
  consider (stopped) "rb_key rb < rb_last rb" "stop (rb_key rb)" | (turn) "rb_key rb < rb_last rb" "\<not> stop (rb_key rb)" | (over) "\<not> rb_key rb < rb_last rb"
    by blast
  then show ?case
  proof cases
    case stopped
    obtain b where "persist_rebuild_position a = Some b" "quiet a b" using persist_position_spec [of a] less.prems(1) by (auto simp: sound_def)
    then show ?thesis using stopped unroll sound_quiet [OF less.prems(1)] by auto
  next
    case over
    obtain r b where "rebuild_finish rb a = Some (r, b)" "sound g L T b" "\<forall>t \<in> set (rb_targets rb). mstate b t \<noteq> MRebuilding"
      using rebuild_finish_spec [OF less.prems(1,2) _ less.prems(3)] over by (meson not_less)
    then show ?thesis using over unroll by simp
  next
    case turn
    obtain r c where c: "rebuild_batch (due (rb_key rb)) rb a = Some (r, c)" "sound g L T c" "ra_data_size c = ra_data_size a"
        "\<forall>rb'. r = Inr rb' \<longrightarrow> rb' = rb\<lparr>rb_key := min (rb_key rb + rb_batch rb) (rb_last rb)\<rparr> \<and> task_ok rb' c"
      using rebuild_batch_spec [OF less.prems(1,2), of "due (rb_key rb)"] by blast
    show ?thesis
    proof (cases r)
      case (Inl e)
      then show ?thesis using turn c unroll by simp
    next
      case (Inr rb')
      have rb': "rb' = rb\<lparr>rb_key := min (rb_key rb + rb_batch rb) (rb_last rb)\<rparr>" "task_ok rb' c" using c(4) Inr by blast+
      have w: "T \<subseteq> whole_rows c" using less.prems(1,3) c(2,3) by (simp add: whole_rows_def sound_def)
      have "0 < rb_batch rb" using less.prems(2) by (simp add: task_ok_def)
      then have "rb_last rb' - rb_key rb' < rb_last rb - rb_key rb" using turn(1) rb'(1) by simp
      from less.hyps [OF this c(2) rb'(2) w] show ?thesis using turn c(1) Inr rb'(1) unroll by simp
    qed
  qed
qed

text \<open>C32. A rebuild that nothing else disturbs ends, whichever device calls fail and whenever it is
  stopped: it never panics and never loops. It leaves the members in agreement with the image, and
  when it was not stopped and answers success every member that was rebuilding on a drive is whole
  (or has failed in the meantime), so that a read may take its bytes anywhere.\<close>

theorem run_rebuild_restores:
  assumes "ra_wf a" "marks_ok a" "agree a L (rows (geometry a) T)" "T \<subseteq> whole_rows a"
  shows "\<exists>r b. run_rebuild batch stop due a = Some (r, b) \<and> ra_wf b \<and> agree b L (rows (geometry b) T) \<and>
    (r = Inr () \<longrightarrow> (\<forall>k. \<not> stop k) \<longrightarrow>
      (\<forall>t < length (ra_members a). has_device a t \<longrightarrow> mstate a t = MRebuilding \<longrightarrow> mstate b t \<noteq> MRebuilding))"
proof (cases "rebuild_start batch a")
  case None
  then have "\<forall>t < length (ra_members a). has_device a t \<longrightarrow> mstate a t \<noteq> MRebuilding"
    by (auto simp: rebuild_start_def Let_def has_device_def mstate_def all_slots_def filter_empty_conv split: if_splits)
  then show ?thesis using None assms(1,3) by (auto simp: run_rebuild_def)
next
  case (Some rb)
  have s: "sound (geometry a) L T a" using assms(1-3) by (simp add: sound_def)
  obtain r b where b: "rebuild_loop stop due rb a = Some (r, b)" "sound (geometry a) L T b"
      "r = Inr () \<longrightarrow> (\<forall>k. \<not> stop k) \<longrightarrow> (\<forall>t \<in> set (rb_targets rb). mstate b t \<noteq> MRebuilding)"
    using rebuild_loop_spec [OF s rebuild_start_spec [OF Some s] assms(4), of stop due] by blast
  have "\<forall>t < length (ra_members a). has_device a t \<longrightarrow> mstate a t = MRebuilding \<longrightarrow> t \<in> set (rb_targets rb)"
    using Some by (auto simp: rebuild_start_def Let_def has_device_def mstate_def all_slots_def split: if_splits)
  then show ?thesis using Some b by (auto simp: run_rebuild_def sound_def)
qed

section \<open>A rebuild among other operations\<close>

record raid_system =
  sy_array :: RaidArray
  sy_task :: "rebuild_task option"

datatype sys_event =
    EvIo array_op
  | EvStart nat
  | EvBatch bool
  | EvFinish
  | EvCancel
  | EvReplace nat uuid nat device
  | EvMissing nat

datatype sys_reply = RepIo array_reply | RepOk | RepError raid_error

text \<open>A batch, the end and a cancellation are steps of the running task; without one, or at another position, they do nothing.\<close>

definition sys_step :: "sys_event \<Rightarrow> raid_system \<Rightarrow> (sys_reply \<times> raid_system) option" where
  "sys_step ev w =
     (let a = sy_array w in
      case ev of
        EvIo x \<Rightarrow> map_option (\<lambda>(r, b). (RepIo r, w\<lparr>sy_array := b\<rparr>)) (array_step x a)
      | EvStart batch \<Rightarrow> Some (RepOk, if sy_task w = None then w\<lparr>sy_task := rebuild_start batch a\<rparr> else w)
      | EvBatch checkpoint \<Rightarrow>
          (case sy_task w of
             None \<Rightarrow> Some (RepOk, w)
           | Some rb \<Rightarrow>
               if rb_key rb < rb_last rb
               then (case rebuild_batch checkpoint rb a of
                       None \<Rightarrow> None
                     | Some (Inl e, b) \<Rightarrow> Some (RepError e, w\<lparr>sy_array := b, sy_task := None\<rparr>)
                     | Some (Inr rb', b) \<Rightarrow> Some (RepOk, w\<lparr>sy_array := b, sy_task := Some rb'\<rparr>))
               else Some (RepOk, w))
      | EvFinish \<Rightarrow>
          (case sy_task w of
             None \<Rightarrow> Some (RepOk, w)
           | Some rb \<Rightarrow>
               if rb_key rb < rb_last rb then Some (RepOk, w)
               else map_option (\<lambda>(r, b). (case_sum RepError (\<lambda>_. RepOk) r, w\<lparr>sy_array := b, sy_task := None\<rparr>)) (rebuild_finish rb a))
      | EvCancel \<Rightarrow>
          (case sy_task w of
             None \<Rightarrow> Some (RepOk, w)
           | Some rb \<Rightarrow> map_option (\<lambda>b. (RepOk, w\<lparr>sy_array := b, sy_task := None\<rparr>)) (persist_rebuild_position a))
      | EvReplace slot uuid cap d \<Rightarrow> map_option (\<lambda>(r, b). (case_sum RepError (\<lambda>_. RepOk) r, w\<lparr>sy_array := b\<rparr>)) (ra_replace slot uuid cap d a)
      | EvMissing slot \<Rightarrow> Some (RepOk, w\<lparr>sy_array := snd (fail_member_missing slot a)\<rparr>))"

text \<open>What the code does not exclude and a rebuild does not survive: a new drive in a slot that the running task has for a target.\<close>

definition undisturbed :: "sys_event \<Rightarrow> raid_system \<Rightarrow> bool" where
  "undisturbed ev w = (case ev of EvReplace slot _ _ _ \<Rightarrow> (case sy_task w of None \<Rightarrow> True | Some rb \<Rightarrow> slot \<notin> set (rb_targets rb)) | _ \<Rightarrow> True)"

fun allowed_run :: "('o \<Rightarrow> 'a \<Rightarrow> bool) \<Rightarrow> ('o \<Rightarrow> 'a \<Rightarrow> ('r \<times> 'a) option) \<Rightarrow> 'o list \<Rightarrow> 'a \<Rightarrow> bool" where
  "allowed_run ok step [] a \<longleftrightarrow> True"
| "allowed_run ok step (x # xs) a \<longleftrightarrow> ok x a \<and> (case step x a of None \<Rightarrow> True | Some (_, b) \<Rightarrow> allowed_run ok step xs b)"

text \<open>The store takes no notice of a rebuild.\<close>

inductive sys_spec :: "Geometry \<Rightarrow> store \<Rightarrow> sys_event \<Rightarrow> sys_reply \<Rightarrow> store \<Rightarrow> bool" for g where
  sys_io: "store_step g s x r s' \<Longrightarrow> sys_spec g s (EvIo x) (RepIo r) s'"
| sys_other: "(\<forall>x. ev \<noteq> EvIo x) \<Longrightarrow> (\<forall>q. r \<noteq> RepIo q) \<Longrightarrow> sys_spec g s ev r s"

text \<open>A simulation for the operations that are allowed where they happen; one for all of them is a special case.\<close>

locale guarded_simulation =
  fixes ok :: "'o \<Rightarrow> 'a \<Rightarrow> bool"
    and step :: "'o \<Rightarrow> 'a \<Rightarrow> ('r \<times> 'a) option"
    and spec :: "'s \<Rightarrow> 'o \<Rightarrow> 'r \<Rightarrow> 's \<Rightarrow> bool"
    and rel :: "'a \<Rightarrow> 's \<Rightarrow> bool"
  assumes guarded_sim: "rel a s \<Longrightarrow> ok x a \<Longrightarrow> \<exists>r b s'. step x a = Some (r, b) \<and> spec s x r s' \<and> rel b s'"
begin

lemma guarded_run: "rel a s \<Longrightarrow> allowed_run ok step xs a \<Longrightarrow>
    \<exists>rs b s'. run_ops step xs a = Some (rs, b) \<and> spec_run spec s xs rs s' \<and> rel b s'"
proof (induction xs arbitrary: a s)
  case Nil
  then show ?case by (auto intro: spec_run.finished)
next
  case (Cons x xs)
  obtain r b s1 where st: "step x a = Some (r, b)" "spec s x r s1" "rel b s1" using guarded_sim [OF Cons.prems(1), of x] Cons.prems(2) by (metis allowed_run.simps(2))
  obtain rs c s2 where run: "run_ops step xs b = Some (rs, c)" "spec_run spec s1 xs rs s2" "rel c s2"
    using Cons.IH [OF st(3)] Cons.prems(2) st(1) by auto
  then show ?case using st(1) spec_run.more [of spec, OF st(2) run(2)] by (auto intro!: exI [of _ "r # rs"])
qed

end

sublocale total_simulation \<subseteq> guarded: guarded_simulation "\<lambda>_ _. True" step spec rel
  by unfold_locales (rule step_sim)

definition sys_rel :: "Geometry \<Rightarrow> nat \<Rightarrow> raid_system \<Rightarrow> store \<Rightarrow> bool" where
  "sys_rel g ds w s \<longleftrightarrow> sound g (st_image s) (st_trusted s) (sy_array w) \<and> ra_data_size (sy_array w) = ds \<and>
     st_trusted s \<subseteq> whole_rows (sy_array w) \<and> (case sy_task w of None \<Rightarrow> True | Some rb \<Rightarrow> task_ok rb (sy_array w))"

lemma whole_rows_same: "geometry b = geometry a \<Longrightarrow> ra_data_size b = ra_data_size a \<Longrightarrow> whole_rows b = whole_rows a"
  by (simp add: whole_rows_def)

lemma sys_relI:
  assumes "sys_rel g ds w s" "sound g (st_image s) (st_trusted s) b" "ra_data_size b = ds" "\<And>rb. q = Some rb \<Longrightarrow> task_ok rb b"
  shows "sys_rel g ds (w\<lparr>sy_array := b, sy_task := q\<rparr>) s"
  using assms whole_rows_same [of b "sy_array w"] by (auto simp: sys_rel_def sound_def split: option.splits)

lemma sys_rel_array:
  assumes "sys_rel g ds w s" "sound g (st_image s) (st_trusted s) b" "ra_data_size b = ds" "\<And>rb. task_ok rb (sy_array w) \<Longrightarrow> sy_task w = Some rb \<Longrightarrow> task_ok rb b"
  shows "sys_rel g ds (w\<lparr>sy_array := b\<rparr>) s"
  using assms whole_rows_same [of b "sy_array w"] by (auto simp: sys_rel_def sound_def split: option.splits)

lemma sys_rel_quiet:
  assumes "sys_rel g ds w s" "quiet (sy_array w) b"
  shows "sys_rel g ds (w\<lparr>sy_array := b\<rparr>) s" "sys_rel g ds (w\<lparr>sy_array := b, sy_task := None\<rparr>) s"
  using sys_rel_array [OF assms(1)] sys_relI [OF assms(1), of b None] sound_quiet [OF _ assms(2)] task_quiet [OF _ assms(2)] quiet_shape [OF assms(2)] assms(1)
  by (simp_all add: sys_rel_def)

lemma quiet_missing: "quiet a (snd (fail_member_missing i a))"
proof -
  let ?m = "ra_members a ! i"
  let ?m' = "?m\<lparr>mb_state := MFailed, mb_missing := mb_state ?m \<noteq> MRebuilding, mb_missing_at := ra_events a + 1\<rparr>"
  consider "snd (fail_member_missing i a) = a"
    | "i < length (ra_members a)" "snd (fail_member_missing i a) = (set_member i ?m' a)\<lparr>ra_events := ra_events a + 1, ra_sb_dirty := True\<rparr>"
    unfolding fail_member_missing_def fail_member_as_def Let_def
    by (cases "i < length (ra_members a)"; cases "mb_state ?m = MFailed"; cases "mb_state ?m \<noteq> MRebuilding \<and> \<not> can_lose a i") auto
  then show ?thesis
  proof cases
    case 2
    then show ?thesis using set_member_failed [OF 2(1), of ?m'] by (simp add: quiet_def keeps_bm_def set_member_def)
  qed simp
qed

lemma array_step_evolves:
  assumes "store_rel g a s" "array_step x a = Some (r, b)"
  shows "\<exists>W. evolves W a b"
proof -
  have a: "ra_wf a" "agree a (st_image s) (rows (geometry a) (st_trusted s))" using assms(1) by (auto simp: store_rel_def)
  show ?thesis
  proof (cases x)
    case (OpRead offset len)
    obtain q c where "array_read offset len a = Some (q, c)" "evolves {} a c" using array_read_spec [OF a, of offset len] by blast
    then show ?thesis using assms(2) OpRead by (auto simp: array_step_def)
  next
    case (OpWrite offset buf)
    obtain q c W where "array_write offset buf a = Some (q, c)" "evolves W a c" using array_write_spec [OF a, of offset buf] unfolding write_done_def by blast
    then show ?thesis using assms(2) OpWrite by (auto simp: array_step_def)
  next
    case (OpFlush before)
    obtain q c where "array_flush before a = Some (q, c)" "evolves {} a c" using array_flush_spec [OF a(1), of before] by blast
    then show ?thesis using assms(2) OpFlush by (auto simp: array_step_def)
  qed
qed

lemma store_trust: "store_step g s x r s' \<Longrightarrow> st_trusted s' \<subseteq> st_trusted s"
  by (cases rule: store_step.cases) auto

lemma sys_io_sim:
  assumes "sys_rel g ds w s"
  shows "\<exists>r b s'. sys_step (EvIo x) w = Some (r, b) \<and> sys_spec g s (EvIo x) r s' \<and> sys_rel g ds b s'"
proof -
  have rel: "store_rel g (sy_array w) s" using assms by (simp add: sys_rel_def store_rel_def sound_def)
  obtain r b s' where st: "array_step x (sy_array w) = Some (r, b)" "store_step g s x r s'" "store_rel g b s'" using array_step_sim [OF rel] by blast
  obtain W where W: "evolves W (sy_array w) b" using array_step_evolves [OF rel st(1)] by blast
  have b: "sound g (st_image s') (st_trusted s') b" "ra_data_size b = ds"
    using st(3) marks_evolves [OF _ W] evolves_shape(3) [OF W] assms by (simp_all add: sound_def store_rel_def sys_rel_def)
  have "st_trusted s' \<subseteq> whole_rows b"
    using store_trust [OF st(2)] assms whole_rows_same [of b "sy_array w"] b by (auto simp: sys_rel_def sound_def)
  moreover have "task_ok rb b" if "sy_task w = Some rb" for rb using task_evolves [OF _ W] assms that by (simp add: sys_rel_def)
  ultimately have "sys_rel g ds (w\<lparr>sy_array := b\<rparr>) s'" using b by (simp add: sys_rel_def split: option.split)
  then show ?thesis using st(1) sys_spec.sys_io [OF st(2)] by (auto simp: sys_step_def)
qed

lemma sys_sim:
  assumes "sys_rel g ds w s" "undisturbed ev w"
  shows "\<exists>r b s'. sys_step ev w = Some (r, b) \<and> sys_spec g s ev r s' \<and> sys_rel g ds b s'"
proof -
  have a: "sound g (st_image s) (st_trusted s) (sy_array w)" "ra_data_size (sy_array w) = ds" "st_trusted s \<subseteq> whole_rows (sy_array w)"
    using assms(1) by (simp_all add: sys_rel_def)
  have wf: "ra_wf (sy_array w)" using a(1) by (simp add: sound_def)
  have other: ?thesis if "sys_step ev w = Some (r, b)" "sys_rel g ds b s" "\<forall>x. ev \<noteq> EvIo x" "\<forall>q. r \<noteq> RepIo q" for r b
    using that sys_spec.sys_other by blast
  show ?thesis
  proof (cases ev)
    case (EvIo x)
    then show ?thesis using sys_io_sim [OF assms(1)] by simp
  next
    case (EvStart batch)
    have "sys_rel g ds (w\<lparr>sy_task := rebuild_start batch (sy_array w)\<rparr>) s"
      using sys_relI [OF assms(1) a(1,2), of "rebuild_start batch (sy_array w)"] rebuild_start_spec [OF _ a(1)] by simp
    then show ?thesis
      by (intro other [of RepOk "if sy_task w = None then w\<lparr>sy_task := rebuild_start batch (sy_array w)\<rparr> else w"])
        (use EvStart assms(1) in \<open>auto simp: sys_step_def\<close>)
  next
    case (EvBatch checkpoint)
    show ?thesis
    proof (cases "\<exists>rb. sy_task w = Some rb \<and> rb_key rb < rb_last rb")
      case False
      then show ?thesis by (intro other [of RepOk w]) (use EvBatch assms(1) in \<open>auto simp: sys_step_def split: option.split\<close>)
    next
      case True
      then obtain rb where rb: "sy_task w = Some rb" "rb_key rb < rb_last rb" "task_ok rb (sy_array w)" using assms(1) by (auto simp: sys_rel_def)
      obtain r b where b: "rebuild_batch checkpoint rb (sy_array w) = Some (r, b)" "sound g (st_image s) (st_trusted s) b"
          "ra_data_size b = ds" "\<forall>rb'. r = Inr rb' \<longrightarrow> task_ok rb' b"
        using rebuild_batch_spec [OF a(1) rb(3), of checkpoint] a(2) by auto
      have "sys_rel g ds (w\<lparr>sy_array := b, sy_task := case_sum (\<lambda>_. None) Some r\<rparr>) s"
        by (rule sys_relI [OF assms(1) b(2,3)]) (use b(4) in \<open>auto split: sum.splits\<close>)
      moreover have "sys_step ev w = Some (case_sum RepError (\<lambda>_. RepOk) r, w\<lparr>sy_array := b, sy_task := case_sum (\<lambda>_. None) Some r\<rparr>)"
        using EvBatch rb(1,2) b(1) by (cases r) (simp_all add: sys_step_def)
      ultimately show ?thesis using EvBatch by (intro other) (auto split: sum.splits)
    qed
  next
    case EvFinish
    show ?thesis
    proof (cases "\<exists>rb. sy_task w = Some rb \<and> \<not> rb_key rb < rb_last rb")
      case False
      then show ?thesis by (intro other [of RepOk w]) (use EvFinish assms(1) in \<open>auto simp: sys_step_def split: option.split\<close>)
    next
      case True
      then obtain rb where rb: "sy_task w = Some rb" "\<not> rb_key rb < rb_last rb" "task_ok rb (sy_array w)" using assms(1) by (auto simp: sys_rel_def)
      obtain r b where b: "rebuild_finish rb (sy_array w) = Some (r, b)" "sound g (st_image s) (st_trusted s) b" "ra_data_size b = ds"
        using rebuild_finish_spec [OF a(1) rb(3) _ a(3)] rb(2) a(2) by auto
      have "sys_rel g ds (w\<lparr>sy_array := b, sy_task := None\<rparr>) s" by (rule sys_relI [OF assms(1) b(2,3)]) simp
      then show ?thesis using EvFinish rb(1,2) b(1) by (intro other [of "case_sum RepError (\<lambda>_. RepOk) r"]) (auto simp: sys_step_def split: sum.splits)
    qed
  next
    case EvCancel
    obtain b where b: "persist_rebuild_position (sy_array w) = Some b" "quiet (sy_array w) b" using persist_position_spec [OF wf] by blast
    show ?thesis
      by (cases "sy_task w"; intro other [of RepOk "if sy_task w = None then w else w\<lparr>sy_array := b, sy_task := None\<rparr>"])
        (use EvCancel b(1) sys_rel_quiet(2) [OF assms(1) b(2)] assms(1) in \<open>auto simp: sys_step_def\<close>)
  next
    case (EvReplace slot uuid cap d)
    obtain r b where b: "ra_replace slot uuid cap d (sy_array w) = Some (r, b)" "sound g (st_image s) (st_trusted s) b" "ra_data_size b = ds"
        "\<And>rb. sy_task w = Some rb \<Longrightarrow> task_ok rb (sy_array w) \<Longrightarrow> slot \<notin> set (rb_targets rb) \<Longrightarrow> task_ok rb b"
      using ra_replace_spec [OF a(1), of slot uuid cap d "the (sy_task w)"] a(2) by fastforce
    have "sys_rel g ds (w\<lparr>sy_array := b\<rparr>) s"
      by (rule sys_rel_array [OF assms(1) b(2,3)]) (use b(4) assms(2) EvReplace in \<open>simp add: undisturbed_def\<close>)
    then show ?thesis using EvReplace b(1) by (intro other [of "case_sum RepError (\<lambda>_. RepOk) r"]) (auto simp: sys_step_def split: sum.splits)
  next
    case (EvMissing slot)
    show ?thesis
      by (intro other [of RepOk "w\<lparr>sy_array := snd (fail_member_missing slot (sy_array w))\<rparr>"])
        (use EvMissing sys_rel_quiet(1) [OF assms(1) quiet_missing] in \<open>auto simp: sys_step_def\<close>)
  qed
qed

interpretation rebuild_store: guarded_simulation undisturbed sys_step "sys_spec g" "sys_rel g ds" for g ds
  by unfold_locales (rule sys_sim)


lemma no_replacement: "\<forall>ev \<in> set evs. \<forall>slot uuid cap d. ev \<noteq> EvReplace slot uuid cap d \<Longrightarrow> allowed_run undisturbed sys_step evs w"
  by (induction evs arbitrary: w) (auto simp: undisturbed_def split: sys_event.splits option.splits)

lemma blank_marks: "\<forall>m \<in> set ms. mb_rebuilt_to m = 0 \<Longrightarrow> marks_ok (blank_array level unit ms io)"
  by (simp add: marks_ok_def blank_array_def)

lemma blank_whole: "level = Raid5 \<or> level = Raid6 \<Longrightarrow> 0 < unit \<Longrightarrow> {r. (r + 1) * unit \<le> 8} \<subseteq> whole_rows (blank_array level unit ms io)"
  by (auto simp: whole_rows_def blank_array_def geometry_def row_def is_parity_def hold_end_def)

text \<open>A RAID-5 of three that has lost a member: a drive for it, and a rebuild with writes between the batches.\<close>

theorem run_rebuild_restores_witness:
  "\<exists>r b. run_rebuild 4 (\<lambda>_. False) (\<lambda>k. k = 1) (blank_array Raid5 4 [blank_member MActive 0, blank_member MRebuilding 0, blank_member MActive 0] (\<lambda>k. if k = 5 then IoErr 5 (\<lambda>_. 9) else IoOk)) = Some (r, b) \<and>
    ra_wf b \<and> agree b (\<lambda>_. 0) (rows (geometry b) {r. (r + 1) * 4 \<le> 8}) \<and> (r = Inr () \<longrightarrow> mstate b 1 \<noteq> MRebuilding)"
proof -
  let ?a = "blank_array Raid5 4 [blank_member MActive 0, blank_member MRebuilding 0, blank_member MActive 0] (\<lambda>k. if k = 5 then IoErr 5 (\<lambda>_. 9) else IoOk)"
  have "ra_wf ?a" by (rule blank_array_wf) (simp_all add: min_members_def MAX_SLOTS_def)
  moreover have "agree ?a (\<lambda>_. 0) (rows (geometry ?a) {r. (r + 1) * 4 \<le> 8})" by (rule blank_array_agree) (simp add: blank_member_def)
  moreover have "marks_ok ?a" by (rule blank_marks) (simp add: blank_member_def)
  moreover have "{r. (r + 1) * 4 \<le> 8} \<subseteq> whole_rows ?a" by (rule blank_whole) simp_all
  moreover have "length (ra_members ?a) = 3" "has_device ?a 1" "mstate ?a 1 = MRebuilding" by (simp_all add: blank_array_def has_device_def mstate_def blank_member_def)
  ultimately show ?thesis using run_rebuild_restores [of ?a "\<lambda>_. 0" "{r. (r + 1) * 4 \<le> 8}" 4 "\<lambda>_. False" "\<lambda>k. k = 1"] by fastforce
qed


end
