(* ===== verification/RaidHealthy.thy ===== *)
theory RaidHealthy
  imports RebuildStore
begin

text \<open>
  Availability. The other theories say that an answer of an array is right; here an array that has
  lost no more members than its level allows, and whose drives fail no call, answers with success.
\<close>

section \<open>Calls that succeed\<close>

definition healthy :: "RaidArray \<Rightarrow> bool" where
  "healthy a \<longleftrightarrow> ra_io a = (\<lambda>_. IoOk)"

text \<open>No member changes state.\<close>

definition steady :: "RaidArray \<Rightarrow> RaidArray \<Rightarrow> bool" where
  "steady a b \<longleftrightarrow> same_shape a b \<and> (\<forall>i < length (ra_members a).
     (mb_device (ra_members b ! i) = None \<longleftrightarrow> mb_device (ra_members a ! i) = None) \<and>
     mb_state (ra_members b ! i) = mb_state (ra_members a ! i) \<and> mb_rebuilt_to (ra_members b ! i) = mb_rebuilt_to (ra_members a ! i))"

lemma steady_refl [simp]: "steady a a"
  by (simp add: steady_def same_shape_def)

lemma steady_trans [trans]: "steady a b \<Longrightarrow> steady b c \<Longrightarrow> steady a c"
  by (auto simp: steady_def same_shape_def)

lemma steady_fields [simp]:
  "steady a (b\<lparr>ra_bitmap := m\<rparr>) = steady a b" "steady (a\<lparr>ra_bitmap := m\<rparr>) b = steady a b"
  "steady a (b\<lparr>ra_sb_dirty := d\<rparr>) = steady a b" "steady (a\<lparr>ra_sb_dirty := d\<rparr>) b = steady a b"
  "steady (a\<lparr>ra_read_counter := k\<rparr>) b = steady a b" "steady (a\<lparr>ra_events := k\<rparr>) b = steady a b" "steady a (b\<lparr>ra_calls := k\<rparr>) = steady a b"
  by (simp_all add: steady_def same_shape_def)

lemma healthy_fields [simp]:
  "healthy (a\<lparr>ra_bitmap := m\<rparr>) = healthy a" "healthy (a\<lparr>ra_sb_dirty := d\<rparr>) = healthy a"
  "healthy (a\<lparr>ra_read_counter := k\<rparr>) = healthy a" "healthy (a\<lparr>ra_events := k\<rparr>) = healthy a"
  by (simp_all add: healthy_def)

lemma steady_healthy: "steady a b \<Longrightarrow> healthy a \<Longrightarrow> healthy b"
  by (simp add: steady_def same_shape_def healthy_def)

lemma steady_shape:
  assumes "steady a b"
  shows "geometry b = geometry a" "ra_level b = ra_level a" "ra_stripe_size b = ra_stripe_size a" "ra_data_size b = ra_data_size a"
    "length (ra_members b) = length (ra_members a)" "ra_released b = ra_released a" "lock_unit b = lock_unit a" "mstate b i = mstate a i \<or> \<not> i < length (ra_members a)"
  using assms by (auto simp: steady_def same_shape_def geometry_def lock_unit_def mstate_def)

lemma steady_device: "steady a b \<Longrightarrow> has_device b i = has_device a i"
  by (auto simp: steady_def same_shape_def has_device_def)

lemma steady_holders: "steady a b \<Longrightarrow> ra_holders b e = ra_holders a e"
  by (auto simp: steady_def same_shape_def ra_holders_def holds_def intro!: nth_equalityI split: RaidMemberState.split)

lemma steady_attached: "steady a b \<Longrightarrow> attached_devices b = attached_devices a"
  by (auto simp: steady_def same_shape_def attached_devices_def attached_def intro!: filter_cong)

lemma steady_whole: "steady a b \<Longrightarrow> i < length (ra_members a) \<Longrightarrow> whole (ra_members b ! i) = whole (ra_members a ! i)"
  by (simp add: steady_def whole_def)

text \<open>Whether the data is intact depends only on which members are whole.\<close>

lemma intact_whole:
  assumes "geometry b = geometry a" "\<forall>i < length (ra_members a). whole (ra_members b ! i) = whole (ra_members a ! i)"
  shows "data_intact b = data_intact a"
proof -
  have n: "length (ra_members b) = length (ra_members a)" "ra_level b = ra_level a" using assms(1) by (simp_all add: geometry_def)
  have m: "map whole (ra_members b) = map whole (ra_members a)" using assms(2) n by (intro nth_equalityI) simp_all
  have "list_ex whole (ra_members b) = list_ex whole (ra_members a)"
    using arg_cong [OF m, of "\<lambda>l. True \<in> set l"] by (auto simp: list_ex_iff image_iff)
  moreover have "length (filter (\<lambda>m. \<not> whole m) (ra_members b)) = length (filter (\<lambda>m. \<not> whole m) (ra_members a))"
    using arg_cong [OF m, of "\<lambda>l. length (filter Not l)"] by (simp add: filter_map comp_def)
  moreover have "whole (ra_members b ! j) = whole (ra_members a ! j)" if "p < length (ra_members a) div 2" "j = 2 * p \<or> j = 2 * p + 1" for p j
    using assms(2) that by auto
  ultimately show ?thesis
    using n assms(1) by (cases "ra_level a") (simp_all add: data_intact_def Let_def list_all_iff)
qed

lemma steady_intact: "steady a b \<Longrightarrow> data_intact b = data_intact a"
  by (rule intact_whole) (simp_all add: steady_shape steady_whole)

section \<open>Device calls\<close>

lemma healthy_io: "healthy a \<Longrightarrow> next_io a = (IoOk, a\<lparr>ra_calls := ra_calls a + 1\<rparr>)"
  by (simp add: next_io_def healthy_def)

lemma healthy_read: "healthy a \<Longrightarrow> dev_read i at len a = (r, b) \<Longrightarrow> (\<exists>bs. r = Inr bs) \<and> steady a b"
  by (auto simp: dev_read_def healthy_io)

lemma healthy_flush: "healthy a \<Longrightarrow> dev_flush i a = (r, b) \<Longrightarrow> r = Inr () \<and> steady a b"
  by (auto simp: dev_flush_def healthy_io)

lemma healthy_write:
  assumes "healthy a" "has_device a i" "dev_write i at bs a = (r, b)"
  shows "r = Inr ()" "steady a b"
proof -
  have w: "dev_write i at bs a = (Inr (), set_bytes i (patch at (length bs) (\<lambda>x. bs ! (x - at)) (dev_bytes i (a\<lparr>ra_calls := ra_calls a + 1\<rparr>))) (a\<lparr>ra_calls := ra_calls a + 1\<rparr>))"
    using assms(1) by (simp add: dev_write_def healthy_io)
  then show "r = Inr ()" using assms(3) by simp
  have "b = set_bytes i (patch at (length bs) (\<lambda>x. bs ! (x - at)) (dev_bytes i (a\<lparr>ra_calls := ra_calls a + 1\<rparr>))) (a\<lparr>ra_calls := ra_calls a + 1\<rparr>)"
    using assms(3) w by simp
  then show "steady a b" using assms(2) by (auto simp: steady_def same_shape_def set_bytes_def set_member_def has_device_def nth_list_update)
qed

abbreviation good :: "(nat \<times> (nat + 'x)) list \<Rightarrow> bool" where
  "good rs \<equiv> \<forall>(i, r) \<in> set rs. \<not> isl r"

lemma settle_good: "good rs \<Longrightarrow> settle rs a = (Inr (), a)"
  by (induction rs) (auto simp: isl_def split: sum.split)

lemma sb_settle_good: "good rs \<Longrightarrow> sb_settle rs again a = (Inr again, a)"
  by (induction rs) (auto simp: isl_def split: sum.split)

lemma healthy_write_each:
  "healthy a \<Longrightarrow> \<forall>(i, at, bs) \<in> set ws. has_device a i \<Longrightarrow> write_each ws a = (rs, b) \<Longrightarrow> good rs \<and> steady a b"
proof (induction ws arbitrary: a rs)
  case (Cons w ws)
  obtain i at bs where w: "w = (i, at, bs)" by (cases w)
  obtain r c where c: "dev_write i at bs a = (r, c)" by fastforce
  have hw: "r = Inr ()" "steady a c" using healthy_write [OF Cons.prems(1) _ c] Cons.prems(2) w by auto
  obtain r' d where f: "dev_flush i c = (r', d)" by fastforce
  have hf: "r' = Inr ()" "steady c d" using healthy_flush [OF steady_healthy [OF hw(2) Cons.prems(1)] f] by auto
  have ad: "steady a d" by (rule steady_trans [OF hw(2) hf(2)])
  obtain rs' where e: "write_each ws d = (rs', b)" "rs = (i, r') # rs'" using Cons.prems(3) c f hw(1) w by (auto split: prod.splits)
  have "\<forall>(i, at, bs) \<in> set ws. has_device d i" using Cons.prems(2) steady_device [OF ad] by auto
  then have "good rs' \<and> steady d b" using Cons.IH [OF steady_healthy [OF ad Cons.prems(1)] _ e(1)] by blast
  then show ?case using e(2) hf(1) steady_trans [OF ad] by auto
qed simp

lemma healthy_rounds:
  assumes "healthy a" "sb_rounds (Suc n) a = Some (r, b)"
  shows "r = Inr () \<and> steady a b"
proof -
  let ?a = "a\<lparr>ra_sb_dirty := False\<rparr>"
  let ?ws = "map (\<lambda>i. map_option (\<lambda>b. (i, 0 :: nat, b)) (sb_to_bytes (ra_crc ?a) (superblock_for ?a i))) (attached_devices ?a)"
  obtain ws where ws: "unwrap_all ?ws = Some ws" using assms(2) by (auto simp: Let_def split: option.splits)
  have dev: "\<forall>(i, at, bs) \<in> set ws. has_device ?a i"
  proof -
    have "set ws \<subseteq> {w. Some w \<in> set xs}" if "unwrap_all xs = Some ws" for xs :: "(nat \<times> nat \<times> bytes) option list" and ws
      using that by (induction xs arbitrary: ws) (auto simp: Option.bind_eq_Some_conv)
    note sub = this [OF ws]
    show ?thesis
    proof (clarify)
      fix i at bs assume "(i, at, bs) \<in> set ws"
      then have "Some (i, at, bs) \<in> set ?ws" using sub by blast
      then have "i \<in> set (attached_devices ?a)" by (auto dest!: sym [of "Some _"])
      then show "has_device ?a i" by (rule attached_has_device)
    qed
  qed
  obtain rs c where c: "write_each ws ?a = (rs, c)" by fastforce
  have g: "good rs" "steady ?a c" using healthy_write_each [OF _ dev c] assms(1) by auto
  then show ?thesis using assms(2) ws c sb_settle_good [OF g(1), of False c] by (simp add: Let_def)
qed

lemma healthy_superblocks:
  assumes "healthy a" "ra_wf a"
  shows "\<exists>b. write_superblocks a = Some (Inr (), b) \<and> steady a b"
proof (cases "ra_released a")
  case False
  obtain r b where "write_superblocks a = Some (r, b)" using write_superblocks_spec [OF assms(2)] by blast
  then show ?thesis using False healthy_rounds [OF assms(1), of MAX_SLOTS r b] by (simp add: write_superblocks_def)
qed (simp add: write_superblocks_def)

lemma healthy_persist: "healthy a \<Longrightarrow> persist_if_dirty a = Some b \<Longrightarrow> steady a b"
  using healthy_rounds [of a MAX_SLOTS _ b] by (auto simp: persist_if_dirty_def write_superblocks_def split: if_splits)

section \<open>The bitmap\<close>

lemma healthy_pages: "healthy a \<Longrightarrow> has_device a i \<Longrightarrow> write_pages i w a = (r, b) \<Longrightarrow> r = Inr () \<and> steady a b"
proof (induction w arbitrary: a)
  case Nil
  then show ?case using healthy_flush by simp
next
  case (Cons p w)
  obtain p1 bs where p: "p = (p1, bs)" by fastforce
  obtain q c where c: "dev_write i (BITMAP_OFFSET + p1 * PAGE) bs a = (q, c)" by fastforce
  note h = healthy_write [OF Cons.prems(1,2) c]
  have "write_pages i w c = (r, b)" using Cons.prems(3) p c h(1) by simp
  then have "r = Inr () \<and> steady c b" using Cons.IH [of c] steady_healthy [OF h(2) Cons.prems(1)] steady_device [OF h(2)] Cons.prems(2) by simp
  then show ?case using steady_trans [OF h(2)] by blast
qed

lemma healthy_pages_each:
  "healthy a \<Longrightarrow> \<forall>i \<in> set is. has_device a i \<Longrightarrow> pages_each is w a = (rs, b) \<Longrightarrow> good rs \<and> map fst rs = is \<and> steady a b"
proof (induction "is" arbitrary: a rs)
  case (Cons i "is")
  obtain q c where c: "write_pages i w a = (q, c)" by fastforce
  have h: "q = Inr ()" "steady a c" using healthy_pages [OF Cons.prems(1) _ c] Cons.prems(2) by auto
  obtain rs' where e: "pages_each is w c = (rs', b)" "rs = (i, q) # rs'" using Cons.prems(3) c by (auto split: prod.splits)
  have "good rs' \<and> map fst rs' = is \<and> steady c b"
    using Cons.IH [OF steady_healthy [OF h(2) Cons.prems(1)] _ e(1)] steady_device [OF h(2)] Cons.prems(2) by simp
  then show ?case using e(2) h(1) steady_trans [OF h(2)] by auto
qed simp

lemma healthy_bitmap_pages:
  assumes "healthy a" "attached_devices a \<noteq> []" "write_bitmap_pages a = (r, b)"
  shows "r = Inr () \<and> steady a b"
proof (cases "ra_released a \<or> ib_pending (ra_bitmap a) = []")
  case True
  then show ?thesis using assms(3) by (cases "ra_released a") (simp_all add: write_bitmap_pages_def Let_def)
next
  case False
  obtain rs c where c: "pages_each (attached_devices a) (ib_pending (ra_bitmap a)) a = (rs, c)" by fastforce
  have h: "good rs" "map fst rs = attached_devices a" "steady a c" using healthy_pages_each [OF assms(1) _ c] attached_has_device by auto
  have "rs \<noteq> []" using h(2) assms(2) by auto
  then have "list_ex (\<lambda>(i, r). \<not> isl r) rs" using h(1) by (cases rs) auto
  then show ?thesis using False assms(3) c settle_good [OF h(1), of c] h(3) by (auto simp: write_bitmap_pages_def Let_def)
qed

lemma healthy_intent_wait:
  assumes "intent_wait r a = Some y"
  shows "healthy a \<longrightarrow> attached_devices a \<noteq> [] \<longrightarrow> (\<exists>b. y = (Inr (), b) \<and> steady a b)"
proof (rule intent_wait.raw_induct [where P = "\<lambda>r a y. healthy a \<longrightarrow> attached_devices a \<noteq> [] \<longrightarrow> (\<exists>b. y = (Inr (), b) \<and> steady a b)", OF _ assms], intro impI)
  fix wait r a y
  assume ih: "\<And>r a y. wait r a = Some y \<Longrightarrow> healthy a \<longrightarrow> attached_devices a \<noteq> [] \<longrightarrow> (\<exists>b. y = (Inr (), b) \<and> steady a b)"
    and step: "(if ib_is_durable r (ra_bitmap a) then Some (Inr (), a)
        else case write_bitmap_pages a of (Inl e, a) \<Rightarrow> Some (Inl e, a\<lparr>ra_bitmap := ib_end (ra_now a) r (ra_bitmap a)\<rparr>) | (Inr _, a) \<Rightarrow> wait r a) = Some y"
    and h: "healthy a" "attached_devices a \<noteq> []"
  show "\<exists>b. y = (Inr (), b) \<and> steady a b"
  proof (cases "ib_is_durable r (ra_bitmap a)")
    case True
    then show ?thesis using step by auto
  next
    case False
    obtain q c where c: "write_bitmap_pages a = (q, c)" by fastforce
    have s: "q = Inr ()" "steady a c" using healthy_bitmap_pages [OF h c] by auto
    then have "wait r c = Some y" using step False c by simp
    then show ?thesis using ih steady_healthy [OF s(2) h(1)] steady_attached [OF s(2)] h(2) steady_trans [OF s(2)] by metis
  qed
qed

lemma healthy_intent:
  assumes "healthy a" "attached_devices a \<noteq> []" "intent_begin r a = Some (q, b)"
  shows "q = Inr () \<and> steady a b"
proof -
  obtain need m where m: "ib_begin r (ra_bitmap a) = (need, m)" by fastforce
  have "attached_devices (a\<lparr>ra_bitmap := m\<rparr>) = attached_devices a" by (simp add: attached_devices_def)
  then show ?thesis using assms m healthy_intent_wait [of r "a\<lparr>ra_bitmap := m\<rparr>" "(q, b)"] by (auto simp: intent_begin_def Let_def split: if_splits)
qed

section \<open>Mirrors\<close>

lemma whole_holds: "whole m \<Longrightarrow> holds m e"
  by (simp add: whole_def holds_def)

lemma healthy_mirror_read:
  assumes "healthy a" "i \<in> set grp" "i < length (ra_members a)" "whole (ra_members a ! i)" "mirror_read_at grp moff len a = (r, b)"
  shows "(\<exists>bs. r = Inr bs) \<and> steady a b"
proof -
  define cands where "cands = read_candidates grp [] (moff + len) a"
  define pick where "pick = cands ! (ra_read_counter a mod length cands)"
  have ne: "cands \<noteq> []" using assms(2) whole_holds [OF assms(4)] holder_at [OF assms(3)] by (auto simp: cands_def read_candidates_def filter_empty_conv)
  obtain q c where c: "dev_read pick (RAID_DATA_OFFSET + moff) len (a\<lparr>ra_read_counter := ra_read_counter a + 1\<rparr>) = (q, c)" by fastforce
  then obtain bs where h: "q = Inr bs" "steady a c" using healthy_read [OF _ c] assms(1) by auto
  have "mirror_read_loop grp moff len [] a = (Inr bs, c)"
    using ne c h(1) mirror_read_loop.simps [of grp moff len "[]" a] by (auto simp: cands_def [symmetric] pick_def [symmetric] Let_def)
  then show ?thesis using assms(5) h by (auto simp: mirror_read_at_def)
qed

lemma healthy_mirror_writes:
  "healthy a \<Longrightarrow> \<forall>(i, n) \<in> set ts. has_device a i \<Longrightarrow> mirror_writes moff data ts a = (rs, b) \<Longrightarrow>
    rs = map (\<lambda>(i, n). (i, n = length data, Inr ())) ts \<and> steady a b"
proof (induction ts arbitrary: a rs)
  case (Cons t ts)
  obtain i n where t: "t = (i, n)" by fastforce
  obtain q c where c: "dev_write i (RAID_DATA_OFFSET + moff) (take n data) a = (q, c)" by fastforce
  have h: "q = Inr ()" "steady a c" using healthy_write [OF Cons.prems(1) _ c] Cons.prems(2) t by auto
  obtain rs' where e: "mirror_writes moff data ts c = (rs', b)" "rs = (i, n = length data, q) # rs'" using Cons.prems(3) c t by (auto split: prod.splits)
  have "\<forall>(i, n) \<in> set ts. has_device c i" using Cons.prems(2) steady_device [OF h(2)] by auto
  then have "rs' = map (\<lambda>(i, n). (i, n = length data, Inr ())) ts \<and> steady c b" using Cons.IH [OF steady_healthy [OF h(2) Cons.prems(1)] _ e(1)] by blast
  then show ?case using e(2) h(1) t steady_trans [OF h(2)] by auto
qed simp

lemma mirror_settle_good:
  "wrote \<or> (\<exists>i. (i, k) \<in> set ts) \<Longrightarrow> mirror_settle (map (\<lambda>(i, n). (i, n = k, Inr ())) ts) wrote e a = (Inr (), a)"
proof (induction ts arbitrary: wrote)
  case (Cons t ts)
  obtain j n where t: "t = (j, n)" by fastforce
  have "(wrote \<or> n = k) \<or> (\<exists>i. (i, k) \<in> set ts)" using Cons.prems t by auto
  then show ?case using Cons.IH t by simp
qed simp

lemma healthy_mirror_write:
  assumes "healthy a" "i \<in> set grp" "i < length (ra_members a)" "whole (ra_members a ! i)" "\<forall>j \<in> set grp. j < length (ra_members a)"
    and "mirror_write_at grp moff data a = (r, b)"
  shows "r = Inr () \<and> steady a b"
proof -
  define ts where "ts = mirror_targets grp moff (length data) a"
  have dev: "\<forall>(j, n) \<in> set ts. has_device a j"
    using assms(5) by (auto simp: ts_def mirror_targets_def Let_def List.map_filter_def has_device_def split: if_splits)
  have "(i, length data) \<in> set ts"
    using assms(2,4) whole_holds [OF assms(4)] by (force simp: ts_def mirror_targets_def Let_def List.map_filter_def whole_def)
  then have full: "\<exists>j. (j, length data) \<in> set ts" by blast
  obtain rs c where c: "mirror_writes moff data ts a = (rs, c)" by fastforce
  have h: "rs = map (\<lambda>(i, n). (i, n = length data, Inr ())) ts" "steady a c" using healthy_mirror_writes [OF assms(1) dev c] by auto
  have "list_ex (\<lambda>(i, n). n = length data) ts" using full by (auto simp: list_ex_iff)
  then show ?thesis using assms(6) c h mirror_settle_good [of False "length data" ts None c] full by (auto simp: mirror_write_at_def ts_def [symmetric] Let_def)
qed

lemma healthy_intact_pair:
  assumes "data_intact a" "ra_level a = Raid10" "p < length (ra_members a) div 2"
  shows "\<exists>i \<in> set (pair_list p). i < length (ra_members a) \<and> whole (ra_members a ! i)" "\<forall>i \<in> set (pair_list p). i < length (ra_members a)"
  using assms by (auto simp: data_intact_def Let_def list_all_iff pair_list_def pair_members_def)

lemma healthy_raid10_reads:
  "healthy a \<Longrightarrow> data_intact a \<Longrightarrow> ra_level a = Raid10 \<Longrightarrow> \<forall>s \<in> set segs. sg_index s < length (ra_members a) div 2 \<Longrightarrow>
    raid10_reads segs a = (r, b) \<Longrightarrow> (\<exists>bs. r = Inr bs) \<and> steady a b"
proof (induction segs arbitrary: a r)
  case (Cons s segs)
  obtain q c where c: "mirror_read_at (pair_list (sg_index s)) (sg_stripe s * ra_stripe_size a + sg_offset_in_unit s) (sg_len s) a = (q, c)" by fastforce
  have "sg_index s < length (ra_members a) div 2" using Cons.prems(4) by simp
  then obtain i where "i \<in> set (pair_list (sg_index s))" "i < length (ra_members a)" "whole (ra_members a ! i)"
    using healthy_intact_pair(1) [OF Cons.prems(2,3)] by blast
  then have h: "\<exists>bs. q = Inr bs" "steady a c" using healthy_mirror_read [OF Cons.prems(1) _ _ _ c] by auto
  obtain r' where e: "raid10_reads segs c = (r', b)" "\<exists>bs. r = (case r' of Inl e \<Rightarrow> Inl e | Inr rest \<Rightarrow> Inr (bs @ rest))"
    using Cons.prems(5) c h(1) by (auto split: prod.splits sum.splits)
  have "(\<exists>bs. r' = Inr bs) \<and> steady c b"
    using Cons.IH [OF steady_healthy [OF h(2) Cons.prems(1)] _ _ _ e(1)] steady_intact [OF h(2)] steady_shape [OF h(2)] Cons.prems(2-4) by simp
  then show ?case using e(2) steady_trans [OF h(2)] by auto
qed simp

lemma healthy_raid10_pieces:
  "healthy a \<Longrightarrow> data_intact a \<Longrightarrow> ra_level a = Raid10 \<Longrightarrow> \<forall>s \<in> set segs. sg_index s < length (ra_members a) div 2 \<Longrightarrow>
    raid10_pieces segs buf a = (r, b) \<Longrightarrow> r = Inr () \<and> steady a b"
proof (induction segs arbitrary: a)
  case (Cons s segs)
  obtain q c where c: "mirror_write_at (pair_list (sg_index s)) (sg_stripe s * ra_stripe_size a + sg_offset_in_unit s)
             (slice_of (sg_buf_offset s) (sg_buf_offset s + sg_len s) buf) a = (q, c)" by fastforce
  have p: "sg_index s < length (ra_members a) div 2" using Cons.prems(4) by simp
  then obtain i where "i \<in> set (pair_list (sg_index s))" "i < length (ra_members a)" "whole (ra_members a ! i)"
    using healthy_intact_pair(1) [OF Cons.prems(2,3)] by blast
  then have h: "q = Inr ()" "steady a c" using healthy_mirror_write [OF Cons.prems(1) _ _ _ healthy_intact_pair(2) [OF Cons.prems(2,3) p] c] by auto
  have "raid10_pieces segs buf c = (r, b)" using Cons.prems(5) c h(1) by simp
  then have "r = Inr () \<and> steady c b"
    using Cons.IH [OF steady_healthy [OF h(2) Cons.prems(1)]] steady_intact [OF h(2)] steady_shape [OF h(2)] Cons.prems(2-4) by simp
  then show ?case using steady_trans [OF h(2)] by blast
qed simp

end
