(* ===== verification/RaidLive.thy ===== *)
theory RaidLive
  imports RaidHealthy
begin

text \<open>
  Availability of parity sets, and of the array as a whole: on drives that fail no call, an array
  whose data is intact answers every read, write and flush in its capacity with success.
\<close>

section \<open>The strips of a column\<close>

abbreviation put_strip :: "Geometry \<Rightarrow> nat \<Rightarrow> nat \<Rightarrow> bytes option \<Rightarrow> StripeStrips \<Rightarrow> StripeStrips" where
  "put_strip g s i b st \<equiv> (case role_of g s i of
     RoleData d \<Rightarrow> st\<lparr>ss_data := (ss_data st)[d := b]\<rparr> | RoleP \<Rightarrow> st\<lparr>ss_p := b\<rparr> | RoleQ \<Rightarrow> st\<lparr>ss_q := Some b\<rparr>)"

definition strips_shape :: "Geometry \<Rightarrow> StripeStrips \<Rightarrow> bool" where
  "strips_shape g st \<longleftrightarrow> length (ss_data st) = data_count g \<and> (ss_q st \<noteq> None \<longleftrightarrow> g_level g = Raid6)"

lemma role_of_inj:
  assumes "geometry_ok g" "is_parity g" "i < g_n g" "j < g_n g" "role_of g s i = role_of g s j"
  shows "i = j"
  using assms role_of_data_inverse [OF assms(1-3)] role_of_data_inverse [OF assms(1,2,4)] role_of_p [of g s] role_of_q [of g s]
  by (cases "role_of g s i") metis+

lemma put_strip_shape: "geometry_ok g \<Longrightarrow> is_parity g \<Longrightarrow> strips_shape g st \<Longrightarrow> strips_shape g (put_strip g s i b st)"
  using role_of_q [of g s i] by (auto simp: strips_shape_def split: StripRole.split)

lemma put_strip_get:
  assumes "geometry_ok g" "is_parity g" "i < g_n g" "j < g_n g" "strips_shape g st"
  shows "strip_for g s (put_strip g s i b st) j = (if i = j then b else strip_for g s st j)"
proof (cases "i = j")
  case True
  then show ?thesis
    using role_of_data_inverse [OF assms(1-3), of s] assms(5) by (auto simp: strip_for_def strips_shape_def split: StripRole.split)
next
  case False
  then have "role_of g s i \<noteq> role_of g s j" using role_of_inj [OF assms(1-4)] by blast
  then show ?thesis using False by (auto simp: strip_for_def nth_list_update split: StripRole.split)
qed

lemma column_strips_get:
  assumes "geometry_ok g" "is_parity g" "strips_shape g st" "distinct (map fst rs)" "\<forall>(i, r) \<in> set rs. i < g_n g \<and> \<not> isl r"
    and "column_strips g s rs st a = (st', b)"
  shows "b = a \<and> strips_shape g st' \<and> (\<forall>j < g_n g. strip_for g s st' j = (case map_of rs j of Some (Inr c) \<Rightarrow> c | _ \<Rightarrow> strip_for g s st j))"
  using assms(3-6)
proof (induction rs arbitrary: st)
  case (Cons x rs)
  obtain i r where x: "x = (i, r)" by fastforce
  obtain c where r: "r = Inr c" using Cons.prems(3) x by (cases r) auto
  have i: "i < g_n g" using Cons.prems(3) x by auto
  have "column_strips g s rs (put_strip g s i c st) a = (st', b)" using Cons.prems(4) x r by simp
  then have h: "b = a" "strips_shape g st'" "\<forall>j < g_n g. strip_for g s st' j = (case map_of rs j of Some (Inr c) \<Rightarrow> c | _ \<Rightarrow> strip_for g s (put_strip g s i c st) j)"
    using Cons.IH [OF put_strip_shape [OF assms(1,2) Cons.prems(1)]] Cons.prems(2,3) by auto
  have "map_of rs i = None" using Cons.prems(2) x by (simp add: map_of_eq_None_iff)
  then show ?case using h put_strip_get [OF assms(1,2) i _ Cons.prems(1), of _ s c] x r by (auto split: option.split sum.split)
qed simp

lemma lost_strips_slots:
  assumes "geometry_ok g" "is_parity g" "strips_shape g st"
  shows "lost_strips st \<le> card {j. j < g_n g \<and> strip_for g s st j = None}"
proof -
  let ?lost = "{j. j < g_n g \<and> strip_for g s st j = None}"
  define D where "D = {d. d < data_count g \<and> ss_data st ! d = None}"
  define P where "P = (if ss_p st = None then {p_member g s} else {})"
  define Q where "Q = (if ss_q st = Some None then {q_member g s} else {})"
  have inj: "inj_on (data_member g s) D"
    by (rule inj_on_inverseI [of _ "\<lambda>m. case role_of g s m of RoleData d \<Rightarrow> d | _ \<Rightarrow> 0"]) (simp add: D_def role_of_data_member [OF assms(1,2)])
  have rp: "role_of g s (p_member g s) = RoleP" by (simp add: role_of_p)
  have rq: "role_of g s (q_member g s) = RoleQ" if "g_level g = Raid6" using q_member_neq [OF assms(1), of s] that by (simp add: role_of_q)
  have r6: "g_level g = Raid6" if "ss_q st = Some None" using that assms(3) by (simp add: strips_shape_def)
  have disj: "data_member g s ` D \<inter> P = {}" "(data_member g s ` D \<union> P) \<inter> Q = {}"
    using role_of_data_member [OF assms(1,2), of _ s] rp rq r6 by (auto simp: D_def P_def Q_def split: if_splits)
  have "lost_strips st = card D + card P + card Q"
  proof -
    have "length (filter (\<lambda>d. d = None) (ss_data st)) = card D"
      using assms(3) by (simp add: length_filter_conv_card D_def strips_shape_def)
    then show ?thesis by (simp add: lost_strips_def P_def Q_def)
  qed
  also have "\<dots> = card (data_member g s ` D \<union> P \<union> Q)"
  proof -
    have fin: "finite (data_member g s ` D)" "finite P" "finite Q" by (simp_all add: D_def P_def Q_def)
    then have "card (data_member g s ` D \<union> P \<union> Q) = card (data_member g s ` D) + card P + card Q"
      using disj by (simp only: card_Un_disjoint finite_Un fin)
    then show ?thesis using card_image [OF inj] by simp
  qed
  also have "\<dots> \<le> card ?lost"
  proof (rule card_mono)
    have "data_member g s d \<in> ?lost" if "d \<in> D" for d
      using that role_of_data_member [OF assms(1,2), of d s] data_member_less [OF assms(1), of s d] by (simp add: D_def strip_for_def)
    then have "data_member g s ` D \<subseteq> ?lost" by (rule image_subsetI)
    moreover have "P \<subseteq> ?lost"
    proof -
      have "p_member g s < g_n g" by (rule p_member_less) (use geometry_n(1) [OF assms(1)] in simp)
      then show ?thesis using rp by (auto simp: P_def strip_for_def)
    qed
    moreover have "Q \<subseteq> ?lost"
    proof (cases "ss_q st = Some None")
      case True
      then show ?thesis using rq [OF r6 [OF True]] q_member_less [OF assms(1), of s] by (simp add: Q_def strip_for_def)
    qed (simp add: Q_def)
    ultimately show "data_member g s ` D \<union> P \<union> Q \<subseteq> ?lost" by (intro Un_least)
  qed simp
  finally show ?thesis .
qed

section \<open>Reading a column\<close>

lemma healthy_column_reads:
  "healthy a \<Longrightarrow> column_reads hs at len is a = (rs, b) \<Longrightarrow>
    steady a b \<and> map fst rs = is \<and> (\<forall>(i, r) \<in> set rs. \<not> isl r \<and> (hs ! i \<longrightarrow> (\<exists>c. r = Inr (Some c))))"
proof (induction "is" arbitrary: a rs)
  case (Cons i "is")
  obtain r c where r: "(if hs ! i then (case dev_read i at len a of (Inr b, a) \<Rightarrow> (Inr (Some b), a) | (Inl e, a) \<Rightarrow> (Inl e, a)) else (Inr None, a)) = (r, c)"
    by fastforce
  have h: "steady a c" "\<not> isl r" "hs ! i \<longrightarrow> (\<exists>d. r = Inr (Some d))"
    using r healthy_read [OF Cons.prems(1), of i at len] by (auto split: if_splits prod.splits sum.splits)
  obtain rs' where e: "column_reads hs at len is c = (rs', b)" "rs = (i, r) # rs'" using Cons.prems(2) r by (auto split: prod.splits)
  show ?case using Cons.IH [OF steady_healthy [OF h(1) Cons.prems(1)] e(1)] e(2) h steady_trans [OF h(1)] by auto
qed simp

lemma intact_lost:
  assumes "data_intact a" "is_parity (geometry a)"
  shows "card {i. i < length (ra_members a) \<and> \<not> ra_holders a e ! i} \<le> tolerated (geometry a)"
proof -
  have "card {i. i < length (ra_members a) \<and> \<not> ra_holders a e ! i} \<le> card {i. i < length (ra_members a) \<and> \<not> whole (ra_members a ! i)}"
    by (rule card_mono) (auto simp: holder_at whole_holds)
  also have "\<dots> = length (filter (\<lambda>m. \<not> whole m) (ra_members a))" by (simp add: length_filter_conv_card)
  also have "\<dots> \<le> tolerated (geometry a)" using assms by (cases "ra_level a") (auto simp: data_intact_def Let_def is_parity_def geometry_def)
  finally show ?thesis .
qed

lemma healthy_column:
  assumes "healthy a" "data_intact a" "geometry_ok (geometry a)" "is_parity (geometry a)" "read_column s lo len a = (st, b)"
  shows "steady a b" "\<And>e. recover level len st \<noteq> Some (Inl e)"
proof -
  let ?g = "geometry a" and ?hs = "ra_holders a ((s + 1) * ra_stripe_size a)"
  obtain rs c where r: "column_reads ?hs (RAID_DATA_OFFSET + s * ra_stripe_size a + lo) len [0..<length (ra_members a)] a = (rs, c)" by fastforce
  have h: "steady a c" "map fst rs = [0..<length (ra_members a)]" "\<forall>(i, r) \<in> set rs. \<not> isl r \<and> (?hs ! i \<longrightarrow> (\<exists>c. r = Inr (Some c)))"
    using healthy_column_reads [OF assms(1) r] by auto
  have st: "column_strips ?g s rs (no_strips ?g) c = (st, b)" using assms(5) r steady_shape(1) [OF h(1)] by (simp add: read_column_def)
  have n: "g_n ?g = length (ra_members a)" by (simp add: geometry_def)
  have ok: "\<forall>(i, r) \<in> set rs. i < g_n ?g \<and> \<not> isl r"
  proof (clarify)
    fix i r assume ir: "(i, r) \<in> set rs"
    then have "i \<in> set (map fst rs)" by force
    then show "i < g_n ?g \<and> \<not> isl r" using h(2,3) ir n by auto
  qed
  have "strips_shape ?g (no_strips ?g)" by (simp add: strips_shape_def no_strips_def)
  then have g: "b = c" "strips_shape ?g st" "\<forall>j < g_n ?g. strip_for ?g s st j = (case map_of rs j of Some (Inr c) \<Rightarrow> c | _ \<Rightarrow> strip_for ?g s (no_strips ?g) j)"
    using column_strips_get [OF assms(3,4) _ _ ok st] h(2) by simp_all
  show "steady a b" using g(1) h(1) by simp
  have "{j. j < g_n ?g \<and> strip_for ?g s st j = None} \<subseteq> {j. j < length (ra_members a) \<and> \<not> ?hs ! j}"
  proof (clarify)
    fix j assume j: "j < g_n ?g" "strip_for ?g s st j = None"
    have "j \<in> fst ` set rs" using h(2) j(1) n by (metis atLeast0LessThan lessThan_iff set_map set_upt)
    then obtain q where q: "map_of rs j = Some q" by (metis domD dom_map_of_conv_image_fst)
    then have "(j, q) \<in> set rs" by (rule map_of_SomeD)
    then have "?hs ! j \<longrightarrow> (\<exists>c. q = Inr (Some c))" using h(3) by auto
    then show "j < length (ra_members a) \<and> \<not> ?hs ! j" using g(3) j q n by auto
  qed
  note sub = this
  have "card {j. j < g_n ?g \<and> strip_for ?g s st j = None} \<le> card {j. j < length (ra_members a) \<and> \<not> ?hs ! j}" by (rule card_mono [OF _ sub]) simp
  then have "card {j. j < g_n ?g \<and> strip_for ?g s st j = None} \<le> tolerated ?g"
    using intact_lost [OF assms(2,4), of "(s + 1) * ra_stripe_size a"] by linarith
  then have "lost_strips st \<le> tolerated ?g" using lost_strips_slots [OF assms(3,4) g(2), of s] by linarith
  moreover have "tolerated ?g = (if ss_q st \<noteq> None then 2 else 1)"
    using g(2) assms(4) by (auto simp: strips_shape_def tolerated_def is_parity_def)
  ultimately show "recover level len st \<noteq> Some (Inl e)" for e
    by (auto simp: recover_def Let_def lost_strips_def lost_data_length Option.bind_eq_Some_conv split: if_splits)
qed

section \<open>Reads of parity sets\<close>

text \<open>An array that can serve every stripe.\<close>

definition serving :: "RaidArray \<Rightarrow> bool" where
  "serving a \<longleftrightarrow> healthy a \<and> data_intact a \<and> geometry_ok (geometry a) \<and> is_parity (geometry a) \<and> \<not> ra_released a"

lemma serving_steady: "serving a \<Longrightarrow> steady a b \<Longrightarrow> serving b"
  using steady_healthy [of a b] steady_intact [of a b] steady_shape [of a b] by (simp add: serving_def)

lemma healthy_piece_reads:
  "healthy a \<Longrightarrow> length hss = length segs \<Longrightarrow> piece_reads segs hss a = (rs, b) \<Longrightarrow>
    steady a b \<and> length rs = length segs \<and> (\<forall>r \<in> set rs. \<forall>m. r \<noteq> Inl (Some m))"
proof (induction segs hss a arbitrary: rs rule: piece_reads.induct)
  case (1 s segs hs hss a)
  define m where "m = data_member (geometry a) (sg_stripe s) (sg_index s)"
  obtain r c where r: "(if hs ! m
            then (case dev_read m (RAID_DATA_OFFSET + sg_stripe s * ra_stripe_size a + sg_offset_in_unit s) (sg_len s) a of
                    (Inr b, a) \<Rightarrow> (Inr b, a) | (Inl e, a) \<Rightarrow> (Inl (Some m), a))
            else (Inl None, a)) = (r, c)" by fastforce
  have h: "steady a c" "\<forall>m. r \<noteq> Inl (Some m)"
    using r healthy_read [OF 1(2), of m] by (auto split: if_splits prod.splits sum.splits)
  obtain rs' where e: "piece_reads segs hss c = (rs', b)" "rs = r # rs'" using 1(4) unfolding piece_reads.simps Let_def m_def [symmetric] r by (auto split: prod.splits)
  have "steady c b \<and> length rs' = length segs \<and> (\<forall>r \<in> set rs'. \<forall>m. r \<noteq> Inl (Some m))"
    using 1(1) [OF m_def r [symmetric]] steady_healthy [OF h(1) 1(2)] 1(3) e(1) by simp
  then show ?case using e(2) h steady_trans [OF h(1)] by auto
qed auto

lemma serving_degraded:
  assumes "serving a" "degraded_piece s a = Some (r, b)"
  shows "(\<exists>bs. r = Inr bs) \<and> steady a b"
proof -
  obtain st c where c: "read_column (sg_stripe s) (sg_offset_in_unit s) (sg_len s) a = (st, c)" by fastforce
  have h: "steady a c" "\<And>e. recover (ra_engine c) (sg_len s) st \<noteq> Some (Inl e)"
    using healthy_column [OF _ _ _ _ c] assms(1) by (simp_all add: serving_def)
  then show ?thesis using assms(2) c by (auto simp: degraded_piece_def split: option.splits sum.splits)
qed

lemma serving_finish_pieces:
  "serving a \<Longrightarrow> \<forall>r \<in> set rs. \<forall>m. r \<noteq> Inl (Some m) \<Longrightarrow> finish_pieces segs rs a = Some (q, b) \<Longrightarrow> (\<exists>bs. q = Inr bs) \<and> steady a b"
proof (induction segs rs a arbitrary: q rule: finish_pieces.induct)
  case (1 s segs r rs a)
  have "\<exists>bs c. (case r of Inr b \<Rightarrow> Some (Inr b, a) | Inl why \<Rightarrow> degraded_piece s (case why of Some m \<Rightarrow> snd (fail_member m a) | None \<Rightarrow> a))
      = Some (Inr bs, c) \<and> steady a c"
  proof (cases r)
    case (Inl why)
    then have w: "why = None" using 1(3) by (cases why) auto
    then obtain r' c where c: "degraded_piece s a = Some (r', c)" using 1(4) Inl by (auto simp: then_res_def split: option.splits)
    then show ?thesis using serving_degraded [OF 1(2) c] Inl w by auto
  qed auto
  then obtain bs c where c: "(case r of Inr b \<Rightarrow> Some (Inr b, a) | Inl why \<Rightarrow> degraded_piece s (case why of Some m \<Rightarrow> snd (fail_member m a) | None \<Rightarrow> a))
      = Some (Inr bs, c)" "steady a c" by blast
  obtain q' where e: "finish_pieces segs rs c = Some (q', b)" "q = (case q' of Inl e \<Rightarrow> Inl e | Inr rest \<Rightarrow> Inr (bs @ rest))"
    using 1(4) c(1) by (auto simp: then_res_def split: option.splits sum.splits)
  have "(\<exists>bs. q' = Inr bs) \<and> steady c b" using 1(1) [OF serving_steady [OF 1(2) c(2)] _ e(1)] 1(3) by simp
  then show ?case using e(2) steady_trans [OF c(2)] by auto
qed auto

section \<open>Writes of parity sets\<close>

lemma serving_do_writes:
  "serving a \<Longrightarrow> hs = ra_holders a e \<Longrightarrow> \<forall>(m, at, bs) \<in> set ws. m < length (ra_members a) \<Longrightarrow> do_writes hs ws a = (rs, b) \<Longrightarrow> good rs \<and> steady a b"
proof (induction ws arbitrary: a rs)
  case (Cons w ws)
  obtain m at bs where w: "w = (m, at, bs)" by (cases w)
  have m: "m < length (ra_members a)" using Cons.prems(3) w by auto
  show ?case
  proof (cases "hs ! m")
    case True
    then have "has_device a m" using Cons.prems(2) m by (simp add: holder_at holds_def has_device_def)
    obtain r c where c: "dev_write m at bs a = (r, c)" by fastforce
    have h: "r = Inr ()" "steady a c" using healthy_write [OF _ \<open>has_device a m\<close> c] Cons.prems(1) by (simp_all add: serving_def)
    obtain rs' where e: "do_writes hs ws c = (rs', b)" "rs = (m, r) # rs'" using Cons.prems(4) c w True by (auto split: prod.splits)
    have "good rs' \<and> steady c b"
      using Cons.IH [OF serving_steady [OF Cons.prems(1) h(2)] _ _ e(1)] steady_holders [OF h(2)] steady_shape(5) [OF h(2)] Cons.prems(2,3) by simp
    then show ?thesis using e(2) h(1) steady_trans [OF h(2)] by auto
  next
    case False
    then show ?thesis using Cons.IH [OF Cons.prems(1,2)] Cons.prems(3,4) w by simp
  qed
qed simp

lemma serving_issue:
  assumes "serving a" "hs = ra_holders a e" "\<forall>(m, at, bs) \<in> set ws. m < length (ra_members a)" "issue_writes hs ws a = (r, b)"
  shows "r = Inr () \<and> steady a b"
proof -
  obtain rs c where c: "do_writes hs ws a = (rs, c)" by fastforce
  have h: "good rs" "steady a c" using serving_do_writes [OF assms(1-3) c] by auto
  have "\<not> ra_released a" using assms(1) by (simp add: serving_def)
  then show ?thesis using assms(4) c h settle_good [OF h(1), of c] by (simp add: issue_writes_def)
qed

lemma serving_check: "serving a \<Longrightarrow> check_after_write a = (Inr (), a)"
  by (simp add: check_after_write_def serving_def)

lemma members_of_writes:
  assumes "serving a"
  shows "data_member (geometry a) s d < length (ra_members a)" "\<forall>(m, at', bs) \<in> set (parity_writes a s at pq). m < length (ra_members a)"
proof -
  have g: "geometry_ok (geometry a)" "g_n (geometry a) = length (ra_members a)" using assms by (simp_all add: serving_def geometry_def)
  show "data_member (geometry a) s d < length (ra_members a)" using data_member_less [OF g(1)] g(2) by simp
  have "p_member (geometry a) s < length (ra_members a)" using p_member_less [OF geometry_n(1) [OF g(1)]] g(2) by simp
  moreover have "q_member (geometry a) s < length (ra_members a)" using q_member_less [OF g(1)] g(2) by simp
  ultimately show "\<forall>(m, at', bs) \<in> set (parity_writes a s at pq). m < length (ra_members a)" by (auto simp: parity_writes_def)
qed

lemma serving_rmw_piece:
  assumes "serving a" "hs = ra_holders a e" "rmw_piece hs s buf a = Some (r, b)"
  shows "r = Inr (Some ()) \<and> steady a b"
proof -
  let ?g = "geometry a" and ?at = "stripe_base a (sg_stripe s) + sg_offset_in_unit s"
  let ?m = "data_member ?g (sg_stripe s) (sg_index s)"
  have healthy: "healthy a" using assms(1) by (simp add: serving_def)
  obtain old c where c: "dev_read ?m ?at (sg_len s) a = (Inr old, c)" "steady a c"
    using healthy_read [OF healthy, of ?m ?at "sg_len s"] by (cases "dev_read ?m ?at (sg_len s) a") auto
  obtain p d where d: "dev_read (p_member ?g (sg_stripe s)) ?at (sg_len s) c = (Inr p, d)" "steady c d"
    using healthy_read [OF steady_healthy [OF c(2) healthy], of "p_member ?g (sg_stripe s)" ?at "sg_len s"] by (cases "dev_read (p_member ?g (sg_stripe s)) ?at (sg_len s) c") auto
  have ad: "steady a d" by (rule steady_trans [OF c(2) d(2)])
  obtain q f where f: "(if ra_level d = Raid6 then dev_read (q_member ?g (sg_stripe s)) ?at (sg_len s) d else (Inr (zero_buf (sg_len s)), d)) = (Inr q, f)" "steady d f"
    using healthy_read [OF steady_healthy [OF ad healthy], of "q_member ?g (sg_stripe s)" ?at "sg_len s"]
    by (cases "dev_read (q_member ?g (sg_stripe s)) ?at (sg_len s) d"; cases "ra_level d = Raid6") auto
  have af: "steady a f" by (rule steady_trans [OF ad f(2)])
  have gf: "geometry f = ?g" using steady_shape [OF af] by simp
  obtain p' q' where i: "(case issue_writes hs ((?m, ?at, seg_data buf s) # parity_writes f (sg_stripe s) ?at (p', q')) f of
      (Inl e, a) \<Rightarrow> Some (Inl e, a) | (Inr _, a) \<Rightarrow> Some (Inr (Some ()), a)) = Some (r, b)"
    using assms(3) c(1) d(1) f(1) by (auto simp: rmw_piece_def Let_def split: option.splits)
  obtain w k where k: "issue_writes hs ((?m, ?at, seg_data buf s) # parity_writes f (sg_stripe s) ?at (p', q')) f = (w, k)" by fastforce
  note sf = serving_steady [OF assms(1) af]
  have "w = Inr () \<and> steady f k"
    by (rule serving_issue [OF sf _ _ k]) (use assms(2) steady_holders [OF af] members_of_writes [OF sf] gf in auto)
  then show ?thesis using i k steady_trans [OF af] by auto
qed

lemma serving_rmw_pieces:
  "serving a \<Longrightarrow> hs = ra_holders a e \<Longrightarrow> rmw_pieces hs segs buf a = Some (r, b) \<Longrightarrow> r = Inr (Some ()) \<and> steady a b"
proof (induction segs arbitrary: a)
  case (Cons s segs)
  obtain q c where c: "rmw_piece hs s buf a = Some (q, c)" using Cons.prems(3) by (auto simp: then_res_def split: option.splits)
  have h: "q = Inr (Some ())" "steady a c" using serving_rmw_piece [OF Cons.prems(1,2) c] by auto
  have "rmw_pieces hs segs buf c = Some (r, b)" using Cons.prems(3) c h(1) by (simp add: then_res_def)
  then have "r = Inr (Some ()) \<and> steady c b" using Cons.IH [OF serving_steady [OF Cons.prems(1) h(2)]] steady_holders [OF h(2)] Cons.prems(2) by simp
  then show ?case using steady_trans [OF h(2)] by blast
qed auto

lemma serving_reconstruct:
  assumes "serving a" "reconstruct_writes segs buf a = Some (r, b)"
  shows "\<exists>ws. r = Inr ws \<and> steady a b \<and> (\<forall>(m, at, bs) \<in> set ws. m < length (ra_members a))"
proof -
  let ?s = "sg_stripe (hd segs)" and ?lo = "column_lo segs" and ?len = "column_hi segs - column_lo segs"
  obtain st c where c: "read_column ?s ?lo ?len a = (st, c)" by fastforce
  have h: "steady a c" "\<And>e. recover (ra_engine c) ?len st \<noteq> Some (Inl e)"
    using healthy_column [OF _ _ _ _ c] assms(1) by (simp_all add: serving_def)
  obtain D at pq where ws: "b = c" "r = Inr (map (\<lambda>s. (data_member (geometry c) ?s (sg_index s), at, D ! sg_index s)) segs @ parity_writes c ?s at pq)"
    using assms(2) c h(2) by (auto simp: reconstruct_writes_def Let_def split: option.splits sum.splits)
  note m = members_of_writes [OF serving_steady [OF assms(1) h(1)]]
  have "\<forall>(m, at', bs) \<in> set (map (\<lambda>s. (data_member (geometry c) ?s (sg_index s), at, D ! sg_index s)) segs @ parity_writes c ?s at pq). m < length (ra_members c)"
    using m(1) m(2) [of ?s at pq] by auto
  then show ?thesis using ws h(1) steady_shape(5) [OF h(1)] by simp
qed

lemma serving_write_then_check:
  assumes "serving a" "hs = ra_holders a e" "\<forall>(m, at, bs) \<in> set ws. m < length (ra_members a)"
    and "then_res (Some (issue_writes hs ws a)) (\<lambda>_ a. Some (check_after_write a)) = Some (r, b)"
  shows "r = Inr () \<and> steady a b"
proof -
  obtain q c where c: "issue_writes hs ws a = (q, c)" by fastforce
  have h: "q = Inr ()" "steady a c" using serving_issue [OF assms(1-3) c] by auto
  then show ?thesis using assms(4) c serving_check [OF serving_steady [OF assms(1) h(2)]] by (simp add: then_res_def)
qed

lemma serving_stripe:
  assumes "serving a" "stripe_attempts (Suc n) segs buf a = Some (r, b)"
  shows "r = Inr () \<and> steady a b"
proof -
  let ?s = "sg_stripe (hd segs)" and ?hs = "ra_holders a ((sg_stripe (hd segs) + 1) * ra_stripe_size a)"
  consider (full) ws where "full_writes a segs buf = Some ws" "then_res (Some (issue_writes ?hs ws a)) (\<lambda>_ a. Some (check_after_write a)) = Some (r, b)"
    | (rmw) "then_res (rmw_pieces ?hs segs buf a) (\<lambda>r a. if r = None then stripe_attempts n segs buf a else Some (check_after_write a)) = Some (r, b)"
    | (recon) "then_res (reconstruct_writes segs buf a) (\<lambda>ws a. then_res (Some (issue_writes ?hs ws a)) (\<lambda>_ a. Some (check_after_write a))) = Some (r, b)"
    using assms(2) by (auto simp: Let_def split: if_splits option.splits)
  then show ?thesis
  proof cases
    case full
    have "\<forall>(m, at, bs) \<in> set ws. m < length (ra_members a)"
      using full(1) members_of_writes [OF assms(1)] by (fastforce simp: full_writes_def Let_def split: option.splits)
    from serving_write_then_check [OF assms(1) refl this full(2)] show ?thesis .
  next
    case rmw
    obtain q c where c: "rmw_pieces ?hs segs buf a = Some (q, c)" using rmw by (auto simp: then_res_def split: option.splits)
    have h: "q = Inr (Some ())" "steady a c" using serving_rmw_pieces [OF assms(1) refl c] by auto
    then show ?thesis using rmw c serving_check [OF serving_steady [OF assms(1) h(2)]] by (simp add: then_res_def)
  next
    case recon
    obtain q c where c: "reconstruct_writes segs buf a = Some (q, c)" using recon by (auto simp: then_res_def split: option.splits)
    obtain ws where h: "q = Inr ws" "steady a c" "\<forall>(m, at, bs) \<in> set ws. m < length (ra_members a)" using serving_reconstruct [OF assms(1) c] by blast
    have w: "then_res (Some (issue_writes ?hs ws c)) (\<lambda>_ a. Some (check_after_write a)) = Some (r, b)" using recon c h(1) by (simp add: then_res_def)
    have "r = Inr () \<and> steady c b"
      by (rule serving_write_then_check [OF serving_steady [OF assms(1) h(2)] _ _ w]) (use steady_holders [OF h(2)] steady_shape(5) [OF h(2)] h(3) in auto)
    then show ?thesis using steady_trans [OF h(2)] by blast
  qed
qed

lemma serving_groups: "serving a \<Longrightarrow> write_groups gs buf None a = Some (r, b) \<Longrightarrow> r = Inr () \<and> steady a b"
proof (induction gs arbitrary: a)
  case (Cons grp gs)
  obtain q c where c: "parity_write_stripe grp buf a = Some (q, c)" using Cons.prems(2) by (auto split: option.splits)
  have h: "q = Inr ()" "steady a c" using serving_stripe [OF Cons.prems(1), of 2 grp buf q c] c by (simp_all add: parity_write_stripe_def numeral_3_eq_3)
  have "write_groups gs buf None c = Some (r, b)" using Cons.prems(2) c h(1) by simp
  then show ?case using Cons.IH [OF serving_steady [OF Cons.prems(1) h(2)]] steady_trans [OF h(2)] by blast
qed simp

section \<open>The array\<close>

definition available :: "RaidArray \<Rightarrow> bool" where
  "available a \<longleftrightarrow> ra_wf a \<and> healthy a \<and> data_intact a \<and> \<not> ra_released a"

lemma available_attached:
  assumes "available a"
  shows "attached_devices a \<noteq> []"
proof -
  have a: "data_intact a" "geometry_ok (geometry a)" using assms by (simp_all add: available_def ra_wf_def)
  have "\<exists>i < length (ra_members a). whole (ra_members a ! i)"
  proof (rule ccontr)
    assume none: "\<not> ?thesis"
    then have "filter (\<lambda>m. \<not> whole m) (ra_members a) = ra_members a" by (auto simp: filter_id_conv in_set_conv_nth)
    note all = this
    show False
    proof (cases "ra_level a = Raid10")
      case True
      then have two: "0 < length (ra_members a) div 2" using a(2) by (simp add: geometry_def geometry_ok_def min_members_def)
      have "\<forall>p < length (ra_members a) div 2. whole (ra_members a ! (2 * p)) \<or> whole (ra_members a ! (2 * p + 1))"
        using a(1) True by (simp add: data_intact_def Let_def list_all_iff)
      from spec [OF this, of 0] have "whole (ra_members a ! 0) \<or> whole (ra_members a ! 1)" using two by simp
      moreover have "0 < length (ra_members a)" "1 < length (ra_members a)" using two by auto
      ultimately show False using none by blast
    next
      case False
      then show False
        using a none all by (cases "ra_level a") (auto simp: data_intact_def Let_def list_ex_iff in_set_conv_nth geometry_def geometry_ok_def min_members_def tolerated_def)
    qed
  qed
  then obtain i where "i < length (ra_members a)" "attached (ra_members a ! i)" by (auto simp: whole_def attached_def)
  then have "i \<in> set (attached_devices a)" by (simp add: attached_devices_def)
  then show ?thesis by auto
qed

lemma available_serving: "available a \<Longrightarrow> is_parity (geometry a) \<Longrightarrow> serving a"
  by (simp add: available_def serving_def ra_wf_def)

lemma healthy_finish: "healthy a \<Longrightarrow> finish_write r (q, a) = Some (q', b) \<Longrightarrow> q' = q \<and> steady a b"
  "healthy a \<Longrightarrow> finish_read (p, a) = Some (p', b) \<Longrightarrow> p' = p \<and> steady a b"
  using healthy_persist [of "a\<lparr>ra_bitmap := ib_end (ra_now a) r (ra_bitmap a)\<rparr>"] healthy_persist [of a] by (auto simp: finish_write_def finish_read_def)

lemma available_read:
  assumes "available a" "offset + len \<le> ra_capacity a" "array_read offset len a = Some (r, b)"
  shows "(\<exists>bs. r = Inr bs) \<and> steady a b"
proof -
  have a: "healthy a" "data_intact a" "geometry_ok (geometry a)" using assms(1) by (simp_all add: available_def ra_wf_def)
  have fin: "(\<exists>bs. r = Inr bs) \<and> steady a b" if "finish_read (q, c) = Some (r, b)" "\<exists>bs. q = Inr bs" "steady a c" for q c
    using healthy_finish(2) [OF steady_healthy [OF that(3) a(1)] that(1)] that(2) steady_trans [OF that(3)] by auto
  consider (m) "ra_level a = Raid1" | (t) "ra_level a = Raid10" | (p) "is_parity (geometry a)" "array_read offset len a = parity_read offset len a"
    using assms(2) by (cases "ra_level a") (simp_all add: is_parity_def geometry_def array_read_def)
  then show ?thesis
  proof cases
    case m
    obtain i where i: "i < length (ra_members a)" "whole (ra_members a ! i)" using a(2) m by (auto simp: data_intact_def Let_def list_ex_iff in_set_conv_nth)
    obtain q c where c: "mirror_read_at (all_slots a) offset len a = (q, c)" by fastforce
    have "(\<exists>bs. q = Inr bs) \<and> steady a c" by (rule healthy_mirror_read [OF a(1) _ i c]) (use i in \<open>simp add: all_slots_def\<close>)
    then show ?thesis using fin [of q c] assms(2,3) c m by (simp add: array_read_def raid1_read_def)
  next
    case t
    obtain segs where segs: "segments (geometry a) offset len = Some segs" "\<forall>s \<in> set segs. seg_ok (geometry a) offset s" using segments_spec [OF a(3)] by blast
    have ix: "\<forall>s \<in> set segs. sg_index s < length (ra_members a) div 2" using segs(2) t by (auto simp: seg_ok_def data_count_def geometry_def)
    obtain q c where c: "raid10_reads segs a = (q, c)" by fastforce
    show ?thesis using fin [of q c] healthy_raid10_reads [OF a(1,2) t ix c] assms(2,3) c t segs(1) by (simp add: array_read_def raid10_read_def)
  next
    case p
    obtain segs where segs: "segments (geometry a) offset len = Some segs" using segments_spec [OF a(3)] by blast
    let ?hss = "map (\<lambda>s. ra_holders a ((sg_stripe s + 1) * ra_stripe_size a)) segs"
    obtain rs c where c: "piece_reads segs ?hss a = (rs, c)" by fastforce
    have h: "steady a c" "\<forall>r \<in> set rs. \<forall>m. r \<noteq> Inl (Some m)" using healthy_piece_reads [OF a(1) _ c] by auto
    obtain q d where d: "finish_pieces segs rs c = Some (q, d)" "finish_read (q, d) = Some (r, b)"
      using assms(3) p(2) segs c by (auto simp: parity_read_def split: option.splits)
    have "(\<exists>bs. q = Inr bs) \<and> steady c d" using serving_finish_pieces [OF serving_steady [OF available_serving [OF assms(1) p(1)] h(1)] h(2) d(1)] .
    then show ?thesis using fin [OF d(2)] steady_trans [OF h(1)] by blast
  qed
qed

text \<open>A write: the marks, the write itself, the end of the marks.\<close>

lemma available_wrapped:
  assumes "available a" "then_res (intent_begin r a) (\<lambda>_ a. case f a of None \<Rightarrow> None | Some ra \<Rightarrow> finish_write r ra) = Some (q, b)"
    and "\<And>c p d. steady a c \<Longrightarrow> f c = Some (p, d) \<Longrightarrow> p = Inr () \<and> steady c d"
  shows "q = Inr () \<and> steady a b"
proof -
  have healthy: "healthy a" using assms(1) by (simp add: available_def)
  obtain u c where c: "intent_begin r a = Some (u, c)" using assms(2) by (auto simp: then_res_def split: option.splits)
  have h: "u = Inr ()" "steady a c" using healthy_intent [OF healthy available_attached [OF assms(1)] c] by auto
  obtain p d where d: "f c = Some (p, d)" "finish_write r (p, d) = Some (q, b)" using assms(2) c h(1) by (auto simp: then_res_def split: option.splits)
  have p: "p = Inr ()" "steady c d" using assms(3) [OF h(2) d(1)] by auto
  have ad: "steady a d" by (rule steady_trans [OF h(2) p(2)])
  show ?thesis using healthy_finish(1) [OF steady_healthy [OF ad healthy] d(2)] p(1) steady_trans [OF ad] by auto
qed

lemma available_write:
  assumes "available a" "offset + length buf \<le> ra_capacity a" "array_write offset buf a = Some (r, b)"
  shows "r = Inr () \<and> steady a b"
proof -
  have a: "healthy a" "data_intact a" "geometry_ok (geometry a)" "\<not> ra_released a" using assms(1) by (simp_all add: available_def ra_wf_def)
  consider (m) "ra_level a = Raid1" | (t) "ra_level a = Raid10" | (p) "is_parity (geometry a)" "array_write offset buf a = parity_write offset buf a"
    using assms(2) a(4) by (cases "ra_level a") (simp_all add: is_parity_def geometry_def array_write_def)
  then show ?thesis
  proof cases
    case m
    obtain i where i: "i < length (ra_members a)" "whole (ra_members a ! i)" using a(2) m by (auto simp: data_intact_def Let_def list_ex_iff in_set_conv_nth)
    let ?r = "ib_chunks (ra_bitmap a) offset (length buf)"
    have w: "then_res (intent_begin ?r a) (\<lambda>_ a. case Some (mirror_write_at (all_slots a) offset buf a) of None \<Rightarrow> None | Some ra \<Rightarrow> finish_write ?r ra) = Some (r, b)"
      using assms(2,3) m a(4) by (simp add: array_write_def raid1_write_def Let_def)
    show ?thesis
    proof (rule available_wrapped [OF assms(1) w])
      fix c p d assume c: "steady a c" "Some (mirror_write_at (all_slots c) offset buf c) = Some (p, d)"
      then show "p = Inr () \<and> steady c d"
        using healthy_mirror_write [OF steady_healthy [OF c(1) a(1)], of i "all_slots c" offset buf p d] i steady_whole [OF c(1) i(1)] steady_shape(5) [OF c(1)]
        by (simp add: all_slots_def)
    qed
  next
    case t
    obtain segs where segs: "segments (geometry a) offset (length buf) = Some segs" "\<forall>s \<in> set segs. seg_ok (geometry a) offset s" using segments_spec [OF a(3)] by blast
    have ix: "\<forall>s \<in> set segs. sg_index s < length (ra_members a) div 2" using segs(2) t by (auto simp: seg_ok_def data_count_def geometry_def)
    let ?r = "stripe_chunks segs a"
    have w: "then_res (intent_begin ?r a) (\<lambda>_ a. case Some (raid10_pieces segs buf a) of None \<Rightarrow> None | Some ra \<Rightarrow> finish_write ?r ra) = Some (r, b)"
      using assms(2,3) t a(4) segs(1) by (simp add: array_write_def raid10_write_def Let_def)
    show ?thesis
    proof (rule available_wrapped [OF assms(1) w])
      fix c p d assume c: "steady a c" "Some (raid10_pieces segs buf c) = Some (p, d)"
      then show "p = Inr () \<and> steady c d"
        using healthy_raid10_pieces [OF steady_healthy [OF c(1) a(1)], of segs buf p d] steady_intact [OF c(1)] a(2) steady_shape [OF c(1)] t ix by simp
    qed
  next
    case p
    obtain segs where segs: "segments (geometry a) offset (length buf) = Some segs" using segments_spec [OF a(3)] by blast
    show ?thesis
    proof (cases "segs = []")
      case True
      then show ?thesis using assms(3) p(2) segs by (simp add: parity_write_def)
    next
      case False
      let ?r = "stripe_chunks segs a"
      have w: "then_res (intent_begin ?r a) (\<lambda>_ a. case write_groups (stripe_groups segs) buf None a of None \<Rightarrow> None | Some ra \<Rightarrow> finish_write ?r ra) = Some (r, b)"
        using assms(3) p(2) segs False by (simp add: parity_write_def Let_def)
      show ?thesis
        by (rule available_wrapped [OF assms(1) w]) (use serving_groups serving_steady [OF available_serving [OF assms(1) p(1)]] in blast)
    qed
  qed
qed

lemma healthy_flush_each: "healthy a \<Longrightarrow> flush_each is a = (rs, b) \<Longrightarrow> good rs \<and> steady a b"
proof (induction "is" arbitrary: a rs)
  case (Cons i "is")
  obtain r c where c: "dev_flush i a = (r, c)" by fastforce
  have h: "r = Inr ()" "steady a c" using healthy_flush [OF Cons.prems(1) c] by auto
  obtain rs' where e: "flush_each is c = (rs', b)" "rs = (i, r) # rs'" using Cons.prems(2) c by (auto split: prod.splits)
  show ?case using Cons.IH [OF steady_healthy [OF h(2) Cons.prems(1)] e(1)] e(2) h(1) steady_trans [OF h(2)] by auto
qed simp

lemma available_flush:
  assumes "available a" "array_flush before a = Some (r, b)"
  shows "r = Inr () \<and> steady a b"
proof -
  have a: "healthy a" "data_intact a" "\<not> ra_released a" using assms(1) by (simp_all add: available_def)
  obtain rs c where c: "flush_each (attached_devices a) a = (rs, c)" by fastforce
  have h: "good rs" "steady a c" using healthy_flush_each [OF a(1) c] by auto
  have f: "flush_members a = (Inr (), c)" using c settle_good [OF h(1), of c] steady_intact [OF h(2)] a(2) by (simp add: flush_members_def)
  define d where "d = (case before of None \<Rightarrow> c | Some t \<Rightarrow> if keeps_bitmap c then c
      else (case ib_clear_idle t (ra_bitmap c) of (n, m) \<Rightarrow> let c = c\<lparr>ra_bitmap := m\<rparr> in if n > 0 then snd (write_bitmap_pages c) else c))"
  have "steady c (snd (write_bitmap_pages (c\<lparr>ra_bitmap := m\<rparr>)))" for m
    using healthy_bitmap_pages [of "c\<lparr>ra_bitmap := m\<rparr>" "fst (write_bitmap_pages (c\<lparr>ra_bitmap := m\<rparr>))" "snd (write_bitmap_pages (c\<lparr>ra_bitmap := m\<rparr>))"]
      steady_healthy [OF h(2) a(1)] steady_attached [OF h(2)] available_attached [OF assms(1)] by (simp add: attached_devices_def)
  then have d: "steady c d" by (auto simp: d_def Let_def split: option.split prod.split)
  have "array_flush before a = map_option (Pair (Inr ())) (persist_if_dirty d)" using a(3) f by (cases before) (simp_all add: array_flush_def d_def)
  then have p: "persist_if_dirty d = Some b" "r = Inr ()" using assms(2) by (cases "persist_if_dirty d"; simp)+
  have "steady d b" by (rule healthy_persist [OF steady_healthy [OF d steady_healthy [OF h(2) a(1)]] p(1)])
  then show ?thesis using p(2) steady_trans [OF h(2) steady_trans [OF d]] by blast
qed

definition op_fits :: "nat \<Rightarrow> array_op \<Rightarrow> bool" where
  "op_fits cap x = (case x of OpRead offset len \<Rightarrow> offset + len \<le> cap | OpWrite offset buf \<Rightarrow> offset + length buf \<le> cap | OpFlush _ \<Rightarrow> True)"

lemma steady_capacity: "steady a b \<Longrightarrow> ra_capacity b = ra_capacity a"
  using steady_shape(1,4) [of a b] by (simp add: ra_capacity_def)

lemma available_step:
  assumes "available a" "op_fits (ra_capacity a) x" "array_step x a = Some (r, b)"
  shows "(\<forall>e. r \<noteq> GotError e) \<and> steady a b"
proof (cases x)
  case (OpRead offset len)
  then obtain q where q: "array_read offset len a = Some (q, b)" "r = case_sum GotError GotBytes q" using assms(3) by (auto simp: array_step_def)
  then show ?thesis using available_read [OF assms(1) _ q(1)] assms(2) OpRead by (auto simp: op_fits_def)
next
  case (OpWrite offset buf)
  then obtain q where q: "array_write offset buf a = Some (q, b)" "r = case_sum GotError (\<lambda>_. GotDone) q" using assms(3) by (auto simp: array_step_def)
  then show ?thesis using available_write [OF assms(1) _ q(1)] assms(2) OpWrite by (auto simp: op_fits_def)
next
  case (OpFlush before)
  then obtain q where q: "array_flush before a = Some (q, b)" "r = case_sum GotError (\<lambda>_. GotDone) q" using assms(3) by (auto simp: array_step_def)
  then show ?thesis using available_flush [OF assms(1) q(1)] by auto
qed

text \<open>The store without its errors.\<close>

definition sure_step :: "Geometry \<Rightarrow> store \<Rightarrow> array_op \<Rightarrow> array_reply \<Rightarrow> store \<Rightarrow> bool" where
  "sure_step g s x r s' \<longleftrightarrow> store_step g s x r s' \<and> (\<forall>e. r \<noteq> GotError e)"

definition live_rel :: "Geometry \<Rightarrow> nat \<Rightarrow> RaidArray \<Rightarrow> store \<Rightarrow> bool" where
  "live_rel g cap a s \<longleftrightarrow> store_rel g a s \<and> available a \<and> ra_capacity a = cap"

interpretation live_store: guarded_simulation "\<lambda>x _. op_fits cap x" array_step "sure_step g" "live_rel g cap" for g cap
proof unfold_locales
  fix a s x
  assume rel: "live_rel g cap a s" and fits: "op_fits cap x"
  have a: "store_rel g a s" "available a" "ra_capacity a = cap" using rel by (simp_all add: live_rel_def)
  obtain r b s' where b: "array_step x a = Some (r, b)" "store_step g s x r s'" "store_rel g b s'" using array_step_sim [OF a(1)] by blast
  have st: "\<forall>e. r \<noteq> GotError e" "steady a b" using available_step [OF a(2) _ b(1)] fits a(3) by auto
  have "available b"
    using a(2) b(3) steady_healthy [OF st(2)] steady_intact [OF st(2)] steady_shape(6) [OF st(2)] by (simp add: available_def store_rel_def)
  then show "\<exists>r b s'. array_step x a = Some (r, b) \<and> sure_step g s x r s' \<and> live_rel g cap b s'"
    using b st steady_capacity [OF st(2)] a(3) by (auto simp: sure_step_def live_rel_def)
qed

lemma op_fits_allowed: "\<forall>x \<in> set ops. op_fits cap x \<Longrightarrow> allowed_run (\<lambda>x _. op_fits cap x) step ops a"
  by (induction ops arbitrary: a) (auto split: option.split)

lemma sure_run: "spec_run (sure_step g) s ops replies s' \<Longrightarrow> spec_run (store_step g) s ops replies s' \<and> (\<forall>r \<in> set replies. \<forall>e. r \<noteq> GotError e)"
  by (induction rule: spec_run.induct) (auto simp: sure_step_def intro: spec_run.intros)

text \<open>C4. A degraded array serves. While its data is intact (no more members are gone, failed or
  still being rebuilt than its level tolerates) and its drives fail no call, every read and write in
  its capacity and every flush answers success, for ever: none is refused, and the bytes read are
  those last written. A member being rebuilt never makes the array less available than without it.\<close>

theorem degraded_array_serves:
  assumes "ra_wf a" "healthy a" "data_intact a" "\<not> ra_released a" "agree a L (rows (geometry a) T)" "\<forall>x \<in> set ops. op_fits (ra_capacity a) x"
  shows "\<exists>replies b s. run_ops array_step ops a = Some (replies, b) \<and> (\<forall>r \<in> set replies. \<forall>e. r \<noteq> GotError e) \<and>
    spec_run (store_step (geometry a)) \<lparr>st_image = L, st_trusted = T\<rparr> ops replies s \<and> data_intact b"
proof -
  have "live_rel (geometry a) (ra_capacity a) a \<lparr>st_image = L, st_trusted = T\<rparr>" using assms(1-5) by (simp add: live_rel_def store_rel_def available_def)
  from live_store.guarded_run [OF this op_fits_allowed [OF assms(6)]] show ?thesis
    using sure_run by (fastforce simp: live_rel_def available_def)
qed

text \<open>A RAID-6 of four that has lost one member and is rebuilding another.\<close>

theorem degraded_array_serves_witness:
  "\<exists>replies b s. run_ops array_step [OpWrite 3 [1, 2, 3], OpFlush None, OpRead 0 8]
      (blank_array Raid6 4 [blank_member MActive 0, blank_member MRebuilding 4, blank_member MFailed 0, blank_member MActive 0] (\<lambda>_. IoOk)) = Some (replies, b) \<and>
    (\<forall>r \<in> set replies. \<forall>e. r \<noteq> GotError e) \<and>
    spec_run (store_step \<lparr>g_level = Raid6, g_n = 4, g_unit = 4\<rparr>) \<lparr>st_image = \<lambda>_. 0, st_trusted = UNIV\<rparr> [OpWrite 3 [1, 2, 3], OpFlush None, OpRead 0 8] replies s \<and>
    data_intact b"
proof -
  let ?a = "blank_array Raid6 4 [blank_member MActive 0, blank_member MRebuilding 4, blank_member MFailed 0, blank_member MActive 0] (\<lambda>_. IoOk)"
  have g: "geometry ?a = \<lparr>g_level = Raid6, g_n = 4, g_unit = 4\<rparr>" by (simp add: geometry_def blank_array_def)
  have "ra_wf ?a" by (rule blank_array_wf) (simp_all add: min_members_def MAX_SLOTS_def)
  moreover have "agree ?a (\<lambda>_. 0) (rows (geometry ?a) UNIV)" by (rule blank_array_agree) (simp add: blank_member_def)
  moreover have "healthy ?a" "\<not> ra_released ?a" by (simp_all add: healthy_def blank_array_def)
  moreover have "data_intact ?a" by (simp add: data_intact_def blank_array_def blank_member_def whole_def tolerated_def geometry_def)
  moreover have "\<forall>x \<in> set [OpWrite 3 [1, 2, 3], OpFlush None, OpRead 0 8]. op_fits (ra_capacity ?a) x"
    by (simp add: op_fits_def ra_capacity_def g capacity_def stripe_bytes_def data_count_def) (simp add: blank_array_def)
  ultimately show ?thesis using degraded_array_serves [of ?a "\<lambda>_. 0" UNIV "[OpWrite 3 [1, 2, 3], OpFlush None, OpRead 0 8]"] unfolding g by blast
qed

end
