(* ===== verification/RebuildLive.thy ===== *)
theory RebuildLive
  imports RaidLive
begin

text \<open>
  A rebuild on drives that fail no call completes. At the end, the one thing the other theorems
  exclude: a drive put into the slot of a target while its rebuild runs, which is taken for rebuilt.
\<close>

section \<open>Units\<close>

text \<open>Every target is rebuilding, on a drive.\<close>

definition on_course :: "nat list \<Rightarrow> RaidArray \<Rightarrow> bool" where
  "on_course ts a \<longleftrightarrow> healthy a \<and> data_intact a \<and> geometry_ok (geometry a) \<and> (ra_level a = Raid10 \<longrightarrow> even (length (ra_members a))) \<and>
     (\<forall>t \<in> set ts. has_device a t \<and> mstate a t = MRebuilding)"

lemma on_course_steady:
  assumes "on_course ts a" "steady a b"
  shows "on_course ts b"
proof -
  have "has_device b t \<and> mstate b t = mstate a t" if "has_device a t" for t
    using that steady_device [OF assms(2), of t] steady_shape(8) [OF assms(2), of t] by (auto simp: has_device_def)
  then show ?thesis
    using assms(1) steady_healthy [OF assms(2)] steady_intact [OF assms(2)] steady_shape(1,2,5) [OF assms(2)] by (simp add: on_course_def)
qed

lemma course_partner_reads:
  "on_course ts a \<Longrightarrow> ra_level a = Raid10 \<Longrightarrow> set live \<subseteq> set ts \<Longrightarrow> partner_reads moff len live a = (r, b) \<Longrightarrow>
    (\<exists>ws. r = Inr ws \<and> map fst ws = live) \<and> steady a b"
proof (induction live arbitrary: a r)
  case (Cons t live)
  obtain q c where c: "mirror_read_at [partner t] moff len a = (q, c)" by fastforce
  have t: "t < length (ra_members a)" "\<not> whole (ra_members a ! t)" "even (length (ra_members a))" "healthy a" "data_intact a"
    using Cons.prems(1-3) by (auto simp: on_course_def has_device_def whole_def mstate_def)
  have "whole (ra_members a ! partner t)"
  proof -
    have "t div 2 < length (ra_members a) div 2" using t(1,3) by (auto elim!: evenE)
    then have "whole (ra_members a ! (2 * (t div 2))) \<or> whole (ra_members a ! (2 * (t div 2) + 1))"
      using t(5) Cons.prems(2) by (simp add: data_intact_def Let_def list_all_iff)
    then show ?thesis using t(2) by (cases "even t") (auto simp: partner_def elim!: evenE oddE)
  qed
  then have h: "\<exists>bs. q = Inr bs" "steady a c" using healthy_mirror_read [OF t(4) _ partner_less [OF t(3,1)] _ c] by auto
  obtain r' where e: "partner_reads moff len live c = (r', b)" "\<exists>bs. r = (case r' of Inl e \<Rightarrow> Inl e | Inr ws \<Rightarrow> Inr ((t, bs) # ws))"
    using Cons.prems(4) c h(1) by (auto split: prod.splits sum.splits)
  have "(\<exists>ws. r' = Inr ws \<and> map fst ws = live) \<and> steady c b"
    using Cons.IH [OF on_course_steady [OF Cons.prems(1) h(2)] _ _ e(1)] Cons.prems(2,3) steady_shape(2) [OF h(2)] by simp
  then show ?case using e(2) steady_trans [OF h(2)] by auto
qed simp

lemma course_unit_data:
  assumes "on_course ts a" "set live \<subseteq> set ts" "unit_data key ts live a = Some (r, b)"
  shows "(\<exists>ws. r = Inr ws \<and> map fst ws = live) \<and> steady a b"
proof -
  have a: "healthy a" "data_intact a" "geometry_ok (geometry a)" using assms(1) by (simp_all add: on_course_def)
  let ?len = "unit_len key a" and ?moff = "key * lock_unit a"
  consider (p) "is_parity (geometry a)" | (m) "ra_level a = Raid1" | (t) "ra_level a = Raid10"
    by (cases "ra_level a") (simp_all add: is_parity_def geometry_def)
  then show ?thesis
  proof cases
    case p
    obtain st c where c: "read_column key 0 ?len a = (st, c)" by fastforce
    note h = healthy_column [OF a p c]
    have ul: "length bs = length xs" if "unwrap_all xs = Some bs" for xs :: "bytes option list" and bs
      using that by (induction xs arbitrary: bs) (auto simp: Option.bind_eq_Some_conv)
    have nm: "ra_level a \<noteq> Raid1" "ra_level a \<noteq> Raid10" using p by (auto simp: is_parity_def geometry_def)
    then have u: "unit_data key ts live a = (case recover (ra_engine c) ?len st of None \<Rightarrow> None | Some (Inl _) \<Rightarrow> Some (Inl (too_many c), c)
        | Some (Inr st) \<Rightarrow> (case unwrap_all (map (strip_for (geometry c) key st) live) of None \<Rightarrow> None | Some bs \<Rightarrow> Some (Inr (zip live bs), c)))"
      using c by (cases "ra_level a") (simp_all add: unit_data_def Let_def)
    then obtain st' bs where bs: "unwrap_all (map (strip_for (geometry c) key st') live) = Some bs" "r = Inr (zip live bs)" "b = c"
      using assms(3) h(2) [of "ra_engine c"] by (auto split: option.splits sum.splits)
    then show ?thesis using h(1) ul [OF bs(1)] by simp
  next
    case m
    let ?src = "filter (\<lambda>i. i \<notin> set ts) (all_slots a)"
    obtain i where i: "i < length (ra_members a)" "whole (ra_members a ! i)" using a(2) m by (auto simp: data_intact_def Let_def list_ex_iff in_set_conv_nth)
    have "i \<in> set ?src" using i assms(1) by (auto simp: on_course_def whole_def mstate_def all_slots_def)
    obtain q c where c: "mirror_read_at ?src ?moff ?len a = (q, c)" by fastforce
    have "(\<exists>bs. q = Inr bs) \<and> steady a c" by (rule healthy_mirror_read [OF a(1) \<open>i \<in> set ?src\<close> i c])
    then show ?thesis using assms(3) m c by (auto simp: unit_data_def Let_def comp_def)
  next
    case t
    then show ?thesis using course_partner_reads [OF assms(1) t assms(2), of ?moff ?len r b] assms(3) by (simp add: unit_data_def Let_def)
  qed
qed

lemma course_unit_writes: "healthy a \<Longrightarrow> \<forall>(t, bs) \<in> set ws. has_device a t \<Longrightarrow> steady a (unit_writes moff ws a)"
proof (induction moff ws a rule: unit_writes.induct)
  case (2 moff t bs ws a)
  obtain r c where c: "dev_write t (RAID_DATA_OFFSET + moff) bs a = (r, c)" by fastforce
  have h: "r = Inr ()" "steady a c" using healthy_write [OF 2(2) _ c] 2(3) by auto
  have "steady c (unit_writes moff ws c)"
    using 2(1) [OF c [symmetric]] steady_healthy [OF h(2) 2(2)] 2(3) steady_device [OF h(2)] h(1) by auto
  then show ?case using c h steady_trans [OF h(2)] by simp
qed simp

lemma course_unit:
  assumes "on_course ts a" "rebuild_unit key ts a = Some (r, b)"
  shows "r = Inr () \<and> steady a b"
proof (cases "live_targets key ts a = []")
  case True
  then show ?thesis using assms(2) by (simp add: rebuild_unit_def)
next
  case False
  have sub: "set (live_targets key ts a) \<subseteq> set ts" by (auto simp: live_targets_def)
  obtain q c where c: "unit_data key ts (live_targets key ts a) a = Some (q, c)" using assms(2) False by (auto simp: rebuild_unit_def then_res_def split: option.splits)
  then obtain ws where h: "q = Inr ws" "map fst ws = live_targets key ts a" "steady a c" using course_unit_data [OF assms(1) sub c] by blast
  have b: "r = Inr ()" "b = unit_writes (key * lock_unit c) ws c" using assms(2) False c h(1) by (simp_all add: rebuild_unit_def then_res_def)
  have oc: "on_course ts c" by (rule on_course_steady [OF assms(1) h(3)])
  have "\<forall>(t, bs) \<in> set ws. has_device c t"
  proof (clarify)
    fix t bs assume "(t, bs) \<in> set ws"
    then have "t \<in> set (map fst ws)" by force
    then show "has_device c t" using sub h(2) oc by (auto simp: on_course_def)
  qed
  then show ?thesis using b course_unit_writes [of c ws] oc steady_trans [OF h(3)] by (simp add: on_course_def)
qed

lemma course_units: "on_course ts a \<Longrightarrow> rebuild_units ks ts None a = Some (r, b) \<Longrightarrow> r = Inr () \<and> steady a b"
proof (induction ks arbitrary: a)
  case (Cons k ks)
  obtain q c where c: "rebuild_unit k ts a = Some (q, c)" using Cons.prems(2) by (auto split: option.splits)
  have h: "q = Inr ()" "steady a c" using course_unit [OF Cons.prems(1) c] by auto
  have "rebuild_units ks ts None c = Some (r, b)" using Cons.prems(2) c h(1) by simp
  then show ?case using Cons.IH [OF on_course_steady [OF Cons.prems(1) h(2)]] steady_trans [OF h(2)] by blast
qed simp

section \<open>Batches and the end\<close>

lemma remark_course:
  assumes "on_course ts a" "b = a\<lparr>ra_members := map f [0..<length (ra_members a)]\<rparr>"
    and "\<forall>i < length (ra_members a). mb_state (f i) = mb_state (ra_members a ! i) \<and> mb_device (f i) = mb_device (ra_members a ! i)"
  shows "on_course ts b"
proof -
  have nth: "ra_members b ! i = f i" if "i < length (ra_members a)" for i using assms(2) that by simp
  note sh = remark_shape [OF assms(2)]
  have "data_intact b = data_intact a" by (rule intact_whole) (use sh nth assms(3) in \<open>simp_all add: whole_def\<close>)
  then show ?thesis
    using assms(1,3) sh nth by (simp add: on_course_def healthy_def assms(2) [THEN arg_cong, of ra_io] assms(2) [THEN arg_cong, of ra_level] has_device_def mstate_def)
qed

lemma course_batch:
  assumes "on_course (rb_targets rb) a" "distinct (rb_targets rb)" "rebuild_batch checkpoint rb a = Some (r, b)"
  shows "(\<exists>rb'. r = Inr rb') \<and> on_course (rb_targets rb) b"
proof -
  let ?hi = "min (rb_key rb + rb_batch rb) (rb_last rb)"
  obtain q c where c: "rebuild_units [rb_key rb..<?hi] (rb_targets rb) None a = Some (q, c)" using assms(3) by (auto simp: rebuild_batch_def Let_def split: option.splits)
  have h: "q = Inr ()" "steady a c" using course_units [OF assms(1) c] by auto
  define d where "d = fold (raise_mark (min (?hi * lock_unit c) (ra_data_size c))) (rb_targets rb) c"
  have ts: "distinct (rb_targets rb)" "\<forall>t \<in> set (rb_targets rb). t < length (ra_members c)" using assms(1,2) steady_shape(5) [OF h(2)] by (auto simp: on_course_def has_device_def)
  have d: "on_course (rb_targets rb) d"
    by (rule remark_course [OF on_course_steady [OF assms(1) h(2)] raise_fold [OF ts, of "min (?hi * lock_unit c) (ra_data_size c)", folded d_def]])
      (simp add: raised_def Let_def)
  obtain e where e: "persist_if_dirty d = Some e" "(if checkpoint then persist_rebuild_position e else Some e) = Some b" "r = Inr (rb\<lparr>rb_key := ?hi\<rparr>)"
    using assms(3) c h(1) by (auto simp: rebuild_batch_def Let_def d_def split: option.splits)
  have oe: "on_course (rb_targets rb) e" by (rule on_course_steady [OF d healthy_persist [OF _ e(1)]]) (use d in \<open>simp add: on_course_def\<close>)
  have "steady e b" using e(2) healthy_persist [of "e\<lparr>ra_sb_dirty := True\<rparr>" b] oe by (auto simp: persist_rebuild_position_def on_course_def split: if_splits)
  then show ?thesis using e(3) on_course_steady [OF oe] by blast
qed

lemma course_flush: "healthy a \<Longrightarrow> steady a (flush_targets ts a)"
proof (induction ts a rule: flush_targets.induct)
  case (2 t ts a)
  define b where "b = (if mb_device (ra_members a ! t) = None then a else case dev_flush t a of (r, a) \<Rightarrow> if isl r then snd (fail_member t a) else a)"
  have h: "steady a b" using healthy_flush [OF 2(2), of t] by (auto simp: b_def split: prod.split)
  have "steady b (flush_targets ts b)" using 2(1) steady_healthy [OF h 2(2)] by (simp add: b_def)
  then have "steady a (flush_targets ts b)" by (rule steady_trans [OF h])
  then show ?case by (simp add: b_def)
qed simp

lemma course_finish:
  assumes "on_course (rb_targets rb) a" "task_ok rb a" "ra_wf a" "rebuild_finish rb a = Some (r, b)"
  shows "r = Inr () \<and> (\<forall>t \<in> set (rb_targets rb). mstate b t = MActive)"
proof -
  define c where "c = flush_targets (rb_targets rb) a"
  have h: "steady a c" using course_flush assms(1) by (simp add: c_def on_course_def)
  have oc: "on_course (rb_targets rb) c" by (rule on_course_steady [OF assms(1) h])
  have ts: "distinct (rb_targets rb)" "\<forall>t \<in> set (rb_targets rb). t < length (ra_members c)" using assms(2) steady_shape(5) [OF h] by (auto simp: task_ok_def)
  define d where "d = fold make_active (rb_targets rb) c"
  note af = active_fold [OF ts, folded d_def]
  have d: "healthy d" "length (ra_members d) = length (ra_members c)" "\<forall>t \<in> set (rb_targets rb). mstate d t = MActive"
    using af oc ts(2) by (auto simp: healthy_def on_course_def mstate_def activated_def Let_def)
  have "quiet a c" by (simp add: c_def quiet_flush_targets)
  then have "ra_wf c" using quiet_wf assms(3) by blast
  then have "ra_wf (d\<lparr>ra_events := ra_events d + 1\<rparr>)" using remark_shape(5) [OF af] by (simp add: ra_wf_def bitmap_wf_def geometry_def)
  then obtain e where e: "write_superblocks (d\<lparr>ra_events := ra_events d + 1\<rparr>) = Some (Inr (), e)" "steady d e"
    using healthy_superblocks [of "d\<lparr>ra_events := ra_events d + 1\<rparr>"] d(1) by auto
  have "r = Inr ()" "b = e" using assms(4) e(1) by (simp_all add: rebuild_finish_def Let_def c_def d_def)
  moreover have "mstate e t = MActive" if t: "t \<in> set (rb_targets rb)" for t
  proof -
    have "t < length (ra_members d)" using ts(2) d(2) t by simp
    then have "mstate e t = mstate d t" using steady_shape(8) [OF e(2), of t] by blast
    then show ?thesis using d(3) t by simp
  qed
  ultimately show ?thesis by blast
qed

lemma course_loop:
  assumes "sound g L T a" "task_ok rb a" "T \<subseteq> whole_rows a" "on_course (rb_targets rb) a" "\<forall>k. \<not> stop k"
  shows "\<exists>b. rebuild_loop stop due rb a = Some (Inr (), b) \<and> sound g L T b \<and> (\<forall>t \<in> set (rb_targets rb). mstate b t = MActive)"
  using assms(1-4)
proof (induction "rb_last rb - rb_key rb" arbitrary: rb a rule: less_induct)
  case less
  note unroll = rebuild_loop.simps [of stop due rb a]
  show ?case
  proof (cases "rb_key rb < rb_last rb")
    case False
    obtain r b where b: "rebuild_finish rb a = Some (r, b)" "sound g L T b"
      using rebuild_finish_spec [OF less.prems(1,2) _ less.prems(3)] False by (meson not_less)
    then show ?thesis using False unroll course_finish [OF less.prems(4,2) _ b(1)] less.prems(1) by (auto simp: sound_def)
  next
    case True
    obtain r c where c: "rebuild_batch (due (rb_key rb)) rb a = Some (r, c)" "sound g L T c" "ra_data_size c = ra_data_size a"
        "\<forall>rb'. r = Inr rb' \<longrightarrow> rb' = rb\<lparr>rb_key := min (rb_key rb + rb_batch rb) (rb_last rb)\<rparr> \<and> task_ok rb' c"
      using rebuild_batch_spec [OF less.prems(1,2), of "due (rb_key rb)"] by blast
    obtain rb' where r: "r = Inr rb'" and oc: "on_course (rb_targets rb) c"
      using course_batch [OF less.prems(4) _ c(1)] less.prems(2) by (auto simp: task_ok_def)
    have rb': "rb' = rb\<lparr>rb_key := min (rb_key rb + rb_batch rb) (rb_last rb)\<rparr>" "task_ok rb' c" using c(4) r by blast+
    have w: "T \<subseteq> whole_rows c" using less.prems(1,3) c(2,3) by (simp add: whole_rows_def sound_def)
    have "0 < rb_batch rb" using less.prems(2) by (simp add: task_ok_def)
    then have "rb_last rb' - rb_key rb' < rb_last rb - rb_key rb" using True rb'(1) by simp
    from less.hyps [OF this c(2) rb'(2) w] show ?thesis using True c(1) r rb'(1) oc assms(5) unroll by simp
  qed
qed

text \<open>C33. On drives that fail no call a rebuild completes: started on an array whose data is intact, and
  not stopped, it answers success, and every member that was rebuilding on a drive is active. The
  members agree with the image, so the redundancy is back and the bytes on the new drives are right.\<close>

theorem rebuild_completes:
  assumes "ra_wf a" "marks_ok a" "agree a L (rows (geometry a) T)" "T \<subseteq> whole_rows a" "healthy a" "data_intact a" "\<forall>k. \<not> stop k"
  shows "\<exists>b. run_rebuild batch stop due a = Some (Inr (), b) \<and> agree b L (rows (geometry b) T) \<and>
    (\<forall>t < length (ra_members a). has_device a t \<longrightarrow> mstate a t = MRebuilding \<longrightarrow> mstate b t = MActive)"
proof (cases "rebuild_start batch a")
  case None
  then have "\<forall>t < length (ra_members a). has_device a t \<longrightarrow> mstate a t \<noteq> MRebuilding"
    by (auto simp: rebuild_start_def Let_def has_device_def mstate_def all_slots_def filter_empty_conv split: if_splits)
  then show ?thesis using None assms(3) by (auto simp: run_rebuild_def)
next
  case (Some rb)
  have s: "sound (geometry a) L T a" using assms(1-3) by (simp add: sound_def)
  have ts: "set (rb_targets rb) = {t. t < length (ra_members a) \<and> has_device a t \<and> mstate a t = MRebuilding}"
    using Some by (auto simp: rebuild_start_def Let_def has_device_def mstate_def all_slots_def split: if_splits)
  have "on_course (rb_targets rb) a" using assms(1,5,6) ts by (auto simp: on_course_def ra_wf_def)
  from course_loop [OF s rebuild_start_spec [OF Some s] assms(4) this assms(7), of due] show ?thesis
    using Some ts by (auto simp: run_rebuild_def sound_def)
qed

theorem rebuild_completes_witness:
  "\<exists>b. run_rebuild 4 (\<lambda>_. False) (\<lambda>k. k = 1) (blank_array Raid5 4 [blank_member MActive 0, blank_member MRebuilding 0, blank_member MActive 0] (\<lambda>_. IoOk)) = Some (Inr (), b) \<and>
    mstate b 1 = MActive"
proof -
  let ?a = "blank_array Raid5 4 [blank_member MActive 0, blank_member MRebuilding 0, blank_member MActive 0] (\<lambda>_. IoOk)"
  have "ra_wf ?a" by (rule blank_array_wf) (simp_all add: min_members_def MAX_SLOTS_def)
  moreover have "agree ?a (\<lambda>_. 0) (rows (geometry ?a) {r. (r + 1) * 4 \<le> 8})" by (rule blank_array_agree) (simp add: blank_member_def)
  moreover have "marks_ok ?a" by (rule blank_marks) (simp add: blank_member_def)
  moreover have "{r. (r + 1) * 4 \<le> 8} \<subseteq> whole_rows ?a" by (rule blank_whole) simp_all
  moreover have "healthy ?a" by (simp add: healthy_def blank_array_def)
  moreover have "data_intact ?a" by (simp add: data_intact_def blank_array_def blank_member_def whole_def tolerated_def geometry_def)
  moreover have "length (ra_members ?a) = 3" "has_device ?a 1" "mstate ?a 1 = MRebuilding" by (simp_all add: blank_array_def has_device_def mstate_def blank_member_def)
  ultimately show ?thesis using rebuild_completes [of ?a "\<lambda>_. 0" "{r. (r + 1) * 4 \<le> 8}" "\<lambda>_. False" 4 "\<lambda>k. k = 1"] by fastforce
qed

section \<open>A drive put under a running rebuild\<close>

lemma replaced_slot:
  assumes "ra_wf a" "ra_replace t uuid cap d a = Some (Inr (), b)"
  shows "t < length (ra_members a)" "quiet ((set_member t (fresh_member uuid d) a)\<lparr>ra_events := ra_events a + 1\<rparr>) b"
proof -
  let ?c = "(set_member t (fresh_member uuid d) a)\<lparr>ra_events := ra_events a + 1\<rparr>"
  have ok: "\<not> cap < member_bytes_needed a" "\<not> t \<ge> length (ra_members a)" "mb_state (ra_members a ! t) = MFailed"
    using assms(2) by (auto simp: ra_replace_def split: if_splits)
  then show "t < length (ra_members a)" by simp
  have wf: "ra_wf ?c" using assms(1) by (simp add: ra_wf_def bitmap_wf_def geometry_def set_member_def)
  obtain r e where z: "zero_bitmaps (Some t) ?c = (r, e)" by fastforce
  have q: "quiet ?c e" by (rule quiet_zero_bitmaps [OF z wf])
  obtain r' f where w: "write_superblocks e = Some (r', f)" "quiet e f" using write_superblocks_spec [OF quiet_wf [OF q wf]] by blast
  have "b = f" using assms(2) ok z w(1) by (auto simp: ra_replace_def Let_def then_res_def split: sum.splits)
  then show "quiet ?c b" using quiet_trans [OF q w(2)] by simp
qed

text \<open>What a batch leaves below its position, and the mark it leaves on a target.\<close>

lemma batch_below:
  assumes "ra_wf a" "distinct (rb_targets rb)" "\<forall>t \<in> set (rb_targets rb). t < length (ra_members a)" "rebuild_batch checkpoint rb a = Some (Inr rb', b)"
    and "t \<in> set (rb_targets rb)" "mstate b t = MRebuilding"
  shows "x < rb_key rb * lock_unit a \<Longrightarrow> dev_bytes t b (RAID_DATA_OFFSET + x) = dev_bytes t a (RAID_DATA_OFFSET + x)"
    and "min (min (rb_key rb + rb_batch rb) (rb_last rb) * lock_unit a) (ra_data_size a) \<le> mb_rebuilt_to (ra_members b ! t)"
    and "geometry b = geometry a" "has_device b t = has_device a t"
proof -
  let ?hi = "min (rb_key rb + rb_batch rb) (rb_last rb)"
  have ag: "agree a undefined (rows (geometry a) {})" by (simp add: rows_def)
  obtain r c where c: "rebuild_units [rb_key rb..<?hi] (rb_targets rb) None a = Some (r, c)" "evolves (batch_bytes a {rb_key rb..<?hi}) a c" "keeps_bm a c"
    using rebuild_units_spec [OF ag assms(1,3,2) distinct_upt, of "rb_key rb" ?hi None] by auto
  note sh = evolves_shape [OF c(2)] lock_unit_evolves [OF c(2)]
  define e where "e = min (?hi * lock_unit a) (ra_data_size a)"
  define d where "d = fold (raise_mark e) (rb_targets rb) c"
  have tc: "\<forall>t \<in> set (rb_targets rb). t < length (ra_members c)" using assms(3) sh by simp
  note df = raise_fold [OF assms(2) tc, of e, folded d_def]
  have wf: "ra_wf d" by (rule remark_shape(5) [OF df ra_wf_keeps [OF assms(1) c(2,3)]])
  obtain u where r: "r = Inr u" using assms(4) c(1) by (cases r) (auto simp: rebuild_batch_def Let_def)
  then have "\<exists>f. persist_if_dirty d = Some f \<and> (if checkpoint then persist_rebuild_position f else Some f) = Some b"
    using assms(4) c(1) sh by (auto simp: rebuild_batch_def Let_def d_def e_def split: option.splits)
  then obtain f where f: "persist_if_dirty d = Some f" "(if checkpoint then persist_rebuild_position f else Some f) = Some b" by blast
  have q: "quiet d f" using persist_spec [OF wf] f(1) by auto
  have "quiet f b" using f(2) persist_position_spec [OF quiet_wf [OF q wf]] by (auto split: if_splits)
  then have db: "evolves {} d b" using quiet_trans [OF q] by (auto simp: quiet_def)
  have t: "t < length (ra_members a)" "t < length (ra_members c)" "t < length (ra_members d)" using assms(3,5) tc remark_shape(4) [OF df] by auto
  have nth: "ra_members d ! t = raised e (set (rb_targets rb)) (ra_members c) t" using df t(2) by simp
  have "mstate d t = MRebuilding" by (rule evolves_rebuilding [OF db t(3) assms(6)])
  then have "e \<le> mb_rebuilt_to (ra_members d ! t)" using nth assms(5) by (auto simp: mstate_def raised_def Let_def split: if_splits)
  then show "e \<le> mb_rebuilt_to (ra_members b ! t)" using evolves_mark [OF db t(3)] by simp
  have dev: "dev_bytes t d = dev_bytes t c" "has_device d t = has_device c t"
    using nth t remark_shape(4) [OF df] by (auto simp: dev_bytes_def raised_def Let_def has_device_def)
  show "geometry b = geometry a" using sh remark_shape(1) [OF df] evolves_shape(7) [OF db] by simp
  show "has_device b t = has_device a t" using dev(2) has_device_evolves [OF db] has_device_evolves [OF c(2)] by simp
  assume x: "x < rb_key rb * lock_unit a"
  then have "x div lock_unit a < rb_key rb" by (rule less_mult_imp_div_less)
  then have "(t, x) \<notin> batch_bytes a {rb_key rb..<?hi}" by (auto simp: batch_bytes_def unit_bytes_def)
  then show "dev_bytes t b (RAID_DATA_OFFSET + x) = dev_bytes t a (RAID_DATA_OFFSET + x)"
    using evolves_same [OF c(2) t(1)] evolves_same [OF db t(3)] dev(1) by simp
qed

text \<open>C34. A flaw of the code. The targets of a running rebuild are slot numbers. When a target fails
  and a new drive is put into its slot (which a spare does by itself) while the rebuild runs, the
  next batch that succeeds raises the new drive's mark to the end of the batch: from then on the
  array reads the new drive at every place below the rebuild's position, where the drive still has
  the bytes it came with. (After the last batch it becomes active.) The rebuild that is started for
  the new drive afterwards finds nothing left to do.\<close>

theorem replaced_target_taken_for_rebuilt:
  assumes "ra_wf a" "task_ok rb a" "rb_key rb \<le> rb_last rb" "t \<in> set (rb_targets rb)" "ra_replace t uuid cap d a = Some (Inr (), b)"
    and "rebuild_batch checkpoint rb b = Some (Inr rb', c)" "mstate c t = MRebuilding"
    and "x < rb_key rb * lock_unit a" "hold_end (geometry a) x \<le> ra_data_size a"
  shows "holds (ra_members c ! t) (hold_end (geometry c) x) \<and> dev_bytes t c (RAID_DATA_OFFSET + x) = d (RAID_DATA_OFFSET + x)"
proof -
  let ?c = "(set_member t (fresh_member uuid d) a)\<lparr>ra_events := ra_events a + 1\<rparr>"
  note r = replaced_slot [OF assms(1,5)]
  have ev: "evolves {} ?c b" using r(2) by (simp add: quiet_def)
  have shc: "geometry ?c = geometry a" "lock_unit ?c = lock_unit a" "ra_data_size ?c = ra_data_size a" "length (ra_members ?c) = length (ra_members a)"
    by (simp_all add: geometry_def lock_unit_def set_member_def)
  have sh: "geometry b = geometry a" "lock_unit b = lock_unit a" "ra_data_size b = ra_data_size a" "length (ra_members b) = length (ra_members a)"
    using quiet_shape [OF r(2)] shc by simp_all
  have wc: "ra_wf ?c" using assms(1) by (simp add: ra_wf_def bitmap_wf_def geometry_def set_member_def)
  have wf: "ra_wf b" by (rule quiet_wf [OF r(2) wc])
  have ts: "distinct (rb_targets rb)" "\<forall>t \<in> set (rb_targets rb). t < length (ra_members b)" using assms(2) sh by (auto simp: task_ok_def)
  note bb = batch_below [OF wf ts assms(6,4,7)]
  have fresh: "ra_members ?c ! t = fresh_member uuid d" using r(1) by (simp add: set_member_def)
  then have "dev_bytes t ?c = d" "has_device ?c t" using r(1) shc by (simp_all add: dev_bytes_def fresh_member_def has_device_def)
  then have bd: "dev_bytes t b (RAID_DATA_OFFSET + x) = d (RAID_DATA_OFFSET + x)" "has_device b t"
    using evolves_same [OF ev, of t x] has_device_evolves [OF ev, of t] r(1) shc by simp_all
  have g: "hold_end (geometry a) x \<le> rb_key rb * lock_unit a"
  proof (cases "is_parity (geometry a)")
    case True
    have "x div lock_unit a + 1 \<le> rb_key rb" using less_mult_imp_div_less [OF assms(8)] by simp
    then have "(x div lock_unit a + 1) * lock_unit a \<le> rb_key rb * lock_unit a" by (rule mult_le_mono1)
    then show ?thesis using True lock_unit_parity [OF True] by (simp add: hold_end_def geometry_def)
  next
    case False
    then show ?thesis using assms(8) by (simp add: hold_end_def)
  qed
  have "rb_key rb * lock_unit a \<le> min (rb_key rb + rb_batch rb) (rb_last rb) * lock_unit a" using assms(3) by (intro mult_le_mono1) simp
  from order_trans [OF g this] have "hold_end (geometry a) x \<le> min (min (rb_key rb + rb_batch rb) (rb_last rb) * lock_unit b) (ra_data_size b)"
    using assms(9) sh by (simp del: mult_le_cancel2)
  from order_trans [OF this bb(2)] have "hold_end (geometry c) x \<le> mb_rebuilt_to (ra_members c ! t)" using bb(3) sh(1) by simp
  moreover have "mb_device (ra_members c ! t) \<noteq> None" using bb(4) bd(2) by (simp add: has_device_def)
  moreover have "mb_state (ra_members c ! t) = MRebuilding" using assms(7) by (simp add: mstate_def)
  moreover have "dev_bytes t c (RAID_DATA_OFFSET + x) = d (RAID_DATA_OFFSET + x)" using bb(1) assms(8) sh bd(1) by simp
  ultimately show ?thesis by (simp add: holds_def)
qed

lemma rebuild_batch_total:
  assumes "ra_wf a" "distinct (rb_targets rb)" "\<forall>t \<in> set (rb_targets rb). t < length (ra_members a)"
  shows "\<exists>r b. rebuild_batch checkpoint rb a = Some (r, b)"
proof -
  let ?hi = "min (rb_key rb + rb_batch rb) (rb_last rb)"
  have ag: "agree a undefined (rows (geometry a) {})" by (simp add: rows_def)
  obtain r c where c: "rebuild_units [rb_key rb..<?hi] (rb_targets rb) None a = Some (r, c)" "evolves (batch_bytes a {rb_key rb..<?hi}) a c" "keeps_bm a c"
    using rebuild_units_spec [OF ag assms(1,3,2) distinct_upt, of "rb_key rb" ?hi None] by auto
  have wc: "ra_wf c" by (rule ra_wf_keeps [OF assms(1) c(2,3)])
  define d where "d = fold (raise_mark (min (?hi * lock_unit c) (ra_data_size c))) (rb_targets rb) c"
  have tc: "\<forall>t \<in> set (rb_targets rb). t < length (ra_members c)" using assms(3) evolves_shape(6) [OF c(2)] by simp
  have "ra_wf d" by (rule remark_shape(5) [OF raise_fold [OF assms(2) tc, of "min (?hi * lock_unit c) (ra_data_size c)", folded d_def] wc])
  then obtain e where e: "persist_if_dirty d = Some e" "ra_wf e" using persist_spec [of d] quiet_wf by blast
  obtain f where f: "persist_rebuild_position e = Some f" using persist_position_spec [OF e(2)] by blast
  obtain h where h: "persist_if_dirty c = Some h" using persist_spec [OF wc] by blast
  show ?thesis using c(1) e(1) f h by (cases r; cases checkpoint) (simp_all add: rebuild_batch_def Let_def d_def)
qed

lemma healthy_zero_each: "healthy a \<Longrightarrow> \<forall>i \<in> set is. has_device a i \<Longrightarrow> zero_each is a = (r, b) \<Longrightarrow> r = Inr () \<and> steady a b"
proof (induction "is" arbitrary: a)
  case (Cons i "is")
  obtain q c where c: "dev_write i BITMAP_OFFSET (zero_buf (ib_bytes (ra_bitmap a))) a = (q, c)" by fastforce
  have h: "q = Inr ()" "steady a c" using healthy_write [OF Cons.prems(1) _ c] Cons.prems(2) by auto
  have "zero_each is c = (r, b)" using Cons.prems(3) c h(1) by simp
  then show ?case using Cons.IH [OF steady_healthy [OF h(2) Cons.prems(1)]] steady_device [OF h(2)] Cons.prems(2) steady_trans [OF h(2)] by simp
qed simp

lemma healthy_replace:
  assumes "ra_wf a" "healthy a" "member_bytes_needed a \<le> cap" "t < length (ra_members a)" "mstate a t = MFailed"
  shows "\<exists>b. ra_replace t uuid cap d a = Some (Inr (), b) \<and> steady (set_member t (fresh_member uuid d) a) b \<and> ra_wf b"
proof -
  define c where "c = (set_member t (fresh_member uuid d) a)\<lparr>ra_events := ra_events a + 1\<rparr>"
  have wf: "ra_wf c" using assms(1) by (simp add: c_def ra_wf_def bitmap_wf_def geometry_def set_member_def)
  have hc: "healthy c" using assms(2) by (simp add: c_def healthy_def set_member_def)
  obtain r e where z: "zero_bitmaps (Some t) c = (r, e)" by fastforce
  have ze: "r = Inr () \<and> steady c e"
    using z healthy_zero_each [OF hc, of "filter (\<lambda>i. Some t = None \<or> Some t = Some i) (attached_devices c)" r e] attached_has_device [of _ c]
    by (auto simp: zero_bitmaps_def split: if_splits)
  have we: "ra_wf e" by (rule quiet_wf [OF quiet_zero_bitmaps [OF z wf] wf])
  obtain f where f: "write_superblocks e = Some (Inr (), f)" "steady e f" using healthy_superblocks [OF _ we] steady_healthy [OF _ hc] ze by blast
  have "ra_wf f" using write_superblocks_spec [OF we] f(1) quiet_wf [OF _ we] by auto
  moreover have "ra_replace t uuid cap d a = Some (Inr (), f)"
    using assms(3-5) z [unfolded c_def] ze f(1) by (simp add: ra_replace_def mstate_def Let_def then_res_def)
  moreover have "steady (set_member t (fresh_member uuid d) a) f" using steady_trans [of c e f] ze f(2) by (simp add: c_def)
  ultimately show ?thesis by blast
qed

text \<open>A RAID-5 of three, rebuilding its second member and half done, when that drive fails and another,
  full of threes, takes its place.\<close>

theorem replaced_target_taken_for_rebuilt_witness:
  "\<exists>b rb' c. ra_replace 1 7 2000000 (\<lambda>_. 3) (blank_array Raid5 4 [blank_member MActive 0, blank_member MFailed 4, blank_member MActive 0] (\<lambda>_. IoOk)) = Some (Inr (), b) \<and>
    rebuild_batch False \<lparr>rb_targets = [1], rb_key = 1, rb_last = 2, rb_batch = 1\<rparr> b = Some (Inr rb', c) \<and>
    holds (ra_members c ! 1) (hold_end (geometry c) 0) \<and> dev_bytes 1 c (RAID_DATA_OFFSET + 0) = 3"
proof -
  let ?a = "blank_array Raid5 4 [blank_member MActive 0, blank_member MFailed 4, blank_member MActive 0] (\<lambda>_. IoOk)"
  let ?rb = "\<lparr>rb_targets = [1 :: nat], rb_key = 1, rb_last = 2, rb_batch = 1\<rparr>"
  let ?c = "set_member 1 (fresh_member 7 (\<lambda>_. 3)) ?a"
  have wf: "ra_wf ?a" by (rule blank_array_wf) (simp_all add: min_members_def MAX_SLOTS_def)
  have h: "healthy ?a" by (simp add: healthy_def blank_array_def)
  have need: "member_bytes_needed ?a \<le> 2000000" by (simp add: member_bytes_needed_def blank_array_def RAID_DATA_OFFSET_def)
  have one: "1 < length (ra_members ?a)" "mstate ?a 1 = MFailed" by (simp_all add: blank_array_def mstate_def blank_member_def)
  obtain b where b: "ra_replace 1 7 2000000 (\<lambda>_. 3) ?a = Some (Inr (), b)" "steady ?c b" "ra_wf b"
    using healthy_replace [OF wf h need one, of 7 "\<lambda>_. 3"] by blast
  have "on_course [1] ?c"
    by (simp add: on_course_def healthy_def data_intact_def set_member_def fresh_member_def blank_array_def blank_member_def whole_def tolerated_def
        geometry_def geometry_ok_def min_members_def has_device_def mstate_def)
  then have oc: "on_course (rb_targets ?rb) b" using on_course_steady [OF _ b(2)] by simp
  obtain r c where c: "rebuild_batch False ?rb b = Some (r, c)"
    using rebuild_batch_total [OF b(3), of ?rb False] steady_shape(5) [OF b(2)] one(1) by (auto simp: set_member_def)
  then obtain rb' where r: "r = Inr rb'" "on_course [1] c" using course_batch [OF oc _ c] by auto
  have lu: "lock_unit ?a = 4" "ra_data_size ?a = 8" by (simp_all add: lock_unit_def blank_array_def)
  have task: "task_ok ?rb ?a" using one by (simp add: task_ok_def lu div_ceil_def)
  have hold: "hold_end (geometry ?a) 0 \<le> ra_data_size ?a" by (simp add: hold_end_def geometry_def is_parity_def blank_array_def)
  have "mstate c 1 = MRebuilding" using r(2) by (simp add: on_course_def)
  from replaced_target_taken_for_rebuilt [OF wf task _ _ b(1) c [unfolded r(1)] this, of 0] show ?thesis
    using b(1) c r(1) lu hold by auto
qed

end
