(* ===== verification/ExTable.thy ===== *)
theory ExTable
  imports Prelude "HOL-Library.Monad_Syntax"
begin

text \<open>
  A volume's extent map (\<open>src/volume/extable.rs\<close>): virtual extents in chunks of 64, one ordered-map
  entry per chunk, slabs as ordinals into a process-wide table of slab ids, mirror legs out of
  line. The value \<open>None\<close> of an operation is a panic of the code (an index out of range, or more
  than 4 G slab ids); capacities of vectors are not modelled. The locale \<open>table_laws\<close> is what the
  users of a table rely on; the ordered map of the standard library is its first instance.
\<close>

section \<open>Locations\<close>

record Leg =
  lg_slab :: uuid
  lg_slot :: u64

record ExtentLocation =
  el_slab :: uuid
  el_slot :: u64
  el_refs :: u32
  el_gen :: u64
  el_mirrors :: "Leg list"

section \<open>The slab table of the process\<close>

record interner =
  in_ids :: "uuid list"
  in_ords :: "(uuid \<times> u32) list"

definition slab_ordinal :: "uuid \<Rightarrow> interner \<Rightarrow> (u32 \<times> interner) option" where
  "slab_ordinal sid w =
     (case map_of (in_ords w) sid of
        Some o' \<Rightarrow> Some (o', w)
      | None \<Rightarrow>
          if length (in_ids w) < 2 ^ 32
          then let o' = of_nat (length (in_ids w))
               in Some (o', w\<lparr>in_ids := in_ids w @ [sid], in_ords := al_put sid o' (in_ords w)\<rparr>)
          else None)"

definition slab_of :: "interner \<Rightarrow> u32 \<Rightarrow> uuid option" where
  "slab_of w ord = (if unat ord < length (in_ids w) then Some (in_ids w ! unat ord) else None)"

definition interner_new :: interner where
  "interner_new = \<lparr>in_ids = [], in_ords = []\<rparr>"

section \<open>The table\<close>

record Packed =
  pk_off :: u8
  pk_slab :: u32
  pk_slot :: u64
  pk_refs :: u32
  pk_gen :: u64

definition packed_of :: "u8 \<Rightarrow> ExtentLocation \<Rightarrow> interner \<Rightarrow> (Packed \<times> interner) option" where
  "packed_of off loc w = do {
     (ord, w) \<leftarrow> slab_ordinal (el_slab loc) w;
     Some (\<lparr>pk_off = off, pk_slab = ord, pk_slot = el_slot loc, pk_refs = el_refs loc, pk_gen = el_gen loc\<rparr>, w)
   }"

definition location :: "interner \<Rightarrow> Packed \<Rightarrow> Leg list \<Rightarrow> ExtentLocation option" where
  "location w p mirrors = do {
     slab \<leftarrow> slab_of w (pk_slab p);
     Some \<lparr>el_slab = slab, el_slot = pk_slot p, el_refs = pk_refs p, el_gen = pk_gen p, el_mirrors = mirrors\<rparr>
   }"

record ExtentTable =
  et_chunks :: "(u64 \<times> Packed list) list"
  et_mirrors :: "(u64 \<times> Leg list) list"
  et_len :: nat

type_synonym table_state = "interner \<times> ExtentTable"

definition CHUNK_SHIFT :: nat where "CHUNK_SHIFT = 6"

definition CHUNK_MASK :: u64 where "CHUNK_MASK = push_bit CHUNK_SHIFT 1 - 1"

definition split_vext :: "u64 \<Rightarrow> u64 \<times> u8" where
  "split_vext vext = (drop_bit CHUNK_SHIFT vext, ucast (vext AND CHUNK_MASK))"

definition join_vext :: "u64 \<Rightarrow> u8 \<Rightarrow> u64" where
  "join_vext c off = push_bit CHUNK_SHIFT c OR ucast off"

text \<open>
  \<open>binary_search_by_key\<close> on a slice sorted by key: \<open>Inr i\<close> is \<open>Ok(i)\<close>, the entry with the key;
  \<open>Inl i\<close> is \<open>Err(i)\<close>, where it would be inserted.
\<close>

definition search_off :: "u8 \<Rightarrow> Packed list \<Rightarrow> nat + nat" where
  "search_off off chunk =
     (let i = length (takeWhile (\<lambda>p. pk_off p < off) chunk)
      in if i < length chunk \<and> pk_off (chunk ! i) = off then Inr i else Inl i)"

text \<open>\<open>Vec::insert\<close> and \<open>Vec::remove\<close> inside the bounds.\<close>

definition vec_insert :: "nat \<Rightarrow> 'a \<Rightarrow> 'a list \<Rightarrow> 'a list" where
  "vec_insert i x xs = take i xs @ x # drop i xs"

definition vec_remove :: "nat \<Rightarrow> 'a list \<Rightarrow> 'a list" where
  "vec_remove i xs = take i xs @ drop (Suc i) xs"

definition et_new :: ExtentTable where
  "et_new = \<lparr>et_chunks = [], et_mirrors = [], et_len = 0\<rparr>"

definition et_is_empty :: "ExtentTable \<Rightarrow> bool" where
  "et_is_empty t \<longleftrightarrow> et_len t = 0"

definition et_find :: "u64 \<Rightarrow> ExtentTable \<Rightarrow> Packed option" where
  "et_find vext t = do {
     let (c, off) = split_vext vext;
     chunk \<leftarrow> map_of (et_chunks t) c;
     (case search_off off chunk of Inr i \<Rightarrow> Some (chunk ! i) | Inl _ \<Rightarrow> None)
   }"

definition mirrors_of :: "u64 \<Rightarrow> ExtentTable \<Rightarrow> Leg list" where
  "mirrors_of vext t =
     (if et_mirrors t = [] then []
      else case map_of (et_mirrors t) vext of Some ms \<Rightarrow> ms | None \<Rightarrow> [])"

definition et_get :: "u64 \<Rightarrow> table_state \<Rightarrow> ExtentLocation option option" where
  "et_get vext s = (case s of (w, t) \<Rightarrow>
     (case et_find vext t of
        None \<Rightarrow> Some None
      | Some p \<Rightarrow> map_option Some (location w p (mirrors_of vext t))))"

definition et_contains_key :: "u64 \<Rightarrow> ExtentTable \<Rightarrow> bool" where
  "et_contains_key vext t \<longleftrightarrow> et_find vext t \<noteq> None"

definition et_insert :: "u64 \<Rightarrow> ExtentLocation \<Rightarrow> table_state \<Rightarrow> (ExtentLocation option \<times> table_state) option" where
  "et_insert vext loc s = (case s of (w, t) \<Rightarrow> do {
     let (c, off) = split_vext vext;
     let old_mirrors = map_of (et_mirrors t) vext;
     let ms = (if el_mirrors loc = [] then al_del vext (et_mirrors t)
               else al_put vext (el_mirrors loc) (et_mirrors t));
     (p, w) \<leftarrow> packed_of off loc w;
     let chunk = (case map_of (et_chunks t) c of Some ch \<Rightarrow> ch | None \<Rightarrow> []);
     (case search_off off chunk of
        Inr i \<Rightarrow> do {
          old \<leftarrow> location w (chunk ! i) (case old_mirrors of Some m \<Rightarrow> m | None \<Rightarrow> []);
          Some (Some old, w, t\<lparr>et_chunks := al_put c (chunk[i := p]) (et_chunks t), et_mirrors := ms\<rparr>)
        }
      | Inl i \<Rightarrow>
          Some (None, w, t\<lparr>et_chunks := al_put c (vec_insert i p chunk) (et_chunks t), et_mirrors := ms,
                           et_len := et_len t + 1\<rparr>))
   })"

definition et_remove :: "u64 \<Rightarrow> table_state \<Rightarrow> (ExtentLocation option \<times> table_state) option" where
  "et_remove vext s = (case s of (w, t) \<Rightarrow>
     let (c, off) = split_vext vext in
     (case map_of (et_chunks t) c of
        None \<Rightarrow> Some (None, w, t)
      | Some chunk \<Rightarrow>
          (case search_off off chunk of
             Inl _ \<Rightarrow> Some (None, w, t)
           | Inr i \<Rightarrow>
               let p = chunk ! i; chunk = vec_remove i chunk;
                   chunks = (if chunk = [] then al_del c (et_chunks t) else al_put c chunk (et_chunks t));
                   ms = (case map_of (et_mirrors t) vext of Some m \<Rightarrow> m | None \<Rightarrow> [])
               in do {
                 old \<leftarrow> location w p ms;
                 Some (Some old, w, t\<lparr>et_chunks := chunks, et_mirrors := al_del vext (et_mirrors t),
                                     et_len := et_len t - 1\<rparr>)
               })))"

definition et_keys :: "ExtentTable \<Rightarrow> u64 list" where
  "et_keys t = concat (map (\<lambda>(c, chunk). map (\<lambda>p. join_vext c (pk_off p)) chunk) (et_chunks t))"

definition et_keys_in :: "u64 \<Rightarrow> u64 \<Rightarrow> ExtentTable \<Rightarrow> u64 list" where
  "et_keys_in lo hi t =
     (let first = drop_bit CHUNK_SHIFT lo;
          final = (if hi = 0 then 0 else drop_bit CHUNK_SHIFT (hi - 1) + 1)
      in filter (\<lambda>v. lo \<le> v \<and> v < hi)
           (concat (map (\<lambda>(c, chunk). map (\<lambda>p. join_vext c (pk_off p)) chunk)
             (filter (\<lambda>(c, _). first \<le> c \<and> c < max final first) (et_chunks t)))))"

definition et_ref_counts :: "ExtentTable \<Rightarrow> u32 list" where
  "et_ref_counts t = concat (map (\<lambda>(_, chunk). map pk_refs chunk) (et_chunks t))"

text \<open>The iterator keeps the slab it looked up last.\<close>

fun iter_entries :: "interner \<Rightarrow> ExtentTable \<Rightarrow> (u32 \<times> uuid) option \<Rightarrow> (u64 \<times> Packed) list
    \<Rightarrow> (u64 \<times> ExtentLocation) list option" where
  "iter_entries w t lst [] = Some []"
| "iter_entries w t lst ((c, p) # cps) = do {
     let vext = join_vext c (pk_off p);
     sid \<leftarrow> (case lst of
              Some (o', i) \<Rightarrow> if o' = pk_slab p then Some i else slab_of w (pk_slab p)
            | None \<Rightarrow> slab_of w (pk_slab p));
     rest \<leftarrow> iter_entries w t (Some (pk_slab p, sid)) cps;
     Some ((vext, \<lparr>el_slab = sid, el_slot = pk_slot p, el_refs = pk_refs p, el_gen = pk_gen p,
                   el_mirrors = mirrors_of vext t\<rparr>) # rest)
   }"

definition et_iter :: "table_state \<Rightarrow> (u64 \<times> ExtentLocation) list option" where
  "et_iter s = (case s of (w, t) \<Rightarrow>
     iter_entries w t None (concat (map (\<lambda>(c, chunk). map (Pair c) chunk) (et_chunks t))))"

definition et_values :: "table_state \<Rightarrow> ExtentLocation list option" where
  "et_values s = map_option (map snd) (et_iter s)"

definition et_to_btree :: "table_state \<Rightarrow> (u64 \<times> ExtentLocation) list option" where
  "et_to_btree s = map_option (\<lambda>kvs. fold (\<lambda>(k, v). al_put k v) kvs []) (et_iter s)"

definition et_add_refs :: "u32 \<Rightarrow> ExtentTable \<Rightarrow> ExtentTable" where
  "et_add_refs n t = t\<lparr>et_chunks :=
     map (\<lambda>(c, chunk). (c, map (\<lambda>p. p\<lparr>pk_refs := sat_add (pk_refs p) n\<rparr>) chunk)) (et_chunks t)\<rparr>"

text \<open>Operations that only use \<open>get\<close> and \<open>insert\<close>, over any table that has the two.\<close>

definition table_update :: "('k \<Rightarrow> 's \<Rightarrow> 'v option option) \<Rightarrow> ('k \<Rightarrow> 'v \<Rightarrow> 's \<Rightarrow> ('v option \<times> 's) option)
    \<Rightarrow> 'k \<Rightarrow> ('v \<Rightarrow> 'r \<times> 'v) \<Rightarrow> 's \<Rightarrow> ('r option \<times> 's) option" where
  "table_update get ins k f s = do {
     found \<leftarrow> get k s;
     (case found of
        None \<Rightarrow> Some (None, s)
      | Some v \<Rightarrow> do {
          let (r, v) = f v;
          (_, s) \<leftarrow> ins k v s;
          Some (Some r, s)
        })
   }"

fun table_extend :: "('k \<Rightarrow> 'v \<Rightarrow> 's \<Rightarrow> ('v option \<times> 's) option) \<Rightarrow> ('k \<times> 'v) list \<Rightarrow> 's \<Rightarrow> 's option" where
  "table_extend ins [] s = Some s"
| "table_extend ins ((k, v) # kvs) s = do { (_, s) \<leftarrow> ins k v s; table_extend ins kvs s }"

fun table_for_each :: "('k \<Rightarrow> 's \<Rightarrow> 'v option option) \<Rightarrow> ('k \<Rightarrow> 'v \<Rightarrow> 's \<Rightarrow> ('v option \<times> 's) option)
    \<Rightarrow> ('k \<Rightarrow> 'v \<Rightarrow> 'a \<Rightarrow> bool \<times> 'v \<times> 'a) \<Rightarrow> 'k list \<Rightarrow> 'a \<Rightarrow> 's \<Rightarrow> ('a \<times> 's) option" where
  "table_for_each get ins f [] acc s = Some (acc, s)"
| "table_for_each get ins f (k # ks) acc s = do {
     found \<leftarrow> get k s;
     (case found of
        None \<Rightarrow> table_for_each get ins f ks acc s
      | Some v \<Rightarrow>
          (case f k v acc of (changed, v, acc) \<Rightarrow>
             if changed
             then do { (_, s) \<leftarrow> ins k v s; table_for_each get ins f ks acc s }
             else table_for_each get ins f ks acc s))
   }"

definition et_update :: "u64 \<Rightarrow> (ExtentLocation \<Rightarrow> 'r \<times> ExtentLocation) \<Rightarrow> table_state
    \<Rightarrow> ('r option \<times> table_state) option" where
  "et_update = table_update et_get et_insert"

definition et_for_each_mut :: "(u64 \<Rightarrow> ExtentLocation \<Rightarrow> 'a \<Rightarrow> bool \<times> ExtentLocation \<times> 'a) \<Rightarrow> 'a \<Rightarrow> table_state
    \<Rightarrow> ('a \<times> table_state) option" where
  "et_for_each_mut f acc s = table_for_each et_get et_insert f (et_keys (snd s)) acc s"

definition et_from_iter :: "(u64 \<times> ExtentLocation) list \<Rightarrow> interner \<Rightarrow> table_state option" where
  "et_from_iter kvs w = table_extend et_insert kvs (w, et_new)"

definition et_extend_from :: "ExtentTable \<Rightarrow> table_state \<Rightarrow> table_state option" where
  "et_extend_from other s = do { kvs \<leftarrow> et_iter (fst s, other); table_extend et_insert kvs s }"

definition et_shifted :: "u64 \<Rightarrow> table_state \<Rightarrow> table_state option" where
  "et_shifted base s = (case s of (w, t) \<Rightarrow>
     if base AND CHUNK_MASK = 0
     then let shift = drop_bit CHUNK_SHIFT base in
       Some (w, \<lparr>et_chunks = fold (\<lambda>(c, v). al_put (c + shift) v) (et_chunks t) [],
                 et_mirrors = fold (\<lambda>(v, m). al_put (v + base) m) (et_mirrors t) [],
                 et_len = et_len t\<rparr>)
     else do {
       kvs \<leftarrow> et_iter (w, t);
       et_from_iter (map (\<lambda>(v, l). (v + base, l)) kvs) w
     })"

section \<open>Sequences of operations\<close>

text \<open>
  The operations a volume performs on its map, with what each returns: over a table with \<open>get\<close>,
  \<open>insert\<close> and \<open>remove\<close>, and over the map itself. An \<open>update\<close> is one that returns what it found.
\<close>

datatype ('k, 'v) tbl_op = OpInsert 'k 'v | OpRemove 'k | OpUpdate 'k "'v \<Rightarrow> 'v" | OpGet 'k

fun table_op :: "('k \<Rightarrow> 's \<Rightarrow> 'v option option) \<Rightarrow> ('k \<Rightarrow> 'v \<Rightarrow> 's \<Rightarrow> ('v option \<times> 's) option)
    \<Rightarrow> ('k \<Rightarrow> 's \<Rightarrow> ('v option \<times> 's) option) \<Rightarrow> ('k, 'v) tbl_op \<Rightarrow> 's \<Rightarrow> ('v option \<times> 's) option" where
  "table_op get ins del (OpInsert k v) s = ins k v s"
| "table_op get ins del (OpRemove k) s = del k s"
| "table_op get ins del (OpUpdate k f) s = table_update get ins k (\<lambda>v. (v, f v)) s"
| "table_op get ins del (OpGet k) s = map_option (\<lambda>r. (r, s)) (get k s)"

fun run_ops :: "('k \<Rightarrow> 's \<Rightarrow> 'v option option) \<Rightarrow> ('k \<Rightarrow> 'v \<Rightarrow> 's \<Rightarrow> ('v option \<times> 's) option)
    \<Rightarrow> ('k \<Rightarrow> 's \<Rightarrow> ('v option \<times> 's) option) \<Rightarrow> ('k, 'v) tbl_op list \<Rightarrow> 's \<Rightarrow> ('v option list \<times> 's) option" where
  "run_ops get ins del [] s = Some ([], s)"
| "run_ops get ins del (op # ops) s = do {
     (r, s) \<leftarrow> table_op get ins del op s;
     (rs, s) \<leftarrow> run_ops get ins del ops s;
     Some (r # rs, s)
   }"

fun map_op :: "('k, 'v) tbl_op \<Rightarrow> ('k \<rightharpoonup> 'v) \<Rightarrow> 'v option \<times> ('k \<rightharpoonup> 'v)" where
  "map_op (OpInsert k v) m = (m k, m(k \<mapsto> v))"
| "map_op (OpRemove k) m = (m k, m(k := None))"
| "map_op (OpUpdate k f) m = (m k, case m k of None \<Rightarrow> m | Some v \<Rightarrow> m(k \<mapsto> f v))"
| "map_op (OpGet k) m = (m k, m)"

fun map_run :: "('k, 'v) tbl_op list \<Rightarrow> ('k \<rightharpoonup> 'v) \<Rightarrow> 'v option list \<times> ('k \<rightharpoonup> 'v)" where
  "map_run [] m = ([], m)"
| "map_run (op # ops) m = (let (r, m) = map_op op m; (rs, m) = map_run ops m in (r # rs, m))"

fun op_within :: "'v set \<Rightarrow> ('k, 'v) tbl_op \<Rightarrow> bool" where
  "op_within V (OpInsert k v) \<longleftrightarrow> v \<in> V"
| "op_within V (OpUpdate k f) \<longleftrightarrow> (\<forall>v \<in> V. f v \<in> V)"
| "op_within V (OpRemove k) \<longleftrightarrow> True"
| "op_within V (OpGet k) \<longleftrightarrow> True"

section \<open>The interface\<close>

text \<open>
  What the users of a table rely on: \<open>tbl_abs\<close> is the map it stands for, \<open>tbl_fits V\<close> says that the
  values \<open>V\<close> can be put into it without a panic, whatever the order, and \<open>tbl_le\<close> that what a table
  shares with others (the slab ordinals) only grew.
\<close>

locale table_laws =
  fixes tbl_ok :: "'s \<Rightarrow> bool"
    and tbl_abs :: "'s \<Rightarrow> 'k \<Rightarrow> 'v option"
    and tbl_fits :: "'v set \<Rightarrow> 's \<Rightarrow> bool"
    and tbl_le :: "'s \<Rightarrow> 's \<Rightarrow> bool"
    and tbl_get :: "'k \<Rightarrow> 's \<Rightarrow> 'v option option"
    and tbl_ins :: "'k \<Rightarrow> 'v \<Rightarrow> 's \<Rightarrow> ('v option \<times> 's) option"
    and tbl_del :: "'k \<Rightarrow> 's \<Rightarrow> ('v option \<times> 's) option"
  assumes get_law: "tbl_ok s \<Longrightarrow> tbl_get k s = Some (tbl_abs s k)"
    and ins_law: "tbl_ok s \<Longrightarrow> tbl_fits V s \<Longrightarrow> v \<in> V \<Longrightarrow>
      \<exists>s'. tbl_ins k v s = Some (tbl_abs s k, s') \<and> tbl_ok s' \<and> tbl_fits V s' \<and> tbl_le s s' \<and>
        tbl_abs s' = (tbl_abs s)(k \<mapsto> v)"
    and del_law: "tbl_ok s \<Longrightarrow>
      \<exists>s'. tbl_del k s = Some (tbl_abs s k, s') \<and> tbl_ok s' \<and> (tbl_fits V s \<longrightarrow> tbl_fits V s') \<and> tbl_le s s' \<and>
        tbl_abs s' = (tbl_abs s)(k := None)"
    and le_refl: "tbl_le s s"
    and le_trans: "tbl_le a b \<Longrightarrow> tbl_le b c \<Longrightarrow> tbl_le a c"
begin

lemma update_unmapped: "tbl_ok s \<Longrightarrow> tbl_abs s k = None \<Longrightarrow> table_update tbl_get tbl_ins k f s = Some (None, s)"
  by (simp add: table_update_def get_law)

lemma update_mapped:
  assumes "tbl_ok s" "tbl_fits V s" "tbl_abs s k = Some v" "f v = (r, v')" "v' \<in> V"
  shows "\<exists>s'. table_update tbl_get tbl_ins k f s = Some (Some r, s') \<and> tbl_ok s' \<and> tbl_fits V s' \<and> tbl_le s s' \<and>
    tbl_abs s' = (tbl_abs s)(k \<mapsto> v')"
  using ins_law [OF assms(1,2,5), of k] assms(1,3,4) by (auto simp: table_update_def get_law)

lemma extend_spec:
  assumes "tbl_ok s" "tbl_fits V s" "snd ` set kvs \<subseteq> V"
  shows "\<exists>s'. table_extend tbl_ins kvs s = Some s' \<and> tbl_ok s' \<and> tbl_fits V s' \<and> tbl_le s s' \<and>
    tbl_abs s' = tbl_abs s ++ map_of (rev kvs)"
  using assms
proof (induction kvs arbitrary: s)
  case (Cons kv kvs)
  obtain k v where kv: "kv = (k, v)" by (cases kv)
  obtain s1 where s1: "tbl_ins k v s = Some (tbl_abs s k, s1)" "tbl_ok s1" "tbl_fits V s1" "tbl_le s s1"
      "tbl_abs s1 = (tbl_abs s)(k \<mapsto> v)"
    using ins_law [OF Cons.prems(1,2), of v k] Cons.prems(3) kv by auto
  obtain s2 where "table_extend tbl_ins kvs s1 = Some s2" "tbl_ok s2" "tbl_fits V s2" "tbl_le s1 s2"
      "tbl_abs s2 = tbl_abs s1 ++ map_of (rev kvs)"
    using Cons.IH [OF s1(2,3)] Cons.prems(3) by auto
  then show ?case using le_trans [OF s1(4)]
    by (simp add: kv s1(1,5) map_add_def fun_eq_iff split: option.splits)
qed (simp add: le_refl)

text \<open>\<open>for_each_mut\<close> with a closure that keeps an accumulator: the closure sees every mapped
  key once, in the order of the keys, with its value as it was, and what it says changed is
  replaced.\<close>

lemma for_each_spec:
  assumes "tbl_ok s" "tbl_fits V s" "distinct ks" "set ks \<subseteq> dom (tbl_abs s)"
    and "\<And>k v acc. fst (snd (f k v acc)) = g k v" "\<And>k v. k \<in> set ks \<Longrightarrow> tbl_abs s k = Some v \<Longrightarrow> g k v \<in> V"
    and "\<And>k v acc. \<not> fst (f k v acc) \<Longrightarrow> g k v = v"
  shows "\<exists>s'. table_for_each tbl_get tbl_ins f ks acc s =
      Some (fold (\<lambda>k acc. snd (snd (f k (the (tbl_abs s k)) acc))) ks acc, s') \<and>
    tbl_ok s' \<and> tbl_fits V s' \<and> tbl_le s s' \<and>
    tbl_abs s' = (\<lambda>k. if k \<in> set ks then map_option (g k) (tbl_abs s k) else tbl_abs s k)"
  using assms
proof (induction ks arbitrary: s acc)
  case (Cons k ks)
  obtain v where v: "tbl_abs s k = Some v" using Cons.prems(4) by auto
  obtain ch v' acc' where f: "f k v acc = (ch, v', acc')" by (metis prod_cases3)
  have g: "v' = g k v" using Cons.prems(5) [of k v acc] f by simp
  have later: "k' \<noteq> k" if "k' \<in> set ks" for k' using that Cons.prems(3) by auto
  obtain s1 where s1: "table_for_each tbl_get tbl_ins f (k # ks) acc s = table_for_each tbl_get tbl_ins f ks acc' s1"
      "tbl_ok s1" "tbl_fits V s1" "tbl_le s s1" "tbl_abs s1 = (tbl_abs s)(k \<mapsto> g k v)"
  proof (cases ch)
    case True
    obtain s1 where "tbl_ins k v' s = Some (tbl_abs s k, s1)" "tbl_ok s1" "tbl_fits V s1" "tbl_le s s1"
        "tbl_abs s1 = (tbl_abs s)(k \<mapsto> v')"
      using ins_law [OF Cons.prems(1,2), of v' k] Cons.prems(6) [of k v] v g by auto
    then show ?thesis using that [of s1] Cons.prems(1) True v f g by (simp add: get_law)
  next
    case False
    then have "g k v = v" using Cons.prems(7) [of k v acc] f by simp
    then show ?thesis using that [of s] Cons.prems(1,2) False v f
      by (simp add: get_law le_refl fun_upd_idem)
  qed
  have "\<exists>s'. table_for_each tbl_get tbl_ins f ks acc' s1 =
      Some (fold (\<lambda>k acc. snd (snd (f k (the (tbl_abs s1 k)) acc))) ks acc', s') \<and>
    tbl_ok s' \<and> tbl_fits V s' \<and> tbl_le s1 s' \<and>
    tbl_abs s' = (\<lambda>k. if k \<in> set ks then map_option (g k) (tbl_abs s1 k) else tbl_abs s1 k)"
    by (rule Cons.IH) (use s1 Cons.prems later in auto)
  moreover have "fold (\<lambda>k acc. snd (snd (f k (the (tbl_abs s1 k)) acc))) ks acc'
      = fold (\<lambda>k acc. snd (snd (f k (the (tbl_abs s k)) acc))) ks acc'"
    by (rule fold_cong) (use s1(5) later in auto)
  ultimately show ?case
    using Cons.prems(3) v f s1(1,5) le_trans [OF s1(4)] by (auto simp: fun_eq_iff)
qed (simp add: le_refl)

text \<open>A run of operations, and what it does to the map behind the table.\<close>

lemma run_ops_spec:
  assumes "tbl_ok s" "tbl_fits V s" "ran (tbl_abs s) \<subseteq> V" "list_all (op_within V) ops"
  shows "\<exists>s'. run_ops tbl_get tbl_ins tbl_del ops s = Some (fst (map_run ops (tbl_abs s)), s') \<and>
    tbl_ok s' \<and> tbl_abs s' = snd (map_run ops (tbl_abs s))"
  using assms
proof (induction ops arbitrary: s)
  case (Cons op ops)
  let ?m = "tbl_abs s"
  have "\<exists>s1. table_op tbl_get tbl_ins tbl_del op s = Some (fst (map_op op ?m), s1) \<and> tbl_ok s1 \<and>
      tbl_fits V s1 \<and> tbl_abs s1 = snd (map_op op ?m)"
  proof (cases op)
    case (OpInsert k v)
    then show ?thesis using ins_law [OF Cons.prems(1,2), of v k] Cons.prems(4) by auto
  next
    case (OpRemove k)
    then show ?thesis using del_law [OF Cons.prems(1), of k V] Cons.prems(2) by auto
  next
    case (OpUpdate k f)
    show ?thesis
    proof (cases "?m k")
      case None
      then show ?thesis using OpUpdate Cons.prems(1,2) by (simp add: update_unmapped)
    next
      case (Some v)
      then have "v \<in> V" using Cons.prems(3) by (auto simp: ran_def)
      then have "f v \<in> V" using Cons.prems(4) OpUpdate by simp
      then show ?thesis
        using update_mapped [OF Cons.prems(1,2) Some, of "\<lambda>v. (v, f v)" v "f v"] OpUpdate Some by auto
    qed
  next
    case (OpGet k)
    then show ?thesis using Cons.prems(1,2) by (simp add: get_law)
  qed
  then obtain s1 where s1: "table_op tbl_get tbl_ins tbl_del op s = Some (fst (map_op op ?m), s1)" "tbl_ok s1"
      "tbl_fits V s1" "tbl_abs s1 = snd (map_op op ?m)" by blast
  have "ran (tbl_abs s1) \<subseteq> V"
    using Cons.prems(3,4) unfolding s1(4)
    by (cases op) (auto simp: ran_def split: option.splits if_splits)
  then obtain s2 where "run_ops tbl_get tbl_ins tbl_del ops s1 = Some (fst (map_run ops (tbl_abs s1)), s2)"
      "tbl_ok s2" "tbl_abs s2 = snd (map_run ops (tbl_abs s1))"
    using Cons.IH [OF s1(2,3)] Cons.prems(4) by auto
  then show ?case using s1 by (auto simp: split_beta)
qed simp

end

text \<open>The ordered map of the standard library meets the interface.\<close>

definition bt_get :: "'k \<Rightarrow> ('k \<times> 'v) list \<Rightarrow> 'v option option" where
  "bt_get k m = Some (map_of m k)"

definition bt_insert :: "'k::linorder \<Rightarrow> 'v \<Rightarrow> ('k \<times> 'v) list \<Rightarrow> ('v option \<times> ('k \<times> 'v) list) option" where
  "bt_insert k v m = Some (map_of m k, al_put k v m)"

definition bt_remove :: "'k \<Rightarrow> ('k \<times> 'v) list \<Rightarrow> ('v option \<times> ('k \<times> 'v) list) option" where
  "bt_remove k m = Some (map_of m k, al_del k m)"

interpretation btree: table_laws al_wf map_of "\<lambda>_ _. True" "\<lambda>_ _. True" bt_get bt_insert bt_remove
  by unfold_locales (simp_all add: bt_get_def bt_insert_def bt_remove_def)

lemma al_unique_set: "al_wf a \<Longrightarrow> al_wf b \<Longrightarrow> set a = set b \<Longrightarrow> a = b"
  using map_sorted_distinct_set_unique [of fst a b] by (auto simp: al_wf_def distinct_map)

lemma al_unique: "al_wf a \<Longrightarrow> al_wf b \<Longrightarrow> map_of a = map_of b \<Longrightarrow> a = b"
  using al_unique_set map_of_inject_set by (metis al_wf_def)

end
