(* ===== verification/Gem.thy ===== *)
theory Gem
  imports ExTable SlotCodec "HOL-Library.Product_Lexorder"
begin

text \<open>
  The global extent map (\<open>src/volume/gem.rs\<close>): the extent table and parity groups of every
  volume, the maps that are not in memory, and the record of what changed since the last
  persist. The slab ordinals, global to the process, are part of the state. The value \<open>None\<close> of
  an operation is a panic: the map of a volume that is not in memory was asked for, or the table
  panicked. Share counts and generations wrap as in a release build. A walk of a hash map is in
  the order of the list that models it.
\<close>

section \<open>Locations\<close>

definition leg_of :: "uuid \<Rightarrow> u64 \<Rightarrow> Leg" where
  "leg_of slab_id slot_idx = \<lparr>lg_slab = slab_id, lg_slot = slot_idx\<rparr>"

definition location_new :: "uuid \<Rightarrow> u64 \<Rightarrow> ExtentLocation" where
  "location_new slab_id slot_idx =
     \<lparr>el_slab = slab_id, el_slot = slot_idx, el_refs = 1, el_gen = 1, el_mirrors = []\<rparr>"

definition with_legs :: "Leg \<Rightarrow> Leg list \<Rightarrow> ExtentLocation" where
  "with_legs prim mirrors =
     \<lparr>el_slab = lg_slab prim, el_slot = lg_slot prim, el_refs = 1, el_gen = 1, el_mirrors = mirrors\<rparr>"

definition primary :: "ExtentLocation \<Rightarrow> Leg" where
  "primary loc = \<lparr>lg_slab = el_slab loc, lg_slot = el_slot loc\<rparr>"

definition legs :: "ExtentLocation \<Rightarrow> Leg list" where
  "legs loc = primary loc # el_mirrors loc"

definition leg_count :: "ExtentLocation \<Rightarrow> nat" where
  "leg_count loc = 1 + length (el_mirrors loc)"

definition leg_on :: "uuid \<Rightarrow> ExtentLocation \<Rightarrow> Leg option" where
  "leg_on slab_id loc = find (\<lambda>l. lg_slab l = slab_id) (legs loc)"

definition same_slots :: "ExtentLocation \<Rightarrow> ExtentLocation \<Rightarrow> bool" where
  "same_slots a b \<longleftrightarrow> leg_count a = leg_count b \<and> list_all (\<lambda>l. list_ex (\<lambda>x. x = l) (legs b)) (legs a)"

definition set_primary :: "Leg \<Rightarrow> ExtentLocation \<Rightarrow> ExtentLocation" where
  "set_primary l loc = loc\<lparr>el_slab := lg_slab l, el_slot := lg_slot l\<rparr>"

section \<open>Parity groups and their tags\<close>

record ParityGroup =
  pg_legs :: "Leg list"
  pg_refs :: u32
  pg_gen :: u64
  pg_width :: u8

definition parity_group_new :: "Leg list \<Rightarrow> u8 \<Rightarrow> ParityGroup" where
  "parity_group_new ls width = \<lparr>pg_legs = ls, pg_refs = 1, pg_gen = 1, pg_width = width\<rparr>"

definition PARITY_TAG :: u64 where "PARITY_TAG = push_bit 63 1"

definition PARITY_LEG_SHIFT :: nat where "PARITY_LEG_SHIFT = 56"

definition PARITY_STRIPE_MASK :: u64 where "PARITY_STRIPE_MASK = push_bit PARITY_LEG_SHIFT 1 - 1"

definition parity_vext :: "u8 \<Rightarrow> u64 \<Rightarrow> u64" where
  "parity_vext leg stripe =
     PARITY_TAG OR push_bit PARITY_LEG_SHIFT (ucast leg AND 0x7F) OR (stripe AND PARITY_STRIPE_MASK)"

definition parse_parity_vext :: "u64 \<Rightarrow> (u8 \<times> u64) option" where
  "parse_parity_vext v =
     (if v AND PARITY_TAG = 0 then None
      else Some (ucast (drop_bit PARITY_LEG_SHIFT v AND 0x7F), v AND PARITY_STRIPE_MASK))"

section \<open>State\<close>

record VolumeExtentMap =
  vm_extents :: ExtentTable
  vm_parity :: "(u64 \<times> ParityGroup) list"

definition vm_new :: VolumeExtentMap where
  "vm_new = \<lparr>vm_extents = et_new, vm_parity = []\<rparr>"

definition vm_is_empty :: "VolumeExtentMap \<Rightarrow> bool" where
  "vm_is_empty m = et_is_empty (vm_extents m)"

definition vm_exclusive :: "VolumeExtentMap \<Rightarrow> nat" where
  "vm_exclusive m = length (filter (\<lambda>r. r \<le> 1) (et_ref_counts (vm_extents m)))"

definition vm_shared :: "VolumeExtentMap \<Rightarrow> nat" where
  "vm_shared m = length (filter (\<lambda>r. r > 1) (et_ref_counts (vm_extents m)))"

definition vm_exclusive_legs :: "interner \<Rightarrow> VolumeExtentMap \<Rightarrow> nat option" where
  "vm_exclusive_legs w m = do {
     locs \<leftarrow> et_values (w, vm_extents m);
     Some (sum_list (map leg_count (filter (\<lambda>l. el_refs l \<le> 1) locs))
           + length (concat (map (\<lambda>(_, g). pg_legs g) (filter (\<lambda>(_, g). pg_refs g \<le> 1) (vm_parity m)))))
   }"

definition all_legs :: "interner \<Rightarrow> VolumeExtentMap \<Rightarrow> Leg list option" where
  "all_legs w m = do {
     locs \<leftarrow> et_values (w, vm_extents m);
     Some (concat (map legs locs) @ concat (map (\<lambda>(_, g). pg_legs g) (vm_parity m)))
   }"

record ColdMap =
  cm_extents :: nat
  cm_exclusive :: nat
  cm_shared :: nat
  cm_exclusive_legs :: nat
  cm_slabs :: "uuid list"

record Changes =
  ch_whole :: "uuid set"
  ch_extents :: "(uuid \<times> u64 set) list"
  ch_parity :: "(uuid \<times> u64 set) list"

definition changes_new :: Changes where
  "changes_new = \<lparr>ch_whole = {}, ch_extents = [], ch_parity = []\<rparr>"

record Gem =
  gm_interner :: interner
  gm_volumes :: "(uuid \<times> VolumeExtentMap) list"
  gm_cold :: "(uuid \<times> ColdMap) list"
  gm_pins :: nat
  gm_track :: bool
  gm_changes :: Changes

definition gem_new :: "interner \<Rightarrow> Gem" where
  "gem_new w = \<lparr>gm_interner = w, gm_volumes = [], gm_cold = [], gm_pins = 0, gm_track = False,
     gm_changes = changes_new\<rparr>"

section \<open>Maps that are not in memory\<close>

definition is_cold :: "uuid \<Rightarrow> Gem \<Rightarrow> bool" where
  "is_cold v g \<longleftrightarrow> map_of (gm_cold g) v \<noteq> None"

text \<open>\<open>check\<close> and \<open>check_all\<close> panic where the guard of an operation below is false.\<close>

definition gem_check :: "uuid \<Rightarrow> Gem \<Rightarrow> bool" where
  "gem_check v g \<longleftrightarrow> \<not> is_cold v g"

definition gem_check_all :: "Gem \<Rightarrow> bool" where
  "gem_check_all g \<longleftrightarrow> gm_cold g = []"

definition gem_pin :: "Gem \<Rightarrow> Gem" where
  "gem_pin g = g\<lparr>gm_pins := gm_pins g + 1\<rparr>"

definition gem_unpin :: "Gem \<Rightarrow> Gem" where
  "gem_unpin g = g\<lparr>gm_pins := gm_pins g - 1\<rparr>"

definition has_changes :: "uuid \<Rightarrow> Gem \<Rightarrow> bool" where
  "has_changes v g \<longleftrightarrow> v \<in> ch_whole (gm_changes g) \<or> map_of (ch_extents (gm_changes g)) v \<noteq> None
     \<or> map_of (ch_parity (gm_changes g)) v \<noteq> None"

text \<open>\<open>sort_by_key\<close> and \<open>dedup\<close>.\<close>

definition evict :: "uuid \<Rightarrow> Gem \<Rightarrow> (bool \<times> Gem) option" where
  "evict v g =
     (if gm_pins g > 0 \<or> has_changes v g \<or> is_cold v g then Some (False, g)
      else case map_of (gm_volumes g) v of
             None \<Rightarrow> Some (False, g)
           | Some m \<Rightarrow> do {
               ls \<leftarrow> all_legs (gm_interner g) m;
               el \<leftarrow> vm_exclusive_legs (gm_interner g) m;
               let slabs = remdups_adj (sort (map lg_slab ls));
               Some (True, g\<lparr>gm_volumes := al_del v (gm_volumes g),
                 gm_cold := al_put v \<lparr>cm_extents = et_len (vm_extents m), cm_exclusive = vm_exclusive m,
                   cm_shared = vm_shared m, cm_exclusive_legs = el, cm_slabs = slabs\<rparr> (gm_cold g)\<rparr>)
             })"

definition install :: "uuid \<Rightarrow> VolumeExtentMap \<Rightarrow> Gem \<Rightarrow> Gem" where
  "install v m g =
     (let g = g\<lparr>gm_cold := al_del v (gm_cold g)\<rparr>
      in if \<not> vm_is_empty m then g\<lparr>gm_volumes := al_put v m (gm_volumes g)\<rparr> else g)"

text \<open>\<open>ensure_resident\<close>; \<open>pager\<close> is the store's \<open>load\<close>, if there is a pager.\<close>

definition ensure_resident :: "(uuid \<Rightarrow> 'e + VolumeExtentMap) option \<Rightarrow> 'e \<Rightarrow> uuid \<Rightarrow> Gem \<Rightarrow> ('e + unit) \<times> Gem" where
  "ensure_resident pager no_pager v g =
     (if \<not> is_cold v g then (Inr (), g)
      else case pager of
             None \<Rightarrow> (Inl no_pager, g)
           | Some load \<Rightarrow> (case load v of Inl e \<Rightarrow> (Inl e, g) | Inr m \<Rightarrow> (Inr (), install v m g)))"

section \<open>Changes\<close>

definition track_changes :: "bool \<Rightarrow> Gem \<Rightarrow> Gem" where
  "track_changes on g = (let g = g\<lparr>gm_track := on\<rparr> in if on then g else g\<lparr>gm_changes := changes_new\<rparr>)"

definition take_changes :: "Gem \<Rightarrow> Changes \<times> Gem" where
  "take_changes g = (gm_changes g, g\<lparr>gm_changes := changes_new\<rparr>)"

definition add_change :: "uuid \<Rightarrow> u64 \<Rightarrow> (uuid \<times> u64 set) list \<Rightarrow> (uuid \<times> u64 set) list" where
  "add_change v e m = al_put v (insert e (case map_of m v of Some s \<Rightarrow> s | None \<Rightarrow> {})) m"

definition touch :: "uuid \<Rightarrow> u64 \<Rightarrow> Gem \<Rightarrow> Gem" where
  "touch v e g = (if gm_track g
     then g\<lparr>gm_changes := gm_changes g\<lparr>ch_extents := add_change v e (ch_extents (gm_changes g))\<rparr>\<rparr> else g)"

definition touch_parity :: "uuid \<Rightarrow> u64 \<Rightarrow> Gem \<Rightarrow> Gem" where
  "touch_parity v s g = (if gm_track g
     then g\<lparr>gm_changes := gm_changes g\<lparr>ch_parity := add_change v s (ch_parity (gm_changes g))\<rparr>\<rparr> else g)"

definition touch_whole :: "uuid \<Rightarrow> Gem \<Rightarrow> Gem" where
  "touch_whole v g = (if gm_track g
     then g\<lparr>gm_changes := gm_changes g\<lparr>ch_whole := insert v (ch_whole (gm_changes g))\<rparr>\<rparr> else g)"

section \<open>One extent or stripe\<close>

definition vm_of :: "uuid \<Rightarrow> Gem \<Rightarrow> VolumeExtentMap" where
  "vm_of v g = (case map_of (gm_volumes g) v of Some m \<Rightarrow> m | None \<Rightarrow> vm_new)"

definition vm_put :: "uuid \<Rightarrow> VolumeExtentMap \<Rightarrow> Gem \<Rightarrow> Gem" where
  "vm_put v m g = g\<lparr>gm_volumes := al_put v m (gm_volumes g)\<rparr>"

text \<open>An operation on the extent table of a volume's map.\<close>

definition on_table :: "(table_state \<Rightarrow> ('r \<times> table_state) option) \<Rightarrow> uuid \<Rightarrow> VolumeExtentMap \<Rightarrow> Gem \<Rightarrow> ('r \<times> Gem) option" where
  "on_table f v m g = do {
     (r, w, t) \<leftarrow> f (gm_interner g, vm_extents m);
     Some (r, vm_put v (m\<lparr>vm_extents := t\<rparr>) (g\<lparr>gm_interner := w\<rparr>))
   }"

definition gem_insert :: "uuid \<Rightarrow> u64 \<Rightarrow> ExtentLocation \<Rightarrow> Gem \<Rightarrow> Gem option" where
  "gem_insert v e loc g =
     (if gem_check v g
      then do { (_, g) \<leftarrow> on_table (et_insert e loc) v (vm_of v g) g; Some (touch v e g) }
      else None)"

definition gem_insert_parity :: "uuid \<Rightarrow> u64 \<Rightarrow> ParityGroup \<Rightarrow> Gem \<Rightarrow> Gem option" where
  "gem_insert_parity v s grp g =
     (if gem_check v g
      then let m = vm_of v g in
        Some (touch_parity v s (vm_put v (m\<lparr>vm_parity := al_put s grp (vm_parity m)\<rparr>) g))
      else None)"

definition gem_lookup :: "uuid \<Rightarrow> u64 \<Rightarrow> Gem \<Rightarrow> ExtentLocation option option" where
  "gem_lookup v e g =
     (if gem_check v g
      then (case map_of (gm_volumes g) v of
              None \<Rightarrow> Some None
            | Some m \<Rightarrow> et_get e (gm_interner g, vm_extents m))
      else None)"

definition gem_lookup_parity :: "uuid \<Rightarrow> u64 \<Rightarrow> Gem \<Rightarrow> ParityGroup option option" where
  "gem_lookup_parity v s g =
     (if gem_check v g
      then (case map_of (gm_volumes g) v of None \<Rightarrow> Some None | Some m \<Rightarrow> Some (map_of (vm_parity m) s))
      else None)"

definition mapped_in :: "uuid \<Rightarrow> u64 \<Rightarrow> u64 \<Rightarrow> Gem \<Rightarrow> u64 list option" where
  "mapped_in v lo hi g =
     (if gem_check v g
      then Some (case map_of (gm_volumes g) v of None \<Rightarrow> [] | Some m \<Rightarrow> et_keys_in lo hi (vm_extents m))
      else None)"

text \<open>A map with neither extents nor parity is dropped.\<close>

definition drop_if_bare :: "uuid \<Rightarrow> Gem \<Rightarrow> Gem" where
  "drop_if_bare v g =
     (let m = vm_of v g in
      if et_is_empty (vm_extents m) \<and> vm_parity m = [] then g\<lparr>gm_volumes := al_del v (gm_volumes g)\<rparr> else g)"

definition gem_remove :: "uuid \<Rightarrow> u64 \<Rightarrow> Gem \<Rightarrow> (ExtentLocation option \<times> Gem) option" where
  "gem_remove v e g =
     (if gem_check v g
      then (case map_of (gm_volumes g) v of
              None \<Rightarrow> Some (None, g)
            | Some m \<Rightarrow> do {
                (r, g) \<leftarrow> on_table (et_remove e) v m g;
                (case r of
                   None \<Rightarrow> Some (None, g)
                 | Some loc \<Rightarrow> Some (Some loc, touch v e (drop_if_bare v g)))
              })
      else None)"

definition gem_remove_parity :: "uuid \<Rightarrow> u64 \<Rightarrow> Gem \<Rightarrow> (ParityGroup option \<times> Gem) option" where
  "gem_remove_parity v s g =
     (if gem_check v g
      then (case map_of (gm_volumes g) v of
              None \<Rightarrow> Some (None, g)
            | Some m \<Rightarrow>
                (case map_of (vm_parity m) s of
                   None \<Rightarrow> Some (None, g)
                 | Some grp \<Rightarrow> Some (Some grp, touch_parity v s
                     (drop_if_bare v (vm_put v (m\<lparr>vm_parity := al_del s (vm_parity m)\<rparr>) g)))))
      else None)"

text \<open>Changing one location in place, recorded when \<open>hit\<close> says so of what the change returned.\<close>

definition update_extent :: "uuid \<Rightarrow> u64 \<Rightarrow> (ExtentLocation \<Rightarrow> bool \<times> ExtentLocation) \<Rightarrow> Gem \<Rightarrow> (bool \<times> Gem) option" where
  "update_extent v e f g =
     (if gem_check v g
      then (case map_of (gm_volumes g) v of
              None \<Rightarrow> Some (False, g)
            | Some m \<Rightarrow> do {
                (r, g) \<leftarrow> on_table (et_update e f) v m g;
                if r = Some True then Some (True, touch v e g) else Some (False, g)
              })
      else None)"

definition update_parity :: "uuid \<Rightarrow> u64 \<Rightarrow> (ParityGroup \<Rightarrow> bool \<times> ParityGroup) \<Rightarrow> Gem \<Rightarrow> (bool \<times> Gem) option" where
  "update_parity v s f g =
     (if gem_check v g
      then (case map_of (gm_volumes g) v of
              None \<Rightarrow> Some (False, g)
            | Some m \<Rightarrow>
                (case map_of (vm_parity m) s of
                   None \<Rightarrow> Some (False, g)
                 | Some grp \<Rightarrow>
                     (case f grp of (hit, grp') \<Rightarrow>
                        if hit then Some (True, touch_parity v s (vm_put v (m\<lparr>vm_parity := al_put s grp' (vm_parity m)\<rparr>) g))
                        else Some (False, g))))
      else None)"

definition inc_extent_ref :: "uuid \<Rightarrow> u64 \<Rightarrow> Gem \<Rightarrow> Gem option" where
  "inc_extent_ref v e g = map_option snd (update_extent v e (\<lambda>l. (True, l\<lparr>el_refs := el_refs l + 1\<rparr>)) g)"

definition set_extent_ref :: "uuid \<Rightarrow> u64 \<Rightarrow> u32 \<Rightarrow> Gem \<Rightarrow> Gem option" where
  "set_extent_ref v e n g = map_option snd (update_extent v e (\<lambda>l. (True, l\<lparr>el_refs := n\<rparr>)) g)"

definition inc_parity_ref :: "uuid \<Rightarrow> u64 \<Rightarrow> Gem \<Rightarrow> Gem option" where
  "inc_parity_ref v s g = map_option snd (update_parity v s (\<lambda>p. (True, p\<lparr>pg_refs := pg_refs p + 1\<rparr>)) g)"

definition set_parity_ref :: "uuid \<Rightarrow> u64 \<Rightarrow> u32 \<Rightarrow> Gem \<Rightarrow> Gem option" where
  "set_parity_ref v s n g = map_option snd (update_parity v s (\<lambda>p. (True, p\<lparr>pg_refs := n\<rparr>)) g)"

definition set_owner_ref :: "uuid \<Rightarrow> u64 \<Rightarrow> Leg \<Rightarrow> u32 \<Rightarrow> Gem \<Rightarrow> Gem option" where
  "set_owner_ref owner tagged leg n g =
     (if is_cold owner g then Some g
      else case parse_parity_vext tagged of
             Some (_, stripe) \<Rightarrow> map_option snd
               (update_parity owner stripe (\<lambda>p. if leg \<in> set (pg_legs p) then (True, p\<lparr>pg_refs := n\<rparr>) else (False, p)) g)
           | None \<Rightarrow> map_option snd
               (update_extent owner tagged (\<lambda>l. if leg \<in> set (legs l) then (True, l\<lparr>el_refs := n\<rparr>) else (False, l)) g))"

definition replace_in :: "Leg \<Rightarrow> Leg \<Rightarrow> ExtentLocation \<Rightarrow> bool \<times> ExtentLocation" where
  "replace_in old new loc =
     (if primary loc = old then (True, (set_primary new loc)\<lparr>el_gen := el_gen loc + 1\<rparr>)
      else case position (\<lambda>m. m = old) (el_mirrors loc) of
             Some i \<Rightarrow> (True, loc\<lparr>el_mirrors := (el_mirrors loc)[i := new], el_gen := el_gen loc + 1\<rparr>)
           | None \<Rightarrow> (False, loc))"

definition replace_leg :: "uuid \<Rightarrow> u64 \<Rightarrow> Leg \<Rightarrow> Leg \<Rightarrow> Gem \<Rightarrow> (bool \<times> Gem) option" where
  "replace_leg v e old new g = update_extent v e (replace_in old new) g"

definition add_in :: "Leg \<Rightarrow> ExtentLocation \<Rightarrow> bool \<times> ExtentLocation" where
  "add_in leg loc = (True, if leg \<in> set (legs loc) then loc else loc\<lparr>el_mirrors := el_mirrors loc @ [leg]\<rparr>)"

definition add_leg :: "uuid \<Rightarrow> u64 \<Rightarrow> Leg \<Rightarrow> Gem \<Rightarrow> (bool \<times> Gem) option" where
  "add_leg v e leg g = update_extent v e (add_in leg) g"

definition drop_in :: "Leg \<Rightarrow> ExtentLocation \<Rightarrow> bool \<times> ExtentLocation" where
  "drop_in leg loc =
     (if primary loc = leg
      then (case el_mirrors loc of
              [] \<Rightarrow> (False, loc)
            | nxt # rest \<Rightarrow> (True, set_primary nxt (loc\<lparr>el_mirrors := rest\<rparr>)))
      else let ms = filter (\<lambda>m. m \<noteq> leg) (el_mirrors loc) in
           if length ms = length (el_mirrors loc) then (False, loc) else (True, loc\<lparr>el_mirrors := ms\<rparr>))"

definition drop_leg :: "uuid \<Rightarrow> u64 \<Rightarrow> Leg \<Rightarrow> Gem \<Rightarrow> (bool \<times> Gem) option" where
  "drop_leg v e leg g = update_extent v e (drop_in leg) g"

definition replace_parity_leg :: "uuid \<Rightarrow> u64 \<Rightarrow> Leg \<Rightarrow> Leg \<Rightarrow> Gem \<Rightarrow> (bool \<times> Gem) option" where
  "replace_parity_leg v s old new g =
     update_parity v s (\<lambda>p. case position (\<lambda>l. l = old) (pg_legs p) of
        Some i \<Rightarrow> (True, p\<lparr>pg_legs := (pg_legs p)[i := new], pg_gen := pg_gen p + 1\<rparr>)
      | None \<Rightarrow> (False, p)) g"

section \<open>Sweeps over every map\<close>

text \<open>\<open>for (vid, vmap) in self.volumes.iter_mut()\<close>, with the slab ordinals and an accumulator passed along.\<close>

fun sweep_volumes :: "(uuid \<Rightarrow> VolumeExtentMap \<Rightarrow> 'a \<Rightarrow> interner \<Rightarrow> (VolumeExtentMap \<times> 'a \<times> interner) option)
    \<Rightarrow> (uuid \<times> VolumeExtentMap) list \<Rightarrow> 'a \<Rightarrow> interner \<Rightarrow> ((uuid \<times> VolumeExtentMap) list \<times> 'a \<times> interner) option" where
  "sweep_volumes f [] acc w = Some ([], acc, w)"
| "sweep_volumes f ((v, m) # vms) acc w = do {
     (m, acc, w) \<leftarrow> f v m acc w;
     (vms, acc, w) \<leftarrow> sweep_volumes f vms acc w;
     Some ((v, m) # vms, acc, w)
   }"

text \<open>What a sweep counted, and the extents and stripes it has to record as changed.\<close>

record sweep =
  sw_count :: nat
  sw_extents :: "(uuid \<times> u64) list"
  sw_stripes :: "(uuid \<times> u64) list"

definition sweep_none :: sweep where
  "sweep_none = \<lparr>sw_count = 0, sw_extents = [], sw_stripes = []\<rparr>"

definition touch_all :: "sweep \<Rightarrow> Gem \<Rightarrow> Gem" where
  "touch_all a g = fold (\<lambda>(v, s). touch_parity v s) (sw_stripes a) (fold (\<lambda>(v, e). touch v e) (sw_extents a) g)"

definition moved :: "(Leg \<times> Leg) list \<Rightarrow> Leg \<Rightarrow> Leg" where
  "moved moves l = (case map_of moves l of Some new \<Rightarrow> new | None \<Rightarrow> l)"

definition moved_count :: "(Leg \<times> Leg) list \<Rightarrow> Leg list \<Rightarrow> nat" where
  "moved_count moves ls = length (filter (\<lambda>l. map_of moves l \<noteq> None) ls)"

definition rewrite_loc :: "(Leg \<times> Leg) list \<Rightarrow> ExtentLocation \<Rightarrow> ExtentLocation" where
  "rewrite_loc moves loc =
     (let loc' = (case map_of moves (primary loc) of
                    Some new \<Rightarrow> (set_primary new loc)\<lparr>el_gen := el_gen loc + 1\<rparr>
                  | None \<Rightarrow> loc)
      in loc'\<lparr>el_mirrors := map (moved moves) (el_mirrors loc)\<rparr>)"

definition rewrite_extent :: "(Leg \<times> Leg) list \<Rightarrow> bool \<Rightarrow> uuid \<Rightarrow> u64 \<Rightarrow> ExtentLocation \<Rightarrow> sweep
    \<Rightarrow> bool \<times> ExtentLocation \<times> sweep" where
  "rewrite_extent moves track v e loc a =
     (let n = moved_count moves (legs loc) in
      (n \<noteq> 0, rewrite_loc moves loc,
       a\<lparr>sw_count := sw_count a + n,
         sw_extents := sw_extents a @ (if track \<and> n \<noteq> 0 then [(v, e)] else [])\<rparr>))"

definition rewrite_group :: "(Leg \<times> Leg) list \<Rightarrow> ParityGroup \<Rightarrow> ParityGroup" where
  "rewrite_group moves p =
     p\<lparr>pg_legs := map (moved moves) (pg_legs p), pg_gen := pg_gen p + of_nat (moved_count moves (pg_legs p))\<rparr>"

definition rewrite_stripe :: "(Leg \<times> Leg) list \<Rightarrow> bool \<Rightarrow> uuid \<Rightarrow> u64 \<times> ParityGroup \<Rightarrow> sweep \<Rightarrow> sweep" where
  "rewrite_stripe moves track v sp a =
     (let n = moved_count moves (pg_legs (snd sp)) in
      a\<lparr>sw_count := sw_count a + n,
        sw_stripes := sw_stripes a @ (if track then replicate n (v, fst sp) else [])\<rparr>)"

definition rewrite_volume :: "(Leg \<times> Leg) list \<Rightarrow> bool \<Rightarrow> uuid \<Rightarrow> VolumeExtentMap \<Rightarrow> sweep \<Rightarrow> interner
    \<Rightarrow> (VolumeExtentMap \<times> sweep \<times> interner) option" where
  "rewrite_volume moves track v m a w = do {
     (a, w, t) \<leftarrow> et_for_each_mut (rewrite_extent moves track v) a (w, vm_extents m);
     let a = fold (rewrite_stripe moves track v) (vm_parity m) a;
     Some (\<lparr>vm_extents = t, vm_parity = map (\<lambda>(s, p). (s, rewrite_group moves p)) (vm_parity m)\<rparr>, a, w)
   }"

definition rewrite_legs :: "(Leg \<times> Leg) list \<Rightarrow> Gem \<Rightarrow> (nat \<times> Gem) option" where
  "rewrite_legs moves g =
     (if \<not> gem_check_all g then None
      else if moves = [] then Some (0, g)
      else do {
        (vms, a, w) \<leftarrow> sweep_volumes (rewrite_volume moves (gm_track g)) (gm_volumes g) sweep_none (gm_interner g);
        Some (sw_count a, touch_all a (g\<lparr>gm_volumes := vms, gm_interner := w\<rparr>))
      })"

text \<open>A sweep that changes single locations and counts the ones it changed.\<close>

definition sweep_extent :: "(ExtentLocation \<Rightarrow> bool \<times> ExtentLocation) \<Rightarrow> uuid \<Rightarrow> u64 \<Rightarrow> ExtentLocation \<Rightarrow> sweep
    \<Rightarrow> bool \<times> ExtentLocation \<times> sweep" where
  "sweep_extent f v e loc a =
     (case f loc of (hit, loc') \<Rightarrow>
        if hit then (True, loc', a\<lparr>sw_count := sw_count a + 1, sw_extents := sw_extents a @ [(v, e)]\<rparr>)
        else (False, loc', a))"

definition sweep_locations :: "(ExtentLocation \<Rightarrow> bool \<times> ExtentLocation) \<Rightarrow> Gem \<Rightarrow> (nat \<times> Gem) option" where
  "sweep_locations f g =
     (if \<not> gem_check_all g then None
      else do {
        (vms, a, w) \<leftarrow> sweep_volumes (\<lambda>v m a w. do {
             (a, w, t) \<leftarrow> et_for_each_mut (sweep_extent f v) a (w, vm_extents m);
             Some (m\<lparr>vm_extents := t\<rparr>, a, w)
           }) (gm_volumes g) sweep_none (gm_interner g);
        Some (sw_count a, touch_all a (g\<lparr>gm_volumes := vms, gm_interner := w\<rparr>))
      })"

definition beside_in :: "Leg \<Rightarrow> Leg \<Rightarrow> ExtentLocation \<Rightarrow> bool \<times> ExtentLocation" where
  "beside_in existing new loc =
     (if existing \<in> set (legs loc) \<and> new \<notin> set (legs loc)
      then (True, loc\<lparr>el_mirrors := el_mirrors loc @ [new]\<rparr>) else (False, loc))"

definition add_leg_beside :: "Leg \<Rightarrow> Leg \<Rightarrow> Gem \<Rightarrow> (nat \<times> Gem) option" where
  "add_leg_beside existing new g = sweep_locations (beside_in existing new) g"

definition drop_leg_everywhere :: "Leg \<Rightarrow> Gem \<Rightarrow> (nat \<times> Gem) option" where
  "drop_leg_everywhere leg g = sweep_locations (drop_in leg) g"

text \<open>\<open>unmap_legs_everywhere\<close>: the references that keep a slot mapped, and the extents to unmap.\<close>

definition unmap_extent :: "Leg set \<Rightarrow> bool \<Rightarrow> uuid \<Rightarrow> u64 \<times> ExtentLocation \<Rightarrow> Leg set \<times> (uuid \<times> u64 \<times> Leg) list
    \<Rightarrow> Leg set \<times> (uuid \<times> u64 \<times> Leg) list" where
  "unmap_extent ls parity v el kh =
     (case el of (e, loc) \<Rightarrow> case kh of (keep, hits) \<Rightarrow>
        let p = primary loc;
            (keep, hits) = (if p \<in> ls
                            then (if parity \<or> el_mirrors loc \<noteq> [] then (insert p keep, hits)
                                  else (keep, hits @ [(v, e, p)]))
                            else (keep, hits))
        in (keep \<union> {m \<in> set (el_mirrors loc). m \<in> ls}, hits))"

definition unmap_volume :: "Leg set \<Rightarrow> interner \<Rightarrow> uuid \<times> VolumeExtentMap \<Rightarrow> Leg set \<times> (uuid \<times> u64 \<times> Leg) list
    \<Rightarrow> (Leg set \<times> (uuid \<times> u64 \<times> Leg) list) option" where
  "unmap_volume ls w vm kh =
     (case vm of (v, m) \<Rightarrow> do {
        let keep = fst kh \<union> {l \<in> \<Union> ((\<lambda>(_, p). set (pg_legs p)) ` set (vm_parity m)). l \<in> ls};
        els \<leftarrow> et_iter (w, vm_extents m);
        Some (fold (unmap_extent ls (vm_parity m \<noteq> []) v) els (keep, snd kh))
      })"

fun unmap_collect :: "Leg set \<Rightarrow> interner \<Rightarrow> (uuid \<times> VolumeExtentMap) list \<Rightarrow> Leg set \<times> (uuid \<times> u64 \<times> Leg) list
    \<Rightarrow> (Leg set \<times> (uuid \<times> u64 \<times> Leg) list) option" where
  "unmap_collect ls w [] kh = Some kh"
| "unmap_collect ls w (vm # vms) kh = do { kh \<leftarrow> unmap_volume ls w vm kh; unmap_collect ls w vms kh }"

fun unmap_hits :: "Leg set \<Rightarrow> (uuid \<times> u64 \<times> Leg) list \<Rightarrow> Leg set \<Rightarrow> Gem \<Rightarrow> (Leg set \<times> Gem) option" where
  "unmap_hits keep [] unmapped g = Some (unmapped, g)"
| "unmap_hits keep ((v, e, leg) # hits) unmapped g =
     (if leg \<in> keep then unmap_hits keep hits unmapped g
      else do { (_, g) \<leftarrow> gem_remove v e g; unmap_hits keep hits (insert leg unmapped) g })"

definition unmap_legs_everywhere :: "Leg set \<Rightarrow> Gem \<Rightarrow> (Leg set \<times> Gem) option" where
  "unmap_legs_everywhere ls g =
     (if \<not> gem_check_all g then None
      else if ls = {} then Some ({}, g)
      else do {
        (keep, hits) \<leftarrow> unmap_collect ls (gm_interner g) (gm_volumes g) ({}, []);
        unmap_hits keep hits {} g
      })"

section \<open>Whole maps\<close>

definition absorb_one :: "(uuid \<times> VolumeExtentMap) list \<Rightarrow> uuid \<Rightarrow> Gem \<Rightarrow> Gem" where
  "absorb_one other v g =
     (case map_of other v of
        None \<Rightarrow> g
      | Some m \<Rightarrow> touch_whole v (vm_put v m (g\<lparr>gm_cold := al_del v (gm_cold g)\<rparr>)))"

text \<open>\<open>absorb\<close>: \<open>other\<close> is the maps of the other extent map, \<open>ids\<close> the volumes in the order they are walked.\<close>

definition absorb :: "(uuid \<times> VolumeExtentMap) list \<Rightarrow> uuid list \<Rightarrow> Gem \<Rightarrow> Gem" where
  "absorb other ids g = fold (absorb_one other) ids g"

definition rename_volume :: "uuid \<Rightarrow> uuid \<Rightarrow> Gem \<Rightarrow> (VolumeExtentMap option \<times> Gem) option" where
  "rename_volume src dst g =
     (if \<not> gem_check dst g \<or> \<not> gem_check src g then None
      else case map_of (gm_volumes g) src of
             None \<Rightarrow> Some (None, g)
           | Some m \<Rightarrow>
               let vms = al_del src (gm_volumes g); old = map_of vms dst
               in Some (old, touch_whole dst (touch_whole src (g\<lparr>gm_volumes := al_put dst m (al_del dst vms)\<rparr>))))"

definition remove_volume :: "uuid \<Rightarrow> Gem \<Rightarrow> (VolumeExtentMap option \<times> Gem) option" where
  "remove_volume v g =
     (if \<not> gem_check v g then None
      else Some (map_of (gm_volumes g) v, (touch_whole v g)\<lparr>gm_volumes := al_del v (gm_volumes g)\<rparr>))"

text \<open>One more sharer of everything in a map.\<close>

definition share_parity :: "(u64 \<times> ParityGroup) list \<Rightarrow> (u64 \<times> ParityGroup) list" where
  "share_parity ps = map (\<lambda>(s, p). (s, p\<lparr>pg_refs := pg_refs p + 1\<rparr>)) ps"

definition share_map :: "VolumeExtentMap \<Rightarrow> VolumeExtentMap" where
  "share_map m = \<lparr>vm_extents = et_add_refs 1 (vm_extents m), vm_parity = share_parity (vm_parity m)\<rparr>"

definition clone_volume_map :: "uuid \<Rightarrow> uuid \<Rightarrow> Gem \<Rightarrow> (VolumeExtentMap option \<times> Gem) option" where
  "clone_volume_map src dst g =
     (if \<not> gem_check dst g \<or> \<not> gem_check src g then None
      else case map_of (gm_volumes g) src of
             None \<Rightarrow> Some (None, g)
           | Some m \<Rightarrow>
               let dest = \<lparr>vm_extents = et_add_refs 1 (vm_extents m),
                           vm_parity = fold (\<lambda>(s, p). al_put s (p\<lparr>pg_refs := pg_refs p + 1\<rparr>)) (vm_parity m) []\<rparr>
               in Some (Some dest, touch_whole dst (touch_whole src (vm_put dst dest (vm_put src (share_map m) g)))))"

definition share_source :: "uuid \<Rightarrow> Gem \<Rightarrow> Gem" where
  "share_source v g = (case map_of (gm_volumes g) v of None \<Rightarrow> g | Some m \<Rightarrow> vm_put v (share_map m) g)"

definition gather_into :: "uuid \<Rightarrow> uuid \<Rightarrow> u64 \<Rightarrow> Gem \<Rightarrow> (Leg list \<times> Gem) option" where
  "gather_into src dst base g =
     (if \<not> gem_check dst g \<or> \<not> gem_check src g then None
      else case map_of (gm_volumes g) src of
             None \<Rightarrow> Some ([], g)
           | Some m \<Rightarrow> do {
               let dest = vm_of dst g;
               (w, shared) \<leftarrow> et_shifted base (gm_interner g, vm_extents m);
               let shared = et_add_refs 1 shared;
               locs \<leftarrow> et_values (w, shared);
               (w, t) \<leftarrow> et_extend_from shared (w, vm_extents dest);
               let ps = fold (\<lambda>(s, p). al_put (base + s) (p\<lparr>pg_refs := pg_refs p + 1\<rparr>)) (vm_parity m) (vm_parity dest);
               let g = vm_put dst \<lparr>vm_extents = t, vm_parity = ps\<rparr> (g\<lparr>gm_interner := w\<rparr>);
               Some (concat (map legs locs), touch_whole dst (touch_whole src (share_source src g)))
             })"

text \<open>\<open>gather_remapped\<close>; the inner \<open>None\<close> is the refusal of a source with parity.\<close>

fun place_all :: "(u64 \<rightharpoonup> u64) \<Rightarrow> (u64 \<times> ExtentLocation) list \<Rightarrow> table_state \<Rightarrow> table_state option" where
  "place_all place [] s = Some s"
| "place_all place ((e, loc) # els) s = do {
     at \<leftarrow> place e;
     (_, s) \<leftarrow> et_insert at loc s;
     place_all place els s
   }"

definition gather_remapped :: "uuid \<Rightarrow> uuid \<Rightarrow> (u64 \<rightharpoonup> u64) \<Rightarrow> Gem \<Rightarrow> (Leg list option \<times> Gem) option" where
  "gather_remapped src dst place g =
     (if \<not> gem_check dst g \<or> \<not> gem_check src g then None
      else case map_of (gm_volumes g) src of
             None \<Rightarrow> Some (Some [], g)
           | Some m \<Rightarrow>
               if vm_parity m \<noteq> [] then Some (None, g)
               else do {
                 els \<leftarrow> et_iter (gm_interner g, vm_extents m);
                 (w, shared) \<leftarrow> place_all place els (gm_interner g, et_new);
                 let shared = et_add_refs 1 shared;
                 locs \<leftarrow> et_values (w, shared);
                 let dest = vm_of dst g;
                 (w, t) \<leftarrow> et_extend_from shared (w, vm_extents dest);
                 let g = vm_put dst (dest\<lparr>vm_extents := t\<rparr>) (g\<lparr>gm_interner := w\<rparr>);
                 let g = (case map_of (gm_volumes g) src of
                            None \<Rightarrow> g
                          | Some m \<Rightarrow> vm_put src (m\<lparr>vm_extents := et_add_refs 1 (vm_extents m)\<rparr>) g);
                 Some (Some (concat (map legs locs)), touch_whole dst (touch_whole src g))
               })"

section \<open>Recovery\<close>

text \<open>\<open>rebuild_from_view\<close>: \<open>view\<close> is the slots in use, in the order they are walked.\<close>

definition seen_slots :: "(Leg \<times> slot) list \<Rightarrow> ((uuid \<times> u64) \<times> (u64 \<times> Leg \<times> u32) list) list" where
  "seen_slots view =
     fold (\<lambda>(leg, sl) m.
       if is_owned (sl_state sl) \<and> parse_parity_vext (sl_vext sl) = None
       then let k = (sl_volume sl, sl_vext sl)
            in al_put k ((case map_of m k of Some ls \<Rightarrow> ls | None \<Rightarrow> []) @ [(sl_gen sl, leg, sl_refs sl)]) m
       else m) view []"

definition seen_parity :: "(Leg \<times> slot) list \<Rightarrow> ((uuid \<times> u64) \<times> (u8 \<times> Leg \<times> u32 \<times> u64) list) list" where
  "seen_parity view =
     fold (\<lambda>(leg, sl) m.
       case (if is_owned (sl_state sl) then parse_parity_vext (sl_vext sl) else None) of
         Some (pleg, stripe) \<Rightarrow>
           let k = (sl_volume sl, stripe)
           in al_put k ((case map_of m k of Some ls \<Rightarrow> ls | None \<Rightarrow> []) @ [(pleg, leg, sl_refs sl, sl_gen sl)]) m
       | None \<Rightarrow> m) view []"

text \<open>The key \<open>(Reverse(generation), slab, slot)\<close>: the complement of a word reverses its order.\<close>

definition slot_rank :: "u64 \<times> Leg \<times> u32 \<Rightarrow> u64 \<times> uuid \<times> u64" where
  "slot_rank x = (case x of (gen, leg, _) \<Rightarrow> (NOT gen, lg_slab leg, lg_slot leg))"

definition rebuilt_location :: "(u64 \<times> Leg \<times> u32) list \<Rightarrow> ExtentLocation option" where
  "rebuilt_location ls =
     (case sort_key slot_rank ls of
        [] \<Rightarrow> None
      | (gen, prim, refs) # rest \<Rightarrow>
          Some \<lparr>el_slab = lg_slab prim, el_slot = lg_slot prim, el_refs = refs, el_gen = gen,
                el_mirrors = map (\<lambda>(_, l, _). l) (filter (\<lambda>(g, _, _). g = gen) rest)\<rparr>)"

definition rebuilt_group :: "(u8 \<times> Leg \<times> u32 \<times> u64) list \<Rightarrow> ParityGroup option" where
  "rebuilt_group ls =
     (case sort_key fst ls of
        [] \<Rightarrow> None
      | (pleg, leg, refs, gen) # rest \<Rightarrow>
          Some \<lparr>pg_legs = leg # map (\<lambda>(_, l, _, _). l) rest, pg_refs = refs, pg_gen = gen, pg_width = 0\<rparr>)"

fun insert_seen :: "((uuid \<times> u64) \<times> (u64 \<times> Leg \<times> u32) list) list \<Rightarrow> Gem \<Rightarrow> Gem option" where
  "insert_seen [] g = Some g"
| "insert_seen (((v, e), ls) # rest) g = do {
     loc \<leftarrow> rebuilt_location ls;
     g \<leftarrow> gem_insert v e loc g;
     insert_seen rest g
   }"

fun insert_seen_parity :: "((uuid \<times> u64) \<times> (u8 \<times> Leg \<times> u32 \<times> u64) list) list \<Rightarrow> Gem \<Rightarrow> Gem option" where
  "insert_seen_parity [] g = Some g"
| "insert_seen_parity (((v, s), ls) # rest) g = do {
     grp \<leftarrow> rebuilt_group ls;
     g \<leftarrow> gem_insert_parity v s grp g;
     insert_seen_parity rest g
   }"

definition rebuild_from_view :: "interner \<Rightarrow> (Leg \<times> slot) list \<Rightarrow> Gem option" where
  "rebuild_from_view w view = do {
     g \<leftarrow> insert_seen (seen_slots view) (gem_new w);
     insert_seen_parity (seen_parity view) g
   }"

section \<open>Queries\<close>

definition volume_count :: "Gem \<Rightarrow> nat" where
  "volume_count g = length (gm_volumes g) + length (gm_cold g)"

definition total_extents :: "Gem \<Rightarrow> nat" where
  "total_extents g = sum_list (map (\<lambda>(_, m). et_len (vm_extents m)) (gm_volumes g))
     + sum_list (map (\<lambda>(_, c). cm_extents c) (gm_cold g))"

fun any_leg :: "(Leg \<Rightarrow> bool) \<Rightarrow> interner \<Rightarrow> (uuid \<times> VolumeExtentMap) list \<Rightarrow> bool option" where
  "any_leg p w [] = Some False"
| "any_leg p w ((v, m) # vms) = do { ls \<leftarrow> all_legs w m; if list_ex p ls then Some True else any_leg p w vms }"

definition slab_in_use :: "uuid \<Rightarrow> Gem \<Rightarrow> bool option" where
  "slab_in_use slab_id g =
     (if list_ex (\<lambda>(_, c). slab_id \<in> set (cm_slabs c)) (gm_cold g) then Some True
      else any_leg (\<lambda>l. lg_slab l = slab_id) (gm_interner g) (gm_volumes g))"

end
