(* ===== verification/ExTableSpec.thy ===== *)
theory ExTableSpec
  imports ExTable
begin

text \<open>
  The extent table against the ordered map it stands for: the slab ordinals and the chunk
  arithmetic, one chunk, the invariant \<open>ts_ok\<close> and the abstraction \<open>ts_abs\<close>, the interpretation
  \<open>extab\<close> of the table interface on the code's operations, the refinement of the ordered map, and
  the operations on whole tables (share counts, shifting, merging).
\<close>

section \<open>The slab table\<close>

definition in_ok :: "interner \<Rightarrow> bool" where
  "in_ok w \<longleftrightarrow> distinct (in_ids w) \<and> length (in_ids w) \<le> 2 ^ 32 \<and>
     (\<forall>sid ord. map_of (in_ords w) sid = Some ord \<longleftrightarrow> unat ord < length (in_ids w) \<and> in_ids w ! unat ord = sid)"

definition in_le :: "interner \<Rightarrow> interner \<Rightarrow> bool" where
  "in_le w w' \<longleftrightarrow> (\<exists>more. in_ids w' = in_ids w @ more)"

text \<open>There are ordinals for all of these slabs.\<close>

definition in_fits :: "uuid set \<Rightarrow> interner \<Rightarrow> bool" where
  "in_fits S w \<longleftrightarrow> finite S \<and> card (set (in_ids w) \<union> S) \<le> 2 ^ 32"

lemma in_le_refl [simp]: "in_le w w"
  by (simp add: in_le_def)

lemma in_le_trans [trans]: "in_le a b \<Longrightarrow> in_le b c \<Longrightarrow> in_le a c"
  by (auto simp: in_le_def)

lemma slab_of_mono: "in_le w w' \<Longrightarrow> slab_of w ord = Some sid \<Longrightarrow> slab_of w' ord = Some sid"
  by (auto simp: in_le_def slab_of_def nth_append split: if_splits)

lemma unat_u32: "n < 2 ^ 32 \<Longrightarrow> unat (of_nat n :: u32) = n"
  by (simp add: unat_of_nat take_bit_nat_eq_self)

lemma in_ok_ord: "in_ok w \<Longrightarrow> sid \<in> set (in_ids w) \<longleftrightarrow> (\<exists>ord. map_of (in_ords w) sid = Some ord)"
proof
  assume ok: "in_ok w" and "sid \<in> set (in_ids w)"
  then obtain i where i: "i < length (in_ids w)" "in_ids w ! i = sid" by (auto simp: in_set_conv_nth)
  moreover have "unat (of_nat i :: u32) = i" using ok i by (intro unat_u32) (simp add: in_ok_def)
  ultimately show "\<exists>ord. map_of (in_ords w) sid = Some ord"
    using ok unfolding in_ok_def by metis
next
  assume "in_ok w" "\<exists>ord. map_of (in_ords w) sid = Some ord"
  then show "sid \<in> set (in_ids w)" unfolding in_ok_def by (metis nth_mem)
qed

lemma slab_ordinal_spec:
  assumes "in_ok w" "in_fits S w" "sid \<in> S"
  shows "\<exists>ord w'. slab_ordinal sid w = Some (ord, w') \<and> in_ok w' \<and> in_fits S w' \<and> in_le w w' \<and>
    slab_of w' ord = Some sid \<and> set (in_ids w') = insert sid (set (in_ids w))"
proof (cases "map_of (in_ords w) sid")
  case (Some ord)
  then have "unat ord < length (in_ids w) \<and> in_ids w ! unat ord = sid" using assms(1) by (simp add: in_ok_def)
  then show ?thesis using assms Some by (auto simp: slab_ordinal_def slab_of_def)
next
  case None
  let ?n = "length (in_ids w)" and ?w = "w\<lparr>in_ids := in_ids w @ [sid],
    in_ords := al_put sid (of_nat (length (in_ids w))) (in_ords w)\<rparr>"
  have new: "sid \<notin> set (in_ids w)" using in_ok_ord [OF assms(1)] None by auto
  have d: "distinct (in_ids w)" using assms(1) by (simp add: in_ok_def)
  have "Suc ?n = card (insert sid (set (in_ids w)))" using new d by (simp add: distinct_card)
  also have "\<dots> \<le> card (set (in_ids w) \<union> S)" using assms(2,3) by (intro card_mono) (auto simp: in_fits_def)
  finally have n: "?n < 2 ^ 32" using assms(2) by (simp add: in_fits_def)
  have "map_of (in_ords ?w) s = Some ord \<longleftrightarrow> unat ord < length (in_ids ?w) \<and> in_ids ?w ! unat ord = s" for s ord
  proof -
    have "(of_nat ?n :: u32) = ord \<longleftrightarrow> unat ord = ?n"
      using unat_u32 [OF n] by (auto simp: word_unat_eq_iff)
    moreover have "map_of (in_ords w) s = Some ord \<longleftrightarrow> unat ord < ?n \<and> in_ids w ! unat ord = s"
      using assms(1) by (simp add: in_ok_def)
    moreover have "in_ids w ! unat ord \<noteq> sid" if "unat ord < ?n" using new that by (metis nth_mem)
    ultimately show ?thesis by (auto simp: nth_append less_Suc_eq)
  qed
  then have "in_ok ?w" using d new n by (simp add: in_ok_def)
  moreover have "in_fits S ?w" using assms(2,3) by (auto simp: in_fits_def insert_absorb)
  moreover have "slab_of ?w (of_nat ?n) = Some sid" using unat_u32 [OF n] by (simp add: slab_of_def nth_append)
  ultimately show ?thesis using None n by (auto simp: slab_ordinal_def Let_def in_le_def)
qed

section \<open>Chunk numbers and offsets\<close>

lemma shift_mask: "CHUNK_SHIFT = 6" "CHUNK_MASK = 63"
  by (simp_all add: CHUNK_SHIFT_def CHUNK_MASK_def)

lemma unat_chunk: "unat (drop_bit 6 (v :: u64)) = unat v div 64"
proof -
  have "unat (drop_bit 6 v) = drop_bit 6 (unat v)" by (rule unat_drop_bit_eq)
  then show ?thesis by (simp add: drop_bit_eq_div)
qed

lemma and_63: "(v :: u64) AND 63 = take_bit 6 v"
  by (simp add: take_bit_eq_mask mask_eq_exp_minus_1)

lemma unat_off: "unat (ucast (take_bit 6 (v :: u64)) :: u8) = unat v mod 64"
proof -
  have "unat v mod 64 < 64" by simp
  then have "unat v mod 64 < 256" by linarith
  moreover have "unat (ucast (take_bit 6 v) :: u8) = take_bit 8 (take_bit 6 (unat v))"
    by (simp add: unsigned_ucast_eq unsigned_take_bit_eq)
  ultimately show ?thesis by (simp add: take_bit_eq_mod min_def)
qed

definition vext_parts :: "u64 \<Rightarrow> u8 \<Rightarrow> bool" where
  "vext_parts c off \<longleftrightarrow> unat c < 2 ^ 58 \<and> unat off < 64"

lemma split_unat: "split_vext v = (c, off) \<Longrightarrow> unat c = unat v div 64" "split_vext v = (c, off) \<Longrightarrow> unat off = unat v mod 64"
  by (auto simp: split_vext_def shift_mask and_63 unat_chunk unat_off)

lemma split_parts: "split_vext v = (c, off) \<Longrightarrow> vext_parts c off"
proof -
  assume "split_vext v = (c, off)"
  note split_unat [OF this]
  moreover have "unat v < 2 ^ 64" using unsigned_less [of v] by simp
  then have "unat v div 64 < 2 ^ 58" by (simp add: less_mult_imp_div_less)
  ultimately show ?thesis by (simp add: vext_parts_def)
qed

lemma unat_join: "vext_parts c off \<Longrightarrow> unat (join_vext c off) = 64 * unat c + unat off"
proof -
  assume p: "vext_parts c off"
  have "join_vext c off = push_bit 6 c + ucast off"
  proof -
    have "\<not> bit off n" if "n \<ge> 6" for n
    proof -
      have "unat off < 2 ^ n"
        using p power_increasing [OF that, of "2 :: nat"] unfolding vext_parts_def by simp
      then have "\<not> bit (unat off) n" by (simp add: bit_iff_odd)
      then show ?thesis by (simp add: bit_unsigned_iff)
    qed
    then have "push_bit 6 c AND ucast off = 0"
      by (intro bit_word_eqI) (auto simp: bit_simps)
    then show ?thesis unfolding join_vext_def shift_mask by (rule disjunctive_add_eq_or [symmetric])
  qed
  moreover have "unat (push_bit 6 c) = 64 * unat c"
    using p by (simp add: push_bit_eq_mult unat_word_ariths take_bit_nat_eq_self vext_parts_def mult.commute)
  moreover have "unat (ucast off :: u64) = unat off"
    using p by (simp add: unsigned_ucast_eq take_bit_nat_eq_self vext_parts_def)
  ultimately show ?thesis using p by (simp add: unat_word_ariths take_bit_nat_eq_self vext_parts_def)
qed

lemma join_split [simp]: "split_vext v = (c, off) \<Longrightarrow> join_vext c off = v"
proof -
  assume s: "split_vext v = (c, off)"
  have "unat (join_vext c off) = 64 * unat c + unat off" using split_parts [OF s] by (rule unat_join)
  moreover note split_unat [OF s]
  ultimately show ?thesis by (simp flip: word_unat_eq_iff)
qed

lemma split_join [simp]: "vext_parts c off \<Longrightarrow> split_vext (join_vext c off) = (c, off)"
proof -
  assume p: "vext_parts c off"
  have "unat (join_vext c off) div 64 = unat c" "unat (join_vext c off) mod 64 = unat off"
    using p by (simp_all add: unat_join vext_parts_def)
  then have "drop_bit 6 (join_vext c off) = c" "(ucast (take_bit 6 (join_vext c off)) :: u8) = off"
    by (simp_all only: word_unat_eq_iff unat_chunk unat_off)
  then show ?thesis by (simp only: split_vext_def shift_mask and_63)
qed

lemma join_less:
  "vext_parts c off \<Longrightarrow> vext_parts c' off' \<Longrightarrow> join_vext c off < join_vext c' off' \<longleftrightarrow> c < c' \<or> c = c' \<and> off < off'"
proof -
  assume p: "vext_parts c off" "vext_parts c' off'"
  then have "unat off < 64" "unat off' < 64" by (simp_all add: vext_parts_def)
  then have "64 * unat c + unat off < 64 * unat c' + unat off'
      \<longleftrightarrow> unat c < unat c' \<or> unat c = unat c' \<and> unat off < unat off'" by linarith
  then show ?thesis unfolding word_less_nat_alt unat_join [OF p(1)] unat_join [OF p(2)] by (simp add: word_unat_eq_iff)
qed

section \<open>One chunk\<close>

definition keyed :: "Packed list \<Rightarrow> (u8 \<times> Packed) list" where
  "keyed chunk = map (\<lambda>p. (pk_off p, p)) chunk"

definition chunk_sorted :: "Packed list \<Rightarrow> bool" where
  "chunk_sorted chunk \<longleftrightarrow> sorted_wrt (<) (map pk_off chunk)"

lemma keyed_simps [simp]:
  "keyed [] = []" "keyed (p # ps) = (pk_off p, p) # keyed ps" "keyed (xs @ ys) = keyed xs @ keyed ys"
  "fst ` set (keyed xs) = pk_off ` set xs" "length (keyed xs) = length xs"
  by (auto simp: keyed_def image_iff)

lemma keyed_mem: "map_of (keyed chunk) off = Some p \<Longrightarrow> p \<in> set chunk \<and> pk_off p = off"
  by (auto simp: keyed_def dest: map_of_SomeD)

lemma search_parts:
  obtains xs zs where "chunk = xs @ zs" "\<forall>q \<in> set xs. pk_off q < off" "zs \<noteq> [] \<longrightarrow> off \<le> pk_off (hd zs)"
    "search_off off chunk = (if zs \<noteq> [] \<and> pk_off (hd zs) = off then Inr (length xs) else Inl (length xs))"
proof
  let ?P = "\<lambda>p. pk_off p < off"
  show "chunk = takeWhile ?P chunk @ dropWhile ?P chunk" by simp
  show "\<forall>q \<in> set (takeWhile ?P chunk). pk_off q < off" using set_takeWhileD [of _ ?P chunk] by auto
  show "dropWhile ?P chunk \<noteq> [] \<longrightarrow> off \<le> pk_off (hd (dropWhile ?P chunk))"
    using hd_dropWhile [of ?P chunk] by (meson linorder_not_less)
  have l: "length (takeWhile ?P chunk) < length chunk \<longleftrightarrow> dropWhile ?P chunk \<noteq> []"
    by (metis dropWhile_eq_drop drop_eq_Nil linorder_not_less)
  have h: "chunk ! length (takeWhile ?P chunk) = hd (dropWhile ?P chunk)" if "dropWhile ?P chunk \<noteq> []"
    using that l by (simp add: dropWhile_eq_drop hd_drop_conv_nth)
  show "search_off off chunk = (if dropWhile ?P chunk \<noteq> [] \<and> pk_off (hd (dropWhile ?P chunk)) = off
      then Inr (length (takeWhile ?P chunk)) else Inl (length (takeWhile ?P chunk)))"
    unfolding search_off_def Let_def l using h by metis
qed

lemma search_found:
  assumes "chunk_sorted chunk" "search_off off chunk = Inr i"
  shows "\<exists>xs p ys. chunk = xs @ p # ys \<and> length xs = i \<and> pk_off p = off \<and>
    (\<forall>q \<in> set xs. pk_off q < off) \<and> (\<forall>q \<in> set ys. off < pk_off q)"
proof -
  obtain xs zs where x: "chunk = xs @ zs" "\<forall>q \<in> set xs. pk_off q < off"
    "search_off off chunk = (if zs \<noteq> [] \<and> pk_off (hd zs) = off then Inr (length xs) else Inl (length xs))"
    by (rule search_parts)
  then obtain p ys where z: "zs = p # ys" "pk_off p = off" "length xs = i"
    using assms(2) by (cases zs) (auto split: if_splits)
  with x assms(1) show ?thesis
    by (intro exI [of _ xs] exI [of _ p] exI [of _ ys]) (auto simp: chunk_sorted_def sorted_wrt_append)
qed

lemma search_missed:
  assumes "chunk_sorted chunk" "search_off off chunk = Inl i"
  shows "\<exists>xs ys. chunk = xs @ ys \<and> length xs = i \<and>
    (\<forall>q \<in> set xs. pk_off q < off) \<and> (\<forall>q \<in> set ys. off < pk_off q)"
proof -
  obtain xs zs where x: "chunk = xs @ zs" "\<forall>q \<in> set xs. pk_off q < off" "zs \<noteq> [] \<longrightarrow> off \<le> pk_off (hd zs)"
    "search_off off chunk = (if zs \<noteq> [] \<and> pk_off (hd zs) = off then Inr (length xs) else Inl (length xs))"
    by (rule search_parts)
  have "off < pk_off q" if q: "q \<in> set zs" for q
  proof -
    obtain p ys where z: "zs = p # ys" using q by (cases zs) auto
    have "off < pk_off p" using x(3,4) assms(2) z by (auto split: if_splits)
    moreover have "q = p \<or> pk_off p < pk_off q"
      using assms(1) q unfolding x(1) z by (auto simp: chunk_sorted_def sorted_wrt_append)
    ultimately show ?thesis by auto
  qed
  then show ?thesis using x(1,2,4) assms(2) by (intro exI [of _ xs] exI [of _ zs]) (auto split: if_splits)
qed

lemma search_find:
  assumes "chunk_sorted chunk"
  shows "(case search_off off chunk of Inr i \<Rightarrow> Some (chunk ! i) | Inl _ \<Rightarrow> None) = map_of (keyed chunk) off"
proof (cases "search_off off chunk")
  case (Inr i)
  from search_found [OF assms this] obtain xs p ys where
    "chunk = xs @ p # ys" "length xs = i" "pk_off p = off" "\<forall>q \<in> set xs. pk_off q < off" by blast
  moreover from this have "map_of (keyed xs) off = None" by (auto simp: map_of_eq_None_iff)
  ultimately show ?thesis using Inr by (auto simp: map_add_def)
next
  case (Inl i)
  from search_missed [OF assms this] obtain xs ys where
    "chunk = xs @ ys" "\<forall>q \<in> set xs. pk_off q < off" "\<forall>q \<in> set ys. off < pk_off q" by blast
  then have "map_of (keyed chunk) off = None" by (auto simp: map_of_eq_None_iff)
  then show ?thesis using Inl by simp
qed

lemma map_of_middle:
  "k \<notin> fst ` set xs \<Longrightarrow> map_of (xs @ (k, v) # ys) = (map_of (xs @ ys))(k \<mapsto> v)"
  by (induction xs) (auto simp: fun_upd_twist)

lemma chunk_replace:
  assumes "chunk_sorted chunk" "search_off off chunk = Inr i" "pk_off p' = off"
  shows "chunk_sorted (chunk[i := p'])" "map_of (keyed (chunk[i := p'])) = (map_of (keyed chunk))(off \<mapsto> p')"
    "i < length chunk" "map_of (keyed chunk) off = Some (chunk ! i)" "set (chunk[i := p']) \<subseteq> insert p' (set chunk)"
proof -
  from search_found [OF assms(1,2)] obtain xs p ys where c: "chunk = xs @ p # ys" "length xs = i" "pk_off p = off"
    "\<forall>q \<in> set xs. pk_off q < off" "\<forall>q \<in> set ys. off < pk_off q" by blast
  have u: "chunk[i := p'] = xs @ p' # ys" using c(1,2) by (auto simp: list_update_append)
  show "chunk_sorted (chunk[i := p'])" using assms(1,3) c unfolding u by (simp add: chunk_sorted_def)
  have no: "off \<notin> fst ` set (keyed xs)" using c by auto
  show "map_of (keyed (chunk[i := p'])) = (map_of (keyed chunk))(off \<mapsto> p')"
    unfolding u using c(1,3) assms(3) map_of_middle [OF no] by simp
  show "i < length chunk" using c by simp
  show "map_of (keyed chunk) off = Some (chunk ! i)" using search_find [OF assms(1), of off] assms(2) by simp
  show "set (chunk[i := p']) \<subseteq> insert p' (set chunk)" by (rule set_update_subset_insert)
qed

lemma chunk_insert:
  assumes "chunk_sorted chunk" "search_off off chunk = Inl i" "pk_off p' = off"
  shows "chunk_sorted (vec_insert i p' chunk)"
    "map_of (keyed (vec_insert i p' chunk)) = (map_of (keyed chunk))(off \<mapsto> p')"
    "length (vec_insert i p' chunk) = length chunk + 1" "map_of (keyed chunk) off = None"
    "set (vec_insert i p' chunk) = insert p' (set chunk)"
proof -
  from search_missed [OF assms(1,2)] obtain xs ys where c: "chunk = xs @ ys" "length xs = i"
    "\<forall>q \<in> set xs. pk_off q < off" "\<forall>q \<in> set ys. off < pk_off q" by blast
  have u: "vec_insert i p' chunk = xs @ p' # ys" using c by (simp add: vec_insert_def)
  show "chunk_sorted (vec_insert i p' chunk)" using assms(1,3) c unfolding u
    by (auto simp: chunk_sorted_def sorted_wrt_append)
  have no: "off \<notin> fst ` set (keyed xs)" using c by auto
  show "map_of (keyed (vec_insert i p' chunk)) = (map_of (keyed chunk))(off \<mapsto> p')"
    unfolding u using c(1) assms(3) map_of_middle [OF no] by simp
  show "length (vec_insert i p' chunk) = length chunk + 1" "set (vec_insert i p' chunk) = insert p' (set chunk)"
    unfolding u using c by auto
  show "map_of (keyed chunk) off = None" using search_find [OF assms(1), of off] assms(2) by simp
qed

lemma chunk_remove:
  assumes "chunk_sorted chunk" "search_off off chunk = Inr i"
  shows "chunk_sorted (vec_remove i chunk)"
    "map_of (keyed (vec_remove i chunk)) = (map_of (keyed chunk))(off := None)"
    "length chunk = length (vec_remove i chunk) + 1" "map_of (keyed chunk) off = Some (chunk ! i)"
    "set (vec_remove i chunk) \<subseteq> set chunk" "chunk ! i \<in> set chunk"
proof -
  from search_found [OF assms(1,2)] obtain xs p ys where c: "chunk = xs @ p # ys" "length xs = i" "pk_off p = off"
    "\<forall>q \<in> set xs. pk_off q < off" "\<forall>q \<in> set ys. off < pk_off q" by blast
  have u: "vec_remove i chunk = xs @ ys" using c by (auto simp: vec_remove_def)
  show "chunk_sorted (vec_remove i chunk)" using assms(1) c unfolding u by (auto simp: chunk_sorted_def sorted_wrt_append)
  have no: "off \<notin> fst ` set (keyed xs)" "off \<notin> fst ` set (keyed ys)" using c by auto
  then have "map_of (keyed xs @ keyed ys) off = None" by (simp add: map_of_eq_None_iff image_Un flip: map_of_append)
  then show "map_of (keyed (vec_remove i chunk)) = (map_of (keyed chunk))(off := None)"
    unfolding u using c(1,3) map_of_middle [OF no(1)] by (simp add: fun_upd_idem)
  show "length chunk = length (vec_remove i chunk) + 1" "set (vec_remove i chunk) \<subseteq> set chunk" "chunk ! i \<in> set chunk"
    unfolding u using c by auto
  show "map_of (keyed chunk) off = Some (chunk ! i)" using search_find [OF assms(1), of off] assms(2) by simp
qed

section \<open>The invariant of a table\<close>

definition chunk_ok :: "interner \<Rightarrow> u64 \<Rightarrow> Packed list \<Rightarrow> bool" where
  "chunk_ok w c chunk \<longleftrightarrow> chunk \<noteq> [] \<and> chunk_sorted chunk \<and>
     (\<forall>p \<in> set chunk. vext_parts c (pk_off p) \<and> slab_of w (pk_slab p) \<noteq> None)"

definition chunks_ok :: "interner \<Rightarrow> (u64 \<times> Packed list) list \<Rightarrow> bool" where
  "chunks_ok w m \<longleftrightarrow> al_wf m \<and> (\<forall>(c, chunk) \<in> set m. chunk_ok w c chunk)"

definition et_ok :: "interner \<Rightarrow> ExtentTable \<Rightarrow> bool" where
  "et_ok w t \<longleftrightarrow> chunks_ok w (et_chunks t) \<and>
     al_wf (et_mirrors t) \<and> (\<forall>(v, ms) \<in> set (et_mirrors t). ms \<noteq> [] \<and> et_find v t \<noteq> None) \<and>
     et_len t = sum_list (map (\<lambda>(c, chunk). length chunk) (et_chunks t))"

lemma et_ok_chunks [simp]: "et_ok w t \<Longrightarrow> chunks_ok w (et_chunks t)"
  by (simp add: et_ok_def)

definition ts_ok :: "table_state \<Rightarrow> bool" where
  "ts_ok s \<longleftrightarrow> in_ok (fst s) \<and> et_ok (fst s) (snd s)"

definition ts_abs :: "table_state \<Rightarrow> u64 \<Rightarrow> ExtentLocation option" where
  "ts_abs s v = (case et_find v (snd s) of None \<Rightarrow> None
     | Some p \<Rightarrow> location (fst s) p (mirrors_of v (snd s)))"

definition ts_fits :: "ExtentLocation set \<Rightarrow> table_state \<Rightarrow> bool" where
  "ts_fits V s \<longleftrightarrow> in_fits (el_slab ` V) (fst s)"

lemma mirrors_of_alt: "mirrors_of v t = (case map_of (et_mirrors t) v of Some ms \<Rightarrow> ms | None \<Rightarrow> [])"
  by (simp add: mirrors_of_def)

lemma al_wf_mem: "al_wf m \<Longrightarrow> (k, v) \<in> set m \<longleftrightarrow> map_of m k = Some v"
  by (simp add: al_wf_def)

lemma chunk_ok_of: "chunks_ok w m \<Longrightarrow> map_of m c = Some chunk \<Longrightarrow> chunk_ok w c chunk"
  by (auto simp: chunks_ok_def dest: map_of_SomeD)

lemma find_alt:
  assumes "chunks_ok w (et_chunks t)"
  shows "et_find v t = (case map_of (et_chunks t) (fst (split_vext v)) of None \<Rightarrow> None
    | Some chunk \<Rightarrow> map_of (keyed chunk) (snd (split_vext v)))"
proof (cases "map_of (et_chunks t) (fst (split_vext v))")
  case (Some chunk)
  then have "chunk_sorted chunk" using chunk_ok_of [OF assms] by (simp add: chunk_ok_def)
  then show ?thesis using Some search_find by (simp add: et_find_def split_beta)
qed (simp add: et_find_def split_beta)

lemma find_slab: "chunks_ok w (et_chunks t) \<Longrightarrow> et_find v t = Some p \<Longrightarrow> \<exists>sid. slab_of w (pk_slab p) = Some sid"
proof -
  assume ok: "chunks_ok w (et_chunks t)" and "et_find v t = Some p"
  then obtain chunk where "map_of (et_chunks t) (fst (split_vext v)) = Some chunk" "p \<in> set chunk"
    by (auto simp: find_alt [OF ok] split: option.splits dest: keyed_mem)
  then show ?thesis using chunk_ok_of [OF ok] by (fastforce simp: chunk_ok_def)
qed

lemma ts_abs_Some:
  "ts_abs (w, t) v = Some l \<longleftrightarrow> (\<exists>p. et_find v t = Some p \<and> location w p (mirrors_of v t) = Some l)"
  by (simp add: ts_abs_def split: option.split)

lemma ts_abs_None: "ts_ok s \<Longrightarrow> ts_abs s v = None \<longleftrightarrow> et_find v (snd s) = None"
  using find_slab [OF et_ok_chunks] by (fastforce simp: ts_ok_def ts_abs_def location_def split: option.splits)

lemma et_get_abs: "ts_ok s \<Longrightarrow> et_get v s = Some (ts_abs s v)"
  using find_slab [OF et_ok_chunks] by (cases s) (fastforce simp: ts_ok_def ts_abs_def et_get_def location_def split: option.splits)

lemma location_mono: "in_le w w' \<Longrightarrow> location w p ms = Some l \<Longrightarrow> location w' p ms = Some l"
  using slab_of_mono by (auto simp: location_def bind_eq_Some_conv)

lemma chunks_ok_mono: "in_le w w' \<Longrightarrow> chunks_ok w m \<Longrightarrow> chunks_ok w' m"
  unfolding chunks_ok_def chunk_ok_def using slab_of_mono by fastforce

lemma et_ok_mono: "in_le w w' \<Longrightarrow> et_ok w t \<Longrightarrow> et_ok w' t"
  unfolding et_ok_def using chunks_ok_mono by blast

lemma ts_abs_mono: "in_le w w' \<Longrightarrow> et_ok w t \<Longrightarrow> ts_abs (w', t) = ts_abs (w, t)"
proof
  fix v assume le: "in_le w w'" and ok: "et_ok w t"
  show "ts_abs (w', t) v = ts_abs (w, t) v"
  proof (cases "et_find v t")
    case (Some p)
    then obtain sid where "slab_of w (pk_slab p) = Some sid" using find_slab [OF et_ok_chunks [OF ok]] by blast
    then show ?thesis using slab_of_mono [OF le] Some by (simp add: ts_abs_def location_def)
  qed (simp add: ts_abs_def)
qed

text \<open>The sum of the chunk lengths under the updates of the ordered map.\<close>

definition entry_count :: "(u64 \<times> Packed list) list \<Rightarrow> nat" where
  "entry_count m = sum_list (map (\<lambda>(c, chunk). length chunk) m)"

lemma entry_count_del:
  "distinct (map fst m) \<Longrightarrow> entry_count m =
     entry_count (al_del c m) + (case map_of m c of Some chunk \<Rightarrow> length chunk | None \<Rightarrow> 0)"
proof (induction m)
  case (Cons kv m)
  have "al_del c m = m" if "fst kv = c" unfolding al_del_def by (rule filter_True) (use that Cons.prems in \<open>auto simp: image_iff\<close>)
  moreover have "map_of m c = None" if "fst kv = c" using that Cons.prems by (auto simp: map_of_eq_None_iff)
  ultimately show ?case using Cons by (cases kv) (auto simp: entry_count_def al_del_def)
qed (simp add: entry_count_def al_del_def)

lemma entry_count_put:
  assumes "al_wf m"
  shows "entry_count (al_put c chunk m) + (case map_of m c of Some old \<Rightarrow> length old | None \<Rightarrow> 0)
    = entry_count m + length chunk"
proof -
  have "entry_count (insort_key fst (c, chunk) m') = entry_count m' + length chunk" for m'
    by (induction m') (auto simp: entry_count_def)
  then show ?thesis using entry_count_del [of m c] assms by (simp add: al_put_def al_wf_def)
qed

lemma set_al_put: "set (al_put k v m) = insert (k, v) {x \<in> set m. fst x \<noteq> k}"
  by (auto simp: al_put_def al_del_def set_insort_key)

lemma set_al_del: "set (al_del k m) = {x \<in> set m. fst x \<noteq> k}"
  by (auto simp: al_del_def)

lemma chunks_ok_put: "chunks_ok w m \<Longrightarrow> chunk_ok w c chunk \<Longrightarrow> chunks_ok w (al_put c chunk m)"
  by (auto simp: chunks_ok_def set_al_put)

lemma chunks_ok_del: "chunks_ok w m \<Longrightarrow> chunks_ok w (al_del c m)"
  by (auto simp: chunks_ok_def set_al_del)

text \<open>A chunk whose entry at one offset was set gives the table in which that extent was set.\<close>

lemma put_entry:
  assumes ok: "ts_ok (w, t)" and le: "in_le w w'" "in_ok w'" and sp: "split_vext vext = (c, off)"
    and old: "chunk = (case map_of (et_chunks t) c of Some ch \<Rightarrow> ch | None \<Rightarrow> [])"
    and new: "chunk_sorted chunk'" "map_of (keyed chunk') = (map_of (keyed chunk))(off \<mapsto> p)"
      "set chunk' \<subseteq> insert p (set chunk)" "chunk' \<noteq> []" "entry_count (al_put c chunk' (et_chunks t)) = n"
    and p: "slab_of w' (pk_slab p) = Some (el_slab loc)" "pk_off p = off" "pk_slot p = el_slot loc"
      "pk_refs p = el_refs loc" "pk_gen p = el_gen loc"
    and ms: "ms = (if el_mirrors loc = [] then al_del vext (et_mirrors t) else al_put vext (el_mirrors loc) (et_mirrors t))"
  defines "t' \<equiv> t\<lparr>et_chunks := al_put c chunk' (et_chunks t), et_mirrors := ms, et_len := n\<rparr>"
  shows "ts_ok (w', t')" "ts_abs (w', t') = (ts_abs (w, t))(vext \<mapsto> loc)"
proof -
  have cw: "chunks_ok w' (et_chunks t)" using ok le by (auto simp: ts_ok_def intro: chunks_ok_mono)
  have "chunk_ok w' c chunk" if "map_of (et_chunks t) c \<noteq> None" using that old chunk_ok_of [OF cw] by auto
  then have "\<forall>q \<in> set chunk. vext_parts c (pk_off q) \<and> slab_of w' (pk_slab q) \<noteq> None"
    using old by (cases "map_of (et_chunks t) c") (auto simp: chunk_ok_def)
  then have "chunk_ok w' c chunk'" using new(1,3,4) p split_parts [OF sp] by (auto simp: chunk_ok_def)
  then have c': "chunks_ok w' (et_chunks t')" using cw by (simp add: t'_def chunks_ok_put)
  have find: "et_find v t' = (if v = vext then Some p else et_find v t)" for v
  proof -
    obtain cv offv where spv: "split_vext v = (cv, offv)" by fastforce
    have "v = vext \<longleftrightarrow> cv = c \<and> offv = off" using join_split [OF sp] join_split [OF spv] spv sp by (metis prod.inject)
    then show ?thesis unfolding find_alt [OF c'] find_alt [OF cw] spv using new(2) old
      by (auto simp: t'_def split: option.splits)
  qed
  have mir: "mirrors_of v t' = (if v = vext then el_mirrors loc else mirrors_of v t)" for v
    using ms by (auto simp: mirrors_of_alt t'_def)
  have "al_wf ms \<and> (\<forall>(v, m) \<in> set ms. m \<noteq> [] \<and> et_find v t' \<noteq> None)"
    using ok by (auto simp: ts_ok_def et_ok_def ms find set_al_put set_al_del)
  then show "ts_ok (w', t')" using c' le new(5) by (simp add: ts_ok_def et_ok_def t'_def entry_count_def)
  have "ts_abs (w', t') v = ((ts_abs (w', t))(vext \<mapsto> loc)) v" for v
    by (auto simp: ts_abs_def find mir location_def p split: option.split)
  then show "ts_abs (w', t') = (ts_abs (w, t))(vext \<mapsto> loc)"
    using ts_abs_mono [OF le(1)] ok by (auto simp: ts_ok_def)
qed

lemma et_insert_spec:
  assumes "ts_ok (w, t)" "ts_fits V (w, t)" "loc \<in> V"
  shows "\<exists>w' t'. et_insert vext loc (w, t) = Some (ts_abs (w, t) vext, w', t') \<and> ts_ok (w', t') \<and>
    ts_fits V (w', t') \<and> in_le w w' \<and> ts_abs (w', t') = (ts_abs (w, t))(vext \<mapsto> loc)"
proof -
  obtain c off where sp: "split_vext vext = (c, off)" by fastforce
  have ok: "in_ok w" "et_ok w t" "chunks_ok w (et_chunks t)" "al_wf (et_chunks t)" "et_len t = entry_count (et_chunks t)"
    using assms(1) by (auto simp: ts_ok_def et_ok_def chunks_ok_def entry_count_def)
  obtain ord w' where w': "slab_ordinal (el_slab loc) w = Some (ord, w')" "in_ok w'" "in_fits (el_slab ` V) w'"
      "in_le w w'" "slab_of w' ord = Some (el_slab loc)"
    using slab_ordinal_spec [OF ok(1), of "el_slab ` V" "el_slab loc"] assms(2,3) by (auto simp: ts_fits_def)
  define p where "p = \<lparr>pk_off = off, pk_slab = ord, pk_slot = el_slot loc, pk_refs = el_refs loc, pk_gen = el_gen loc\<rparr>"
  define chunk where "chunk = (case map_of (et_chunks t) c of Some ch \<Rightarrow> ch | None \<Rightarrow> [])"
  define ms where "ms = (if el_mirrors loc = [] then al_del vext (et_mirrors t) else al_put vext (el_mirrors loc) (et_mirrors t))"
  have sorted: "chunk_sorted chunk"
    using chunk_ok_of [OF ok(3)] by (auto simp: chunk_def chunk_ok_def chunk_sorted_def split: option.splits)
  have find: "et_find vext t = map_of (keyed chunk) off"
    unfolding find_alt [OF ok(3)] sp by (auto simp: chunk_def split: option.splits)
  have cnt: "entry_count (al_put c ch (et_chunks t)) + length chunk = et_len t + length ch" for ch
    using entry_count_put [OF ok(4), of c ch] ok(5) by (auto simp: chunk_def split: option.splits)
  have pk: "slab_of w' (pk_slab p) = Some (el_slab loc)" "pk_off p = off" "pk_slot p = el_slot loc"
      "pk_refs p = el_refs loc" "pk_gen p = el_gen loc"
    using w'(5) by (simp_all add: p_def)
  show ?thesis
  proof (cases "search_off off chunk")
    case (Inl i)
    note ch = chunk_insert [OF sorted Inl pk(2)]
    have n: "entry_count (al_put c (vec_insert i p chunk) (et_chunks t)) = et_len t + 1"
      using cnt [of "vec_insert i p chunk"] ch(3) by simp
    note put = put_entry [OF assms(1) w'(4,2) sp chunk_def ch(1,2) _ _ n pk ms_def]
    have "ts_abs (w, t) vext = None" using find ch(4) by (simp add: ts_abs_def)
    then have "et_insert vext loc (w, t) = Some (ts_abs (w, t) vext, w',
        t\<lparr>et_chunks := al_put c (vec_insert i p chunk) (et_chunks t), et_mirrors := ms, et_len := et_len t + 1\<rparr>)"
      using Inl by (simp add: et_insert_def sp packed_of_def w'(1) flip: chunk_def p_def ms_def)
    then show ?thesis using put ch(5) w'(3,4) by (auto simp: ts_fits_def vec_insert_def)
  next
    case (Inr i)
    note ch = chunk_replace [OF sorted Inr pk(2)]
    have n: "entry_count (al_put c (chunk[i := p]) (et_chunks t)) = et_len t"
      using cnt [of "chunk[i := p]"] by simp
    note put = put_entry [OF assms(1) w'(4,2) sp chunk_def ch(1,2,5) _ n pk ms_def]
    have "et_find vext t = Some (chunk ! i)" using find ch(4) by simp
    then obtain old where old: "ts_abs (w, t) vext = Some old" using ts_abs_None [OF assms(1), of vext] by auto
    then have "location w (chunk ! i) (mirrors_of vext t) = Some old"
      using \<open>et_find vext t = Some (chunk ! i)\<close> by (simp add: ts_abs_def)
    from location_mono [OF w'(4) this]
    have "et_insert vext loc (w, t) = Some (ts_abs (w, t) vext, w',
        t\<lparr>et_chunks := al_put c (chunk[i := p]) (et_chunks t), et_mirrors := ms\<rparr>)"
      using Inr old by (simp add: et_insert_def sp packed_of_def w'(1) mirrors_of_alt flip: chunk_def p_def ms_def)
    moreover have "chunk[i := p] \<noteq> []" using ch(3) by auto
    ultimately show ?thesis using put w'(3,4) by (auto simp: ts_fits_def)
  qed
qed

lemma et_remove_spec:
  assumes "ts_ok (w, t)"
  shows "\<exists>t'. et_remove vext (w, t) = Some (ts_abs (w, t) vext, w, t') \<and> ts_ok (w, t') \<and>
    ts_abs (w, t') = (ts_abs (w, t))(vext := None)"
proof (cases "et_find vext t")
  case None
  then have n: "ts_abs (w, t) vext = None" by (simp add: ts_abs_def)
  then have "et_remove vext (w, t) = Some (None, w, t)"
    using None by (auto simp: et_remove_def et_find_def split_beta split: option.splits sum.splits)
  then show ?thesis using assms n by (simp add: fun_upd_idem)
next
  case (Some p)
  obtain c off where sp: "split_vext vext = (c, off)" by fastforce
  have ok: "in_ok w" "et_ok w t" "chunks_ok w (et_chunks t)" "al_wf (et_chunks t)" "et_len t = entry_count (et_chunks t)"
    using assms by (auto simp: ts_ok_def et_ok_def chunks_ok_def entry_count_def)
  obtain chunk i where ch: "map_of (et_chunks t) c = Some chunk" "search_off off chunk = Inr i" "p = chunk ! i"
  proof -
    obtain chunk where "map_of (et_chunks t) c = Some chunk"
        "(case search_off off chunk of Inr i \<Rightarrow> Some (chunk ! i) | Inl _ \<Rightarrow> None) = Some p"
      using Some by (auto simp: et_find_def sp bind_eq_Some_conv)
    then show ?thesis using that by (cases "search_off off chunk") auto
  qed
  have cok: "chunk_ok w c chunk" using chunk_ok_of [OF ok(3) ch(1)] .
  then have "chunk_sorted chunk" by (simp add: chunk_ok_def)
  note rm = chunk_remove [OF this ch(2)]
  define chunk' where "chunk' = vec_remove i chunk"
  define m where "m = (if chunk' = [] then al_del c (et_chunks t) else al_put c chunk' (et_chunks t))"
  define t' where "t' = t\<lparr>et_chunks := m, et_mirrors := al_del vext (et_mirrors t), et_len := et_len t - 1\<rparr>"
  have "chunk_ok w c chunk'" if "chunk' \<noteq> []" using that cok rm by (auto simp: chunk_ok_def chunk'_def)
  then have c': "chunks_ok w (et_chunks t')" using ok(3) by (auto simp: t'_def m_def chunks_ok_put chunks_ok_del)
  have n: "et_len t' = entry_count m"
    using entry_count_del [of "et_chunks t" c] entry_count_put [OF ok(4), of c chunk'] ok(4,5) ch(1) rm(3)
    by (auto simp: t'_def m_def chunk'_def al_wf_def)
  have find: "et_find v t' = (if v = vext then None else et_find v t)" for v
  proof -
    obtain cv offv where spv: "split_vext v = (cv, offv)" by fastforce
    have "v = vext \<longleftrightarrow> cv = c \<and> offv = off" using join_split [OF sp] join_split [OF spv] spv sp by (metis prod.inject)
    moreover have "map_of (keyed chunk') = (map_of (keyed chunk))(off := None)" using rm(2) by (simp add: chunk'_def)
    ultimately show ?thesis unfolding find_alt [OF c'] find_alt [OF ok(3)] spv using ch(1)
      by (auto simp: t'_def m_def fun_eq_iff split: option.splits if_splits)
  qed
  have mir: "v \<noteq> vext \<Longrightarrow> mirrors_of v t' = mirrors_of v t" for v by (simp add: mirrors_of_alt t'_def)
  have "al_wf (et_mirrors t') \<and> (\<forall>(v, ms) \<in> set (et_mirrors t'). ms \<noteq> [] \<and> et_find v t' \<noteq> None)"
    using ok(2) by (auto simp: et_ok_def find) (auto simp: t'_def set_al_del)
  then have "ts_ok (w, t')" using c' ok(1) n by (simp add: ts_ok_def et_ok_def entry_count_def) (simp add: t'_def)
  moreover have "ts_abs (w, t') = (ts_abs (w, t))(vext := None)"
    by (auto simp: ts_abs_def find mir fun_eq_iff split: option.split)
  moreover obtain old where old: "ts_abs (w, t) vext = Some old" using ts_abs_None [OF assms, of vext] Some by auto
  then have "location w (chunk ! i) (mirrors_of vext t) = Some old" using Some ch(3) by (simp add: ts_abs_def)
  then have "et_remove vext (w, t) = Some (ts_abs (w, t) vext, w, t')"
    using old ch by (simp add: et_remove_def sp mirrors_of_alt t'_def m_def chunk'_def Let_def)
  ultimately show ?thesis by blast
qed

definition ts_le :: "table_state \<Rightarrow> table_state \<Rightarrow> bool" where
  "ts_le s s' \<longleftrightarrow> in_le (fst s) (fst s')"

interpretation extab: table_laws ts_ok ts_abs ts_fits ts_le et_get et_insert et_remove
proof
  fix s and V and v k and loc :: ExtentLocation
  assume ok: "ts_ok s"
  show "et_get k s = Some (ts_abs s k)" using ok by (rule et_get_abs)
  show "\<exists>s'. et_insert k loc s = Some (ts_abs s k, s') \<and> ts_ok s' \<and> ts_fits V s' \<and> ts_le s s' \<and>
      ts_abs s' = (ts_abs s)(k \<mapsto> loc)"
    if "ts_fits V s" "loc \<in> V"
    using et_insert_spec [of "fst s" "snd s" V loc k] ok that by (auto simp: ts_le_def)
  show "\<exists>s'. et_remove k s = Some (ts_abs s k, s') \<and> ts_ok s' \<and> (ts_fits V s \<longrightarrow> ts_fits V s') \<and> ts_le s s' \<and>
      ts_abs s' = (ts_abs s)(k := None)"
    using et_remove_spec [of "fst s" "snd s" k] ok by (auto simp: ts_fits_def ts_le_def)
qed (auto simp: ts_le_def intro: in_le_trans)

section \<open>Walking a table\<close>

definition entries :: "(u64 \<times> Packed list) list \<Rightarrow> (u64 \<times> Packed) list" where
  "entries m = concat (map (\<lambda>(c, chunk). map (Pair c) chunk) m)"

lemma entries_simps [simp]:
  "entries [] = []" "entries ((c, chunk) # m) = map (Pair c) chunk @ entries m"
  by (simp_all add: entries_def)

lemma set_entries: "set (entries m) = {(c, p). \<exists>chunk. (c, chunk) \<in> set m \<and> p \<in> set chunk}"
  by (auto simp: entries_def)

lemma length_entries: "length (entries m) = entry_count m"
  by (induction m) (auto simp: entry_count_def)

lemma et_keys_entries: "et_keys t = map (\<lambda>(c, p). join_vext c (pk_off p)) (entries (et_chunks t))"
  by (simp add: et_keys_def entries_def map_concat comp_def case_prod_unfold)

lemma chunk_mem_keyed: "chunk_sorted chunk \<Longrightarrow> p \<in> set chunk \<Longrightarrow> map_of (keyed chunk) (pk_off p) = Some p"
proof -
  assume "chunk_sorted chunk" "p \<in> set chunk"
  then have "distinct (map fst (keyed chunk))" "(pk_off p, p) \<in> set (keyed chunk)"
    by (auto simp: chunk_sorted_def keyed_def comp_def strict_sorted_iff)
  then show ?thesis by simp
qed

lemma find_mem:
  assumes "chunks_ok w (et_chunks t)"
  shows "et_find v t = Some p \<longleftrightarrow> (\<exists>c. (c, p) \<in> set (entries (et_chunks t)) \<and> v = join_vext c (pk_off p))"
proof
  assume "et_find v t = Some p"
  then obtain chunk where "map_of (et_chunks t) (fst (split_vext v)) = Some chunk"
      "map_of (keyed chunk) (snd (split_vext v)) = Some p"
    by (auto simp: find_alt [OF assms] split: option.splits)
  then have "(fst (split_vext v), p) \<in> set (entries (et_chunks t))" "snd (split_vext v) = pk_off p"
    using keyed_mem by (fastforce simp: set_entries dest: map_of_SomeD)+
  then show "\<exists>c. (c, p) \<in> set (entries (et_chunks t)) \<and> v = join_vext c (pk_off p)"
    by (metis join_split prod.collapse)
next
  assume "\<exists>c. (c, p) \<in> set (entries (et_chunks t)) \<and> v = join_vext c (pk_off p)"
  then obtain c chunk where c: "(c, chunk) \<in> set (et_chunks t)" "p \<in> set chunk" "v = join_vext c (pk_off p)"
    by (auto simp: set_entries)
  moreover from this have "chunk_ok w c chunk" "map_of (et_chunks t) c = Some chunk"
    using assms by (auto simp: chunks_ok_def al_wf_def)
  ultimately show "et_find v t = Some p"
    using chunk_mem_keyed by (simp add: find_alt [OF assms] chunk_ok_def)
qed

lemma keys_sorted:
  assumes "chunks_ok w m"
  shows "sorted_wrt (<) (map (\<lambda>(c, p). join_vext c (pk_off p)) (entries m))"
  using assms
proof (induction m)
  case (Cons x m)
  obtain c chunk where x: "x = (c, chunk)" by (cases x)
  have m: "chunks_ok w m" and c: "chunk_ok w c chunk" and later: "\<forall>(c', ch) \<in> set m. c < c'"
    using Cons.prems by (auto simp: chunks_ok_def x al_wf_def image_iff less_le)
  have "sorted_wrt (<) (map (\<lambda>p. join_vext c (pk_off p)) chunk)"
    using c by (auto simp: chunk_ok_def chunk_sorted_def sorted_wrt_map join_less elim: sorted_wrt_mono_rel [rotated])
  moreover have "join_vext c (pk_off p) < join_vext c' (pk_off q)"
    if "p \<in> set chunk" "(c', q) \<in> set (entries m)" for p c' q
  proof -
    obtain ch where ch: "(c', ch) \<in> set m" "q \<in> set ch" using \<open>(c', q) \<in> set (entries m)\<close> by (auto simp: set_entries)
    then have "vext_parts c' (pk_off q)" using m by (auto simp: chunks_ok_def chunk_ok_def)
    moreover have "vext_parts c (pk_off p)" using c that(1) by (simp add: chunk_ok_def)
    ultimately show ?thesis using later ch by (auto simp: join_less)
  qed
  ultimately show ?case using Cons.IH [OF m] by (auto simp: x sorted_wrt_append comp_def)
qed simp

definition entry_loc :: "interner \<Rightarrow> ExtentTable \<Rightarrow> u64 \<times> Packed \<Rightarrow> u64 \<times> ExtentLocation" where
  "entry_loc w t cp = (let v = join_vext (fst cp) (pk_off (snd cp)) in
     (v, \<lparr>el_slab = the (slab_of w (pk_slab (snd cp))), el_slot = pk_slot (snd cp), el_refs = pk_refs (snd cp),
          el_gen = pk_gen (snd cp), el_mirrors = mirrors_of v t\<rparr>))"

lemma iter_entries_spec:
  assumes "\<forall>(c, p) \<in> set cps. slab_of w (pk_slab p) \<noteq> None"
    and "\<And>ord sid. lst = Some (ord, sid) \<Longrightarrow> slab_of w ord = Some sid"
  shows "iter_entries w t lst cps = Some (map (entry_loc w t) cps)"
  using assms
proof (induction cps arbitrary: lst)
  case (Cons cp cps)
  obtain c p where cp: "cp = (c, p)" by (cases cp)
  obtain sid where sid: "slab_of w (pk_slab p) = Some sid" using Cons.prems(1) cp by auto
  have "iter_entries w t (Some (pk_slab p, sid)) cps = Some (map (entry_loc w t) cps)"
    by (rule Cons.IH) (use Cons.prems sid in auto)
  then show ?case using sid Cons.prems(2)
    by (cases lst) (auto simp: cp entry_loc_def Let_def)
qed simp

text \<open>The walk of a table is the ordered map it stands for.\<close>

lemma et_iter_spec:
  assumes "ts_ok s"
  shows "\<exists>m. et_iter s = Some m \<and> al_wf m \<and> map_of m = ts_abs s \<and> map fst m = et_keys (snd s)"
proof -
  obtain w t where s: "s = (w, t)" by (cases s)
  have ok: "chunks_ok w (et_chunks t)" using assms by (simp add: s ts_ok_def)
  have sl: "\<forall>(c, p) \<in> set (entries (et_chunks t)). slab_of w (pk_slab p) \<noteq> None"
    using ok by (fastforce simp: set_entries chunks_ok_def chunk_ok_def)
  define m where "m = map (entry_loc w t) (entries (et_chunks t))"
  have it: "et_iter s = Some m"
    using iter_entries_spec [OF sl, of None t] by (simp add: et_iter_def s m_def entries_def)
  have keys: "map fst m = et_keys t"
    by (simp add: m_def et_keys_entries entry_loc_def comp_def Let_def split_beta)
  then have wf: "al_wf m"
    using keys_sorted [OF ok] by (simp add: al_wf_def et_keys_entries strict_sorted_iff)
  have "map_of m v = Some l \<longleftrightarrow> ts_abs s v = Some l" for v l
  proof -
    have "map_of m v = Some l \<longleftrightarrow> (\<exists>c p. (c, p) \<in> set (entries (et_chunks t)) \<and> (v, l) = entry_loc w t (c, p))"
      unfolding al_wf_mem [OF wf, symmetric] by (auto simp: m_def)
    also have "\<dots> \<longleftrightarrow> (\<exists>p. et_find v t = Some p \<and> location w p (mirrors_of v t) = Some l)"
      unfolding find_mem [OF ok] using sl by (fastforce simp: entry_loc_def Let_def location_def)
    also have "\<dots> \<longleftrightarrow> ts_abs s v = Some l" by (simp add: ts_abs_def s split: option.split)
    finally show ?thesis .
  qed
  then have "map_of m = ts_abs s" by (intro ext) (metis option.exhaust)
  then show ?thesis using it wf keys s by auto
qed

lemma et_keys_spec: "ts_ok s \<Longrightarrow> set (et_keys (snd s)) = dom (ts_abs s)"
    "ts_ok s \<Longrightarrow> distinct (et_keys (snd s))" "ts_ok s \<Longrightarrow> sorted (et_keys (snd s))"
    "ts_ok s \<Longrightarrow> et_len (snd s) = card (dom (ts_abs s))"
proof -
  assume ok: "ts_ok s"
  then obtain m where m: "al_wf m" "map_of m = ts_abs s" "map fst m = et_keys (snd s)" using et_iter_spec by blast
  then show "set (et_keys (snd s)) = dom (ts_abs s)" by (metis al_keys list.set_map)
  show "distinct (et_keys (snd s))" "sorted (et_keys (snd s))" using m by (auto simp: al_wf_def)
  have "et_len (snd s) = length (et_keys (snd s))"
    using ok by (simp add: et_keys_entries length_entries ts_ok_def et_ok_def entry_count_def)
  then show "et_len (snd s) = card (dom (ts_abs s))" using m al_card [OF m(1)] by (metis length_map)
qed

lemma filter_concat_skip:
  assumes "\<And>x. x \<in> set xs \<Longrightarrow> \<not> Q x \<Longrightarrow> filter P (f x) = []"
  shows "filter P (concat (map f (filter Q xs))) = filter P (concat (map f xs))"
  using assms by (induction xs) auto

text \<open>The chunks \<open>keys_in\<close> does not visit hold no key of the range.\<close>

lemma et_keys_in_spec:
  assumes "chunks_ok w (et_chunks t)"
  shows "et_keys_in lo hi t = filter (\<lambda>v. lo \<le> v \<and> v < hi) (et_keys t)"
proof -
  define first final where "first = drop_bit 6 lo" and "final = (if hi = 0 then 0 else drop_bit 6 (hi - 1) + 1)"
  have "first \<le> c \<and> c < final" if c: "chunk_ok w c chunk" "p \<in> set chunk"
    and r: "lo \<le> join_vext c (pk_off p)" "join_vext c (pk_off p) < hi" for c chunk p
  proof -
    let ?v = "join_vext c (pk_off p)"
    have "split_vext ?v = (c, pk_off p)" using c by (auto simp: chunk_ok_def)
    then have cv: "unat c = unat ?v div 64" by (rule split_unat)
    have hi: "hi \<noteq> 0" using r(2) by auto
    then have h: "unat (hi - 1) = unat hi - 1" by (simp add: unat_minus_one)
    have "unat hi < 2 ^ 64" using unsigned_less [of hi] by simp
    then have "unat hi - 1 < 2 ^ 64" by linarith
    then have "unat (drop_bit 6 (hi - 1)) < 2 ^ 58" by (simp add: unat_chunk h less_mult_imp_div_less)
    then have f: "unat final = (unat hi - 1) div 64 + 1"
      using hi by (simp add: final_def unat_word_ariths take_bit_nat_eq_self unat_chunk h)
    have "unat ?v \<le> unat hi - 1" "unat lo \<le> unat ?v" using r by (auto simp: word_less_nat_alt word_le_nat_alt)
    then have "unat ?v div 64 \<le> (unat hi - 1) div 64" "unat lo div 64 \<le> unat ?v div 64" by (auto intro: div_le_mono)
    then show ?thesis unfolding word_le_nat_alt word_less_nat_alt f cv by (simp add: first_def unat_chunk)
  qed
  note visited = this
  have "filter (\<lambda>v. lo \<le> v \<and> v < hi) (map (\<lambda>p. join_vext c (pk_off p)) chunk) = []"
    if mem: "(c, chunk) \<in> set (et_chunks t)" and out: "\<not> (first \<le> c \<and> c < max final first)" for c chunk
  proof -
    have "chunk_ok w c chunk" using mem assms by (auto simp: chunks_ok_def)
    then have "\<not> (lo \<le> join_vext c (pk_off p) \<and> join_vext c (pk_off p) < hi)" if "p \<in> set chunk" for p
      using visited [of c chunk p] out \<open>p \<in> set chunk\<close> by (auto simp: less_max_iff_disj)
    then show ?thesis by (simp add: filter_empty_conv)
  qed
  then show ?thesis
    unfolding et_keys_in_def et_keys_def Let_def shift_mask first_def [symmetric] final_def [symmetric]
    by (intro filter_concat_skip) auto
qed

text \<open>Collecting pairs into an ordered map, the keys changed by an injective function.\<close>

lemma al_collect_acc:
  assumes "al_wf a"
  shows "al_wf (fold (\<lambda>(k, v). al_put (f k) v) m a) \<and>
    map_of (fold (\<lambda>(k, v). al_put (f k) v) m a) = map_of a ++ map_of (rev (map (\<lambda>(k, v). (f k, v)) m))"
  using assms by (induction m arbitrary: a) (auto simp: map_add_def fun_eq_iff split: option.splits)

lemma al_collect:
  assumes "al_wf m" "inj_on f (fst ` set m)"
  shows "al_wf (fold (\<lambda>(k, v). al_put (f k) v) m [])"
    and "set (fold (\<lambda>(k, v). al_put (f k) v) m []) = (\<lambda>(k, v). (f k, v)) ` set m"
proof -
  let ?m = "map (\<lambda>(k, v). (f k, v)) m" and ?r = "fold (\<lambda>(k, v). al_put (f k) v) m []"
  show wf: "al_wf ?r" using al_collect_acc [of "[]" f m] by simp
  have "distinct (map f (map fst m))" using assms unfolding distinct_map [of f] al_wf_def by simp
  then have d: "distinct (map fst ?m)" by (simp add: comp_def case_prod_unfold)
  have "map_of ?r = map_of (rev ?m)" using al_collect_acc [of "[]" f m] by simp
  also have "\<dots> = map_of ?m" using d map_of_inject_set [of "rev ?m" ?m] by (simp add: rev_map [symmetric])
  finally have "set ?r = set ?m" using wf d map_of_inject_set [of ?r ?m] by (simp add: al_wf_def)
  then show "set ?r = (\<lambda>(k, v). (f k, v)) ` set m" by simp
qed

lemma et_to_btree_spec:
  assumes "ts_ok s" "et_iter s = Some m"
  shows "et_to_btree s = Some m"
proof -
  have m: "al_wf m" using et_iter_spec [OF assms(1)] assms(2) by auto
  note al_collect [OF m, of "\<lambda>k. k"]
  then show ?thesis using al_unique_set [OF _ m] assms(2) by (simp add: et_to_btree_def)
qed

text \<open>C29. The compact table is the ordered map it replaced. Whatever sequence of inserts, removals,
  in-place updates and lookups is run on it, it returns what the ordered map of the same locations
  returns at every step and does not panic, as long as the slabs named fit the 2^32 ordinals of
  the process; and after it the walk, the on-disk record, the length, the keys, the keys of any
  range and every lookup are those of the ordered map after the same run.\<close>

theorem table_refines_btree:
  assumes "ts_ok s" "et_iter s = Some m" "in_fits S (fst s)"
    and "list_all (op_within {l. el_slab l \<in> S}) ops" "\<forall>l \<in> snd ` set m. el_slab l \<in> S"
  shows "\<exists>outs s' m'. run_ops et_get et_insert et_remove ops s = Some (outs, s') \<and>
    run_ops bt_get bt_insert bt_remove ops m = Some (outs, m') \<and>
    et_iter s' = Some m' \<and> et_to_btree s' = Some m' \<and> et_len (snd s') = length m' \<and>
    et_keys (snd s') = map fst m' \<and>
    (\<forall>lo hi. et_keys_in lo hi (snd s') = filter (\<lambda>v. lo \<le> v \<and> v < hi) (map fst m')) \<and>
    (\<forall>v. et_get v s' = Some (map_of m' v))"
proof -
  let ?V = "{l :: ExtentLocation. el_slab l \<in> S}"
  have m: "al_wf m" "map_of m = ts_abs s" using et_iter_spec [OF assms(1)] assms(2) by auto
  have ran: "ran (map_of m) \<subseteq> ?V" using assms(5) by (force simp: ran_def dest: map_of_SomeD)
  have "card (set (in_ids (fst s)) \<union> el_slab ` ?V) \<le> card (set (in_ids (fst s)) \<union> S)"
    using assms(3) by (intro card_mono) (auto simp: in_fits_def)
  moreover have "finite (el_slab ` ?V)"
    by (rule finite_subset [of _ S]) (use assms(3) in \<open>auto simp: in_fits_def\<close>)
  ultimately have "in_fits (el_slab ` ?V) (fst s)"
    using assms(3) unfolding in_fits_def by linarith
  then have fits: "ts_fits ?V s" by (simp add: ts_fits_def)
  obtain s' where s': "run_ops et_get et_insert et_remove ops s = Some (fst (map_run ops (ts_abs s)), s')"
      "ts_ok s'" "ts_abs s' = snd (map_run ops (ts_abs s))"
    using extab.run_ops_spec [OF assms(1) fits _ assms(4)] ran m(2) by auto
  obtain m' where m': "run_ops bt_get bt_insert bt_remove ops m = Some (fst (map_run ops (map_of m)), m')"
      "al_wf m'" "map_of m' = snd (map_run ops (map_of m))"
    using btree.run_ops_spec [OF m(1) _ ran assms(4)] by auto
  obtain m'' where m'': "et_iter s' = Some m''" "al_wf m''" "map_of m'' = ts_abs s'" "map fst m'' = et_keys (snd s')"
    using et_iter_spec [OF s'(2)] by blast
  have eq: "m'' = m'" using al_unique [OF m''(2) m'(2)] m''(3) s'(3) m'(3) m(2) by simp
  have "et_len (snd s') = length m'" using et_keys_spec(4) [OF s'(2)] m''(3) eq al_card [OF m'(2)] by simp
  moreover have "et_keys_in lo hi (snd s') = filter (\<lambda>v. lo \<le> v \<and> v < hi) (map fst m')" for lo hi
    using et_keys_in_spec [of "fst s'" "snd s'" lo hi] s'(2) m''(4) eq by (simp add: ts_ok_def)
  ultimately show ?thesis
    using s' m' m'' eq m(2) et_to_btree_spec [OF s'(2) m''(1)] et_get_abs [OF s'(2)] by auto
qed

lemma ts_ok_new: "in_ok w \<Longrightarrow> ts_ok (w, et_new)" "ts_abs (w, et_new) = Map.empty"
  by (auto simp: ts_ok_def et_ok_def chunks_ok_def et_new_def ts_abs_def et_find_def split_beta)

lemma in_ok_new [simp]: "in_ok interner_new"
  by (simp add: in_ok_def interner_new_def)

theorem table_refines_btree_witness:
  "\<exists>outs s' m'. run_ops et_get et_insert et_remove
      [OpInsert 70 \<lparr>el_slab = 9, el_slot = 3, el_refs = 1, el_gen = 1, el_mirrors = [\<lparr>lg_slab = 8, lg_slot = 4\<rparr>]\<rparr>,
       OpInsert 5 \<lparr>el_slab = 8, el_slot = 2, el_refs = 1, el_gen = 1, el_mirrors = []\<rparr>,
       OpUpdate 70 (\<lambda>l. l\<lparr>el_refs := 2\<rparr>), OpRemove 5, OpGet 70] (interner_new, et_new) = Some (outs, s') \<and>
    run_ops bt_get bt_insert bt_remove
      [OpInsert 70 \<lparr>el_slab = 9, el_slot = 3, el_refs = 1, el_gen = 1, el_mirrors = [\<lparr>lg_slab = 8, lg_slot = 4\<rparr>]\<rparr>,
       OpInsert 5 \<lparr>el_slab = 8, el_slot = 2, el_refs = 1, el_gen = 1, el_mirrors = []\<rparr>,
       OpUpdate 70 (\<lambda>l. l\<lparr>el_refs := 2\<rparr>), OpRemove 5, OpGet 70] [] = Some (outs, m') \<and>
    et_iter s' = Some m' \<and> et_to_btree s' = Some m'"
proof -
  let ?ops = "[OpInsert 70 \<lparr>el_slab = 9, el_slot = 3, el_refs = 1, el_gen = 1, el_mirrors = [\<lparr>lg_slab = 8, lg_slot = 4\<rparr>]\<rparr>,
       OpInsert 5 \<lparr>el_slab = 8, el_slot = 2, el_refs = 1, el_gen = 1, el_mirrors = []\<rparr>,
       OpUpdate 70 (\<lambda>l. l\<lparr>el_refs := 2\<rparr>), OpRemove 5, OpGet 70]"
  have "in_fits {8, 9} (fst (interner_new, et_new))" by (simp add: in_fits_def interner_new_def)
  moreover have "et_iter (interner_new, et_new) = Some []" by (simp add: et_iter_def et_new_def)
  moreover have "list_all (op_within {l. el_slab l \<in> {8, 9}}) ?ops" by simp
  ultimately show ?thesis
    using table_refines_btree [OF ts_ok_new(1) [OF in_ok_new], of "[]" "{8, 9}" ?ops] by fastforce
qed

section \<open>Operations on whole tables\<close>

lemma et_update_unmapped: "ts_ok s \<Longrightarrow> ts_abs s v = None \<Longrightarrow> et_update v f s = Some (None, s)"
  unfolding et_update_def by (rule extab.update_unmapped)

lemma et_update_mapped:
  assumes "ts_ok s" "ts_fits V s" "ts_abs s k = Some v" "f v = (r, v')" "v' \<in> V"
  shows "\<exists>s'. et_update k f s = Some (Some r, s') \<and> ts_ok s' \<and> ts_fits V s' \<and> ts_le s s' \<and>
    ts_abs s' = (ts_abs s)(k \<mapsto> v')"
  unfolding et_update_def by (rule extab.update_mapped) (rule assms)+

text \<open>Every share count goes up by \<open>n\<close> and stays at the greatest value if it would pass it; nothing else changes.\<close>

lemma entries_add_refs:
  "entries (et_chunks (et_add_refs n t)) = map (\<lambda>(c, p). (c, p\<lparr>pk_refs := sat_add (pk_refs p) n\<rparr>)) (entries (et_chunks t))"
proof -
  have "entries (map (\<lambda>(c, chunk). (c, map f chunk)) m) = map (\<lambda>(c, p). (c, f p)) (entries m)" for f and m
    by (induction m) auto
  then show ?thesis by (simp add: et_add_refs_def)
qed

lemma et_add_refs_spec:
  assumes "ts_ok (w, t)"
  shows "ts_ok (w, et_add_refs n t)"
    and "ts_abs (w, et_add_refs n t) = (\<lambda>v. map_option (\<lambda>l. l\<lparr>el_refs := sat_add (el_refs l) n\<rparr>) (ts_abs (w, t) v))"
proof -
  let ?f = "\<lambda>p. p\<lparr>pk_refs := sat_add (pk_refs p) n\<rparr>" and ?t = "et_add_refs n t"
  have ok: "chunks_ok w (et_chunks t)" using assms by (simp add: ts_ok_def)
  have chunk: "chunk_ok w c (map ?f chunk) \<longleftrightarrow> chunk_ok w c chunk" for c chunk
    by (auto simp: chunk_ok_def chunk_sorted_def comp_def)
  have "map fst (et_chunks ?t) = map fst (et_chunks t)" by (simp add: et_add_refs_def comp_def case_prod_unfold)
  then have ok': "chunks_ok w (et_chunks ?t)"
    using ok chunk by (auto simp: chunks_ok_def al_wf_def) (auto simp: et_add_refs_def)
  have find: "et_find v ?t = map_option ?f (et_find v t)" for v
  proof -
    have "et_find v ?t = Some q \<longleftrightarrow> (\<exists>p. et_find v t = Some p \<and> q = ?f p)" for q
      unfolding find_mem [OF ok] find_mem [OF ok'] entries_add_refs by force
    then show ?thesis by (cases "et_find v t"; cases "et_find v ?t") auto
  qed
  have len: "entry_count (et_chunks ?t) = entry_count (et_chunks t)"
    by (simp flip: length_entries add: entries_add_refs)
  show "ts_ok (w, ?t)"
    using assms ok' len find by (auto simp: ts_ok_def et_ok_def entry_count_def et_add_refs_def)
  have "mirrors_of v ?t = mirrors_of v t" for v by (simp add: mirrors_of_alt et_add_refs_def)
  then show "ts_abs (w, ?t) = (\<lambda>v. map_option (\<lambda>l. l\<lparr>el_refs := sat_add (el_refs l) n\<rparr>) (ts_abs (w, t) v))"
    by (auto simp: ts_abs_def find location_def fun_eq_iff split: option.split bind_splits)
qed

lemma ts_fits_any: "ts_fits V (w, t) = ts_fits V (w, t')"
  by (simp add: ts_fits_def)

lemma et_extend_from_spec:
  assumes "ts_ok (w, t)" "et_ok w other" "ts_fits V (w, t)" "ran (ts_abs (w, other)) \<subseteq> V"
  shows "\<exists>w' t'. et_extend_from other (w, t) = Some (w', t') \<and> ts_ok (w', t') \<and> in_le w w' \<and> ts_fits V (w', t') \<and>
    ts_abs (w', t') = ts_abs (w, t) ++ ts_abs (w, other)"
proof -
  have o: "ts_ok (w, other)" using assms by (simp add: ts_ok_def)
  obtain m where m: "et_iter (w, other) = Some m" "al_wf m" "map_of m = ts_abs (w, other)"
    using et_iter_spec [OF o] by auto
  have "snd ` set m \<subseteq> ran (map_of m)" using m(2) by (force simp: ran_def al_wf_def)
  then have "snd ` set m \<subseteq> V" using assms(4) m(3) by simp
  then obtain s' where "table_extend et_insert m (w, t) = Some s'" "ts_ok s'" "ts_fits V s'" "ts_le (w, t) s'"
      "ts_abs s' = ts_abs (w, t) ++ map_of (rev m)"
    using extab.extend_spec [OF assms(1,3), of m] by blast
  moreover have "map_of (rev m) = map_of m" using m map_of_inject_set [of "rev m" m] by (simp add: al_wf_def rev_map [symmetric])
  ultimately show ?thesis using m by (cases s') (auto simp: et_extend_from_def ts_le_def)
qed

lemma et_from_iter_spec:
  assumes "in_ok w" "ts_fits V (w, et_new)" "snd ` set kvs \<subseteq> V"
  shows "\<exists>w' t'. et_from_iter kvs w = Some (w', t') \<and> ts_ok (w', t') \<and> in_le w w' \<and> ts_fits V (w', t') \<and>
    ts_abs (w', t') = map_of (rev kvs)"
proof -
  obtain s' where "table_extend et_insert kvs (w, et_new) = Some s'" "ts_ok s'" "ts_fits V s'" "ts_le (w, et_new) s'"
      "ts_abs s' = ts_abs (w, et_new) ++ map_of (rev kvs)"
    using extab.extend_spec [OF ts_ok_new(1) [OF assms(1)] assms(2,3)] by auto
  then show ?thesis by (cases s') (auto simp: et_from_iter_def ts_le_def ts_ok_new(2))
qed

text \<open>The shift of whole chunks, when the base is a multiple of 64.\<close>

lemma aligned_base:
  assumes "base AND CHUNK_MASK = 0"
  shows "unat base = 64 * unat (drop_bit 6 base)"
proof -
  have "take_bit 6 base = 0" using assms by (simp add: shift_mask and_63)
  then have "unat (ucast (take_bit 6 base) :: u8) = 0" by simp
  then have "unat base mod 64 = 0" by (simp only: unat_off)
  then show ?thesis by (metis add.right_neutral mult_div_mod_eq unat_chunk)
qed

lemma shift_parts:
  assumes "vext_parts c off" "unat base = 64 * unat shift" "unat (join_vext c off) + unat base < 2 ^ 64"
  shows "vext_parts (c + shift) off" "join_vext (c + shift) off = join_vext c off + base" "unat (c + shift) = unat c + unat shift"
proof -
  have l: "64 * unat c + unat off + 64 * unat shift < 2 ^ 64" using assms by (simp add: unat_join)
  then show u: "unat (c + shift) = unat c + unat shift" by (simp add: unat_word_ariths take_bit_nat_eq_self)
  then show p: "vext_parts (c + shift) off" using l assms(1) by (simp add: vext_parts_def)
  have "unat (join_vext c off + base) = unat (join_vext c off) + unat base"
    using assms(3) by (simp add: unat_word_ariths take_bit_nat_eq_self)
  then have "unat (join_vext (c + shift) off) = unat (join_vext c off + base)"
    using u assms(1,2) by (simp add: unat_join p)
  then show "join_vext (c + shift) off = join_vext c off + base" by (simp only: word_unat_eq_iff)
qed

definition shift_map :: "u64 \<Rightarrow> (u64 \<rightharpoonup> 'v) \<Rightarrow> u64 \<rightharpoonup> 'v" where
  "shift_map base m v = (if base \<le> v then m (v - base) else None)"

lemma shift_map_Some:
  assumes "\<forall>u \<in> dom m. unat u + unat base < 2 ^ 64"
  shows "shift_map base m v = Some l \<longleftrightarrow> (\<exists>u. m u = Some l \<and> v = u + base)"
proof
  assume "shift_map base m v = Some l"
  then have "m (v - base) = Some l" by (simp add: shift_map_def split: if_splits)
  then show "\<exists>u. m u = Some l \<and> v = u + base" by (intro exI [of _ "v - base"]) simp
next
  assume "\<exists>u. m u = Some l \<and> v = u + base"
  then obtain u where u: "m u = Some l" "v = u + base" by blast
  then have "unat u + unat base < 2 ^ 64" using assms by auto
  then have "base \<le> u + base" by (simp add: word_le_nat_alt unat_word_ariths take_bit_nat_eq_self)
  then show "shift_map base m v = Some l" using u by (simp add: shift_map_def)
qed

lemma et_shifted_aligned:
  assumes ok: "ts_ok (w, t)" and al: "base AND CHUNK_MASK = 0"
    and room: "\<forall>v \<in> dom (ts_abs (w, t)). unat v + unat base < 2 ^ 64"
  shows "\<exists>t'. et_shifted base (w, t) = Some (w, t') \<and> ts_ok (w, t') \<and> ts_abs (w, t') = shift_map base (ts_abs (w, t))"
proof -
  let ?sh = "drop_bit 6 base"
  define t' where "t' = \<lparr>et_chunks = fold (\<lambda>(c, v). al_put (c + ?sh) v) (et_chunks t) [],
    et_mirrors = fold (\<lambda>(v, m). al_put (v + base) m) (et_mirrors t) [], et_len = et_len t\<rparr>"
  have c: "chunks_ok w (et_chunks t)" "al_wf (et_chunks t)" and m: "al_wf (et_mirrors t)"
    using ok by (auto simp: ts_ok_def et_ok_def chunks_ok_def)
  note ch = al_collect [OF c(2), of "\<lambda>c. c + ?sh"] and mi = al_collect [OF m, of "\<lambda>v. v + base"]
  have parts: "vext_parts (c + ?sh) (pk_off p) \<and> join_vext (c + ?sh) (pk_off p) = join_vext c (pk_off p) + base"
    if e: "(c, p) \<in> set (entries (et_chunks t))" for c p
  proof -
    have "et_find (join_vext c (pk_off p)) t = Some p" using find_mem [OF c(1)] e by blast
    then have "join_vext c (pk_off p) \<in> dom (ts_abs (w, t))" using ts_abs_None [OF ok, of "join_vext c (pk_off p)"] by auto
    then have "unat (join_vext c (pk_off p)) + unat base < 2 ^ 64" using room by blast
    moreover have "vext_parts c (pk_off p)" using e c(1) by (fastforce simp: set_entries chunks_ok_def chunk_ok_def)
    ultimately show ?thesis using shift_parts [OF _ aligned_base [OF al]] by blast
  qed
  have c': "chunks_ok w (et_chunks t')"
    using c(1) ch parts by (fastforce simp: t'_def chunks_ok_def chunk_ok_def set_entries)
  have ent: "(c', p) \<in> set (entries (et_chunks t')) \<longleftrightarrow> (\<exists>c. (c, p) \<in> set (entries (et_chunks t)) \<and> c' = c + ?sh)" for c' p
    using ch(2) by (force simp: set_entries t'_def)
  have find: "et_find v t' = Some p \<longleftrightarrow> (\<exists>u. et_find u t = Some p \<and> v = u + base)" for v p
    unfolding find_mem [OF c(1)] find_mem [OF c'] ent using parts by (metis (no_types, lifting))
  have mem: "(v, ms) \<in> set (et_mirrors t') \<longleftrightarrow> (\<exists>u. (u, ms) \<in> set (et_mirrors t) \<and> v = u + base)" for v ms
    using mi(2) by (force simp: t'_def)
  have mwf: "al_wf (et_mirrors t')" using mi(1) by (simp add: t'_def)
  have mir: "mirrors_of (u + base) t' = mirrors_of u t" for u
  proof -
    have "map_of (et_mirrors t') (u + base) = Some ms \<longleftrightarrow> map_of (et_mirrors t) u = Some ms" for ms
      using mem by (simp flip: al_wf_mem [OF mwf] al_wf_mem [OF m])
    then show ?thesis
      by (cases "map_of (et_mirrors t) u"; cases "map_of (et_mirrors t') (u + base)") (auto simp: mirrors_of_alt)
  qed
  have "entry_count (et_chunks t') = et_len t'"
  proof -
    have "bij_betw (\<lambda>(c, v). (c + ?sh, v)) (set (et_chunks t)) (set (et_chunks t'))"
      using ch(2) by (auto simp: bij_betw_def inj_on_def t'_def)
    moreover have "distinct (et_chunks t)" "distinct (et_chunks t')"
      using c' c(2) by (auto simp: chunks_ok_def al_wf_def distinct_map)
    ultimately have "entry_count (et_chunks t') = entry_count (et_chunks t)"
      by (simp add: entry_count_def sum_list_distinct_conv_sum_set sum.reindex_bij_betw [symmetric] case_prod_unfold)
    then show ?thesis using ok by (simp add: t'_def ts_ok_def et_ok_def entry_count_def)
  qed
  moreover have "ms \<noteq> [] \<and> et_find v t' \<noteq> None" if "(v, ms) \<in> set (et_mirrors t')" for v ms
    using that ok find unfolding mem ts_ok_def et_ok_def by fastforce
  ultimately have "ts_ok (w, t')" using c' mwf ok by (auto simp: ts_ok_def et_ok_def entry_count_def)
  moreover have "ts_abs (w, t') v = Some l \<longleftrightarrow> shift_map base (ts_abs (w, t)) v = Some l" for v l
    unfolding shift_map_Some [OF room] ts_abs_Some find using mir by metis
  then have "ts_abs (w, t') = shift_map base (ts_abs (w, t))" by (intro ext) (metis option.exhaust)
  moreover have "et_shifted base (w, t) = Some (w, t')" using al by (simp add: et_shifted_def t'_def shift_mask Let_def)
  ultimately show ?thesis by blast
qed

lemma et_shifted_spec:
  assumes ok: "ts_ok (w, t)" and room: "\<forall>v \<in> dom (ts_abs (w, t)). unat v + unat base < 2 ^ 64"
    and V: "ts_fits V (w, t)" "ran (ts_abs (w, t)) \<subseteq> V"
  shows "\<exists>w' t'. et_shifted base (w, t) = Some (w', t') \<and> ts_ok (w', t') \<and> in_le w w' \<and> ts_fits V (w', t') \<and>
    ts_abs (w', t') = shift_map base (ts_abs (w, t))"
proof (cases "base AND CHUNK_MASK = 0")
  case True
  then show ?thesis using et_shifted_aligned [OF ok _ room] V(1) ts_fits_any by fastforce
next
  case False
  obtain m where m: "et_iter (w, t) = Some m" "al_wf m" "map_of m = ts_abs (w, t)" using et_iter_spec [OF ok] by auto
  let ?m = "map (\<lambda>(v, l). (v + base, l)) m"
  have "snd ` set ?m \<subseteq> ran (map_of m)" using m(2) by (force simp: ran_def al_wf_def)
  then have "snd ` set ?m \<subseteq> V" using V(2) m(3) by simp
  moreover have "in_ok w" "ts_fits V (w, et_new)" using ok V(1) by (simp_all add: ts_ok_def ts_fits_def)
  ultimately obtain w' t' where r: "et_from_iter ?m w = Some (w', t')" "ts_ok (w', t')" "in_le w w'" "ts_fits V (w', t')"
      "ts_abs (w', t') = map_of (rev ?m)"
    using et_from_iter_spec [of w V ?m] by blast
  have "distinct (map (\<lambda>v. v + base) (map fst m))"
    using m(2) unfolding distinct_map [of "\<lambda>v. v + base"] al_wf_def by (simp add: inj_on_def)
  then have d: "distinct (map fst ?m)" by (simp add: comp_def case_prod_unfold)
  then have "map_of (rev ?m) v = Some l \<longleftrightarrow> (v, l) \<in> set ?m" for v l
    by (simp add: rev_map [symmetric])
  also have "(v, l) \<in> set ?m \<longleftrightarrow> (\<exists>u. ts_abs (w, t) u = Some l \<and> v = u + base)" for v l
    unfolding m(3) [symmetric] al_wf_mem [OF m(2), symmetric] by force
  finally have "ts_abs (w', t') v = Some l \<longleftrightarrow> shift_map base (ts_abs (w, t)) v = Some l" for v l
    unfolding r(5) shift_map_Some [OF room] .
  then have "ts_abs (w', t') = shift_map base (ts_abs (w, t))" by (intro ext) (metis option.exhaust)
  then show ?thesis using r m False by (auto simp: et_shifted_def)
qed

lemma et_for_each_spec:
  assumes "ts_ok s" "ts_fits V s"
    and "\<And>k v acc. fst (snd (f k v acc)) = g k v" "\<And>k v. ts_abs s k = Some v \<Longrightarrow> g k v \<in> V"
    and "\<And>k v acc. \<not> fst (f k v acc) \<Longrightarrow> g k v = v"
  shows "\<exists>s'. et_for_each_mut f acc s =
      Some (fold (\<lambda>k acc. snd (snd (f k (the (ts_abs s k)) acc))) (et_keys (snd s)) acc, s') \<and>
    ts_ok s' \<and> ts_fits V s' \<and> ts_le s s' \<and> ts_abs s' = (\<lambda>k. map_option (g k) (ts_abs s k))"
proof -
  have k: "set (et_keys (snd s)) = dom (ts_abs s)" "distinct (et_keys (snd s))" using et_keys_spec [OF assms(1)] by auto
  have "(\<lambda>k. if k \<in> set (et_keys (snd s)) then map_option (g k) (ts_abs s k) else ts_abs s k)
      = (\<lambda>k. map_option (g k) (ts_abs s k))"
  proof
    fix k show "(if k \<in> set (et_keys (snd s)) then map_option (g k) (ts_abs s k) else ts_abs s k) = map_option (g k) (ts_abs s k)"
      by (cases "ts_abs s k") (auto simp: k(1))
  qed
  moreover note extab.for_each_spec [OF assms(1,2) k(2), of f g acc]
  ultimately show ?thesis unfolding et_for_each_mut_def using k(1) assms(3-5) by auto
qed

end
