(* ===== verification/GemSpec.thy ===== *)
theory GemSpec
  imports Gem ExTableSpec
begin

text \<open>
  What the global extent map stands for: \<open>g_ext\<close> and \<open>g_par\<close> are the location of every extent
  and the parity group of every stripe of the volumes in memory, \<open>gem_ok\<close> the invariant. Each
  operation is related to them, and to the record of changes, by \<open>gem_eff\<close>.
\<close>

section \<open>Abstraction and invariant\<close>

definition g_ext :: "Gem \<Rightarrow> uuid \<Rightarrow> u64 \<rightharpoonup> ExtentLocation" where
  "g_ext g v = (case map_of (gm_volumes g) v of None \<Rightarrow> Map.empty | Some m \<Rightarrow> ts_abs (gm_interner g, vm_extents m))"

definition g_par :: "Gem \<Rightarrow> uuid \<Rightarrow> u64 \<rightharpoonup> ParityGroup" where
  "g_par g v = (case map_of (gm_volumes g) v of None \<Rightarrow> Map.empty | Some m \<Rightarrow> map_of (vm_parity m))"

definition vm_ok :: "interner \<Rightarrow> VolumeExtentMap \<Rightarrow> bool" where
  "vm_ok w m \<longleftrightarrow> et_ok w (vm_extents m) \<and> al_wf (vm_parity m)"

definition gem_ok :: "Gem \<Rightarrow> bool" where
  "gem_ok g \<longleftrightarrow> in_ok (gm_interner g) \<and> al_wf (gm_volumes g) \<and>
     (\<forall>(v, m) \<in> set (gm_volumes g). vm_ok (gm_interner g) m) \<and> al_wf (gm_cold g) \<and>
     (\<forall>(v, m) \<in> set (gm_volumes g). \<not> is_cold v g)"

definition changed_extents :: "Changes \<Rightarrow> uuid \<Rightarrow> u64 set" where
  "changed_extents c v = (case map_of (ch_extents c) v of Some s \<Rightarrow> s | None \<Rightarrow> {})"

definition changed_stripes :: "Changes \<Rightarrow> uuid \<Rightarrow> u64 set" where
  "changed_stripes c v = (case map_of (ch_parity c) v of Some s \<Rightarrow> s | None \<Rightarrow> {})"

text \<open>Every difference between two states of the maps is recorded.\<close>

definition covered :: "Changes \<Rightarrow> Gem \<Rightarrow> Gem \<Rightarrow> bool" where
  "covered c g g' \<longleftrightarrow> (\<forall>v. v \<in> ch_whole c \<or>
     (\<forall>e. e \<in> changed_extents c v \<or> g_ext g v e = g_ext g' v e) \<and>
     (\<forall>s. s \<in> changed_stripes c v \<or> g_par g v s = g_par g' v s))"

definition changes_le :: "Changes \<Rightarrow> Changes \<Rightarrow> bool" where
  "changes_le c c' \<longleftrightarrow> ch_whole c \<subseteq> ch_whole c' \<and>
     (\<forall>v. changed_extents c v \<subseteq> changed_extents c' v) \<and> (\<forall>v. changed_stripes c v \<subseteq> changed_stripes c' v)"

text \<open>The effect of an operation that keeps the record of changes: no cold map is touched.\<close>

definition gem_eff :: "Gem \<Rightarrow> Gem \<Rightarrow> bool" where
  "gem_eff g g' \<longleftrightarrow> gem_ok g' \<and> in_le (gm_interner g) (gm_interner g') \<and> gm_track g' = gm_track g \<and>
     changes_le (gm_changes g) (gm_changes g') \<and> (gm_track g \<longrightarrow> covered (gm_changes g') g g') \<and>
     gm_cold g' = gm_cold g \<and> gm_pins g' = gm_pins g \<and>
     (\<forall>v. is_cold v g \<longrightarrow> \<not> has_changes v g \<longrightarrow> \<not> has_changes v g')"

lemma changes_le_refl [simp]: "changes_le c c"
  by (simp add: changes_le_def)

lemma changes_le_trans: "changes_le a b \<Longrightarrow> changes_le b c \<Longrightarrow> changes_le a c"
  unfolding changes_le_def by blast

lemma covered_refl [simp]: "covered c g g"
  by (simp add: covered_def)

lemma covered_mono: "covered c g g' \<Longrightarrow> changes_le c c' \<Longrightarrow> covered c' g g'"
  unfolding covered_def changes_le_def by blast

lemma covered_trans: "covered c a b \<Longrightarrow> covered c b d \<Longrightarrow> covered c a d"
  unfolding covered_def by metis

lemma gem_eff_refl [simp]: "gem_ok g \<Longrightarrow> gem_eff g g"
  by (simp add: gem_eff_def)

lemma is_cold_eff: "gem_eff a b \<Longrightarrow> is_cold v b \<longleftrightarrow> is_cold v a"
  by (simp add: gem_eff_def is_cold_def)

lemma gem_eff_trans [trans]:
  assumes "gem_eff a b" "gem_eff b c"
  shows "gem_eff a c"
proof -
  have "gm_track a \<longrightarrow> covered (gm_changes c) a c"
    using assms covered_mono [of "gm_changes b" a b "gm_changes c"] covered_trans [of "gm_changes c" a b c]
    by (auto simp: gem_eff_def)
  then show ?thesis
    using assms is_cold_eff [OF assms(1)] unfolding gem_eff_def
    by (auto intro: in_le_trans changes_le_trans)
qed

lemma gem_ok_vm: "gem_ok g \<Longrightarrow> map_of (gm_volumes g) v = Some m \<Longrightarrow> vm_ok (gm_interner g) m"
  by (auto simp: gem_ok_def dest: map_of_SomeD)

lemma vm_ok_mono: "in_le w w' \<Longrightarrow> vm_ok w m \<Longrightarrow> vm_ok w' m"
  using et_ok_mono by (auto simp: vm_ok_def)

lemma vm_ok_new: "vm_ok w vm_new"
  by (simp add: vm_ok_def vm_new_def et_new_def et_ok_def chunks_ok_def)

lemma gem_ok_vm_of: "gem_ok g \<Longrightarrow> vm_ok (gm_interner g) (vm_of v g)"
  using gem_ok_vm [of g v] by (auto simp: vm_of_def vm_ok_new split: option.split)

lemma ts_ok_vm: "gem_ok g \<Longrightarrow> vm_ok (gm_interner g) m \<Longrightarrow> ts_ok (gm_interner g, vm_extents m)"
  by (simp add: gem_ok_def vm_ok_def ts_ok_def)

lemma ts_abs_vm_new [simp]: "ts_abs (w, vm_extents vm_new) = Map.empty"
  by (simp add: vm_new_def ts_ok_new)

lemma g_ext_vm_of: "g_ext g v = ts_abs (gm_interner g, vm_extents (vm_of v g))"
  by (simp add: g_ext_def vm_of_def split: option.split)

lemma g_par_vm_of: "g_par g v = map_of (vm_parity (vm_of v g))"
  by (simp add: g_par_def vm_of_def vm_new_def split: option.split)

section \<open>Replacing the map of one volume\<close>

definition vm_ext :: "interner \<Rightarrow> VolumeExtentMap \<Rightarrow> u64 \<rightharpoonup> ExtentLocation" where
  "vm_ext w m = ts_abs (w, vm_extents m)"

lemma g_ext_put:
  assumes "gem_ok g" "in_le (gm_interner g) w"
  shows "g_ext (vm_put v m (g\<lparr>gm_interner := w\<rparr>)) = (g_ext g)(v := vm_ext w m)"
proof
  fix u
  have "ts_abs (w, vm_extents m') = ts_abs (gm_interner g, vm_extents m')"
    if "map_of (gm_volumes g) u = Some m'" for m'
    using ts_abs_mono [OF assms(2)] gem_ok_vm [OF assms(1) that] by (simp add: vm_ok_def)
  then show "g_ext (vm_put v m (g\<lparr>gm_interner := w\<rparr>)) u = ((g_ext g)(v := vm_ext w m)) u"
    by (auto simp: g_ext_def vm_put_def vm_ext_def split: option.split)
qed

lemma g_par_put: "g_par (vm_put v m (g\<lparr>gm_interner := w\<rparr>)) = (g_par g)(v := map_of (vm_parity m))"
  by (auto simp: g_par_def vm_put_def fun_eq_iff split: option.split)

lemma gem_ok_put:
  assumes "gem_ok g" "in_le (gm_interner g) w" "in_ok w" "vm_ok w m" "gem_check v g"
  shows "gem_ok (vm_put v m (g\<lparr>gm_interner := w\<rparr>))"
  using assms vm_ok_mono [OF assms(2)]
  by (auto simp: gem_ok_def vm_put_def set_al_put gem_check_def is_cold_def)

lemma gem_ok_del:
  assumes "gem_ok g"
  shows "gem_ok (g\<lparr>gm_volumes := al_del v (gm_volumes g)\<rparr>)"
  using assms by (auto simp: gem_ok_def set_al_del is_cold_def)

lemma g_ext_del: "g_ext (g\<lparr>gm_volumes := al_del v (gm_volumes g)\<rparr>) = (g_ext g)(v := Map.empty)"
  by (auto simp: g_ext_def fun_eq_iff split: option.split)

lemma g_par_del: "g_par (g\<lparr>gm_volumes := al_del v (gm_volumes g)\<rparr>) = (g_par g)(v := Map.empty)"
  by (auto simp: g_par_def fun_eq_iff split: option.split)

section \<open>Recording changes\<close>

lemma changed_add [simp]:
  "changed_extents (c\<lparr>ch_extents := add_change v e (ch_extents c)\<rparr>) u = (if u = v then insert e (changed_extents c u) else changed_extents c u)"
  "changed_stripes (c\<lparr>ch_parity := add_change v e (ch_parity c)\<rparr>) u = (if u = v then insert e (changed_stripes c u) else changed_stripes c u)"
  by (auto simp: changed_extents_def changed_stripes_def add_change_def split: option.split)

lemma changed_other [simp]:
  "changed_stripes (c\<lparr>ch_extents := x\<rparr>) = changed_stripes c" "changed_extents (c\<lparr>ch_parity := x\<rparr>) = changed_extents c"
  "changed_extents (c\<lparr>ch_whole := y\<rparr>) = changed_extents c" "changed_stripes (c\<lparr>ch_whole := y\<rparr>) = changed_stripes c"
  by (auto simp: changed_extents_def changed_stripes_def fun_eq_iff)

lemma touch_view [simp]:
  "g_ext (touch v e g) = g_ext g" "g_par (touch v e g) = g_par g" "gem_ok (touch v e g) = gem_ok g"
  "g_ext (touch_parity v e g) = g_ext g" "g_par (touch_parity v e g) = g_par g" "gem_ok (touch_parity v e g) = gem_ok g"
  "g_ext (touch_whole v g) = g_ext g" "g_par (touch_whole v g) = g_par g" "gem_ok (touch_whole v g) = gem_ok g"
  by (auto simp: touch_def touch_parity_def touch_whole_def g_ext_def g_par_def gem_ok_def is_cold_def fun_eq_iff split: option.split)

lemma touch_rest [simp]:
  "gm_volumes (touch v e g) = gm_volumes g" "gm_interner (touch v e g) = gm_interner g" "gm_track (touch v e g) = gm_track g"
  "gm_cold (touch v e g) = gm_cold g" "gm_pins (touch v e g) = gm_pins g"
  "gm_volumes (touch_parity v e g) = gm_volumes g" "gm_interner (touch_parity v e g) = gm_interner g"
  "gm_track (touch_parity v e g) = gm_track g" "gm_cold (touch_parity v e g) = gm_cold g" "gm_pins (touch_parity v e g) = gm_pins g"
  "gm_volumes (touch_whole v g) = gm_volumes g" "gm_interner (touch_whole v g) = gm_interner g"
  "gm_track (touch_whole v g) = gm_track g" "gm_cold (touch_whole v g) = gm_cold g" "gm_pins (touch_whole v g) = gm_pins g"
  by (simp_all add: touch_def touch_parity_def touch_whole_def)

lemma has_changes_touch:
  "has_changes u (touch v e g) \<longleftrightarrow> has_changes u g \<or> gm_track g \<and> u = v"
  "has_changes u (touch_parity v e g) \<longleftrightarrow> has_changes u g \<or> gm_track g \<and> u = v"
  "has_changes u (touch_whole v g) \<longleftrightarrow> has_changes u g \<or> gm_track g \<and> u = v"
  by (auto simp: has_changes_def touch_def touch_parity_def touch_whole_def add_change_def)

section \<open>Ready states and steps\<close>

text \<open>Every slab named from now on is one of \<open>S\<close>, and those fit the slab ordinals.\<close>

definition loc_within :: "uuid set \<Rightarrow> ExtentLocation \<Rightarrow> bool" where
  "loc_within S l \<longleftrightarrow> lg_slab ` set (legs l) \<subseteq> S"

definition gem_inv :: "uuid set \<Rightarrow> Gem \<Rightarrow> bool" where
  "gem_inv S g \<longleftrightarrow> gem_ok g \<and> in_fits S (gm_interner g) \<and> (\<forall>v e l. g_ext g v e = Some l \<longrightarrow> loc_within S l)"

definition gem_to :: "uuid set \<Rightarrow> Gem \<Rightarrow> Gem \<Rightarrow> bool" where
  "gem_to S g g' \<longleftrightarrow> gem_inv S g' \<and> gem_eff g g'"

lemma gem_to_refl [simp]: "gem_inv S g \<Longrightarrow> gem_to S g g"
  by (simp add: gem_to_def gem_inv_def)

lemma gem_to_trans [trans]: "gem_to S a b \<Longrightarrow> gem_to S b c \<Longrightarrow> gem_to S a c"
  using gem_eff_trans by (auto simp: gem_to_def)

lemma gem_inv_touch [simp]:
  "gem_inv S (touch v e g) = gem_inv S g" "gem_inv S (touch_parity v e g) = gem_inv S g" "gem_inv S (touch_whole v g) = gem_inv S g"
  by (simp_all add: gem_inv_def)

lemma gem_inv_ok: "gem_inv S g \<Longrightarrow> gem_ok g"
  by (simp add: gem_inv_def)

lemma loc_within_slab: "loc_within S l \<Longrightarrow> el_slab l \<in> S"
  by (simp add: loc_within_def legs_def primary_def)

text \<open>A new map for one volume, before it is recorded.\<close>

definition vm_fits :: "uuid set \<Rightarrow> Gem \<Rightarrow> interner \<Rightarrow> VolumeExtentMap \<Rightarrow> bool" where
  "vm_fits S g w m \<longleftrightarrow> in_le (gm_interner g) w \<and> in_ok w \<and> in_fits S w \<and> vm_ok w m \<and>
     (\<forall>e l. vm_ext w m e = Some l \<longrightarrow> loc_within S l)"

lemma put_inv:
  assumes "gem_inv S g" "vm_fits S g w m" "gem_check v g"
  shows "gem_inv S (vm_put v m (g\<lparr>gm_interner := w\<rparr>))"
proof -
  have "gem_ok (vm_put v m (g\<lparr>gm_interner := w\<rparr>))"
    using assms by (intro gem_ok_put) (auto simp: gem_inv_def vm_fits_def)
  moreover have "g_ext (vm_put v m (g\<lparr>gm_interner := w\<rparr>)) = (g_ext g)(v := vm_ext w m)"
    using assms by (intro g_ext_put) (auto simp: gem_inv_def vm_fits_def)
  ultimately show ?thesis using assms by (simp add: gem_inv_def vm_fits_def) (simp add: vm_put_def)
qed

lemma put_eff:
  assumes inv: "gem_inv S g" and fit: "vm_fits S g w m" and res: "gem_check v g"
    and h: "gm_volumes h = al_put v m (gm_volumes g)" "gm_interner h = w" "gm_track h = gm_track g"
      "gm_cold h = gm_cold g" "gm_pins h = gm_pins g" "changes_le (gm_changes g) (gm_changes h)"
      "\<And>u. u \<noteq> v \<Longrightarrow> has_changes u h \<longleftrightarrow> has_changes u g"
    and cov: "gm_track g \<Longrightarrow> v \<in> ch_whole (gm_changes h) \<or>
      (\<forall>e. e \<in> changed_extents (gm_changes h) v \<or> g_ext g v e = vm_ext w m e) \<and>
      (\<forall>s. s \<in> changed_stripes (gm_changes h) v \<or> g_par g v s = map_of (vm_parity m) s)"
  shows "gem_to S g h" "g_ext h = (g_ext g)(v := vm_ext w m)" "g_par h = (g_par g)(v := map_of (vm_parity m))"
proof -
  let ?p = "vm_put v m (g\<lparr>gm_interner := w\<rparr>)"
  have ok: "gem_ok g" "in_le (gm_interner g) w" using inv fit by (auto simp: gem_inv_def vm_fits_def)
  have eq: "g_ext h = g_ext ?p" "g_par h = g_par ?p" "gem_ok h = gem_ok ?p"
    using h by (auto simp: g_ext_def g_par_def gem_ok_def vm_put_def is_cold_def fun_eq_iff split: option.split)
  show ext: "g_ext h = (g_ext g)(v := vm_ext w m)" using eq g_ext_put [OF ok] by simp
  show par: "g_par h = (g_par g)(v := map_of (vm_parity m))" using eq g_par_put by simp
  have "gem_inv S h" using put_inv [OF inv fit res] eq h by (simp add: gem_inv_def) (simp add: vm_put_def)
  moreover have "gem_eff g h"
  proof -
    have "gm_track g \<longrightarrow> covered (gm_changes h) g h" using cov by (auto simp: covered_def ext par)
    moreover have "\<forall>u. is_cold u g \<longrightarrow> \<not> has_changes u g \<longrightarrow> \<not> has_changes u h"
      using h(7) res unfolding gem_check_def by metis
    ultimately show ?thesis using \<open>gem_inv S h\<close> ok h(2-6) by (simp add: gem_eff_def gem_inv_def)
  qed
  ultimately show "gem_to S g h" by (simp add: gem_to_def)
qed

lemma changes_le_touch [simp]:
  "changes_le (gm_changes g) (gm_changes (touch v e g))" "changes_le (gm_changes g) (gm_changes (touch_parity v e g))"
  "changes_le (gm_changes g) (gm_changes (touch_whole v g))"
  by (auto simp: changes_le_def touch_def touch_parity_def touch_whole_def)

lemma put_fields [simp]:
  "gm_volumes (vm_put v m g) = al_put v m (gm_volumes g)" "gm_interner (vm_put v m g) = gm_interner g"
  "gm_track (vm_put v m g) = gm_track g" "gm_cold (vm_put v m g) = gm_cold g" "gm_pins (vm_put v m g) = gm_pins g"
  "gm_changes (vm_put v m g) = gm_changes g" "has_changes u (vm_put v m g) = has_changes u g"
  by (simp_all add: vm_put_def has_changes_def)

lemma interner_fields [simp]:
  "gm_changes (g\<lparr>gm_interner := w\<rparr>) = gm_changes g" "has_changes u (g\<lparr>gm_interner := w\<rparr>) = has_changes u g"
  by (simp_all add: has_changes_def)

text \<open>The three ways a new map is recorded: one extent, one stripe, the volume as a whole.\<close>

lemma put_touch:
  assumes "gem_inv S g" "vm_fits S g w m" "gem_check v g"
    and "\<And>e'. e' \<noteq> e \<Longrightarrow> vm_ext w m e' = g_ext g v e'" "map_of (vm_parity m) = g_par g v"
  defines "h \<equiv> touch v e (vm_put v m (g\<lparr>gm_interner := w\<rparr>))"
  shows "gem_to S g h" "g_ext h = (g_ext g)(v := vm_ext w m)" "g_par h = g_par g"
proof -
  have c: "gm_changes h = gm_changes (touch v e g)" by (simp add: h_def touch_def)
  have le: "changes_le (gm_changes g) (gm_changes h)" unfolding c by simp
  have cov: "v \<in> ch_whole (gm_changes h) \<or>
      (\<forall>e'. e' \<in> changed_extents (gm_changes h) v \<or> g_ext g v e' = vm_ext w m e') \<and>
      (\<forall>s. s \<in> changed_stripes (gm_changes h) v \<or> g_par g v s = map_of (vm_parity m) s)" if "gm_track g"
    using that assms(4,5) by (auto simp: c touch_def)
  note eff = put_eff [OF assms(1-3), of h, OF _ _ _ _ _ le _ cov]
  show "gem_to S g h" "g_ext h = (g_ext g)(v := vm_ext w m)"
    by (rule eff; simp add: h_def has_changes_touch)+
  have "g_par h = (g_par g)(v := map_of (vm_parity m))"
    by (rule eff; simp add: h_def has_changes_touch)
  then show "g_par h = g_par g" using assms(5) by simp
qed

lemma put_touch_parity:
  assumes "gem_inv S g" "vm_fits S g w m" "gem_check v g"
    and "vm_ext w m = g_ext g v" "\<And>s'. s' \<noteq> s \<Longrightarrow> map_of (vm_parity m) s' = g_par g v s'"
  defines "h \<equiv> touch_parity v s (vm_put v m (g\<lparr>gm_interner := w\<rparr>))"
  shows "gem_to S g h" "g_ext h = g_ext g" "g_par h = (g_par g)(v := map_of (vm_parity m))"
proof -
  have c: "gm_changes h = gm_changes (touch_parity v s g)" by (simp add: h_def touch_parity_def)
  have le: "changes_le (gm_changes g) (gm_changes h)" unfolding c by simp
  have cov: "v \<in> ch_whole (gm_changes h) \<or>
      (\<forall>e. e \<in> changed_extents (gm_changes h) v \<or> g_ext g v e = vm_ext w m e) \<and>
      (\<forall>s'. s' \<in> changed_stripes (gm_changes h) v \<or> g_par g v s' = map_of (vm_parity m) s')" if "gm_track g"
    using that assms(4,5) by (auto simp: c touch_parity_def)
  note eff = put_eff [OF assms(1-3), of h, OF _ _ _ _ _ le _ cov]
  show "gem_to S g h" "g_par h = (g_par g)(v := map_of (vm_parity m))"
    by (rule eff; simp add: h_def has_changes_touch)+
  have "g_ext h = (g_ext g)(v := vm_ext w m)"
    by (rule eff; simp add: h_def has_changes_touch)
  then show "g_ext h = g_ext g" using assms(4) by simp
qed

section \<open>Operations on one extent or stripe\<close>

lemma update_fits:
  assumes "gem_inv S g" "map_of (gm_volumes g) v = Some m"
    and "ts_ok (w, t)" "ts_le (gm_interner g, vm_extents m) (w, t)" "in_fits S w"
    and "ts_abs (w, t) = (g_ext g v)(e := r)" "\<And>l. r = Some l \<Longrightarrow> loc_within S l"
  shows "vm_fits S g w (m\<lparr>vm_extents := t\<rparr>)"
  using assms gem_ok_vm [OF gem_inv_ok [OF assms(1)] assms(2)]
  by (auto simp: vm_fits_def ts_ok_def ts_le_def vm_ok_def vm_ext_def gem_inv_def split: if_splits)

text \<open>The locations a ready state can put into a table.\<close>

abbreviation within_set :: "uuid set \<Rightarrow> ExtentLocation set" where
  "within_set S \<equiv> {l. el_slab l \<in> S}"

lemma fits_within: "in_fits S w \<Longrightarrow> ts_fits (within_set S) (w, t)"
proof -
  assume S: "in_fits S w"
  have "el_slab ` within_set S \<subseteq> S" by auto
  then show ?thesis using S card_mono [of "set (in_ids w) \<union> S" "set (in_ids w) \<union> el_slab ` within_set S"]
    by (auto simp: ts_fits_def in_fits_def intro: finite_subset order_trans)
qed

lemma within_fits: "ts_fits (within_set S) (w, t) \<Longrightarrow> in_fits S w"
proof -
  have "s \<in> el_slab ` within_set S" if "s \<in> S" for s
    using that by (intro image_eqI [of _ _ "location_new s 0"]) (simp_all add: location_new_def)
  then have "el_slab ` within_set S = S" by auto
  then show "ts_fits (within_set S) (w, t) \<Longrightarrow> in_fits S w" by (simp add: ts_fits_def)
qed

lemma gem_insert_spec:
  assumes "gem_inv S g" "gem_check v g" "loc_within S loc"
  shows "\<exists>g'. gem_insert v e loc g = Some g' \<and> gem_to S g g' \<and>
    g_ext g' = (g_ext g)(v := (g_ext g v)(e \<mapsto> loc)) \<and> g_par g' = g_par g"
proof -
  let ?m = "vm_of v g"
  have ok: "ts_ok (gm_interner g, vm_extents ?m)" "vm_ok (gm_interner g) ?m"
    using assms(1) ts_ok_vm gem_ok_vm_of by (auto simp: gem_inv_def)
  have fit: "ts_fits (within_set S) (gm_interner g, vm_extents ?m)"
    using assms(1) fits_within by (simp add: gem_inv_def)
  obtain w t where i: "et_insert e loc (gm_interner g, vm_extents ?m)
        = Some (ts_abs (gm_interner g, vm_extents ?m) e, w, t)" "ts_ok (w, t)" "ts_fits (within_set S) (w, t)"
      "in_le (gm_interner g) w" "ts_abs (w, t) = (g_ext g v)(e \<mapsto> loc)"
    using et_insert_spec [OF ok(1) fit, of loc e] loc_within_slab [OF assms(3)] by (auto simp: g_ext_vm_of)
  have "vm_fits S g w (?m\<lparr>vm_extents := t\<rparr>)"
    using i ok within_fits [OF i(3)] assms by (auto simp: vm_fits_def ts_ok_def vm_ok_def vm_ext_def gem_inv_def split: if_splits)
  note put = put_touch [OF assms(1) this assms(2), of e]
  have "gem_to S g (touch v e (vm_put v (?m\<lparr>vm_extents := t\<rparr>) (g\<lparr>gm_interner := w\<rparr>)))"
    "g_ext (touch v e (vm_put v (?m\<lparr>vm_extents := t\<rparr>) (g\<lparr>gm_interner := w\<rparr>))) = (g_ext g)(v := (g_ext g v)(e \<mapsto> loc))"
    "g_par (touch v e (vm_put v (?m\<lparr>vm_extents := t\<rparr>) (g\<lparr>gm_interner := w\<rparr>))) = g_par g"
    using put i(5) by (auto simp: vm_ext_def g_par_vm_of)
  then show ?thesis using i(1) assms(2) by (auto simp: gem_insert_def on_table_def)
qed

lemma gem_insert_parity_spec:
  assumes "gem_inv S g" "gem_check v g"
  shows "\<exists>g'. gem_insert_parity v s grp g = Some g' \<and> gem_to S g g' \<and>
    g_ext g' = g_ext g \<and> g_par g' = (g_par g)(v := (g_par g v)(s \<mapsto> grp))"
proof -
  let ?m = "(vm_of v g)\<lparr>vm_parity := al_put s grp (vm_parity (vm_of v g))\<rparr>"
  have e: "vm_ext (gm_interner g) ?m = g_ext g v" by (simp add: vm_ext_def g_ext_vm_of)
  have "vm_fits S g (gm_interner g) ?m"
    using assms(1) gem_ok_vm_of [OF gem_inv_ok [OF assms(1)], of v] unfolding vm_fits_def e
    by (auto simp: gem_inv_def gem_ok_def vm_ok_def)
  note put = put_touch_parity [OF assms(1) this assms(2) e, of s]
  then show ?thesis using assms(2) by (auto simp: gem_insert_parity_def Let_def g_par_vm_of)
qed

lemma et_is_empty_abs: "ts_ok (w, t) \<Longrightarrow> et_is_empty t \<longleftrightarrow> ts_abs (w, t) = Map.empty"
proof -
  assume ok: "ts_ok (w, t)"
  have "finite (dom (ts_abs (w, t)))" using et_keys_spec(1) [OF ok] by (metis List.finite_set)
  then show ?thesis using et_keys_spec(4) [OF ok] by (simp add: et_is_empty_def)
qed

lemma drop_if_bare_spec:
  assumes "gem_inv S g"
  shows "gem_to S g (drop_if_bare v g)" "g_ext (drop_if_bare v g) = g_ext g" "g_par (drop_if_bare v g) = g_par g"
proof -
  let ?h = "drop_if_bare v g"
  have "g_ext g v = Map.empty \<and> g_par g v = Map.empty"
    if "et_is_empty (vm_extents (vm_of v g))" "vm_parity (vm_of v g) = []"
    using that et_is_empty_abs ts_ok_vm [OF gem_inv_ok [OF assms] gem_ok_vm_of [OF gem_inv_ok [OF assms]]]
    by (auto simp: g_ext_vm_of g_par_vm_of)
  then show eq: "g_ext ?h = g_ext g" "g_par ?h = g_par g"
    by (auto simp: drop_if_bare_def Let_def g_ext_del g_par_del fun_upd_idem)
  have same: "gm_interner ?h = gm_interner g" "gm_changes ?h = gm_changes g" "gm_track ?h = gm_track g" "gm_cold ?h = gm_cold g"
      "gm_pins ?h = gm_pins g"
    by (simp_all add: drop_if_bare_def Let_def)
  have "gem_ok ?h" using assms gem_ok_del by (auto simp: drop_if_bare_def Let_def gem_inv_def)
  moreover have "covered c g ?h" for c by (simp add: covered_def eq)
  ultimately show "gem_to S g ?h" using assms eq same by (simp add: gem_to_def gem_inv_def gem_eff_def has_changes_def)
qed

lemma touch_drop:
  "touch v e (drop_if_bare u g) = drop_if_bare u (touch v e g)"
  "touch_parity v e (drop_if_bare u g) = drop_if_bare u (touch_parity v e g)"
  by (auto simp: touch_def touch_parity_def drop_if_bare_def Let_def vm_of_def)

lemma gem_remove_spec:
  assumes "gem_inv S g" "gem_check v g"
  shows "\<exists>g'. gem_remove v e g = Some (g_ext g v e, g') \<and> gem_to S g g' \<and>
    g_ext g' = (g_ext g)(v := (g_ext g v)(e := None)) \<and> g_par g' = g_par g"
proof (cases "map_of (gm_volumes g) v")
  case None
  then have "g_ext g v = Map.empty" by (simp add: g_ext_def)
  then show ?thesis using None assms by (simp add: gem_remove_def fun_upd_idem)
next
  case (Some m)
  have ok: "ts_ok (gm_interner g, vm_extents m)" "vm_ok (gm_interner g) m"
    using ts_ok_vm gem_ok_vm [OF _ Some] assms(1) by (auto simp: gem_inv_def)
  have ab: "g_ext g v = ts_abs (gm_interner g, vm_extents m)" "g_par g v = map_of (vm_parity m)"
    using Some by (simp_all add: g_ext_def g_par_def)
  obtain t where t: "et_remove e (gm_interner g, vm_extents m) = Some (g_ext g v e, gm_interner g, t)"
      "ts_ok (gm_interner g, t)" "ts_abs (gm_interner g, t) = (g_ext g v)(e := None)"
    using et_remove_spec [OF ok(1), of e] ab by auto
  let ?h = "touch v e (vm_put v (m\<lparr>vm_extents := t\<rparr>) (g\<lparr>gm_interner := gm_interner g\<rparr>))"
  have "vm_fits S g (gm_interner g) (m\<lparr>vm_extents := t\<rparr>)"
    by (rule update_fits [OF assms(1) Some t(2) _ _ t(3)]) (use assms(1) in \<open>auto simp: ts_le_def gem_inv_def\<close>)
  note put = put_touch [OF assms(1) this assms(2), of e]
  have h: "gem_to S g ?h" "g_ext ?h = (g_ext g)(v := (g_ext g v)(e := None))" "g_par ?h = g_par g"
    using put t(3) ab by (auto simp: vm_ext_def)
  show ?thesis
  proof (cases "g_ext g v e")
    case None
    then have "gem_remove v e g = Some (None, vm_put v (m\<lparr>vm_extents := t\<rparr>) (g\<lparr>gm_interner := gm_interner g\<rparr>))"
      using Some t(1) assms(2) by (simp add: gem_remove_def on_table_def)
    moreover have "et_remove e (gm_interner g, vm_extents m) = Some (None, gm_interner g, vm_extents m)"
      using None ts_abs_None [OF ok(1), of e] ab
      by (auto simp: et_remove_def et_find_def split_beta split: option.splits sum.splits)
    then have "t = vm_extents m" using t(1) by simp
    then have "vm_put v (m\<lparr>vm_extents := t\<rparr>) (g\<lparr>gm_interner := gm_interner g\<rparr>) = g"
      using Some assms(1) al_unique [of "al_put v m (gm_volumes g)" "gm_volumes g"]
      by (simp add: vm_put_def gem_inv_def gem_ok_def fun_upd_idem)
    ultimately show ?thesis using None assms(1) by (simp add: fun_upd_idem)
  next
    case (Some l)
    have "gem_remove v e g = Some (Some l, drop_if_bare v ?h)"
      using \<open>map_of (gm_volumes g) v = Some m\<close> Some t(1) assms(2)
      by (simp add: gem_remove_def on_table_def touch_drop)
    moreover have "gem_inv S ?h" using h(1) by (simp add: gem_to_def)
    ultimately show ?thesis using h drop_if_bare_spec [of S ?h v] gem_to_trans Some by fastforce
  qed
qed

lemma gem_remove_parity_spec:
  assumes "gem_inv S g" "gem_check v g"
  shows "\<exists>g'. gem_remove_parity v s g = Some (g_par g v s, g') \<and> gem_to S g g' \<and>
    g_ext g' = g_ext g \<and> g_par g' = (g_par g)(v := (g_par g v)(s := None))"
proof (cases "map_of (gm_volumes g) v")
  case None
  then have "g_par g v = Map.empty" by (simp add: g_par_def)
  then show ?thesis using None assms by (simp add: gem_remove_parity_def fun_upd_idem)
next
  case (Some m)
  have ab: "g_ext g v = ts_abs (gm_interner g, vm_extents m)" "g_par g v = map_of (vm_parity m)"
    using Some by (simp_all add: g_ext_def g_par_def)
  show ?thesis
  proof (cases "map_of (vm_parity m) s")
    case None
    then show ?thesis using Some assms ab by (simp add: gem_remove_parity_def fun_upd_idem)
  next
    case (Some grp)
    let ?m = "m\<lparr>vm_parity := al_del s (vm_parity m)\<rparr>"
    let ?h = "touch_parity v s (vm_put v ?m (g\<lparr>gm_interner := gm_interner g\<rparr>))"
    have e: "vm_ext (gm_interner g) ?m = g_ext g v" by (simp add: vm_ext_def ab)
    have "vm_fits S g (gm_interner g) ?m"
      using assms(1) gem_ok_vm [OF gem_inv_ok [OF assms(1)] \<open>map_of (gm_volumes g) v = Some m\<close>] unfolding vm_fits_def e
      by (auto simp: gem_inv_def gem_ok_def vm_ok_def)
    note put = put_touch_parity [OF assms(1) this assms(2) e, of s]
    have h: "gem_to S g ?h" "g_ext ?h = g_ext g" "g_par ?h = (g_par g)(v := (g_par g v)(s := None))"
      using put ab by auto
    have "gem_remove_parity v s g = Some (Some grp, drop_if_bare v ?h)"
      using \<open>map_of (gm_volumes g) v = Some m\<close> Some assms(2) by (simp add: gem_remove_parity_def touch_drop)
    moreover have "gem_inv S ?h" using h(1) by (simp add: gem_to_def)
    ultimately show ?thesis using h drop_if_bare_spec [of S ?h v] gem_to_trans Some ab by fastforce
  qed
qed

lemma update_extent_spec:
  assumes "gem_inv S g" "gem_check v g"
    and "\<And>l. g_ext g v e = Some l \<Longrightarrow> loc_within S (snd (f l))" "\<And>l. \<not> fst (f l) \<Longrightarrow> snd (f l) = l"
  shows "\<exists>g'. update_extent v e f g = Some (case g_ext g v e of None \<Rightarrow> False | Some l \<Rightarrow> fst (f l), g') \<and> gem_to S g g' \<and>
    g_ext g' = (g_ext g)(v := (g_ext g v)(e := map_option (snd \<circ> f) (g_ext g v e))) \<and> g_par g' = g_par g"
proof (cases "map_of (gm_volumes g) v")
  case None
  then have "g_ext g v = Map.empty" by (simp add: g_ext_def)
  then show ?thesis using None assms by (simp add: update_extent_def fun_upd_idem)
next
  case (Some m)
  let ?s = "(gm_interner g, vm_extents m)"
  have ok: "ts_ok ?s" "vm_ok (gm_interner g) m" using ts_ok_vm gem_ok_vm [OF _ Some] assms(1) by (auto simp: gem_inv_def)
  have ab: "g_ext g v = ts_abs ?s" "g_par g v = map_of (vm_parity m)" using Some by (simp_all add: g_ext_def g_par_def)
  have same: "vm_put v (m\<lparr>vm_extents := vm_extents m\<rparr>) (g\<lparr>gm_interner := gm_interner g\<rparr>) = g"
    using Some assms(1) al_unique [of "al_put v m (gm_volumes g)" "gm_volumes g"]
    by (simp add: vm_put_def gem_inv_def gem_ok_def fun_upd_idem)
  show ?thesis
  proof (cases "g_ext g v e")
    case None
    then have "on_table (et_update e f) v m g = Some (None, g)"
      using et_update_unmapped [OF ok(1), of e f] ab same by (simp add: on_table_def)
    then show ?thesis using Some None assms(1,2) by (simp add: update_extent_def fun_upd_idem)
  next
    case (Some l)
    have fit: "ts_fits (within_set S) ?s" using assms(1) fits_within by (simp add: gem_inv_def)
    obtain hit l' where fl: "f l = (hit, l')" by fastforce
    have lw: "loc_within S l'" using assms(3) [OF Some] fl by simp
    then obtain w t where u: "et_update e f ?s = Some (Some hit, w, t)" "ts_ok (w, t)" "ts_fits (within_set S) (w, t)"
        "ts_le ?s (w, t)" "ts_abs (w, t) = (g_ext g v)(e \<mapsto> l')"
      using et_update_mapped [OF ok(1) fit, of e l f hit l'] Some fl ab loc_within_slab by auto
    have "vm_fits S g w (m\<lparr>vm_extents := t\<rparr>)"
      by (rule update_fits [OF assms(1) \<open>map_of (gm_volumes g) v = Some m\<close> u(2,4) within_fits [OF u(3)] u(5)]) (use lw in auto)
    note fits = this
    have x: "\<And>e'. e' \<noteq> e \<Longrightarrow> vm_ext w (m\<lparr>vm_extents := t\<rparr>) e' = g_ext g v e'"
        "map_of (vm_parity (m\<lparr>vm_extents := t\<rparr>)) = g_par g v" "vm_ext w (m\<lparr>vm_extents := t\<rparr>) = (g_ext g v)(e \<mapsto> l')"
      using u(5) ab by (auto simp: vm_ext_def)
    show ?thesis
    proof (cases hit)
      case True
      let ?h = "touch v e (vm_put v (m\<lparr>vm_extents := t\<rparr>) (g\<lparr>gm_interner := w\<rparr>))"
      have "update_extent v e f g = Some (True, ?h)"
        using \<open>map_of (gm_volumes g) v = Some m\<close> u(1) assms(2) True by (simp add: update_extent_def on_table_def)
      then show ?thesis using put_touch [OF assms(1) fits assms(2) x(1,2)] x(3) Some fl True by auto
    next
      case False
      then have l': "l' = l" using assms(4) [of l] fl by simp
      let ?h = "vm_put v (m\<lparr>vm_extents := t\<rparr>) (g\<lparr>gm_interner := w\<rparr>)"
      have "update_extent v e f g = Some (False, ?h)"
        using \<open>map_of (gm_volumes g) v = Some m\<close> u(1) assms(2) False by (simp add: update_extent_def on_table_def)
      moreover have "gem_to S g ?h" "g_ext ?h = (g_ext g)(v := vm_ext w (m\<lparr>vm_extents := t\<rparr>))"
          "g_par ?h = (g_par g)(v := map_of (vm_parity (m\<lparr>vm_extents := t\<rparr>)))"
        by (rule put_eff [OF assms(1) fits assms(2), of ?h]; use x l' Some in \<open>auto simp: fun_upd_idem\<close>)+
      ultimately show ?thesis using x Some fl l' False ab by (auto simp: fun_upd_idem)
    qed
  qed
qed

lemma update_parity_spec:
  assumes "gem_inv S g" "gem_check v g" "\<And>p. \<not> fst (f p) \<Longrightarrow> snd (f p) = p"
  shows "\<exists>g'. update_parity v s f g = Some (case g_par g v s of None \<Rightarrow> False | Some p \<Rightarrow> fst (f p), g') \<and> gem_to S g g' \<and>
    g_ext g' = g_ext g \<and> g_par g' = (g_par g)(v := (g_par g v)(s := map_option (snd \<circ> f) (g_par g v s)))"
proof (cases "map_of (gm_volumes g) v")
  case None
  then have "g_par g v = Map.empty" by (simp add: g_par_def)
  then show ?thesis using None assms by (simp add: update_parity_def fun_upd_idem)
next
  case (Some m)
  have ab: "g_ext g v = ts_abs (gm_interner g, vm_extents m)" "g_par g v = map_of (vm_parity m)"
    using Some by (simp_all add: g_ext_def g_par_def)
  show ?thesis
  proof (cases "map_of (vm_parity m) s")
    case None
    then show ?thesis using Some assms ab by (simp add: update_parity_def fun_upd_idem)
  next
    case (Some p)
    obtain hit p' where fp: "f p = (hit, p')" by fastforce
    show ?thesis
    proof (cases hit)
      case True
      let ?m = "m\<lparr>vm_parity := al_put s p' (vm_parity m)\<rparr>"
      have e: "vm_ext (gm_interner g) ?m = g_ext g v" by (simp add: vm_ext_def ab)
      have "vm_fits S g (gm_interner g) ?m"
        using assms(1) gem_ok_vm [OF gem_inv_ok [OF assms(1)] \<open>map_of (gm_volumes g) v = Some m\<close>] unfolding vm_fits_def e
        by (auto simp: gem_inv_def gem_ok_def vm_ok_def)
      note put = put_touch_parity [OF assms(1) this assms(2) e, of s]
      have "update_parity v s f g = Some (True, touch_parity v s (vm_put v ?m (g\<lparr>gm_interner := gm_interner g\<rparr>)))"
        using \<open>map_of (gm_volumes g) v = Some m\<close> Some assms(2) fp True by (simp add: update_parity_def)
      then show ?thesis using put Some fp True ab by auto
    next
      case False
      then have "p' = p" using assms(3) [of p] fp by simp
      then show ?thesis using \<open>map_of (gm_volumes g) v = Some m\<close> Some assms ab fp False
        by (simp add: update_parity_def fun_upd_idem)
    qed
  qed
qed

text \<open>The changes made in place keep the legs inside the slabs named.\<close>

lemma loc_within_simps [simp]:
  "loc_within S (l\<lparr>el_refs := n\<rparr>) = loc_within S l" "loc_within S (l\<lparr>el_gen := k\<rparr>) = loc_within S l"
  by (simp_all add: loc_within_def legs_def primary_def)

lemma loc_within_legs: "loc_within S l \<longleftrightarrow> el_slab l \<in> S \<and> lg_slab ` set (el_mirrors l) \<subseteq> S"
  by (simp add: loc_within_def legs_def primary_def)

lemma replace_in_within:
  assumes "loc_within S l" "lg_slab new \<in> S"
  shows "loc_within S (snd (replace_in old new l))"
proof -
  have "set ((el_mirrors l)[i := new]) \<subseteq> insert new (set (el_mirrors l))" for i by (rule set_update_subset_insert)
  then show ?thesis using assms
    by (auto simp: replace_in_def loc_within_legs set_primary_def split: option.split)
qed

lemma add_in_within: "loc_within S l \<Longrightarrow> lg_slab leg \<in> S \<Longrightarrow> loc_within S (snd (add_in leg l))"
  by (simp add: add_in_def loc_within_legs)

lemma drop_in_within: "loc_within S l \<Longrightarrow> loc_within S (snd (drop_in leg l))"
  by (auto simp: drop_in_def loc_within_legs set_primary_def Let_def split: list.split)

lemma beside_in_within: "loc_within S l \<Longrightarrow> lg_slab new \<in> S \<Longrightarrow> loc_within S (snd (beside_in x new l))"
  by (simp add: beside_in_def loc_within_legs)

lemma in_place_same:
  "\<not> fst (replace_in old new l) \<Longrightarrow> snd (replace_in old new l) = l"
  "\<not> fst (drop_in leg l) \<Longrightarrow> snd (drop_in leg l) = l"
  "\<not> fst (beside_in x new l) \<Longrightarrow> snd (beside_in x new l) = l"
  by (auto simp: replace_in_def drop_in_def beside_in_def Let_def split: option.splits list.splits)

section \<open>Sweeps\<close>

text \<open>What a sweep does to the maps: \<open>ge\<close> to every location, \<open>gp\<close> to every parity group.\<close>

definition swept :: "(ExtentLocation \<Rightarrow> ExtentLocation) \<Rightarrow> (ParityGroup \<Rightarrow> ParityGroup) \<Rightarrow> interner \<Rightarrow> interner
    \<Rightarrow> uuid \<times> VolumeExtentMap \<Rightarrow> uuid \<times> VolumeExtentMap \<Rightarrow> bool" where
  "swept ge gp w w' x y \<longleftrightarrow> fst y = fst x \<and> vm_ok w' (snd y) \<and>
     vm_ext w' (snd y) = (\<lambda>e. map_option ge (vm_ext w (snd x) e)) \<and>
     vm_parity (snd y) = map (\<lambda>(s, p). (s, gp p)) (vm_parity (snd x))"

lemma vm_ext_mono: "in_le w w' \<Longrightarrow> vm_ok w m \<Longrightarrow> vm_ext w' m = vm_ext w m"
  using ts_abs_mono by (simp add: vm_ok_def vm_ext_def)

lemma sweep_volumes_spec:
  assumes step: "\<And>v m acc w. (v, m) \<in> set vms \<Longrightarrow> in_ok w \<Longrightarrow> in_fits S w \<Longrightarrow> vm_ok w m \<Longrightarrow>
      (\<forall>e l. vm_ext w m e = Some l \<longrightarrow> loc_within S l) \<Longrightarrow>
      \<exists>m' w'. f v m acc w = Some (m', acc_of v (vm_ext w m) (vm_extents m) (vm_parity m) acc, w') \<and> in_ok w' \<and> in_fits S w' \<and>
        in_le w w' \<and> swept ge gp w w' (v, m) (v, m')"
    and "in_ok w" "in_fits S w" "\<forall>(v, m) \<in> set vms. vm_ok w m \<and> (\<forall>e l. vm_ext w m e = Some l \<longrightarrow> loc_within S l)"
  shows "\<exists>vms' w'. sweep_volumes f vms acc w =
      Some (vms', fold (\<lambda>(v, m). acc_of v (vm_ext w m) (vm_extents m) (vm_parity m)) vms acc, w') \<and>
    in_ok w' \<and> in_fits S w' \<and> in_le w w' \<and> list_all2 (swept ge gp w w') vms vms'"
  using assms
proof (induction vms arbitrary: acc w)
  case (Cons x vms)
  obtain v m where x: "x = (v, m)" by (cases x)
  obtain m1 w1 where s1: "f v m acc w = Some (m1, acc_of v (vm_ext w m) (vm_extents m) (vm_parity m) acc, w1)"
      "in_ok w1" "in_fits S w1" "in_le w w1" "swept ge gp w w1 (v, m) (v, m1)"
    using Cons.prems(1) [of v m w acc] Cons.prems(2-4) x by auto
  have mono: "vm_ok w1 m'" "vm_ext w1 m' = vm_ext w m'" if "(v', m') \<in> set vms" for v' m'
    using that Cons.prems(4) vm_ok_mono [OF s1(4)] vm_ext_mono [OF s1(4)] by auto
  have "\<exists>vms' w'. sweep_volumes f vms (acc_of v (vm_ext w m) (vm_extents m) (vm_parity m) acc) w1 =
      Some (vms', fold (\<lambda>(v, m). acc_of v (vm_ext w1 m) (vm_extents m) (vm_parity m)) vms
        (acc_of v (vm_ext w m) (vm_extents m) (vm_parity m) acc), w') \<and>
    in_ok w' \<and> in_fits S w' \<and> in_le w1 w' \<and> list_all2 (swept ge gp w1 w') vms vms'"
    by (rule Cons.IH) (use Cons.prems s1 mono in \<open>auto\<close>)
  then obtain vms' w' where s2: "sweep_volumes f vms (acc_of v (vm_ext w m) (vm_extents m) (vm_parity m) acc) w1 =
      Some (vms', fold (\<lambda>(v, m). acc_of v (vm_ext w1 m) (vm_extents m) (vm_parity m)) vms
        (acc_of v (vm_ext w m) (vm_extents m) (vm_parity m) acc), w')"
      "in_ok w'" "in_fits S w'" "in_le w1 w'" "list_all2 (swept ge gp w1 w') vms vms'" by blast
  have "fold (\<lambda>(v, m). acc_of v (vm_ext w1 m) (vm_extents m) (vm_parity m)) vms a
      = fold (\<lambda>(v, m). acc_of v (vm_ext w m) (vm_extents m) (vm_parity m)) vms a" for a
    by (rule fold_cong) (use mono in auto)
  moreover have "swept ge gp w w' y z" if "y \<in> set vms" "swept ge gp w1 w' y z" for y z
    using that mono(2) [of "fst y" "snd y"] by (simp add: swept_def)
  then have "list_all2 (swept ge gp w w') vms vms'"
    using s2(5) by (auto simp: list_all2_conv_all_nth)
  moreover have "swept ge gp w w' (v, m) (v, m1)"
    using s1(5) vm_ok_mono [OF s2(4)] vm_ext_mono [OF s2(4)] by (simp add: swept_def)
  ultimately show ?case using s1 s2 in_le_trans [OF s1(4) s2(4)] by (auto simp: x)
qed simp

text \<open>The state after a sweep, before the changes are recorded.\<close>

lemma swept_state:
  assumes inv: "gem_inv S g" and sw: "list_all2 (swept ge gp (gm_interner g) w') (gm_volumes g) vms'"
    and w': "in_ok w'" "in_fits S w'" and ge: "\<forall>l. loc_within S l \<longrightarrow> loc_within S (ge l)"
  defines "h \<equiv> g\<lparr>gm_volumes := vms', gm_interner := w'\<rparr>"
  shows "gem_inv S h" "g_ext h v = (\<lambda>e. map_option ge (g_ext g v e))" "g_par h v = (\<lambda>s. map_option gp (g_par g v s))"
proof -
  have keys: "map fst vms' = map fst (gm_volumes g)"
    using sw by (auto simp: list_all2_conv_all_nth swept_def intro: nth_equalityI)
  have look: "map_of (gm_volumes g) v = None \<and> map_of vms' v = None \<or>
      (\<exists>m m'. map_of (gm_volumes g) v = Some m \<and> map_of vms' v = Some m' \<and> swept ge gp (gm_interner g) w' (v, m) (v, m'))" for v
    using sw by (induction rule: list_all2_induct) (auto simp: swept_def)
  show ext: "g_ext h v = (\<lambda>e. map_option ge (g_ext g v e))" for v
    using look [of v] by (auto simp: g_ext_def h_def swept_def vm_ext_def)
  show "g_par h v = (\<lambda>s. map_option gp (g_par g v s))" for v
    using look [of v] by (auto simp: g_par_def h_def swept_def map_of_map fun_eq_iff)
  have "vm_ok w' m' \<and> (\<exists>m. (v, m) \<in> set (gm_volumes g))" if y: "(v, m') \<in> set vms'" for v m'
  proof -
    obtain i where i: "i < length vms'" "vms' ! i = (v, m')" using y by (auto simp: in_set_conv_nth)
    then have "swept ge gp (gm_interner g) w' (gm_volumes g ! i) (v, m')" "i < length (gm_volumes g)"
      using sw by (auto simp: list_all2_conv_all_nth)
    then show ?thesis using nth_mem [of i "gm_volumes g"] by (cases "gm_volumes g ! i") (auto simp: swept_def)
  qed
  then have "gem_ok h"
    using inv w' keys by (fastforce simp: gem_inv_def gem_ok_def h_def al_wf_def is_cold_def)
  moreover have "loc_within S l" if "g_ext h v e = Some l" for v e l
    using that ext inv ge by (auto simp: gem_inv_def)
  ultimately show "gem_inv S h" using w'(2) by (simp add: gem_inv_def) (simp add: h_def)
qed

lemma touch_fold:
  "gm_volumes (fold (\<lambda>(v, e). touch v e) xs g) = gm_volumes g" "gm_interner (fold (\<lambda>(v, e). touch v e) xs g) = gm_interner g"
  "gm_track (fold (\<lambda>(v, e). touch v e) xs g) = gm_track g" "gm_cold (fold (\<lambda>(v, e). touch v e) xs g) = gm_cold g"
  "gm_pins (fold (\<lambda>(v, e). touch v e) xs g) = gm_pins g"
  "changes_le (gm_changes g) (gm_changes (fold (\<lambda>(v, e). touch v e) xs g))"
  "gm_track g \<Longrightarrow> (v, e) \<in> set xs \<Longrightarrow> e \<in> changed_extents (gm_changes (fold (\<lambda>(v, e). touch v e) xs g)) v"
proof -
  show "gm_volumes (fold (\<lambda>(v, e). touch v e) xs g) = gm_volumes g" "gm_interner (fold (\<lambda>(v, e). touch v e) xs g) = gm_interner g"
    "gm_track (fold (\<lambda>(v, e). touch v e) xs g) = gm_track g" "gm_cold (fold (\<lambda>(v, e). touch v e) xs g) = gm_cold g"
    "gm_pins (fold (\<lambda>(v, e). touch v e) xs g) = gm_pins g"
    by (induction xs arbitrary: g) auto
  show le: "changes_le (gm_changes g) (gm_changes (fold (\<lambda>(v, e). touch v e) xs g))" for xs and g :: Gem
    by (induction xs arbitrary: g) (auto intro: changes_le_trans [OF changes_le_touch(1)])
  show "gm_track g \<Longrightarrow> (v, e) \<in> set xs \<Longrightarrow> e \<in> changed_extents (gm_changes (fold (\<lambda>(v, e). touch v e) xs g)) v"
  proof (induction xs arbitrary: g)
    case (Cons x xs)
    show ?case
    proof (cases "x = (v, e)")
      case True
      have "e \<in> changed_extents (gm_changes (touch v e g)) v" using Cons.prems(1) by (simp add: touch_def)
      then show ?thesis using le [of "touch v e g" xs] True by (auto simp: changes_le_def)
    next
      case False
      then show ?thesis using Cons by (cases x) auto
    qed
  qed simp
qed

lemma touch_parity_fold:
  "gm_volumes (fold (\<lambda>(v, e). touch_parity v e) xs g) = gm_volumes g" "gm_interner (fold (\<lambda>(v, e). touch_parity v e) xs g) = gm_interner g"
  "gm_track (fold (\<lambda>(v, e). touch_parity v e) xs g) = gm_track g" "gm_cold (fold (\<lambda>(v, e). touch_parity v e) xs g) = gm_cold g"
  "gm_pins (fold (\<lambda>(v, e). touch_parity v e) xs g) = gm_pins g"
  "changes_le (gm_changes g) (gm_changes (fold (\<lambda>(v, e). touch_parity v e) xs g))"
  "gm_track g \<Longrightarrow> (v, e) \<in> set xs \<Longrightarrow> e \<in> changed_stripes (gm_changes (fold (\<lambda>(v, e). touch_parity v e) xs g)) v"
proof -
  show "gm_volumes (fold (\<lambda>(v, e). touch_parity v e) xs g) = gm_volumes g" "gm_interner (fold (\<lambda>(v, e). touch_parity v e) xs g) = gm_interner g"
    "gm_track (fold (\<lambda>(v, e). touch_parity v e) xs g) = gm_track g" "gm_cold (fold (\<lambda>(v, e). touch_parity v e) xs g) = gm_cold g"
    "gm_pins (fold (\<lambda>(v, e). touch_parity v e) xs g) = gm_pins g"
    by (induction xs arbitrary: g) auto
  show le: "changes_le (gm_changes g) (gm_changes (fold (\<lambda>(v, e). touch_parity v e) xs g))" for xs and g :: Gem
    by (induction xs arbitrary: g) (auto intro: changes_le_trans [OF changes_le_touch(2)])
  show "gm_track g \<Longrightarrow> (v, e) \<in> set xs \<Longrightarrow> e \<in> changed_stripes (gm_changes (fold (\<lambda>(v, e). touch_parity v e) xs g)) v"
  proof (induction xs arbitrary: g)
    case (Cons x xs)
    show ?case
    proof (cases "x = (v, e)")
      case True
      have "e \<in> changed_stripes (gm_changes (touch_parity v e g)) v" using Cons.prems(1) by (simp add: touch_parity_def)
      then show ?thesis using le [of "touch_parity v e g" xs] True by (auto simp: changes_le_def)
    next
      case False
      then show ?thesis using Cons by (cases x) auto
    qed
  qed simp
qed

text \<open>A sweep of every map is a step when what it changed is what it recorded.\<close>

lemma sweep_step:
  assumes inv: "gem_inv S g" and all: "gem_check_all g"
    and sw: "list_all2 (swept ge gp (gm_interner g) w') (gm_volumes g) vms'"
    and w': "in_ok w'" "in_fits S w'" "in_le (gm_interner g) w'" and ge: "\<forall>l. loc_within S l \<longrightarrow> loc_within S (ge l)"
    and ce: "\<forall>v e l. gm_track g \<longrightarrow> g_ext g v e = Some l \<longrightarrow> ge l \<noteq> l \<longrightarrow> (v, e) \<in> set (sw_extents a)"
    and cp: "\<forall>v s p. gm_track g \<longrightarrow> g_par g v s = Some p \<longrightarrow> gp p \<noteq> p \<longrightarrow> (v, s) \<in> set (sw_stripes a)"
  defines "h \<equiv> touch_all a (g\<lparr>gm_volumes := vms', gm_interner := w'\<rparr>)"
  shows "gem_to S g h" "g_ext h v = (\<lambda>e. map_option ge (g_ext g v e))" "g_par h v = (\<lambda>s. map_option gp (g_par g v s))"
proof -
  let ?k = "g\<lparr>gm_volumes := vms', gm_interner := w'\<rparr>"
  let ?t = "fold (\<lambda>(v, e). touch v e) (sw_extents a) ?k"
  note st = swept_state [OF inv sw w'(1,2) ge]
  have f: "gm_volumes h = vms'" "gm_interner h = w'" "gm_track h = gm_track g" "gm_cold h = gm_cold g" "gm_pins h = gm_pins g"
    by (simp_all add: h_def touch_all_def touch_fold touch_parity_fold)
  have eq: "g_ext h = g_ext ?k" "g_par h = g_par ?k" "gem_ok h = gem_ok ?k"
    using f by (auto simp: g_ext_def g_par_def gem_ok_def is_cold_def fun_eq_iff split: option.split)
  show ext: "g_ext h v = (\<lambda>e. map_option ge (g_ext g v e))" for v using eq st(2) by simp
  show par: "g_par h v = (\<lambda>s. map_option gp (g_par g v s))" for v using eq st(3) by simp
  have "gem_inv S h" using st(1) eq f by (simp add: gem_inv_def)
  moreover have le: "changes_le (gm_changes ?t) (gm_changes h)" "changes_le (gm_changes g) (gm_changes ?t)"
    using touch_parity_fold(6) [of ?t "sw_stripes a"] touch_fold(6) [of ?k "sw_extents a"] by (simp_all add: h_def touch_all_def)
  moreover have "covered (gm_changes h) g h" if t: "gm_track g"
  proof -
    have "e \<in> changed_extents (gm_changes h) v \<or> g_ext g v e = g_ext h v e" for v e
    proof (cases "(v, e) \<in> set (sw_extents a)")
      case True
      then have "e \<in> changed_extents (gm_changes ?t) v" using touch_fold(7) [of ?k v e "sw_extents a"] t by simp
      then show ?thesis using le(1) by (auto simp: changes_le_def)
    next
      case False
      then show ?thesis using ce t by (cases "g_ext g v e") (auto simp: ext)
    qed
    moreover have "s \<in> changed_stripes (gm_changes h) v \<or> g_par g v s = g_par h v s" for v s
    proof (cases "(v, s) \<in> set (sw_stripes a)")
      case True
      then show ?thesis using touch_parity_fold(7) [of ?t v s "sw_stripes a"] t by (simp add: h_def touch_all_def touch_fold)
    next
      case False
      then show ?thesis using cp t by (cases "g_par g v s") (auto simp: par)
    qed
    ultimately show ?thesis by (auto simp: covered_def)
  qed
  moreover have "\<not> is_cold v g" for v using all by (simp add: gem_check_all_def is_cold_def)
  ultimately show "gem_to S g h"
    using f w'(3) changes_le_trans [OF le(2,1)] by (simp add: gem_to_def gem_eff_def gem_inv_def)
qed

text \<open>What one step of a fold adds to a growing selection is there at the end.\<close>

lemma fold_grows:
  assumes "\<And>x a. x \<in> set xs \<Longrightarrow> sel a \<subseteq> sel (f x a)"
  shows "sel a \<subseteq> sel (fold f xs a)"
  using assms
proof (induction xs arbitrary: a)
  case (Cons x xs)
  have "sel a \<subseteq> sel (f x a)" using Cons.prems by simp
  also have "\<dots> \<subseteq> sel (fold f xs (f x a))" by (rule Cons.IH) (use Cons.prems in simp)
  finally show ?case by simp
qed simp

lemma fold_collects:
  assumes "\<And>x a. x \<in> set xs \<Longrightarrow> sel a \<subseteq> sel (f x a)" "x0 \<in> set xs" "\<And>a. y \<in> sel (f x0 a)"
  shows "y \<in> sel (fold f xs a)"
proof -
  obtain ys zs where xs: "xs = ys @ x0 # zs" using assms(2) by (meson split_list)
  have "sel (f x0 (fold f ys a)) \<subseteq> sel (fold f zs (f x0 (fold f ys a)))"
    by (rule fold_grows) (use assms(1) xs in simp)
  then show ?thesis using assms(3) xs by auto
qed

definition rewrite_acc :: "(Leg \<times> Leg) list \<Rightarrow> bool \<Rightarrow> uuid \<Rightarrow> (u64 \<rightharpoonup> ExtentLocation) \<Rightarrow> ExtentTable \<Rightarrow> (u64 \<times> ParityGroup) list
    \<Rightarrow> sweep \<Rightarrow> sweep" where
  "rewrite_acc moves track v ext t ps a =
     fold (rewrite_stripe moves track v) ps
       (fold (\<lambda>e a. snd (snd (rewrite_extent moves track v e (the (ext e)) a))) (et_keys t) a)"

lemma moved_none: "moved_count moves ls = 0 \<Longrightarrow> l \<in> set ls \<Longrightarrow> map_of moves l = None"
  by (auto simp: moved_count_def filter_empty_conv)

lemma rewrite_loc_same: "moved_count moves (legs l) = 0 \<Longrightarrow> rewrite_loc moves l = l"
proof -
  assume z: "moved_count moves (legs l) = 0"
  have "map (moved moves) (el_mirrors l) = el_mirrors l"
    using moved_none [OF z] by (intro map_idI) (simp add: moved_def legs_def)
  then show ?thesis using moved_none [OF z, of "primary l"] by (simp add: rewrite_loc_def legs_def)
qed

lemma rewrite_group_same: "moved_count moves (pg_legs p) = 0 \<Longrightarrow> rewrite_group moves p = p"
proof -
  assume z: "moved_count moves (pg_legs p) = 0"
  have "map (moved moves) (pg_legs p) = pg_legs p"
    using moved_none [OF z] by (intro map_idI) (simp add: moved_def)
  then show ?thesis using z by (simp add: rewrite_group_def)
qed

lemma rewrite_loc_within:
  assumes "loc_within S l" "\<forall>(a, b) \<in> set moves. lg_slab b \<in> S"
  shows "loc_within S (rewrite_loc moves l)"
proof -
  have "lg_slab (moved moves x) \<in> S" if "lg_slab x \<in> S" for x
    using that assms(2) by (auto simp: moved_def split: option.split dest: map_of_SomeD)
  then show ?thesis using assms
    by (auto simp: rewrite_loc_def loc_within_legs set_primary_def split: option.split dest: map_of_SomeD)
qed

lemma rewrite_acc_grows:
  "set (sw_extents a) \<subseteq> set (sw_extents (rewrite_acc moves track v ext t ps a))"
  "set (sw_stripes a) \<subseteq> set (sw_stripes (rewrite_acc moves track v ext t ps a))"
proof -
  let ?f = "\<lambda>e a. snd (snd (rewrite_extent moves track v e (the (ext e)) a))"
  let ?b = "fold ?f (et_keys t) a"
  have "set (sw_extents a) \<subseteq> set (sw_extents ?b)" "set (sw_stripes a) \<subseteq> set (sw_stripes ?b)"
    by (rule fold_grows [of _ "\<lambda>a. set (sw_extents a)"] fold_grows [of _ "\<lambda>a. set (sw_stripes a)"];
        simp add: rewrite_extent_def Let_def)+
  moreover have "set (sw_extents ?b) \<subseteq> set (sw_extents (rewrite_acc moves track v ext t ps a))"
      "set (sw_stripes ?b) \<subseteq> set (sw_stripes (rewrite_acc moves track v ext t ps a))"
    unfolding rewrite_acc_def
    by (rule fold_grows [of _ "\<lambda>a. set (sw_extents a)"] fold_grows [of _ "\<lambda>a. set (sw_stripes a)"];
        simp add: rewrite_stripe_def Let_def)+
  ultimately show "set (sw_extents a) \<subseteq> set (sw_extents (rewrite_acc moves track v ext t ps a))"
    "set (sw_stripes a) \<subseteq> set (sw_stripes (rewrite_acc moves track v ext t ps a))" by auto
qed

lemma rewrite_acc_collects:
  "e \<in> set (et_keys t) \<Longrightarrow> ext e = Some l \<Longrightarrow> moved_count moves (legs l) \<noteq> 0 \<Longrightarrow>
    (v, e) \<in> set (sw_extents (rewrite_acc moves True v ext t ps a))"
  "(s, p) \<in> set ps \<Longrightarrow> moved_count moves (pg_legs p) \<noteq> 0 \<Longrightarrow>
    (v, s) \<in> set (sw_stripes (rewrite_acc moves True v ext t ps a))"
proof -
  let ?b = "fold (\<lambda>e a. snd (snd (rewrite_extent moves True v e (the (ext e)) a))) (et_keys t) a"
  assume "e \<in> set (et_keys t)" "ext e = Some l" "moved_count moves (legs l) \<noteq> 0"
  then have "(v, e) \<in> set (sw_extents ?b)"
    by (intro fold_collects [of _ "\<lambda>a. set (sw_extents a)", where ?x0.0 = e]) (auto simp: rewrite_extent_def Let_def)
  also have "set (sw_extents ?b) \<subseteq> set (sw_extents (fold (rewrite_stripe moves True v) ps ?b))"
    by (rule fold_grows [of _ "\<lambda>a. set (sw_extents a)"]) (simp add: rewrite_stripe_def Let_def)
  finally show "(v, e) \<in> set (sw_extents (rewrite_acc moves True v ext t ps a))" by (simp add: rewrite_acc_def)
next
  assume "(s, p) \<in> set ps" "moved_count moves (pg_legs p) \<noteq> 0"
  then show "(v, s) \<in> set (sw_stripes (rewrite_acc moves True v ext t ps a))" unfolding rewrite_acc_def
    by (intro fold_collects [of _ "\<lambda>a. set (sw_stripes a)", where ?x0.0 = "(s, p)"]) (auto simp: rewrite_stripe_def Let_def)
qed

lemma rewrite_volume_spec:
  assumes "in_ok w" "in_fits S w" "vm_ok w m" "\<forall>e l. vm_ext w m e = Some l \<longrightarrow> loc_within S l"
    "\<forall>(a, b) \<in> set moves. lg_slab b \<in> S"
  shows "\<exists>m' w'. rewrite_volume moves track v m acc w =
      Some (m', rewrite_acc moves track v (vm_ext w m) (vm_extents m) (vm_parity m) acc, w') \<and>
    in_ok w' \<and> in_fits S w' \<and> in_le w w' \<and> swept (rewrite_loc moves) (rewrite_group moves) w w' (v, m) (v, m')"
proof -
  have ok: "ts_ok (w, vm_extents m)" using assms(1,3) by (simp add: ts_ok_def vm_ok_def)
  have "\<exists>s'. et_for_each_mut (rewrite_extent moves track v) acc (w, vm_extents m) =
      Some (fold (\<lambda>k acc. snd (snd (rewrite_extent moves track v k (the (ts_abs (w, vm_extents m) k)) acc)))
        (et_keys (snd (w, vm_extents m))) acc, s') \<and> ts_ok s' \<and> ts_fits (within_set S) s' \<and> ts_le (w, vm_extents m) s' \<and>
      ts_abs s' = (\<lambda>k. map_option (rewrite_loc moves) (ts_abs (w, vm_extents m) k))"
  proof (rule et_for_each_spec [OF ok fits_within [OF assms(2)]])
    fix k l assume "ts_abs (w, vm_extents m) k = Some l"
    then have "loc_within S (rewrite_loc moves l)" using assms(4,5) rewrite_loc_within by (simp add: vm_ext_def)
    then show "rewrite_loc moves l \<in> within_set S" by (simp add: loc_within_slab)
  qed (auto simp: rewrite_extent_def Let_def rewrite_loc_same)
  then obtain w' t where r: "et_for_each_mut (rewrite_extent moves track v) acc (w, vm_extents m) =
      Some (fold (\<lambda>k acc. snd (snd (rewrite_extent moves track v k (the (vm_ext w m k)) acc))) (et_keys (vm_extents m)) acc, w', t)"
      "ts_ok (w', t)" "ts_fits (within_set S) (w', t)" "ts_le (w, vm_extents m) (w', t)"
      "ts_abs (w', t) = (\<lambda>k. map_option (rewrite_loc moves) (vm_ext w m k))"
    by (auto simp: vm_ext_def)
  have "al_wf (map (\<lambda>(s, p). (s, rewrite_group moves p)) (vm_parity m))"
    using assms(3) by (simp add: vm_ok_def al_wf_def comp_def case_prod_unfold)
  then show ?thesis
    using r within_fits [OF r(3)]
    by (auto simp: rewrite_volume_def rewrite_acc_def swept_def vm_ok_def vm_ext_def ts_ok_def ts_le_def)
qed

lemma vm_ext_volume: "map_of (gm_volumes g) v = Some m \<Longrightarrow> vm_ext (gm_interner g) m = g_ext g v"
  by (simp add: vm_ext_def g_ext_def)

lemma volumes_within:
  assumes "gem_inv S g" "(v, m) \<in> set (gm_volumes g)"
  shows "map_of (gm_volumes g) v = Some m" "vm_ok (gm_interner g) m" "vm_ext (gm_interner g) m = g_ext g v"
    "\<forall>e l. vm_ext (gm_interner g) m e = Some l \<longrightarrow> loc_within S l"
proof -
  show m: "map_of (gm_volumes g) v = Some m" using assms by (simp add: gem_inv_def gem_ok_def al_wf_def)
  then show "vm_ok (gm_interner g) m" "vm_ext (gm_interner g) m = g_ext g v"
    using assms(1) gem_ok_vm vm_ext_volume by (auto simp: gem_inv_def)
  then show "\<forall>e l. vm_ext (gm_interner g) m e = Some l \<longrightarrow> loc_within S l" using assms(1) by (simp add: gem_inv_def)
qed

lemma g_ext_volume: "g_ext g v e = Some l \<Longrightarrow> \<exists>m. (v, m) \<in> set (gm_volumes g) \<and> map_of (gm_volumes g) v = Some m"
  by (auto simp: g_ext_def split: option.splits dest: map_of_SomeD)

lemma g_par_volume: "g_par g v s = Some p \<Longrightarrow> \<exists>m. (v, m) \<in> set (gm_volumes g) \<and> map_of (gm_volumes g) v = Some m \<and> (s, p) \<in> set (vm_parity m)"
  by (auto simp: g_par_def split: option.splits dest: map_of_SomeD)

lemma keys_of_ext:
  assumes "gem_inv S g" "map_of (gm_volumes g) v = Some m" "g_ext g v e = Some l"
  shows "e \<in> set (et_keys (vm_extents m))"
proof -
  have ok: "ts_ok (gm_interner g, vm_extents m)"
    using ts_ok_vm gem_ok_vm [OF _ assms(2)] assms(1) by (auto simp: gem_inv_def)
  then show ?thesis using et_keys_spec(1) [OF ok] assms(2,3) by (auto simp: g_ext_def)
qed

text \<open>The accumulator of a sweep keeps what was recorded for each volume.\<close>

lemma sweep_collects:
  assumes "\<And>v ext t ps a. sel a \<subseteq> sel (acc_of v ext t ps a)" "(v, m) \<in> set vms"
    and "\<And>a. y \<in> sel (acc_of v (vm_ext w m) (vm_extents m) (vm_parity m) a)"
  shows "y \<in> sel (fold (\<lambda>(v, m). acc_of v (vm_ext w m) (vm_extents m) (vm_parity m)) vms a)"
  by (rule fold_collects [OF _ assms(2)]) (use assms(1,3) in \<open>simp_all add: case_prod_unfold\<close>)

lemma rewrite_legs_spec:
  assumes inv: "gem_inv S g" and all: "gem_check_all g" and S: "\<forall>(a, b) \<in> set moves. lg_slab b \<in> S"
  shows "\<exists>n g'. rewrite_legs moves g = Some (n, g') \<and> gem_to S g g' \<and>
    (\<forall>v. g_ext g' v = (\<lambda>e. map_option (rewrite_loc moves) (g_ext g v e))) \<and>
    (\<forall>v. g_par g' v = (\<lambda>s. map_option (rewrite_group moves) (g_par g v s)))"
proof (cases "moves = []")
  case True
  have "rewrite_loc moves = id" "rewrite_group moves = id"
    using True rewrite_loc_same rewrite_group_same by (auto simp: moved_count_def fun_eq_iff)
  then show ?thesis using True all inv by (simp add: rewrite_legs_def option.map_id)
next
  case False
  have w: "in_ok (gm_interner g)" "in_fits S (gm_interner g)" using inv by (auto simp: gem_inv_def gem_ok_def)
  let ?a = "fold (\<lambda>(v, m). rewrite_acc moves (gm_track g) v (vm_ext (gm_interner g) m) (vm_extents m) (vm_parity m)) (gm_volumes g) sweep_none"
  have "\<exists>vms' w'. sweep_volumes (rewrite_volume moves (gm_track g)) (gm_volumes g) sweep_none (gm_interner g) = Some (vms', ?a, w') \<and>
      in_ok w' \<and> in_fits S w' \<and> in_le (gm_interner g) w' \<and>
      list_all2 (swept (rewrite_loc moves) (rewrite_group moves) (gm_interner g) w') (gm_volumes g) vms'"
    by (rule sweep_volumes_spec [OF _ w]) (use rewrite_volume_spec S volumes_within [OF inv] in auto)
  then obtain vms' w' where s: "sweep_volumes (rewrite_volume moves (gm_track g)) (gm_volumes g) sweep_none (gm_interner g) = Some (vms', ?a, w')"
      "in_ok w'" "in_fits S w'" "in_le (gm_interner g) w'"
      "list_all2 (swept (rewrite_loc moves) (rewrite_group moves) (gm_interner g) w') (gm_volumes g) vms'" by blast
  have ce: "(v, e) \<in> set (sw_extents ?a)" if t: "gm_track g" "g_ext g v e = Some l" "rewrite_loc moves l \<noteq> l" for v e l
  proof -
    obtain m where m: "(v, m) \<in> set (gm_volumes g)" "map_of (gm_volumes g) v = Some m" using g_ext_volume t(2) by blast
    have "moved_count moves (legs l) \<noteq> 0" using t(3) rewrite_loc_same by blast
    then show ?thesis using t(1,2) m keys_of_ext [OF inv m(2) t(2)] vm_ext_volume [OF m(2)]
      by (intro sweep_collects [of "\<lambda>a. set (sw_extents a)", OF rewrite_acc_grows(1) m(1)]) (simp add: rewrite_acc_collects(1))
  qed
  have cp: "(v, x) \<in> set (sw_stripes ?a)" if t: "gm_track g" "g_par g v x = Some p" "rewrite_group moves p \<noteq> p" for v x p
  proof -
    obtain m where m: "(v, m) \<in> set (gm_volumes g)" "(x, p) \<in> set (vm_parity m)" using g_par_volume t(2) by blast
    have "moved_count moves (pg_legs p) \<noteq> 0" using t(3) rewrite_group_same by blast
    then show ?thesis using t(1) m(2)
      by (intro sweep_collects [of "\<lambda>a. set (sw_stripes a)", OF rewrite_acc_grows(2) m(1)]) (simp add: rewrite_acc_collects(2))
  qed
  have "rewrite_legs moves g = Some (sw_count ?a, touch_all ?a (g\<lparr>gm_volumes := vms', gm_interner := w'\<rparr>))"
    using False all s(1) by (simp add: rewrite_legs_def)
  moreover have "\<forall>l. loc_within S l \<longrightarrow> loc_within S (rewrite_loc moves l)" using rewrite_loc_within S by blast
  ultimately show ?thesis using sweep_step [OF inv all s(5,2-4), of ?a] ce cp by blast
qed

definition sweep_acc :: "(ExtentLocation \<Rightarrow> bool \<times> ExtentLocation) \<Rightarrow> uuid \<Rightarrow> (u64 \<rightharpoonup> ExtentLocation) \<Rightarrow> ExtentTable
    \<Rightarrow> (u64 \<times> ParityGroup) list \<Rightarrow> sweep \<Rightarrow> sweep" where
  "sweep_acc f v ext t ps a = fold (\<lambda>e a. snd (snd (sweep_extent f v e (the (ext e)) a))) (et_keys t) a"

lemma sweep_locations_spec:
  assumes inv: "gem_inv S g" and all: "gem_check_all g"
    and f: "\<And>l. loc_within S l \<Longrightarrow> loc_within S (snd (f l))" "\<And>l. \<not> fst (f l) \<Longrightarrow> snd (f l) = l"
  shows "\<exists>n g'. sweep_locations f g = Some (n, g') \<and> gem_to S g g' \<and>
    (\<forall>v. g_ext g' v = (\<lambda>e. map_option (snd \<circ> f) (g_ext g v e))) \<and> (\<forall>v. g_par g' v = g_par g v)"
proof -
  let ?w = "gm_interner g"
  define step where "step = (\<lambda>v (m :: VolumeExtentMap) a w. do {
      (a, w, t) \<leftarrow> et_for_each_mut (sweep_extent f v) a (w, vm_extents m); Some (m\<lparr>vm_extents := t\<rparr>, a, w) })"
  have w: "in_ok ?w" "in_fits S ?w" using inv by (auto simp: gem_inv_def gem_ok_def)
  have val: "fst (snd (sweep_extent f v e l a)) = (snd \<circ> f) l" "\<not> fst (sweep_extent f v e l a) \<Longrightarrow> (snd \<circ> f) l = l" for v e l a
    using f(2) [of l] by (cases "f l"; auto simp: sweep_extent_def split: if_splits)+
  have one: "\<exists>m' w'. step v m acc w = Some (m', sweep_acc f v (vm_ext w m) (vm_extents m) (vm_parity m) acc, w') \<and>
      in_ok w' \<and> in_fits S w' \<and> in_le w w' \<and> swept (snd \<circ> f) id w w' (v, m) (v, m')"
    if a: "in_ok w" "in_fits S w" "vm_ok w m" "\<forall>e l. vm_ext w m e = Some l \<longrightarrow> loc_within S l" for v m acc w
  proof -
    have ok: "ts_ok (w, vm_extents m)" using a(1,3) by (simp add: ts_ok_def vm_ok_def)
    obtain w' t where r: "et_for_each_mut (sweep_extent f v) acc (w, vm_extents m) =
        Some (sweep_acc f v (vm_ext w m) (vm_extents m) (vm_parity m) acc, w', t)"
        "ts_ok (w', t)" "ts_fits (within_set S) (w', t)" "ts_le (w, vm_extents m) (w', t)"
        "ts_abs (w', t) = (\<lambda>k. map_option (snd \<circ> f) (vm_ext w m k))"
      using et_for_each_spec [OF ok fits_within [OF a(2)], of "sweep_extent f v" "\<lambda>_. snd \<circ> f" acc] a(4) f(1) val loc_within_slab
      by (fastforce simp: sweep_acc_def vm_ext_def)
    then show ?thesis using within_fits [OF r(3)] a(3)
      by (auto simp: step_def swept_def vm_ok_def vm_ext_def ts_ok_def ts_le_def case_prod_unfold)
  qed
  let ?a = "fold (\<lambda>(v, m). sweep_acc f v (vm_ext ?w m) (vm_extents m) (vm_parity m)) (gm_volumes g) sweep_none"
  have "\<exists>vms' w'. sweep_volumes step (gm_volumes g) sweep_none ?w = Some (vms', ?a, w') \<and>
      in_ok w' \<and> in_fits S w' \<and> in_le ?w w' \<and> list_all2 (swept (snd \<circ> f) id ?w w') (gm_volumes g) vms'"
    by (rule sweep_volumes_spec [OF _ w], rule one, assumption+) (use volumes_within [OF inv] in auto)
  then obtain vms' w' where s: "sweep_volumes step (gm_volumes g) sweep_none ?w = Some (vms', ?a, w')"
      "in_ok w'" "in_fits S w'" "in_le ?w w'" "list_all2 (swept (snd \<circ> f) id ?w w') (gm_volumes g) vms'" by blast
  have grows: "set (sw_extents a) \<subseteq> set (sw_extents (sweep_acc f v ext t ps a))" for v ext t ps a
    unfolding sweep_acc_def by (rule fold_grows [of _ "\<lambda>a. set (sw_extents a)"]) (auto simp: sweep_extent_def split: prod.split)
  have ce: "(v, e) \<in> set (sw_extents ?a)" if t: "gm_track g" "g_ext g v e = Some l" "(snd \<circ> f) l \<noteq> l" for v e l
  proof -
    obtain m where m: "(v, m) \<in> set (gm_volumes g)" "map_of (gm_volumes g) v = Some m" using g_ext_volume t(2) by blast
    have hit: "fst (f l)" using t(3) f(2) by auto
    have k: "e \<in> set (et_keys (vm_extents m))" using keys_of_ext [OF inv m(2) t(2)] .
    have "(v, e) \<in> set (sw_extents (sweep_acc f v (vm_ext ?w m) (vm_extents m) (vm_parity m) a))" for a
      unfolding sweep_acc_def vm_ext_volume [OF m(2)]
      by (rule fold_collects [of _ "\<lambda>a. set (sw_extents a)", OF _ k])
        (use t(2) hit in \<open>auto simp: sweep_extent_def split: prod.split\<close>)
    then show ?thesis by (rule sweep_collects [of "\<lambda>a. set (sw_extents a)", OF grows m(1)])
  qed
  have cp: "(v, x) \<in> set (sw_stripes ?a)" if "gm_track g" "g_par g v x = Some p" "id p \<noteq> p" for v x p using that by simp
  have "sweep_locations f g = Some (sw_count ?a, touch_all ?a (g\<lparr>gm_volumes := vms', gm_interner := w'\<rparr>))"
    using all s(1) by (simp add: sweep_locations_def step_def)
  moreover have "\<forall>l. loc_within S l \<longrightarrow> loc_within S ((snd \<circ> f) l)" using f(1) by simp
  ultimately show ?thesis using sweep_step [OF inv all s(5,2-4), of ?a] ce cp by (simp only: option.map_id id_apply) blast
qed

end
