(* ===== verification/GemWhole.thy ===== *)
theory GemWhole
  imports GemSpec
begin

text \<open>
  The operations on whole maps (clone, gather, rename, removal, absorption) and the sweep that
  unmaps zeroed slots, related to the maps they stand for and to the record of changes.
\<close>

section \<open>Sharing\<close>

definition share_loc :: "ExtentLocation \<Rightarrow> ExtentLocation" where
  "share_loc l = l\<lparr>el_refs := sat_add (el_refs l) 1\<rparr>"

definition share_grp :: "ParityGroup \<Rightarrow> ParityGroup" where
  "share_grp p = p\<lparr>pg_refs := pg_refs p + 1\<rparr>"

definition share_all :: "('a \<Rightarrow> 'a) \<Rightarrow> ('k \<rightharpoonup> 'a) \<Rightarrow> 'k \<rightharpoonup> 'a" where
  "share_all f m = (\<lambda>k. map_option f (m k))"

lemma share_loc_legs [simp]: "legs (share_loc l) = legs l" "loc_within S (share_loc l) = loc_within S l"
  by (simp_all add: share_loc_def legs_def primary_def)

lemma share_all_empty [simp]: "share_all f Map.empty = Map.empty"
  by (simp add: share_all_def)

lemma add_refs_share:
  assumes "ts_ok (w, t)"
  shows "ts_ok (w, et_add_refs 1 t)" "ts_abs (w, et_add_refs 1 t) = share_all share_loc (ts_abs (w, t))"
  using et_add_refs_spec [OF assms, of 1] by (simp_all add: share_all_def share_loc_def [abs_def])

lemma share_parity_alt: "share_parity ps = map (\<lambda>(s, p). (s, share_grp p)) ps"
  by (simp add: share_parity_def share_grp_def)

lemma share_parity_view:
  "map_of (share_parity ps) = share_all share_grp (map_of ps)" "al_wf (share_parity ps) = al_wf ps"
proof -
  show "map_of (share_parity ps) = share_all share_grp (map_of ps)"
    by (simp add: share_parity_alt share_all_def map_of_map comp_def)
  show "al_wf (share_parity ps) = al_wf ps"
    by (simp add: share_parity_alt al_wf_def comp_def case_prod_unfold)
qed

lemma share_map_view:
  assumes "in_ok w" "vm_ok w m"
  shows "vm_ok w (share_map m)" "vm_ext w (share_map m) = share_all share_loc (vm_ext w m)"
    "map_of (vm_parity (share_map m)) = share_all share_grp (map_of (vm_parity m))"
proof -
  have "ts_ok (w, vm_extents m)" using assms by (simp add: ts_ok_def vm_ok_def)
  note r = add_refs_share [OF this]
  show "vm_ok w (share_map m)" "vm_ext w (share_map m) = share_all share_loc (vm_ext w m)"
    "map_of (vm_parity (share_map m)) = share_all share_grp (map_of (vm_parity m))"
    using r assms(2) by (auto simp: share_map_def vm_ok_def vm_ext_def ts_ok_def share_parity_view)
qed

text \<open>The parity of a clone, collected stripe by stripe, is the source's with one more sharer.\<close>

lemma clone_parity:
  assumes "al_wf ps"
  shows "fold (\<lambda>(s, p). al_put s (p\<lparr>pg_refs := pg_refs p + 1\<rparr>)) ps [] = share_parity ps"
proof -
  have "fold (\<lambda>(s, p). al_put s (p\<lparr>pg_refs := pg_refs p + 1\<rparr>)) ps a = fold (\<lambda>(s, p). al_put s p) (share_parity ps) a" for a
    by (induction ps arbitrary: a) (auto simp: share_parity_def)
  moreover have wf: "al_wf (share_parity ps)" using assms by (simp add: share_parity_view)
  ultimately show ?thesis using al_unique_set [OF _ wf] al_collect [OF wf, of "\<lambda>k. k"] by (simp add: case_prod_unfold)
qed

section \<open>Recording whole volumes\<close>

lemma whole_step:
  assumes inv: "gem_inv S g" "gem_inv S h" and res: "\<forall>u \<in> U. gem_check u g"
    and f: "in_le (gm_interner g) (gm_interner h)" "gm_track h = gm_track g" "gm_cold h = gm_cold g" "gm_pins h = gm_pins g"
    and ch: "changes_le (gm_changes g) (gm_changes h)" "gm_track g \<Longrightarrow> U \<subseteq> ch_whole (gm_changes h)"
      "\<And>u. u \<notin> U \<Longrightarrow> has_changes u h \<longleftrightarrow> has_changes u g"
    and rest: "\<And>u. u \<notin> U \<Longrightarrow> g_ext h u = g_ext g u \<and> g_par h u = g_par g u"
  shows "gem_to S g h"
proof -
  have "gm_track g \<longrightarrow> covered (gm_changes h) g h" using ch(2) rest unfolding covered_def by fastforce
  moreover have "\<forall>u. is_cold u g \<longrightarrow> \<not> has_changes u g \<longrightarrow> \<not> has_changes u h"
    using ch(3) res unfolding gem_check_def by blast
  ultimately show ?thesis using inv f ch(1) by (simp add: gem_to_def gem_eff_def gem_inv_def)
qed

lemma put_view:
  assumes "gem_inv S g" "vm_fits S g w m" "gem_check v g"
  shows "gem_inv S (vm_put v m (g\<lparr>gm_interner := w\<rparr>))"
    "g_ext (vm_put v m (g\<lparr>gm_interner := w\<rparr>)) = (g_ext g)(v := vm_ext w m)"
    "g_par (vm_put v m (g\<lparr>gm_interner := w\<rparr>)) = (g_par g)(v := map_of (vm_parity m))"
  using put_inv [OF assms] g_ext_put [of g w v m] g_par_put assms by (auto simp: gem_inv_def vm_fits_def)

lemma put_view_same:
  assumes "gem_inv S g" "vm_fits S g (gm_interner g) m" "gem_check v g"
  shows "gem_inv S (vm_put v m g)" "g_ext (vm_put v m g) = (g_ext g)(v := vm_ext (gm_interner g) m)"
    "g_par (vm_put v m g) = (g_par g)(v := map_of (vm_parity m))"
  using put_view [OF assms] by simp_all

lemma share_fits:
  assumes "gem_inv S g" "map_of (gm_volumes g) v = Some m"
  shows "vm_fits S g (gm_interner g) (share_map m)"
    "vm_ext (gm_interner g) (share_map m) = share_all share_loc (g_ext g v)"
    "map_of (vm_parity (share_map m)) = share_all share_grp (g_par g v)"
proof -
  have w: "in_ok (gm_interner g)" "vm_ok (gm_interner g) m"
    using assms gem_ok_vm by (auto simp: gem_inv_def gem_ok_def)
  note view = share_map_view [OF w]
  show e: "vm_ext (gm_interner g) (share_map m) = share_all share_loc (g_ext g v)"
    "map_of (vm_parity (share_map m)) = share_all share_grp (g_par g v)"
    using view assms(2) by (auto simp: vm_ext_volume g_par_def)
  have "\<forall>e l. share_all share_loc (g_ext g v) e = Some l \<longrightarrow> loc_within S l"
    using assms(1) by (auto simp: gem_inv_def share_all_def)
  then show "vm_fits S g (gm_interner g) (share_map m)"
    using view(1) w(1) assms(1) unfolding vm_fits_def e(1) by (simp add: gem_inv_def)
qed

lemma check_put [simp]: "gem_check u (vm_put v m g) = gem_check u g" "gem_check u (g\<lparr>gm_interner := w\<rparr>) = gem_check u g"
  "gem_check u (touch_whole v g) = gem_check u g"
  by (simp_all add: gem_check_def is_cold_def)

lemma whole_touched:
  "gm_track g \<Longrightarrow> v \<in> ch_whole (gm_changes (touch_whole v g))"
  "ch_whole (gm_changes g) \<subseteq> ch_whole (gm_changes (touch_whole v g))"
  by (auto simp: touch_whole_def)

lemma changes_le_two: "changes_le (gm_changes g) (gm_changes (touch_whole b (touch_whole a g)))"
  by (rule changes_le_trans [OF changes_le_touch(3) changes_le_touch(3)])

lemma clone_volume_map_spec:
  assumes inv: "gem_inv S g" and res: "gem_check dst g" "gem_check src g" and m: "map_of (gm_volumes g) src = Some m"
  shows "\<exists>d g'. clone_volume_map src dst g = Some (Some d, g') \<and> gem_to S g g' \<and>
    g_ext g' = (g_ext g)(src := share_all share_loc (g_ext g src), dst := share_all share_loc (g_ext g src)) \<and>
    g_par g' = (g_par g)(src := share_all share_grp (g_par g src), dst := share_all share_grp (g_par g src))"
proof -
  note fit = share_fits [OF inv m]
  let ?a = "vm_put src (share_map m) g"
  have a: "gem_inv S ?a" "g_ext ?a = (g_ext g)(src := share_all share_loc (g_ext g src))"
      "g_par ?a = (g_par g)(src := share_all share_grp (g_par g src))"
    using put_view_same [OF inv fit(1) res(2)] fit(2,3) by simp_all
  have "vm_fits S ?a (gm_interner ?a) (share_map m)" using fit(1) by (simp add: vm_fits_def)
  note b = put_view_same [OF a(1) this]
  let ?b = "vm_put dst (share_map m) ?a" and ?h = "touch_whole dst (touch_whole src (vm_put dst (share_map m) (vm_put src (share_map m) g)))"
  have v: "gem_inv S ?h" "g_ext ?h = (g_ext g)(src := share_all share_loc (g_ext g src), dst := share_all share_loc (g_ext g src))"
      "g_par ?h = (g_par g)(src := share_all share_grp (g_par g src), dst := share_all share_grp (g_par g src))"
    using b [of dst] a fit(2,3) res(1) by simp_all
  have "al_wf (vm_parity m)" using inv m gem_ok_vm by (auto simp: gem_inv_def vm_ok_def)
  then have "clone_volume_map src dst g = Some (Some (share_map m), ?h)"
    using res m by (simp add: clone_volume_map_def Let_def clone_parity share_map_def)
  moreover have "gem_to S g ?h"
  proof (rule whole_step [OF inv v(1), of "{src, dst}"])
    show "changes_le (gm_changes g) (gm_changes ?h)"
      using changes_le_two [of ?b dst src] by simp
    show "{src, dst} \<subseteq> ch_whole (gm_changes ?h)" if "gm_track g"
      using that by (simp add: touch_whole_def)
  qed (use res v in \<open>auto simp: has_changes_touch\<close>)
  ultimately show ?thesis using v by blast
qed

lemma rename_volume_spec:
  assumes inv: "gem_inv S g" and res: "gem_check dst g" "gem_check src g" and m: "map_of (gm_volumes g) src = Some m"
  shows "\<exists>old g'. rename_volume src dst g = Some (old, g') \<and> gem_to S g g' \<and>
    g_ext g' = (g_ext g)(src := Map.empty, dst := g_ext g src) \<and> g_par g' = (g_par g)(src := Map.empty, dst := g_par g src)"
proof -
  let ?k = "g\<lparr>gm_volumes := al_put dst m (al_del dst (al_del src (gm_volumes g)))\<rparr>"
  let ?h = "touch_whole dst (touch_whole src ?k)"
  have e: "g_ext ?h = (g_ext g)(src := Map.empty, dst := g_ext g src)" "g_par ?h = (g_par g)(src := Map.empty, dst := g_par g src)"
    using m by (auto simp: g_ext_def g_par_def fun_eq_iff split: option.split)
  have "gem_ok ?k"
    using inv gem_ok_vm [OF gem_inv_ok [OF inv] m] res
    by (auto simp: gem_inv_def gem_ok_def set_al_put set_al_del is_cold_def gem_check_def)
  then have i: "gem_inv S ?h" using inv e by (auto simp: gem_inv_def)
  moreover have "gem_to S g ?h"
  proof (rule whole_step [OF inv i, of "{src, dst}"])
    show "changes_le (gm_changes g) (gm_changes ?h)"
      using changes_le_two [of ?k dst src] by simp
    show "{src, dst} \<subseteq> ch_whole (gm_changes ?h)" if "gm_track g" using that by (simp add: touch_whole_def)
    show "has_changes u ?h \<longleftrightarrow> has_changes u g" if "u \<notin> {src, dst}" for u
      using that by (simp add: has_changes_touch) (simp add: has_changes_def)
  qed (use res e in auto)
  ultimately show ?thesis using res m e by (auto simp: rename_volume_def Let_def)
qed

lemma remove_volume_spec:
  assumes inv: "gem_inv S g" and res: "gem_check v g"
  shows "\<exists>old g'. remove_volume v g = Some (old, g') \<and> gem_to S g g' \<and>
    g_ext g' = (g_ext g)(v := Map.empty) \<and> g_par g' = (g_par g)(v := Map.empty)"
proof -
  let ?h = "(touch_whole v g)\<lparr>gm_volumes := al_del v (gm_volumes (touch_whole v g))\<rparr>"
  have e: "g_ext ?h = (g_ext g)(v := Map.empty)" "g_par ?h = (g_par g)(v := Map.empty)"
    unfolding g_ext_del g_par_del by simp_all
  have "gem_ok (touch_whole v g)" using inv by (simp add: gem_inv_def)
  then have i: "gem_inv S ?h" using gem_ok_del [of "touch_whole v g" v] inv e by (auto simp: gem_inv_def)
  have "gem_to S g ?h"
  proof (rule whole_step [OF inv i, of "{v}"])
    show "changes_le (gm_changes g) (gm_changes ?h)" using changes_le_touch(3) [of g v] by simp
    show "{v} \<subseteq> ch_whole (gm_changes ?h)" if "gm_track g" using that by (simp add: touch_whole_def)
    show "has_changes u ?h \<longleftrightarrow> has_changes u g" if "u \<notin> {v}" for u
      using that has_changes_touch(3) [of u v g] by (simp add: has_changes_def)
  qed (use res e in auto)
  then show ?thesis using res e by (simp add: remove_volume_def)
qed

section \<open>Gathering\<close>

lemma share_source_spec:
  assumes "gem_inv S g" "gem_check v g"
  shows "gem_inv S (share_source v g)" "g_ext (share_source v g) = (g_ext g)(v := share_all share_loc (g_ext g v))"
    "g_par (share_source v g) = (g_par g)(v := share_all share_grp (g_par g v))"
proof -
  show "gem_inv S (share_source v g)" "g_ext (share_source v g) = (g_ext g)(v := share_all share_loc (g_ext g v))"
    "g_par (share_source v g) = (g_par g)(v := share_all share_grp (g_par g v))"
    using put_view_same [OF assms(1) share_fits(1) [OF assms(1)] assms(2)] share_fits(2,3) [OF assms(1)] assms(1)
    by (cases "map_of (gm_volumes g) v"; auto simp: share_source_def g_ext_def g_par_def fun_upd_idem)+
qed

lemma share_source_fields [simp]:
  "gm_interner (share_source v g) = gm_interner g" "gm_track (share_source v g) = gm_track g"
  "gm_cold (share_source v g) = gm_cold g" "gm_pins (share_source v g) = gm_pins g"
  "gm_changes (share_source v g) = gm_changes g" "has_changes u (share_source v g) = has_changes u g"
  by (simp_all add: share_source_def split: option.split)

lemma values_spec:
  assumes "ts_ok (w, t)"
  shows "\<exists>ls. et_values (w, t) = Some ls \<and> set ls = ran (ts_abs (w, t))"
proof -
  obtain m where m: "et_iter (w, t) = Some m" "al_wf m" "map_of m = ts_abs (w, t)" using et_iter_spec [OF assms] by auto
  have "set (map snd m) = ran (map_of m)" using m(2) by (force simp: ran_def al_wf_def)
  then show ?thesis using m by (simp add: et_values_def)
qed

text \<open>The parity of the source, each stripe at its new key.\<close>

lemma gather_parity:
  fixes ps qs :: "(u64 \<times> ParityGroup) list"
  assumes "al_wf ps" "al_wf qs"
  shows "al_wf (fold (\<lambda>(s, p). al_put (base + s) (p\<lparr>pg_refs := pg_refs p + 1\<rparr>)) ps qs)"
    "map_of (fold (\<lambda>(s, p). al_put (base + s) (p\<lparr>pg_refs := pg_refs p + 1\<rparr>)) ps qs)
      = map_of qs ++ (\<lambda>k. map_option share_grp (map_of ps (k - base)))"
proof -
  have eq: "fold (\<lambda>(s, p). al_put (base + s) (p\<lparr>pg_refs := pg_refs p + 1\<rparr>)) ps a
      = fold (\<lambda>(s, p). al_put (base + s) p) (share_parity ps) a" for a
    by (induction ps arbitrary: a) (auto simp: share_parity_def)
  note col = al_collect_acc [OF assms(2), of "\<lambda>s. base + s" "share_parity ps"]
  show "al_wf (fold (\<lambda>(s, p). al_put (base + s) (p\<lparr>pg_refs := pg_refs p + 1\<rparr>)) ps qs)" unfolding eq using col by simp
  have wf: "al_wf (share_parity ps)" using assms(1) by (simp add: share_parity_view)
  let ?m = "map (\<lambda>(s, p). (base + s, p)) (share_parity ps)"
  have "distinct (map (\<lambda>s. base + s) (map fst (share_parity ps)))"
    using wf unfolding distinct_map [of "\<lambda>s. base + s"] al_wf_def by (simp add: inj_on_def)
  then have d: "distinct (map fst (rev ?m))" by (simp add: comp_def case_prod_unfold rev_map [symmetric])
  have "map_of (rev ?m) k = map_option share_grp (map_of ps (k - base))" for k
  proof -
    have "map_of (rev ?m) k = Some p \<longleftrightarrow> map_of (share_parity ps) (k - base) = Some p" for p
    proof -
      have "map_of (rev ?m) k = Some p \<longleftrightarrow> (k, p) \<in> set ?m" using d by (simp add: rev_map [symmetric])
      also have "\<dots> \<longleftrightarrow> (k - base, p) \<in> set (share_parity ps)" by (force simp: image_iff)
      finally show ?thesis using al_wf_mem [OF wf] by simp
    qed
    then have "map_of (rev ?m) k = map_of (share_parity ps) (k - base)" by (metis option.exhaust)
    then show ?thesis by (simp add: share_parity_view share_all_def)
  qed
  then show "map_of (fold (\<lambda>(s, p). al_put (base + s) (p\<lparr>pg_refs := pg_refs p + 1\<rparr>)) ps qs)
      = map_of qs ++ (\<lambda>k. map_option share_grp (map_of ps (k - base)))"
    unfolding eq using col by (simp add: map_add_def fun_eq_iff)
qed

lemma ran_within: "gem_inv S g \<Longrightarrow> ran (g_ext g v) \<subseteq> within_set S"
  by (auto simp: gem_inv_def ran_def dest: loc_within_slab)

lemma ran_share: "ran (share_all f m) = f ` ran m"
  by (auto simp: ran_def share_all_def)

lemma shift_map_ran: "\<forall>u \<in> dom m. unat u + unat base < 2 ^ 64 \<Longrightarrow> ran (shift_map base m) = ran m"
  using shift_map_Some [of m base] by (fastforce simp: ran_def)

lemma gather_into_spec:
  assumes inv: "gem_inv S g" and res: "gem_check dst g" "gem_check src g" and m: "map_of (gm_volumes g) src = Some m"
    and room: "\<forall>e \<in> dom (g_ext g src). unat e + unat base < 2 ^ 64"
  defines "ext \<equiv> (g_ext g)(dst := g_ext g dst ++ share_all share_loc (shift_map base (g_ext g src)))"
    and "par \<equiv> (g_par g)(dst := g_par g dst ++ (\<lambda>k. map_option share_grp (g_par g src (k - base))))"
  shows "\<exists>ls g'. gather_into src dst base g = Some (ls, g') \<and> gem_to S g g' \<and>
    g_ext g' = ext(src := share_all share_loc (ext src)) \<and> g_par g' = par(src := share_all share_grp (par src)) \<and>
    set ls = (\<Union>l \<in> ran (g_ext g src). set (legs l))"
proof -
  let ?w = "gm_interner g" and ?d = "vm_of dst g" and ?V = "within_set S"
  have ok: "ts_ok (?w, vm_extents m)" "vm_ok ?w m" "vm_ok ?w ?d" and src: "g_ext g src = ts_abs (?w, vm_extents m)" "g_par g src = map_of (vm_parity m)"
    using ts_ok_vm gem_ok_vm [OF _ m] gem_ok_vm_of inv m by (auto simp: gem_inv_def g_ext_def g_par_def)
  have fit: "ts_fits ?V (?w, t)" for t using inv fits_within by (simp add: gem_inv_def)
  obtain w1 t1 where s1: "et_shifted base (?w, vm_extents m) = Some (w1, t1)" "ts_ok (w1, t1)" "in_le ?w w1" "ts_fits ?V (w1, t1)"
      "ts_abs (w1, t1) = shift_map base (g_ext g src)"
    using et_shifted_spec [OF ok(1), of base ?V] room src fit ran_within [OF inv, of src] by auto
  note a = add_refs_share [OF s1(2)]
  have ran: "ran (ts_abs (w1, et_add_refs 1 t1)) = share_loc ` ran (g_ext g src)"
    using a(2) s1(5) shift_map_ran [OF room] by (simp add: ran_share)
  obtain ls where ls: "et_values (w1, et_add_refs 1 t1) = Some ls" "set ls = share_loc ` ran (g_ext g src)"
    using values_spec [OF a(1)] ran by auto
  have d: "ts_ok (w1, vm_extents ?d)" using et_ok_mono [OF s1(3)] ok(3) s1(2) by (simp add: ts_ok_def vm_ok_def)
  have dabs: "ts_abs (w1, vm_extents ?d) = g_ext g dst" using vm_ext_mono [OF s1(3) ok(3)] by (simp add: vm_ext_def g_ext_vm_of)
  have V: "ts_fits ?V (w1, vm_extents ?d)" "ran (ts_abs (w1, et_add_refs 1 t1)) \<subseteq> ?V"
    using s1(4) ts_fits_any ran_within [OF inv, of src] by (auto simp: ran share_loc_def)
  obtain w2 t2 where s2: "et_extend_from (et_add_refs 1 t1) (w1, vm_extents ?d) = Some (w2, t2)" "ts_ok (w2, t2)" "in_le w1 w2"
      "ts_fits ?V (w2, t2)" "ts_abs (w2, t2) = ext dst"
    using et_extend_from_spec [OF d _ V] a s1(5) dabs by (auto simp: ts_ok_def ext_def)
  let ?ps = "fold (\<lambda>(s, p). al_put (base + s) (p\<lparr>pg_refs := pg_refs p + 1\<rparr>)) (vm_parity m) (vm_parity ?d)"
  let ?n = "\<lparr>vm_extents = t2, vm_parity = ?ps\<rparr>"
  have ps: "al_wf ?ps" "map_of ?ps = par dst"
    using gather_parity [of "vm_parity m" "vm_parity ?d" base] ok src by (auto simp: vm_ok_def par_def g_par_vm_of)
  have "loc_within S l" if "ext dst e = Some l" for e l
    using that inv shift_map_Some [OF room] by (auto simp: ext_def gem_inv_def share_all_def map_add_Some_iff)
  then have "vm_fits S g w2 ?n"
    using s1(3) s2 within_fits [OF s2(4)] ps(1) by (auto simp: vm_fits_def vm_ok_def vm_ext_def ts_ok_def intro: in_le_trans)
  note put = put_view [OF inv this res(1)]
  let ?k = "vm_put dst ?n (g\<lparr>gm_interner := w2\<rparr>)"
  have k: "gem_inv S ?k" "g_ext ?k = ext" "g_par ?k = par"
    using put s2(5) ps(2) by (auto simp: vm_ext_def ext_def par_def)
  let ?h = "touch_whole dst (touch_whole src (share_source src ?k))"
  have h: "gem_inv S ?h" "g_ext ?h = ext(src := share_all share_loc (ext src))" "g_par ?h = par(src := share_all share_grp (par src))"
    using share_source_spec [OF k(1), of src] res(2) k by simp_all
  have "gather_into src dst base g = Some (concat (map legs ls), ?h)"
    using res m s1(1) ls(1) s2(1) by (simp add: gather_into_def Let_def)
  moreover have "gem_to S g ?h"
  proof (rule whole_step [OF inv h(1), of "{src, dst}"])
    show "changes_le (gm_changes g) (gm_changes ?h)" using changes_le_two [of "share_source src ?k" dst src] by simp
    show "{src, dst} \<subseteq> ch_whole (gm_changes ?h)" if "gm_track g" using that by (simp add: touch_whole_def)
    show "g_ext ?h u = g_ext g u \<and> g_par ?h u = g_par g u" if "u \<notin> {src, dst}" for u
      using that unfolding h by (simp add: ext_def par_def)
  qed (use res s1(3) s2(3) in \<open>auto simp: has_changes_touch intro: in_le_trans\<close>)
  moreover have "set (concat (map legs ls)) = (\<Union>l \<in> ran (g_ext g src). set (legs l))" using ls(2) by auto
  ultimately show ?thesis using h by blast
qed

lemma place_all_extend:
  assumes "\<forall>(e, l) \<in> set els. place e \<noteq> None"
  shows "place_all place els s = table_extend et_insert (map (\<lambda>(e, l). (the (place e), l)) els) s"
  using assms by (induction els arbitrary: s) (auto split: bind_splits)

lemma gather_remapped_spec:
  assumes inv: "gem_inv S g" and res: "gem_check dst g" "gem_check src g"
    and place: "\<forall>e \<in> dom (g_ext g src). place e \<noteq> None"
  shows "\<exists>r g'. gather_remapped src dst place g = Some (r, g') \<and> gem_to S g g'"
proof (cases "map_of (gm_volumes g) src")
  case None
  then show ?thesis using inv res by (auto simp: gather_remapped_def)
next
  case (Some m)
  let ?w = "gm_interner g" and ?d = "vm_of dst g" and ?V = "within_set S"
  have ok: "ts_ok (?w, vm_extents m)" "vm_ok ?w ?d" "in_ok ?w" and src: "g_ext g src = ts_abs (?w, vm_extents m)"
    using ts_ok_vm gem_ok_vm [OF _ Some] gem_ok_vm_of inv Some by (auto simp: gem_inv_def gem_ok_def g_ext_def)
  have within: "\<forall>e l. g_ext g v e = Some l \<longrightarrow> loc_within S l" for v using inv by (simp add: gem_inv_def)
  obtain els where els: "et_iter (?w, vm_extents m) = Some els" "al_wf els" "map_of els = g_ext g src"
    using et_iter_spec [OF ok(1)] src by auto
  have el: "g_ext g src e = Some l" if "(e, l) \<in> set els" for e l using that els(2,3) al_wf_mem [of els e l] by simp
  let ?kvs = "map (\<lambda>(e, l). (the (place e), l)) els"
  have fit: "ts_fits ?V (?w, t)" for t using inv fits_within by (simp add: gem_inv_def)
  have "loc_within S l" if "(e, l) \<in> set els" for e l using el [OF that] within by blast
  then have kv: "snd ` set ?kvs \<subseteq> {l. loc_within S l}" by auto
  then have "snd ` set ?kvs \<subseteq> ?V" using loc_within_slab by blast
  then obtain s1 where "table_extend et_insert ?kvs (?w, et_new) = Some s1" "ts_ok s1" "ts_fits ?V s1" "ts_le (?w, et_new) s1"
      "ts_abs s1 = ts_abs (?w, et_new) ++ map_of (rev ?kvs)"
    using extab.extend_spec [OF ts_ok_new(1) [OF ok(3)] fit] by blast
  then obtain w1 t1 where s1: "place_all place els (?w, et_new) = Some (w1, t1)" "ts_ok (w1, t1)" "ts_fits ?V (w1, t1)" "in_le ?w w1"
      "ts_abs (w1, t1) = map_of (rev ?kvs)"
    using place_all_extend [of els place] el place by (cases s1) (fastforce simp: ts_le_def ts_ok_new(2))
  note a = add_refs_share [OF s1(2)]
  obtain ls where ls: "et_values (w1, et_add_refs 1 t1) = Some ls" using values_spec [OF a(1)] by auto
  have d: "ts_ok (w1, vm_extents ?d)" using et_ok_mono [OF s1(4)] ok(2) s1(2) by (simp add: ts_ok_def vm_ok_def)
  have dabs: "ts_abs (w1, vm_extents ?d) = g_ext g dst" using vm_ext_mono [OF s1(4) ok(2)] by (simp add: vm_ext_def g_ext_vm_of)
  have sh: "loc_within S l" if "ts_abs (w1, et_add_refs 1 t1) e = Some l" for e l
    using that kv unfolding a(2) s1(5) by (fastforce simp: share_all_def dest: map_of_SomeD)
  have "ran (ts_abs (w1, et_add_refs 1 t1)) \<subseteq> ?V" using sh loc_within_slab by (fastforce simp: ran_def)
  then obtain w2 t2 where s2: "et_extend_from (et_add_refs 1 t1) (w1, vm_extents ?d) = Some (w2, t2)" "ts_ok (w2, t2)" "in_le w1 w2"
      "ts_fits ?V (w2, t2)" "ts_abs (w2, t2) = g_ext g dst ++ ts_abs (w1, et_add_refs 1 t1)"
    using et_extend_from_spec [OF d _ _, of "et_add_refs 1 t1" ?V] a(1) s1(3) dabs by (auto simp: ts_ok_def ts_fits_def)
  let ?n = "?d\<lparr>vm_extents := t2\<rparr>"
  have "vm_fits S g w2 ?n"
    using s1(4) s2 within_fits [OF s2(4)] ok(2) sh within
    by (auto simp: vm_fits_def vm_ok_def vm_ext_def ts_ok_def map_add_Some_iff intro: in_le_trans)
  note put = put_view [OF inv this res(1)]
  let ?k = "vm_put dst ?n (g\<lparr>gm_interner := w2\<rparr>)"
  define k' where "k' = (case map_of (gm_volumes ?k) src of None \<Rightarrow> ?k
    | Some m \<Rightarrow> vm_put src (m\<lparr>vm_extents := et_add_refs 1 (vm_extents m)\<rparr>) ?k)"
  have k': "gem_inv S k' \<and> (\<forall>u. u \<noteq> src \<longrightarrow> g_ext k' u = g_ext ?k u \<and> g_par k' u = g_par ?k u)"
  proof (cases "map_of (gm_volumes ?k) src")
    case (Some m2)
    let ?m3 = "m2\<lparr>vm_extents := et_add_refs 1 (vm_extents m2)\<rparr>"
    note f = share_fits(1,2) [OF put(1) Some]
    have "vm_fits S ?k (gm_interner ?k) ?m3"
      using f(1) gem_ok_vm [OF gem_inv_ok [OF put(1)] Some] by (simp add: vm_fits_def vm_ok_def vm_ext_def share_map_def)
    note p2 = put_view_same [OF put(1) this, of src]
    have "k' = vm_put src ?m3 ?k" using Some by (simp add: k'_def)
    then show ?thesis using p2 res(2) by simp
  qed (use put(1) in \<open>simp add: k'_def\<close>)
  have kf: "gm_interner k' = w2" "gm_track k' = gm_track g" "gm_cold k' = gm_cold g" "gm_pins k' = gm_pins g"
      "gm_changes k' = gm_changes g" "\<And>u. has_changes u k' = has_changes u g"
    by (simp_all add: k'_def split: option.split)
  let ?h = "touch_whole dst (touch_whole src k')"
  have run: "vm_parity m \<noteq> [] \<Longrightarrow> gather_remapped src dst place g = Some (None, g)"
      "vm_parity m = [] \<Longrightarrow> gather_remapped src dst place g = Some (Some (concat (map legs ls)), ?h)"
    using res Some els(1) s1(1) ls s2(1) by (simp_all add: gather_remapped_def Let_def k'_def)
  have "gem_to S g ?h"
  proof (rule whole_step [OF inv, of _ "{src, dst}"])
    show "gem_inv S ?h" using k' by simp
    show "changes_le (gm_changes g) (gm_changes ?h)" using changes_le_two [of k' dst src] kf by simp
    show "{src, dst} \<subseteq> ch_whole (gm_changes ?h)" if "gm_track g" using that kf by (simp add: touch_whole_def)
    show "g_ext ?h u = g_ext g u \<and> g_par ?h u = g_par g u" if "u \<notin> {src, dst}" for u
      using that k' put(2,3) by simp
  qed (use res s1(4) s2(3) kf in \<open>auto simp: has_changes_touch intro: in_le_trans\<close>)
  then show ?thesis using run inv by (cases "vm_parity m = []") auto
qed

section \<open>Unmapping zeroed slots\<close>

lemma unmap_collect_some:
  assumes "in_ok w" "\<forall>(v, m) \<in> set vms. vm_ok w m"
  shows "\<exists>kh'. unmap_collect ls w vms kh = Some kh'"
  using assms(2)
proof (induction vms arbitrary: kh)
  case (Cons x vms)
  obtain v m where x: "x = (v, m)" by (cases x)
  have "ts_ok (w, vm_extents m)" using Cons.prems x assms(1) by (simp add: ts_ok_def vm_ok_def)
  then obtain els where "et_iter (w, vm_extents m) = Some els" using et_iter_spec by blast
  then have "\<exists>kh1. unmap_volume ls w x kh = Some kh1" by (simp add: unmap_volume_def x Let_def)
  then show ?case using Cons by fastforce
qed simp

lemma unmap_hits_spec:
  assumes "gem_inv S g" "gem_check_all g"
  shows "\<exists>r g'. unmap_hits keep hits a g = Some (r, g') \<and> gem_to S g g'"
  using assms
proof (induction hits arbitrary: a g)
  case (Cons x hits)
  obtain v e l where x: "x = (v, e, l)" by (cases x)
  show ?case
  proof (cases "l \<in> keep")
    case True
    then show ?thesis using Cons x by simp
  next
    case False
    have "gem_check v g" using Cons.prems(2) by (simp add: gem_check_def gem_check_all_def is_cold_def)
    then obtain g1 where g1: "gem_remove v e g = Some (g_ext g v e, g1)" "gem_to S g g1"
      using gem_remove_spec [OF Cons.prems(1)] by blast
    then have "gem_inv S g1" "gem_check_all g1" using Cons.prems(2) by (auto simp: gem_to_def gem_eff_def gem_check_all_def)
    then obtain r g2 where "unmap_hits keep hits (insert l a) g1 = Some (r, g2)" "gem_to S g1 g2" using Cons.IH by blast
    then show ?thesis using g1 False gem_to_trans x by fastforce
  qed
qed simp

lemma unmap_legs_spec:
  assumes "gem_inv S g" "gem_check_all g"
  shows "\<exists>r g'. unmap_legs_everywhere ls g = Some (r, g') \<and> gem_to S g g'"
proof -
  have "in_ok (gm_interner g)" "\<forall>(v, m) \<in> set (gm_volumes g). vm_ok (gm_interner g) m"
    using assms(1) by (auto simp: gem_inv_def gem_ok_def)
  then obtain keep hits where "unmap_collect ls (gm_interner g) (gm_volumes g) ({}, []) = Some (keep, hits)"
    using unmap_collect_some by (metis surj_pair)
  then show ?thesis using unmap_hits_spec [OF assms] assms by (auto simp: unmap_legs_everywhere_def)
qed

end
