(* ===== verification/GemSync.thy ===== *)
theory GemSync
  imports GemWhole
begin

text \<open>
  The global extent map beside the store that persists it: the operations as one alphabet, the
  steps of the running system (operations, persists, evictions, loads, adopted volumes), and
  the proof that what is recorded as changed is all that a persist has to write.
\<close>

section \<open>Operations\<close>

datatype gem_op =
    GInsert uuid u64 ExtentLocation | GInsertParity uuid u64 ParityGroup
  | GRemove uuid u64 | GRemoveParity uuid u64
  | GIncExtent uuid u64 | GSetExtent uuid u64 u32 | GIncParity uuid u64 | GSetParity uuid u64 u32
  | GSetOwner uuid u64 Leg u32
  | GReplaceLeg uuid u64 Leg Leg | GAddLeg uuid u64 Leg | GDropLeg uuid u64 Leg | GReplaceParityLeg uuid u64 Leg Leg
  | GRewrite "(Leg \<times> Leg) list" | GAddBeside Leg Leg | GDropEverywhere Leg | GUnmap "Leg set"
  | GRename uuid uuid | GRemoveVolume uuid | GClone uuid uuid
  | GGather uuid uuid u64 | GGatherRemapped uuid uuid "u64 \<rightharpoonup> u64"

fun gem_run :: "gem_op \<Rightarrow> Gem \<Rightarrow> Gem option" where
  "gem_run (GInsert v e l) g = gem_insert v e l g"
| "gem_run (GInsertParity v s p) g = gem_insert_parity v s p g"
| "gem_run (GRemove v e) g = map_option snd (gem_remove v e g)"
| "gem_run (GRemoveParity v s) g = map_option snd (gem_remove_parity v s g)"
| "gem_run (GIncExtent v e) g = inc_extent_ref v e g"
| "gem_run (GSetExtent v e n) g = set_extent_ref v e n g"
| "gem_run (GIncParity v s) g = inc_parity_ref v s g"
| "gem_run (GSetParity v s n) g = set_parity_ref v s n g"
| "gem_run (GSetOwner v t l n) g = set_owner_ref v t l n g"
| "gem_run (GReplaceLeg v e a b) g = map_option snd (replace_leg v e a b g)"
| "gem_run (GAddLeg v e l) g = map_option snd (add_leg v e l g)"
| "gem_run (GDropLeg v e l) g = map_option snd (drop_leg v e l g)"
| "gem_run (GReplaceParityLeg v s a b) g = map_option snd (replace_parity_leg v s a b g)"
| "gem_run (GRewrite moves) g = map_option snd (rewrite_legs moves g)"
| "gem_run (GAddBeside a b) g = map_option snd (add_leg_beside a b g)"
| "gem_run (GDropEverywhere l) g = map_option snd (drop_leg_everywhere l g)"
| "gem_run (GUnmap ls) g = map_option snd (unmap_legs_everywhere ls g)"
| "gem_run (GRename a b) g = map_option snd (rename_volume a b g)"
| "gem_run (GRemoveVolume v) g = map_option snd (remove_volume v g)"
| "gem_run (GClone a b) g = map_option snd (clone_volume_map a b g)"
| "gem_run (GGather a b base) g = map_option snd (gather_into a b base g)"
| "gem_run (GGatherRemapped a b place) g = map_option snd (gather_remapped a b place g)"

text \<open>What a caller has to see to: the maps it asks for are in memory, the slabs it names are among
  the process's, no extent moves past the last index, every extent it remaps has a place.\<close>

fun op_ready :: "uuid set \<Rightarrow> gem_op \<Rightarrow> Gem \<Rightarrow> bool" where
  "op_ready S (GInsert v e l) g \<longleftrightarrow> gem_check v g \<and> loc_within S l"
| "op_ready S (GInsertParity v s p) g \<longleftrightarrow> gem_check v g"
| "op_ready S (GRemove v e) g \<longleftrightarrow> gem_check v g"
| "op_ready S (GRemoveParity v s) g \<longleftrightarrow> gem_check v g"
| "op_ready S (GIncExtent v e) g \<longleftrightarrow> gem_check v g"
| "op_ready S (GSetExtent v e n) g \<longleftrightarrow> gem_check v g"
| "op_ready S (GIncParity v s) g \<longleftrightarrow> gem_check v g"
| "op_ready S (GSetParity v s n) g \<longleftrightarrow> gem_check v g"
| "op_ready S (GSetOwner v t l n) g \<longleftrightarrow> True"
| "op_ready S (GReplaceLeg v e a b) g \<longleftrightarrow> gem_check v g \<and> lg_slab b \<in> S"
| "op_ready S (GAddLeg v e l) g \<longleftrightarrow> gem_check v g \<and> lg_slab l \<in> S"
| "op_ready S (GDropLeg v e l) g \<longleftrightarrow> gem_check v g"
| "op_ready S (GReplaceParityLeg v s a b) g \<longleftrightarrow> gem_check v g"
| "op_ready S (GRewrite moves) g \<longleftrightarrow> gem_check_all g \<and> (\<forall>(a, b) \<in> set moves. lg_slab b \<in> S)"
| "op_ready S (GAddBeside a b) g \<longleftrightarrow> gem_check_all g \<and> lg_slab b \<in> S"
| "op_ready S (GDropEverywhere l) g \<longleftrightarrow> gem_check_all g"
| "op_ready S (GUnmap ls) g \<longleftrightarrow> gem_check_all g"
| "op_ready S (GRename a b) g \<longleftrightarrow> gem_check a g \<and> gem_check b g"
| "op_ready S (GRemoveVolume v) g \<longleftrightarrow> gem_check v g"
| "op_ready S (GClone a b) g \<longleftrightarrow> gem_check a g \<and> gem_check b g"
| "op_ready S (GGather a b base) g \<longleftrightarrow> gem_check a g \<and> gem_check b g \<and>
     (\<forall>e \<in> dom (g_ext g a). unat e + unat base < 2 ^ 64)"
| "op_ready S (GGatherRemapped a b place) g \<longleftrightarrow> gem_check a g \<and> gem_check b g \<and>
     (\<forall>e \<in> dom (g_ext g a). place e \<noteq> None)"

lemma update_extent_step:
  assumes "gem_inv S g" "gem_check v g" "\<And>l. loc_within S l \<Longrightarrow> loc_within S (snd (f l))"
    "\<And>l. \<not> fst (f l) \<Longrightarrow> snd (f l) = l"
  shows "\<exists>g'. map_option snd (update_extent v e f g) = Some g' \<and> gem_to S g g'"
  using update_extent_spec [OF assms(1,2), of e f] assms(1,3,4) by (fastforce simp: gem_inv_def)

lemma update_parity_step:
  assumes "gem_inv S g" "gem_check v g" "\<And>p. \<not> fst (f p) \<Longrightarrow> snd (f p) = p"
  shows "\<exists>g'. map_option snd (update_parity v s f g) = Some g' \<and> gem_to S g g'"
  using update_parity_spec [OF assms] by fastforce

lemma sweep_locations_step:
  assumes "gem_inv S g" "gem_check_all g" "\<And>l. loc_within S l \<Longrightarrow> loc_within S (snd (f l))"
    "\<And>l. \<not> fst (f l) \<Longrightarrow> snd (f l) = l"
  shows "\<exists>g'. map_option snd (sweep_locations f g) = Some g' \<and> gem_to S g g'"
  using sweep_locations_spec [OF assms] by fastforce

lemma set_owner_step:
  assumes "gem_inv S g"
  shows "\<exists>g'. set_owner_ref v t l n g = Some g' \<and> gem_to S g g'"
proof (cases "is_cold v g")
  case True
  then show ?thesis using assms by (simp add: set_owner_ref_def)
next
  case False
  then have c: "gem_check v g" by (simp add: gem_check_def)
  show ?thesis
  proof (cases "parse_parity_vext t")
    case None
    have "\<exists>g'. map_option snd (update_extent v t (\<lambda>x. if l \<in> set (legs x) then (True, x\<lparr>el_refs := n\<rparr>) else (False, x)) g)
        = Some g' \<and> gem_to S g g'"
      by (rule update_extent_step [OF assms c]) (auto split: if_splits)
    then show ?thesis using False None by (simp add: set_owner_ref_def)
  next
    case (Some ls)
    have "\<exists>g'. map_option snd (update_parity v (snd ls) (\<lambda>p. if l \<in> set (pg_legs p) then (True, p\<lparr>pg_refs := n\<rparr>) else (False, p)) g)
        = Some g' \<and> gem_to S g g'"
      by (rule update_parity_step [OF assms c]) (auto split: if_splits)
    then show ?thesis using False Some by (cases ls) (simp add: set_owner_ref_def)
  qed
qed

lemma gem_run_ready:
  assumes "gem_inv S g" "op_ready S op g"
  shows "\<exists>g'. gem_run op g = Some g' \<and> gem_to S g g'"
proof (cases op)
  case (GInsert v e l)
  then show ?thesis using gem_insert_spec [OF assms(1), of v l e] assms(2) by auto
next
  case (GInsertParity v s p)
  then show ?thesis using gem_insert_parity_spec [OF assms(1), of v s p] assms(2) by auto
next
  case (GRemove v e)
  then show ?thesis using gem_remove_spec [OF assms(1), of v e] assms(2) by auto
next
  case (GRemoveParity v s)
  then show ?thesis using gem_remove_parity_spec [OF assms(1), of v s] assms(2) by auto
next
  case (GIncExtent v e)
  then show ?thesis using update_extent_step [OF assms(1), of v "\<lambda>l. (True, l\<lparr>el_refs := el_refs l + 1\<rparr>)" e] assms(2)
    by (simp add: inc_extent_ref_def)
next
  case (GSetExtent v e n)
  then show ?thesis using update_extent_step [OF assms(1), of v "\<lambda>l. (True, l\<lparr>el_refs := n\<rparr>)" e] assms(2)
    by (simp add: set_extent_ref_def)
next
  case (GIncParity v s)
  then show ?thesis using update_parity_step [OF assms(1), of v "\<lambda>p. (True, p\<lparr>pg_refs := pg_refs p + 1\<rparr>)" s] assms(2)
    by (simp add: inc_parity_ref_def)
next
  case (GSetParity v s n)
  then show ?thesis using update_parity_step [OF assms(1), of v "\<lambda>p. (True, p\<lparr>pg_refs := n\<rparr>)" s] assms(2)
    by (simp add: set_parity_ref_def)
next
  case (GSetOwner v t l n)
  then show ?thesis using set_owner_step [OF assms(1), of v t l n] by simp
next
  case (GReplaceLeg v e a b)
  then show ?thesis using update_extent_step [OF assms(1), of v "replace_in a b" e] assms(2) replace_in_within in_place_same(1)
    by (simp add: replace_leg_def)
next
  case (GAddLeg v e l)
  then show ?thesis using update_extent_step [OF assms(1), of v "add_in l" e] assms(2) add_in_within [of S _ l]
    by (simp add: add_leg_def) (simp add: add_in_def)
next
  case (GDropLeg v e l)
  then show ?thesis using update_extent_step [OF assms(1), of v "drop_in l" e] assms(2) drop_in_within in_place_same(2)
    by (simp add: drop_leg_def)
next
  case (GReplaceParityLeg v s a b)
  then show ?thesis using assms unfolding gem_run.simps replace_parity_leg_def GReplaceParityLeg
    by (intro update_parity_step) (auto split: option.splits)
next
  case (GRewrite moves)
  then show ?thesis using rewrite_legs_spec [OF assms(1), of moves] assms(2) by fastforce
next
  case (GAddBeside a b)
  then show ?thesis using sweep_locations_step [OF assms(1), of "beside_in a b"] assms(2) beside_in_within in_place_same(3)
    by (simp add: add_leg_beside_def)
next
  case (GDropEverywhere l)
  then show ?thesis using sweep_locations_step [OF assms(1), of "drop_in l"] assms(2) drop_in_within in_place_same(2)
    by (simp add: drop_leg_everywhere_def)
next
  case (GUnmap ls)
  then show ?thesis using unmap_legs_spec [OF assms(1), of ls] assms(2) by auto
next
  case (GRename a b)
  then show ?thesis using rename_volume_spec [OF assms(1), of b a] assms
    by (cases "map_of (gm_volumes g) a") (auto simp: rename_volume_def)
next
  case (GRemoveVolume v)
  then show ?thesis using remove_volume_spec [OF assms(1), of v] assms(2) by auto
next
  case (GClone a b)
  then show ?thesis using clone_volume_map_spec [OF assms(1), of b a] assms
    by (cases "map_of (gm_volumes g) a") (auto simp: clone_volume_map_def)
next
  case (GGather a b base)
  then show ?thesis using gather_into_spec [OF assms(1), of b a _ base] assms
    by (cases "map_of (gm_volumes g) a") (fastforce simp: gather_into_def)+
next
  case (GGatherRemapped a b place)
  then show ?thesis using gather_remapped_spec [OF assms(1), of b a place] assms(2) by auto
qed

section \<open>The store\<close>

text \<open>What the metadata store holds of every volume.\<close>

record store =
  st_ext :: "uuid \<Rightarrow> u64 \<rightharpoonup> ExtentLocation"
  st_par :: "uuid \<Rightarrow> u64 \<rightharpoonup> ParityGroup"

text \<open>A persist takes the changes and writes the volumes, extents and stripes they name as they are now.\<close>

definition persist :: "Gem \<times> store \<Rightarrow> Gem \<times> store" where
  "persist gs = (case gs of (g, st) \<Rightarrow> case take_changes g of (c, g') \<Rightarrow>
     (g', \<lparr>st_ext = (\<lambda>v e. if v \<in> ch_whole c \<or> e \<in> changed_extents c v then g_ext g v e else st_ext st v e),
           st_par = (\<lambda>v s. if v \<in> ch_whole c \<or> s \<in> changed_stripes c v then g_par g v s else st_par st v s)\<rparr>))"

text \<open>A map that was read from the store: decoded with the slab ordinals \<open>w\<close> that reading it left.\<close>

definition loaded :: "uuid set \<Rightarrow> Gem \<times> store \<Rightarrow> uuid \<Rightarrow> interner \<Rightarrow> VolumeExtentMap \<Rightarrow> bool" where
  "loaded S gs v w m \<longleftrightarrow> vm_fits S (fst gs) w m \<and> vm_ext w m = st_ext (snd gs) v \<and> map_of (vm_parity m) = st_par (snd gs) v"

text \<open>
  The steps of the system. A load installs what the store holds, unless that is parity groups and
  no extents; adopted volumes come with maps rebuilt from their slabs.
\<close>

inductive sync_step :: "uuid set \<Rightarrow> Gem \<times> store \<Rightarrow> Gem \<times> store \<Rightarrow> bool" for S where
  operate: "op_ready S op g \<Longrightarrow> gem_run op g = Some g' \<Longrightarrow> sync_step S (g, st) (g', st)"
| persist: "sync_step S gs (persist gs)"
| evict: "evict v g = Some (True, g') \<Longrightarrow> sync_step S (g, st) (g', st)"
| load: "loaded S (g, st) v w m \<Longrightarrow> \<not> vm_is_empty m \<or> vm_parity m = [] \<Longrightarrow>
    ensure_resident (Some (\<lambda>_. Inr m)) (no_pager :: string) v (g\<lparr>gm_interner := w\<rparr>) = (Inr (), g') \<Longrightarrow> is_cold v g \<Longrightarrow>
    sync_step S (g, st) (g', st)"
| adopt: "map_of other v = Some m \<Longrightarrow> vm_fits S g w m \<Longrightarrow>
    sync_step S (g, st) (absorb other [v] (g\<lparr>gm_interner := w\<rparr>), st)"
| pin: "sync_step S (g, st) (gem_pin g, st)"
| unpin: "sync_step S (g, st) (gem_unpin g, st)"

text \<open>The contents of a volume's map: in memory, or the store's when it is not.\<close>

definition content_ext :: "Gem \<times> store \<Rightarrow> uuid \<Rightarrow> u64 \<rightharpoonup> ExtentLocation" where
  "content_ext gs v = (if is_cold v (fst gs) then st_ext (snd gs) v else g_ext (fst gs) v)"

definition content_par :: "Gem \<times> store \<Rightarrow> uuid \<Rightarrow> u64 \<rightharpoonup> ParityGroup" where
  "content_par gs v = (if is_cold v (fst gs) then st_par (snd gs) v else g_par (fst gs) v)"

definition sync_inv :: "uuid set \<Rightarrow> Gem \<times> store \<Rightarrow> bool" where
  "sync_inv S gs \<longleftrightarrow> (case gs of (g, st) \<Rightarrow> gem_inv S g \<and> gm_track g \<and> (\<forall>v. is_cold v g \<longrightarrow> \<not> has_changes v g) \<and>
     (\<forall>v. is_cold v g \<or> v \<in> ch_whole (gm_changes g) \<or>
        (\<forall>e. e \<in> changed_extents (gm_changes g) v \<or> g_ext g v e = st_ext st v e) \<and>
        (\<forall>s. s \<in> changed_stripes (gm_changes g) v \<or> g_par g v s = st_par st v s)))"

text \<open>A start: changes are recorded, there are none, and the maps in memory are the store's.\<close>

definition sync_start :: "uuid set \<Rightarrow> Gem \<times> store \<Rightarrow> bool" where
  "sync_start S gs \<longleftrightarrow> (case gs of (g, st) \<Rightarrow> gem_inv S g \<and> gm_track g \<and> gm_changes g = changes_new \<and>
     (\<forall>v. \<not> is_cold v g \<longrightarrow> g_ext g v = st_ext st v \<and> g_par g v = st_par st v))"

lemma no_changes [simp]:
  "changed_extents changes_new v = {}" "changed_stripes changes_new v = {}" "ch_whole changes_new = {}"
  by (simp_all add: changed_extents_def changed_stripes_def changes_new_def)

lemma has_no_changes: "\<not> has_changes v g \<Longrightarrow> v \<notin> ch_whole (gm_changes g) \<and> changed_extents (gm_changes g) v = {} \<and>
    changed_stripes (gm_changes g) v = {}"
  by (simp add: has_changes_def changed_extents_def changed_stripes_def)

lemma sync_start_inv: "sync_start S gs \<Longrightarrow> sync_inv S gs"
  by (auto simp: sync_start_def sync_inv_def has_changes_def) (simp_all add: changes_new_def)

lemma sync_operate:
  assumes "sync_inv S (g, st)" "gem_to S g g'"
  shows "sync_inv S (g', st)"
proof -
  have eff: "gem_inv S g'" "gm_track g'" "covered (gm_changes g') g g'" "changes_le (gm_changes g) (gm_changes g')"
      "\<And>v. is_cold v g' \<longleftrightarrow> is_cold v g" "\<And>v. is_cold v g \<Longrightarrow> \<not> has_changes v g'"
    using assms is_cold_eff by (auto simp: sync_inv_def gem_to_def gem_eff_def)
  have "is_cold v g' \<or> v \<in> ch_whole (gm_changes g') \<or>
      (\<forall>e. e \<in> changed_extents (gm_changes g') v \<or> g_ext g' v e = st_ext st v e) \<and>
      (\<forall>s. s \<in> changed_stripes (gm_changes g') v \<or> g_par g' v s = st_par st v s)" for v
  proof (cases "is_cold v g \<or> v \<in> ch_whole (gm_changes g')")
    case True
    then show ?thesis using eff(5) by blast
  next
    case False
    then have "\<forall>e. e \<in> changed_extents (gm_changes g) v \<or> g_ext g v e = st_ext st v e"
        "\<forall>s. s \<in> changed_stripes (gm_changes g) v \<or> g_par g v s = st_par st v s"
      using assms(1) eff(4) by (auto simp: sync_inv_def changes_le_def)
    moreover have "\<forall>e. e \<in> changed_extents (gm_changes g') v \<or> g_ext g v e = g_ext g' v e"
        "\<forall>s. s \<in> changed_stripes (gm_changes g') v \<or> g_par g v s = g_par g' v s"
      using eff(3) False by (auto simp: covered_def)
    ultimately show ?thesis using eff(4) unfolding changes_le_def by (metis subsetD)
  qed
  then show ?thesis using eff by (simp add: sync_inv_def)
qed

lemma persist_exact:
  assumes "sync_inv S gs"
  shows "st_ext (snd (persist gs)) v = content_ext gs v" "st_par (snd (persist gs)) v = content_par gs v"
proof -
  obtain g st where gs: "gs = (g, st)" by (cases gs)
  have cold: "v \<notin> ch_whole (gm_changes g) \<and> changed_extents (gm_changes g) v = {} \<and> changed_stripes (gm_changes g) v = {}"
    if "is_cold v g" using assms that has_no_changes by (simp add: gs sync_inv_def)
  have warm: "v \<in> ch_whole (gm_changes g) \<or> (\<forall>e. e \<in> changed_extents (gm_changes g) v \<or> g_ext g v e = st_ext st v e) \<and>
      (\<forall>s. s \<in> changed_stripes (gm_changes g) v \<or> g_par g v s = st_par st v s)" if "\<not> is_cold v g"
    using assms that by (auto simp: gs sync_inv_def)
  show "st_ext (snd (persist gs)) v = content_ext gs v" "st_par (snd (persist gs)) v = content_par gs v"
    using cold warm by (cases "is_cold v g"; auto simp: gs persist_def take_changes_def content_ext_def content_par_def fun_eq_iff)+
qed

text \<open>States that agree on the maps agree on what they stand for.\<close>

lemma view_cong:
  assumes "gm_volumes h = gm_volumes g" "gm_interner h = gm_interner g" "gm_cold h = gm_cold g"
  shows "g_ext h = g_ext g" "g_par h = g_par g" "gem_inv S h = gem_inv S g" "is_cold v h = is_cold v g"
proof -
  show e: "g_ext h = g_ext g" "g_par h = g_par g"
    using assms by (auto simp: g_ext_def g_par_def fun_eq_iff split: option.split)
  show "gem_inv S h = gem_inv S g" using assms e by (simp add: gem_inv_def gem_ok_def is_cold_def)
  show "is_cold v h = is_cold v g" using assms by (simp add: is_cold_def)
qed

lemma sync_persist:
  assumes "sync_inv S gs"
  shows "sync_inv S (persist gs)"
proof -
  obtain g st where gs: "gs = (g, st)" by (cases gs)
  let ?h = "g\<lparr>gm_changes := changes_new\<rparr>"
  note v = view_cong [of ?h g]
  obtain st' where st': "persist gs = (?h, st')" by (simp add: gs persist_def take_changes_def)
  have none: "\<not> has_changes v ?h" for v by (simp add: has_changes_def) (simp add: changes_new_def)
  have agree: "is_cold v ?h \<or> g_ext ?h v = st_ext st' v \<and> g_par ?h v = st_par st' v" for v
    using persist_exact [OF assms, of v] v by (simp add: gs st' [unfolded gs] content_ext_def content_par_def)
  have inv: "gem_inv S ?h" "gm_track ?h" using assms v by (simp_all add: gs sync_inv_def)
  show ?thesis using none agree inv unfolding st' sync_inv_def by simp metis
qed

lemma sync_evict:
  assumes "sync_inv S (g, st)" "evict v g = Some (True, g')"
  shows "sync_inv S (g', st)" "content_ext (g', st) = content_ext (g, st)" "content_par (g', st) = content_par (g, st)"
proof -
  obtain m cm where m: "map_of (gm_volumes g) v = Some m" "\<not> has_changes v g" "\<not> is_cold v g"
      "g' = g\<lparr>gm_volumes := al_del v (gm_volumes g), gm_cold := al_put v cm (gm_cold g)\<rparr>"
    using assms(2) by (auto simp: evict_def bind_eq_Some_conv Let_def split: if_splits option.splits)
  have cold: "is_cold u g' \<longleftrightarrow> u = v \<or> is_cold u g" for u by (auto simp: m(4) is_cold_def)
  have ext: "g_ext g' = (g_ext g)(v := Map.empty)" "g_par g' = (g_par g)(v := Map.empty)"
    by (auto simp: m(4) g_ext_def g_par_def fun_eq_iff split: option.split)
  have ch: "has_changes u g' \<longleftrightarrow> has_changes u g" "gm_changes g' = gm_changes g" for u by (simp_all add: m(4) has_changes_def)
  have "gem_ok g'"
    using assms(1) by (auto simp: sync_inv_def gem_inv_def gem_ok_def m(4) set_al_del is_cold_def)
  moreover have "in_fits S (gm_interner g')" "\<forall>u e l. g_ext g' u e = Some l \<longrightarrow> loc_within S l"
    using assms(1) unfolding ext by (auto simp: sync_inv_def gem_inv_def m(4))
  ultimately have "gem_inv S g'" by (simp add: gem_inv_def)
  moreover have "gm_track g'" using assms(1) by (simp add: sync_inv_def m(4))
  ultimately show "sync_inv S (g', st)"
    using assms(1) m(2) by (auto simp: sync_inv_def cold ext ch)
  have "g_ext g v = st_ext st v" "g_par g v = st_par st v"
    using assms(1) m(3) has_no_changes [OF m(2)] by (auto simp: sync_inv_def fun_eq_iff)
  then show "content_ext (g', st) = content_ext (g, st)" "content_par (g', st) = content_par (g, st)"
    using cold ext m(3) by (auto simp: content_ext_def content_par_def fun_eq_iff)
qed

lemma sync_load:
  assumes "sync_inv S (g, st)" "loaded S (g, st) v w m" "\<not> vm_is_empty m \<or> vm_parity m = []" "is_cold v g"
    and "ensure_resident (Some (\<lambda>_. Inr m)) no_pager v (g\<lparr>gm_interner := w\<rparr>) = (Inr (), g')"
  shows "sync_inv S (g', st)" "content_ext (g', st) = content_ext (g, st)" "content_par (g', st) = content_par (g, st)"
proof -
  have inv: "gem_inv S g" using assms(1) by (simp add: sync_inv_def)
  have fit: "vm_fits S g w m" and st: "vm_ext w m = st_ext st v" "map_of (vm_parity m) = st_par st v"
    using assms(2) by (auto simp: loaded_def)
  let ?k = "g\<lparr>gm_cold := al_del v (gm_cold g), gm_interner := w\<rparr>"
  have swap: "g\<lparr>gm_interner := w, gm_cold := c\<rparr> = g\<lparr>gm_cold := c, gm_interner := w\<rparr>" for c by simp
  have "is_cold v (g\<lparr>gm_interner := w\<rparr>)" using assms(4) by (simp add: is_cold_def)
  then have g': "g' = (if vm_is_empty m then ?k else vm_put v m ?k)"
    using assms(5) by (auto simp: ensure_resident_def install_def vm_put_def Let_def swap split: if_splits)
  have none: "map_of (gm_volumes g) v = None"
    using inv assms(4) by (auto simp: gem_inv_def gem_ok_def map_of_eq_None_iff)
  have k0: "gem_inv S (g\<lparr>gm_cold := al_del v (gm_cold g)\<rparr>)" "gem_check v (g\<lparr>gm_cold := al_del v (gm_cold g)\<rparr>)"
      "g_ext (g\<lparr>gm_cold := al_del v (gm_cold g)\<rparr>) = g_ext g" "g_par (g\<lparr>gm_cold := al_del v (gm_cold g)\<rparr>) = g_par g"
  proof -
    show e: "g_ext (g\<lparr>gm_cold := al_del v (gm_cold g)\<rparr>) = g_ext g" "g_par (g\<lparr>gm_cold := al_del v (gm_cold g)\<rparr>) = g_par g"
      by (auto simp: g_ext_def g_par_def fun_eq_iff split: option.split)
    show "gem_inv S (g\<lparr>gm_cold := al_del v (gm_cold g)\<rparr>)"
      using inv e by (auto simp: gem_inv_def gem_ok_def is_cold_def)
    show "gem_check v (g\<lparr>gm_cold := al_del v (gm_cold g)\<rparr>)" by (simp add: gem_check_def is_cold_def)
  qed
  have fit0: "vm_fits S (g\<lparr>gm_cold := al_del v (gm_cold g)\<rparr>) w m" using fit by (simp add: vm_fits_def)
  note put = put_view [OF k0(1) fit0 k0(2)]
  have "gem_inv S ?k \<and> g_ext ?k = g_ext g \<and> g_par ?k = g_par g"
  proof -
    have "ts_abs (w, vm_extents m') = ts_abs (gm_interner g, vm_extents m')" if "map_of (gm_volumes g) u = Some m'" for u m'
      using ts_abs_mono [of "gm_interner g" w] gem_ok_vm [OF gem_inv_ok [OF inv] that] fit by (auto simp: vm_ok_def vm_fits_def)
    then have e: "g_ext ?k = g_ext g" by (auto simp: g_ext_def fun_eq_iff split: option.split)
    have "gem_ok ?k" using inv fit vm_ok_mono [of "gm_interner g" w]
      by (auto simp: gem_inv_def gem_ok_def vm_fits_def is_cold_def)
    then show ?thesis using inv fit e by (auto simp: gem_inv_def vm_fits_def g_par_def fun_eq_iff split: option.split)
  qed
  note k = this
  have e0: "g_ext g v = Map.empty" "g_par g v = Map.empty" using none by (simp_all add: g_ext_def g_par_def)
  have view: "gem_inv S g'" "g_ext g' = (g_ext g)(v := st_ext st v)" "g_par g' = (g_par g)(v := st_par st v)"
  proof -
    have "g_ext g v = st_ext st v \<and> g_par g v = st_par st v" if "vm_is_empty m"
    proof -
      have "ts_ok (w, vm_extents m)" using fit by (simp add: ts_ok_def vm_fits_def vm_ok_def)
      then have "vm_ext w m = Map.empty" using that et_is_empty_abs by (simp add: vm_is_empty_def vm_ext_def)
      then show ?thesis using that assms(3) st e0 by auto
    qed
    then show "gem_inv S g'" "g_ext g' = (g_ext g)(v := st_ext st v)" "g_par g' = (g_par g)(v := st_par st v)"
      using put k k0(3,4) st by (auto simp: g' fun_upd_idem)
  qed
  have cold: "is_cold u g' \<longleftrightarrow> u \<noteq> v \<and> is_cold u g" for u by (auto simp: g' is_cold_def)
  have ch: "has_changes u g' \<longleftrightarrow> has_changes u g" "gm_changes g' = gm_changes g" "gm_track g' = gm_track g" for u
    by (simp_all add: g' has_changes_def)
  show "sync_inv S (g', st)" using assms(1,4) view cold ch by (auto simp: sync_inv_def)
  show "content_ext (g', st) = content_ext (g, st)" "content_par (g', st) = content_par (g, st)"
    using cold view assms(4) by (auto simp: content_ext_def content_par_def fun_eq_iff)
qed

lemma sync_adopt:
  assumes "sync_inv S (g, st)" "map_of other v = Some m" "vm_fits S g w m"
  shows "sync_inv S (absorb other [v] (g\<lparr>gm_interner := w\<rparr>), st)"
proof -
  let ?k = "g\<lparr>gm_cold := al_del v (gm_cold g)\<rparr>"
  let ?h = "touch_whole v (vm_put v m (?k\<lparr>gm_interner := w\<rparr>))"
  have e: "g_ext ?k = g_ext g" "g_par ?k = g_par g"
    by (auto simp: g_ext_def g_par_def fun_eq_iff split: option.split)
  have k: "gem_inv S ?k" "gem_check v ?k" "vm_fits S ?k w m"
    using assms e by (auto simp: sync_inv_def gem_inv_def gem_ok_def is_cold_def gem_check_def vm_fits_def)
  note put = put_view [OF k(1,3,2)]
  have swap: "g\<lparr>gm_interner := w, gm_cold := c\<rparr> = g\<lparr>gm_cold := c, gm_interner := w\<rparr>" for c by simp
  have run: "absorb other [v] (g\<lparr>gm_interner := w\<rparr>) = ?h" using assms(2) by (simp add: absorb_def absorb_one_def swap)
  have cold: "is_cold u ?h \<longleftrightarrow> u \<noteq> v \<and> is_cold u g" for u by (auto simp: is_cold_def)
  have ch: "has_changes u ?h \<longleftrightarrow> has_changes u g \<or> u = v" for u
  proof -
    have "has_changes u (vm_put v m (?k\<lparr>gm_interner := w\<rparr>)) = has_changes u g" by (simp add: has_changes_def)
    then show ?thesis using assms(1) by (auto simp: has_changes_touch sync_inv_def)
  qed
  have c: "ch_whole (gm_changes ?h) = insert v (ch_whole (gm_changes g))"
      "changed_extents (gm_changes ?h) = changed_extents (gm_changes g)" "changed_stripes (gm_changes ?h) = changed_stripes (gm_changes g)"
    using assms(1) by (auto simp: touch_whole_def sync_inv_def)
  show ?thesis unfolding run using assms(1) put e cold ch c by (auto simp: sync_inv_def)
qed

lemma sync_step_inv:
  assumes "sync_step S gs gs'" "sync_inv S gs"
  shows "sync_inv S gs'"
  using assms
proof (cases rule: sync_step.cases)
  case (operate op g g' st)
  have "gem_inv S g" using assms(2) operate by (simp add: sync_inv_def)
  then have "gem_to S g g'" using gem_run_ready [of S g op] operate by auto
  then show ?thesis using sync_operate assms(2) operate by simp
next
  case persist
  then show ?thesis using sync_persist assms(2) by simp
next
  case (evict v g g' st)
  then show ?thesis using sync_evict(1) assms(2) by simp
next
  case (load g st v w m no_pager g')
  then show ?thesis using sync_load(1) assms(2) by simp
next
  case (adopt other v m g w st)
  then show ?thesis using sync_adopt assms(2) by simp
next
  case (pin g st)
  then show ?thesis using assms(2) view_cong [of "gem_pin g" g] by (simp add: sync_inv_def gem_pin_def has_changes_def)
next
  case (unpin g st)
  then show ?thesis using assms(2) view_cong [of "gem_unpin g" g] by (simp add: sync_inv_def gem_unpin_def has_changes_def)
qed

lemma sync_reachable: "(sync_step S)\<^sup>*\<^sup>* gs gs' \<Longrightarrow> sync_inv S gs \<Longrightarrow> sync_inv S gs'"
  by (induction rule: rtranclp_induct) (auto intro: sync_step_inv)


text \<open>An extent map with nothing in it, and a store to match.\<close>

definition fresh_gem :: Gem where
  "fresh_gem = track_changes True (gem_new interner_new)"

definition empty_store :: store where
  "empty_store = \<lparr>st_ext = (\<lambda>_. Map.empty), st_par = (\<lambda>_. Map.empty)\<rparr>"

lemma fresh_view:
  "g_ext fresh_gem v = Map.empty" "g_par fresh_gem v = Map.empty" "\<not> is_cold v fresh_gem" "gem_check v fresh_gem"
  "gm_track fresh_gem" "gm_changes fresh_gem = changes_new" "gm_cold fresh_gem = []" "gm_volumes fresh_gem = []"
  by (simp_all add: fresh_gem_def track_changes_def gem_new_def g_ext_def g_par_def is_cold_def gem_check_def)

lemma fresh_inv: "in_fits S interner_new \<Longrightarrow> gem_inv S fresh_gem"
  by (simp add: gem_inv_def gem_ok_def fresh_view) (simp add: fresh_gem_def track_changes_def gem_new_def)

lemma fresh_start: "in_fits S interner_new \<Longrightarrow> sync_start S (fresh_gem, empty_store)"
  by (simp add: sync_start_def fresh_inv fresh_view empty_store_def)

lemma in_fits_small: "finite S \<Longrightarrow> card S < 100 \<Longrightarrow> in_fits S interner_new"
  by (simp add: in_fits_def interner_new_def)


end
