(* ===== verification/GemFacts.thy ===== *)
theory GemFacts
  imports GemSync "HOL-Library.Multiset"
begin

text \<open>
  What the operations of the global extent map do, as a caller sees it through lookups: moving
  slots under every map that names them, cloning a map, and rebuilding every map from the slot
  tables. At the end, two places where the code does not keep what its documentation says: a map
  of parity groups alone does not survive eviction, and the parity of a gathered source is shared
  without its slots being reported.
\<close>

section \<open>Lookups\<close>

lemma lookup_view:
  assumes "gem_inv S g" "gem_check v g"
  shows "gem_lookup v e g = Some (g_ext g v e)" "gem_lookup_parity v s g = Some (g_par g v s)"
proof -
  have "et_get e (gm_interner g, vm_extents m) = Some (ts_abs (gm_interner g, vm_extents m) e)"
    if "map_of (gm_volumes g) v = Some m" for m
    using ts_ok_vm gem_ok_vm that gem_inv_ok [OF assms(1)] et_get_abs by blast
  then show "gem_lookup v e g = Some (g_ext g v e)" using assms(2) by (simp add: gem_lookup_def g_ext_def split: option.split)
  show "gem_lookup_parity v s g = Some (g_par g v s)" using assms(2) by (simp add: gem_lookup_parity_def g_par_def split: option.split)
qed

lemma lookup_after:
  assumes "gem_to S g g'" "gem_check v g"
  shows "gem_lookup v e g' = Some (g_ext g' v e)" "gem_lookup_parity v s g' = Some (g_par g' v s)"
  using lookup_view [of S g' v] assms is_cold_eff by (auto simp: gem_to_def gem_check_def)

lemma check_all_each: "gem_check_all g \<Longrightarrow> gem_check v g"
  by (simp add: gem_check_all_def gem_check_def is_cold_def)

section \<open>Moving slots\<close>

lemma legs_rewrite: "legs (rewrite_loc moves l) = map (moved moves) (legs l)"
  by (auto simp: rewrite_loc_def legs_def primary_def set_primary_def moved_def Let_def split: option.split)

text \<open>A slot that moves is not one of the destinations, so nothing names it after the move.\<close>

lemma moved_away: "moved moves l \<noteq> old" if "map_of moves old \<noteq> None" "old \<notin> snd ` set moves"
  using that map_of_SomeD [of moves l old] by (auto simp: moved_def image_iff split: option.split) force

text \<open>Moving slots rewrites every map. With every map in memory, \<open>rewrite_legs\<close> returns; every
  extent and parity group mapped before is mapped after, its legs in the same order and each
  replaced by the place it moved to, its share count as it was; and no map names a moved slot any
  more unless it is also the destination of a move.\<close>

theorem rewrite_legs_moves:
  assumes "gem_inv S g" "gem_check_all g" "\<forall>(a, b) \<in> set moves. lg_slab b \<in> S"
  shows "\<exists>n g'. rewrite_legs moves g = Some (n, g') \<and>
    (\<forall>v e. \<exists>l. gem_lookup v e g = Some l \<and> gem_lookup v e g' = Some (map_option (rewrite_loc moves) l) \<and>
       (\<forall>l'. l = Some l' \<longrightarrow> legs (rewrite_loc moves l') = map (moved moves) (legs l') \<and> el_refs (rewrite_loc moves l') = el_refs l')) \<and>
    (\<forall>v s. \<exists>p. gem_lookup_parity v s g = Some p \<and> gem_lookup_parity v s g' = Some (map_option (rewrite_group moves) p)) \<and>
    (\<forall>old v e s. map_of moves old \<noteq> None \<longrightarrow> old \<notin> snd ` set moves \<longrightarrow>
       (\<forall>l. gem_lookup v e g' = Some (Some l) \<longrightarrow> old \<notin> set (legs l)) \<and>
       (\<forall>p. gem_lookup_parity v s g' = Some (Some p) \<longrightarrow> old \<notin> set (pg_legs p)))"
proof -
  obtain n g' where r: "rewrite_legs moves g = Some (n, g')" "gem_to S g g'"
      "\<And>v. g_ext g' v = (\<lambda>e. map_option (rewrite_loc moves) (g_ext g v e))"
      "\<And>v. g_par g' v = (\<lambda>s. map_option (rewrite_group moves) (g_par g v s))"
    using rewrite_legs_spec [OF assms] by blast
  note look = lookup_view [OF assms(1) check_all_each [OF assms(2)]] lookup_after [OF r(2) check_all_each [OF assms(2)]]
  have refs: "el_refs (rewrite_loc moves l) = el_refs l" for l
    by (simp add: rewrite_loc_def set_primary_def Let_def split: option.split)
  have gone: "old \<notin> set (legs (rewrite_loc moves l))" "old \<notin> set (pg_legs (rewrite_group moves p))"
    if "map_of moves old \<noteq> None" "old \<notin> snd ` set moves" for old l p
    using moved_away [OF that] by (auto simp: legs_rewrite) (auto simp: rewrite_group_def)
  show ?thesis
    by (rule exI [of _ n], rule exI [of _ g']) (use gone in \<open>auto simp: r(1) look r(3,4) legs_rewrite refs\<close>)
qed

theorem rewrite_legs_moves_witness:
  "\<exists>g n g'. gem_insert 7 70 (location_new 9 3) fresh_gem = Some g \<and> rewrite_legs [(leg_of 9 3, leg_of 8 1)] g = Some (n, g') \<and>
     (\<exists>l. gem_lookup 7 70 g' = Some (Some l) \<and> legs l = [leg_of 8 1])"
proof -
  have fits: "in_fits {8, 9} interner_new" by (rule in_fits_small) simp_all
  have w: "loc_within {8, 9} (location_new 9 3)" by (simp add: loc_within_legs location_new_def)
  obtain g where g: "gem_insert 7 70 (location_new 9 3) fresh_gem = Some g" "gem_to {8, 9} fresh_gem g"
      "g_ext g = (g_ext fresh_gem)(7 := (g_ext fresh_gem 7)(70 \<mapsto> location_new 9 3))"
    using gem_insert_spec [OF fresh_inv [OF fits] _ w, of 7 70] fresh_view by blast
  have inv: "gem_inv {8, 9} g" and all: "gem_check_all g"
    using g(2) fresh_view by (auto simp: gem_to_def gem_eff_def gem_check_all_def)
  have "gem_lookup 7 70 g = Some (Some (location_new 9 3))"
    using lookup_view(1) [OF inv check_all_each [OF all], of 7 70] g(3) by simp
  moreover have "map (moved [(leg_of 9 3, leg_of 8 1)]) (legs (location_new 9 3)) = [leg_of 8 1]"
    by (simp add: moved_def legs_def primary_def location_new_def leg_of_def)
  moreover have "\<forall>(a, b) \<in> set [(leg_of 9 3, leg_of 8 1)]. lg_slab b \<in> {8, 9}" by (simp add: leg_of_def)
  note rewrite_legs_moves [OF inv all this]
  then obtain n g' where "rewrite_legs [(leg_of 9 3, leg_of 8 1)] g = Some (n, g')"
      "\<exists>l. gem_lookup 7 70 g = Some l \<and> gem_lookup 7 70 g' = Some (map_option (rewrite_loc [(leg_of 9 3, leg_of 8 1)]) l)"
    by blast
  ultimately show ?thesis using g(1) by (auto simp: legs_rewrite)
qed

section \<open>Clones\<close>

text \<open>A clone names the slots of its source. After \<open>clone_volume_map\<close> of a volume that has a map,
  every lookup in the clone answers as in the source; both name the legs the source named before,
  every share count one higher on both sides (an extent's stops at the greatest value, a parity
  group's wraps), every other volume answers as before, and both volumes are recorded for the next
  persist when changes are recorded.\<close>

theorem clone_shares:
  assumes "gem_inv S g" "gem_check dst g" "gem_check src g" "map_of (gm_volumes g) src = Some m"
  shows "\<exists>d g'. clone_volume_map src dst g = Some (Some d, g') \<and> gem_inv S g' \<and>
    (\<forall>e. \<exists>l. gem_lookup src e g = Some l \<and> gem_lookup src e g' = Some (map_option share_loc l) \<and>
       gem_lookup dst e g' = Some (map_option share_loc l)) \<and>
    (\<forall>s. \<exists>p. gem_lookup_parity src s g = Some p \<and> gem_lookup_parity src s g' = Some (map_option share_grp p) \<and>
       gem_lookup_parity dst s g' = Some (map_option share_grp p)) \<and>
    (\<forall>v e. v \<noteq> src \<longrightarrow> v \<noteq> dst \<longrightarrow> gem_check v g \<longrightarrow> gem_lookup v e g' = gem_lookup v e g \<and>
       gem_lookup_parity v e g' = gem_lookup_parity v e g) \<and>
    (gm_track g \<longrightarrow> {src, dst} \<subseteq> ch_whole (gm_changes g'))"
proof -
  obtain d g' where c: "clone_volume_map src dst g = Some (Some d, g')" "gem_to S g g'"
      "g_ext g' = (g_ext g)(src := share_all share_loc (g_ext g src), dst := share_all share_loc (g_ext g src))"
      "g_par g' = (g_par g)(src := share_all share_grp (g_par g src), dst := share_all share_grp (g_par g src))"
    using clone_volume_map_spec [OF assms] by blast
  have "gm_track g \<longrightarrow> {src, dst} \<subseteq> ch_whole (gm_changes g')"
    using c(1) assms(2-4) by (auto simp: clone_volume_map_def touch_whole_def Let_def)
  moreover have "gem_inv S g'" using c(2) by (simp add: gem_to_def)
  ultimately show ?thesis
    using c(1) lookup_view [OF assms(1)] lookup_after [OF c(2)] assms(2,3) by (auto simp: c(3,4) share_all_def)
qed

theorem clone_shares_witness:
  "\<exists>g d g' l. gem_insert 7 70 (location_new 9 3) fresh_gem = Some g \<and> clone_volume_map 7 8 g = Some (Some d, g') \<and>
     gem_lookup 8 70 g' = Some (Some l) \<and> legs l = [leg_of 9 3] \<and> el_refs l = 2"
proof -
  have fits: "in_fits {9} interner_new" by (rule in_fits_small) simp_all
  have w: "loc_within {9} (location_new 9 3)" by (simp add: loc_within_legs location_new_def)
  obtain g where g: "gem_insert 7 70 (location_new 9 3) fresh_gem = Some g" "gem_to {9} fresh_gem g"
      "g_ext g = (g_ext fresh_gem)(7 := (g_ext fresh_gem 7)(70 \<mapsto> location_new 9 3))"
    using gem_insert_spec [OF fresh_inv [OF fits] _ w, of 7 70] fresh_view by blast
  have inv: "gem_inv {9} g" and all: "gem_check_all g"
    using g(2) fresh_view by (auto simp: gem_to_def gem_eff_def gem_check_all_def)
  have "g_ext g 7 70 = Some (location_new 9 3)" using g(3) by simp
  then obtain m where m: "map_of (gm_volumes g) 7 = Some m" using g_ext_volume by blast
  have look: "gem_lookup 7 70 g = Some (Some (location_new 9 3))"
    using lookup_view(1) [OF inv check_all_each [OF all], of 7 70] g(3) by simp
  have "legs (share_loc (location_new 9 3)) = [leg_of 9 3]"
    by (simp add: legs_def primary_def location_new_def leg_of_def share_loc_def)
  moreover have "el_refs (share_loc (location_new 9 3)) = 2" by (simp add: share_loc_def location_new_def sat_add_def)
  moreover obtain d g' where "clone_volume_map 7 8 g = Some (Some d, g')"
      "\<forall>e. \<exists>l. gem_lookup 7 e g = Some l \<and> gem_lookup 7 e g' = Some (map_option share_loc l) \<and>
         gem_lookup 8 e g' = Some (map_option share_loc l)"
    using clone_shares [OF inv check_all_each [OF all] check_all_each [OF all] m, of 8] by (elim exE conjE) (rule that)
  ultimately show ?thesis using g(1) look by (metis option.sel option.simps(9))
qed

section \<open>Recovery\<close>

text \<open>The slots of one extent, as recovery collects them from the slot tables.\<close>

definition names :: "uuid \<Rightarrow> u64 \<Rightarrow> slot \<Rightarrow> bool" where
  "names v e sl \<longleftrightarrow> is_owned (sl_state sl) \<and> parse_parity_vext (sl_vext sl) = None \<and> sl_volume sl = v \<and> sl_vext sl = e"

definition copies :: "(Leg \<times> slot) list \<Rightarrow> uuid \<times> u64 \<Rightarrow> (u64 \<times> Leg \<times> u32) list" where
  "copies view k = map (\<lambda>(leg, sl). (sl_gen sl, leg, sl_refs sl)) (filter (\<lambda>(leg, sl). names (fst k) (snd k) sl) view)"

lemma seen_fold:
  fixes view :: "(Leg \<times> slot) list"
  defines "add \<equiv> (\<lambda>(leg, sl) m.
       if is_owned (sl_state sl) \<and> parse_parity_vext (sl_vext sl) = None
       then let k = (sl_volume sl, sl_vext sl)
            in al_put k ((case map_of m k of Some ls \<Rightarrow> ls | None \<Rightarrow> []) @ [(sl_gen sl, leg, sl_refs sl)]) m
       else m)"
  shows "al_wf m \<Longrightarrow> al_wf (fold add view m)"
    and "map_of (fold add view m) k = (if copies view k = [] then map_of m k
      else Some ((case map_of m k of Some ls \<Rightarrow> ls | None \<Rightarrow> []) @ copies view k))"
proof -
  show "al_wf m \<Longrightarrow> al_wf (fold add view m)"
    by (induction view arbitrary: m) (auto simp: add_def Let_def)
  have step: "map_of (add (leg, sl) m) k = (if names (fst k) (snd k) sl
      then Some ((case map_of m k of Some ls \<Rightarrow> ls | None \<Rightarrow> []) @ [(sl_gen sl, leg, sl_refs sl)]) else map_of m k)" for leg sl m
    by (cases k) (auto simp: add_def names_def Let_def)
  have copies: "copies ((leg, sl) # view) k = (if names (fst k) (snd k) sl then [(sl_gen sl, leg, sl_refs sl)] else []) @ copies view k" for leg sl view
    by (simp add: copies_def)
  show "map_of (fold add view m) k = (if copies view k = [] then map_of m k
      else Some ((case map_of m k of Some ls \<Rightarrow> ls | None \<Rightarrow> []) @ copies view k))"
  proof (induction view arbitrary: m)
    case Nil
    then show ?case by (simp add: copies_def)
  next
    case (Cons x view)
    then show ?case by (cases x) (simp add: step copies)
  qed
qed

lemma seen_slots_spec:
  "al_wf (seen_slots view)"
  "map_of (seen_slots view) k = (if copies view k = [] then None else Some (copies view k))"
  unfolding seen_slots_def using seen_fold [where view = view and m = "[]"] by simp_all

lemma not_mono: "NOT a \<le> NOT b \<longleftrightarrow> b \<le> (a :: 'a::len word)"
proof -
  have "uint (NOT x) = mask LENGTH('a) - uint x" for x :: "'a word"
    by transfer (rule take_bit_not_eq_mask_diff)
  then show ?thesis by (simp add: word_le_def)
qed

text \<open>The first slot in the order of recovery has the highest generation.\<close>

lemma rebuilt_location_spec:
  assumes "ls \<noteq> []"
  shows "\<exists>l. rebuilt_location ls = Some l \<and> (\<forall>x \<in> set ls. fst x \<le> el_gen l) \<and>
    set (legs l) = {leg. \<exists>refs. (el_gen l, leg, refs) \<in> set ls} \<and> (el_gen l, primary l, el_refs l) \<in> set ls \<and>
    (distinct (map (fst \<circ> snd) ls) \<longrightarrow> distinct (legs l))"
proof -
  obtain gen prim refs rest where srt: "sort_key slot_rank ls = (gen, prim, refs) # rest"
    using assms by (metis sort_key_simps(1) set_sort set_empty neq_Nil_conv prod_cases3)
  let ?l = "\<lparr>el_slab = lg_slab prim, el_slot = lg_slot prim, el_refs = refs, el_gen = gen,
                el_mirrors = map (\<lambda>(_, l, _). l) (filter (\<lambda>(g, _, _). g = gen) rest)\<rparr>"
  have set: "set ls = insert (gen, prim, refs) (set rest)" using srt by (metis list.simps(15) set_sort)
  have "sorted (map slot_rank ((gen, prim, refs) # rest))" by (metis srt sorted_sort_key)
  then have le: "slot_rank (gen, prim, refs) \<le> slot_rank x" if "x \<in> set ls" for x using that set by auto
  have max: "fst x \<le> gen" if "x \<in> set ls" for x
  proof -
    have "NOT gen \<le> NOT (fst x)" using le [OF that] by (cases x) (auto simp: slot_rank_def)
    then show ?thesis by (simp add: not_mono)
  qed
  have legs: "legs ?l = map (fst \<circ> snd) (filter (\<lambda>x. fst x = gen) (sort_key slot_rank ls))"
    by (simp add: legs_def primary_def srt comp_def case_prod_unfold)
  have "set (legs ?l) = {leg. \<exists>refs. (gen, leg, refs) \<in> set ls}" unfolding legs by force
  moreover have "distinct (legs ?l)" if "distinct (map (fst \<circ> snd) ls)"
  proof -
    have "mset (map (fst \<circ> snd) (sort_key slot_rank ls)) = mset (map (fst \<circ> snd) ls)" by simp
    then have "distinct (map (fst \<circ> snd) (sort_key slot_rank ls))" using that by (metis mset_eq_imp_distinct_iff)
    then show ?thesis unfolding legs by (rule distinct_map_filter)
  qed
  ultimately show ?thesis using max set by (auto simp: rebuilt_location_def srt primary_def)
qed

lemma insert_seen_spec:
  assumes "gem_inv S g" "gm_cold g = []" "distinct (map fst seen)"
    "\<forall>(k, ls) \<in> set seen. ls \<noteq> [] \<and> (\<forall>(gen, leg, refs) \<in> set ls. lg_slab leg \<in> S)"
  shows "\<exists>g'. insert_seen seen g = Some g' \<and> gem_inv S g' \<and> gm_cold g' = [] \<and> g_par g' = g_par g \<and>
    (\<forall>v e. g_ext g' v e = (case map_of seen (v, e) of Some ls \<Rightarrow> rebuilt_location ls | None \<Rightarrow> g_ext g v e))"
  using assms
proof (induction seen arbitrary: g)
  case Nil
  then show ?case by simp
next
  case (Cons x seen)
  obtain v e ls where x: "x = ((v, e), ls)" by (metis surj_pair)
  obtain l where l: "rebuilt_location ls = Some l" "set (legs l) = {leg. \<exists>refs. (el_gen l, leg, refs) \<in> set ls}"
    using rebuilt_location_spec [of ls] Cons.prems(4) by (auto simp: x)
  have "loc_within S l" using l(2) Cons.prems(4) by (fastforce simp: loc_within_def x)
  then obtain g1 where g1: "gem_insert v e l g = Some g1" "gem_to S g g1"
      "g_ext g1 = (g_ext g)(v := (g_ext g v)(e \<mapsto> l))" "g_par g1 = g_par g"
    using gem_insert_spec [OF Cons.prems(1), of v l e] Cons.prems(2) by (auto simp: gem_check_def is_cold_def)
  have "gem_inv S g1" "gm_cold g1 = []" using g1(2) Cons.prems(2) by (auto simp: gem_to_def gem_eff_def)
  then obtain g' where g': "insert_seen seen g1 = Some g'" "gem_inv S g'" "gm_cold g' = []" "g_par g' = g_par g"
      "\<forall>v e. g_ext g' v e = (case map_of seen (v, e) of Some ls \<Rightarrow> rebuilt_location ls | None \<Rightarrow> g_ext g1 v e)"
    using Cons.IH [of g1] Cons.prems(3,4) g1(4) by auto
  have "map_of seen (v, e) = None" using Cons.prems(3) by (simp add: x map_of_eq_None_iff)
  then show ?case using g' l(1) by (auto simp: x g1(1,3) split: option.split)
qed

lemma seen_parity_nonempty: "\<forall>x \<in> set (seen_parity view). snd x \<noteq> []"
  unfolding seen_parity_def
  by (rule fold_invariant [where Q = "\<lambda>_. True"])
    (auto simp: Let_def al_put_def set_insort_key set_al_del split: option.splits if_splits)

lemma insert_seen_parity_spec:
  assumes "gem_inv S g" "gm_cold g = []" "\<forall>x \<in> set seen. snd x \<noteq> []"
  shows "\<exists>g'. insert_seen_parity seen g = Some g' \<and> gem_inv S g' \<and> gm_cold g' = [] \<and> g_ext g' = g_ext g"
  using assms
proof (induction seen arbitrary: g)
  case Nil
  then show ?case by simp
next
  case (Cons x seen)
  obtain v e ls where x: "x = ((v, e), ls)" by (metis surj_pair)
  have "sort_key fst ls \<noteq> []" using Cons.prems(3) by (simp add: x) (metis set_empty set_sort)
  then obtain p where p: "rebuilt_group ls = Some p" by (auto simp: rebuilt_group_def neq_Nil_conv)
  obtain g1 where g1: "gem_insert_parity v e p g = Some g1" "gem_to S g g1" "g_ext g1 = g_ext g"
    using gem_insert_parity_spec [OF Cons.prems(1), of v e p] Cons.prems(2) by (auto simp: gem_check_def is_cold_def)
  have "gem_inv S g1" "gm_cold g1 = []" using g1(2) Cons.prems(2) by (auto simp: gem_to_def gem_eff_def)
  then show ?case using Cons.IH [of g1] Cons.prems(3) g1 p by (auto simp: x)
qed

text \<open>C30. Recovery takes the newest copies. The maps rebuilt from the slot tables of any set of slots
  map an extent of a volume exactly when some owned slot is tagged with it. The location rebuilt
  carries the highest generation among those slots, its legs are exactly the slots of that
  generation, each once, so a slot left over from before a copy-on-write is never read, and its
  share count is that of its primary leg's slot. Recovery returns for every such set.\<close>

theorem rebuild_newest:
  assumes "in_ok w" "in_fits (lg_slab ` fst ` set view) w" "distinct (map fst view)"
  shows "\<exists>g. rebuild_from_view w view = Some g \<and> (\<forall>v e.
    ((\<exists>l. gem_lookup v e g = Some (Some l)) \<longleftrightarrow> (\<exists>(leg, sl) \<in> set view. names v e sl)) \<and>
    (\<forall>l. gem_lookup v e g = Some (Some l) \<longrightarrow>
       (\<forall>(leg, sl) \<in> set view. names v e sl \<longrightarrow> sl_gen sl \<le> el_gen l) \<and>
       set (legs l) = {leg. \<exists>sl. (leg, sl) \<in> set view \<and> names v e sl \<and> sl_gen sl = el_gen l} \<and> distinct (legs l) \<and>
       (\<exists>sl. (primary l, sl) \<in> set view \<and> names v e sl \<and> sl_gen sl = el_gen l \<and> sl_refs sl = el_refs l)))"
proof -
  let ?S = "lg_slab ` fst ` set view"
  have inv: "gem_inv ?S (gem_new w)"
    using assms(1,2) by (simp add: gem_inv_def gem_ok_def gem_new_def g_ext_def is_cold_def)
  have mem: "(gen, leg, refs) \<in> set (copies view (v, e)) \<longleftrightarrow> (\<exists>sl. (leg, sl) \<in> set view \<and> names v e sl \<and> gen = sl_gen sl \<and> refs = sl_refs sl)"
    for v e gen leg refs by (force simp: copies_def)
  have "\<forall>(k, ls) \<in> set (seen_slots view). ls \<noteq> [] \<and> (\<forall>(gen, leg, refs) \<in> set ls. lg_slab leg \<in> ?S)"
  proof (clarify, intro conjI ballI)
    fix a b ls assume "((a, b), ls) \<in> set (seen_slots view)"
    then have "map_of (seen_slots view) (a, b) = Some ls" using seen_slots_spec(1) [of view] by (simp add: al_wf_def)
    then have ls: "ls = copies view (a, b)" "ls \<noteq> []" by (auto simp: seen_slots_spec(2) split: if_splits)
    then show "ls \<noteq> []" by simp
    show "case x of (gen, leg, refs) \<Rightarrow> lg_slab leg \<in> ?S" if xs: "x \<in> set ls" for x
    proof -
      obtain gen leg refs where x: "x = (gen, leg, refs)" by (cases x)
      then obtain sl where "(leg, sl) \<in> set view" using xs ls(1) mem [of gen leg refs a b] by auto
      then show ?thesis by (force simp: x)
    qed
  qed
  then obtain g1 where g1: "insert_seen (seen_slots view) (gem_new w) = Some g1" "gem_inv ?S g1" "gm_cold g1 = []"
      "\<And>v e. g_ext g1 v e = (case map_of (seen_slots view) (v, e) of Some ls \<Rightarrow> rebuilt_location ls | None \<Rightarrow> g_ext (gem_new w) v e)"
    using insert_seen_spec [OF inv, of "seen_slots view"] seen_slots_spec(1) [of view] by (auto simp: gem_new_def al_wf_def)
  then obtain g where g: "rebuild_from_view w view = Some g" "gem_inv ?S g" "gm_cold g = []" "g_ext g = g_ext g1"
    using insert_seen_parity_spec [OF g1(2,3) seen_parity_nonempty [of view]] by (auto simp: rebuild_from_view_def)
  have look: "gem_lookup v e g = Some (if copies view (v, e) = [] then None else rebuilt_location (copies view (v, e)))" for v e
    using lookup_view(1) [OF g(2), of v e] g(3)
    by (simp add: gem_check_def is_cold_def g(4) g1(4) seen_slots_spec(2)) (simp add: g_ext_def gem_new_def)
  have some: "copies view (v, e) \<noteq> [] \<longleftrightarrow> (\<exists>(leg, sl) \<in> set view. names v e sl)" for v e
    by (auto simp: copies_def filter_empty_conv)
  have distinct: "distinct (map (fst \<circ> snd) (copies view k))" for k
  proof -
    have "map (fst \<circ> snd) (copies view k) = map fst (filter (\<lambda>(leg, sl). names (fst k) (snd k) sl) view)"
      by (simp add: copies_def comp_def case_prod_unfold)
    then show ?thesis using assms(3) by (simp add: distinct_map_filter)
  qed
  have one: "((\<exists>l. gem_lookup v e g = Some (Some l)) \<longleftrightarrow> (\<exists>(leg, sl) \<in> set view. names v e sl)) \<and>
    (\<forall>l. gem_lookup v e g = Some (Some l) \<longrightarrow>
       (\<forall>(leg, sl) \<in> set view. names v e sl \<longrightarrow> sl_gen sl \<le> el_gen l) \<and>
       set (legs l) = {leg. \<exists>sl. (leg, sl) \<in> set view \<and> names v e sl \<and> sl_gen sl = el_gen l} \<and> distinct (legs l) \<and>
       (\<exists>sl. (primary l, sl) \<in> set view \<and> names v e sl \<and> sl_gen sl = el_gen l \<and> sl_refs sl = el_refs l))" for v e
  proof (cases "copies view (v, e) = []")
    case True
    then show ?thesis using look [of v e] some [of v e] by auto
  next
    case False
    obtain l where l: "rebuilt_location (copies view (v, e)) = Some l" "\<forall>x \<in> set (copies view (v, e)). fst x \<le> el_gen l"
        "set (legs l) = {leg. \<exists>refs. (el_gen l, leg, refs) \<in> set (copies view (v, e))}"
        "(el_gen l, primary l, el_refs l) \<in> set (copies view (v, e))" "distinct (legs l)"
      using rebuilt_location_spec [OF False] distinct by blast
    have "\<forall>(leg, sl) \<in> set view. names v e sl \<longrightarrow> sl_gen sl \<le> el_gen l"
      using l(2) mem [of _ _ _ v e] by fastforce
    then show ?thesis using look [of v e] False some [of v e] l(1,3-5) mem [of _ _ _ v e] by auto
  qed
  show ?thesis using g(1) one by blast
qed

definition slot_at :: "u64 \<Rightarrow> slot" where
  "slot_at gen = \<lparr>sl_state = Allocated, sl_volume = 7, sl_vext = 70, sl_refs = 1, sl_gen = gen\<rparr>"

theorem rebuild_newest_witness:
  "\<exists>g l. rebuild_from_view interner_new [(leg_of 9 3, slot_at 1), (leg_of 8 5, slot_at 2), (leg_of 9 4, slot_at 2)] = Some g \<and>
     gem_lookup 7 70 g = Some (Some l) \<and> el_gen l = 2 \<and> set (legs l) = {leg_of 8 5, leg_of 9 4}"
proof -
  let ?view = "[(leg_of 9 3, slot_at 1), (leg_of 8 5, slot_at 2), (leg_of 9 4, slot_at 2)]"
  have n: "names 7 70 (slot_at k)" for k
    by (simp add: names_def slot_at_def parse_parity_vext_def PARITY_TAG_def)
  have "in_fits (lg_slab ` fst ` set ?view) interner_new" by (rule in_fits_small) (simp_all add: card_insert_if)
  moreover have "distinct (map fst ?view)" by (simp add: leg_of_def)
  ultimately obtain g where g: "rebuild_from_view interner_new ?view = Some g" and h: "\<forall>v e.
    ((\<exists>l. gem_lookup v e g = Some (Some l)) \<longleftrightarrow> (\<exists>(leg, sl) \<in> set ?view. names v e sl)) \<and>
    (\<forall>l. gem_lookup v e g = Some (Some l) \<longrightarrow>
       (\<forall>(leg, sl) \<in> set ?view. names v e sl \<longrightarrow> sl_gen sl \<le> el_gen l) \<and>
       set (legs l) = {leg. \<exists>sl. (leg, sl) \<in> set ?view \<and> names v e sl \<and> sl_gen sl = el_gen l} \<and> distinct (legs l) \<and>
       (\<exists>sl. (primary l, sl) \<in> set ?view \<and> names v e sl \<and> sl_gen sl = el_gen l \<and> sl_refs sl = el_refs l))"
    using rebuild_newest [OF in_ok_new] by blast
  obtain l where l: "gem_lookup 7 70 g = Some (Some l)" using h [THEN spec, THEN spec, of 7 70] n by auto
  have l': "\<forall>(leg, sl) \<in> set ?view. names 7 70 sl \<longrightarrow> sl_gen sl \<le> el_gen l"
      "set (legs l) = {leg. \<exists>sl. (leg, sl) \<in> set ?view \<and> names 7 70 sl \<and> sl_gen sl = el_gen l}"
      "\<exists>sl. (primary l, sl) \<in> set ?view \<and> names 7 70 sl \<and> sl_gen sl = el_gen l"
    using h [THEN spec, THEN spec, of 7 70] l by blast+
  have gen: "sl_gen (slot_at k) = k" for k by (simp add: slot_at_def)
  have "\<not> (2 :: u64) \<le> 1" by (simp add: word_le_nat_alt)
  then have "el_gen l = 2" using l'(1,3) n by (auto simp: gen)
  moreover from this have "set (legs l) = {leg_of 8 5, leg_of 9 4}"
    using l'(2) n by (auto simp: gen) 
  ultimately show ?thesis using g l by blast
qed

section \<open>Where the code and its documentation part\<close>

text \<open>Loading a map back is documented as putting back what the store holds, and does not for a
  map that has parity groups and no extents: whatever parity group a volume without extents has,
  once its map is persisted, evicted and made resident again from the very map that was evicted,
  looking the group up finds nothing.\<close>

theorem install_loses_parity:
  "\<exists>g g1 g2. gem_insert_parity 7 0 p fresh_gem = Some g \<and> gem_lookup_parity 7 0 g = Some (Some p) \<and>
     evict 7 (snd (take_changes g)) = Some (True, g1) \<and>
     ensure_resident (Some (\<lambda>_. Inr (vm_of 7 g))) (no_pager :: string) 7 g1 = (Inr (), g2) \<and>
     gem_lookup_parity 7 0 g2 = Some None"
  by (simp add: gem_insert_parity_def fresh_view vm_of_def vm_new_def vm_put_def touch_parity_def al_put_def al_del_def)
    (simp add: gem_lookup_parity_def gem_check_def is_cold_def fresh_view take_changes_def evict_def has_changes_def
      changes_new_def all_legs_def vm_exclusive_legs_def et_values_def et_iter_def et_new_def ensure_resident_def
      install_def vm_is_empty_def et_is_empty_def Let_def al_put_def al_del_def fresh_gem_def track_changes_def gem_new_def)

text \<open>Gathering a source that has parity shares slots it does not report. The legs \<open>gather_into\<close>
  returns, whose slot counts its documentation tells the caller to raise, never include a parity
  leg of the source that is no data leg, although the destination's map names that leg after the
  call, in the group at the sum of the stripe number and the extent offset, with its count raised.\<close>

theorem gather_parity_uncounted:
  assumes "gem_inv S g" "gem_check dst g" "gem_check src g" "src \<noteq> dst"
    and "\<forall>e \<in> dom (g_ext g src). unat e + unat base < 2 ^ 64"
    and "gem_lookup_parity src s g = Some (Some p)" "leg \<in> set (pg_legs p)"
    and "\<forall>e l. gem_lookup src e g = Some (Some l) \<longrightarrow> leg \<notin> set (legs l)"
  shows "\<exists>ls g'. gather_into src dst base g = Some (ls, g') \<and> leg \<notin> set ls \<and>
    gem_lookup_parity dst (base + s) g' = Some (Some (share_grp p)) \<and> leg \<in> set (pg_legs (share_grp p))"
proof -
  have p: "g_par g src s = Some p" using lookup_view(2) [OF assms(1,3)] assms(6) by simp
  obtain m where m: "map_of (gm_volumes g) src = Some m" using g_par_volume [OF p] by blast
  obtain ls g' where r: "gather_into src dst base g = Some (ls, g')" "gem_to S g g'" "set ls = (\<Union>l \<in> ran (g_ext g src). set (legs l))"
      "g_par g' dst = g_par g dst ++ (\<lambda>k. map_option share_grp (g_par g src (k - base)))"
    using gather_into_spec [OF assms(1-3) m assms(5)] assms(4) by auto
  have "leg \<notin> set ls" using assms(8) lookup_view(1) [OF assms(1,3)] by (auto simp: r(3) ran_def)
  moreover have "gem_lookup_parity dst (base + s) g' = Some (Some (share_grp p))"
    using lookup_after(2) [OF r(2) assms(2)] p by (simp add: r(4) map_add_def)
  ultimately show ?thesis using r(1) assms(7) by (auto simp: share_grp_def)
qed

theorem gather_parity_uncounted_witness:
  "\<exists>g ls g' p. gem_insert_parity 7 3 (parity_group_new [leg_of 9 4] 4) fresh_gem = Some g \<and>
     gather_into 7 8 128 g = Some (ls, g') \<and> leg_of 9 4 \<notin> set ls \<and>
     gem_lookup_parity 8 131 g' = Some (Some p) \<and> leg_of 9 4 \<in> set (pg_legs p)"
proof -
  have fits: "in_fits {9} interner_new" by (rule in_fits_small) simp_all
  let ?p = "parity_group_new [leg_of 9 4] 4"
  obtain g where g: "gem_insert_parity 7 3 ?p fresh_gem = Some g" "gem_to {9} fresh_gem g" "g_ext g = g_ext fresh_gem"
      "g_par g = (g_par fresh_gem)(7 := (g_par fresh_gem 7)(3 \<mapsto> ?p))"
    using gem_insert_parity_spec [OF fresh_inv [OF fits] fresh_view(4), of 7 3 ?p] by blast
  have inv: "gem_inv {9} g" and res: "gem_check v g" for v
    using g(2) fresh_view is_cold_eff by (auto simp: gem_to_def gem_check_def)
  have "gem_lookup_parity 7 3 g = Some (Some ?p)" using lookup_view(2) [OF inv res] g(4) by simp
  moreover have "\<forall>e l. gem_lookup 7 e g = Some (Some l) \<longrightarrow> leg_of 9 4 \<notin> set (legs l)"
    using lookup_view(1) [OF inv res] by (simp add: g(3) fresh_view)
  ultimately show ?thesis
    using gather_parity_uncounted [OF inv res res, where src = 7 and dst = 8 and base = 128 and s = 3 and p = ?p and leg = "leg_of 9 4"] g(1)
    by (fastforce simp: g(3) fresh_view parity_group_new_def)
qed

end
