(* ===== verification/Pallet.thy ===== *)
theory Pallet
  imports Superblock
begin

text \<open>
  The reader of pallets (\<open>crates/pallet-format/src/lib.rs\<close>), which firmware links: the superblock, the
  member and extent tables, where a member's bytes lie, and the digest over them. Integers keep
  their width and wrap, as in the release profile the firmware is built with; \<open>None\<close> is a panic
  (a slice out of range) or a loop that does not end. SHA-256 is a parameter, applied to all that
  was fed to it.
\<close>

section \<open>Constants and errors\<close>

definition PAL_MAGIC :: bytes where "PAL_MAGIC = [0x53, 0x54, 0x4F, 0x52, 0x4D, 0x50, 0x41, 0x4C]"

definition PAL_VERSION :: u32 where "PAL_VERSION = 1"

definition PAL_SUPERBLOCK_LEN :: nat where "PAL_SUPERBLOCK_LEN = 4096"

definition MEMBER_LEN :: nat where "MEMBER_LEN = 128"

definition EXTENT_LEN :: nat where "EXTENT_LEN = 32"

definition PAL_NAME_LEN :: nat where "PAL_NAME_LEN = 40"

definition ROLE_LEN :: nat where "ROLE_LEN = 16"

definition VERSION_LABEL_LEN :: nat where "VERSION_LABEL_LEN = 32"

definition KEY_ID_LEN :: nat where "KEY_ID_LEN = 16"

definition SIGNATURE_LEN :: nat where "SIGNATURE_LEN = 64"

definition FLAG_SEALED :: u32 where "FLAG_SEALED = 1"

definition FLAG_READ_ONLY :: u32 where "FLAG_READ_ONLY = 2"

definition FLAG_DIGEST :: u32 where "FLAG_DIGEST = 4"

definition SIG_ALG_NONE :: u32 where "SIG_ALG_NONE = 0"

definition SIG_ALG_ED25519 :: u32 where "SIG_ALG_ED25519 = 1"

definition SIGNING_PREFIX :: bytes where
  "SIGNING_PREFIX = [0x53, 0x54, 0x4F, 0x52, 0x4D, 0x50, 0x41, 0x4C, 0x2D, 0x53, 0x49, 0x47, 0x2D, 0x56, 0x31, 0]"

definition PALLET_TYPE_GUID :: bytes where
  "PALLET_TYPE_GUID = [0x0E, 0xB9, 0x24, 0xA3, 0xD9, 0xCE, 0x19, 0x40, 0xB3, 0x38, 0x7A, 0x5B, 0x98, 0xE1, 0xB7, 0xD2]"

definition is_pallet_type :: "bytes \<Rightarrow> bool" where
  "is_pallet_type g \<longleftrightarrow> g = PALLET_TYPE_GUID"

datatype pal_error =
    BadMagic | UnsupportedVersion u32 | BadGeometry | BadHeaderCrc | BadMemberCrc | BadExtentCrc
  | Truncated | NotFound | PalOutOfRange | ManifestMismatch | DigestMismatch | NoDigest | ReadFailed | ScratchTooSmall

section \<open>The checksum\<close>

definition crc_bit :: "u32 \<Rightarrow> u32" where
  "crc_bit c = drop_bit 1 c XOR (0xEDB88320 AND - (c AND 1))"

definition crc_byte :: "u8 \<Rightarrow> u32 \<Rightarrow> u32" where
  "crc_byte b c = (crc_bit ^^ 8) (c XOR ucast b)"

definition crc32_continue :: "u32 \<Rightarrow> bytes \<Rightarrow> u32" where
  "crc32_continue prev data = NOT (fold crc_byte data (NOT prev))"

definition crc32 :: "bytes \<Rightarrow> u32" where
  "crc32 data = crc32_continue 0 data"

definition superblock_crc :: "bytes \<Rightarrow> u32" where
  "superblock_crc sb =
     (let crc = crc32 (take 132 sb); crc = crc32_continue crc [0, 0, 0, 0]
      in crc32_continue crc (slice_of 136 PAL_SUPERBLOCK_LEN sb))"

lemma crc32_continue_append: "crc32_continue (crc32_continue p a) b = crc32_continue p (a @ b)"
  by (simp add: crc32_continue_def)

section \<open>Fields\<close>

definition str_field :: "bytes \<Rightarrow> bytes" where
  "str_field b =
     (let e = (case position (\<lambda>c. c = 0) b of Some i \<Rightarrow> i | None \<Rightarrow> length b)
      in if utf8_valid (take e b) then take e b else [])"

record Attributes =
  at_priority :: u8
  at_tries_left :: u8
  at_successful :: bool
  at_sealed :: bool
  at_read_only :: bool
  at_required :: bool

definition attributes_from_u64 :: "u64 \<Rightarrow> Attributes" where
  "attributes_from_u64 a =
     \<lparr>at_priority = ucast (drop_bit 48 a AND 0xF), at_tries_left = ucast (drop_bit 52 a AND 0xF),
      at_successful = (drop_bit 56 a AND 1 \<noteq> 0), at_sealed = (drop_bit 57 a AND 1 \<noteq> 0),
      at_read_only = (drop_bit 58 a AND 1 \<noteq> 0), at_required = (a AND 1 \<noteq> 0)\<rparr>"

definition attributes_to_u64 :: "Attributes \<Rightarrow> u64" where
  "attributes_to_u64 a =
     push_bit 48 (ucast (at_priority a) AND 0xF) OR push_bit 52 (ucast (at_tries_left a) AND 0xF)
     OR push_bit 56 (of_bool (at_successful a)) OR push_bit 57 (of_bool (at_sealed a))
     OR push_bit 58 (of_bool (at_read_only a)) OR of_bool (at_required a)"

definition is_candidate :: "Attributes \<Rightarrow> bool" where
  "is_candidate a \<longleftrightarrow> at_priority a > 0 \<and> (at_successful a \<or> at_tries_left a > 0)"

definition to_superblock_flags :: "Attributes \<Rightarrow> u64" where
  "to_superblock_flags a = push_bit 57 (of_bool (at_sealed a)) OR push_bit 58 (of_bool (at_read_only a))"

datatype PalletKind =
    PkUnspecified | PkBoot | PkSystem | PkKernel | PkKube | PkApp | PkRuntime | PkData | PkVendor | PkUser | PkOther u32

fun pallet_kind_to_u32 :: "PalletKind \<Rightarrow> u32" where
  "pallet_kind_to_u32 PkUnspecified = 0"
| "pallet_kind_to_u32 PkBoot = 1"
| "pallet_kind_to_u32 PkSystem = 2"
| "pallet_kind_to_u32 PkKernel = 3"
| "pallet_kind_to_u32 PkKube = 4"
| "pallet_kind_to_u32 PkApp = 5"
| "pallet_kind_to_u32 PkRuntime = 6"
| "pallet_kind_to_u32 PkData = 7"
| "pallet_kind_to_u32 PkVendor = 8"
| "pallet_kind_to_u32 PkUser = 9"
| "pallet_kind_to_u32 (PkOther v) = v"

definition pallet_kind_from_u32 :: "u32 \<Rightarrow> PalletKind" where
  "pallet_kind_from_u32 v =
     (if v = 0 then PkUnspecified else if v = 1 then PkBoot else if v = 2 then PkSystem else if v = 3 then PkKernel
      else if v = 4 then PkKube else if v = 5 then PkApp else if v = 6 then PkRuntime else if v = 7 then PkData
      else if v = 8 then PkVendor else if v = 9 then PkUser else PkOther v)"

datatype MemberKind = MkRaw | MkKernel | MkInitramfs | MkBootConfig | MkRootImage | MkContainer | MkUnknown u32

fun member_kind_to_u32 :: "MemberKind \<Rightarrow> u32" where
  "member_kind_to_u32 MkRaw = 0"
| "member_kind_to_u32 MkKernel = 1"
| "member_kind_to_u32 MkInitramfs = 2"
| "member_kind_to_u32 MkBootConfig = 3"
| "member_kind_to_u32 MkRootImage = 4"
| "member_kind_to_u32 MkContainer = 5"
| "member_kind_to_u32 (MkUnknown v) = v"

definition member_kind_from_u32 :: "u32 \<Rightarrow> MemberKind" where
  "member_kind_from_u32 v =
     (if v = 0 then MkRaw else if v = 1 then MkKernel else if v = 2 then MkInitramfs else if v = 3 then MkBootConfig
      else if v = 4 then MkRootImage else if v = 5 then MkContainer else MkUnknown v)"

section \<open>Superblock, members and extents\<close>

record pl_superblock =
  pl_version :: u32
  pl_block_size :: u32
  pl_kind :: PalletKind
  pl_member_count :: u32
  pl_extent_count :: u32
  pl_pallet_version :: u64
  pl_member_data_offset :: u64
  pl_manifest_digest :: bytes
  pl_members_crc :: u32
  pl_extents_crc :: u32
  pl_flags :: u64
  pl_name :: bytes
  pl_version_label :: bytes
  pl_kind_raw :: u32
  pl_sig_alg :: u32
  pl_sig_key_id :: bytes
  pl_sig :: bytes

definition is_power_of_two :: "u32 \<Rightarrow> bool" where
  "is_power_of_two w \<longleftrightarrow> w \<noteq> 0 \<and> w AND (w - 1) = 0"

definition pl_superblock_parse :: "bytes \<Rightarrow> pal_error + pl_superblock" where
  "pl_superblock_parse b =
     (if length b < PAL_SUPERBLOCK_LEN then Inl Truncated
      else if slice_of 0 8 b \<noteq> PAL_MAGIC then Inl BadMagic
      else if u32_at b 8 \<noteq> PAL_VERSION then Inl (UnsupportedVersion (u32_at b 8))
      else if unat (u32_at b 12) \<noteq> PAL_SUPERBLOCK_LEN \<or> unat (u32_at b 20) \<noteq> MEMBER_LEN \<or> unat (u32_at b 28) \<noteq> EXTENT_LEN then Inl BadGeometry
      else let block_size = u32_at b 16 in
        if block_size < 512 \<or> \<not> is_power_of_two block_size then Inl BadGeometry
        else if superblock_crc b \<noteq> u32_at b 132 then Inl BadHeaderCrc
        else Inr \<lparr>pl_version = u32_at b 8, pl_block_size = block_size, pl_kind = pallet_kind_from_u32 (u32_at b 144),
          pl_member_count = u32_at b 24, pl_extent_count = u32_at b 32, pl_pallet_version = u64_at b 36,
          pl_member_data_offset = u64_at b 44, pl_manifest_digest = slice_of 92 (92 + 32) b,
          pl_members_crc = u32_at b 124, pl_extents_crc = u32_at b 128, pl_flags = u64_at b 136,
          pl_name = slice_of 52 (52 + PAL_NAME_LEN) b, pl_version_label = slice_of 148 (148 + VERSION_LABEL_LEN) b,
          pl_kind_raw = u32_at b 144, pl_sig_alg = u32_at b 180, pl_sig_key_id = slice_of 184 (184 + KEY_ID_LEN) b,
          pl_sig = slice_of 200 (200 + SIGNATURE_LEN) b\<rparr>)"

definition pl_name_str :: "pl_superblock \<Rightarrow> bytes" where
  "pl_name_str sb = str_field (pl_name sb)"

definition pl_version_label_str :: "pl_superblock \<Rightarrow> bytes" where
  "pl_version_label_str sb = str_field (pl_version_label sb)"

definition members_len :: "pl_superblock \<Rightarrow> nat" where
  "members_len sb = unat (pl_member_count sb) * MEMBER_LEN"

definition extents_len :: "pl_superblock \<Rightarrow> nat" where
  "extents_len sb = unat (pl_extent_count sb) * EXTENT_LEN"

definition tables_end :: "pl_superblock \<Rightarrow> nat" where
  "tables_end sb = PAL_SUPERBLOCK_LEN + members_len sb + extents_len sb"

definition pl_sealed :: "pl_superblock \<Rightarrow> bool" where
  "pl_sealed sb \<longleftrightarrow> drop_bit 57 (pl_flags sb) AND 1 \<noteq> 0"

definition pl_read_only :: "pl_superblock \<Rightarrow> bool" where
  "pl_read_only sb \<longleftrightarrow> drop_bit 58 (pl_flags sb) AND 1 \<noteq> 0"

datatype SignatureFault = UnknownAlgorithm u32 | StrayBytes | EmptySignature

datatype Signature = Unsigned | Ed25519 bytes bytes | Malformed SignatureFault

definition all_zero :: "bytes \<Rightarrow> bool" where
  "all_zero bs = list_all (\<lambda>b. b = 0) bs"

definition signature :: "pl_superblock \<Rightarrow> Signature" where
  "signature sb =
     (if pl_sig_alg sb = SIG_ALG_NONE
      then if all_zero (pl_sig_key_id sb) \<and> all_zero (pl_sig sb) then Unsigned else Malformed StrayBytes
      else if pl_sig_alg sb = SIG_ALG_ED25519
      then if all_zero (pl_sig sb) then Malformed EmptySignature else Ed25519 (pl_sig_key_id sb) (pl_sig sb)
      else Malformed (UnknownAlgorithm (pl_sig_alg sb)))"

definition signing_message :: "bytes \<Rightarrow> u64 \<Rightarrow> u32 \<Rightarrow> bytes" where
  "signing_message manifest_digest pallet_version kind =
     SIGNING_PREFIX @ manifest_digest @ to_le 8 pallet_version @ to_le 4 kind"

text \<open>\<open>key_id_of\<close>, with the hash a parameter.\<close>

definition key_id_of :: "(bytes \<Rightarrow> bytes) \<Rightarrow> bytes \<Rightarrow> bytes" where
  "key_id_of sha public_key = take KEY_ID_LEN (sha public_key)"

definition pl_signing_message :: "pl_superblock \<Rightarrow> bytes" where
  "pl_signing_message sb = signing_message (pl_manifest_digest sb) (pl_pallet_version sb) (pl_kind_raw sb)"

record pl_member =
  pm_kind :: MemberKind
  pm_flags :: u32
  pm_byte_len :: u64
  pm_extent_first :: u32
  pm_extent_count :: u32
  pm_digest :: bytes
  pm_name :: bytes
  pm_role :: bytes

definition member_parse :: "bytes \<Rightarrow> pal_error + pl_member" where
  "member_parse b =
     (if length b < MEMBER_LEN then Inl Truncated
      else Inr \<lparr>pm_kind = member_kind_from_u32 (u32_at b 56), pm_flags = u32_at b 60, pm_byte_len = u64_at b 64,
        pm_extent_first = u32_at b 72, pm_extent_count = u32_at b 76, pm_digest = slice_of 80 (80 + 32) b,
        pm_name = slice_of 0 PAL_NAME_LEN b, pm_role = slice_of 40 (40 + ROLE_LEN) b\<rparr>)"

definition pm_name_str :: "pl_member \<Rightarrow> bytes" where
  "pm_name_str m = str_field (pm_name m)"

definition pm_role_str :: "pl_member \<Rightarrow> bytes" where
  "pm_role_str m = str_field (pm_role m)"

definition pm_is_sealed :: "pl_member \<Rightarrow> bool" where
  "pm_is_sealed m \<longleftrightarrow> pm_flags m AND FLAG_SEALED \<noteq> 0"

definition pm_is_read_only :: "pl_member \<Rightarrow> bool" where
  "pm_is_read_only m \<longleftrightarrow> pm_flags m AND FLAG_READ_ONLY \<noteq> 0"

definition has_digest :: "pl_member \<Rightarrow> bool" where
  "has_digest m \<longleftrightarrow> pm_flags m AND FLAG_DIGEST \<noteq> 0"

definition pm_block_count :: "pl_member \<Rightarrow> nat \<Rightarrow> nat" where
  "pm_block_count m block_size = div_ceil (unat (pm_byte_len m)) block_size"

record pl_extent =
  px_logical_block :: u64
  px_partition_block :: u64
  px_block_count :: u64
  px_flags :: u32

definition extent_parse :: "bytes \<Rightarrow> pal_error + pl_extent" where
  "extent_parse b =
     (if length b < EXTENT_LEN then Inl Truncated
      else Inr \<lparr>px_logical_block = u64_at b 0, px_partition_block = u64_at b 8, px_block_count = u64_at b 16, px_flags = u32_at b 24\<rparr>)"

section \<open>A pallet\<close>

record pallet =
  pa_sb :: pl_superblock
  pa_buf :: bytes

type_synonym 'a pal = "(pal_error + 'a) option"

text \<open>\<open>&b[lo..hi]\<close>, which panics out of range.\<close>

definition sub_slice :: "nat \<Rightarrow> nat \<Rightarrow> bytes \<Rightarrow> bytes option" where
  "sub_slice lo hi b = (if lo \<le> hi \<and> hi \<le> length b then Some (slice_of lo hi b) else None)"

definition pallet_parse :: "bytes \<Rightarrow> pallet pal" where
  "pallet_parse buf =
     (case pl_superblock_parse buf of
        Inl e \<Rightarrow> Some (Inl e)
      | Inr sb \<Rightarrow>
          if length buf < tables_end sb then Some (Inl Truncated)
          else case sub_slice PAL_SUPERBLOCK_LEN (PAL_SUPERBLOCK_LEN + members_len sb) buf of
            None \<Rightarrow> None
          | Some m \<Rightarrow>
              if crc32 m \<noteq> pl_members_crc sb then Some (Inl BadMemberCrc)
              else case sub_slice (PAL_SUPERBLOCK_LEN + members_len sb) (tables_end sb) buf of
                None \<Rightarrow> None
              | Some x \<Rightarrow>
                  if crc32 x \<noteq> pl_extents_crc sb then Some (Inl BadExtentCrc)
                  else Some (Inr \<lparr>pa_sb = sb, pa_buf = buf\<rparr>))"

definition pal_member :: "pallet \<Rightarrow> nat \<Rightarrow> pl_member pal" where
  "pal_member p i =
     (if i \<ge> unat (pl_member_count (pa_sb p)) then Some (Inl NotFound)
      else let o1 = PAL_SUPERBLOCK_LEN + i * MEMBER_LEN in map_option member_parse (sub_slice o1 (o1 + MEMBER_LEN) (pa_buf p)))"

definition pal_extent :: "pallet \<Rightarrow> nat \<Rightarrow> pl_extent pal" where
  "pal_extent p i =
     (if i \<ge> unat (pl_extent_count (pa_sb p)) then Some (Inl NotFound)
      else let o1 = PAL_SUPERBLOCK_LEN + members_len (pa_sb p) + i * EXTENT_LEN
        in map_option extent_parse (sub_slice o1 (o1 + EXTENT_LEN) (pa_buf p)))"

fun find_member :: "(pl_member \<Rightarrow> bool) \<Rightarrow> pallet \<Rightarrow> nat list \<Rightarrow> pl_member pal" where
  "find_member q p [] = Some (Inl NotFound)"
| "find_member q p (i # is) =
     (case pal_member p i of
        None \<Rightarrow> None
      | Some (Inl e) \<Rightarrow> Some (Inl e)
      | Some (Inr m) \<Rightarrow> if q m then Some (Inr m) else find_member q p is)"

definition pal_find :: "pallet \<Rightarrow> bytes \<Rightarrow> pl_member pal" where
  "pal_find p name = find_member (\<lambda>m. pm_name_str m = name) p [0..<unat (pl_member_count (pa_sb p))]"

definition pal_find_role :: "pallet \<Rightarrow> bytes \<Rightarrow> pl_member pal" where
  "pal_find_role p role = find_member (\<lambda>m. pm_role_str m = role) p [0..<unat (pl_member_count (pa_sb p))]"

record Mapping =
  mp_partition_block :: u64
  mp_offset_in_block :: u64
  mp_run_len :: u64

text \<open>The remap, in wrapping 64-bit arithmetic.\<close>

definition pal_bs :: "pallet \<Rightarrow> u64" where
  "pal_bs p = ucast (pl_block_size (pa_sb p))"

fun map_loop :: "pallet \<Rightarrow> pl_member \<Rightarrow> u64 \<Rightarrow> nat list \<Rightarrow> Mapping pal" where
  "map_loop p m offset [] = Some (Inl PalOutOfRange)"
| "map_loop p m offset (i # is) =
     (case pal_extent p (unat (pm_extent_first m) + i) of
        None \<Rightarrow> None
      | Some (Inl e) \<Rightarrow> Some (Inl e)
      | Some (Inr x) \<Rightarrow>
          let bs = pal_bs p; lb = offset div bs; off_in = offset mod bs in
          if lb < px_logical_block x \<or> lb \<ge> px_logical_block x + px_block_count x then map_loop p m offset is
          else let into = lb - px_logical_block x;
                   run_in_extent = (px_block_count x - into) * bs - off_in;
                   run_to_eof = pm_byte_len m - offset
            in Some (Inr \<lparr>mp_partition_block = px_partition_block x + into, mp_offset_in_block = off_in,
                 mp_run_len = min run_in_extent run_to_eof\<rparr>))"

definition pal_map :: "pallet \<Rightarrow> pl_member \<Rightarrow> u64 \<Rightarrow> Mapping pal" where
  "pal_map p m offset =
     (if offset \<ge> pm_byte_len m then Some (Inl PalOutOfRange) else map_loop p m offset [0..<unat (pm_extent_count m)])"

definition pal_tables :: "pallet \<Rightarrow> bytes option" where
  "pal_tables p = sub_slice PAL_SUPERBLOCK_LEN (tables_end (pa_sb p)) (pa_buf p)"

section \<open>Verification\<close>

text \<open>No early exit in the comparison of two digests.\<close>

definition same_digest :: "bytes \<Rightarrow> bytes \<Rightarrow> bool" where
  "same_digest a b = (fold (\<lambda>(x, y) diff. diff OR (x XOR y)) (zip a b) (0 :: u8) = 0)"

definition manifest_digest :: "(bytes \<Rightarrow> bytes) \<Rightarrow> pallet \<Rightarrow> bytes option" where
  "manifest_digest sha p = map_option sha (pal_tables p)"

definition verify_manifest :: "(bytes \<Rightarrow> bytes) \<Rightarrow> pallet \<Rightarrow> unit pal" where
  "verify_manifest sha p =
     (case manifest_digest sha p of
        None \<Rightarrow> None
      | Some d \<Rightarrow> Some (if same_digest d (pl_manifest_digest (pa_sb p)) then Inr () else Inl ManifestMismatch))"

text \<open>The caller's \<open>BlockReader\<close>: the bytes of some blocks of the partition, or an error.\<close>

type_synonym block_reader = "u64 \<Rightarrow> nat \<Rightarrow> bytes option"

text \<open>One run of \<open>digest_of\<close>; \<open>cap\<close> is the number of blocks the scratch buffer holds, \<open>acc\<close> what was hashed.\<close>

partial_function (option) digest_run ::
  "block_reader \<Rightarrow> nat \<Rightarrow> nat \<Rightarrow> u64 \<Rightarrow> u64 \<Rightarrow> nat \<Rightarrow> u64 \<Rightarrow> bytes \<Rightarrow> (u64 \<times> bytes) pal" where
  "digest_run rd bs cap remaining blk in_block off acc =
     (if remaining > 0 then
        let need = min (div_ceil (unat (of_nat in_block + remaining)) bs) cap in
        case rd blk (need * bs) of
          None \<Rightarrow> Some (Inl ReadFailed)
        | Some buf \<Rightarrow>
            let avail = of_nat (need * bs) - of_nat in_block; n = unat (min avail remaining) in
            (case sub_slice in_block (in_block + n) buf of
               None \<Rightarrow> None
             | Some piece \<Rightarrow>
                 digest_run rd bs cap (remaining - of_nat n) (blk + of_nat need) 0 (off + of_nat n) (acc @ piece))
      else Some (Inr (off, acc)))"

partial_function (option) digest_loop ::
  "pallet \<Rightarrow> pl_member \<Rightarrow> block_reader \<Rightarrow> nat \<Rightarrow> nat \<Rightarrow> u64 \<Rightarrow> bytes \<Rightarrow> bytes pal" where
  "digest_loop p m rd bs cap off acc =
     (if off < pm_byte_len m then
        (case pal_map p m off of
           None \<Rightarrow> None
         | Some (Inl e) \<Rightarrow> Some (Inl e)
         | Some (Inr mp) \<Rightarrow>
             (case digest_run rd bs cap (mp_run_len mp) (mp_partition_block mp) (unat (mp_offset_in_block mp)) off acc of
                None \<Rightarrow> None
              | Some (Inl e) \<Rightarrow> Some (Inl e)
              | Some (Inr (off, acc)) \<Rightarrow> digest_loop p m rd bs cap off acc))
      else Some (Inr acc))"

definition digest_of :: "(bytes \<Rightarrow> bytes) \<Rightarrow> pallet \<Rightarrow> pl_member \<Rightarrow> block_reader \<Rightarrow> nat \<Rightarrow> bytes pal" where
  "digest_of sha p m rd scratch_len =
     (let bs = unat (pl_block_size (pa_sb p)) in
      if scratch_len < bs then Some (Inl ScratchTooSmall)
      else map_option (map_sum (\<lambda>e. e) sha) (digest_loop p m rd bs (scratch_len div bs) 0 []))"

definition verify_bytes :: "(bytes \<Rightarrow> bytes) \<Rightarrow> pl_member \<Rightarrow> bytes \<Rightarrow> pal_error + unit" where
  "verify_bytes sha m bs =
     (if \<not> has_digest m then Inl NoDigest
      else if \<not> same_digest (sha bs) (pm_digest m) then Inl DigestMismatch else Inr ())"

definition verify_member :: "(bytes \<Rightarrow> bytes) \<Rightarrow> pallet \<Rightarrow> pl_member \<Rightarrow> block_reader \<Rightarrow> nat \<Rightarrow> unit pal" where
  "verify_member sha p m rd scratch_len =
     (if \<not> has_digest m then Some (Inl NoDigest)
      else case digest_of sha p m rd scratch_len of
        None \<Rightarrow> None
      | Some (Inl e) \<Rightarrow> Some (Inl e)
      | Some (Inr d) \<Rightarrow> Some (if \<not> same_digest d (pm_digest m) then Inl DigestMismatch else Inr ()))"

fun verify_members :: "(bytes \<Rightarrow> bytes) \<Rightarrow> pallet \<Rightarrow> block_reader \<Rightarrow> nat \<Rightarrow> nat list \<Rightarrow> unit pal" where
  "verify_members sha p rd scratch_len [] = Some (Inr ())"
| "verify_members sha p rd scratch_len (i # is) =
     (case pal_member p i of
        None \<Rightarrow> None
      | Some (Inl e) \<Rightarrow> Some (Inl e)
      | Some (Inr m) \<Rightarrow>
          if has_digest m
          then (case verify_member sha p m rd scratch_len of
                  None \<Rightarrow> None
                | Some (Inl e) \<Rightarrow> Some (Inl e)
                | Some (Inr _) \<Rightarrow> verify_members sha p rd scratch_len is)
          else verify_members sha p rd scratch_len is)"

definition verify_all :: "(bytes \<Rightarrow> bytes) \<Rightarrow> pallet \<Rightarrow> block_reader \<Rightarrow> nat \<Rightarrow> unit pal" where
  "verify_all sha p rd scratch_len =
     (case verify_manifest sha p of
        None \<Rightarrow> None
      | Some (Inl e) \<Rightarrow> Some (Inl e)
      | Some (Inr _) \<Rightarrow> verify_members sha p rd scratch_len [0..<unat (pl_member_count (pa_sb p))])"

end
