(* ===== verification/PalletSelect.thy ===== *)
theory PalletSelect
  imports Pallet "HOL-Library.Multiset" "HOL-Library.Product_Lexorder" "HOL-Library.List_Lexorder"
begin

text \<open>
  Which pallet to boot and what to boot instead (\<open>crates/pallet-format/src/select.rs\<close>): the
  choice, the fallback, and the in-place sort that lays the fallback chain out. The two agree:
  walking \<open>fallback_after\<close> from \<open>select\<close> visits the sorted prefix, in order, whatever order the
  candidates were collected in.
\<close>

section \<open>Candidates\<close>

record Candidate =
  cd_id :: bytes
  cd_kind :: PalletKind
  cd_version :: u64
  cd_attributes :: Attributes
  cd_readable :: bool

type_synonym order_key_t = "u8 \<times> u64 \<times> bytes"

text \<open>Rust orders tuples and arrays lexicographically, as the two library orders do.\<close>

definition order_key :: "Candidate \<Rightarrow> order_key_t" where
  "order_key c = (at_priority (cd_attributes c), cd_version c, cd_id c)"

definition is_eligible :: "Candidate \<Rightarrow> bool" where
  "is_eligible c \<longleftrightarrow> cd_readable c \<and> is_candidate (cd_attributes c)"

definition in_ladder :: "Candidate \<Rightarrow> PalletKind option \<Rightarrow> bool" where
  "in_ladder c kind = (case kind of Some k \<Rightarrow> cd_kind c = k \<or> cd_kind c = PkUnspecified | None \<Rightarrow> True)"

definition competes :: "PalletKind option \<Rightarrow> Candidate \<Rightarrow> bool" where
  "competes kind c \<longleftrightarrow> is_eligible c \<and> in_ladder c kind"

section \<open>The choice\<close>

text \<open>\<open>Iterator::max_by_key\<close>: of several maxima the last.\<close>

fun max_by_key :: "('a \<Rightarrow> 'b::linorder) \<Rightarrow> 'a list \<Rightarrow> 'a option" where
  "max_by_key f [] = None"
| "max_by_key f (x # xs) = Some (fold (\<lambda>c best. if f best \<le> f c then c else best) xs x)"

definition select :: "Candidate list \<Rightarrow> PalletKind option \<Rightarrow> Candidate option" where
  "select candidates kind = max_by_key order_key (filter (competes kind) candidates)"

definition fallback_after :: "Candidate list \<Rightarrow> bytes \<Rightarrow> PalletKind option \<Rightarrow> Candidate option" where
  "fallback_after candidates failed kind =
     (case find (\<lambda>c. cd_id c = failed \<and> competes kind c) candidates of
        Some f \<Rightarrow> max_by_key order_key (filter (\<lambda>c. competes kind c \<and> order_key c < order_key f) candidates)
      | None \<Rightarrow> select candidates kind)"

section \<open>The sort in place\<close>

definition swap :: "nat \<Rightarrow> nat \<Rightarrow> 'a list \<Rightarrow> 'a list" where
  "swap i j xs = xs[i := xs ! j, j := xs ! i]"

fun gather_step :: "PalletKind option \<Rightarrow> nat \<Rightarrow> Candidate list \<times> nat \<Rightarrow> Candidate list \<times> nat" where
  "gather_step kind i (cs, competing) = (if competes kind (cs ! i) then (swap i competing cs, competing + 1) else (cs, competing))"

fun sink :: "nat \<Rightarrow> Candidate list \<Rightarrow> Candidate list" where
  "sink 0 cs = cs"
| "sink (Suc j) cs = (if order_key (cs ! j) < order_key (cs ! Suc j) then sink j (swap j (Suc j) cs) else cs)"

definition sort_candidates :: "Candidate list \<Rightarrow> PalletKind option \<Rightarrow> Candidate list \<times> nat" where
  "sort_candidates candidates kind =
     (let (cs, competing) = fold (gather_step kind) [0..<length candidates] (candidates, 0)
      in (fold sink [1..<competing] cs, competing))"

section \<open>The greatest of a list\<close>

lemma max_fold:
  fixes f :: "'a \<Rightarrow> 'b::linorder"
  defines "pick \<equiv> \<lambda>c best. if f best \<le> f c then c else best"
  shows "fold pick xs x \<in> set (x # xs) \<and> (\<forall>y \<in> set (x # xs). f y \<le> f (fold pick xs x))"
proof (induction xs arbitrary: x)
  case (Cons a xs)
  from Cons [of "pick a x"] have "f (pick a x) \<le> f (fold pick xs (pick a x))" by simp
  moreover have "f x \<le> f (pick a x)" "f a \<le> f (pick a x)" by (auto simp: pick_def)
  ultimately show ?case using Cons [of "pick a x"] by (auto simp: pick_def)
qed simp

lemma max_by_key_SomeD: "max_by_key f xs = Some m \<Longrightarrow> m \<in> set xs \<and> (\<forall>y \<in> set xs. f y \<le> f m)"
  by (cases xs) (use max_fold [of f] in \<open>auto split del: if_split\<close>)

lemma max_by_key_None [simp]: "max_by_key f xs = None \<longleftrightarrow> xs = []"
  by (cases xs) simp_all

lemma max_by_key_eq:
  assumes "set xs = set (m # ys)" "inj_on f (set xs)" "\<forall>y \<in> set ys. f y \<le> f m"
  shows "max_by_key f xs = Some m"
proof (cases "max_by_key f xs")
  case None with assms(1) show ?thesis by simp
next
  case (Some k)
  then have k: "k \<in> set xs" "f m \<le> f k" using max_by_key_SomeD [OF Some] assms(1) by auto
  with assms(1,3) have "f k = f m" by (auto intro: antisym)
  then have "k = m" using k(1) assms(1) by (auto intro: inj_onD [OF assms(2)])
  with Some show ?thesis by simp
qed

section \<open>The sort\<close>

lemma length_swap [simp]: "length (swap i j xs) = length xs"
  by (simp add: swap_def)

lemma mset_swap_eq: "i < length xs \<Longrightarrow> j < length xs \<Longrightarrow> mset (swap i j xs) = mset xs"
  by (simp add: swap_def mset_swap)

lemma gathered:
  assumes "n \<le> length cs" "fold (gather_step kind) [0..<n] (cs, 0) = (cs', k)"
  shows "k \<le> n \<and> mset cs' = mset cs \<and> (\<forall>i < k. competes kind (cs' ! i)) \<and> (\<forall>i. k \<le> i \<and> i < n \<longrightarrow> \<not> competes kind (cs' ! i))"
  using assms
proof (induction n arbitrary: cs' k)
  case (Suc n)
  obtain ds l where f: "fold (gather_step kind) [0..<n] (cs, 0) = (ds, l)" by fastforce
  with Suc have ih: "l \<le> n" "mset ds = mset cs" "\<forall>i < l. competes kind (ds ! i)" "\<forall>i. l \<le> i \<and> i < n \<longrightarrow> \<not> competes kind (ds ! i)"
    by auto
  then have len: "length ds = length cs" by (metis size_mset)
  show ?case
  proof (cases "competes kind (ds ! n)")
    case True
    with Suc.prems f have r: "cs' = swap n l ds" "k = l + 1" by simp_all
    have "competes kind (cs' ! i)" if "i < k" for i
      using that ih(1,3) True len Suc.prems(1) by (cases "i = l") (auto simp: r swap_def nth_list_update)
    moreover have "\<not> competes kind (cs' ! i)" if "k \<le> i" "i < Suc n" for i
      using that ih(1,4) len Suc.prems(1) by (cases "i = n") (auto simp: r swap_def nth_list_update)
    ultimately show ?thesis using ih(1,2) len Suc.prems(1) by (auto simp: r mset_swap_eq)
  next
    case False
    with Suc.prems f have "cs' = ds" "k = l" by simp_all
    with ih False show ?thesis by (auto simp: less_Suc_eq)
  qed
qed simp

lemma gathered_split:
  assumes "fold (gather_step kind) [0..<length cs] (cs, 0) = (cs', k)"
  shows "k \<le> length cs" "mset cs' = mset cs" "filter (competes kind) cs' = take k cs'"
proof -
  from gathered [OF order_refl assms] have k: "k \<le> length cs" and m: "mset cs' = mset cs"
    and c: "\<forall>i < k. competes kind (cs' ! i)" "\<forall>i. k \<le> i \<and> i < length cs \<longrightarrow> \<not> competes kind (cs' ! i)" by auto
  have len: "length cs' = length cs" using m by (metis size_mset)
  have "filter (competes kind) (take k cs') = take k cs'"
    using c(1) by (intro filter_True ballI) (auto simp: in_set_conv_nth)
  moreover have "filter (competes kind) (drop k cs') = []"
    using c(2) k len by (auto simp: filter_empty_conv in_set_conv_nth)
  ultimately show "filter (competes kind) cs' = take k cs'"
    by (metis append_Nil2 append_take_drop_id filter_append)
qed (use gathered [OF order_refl assms] in auto)

lemma swap_mid: "swap (length as) (Suc (length as)) (as @ a # x # bs) = as @ x # a # bs"
  by (simp add: swap_def list_update_append nth_append)

lemma sink_insort: "sink (length as) (as @ x # bs) = rev (insort_key order_key x (rev as)) @ bs"
proof (induction as arbitrary: bs rule: rev_induct)
  case (snoc a as)
  show ?case
    using snoc.IH [of "a # bs"] swap_mid [of as a x bs] by (auto simp: nth_append)
qed simp

lemma sink_all:
  assumes "k \<le> length cs"
  shows "fold sink [1..<k] cs = rev (sort_key order_key (rev (take k cs))) @ drop k cs"
  using assms
proof (induction k)
  case (Suc k)
  show ?case
  proof (cases "k = 0")
    case True with Suc.prems show ?thesis by (cases cs) auto
  next
    case False
    let ?s = "rev (sort_key order_key (rev (take k cs)))"
    from False have up: "[1..<Suc k] = [1..<k] @ [k]" by simp
    have "drop k cs = cs ! k # drop (Suc k) cs" using Suc.prems by (simp add: Cons_nth_drop_Suc)
    moreover have "length ?s = k" using Suc.prems by simp
    ultimately have "fold sink [1..<Suc k] cs = rev (insort_key order_key (cs ! k) (rev ?s)) @ drop (Suc k) cs"
      using Suc sink_insort [of ?s] by (simp only: up fold_append) simp
    then show ?thesis using Suc.prems by (simp add: take_Suc_conv_app_nth)
  qed
qed simp

text \<open>The fallback chain: the competitors, highest key first.\<close>

definition chain :: "Candidate list \<Rightarrow> PalletKind option \<Rightarrow> Candidate list" where
  "chain cs kind = (let (cs', n) = sort_candidates cs kind in take n cs')"

lemma sort_candidates_split:
  obtains cs' k where
    "sort_candidates cs kind = (rev (sort_key order_key (rev (take k cs'))) @ drop k cs', k)" "k \<le> length cs"
    "mset cs' = mset cs" "filter (competes kind) cs' = take k cs'"
proof -
  obtain cs' k where f: "fold (gather_step kind) [0..<length cs] (cs, 0) = (cs', k)" by fastforce
  note g = gathered_split [OF f]
  have "length cs' = length cs" using g(2) by (metis size_mset)
  with g(1) f have "sort_candidates cs kind = (rev (sort_key order_key (rev (take k cs'))) @ drop k cs', k)"
    using sink_all [of k cs'] by (simp add: sort_candidates_def)
  with g that show thesis by blast
qed

lemma sort_candidates_length: "sort_candidates cs kind = (ladder, n) \<Longrightarrow> n \<le> length ladder"
proof -
  assume s: "sort_candidates cs kind = (ladder, n)"
  obtain cs' k where "sort_candidates cs kind = (rev (sort_key order_key (rev (take k cs'))) @ drop k cs', k)" "k \<le> length cs"
    "mset cs' = mset cs" by (rule sort_candidates_split)
  moreover from this(3) have "length cs' = length cs" by (metis size_mset)
  ultimately show "n \<le> length ladder" using s by auto
qed

lemma chain_facts:
  shows mset_chain: "mset (chain cs kind) = filter_mset (competes kind) (mset cs)"
    and chain_sorted: "sorted_wrt (\<lambda>a b. order_key b \<le> order_key a) (chain cs kind)"
proof -
  obtain cs' k where s: "sort_candidates cs kind = (rev (sort_key order_key (rev (take k cs'))) @ drop k cs', k)"
    and k: "k \<le> length cs" and m: "mset cs' = mset cs" and f: "filter (competes kind) cs' = take k cs'"
    by (rule sort_candidates_split)
  have len: "length cs' = length cs" using m by (metis size_mset)
  with s k have c: "chain cs kind = rev (sort_key order_key (rev (take k cs')))" by (simp add: chain_def)
  have "mset (chain cs kind) = mset (filter (competes kind) cs')" by (simp add: c f)
  then show "mset (chain cs kind) = filter_mset (competes kind) (mset cs)" by (simp add: mset_filter m)
  have "sorted (map order_key (sort_key order_key (rev (take k cs'))))" by simp
  then show "sorted_wrt (\<lambda>a b. order_key b \<le> order_key a) (chain cs kind)"
    by (simp add: c sorted_wrt_rev sorted_map)
qed

lemma set_chain: "set (chain cs kind) = {c \<in> set cs. competes kind c}"
  by (metis mset_chain set_mset_mset set_mset_filter)

section \<open>The walk\<close>

lemma key_inj: "distinct (map cd_id cs) \<Longrightarrow> inj_on order_key (set cs)"
  by (auto simp: order_key_def distinct_map inj_on_def)

lemma chain_distinct: "distinct (map cd_id cs) \<Longrightarrow> distinct (chain cs kind)"
proof -
  assume "distinct (map cd_id cs)"
  then have "distinct cs" by (simp add: distinct_map)
  then have "distinct (filter (competes kind) cs)" by simp
  moreover have "mset (chain cs kind) = mset (filter (competes kind) cs)" by (simp add: mset_chain mset_filter)
  ultimately show ?thesis by (metis mset_eq_imp_distinct_iff)
qed

lemma chain_strict:
  assumes "distinct (map cd_id cs)" "i < j" "j < length (chain cs kind)"
  shows "order_key (chain cs kind ! j) < order_key (chain cs kind ! i)"
proof -
  let ?c = "chain cs kind"
  have le: "order_key (?c ! j) \<le> order_key (?c ! i)"
    using sorted_wrt_nth_less [OF chain_sorted assms(2,3)] .
  have "?c ! i \<noteq> ?c ! j" using assms chain_distinct [OF assms(1), of kind] by (simp add: nth_eq_iff_index_eq)
  moreover have "?c ! i \<in> set cs" "?c ! j \<in> set cs"
    using assms nth_mem [of _ ?c] by (auto simp: set_chain dest: less_trans)
  ultimately have "order_key (?c ! i) \<noteq> order_key (?c ! j)"
    using key_inj [OF assms(1)] by (auto dest: inj_onD)
  with le show ?thesis by simp
qed

lemma chain_below:
  assumes "distinct (map cd_id cs)" "i < length (chain cs kind)"
  shows "set (filter (\<lambda>c. competes kind c \<and> order_key c < order_key (chain cs kind ! i)) cs) = set (drop (Suc i) (chain cs kind))"
proof -
  let ?c = "chain cs kind"
  have "c \<in> set ?c \<and> order_key c < order_key (?c ! i) \<longleftrightarrow> c \<in> set (drop (Suc i) ?c)" for c
  proof
    assume "c \<in> set ?c \<and> order_key c < order_key (?c ! i)"
    then obtain j where j: "j < length ?c" "c = ?c ! j" "order_key (?c ! j) < order_key (?c ! i)"
      by (auto simp: in_set_conv_nth)
    then have "i < j" using chain_strict [OF assms(1), of j i kind] assms(2) by (cases i j rule: linorder_cases) auto
    with j(1,2) show "c \<in> set (drop (Suc i) ?c)"
      by (auto simp: in_set_conv_nth intro!: exI [of _ "j - Suc i"])
  next
    assume "c \<in> set (drop (Suc i) ?c)"
    then obtain j where "j < length (drop (Suc i) ?c)" "c = drop (Suc i) ?c ! j" by (auto simp: in_set_conv_nth)
    then have "Suc i + j < length ?c" "c = ?c ! (Suc i + j)" by simp_all
    then show "c \<in> set ?c \<and> order_key c < order_key (?c ! i)"
      using chain_strict [OF assms(1), of i "Suc i + j"] by simp
  qed
  then show ?thesis by (auto simp: set_chain)
qed

lemma max_drop:
  assumes "distinct (map cd_id cs)" "set xs = set (drop i (chain cs kind))"
  shows "max_by_key order_key xs = (if i < length (chain cs kind) then Some (chain cs kind ! i) else None)"
proof (cases "i < length (chain cs kind)")
  case True
  let ?c = "chain cs kind"
  have d: "drop i ?c = ?c ! i # drop (Suc i) ?c" using True by (simp add: Cons_nth_drop_Suc)
  have "set xs \<subseteq> set cs" using assms(2) set_drop_subset [of i ?c] by (auto simp: set_chain)
  then have inj: "inj_on order_key (set xs)" using key_inj [OF assms(1)] by (rule inj_on_subset [rotated])
  have "\<forall>y \<in> set (drop (Suc i) ?c). order_key y \<le> order_key (?c ! i)"
    using chain_below [OF assms(1) True] by (metis (mono_tags, lifting) mem_Collect_eq order.strict_implies_order set_filter)
  with True inj show ?thesis using max_by_key_eq [of xs "?c ! i" "drop (Suc i) ?c"] assms(2) d by simp
next
  case False with assms(2) show ?thesis by simp
qed

lemma select_chain:
  assumes "distinct (map cd_id cs)"
  shows "select cs kind = (if 0 < length (chain cs kind) then Some (chain cs kind ! 0) else None)"
  unfolding select_def by (rule max_drop [OF assms]) (simp add: set_chain)

lemma find_chain:
  assumes "distinct (map cd_id cs)" "i < length (chain cs kind)"
  shows "find (\<lambda>c. cd_id c = cd_id (chain cs kind ! i) \<and> competes kind c) cs = Some (chain cs kind ! i)"
proof -
  let ?x = "chain cs kind ! i"
  have x: "?x \<in> set cs" "competes kind ?x" using nth_mem [OF assms(2)] by (auto simp: set_chain)
  obtain y where y: "find (\<lambda>c. cd_id c = cd_id ?x \<and> competes kind c) cs = Some y"
    using x by (metis (mono_tags, lifting) find_None_iff option.exhaust)
  then have "y \<in> set cs" "cd_id y = cd_id ?x" by (auto simp: find_Some_iff)
  with x(1) assms(1) have "y = ?x" by (auto simp: distinct_map dest: inj_onD)
  with y show ?thesis by simp
qed

text \<open>
  The sort only permutes the array, its first \<open>n\<close> entries are exactly the candidates that
  compete, and they come highest order key first.
\<close>

lemma sort_candidates_lays_chain:
  "case sort_candidates cs kind of (cs', n) \<Rightarrow>
     mset cs' = mset cs \<and> mset (take n cs') = filter_mset (competes kind) (mset cs) \<and> n \<le> length cs
     \<and> sorted_wrt (\<lambda>a b. order_key b \<le> order_key a) (take n cs')"
proof -
  obtain cs' k where s: "sort_candidates cs kind = (rev (sort_key order_key (rev (take k cs'))) @ drop k cs', k)" "k \<le> length cs"
    "mset cs' = mset cs" "filter (competes kind) cs' = take k cs'" by (rule sort_candidates_split)
  have "mset (rev (sort_key order_key (rev (take k cs'))) @ drop k cs') = mset (take k cs' @ drop k cs')"
    unfolding mset_append by simp
  then have "mset (fst (sort_candidates cs kind)) = mset cs" using s(1,3) by simp
  then show ?thesis
    using s(1,2) mset_chain [of cs kind] chain_sorted [of cs kind] by (simp add: chain_def)
qed

text \<open>
  C38. Where the partitions carry distinct identifiers, the sort lays the competitors out highest order
  key first, losing none, \<open>select\<close> is the first of them
  and \<open>fallback_after\<close> steps down the chain: after the i-th entry comes the next, after the last none,
  and from a pallet that is not in the chain the walk starts at the top.
\<close>

theorem fallback_walks_chain:
  assumes "distinct (map cd_id cs)" "sort_candidates cs kind = (ladder, n)"
  shows "mset ladder = mset cs \<and> mset (take n ladder) = filter_mset (competes kind) (mset cs)
    \<and> sorted_wrt (\<lambda>a b. order_key b \<le> order_key a) (take n ladder)
    \<and> select cs kind = (if 0 < n then Some (ladder ! 0) else None)
    \<and> (\<forall>i < n. fallback_after cs (cd_id (ladder ! i)) kind = (if i + 1 < n then Some (ladder ! (i + 1)) else None))
    \<and> (\<forall>failed. failed \<notin> cd_id ` set (take n ladder) \<longrightarrow> fallback_after cs failed kind = select cs kind)"
proof -
  from assms(2) have c: "chain cs kind = take n ladder" by (simp add: chain_def)
  then have len: "length (chain cs kind) = n" using sort_candidates_length [OF assms(2)] by simp
  note below = max_drop [OF assms(1) chain_below [OF assms(1)], of _ kind, unfolded len]
  have "fallback_after cs (cd_id (ladder ! i)) kind = (if i + 1 < n then Some (ladder ! (i + 1)) else None)" if "i < n" for i
  proof -
    have i: "i < length (chain cs kind)" "ladder ! i = chain cs kind ! i" using that c len by simp_all
    then show ?thesis
      using find_chain [OF assms(1) i(1)] below [OF that] c by (simp add: fallback_after_def)
  qed
  moreover have "fallback_after cs failed kind = select cs kind" if "failed \<notin> cd_id ` set (take n ladder)" for failed
  proof -
    have "find (\<lambda>c. cd_id c = failed \<and> competes kind c) cs = None"
      using that unfolding find_None_iff c [symmetric] set_chain by auto
    then show ?thesis by (simp add: fallback_after_def)
  qed
  moreover have "select cs kind = (if 0 < n then Some (ladder ! 0) else None)"
    using select_chain [OF assms(1), of kind, unfolded len] c by simp
  ultimately show ?thesis using sort_candidates_lays_chain [of cs kind] assms(2) by simp
qed

definition sample_candidates :: "Candidate list" where
  "sample_candidates =
     (let a = \<lambda>pr tr good. \<lparr>at_priority = pr, at_tries_left = tr, at_successful = good, at_sealed = True, at_read_only = True, at_required = True\<rparr>
      in [\<lparr>cd_id = [1], cd_kind = PkBoot, cd_version = 9, cd_attributes = a 1 1 True, cd_readable = True\<rparr>,
          \<lparr>cd_id = [2], cd_kind = PkKube, cd_version = 2, cd_attributes = a 15 1 True, cd_readable = True\<rparr>,
          \<lparr>cd_id = [3], cd_kind = PkUnspecified, cd_version = 4, cd_attributes = a 5 0 True, cd_readable = True\<rparr>,
          \<lparr>cd_id = [4], cd_kind = PkBoot, cd_version = 4, cd_attributes = a 5 1 False, cd_readable = True\<rparr>])"

theorem fallback_walks_chain_witness:
  "distinct (map cd_id sample_candidates) \<and> map cd_id (fst (sort_candidates sample_candidates (Some PkBoot))) = [[4], [3], [1], [2]]
   \<and> map_option cd_id (fallback_after sample_candidates [4] (Some PkBoot)) = Some [3]"
proof -
  have d: "distinct (map cd_id sample_candidates)" by code_simp
  have f: "map cd_id (fst (sort_candidates sample_candidates (Some PkBoot))) = [[4], [3], [1], [2]]"
    and n: "snd (sort_candidates sample_candidates (Some PkBoot)) = 3" by code_simp+
  obtain l where l: "sort_candidates sample_candidates (Some PkBoot) = (l, 3)" using n by (metis prod.collapse)
  with f have i: "cd_id (l ! 0) = [4]" "cd_id (l ! 1) = [3]" by (auto simp: map_eq_Cons_conv)
  from fallback_walks_chain [OF d l] have "fallback_after sample_candidates (cd_id (l ! 0)) (Some PkBoot) = Some (l ! 1)" by simp
  with d f i show ?thesis by simp
qed

end
