(* ===== verification/PalletBuild.thy ===== *)
theory PalletBuild
  imports Pallet
begin

text \<open>
  Writing pallets and reading them over a device (\<open>src/pallet/format.rs\<close>, with the partition
  view and the content sources of \<open>src/pallet/mod.rs\<close> and the signature of \<open>src/pallet/sign.rs\<close>).
  The view's offsets are 64-bit words and wrap; the builder's sizes are natural numbers. A device
  is its bytes, and refuses only what lies outside them.
\<close>

section \<open>Errors\<close>

datatype PalletError =
    PeDrive | PeBadMagic | PeUnsupportedVersion u32 | PeBadGeometry | PeBadHeaderCrc | PeBadMemberCrc | PeBadExtentCrc
  | PeTruncated | PeDigestMismatch bytes | PeManifestMismatch | PeNoDigest bytes | PeNotFound bytes | PeOutOfRange
  | PeTooLong nat nat | PeNoSpace nat nat | PeRefused | PeNotGpt | PeBadEntryCrc | PeOverlaps "nat list"
  | PeAttributeRange u8 u8

fun pe_from :: "pal_error \<Rightarrow> PalletError" where
  "pe_from BadMagic = PeBadMagic"
| "pe_from (UnsupportedVersion v) = PeUnsupportedVersion v"
| "pe_from BadGeometry = PeBadGeometry"
| "pe_from BadHeaderCrc = PeBadHeaderCrc"
| "pe_from BadMemberCrc = PeBadMemberCrc"
| "pe_from BadExtentCrc = PeBadExtentCrc"
| "pe_from Truncated = PeTruncated"
| "pe_from NotFound = PeNotFound []"
| "pe_from PalOutOfRange = PeOutOfRange"
| "pe_from ManifestMismatch = PeManifestMismatch"
| "pe_from DigestMismatch = PeDigestMismatch []"
| "pe_from NoDigest = PeNoDigest []"
| "pe_from ReadFailed = PeRefused"
| "pe_from ScratchTooSmall = PeBadGeometry"

type_synonym 'a pe = "PalletError + 'a"

section \<open>A device and a partition of it\<close>

record bdev =
  bd_bs :: nat
  bd_data :: bytes

definition bd_read :: "bdev \<Rightarrow> nat \<Rightarrow> nat \<Rightarrow> bytes pe" where
  "bd_read d at n = (if at + n \<le> length (bd_data d) then Inr (slice_of at (at + n) (bd_data d)) else Inl PeDrive)"

definition bd_write :: "bdev \<Rightarrow> nat \<Rightarrow> bytes \<Rightarrow> unit pe \<times> bdev" where
  "bd_write d at b =
     (if at + length b \<le> length (bd_data d) then (Inr (), d\<lparr>bd_data := put at b (bd_data d)\<rparr>) else (Inl PeDrive, d))"

record PartitionView =
  pv_start :: u64
  pv_len :: u64

definition pv_whole :: "bdev \<Rightarrow> PartitionView" where
  "pv_whole d = \<lparr>pv_start = 0, pv_len = of_nat (length (bd_data d))\<rparr>"

definition pv_read_at :: "bdev \<Rightarrow> PartitionView \<Rightarrow> u64 \<Rightarrow> nat \<Rightarrow> bytes pe" where
  "pv_read_at d v offset n =
     (if n = 0 then Inr []
      else if offset + of_nat n > pv_len v then Inl PeOutOfRange
      else let bs = bd_bs d; abs = unat (pv_start v + offset); aligned = abs div bs * bs; skew = abs - aligned;
               span = div_ceil (skew + n) bs * bs
        in case bd_read d aligned span of Inl e \<Rightarrow> Inl e | Inr tmp \<Rightarrow> Inr (slice_of skew (skew + n) tmp))"

text \<open>The edge blocks that must be preserved, read before the write.\<close>

definition pv_edges :: "bdev \<Rightarrow> nat \<Rightarrow> nat \<Rightarrow> nat \<Rightarrow> nat \<Rightarrow> bytes pe" where
  "pv_edges d aligned skew len span =
     (let bs = bd_bs d; tmp = zero_buf span; head_partial = skew \<noteq> 0; tail_partial = (skew + len) mod bs \<noteq> 0 in
      if head_partial \<or> tail_partial
      then if span = bs then bd_read d aligned span
        else case (if head_partial then map_sum (\<lambda>e. e) (\<lambda>b. put 0 b tmp) (bd_read d aligned bs) else Inr tmp) of
          Inl e \<Rightarrow> Inl e
        | Inr tmp \<Rightarrow>
            let edge = span - bs in
            if tail_partial then map_sum (\<lambda>e. e) (\<lambda>b. put edge b tmp) (bd_read d (aligned + edge) bs) else Inr tmp
      else Inr tmp)"

definition pv_write_at :: "bdev \<Rightarrow> PartitionView \<Rightarrow> u64 \<Rightarrow> bytes \<Rightarrow> unit pe \<times> bdev" where
  "pv_write_at d v offset buf =
     (if buf = [] then (Inr (), d)
      else if offset + of_nat (length buf) > pv_len v then (Inl PeOutOfRange, d)
      else let bs = bd_bs d; abs = unat (pv_start v + offset); aligned = abs div bs * bs; skew = abs - aligned;
               span = div_ceil (skew + length buf) bs * bs
        in case pv_edges d aligned skew (length buf) span of
             Inl e \<Rightarrow> (Inl e, d)
           | Inr tmp \<Rightarrow> bd_write d aligned (put skew buf tmp))"

section \<open>Member content\<close>

text \<open>The trait \<open>MemberContent\<close>, and two of its sources.\<close>

record MemberContent =
  ct_len :: nat
  ct_read :: "nat \<Rightarrow> nat \<Rightarrow> bytes pe"

definition bytes_content :: "bytes \<Rightarrow> MemberContent" where
  "bytes_content b =
     \<lparr>ct_len = length b,
      ct_read = (\<lambda>offset n. if offset + n > length b then Inl PeOutOfRange else Inr (slice_of offset (offset + n) b))\<rparr>"

definition device_content :: "bdev \<Rightarrow> nat \<Rightarrow> MemberContent" where
  "device_content d len =
     (let v = \<lparr>pv_start = 0, pv_len = of_nat (max (length (bd_data d)) len)\<rparr> in
      \<lparr>ct_len = len,
       ct_read = (\<lambda>offset n. if offset + n > len then Inl PeOutOfRange else pv_read_at d v (of_nat offset) n)\<rparr>)"

definition IO_CHUNK :: nat where "IO_CHUNK = 1024 * 1024"

lemma IO_CHUNK_pos [simp]: "0 < IO_CHUNK"
  by (simp add: IO_CHUNK_def)

function read_chunks :: "MemberContent \<Rightarrow> nat \<Rightarrow> bytes \<Rightarrow> bytes pe" where
  "read_chunks c off acc =
     (if off < ct_len c
      then let n = min (ct_len c - off) IO_CHUNK in
        (case ct_read c off n of Inl e \<Rightarrow> Inl e | Inr chunk \<Rightarrow> read_chunks c (off + n) (acc @ chunk))
      else Inr acc)"
  by pat_completeness auto
termination
  by (relation "measure (\<lambda>(c, off, acc). ct_len c - off)") (auto simp: IO_CHUNK_def)

declare read_chunks.simps [simp del]

definition digest_content :: "(bytes \<Rightarrow> bytes) \<Rightarrow> MemberContent \<Rightarrow> bytes pe" where
  "digest_content sha c = map_sum (\<lambda>e. e) sha (read_chunks c 0 [])"

section \<open>The builder\<close>

record MemberSpec =
  ms_name :: bytes
  ms_role :: bytes
  ms_kind :: MemberKind
  ms_flags :: u32
  ms_content :: MemberContent
  ms_reserve :: nat

definition member_spec_new :: "bytes \<Rightarrow> bytes \<Rightarrow> MemberKind \<Rightarrow> MemberContent \<Rightarrow> MemberSpec" where
  "member_spec_new name role kind content =
     \<lparr>ms_name = name, ms_role = role, ms_kind = kind, ms_flags = FLAG_SEALED OR FLAG_READ_ONLY OR FLAG_DIGEST,
      ms_content = content, ms_reserve = 0\<rparr>"

record Placement =
  pp_member :: nat
  pp_offset :: nat
  pp_len :: nat
  pp_digest :: bytes

record BuiltPallet =
  bp_header :: bytes
  bp_placements :: "Placement list"
  bp_member_data_offset :: nat
  bp_block_size :: u32
  bp_manifest_digest :: bytes
  bp_total_bytes :: nat

record PalletBuilder =
  pb_name :: bytes
  pb_kind :: PalletKind
  pb_version_label :: bytes
  pb_pallet_version :: u64
  pb_block_size :: u32
  pb_attributes :: Attributes
  pb_members :: "MemberSpec list"
  pb_content_align :: "nat option"

definition pal_align_up :: "nat \<Rightarrow> nat \<Rightarrow> nat" where
  "pal_align_up v a = div_ceil v a * a"

definition wr_u32 :: "nat \<Rightarrow> u32 \<Rightarrow> bytes \<Rightarrow> bytes" where
  "wr_u32 at v b = put at (to_le 4 v) b"

definition wr_u64 :: "nat \<Rightarrow> u64 \<Rightarrow> bytes \<Rightarrow> bytes" where
  "wr_u64 at v b = put at (to_le 8 v) b"

text \<open>\<open>write_fixed\<close> into the \<open>n\<close> bytes at \<open>at\<close>.\<close>

definition write_fixed :: "nat \<Rightarrow> nat \<Rightarrow> bytes \<Rightarrow> bytes \<Rightarrow> bytes pe" where
  "write_fixed at n s b = (if length s > n then Inl (PeTooLong n (length s)) else Inr (put at s b))"

record build_state =
  bs_members_tbl :: bytes
  bs_extents_tbl :: bytes
  bs_placements :: "Placement list"
  bs_cursor :: nat
  bs_extent_idx :: nat

text \<open>One extent table entry, and one member table entry, over the zeroed bytes they are written into.\<close>

definition extent_entry :: "nat \<Rightarrow> nat \<Rightarrow> bytes \<Rightarrow> bytes" where
  "extent_entry partition_block blocks e =
     wr_u32 24 0 (wr_u64 16 (of_nat blocks) (wr_u64 8 (of_nat partition_block) (wr_u64 0 0 e)))"

definition member_entry :: "MemberSpec \<Rightarrow> nat \<Rightarrow> u32 \<Rightarrow> u32 \<Rightarrow> bytes \<Rightarrow> bytes \<Rightarrow> bytes pe" where
  "member_entry m len first count digest e =
     (case write_fixed 0 PAL_NAME_LEN (ms_name m) e of
        Inl er \<Rightarrow> Inl er
      | Inr e \<Rightarrow>
          (case write_fixed 40 ROLE_LEN (ms_role m) e of
             Inl er \<Rightarrow> Inl er
           | Inr e \<Rightarrow>
               Inr (put 80 digest (wr_u32 76 count (wr_u32 72 first (wr_u64 64 (of_nat len)
                 (wr_u32 60 (ms_flags m) (wr_u32 56 (member_kind_to_u32 (ms_kind m)) e))))))))"

text \<open>Where a member's content goes: the extent written and the cursor moved past it, or nothing for an empty one.\<close>

definition place_member :: "nat \<Rightarrow> nat \<Rightarrow> nat \<Rightarrow> MemberSpec \<Rightarrow> bytes \<Rightarrow> build_state \<Rightarrow> build_state \<times> u32 \<times> u32" where
  "place_member bs align i m digest st =
     (let len = ct_len (ms_content m) in
      if len > 0
      then let cursor = pal_align_up (bs_cursor st) align; blocks = div_ceil len bs; x = bs_extent_idx st;
               e = slice_of (x * EXTENT_LEN) ((x + 1) * EXTENT_LEN) (bs_extents_tbl st)
        in (st\<lparr>bs_extents_tbl := put (x * EXTENT_LEN) (extent_entry (cursor div bs) blocks e) (bs_extents_tbl st),
               bs_extent_idx := x + 1,
               bs_placements := bs_placements st @ [\<lparr>pp_member = i, pp_offset = cursor, pp_len = len, pp_digest = digest\<rparr>],
               bs_cursor := cursor + max (blocks * bs) (pal_align_up (ms_reserve m) bs)\<rparr>, of_nat x, 1)
      else (st\<lparr>bs_placements := bs_placements st @ [\<lparr>pp_member = i, pp_offset = bs_cursor st, pp_len = 0, pp_digest = digest\<rparr>]\<rparr>, 0, 0))"

fun build_members :: "(bytes \<Rightarrow> bytes) \<Rightarrow> nat \<Rightarrow> nat \<Rightarrow> nat \<Rightarrow> MemberSpec list \<Rightarrow> build_state \<Rightarrow> build_state pe" where
  "build_members sha bs align i [] st = Inr st"
| "build_members sha bs align i (m # ms) st =
     (case digest_content sha (ms_content m) of
        Inl e \<Rightarrow> Inl e
      | Inr digest \<Rightarrow>
          (case place_member bs align i m digest st of
             (st, first, count) \<Rightarrow>
               (case member_entry m (ct_len (ms_content m)) first count digest
                       (slice_of (i * MEMBER_LEN) ((i + 1) * MEMBER_LEN) (bs_members_tbl st)) of
                  Inl e \<Rightarrow> Inl e
                | Inr entry \<Rightarrow>
                    build_members sha bs align (i + 1) ms (st\<lparr>bs_members_tbl := put (i * MEMBER_LEN) entry (bs_members_tbl st)\<rparr>))))"

text \<open>The superblock and the tables behind it, sealed last.\<close>

definition build_fields :: "PalletBuilder \<Rightarrow> nat \<Rightarrow> nat \<Rightarrow> bytes \<Rightarrow> bytes \<Rightarrow> bytes \<Rightarrow> bytes" where
  "build_fields b extent_count member_data_offset digest members_tbl extents_tbl =
     (let h = zero_buf member_data_offset;
          h = put 0 PAL_MAGIC h;
          h = wr_u32 8 PAL_VERSION h;
          h = wr_u32 12 (of_nat PAL_SUPERBLOCK_LEN) h;
          h = wr_u32 16 (pb_block_size b) h;
          h = wr_u32 20 (of_nat MEMBER_LEN) h;
          h = wr_u32 24 (of_nat (length (pb_members b))) h;
          h = wr_u32 28 (of_nat EXTENT_LEN) h;
          h = wr_u32 32 (of_nat extent_count) h;
          h = wr_u64 36 (pb_pallet_version b) h;
          h = wr_u64 44 (of_nat member_data_offset) h;
          h = put 52 (pb_name b) h;
          h = put 92 digest h;
          h = wr_u32 124 (crc32 members_tbl) h;
          h = wr_u32 128 (crc32 extents_tbl) h;
          h = wr_u64 136 (to_superblock_flags (pb_attributes b)) h;
          h = wr_u32 144 (pallet_kind_to_u32 (pb_kind b)) h;
          h = put 148 (pb_version_label b) h;
          h = put PAL_SUPERBLOCK_LEN members_tbl h
      in put (PAL_SUPERBLOCK_LEN + length members_tbl) extents_tbl h)"

definition build_header :: "PalletBuilder \<Rightarrow> nat \<Rightarrow> nat \<Rightarrow> bytes \<Rightarrow> bytes \<Rightarrow> bytes \<Rightarrow> bytes" where
  "build_header b extent_count member_data_offset digest members_tbl extents_tbl =
     (let h = build_fields b extent_count member_data_offset digest members_tbl extents_tbl
      in wr_u32 132 (superblock_crc h) h)"

definition content_alignment :: "PalletBuilder \<Rightarrow> nat pe" where
  "content_alignment b =
     (let a0 = max (unat (pb_block_size b)) PAL_SUPERBLOCK_LEN in
      case pb_content_align b of
        None \<Rightarrow> Inr a0
      | Some a \<Rightarrow> if a = 0 \<or> a AND (a - 1) \<noteq> 0 \<or> a < a0 then Inl PeBadGeometry else Inr a)"

definition build :: "(bytes \<Rightarrow> bytes) \<Rightarrow> PalletBuilder \<Rightarrow> BuiltPallet pe" where
  "build sha b =
     (if pb_block_size b < 512 \<or> \<not> is_power_of_two (pb_block_size b) then Inl PeBadGeometry
      else if length (pb_name b) > PAL_NAME_LEN then Inl (PeTooLong PAL_NAME_LEN (length (pb_name b)))
      else if length (pb_version_label b) > VERSION_LABEL_LEN then Inl (PeTooLong VERSION_LABEL_LEN (length (pb_version_label b)))
      else case content_alignment b of
        Inl e \<Rightarrow> Inl e
      | Inr align \<Rightarrow>
          let bs = unat (pb_block_size b); n = length (pb_members b);
              extent_count = length (filter (\<lambda>m. ct_len (ms_content m) > 0) (pb_members b));
              member_data_offset = pal_align_up (PAL_SUPERBLOCK_LEN + n * MEMBER_LEN + extent_count * EXTENT_LEN) align
          in (case build_members sha bs align 0 (pb_members b)
                     \<lparr>bs_members_tbl = zero_buf (n * MEMBER_LEN), bs_extents_tbl = zero_buf (extent_count * EXTENT_LEN),
                      bs_placements = [], bs_cursor = member_data_offset, bs_extent_idx = 0\<rparr> of
                Inl e \<Rightarrow> Inl e
              | Inr st \<Rightarrow>
                  let digest = sha (bs_members_tbl st @ bs_extents_tbl st) in
                  Inr \<lparr>bp_header = build_header b extent_count member_data_offset digest (bs_members_tbl st) (bs_extents_tbl st),
                    bp_placements = bs_placements st, bp_member_data_offset = member_data_offset,
                    bp_block_size = pb_block_size b, bp_manifest_digest = digest, bp_total_bytes = pal_align_up (bs_cursor st) bs\<rparr>))"

section \<open>Writing it out\<close>

function write_chunks :: "MemberContent \<Rightarrow> PartitionView \<Rightarrow> Placement \<Rightarrow> nat \<Rightarrow> bdev \<Rightarrow> unit pe \<times> bdev" where
  "write_chunks c v p off d =
     (if off < pp_len p
      then let n = min (pp_len p - off) IO_CHUNK in
        (case ct_read c off n of
           Inl e \<Rightarrow> (Inl e, d)
         | Inr chunk \<Rightarrow>
             (case pv_write_at d v (of_nat (pp_offset p + off)) chunk of
                (Inl e, d) \<Rightarrow> (Inl e, d)
              | (Inr _, d) \<Rightarrow> write_chunks c v p (off + n) d))
      else (Inr (), d))"
  by pat_completeness auto
termination
  by (relation "measure (\<lambda>(c, v, p, off, d). pp_len p - off)") (auto simp: IO_CHUNK_def)

declare write_chunks.simps [simp del]

fun write_contents :: "MemberSpec list \<Rightarrow> PartitionView \<Rightarrow> Placement list \<Rightarrow> bdev \<Rightarrow> unit pe \<times> bdev" where
  "write_contents ms v [] d = (Inr (), d)"
| "write_contents ms v (p # ps) d =
     (case write_chunks (ms_content (ms ! pp_member p)) v p 0 d of
        (Inl e, d) \<Rightarrow> (Inl e, d)
      | (Inr _, d) \<Rightarrow> write_contents ms v ps d)"

definition write_pallet :: "u32 \<Rightarrow> PalletBuilder \<Rightarrow> BuiltPallet \<Rightarrow> PartitionView \<Rightarrow> bdev \<Rightarrow> unit pe \<times> bdev" where
  "write_pallet min_bs b built v d =
     (if bp_total_bytes built > unat (pv_len v) then (Inl (PeNoSpace (bp_total_bytes built) (unat (pv_len v))), d)
      else if pb_block_size b < min_bs then (Inl PeBadGeometry, d)
      else case write_contents (pb_members b) v (bp_placements built) d of
        (Inl e, d) \<Rightarrow> (Inl e, d)
      | (Inr _, d) \<Rightarrow> pv_write_at d v 0 (bp_header built))"

definition publish :: "(bytes \<Rightarrow> bytes) \<Rightarrow> u32 \<Rightarrow> PalletBuilder \<Rightarrow> PartitionView \<Rightarrow> bdev \<Rightarrow> BuiltPallet pe \<times> bdev" where
  "publish sha min_bs b v d =
     (case build sha b of
        Inl e \<Rightarrow> (Inl e, d)
      | Inr built \<Rightarrow> (case write_pallet min_bs b built v d of (r, d) \<Rightarrow> (map_sum (\<lambda>e. e) (\<lambda>_. built) r, d)))"

section \<open>Reading it back\<close>

definition pallet_read :: "bdev \<Rightarrow> PartitionView \<Rightarrow> pallet pe option" where
  "pallet_read d v =
     (case pv_read_at d v 0 PAL_SUPERBLOCK_LEN of
        Inl e \<Rightarrow> Some (Inl e)
      | Inr head \<Rightarrow>
          (case pl_superblock_parse head of
             Inl e \<Rightarrow> Some (Inl (pe_from e))
           | Inr sb \<Rightarrow>
               (case pv_read_at d v 0 (tables_end sb) of
                  Inl e \<Rightarrow> Some (Inl e)
                | Inr buf \<Rightarrow> map_option (map_sum pe_from (\<lambda>p. p)) (pallet_parse buf))))"

partial_function (option) read_member_loop ::
  "pallet \<Rightarrow> pl_member \<Rightarrow> bdev \<Rightarrow> PartitionView \<Rightarrow> u64 \<Rightarrow> nat \<Rightarrow> bytes \<Rightarrow> bytes pe option" where
  "read_member_loop p m d v offset n acc =
     (if length acc < n then
        (case pal_map p m (offset + of_nat (length acc)) of
           None \<Rightarrow> None
         | Some (Inl e) \<Rightarrow> Some (Inl (pe_from e))
         | Some (Inr mp) \<Rightarrow>
             let k = min (unat (mp_run_len mp)) (n - length acc);
                 at = mp_partition_block mp * pal_bs p + mp_offset_in_block mp
             in (case pv_read_at d v at k of
                   Inl e \<Rightarrow> Some (Inl e)
                 | Inr b \<Rightarrow> read_member_loop p m d v offset n (acc @ b)))
      else Some (Inr acc))"

definition read_member :: "pallet \<Rightarrow> pl_member \<Rightarrow> bdev \<Rightarrow> PartitionView \<Rightarrow> u64 \<Rightarrow> nat \<Rightarrow> bytes pe option" where
  "read_member p m d v offset n =
     (if offset + of_nat n > pm_byte_len m then Some (Inl PeOutOfRange) else read_member_loop p m d v offset n [])"

partial_function (option) member_chunks :: "pallet \<Rightarrow> pl_member \<Rightarrow> bdev \<Rightarrow> PartitionView \<Rightarrow> nat \<Rightarrow> bytes \<Rightarrow> bytes pe option" where
  "member_chunks p m d v off acc =
     (if off < unat (pm_byte_len m) then
        let n = min (unat (pm_byte_len m) - off) IO_CHUNK in
        (case read_member p m d v (of_nat off) n of
           None \<Rightarrow> None
         | Some (Inl e) \<Rightarrow> Some (Inl e)
         | Some (Inr chunk) \<Rightarrow> member_chunks p m d v (off + n) (acc @ chunk))
      else Some (Inr acc))"

definition pallet_digest_of :: "(bytes \<Rightarrow> bytes) \<Rightarrow> pallet \<Rightarrow> pl_member \<Rightarrow> bdev \<Rightarrow> PartitionView \<Rightarrow> bytes pe option" where
  "pallet_digest_of sha p m d v = map_option (map_sum (\<lambda>e. e) sha) (member_chunks p m d v 0 [])"

definition pallet_verify_member :: "(bytes \<Rightarrow> bytes) \<Rightarrow> pallet \<Rightarrow> pl_member \<Rightarrow> bdev \<Rightarrow> PartitionView \<Rightarrow> unit pe option" where
  "pallet_verify_member sha p m d v =
     (if \<not> has_digest m then Some (Inl (PeNoDigest (pm_name_str m)))
      else case pallet_digest_of sha p m d v of
        None \<Rightarrow> None
      | Some (Inl e) \<Rightarrow> Some (Inl e)
      | Some (Inr g) \<Rightarrow> Some (if g \<noteq> pm_digest m then Inl (PeDigestMismatch (pm_name_str m)) else Inr ()))"

fun pallet_verify_members :: "(bytes \<Rightarrow> bytes) \<Rightarrow> pallet \<Rightarrow> bdev \<Rightarrow> PartitionView \<Rightarrow> pl_member list \<Rightarrow> unit pe option" where
  "pallet_verify_members sha p d v [] = Some (Inr ())"
| "pallet_verify_members sha p d v (m # ms) =
     (if has_digest m
      then (case pallet_verify_member sha p m d v of
              None \<Rightarrow> None
            | Some (Inl e) \<Rightarrow> Some (Inl e)
            | Some (Inr _) \<Rightarrow> pallet_verify_members sha p d v ms)
      else pallet_verify_members sha p d v ms)"

text \<open>\<open>Pallet::members\<close> skips an entry that does not parse; \<open>None\<close> is a panic of the shared reader.\<close>

fun members_from :: "pallet \<Rightarrow> nat list \<Rightarrow> pl_member list option" where
  "members_from p [] = Some []"
| "members_from p (i # is) =
     (case pal_member p i of
        None \<Rightarrow> None
      | Some (Inl _) \<Rightarrow> members_from p is
      | Some (Inr m) \<Rightarrow> map_option (\<lambda>ms. m # ms) (members_from p is))"

definition pallet_members :: "pallet \<Rightarrow> pl_member list option" where
  "pallet_members p = members_from p [0..<unat (pl_member_count (pa_sb p))]"

definition pallet_verify_all :: "(bytes \<Rightarrow> bytes) \<Rightarrow> pallet \<Rightarrow> bdev \<Rightarrow> PartitionView \<Rightarrow> unit pe option" where
  "pallet_verify_all sha p d v =
     (case verify_manifest sha p of
        None \<Rightarrow> None
      | Some (Inl e) \<Rightarrow> Some (Inl (pe_from e))
      | Some (Inr _) \<Rightarrow> (case pallet_members p of None \<Rightarrow> None | Some ms \<Rightarrow> pallet_verify_members sha p d v ms))"

section \<open>Signatures\<close>

text \<open>\<open>attach\<close>: the check of the signature is the parameter \<open>verifies\<close>. Nothing changes unless it holds.\<close>

datatype attach_error = NotASuperblock pal_error | NotTheSignature

definition attach :: "(bytes \<Rightarrow> bytes) \<Rightarrow> (bytes \<Rightarrow> bytes \<Rightarrow> bytes \<Rightarrow> bool) \<Rightarrow> bytes \<Rightarrow> bytes \<Rightarrow> bytes \<Rightarrow> (attach_error + unit) \<times> bytes" where
  "attach sha verifies header public_key sig =
     (case pl_superblock_parse header of
        Inl e \<Rightarrow> (Inl (NotASuperblock e), header)
      | Inr sb \<Rightarrow>
          if \<not> verifies public_key (pl_signing_message sb) sig then (Inl NotTheSignature, header)
          else let h = put 180 (to_le 4 SIG_ALG_ED25519) header;
                   h = put 184 (key_id_of sha public_key) h;
                   h = put 200 sig h
            in (Inr (), put 132 (to_le 4 (superblock_crc h)) h))"

end
