(* ===== verification/PalletSpec.thy ===== *)
theory PalletSpec
  imports Pallet
begin

text \<open>
  What the pallet reader promises. The checksum of a superblock leaves its own field out; a buffer
  that parses is never read out of range; the digest of a member whose extents cover it is the hash
  of its bytes, in order. A member whose extent count times the block size is a multiple of
  \<open>2^64\<close> is the exception: its digest never comes.
\<close>

section \<open>The checksum leaves its own field out\<close>

lemma superblock_crc_put: "length x = 4 \<Longrightarrow> superblock_crc (put 132 x b) = superblock_crc b"
  by (simp add: superblock_crc_def Let_def buf_simps)

lemma superblock_crc_zeroed:
  assumes "PAL_SUPERBLOCK_LEN \<le> length b"
  shows "superblock_crc b = crc32 (take PAL_SUPERBLOCK_LEN (put 132 [0, 0, 0, 0] b))"
  using assms by (simp add: superblock_crc_def Let_def crc32_def crc32_continue_append put_append slice_of_def PAL_SUPERBLOCK_LEN_def)

section \<open>Attributes and kinds\<close>

lemma nibble_high [simp]: "(w :: u8) < 16 \<Longrightarrow> 4 \<le> i \<Longrightarrow> \<not> bit w i"
proof -
  assume w: "w < 16" and i: "4 \<le> i"
  then have "take_bit 4 (unat w) = unat w" by (intro take_bit_nat_eq_self) (simp add: word_less_nat_alt)
  then have "\<not> bit (unat w) i" using i by (metis bit_take_bit_iff not_less)
  then show "\<not> bit w i" by (auto simp: bit_unsigned_iff dest: bit_imp_le_length)
qed

lemma mask_nibble: "(0xF :: u64) = mask 4"
  by (simp add: mask_eq_exp_minus_1)

lemma bit_nibble_at: "(w :: u8) < 16 \<Longrightarrow> bit (push_bit k (ucast w AND 0xF :: u64)) i \<longleftrightarrow> k \<le> i \<and> i < 64 \<and> bit w (i - k)"
  unfolding mask_nibble by (cases "i - k < 4") (auto simp: bit_simps)

lemma bit_flag_at: "bit (push_bit k (of_bool f :: u64)) i \<longleftrightarrow> i = k \<and> i < 64 \<and> f"
  by (auto simp: bit_simps)

lemma attributes_bit:
  assumes "at_priority a < 16" "at_tries_left a < 16" "i < 64"
  shows "bit (attributes_to_u64 a) i \<longleftrightarrow>
    (48 \<le> i \<and> bit (at_priority a) (i - 48) \<or> 52 \<le> i \<and> bit (at_tries_left a) (i - 52) \<or> i = 56 \<and> at_successful a
     \<or> i = 57 \<and> at_sealed a \<or> i = 58 \<and> at_read_only a \<or> i = 0 \<and> at_required a)"
  using assms unfolding attributes_to_u64_def bit_or_iff bit_flag_at bit_nibble_at [OF assms(1)] bit_nibble_at [OF assms(2)]
  by (simp add: bit_of_bool_iff)

lemma bit_and_1: "(w AND 1 \<noteq> 0) = bit w 0" for w :: "'a::len word"
  by (simp add: and_one_eq even_iff_mod_2_eq_zero [symmetric] bit_0)

text \<open>
  The state a GPT entry carries for a pallet survives the entry: the attribute word of a priority
  and a number of tries of four bits reads back as it was, flags included.
\<close>

theorem attributes_roundtrip:
  assumes "at_priority a < 16" "at_tries_left a < 16"
  shows "attributes_from_u64 (attributes_to_u64 a) = a"
proof -
  note b = attributes_bit [OF assms]
  have nib: "bit (ucast (drop_bit k w AND 0xF) :: u8) i \<longleftrightarrow> i < 4 \<and> bit w (k + i)" for k i and w :: u64
    unfolding mask_nibble by (auto simp: bit_simps)
  have "ucast (drop_bit 48 (attributes_to_u64 a) AND 0xF) = at_priority a"
    by (rule bit_word_eqI, unfold nib, rule iffI) (use assms in \<open>auto simp: b not_le [symmetric] intro: ccontr\<close>)
  moreover have "ucast (drop_bit 52 (attributes_to_u64 a) AND 0xF) = at_tries_left a"
    by (rule bit_word_eqI, unfold nib, rule iffI) (use assms in \<open>auto simp: b not_le [symmetric] intro: ccontr\<close>)
  ultimately show ?thesis
    using assms by (simp add: attributes_from_u64_def bit_and_1 bit_drop_bit_eq b)
qed

theorem attributes_roundtrip_witness:
  "attributes_from_u64 (attributes_to_u64 \<lparr>at_priority = 15, at_tries_left = 3, at_successful = False, at_sealed = True, at_read_only = False, at_required = True\<rparr>)
     = \<lparr>at_priority = 15, at_tries_left = 3, at_successful = False, at_sealed = True, at_read_only = False, at_required = True\<rparr>"
  by (rule attributes_roundtrip) simp_all

lemma pallet_kind_to_from: "pallet_kind_to_u32 (pallet_kind_from_u32 v) = v"
  by (simp add: pallet_kind_from_u32_def)

lemma member_kind_to_from: "member_kind_to_u32 (member_kind_from_u32 v) = v"
  by (simp add: member_kind_from_u32_def)

section \<open>No panic\<close>

lemma pl_superblock_parse_long: "pl_superblock_parse b = Inr sb \<Longrightarrow> PAL_SUPERBLOCK_LEN \<le> length b"
  by (auto simp: pl_superblock_parse_def split: if_splits)

lemma sub_slice_eq [simp]: "lo \<le> hi \<Longrightarrow> hi \<le> length b \<Longrightarrow> sub_slice lo hi b = Some (slice_of lo hi b)"
  by (simp add: sub_slice_def)

lemmas tables_defs = tables_end_def members_len_def extents_len_def PAL_SUPERBLOCK_LEN_def MEMBER_LEN_def EXTENT_LEN_def

lemma pallet_parse_total: "pallet_parse b \<noteq> None"
  by (auto simp: pallet_parse_def tables_defs split: sum.splits)

lemma pallet_parse_fits: "pallet_parse b = Some (Inr p) \<Longrightarrow> tables_end (pa_sb p) \<le> length (pa_buf p)"
  by (auto simp: pallet_parse_def split: sum.splits if_splits option.splits)

lemma pal_member_eq:
  assumes "tables_end (pa_sb p) \<le> length (pa_buf p)" "i < unat (pl_member_count (pa_sb p))"
  shows "pal_member p i = Some (member_parse (slice_of (PAL_SUPERBLOCK_LEN + i * MEMBER_LEN) (PAL_SUPERBLOCK_LEN + i * MEMBER_LEN + MEMBER_LEN) (pa_buf p)))"
proof -
  have "(i + 1) * MEMBER_LEN \<le> members_len (pa_sb p)" unfolding members_len_def by (rule mult_le_mono1) (use assms(2) in simp)
  with assms show ?thesis by (simp add: pal_member_def Let_def tables_defs)
qed

lemma pal_extent_eq:
  assumes "tables_end (pa_sb p) \<le> length (pa_buf p)" "i < unat (pl_extent_count (pa_sb p))"
  defines "at \<equiv> PAL_SUPERBLOCK_LEN + members_len (pa_sb p) + i * EXTENT_LEN"
  shows "pal_extent p i = Some (extent_parse (slice_of at (at + EXTENT_LEN) (pa_buf p)))"
proof -
  have "(i + 1) * EXTENT_LEN \<le> extents_len (pa_sb p)" unfolding extents_len_def by (rule mult_le_mono1) (use assms(2) in simp)
  with assms(1,2) show ?thesis by (simp add: pal_extent_def Let_def tables_defs at_def)
qed

lemma pal_member_total: "tables_end (pa_sb p) \<le> length (pa_buf p) \<Longrightarrow> pal_member p i \<noteq> None"
  by (cases "i < unat (pl_member_count (pa_sb p))") (simp add: pal_member_eq, simp add: pal_member_def)

lemma pal_extent_total: "tables_end (pa_sb p) \<le> length (pa_buf p) \<Longrightarrow> pal_extent p i \<noteq> None"
  by (cases "i < unat (pl_extent_count (pa_sb p))") (simp add: pal_extent_eq, simp add: pal_extent_def)

lemma find_member_total: "tables_end (pa_sb p) \<le> length (pa_buf p) \<Longrightarrow> find_member q p is \<noteq> None"
  by (induction "is") (auto dest: pal_member_total split: option.splits sum.splits)

lemma map_loop_total: "tables_end (pa_sb p) \<le> length (pa_buf p) \<Longrightarrow> map_loop p m off is \<noteq> None"
  by (induction "is") (auto simp: Let_def dest: pal_extent_total split: option.splits sum.splits)

lemma verify_manifest_total: "tables_end (pa_sb p) \<le> length (pa_buf p) \<Longrightarrow> verify_manifest sha p \<noteq> None"
  by (simp add: verify_manifest_def manifest_digest_def pal_tables_def tables_end_def)

text \<open>
  C37. Whatever bytes the reader is given, parsing them ends in a pallet or an error, and no lookup in
  a pallet it accepted reads out of range: members, extents, the search by name and by role, the
  remap of any offset of any member, and the manifest's check. \<open>None\<close> is the panic that does not
  happen.
\<close>

theorem pallet_reader_never_panics:
  "case pallet_parse b of
     None \<Rightarrow> False
   | Some (Inl _) \<Rightarrow> True
   | Some (Inr p) \<Rightarrow>
       (\<forall>i. pal_member p i \<noteq> None \<and> pal_extent p i \<noteq> None) \<and> (\<forall>s. pal_find p s \<noteq> None \<and> pal_find_role p s \<noteq> None)
       \<and> (\<forall>m offset. pal_map p m offset \<noteq> None) \<and> (\<forall>sha. verify_manifest sha p \<noteq> None)"
  using pallet_parse_total [of b] pallet_parse_fits [of b]
  by (auto simp: pal_find_def pal_find_role_def pal_map_def
      dest: pal_member_total pal_extent_total find_member_total map_loop_total verify_manifest_total split: option.split sum.split)

section \<open>Where a member's bytes lie\<close>

text \<open>
  The reference: the bytes of a member are those at the same distance into the extent that covers
  their block, out of the partition's image.
\<close>

definition ext_covers :: "pl_extent \<Rightarrow> nat \<Rightarrow> bool" where
  "ext_covers x lb \<longleftrightarrow> unat (px_logical_block x) \<le> lb \<and> lb < unat (px_logical_block x) + unat (px_block_count x)"

definition member_byte :: "nat \<Rightarrow> pl_extent list \<Rightarrow> bytes \<Rightarrow> nat \<Rightarrow> u8" where
  "member_byte bs xs img o1 =
     (case find (\<lambda>x. ext_covers x (o1 div bs)) xs of
        Some x \<Rightarrow> img ! (unat (px_partition_block x) * bs + (o1 - unat (px_logical_block x) * bs))
      | None \<Rightarrow> 0)"

definition extent_sound :: "nat \<Rightarrow> nat \<Rightarrow> pl_extent \<Rightarrow> bool" where
  "extent_sound bs room x \<longleftrightarrow>
     unat (px_logical_block x) + unat (px_block_count x) < 2 ^ 64 \<and> unat (px_block_count x) * bs < 2 ^ 64 \<and>
     (unat (px_partition_block x) + unat (px_block_count x)) * bs \<le> room"

text \<open>The extents \<open>xs\<close> of a member lie inside the partition, do not wrap, and cover each of its blocks once.\<close>

definition member_sound :: "pallet \<Rightarrow> pl_member \<Rightarrow> pl_extent list \<Rightarrow> nat \<Rightarrow> bool" where
  "member_sound p m xs room \<longleftrightarrow>
     (let bs = unat (pl_block_size (pa_sb p)) in
      0 < bs \<and> room < 2 ^ 64 \<and> bs dvd room \<and> length xs = unat (pm_extent_count m) \<and>
      (\<forall>i < length xs. pal_extent p (unat (pm_extent_first m) + i) = Some (Inr (xs ! i)) \<and> extent_sound bs room (xs ! i)) \<and>
      (\<forall>lb < div_ceil (unat (pm_byte_len m)) bs. length (filter (\<lambda>x. ext_covers x lb) xs) = 1))"

lemma unat_pal_bs [simp]: "unat (pal_bs p) = unat (pl_block_size (pa_sb p))"
proof -
  have "unat (pl_block_size (pa_sb p)) < 2 ^ 64" using unsigned_less [of "pl_block_size (pa_sb p)"] by (rule less_trans) simp
  then show ?thesis by (simp add: pal_bs_def unsigned_ucast_eq take_bit_nat_eq_self)
qed

lemma ext_covers_word:
  assumes "extent_sound bs room x"
  shows "(lb < px_logical_block x \<or> px_logical_block x + px_block_count x \<le> lb) \<longleftrightarrow> \<not> ext_covers x (unat lb)"
proof -
  have "unat (px_logical_block x + px_block_count x) = unat (px_logical_block x) + unat (px_block_count x)"
    using assms unat_add_lem [of "px_logical_block x" "px_block_count x"] by (simp add: extent_sound_def)
  then show ?thesis by (auto simp: ext_covers_def word_less_nat_alt word_le_nat_alt)
qed

text \<open>The mapping the code computes from one extent, and what it is in natural numbers.\<close>

definition mapping_in :: "u64 \<Rightarrow> pl_member \<Rightarrow> u64 \<Rightarrow> pl_extent \<Rightarrow> Mapping" where
  "mapping_in bs m offset x =
     (let into = offset div bs - px_logical_block x
      in \<lparr>mp_partition_block = px_partition_block x + into, mp_offset_in_block = offset mod bs,
          mp_run_len = min ((px_block_count x - into) * bs - offset mod bs) (pm_byte_len m - offset)\<rparr>)"

lemma map_loop_find:
  assumes "\<forall>i \<in> set is. pal_extent p (unat (pm_extent_first m) + i) = Some (Inr (xs ! i)) \<and> extent_sound bs room (xs ! i)"
  shows "map_loop p m offset is =
    (case find (\<lambda>i. ext_covers (xs ! i) (unat offset div unat (pal_bs p))) is of
       Some i \<Rightarrow> Some (Inr (mapping_in (pal_bs p) m offset (xs ! i))) | None \<Rightarrow> Some (Inl PalOutOfRange))"
  using assms
proof (induction "is")
  case (Cons i "is")
  have c: "(offset div pal_bs p < px_logical_block (xs ! i) \<or> px_logical_block (xs ! i) + px_block_count (xs ! i) \<le> offset div pal_bs p)
     \<longleftrightarrow> \<not> ext_covers (xs ! i) (unat offset div unat (pal_bs p))"
    using ext_covers_word [of bs room "xs ! i" "offset div pal_bs p"] Cons.prems by (simp add: unat_div_distrib)
  show ?case using Cons by (simp add: Let_def c mapping_in_def del: unat_pal_bs)
qed simp

lemma filter_one_find:
  assumes "length (filter P xs) = 1" "i < length xs" "P (xs ! i)"
  shows "find P xs = Some (xs ! i)" "find (\<lambda>i. P (xs ! i)) [0..<length xs] = Some i"
proof -
  have u: "j = i" if "j < length xs" "P (xs ! j)" for j
  proof -
    have "card {k. k < length xs \<and> P (xs ! k)} = 1" using assms(1) by (simp add: length_filter_conv_card)
    then obtain k where k: "{k. k < length xs \<and> P (xs ! k)} = {k}" by (rule card_1_singletonE)
    have "i \<in> {k}" "j \<in> {k}" using assms(2,3) that by (simp_all flip: k)
    then show ?thesis by simp
  qed
  have below: "\<not> P (xs ! j)" if "j < i" for j using u [of j] that assms(2) by auto
  show "find P xs = Some (xs ! i)" unfolding find_Some_iff by (rule exI [of _ i]) (use assms(2,3) below in simp)
  show "find (\<lambda>i. P (xs ! i)) [0..<length xs] = Some i" unfolding find_Some_iff by (rule exI [of _ i]) (use assms(2,3) below in simp)
qed

text \<open>What one lookup gives: a run that is not empty, inside the partition, holding the member's next bytes.\<close>

definition run_at :: "nat \<Rightarrow> Mapping \<Rightarrow> nat" where
  "run_at bs mp = unat (mp_partition_block mp) * bs + unat (mp_offset_in_block mp)"

lemma mapping_in_nat:
  assumes "extent_sound bs room x" "ext_covers x (unat offset div bs)" "unat w = bs" "0 < bs" "unat offset < unat (pm_byte_len m)" "room < 2 ^ 64"
  defines "l \<equiv> unat (px_logical_block x)" and "n \<equiv> unat (px_block_count x)" and "mp \<equiv> mapping_in w m offset x"
  shows "unat (mp_offset_in_block mp) = unat offset mod bs"
    and "unat (mp_partition_block mp) = unat (px_partition_block x) + (unat offset div bs - l)"
    and "unat (mp_run_len mp) = min ((l + n) * bs - unat offset) (unat (pm_byte_len m) - unat offset)"
proof -
  let ?lb = "unat offset div bs" and ?into = "offset div w - px_logical_block x"
  have lb: "l \<le> ?lb" "?lb < l + n" using assms(2) by (simp_all add: ext_covers_def l_def n_def)
  have div: "unat (offset div w) = ?lb" and md: "unat (offset mod w) = unat offset mod bs"
    using assms(3) by (simp_all add: unat_div_distrib unat_mod_distrib)
  have into: "unat ?into = ?lb - l"
    using lb(1) div by (subst unat_sub) (simp_all add: word_le_nat_alt l_def)
  show "unat (mp_offset_in_block mp) = unat offset mod bs" using md by (simp add: mp_def mapping_in_def Let_def)
  have part: "unat (px_partition_block x) + n < 2 ^ 64"
  proof -
    have "(unat (px_partition_block x) + n) * 1 \<le> (unat (px_partition_block x) + n) * bs" using assms(4) by (intro mult_le_mono2) simp
    also have "\<dots> \<le> room" using assms(1) by (simp add: extent_sound_def n_def)
    finally show ?thesis using assms(6) by simp
  qed
  have "unat ?into < n" using lb into by linarith
  with part have "unat (px_partition_block x) + unat ?into < 2 ^ 64" by linarith
  then have "unat (px_partition_block x + ?into) = unat (px_partition_block x) + unat ?into"
    using unat_add_lem [of "px_partition_block x" ?into] by simp
  then show "unat (mp_partition_block mp) = unat (px_partition_block x) + (?lb - l)"
    using into by (simp add: mp_def mapping_in_def Let_def)
  have rest: "unat (px_block_count x - ?into) = l + n - ?lb"
    using lb into by (subst unat_sub) (simp_all add: word_le_nat_alt n_def)
  have "(l + n - ?lb) * bs \<le> n * bs" using lb by (intro mult_le_mono1) simp
  also have "\<dots> < 2 ^ 64" using assms(1) by (simp add: extent_sound_def n_def)
  finally have "(l + n - ?lb) * bs < 2 ^ 64" .
  then have prod: "unat ((px_block_count x - ?into) * w) = (l + n - ?lb) * bs"
    using rest assms(3) unat_mult_lem [of "px_block_count x - ?into" w] by simp
  have "bs \<le> (l + n - ?lb) * bs" using lb by (cases "l + n - ?lb") auto
  then have le: "unat offset mod bs \<le> (l + n - ?lb) * bs" using mod_less_divisor [OF assms(4), of "unat offset"] by linarith
  have "unat ((px_block_count x - ?into) * w - offset mod w) = (l + n - ?lb) * bs - unat offset mod bs"
    using prod md le by (subst unat_sub) (simp_all add: word_le_nat_alt)
  also have "\<dots> = (l + n) * bs - unat offset"
    using minus_mod_eq_div_mult [of "unat offset" bs, symmetric] by (simp add: diff_mult_distrib)
  finally have run: "unat ((px_block_count x - ?into) * w - offset mod w) = (l + n) * bs - unat offset" .
  have "unat (pm_byte_len m - offset) = unat (pm_byte_len m) - unat offset"
    using assms(5) by (intro unat_sub) (simp add: word_le_nat_alt)
  with run show "unat (mp_run_len mp) = min ((l + n) * bs - unat offset) (unat (pm_byte_len m) - unat offset)"
    by (simp add: mp_def mapping_in_def Let_def min_def word_le_nat_alt)
qed

lemma mapping_in_run:
  assumes "extent_sound bs (length img) x" "ext_covers x (unat offset div bs)" "unat w = bs" "0 < bs"
    "unat offset < unat (pm_byte_len m)" "length img < 2 ^ 64"
    "\<And>lb. lb < div_ceil (unat (pm_byte_len m)) bs \<Longrightarrow> ext_covers x lb \<Longrightarrow> find (\<lambda>x. ext_covers x lb) xs = Some x"
  defines "mp \<equiv> mapping_in w m offset x"
  shows "0 < unat (mp_run_len mp)" "unat offset + unat (mp_run_len mp) \<le> unat (pm_byte_len m)"
    "unat (mp_offset_in_block mp) < bs" "run_at bs mp + unat (mp_run_len mp) \<le> length img"
    "slice_of (run_at bs mp) (run_at bs mp + unat (mp_run_len mp)) img
       = map (member_byte bs xs img) [unat offset..<unat offset + unat (mp_run_len mp)]"
proof -
  let ?o = "unat offset" and ?l = "unat (px_logical_block x)" and ?n = "unat (px_block_count x)" and ?p = "unat (px_partition_block x)"
  note nat = mapping_in_nat [OF assms(1-6), folded mp_def]
  have lb: "?l \<le> ?o div bs" "?o div bs < ?l + ?n" using assms(2) by (simp_all add: ext_covers_def)
  have lo: "?l * bs \<le> ?o" using lb(1) assms(4) by (simp add: less_eq_div_iff_mult_less_eq)
  have hi: "?o < (?l + ?n) * bs" using lb(2) assms(4) by (simp add: div_less_iff_less_mult)
  have at: "run_at bs mp = ?p * bs + (?o - ?l * bs)"
  proof -
    have "(?o div bs - ?l) * bs + ?o mod bs = ?o - ?l * bs"
      using lb(1) lo by (simp add: diff_mult_distrib)
    then show ?thesis by (simp add: run_at_def nat(1,2) add_mult_distrib)
  qed
  show "0 < unat (mp_run_len mp)" "?o + unat (mp_run_len mp) \<le> unat (pm_byte_len m)"
    using hi assms(5) by (simp_all add: nat(3))
  show "unat (mp_offset_in_block mp) < bs" using assms(4) by (simp add: nat(1))
  have fit: "run_at bs mp + ((?l + ?n) * bs - ?o) = (?p + ?n) * bs" using at lo hi by (simp add: add_mult_distrib)
  have "(?p + ?n) * bs \<le> length img" using assms(1) by (simp add: extent_sound_def)
  then show room: "run_at bs mp + unat (mp_run_len mp) \<le> length img" using fit by (simp add: nat(3) min_def)
  have "member_byte bs xs img (?o + j) = img ! (run_at bs mp + j)" if j: "j < unat (mp_run_len mp)" for j
  proof -
    have b: "?o + j < unat (pm_byte_len m)" "?o + j < (?l + ?n) * bs" using j unfolding nat(3) by linarith+
    have "?l \<le> (?o + j) div bs" using lo assms(4) by (simp add: less_eq_div_iff_mult_less_eq)
    moreover have "(?o + j) div bs < ?l + ?n" using b(2) assms(4) by (simp add: div_less_iff_less_mult)
    ultimately have c: "ext_covers x ((?o + j) div bs)" by (simp add: ext_covers_def)
    have "?o + j < div_ceil (unat (pm_byte_len m)) bs * bs" using b(1) div_ceil_ge [OF assms(4)] by (rule less_le_trans)
    then have "(?o + j) div bs < div_ceil (unat (pm_byte_len m)) bs" by (rule less_mult_imp_div_less)
    from assms(7) [OF this c] show ?thesis using lo by (simp add: member_byte_def at add.assoc)
  qed
  then show "slice_of (run_at bs mp) (run_at bs mp + unat (mp_run_len mp)) img
       = map (member_byte bs xs img) [?o..<?o + unat (mp_run_len mp)]"
    using room by (intro nth_equalityI) (simp_all add: nth_slice)
qed

lemma pal_map_run:
  assumes "member_sound p m xs (length img)" "offset < pm_byte_len m"
  defines "bs \<equiv> unat (pl_block_size (pa_sb p))"
  obtains mp where "pal_map p m offset = Some (Inr mp)"
    "0 < unat (mp_run_len mp)" "unat offset + unat (mp_run_len mp) \<le> unat (pm_byte_len m)"
    "unat (mp_offset_in_block mp) < bs" "run_at bs mp + unat (mp_run_len mp) \<le> length img"
    "slice_of (run_at bs mp) (run_at bs mp + unat (mp_run_len mp)) img
       = map (member_byte bs xs img) [unat offset..<unat offset + unat (mp_run_len mp)]"
proof -
  note s = assms(1) [unfolded member_sound_def Let_def, folded bs_def]
  have off: "unat offset < unat (pm_byte_len m)" using assms(2) by (simp add: word_less_nat_alt)
  also have "\<dots> \<le> div_ceil (unat (pm_byte_len m)) bs * bs" using s by (intro div_ceil_ge) simp
  finally have "unat offset div bs < div_ceil (unat (pm_byte_len m)) bs" by (rule less_mult_imp_div_less)
  then have one: "length (filter (\<lambda>x. ext_covers x (unat offset div bs)) xs) = 1" using s by simp
  then obtain x where "x \<in> set (filter (\<lambda>x. ext_covers x (unat offset div bs)) xs)" by (cases "filter (\<lambda>x. ext_covers x (unat offset div bs)) xs") auto
  then obtain i where i: "i < length xs" "ext_covers (xs ! i) (unat offset div bs)" by (auto simp: in_set_conv_nth)
  have find: "find (\<lambda>i. ext_covers (xs ! i) (unat offset div bs)) [0..<length xs] = Some i" using filter_one_find(2) [OF one i] .
  have map: "pal_map p m offset = Some (Inr (mapping_in (pal_bs p) m offset (xs ! i)))"
  proof -
    have "\<forall>i \<in> set [0..<length xs]. pal_extent p (unat (pm_extent_first m) + i) = Some (Inr (xs ! i)) \<and> extent_sound bs (length img) (xs ! i)"
      using s by simp
    from map_loop_find [OF this, of offset] show ?thesis
      using find s assms(2) by (simp add: pal_map_def bs_def)
  qed
  have f: "find (\<lambda>x. ext_covers x lb) xs = Some (xs ! i)" if "lb < div_ceil (unat (pm_byte_len m)) bs" "ext_covers (xs ! i) lb" for lb
    using filter_one_find(1) [of "\<lambda>x. ext_covers x lb" xs i] s that i(1) by simp
  have es: "extent_sound bs (length img) (xs ! i)" "unat (pal_bs p) = bs" "0 < bs" "length img < 2 ^ 64"
    using s i(1) by (simp_all add: bs_def)
  from that [OF map mapping_in_run [OF es(1) i(2) es(2,3) off es(4) f]] show thesis .
qed

section \<open>The digest of a member\<close>

text \<open>The reader of an image: whole blocks inside it are read as they are.\<close>

definition reads_image :: "nat \<Rightarrow> block_reader \<Rightarrow> bytes \<Rightarrow> bool" where
  "reads_image bs rd img \<longleftrightarrow>
     (\<forall>blk n. unat blk * bs + n * bs \<le> length img \<longrightarrow> rd blk (n * bs) = Some (slice_of (unat blk * bs) (unat blk * bs + n * bs) img))"

lemma slice_append: "a \<le> b \<Longrightarrow> b \<le> c \<Longrightarrow> slice_of a b xs @ slice_of b c xs = slice_of a c xs"
proof -
  assume le: "a \<le> b" "b \<le> c"
  then have "slice_of a c xs = take ((b - a) + (c - b)) (drop a xs)" by (simp add: slice_of_def)
  also have "\<dots> = take (b - a) (drop a xs) @ take (c - b) (drop (b - a) (drop a xs))" by (rule take_add)
  finally show ?thesis using le by (simp add: slice_of_def)
qed

lemma slice_slice: "b \<le> d - c \<Longrightarrow> slice_of a b (slice_of c d xs) = slice_of (c + a) (c + b) xs"
proof -
  assume "b \<le> d - c"
  then have "min (b - a) (d - c - a) = b - a" by simp
  then show ?thesis by (simp add: slice_of_def drop_take add.commute)
qed

lemma unat_of_nat64: "n < 2 ^ 64 \<Longrightarrow> unat (of_nat n :: u64) = n"
  by (simp add: unat_of_nat take_bit_nat_eq_self)

lemma blocks_fit:
  assumes "0 < bs" "bs dvd size1" "a * bs + n \<le> size1"
  shows "a * bs + div_ceil n bs * bs \<le> size1"
proof -
  obtain k where k: "size1 = bs * k" using assms(2) by (rule dvdE)
  with assms(3) have "n \<le> bs * (k - a)" by (simp add: diff_mult_distrib2 mult.commute)
  then have "div_ceil n bs \<le> k - a" by (rule div_ceil_le [OF assms(1)])
  moreover have "a \<le> k" using assms(1,3) k by (metis add_leD1 mult.commute mult_le_cancel1 not_le)
  ultimately have "(a + div_ceil n bs) * bs \<le> k * bs" by (intro mult_le_mono1) simp
  then show ?thesis unfolding k add_mult_distrib by (simp only: mult.commute [of bs k])
qed

lemma digest_run_reads:
  assumes "reads_image bs rd img" "0 < bs" "bs dvd length img" "length img < 2 ^ 64" "0 < cap"
    "in_block < bs" "unat blk * bs + in_block + unat r \<le> length img" "unat off + unat r < 2 ^ 64"
  shows "digest_run rd bs cap r blk in_block off acc =
    Some (Inr (off + r, acc @ slice_of (unat blk * bs + in_block) (unat blk * bs + in_block + unat r) img))"
  using assms(6-8)
proof (induction "unat r" arbitrary: r blk in_block off acc rule: less_induct)
  case less
  show ?case
  proof (cases "r = 0")
    case True
    then show ?thesis by (subst digest_run.simps) (simp add: slice_of_def)
  next
    case False
    let ?r = "unat r" and ?at = "unat blk * bs + in_block"
    define need where "need = min (div_ceil (in_block + ?r) bs) cap"
    define k where "k = min (need * bs - in_block) ?r"
    have r: "0 < ?r" "?r \<le> length img" using False less.prems(2) by (simp_all add: unat_gt_0)
    have ceil: "in_block + ?r \<le> div_ceil (in_block + ?r) bs * bs" by (rule div_ceil_ge [OF assms(2)])
    then have "0 < div_ceil (in_block + ?r) bs" using r(1) by (cases "div_ceil (in_block + ?r) bs") auto
    then have need: "0 < need" using assms(5) by (simp add: need_def)
    have fit: "unat blk * bs + need * bs \<le> length img"
    proof -
      have "need * bs \<le> div_ceil (in_block + ?r) bs * bs" unfolding need_def by (intro mult_le_mono1) simp
      moreover have "unat blk * bs + div_ceil (in_block + ?r) bs * bs \<le> length img"
        by (rule blocks_fit [OF assms(2,3)]) (use less.prems(2) in simp)
      ultimately show ?thesis by linarith
    qed
    have buf: "rd blk (need * bs) = Some (slice_of (unat blk * bs) (unat blk * bs + need * bs) img)"
      using assms(1) fit by (simp add: reads_image_def)
    have "bs \<le> need * bs" using need by (cases need) auto
    then have ib: "in_block < need * bs" using less.prems(1) by linarith
    have sum: "unat (of_nat in_block + r) = in_block + ?r"
    proof -
      have "in_block < 2 ^ 64" "in_block + ?r < 2 ^ 64" using less.prems(2) assms(4) by simp_all
      then show ?thesis by (simp add: unat_word_ariths unat_of_nat64 take_bit_nat_eq_self)
    qed
    have avail: "unat (of_nat (need * bs) - of_nat in_block :: u64) = need * bs - in_block"
    proof -
      have "need * bs < 2 ^ 64" "in_block < 2 ^ 64" using fit assms(4) ib by simp_all
      then show ?thesis using ib by (subst unat_sub) (simp_all add: word_le_nat_alt unat_of_nat64 del: of_nat_mult)
    qed
    have n: "unat (min (of_nat (need * bs) - of_nat in_block) r) = k"
      using avail by (simp add: k_def min_def word_le_nat_alt del: of_nat_mult)
    have k: "0 < k" "k \<le> ?r" "in_block + k \<le> need * bs" using ib r(1) by (simp_all add: k_def)
    have piece: "sub_slice in_block (in_block + k) (slice_of (unat blk * bs) (unat blk * bs + need * bs) img) = Some (slice_of ?at (?at + k) img)"
      using k(3) fit by (simp add: slice_slice add.assoc)
    have k64: "k < 2 ^ 64" using k(2) r(2) assms(4) by simp
    have rest: "unat (r - of_nat k) = ?r - k" using k(2) k64 by (subst unat_sub) (simp_all add: word_le_nat_alt unat_of_nat64)
    have step: "digest_run rd bs cap r blk in_block off acc =
        digest_run rd bs cap (r - of_nat k) (blk + of_nat need) 0 (off + of_nat k) (acc @ slice_of ?at (?at + k) img)"
      using False buf sum n piece by (subst digest_run.simps) (simp add: Let_def need_def [symmetric] word_gt_0 del: of_nat_mult)
    show ?thesis
    proof (cases "k = ?r")
      case True
      then have "r - of_nat k = 0" using rest by (simp add: unat_eq_0 [symmetric] del: unat_eq_0)
      moreover have "of_nat k = r" using True by simp
      ultimately show ?thesis unfolding step by (subst digest_run.simps) (simp add: True)
    next
      case False
      then have kn: "in_block + k = need * bs" using ib by (simp add: k_def min_def split: if_splits)
      have off: "unat (off + of_nat k) = unat off + k"
        using less.prems(3) k(2) k64 by (simp add: unat_word_ariths unat_of_nat64 take_bit_nat_eq_self)
      have blk: "unat (blk + of_nat need) = unat blk + need"
      proof -
        have "(unat blk + need) * 1 \<le> (unat blk + need) * bs" using assms(2) by (intro mult_le_mono2) simp
        then have "unat blk + need < 2 ^ 64" using fit assms(4) by (simp add: add_mult_distrib)
        then show ?thesis by (simp add: unat_word_ariths unat_of_nat64 take_bit_nat_eq_self)
      qed
      have at: "(unat blk + need) * bs + 0 = ?at + k" using kn by (simp add: add_mult_distrib)
      have "digest_run rd bs cap (r - of_nat k) (blk + of_nat need) 0 (off + of_nat k) (acc @ slice_of ?at (?at + k) img)
        = Some (Inr (off + of_nat k + (r - of_nat k), (acc @ slice_of ?at (?at + k) img) @ slice_of (?at + k) (?at + k + (?r - k)) img))"
        using less.hyps [of "r - of_nat k" 0 "blk + of_nat need" "off + of_nat k"] less.prems(2,3) k rest off blk at assms(2)
        by simp
      then show ?thesis unfolding step using k(2) by (simp add: slice_append add.assoc)
    qed
  qed
qed

lemma digest_loop_reads:
  assumes "member_sound p m xs (length img)" "reads_image (unat (pl_block_size (pa_sb p))) rd img" "0 < cap"
    "unat off \<le> unat (pm_byte_len m)"
  defines "bs \<equiv> unat (pl_block_size (pa_sb p))"
  shows "digest_loop p m rd bs cap off acc = Some (Inr (acc @ map (member_byte bs xs img) [unat off..<unat (pm_byte_len m)]))"
  using assms(4)
proof (induction "unat (pm_byte_len m) - unat off" arbitrary: off acc rule: less_induct)
  case less
  let ?n = "unat (pm_byte_len m)" and ?f = "member_byte bs xs img"
  have s: "0 < bs" "bs dvd length img" "length img < 2 ^ 64"
    using assms(1) by (simp_all add: member_sound_def Let_def bs_def)
  show ?case
  proof (cases "off < pm_byte_len m")
    case False
    then have "unat off = ?n" using less.prems by (simp add: word_less_nat_alt)
    with False show ?thesis by (subst digest_loop.simps) simp
  next
    case True
    obtain mp where mp: "pal_map p m off = Some (Inr mp)" and run: "0 < unat (mp_run_len mp)" "unat off + unat (mp_run_len mp) \<le> ?n"
      "unat (mp_offset_in_block mp) < bs" "run_at bs mp + unat (mp_run_len mp) \<le> length img"
      and sl: "slice_of (run_at bs mp) (run_at bs mp + unat (mp_run_len mp)) img = map ?f [unat off..<unat off + unat (mp_run_len mp)]"
      using pal_map_run [OF assms(1) True, folded bs_def] .
    have lt: "unat off + unat (mp_run_len mp) < 2 ^ 64" using run(2) unsigned_less [of "pm_byte_len m", where 'a = nat] by simp
    then have off: "unat (off + mp_run_len mp) = unat off + unat (mp_run_len mp)" using unat_add_lem [of off "mp_run_len mp"] by simp
    have dr: "digest_run rd bs cap (mp_run_len mp) (mp_partition_block mp) (unat (mp_offset_in_block mp)) off acc
        = Some (Inr (off + mp_run_len mp, acc @ map ?f [unat off..<unat off + unat (mp_run_len mp)]))"
      using digest_run_reads [OF assms(2) [folded bs_def] s assms(3) run(3), of "mp_partition_block mp" "mp_run_len mp" off acc] run(4) lt sl
      by (simp add: run_at_def)
    have "digest_loop p m rd bs cap off acc = digest_loop p m rd bs cap (off + mp_run_len mp) (acc @ map ?f [unat off..<unat off + unat (mp_run_len mp)])"
      using True mp dr by (subst digest_loop.simps) simp
    also have "\<dots> = Some (Inr ((acc @ map ?f [unat off..<unat off + unat (mp_run_len mp)]) @ map ?f [unat off + unat (mp_run_len mp)..<?n]))"
      using less.hyps [of "off + mp_run_len mp"] run(1,2) off by simp
    also have "\<dots> = Some (Inr (acc @ map ?f [unat off..<?n]))"
      using run(2) by (simp flip: map_append add: upt_add_eq_append [symmetric]) (metis le_add1 le_add_diff_inverse upt_add_eq_append)
    finally show ?thesis .
  qed
qed

text \<open>
  The digest of a member whose extents lie in the partition and cover each of its blocks once is
  the hash of exactly the member's bytes in order, whatever the scratch buffer lent for it, as long
  as it holds a block: the loop ends, no read misses, nothing is hashed twice or left out.
\<close>

theorem digest_of_member:
  assumes "member_sound p m xs (length img)" "reads_image (unat (pl_block_size (pa_sb p))) rd img"
    "unat (pl_block_size (pa_sb p)) \<le> scratch_len"
  shows "digest_of sha p m rd scratch_len =
    Some (Inr (sha (map (member_byte (unat (pl_block_size (pa_sb p))) xs img) [0..<unat (pm_byte_len m)])))"
proof -
  have "0 < scratch_len div unat (pl_block_size (pa_sb p))"
    using assms(1,3) by (simp add: member_sound_def Let_def div_greater_zero_iff)
  from digest_loop_reads [OF assms(1,2) this, of 0 "[]"] show ?thesis
    using assms(3) by (simp add: digest_of_def Let_def)
qed

section \<open>A digest that never comes\<close>

text \<open>
  C39. An extent that covers the start of a member and whose block count, times the block size, is a
  multiple of \<open>2^64\<close> makes the remap return a run of no bytes; the digest then asks for the same
  offset forever, whatever the reader, the scratch buffer and the hash are, so that the member is
  neither accepted nor refused.
\<close>

theorem digest_of_hostile_extent:
  assumes "pal_extent p (unat (pm_extent_first m)) = Some (Inr x)" "px_logical_block x = 0" "0 < px_block_count x"
    "px_block_count x * pal_bs p = 0" "0 < pm_extent_count m" "0 < pm_byte_len m" "unat (pl_block_size (pa_sb p)) \<le> scratch_len"
  shows "\<exists>mp. pal_map p m 0 = Some (Inr mp) \<and> mp_run_len mp = 0 \<and> digest_of sha p m rd scratch_len = None"
proof -
  have up: "[0..<unat (pm_extent_count m)] = 0 # [1..<unat (pm_extent_count m)]"
    using assms(5) by (simp add: upt_conv_Cons word_less_nat_alt)
  obtain mp where mp: "pal_map p m 0 = Some (Inr mp)" "mp_run_len mp = 0"
    using assms by (simp add: pal_map_def up Let_def not_le [symmetric])
  have "digest_loop p m rd bs cap 0 acc = Some y \<Longrightarrow> False" for bs cap acc y
  proof -
    assume a: "digest_loop p m rd bs cap 0 acc = Some y"
    have "\<not> (p = p \<and> m = m \<and> rd = rd \<and> (0 :: u64) = 0)"
      by (rule digest_loop.raw_induct [where P = "\<lambda>p' m' rd' bs' cap' off acc y. \<not> (p' = p \<and> m' = m \<and> rd' = rd \<and> off = 0)", OF _ a])
        (auto simp: digest_run.simps [of _ _ _ 0] mp assms(6) split: if_splits, blast)
    then show False by simp
  qed
  then have "digest_loop p m rd bs cap 0 acc = None" for bs cap acc by (metis not_Some_eq)
  with mp assms(7) show ?thesis by (simp add: digest_of_def Let_def)
qed

text \<open>A pallet of one member and one extent, at block 16 of the partition.\<close>

definition small_pallet :: "u64 \<Rightarrow> pallet" where
  "small_pallet blocks =
     \<lparr>pa_sb = \<lparr>pl_version = 1, pl_block_size = 512, pl_kind = PkBoot, pl_member_count = 0, pl_extent_count = 1, pl_pallet_version = 1,
        pl_member_data_offset = 8192, pl_manifest_digest = [], pl_members_crc = 0, pl_extents_crc = 0, pl_flags = 0, pl_name = [],
        pl_version_label = [], pl_kind_raw = 1, pl_sig_alg = 0, pl_sig_key_id = [], pl_sig = []\<rparr>,
      pa_buf = zero_buf PAL_SUPERBLOCK_LEN @ to_le 8 (0 :: u64) @ to_le 8 (16 :: u64) @ to_le 8 blocks @ zero_buf 8\<rparr>"

definition small_member :: pl_member where
  "small_member = \<lparr>pm_kind = MkKernel, pm_flags = FLAG_DIGEST, pm_byte_len = 700, pm_extent_first = 0, pm_extent_count = 1,
     pm_digest = [], pm_name = [], pm_role = []\<rparr>"

definition small_extent :: "u64 \<Rightarrow> pl_extent" where
  "small_extent blocks = \<lparr>px_logical_block = 0, px_partition_block = 16, px_block_count = blocks, px_flags = 0\<rparr>"

lemma small_extent_parse: "pal_extent (small_pallet blocks) 0 = Some (Inr (small_extent blocks))"
proof -
  let ?x = "to_le 8 (0 :: u64) @ to_le 8 (16 :: u64) @ to_le 8 blocks @ zero_buf 8"
  have "slice_of PAL_SUPERBLOCK_LEN (PAL_SUPERBLOCK_LEN + EXTENT_LEN) (zero_buf PAL_SUPERBLOCK_LEN @ ?x) = ?x"
    by (simp add: slice_of_def EXTENT_LEN_def)
  moreover have "extent_parse ?x = Inr (small_extent blocks)"
    by (simp add: extent_parse_def small_extent_def u64_at_def u32_at_def slice_of_def EXTENT_LEN_def zero_buf_def) (simp add: numeral_eq_Suc)
  ultimately show ?thesis
    by (simp add: pal_extent_def small_pallet_def members_len_def Let_def sub_slice_def EXTENT_LEN_def)
qed

theorem digest_of_hostile_extent_witness:
  "digest_of (\<lambda>b. b) (small_pallet (2 ^ 55)) small_member (\<lambda>_ n. Some (zero_buf n)) 512 = None"
proof -
  have "\<exists>mp. pal_map (small_pallet (2 ^ 55)) small_member 0 = Some (Inr mp) \<and> mp_run_len mp = 0
     \<and> digest_of (\<lambda>b. b) (small_pallet (2 ^ 55)) small_member (\<lambda>_ n. Some (zero_buf n)) 512 = None"
    by (rule digest_of_hostile_extent [where x = "small_extent (2 ^ 55)"])
      (simp_all add: small_member_def small_extent_parse, simp_all add: small_extent_def small_pallet_def pal_bs_def)
  then show ?thesis by blast
qed

theorem digest_of_member_witness:
  "digest_of (\<lambda>b. [of_nat (length b), last b]) (small_pallet 2) small_member
     (\<lambda>blk n. Some (slice_of (unat blk * 512) (unat blk * 512 + n) (replicate 9216 7))) 600 = Some (Inr [of_nat 700, 7])"
proof -
  let ?img = "replicate 9216 7 :: bytes"
  have bs: "unat (pl_block_size (pa_sb (small_pallet 2))) = 512" by (simp add: small_pallet_def)
  have c: "ext_covers (small_extent 2) lb \<longleftrightarrow> lb < 2" for lb by (auto simp: ext_covers_def small_extent_def)
  have s: "member_sound (small_pallet 2) small_member [small_extent 2] (length ?img)"
    unfolding member_sound_def bs Let_def
    by (simp add: small_extent_parse small_member_def c div_ceil_def) (simp add: extent_sound_def small_extent_def)
  have r: "reads_image 512 (\<lambda>blk n. Some (slice_of (unat blk * 512) (unat blk * 512 + n) ?img)) ?img"
    by (simp add: reads_image_def)
  have b: "member_byte 512 [small_extent 2] ?img k = 7" if "k < 700" for k
  proof -
    from that have "k div 512 < 2" by (simp add: div_less_iff_less_mult)
    then have "find (\<lambda>x. ext_covers x (k div 512)) [small_extent 2] = Some (small_extent 2)" by (simp add: c)
    then show ?thesis using that by (simp only: member_byte_def option.case) (simp add: small_extent_def)
  qed
  have "map (member_byte 512 [small_extent 2] ?img) [0..<unat (pm_byte_len small_member)] = replicate 700 7"
    by (rule nth_equalityI) (simp_all add: small_member_def b)
  with digest_of_member [OF s, unfolded bs, OF r, of 600 "\<lambda>b. [of_nat (length b), last b]"] show ?thesis
    by simp
qed

end
