(* ===== verification/PalletView.thy ===== *)
theory PalletView
  imports PalletBuild PalletSpec
begin

text \<open>
  A partition view reads and writes exactly the bytes it is asked for, whatever the block size
  underneath, as long as no sum wraps; where one does, its bound lets a read through that lies before
  the partition. The trait \<open>MemberContent\<close> is a locale: its law, that a source can be read again
  anywhere within its length, is what publishing rests on.
\<close>

section \<open>Reading and writing a view\<close>

definition view_ok :: "bdev \<Rightarrow> PartitionView \<Rightarrow> bool" where
  "view_ok d v \<longleftrightarrow> 0 < bd_bs d \<and> bd_bs d dvd length (bd_data d) \<and> length (bd_data d) < 2 ^ 64 \<and>
     unat (pv_start v) + unat (pv_len v) \<le> length (bd_data d)"

definition view_image :: "bdev \<Rightarrow> PartitionView \<Rightarrow> bytes" where
  "view_image d v = slice_of (unat (pv_start v)) (unat (pv_start v) + unat (pv_len v)) (bd_data d)"

lemma length_view_image: "view_ok d v \<Longrightarrow> length (view_image d v) = unat (pv_len v)"
  unfolding view_image_def view_ok_def length_slice by linarith

text \<open>Where an access of \<open>n\<close> bytes at \<open>off\<close> lands: the blocks around it lie in the device.\<close>

lemma view_span:
  assumes "view_ok d v" "off + n \<le> unat (pv_len v)"
  defines "bs \<equiv> bd_bs d" and "ab \<equiv> unat (pv_start v) + off"
  shows "\<not> pv_len v < of_nat off + of_nat n" "unat (pv_start v + of_nat off) = ab"
    "ab div bs * bs + div_ceil (ab - ab div bs * bs + n) bs * bs \<le> length (bd_data d)"
    "ab div bs * bs \<le> ab" "ab - ab div bs * bs < bs"
proof -
  have o: "off + n < 2 ^ 64" "ab < 2 ^ 64" "ab + n \<le> length (bd_data d)" "0 < bs" "bs dvd length (bd_data d)"
    using assms by (simp_all add: view_ok_def)
  have "unat (of_nat off + of_nat n :: u64) = off + n"
    using unat_of_nat64 [OF o(1)] by simp
  then show "\<not> pv_len v < of_nat off + of_nat n" using assms(2) by (simp add: word_less_nat_alt)
  have "unat (of_nat off :: u64) = off" using o(1) by (intro unat_of_nat64) simp
  then show "unat (pv_start v + of_nat off) = ab"
    using unat_add_lem [of "pv_start v" "of_nat off"] o(2) by (simp add: ab_def)
  show le: "ab div bs * bs \<le> ab" by simp
  show "ab - ab div bs * bs < bs" using o(4) by (simp add: minus_div_mult_eq_mod)
  show "ab div bs * bs + div_ceil (ab - ab div bs * bs + n) bs * bs \<le> length (bd_data d)"
    by (rule blocks_fit [OF o(4,5)]) (use le o(3) in linarith)
qed

lemma pv_read_at_eq:
  assumes "view_ok d v" "off + n \<le> unat (pv_len v)"
  shows "pv_read_at d v (of_nat off) n = Inr (slice_of (unat (pv_start v) + off) (unat (pv_start v) + off + n) (bd_data d))"
proof (cases "n = 0")
  case False
  let ?bs = "bd_bs d" and ?ab = "unat (pv_start v) + off"
  note s = view_span [OF assms]
  let ?al = "?ab div ?bs * ?bs"
  let ?skew = "?ab - ?al"
  have "?skew + n \<le> div_ceil (?skew + n) ?bs * ?bs" by (rule div_ceil_ge) (use assms(1) in \<open>simp add: view_ok_def\<close>)
  then have "slice_of ?skew (?skew + n) (slice_of ?al (?al + div_ceil (?skew + n) ?bs * ?bs) (bd_data d)) = slice_of (?al + ?skew) (?al + (?skew + n)) (bd_data d)"
    by (intro slice_slice) simp
  also have "\<dots> = slice_of ?ab (?ab + n) (bd_data d)"
    using s(4) by (simp only: add.assoc [symmetric] le_add_diff_inverse)
  finally show ?thesis using False s(1-3) by (simp add: pv_read_at_def Let_def bd_read_def)
qed (simp add: pv_read_at_def slice_of_def)

lemma put_slice:
  assumes "at + n \<le> length buf" "a + length x \<le> n"
  shows "put at (put a x (slice_of at (at + n) buf)) buf = put (at + a) x buf"
  using assms by (intro nth_equalityI) (auto simp: nth_put nth_slice)

lemma put_nil: "put at [] buf = buf"
  by (rule nth_equalityI) (auto simp: nth_put)

lemma put_put: "put (at + length x) y (put at x buf) = put at (x @ y) buf"
  by (rule nth_equalityI) (auto simp: nth_put nth_append)

text \<open>The bytes read before a write are right wherever the write does not go.\<close>

lemma pv_edges_eq:
  assumes "0 < bd_bs d" "skew < bd_bs d" "0 < len" "span = div_ceil (skew + len) (bd_bs d) * bd_bs d" "aligned + span \<le> length (bd_data d)"
  obtains tmp where "pv_edges d aligned skew len span = Inr tmp" "length tmp = span"
    "\<And>i. i < span \<Longrightarrow> i < skew \<or> skew + len \<le> i \<Longrightarrow> tmp ! i = bd_data d ! (aligned + i)"
proof -
  let ?bs = "bd_bs d"
  have le: "skew + len \<le> span" and lt: "span < skew + len + ?bs"
    using div_ceil_ge [OF assms(1)] div_ceil_less [OF assms(1)] by (simp_all add: assms(4))
  have sp: "?bs \<le> span" using le assms(3,4) by (cases "div_ceil (skew + len) ?bs") auto
  have dv: "?bs dvd span" by (simp add: assms(4))
  have tail: "span = skew + len" if "(skew + len) mod ?bs = 0"
  proof -
    have "span mod ?bs = 0" using dv by simp
    obtain k where k: "skew + len = ?bs * k" using \<open>(skew + len) mod ?bs = 0\<close> by auto
    then have "div_ceil (skew + len) ?bs \<le> k" by (intro div_ceil_le [OF assms(1)]) simp
    then have "span \<le> k * ?bs" unfolding assms(4) by (rule mult_le_mono1)
    with k le show ?thesis by (simp add: mult.commute)
  qed
  have hd: "bd_read d aligned ?bs = Inr (slice_of aligned (aligned + ?bs) (bd_data d))"
    "bd_read d aligned span = Inr (slice_of aligned (aligned + span) (bd_data d))"
    "bd_read d (aligned + (span - ?bs)) ?bs = Inr (slice_of (aligned + (span - ?bs)) (aligned + (span - ?bs) + ?bs) (bd_data d))"
    using assms(5) sp by (simp_all add: bd_read_def)
  let ?h = "skew \<noteq> 0" and ?t = "(skew + len) mod ?bs \<noteq> 0"
  let ?one = "if ?h then put 0 (slice_of aligned (aligned + ?bs) (bd_data d)) (zero_buf span) else zero_buf span"
  let ?two = "if ?t then put (span - ?bs) (slice_of (aligned + (span - ?bs)) (aligned + (span - ?bs) + ?bs) (bd_data d)) ?one else ?one"
  show thesis
  proof (cases "(?h \<or> ?t) \<and> span = ?bs")
    case True
    then have "pv_edges d aligned skew len span = Inr (slice_of aligned (aligned + span) (bd_data d))"
      using hd(1) by (simp add: pv_edges_def Let_def)
    then show thesis by (rule that) (use assms(5) in \<open>simp_all add: nth_slice\<close>)
  next
    case False
    have e: "pv_edges d aligned skew len span = Inr ?two"
      using False hd(1,3) by (auto simp: pv_edges_def Let_def)
    have nth: "?two ! i = bd_data d ! (aligned + i)" if i: "i < span" "i < skew \<or> skew + len \<le> i" for i
    proof (cases "i < skew")
      case True
      with assms(2) have "i < ?bs" "?h" by simp_all
      with i(1) assms(5) sp show ?thesis by (auto simp: nth_put nth_slice)
    next
      case False
      with i have "skew + len \<le> i" by simp
      with i(1) tail have "?t" "span - ?bs \<le> i" using lt by auto
      with i(1) assms(5) sp show ?thesis by (auto simp: nth_put nth_slice)
    qed
    have "length ?two = span" by simp
    with e nth show thesis by (intro that)
  qed
qed

lemma pv_write_at_eq:
  assumes "view_ok d v" "off + length buf \<le> unat (pv_len v)"
  shows "pv_write_at d v (of_nat off) buf = (Inr (), d\<lparr>bd_data := put (unat (pv_start v) + off) buf (bd_data d)\<rparr>)"
proof (cases "buf = []")
  case True
  then show ?thesis by (simp add: pv_write_at_def put_nil)
next
  case False
  let ?bs = "bd_bs d" and ?ab = "unat (pv_start v) + off" and ?n = "length buf"
  note s = view_span [OF assms]
  let ?al = "?ab div ?bs * ?bs"
  let ?skew = "?ab - ?al"
  define span where "span = div_ceil (?skew + ?n) ?bs * ?bs"
  have bs: "0 < ?bs" using assms(1) by (simp add: view_ok_def)
  have le: "?skew + ?n \<le> span" unfolding span_def by (rule div_ceil_ge [OF bs])
  obtain tmp where tmp: "pv_edges d ?al ?skew ?n span = Inr tmp" "length tmp = span"
    and keep: "\<And>i. i < span \<Longrightarrow> i < ?skew \<or> ?skew + ?n \<le> i \<Longrightarrow> tmp ! i = bd_data d ! (?al + i)"
    using pv_edges_eq [OF bs s(5) _ span_def] False s(3) [folded span_def] by blast
  have "put ?al (put ?skew buf tmp) (bd_data d) = put ?ab buf (bd_data d)"
  proof (rule nth_equalityI)
    fix i assume i: "i < length (put ?al (put ?skew buf tmp) (bd_data d))"
    show "put ?al (put ?skew buf tmp) (bd_data d) ! i = put ?ab buf (bd_data d) ! i"
    proof (cases "?al \<le> i \<and> i < ?al + span")
      case True
      then obtain j where j: "i = ?al + j" "j < span" by (metis add_less_cancel_left le_Suc_ex)
      show ?thesis
      proof (cases "?skew \<le> j \<and> j < ?skew + ?n")
        case True
        then have "?ab \<le> ?al + j" "?al + j < ?ab + ?n" "?al + j - ?ab = j - ?skew" using s(4) by linarith+
        with True j i tmp(2) show ?thesis by (simp add: nth_put)
      next
        case False
        then have "\<not> (?ab \<le> ?al + j \<and> ?al + j < ?ab + ?n)" using s(4) by linarith
        with False j i tmp(2) keep [of j] show ?thesis by (auto simp: nth_put)
      qed
    next
      case False
      then have "\<not> (?ab \<le> i \<and> i < ?ab + ?n)" using le s(4) by linarith
      with False i tmp(2) show ?thesis by (auto simp: nth_put)
    qed
  qed simp
  moreover have "pv_write_at d v (of_nat off) buf =
      (case pv_edges d ?al ?skew ?n span of Inl e \<Rightarrow> (Inl e, d) | Inr tmp \<Rightarrow> bd_write d ?al (put ?skew buf tmp))"
    using False s(1) unfolding pv_write_at_def Let_def s(2) by (simp add: span_def)
  ultimately show ?thesis using tmp s(3) [folded span_def] by (simp add: bd_write_def)
qed

lemma pv_write_at_ok:
  assumes "view_ok d v"
  shows "view_ok (snd (pv_write_at d v (of_nat off) buf)) v"
  using assms
  by (auto simp: pv_write_at_def bd_write_def Let_def view_ok_def split: sum.split)

section \<open>A wrapped bound\<close>

text \<open>
  C40. A read at an offset that wraps the sum with its length passes the bound of the view, and
  returns bytes of the device that lie before the partition.
\<close>

theorem view_read_escapes:
  assumes "view_ok d v" "0 < n" "n \<le> unat (pv_start v)"
  shows "pv_read_at d v (- of_nat n) n = Inr (slice_of (unat (pv_start v) - n) (unat (pv_start v)) (bd_data d))"
proof -
  have le: "(of_nat n :: u64) \<le> pv_start v" and n64: "unat (of_nat n :: u64) = n"
    using assms(3) unsigned_less [of "pv_start v", where 'a = nat] by (simp_all add: word_le_nat_alt unat_of_nat64)
  define w where "w = \<lparr>pv_start = pv_start v - of_nat n, pv_len = of_nat n\<rparr>"
  have st: "unat (pv_start v - of_nat n) = unat (pv_start v) - n" using le n64 by (simp add: unat_sub)
  have "view_ok d w" using assms by (simp add: view_ok_def w_def st n64)
  then have "pv_read_at d w (of_nat 0) n = Inr (slice_of (unat (pv_start v) - n) (unat (pv_start v)) (bd_data d))"
    using assms(3) by (subst pv_read_at_eq) (simp_all add: w_def st n64)
  then show ?thesis using assms(2) by (simp add: pv_read_at_def w_def)
qed

theorem view_read_escapes_witness:
  "pv_read_at \<lparr>bd_bs = 4, bd_data = [0, 1, 2, 3, 4, 5, 6, 7]\<rparr> \<lparr>pv_start = 4, pv_len = 4\<rparr> (- of_nat 2) 2 = Inr [2, 3]"
  by (subst view_read_escapes) (simp_all add: view_ok_def slice_of_def, presburger)

section \<open>Content sources\<close>

locale member_source =
  fixes c :: MemberContent and data :: bytes
  assumes len: "ct_len c = length data"
    and again: "off + n \<le> length data \<Longrightarrow> ct_read c off n = Inr (slice_of off (off + n) data)"
begin

lemma read_chunks_all: "off \<le> length data \<Longrightarrow> read_chunks c off acc = Inr (acc @ drop off data)"
proof (induction "length data - off" arbitrary: off acc rule: less_induct)
  case less
  show ?case
  proof (cases "off < length data")
    case True
    define n where "n = min (length data - off) IO_CHUNK"
    have n: "0 < n" "off + n \<le> length data" using True by (simp_all add: n_def)
    have "read_chunks c off acc = read_chunks c (off + n) (acc @ slice_of off (off + n) data)"
      using True again [OF n(2)] by (subst read_chunks.simps) (simp add: len n_def [symmetric])
    also have "\<dots> = Inr ((acc @ slice_of off (off + n) data) @ drop (off + n) data)"
      using n by (intro less.hyps) simp_all
    finally show ?thesis by (simp add: slice_of_def add.commute [of off] flip: drop_drop)
  next
    case False
    with less.prems show ?thesis by (subst read_chunks.simps) (simp add: len)
  qed
qed

lemma digest_content_eq: "digest_content sha c = Inr (sha data)"
  by (simp add: digest_content_def read_chunks_all)

lemma write_chunks_all:
  assumes "view_ok d v" "pp_len p = length data" "pp_offset p + length data \<le> unat (pv_len v)" "off \<le> length data"
  shows "write_chunks c v p off d = (Inr (), d\<lparr>bd_data := put (unat (pv_start v) + pp_offset p + off) (drop off data) (bd_data d)\<rparr>)"
  using assms(1,4)
proof (induction "length data - off" arbitrary: off d rule: less_induct)
  case less
  show ?case
  proof (cases "off < length data")
    case True
    define n where "n = min (length data - off) IO_CHUNK"
    have n: "0 < n" "off + n \<le> length data" using True by (simp_all add: n_def)
    let ?x = "slice_of off (off + n) data" and ?at = "unat (pv_start v) + pp_offset p + off"
    let ?d = "d\<lparr>bd_data := put ?at ?x (bd_data d)\<rparr>"
    have w: "pv_write_at d v (of_nat (pp_offset p + off)) ?x = (Inr (), ?d)"
      using pv_write_at_eq [OF less.prems(1), of "pp_offset p + off" ?x] n assms(3) by (simp add: add.assoc)
    have "write_chunks c v p off d = write_chunks c v p (off + n) ?d"
      using True again [OF n(2)] w by (subst write_chunks.simps) (simp add: assms(2) n_def [symmetric])
    also have "\<dots> = (Inr (), ?d\<lparr>bd_data := put (?at + n) (drop (off + n) data) (bd_data ?d)\<rparr>)"
      using less.hyps [of "off + n" ?d] n less.prems(1) by (simp add: view_ok_def add.assoc)
    also have "\<dots> = (Inr (), d\<lparr>bd_data := put ?at (?x @ drop (off + n) data) (bd_data d)\<rparr>)"
      using n put_put [of ?at ?x "drop (off + n) data" "bd_data d"] by simp
    finally show ?thesis by (simp add: slice_of_def add.commute [of off] flip: drop_drop)
  next
    case False
    with less.prems assms(2) show ?thesis by (subst write_chunks.simps) (simp add: put_nil)
  qed
qed

end

text \<open>The sources of the code that are in memory or on a device.\<close>

interpretation bytes_source: member_source "bytes_content b" b for b
  by unfold_locales (simp_all add: bytes_content_def)

lemma device_source:
  assumes "0 < bd_bs d" "bd_bs d dvd length (bd_data d)" "length (bd_data d) < 2 ^ 64" "n \<le> length (bd_data d)"
  shows "member_source (device_content d n) (take n (bd_data d))"
proof
  let ?v = "\<lparr>pv_start = 0, pv_len = of_nat (length (bd_data d))\<rparr>"
  have v: "view_ok d ?v" using assms by (simp add: view_ok_def unat_of_nat64)
  show "ct_len (device_content d n) = length (take n (bd_data d))" using assms(4) by (simp add: device_content_def Let_def)
  fix off k assume "off + k \<le> length (take n (bd_data d))"
  then have "off + k \<le> n" "off + k \<le> length (bd_data d)" by simp_all
  then show "ct_read (device_content d n) off k = Inr (slice_of off (off + k) (take n (bd_data d)))"
    using assms(3,4) pv_read_at_eq [OF v, of off k]
    by (simp add: device_content_def Let_def max_def unat_of_nat64 slice_of_def drop_take min_def)
qed

end
