(* ===== verification/PalletLayout.thy ===== *)
theory PalletLayout
  imports PalletView
begin

text \<open>
  What the builder lays out: where each member's content goes, what its table entries say, and that
  the reader takes the header back apart into them.
\<close>

section \<open>The layout\<close>

abbreviation ms_len :: "MemberSpec \<Rightarrow> nat" where
  "ms_len m \<equiv> ct_len (ms_content m)"

definition next_cursor :: "nat \<Rightarrow> MemberSpec \<Rightarrow> nat \<Rightarrow> nat" where
  "next_cursor bs m c = c + max (div_ceil (ms_len m) bs * bs) (pal_align_up (ms_reserve m) bs)"

text \<open>For each member the offset of its content and the number of its extent.\<close>

fun lay :: "nat \<Rightarrow> nat \<Rightarrow> nat \<Rightarrow> nat \<Rightarrow> MemberSpec list \<Rightarrow> (nat \<times> nat) list" where
  "lay bs align x cur [] = []"
| "lay bs align x cur (m # ms) =
     (if 0 < ms_len m then let c = pal_align_up cur align in (c, x) # lay bs align (x + 1) (next_cursor bs m c) ms
      else (cur, x) # lay bs align x cur ms)"

fun lay_end :: "nat \<Rightarrow> nat \<Rightarrow> nat \<Rightarrow> MemberSpec list \<Rightarrow> nat" where
  "lay_end bs align cur [] = cur"
| "lay_end bs align cur (m # ms) = lay_end bs align (if 0 < ms_len m then next_cursor bs m (pal_align_up cur align) else cur) ms"

definition full_members :: "MemberSpec list \<Rightarrow> nat" where
  "full_members ms = length (filter (\<lambda>m. 0 < ms_len m) ms)"

definition m_entry :: "(bytes \<Rightarrow> bytes) \<Rightarrow> (MemberSpec \<Rightarrow> bytes) \<Rightarrow> MemberSpec \<Rightarrow> nat \<times> nat \<Rightarrow> bytes" where
  "m_entry sha dat m = (\<lambda>(c, x).
     put 80 (sha (dat m)) (wr_u32 76 (if 0 < ms_len m then 1 else 0) (wr_u32 72 (if 0 < ms_len m then of_nat x else 0)
       (wr_u64 64 (of_nat (ms_len m)) (wr_u32 60 (ms_flags m) (wr_u32 56 (member_kind_to_u32 (ms_kind m))
         (put 40 (ms_role m) (put 0 (ms_name m) (zero_buf MEMBER_LEN)))))))))"

definition x_entry :: "nat \<Rightarrow> MemberSpec \<Rightarrow> nat \<times> nat \<Rightarrow> bytes list" where
  "x_entry bs m = (\<lambda>(c, x). if 0 < ms_len m then [extent_entry (c div bs) (div_ceil (ms_len m) bs) (zero_buf EXTENT_LEN)] else [])"

fun placements :: "(bytes \<Rightarrow> bytes) \<Rightarrow> (MemberSpec \<Rightarrow> bytes) \<Rightarrow> nat \<Rightarrow> MemberSpec list \<Rightarrow> (nat \<times> nat) list \<Rightarrow> Placement list" where
  "placements sha dat i (m # ms) ((c, x) # ls) =
     \<lparr>pp_member = i, pp_offset = c, pp_len = ms_len m, pp_digest = sha (dat m)\<rparr> # placements sha dat (i + 1) ms ls"
| "placements sha dat i _ _ = []"

definition sourced :: "(MemberSpec \<Rightarrow> bytes) \<Rightarrow> MemberSpec \<Rightarrow> bool" where
  "sourced dat m \<longleftrightarrow> member_source (ms_content m) (dat m)"

lemma length_lay [simp]: "length (lay bs align x cur ms) = length ms"
  by (induction ms arbitrary: x cur) (simp_all add: Let_def)

lemma length_m_entry [simp]: "length (m_entry sha dat m l) = 128"
  by (cases l) (simp add: m_entry_def wr_u32_def wr_u64_def MEMBER_LEN_def)

lemma length_extent_entry [simp]: "length (extent_entry a b e) = length e"
  by (simp add: extent_entry_def wr_u32_def wr_u64_def)

lemma length_x_entry: "e \<in> set (x_entry bs m l) \<Longrightarrow> length e = 32"
  by (cases l) (auto simp: x_entry_def EXTENT_LEN_def split: if_splits)

section \<open>The tables\<close>

lemma slice_mid: "length A = a \<Longrightarrow> b = a + length x \<Longrightarrow> slice_of a b (A @ x @ C) = x"
  by (simp add: slice_of_def)

lemma put_mid: "length A = a \<Longrightarrow> length y = length x \<Longrightarrow> put a y (A @ x @ C) = A @ y @ C"
  by (subst put_append) simp_all

lemma zero_buf_add: "zero_buf (a + b) = zero_buf a @ zero_buf b"
  by (simp add: zero_buf_def replicate_add)

lemma place_member_lay:
  assumes "bs_extents_tbl st = B @ zero_buf (full_members (m # ms) * EXTENT_LEN)" "length B = bs_extent_idx st * EXTENT_LEN"
  obtains st' first count c where "place_member bs align i m (sha (dat m)) st = (st', first, count)"
    "bs_members_tbl st' = bs_members_tbl st"
    "c = (if 0 < ms_len m then pal_align_up (bs_cursor st) align else bs_cursor st)"
    "bs_extents_tbl st' = (B @ concat (x_entry bs m (c, bs_extent_idx st))) @ zero_buf (full_members ms * EXTENT_LEN)"
    "bs_extent_idx st' = (if 0 < ms_len m then bs_extent_idx st + 1 else bs_extent_idx st)"
    "length (B @ concat (x_entry bs m (c, bs_extent_idx st))) = bs_extent_idx st' * EXTENT_LEN"
    "bs_cursor st' = (if 0 < ms_len m then next_cursor bs m c else c)"
    "bs_placements st' = bs_placements st @ [\<lparr>pp_member = i, pp_offset = c, pp_len = ms_len m, pp_digest = sha (dat m)\<rparr>]"
    "first = (if 0 < ms_len m then of_nat (bs_extent_idx st) else 0)" "count = (if 0 < ms_len m then 1 else 0)"
proof (cases "0 < ms_len m")
  case True
  have f: "full_members (m # ms) = Suc (full_members ms)" using True by (simp add: full_members_def)
  have t: "bs_extents_tbl st = B @ zero_buf EXTENT_LEN @ zero_buf (full_members ms * EXTENT_LEN)"
    using assms(1) by (simp add: f zero_buf_add)
  have e: "slice_of (bs_extent_idx st * EXTENT_LEN) ((bs_extent_idx st + 1) * EXTENT_LEN) (bs_extents_tbl st) = zero_buf EXTENT_LEN"
    unfolding t by (rule slice_mid) (simp_all add: assms(2))
  have p: "put (bs_extent_idx st * EXTENT_LEN) (extent_entry a b (zero_buf EXTENT_LEN)) (bs_extents_tbl st)
      = B @ extent_entry a b (zero_buf EXTENT_LEN) @ zero_buf (full_members ms * EXTENT_LEN)" for a b
    unfolding t by (rule put_mid) (simp_all add: assms(2))
  let ?c = "pal_align_up (bs_cursor st) align" and ?b = "div_ceil (ms_len m) bs"
  let ?S = "st\<lparr>bs_extents_tbl := B @ extent_entry (?c div bs) ?b (zero_buf EXTENT_LEN) @ zero_buf (full_members ms * EXTENT_LEN),
     bs_extent_idx := bs_extent_idx st + 1,
     bs_placements := bs_placements st @ [\<lparr>pp_member = i, pp_offset = ?c, pp_len = ms_len m, pp_digest = sha (dat m)\<rparr>],
     bs_cursor := next_cursor bs m ?c\<rparr>"
  have "place_member bs align i m (sha (dat m)) st = (?S, of_nat (bs_extent_idx st), 1)"
    using True e p by (simp add: place_member_def Let_def next_cursor_def)
  then show thesis
    by (rule that [where c = ?c]) (use True assms(2) in \<open>simp_all add: x_entry_def\<close>)
next
  case False
  have f: "full_members (m # ms) = full_members ms" using False by (simp add: full_members_def)
  let ?S = "st\<lparr>bs_placements := bs_placements st @ [\<lparr>pp_member = i, pp_offset = bs_cursor st, pp_len = 0, pp_digest = sha (dat m)\<rparr>]\<rparr>"
  have "place_member bs align i m (sha (dat m)) st = (?S, 0, 0)"
    using False by (simp add: place_member_def Let_def)
  then show thesis
    by (rule that [where c = "bs_cursor st"]) (use False assms in \<open>simp_all add: x_entry_def f\<close>)
qed

lemma member_entry_lay:
  assumes "member_entry m (ms_len m) first count (sha (dat m)) (zero_buf MEMBER_LEN) = Inr e"
    "first = (if 0 < ms_len m then of_nat x else 0)" "count = (if 0 < ms_len m then 1 else 0)"
  shows "e = m_entry sha dat m (c, x)" "length (ms_name m) \<le> PAL_NAME_LEN" "length (ms_role m) \<le> ROLE_LEN"
  using assms by (auto simp: member_entry_def m_entry_def write_fixed_def split: if_splits)

lemma build_members_lay:
  assumes "build_members sha bs align i ms st = Inr st'" "\<forall>m \<in> set ms. sourced dat m"
    "bs_members_tbl st = A @ zero_buf (length ms * MEMBER_LEN)" "length A = i * MEMBER_LEN"
    "bs_extents_tbl st = B @ zero_buf (full_members ms * EXTENT_LEN)" "length B = bs_extent_idx st * EXTENT_LEN"
  defines "ls \<equiv> lay bs align (bs_extent_idx st) (bs_cursor st) ms"
  shows "bs_members_tbl st' = A @ concat (map2 (m_entry sha dat) ms ls)
    \<and> bs_extents_tbl st' = B @ concat (concat (map2 (x_entry bs) ms ls))
    \<and> bs_placements st' = bs_placements st @ placements sha dat i ms ls
    \<and> bs_cursor st' = lay_end bs align (bs_cursor st) ms
    \<and> (\<forall>m \<in> set ms. length (ms_name m) \<le> PAL_NAME_LEN \<and> length (ms_role m) \<le> ROLE_LEN)"
  using assms(1-6) unfolding ls_def
proof (induction ms arbitrary: i st A B)
  case Nil
  then show ?case by (simp add: zero_buf_def full_members_def)
next
  case (Cons m ms)
  have dg: "digest_content sha (ms_content m) = Inr (sha (dat m))"
    using Cons.prems(2) member_source.digest_content_eq by (simp add: sourced_def)
  obtain st1 first count c where p: "place_member bs align i m (sha (dat m)) st = (st1, first, count)"
    and st1: "bs_members_tbl st1 = bs_members_tbl st"
      "c = (if 0 < ms_len m then pal_align_up (bs_cursor st) align else bs_cursor st)"
      "bs_extents_tbl st1 = (B @ concat (x_entry bs m (c, bs_extent_idx st))) @ zero_buf (full_members ms * EXTENT_LEN)"
      "bs_extent_idx st1 = (if 0 < ms_len m then bs_extent_idx st + 1 else bs_extent_idx st)"
      "length (B @ concat (x_entry bs m (c, bs_extent_idx st))) = bs_extent_idx st1 * EXTENT_LEN"
      "bs_cursor st1 = (if 0 < ms_len m then next_cursor bs m c else c)"
      "bs_placements st1 = bs_placements st @ [\<lparr>pp_member = i, pp_offset = c, pp_len = ms_len m, pp_digest = sha (dat m)\<rparr>]"
    and fc: "first = (if 0 < ms_len m then of_nat (bs_extent_idx st) else 0)" "count = (if 0 < ms_len m then 1 else 0)"
    by (rule place_member_lay [where dat = dat and sha = sha, OF Cons.prems(5,6)])
  have t: "bs_members_tbl st = A @ zero_buf MEMBER_LEN @ zero_buf (length ms * MEMBER_LEN)"
    using Cons.prems(3) by (simp add: zero_buf_add)
  have sl: "slice_of (i * MEMBER_LEN) ((i + 1) * MEMBER_LEN) (bs_members_tbl st1) = zero_buf MEMBER_LEN"
    unfolding st1(1) t by (rule slice_mid) (simp_all add: Cons.prems(4))
  obtain e where e: "member_entry m (ms_len m) first count (sha (dat m)) (zero_buf MEMBER_LEN) = Inr e"
    and rest: "build_members sha bs align (i + 1) ms (st1\<lparr>bs_members_tbl := put (i * MEMBER_LEN) e (bs_members_tbl st1)\<rparr>) = Inr st'"
    using Cons.prems(1) dg p sl by (auto split: sum.splits)
  note lens = member_entry_lay(2,3) [where sha = sha and dat = dat, OF e fc]
  note me = member_entry_lay(1) [where sha = sha and dat = dat and c = c, OF e fc] lens
  have tbl: "put (i * MEMBER_LEN) e (bs_members_tbl st1) = (A @ e) @ zero_buf (length ms * MEMBER_LEN)"
    unfolding st1(1) t append_assoc by (rule put_mid) (simp_all add: Cons.prems(4) me(1) MEMBER_LEN_def)
  have lay: "lay bs align (bs_extent_idx st) (bs_cursor st) (m # ms) = (c, bs_extent_idx st) # lay bs align (bs_extent_idx st1) (bs_cursor st1) ms"
    "lay_end bs align (bs_cursor st) (m # ms) = lay_end bs align (bs_cursor st1) ms"
    by (simp_all add: st1(2,4,6) Let_def)
  show ?case
    using Cons.IH [OF rest, of "A @ e" "B @ concat (x_entry bs m (c, bs_extent_idx st))"] Cons.prems(2,4) st1(3,5,7) tbl me
    unfolding lay by (simp add: MEMBER_LEN_def)
qed

section \<open>Reading the tables\<close>

lemma slice_concat:
  assumes "\<forall>e \<in> set es. length e = n" "i < length es"
  shows "slice_of (i * n) (i * n + n) (concat es) = es ! i"
  using assms
proof (induction es arbitrary: i)
  case (Cons e es)
  then show ?case by (cases i) (simp_all add: slice_of_def)
qed simp

lemma length_concat_same: "\<forall>e \<in> set es. length e = n \<Longrightarrow> length (concat es) = length es * n"
  by (induction es) simp_all

lemma member_parse_entry:
  assumes "length (ms_name m) \<le> PAL_NAME_LEN" "length (ms_role m) \<le> ROLE_LEN" "length (sha (dat m)) = 32"
  obtains r where "member_parse (m_entry sha dat m (c, x)) = Inr r" "pm_flags r = ms_flags m" "pm_byte_len r = of_nat (ms_len m)"
    "pm_extent_first r = (if 0 < ms_len m then of_nat x else 0)" "pm_extent_count r = (if 0 < ms_len m then 1 else 0)"
    "pm_digest r = sha (dat m)" "pm_kind r = member_kind_from_u32 (member_kind_to_u32 (ms_kind m))"
    "take (length (ms_name m)) (pm_name r) = ms_name m"
proof -
  let ?e = "m_entry sha dat m (c, x)"
  have f: "slice_of 56 60 ?e = to_le 4 (member_kind_to_u32 (ms_kind m))" "slice_of 60 64 ?e = to_le 4 (ms_flags m)"
    "slice_of 64 72 ?e = to_le 8 (of_nat (ms_len m) :: u64)"
    "slice_of 72 76 ?e = to_le 4 (if 0 < ms_len m then of_nat x else 0 :: u32)"
    "slice_of 76 80 ?e = to_le 4 (if 0 < ms_len m then 1 else 0 :: u32)" "slice_of 80 112 ?e = sha (dat m)"
    using assms(3) by (simp_all add: m_entry_def wr_u32_def wr_u64_def buf_simps MEMBER_LEN_def)
  have n: "slice_of 0 PAL_NAME_LEN ?e = slice_of 0 PAL_NAME_LEN (put 0 (ms_name m) (zero_buf MEMBER_LEN))"
    using assms by (simp add: m_entry_def wr_u32_def wr_u64_def buf_simps PAL_NAME_LEN_def ROLE_LEN_def MEMBER_LEN_def)
  have "take (length (ms_name m)) (slice_of 0 PAL_NAME_LEN ?e) = ms_name m"
    unfolding n using assms(1) by (simp add: slice_of_def put_append PAL_NAME_LEN_def MEMBER_LEN_def)
  with f show thesis
    by (intro that [where r = "projr (member_parse ?e)"]) (simp_all add: member_parse_def u32_at_def u64_at_def MEMBER_LEN_def)
qed

lemma extent_parse_entry:
  "extent_parse (extent_entry a b (zero_buf EXTENT_LEN)) =
     Inr \<lparr>px_logical_block = 0, px_partition_block = of_nat a, px_block_count = of_nat b, px_flags = 0\<rparr>"
  by (simp add: extent_parse_def extent_entry_def wr_u32_def wr_u64_def u32_at_def u64_at_def buf_simps EXTENT_LEN_def)

section \<open>Reading the superblock\<close>

lemma slice_take: "b \<le> n \<Longrightarrow> slice_of a b (take n xs) = slice_of a b xs"
  by (simp add: slice_of_def drop_take)

lemma superblock_crc_take: "superblock_crc (take PAL_SUPERBLOCK_LEN b) = superblock_crc b"
  by (simp add: superblock_crc_def Let_def slice_take PAL_SUPERBLOCK_LEN_def)

lemma pl_superblock_parse_take:
  assumes "PAL_SUPERBLOCK_LEN \<le> n" "PAL_SUPERBLOCK_LEN \<le> length b"
  shows "pl_superblock_parse (take n b) = pl_superblock_parse b"
proof -
  have "superblock_crc (take n b) = superblock_crc b"
    by (metis superblock_crc_take min.absorb1 take_take assms(1))
  moreover have "(min (length b) n < 4096) = False" "(length b < 4096) = False" using assms by (auto simp: PAL_SUPERBLOCK_LEN_def)
  moreover have "slice_of a c (take n b) = slice_of a c b" if "c \<le> 4096" for a c
    using that assms(1) by (intro slice_take) (simp add: PAL_SUPERBLOCK_LEN_def)
  ultimately show ?thesis
    by (simp add: pl_superblock_parse_def u32_at_def u64_at_def PAL_SUPERBLOCK_LEN_def PAL_NAME_LEN_def
        VERSION_LABEL_LEN_def KEY_ID_LEN_def SIGNATURE_LEN_def Let_def cong: if_cong)
qed

definition header_fits :: "PalletBuilder \<Rightarrow> nat \<Rightarrow> bytes \<Rightarrow> bytes \<Rightarrow> bytes \<Rightarrow> bool" where
  "header_fits b mdo digest mt xt \<longleftrightarrow>
     512 \<le> pb_block_size b \<and> is_power_of_two (pb_block_size b) \<and> length (pb_name b) \<le> PAL_NAME_LEN \<and>
     length (pb_version_label b) \<le> VERSION_LABEL_LEN \<and> length digest = 32 \<and> PAL_SUPERBLOCK_LEN + length mt + length xt \<le> mdo"

lemma length_build_fields [simp]: "length (build_fields b xc mdo dg mt xt) = mdo"
  by (simp add: build_fields_def Let_def wr_u32_def wr_u64_def)

lemma length_build_header [simp]: "length (build_header b xc mdo dg mt xt) = mdo"
  by (simp add: build_header_def Let_def wr_u32_def)

lemma build_fields_slices:
  fixes xc :: nat
  assumes "header_fits b mdo dg mt xt"
  defines "h \<equiv> build_fields b xc mdo dg mt xt"
  shows "slice_of 0 8 h = PAL_MAGIC" "slice_of 8 12 h = to_le 4 PAL_VERSION" "slice_of 12 16 h = to_le 4 (of_nat PAL_SUPERBLOCK_LEN :: u32)"
    "slice_of 16 20 h = to_le 4 (pb_block_size b)" "slice_of 20 24 h = to_le 4 (of_nat MEMBER_LEN :: u32)"
    "slice_of 24 28 h = to_le 4 (of_nat (length (pb_members b)) :: u32)" "slice_of 28 32 h = to_le 4 (of_nat EXTENT_LEN :: u32)"
    "slice_of 32 36 h = to_le 4 (of_nat xc :: u32)" "slice_of 36 44 h = to_le 8 (pb_pallet_version b)"
    "slice_of 44 52 h = to_le 8 (of_nat mdo :: u64)" "slice_of 92 124 h = dg" "slice_of 124 128 h = to_le 4 (crc32 mt)"
    "slice_of 128 132 h = to_le 4 (crc32 xt)" "slice_of 136 144 h = to_le 8 (to_superblock_flags (pb_attributes b))"
    "slice_of 144 148 h = to_le 4 (pallet_kind_to_u32 (pb_kind b))"
    "slice_of PAL_SUPERBLOCK_LEN (PAL_SUPERBLOCK_LEN + length mt) h = mt"
    "slice_of (PAL_SUPERBLOCK_LEN + length mt) (PAL_SUPERBLOCK_LEN + length mt + length xt) h = xt"
  using assms(1) unfolding h_def build_fields_def Let_def header_fits_def
  by (simp_all add: wr_u32_def wr_u64_def buf_simps PAL_SUPERBLOCK_LEN_def PAL_NAME_LEN_def VERSION_LABEL_LEN_def PAL_MAGIC_def)

lemma slice_build_header:
  "c \<le> 132 \<or> 136 \<le> a \<Longrightarrow> slice_of a c (build_header b xc mdo dg mt xt) = slice_of a c (build_fields b xc mdo dg mt xt)"
  by (auto simp: build_header_def Let_def wr_u32_def intro!: slice_put_other)

lemma superblock_parse_header:
  assumes "header_fits b mdo dg mt xt"
  obtains sb where "pl_superblock_parse (build_header b xc mdo dg mt xt) = Inr sb" "pl_block_size sb = pb_block_size b"
    "pl_member_count sb = of_nat (length (pb_members b))" "pl_extent_count sb = of_nat xc" "pl_manifest_digest sb = dg"
    "pl_members_crc sb = crc32 mt" "pl_extents_crc sb = crc32 xt" "pl_pallet_version sb = pb_pallet_version b"
    "pl_kind_raw sb = pallet_kind_to_u32 (pb_kind b)" "pl_flags sb = to_superblock_flags (pb_attributes b)"
proof -
  let ?f = "build_fields b xc mdo dg mt xt" and ?h = "build_header b xc mdo dg mt xt"
  have mdo: "(mdo < 4096) = False" using assms by (auto simp: header_fits_def PAL_SUPERBLOCK_LEN_def)
  have bs: "(pb_block_size b < 512 \<or> \<not> is_power_of_two (pb_block_size b)) = False" using assms by (auto simp: header_fits_def)
  have crc: "superblock_crc ?h = u32_at ?h 132"
    using mdo by (simp add: build_header_def Let_def wr_u32_def superblock_crc_put u32_at_def buf_simps)
  note f = slice_build_header [of _ _ b xc mdo dg mt xt] build_fields_slices [OF assms, of xc]
  have r: "pl_superblock_parse ?h = Inr (projr (pl_superblock_parse ?h))"
    using crc bs mdo by (simp add: pl_superblock_parse_def u32_at_def u64_at_def f PAL_SUPERBLOCK_LEN_def MEMBER_LEN_def EXTENT_LEN_def Let_def)
  show thesis
    by (rule that [OF r]; use crc bs mdo in \<open>simp add: pl_superblock_parse_def u32_at_def u64_at_def f PAL_SUPERBLOCK_LEN_def MEMBER_LEN_def EXTENT_LEN_def Let_def\<close>)
qed

end
