(* ===== verification/PalletContents.thy ===== *)
theory PalletContents
  imports PalletLayout
begin

text \<open>
  What a publish leaves on the device: the layout gives every member its own room behind the tables,
  writing puts each content there, and the header reads back into the tables it was built from.
\<close>

section \<open>Powers of two\<close>

lemma power_of_two_nat: "0 < a \<Longrightarrow> a AND (a - 1) = 0 \<Longrightarrow> \<exists>k. a = 2 ^ k" for a :: nat
proof (induction a rule: less_induct)
  case (less a)
  show ?case
  proof (cases "even a")
    case True
    then obtain b where b: "a = 2 * b" by blast
    then have "0 < b" using less.prems by simp
    then have "a - 1 = 2 * (b - 1) + 1" using b by simp
    then have "2 * (b AND (b - 1)) = 0" using less.prems(2) b by (simp add: and_rec [of "2 * b"])
    then obtain k where "b = 2 ^ k" using less.IH [of b] b \<open>0 < b\<close> by auto
    then show ?thesis using b by (metis power_Suc)
  next
    case False
    then obtain b where b: "a = 2 * b + 1" by (rule oddE)
    then have "a AND (a - 1) = 2 * b" by (simp add: and_rec [of "Suc (2 * b)"])
    then have "a = 2 ^ 0" using less.prems(2) b by simp
    then show ?thesis by blast
  qed
qed

lemma power_of_two_word: "is_power_of_two w \<Longrightarrow> \<exists>k. unat w = 2 ^ k"
proof -
  assume w: "is_power_of_two w"
  then have "unat (w AND (w - 1)) = 0" "w \<noteq> 0" by (simp_all add: is_power_of_two_def)
  then have "unat w AND (unat w - 1) = 0" by (simp add: unsigned_and_eq unat_minus_one)
  with \<open>w \<noteq> 0\<close> show ?thesis by (intro power_of_two_nat) (simp_all add: unat_gt_0)
qed

lemma two_powers_dvd: "(2 :: nat) ^ a \<le> 2 ^ b \<Longrightarrow> (2 :: nat) ^ a dvd 2 ^ b"
  by (simp add: le_imp_power_dvd)

lemma content_alignment_dvd:
  assumes "content_alignment b = Inr align" "is_power_of_two (pb_block_size b)"
  shows "unat (pb_block_size b) dvd align" "PAL_SUPERBLOCK_LEN \<le> align"
proof -
  obtain k where k: "unat (pb_block_size b) = 2 ^ k" using power_of_two_word [OF assms(2)] by blast
  have four: "PAL_SUPERBLOCK_LEN = 2 ^ 12" by (simp add: PAL_SUPERBLOCK_LEN_def)
  have ge: "max (2 ^ k) (2 ^ 12) \<le> align" and ex: "\<exists>j. align = 2 ^ j"
    using assms(1) power_of_two_nat [of align] unfolding content_alignment_def Let_def k four
    by (auto simp: max_def split: option.splits if_splits)
  then show "unat (pb_block_size b) dvd align" "PAL_SUPERBLOCK_LEN \<le> align"
    unfolding k four using two_powers_dvd by auto
qed

section \<open>The layout leaves everybody room\<close>

lemma pal_align_up_ge: "0 < a \<Longrightarrow> v \<le> pal_align_up v a"
  by (simp add: pal_align_up_def div_ceil_ge)

lemma pal_align_up_dvd: "a dvd pal_align_up v a"
  by (simp add: pal_align_up_def)

lemma next_cursor_ge: "0 < bs \<Longrightarrow> c + ms_len m \<le> next_cursor bs m c" "c + div_ceil (ms_len m) bs * bs \<le> next_cursor bs m c"
  using div_ceil_ge [of bs "ms_len m"] by (auto simp: next_cursor_def max_def)

lemma lay_end_ge: "0 < align \<Longrightarrow> 0 < bs \<Longrightarrow> cur \<le> lay_end bs align cur ms"
proof (induction ms arbitrary: cur)
  case (Cons m ms)
  show ?case
  proof (cases "0 < ms_len m")
    case True
    have "cur \<le> next_cursor bs m (pal_align_up cur align)"
      using pal_align_up_ge [OF Cons.prems(1), of cur] next_cursor_ge(1) [OF Cons.prems(2), of "pal_align_up cur align" m] by linarith
    also have "\<dots> \<le> lay_end bs align (next_cursor bs m (pal_align_up cur align)) ms" using Cons by simp
    finally show ?thesis using True by simp
  next
    case False with Cons show ?thesis by simp
  qed
qed simp

lemma lay_nth:
  assumes "0 < align" "0 < bs" "i < length ms" "0 < ms_len (ms ! i)" "lay bs align x cur ms ! i = (c, y)"
  shows "cur \<le> c \<and> align dvd c \<and> c + div_ceil (ms_len (ms ! i)) bs * bs \<le> lay_end bs align cur ms \<and> x \<le> y \<and> y < x + full_members ms
    \<and> concat (map2 (x_entry bs) ms (lay bs align x cur ms)) ! (y - x) = extent_entry (c div bs) (div_ceil (ms_len (ms ! i)) bs) (zero_buf EXTENT_LEN)"
  using assms(3-5)
proof (induction ms arbitrary: i x cur)
  case (Cons m ms)
  let ?c = "pal_align_up cur align"
  show ?case
  proof (cases "0 < ms_len m")
    case full: True
    have f: "full_members (m # ms) = Suc (full_members ms)" using full by (simp add: full_members_def)
    show ?thesis
    proof (cases i)
      case 0
      then have "c = ?c" "y = x" using Cons.prems(3) full by (simp_all add: Let_def)
      moreover have "?c + div_ceil (ms_len m) bs * bs \<le> lay_end bs align (next_cursor bs m ?c) ms"
        using next_cursor_ge(2) [of ?c m bs] lay_end_ge [OF assms(1,2), of "next_cursor bs m ?c" ms] by linarith
      ultimately show ?thesis
        using 0 full f pal_align_up_ge [OF assms(1), of cur] pal_align_up_dvd [of align cur] by (simp add: x_entry_def Let_def)
    next
      case (Suc j)
      then have l: "lay bs align (x + 1) (next_cursor bs m ?c) ms ! j = (c, y)" using Cons.prems(3) full by (simp add: Let_def)
      note ih = Cons.IH [OF _ _ l]
      have "cur \<le> next_cursor bs m ?c"
        using pal_align_up_ge [OF assms(1), of cur] next_cursor_ge(1) [OF assms(2), of ?c m] by linarith
      then show ?thesis using ih Cons.prems Suc full f by (auto simp: x_entry_def Let_def nth_Cons')
    qed
  next
    case empty: False
    then obtain j where j: "i = Suc j" using Cons.prems(2) by (cases i) auto
    have f: "full_members (m # ms) = full_members ms" using empty by (simp add: full_members_def)
    show ?thesis using Cons.IH [of j x cur] Cons.prems j empty f by (auto simp: x_entry_def)
  qed
qed simp

section \<open>The contents on the device\<close>

lemma slice_cong:
  assumes "length xs = length ys" "\<And>j. a \<le> j \<Longrightarrow> j < b \<Longrightarrow> j < length xs \<Longrightarrow> xs ! j = ys ! j"
  shows "slice_of a b xs = slice_of a b ys"
  using assms by (intro nth_equalityI) (auto simp: nth_slice)

text \<open>What writing the placements changes: each member's content is where the layout put it, and nothing below the cursor moved.\<close>

definition contents_at :: "(MemberSpec \<Rightarrow> bytes) \<Rightarrow> nat \<Rightarrow> MemberSpec list \<Rightarrow> (nat \<times> nat) list \<Rightarrow> bytes \<Rightarrow> bool" where
  "contents_at dat start ms ls data \<longleftrightarrow>
     (\<forall>k < length ms. slice_of (start + fst (ls ! k)) (start + fst (ls ! k) + ms_len (ms ! k)) data = dat (ms ! k))"

lemma write_contents_lay:
  assumes "0 < align" "0 < bs" "\<forall>m \<in> set ms. sourced dat m" "view_ok d v" "lay_end bs align cur ms \<le> unat (pv_len v)"
  shows "\<exists>d'. write_contents (pre @ ms @ post) v (placements sha dat (length pre) ms (lay bs align x cur ms)) d = (Inr (), d')
    \<and> view_ok d' v \<and> length (bd_data d') = length (bd_data d) \<and> (\<forall>j < unat (pv_start v) + cur. bd_data d' ! j = bd_data d ! j)
    \<and> contents_at dat (unat (pv_start v)) ms (lay bs align x cur ms) (bd_data d')"
  using assms(3-5)
proof (induction ms arbitrary: pre x cur d)
  case Nil
  then show ?case by (simp add: contents_at_def)
next
  case (Cons m ms)
  let ?s = "unat (pv_start v)"
  define c1 where "c1 = (if 0 < ms_len m then pal_align_up cur align else cur)"
  define cur1 where "cur1 = (if 0 < ms_len m then next_cursor bs m (pal_align_up cur align) else cur)"
  let ?x = "if 0 < ms_len m then x + 1 else x"
  let ?p = "\<lparr>pp_member = length pre, pp_offset = c1, pp_len = ms_len m, pp_digest = sha (dat m)\<rparr>"
  have lay: "lay bs align x cur (m # ms) = (c1, x) # lay bs align ?x cur1 ms"
    by (simp add: Let_def c1_def cur1_def)
  have src: "member_source (ms_content m) (dat m)" using Cons.prems(1) by (simp add: sourced_def)
  have len: "ms_len m = length (dat m)" using src by (rule member_source.len)
  have c: "cur \<le> c1" "c1 + ms_len m \<le> cur1"
    using pal_align_up_ge [OF assms(1), of cur] next_cursor_ge(1) [OF assms(2), of "pal_align_up cur align" m]
    by (auto simp: c1_def cur1_def)
  have e: "cur1 \<le> unat (pv_len v)" "lay_end bs align cur1 ms \<le> unat (pv_len v)"
    using lay_end_ge [OF assms(1,2), of cur1 ms] Cons.prems(3) by (simp_all add: cur1_def)
  define d1 where "d1 = d\<lparr>bd_data := put (?s + c1) (dat m) (bd_data d)\<rparr>"
  have w: "write_chunks (ms_content m) v ?p 0 d = (Inr (), d1)"
    using member_source.write_chunks_all [OF src Cons.prems(2), of ?p 0] c e(1) len by (simp add: d1_def)
  have ok1: "view_ok d1 v" using Cons.prems(2) by (simp add: view_ok_def d1_def)
  have room: "?s + cur1 \<le> length (bd_data d)" using Cons.prems(2) e(1) by (simp add: view_ok_def)
  obtain d' where d': "write_contents ((pre @ [m]) @ ms @ post) v (placements sha dat (length (pre @ [m])) ms (lay bs align ?x cur1 ms)) d1 = (Inr (), d')"
    and k: "view_ok d' v" "length (bd_data d') = length (bd_data d1)" "\<forall>j < ?s + cur1. bd_data d' ! j = bd_data d1 ! j"
      "contents_at dat ?s ms (lay bs align ?x cur1 ms) (bd_data d')"
    using Cons.IH [of d1 cur1 "pre @ [m]" ?x] Cons.prems(1) ok1 e(2) by auto
  have "slice_of (?s + c1) (?s + c1 + ms_len m) (bd_data d') = slice_of (?s + c1) (?s + c1 + ms_len m) (bd_data d1)"
    by (rule slice_cong) (use k(2,3) c(2) in auto)
  also have "\<dots> = dat m"
    unfolding d1_def using c(2) room len by (simp add: slice_put_same)
  finally have mine: "slice_of (?s + c1) (?s + c1 + ms_len m) (bd_data d') = dat m" .
  have low: "\<forall>j < ?s + cur. bd_data d' ! j = bd_data d ! j"
    using k(3) c room by (auto simp: d1_def nth_put split: if_splits)
  show ?case
    unfolding lay
  proof (intro exI [of _ d'] conjI)
    show "write_contents (pre @ (m # ms) @ post) v (placements sha dat (length pre) (m # ms) ((c1, x) # lay bs align ?x cur1 ms)) d = (Inr (), d')"
      using w d' by simp
    show "contents_at dat ?s (m # ms) ((c1, x) # lay bs align ?x cur1 ms) (bd_data d')"
      unfolding contents_at_def using k(4) mine
      by (auto simp: contents_at_def nth_Cons' less_Suc_eq_0_disj)
  qed (use k low in \<open>simp_all add: d1_def\<close>)
qed

section \<open>The header on the device\<close>

lemma pallet_parse_header:
  assumes "header_fits b mdo dg mt xt" "length mt = length (pb_members b) * MEMBER_LEN" "length xt = xc * EXTENT_LEN"
    "length (pb_members b) < 2 ^ 32" "xc < 2 ^ 32" "pl_superblock_parse (build_header b xc mdo dg mt xt) = Inr sb"
  defines "te \<equiv> PAL_SUPERBLOCK_LEN + length mt + length xt" and "h \<equiv> build_header b xc mdo dg mt xt"
  shows "tables_end sb = te" "pallet_parse (take te h) = Some (Inr \<lparr>pa_sb = sb, pa_buf = take te h\<rparr>)"
proof -
  obtain sb' where "pl_superblock_parse h = Inr sb'" and f: "pl_member_count sb' = of_nat (length (pb_members b))" "pl_extent_count sb' = of_nat xc"
    "pl_members_crc sb' = crc32 mt" "pl_extents_crc sb' = crc32 xt"
    unfolding h_def using superblock_parse_header [OF assms(1)] by metis
  with assms(6) have sb: "sb' = sb" by (simp add: h_def)
  have ml: "members_len sb = length mt" and xl: "extents_len sb = length xt"
    using f(1,2) assms(2-5) by (simp_all add: sb members_len_def extents_len_def unat_of_nat take_bit_nat_eq_self)
  then show te: "tables_end sb = te" by (simp add: tables_end_def te_def)
  have fit: "te \<le> length h" using assms(1) by (simp add: header_fits_def te_def h_def)
  have p: "pl_superblock_parse (take te h) = Inr sb"
    using pl_superblock_parse_take [of te h] fit assms(6) by (simp add: te_def h_def)
  have four: "136 \<le> PAL_SUPERBLOCK_LEN" by (simp add: PAL_SUPERBLOCK_LEN_def)
  have m: "slice_of PAL_SUPERBLOCK_LEN (PAL_SUPERBLOCK_LEN + length mt) (take te h) = mt"
    using build_fields_slices(16) [OF assms(1), of xc] slice_build_header [of _ PAL_SUPERBLOCK_LEN] four
    by (simp add: slice_take te_def h_def)
  have x: "slice_of (PAL_SUPERBLOCK_LEN + length mt) te (take te h) = xt"
    using build_fields_slices(17) [OF assms(1), of xc] slice_build_header [of _ "PAL_SUPERBLOCK_LEN + length mt"] four
    by (simp add: slice_take te_def h_def)
  show "pallet_parse (take te h) = Some (Inr \<lparr>pa_sb = sb, pa_buf = take te h\<rparr>)"
    using fit p m x f(3,4) te ml xl unfolding sb by (simp add: pallet_parse_def sub_slice_def te_def min_def)
qed

end
