(* ===== verification/PalletPublish.thy ===== *)
theory PalletPublish
  imports PalletContents
begin

text \<open>
  Publishing: a builder that lays out leaves its header and its contents in the partition, each where
  the tables say; and what a partial publish does not touch still reads as before.
\<close>

section \<open>What was built\<close>

definition tables_at :: "PalletBuilder \<Rightarrow> nat" where
  "tables_at b = PAL_SUPERBLOCK_LEN + length (pb_members b) * MEMBER_LEN + full_members (pb_members b) * EXTENT_LEN"

definition data_at :: "nat \<Rightarrow> PalletBuilder \<Rightarrow> nat" where
  "data_at align b = pal_align_up (tables_at b) align"

definition lay_of :: "nat \<Rightarrow> PalletBuilder \<Rightarrow> (nat \<times> nat) list" where
  "lay_of align b = lay (unat (pb_block_size b)) align 0 (data_at align b) (pb_members b)"

definition members_of :: "(bytes \<Rightarrow> bytes) \<Rightarrow> (MemberSpec \<Rightarrow> bytes) \<Rightarrow> nat \<Rightarrow> PalletBuilder \<Rightarrow> bytes list" where
  "members_of sha dat align b = map2 (m_entry sha dat) (pb_members b) (lay_of align b)"

definition extents_of :: "nat \<Rightarrow> PalletBuilder \<Rightarrow> bytes list" where
  "extents_of align b = concat (map2 (x_entry (unat (pb_block_size b))) (pb_members b) (lay_of align b))"

definition header_of :: "(bytes \<Rightarrow> bytes) \<Rightarrow> (MemberSpec \<Rightarrow> bytes) \<Rightarrow> nat \<Rightarrow> PalletBuilder \<Rightarrow> bytes" where
  "header_of sha dat align b =
     (let mt = concat (members_of sha dat align b); xt = concat (extents_of align b)
      in build_header b (full_members (pb_members b)) (data_at align b) (sha (mt @ xt)) mt xt)"

lemma length_extents: "length ls = length ms \<Longrightarrow> length (concat (map2 (x_entry bs) ms ls)) = full_members ms"
proof (induction ms arbitrary: ls)
  case (Cons m ms)
  then obtain l ls' where l: "ls = l # ls'" "length ls' = length ms" by (cases ls) auto
  with Cons.IH [OF l(2)] show ?case by (cases l) (simp add: x_entry_def full_members_def)
qed (simp add: full_members_def)

lemma length_tables:
  "length (concat (members_of sha dat align b)) = length (pb_members b) * MEMBER_LEN"
  "length (concat (extents_of align b)) = full_members (pb_members b) * EXTENT_LEN"
proof -
  have "\<forall>e \<in> set (members_of sha dat align b). length e = MEMBER_LEN" by (auto simp: members_of_def MEMBER_LEN_def)
  from length_concat_same [OF this] show "length (concat (members_of sha dat align b)) = length (pb_members b) * MEMBER_LEN"
    by (simp add: members_of_def lay_of_def)
  have "\<forall>e \<in> set (extents_of align b). length e = EXTENT_LEN" by (auto simp: extents_of_def EXTENT_LEN_def dest: length_x_entry)
  from length_concat_same [OF this] show "length (concat (extents_of align b)) = full_members (pb_members b) * EXTENT_LEN"
    by (simp add: extents_of_def lay_of_def length_extents)
qed

lemma build_layout:
  assumes "build sha b = Inr built" "\<forall>m \<in> set (pb_members b). sourced dat m"
  obtains align where "content_alignment b = Inr align" "512 \<le> pb_block_size b" "is_power_of_two (pb_block_size b)"
    "length (pb_name b) \<le> PAL_NAME_LEN" "length (pb_version_label b) \<le> VERSION_LABEL_LEN"
    "bp_header built = header_of sha dat align b" "bp_placements built = placements sha dat 0 (pb_members b) (lay_of align b)"
    "bp_total_bytes built = pal_align_up (lay_end (unat (pb_block_size b)) align (data_at align b) (pb_members b)) (unat (pb_block_size b))"
    "\<forall>m \<in> set (pb_members b). length (ms_name m) \<le> PAL_NAME_LEN \<and> length (ms_role m) \<le> ROLE_LEN"
proof -
  let ?ms = "pb_members b" and ?bs = "unat (pb_block_size b)"
  obtain align where a: "content_alignment b = Inr align" "\<not> pb_block_size b < 512" "is_power_of_two (pb_block_size b)"
    "length (pb_name b) \<le> PAL_NAME_LEN" "length (pb_version_label b) \<le> VERSION_LABEL_LEN"
    using assms(1) by (auto simp: build_def split: if_splits sum.splits)
  let ?st = "\<lparr>bs_members_tbl = zero_buf (length ?ms * MEMBER_LEN), bs_extents_tbl = zero_buf (full_members ?ms * EXTENT_LEN),
    bs_placements = [], bs_cursor = data_at align b, bs_extent_idx = 0\<rparr>"
  obtain st where st: "build_members sha ?bs align 0 ?ms ?st = Inr st"
    and built: "built = \<lparr>bp_header = build_header b (full_members ?ms) (data_at align b) (sha (bs_members_tbl st @ bs_extents_tbl st)) (bs_members_tbl st) (bs_extents_tbl st),
      bp_placements = bs_placements st, bp_member_data_offset = data_at align b, bp_block_size = pb_block_size b,
      bp_manifest_digest = sha (bs_members_tbl st @ bs_extents_tbl st), bp_total_bytes = pal_align_up (bs_cursor st) ?bs\<rparr>"
    using assms(1) a by (auto simp: build_def Let_def full_members_def data_at_def tables_at_def not_le split: sum.splits)
  note r = build_members_lay [OF st assms(2), of "[]" "[]", simplified]
  show thesis
    by (rule that [OF a(1)]) (use a r built in \<open>simp_all add: header_of_def Let_def members_of_def extents_of_def lay_of_def not_less\<close>)
qed

lemma header_of_fits:
  fixes dat :: "MemberSpec \<Rightarrow> bytes"
  assumes "512 \<le> pb_block_size b" "is_power_of_two (pb_block_size b)" "length (pb_name b) \<le> PAL_NAME_LEN"
    "length (pb_version_label b) \<le> VERSION_LABEL_LEN" "\<forall>x. length (sha x) = 32" "0 < align"
  defines "mt \<equiv> concat (members_of sha dat align b)" and "xt \<equiv> concat (extents_of align b)"
  shows "header_fits b (data_at align b) (sha (mt @ xt)) mt xt"
  using assms(1-5) pal_align_up_ge [OF assms(6), of "tables_at b"] length_tables
  by (simp add: header_fits_def mt_def xt_def data_at_def tables_at_def)

section \<open>What lies on the device\<close>

text \<open>The image of the partition after a publish: the header first, and every content in its place.\<close>

definition holds_pallet :: "(bytes \<Rightarrow> bytes) \<Rightarrow> (MemberSpec \<Rightarrow> bytes) \<Rightarrow> nat \<Rightarrow> PalletBuilder \<Rightarrow> bytes \<Rightarrow> bool" where
  "holds_pallet sha dat align b img \<longleftrightarrow>
     data_at align b \<le> length img \<and> take (data_at align b) img = header_of sha dat align b \<and> contents_at dat 0 (pb_members b) (lay_of align b) img"

lemma slice_view_image:
  assumes "view_ok d v" "c \<le> unat (pv_len v)"
  shows "slice_of a c (view_image d v) = slice_of (unat (pv_start v) + a) (unat (pv_start v) + c) (bd_data d)"
  unfolding view_image_def using assms(2) by (intro slice_slice) simp

lemma lay_bounds:
  assumes "0 < align" "0 < bs" "i < length ms"
  shows "cur \<le> fst (lay bs align x cur ms ! i) \<and> fst (lay bs align x cur ms ! i) + ms_len (ms ! i) \<le> lay_end bs align cur ms"
  using assms(3)
proof (induction ms arbitrary: i x cur)
  case (Cons m ms)
  let ?c = "pal_align_up cur align"
  have c: "cur \<le> ?c" "?c + ms_len m \<le> next_cursor bs m ?c" using pal_align_up_ge [OF assms(1)] next_cursor_ge(1) [OF assms(2)] by auto
  note e = lay_end_ge [OF assms(1,2), of "next_cursor bs m ?c" ms] lay_end_ge [OF assms(1,2), of cur ms]
  show ?case
  proof (cases i)
    case 0 with c e show ?thesis by (auto simp: Let_def)
  next
    case (Suc j)
    then show ?thesis
      using Cons.IH [of j "next_cursor bs m ?c" "x + 1"] Cons.IH [of j cur x] Cons.prems c by (auto simp: Let_def)
  qed
qed simp

lemma publish_holds:
  assumes "view_ok d v" "build sha b = Inr built" "bp_total_bytes built \<le> unat (pv_len v)" "min_bs \<le> pb_block_size b"
    "\<forall>x. length (sha x) = 32" "\<forall>m \<in> set (pb_members b). sourced dat m"
  obtains d' align where "publish sha min_bs b v d = (Inr built, d')" "view_ok d' v" "holds_pallet sha dat align b (view_image d' v)"
    "content_alignment b = Inr align" "512 \<le> pb_block_size b" "is_power_of_two (pb_block_size b)"
    "length (pb_name b) \<le> PAL_NAME_LEN" "length (pb_version_label b) \<le> VERSION_LABEL_LEN"
    "\<forall>m \<in> set (pb_members b). length (ms_name m) \<le> PAL_NAME_LEN \<and> length (ms_role m) \<le> ROLE_LEN"
    "lay_end (unat (pb_block_size b)) align (data_at align b) (pb_members b) \<le> unat (pv_len v)"
proof -
  let ?ms = "pb_members b" and ?bs = "unat (pb_block_size b)" and ?s = "unat (pv_start v)"
  obtain align where a: "content_alignment b = Inr align" and g: "512 \<le> pb_block_size b" "is_power_of_two (pb_block_size b)"
    "length (pb_name b) \<le> PAL_NAME_LEN" "length (pb_version_label b) \<le> VERSION_LABEL_LEN"
    and built: "bp_header built = header_of sha dat align b" "bp_placements built = placements sha dat 0 ?ms (lay_of align b)"
    "bp_total_bytes built = pal_align_up (lay_end ?bs align (data_at align b) ?ms) ?bs"
    and names: "\<forall>m \<in> set ?ms. length (ms_name m) \<le> PAL_NAME_LEN \<and> length (ms_role m) \<le> ROLE_LEN"
    using build_layout [OF assms(2,6)] .
  have bs: "0 < ?bs" using g(1) by (auto simp: word_le_nat_alt)
  have al: "0 < align" using content_alignment_dvd(2) [OF a g(2)] by (simp add: PAL_SUPERBLOCK_LEN_def)
  let ?fin = "lay_end ?bs align (data_at align b) ?ms"
  have e: "?fin \<le> unat (pv_len v)" using pal_align_up_ge [OF bs, of ?fin] built(3) assms(3) by simp
  have de: "data_at align b \<le> ?fin" by (rule lay_end_ge [OF al bs])
  let ?h = "header_of sha dat align b"
  have lh: "length ?h = data_at align b" by (simp add: header_of_def Let_def)
  from write_contents_lay [OF al bs assms(6,1) e, of "[]" "[]" sha 0] obtain d1 where w: "write_contents ?ms v (bp_placements built) d = (Inr (), d1)"
    and d1: "view_ok d1 v" "length (bd_data d1) = length (bd_data d)" "contents_at dat ?s ?ms (lay_of align b) (bd_data d1)"
    by (auto simp: built(2) lay_of_def)
  define d' where "d' = d1\<lparr>bd_data := put ?s ?h (bd_data d1)\<rparr>"
  have wh: "pv_write_at d1 v 0 ?h = (Inr (), d')"
    using pv_write_at_eq [OF d1(1), of 0 ?h] de e lh by (simp add: d'_def)
  have ok: "view_ok d' v" using d1(1) by (simp add: view_ok_def d'_def)
  have room: "?s + unat (pv_len v) \<le> length (bd_data d1)" using d1(1) by (simp add: view_ok_def)
  have pub: "publish sha min_bs b v d = (Inr built, d')"
    using assms(2-4) w wh built(1) by (simp add: publish_def write_pallet_def not_less not_le [symmetric])
  have "take (data_at align b) (view_image d' v) = ?h"
    using slice_view_image [OF ok, of "data_at align b" 0] de e room lh
    by (simp add: take_eq_slice d'_def slice_put_same)
  moreover have "contents_at dat 0 ?ms (lay_of align b) (view_image d' v)"
    unfolding contents_at_def
  proof (intro allI impI)
    fix k assume k: "k < length ?ms"
    let ?c = "fst (lay_of align b ! k)" and ?n = "ms_len (?ms ! k)"
    have b: "data_at align b \<le> ?c" "?c + ?n \<le> ?fin" using lay_bounds [OF al bs k] by (simp_all add: lay_of_def)
    have "slice_of (0 + ?c) (0 + ?c + ?n) (view_image d' v) = slice_of (?s + ?c) (?s + ?c + ?n) (bd_data d')"
      using slice_view_image [OF ok, of "?c + ?n" ?c] b e by (simp add: add.assoc)
    also have "\<dots> = slice_of (?s + ?c) (?s + ?c + ?n) (bd_data d1)"
      unfolding d'_def using b(1) lh by (simp add: slice_put_other)
    also have "\<dots> = dat (?ms ! k)" using d1(3) k by (simp add: contents_at_def)
    finally show "slice_of (0 + ?c) (0 + ?c + ?n) (view_image d' v) = dat (?ms ! k)" .
  qed
  moreover have "data_at align b \<le> length (view_image d' v)" using de e length_view_image [OF ok] by simp
  ultimately have "holds_pallet sha dat align b (view_image d' v)" by (simp add: holds_pallet_def)
  with pub ok a g names e show thesis by (intro that)
qed

section \<open>A publish that stops\<close>

lemma lay_take: "take k (lay bs align x cur ms) = lay bs align x cur (take k ms)"
  by (induction ms arbitrary: k x cur) (simp_all add: Let_def take_Cons' split: nat.split)

lemma placements_take: "length ls = length ms \<Longrightarrow> take k (placements sha dat i ms ls) = placements sha dat i (take k ms) (take k ls)"
  by (induction sha dat i ms ls arbitrary: k rule: placements.induct) (auto simp: take_Cons' split: nat.split)

lemma length_placements: "length ls = length ms \<Longrightarrow> length (placements sha dat i ms ls) = length ms"
  by (induction sha dat i ms ls rule: placements.induct) auto

lemma placement_offsets: "length ls = length ms \<Longrightarrow> k < length ms \<Longrightarrow> pp_offset (placements sha dat i ms ls ! k) = fst (ls ! k)"
  by (induction sha dat i ms ls arbitrary: k rule: placements.induct) (auto simp: nth_Cons' split: nat.split)

lemma lay_end_take: "0 < align \<Longrightarrow> 0 < bs \<Longrightarrow> lay_end bs align cur (take k ms) \<le> lay_end bs align cur ms"
proof -
  assume a: "0 < align" "0 < bs"
  have "lay_end bs align cur (xs @ ys) = lay_end bs align (lay_end bs align cur xs) ys" for xs ys
    by (induction xs arbitrary: cur) simp_all
  from this [of "take k ms" "drop k ms"] show ?thesis using lay_end_ge [OF a] by simp
qed

lemma map_sum_Inr_conv: "map_sum f g z = Inr y \<longleftrightarrow> (\<exists>x. z = Inr x \<and> g x = y)"
  by (cases z) auto

lemma pallet_read_sb:
  assumes "view_ok d v" "pv_read_at d v 0 PAL_SUPERBLOCK_LEN = Inr head" "pl_superblock_parse head = Inr sb"
    "pv_read_at d v 0 (tables_end sb) = Inr buf" "pallet_parse buf = Some (Inr p)"
  shows "pa_sb p = sb"
proof -
  let ?te = "tables_end sb" and ?s = "unat (pv_start v)"
  have four: "PAL_SUPERBLOCK_LEN \<le> ?te" "0 < PAL_SUPERBLOCK_LEN" by (simp_all add: tables_end_def PAL_SUPERBLOCK_LEN_def)
  have te64: "?te < 2 ^ 64"
    using unsigned_less [of "pl_member_count sb", where 'a = nat] unsigned_less [of "pl_extent_count sb", where 'a = nat]
    by (simp add: tables_defs)
  have "\<not> pv_len v < of_nat ?te" using assms(4) four by (auto simp: pv_read_at_def split: if_splits)
  then have le: "?te \<le> unat (pv_len v)" using te64 by (simp add: word_less_nat_alt unat_of_nat64)
  have "buf = slice_of ?s (?s + ?te) (bd_data d)" "head = slice_of ?s (?s + PAL_SUPERBLOCK_LEN) (bd_data d)"
    using pv_read_at_eq [OF assms(1), of 0] assms(2,4) four le by simp_all
  then have "head = take PAL_SUPERBLOCK_LEN buf" using four(1) by (simp add: slice_of_def min_def)
  moreover from assms(5) have "pl_superblock_parse buf = Inr (pa_sb p)"
    by (auto simp: pallet_parse_def split: sum.splits if_splits option.splits)
  ultimately show ?thesis
    using assms(3) pl_superblock_parse_take [of PAL_SUPERBLOCK_LEN buf] pl_superblock_parse_long [of buf] by simp
qed

lemma pallet_read_below:
  assumes "view_ok d v" "view_ok d' v" "length (bd_data d') = length (bd_data d)" "\<forall>j < unat (pv_start v) + n. bd_data d' ! j = bd_data d ! j"
    "PAL_SUPERBLOCK_LEN \<le> n" "n \<le> unat (pv_len v)" "pallet_read d v = Some (Inr p)" "tables_end (pa_sb p) \<le> n"
  shows "pallet_read d' v = Some (Inr p)"
proof -
  have same: "pv_read_at d' v 0 k = pv_read_at d v 0 k" if "k \<le> n" for k
  proof -
    have "slice_of (unat (pv_start v)) (unat (pv_start v) + k) (bd_data d') = slice_of (unat (pv_start v)) (unat (pv_start v) + k) (bd_data d)"
      by (rule slice_cong) (use assms(3,4) that in auto)
    then show ?thesis using pv_read_at_eq [OF assms(1), of 0 k] pv_read_at_eq [OF assms(2), of 0 k] that assms(6) by simp
  qed
  from assms(7) obtain head sb buf where r: "pv_read_at d v 0 PAL_SUPERBLOCK_LEN = Inr head" "pl_superblock_parse head = Inr sb"
    "pv_read_at d v 0 (tables_end sb) = Inr buf" "pallet_parse buf = Some (Inr p)"
    by (auto simp: pallet_read_def split: sum.splits) (metis map_sum_Inr_conv)
  have "pa_sb p = sb" by (rule pallet_read_sb [OF assms(1) r])
  then show ?thesis using assms(5,7,8) same by (simp add: pallet_read_def r)
qed

end
