(* ===== verification/PalletVerify.thy ===== *)
theory PalletVerify
  imports PalletPublish
begin

text \<open>
  Reading a published pallet: it parses, each member's extent holds its content, and every check of
  the firmware reader and of the engine's reader passes.
\<close>

section \<open>The pallet read back\<close>

text \<open>What the layout guarantees of a builder and a partition of \<open>room\<close> bytes.\<close>

definition laid_out :: "(bytes \<Rightarrow> bytes) \<Rightarrow> nat \<Rightarrow> PalletBuilder \<Rightarrow> nat \<Rightarrow> bool" where
  "laid_out sha align b room \<longleftrightarrow>
     content_alignment b = Inr align \<and> 512 \<le> pb_block_size b \<and> is_power_of_two (pb_block_size b) \<and>
     length (pb_name b) \<le> PAL_NAME_LEN \<and> length (pb_version_label b) \<le> VERSION_LABEL_LEN \<and>
     (\<forall>m \<in> set (pb_members b). length (ms_name m) \<le> PAL_NAME_LEN \<and> length (ms_role m) \<le> ROLE_LEN) \<and>
     lay_end (unat (pb_block_size b)) align (data_at align b) (pb_members b) \<le> room \<and> room < 2 ^ 64 \<and>
     unat (pb_block_size b) dvd room \<and> (\<forall>x. length (sha x) = 32) \<and> length (pb_members b) < 2 ^ 32"

definition pallet_of :: "(bytes \<Rightarrow> bytes) \<Rightarrow> (MemberSpec \<Rightarrow> bytes) \<Rightarrow> nat \<Rightarrow> PalletBuilder \<Rightarrow> pallet" where
  "pallet_of sha dat align b =
     (let h = header_of sha dat align b in \<lparr>pa_sb = projr (pl_superblock_parse h), pa_buf = take (tables_at b) h\<rparr>)"

lemma laid_out_pos: "laid_out sha align b room \<Longrightarrow> 0 < unat (pb_block_size b) \<and> 0 < align"
  using content_alignment_dvd(2) [of b align] by (auto simp: laid_out_def word_le_nat_alt PAL_SUPERBLOCK_LEN_def)

lemma full_members_le: "full_members ms \<le> length ms"
  by (simp add: full_members_def)

lemma pallet_of_facts:
  fixes dat :: "MemberSpec \<Rightarrow> bytes"
  assumes "laid_out sha align b room"
  defines "p \<equiv> pallet_of sha dat align b" and "h \<equiv> header_of sha dat align b"
    and "mt \<equiv> concat (members_of sha dat align b)" and "xt \<equiv> concat (extents_of align b)"
  shows "pl_superblock_parse h = Inr (pa_sb p)" "tables_end (pa_sb p) = tables_at b" "pallet_parse (take (tables_at b) h) = Some (Inr p)"
    "pl_block_size (pa_sb p) = pb_block_size b" "unat (pl_member_count (pa_sb p)) = length (pb_members b)"
    "unat (pl_extent_count (pa_sb p)) = full_members (pb_members b)" "pl_manifest_digest (pa_sb p) = sha (mt @ xt)"
    "pl_pallet_version (pa_sb p) = pb_pallet_version b" "pl_kind_raw (pa_sb p) = pallet_kind_to_u32 (pb_kind b)"
    "slice_of PAL_SUPERBLOCK_LEN (PAL_SUPERBLOCK_LEN + length mt) (pa_buf p) = mt"
    "slice_of (PAL_SUPERBLOCK_LEN + length mt) (tables_at b) (pa_buf p) = xt"
    "length (pa_buf p) = tables_at b"
proof -
  let ?xc = "full_members (pb_members b)" and ?mdo = "data_at align b" and ?dg = "sha (mt @ xt)"
  have al: "0 < align" using laid_out_pos [OF assms(1)] by simp
  have fits: "header_fits b ?mdo ?dg mt xt"
    unfolding mt_def xt_def using assms(1) al by (intro header_of_fits) (simp_all add: laid_out_def)
  have h: "h = build_header b ?xc ?mdo ?dg mt xt" by (simp add: h_def header_of_def Let_def mt_def xt_def)
  obtain sb where sb: "pl_superblock_parse h = Inr sb" and f: "pl_block_size sb = pb_block_size b"
    "pl_member_count sb = of_nat (length (pb_members b))" "pl_extent_count sb = of_nat ?xc" "pl_manifest_digest sb = ?dg"
    "pl_pallet_version sb = pb_pallet_version b" "pl_kind_raw sb = pallet_kind_to_u32 (pb_kind b)"
    unfolding h using superblock_parse_header [OF fits] by metis
  have n: "length (pb_members b) < 2 ^ 32" "?xc < 2 ^ 32" using assms(1) full_members_le [of "pb_members b"] by (simp_all add: laid_out_def)
  have t: "PAL_SUPERBLOCK_LEN + length mt + length xt = tables_at b" by (simp add: mt_def xt_def length_tables tables_at_def)
  have p: "p = \<lparr>pa_sb = sb, pa_buf = take (tables_at b) h\<rparr>" using sb by (simp add: p_def pallet_of_def Let_def h_def)
  note ph = pallet_parse_header [OF fits _ _ n, of sb, folded h, unfolded t]
  show "pl_superblock_parse h = Inr (pa_sb p)" using sb p by simp
  show "tables_end (pa_sb p) = tables_at b" "pallet_parse (take (tables_at b) h) = Some (Inr p)"
    using ph sb by (simp_all add: p mt_def xt_def length_tables)
  show "pl_block_size (pa_sb p) = pb_block_size b" "unat (pl_member_count (pa_sb p)) = length (pb_members b)"
    "unat (pl_extent_count (pa_sb p)) = ?xc" "pl_manifest_digest (pa_sb p) = ?dg" "pl_pallet_version (pa_sb p) = pb_pallet_version b"
    "pl_kind_raw (pa_sb p) = pallet_kind_to_u32 (pb_kind b)"
    using f n by (simp_all add: p unat_of_nat take_bit_nat_eq_self)
  have four: "136 \<le> PAL_SUPERBLOCK_LEN" by (simp add: PAL_SUPERBLOCK_LEN_def)
  show "slice_of PAL_SUPERBLOCK_LEN (PAL_SUPERBLOCK_LEN + length mt) (pa_buf p) = mt"
    using build_fields_slices(16) [OF fits, of ?xc] slice_build_header [of _ PAL_SUPERBLOCK_LEN] four t by (simp add: slice_take p h)
  show "slice_of (PAL_SUPERBLOCK_LEN + length mt) (tables_at b) (pa_buf p) = xt"
    using build_fields_slices(17) [OF fits, of ?xc] slice_build_header [of _ "PAL_SUPERBLOCK_LEN + length mt"] four t by (simp add: slice_take p h)
  show "length (pa_buf p) = tables_at b"
    using pal_align_up_ge [OF al, of "tables_at b"] by (simp add: p h data_at_def)
qed

lemma pallet_read_back:
  assumes "view_ok d v" "holds_pallet sha dat align b (view_image d v)" "laid_out sha align b (unat (pv_len v))"
  shows "pallet_read d v = Some (Inr (pallet_of sha dat align b))"
proof -
  let ?h = "header_of sha dat align b" and ?mdo = "data_at align b" and ?s = "unat (pv_start v)"
  note f = pallet_of_facts [OF assms(3), of dat]
  have al: "0 < align" using laid_out_pos [OF assms(3)] by simp
  have le: "PAL_SUPERBLOCK_LEN \<le> tables_at b" "tables_at b \<le> ?mdo" "?mdo \<le> unat (pv_len v)"
    using pal_align_up_ge [OF al] assms(2) length_view_image [OF assms(1)] by (simp_all add: tables_at_def data_at_def holds_pallet_def)
  have rd: "pv_read_at d v 0 n = Inr (take n ?h)" if "n \<le> ?mdo" for n
  proof -
    have "pv_read_at d v 0 n = Inr (slice_of ?s (?s + n) (bd_data d))"
      using pv_read_at_eq [OF assms(1), of 0 n] that le(3) by simp
    also have "slice_of ?s (?s + n) (bd_data d) = take n (view_image d v)"
      using slice_view_image [OF assms(1), of n 0] that le(3) by (simp add: take_eq_slice)
    also have "\<dots> = take n ?h" using assms(2) that unfolding holds_pallet_def by (metis min.absorb1 take_take)
    finally show ?thesis .
  qed
  have "length ?h = ?mdo" by (simp add: header_of_def Let_def)
  then have "pl_superblock_parse (take PAL_SUPERBLOCK_LEN ?h) = Inr (pa_sb (pallet_of sha dat align b))"
    using pl_superblock_parse_take [of PAL_SUPERBLOCK_LEN ?h] f(1) le by simp
  then show ?thesis using rd le f(2,3) by (simp add: pallet_read_def)
qed

section \<open>Its members\<close>

lemma pallet_of_member:
  assumes "laid_out sha align b room" "i < length (pb_members b)"
  shows "pal_member (pallet_of sha dat align b) i = Some (member_parse (m_entry sha dat (pb_members b ! i) (lay_of align b ! i)))"
proof -
  let ?p = "pallet_of sha dat align b" and ?es = "members_of sha dat align b"
  note f = pallet_of_facts [OF assms(1), of dat]
  have es: "length ?es = length (pb_members b)" "\<forall>e \<in> set ?es. length e = MEMBER_LEN"
    by (auto simp: members_of_def lay_of_def MEMBER_LEN_def)
  have "(i + 1) * MEMBER_LEN \<le> length (pb_members b) * MEMBER_LEN" using assms(2) by (intro mult_le_mono1) simp
  then have "slice_of (i * MEMBER_LEN) (i * MEMBER_LEN + MEMBER_LEN) (slice_of PAL_SUPERBLOCK_LEN (PAL_SUPERBLOCK_LEN + length (concat ?es)) (pa_buf ?p))
      = slice_of (PAL_SUPERBLOCK_LEN + i * MEMBER_LEN) (PAL_SUPERBLOCK_LEN + (i * MEMBER_LEN + MEMBER_LEN)) (pa_buf ?p)"
    by (intro slice_slice) (simp only: length_tables, simp)
  then have "slice_of (PAL_SUPERBLOCK_LEN + i * MEMBER_LEN) (PAL_SUPERBLOCK_LEN + (i * MEMBER_LEN + MEMBER_LEN)) (pa_buf ?p)
      = slice_of (i * MEMBER_LEN) (i * MEMBER_LEN + MEMBER_LEN) (concat ?es)" by (simp only: f(10))
  also have "\<dots> = ?es ! i" by (rule slice_concat [OF es(2)]) (simp add: es(1) assms(2))
  also have "\<dots> = m_entry sha dat (pb_members b ! i) (lay_of align b ! i)" using assms(2) by (simp add: members_of_def lay_of_def)
  finally show ?thesis using pal_member_eq [of ?p i] f(2,5,12) assms(2) by (simp add: add.assoc)
qed

lemma pallet_of_extent:
  assumes "laid_out sha align b room" "i < full_members (pb_members b)"
  shows "pal_extent (pallet_of sha dat align b) i = Some (extent_parse (extents_of align b ! i))"
proof -
  let ?p = "pallet_of sha dat align b" and ?es = "extents_of align b" and ?mt = "concat (members_of sha dat align b)"
  note f = pallet_of_facts [OF assms(1), of dat]
  have es: "length ?es = full_members (pb_members b)" "\<forall>e \<in> set ?es. length e = EXTENT_LEN"
    by (auto simp: extents_of_def lay_of_def length_extents EXTENT_LEN_def dest: length_x_entry)
  have ml: "members_len (pa_sb ?p) = length ?mt" by (simp add: members_len_def f(5) length_tables)
  have "(i + 1) * EXTENT_LEN \<le> full_members (pb_members b) * EXTENT_LEN" using assms(2) by (intro mult_le_mono1) simp
  then have "slice_of (i * EXTENT_LEN) (i * EXTENT_LEN + EXTENT_LEN) (slice_of (PAL_SUPERBLOCK_LEN + length ?mt) (tables_at b) (pa_buf ?p))
      = slice_of (PAL_SUPERBLOCK_LEN + length ?mt + i * EXTENT_LEN) (PAL_SUPERBLOCK_LEN + length ?mt + (i * EXTENT_LEN + EXTENT_LEN)) (pa_buf ?p)"
    by (intro slice_slice) (simp only: length_tables tables_at_def, simp)
  then have "slice_of (PAL_SUPERBLOCK_LEN + length ?mt + i * EXTENT_LEN) (PAL_SUPERBLOCK_LEN + length ?mt + (i * EXTENT_LEN + EXTENT_LEN)) (pa_buf ?p)
      = slice_of (i * EXTENT_LEN) (i * EXTENT_LEN + EXTENT_LEN) (concat ?es)" by (simp only: f(11))
  also have "\<dots> = ?es ! i" by (rule slice_concat [OF es(2)]) (simp add: es(1) assms(2))
  finally show ?thesis using pal_extent_eq [of ?p i] f(2,6,12) assms(2) ml by (simp add: add.assoc)
qed

lemma one_extent_sound:
  assumes "0 < bs" "bs dvd c" "c + div_ceil n bs * bs \<le> room" "room < 2 ^ 64" "0 < n"
  defines "x \<equiv> \<lparr>px_logical_block = 0, px_partition_block = of_nat (c div bs), px_block_count = of_nat (div_ceil n bs), px_flags = 0\<rparr>"
  shows "extent_sound bs room x" "ext_covers x lb \<longleftrightarrow> lb < div_ceil n bs" "unat (px_partition_block x) * bs = c"
proof -
  have c: "c div bs * bs = c" using assms(2) by simp
  have "div_ceil n bs * 1 \<le> div_ceil n bs * bs" "c div bs * 1 \<le> c div bs * bs" using assms(1) by (intro mult_le_mono2; simp)+
  then have "div_ceil n bs < 2 ^ 64" "c div bs < 2 ^ 64" using assms(3,4) c by linarith+
  then have u: "unat (px_block_count x) = div_ceil n bs" "unat (px_partition_block x) = c div bs" by (simp_all add: x_def unat_of_nat64)
  show "unat (px_partition_block x) * bs = c" using u(2) c by simp
  show "ext_covers x lb \<longleftrightarrow> lb < div_ceil n bs" unfolding ext_covers_def u by (simp add: x_def)
  have "(c div bs + div_ceil n bs) * bs \<le> room" using assms(3) c by (simp add: add_mult_distrib)
  moreover have "div_ceil n bs * bs < 2 ^ 64" using assms(3,4) by linarith
  ultimately show "extent_sound bs room x"
    unfolding extent_sound_def u using \<open>div_ceil n bs < 2 ^ 64\<close> by (simp add: x_def)
qed

lemma published_member:
  assumes "laid_out sha align b (length img)" "holds_pallet sha dat align b img" "i < length (pb_members b)" "sourced dat (pb_members b ! i)"
  defines "p \<equiv> pallet_of sha dat align b" and "m \<equiv> pb_members b ! i" and "bs \<equiv> unat (pb_block_size b)"
  obtains r xs where "pal_member p i = Some (Inr r)" "member_sound p r xs (length img)"
    "map (member_byte bs xs img) [0..<unat (pm_byte_len r)] = dat m" "pm_digest r = sha (dat m)" "pm_flags r = ms_flags m"
    "take (length (ms_name m)) (pm_name r) = ms_name m"
proof -
  obtain c y where cy: "lay_of align b ! i = (c, y)" by fastforce
  have pos: "0 < align" "0 < bs" using laid_out_pos [OF assms(1)] by (simp_all add: bs_def)
  have bsp: "unat (pl_block_size (pa_sb p)) = bs" using pallet_of_facts(4) [OF assms(1), of dat] by (simp add: p_def bs_def)
  have room: "length img < 2 ^ 64" "bs dvd length img" "lay_end bs align (data_at align b) (pb_members b) \<le> length img"
    and g: "content_alignment b = Inr align" "is_power_of_two (pb_block_size b)" "\<forall>x. length (sha x) = 32" "length (pb_members b) < 2 ^ 32"
    and nm: "length (ms_name m) \<le> PAL_NAME_LEN" "length (ms_role m) \<le> ROLE_LEN"
    using assms(1,3) by (simp_all add: laid_out_def bs_def m_def)
  obtain r where r: "member_parse (m_entry sha dat m (c, y)) = Inr r" "pm_flags r = ms_flags m" "pm_byte_len r = of_nat (ms_len m)"
    "pm_extent_first r = (if 0 < ms_len m then of_nat y else 0)" "pm_extent_count r = (if 0 < ms_len m then 1 else 0)"
    "pm_digest r = sha (dat m)" "take (length (ms_name m)) (pm_name r) = ms_name m"
    using member_parse_entry [OF nm, of sha dat] g(3) by metis
  have pm: "pal_member p i = Some (Inr r)"
    using pallet_of_member [OF assms(1,3), of dat] r(1) cy by (simp add: p_def m_def)
  have ld: "length (dat m) = ms_len m" using assms(4) member_source.len by (simp add: sourced_def m_def)
  have cont: "slice_of c (c + ms_len m) img = dat m"
    using assms(2,3) cy unfolding holds_pallet_def contents_at_def m_def by (metis add_0 fst_conv)
  show thesis
  proof (cases "0 < ms_len m")
    case False
    then have "member_sound p r [] (length img)" using pos room r by (simp add: member_sound_def Let_def bsp)
    with pm r False ld show thesis by (intro that [of r "[]"]) simp_all
  next
    case True
    from lay_nth [OF pos assms(3), of 0 "data_at align b" c y, folded m_def] True cy
    have l: "align dvd c" "c + div_ceil (ms_len m) bs * bs \<le> length img" "y < full_members (pb_members b)"
      "extents_of align b ! y = extent_entry (c div bs) (div_ceil (ms_len m) bs) (zero_buf EXTENT_LEN)"
      using room(3) by (simp_all add: lay_of_def bs_def extents_of_def m_def)
    define x where "x = \<lparr>px_logical_block = 0 :: u64, px_partition_block = of_nat (c div bs) :: u64, px_block_count = of_nat (div_ceil (ms_len m) bs) :: u64, px_flags = 0 :: u32\<rparr>"
    have "bs dvd c" using content_alignment_dvd(1) [OF g(1,2)] l(1) by (auto simp: bs_def dest: dvd_trans)
    note xs = one_extent_sound [OF pos(2) this l(2) room(1) True, folded x_def]
    have px: "pal_extent p y = Some (Inr x)"
      using pallet_of_extent [OF assms(1) l(3), of dat] l(4) by (simp add: p_def x_def extent_parse_entry)
    have "y < 2 ^ 32" using l(3) full_members_le [of "pb_members b"] g(4) by simp
    then have y: "unat (pm_extent_first r) = y" using r(4) True by (simp add: unat_of_nat take_bit_nat_eq_self)
    have "ms_len m < 2 ^ 64" using div_ceil_ge [OF pos(2), of "ms_len m"] l(2) room(1) by linarith
    then have n: "unat (pm_byte_len r) = ms_len m" by (simp add: r(3) unat_of_nat64)
    have snd: "member_sound p r [x] (length img)"
      using pos room r(5) True px y xs(1,2) n by (simp add: member_sound_def Let_def bsp)
    have "member_byte bs [x] img k = dat m ! k" if k: "k < ms_len m" for k
    proof -
      have "k < div_ceil (ms_len m) bs * bs" using k div_ceil_ge [OF pos(2), of "ms_len m"] by linarith
      then have "ext_covers x (k div bs)" using xs(2) by (simp add: less_mult_imp_div_less)
      then have "member_byte bs [x] img k = img ! (c + k)" using xs(3) by (simp add: member_byte_def) (simp add: x_def)
      also have "\<dots> = slice_of c (c + ms_len m) img ! k"
        using k l(2) div_ceil_ge [OF pos(2), of "ms_len m"] by (subst nth_slice) simp_all
      finally show ?thesis by (simp add: cont)
    qed
    then have "map (member_byte bs [x] img) [0..<unat (pm_byte_len r)] = dat m"
      unfolding n by (intro nth_equalityI) (simp_all add: ld)
    with pm snd r show thesis by (intro that [of r "[x]"])
  qed
qed

section \<open>Every check passes\<close>

lemma same_digest_fold: "fold (\<lambda>(x, y) diff. diff OR (x XOR y)) zs d = (0 :: u8) \<longleftrightarrow> d = 0 \<and> (\<forall>(x, y) \<in> set zs. x = y)"
proof (induction zs arbitrary: d)
  case (Cons z zs)
  have "d OR (fst z XOR snd z) = 0 \<longleftrightarrow> d = 0 \<and> fst z = snd z"
    by (auto simp: bit_eq_iff bit_or_iff bit_xor_iff)
  with Cons show ?case by (cases z) auto
qed simp

lemma same_digest_iff: "length a = length b \<Longrightarrow> same_digest a b \<longleftrightarrow> a = b"
  unfolding same_digest_def same_digest_fold by (simp add: Ball_def in_set_zip list_eq_iff_nth_eq) blast

lemma verify_manifest_published:
  assumes "laid_out sha align b room"
  shows "verify_manifest sha (pallet_of sha dat align b) = Some (Inr ())"
proof -
  note f = pallet_of_facts [OF assms, of dat]
  let ?p = "pallet_of sha dat align b" and ?mt = "concat (members_of sha dat align b)" and ?xt = "concat (extents_of align b)"
  have le: "PAL_SUPERBLOCK_LEN + length ?mt \<le> tables_at b" by (simp add: length_tables tables_at_def)
  have "slice_of PAL_SUPERBLOCK_LEN (tables_at b) (pa_buf ?p) = ?mt @ ?xt"
    using slice_append [of PAL_SUPERBLOCK_LEN "PAL_SUPERBLOCK_LEN + length ?mt" "tables_at b" "pa_buf ?p"] le f(10,11) by simp
  then have "pal_tables ?p = Some (?mt @ ?xt)"
    using f(2,12) by (simp add: pal_tables_def tables_at_def)
  then show ?thesis using f(7) by (simp add: verify_manifest_def manifest_digest_def same_digest_iff)
qed

lemma verify_members_published:
  assumes "laid_out sha align b (length img)" "holds_pallet sha dat align b img" "\<forall>m \<in> set (pb_members b). sourced dat m"
    "reads_image (unat (pb_block_size b)) rd img" "unat (pb_block_size b) \<le> scratch_len" "\<forall>i \<in> set is. i < length (pb_members b)"
  shows "verify_members sha (pallet_of sha dat align b) rd scratch_len is = Some (Inr ())"
  using assms(6)
proof (induction "is")
  case (Cons i "is")
  let ?p = "pallet_of sha dat align b"
  have bs: "pl_block_size (pa_sb ?p) = pb_block_size b" by (rule pallet_of_facts(4) [OF assms(1)])
  have i: "i < length (pb_members b)" "sourced dat (pb_members b ! i)" using Cons.prems assms(3) by simp_all
  obtain r xs where r: "pal_member ?p i = Some (Inr r)" and s: "member_sound ?p r xs (length img)"
    "map (member_byte (unat (pb_block_size b)) xs img) [0..<unat (pm_byte_len r)] = dat (pb_members b ! i)"
    "pm_digest r = sha (dat (pb_members b ! i))"
    using published_member [OF assms(1,2) i] by metis
  have "digest_of sha ?p r rd scratch_len = Some (Inr (sha (dat (pb_members b ! i))))"
    using digest_loop_reads [OF s(1), unfolded bs, OF assms(4), of "scratch_len div unat (pb_block_size b)" 0 "[]"] assms(5) s
      laid_out_pos [OF assms(1)]
    by (simp add: digest_of_def Let_def bs div_greater_zero_iff)
  then have "has_digest r \<Longrightarrow> verify_member sha ?p r rd scratch_len = Some (Inr ())"
    using s(3) by (simp add: verify_member_def same_digest_iff)
  then show ?case using r Cons by simp
qed simp

lemma laid_outI:
  assumes "content_alignment b = Inr align" "512 \<le> pb_block_size b" "is_power_of_two (pb_block_size b)"
    "length (pb_name b) \<le> PAL_NAME_LEN" "length (pb_version_label b) \<le> VERSION_LABEL_LEN"
    "\<forall>m \<in> set (pb_members b). length (ms_name m) \<le> PAL_NAME_LEN \<and> length (ms_role m) \<le> ROLE_LEN"
    "lay_end (unat (pb_block_size b)) align (data_at align b) (pb_members b) \<le> unat (pv_len v)"
    "unat (pb_block_size b) dvd unat (pv_len v)" "\<forall>x. length (sha x) = 32" "length (pb_members b) < 2 ^ 32"
  shows "laid_out sha align b (unat (pv_len v))"
  using assms unsigned_less [of "pv_len v", where 'a = nat] by (simp add: laid_out_def)

section \<open>The engine's reader\<close>

lemma read_member_loop_reads:
  assumes "view_ok d v" "member_sound p m xs (unat (pv_len v))" "unat offset + n \<le> unat (pm_byte_len m)"
  defines "f \<equiv> member_byte (unat (pl_block_size (pa_sb p))) xs (view_image d v)"
  shows "k \<le> n \<Longrightarrow> read_member_loop p m d v offset n (map f [unat offset..<unat offset + k]) = Some (Inr (map f [unat offset..<unat offset + n]))"
proof (induction "n - k" arbitrary: k rule: less_induct)
  case less
  let ?bs = "unat (pl_block_size (pa_sb p))" and ?o = "unat offset" and ?img = "view_image d v" and ?s = "unat (pv_start v)"
  show ?case
  proof (cases "k < n")
    case False
    with less.prems show ?thesis by (subst read_member_loop.simps) simp
  next
    case True
    have li: "length ?img = unat (pv_len v)" by (rule length_view_image [OF assms(1)])
    have k64: "k < 2 ^ 64" "?o + k < 2 ^ 64" using True assms(3) unsigned_less [of "pm_byte_len m", where 'a = nat] by simp_all
    have off: "unat (offset + of_nat k) = ?o + k" using k64 unat_add_lem [of offset "of_nat k"] by (simp add: unat_of_nat64)
    then have lt: "offset + of_nat k < pm_byte_len m" using True assms(3) by (simp add: word_less_nat_alt)
    obtain mp where mp: "pal_map p m (offset + of_nat k) = Some (Inr mp)" and run: "0 < unat (mp_run_len mp)"
      "unat (mp_offset_in_block mp) < ?bs" "run_at ?bs mp + unat (mp_run_len mp) \<le> length ?img"
      and sl: "slice_of (run_at ?bs mp) (run_at ?bs mp + unat (mp_run_len mp)) ?img = map f [?o + k..<?o + k + unat (mp_run_len mp)]"
      using pal_map_run [OF assms(2) [folded li] lt] off unfolding f_def by metis
    define j where "j = min (unat (mp_run_len mp)) (n - k)"
    have j: "0 < j" "k + j \<le> n" "j \<le> unat (mp_run_len mp)" using True run(1) by (simp_all add: j_def)
    have at64: "run_at ?bs mp < 2 ^ 64" using run(3) li unsigned_less [of "pv_len v", where 'a = nat] by simp
    have at: "mp_partition_block mp * pal_bs p + mp_offset_in_block mp = of_nat (run_at ?bs mp)"
    proof -
      have "of_nat (run_at ?bs mp) = (of_nat (unat (mp_partition_block mp)) * of_nat (unat (pal_bs p)) + of_nat (unat (mp_offset_in_block mp)) :: u64)"
        by (simp add: run_at_def)
      then show ?thesis by (simp add: pal_bs_def)
    qed
    have "pv_read_at d v (of_nat (run_at ?bs mp)) j = Inr (slice_of (run_at ?bs mp) (run_at ?bs mp + j) ?img)"
      using pv_read_at_eq [OF assms(1), of "run_at ?bs mp" j] slice_view_image [OF assms(1), of "run_at ?bs mp + j" "run_at ?bs mp"] run(3) j(3) li
      by (simp add: add.assoc)
    moreover have "slice_of (run_at ?bs mp) (run_at ?bs mp + j) ?img = map f [?o + k..<?o + k + j]"
    proof -
      have "slice_of (run_at ?bs mp) (run_at ?bs mp + j) ?img = take j (slice_of (run_at ?bs mp) (run_at ?bs mp + unat (mp_run_len mp)) ?img)"
        using j(3) by (simp add: slice_of_def min_def)
      then show ?thesis using j(3) by (simp add: sl take_map take_upt)
    qed
    ultimately have rd: "pv_read_at d v (of_nat (run_at ?bs mp)) j = Inr (map f [?o + k..<?o + k + j])" by simp
    have up: "map f [?o..<?o + k] @ map f [?o + k..<?o + k + j] = map f [?o..<?o + (k + j)]"
      by (simp add: upt_add_eq_append [symmetric] add.assoc flip: map_append) (metis add.assoc le_add1 upt_add_eq_append)
    have "read_member_loop p m d v offset n (map f [?o..<?o + k]) = read_member_loop p m d v offset n (map f [?o..<?o + (k + j)])"
      using True mp rd at j_def up by (subst read_member_loop.simps) (simp add: Let_def)
    also have "\<dots> = Some (Inr (map f [?o..<?o + n]))" using less.hyps [of "k + j"] j by simp
    finally show ?thesis .
  qed
qed

lemma member_chunks_reads:
  assumes "view_ok d v" "member_sound p m xs (unat (pv_len v))"
  defines "f \<equiv> member_byte (unat (pl_block_size (pa_sb p))) xs (view_image d v)"
  shows "off \<le> unat (pm_byte_len m) \<Longrightarrow> member_chunks p m d v off acc = Some (Inr (acc @ map f [off..<unat (pm_byte_len m)]))"
proof (induction "unat (pm_byte_len m) - off" arbitrary: off acc rule: less_induct)
  case less
  let ?n = "unat (pm_byte_len m)"
  show ?case
  proof (cases "off < ?n")
    case False
    with less.prems show ?thesis by (subst member_chunks.simps) simp
  next
    case True
    define k where "k = min (?n - off) IO_CHUNK"
    have k: "0 < k" "off + k \<le> ?n" using True by (simp_all add: k_def)
    have o64: "off < 2 ^ 64" "off + k < 2 ^ 64" using k unsigned_less [of "pm_byte_len m", where 'a = nat] by simp_all
    have o: "unat (of_nat off :: u64) = off" "unat (of_nat off + of_nat k :: u64) = off + k"
      using unat_of_nat64 [OF o64(1)] unat_of_nat64 [OF o64(2)] by simp_all
    have "read_member p m d v (of_nat off) k = Some (Inr (map f [off..<off + k]))"
      using read_member_loop_reads [OF assms(1,2), of "of_nat off" k 0] k o
      by (simp add: read_member_def word_less_nat_alt f_def not_less)
    then have "member_chunks p m d v off acc = member_chunks p m d v (off + k) (acc @ map f [off..<off + k])"
      using True by (subst member_chunks.simps) (simp add: Let_def k_def [symmetric])
    also have "\<dots> = Some (Inr ((acc @ map f [off..<off + k]) @ map f [off + k..<?n]))" using less.hyps [of "off + k"] k by simp
    also have "\<dots> = Some (Inr (acc @ map f [off..<?n]))"
      using k(2) by (simp flip: map_append) (metis le_add1 le_add_diff_inverse upt_add_eq_append)
    finally show ?thesis .
  qed
qed

end
