(* ===== verification/PalletFacts.thy ===== *)
theory PalletFacts
  imports PalletVerify
begin

text \<open>
  Pallets on a small disk, a publish that stops over an older pallet, and signatures: attaching one
  changes only the signature's bytes and the checksum, and the sealed superblock still says what was
  signed.
\<close>

section \<open>A small pallet\<close>

definition sample_builder :: PalletBuilder where
  "sample_builder =
     \<lparr>pb_name = [0x62, 0x6F, 0x6F, 0x74], pb_kind = PkBoot, pb_version_label = [0x31], pb_pallet_version = 7, pb_block_size = 512,
      pb_attributes = attributes_from_u64 0,
      pb_members = [member_spec_new [0x6B] [0x72] MkKernel (bytes_content [1, 2, 3]), member_spec_new [0x65] [] MkRaw (bytes_content [])],
      pb_content_align = None\<rparr>"

definition sample_dat :: "MemberSpec \<Rightarrow> bytes" where
  "sample_dat m = (if ms_len m = 3 then [1, 2, 3] else [])"

definition sample_sha :: "bytes \<Rightarrow> bytes" where
  "sample_sha x = replicate 32 (fold (+) x 0)"

definition sample_disk :: bdev where
  "sample_disk = \<lparr>bd_bs = 4096, bd_data = replicate 32768 0xEE\<rparr>"

definition sample_view :: PartitionView where
  "sample_view = \<lparr>pv_start = 8192, pv_len = 16384\<rparr>"

lemma sample_sourced: "\<forall>m \<in> set (pb_members sample_builder). sourced sample_dat m"
proof -
  have "ct_len (bytes_content x) = length x" for x by (simp add: bytes_content_def)
  then show ?thesis
    by (simp add: sample_builder_def sourced_def sample_dat_def member_spec_new_def bytes_source.member_source_axioms)
qed

lemma sample_build: "\<exists>built. build sample_sha sample_builder = Inr built \<and> bp_total_bytes built = 8704 \<and> bp_member_data_offset built = 8192"
proof -
  have dg: "digest_content sha (bytes_content x) = Inr (sha x)" for sha x by (rule bytes_source.digest_content_eq)
  have al: "content_alignment sample_builder = Inr 4096" by (simp add: content_alignment_def sample_builder_def PAL_SUPERBLOCK_LEN_def)
  have p: "is_power_of_two (512 :: u32)" by (simp add: is_power_of_two_def)
  have n: "ct_len (bytes_content x) = length x" for x by (simp add: bytes_content_def)
  show ?thesis
    unfolding build_def al sum.case Let_def
    by (simp add: sample_builder_def p PAL_NAME_LEN_def VERSION_LABEL_LEN_def member_spec_new_def n dg
        place_member_def member_entry_def write_fixed_def ROLE_LEN_def pal_align_up_def div_ceil_def PAL_SUPERBLOCK_LEN_def MEMBER_LEN_def EXTENT_LEN_def)
qed

lemma sample_view_ok: "view_ok sample_disk sample_view"
  by (simp add: view_ok_def sample_disk_def sample_view_def)

text \<open>
  C7. A pallet that was published reads back and passes every check: from any builder that lays out and
  a partition with room for it, publishing succeeds, the partition then reads as a pallet of the
  builder's version and kind, and the firmware's full check, of the manifest and of each member's
  content against its digest, accepts it with any reader of the partition and any scratch buffer of
  at least a block.
\<close>

theorem published_pallet_verifies:
  assumes "view_ok d v" "unat (pb_block_size b) dvd unat (pv_len v)" "build sha b = Inr built"
    "bp_total_bytes built \<le> unat (pv_len v)" "min_bs \<le> pb_block_size b" "\<forall>x. length (sha x) = 32"
    "length (pb_members b) < 2 ^ 32" "\<forall>m \<in> set (pb_members b). sourced dat m"
  shows "\<exists>d' p. publish sha min_bs b v d = (Inr built, d') \<and> pallet_read d' v = Some (Inr p)
    \<and> pl_pallet_version (pa_sb p) = pb_pallet_version b \<and> pl_kind_raw (pa_sb p) = pallet_kind_to_u32 (pb_kind b)
    \<and> (\<forall>rd scratch_len. reads_image (unat (pb_block_size b)) rd (view_image d' v) \<and> unat (pb_block_size b) \<le> scratch_len
         \<longrightarrow> verify_all sha p rd scratch_len = Some (Inr ()))"
proof -
  obtain d' align where pub: "publish sha min_bs b v d = (Inr built, d')" and ok: "view_ok d' v"
    and h: "holds_pallet sha dat align b (view_image d' v)" and g: "content_alignment b = Inr align" "512 \<le> pb_block_size b" "is_power_of_two (pb_block_size b)"
    "length (pb_name b) \<le> PAL_NAME_LEN" "length (pb_version_label b) \<le> VERSION_LABEL_LEN"
    "\<forall>m \<in> set (pb_members b). length (ms_name m) \<le> PAL_NAME_LEN \<and> length (ms_role m) \<le> ROLE_LEN"
    "lay_end (unat (pb_block_size b)) align (data_at align b) (pb_members b) \<le> unat (pv_len v)"
    by (rule publish_holds [OF assms(1,3,4,5,6,8)])
  note l = laid_outI [OF g assms(2,6,7)]
  let ?p = "pallet_of sha dat align b"
  note f = pallet_of_facts [OF l, of dat]
  have "verify_all sha ?p rd scratch_len = Some (Inr ())"
    if "reads_image (unat (pb_block_size b)) rd (view_image d' v)" "unat (pb_block_size b) \<le> scratch_len" for rd scratch_len
    using verify_manifest_published [OF l] verify_members_published [OF l [folded length_view_image [OF ok]] h assms(8) that] f(5)
    by (simp add: verify_all_def)
  with pub pallet_read_back [OF ok h l] f(8,9) show ?thesis by blast
qed

theorem published_pallet_verifies_witness:
  "\<exists>built d' p. publish sample_sha 512 sample_builder sample_view sample_disk = (Inr built, d')
     \<and> pallet_read d' sample_view = Some (Inr p) \<and> pl_pallet_version (pa_sb p) = 7
     \<and> verify_all sample_sha p (\<lambda>blk n. Some (slice_of (unat blk * 512) (unat blk * 512 + n) (view_image d' sample_view))) 1024 = Some (Inr ())"
proof -
  obtain built where b: "build sample_sha sample_builder = Inr built" "bp_total_bytes built = 8704" using sample_build by blast
  have "\<exists>d' p. publish sample_sha 512 sample_builder sample_view sample_disk = (Inr built, d') \<and> pallet_read d' sample_view = Some (Inr p)
    \<and> pl_pallet_version (pa_sb p) = pb_pallet_version sample_builder \<and> pl_kind_raw (pa_sb p) = pallet_kind_to_u32 (pb_kind sample_builder)
    \<and> (\<forall>rd scratch_len. reads_image (unat (pb_block_size sample_builder)) rd (view_image d' sample_view) \<and> unat (pb_block_size sample_builder) \<le> scratch_len
         \<longrightarrow> verify_all sample_sha p rd scratch_len = Some (Inr ()))"
    by (rule published_pallet_verifies [OF sample_view_ok _ b(1) _ _ _ _ sample_sourced])
      (simp_all add: b(2) sample_view_def sample_builder_def sample_sha_def)
  then obtain d' p where r: "publish sample_sha 512 sample_builder sample_view sample_disk = (Inr built, d')" "pallet_read d' sample_view = Some (Inr p)"
    "pl_pallet_version (pa_sb p) = 7"
    and all: "reads_image 512 rd (view_image d' sample_view) \<Longrightarrow> verify_all sample_sha p rd 1024 = Some (Inr ())" for rd
    by (auto simp: sample_builder_def)
  have "reads_image 512 (\<lambda>blk n. Some (slice_of (unat blk * 512) (unat blk * 512 + n) (view_image d' sample_view))) (view_image d' sample_view)"
    by (simp add: reads_image_def)
  from r all [OF this] show ?thesis by blast
qed

text \<open>
  C36. The two readers agree: on a member whose extents lie in the partition and cover it, the engine's
  digest, read through the view in chunks of a mebibyte, and the firmware's, read in blocks into any
  scratch buffer, are the same hash, and both come.
\<close>

theorem readers_agree:
  assumes "view_ok d v" "member_sound p m xs (unat (pv_len v))" "reads_image (unat (pl_block_size (pa_sb p))) rd (view_image d v)"
    "unat (pl_block_size (pa_sb p)) \<le> scratch_len"
  shows "\<exists>g. pallet_digest_of sha p m d v = Some (Inr g) \<and> digest_of sha p m rd scratch_len = Some (Inr g)"
proof -
  have li: "length (view_image d v) = unat (pv_len v)" by (rule length_view_image [OF assms(1)])
  have "0 < scratch_len div unat (pl_block_size (pa_sb p))"
    using assms(2,4) by (simp add: member_sound_def Let_def div_greater_zero_iff)
  from digest_loop_reads [OF assms(2) [folded li] assms(3) this, of 0 "[]"] member_chunks_reads [OF assms(1,2), of 0 "[]"] show ?thesis
    using assms(4) by (simp add: pallet_digest_of_def digest_of_def Let_def)
qed

theorem readers_agree_witness:
  "\<exists>g. pallet_digest_of sample_sha (small_pallet 2) small_member sample_disk sample_view = Some (Inr g)
     \<and> digest_of sample_sha (small_pallet 2) small_member
         (\<lambda>blk n. Some (slice_of (unat blk * 512) (unat blk * 512 + n) (view_image sample_disk sample_view))) 512 = Some (Inr g)"
proof (rule readers_agree [OF sample_view_ok])
  have c: "ext_covers (small_extent 2) lb \<longleftrightarrow> lb < 2" for lb by (auto simp: ext_covers_def small_extent_def)
  have bs: "unat (pl_block_size (pa_sb (small_pallet 2))) = 512" by (simp add: small_pallet_def)
  show "member_sound (small_pallet 2) small_member [small_extent 2] (unat (pv_len sample_view))"
    unfolding member_sound_def bs Let_def
    by (simp add: small_extent_parse small_member_def c div_ceil_def sample_view_def) (simp add: extent_sound_def small_extent_def)
qed (simp_all add: reads_image_def small_pallet_def)

section \<open>A publish that stops\<close>

text \<open>
  C35. Where an older pallet's superblock and tables lie in a partition, a publish that stops after any
  number of contents leaves them in place: the partition still reads as the older pallet, its
  checksums intact, over the contents of the new one.
\<close>

theorem interrupted_publish_keeps_old:
  assumes "view_ok d v" "build sha b = Inr built" "bp_total_bytes built \<le> unat (pv_len v)" "\<forall>m \<in> set (pb_members b). sourced dat m"
    "pallet_read d v = Some (Inr old)" "tables_end (pa_sb old) \<le> bp_member_data_offset built"
  shows "\<exists>d'. write_contents (pb_members b) v (take k (bp_placements built)) d = (Inr (), d') \<and> pallet_read d' v = Some (Inr old)
    \<and> contents_at dat (unat (pv_start v)) (take k (pb_members b)) (map (\<lambda>p. (pp_offset p, 0)) (bp_placements built)) (bd_data d')"
proof -
  let ?ms = "pb_members b" and ?bs = "unat (pb_block_size b)" and ?s = "unat (pv_start v)"
  obtain align where a: "content_alignment b = Inr align" and g: "512 \<le> pb_block_size b" "is_power_of_two (pb_block_size b)"
    and built: "bp_placements built = placements sha dat 0 ?ms (lay_of align b)"
    "bp_total_bytes built = pal_align_up (lay_end ?bs align (data_at align b) ?ms) ?bs"
    using build_layout [OF assms(2,4)] by metis
  have mdo: "bp_member_data_offset built = data_at align b"
    using assms(2) a by (auto simp: build_def Let_def full_members_def data_at_def tables_at_def split: if_splits sum.splits)
  have bs: "0 < ?bs" using g(1) by (auto simp: word_le_nat_alt)
  have al: "0 < align" using content_alignment_dvd(2) [OF a g(2)] by (simp add: PAL_SUPERBLOCK_LEN_def)
  let ?fin = "lay_end ?bs align (data_at align b)"
  have e: "?fin (take k ?ms) \<le> unat (pv_len v)" "data_at align b \<le> unat (pv_len v)"
    using pal_align_up_ge [OF bs, of "?fin ?ms"] built(2) assms(3) lay_end_take [OF al bs, of "data_at align b" k ?ms]
      lay_end_ge [OF al bs, of "data_at align b" ?ms] by linarith+
  have pl: "take k (bp_placements built) = placements sha dat 0 (take k ?ms) (lay ?bs align 0 (data_at align b) (take k ?ms))"
    by (simp add: built(1) placements_take lay_of_def lay_take)
  have src: "\<forall>m \<in> set (take k ?ms). sourced dat m" using assms(4) by (auto dest: in_set_takeD)
  from write_contents_lay [OF al bs src assms(1) e(1), of "[]" "drop k ?ms" sha 0]
  obtain d' where w: "write_contents ?ms v (take k (bp_placements built)) d = (Inr (), d')" and d': "view_ok d' v" "length (bd_data d') = length (bd_data d)"
    "\<forall>j < ?s + data_at align b. bd_data d' ! j = bd_data d ! j"
    "contents_at dat ?s (take k ?ms) (lay ?bs align 0 (data_at align b) (take k ?ms)) (bd_data d')"
    unfolding pl append_Nil append_take_drop_id list.size(3) by blast
  have "PAL_SUPERBLOCK_LEN \<le> data_at align b" using pal_align_up_ge [OF al, of "tables_at b"] by (simp add: data_at_def tables_at_def)
  then have "pallet_read d' v = Some (Inr old)"
    using pallet_read_below [OF assms(1) d'(1-3) _ e(2) assms(5)] assms(6) mdo by simp
  moreover have "contents_at dat ?s (take k ?ms) (map (\<lambda>p. (pp_offset p, 0)) (bp_placements built)) (bd_data d')"
    using d'(4) placement_offsets [of "lay_of align b" ?ms _ sha dat 0] length_placements [of "lay_of align b" ?ms sha dat 0]
    by (simp add: contents_at_def built(1) lay_of_def nth_take flip: lay_take)
  ultimately show ?thesis using w by blast
qed

lemma sample_on_disk:
  obtains d p where "view_ok d sample_view" "pallet_read d sample_view = Some (Inr p)" "tables_end (pa_sb p) \<le> 8192"
proof -
  obtain built where b: "build sample_sha sample_builder = Inr built" "bp_total_bytes built = 8704" using sample_build by blast
  have h: "bp_total_bytes built \<le> unat (pv_len sample_view)" "512 \<le> pb_block_size sample_builder" "\<forall>x. length (sample_sha x) = 32"
    by (simp_all add: b(2) sample_view_def sample_builder_def sample_sha_def)
  obtain d' align where ok: "view_ok d' sample_view" and hp: "holds_pallet sample_sha sample_dat align sample_builder (view_image d' sample_view)"
    and g: "content_alignment sample_builder = Inr align" "512 \<le> pb_block_size sample_builder" "is_power_of_two (pb_block_size sample_builder)"
    "length (pb_name sample_builder) \<le> PAL_NAME_LEN" "length (pb_version_label sample_builder) \<le> VERSION_LABEL_LEN"
    "\<forall>m \<in> set (pb_members sample_builder). length (ms_name m) \<le> PAL_NAME_LEN \<and> length (ms_role m) \<le> ROLE_LEN"
    "lay_end (unat (pb_block_size sample_builder)) align (data_at align sample_builder) (pb_members sample_builder) \<le> unat (pv_len sample_view)"
    by (rule publish_holds [OF sample_view_ok b(1) h sample_sourced])
  have l: "laid_out sample_sha align sample_builder (unat (pv_len sample_view))"
    by (rule laid_outI [OF g]) (simp_all add: sample_builder_def sample_view_def sample_sha_def)
  have "tables_end (pa_sb (pallet_of sample_sha sample_dat align sample_builder)) \<le> 8192"
    unfolding pallet_of_facts(2) [OF l] using full_members_le [of "pb_members sample_builder"]
    by (simp add: tables_at_def sample_builder_def PAL_SUPERBLOCK_LEN_def MEMBER_LEN_def EXTENT_LEN_def)
  with that [OF ok pallet_read_back [OF ok hp l]] show thesis by blast
qed

theorem interrupted_publish_keeps_old_witness:
  "\<exists>d old built d'. build sample_sha sample_builder = Inr built \<and> pallet_read d sample_view = Some (Inr old)
     \<and> write_contents (pb_members sample_builder) sample_view (take 1 (bp_placements built)) d = (Inr (), d')
     \<and> pallet_read d' sample_view = Some (Inr old)"
proof -
  obtain d old where d: "view_ok d sample_view" "pallet_read d sample_view = Some (Inr old)" "tables_end (pa_sb old) \<le> 8192"
    by (rule sample_on_disk)
  obtain built where b: "build sample_sha sample_builder = Inr built" "bp_total_bytes built = 8704" "bp_member_data_offset built = 8192"
    using sample_build by blast
  have "bp_total_bytes built \<le> unat (pv_len sample_view)" "tables_end (pa_sb old) \<le> bp_member_data_offset built"
    using b d(3) by (simp_all add: sample_view_def)
  from interrupted_publish_keeps_old [OF d(1) b(1) this(1) sample_sourced d(2) this(2), of 1] b(1) d(2) show ?thesis by blast
qed

section \<open>Signatures\<close>

text \<open>
  Attaching a signature either changes nothing, when the header is no superblock or the signature
  does not verify, or seals it in: the result parses to the same superblock with the Ed25519
  algorithm, the key's id and the signature in it, and the message it vouches for is the one that
  was signed.
\<close>

theorem attach_seals:
  assumes "length sig = SIGNATURE_LEN" "\<forall>x. length (sha x) = 32"
  shows "case attach sha verifies header pk sig of
      (Inl _, h) \<Rightarrow> h = header
    | (Inr _, h) \<Rightarrow> \<exists>sb. pl_superblock_parse header = Inr sb \<and> verifies pk (pl_signing_message sb) sig
        \<and> pl_superblock_parse h = Inr (sb\<lparr>pl_sig_alg := SIG_ALG_ED25519, pl_sig_key_id := key_id_of sha pk, pl_sig := sig\<rparr>)
        \<and> drop PAL_SUPERBLOCK_LEN h = drop PAL_SUPERBLOCK_LEN header"
proof (cases "pl_superblock_parse header")
  case (Inr sb)
  show ?thesis
  proof (cases "verifies pk (pl_signing_message sb) sig")
    case True
    have lk: "length (key_id_of sha pk) = 16" using assms(2) by (simp add: key_id_of_def KEY_ID_LEN_def)
    have ls: "length sig = 64" using assms(1) by (simp add: SIGNATURE_LEN_def)
    have lh: "4096 \<le> length header" using pl_superblock_parse_long [OF Inr] by (simp add: PAL_SUPERBLOCK_LEN_def)
    define s where "s = put 200 sig (put 184 (key_id_of sha pk) (put 180 (to_le 4 SIG_ALG_ED25519) header))"
    define h where "h = put 132 (to_le 4 (superblock_crc s)) s"
    have a: "attach sha verifies header pk sig = (Inr (), h)" using Inr True by (simp add: attach_def Let_def h_def s_def)
    have keep: "slice_of x y h = slice_of x y header" if "y \<le> 132 \<or> 136 \<le> x \<and> y \<le> 180 \<or> 264 \<le> x" for x y
      using that by (auto simp: h_def s_def buf_simps lk ls)
    have sigs: "slice_of 180 184 h = to_le 4 SIG_ALG_ED25519" "slice_of 184 200 h = key_id_of sha pk" "slice_of 200 264 h = sig"
      using lh lk ls by (simp_all add: h_def s_def buf_simps)
    have lh': "length h = length header" by (simp add: h_def s_def)
    have crc: "superblock_crc h = u32_at h 132" using lh by (simp add: h_def superblock_crc_put u32_at_def buf_simps s_def)
    have "pl_superblock_parse h = Inr (sb\<lparr>pl_sig_alg := SIG_ALG_ED25519, pl_sig_key_id := key_id_of sha pk, pl_sig := sig\<rparr>)"
      using Inr lh lh' sigs crc by (auto simp: pl_superblock_parse_def u32_at_def u64_at_def keep PAL_SUPERBLOCK_LEN_def PAL_NAME_LEN_def
          VERSION_LABEL_LEN_def KEY_ID_LEN_def SIGNATURE_LEN_def Let_def split: if_splits)
    moreover have "drop PAL_SUPERBLOCK_LEN h = drop PAL_SUPERBLOCK_LEN header"
      using keep [of "length header" PAL_SUPERBLOCK_LEN] by (simp add: slice_of_def PAL_SUPERBLOCK_LEN_def h_def s_def)
    ultimately show ?thesis using a Inr True by simp
  qed (simp add: attach_def Inr)
qed (simp add: attach_def)

theorem attach_seals_witness:
  "\<exists>header. fst (attach sample_sha (\<lambda>pk m s. pk = s) header (replicate 64 9) (replicate 64 9)) = Inr ()
     \<and> (\<exists>sb. pl_superblock_parse (snd (attach sample_sha (\<lambda>pk m s. pk = s) header (replicate 64 9) (replicate 64 9))) = Inr sb
          \<and> signature sb = Ed25519 (key_id_of sample_sha (replicate 64 9)) (replicate 64 9))"
proof -
  have f: "header_fits sample_builder 4096 (replicate 32 0) [] []"
    by (simp add: header_fits_def sample_builder_def is_power_of_two_def PAL_NAME_LEN_def VERSION_LABEL_LEN_def PAL_SUPERBLOCK_LEN_def)
  obtain sb where sb: "pl_superblock_parse (build_header sample_builder 0 4096 (replicate 32 0) [] []) = Inr sb"
    using superblock_parse_header [OF f] by blast
  let ?h = "build_header sample_builder 0 4096 (replicate 32 0) [] []" and ?k = "replicate 64 9 :: bytes"
  have "length ?k = SIGNATURE_LEN" "\<forall>x. length (sample_sha x) = 32" by (simp_all add: SIGNATURE_LEN_def sample_sha_def)
  from attach_seals [OF this, where verifies = "\<lambda>pk m s. pk = s" and header = ?h and pk = ?k] sb
  show ?thesis
    by (intro exI [of _ ?h]) (auto simp: attach_def Let_def signature_def SIG_ALG_NONE_def SIG_ALG_ED25519_def all_zero_def list_all_iff)
qed

end
