(* ===== verification/Gpt.thy ===== *)
theory Gpt
  imports PalletView "HOL-Library.Product_Lexorder"
begin

text \<open>
  The partition table pallets live in (\<open>src/pallet/gpt.rs\<close>): its entries and header in bytes, both
  copies on a device, and the placing of partitions. Logical block addresses are 64-bit words and
  wrap. A name is the list of its Unicode scalar values. A random identifier is an argument. Block
  sizes are at least 512, as every caller has them.
\<close>

section \<open>Names in UTF-16\<close>

type_synonym ustring = "nat list"
type_synonym u16s = "u16 list"

text \<open>\<open>str::encode_utf16\<close> and \<open>String::from_utf16_lossy\<close>.\<close>

definition utf16_char :: "nat \<Rightarrow> u16s" where
  "utf16_char c =
     (if c < 0x10000 then [of_nat c]
      else [of_nat (0xD800 + (c - 0x10000) div 0x400), of_nat (0xDC00 + (c - 0x10000) mod 0x400)])"

definition encode_utf16 :: "ustring \<Rightarrow> u16s" where
  "encode_utf16 s = concat (map utf16_char s)"

fun from_utf16_lossy :: "u16s \<Rightarrow> ustring" where
  "from_utf16_lossy [] = []"
| "from_utf16_lossy [u] = [if 0xD800 \<le> u \<and> u < 0xE000 then 0xFFFD else unat u]"
| "from_utf16_lossy (u # v # vs) =
     (if \<not> (0xD800 \<le> u \<and> u < 0xE000) then unat u # from_utf16_lossy (v # vs)
      else if u < 0xDC00 \<and> 0xDC00 \<le> v \<and> v < 0xE000
      then (0x10000 + (unat u - 0xD800) * 0x400 + (unat v - 0xDC00)) # from_utf16_lossy vs
      else 0xFFFD # from_utf16_lossy (v # vs))"

section \<open>Entries\<close>

definition GPT_SIGNATURE :: bytes where "GPT_SIGNATURE = [0x45, 0x46, 0x49, 0x20, 0x50, 0x41, 0x52, 0x54]"

definition GPT_REVISION :: u32 where "GPT_REVISION = 0x00010000"

definition HEADER_SIZE :: u32 where "HEADER_SIZE = 92"

definition ENTRY_SIZE :: nat where "ENTRY_SIZE = 128"

definition NUM_ENTRIES :: nat where "NUM_ENTRIES = 128"

definition NAME_UTF16_LEN :: nat where "NAME_UTF16_LEN = 36"

definition ALIGN_BYTES :: u64 where "ALIGN_BYTES = 1024 * 1024"

record GptEntry =
  ge_type :: bytes
  ge_unique :: bytes
  ge_first :: u64
  ge_last :: u64
  ge_attributes :: u64
  ge_name :: ustring

definition entry_empty :: GptEntry where
  "entry_empty = \<lparr>ge_type = zero_buf 16, ge_unique = zero_buf 16, ge_first = 0, ge_last = 0, ge_attributes = 0, ge_name = []\<rparr>"

definition entry_is_empty :: "GptEntry \<Rightarrow> bool" where
  "entry_is_empty e \<longleftrightarrow> ge_type e = zero_buf 16"

definition entry_is_pallet :: "GptEntry \<Rightarrow> bool" where
  "entry_is_pallet e \<longleftrightarrow> ge_type e = PALLET_TYPE_GUID"

definition entry_block_count :: "GptEntry \<Rightarrow> u64" where
  "entry_block_count e = (if ge_first e \<le> ge_last e then ge_last e - ge_first e else 0) + 1"

definition entry_size_bytes :: "GptEntry \<Rightarrow> u32 \<Rightarrow> u64" where
  "entry_size_bytes e bs = entry_block_count e * ucast bs"

definition entry_start_bytes :: "GptEntry \<Rightarrow> u32 \<Rightarrow> u64" where
  "entry_start_bytes e bs = ge_first e * ucast bs"

definition name_units :: "bytes \<Rightarrow> u16s" where
  "name_units b = takeWhile (\<lambda>u. u \<noteq> 0) (map (\<lambda>i. from_le (slice_of (56 + i * 2) (58 + i * 2) b)) [0..<NAME_UTF16_LEN])"

definition parse_entry :: "bytes \<Rightarrow> GptEntry" where
  "parse_entry b =
     \<lparr>ge_type = slice_of 0 16 b, ge_unique = slice_of 16 32 b, ge_first = u64_at b 32, ge_last = u64_at b 40,
      ge_attributes = u64_at b 48, ge_name = from_utf16_lossy (name_units b)\<rparr>"

definition write_entry :: "GptEntry \<Rightarrow> bytes \<Rightarrow> bytes" where
  "write_entry e b =
     (let b = put 0 (ge_type e) b;
          b = put 16 (ge_unique e) b;
          b = wr_u64 32 (ge_first e) b;
          b = wr_u64 40 (ge_last e) b;
          b = wr_u64 48 (ge_attributes e) b
      in put 56 (concat (map (to_le 2) (take NAME_UTF16_LEN (encode_utf16 (ge_name e))))) b)"

section \<open>The table\<close>

record Gpt =
  gt_block_size :: u32
  gt_disk_guid :: bytes
  gt_first_usable :: u64
  gt_last_usable :: u64
  gt_alternate :: u64
  gt_entries :: "GptEntry list"
  gt_recovered :: bool

definition entries_bytes :: nat where "entries_bytes = NUM_ENTRIES * ENTRY_SIZE"

definition entries_lbas :: "u32 \<Rightarrow> nat" where
  "entries_lbas bs = div_ceil entries_bytes (unat bs)"

definition create_for :: "bytes \<Rightarrow> u32 \<Rightarrow> u64 \<Rightarrow> Gpt" where
  "create_for guid bs total_bytes =
     (let last_lba = total_bytes div ucast bs - 1; ent = of_nat (entries_lbas bs) in
      \<lparr>gt_block_size = bs, gt_disk_guid = guid, gt_first_usable = 2 + ent, gt_last_usable = last_lba - 1 - ent,
       gt_alternate = last_lba, gt_entries = replicate NUM_ENTRIES entry_empty, gt_recovered = False\<rparr>)"

definition head_bytes :: "Gpt \<Rightarrow> nat" where
  "head_bytes g = (2 + entries_lbas (gt_block_size g)) * unat (gt_block_size g)"

definition tail_bytes :: "Gpt \<Rightarrow> nat" where
  "tail_bytes g = (1 + entries_lbas (gt_block_size g)) * unat (gt_block_size g)"

definition tail_offset :: "Gpt \<Rightarrow> u64" where
  "tail_offset g = (gt_alternate g - of_nat (entries_lbas (gt_block_size g))) * ucast (gt_block_size g)"

section \<open>Reading\<close>

text \<open>The checksum of a header, over its bytes with the checksum's own field zeroed.\<close>

definition gpt_header_ok :: "bytes \<Rightarrow> bool" where
  "gpt_header_ok hdr \<longleftrightarrow> crc32 (wr_u32 16 0 (take (unat (u32_at hdr 12)) hdr)) = u32_at hdr 16"

definition gpt_read_at :: "bdev \<Rightarrow> PartitionView \<Rightarrow> u32 \<Rightarrow> u64 \<Rightarrow> Gpt pe" where
  "gpt_read_at d v bs header_lba =
     (case pv_read_at d v (header_lba * ucast bs) (unat bs) of
        Inl e \<Rightarrow> Inl e
      | Inr hdr \<Rightarrow>
          if slice_of 0 8 hdr \<noteq> GPT_SIGNATURE then Inl PeNotGpt
          else if u32_at hdr 12 < HEADER_SIZE \<or> unat (u32_at hdr 12) > unat bs then Inl PeBadGeometry
          else if \<not> gpt_header_ok hdr then Inl PeBadHeaderCrc
          else let num = unat (u32_at hdr 80); esz = unat (u32_at hdr 84) in
            if esz < ENTRY_SIZE \<or> num = 0 \<or> num > 4096 then Inl PeBadGeometry
            else (case pv_read_at d v (u64_at hdr 72 * ucast bs) (num * esz) of
                Inl e \<Rightarrow> Inl e
              | Inr arr \<Rightarrow>
                  if crc32 arr \<noteq> u32_at hdr 88 then Inl PeBadEntryCrc
                  else Inr \<lparr>gt_block_size = bs, gt_disk_guid = slice_of 56 72 hdr, gt_first_usable = u64_at hdr 40,
                    gt_last_usable = u64_at hdr 48, gt_alternate = u64_at hdr 32,
                    gt_entries = map (\<lambda>i. parse_entry (slice_of (i * esz) (i * esz + ENTRY_SIZE) arr)) [0..<num], gt_recovered = False\<rparr>))"

text \<open>\<open>default_lba_size\<close>: a file is addressed in sectors of 512 bytes whatever it prefers.\<close>

definition default_lba_size :: "bool \<Rightarrow> bdev \<Rightarrow> u32" where
  "default_lba_size is_file d = (if is_file then 512 else of_nat (bd_bs d))"

definition LBA_CANDIDATES :: "u32 list" where "LBA_CANDIDATES = [512, 4096]"

fun gpt_read_sizes :: "bdev \<Rightarrow> u32 list \<Rightarrow> PalletError option \<Rightarrow> Gpt pe" where
  "gpt_read_sizes d [] first_err = Inl (case first_err of Some e \<Rightarrow> e | None \<Rightarrow> PeNotGpt)"
| "gpt_read_sizes d (bs # rest) first_err =
     (if length (bd_data d) < 4 * unat bs then gpt_read_sizes d rest first_err
      else let last_lba = of_nat (length (bd_data d)) div ucast bs - 1 in
        (case gpt_read_at d (pv_whole d) bs 1 of
           Inr g \<Rightarrow> Inr (g\<lparr>gt_alternate := last_lba\<rparr>)
         | Inl e \<Rightarrow>
             (case gpt_read_at d (pv_whole d) bs last_lba of
                Inr g \<Rightarrow> Inr (g\<lparr>gt_recovered := True, gt_alternate := last_lba\<rparr>)
              | Inl _ \<Rightarrow> gpt_read_sizes d rest (Some (case first_err of Some f \<Rightarrow> f | None \<Rightarrow> e)))))"

definition gpt_read :: "bool \<Rightarrow> bdev \<Rightarrow> Gpt pe" where
  "gpt_read is_file d =
     (let preferred = default_lba_size is_file d
      in gpt_read_sizes d (preferred # filter (\<lambda>c. c \<noteq> preferred) LBA_CANDIDATES) None)"

section \<open>Writing\<close>

definition gpt_header_fields :: "Gpt \<Rightarrow> u64 \<Rightarrow> u64 \<Rightarrow> u64 \<Rightarrow> u32 \<Rightarrow> bytes" where
  "gpt_header_fields g my_lba alt_lba entry_lba arr_crc =
     (let h = zero_buf (unat (gt_block_size g));
          h = put 0 GPT_SIGNATURE h;
          h = wr_u32 8 GPT_REVISION h;
          h = wr_u32 12 HEADER_SIZE h;
          h = wr_u64 24 my_lba h;
          h = wr_u64 32 alt_lba h;
          h = wr_u64 40 (gt_first_usable g) h;
          h = wr_u64 48 (gt_last_usable g) h;
          h = put 56 (gt_disk_guid g) h;
          h = wr_u64 72 entry_lba h;
          h = wr_u32 80 (of_nat NUM_ENTRIES) h;
          h = wr_u32 84 (of_nat ENTRY_SIZE) h
      in wr_u32 88 arr_crc h)"

definition gpt_header_bytes :: "Gpt \<Rightarrow> u64 \<Rightarrow> u64 \<Rightarrow> u64 \<Rightarrow> u32 \<Rightarrow> bytes" where
  "gpt_header_bytes g my_lba alt_lba entry_lba arr_crc =
     (let h = gpt_header_fields g my_lba alt_lba entry_lba arr_crc
      in wr_u32 16 (crc32 (take (unat HEADER_SIZE) h)) h)"

fun write_entries :: "nat \<Rightarrow> GptEntry list \<Rightarrow> bytes \<Rightarrow> bytes" where
  "write_entries i [] arr = arr"
| "write_entries i (e # es) arr =
     write_entries (i + 1) es
       (put (i * ENTRY_SIZE) (write_entry e (slice_of (i * ENTRY_SIZE) ((i + 1) * ENTRY_SIZE) arr)) arr)"

definition entry_array :: "Gpt \<Rightarrow> bytes" where
  "entry_array g = write_entries 0 (take NUM_ENTRIES (gt_entries g)) (zero_buf entries_bytes)"

definition protective_mbr :: "Gpt \<Rightarrow> bytes \<Rightarrow> bytes" where
  "protective_mbr g head =
     (let total_lba = gt_alternate g + 1;
          head = head[446 := 0];
          head = put 447 [0, 2, 0] head;
          head = head[450 := 0xEE];
          head = put 451 [0xFF, 0xFF, 0xFF] head;
          head = wr_u32 454 1 head;
          head = wr_u32 458 (ucast (min (total_lba - 1) 0xFFFFFFFF)) head
      in head[510 := 0x55, 511 := 0xAA])"

definition gpt_render :: "Gpt \<Rightarrow> bytes \<times> bytes" where
  "gpt_render g =
     (let bs = unat (gt_block_size g); ent = entries_lbas (gt_block_size g); arr = entry_array g; arr_crc = crc32 arr;
          primary = gpt_header_bytes g 1 (gt_alternate g) 2 arr_crc;
          backup = gpt_header_bytes g (gt_alternate g) 1 (gt_alternate g - of_nat ent) arr_crc;
          head = put (2 * bs) arr (put bs primary (protective_mbr g (zero_buf (head_bytes g))));
          tail = put (ent * bs) backup (put 0 arr (zero_buf (tail_bytes g)))
      in (head, tail))"

definition gpt_write :: "Gpt \<Rightarrow> bdev \<Rightarrow> unit pe \<times> bdev" where
  "gpt_write g d =
     (let v = pv_whole d; (head, tail) = gpt_render g in
      (case pv_write_at d v (tail_offset g) tail of
         (Inl e, d) \<Rightarrow> (Inl e, d)
       | (Inr _, d) \<Rightarrow> pv_write_at d v 0 head))"

section \<open>Partitions\<close>

definition extend_to_device :: "Gpt \<Rightarrow> Gpt" where
  "extend_to_device g = g\<lparr>gt_last_usable := gt_alternate g - 1 - of_nat (entries_lbas (gt_block_size g))\<rparr>"

definition partitions :: "Gpt \<Rightarrow> (nat \<times> GptEntry) list" where
  "partitions g = filter (\<lambda>(_, e). \<not> entry_is_empty e) (List.enumerate 0 (gt_entries g))"

definition gpt_pallets :: "Gpt \<Rightarrow> (nat \<times> GptEntry) list" where
  "gpt_pallets g = filter (\<lambda>(_, e). entry_is_pallet e) (List.enumerate 0 (gt_entries g))"

text \<open>By the sixteen bytes of the identifier, as stored.\<close>

definition find_by_uuid :: "Gpt \<Rightarrow> bytes \<Rightarrow> (nat \<times> GptEntry) option" where
  "find_by_uuid g guid = find (\<lambda>(_, e). ge_unique e = guid) (partitions g)"

fun runs_between :: "u64 \<Rightarrow> u64 \<Rightarrow> (u64 \<times> u64) list \<Rightarrow> (u64 \<times> u64) list" where
  "runs_between last_usable cursor [] = (if cursor \<le> last_usable then [(cursor, last_usable)] else [])"
| "runs_between last_usable cursor ((first, end1) # used) =
     (if first > cursor then [(cursor, first - 1)] else []) @ runs_between last_usable (max cursor (end1 + 1)) used"

definition free_runs :: "Gpt \<Rightarrow> (u64 \<times> u64) list" where
  "free_runs g = runs_between (gt_last_usable g) (gt_first_usable g) (sort (map (\<lambda>(_, e). (ge_first e, ge_last e)) (partitions g)))"

definition max_or_0 :: "u64 list \<Rightarrow> u64" where
  "max_or_0 xs = fold max xs 0"

definition largest_free_bytes :: "Gpt \<Rightarrow> u64" where
  "largest_free_bytes g = max_or_0 (map (\<lambda>(a, b). (b - a + 1) * ucast (gt_block_size g)) (free_runs g))"

definition lba_align :: "Gpt \<Rightarrow> u64" where
  "lba_align g = max (ALIGN_BYTES div ucast (gt_block_size g)) 1"

definition div_ceil64 :: "u64 \<Rightarrow> u64 \<Rightarrow> u64" where
  "div_ceil64 a b = a div b + (if a mod b > 0 then 1 else 0)"

definition largest_allocatable_bytes :: "Gpt \<Rightarrow> u64" where
  "largest_allocatable_bytes g =
     (let bs = ucast (gt_block_size g); align = lba_align g in
      max_or_0 (List.map_filter (\<lambda>(start, end1). let aligned = div_ceil64 start align * align in
        if aligned \<le> end1 then Some ((end1 - aligned + 1) * bs div ALIGN_BYTES * ALIGN_BYTES) else None) (free_runs g)))"

definition first_free_slot :: "Gpt \<Rightarrow> nat option" where
  "first_free_slot g = position entry_is_empty (gt_entries g)"

fun fit_run :: "u64 \<Rightarrow> u64 \<Rightarrow> (u64 \<times> u64) list \<Rightarrow> u64 option" where
  "fit_run align need [] = None"
| "fit_run align need ((start, end1) # runs) =
     (let aligned = div_ceil64 start align * align in
      if aligned > end1 then fit_run align need runs
      else if end1 - aligned + 1 \<ge> need then Some aligned else fit_run align need runs)"

definition gpt_allocate :: "bytes \<Rightarrow> ustring \<Rightarrow> bytes \<Rightarrow> u64 \<Rightarrow> u64 \<Rightarrow> Gpt \<Rightarrow> nat pe \<times> Gpt" where
  "gpt_allocate guid name type_guid size_bytes attributes g =
     (let need = div_ceil64 size_bytes (ucast (gt_block_size g));
          no_space = Inl (PeNoSpace (unat size_bytes) (unat (largest_free_bytes g))) in
      case first_free_slot g of
        None \<Rightarrow> (no_space, g)
      | Some slot \<Rightarrow>
          (case fit_run (lba_align g) need (free_runs g) of
             None \<Rightarrow> (no_space, g)
           | Some aligned \<Rightarrow>
               (Inr slot, g\<lparr>gt_entries := (gt_entries g)[slot := \<lparr>ge_type = type_guid, ge_unique = guid, ge_first = aligned,
                  ge_last = aligned + need - 1, ge_attributes = attributes, ge_name = name\<rparr>]\<rparr>)))"

definition gpt_insert :: "GptEntry \<Rightarrow> Gpt \<Rightarrow> nat pe \<times> Gpt" where
  "gpt_insert entry g =
     (let no_space = Inl (PeNoSpace (unat (entry_block_count entry * ucast (gt_block_size g))) (unat (largest_free_bytes g))) in
      if ge_first entry < gt_first_usable g \<or> ge_last entry > gt_last_usable g then (no_space, g)
      else case find (\<lambda>(_, e). ge_first entry \<le> ge_last e \<and> ge_first e \<le> ge_last entry) (partitions g) of
        Some (_, other) \<Rightarrow> (Inl (PeOverlaps (ge_name other)), g)
      | None \<Rightarrow>
          (case first_free_slot g of
             None \<Rightarrow> (no_space, g)
           | Some slot \<Rightarrow> (Inr slot, g\<lparr>gt_entries := (gt_entries g)[slot := entry]\<rparr>)))"

definition gpt_remove :: "nat \<Rightarrow> Gpt \<Rightarrow> GptEntry pe \<times> Gpt" where
  "gpt_remove i g =
     (if i < length (gt_entries g) \<and> \<not> entry_is_empty (gt_entries g ! i)
      then (Inr (gt_entries g ! i), g\<lparr>gt_entries := (gt_entries g)[i := entry_empty]\<rparr>)
      else (Inl (PeNotFound []), g))"

definition gpt_view :: "nat \<Rightarrow> Gpt \<Rightarrow> PartitionView pe" where
  "gpt_view i g =
     (if i < length (gt_entries g) \<and> \<not> entry_is_empty (gt_entries g ! i)
      then Inr \<lparr>pv_start = entry_start_bytes (gt_entries g ! i) (gt_block_size g),
                pv_len = entry_size_bytes (gt_entries g ! i) (gt_block_size g)\<rparr>
      else Inl (PeNotFound []))"

end
