(* ===== verification/GptSpec.thy ===== *)
theory GptSpec
  imports Gpt
begin

text \<open>
  No two partitions overlap: what allocation, insertion and removal keep of a table whose partitions
  lie apart in the usable range. And what writing keeps of a table: the first 128 entries.
\<close>

section \<open>The invariant\<close>

definition apart :: "GptEntry \<Rightarrow> GptEntry \<Rightarrow> bool" where
  "apart e f \<longleftrightarrow> ge_last e < ge_first f \<or> ge_last f < ge_first e"

definition usable_entry :: "Gpt \<Rightarrow> GptEntry \<Rightarrow> bool" where
  "usable_entry g e \<longleftrightarrow> gt_first_usable g \<le> ge_first e \<and> ge_first e \<le> ge_last e \<and> ge_last e \<le> gt_last_usable g"

definition gpt_sound :: "Gpt \<Rightarrow> bool" where
  "gpt_sound g \<longleftrightarrow> 0 < gt_block_size g \<and> unat (gt_last_usable g) + unat (lba_align g) < 2 ^ 64 \<and>
     (\<forall>i < length (gt_entries g). \<not> entry_is_empty (gt_entries g ! i) \<longrightarrow> usable_entry g (gt_entries g ! i)) \<and>
     (\<forall>i < length (gt_entries g). \<forall>j < length (gt_entries g). i \<noteq> j \<and> \<not> entry_is_empty (gt_entries g ! i) \<and> \<not> entry_is_empty (gt_entries g ! j)
        \<longrightarrow> apart (gt_entries g ! i) (gt_entries g ! j))"

lemma lba_align_pos: "0 < unat (lba_align g)"
proof -
  have "1 \<le> lba_align g" by (simp add: lba_align_def)
  then have "unat (1 :: u64) \<le> unat (lba_align g)" by (simp only: word_le_nat_alt)
  then show ?thesis by simp
qed

section \<open>Free runs\<close>

lemma unat_Suc: "unat (w :: u64) + 1 < 2 ^ 64 \<Longrightarrow> unat (w + 1) = unat w + 1"
  using unat_add_lem [of w 1] by simp

lemma runs_between_free:
  assumes "sorted used" "\<forall>(f, e) \<in> set used. f \<le> e \<and> e \<le> hi" "unat hi + 1 < 2 ^ 64" "(a, b) \<in> set (runs_between hi cur used)"
  shows "cur \<le> a \<and> a \<le> b \<and> b \<le> hi \<and> (\<forall>(f, e) \<in> set used. e < a \<or> b < f)"
  using assms
proof (induction hi cur used rule: runs_between.induct)
  case (2 hi cur f e used)
  have fe: "f \<le> e" "e \<le> hi" and rest: "sorted used" "\<forall>(f, e) \<in> set used. f \<le> e \<and> e \<le> hi" "\<forall>(f', e') \<in> set used. f \<le> f'"
  proof -
    from "2.prems"(1) show "sorted used" by simp
    from "2.prems"(2) show "f \<le> e" "e \<le> hi" "\<forall>(f, e) \<in> set used. f \<le> e \<and> e \<le> hi" by auto
    show "\<forall>(f', e') \<in> set used. f \<le> f'" using "2.prems"(1) by (auto simp: less_eq_prod_def)
  qed
  have e1: "unat (e + 1) = unat e + 1" using fe(2) "2.prems"(3) by (intro unat_Suc) (simp add: word_le_nat_alt)
  show ?case
  proof (cases "(a, b) \<in> set (runs_between hi (max cur (e + 1)) used)")
    case True
    from "2.IH" [OF rest(1,2) "2.prems"(3) True] have ih: "max cur (e + 1) \<le> a" "a \<le> b" "b \<le> hi" "\<forall>(f, e) \<in> set used. e < a \<or> b < f" by auto
    have "e + 1 \<le> a" by (rule order_trans [OF max.cobounded2 ih(1)])
    then have "e < a" using e1 by (simp add: word_le_nat_alt word_less_nat_alt)
    with ih show ?thesis by auto
  next
    case False
    then have ab: "cur < f" "a = cur" "b = f - 1" using "2.prems"(4) by (auto split: if_splits)
    have f0: "0 < unat f" using ab(1) by (simp add: word_less_nat_alt)
    have b: "unat b = unat f - 1" using f0 ab(3) by (simp add: unat_minus_one unat_gt_0)
    have "a \<le> b" "b < f" "b \<le> hi"
      using ab(1,2) b f0 fe by (simp_all add: word_less_nat_alt word_le_nat_alt)
    moreover have "\<forall>(f', e') \<in> set used. b < f'" using rest(3) \<open>b < f\<close> by (auto dest: less_le_trans)
    ultimately show ?thesis using ab(2) by auto
  qed
qed (auto split: if_splits)

lemma in_partitions: "(i, e) \<in> set (partitions g) \<longleftrightarrow> i < length (gt_entries g) \<and> e = gt_entries g ! i \<and> \<not> entry_is_empty e"
  by (auto simp: partitions_def in_set_enumerate_eq)

lemma free_runs_free:
  assumes "gpt_sound g" "(a, b) \<in> set (free_runs g)"
  shows "gt_first_usable g \<le> a \<and> a \<le> b \<and> b \<le> gt_last_usable g
    \<and> (\<forall>i < length (gt_entries g). \<not> entry_is_empty (gt_entries g ! i) \<longrightarrow> ge_last (gt_entries g ! i) < a \<or> b < ge_first (gt_entries g ! i))"
proof -
  let ?u = "sort (map (\<lambda>(_, e). (ge_first e, ge_last e)) (partitions g))"
  have "\<forall>(f, e) \<in> set ?u. f \<le> e \<and> e \<le> gt_last_usable g"
    using assms(1) by (auto simp: in_partitions gpt_sound_def usable_entry_def)
  moreover have "unat (gt_last_usable g) + 1 < 2 ^ 64" using assms(1) lba_align_pos [of g] by (simp add: gpt_sound_def)
  ultimately have r: "gt_first_usable g \<le> a \<and> a \<le> b \<and> b \<le> gt_last_usable g \<and> (\<forall>(f, e) \<in> set ?u. e < a \<or> b < f)"
    using assms(2) by (intro runs_between_free [of ?u]) (simp_all add: free_runs_def)
  moreover have "(ge_first (gt_entries g ! i), ge_last (gt_entries g ! i)) \<in> set ?u"
    if "i < length (gt_entries g)" "\<not> entry_is_empty (gt_entries g ! i)" for i
    using that by (auto simp: image_iff in_partitions intro!: bexI [of _ "(i, gt_entries g ! i)"])
  ultimately show ?thesis by blast
qed

section \<open>Allocation\<close>

lemma unat_div_ceil64:
  assumes "unat s + unat al < 2 ^ 64" "0 < unat al"
  shows "unat (div_ceil64 s al * al) = div_ceil (unat s) (unat al) * unat al"
proof -
  have lt: "div_ceil (unat s) (unat al) * unat al < 2 ^ 64" using div_ceil_less [OF assms(2), of "unat s"] assms(1) by linarith
  have "div_ceil (unat s) (unat al) = unat s div unat al + (if unat s mod unat al > 0 then 1 else 0)"
  proof -
    have "unat s = unat s div unat al * unat al + unat s mod unat al" by simp
    moreover have "(q * k + r + (k - 1)) div k = q + (if r > 0 then 1 else 0)" if "0 < k" "r < k" for q k r :: nat
    proof (cases "r = 0")
      case False
      then have "q * k + r + (k - 1) = (r - 1) + (q + 1) * k" using that by (simp add: algebra_simps)
      then have "(q * k + r + (k - 1)) div k = ((r - 1) + (q + 1) * k) div k" by (rule arg_cong)
      also have "\<dots> = q + 1" using that False by (subst div_mult_self1) simp_all
      finally show ?thesis using False by simp
    next
      case True
      have "((k - 1) + q * k) div k = q" using that by (subst div_mult_self1) simp_all
      with True show ?thesis by (simp add: add.commute)
    qed
    ultimately show ?thesis unfolding div_ceil_def using assms(2) mod_less_divisor by metis
  qed
  moreover have "unat (div_ceil64 s al) = unat s div unat al + (if unat s mod unat al > 0 then 1 else 0)"
  proof -
    have "unat (s div al) + 1 \<le> unat s + 1" by (simp add: unat_div_distrib)
    then have "unat (s div al) + 1 < 2 ^ 64" using assms by linarith
    then show ?thesis
      using unat_Suc [of "s div al"] by (simp add: div_ceil64_def word_less_nat_alt unat_div_distrib unat_mod_distrib)
  qed
  ultimately have "unat (div_ceil64 s al) = div_ceil (unat s) (unat al)" by simp
  with lt show ?thesis using unat_mult_lem [of "div_ceil64 s al" al] by simp
qed

lemma fit_run_in:
  assumes "fit_run al need runs = Some x" "0 < unat al" "\<forall>(a, b) \<in> set runs. a \<le> b \<and> unat b + unat al < 2 ^ 64" "0 < unat need"
  obtains a b where "(a, b) \<in> set runs" "a \<le> x" "unat x + (unat need - 1) \<le> unat b" "unat al dvd unat x"
  using assms(1,3)
proof (induction runs arbitrary: thesis)
  case (Cons r runs)
  obtain a b where r: "r = (a, b)" by fastforce
  let ?x = "div_ceil64 a al * al"
  have ab: "unat a \<le> unat b" "unat b + unat al < 2 ^ 64" using Cons.prems(3) r by (auto simp: word_le_nat_alt)
  have x: "unat ?x = div_ceil (unat a) (unat al) * unat al" by (rule unat_div_ceil64) (use ab assms(2) in linarith)+
  show ?case
  proof (cases "\<not> ?x > b \<and> b - ?x + 1 \<ge> need")
    case True
    then have eq: "x = ?x" using Cons.prems(2) by (simp add: r Let_def)
    have le: "unat ?x \<le> unat b" using True by (simp add: word_less_nat_alt)
    then have "unat (b - ?x) = unat b - unat ?x" by (intro unat_sub) (simp add: word_le_nat_alt)
    moreover have "unat (b - ?x) + 1 < 2 ^ 64" using calculation ab(2) assms(2) by linarith
    ultimately have "unat (b - ?x + 1) = unat b - unat ?x + 1" using unat_Suc by simp
    then have "unat need \<le> unat b - unat ?x + 1" using True by (simp add: word_le_nat_alt)
    moreover have "a \<le> ?x" using x div_ceil_ge [OF assms(2), of "unat a"] by (simp add: word_le_nat_alt)
    ultimately show ?thesis using Cons.prems(1) [of a b] le eq x r by simp
  next
    case False
    then have "fit_run al need runs = Some x" using Cons.prems(2) by (auto simp: r Let_def split: if_splits)
    then show ?thesis using Cons.IH Cons.prems(1,3) by auto
  qed
qed simp

lemma sound_update:
  assumes "gpt_sound g" "i < length (gt_entries g)"
    "\<not> entry_is_empty e \<Longrightarrow> usable_entry g e \<and> (\<forall>j < length (gt_entries g). j \<noteq> i \<and> \<not> entry_is_empty (gt_entries g ! j) \<longrightarrow> apart e (gt_entries g ! j))"
  shows "gpt_sound (g\<lparr>gt_entries := (gt_entries g)[i := e]\<rparr>)"
proof -
  have s: "apart x y \<longleftrightarrow> apart y x" for x y by (auto simp: apart_def)
  have r: "usable_entry (g\<lparr>gt_entries := es\<rparr>) x = usable_entry g x" "lba_align (g\<lparr>gt_entries := es\<rparr>) = lba_align g" for es x
    by (simp_all add: usable_entry_def lba_align_def)
  show ?thesis unfolding gpt_sound_def r
  proof (intro conjI allI impI)
    fix j k assume jk: "j < length (gt_entries (g\<lparr>gt_entries := (gt_entries g)[i := e]\<rparr>))" "k < length (gt_entries (g\<lparr>gt_entries := (gt_entries g)[i := e]\<rparr>))"
      and ne: "j \<noteq> k \<and> \<not> entry_is_empty (gt_entries (g\<lparr>gt_entries := (gt_entries g)[i := e]\<rparr>) ! j) \<and> \<not> entry_is_empty (gt_entries (g\<lparr>gt_entries := (gt_entries g)[i := e]\<rparr>) ! k)"
    show "apart (gt_entries (g\<lparr>gt_entries := (gt_entries g)[i := e]\<rparr>) ! j) (gt_entries (g\<lparr>gt_entries := (gt_entries g)[i := e]\<rparr>) ! k)"
      using jk ne assms s by (cases "j = i"; cases "k = i") (auto simp: gpt_sound_def)
  qed (use assms in \<open>auto simp: gpt_sound_def nth_list_update\<close>)
qed

text \<open>What the caller of an operation sees to: a partition has blocks.\<close>

datatype gpt_op = Alloc bytes ustring bytes u64 u64 | Ins GptEntry | Rem nat

fun gpt_step :: "gpt_op \<Rightarrow> Gpt \<Rightarrow> Gpt" where
  "gpt_step (Alloc guid name type_guid size_bytes attributes) g = snd (gpt_allocate guid name type_guid size_bytes attributes g)"
| "gpt_step (Ins e) g = snd (gpt_insert e g)"
| "gpt_step (Rem i) g = snd (gpt_remove i g)"

fun gpt_op_ok :: "gpt_op \<Rightarrow> bool" where
  "gpt_op_ok (Alloc guid name type_guid size_bytes attributes) \<longleftrightarrow> 0 < size_bytes"
| "gpt_op_ok (Ins e) \<longleftrightarrow> ge_first e \<le> ge_last e"
| "gpt_op_ok (Rem i) \<longleftrightarrow> True"

lemma first_free_slot_less: "first_free_slot g = Some i \<Longrightarrow> i < length (gt_entries g) \<and> entry_is_empty (gt_entries g ! i)"
  unfolding first_free_slot_def by (auto dest: position_SomeD)

lemma need_pos:
  assumes "0 < gt_block_size g" "0 < size_bytes"
  shows "0 < unat (div_ceil64 size_bytes (ucast (gt_block_size g)))"
proof -
  let ?b = "ucast (gt_block_size g) :: u64"
  have "unat (gt_block_size g) < 2 ^ 64" by (rule less_trans [OF unsigned_less]) simp
  then have "unat ?b = unat (gt_block_size g)" by (simp add: unsigned_ucast_eq take_bit_nat_eq_self)
  then have b0: "0 < unat ?b" using assms(1) by (simp add: word_less_nat_alt)
  show ?thesis
  proof (cases "size_bytes mod ?b > 0")
    case True
    let ?q = "unat size_bytes div unat ?b"
    have "unat size_bytes = ?q * unat ?b + unat size_bytes mod unat ?b" by simp
    moreover have "0 < unat size_bytes mod unat ?b" using True by (simp add: word_less_nat_alt unat_mod_distrib)
    moreover have "?q * 1 \<le> ?q * unat ?b" using b0 by (intro mult_le_mono2) simp
    ultimately have "?q + 1 \<le> unat size_bytes" by linarith
    then have "unat (size_bytes div ?b) + 1 < 2 ^ 64" using unsigned_less [of size_bytes, where 'a = nat] by (simp add: unat_div_distrib)
    then have "unat (size_bytes div ?b + 1) = unat (size_bytes div ?b) + 1" by (rule unat_Suc)
    then show ?thesis using True by (simp add: div_ceil64_def)
  next
    case False
    then have m: "size_bytes mod ?b = 0" by (simp add: word_greater_zero_iff)
    have "size_bytes div ?b \<noteq> 0" using assms(2) m div_mult_mod_eq [of size_bytes ?b] by auto
    then show ?thesis using m by (simp add: div_ceil64_def unat_gt_0)
  qed
qed

lemma allocate_sound:
  assumes "gpt_sound g" "0 < size_bytes"
  shows "gpt_sound (snd (gpt_allocate guid name type_guid size_bytes attributes g))"
proof (cases "first_free_slot g")
  case (Some slot)
  let ?need = "div_ceil64 size_bytes (ucast (gt_block_size g))"
  show ?thesis
  proof (cases "fit_run (lba_align g) ?need (free_runs g)")
    case fit: (Some x)
    have need: "0 < unat ?need" using assms by (intro need_pos) (simp_all add: gpt_sound_def)
    have runs: "\<forall>(a, b) \<in> set (free_runs g). a \<le> b \<and> unat b + unat (lba_align g) < 2 ^ 64"
      using free_runs_free [OF assms(1)] assms(1) by (fastforce simp: gpt_sound_def word_le_nat_alt)
    obtain a b where ab: "(a, b) \<in> set (free_runs g)" "a \<le> x" "unat x + (unat ?need - 1) \<le> unat b"
      using fit_run_in [OF fit lba_align_pos runs need] .
    note fr = free_runs_free [OF assms(1) ab(1)]
    have "unat (x + (?need - 1)) = unat x + (unat ?need - 1)"
    proof -
      have "unat (?need - 1) = unat ?need - 1" using need by (simp add: unat_minus_one unat_gt_0)
      moreover have "unat x + (unat ?need - 1) < 2 ^ 64" using ab(3) unsigned_less [of b, where 'a = nat] by simp
      ultimately show ?thesis using unat_add_lem [of x "?need - 1"] by simp
    qed
    then have last1: "unat (x + ?need - 1) = unat x + (unat ?need - 1)" by (simp add: add_diff_eq)
    then have xl: "x \<le> x + ?need - 1" "x + ?need - 1 \<le> b" using ab(3) by (simp_all add: word_le_nat_alt)
    have "gpt_sound (g\<lparr>gt_entries := (gt_entries g)[slot := \<lparr>ge_type = type_guid, ge_unique = guid, ge_first = x, ge_last = x + ?need - 1,
        ge_attributes = attributes, ge_name = name\<rparr>]\<rparr>)"
      by (rule sound_update [OF assms(1)])
        (use first_free_slot_less [OF Some] fr ab(2) xl in \<open>auto simp: usable_entry_def apart_def intro: order_trans less_le_trans le_less_trans\<close>)
    then show ?thesis using Some fit by (simp add: gpt_allocate_def Let_def)
  qed (use Some assms in \<open>simp add: gpt_allocate_def Let_def\<close>)
qed (use assms in \<open>simp add: gpt_allocate_def Let_def\<close>)

lemma insert_sound:
  assumes "gpt_sound g" "ge_first e \<le> ge_last e"
  shows "gpt_sound (snd (gpt_insert e g))"
proof (cases "ge_first e < gt_first_usable g \<or> ge_last e > gt_last_usable g
    \<or> find (\<lambda>(_, f). ge_first e \<le> ge_last f \<and> ge_first f \<le> ge_last e) (partitions g) \<noteq> None \<or> first_free_slot g = None")
  case True
  then show ?thesis using assms by (auto simp: gpt_insert_def Let_def split: option.split)
next
  case False
  then obtain slot where slot: "first_free_slot g = Some slot" by auto
  have "apart e (gt_entries g ! j)" if "j < length (gt_entries g)" "\<not> entry_is_empty (gt_entries g ! j)" for j
  proof -
    have "(j, gt_entries g ! j) \<in> set (partitions g)" using that by (simp add: in_partitions)
    then have "\<not> (ge_first e \<le> ge_last (gt_entries g ! j) \<and> ge_first (gt_entries g ! j) \<le> ge_last e)"
      using False by (auto simp: find_None_iff)
    then show ?thesis by (auto simp: apart_def)
  qed
  then have "gpt_sound (g\<lparr>gt_entries := (gt_entries g)[slot := e]\<rparr>)"
    using False assms first_free_slot_less [OF slot] by (intro sound_update) (auto simp: usable_entry_def not_less)
  moreover have "find (\<lambda>(_, f). ge_first e \<le> ge_last f \<and> ge_first f \<le> ge_last e) (partitions g) = None" using False by blast
  ultimately show ?thesis using False slot by (simp add: gpt_insert_def Let_def)
qed

lemma remove_sound: "gpt_sound g \<Longrightarrow> gpt_sound (snd (gpt_remove i g))"
  by (auto simp: gpt_remove_def entry_is_empty_def entry_empty_def intro!: sound_update)


definition sample_gpt :: Gpt where
  "sample_gpt = create_for (replicate 16 1) 512 134217728"


section \<open>The entries that are written\<close>

text \<open>
  A table may be read with more than 128 entries, but only the first 128 are written: a partition
  in a later slot is gone from both copies.
\<close>

theorem later_entries_lost: "gpt_render g = gpt_render (g\<lparr>gt_entries := take 128 (gt_entries g)\<rparr>)"
  by (simp add: gpt_render_def entry_array_def NUM_ENTRIES_def head_bytes_def tail_bytes_def protective_mbr_def gpt_header_bytes_def gpt_header_fields_def Let_def)

end
