(* ===== verification/GptFacts.thy ===== *)
theory GptFacts
  imports GptSpec PalletLayout
begin

text \<open>
  A table that was written is read back, entry for entry, from either of its copies.
\<close>

section \<open>Names\<close>

definition is_scalar :: "nat \<Rightarrow> bool" where
  "is_scalar c \<longleftrightarrow> c < 0xD800 \<or> 0xE000 \<le> c \<and> c < 0x110000"

lemma unat_of_nat16: "n < 65536 \<Longrightarrow> unat (of_nat n :: u16) = n"
  by (simp add: unat_of_nat take_bit_nat_eq_self)

lemma surrogate_iff: "n < 65536 \<Longrightarrow> ((0xD800 :: u16) \<le> of_nat n \<and> (of_nat n :: u16) < 0xE000) \<longleftrightarrow> 0xD800 \<le> n \<and> n < 0xE000"
  by (simp add: word_le_nat_alt word_less_nat_alt unat_of_nat16)

lemma lossy_basic: "c < 65536 \<Longrightarrow> is_scalar c \<Longrightarrow> from_utf16_lossy (of_nat c # us) = c # from_utf16_lossy us"
  using surrogate_iff [of c] by (cases us) (auto simp: is_scalar_def unat_of_nat16)

lemma lossy_pair:
  assumes "65536 \<le> c" "c < 0x110000"
  shows "from_utf16_lossy (utf16_char c @ us) = c # from_utf16_lossy us"
proof -
  let ?h = "0xD800 + (c - 0x10000) div 0x400" and ?l = "0xDC00 + (c - 0x10000) mod 0x400"
  have h: "?h < 0xDC00" "0xD800 \<le> ?h" using assms by auto
  have l: "?l < 0xE000" "0xDC00 \<le> ?l" using mod_less_divisor [of "0x400" "c - 0x10000"] by simp_all
  have "0x10000 + (?h - 0xD800) * 0x400 + (?l - 0xDC00) = c"
    using assms(1) div_mult_mod_eq [of "c - 0x10000" "0x400"] by simp
  moreover have "unat (of_nat ?h :: u16) = ?h" "unat (of_nat ?l :: u16) = ?l" using h l by (intro unat_of_nat16, linarith)+
  ultimately show ?thesis
    using assms(1) h l unfolding utf16_char_def by (simp add: word_le_nat_alt word_less_nat_alt del: of_nat_add)
qed

lemma utf16_roundtrip: "\<forall>c \<in> set s. is_scalar c \<Longrightarrow> from_utf16_lossy (encode_utf16 s) = s"
proof (induction s)
  case (Cons c s)
  then have "from_utf16_lossy (utf16_char c @ encode_utf16 s) = c # from_utf16_lossy (encode_utf16 s)"
    using lossy_basic [of c "encode_utf16 s"] lossy_pair [of c "encode_utf16 s"]
    by (cases "c < 65536") (simp add: utf16_char_def, auto simp: is_scalar_def)
  with Cons show ?case by (simp add: encode_utf16_def)
qed (simp add: encode_utf16_def)

lemma utf16_char_nonzero:
  assumes "is_scalar c" "c \<noteq> 0" "u \<in> set (utf16_char c)"
  shows "u \<noteq> 0"
proof -
  have "\<exists>n. u = of_nat n \<and> 0 < n \<and> n < 65536"
  proof (cases "c < 65536")
    case False
    let ?h = "0xD800 + (c - 0x10000) div 0x400" and ?l = "0xDC00 + (c - 0x10000) mod 0x400"
    have "?h < 65536" "?l < 65536" using assms(1) mod_less_divisor [of "0x400" "c - 0x10000"] by (auto simp: is_scalar_def)
    moreover have "u = of_nat ?h \<or> u = of_nat ?l" using assms(3) False unfolding utf16_char_def by auto
    ultimately show ?thesis by (metis add_gr_0 zero_less_numeral)
  qed (use assms in \<open>auto simp: utf16_char_def\<close>)
  then obtain n where "u = of_nat n" "0 < n" "n < 65536" by blast
  then show ?thesis using unat_of_nat16 [of n] by auto
qed

section \<open>Entries\<close>

definition entry_fits :: "GptEntry \<Rightarrow> bool" where
  "entry_fits e \<longleftrightarrow> length (ge_type e) = 16 \<and> length (ge_unique e) = 16 \<and> length (encode_utf16 (ge_name e)) \<le> NAME_UTF16_LEN \<and>
     (\<forall>c \<in> set (ge_name e). is_scalar c \<and> c \<noteq> 0)"

lemma slice_put_inside:
  assumes "at \<le> a" "b \<le> at + length src" "at + length src \<le> length buf"
  shows "slice_of a b (put at src buf) = slice_of (a - at) (b - at) src"
  using assms by (intro nth_equalityI) (auto simp: nth_slice nth_put)

lemma name_units_put:
  assumes "length us \<le> NAME_UTF16_LEN" "0 \<notin> set us" "length b = ENTRY_SIZE" "slice_of 56 128 b = zero_buf 72"
  shows "name_units (put 56 (concat (map (to_le 2) us)) b) = us"
proof -
  let ?s = "concat (map (to_le 2) us)"
  have len: "length ?s = length us * 2" using length_concat_same [of "map (to_le 2) us" 2] by simp
  have c: "56 + length ?s \<le> length b" using assms(1,3) len by (simp add: NAME_UTF16_LEN_def ENTRY_SIZE_def)
  have "from_le (slice_of (56 + i * 2) (58 + i * 2) (put 56 ?s b)) = (us @ replicate (NAME_UTF16_LEN - length us) 0) ! i"
    if "i < NAME_UTF16_LEN" for i
  proof (cases "i < length us")
    case True
    have "slice_of (56 + i * 2) (58 + i * 2) (put 56 ?s b) = slice_of (i * 2) (i * 2 + 2) ?s"
      using True c len by (subst slice_put_inside) simp_all
    also have "\<dots> = to_le 2 (us ! i)" using slice_concat [of "map (to_le 2) us" 2 i] True by simp
    finally show ?thesis using True by (simp add: nth_append)
  next
    case False
    have "slice_of (56 + i * 2) (58 + i * 2) (put 56 ?s b) = slice_of (56 + i * 2) (56 + i * 2 + 2) b"
      using False len by (subst slice_put_other) simp_all
    also have "\<dots> = slice_of (i * 2) (i * 2 + 2) (slice_of 56 128 b)"
      using that by (subst slice_slice) (simp_all add: NAME_UTF16_LEN_def)
    also have "\<dots> = replicate 2 0" using that unfolding assms(4) zero_buf_def by (simp add: NAME_UTF16_LEN_def min_def)
    also have "\<dots> = [0, 0]" by (simp add: numeral_2_eq_2)
    finally show ?thesis using False that by (simp add: nth_append)
  qed
  then have "map (\<lambda>i. from_le (slice_of (56 + i * 2) (58 + i * 2) (put 56 ?s b))) [0..<NAME_UTF16_LEN]
      = us @ replicate (NAME_UTF16_LEN - length us) 0"
    using assms(1) by (intro nth_equalityI) simp_all
  moreover have "takeWhile (\<lambda>u. u \<noteq> 0) (us @ replicate n 0) = us" for n
  proof -
    have "\<forall>u \<in> set us. u \<noteq> 0" using assms(2) by auto
    then show ?thesis by (subst takeWhile_append2) (cases n, auto)
  qed
  ultimately show ?thesis by (simp add: name_units_def)
qed

lemma parse_write_entry:
  assumes "entry_fits e"
  shows "parse_entry (write_entry e (zero_buf ENTRY_SIZE)) = e"
proof -
  let ?us = "encode_utf16 (ge_name e)"
  define b where "b = wr_u64 48 (ge_attributes e) (wr_u64 40 (ge_last e) (wr_u64 32 (ge_first e) (put 16 (ge_unique e) (put 0 (ge_type e) (zero_buf ENTRY_SIZE)))))"
  have g: "length (ge_type e) = 16" "length (ge_unique e) = 16" "length ?us \<le> 36" "\<forall>c \<in> set (ge_name e). is_scalar c"
    using assms by (auto simp: entry_fits_def NAME_UTF16_LEN_def)
  have w: "write_entry e (zero_buf ENTRY_SIZE) = put 56 (concat (map (to_le 2) ?us)) b"
    using g(3) by (simp add: write_entry_def b_def NAME_UTF16_LEN_def)
  have f: "slice_of 0 16 b = ge_type e" "slice_of 16 32 b = ge_unique e" "slice_of 32 40 b = to_le 8 (ge_first e)"
    "slice_of 40 48 b = to_le 8 (ge_last e)" "slice_of 48 56 b = to_le 8 (ge_attributes e)" "slice_of 56 128 b = zero_buf 72" "length b = ENTRY_SIZE"
    using g by (simp_all add: b_def wr_u64_def buf_simps ENTRY_SIZE_def) (simp add: zero_buf_def)
  have "0 \<notin> set ?us" using assms utf16_char_nonzero by (fastforce simp: encode_utf16_def entry_fits_def)
  then have "name_units (write_entry e (zero_buf ENTRY_SIZE)) = ?us"
    using g(3) f(6,7) unfolding w by (intro name_units_put) (simp_all add: NAME_UTF16_LEN_def)
  then show ?thesis
    using f g(4) unfolding parse_entry_def by (simp add: utf16_roundtrip u64_at_def w slice_put_other)
qed

lemma length_write_entry [simp]: "length (write_entry e b) = length b"
  by (simp add: write_entry_def Let_def wr_u64_def)

lemma write_entries_before: "c \<le> i * ENTRY_SIZE \<Longrightarrow> slice_of a c (write_entries i es arr) = slice_of a c arr"
  by (induction i es arr rule: write_entries.induct) (simp_all add: buf_simps)

lemma length_write_entries [simp]: "length (write_entries i es arr) = length arr"
  by (induction i es arr rule: write_entries.induct) simp_all

lemma write_entries_nth:
  assumes "(i + length es) * ENTRY_SIZE \<le> length arr" "k < length es"
  shows "slice_of ((i + k) * ENTRY_SIZE) ((i + k) * ENTRY_SIZE + ENTRY_SIZE) (write_entries i es arr)
    = write_entry (es ! k) (slice_of ((i + k) * ENTRY_SIZE) ((i + k) * ENTRY_SIZE + ENTRY_SIZE) arr)"
  using assms
proof (induction i es arr arbitrary: k rule: write_entries.induct)
  case (2 i e es arr)
  show ?case
  proof (cases k)
    case 0
    let ?e = "write_entry e (slice_of (i * ENTRY_SIZE) ((i + 1) * ENTRY_SIZE) arr)"
    have "i * ENTRY_SIZE + ENTRY_SIZE \<le> length arr" using 2(2) by (simp add: add_mult_distrib)
    then have "slice_of (i * ENTRY_SIZE) (i * ENTRY_SIZE + ENTRY_SIZE) (put (i * ENTRY_SIZE) ?e arr) = ?e"
      by (intro slice_put_same) (auto simp: min_def)
    with 0 show ?thesis by (simp add: write_entries_before add.commute)
  next
    case (Suc j)
    let ?e = "write_entry e (slice_of (i * ENTRY_SIZE) ((i + 1) * ENTRY_SIZE) arr)" and ?a = "(i + 1 + j) * ENTRY_SIZE"
    have "i * ENTRY_SIZE + length ?e \<le> ?a" by (simp add: add_mult_distrib)
    then have "slice_of ?a (?a + ENTRY_SIZE) (put (i * ENTRY_SIZE) ?e arr) = slice_of ?a (?a + ENTRY_SIZE) arr"
      by (intro slice_put_other) simp
    then show ?thesis using 2(1) [of j] 2(2,3) Suc by simp
  qed
qed simp

lemma parse_entry_array:
  assumes "length (gt_entries g) = NUM_ENTRIES" "\<forall>e \<in> set (gt_entries g). entry_fits e"
  shows "map (\<lambda>i. parse_entry (slice_of (i * ENTRY_SIZE) (i * ENTRY_SIZE + ENTRY_SIZE) (entry_array g))) [0..<NUM_ENTRIES] = gt_entries g"
proof (rule nth_equalityI)
  fix i assume "i < length (map (\<lambda>i. parse_entry (slice_of (i * ENTRY_SIZE) (i * ENTRY_SIZE + ENTRY_SIZE) (entry_array g))) [0..<NUM_ENTRIES])"
  then have i: "i < NUM_ENTRIES" by simp
  have "slice_of (i * ENTRY_SIZE) (i * ENTRY_SIZE + ENTRY_SIZE) (zero_buf entries_bytes) = zero_buf ENTRY_SIZE"
    using i by (simp add: zero_buf_def entries_bytes_def NUM_ENTRIES_def ENTRY_SIZE_def min_def)
  then have "slice_of (i * ENTRY_SIZE) (i * ENTRY_SIZE + ENTRY_SIZE) (entry_array g) = write_entry (gt_entries g ! i) (zero_buf ENTRY_SIZE)"
    using write_entries_nth [of 0 "gt_entries g" "zero_buf entries_bytes" i] assms(1) i by (simp add: entry_array_def entries_bytes_def)
  then show "map (\<lambda>i. parse_entry (slice_of (i * ENTRY_SIZE) (i * ENTRY_SIZE + ENTRY_SIZE) (entry_array g))) [0..<NUM_ENTRIES] ! i = gt_entries g ! i"
    using i assms by (simp add: parse_write_entry)
qed (simp add: assms)

lemma length_entry_array [simp]: "length (entry_array g) = entries_bytes"
  by (simp add: entry_array_def)

section \<open>The header\<close>

lemma length_header_fields [simp]: "length (gpt_header_fields g my alt el crc) = unat (gt_block_size g)"
  by (simp add: gpt_header_fields_def Let_def wr_u32_def wr_u64_def)

lemma length_gpt_header [simp]: "length (gpt_header_bytes g my alt el crc) = unat (gt_block_size g)"
  by (simp add: gpt_header_bytes_def Let_def wr_u32_def)

lemma header_fields_slices:
  fixes my alt el :: u64 and crc :: u32
  assumes "512 \<le> unat (gt_block_size g)" "length (gt_disk_guid g) = 16"
  defines "h \<equiv> gpt_header_fields g my alt el crc"
  shows "slice_of 0 8 h = GPT_SIGNATURE" "slice_of 12 16 h = to_le 4 HEADER_SIZE" "slice_of 16 20 h = to_le 4 (0 :: u32)"
    "slice_of 32 40 h = to_le 8 alt" "slice_of 40 48 h = to_le 8 (gt_first_usable g)" "slice_of 48 56 h = to_le 8 (gt_last_usable g)"
    "slice_of 56 72 h = gt_disk_guid g" "slice_of 72 80 h = to_le 8 el" "slice_of 80 84 h = to_le 4 (of_nat NUM_ENTRIES :: u32)"
    "slice_of 84 88 h = to_le 4 (of_nat ENTRY_SIZE :: u32)" "slice_of 88 92 h = to_le 4 crc"
  using assms(1,2) unfolding h_def gpt_header_fields_def Let_def
  by (simp_all add: wr_u32_def wr_u64_def buf_simps GPT_SIGNATURE_def) (simp add: zero_buf_def to_le_def numeral_eq_Suc)

lemma slice_gpt_header: "c \<le> 16 \<or> 20 \<le> a \<Longrightarrow> slice_of a c (gpt_header_bytes g my alt el crc) = slice_of a c (gpt_header_fields g my alt el crc)"
  by (auto simp: gpt_header_bytes_def Let_def wr_u32_def intro!: slice_put_other)

lemma put_back:
  assumes "slice_of at (at + length y) buf = y" "length x = length y" "at + length y \<le> n" "n \<le> length buf"
  shows "put at y (take n (put at x buf)) = take n buf"
proof (rule nth_equalityI)
  fix i assume "i < length (put at y (take n (put at x buf)))"
  then have i: "i < n" "i < length buf" using assms(4) by auto
  have "y ! (i - at) = buf ! i" if "at \<le> i" "i < at + length y"
    using nth_slice [of at "i - at" buf "at + length y"] that i assms(1) by simp
  then show "put at y (take n (put at x buf)) ! i = take n buf ! i" using i assms(2) by (simp add: nth_put)
qed simp

lemma gpt_header_bytes_ok:
  assumes "512 \<le> unat (gt_block_size g)" "length (gt_disk_guid g) = 16"
  shows "gpt_header_ok (gpt_header_bytes g my alt el crc)"
proof -
  let ?h = "gpt_header_bytes g my alt el crc" and ?f = "gpt_header_fields g my alt el crc"
  note s = header_fields_slices [OF assms, of my alt el crc]
  have size: "u32_at ?h 12 = HEADER_SIZE" using s(2) by (simp add: u32_at_def slice_gpt_header)
  have "u32_at ?h 16 = crc32 (take (unat HEADER_SIZE) ?f)"
    using assms(1) by (simp add: u32_at_def gpt_header_bytes_def Let_def wr_u32_def slice_put_same)
  moreover have "put 16 (to_le 4 (0 :: u32)) (take (unat HEADER_SIZE) ?h) = take (unat HEADER_SIZE) ?f"
    unfolding gpt_header_bytes_def Let_def wr_u32_def using assms(1) s(3) by (intro put_back) (simp_all add: HEADER_SIZE_def)
  ultimately show ?thesis by (simp add: gpt_header_ok_def size wr_u32_def)
qed

text \<open>A copy of the table on a device, wherever it lies, is read back.\<close>

definition gpt_fits :: "Gpt \<Rightarrow> bool" where
  "gpt_fits g \<longleftrightarrow> 512 \<le> gt_block_size g \<and> length (gt_disk_guid g) = 16 \<and> length (gt_entries g) = NUM_ENTRIES \<and> (\<forall>e \<in> set (gt_entries g). entry_fits e)"

lemma read_copy:
  assumes "gpt_fits g" "view_ok d (pv_whole d)"
    and hdr: "slice_of (unat lba * B) (unat lba * B + B) (bd_data d) = gpt_header_bytes g my alt el (crc32 (entry_array g))"
    and arr: "slice_of (unat el * B) (unat el * B + entries_bytes) (bd_data d) = entry_array g"
    and bounds: "unat lba * B + B \<le> length (bd_data d)" "unat el * B + entries_bytes \<le> length (bd_data d)"
    and B: "B = unat (gt_block_size g)"
  shows "gpt_read_at d (pv_whole d) (gt_block_size g) lba = Inr (g\<lparr>gt_alternate := alt, gt_recovered := False\<rparr>)"
proof -
  let ?h = "gpt_header_bytes g my alt el (crc32 (entry_array g))"
  have fit: "512 \<le> unat (gt_block_size g)" "length (gt_disk_guid g) = 16" using assms(1) by (simp_all add: gpt_fits_def word_le_nat_alt)
  have N: "unat (pv_len (pv_whole d)) = length (bd_data d)" "pv_start (pv_whole d) = 0"
    using assms(2) by (simp_all add: pv_whole_def view_ok_def unat_of_nat64)
  have at: "x * ucast (gt_block_size g) = (of_nat (unat x * B) :: u64)" for x :: u64 by (simp add: B)
  have r1: "pv_read_at d (pv_whole d) (lba * ucast (gt_block_size g)) B = Inr ?h"
    unfolding at using bounds(1) N hdr by (subst pv_read_at_eq [OF assms(2)]) simp_all
  have r2: "pv_read_at d (pv_whole d) (el * ucast (gt_block_size g)) entries_bytes = Inr (entry_array g)"
    unfolding at using bounds(2) N arr by (subst pv_read_at_eq [OF assms(2)]) simp_all
  have f: "slice_of 0 8 ?h = GPT_SIGNATURE" "u32_at ?h 12 = HEADER_SIZE" "u64_at ?h 32 = alt" "u64_at ?h 40 = gt_first_usable g"
    "u64_at ?h 48 = gt_last_usable g" "slice_of 56 72 ?h = gt_disk_guid g" "u64_at ?h 72 = el" "u32_at ?h 80 = of_nat NUM_ENTRIES"
    "u32_at ?h 84 = of_nat ENTRY_SIZE" "u32_at ?h 88 = crc32 (entry_array g)"
    by (simp_all add: u32_at_def u64_at_def slice_gpt_header header_fields_slices [OF fit])
  have n: "unat (of_nat NUM_ENTRIES :: u32) = NUM_ENTRIES" "unat (of_nat ENTRY_SIZE :: u32) = ENTRY_SIZE"
    by (simp_all add: NUM_ENTRIES_def ENTRY_SIZE_def)
  have z: "\<not> unat HEADER_SIZE > B" "0 < NUM_ENTRIES" "NUM_ENTRIES \<le> 4096" "NUM_ENTRIES * ENTRY_SIZE = entries_bytes"
    using fit(1) by (simp_all add: B HEADER_SIZE_def NUM_ENTRIES_def entries_bytes_def)
  have e: "map (\<lambda>i. parse_entry (slice_of (i * ENTRY_SIZE) (i * ENTRY_SIZE + ENTRY_SIZE) (entry_array g))) [0..<NUM_ENTRIES] = gt_entries g"
    using assms(1) by (intro parse_entry_array) (simp_all add: gpt_fits_def)
  show ?thesis unfolding gpt_read_at_def B [symmetric] r1
    using z by (simp add: f n r2 gpt_header_bytes_ok [OF fit] e)
qed

section \<open>Both copies\<close>

text \<open>The table belongs to the device: its backup header is the last block, and both copies fit.\<close>

definition gpt_home :: "Gpt \<Rightarrow> bdev \<Rightarrow> bool" where
  "gpt_home g d \<longleftrightarrow> view_ok d (pv_whole d) \<and> unat (gt_alternate g) + 1 = length (bd_data d) div unat (gt_block_size g) \<and>
     (3 + 2 * entries_lbas (gt_block_size g)) * unat (gt_block_size g) \<le> length (bd_data d)"

lemma entries_fit: "gpt_fits g \<Longrightarrow> entries_bytes \<le> entries_lbas (gt_block_size g) * unat (gt_block_size g)"
  unfolding entries_lbas_def by (rule div_ceil_ge) (auto simp: gpt_fits_def word_le_nat_alt)

lemma length_protective_mbr [simp]: "length (protective_mbr g b) = length b"
  by (simp add: protective_mbr_def Let_def wr_u32_def)

lemma gpt_render_copies:
  fixes g :: Gpt
  assumes "gpt_fits g"
  defines "B \<equiv> unat (gt_block_size g)" and "E \<equiv> entries_lbas (gt_block_size g)" and "crc \<equiv> crc32 (entry_array g)"
  shows "length (fst (gpt_render g)) = (2 + E) * B" "length (snd (gpt_render g)) = (1 + E) * B"
    "slice_of B (B + B) (fst (gpt_render g)) = gpt_header_bytes g 1 (gt_alternate g) 2 crc"
    "slice_of (2 * B) (2 * B + entries_bytes) (fst (gpt_render g)) = entry_array g"
    "slice_of (E * B) (E * B + B) (snd (gpt_render g)) = gpt_header_bytes g (gt_alternate g) 1 (gt_alternate g - of_nat E) crc"
    "slice_of 0 entries_bytes (snd (gpt_render g)) = entry_array g"
proof -
  note fit = entries_fit [OF assms(1), folded B_def E_def]
  show "length (fst (gpt_render g)) = (2 + E) * B" "length (snd (gpt_render g)) = (1 + E) * B"
    by (simp_all add: gpt_render_def Let_def head_bytes_def tail_bytes_def B_def E_def)
  show "slice_of B (B + B) (fst (gpt_render g)) = gpt_header_bytes g 1 (gt_alternate g) 2 crc"
    by (simp add: gpt_render_def Let_def head_bytes_def slice_put_other slice_put_same crc_def flip: B_def)
  show "slice_of (2 * B) (2 * B + entries_bytes) (fst (gpt_render g)) = entry_array g"
    using fit by (simp add: gpt_render_def Let_def head_bytes_def slice_put_same flip: B_def E_def)
  show "slice_of (E * B) (E * B + B) (snd (gpt_render g)) = gpt_header_bytes g (gt_alternate g) 1 (gt_alternate g - of_nat E) crc"
    by (simp add: gpt_render_def Let_def tail_bytes_def slice_put_same crc_def flip: B_def E_def)
  show "slice_of 0 entries_bytes (snd (gpt_render g)) = entry_array g"
    using fit by (simp add: gpt_render_def Let_def tail_bytes_def slice_put_other slice_put_same flip: B_def E_def)
qed

text \<open>Bytes of the device replaced behind the table's back.\<close>

definition overwrite :: "nat \<Rightarrow> bytes \<Rightarrow> bdev \<Rightarrow> bdev" where
  "overwrite at b d = d\<lparr>bd_data := put at b (bd_data d)\<rparr>"

lemma overwrite_simps [simp]:
  "bd_bs (overwrite at b d) = bd_bs d" "length (bd_data (overwrite at b d)) = length (bd_data d)"
  "pv_whole (overwrite at b d) = pv_whole d" "view_ok (overwrite at b d) v = view_ok d v" "gpt_home g (overwrite at b d) = gpt_home g d"
  "default_lba_size is_file (overwrite at b d) = default_lba_size is_file d"
  by (simp_all add: overwrite_def pv_whole_def view_ok_def gpt_home_def default_lba_size_def)

lemma slice_overwrite_in:
  "at + length b \<le> length (bd_data d) \<Longrightarrow> x + n \<le> length b \<Longrightarrow> slice_of (at + x) (at + x + n) (bd_data (overwrite at b d)) = slice_of x (x + n) b"
  by (simp add: overwrite_def slice_put_inside)

lemma slice_overwrite_out:
  "c \<le> at \<or> at + length b \<le> a \<Longrightarrow> slice_of a c (bd_data (overwrite at b d)) = slice_of a c (bd_data d)"
  unfolding overwrite_def by (simp add: slice_put_other)

lemma home_offsets:
  assumes "gpt_fits g" "gpt_home g d"
  defines "B \<equiv> unat (gt_block_size g)" and "E \<equiv> entries_lbas (gt_block_size g)" and "A \<equiv> unat (gt_alternate g)"
  shows "tail_offset g = of_nat ((A - E) * B)" "unat (gt_alternate g - of_nat E) = A - E" "2 + 2 * E \<le> A" "(A + 1) * B \<le> length (bd_data d)" "512 \<le> B"
    "of_nat (length (bd_data d)) div ucast (gt_block_size g) - 1 = gt_alternate g" "4 * B \<le> length (bd_data d)" "1 \<le> E"
    "unat ((of_nat ((A - E) * B)) :: u64) = (A - E) * B"
proof -
  let ?N = "length (bd_data d)"
  show B: "512 \<le> B" using assms(1) by (simp add: gpt_fits_def word_le_nat_alt B_def)
  have N: "?N < 2 ^ 64" and A: "A + 1 = ?N div B" and cap: "(3 + 2 * E) * B \<le> ?N" using assms(2) by (simp_all add: gpt_home_def view_ok_def A_def B_def E_def)
  have "3 + 2 * E \<le> ?N div B" using cap B by (simp add: less_eq_div_iff_mult_less_eq)
  then show le: "2 + 2 * E \<le> A" using A by simp
  show A1: "(A + 1) * B \<le> ?N" unfolding A by simp
  have "entries_bytes \<le> E * B" using entries_fit [OF assms(1)] by (simp add: B_def E_def)
  then show "1 \<le> E" by (cases E) (simp_all add: entries_bytes_def NUM_ENTRIES_def ENTRY_SIZE_def)
  then have "4 * B \<le> (3 + 2 * E) * B" by (intro mult_le_mono1) simp
  with cap show "4 * B \<le> ?N" by (rule order_trans [rotated])
  have AE: "of_nat (A - E) = gt_alternate g - of_nat E" using le by (simp add: of_nat_diff A_def)
  then show "tail_offset g = of_nat ((A - E) * B)" by (simp add: tail_offset_def E_def B_def)
  have "A - E < 2 ^ 64" unfolding A_def using unsigned_less [of "gt_alternate g", where 'a = nat] by (simp add: less_imp_diff_less)
  then show "unat (gt_alternate g - of_nat E) = A - E" unfolding AE [symmetric] by (rule unat_of_nat64)
  have "(A - E) * B \<le> (A + 1) * B" by (rule mult_le_mono1) simp
  then show "unat ((of_nat ((A - E) * B)) :: u64) = (A - E) * B" using A1 N by (intro unat_of_nat64) linarith
  have Bw: "unat (ucast (gt_block_size g) :: u64) = B"
  proof -
    have "unat (gt_block_size g) < 2 ^ 64" by (rule less_trans [OF unsigned_less]) simp
    then show ?thesis by (simp add: unsigned_ucast_eq take_bit_nat_eq_self B_def)
  qed
  have q: "unat (of_nat ?N div ucast (gt_block_size g) :: u64) = A + 1" using N A by (simp add: unat_div_distrib Bw unat_of_nat64)
  then show "of_nat ?N div ucast (gt_block_size g) - 1 = gt_alternate g"
    unfolding word_unat_eq_iff by (subst unat_minus_one) (auto simp: A_def)
qed

lemma home_bounds:
  assumes "gpt_fits g" "gpt_home g d"
  shows "head_bytes g \<le> unat (tail_offset g)" "unat (tail_offset g) + tail_bytes g \<le> length (bd_data d)"
    "2 * unat (gt_block_size g) + entries_bytes \<le> head_bytes g"
proof -
  let ?B = "unat (gt_block_size g)" and ?E = "entries_lbas (gt_block_size g)" and ?A = "unat (gt_alternate g)"
  note o = home_offsets [OF assms]
  have t: "unat (tail_offset g) = (?A - ?E) * ?B" unfolding o(1) by (rule o(9))
  show "head_bytes g \<le> unat (tail_offset g)" unfolding t head_bytes_def using o(3) by (intro mult_le_mono1) simp
  have "(?A - ?E) * ?B + (1 + ?E) * ?B = (?A + 1) * ?B" using o(3) by (simp only: add_mult_distrib [symmetric]) simp
  then show "unat (tail_offset g) + tail_bytes g \<le> length (bd_data d)" unfolding t tail_bytes_def using o(4) by simp
  show "2 * ?B + entries_bytes \<le> head_bytes g" using entries_fit [OF assms(1)] by (simp add: head_bytes_def add_mult_distrib)
qed

lemma gpt_write_eq:
  assumes "gpt_fits g" "gpt_home g d"
  shows "gpt_write g d = (Inr (), overwrite 0 (fst (gpt_render g)) (overwrite (unat (tail_offset g)) (snd (gpt_render g)) d))"
proof -
  note b = home_bounds [OF assms] and r = gpt_render_copies(1,2) [OF assms(1)]
  have v: "view_ok d (pv_whole d)" and N: "unat (pv_len (pv_whole d)) = length (bd_data d)" "pv_start (pv_whole d) = 0"
    using assms(2) by (simp_all add: pv_whole_def view_ok_def gpt_home_def unat_of_nat64)
  have len: "length (fst (gpt_render g)) = head_bytes g" "length (snd (gpt_render g)) = tail_bytes g" using r by (simp_all add: head_bytes_def tail_bytes_def)
  let ?d = "overwrite (unat (tail_offset g)) (snd (gpt_render g)) d"
  have "pv_write_at d (pv_whole d) (of_nat (unat (tail_offset g))) (snd (gpt_render g)) = (Inr (), ?d)"
    using b N len unfolding overwrite_def by (subst pv_write_at_eq [OF v]) simp_all
  moreover have "pv_write_at ?d (pv_whole d) (of_nat 0) (fst (gpt_render g)) = (Inr (), overwrite 0 (fst (gpt_render g)) ?d)"
    using b N len v by (subst pv_write_at_eq) (simp_all add: overwrite_def [of 0])
  ultimately show ?thesis by (cases "gpt_render g") (simp add: gpt_write_def Let_def)
qed

text \<open>The first size tried is the table's own.\<close>

lemma gpt_read_first:
  assumes "gpt_fits g" "gpt_home g d" "gt_block_size g = default_lba_size is_file d"
  shows "gpt_read_at d (pv_whole d) (gt_block_size g) 1 = Inr h \<Longrightarrow> gpt_read is_file d = Inr (h\<lparr>gt_alternate := gt_alternate g\<rparr>)"
    and "gpt_read_at d (pv_whole d) (gt_block_size g) 1 = Inl e \<Longrightarrow> gpt_read_at d (pv_whole d) (gt_block_size g) (gt_alternate g) = Inr h
      \<Longrightarrow> gpt_read is_file d = Inr (h\<lparr>gt_recovered := True, gt_alternate := gt_alternate g\<rparr>)"
  using home_offsets(6,7) [OF assms(1,2)] by (simp_all add: gpt_read_def Let_def flip: assms(3))

lemma read_primary:
  assumes "gpt_fits g" "gpt_home g d" "gt_block_size g = default_lba_size is_file d"
    and "\<And>a c. c \<le> head_bytes g \<Longrightarrow> slice_of a c (bd_data d) = slice_of a c (fst (gpt_render g))"
  shows "gpt_read is_file d = Inr (g\<lparr>gt_recovered := False\<rparr>)"
proof -
  note r = gpt_render_copies [OF assms(1)] and b = home_bounds [OF assms(1,2)]
  have "gpt_read_at d (pv_whole d) (gt_block_size g) 1 = Inr (g\<lparr>gt_alternate := gt_alternate g, gt_recovered := False\<rparr>)"
    by (rule read_copy [where B = "unat (gt_block_size g)" and el = 2 and my = 1])
      (use assms r b in \<open>simp_all add: gpt_home_def\<close>)
  then show ?thesis using gpt_read_first(1) [OF assms(1-3)] by simp
qed

lemma read_backup:
  assumes "gpt_fits g" "gpt_home g d" "gt_block_size g = default_lba_size is_file d"
    and sig: "slice_of (unat (gt_block_size g)) (unat (gt_block_size g) + 8) (bd_data d) \<noteq> GPT_SIGNATURE"
    and tl: "\<And>a n. a + n \<le> tail_bytes g \<Longrightarrow> slice_of (unat (tail_offset g) + a) (unat (tail_offset g) + a + n) (bd_data d) = slice_of a (a + n) (snd (gpt_render g))"
  shows "gpt_read is_file d = Inr (g\<lparr>gt_recovered := True\<rparr>)"
proof -
  let ?B = "unat (gt_block_size g)" and ?E = "entries_lbas (gt_block_size g)" and ?A = "unat (gt_alternate g)"
  note r = gpt_render_copies [OF assms(1)] and b = home_bounds [OF assms(1,2)] and o = home_offsets [OF assms(1,2)]
  have t: "unat (tail_offset g) = (?A - ?E) * ?B" unfolding o(1) by (rule o(9))
  have A: "?A * ?B = unat (tail_offset g) + ?E * ?B" unfolding t using o(3) by (simp only: add_mult_distrib [symmetric]) simp
  have eb: "entries_bytes \<le> tail_bytes g" using entries_fit [OF assms(1)] by (simp add: tail_bytes_def)
  have copy2: "gpt_read_at d (pv_whole d) (gt_block_size g) (gt_alternate g) = Inr (g\<lparr>gt_alternate := 1, gt_recovered := False\<rparr>)"
  proof (rule read_copy [where B = ?B and el = "gt_alternate g - of_nat ?E" and my = "gt_alternate g"])
    show "slice_of (?A * ?B) (?A * ?B + ?B) (bd_data d) = gpt_header_bytes g (gt_alternate g) 1 (gt_alternate g - of_nat ?E) (crc32 (entry_array g))"
      unfolding A using tl [of "?E * ?B" ?B] r(5) by (simp add: tail_bytes_def)
    show "slice_of (unat (gt_alternate g - of_nat ?E) * ?B) (unat (gt_alternate g - of_nat ?E) * ?B + entries_bytes) (bd_data d) = entry_array g"
      using tl [of 0 entries_bytes] r(6) eb by (simp add: o(2) t)
    show "?A * ?B + ?B \<le> length (bd_data d)" using o(4) by simp
    show "unat (gt_alternate g - of_nat ?E) * ?B + entries_bytes \<le> length (bd_data d)" using b(2) eb by (simp add: o(2) t)
  qed (use assms in \<open>simp_all add: gpt_home_def\<close>)
  have v: "view_ok d (pv_whole d)" and N: "unat (pv_len (pv_whole d)) = length (bd_data d)" "pv_start (pv_whole d) = 0"
    using assms(2) by (simp_all add: pv_whole_def view_ok_def gpt_home_def unat_of_nat64)
  have "pv_read_at d (pv_whole d) (of_nat ?B) ?B = Inr (slice_of ?B (?B + ?B) (bd_data d))"
    using o(7) N by (subst pv_read_at_eq [OF v]) simp_all
  moreover have "slice_of 0 8 (slice_of ?B (?B + ?B) (bd_data d)) = slice_of ?B (?B + 8) (bd_data d)"
    using slice_slice [of 8 "?B + ?B" ?B 0] o(5) by simp
  ultimately have "gpt_read_at d (pv_whole d) (gt_block_size g) 1 = Inl PeNotGpt"
    using sig by (simp add: gpt_read_at_def)
  from gpt_read_first(2) [OF assms(1-3) this copy2] show ?thesis by simp
qed


definition named_gpt :: Gpt where
  "named_gpt = (create_for (replicate 16 1) 512 40960)\<lparr>gt_entries := (replicate NUM_ENTRIES entry_empty)[3 :=
     \<lparr>ge_type = PALLET_TYPE_GUID, ge_unique = replicate 16 7, ge_first = 40, ge_last = 41, ge_attributes = 0, ge_name = [0x64, 0x1F4E6]\<rparr>]\<rparr>"

definition blank_device :: bdev where
  "blank_device = \<lparr>bd_bs = 512, bd_data = replicate 40960 0\<rparr>"


end
