(* ===== verification/Spec2Isabelle.thy ===== *)
theory Spec2Isabelle
  imports SlabCrash ExtentBitmap Stripe RebuildLive GemFacts PalletSelect PalletFacts GptFacts
begin

text \<open>
  StormBlock, a block storage engine in Rust: a verification library of its core.

  \<^bold>\<open>The program.\<close> Drives are gathered into arrays with redundancy (\<open>src/raid\<close>), or are divided
  into \<open>slabs\<close> of fixed-size slots (\<open>src/drive/slab.rs\<close>). Volumes are thin: a \<open>global extent map\<close>
  (\<open>src/volume/gem.rs\<close>, over the packed tables of \<open>src/volume/extable.rs\<close>) names for each extent of
  each volume the slots that hold it, with a share count and a generation; parity groups over the
  extents (\<open>src/volume/stripe.rs\<close>) protect them against the loss of a slab. Software is shipped as
  \<open>pallets\<close>, partitions with tables, digests and a signature that firmware reads before a kernel
  runs (\<open>crates/pallet-format\<close>), written by \<open>src/pallet\<close>. Volumes are served over iSCSI, NVMe-oF,
  ublk and vhost; a management API and a cluster layer sit on top.

  \<^bold>\<open>What is modelled\<close>, theory by theory, each importing the ones it rests on.

  \<^item> \<open>Prelude\<close>: machine words, buffers with little-endian fields, ordered maps, list facts, and the
    lemma collections \<open>buf_simps\<close> and \<open>word_nat\<close>.

  Slabs (\<open>src/drive\<close>).
  \<^item> \<open>Device\<close>: the device of \<open>crashdev.rs\<close>: a durable image, the writes since the last flush, and every
    image that a power cut can leave.
  \<^item> \<open>FreeMap\<close>: \<open>freemap.rs\<close>, the free-slot bitmap with its summary; the locale \<open>free_slots\<close> is what a slab
    relies on, interpreted on the code's operations; the summarised search equals a plain scan.
  \<^item> \<open>SlotCodec\<close>: the 64-byte slot entry and the slab header of both formats, with their round trips.
  \<^item> \<open>Slab\<close>, \<open>SlabFormat\<close>: the record \<open>slab\<close> and the operations of \<open>slab.rs\<close>: allocation, confirmation,
    the parts of a sync, frees and share counts, erasing, growth, formatting and opening.
  \<^item> \<open>SlabInv\<close>, \<open>SlabFree\<close>, \<open>SlabOps\<close>, \<open>SlabSteps\<close>: the invariant, that every operation keeps it and what it
    does to the map of owned slots, and the inductive step relation of a slab.
  \<^item> \<open>SlabCrash\<close>: reachable states are sound and account for each slot once; an allocation hands out a
    slot that is free in every image a power cut can leave; recovery from any such image is sound and
    owns nothing unpublished; a sync is durable; batches are all or nothing. And where the code breaks
    its own rules: a confirmation beside a running sync, a free whose entry was not written.

  Arrays (\<open>src/raid\<close>, \<open>src/volume/extent.rs\<close>).
  \<^item> \<open>ExtentBitmap\<close>: the extent allocator of \<open>extent.rs\<close>.
  \<^item> \<open>Gf\<close>, \<open>ParityGf\<close>, \<open>ParitySimd\<close>: GF(2^8) as \<open>stripe.rs\<close> and \<open>parity.rs\<close> compute it, by shifts, by tables and
    at every SIMD level; the locale \<open>gf_arith\<close> states the field, interpreted on both engines.
  \<^item> \<open>RaidParity\<close>, \<open>RecoverTotal\<close>: \<open>recover\<close> and the fault location of \<open>parity.rs\<close>: what was lost comes
    back exactly, more than the level tolerates is refused, a single bad strip is found.
  \<^item> \<open>GaussJordan\<close>, \<open>Stripe\<close>: the parity of volumes and the erasure code of \<open>stripe.rs\<close> with its matrix
    inversion: any lost members are rebuilt exactly whenever enough legs survive.
  \<^item> \<open>RaidLayout\<close>: \<open>layout.rs\<close>: strips and members, placement of bytes, splitting of ranges.
  \<^item> \<open>IntentBitmap\<close>: \<open>bitmap.rs\<close> and its protocol, as a step relation: a write that was let through is
    marked on the disk; and the interleaving that breaks this.
  \<^item> \<open>Superblock\<close>: the member superblock of \<open>superblock.rs\<close>, written and read back.
  \<^item> \<open>RaidArray\<close>, \<open>RaidFrame\<close>, \<open>RaidAgree\<close>, \<open>RaidRead\<close>, \<open>RaidWrite\<close>, \<open>RaidStripe\<close>, \<open>RaidMirror\<close>: the engine of
    \<open>mod.rs\<close> (the record \<open>RaidArray\<close>, reads, writes and flushes at every level, failing members,
    superblocks and bitmap pages), what an operation leaves alone, and the relation \<open>agree\<close> between the
    members and a logical image that reads answer from and writes move.
  \<^item> \<open>RaidStore\<close>: the specification, a flat store of bytes; the locale \<open>total_simulation\<close> turns a step-wise
    simulation into one of runs, and the array is an instance at every level, with any calls failing.
  \<^item> \<open>RaidRebuild\<close>, \<open>RebuildUnit\<close>, \<open>RebuildTask\<close>, \<open>RebuildStore\<close>: replacement of drives and the rebuild
    task; with I/O, failures and replacements between its batches the array stays the flat store
    (locale \<open>guarded_simulation\<close>, of which \<open>total_simulation\<close> is a sublocale); a rebuild ends.
  \<^item> \<open>RaidHealthy\<close>, \<open>RaidLive\<close>, \<open>RebuildLive\<close>: on drives that fail no call an intact array answers everything
    with success and a rebuild completes; a drive put into the slot of a running rebuild's target is
    taken for rebuilt, which is a defect of the code.

  Extent maps (\<open>src/volume\<close>).
  \<^item> \<open>ExTable\<close>, \<open>ExTableSpec\<close>: the packed table of \<open>extable.rs\<close> refines an ordered map of full locations; the
    locale \<open>table_laws\<close> is interpreted on the table and on the ordered map it replaces.
  \<^item> \<open>Gem\<close>, \<open>GemSpec\<close>, \<open>GemWhole\<close>, \<open>GemSync\<close>, \<open>GemFacts\<close>: the operations of \<open>gem.rs\<close>, the record of changes, the
    system of maps, persists, evictions and loads beside the store: writing what is recorded as changed
    leaves the store equal to every map; moves, clones and recovery do what their callers rely on.

  Pallets (\<open>crates/pallet-format\<close>, \<open>src/pallet\<close>).
  \<^item> \<open>Pallet\<close>: the reader of \<open>lib.rs\<close>: checksum, superblock, tables, remap, digests and verification.
  \<^item> \<open>PalletSelect\<close>: \<open>select.rs\<close>: the choice, the fallback and the sort in place agree.
  \<^item> \<open>PalletSpec\<close>: no input makes the reader panic; the digest of a member whose extents cover it is the
    hash of its bytes; one kind of extent makes it loop forever.
  \<^item> \<open>PalletBuild\<close>: \<open>format.rs\<close>, the partition view and content sources of \<open>mod.rs\<close>, \<open>attach\<close> of \<open>sign.rs\<close>.
  \<^item> \<open>PalletView\<close>: the view reads and writes exactly the bytes asked for, and its bound wraps; the trait
    \<open>MemberContent\<close> as the locale \<open>member_source\<close>, interpreted on \<open>BytesContent\<close> (and shown for
    \<open>DeviceContent\<close>).
  \<^item> \<open>PalletLayout\<close>, \<open>PalletContents\<close>, \<open>PalletPublish\<close>, \<open>PalletVerify\<close>: what the builder lays out, what it
    writes, what the reader makes of it.
  \<^item> \<open>PalletFacts\<close>: a published pallet verifies; the two readers agree; an interrupted publish leaves an
    older superblock in place; attaching a signature changes nothing else.
  \<^item> \<open>Gpt\<close>: \<open>gpt.rs\<close>: the partition table in bytes, both copies of it, free runs and the placing of partitions.
  \<^item> \<open>GptSpec\<close>: partitions never overlap, whatever is allocated, inserted and removed; entries past the
    hundred and twenty-eighth are lost when a table is written.
  \<^item> \<open>GptFacts\<close>: a table that was written is read back, names included, from either copy when the other is
    destroyed.

  \<^bold>\<open>How the code is read.\<close> A panic is \<open>None\<close>, and so is a loop that does not end; errors are the left
  of a sum. Loops that may not end are \<open>partial_function\<close>, and the theorems about them say that
  they return. No definition takes fuel. Counters that
  wrap in a release build are words (share counts, generations, events, the offsets of pallets and
  of partition views); other offsets and sizes are natural numbers, because a device is smaller than
  \<open>2^64\<close> bytes. Machines are little-endian, SIMD instructions do what the instruction set manuals say.
  CRC-32C, SHA-256, the clocks and Ed25519 are parameters; the CRC-32 of pallets is the code's own.
  Hash maps are lists, walked in some order.

  Concurrency: operations of a slab, of the extent map and of the intent bitmap run under their locks
  and are steps; the parts of a sync, of a bitmap write and of a rebuild, between which locks are
  released, are steps of their own that others come between. Device calls issued together run in the
  order of the list. A script of booleans decides which calls fail; a failed slab write leaves some of
  its entries, a failed write of an array member any bytes in its range.

  \<^bold>\<open>What is not modelled\<close>, and why. In \<open>raid/mod.rs\<close>: creation, assembly, resync, scrub, proactive
  replacement and growth. In \<open>drive/slab.rs\<close>: the metadata region, tiers and statistics. The volume
  manager and thin volumes (\<open>volume/mod.rs\<close>, \<open>thin.rs\<close>), whose tasks join the components above through
  asynchronous I/O; metadata stores, which are serde records; the pallet manager, which is host
  operations around the format and the table; iSCSI and NVMe-oF, ublk and vhost front ends, which are
  protocol and kernel I/O; the cluster, which is message passing over a raft library; images,
  filesystems, management API, user interface and command line.
\<close>

end
